(* ===== verification/Prelude.thy ===== *)
theory Prelude
  imports Complex_Main "HOL-Library.List_Lexorder" "HOL-Library.Char_ord"
    "HOL-Library.Product_Lexorder" "HOL-Library.Multiset" "HOL-Library.Sublist"
begin

text \<open>
  The vocabulary every component of the development shares.

  Postgres tables are lists of rows. \<open>upd_where p f t\<close> is
  \<^verbatim>\<open>UPDATE t SET f WHERE p\<close>, \<open>hits p t\<close> the number of rows the statement affected,
  \<open>returning p f t\<close> its \<^verbatim>\<open>RETURNING\<close> list. \<open>order_by\<close> is a stable
  \<^verbatim>\<open>ORDER BY\<close> and \<open>first_row\<close> is \<^verbatim>\<open>rows[0]\<close>. A primary key is a projection with
  \<open>distinct\<close> images. Database instants are \<^typ>\<open>int\<close> microseconds, which is the resolution of
  \<^verbatim>\<open>timestamptz\<close>; JavaScript \<^verbatim>\<open>Date\<close> values are \<^typ>\<open>int\<close> milliseconds and \<open>of_date\<close> is
  the bind of one into a statement.
\<close>

named_theorems table_simps \<open>rewriting of the table statements\<close>
named_theorems wf_intros \<open>introduction of the row invariants\<close>

type_synonym uuid = string
type_synonym db_time = int
type_synonym js_date = int

abbreviation of_date :: "js_date \<Rightarrow> db_time" where
  "of_date ms \<equiv> ms * 1000"

section \<open>Statements over a table\<close>

definition upd_where :: "('r \<Rightarrow> bool) \<Rightarrow> ('r \<Rightarrow> 'r) \<Rightarrow> 'r list \<Rightarrow> 'r list" where
  "upd_where p f t = map (\<lambda>r. if p r then f r else r) t"

definition hits :: "('r \<Rightarrow> bool) \<Rightarrow> 'r list \<Rightarrow> nat" where
  "hits p t = length (filter p t)"

definition returning :: "('r \<Rightarrow> bool) \<Rightarrow> ('r \<Rightarrow> 'r) \<Rightarrow> 'r list \<Rightarrow> 'r list" where
  "returning p f t = map f (filter p t)"

definition first_row :: "'r list \<Rightarrow> 'r option" where
  "first_row t = (case t of [] \<Rightarrow> None | r # _ \<Rightarrow> Some r)"

definition order_by :: "('r \<Rightarrow> 'k::linorder) \<Rightarrow> 'r list \<Rightarrow> 'r list" where
  "order_by k t = sort_key k t"

lemma upd_where_Nil [simp, table_simps]: "upd_where p f [] = []"
  by (simp add: upd_where_def)

lemma upd_where_Cons [simp, table_simps]:
  "upd_where p f (r # t) = (if p r then f r else r) # upd_where p f t"
  by (simp add: upd_where_def)

lemma length_upd_where [simp]: "length (upd_where p f t) = length t"
  by (simp add: upd_where_def)

lemma set_upd_where: "set (upd_where p f t) = (\<lambda>r. if p r then f r else r) ` set t"
  by (simp add: upd_where_def)

lemma upd_where_id: "(\<And>r. r \<in> set t \<Longrightarrow> \<not> p r) \<Longrightarrow> upd_where p f t = t"
  by (induction t) auto

lemma upd_where_all: "(\<And>r. r \<in> set t \<Longrightarrow> P r) \<Longrightarrow> (\<And>r. P r \<Longrightarrow> p r \<Longrightarrow> P (f r))
    \<Longrightarrow> r \<in> set (upd_where p f t) \<Longrightarrow> P r"
  by (auto simp: set_upd_where split: if_splits)

lemma map_key_upd_where: "(\<And>r. p r \<Longrightarrow> k (f r) = k r) \<Longrightarrow> map k (upd_where p f t) = map k t"
  by (induction t) auto

lemma filter_upd_where: "(\<And>r. p r \<Longrightarrow> p (f r)) \<Longrightarrow> filter p (upd_where p f t) = map f (filter p t)"
  by (induction t) auto

lemma upd_where_mem: "r \<in> set t \<Longrightarrow> (if p r then f r else r) \<in> set (upd_where p f t)"
  by (auto simp: set_upd_where)

lemma hits_Nil [simp, table_simps]: "hits p [] = 0"
  by (simp add: hits_def)

lemma hits_Cons [simp, table_simps]: "hits p (r # t) = (if p r then Suc (hits p t) else hits p t)"
  by (simp add: hits_def)

lemma hits_0_iff: "hits p t = 0 \<longleftrightarrow> (\<forall>r\<in>set t. \<not> p r)"
  by (auto simp: hits_def filter_empty_conv)

lemma upd_where_no_hits: "hits p t = 0 \<Longrightarrow> upd_where p f t = t"
  by (auto simp: hits_0_iff intro: upd_where_id)

lemma length_returning: "length (returning p f t) = hits p t"
  by (simp add: returning_def hits_def)

lemma first_row_None_iff [simp]: "first_row t = None \<longleftrightarrow> t = []"
  by (cases t) (auto simp: first_row_def)

lemma first_row_Some: "first_row t = Some r \<Longrightarrow> r \<in> set t"
  by (cases t) (auto simp: first_row_def)

lemma first_row_simps [simp]: "first_row [] = None" "first_row (r # t) = Some r"
  by (auto simp: first_row_def)

lemma set_order_by [simp]: "set (order_by k t) = set t"
  by (simp add: order_by_def)

lemma length_order_by [simp]: "length (order_by k t) = length t"
  by (simp add: order_by_def)

lemma order_by_Nil_iff [simp]: "order_by k t = [] \<longleftrightarrow> t = []"
  by (metis set_empty set_order_by)

lemma first_row_order_by_least:
  assumes "first_row (order_by k t) = Some r" and "s \<in> set t"
  shows "k r \<le> k s"
proof -
  obtain rs where rs: "order_by k t = r # rs"
    using assms(1) by (cases "order_by k t") auto
  have "sorted (map k (order_by k t))"
    by (simp add: order_by_def)
  then have "\<forall>x\<in>set rs. k r \<le> k x"
    by (simp add: rs)
  moreover have "s \<in> set (r # rs)"
    using assms(2) rs by (metis set_order_by)
  ultimately show ?thesis by auto
qed

section \<open>Primary keys\<close>

lemma distinct_key_unique:
  "distinct (map k t) \<Longrightarrow> r \<in> set t \<Longrightarrow> s \<in> set t \<Longrightarrow> k r = k s \<Longrightarrow> r = s"
  by (induction t) (auto simp: rev_image_eqI)

lemma hits_key_le_1:
  assumes "distinct (map k t)" and "\<And>r. p r \<Longrightarrow> k r = x"
  shows "hits p t \<le> 1"
  using assms
proof (induction t)
  case Nil
  then show ?case by simp
next
  case (Cons r t)
  show ?case
  proof (cases "p r")
    case True
    then have "\<forall>s\<in>set t. \<not> p s"
      using Cons.prems by (metis distinct.simps(2) imageI list.set_map list.simps(9))
    then have "hits p t = 0" by (simp add: hits_0_iff)
    then show ?thesis by simp
  next
    case False
    with Cons show ?thesis by simp
  qed
qed

lemma hits_key_eq_1:
  assumes "distinct (map k t)" and "\<And>r. p r \<Longrightarrow> k r = x"
  shows "hits p t = 1 \<longleftrightarrow> (\<exists>r\<in>set t. p r)"
  using hits_key_le_1 [of k t p x, OF assms] hits_0_iff [of p t] by (auto simp: le_Suc_eq)

lemma upd_where_mem_unchanged: "r \<in> set t \<Longrightarrow> \<not> p r \<Longrightarrow> r \<in> set (upd_where p f t)"
  by (auto simp: set_upd_where image_iff)

lemma upd_where_mem_changed: "r \<in> set t \<Longrightarrow> p r \<Longrightarrow> f r \<in> set (upd_where p f t)"
  by (auto simp: set_upd_where image_iff)

lemma lookup_upd_where:
  assumes "\<And>r. p r \<Longrightarrow> k (f r) = k r"
  shows "first_row (filter (\<lambda>r. k r = x) (upd_where p f t))
    = map_option (\<lambda>r. if p r then f r else r) (first_row (filter (\<lambda>r. k r = x) t))"
  using assms by (induction t) auto

lemma lookup_mem: "distinct (map k t) \<Longrightarrow> r \<in> set t \<Longrightarrow> first_row (filter (\<lambda>s. k s = k r) t) = Some r"
  by (induction t) (auto simp: rev_image_eqI)

lemma hits_upd_where_le:
  "(\<And>r. r \<in> set t \<Longrightarrow> p r \<Longrightarrow> q (f r) \<Longrightarrow> q r) \<Longrightarrow> hits q (upd_where p f t) \<le> hits q t"
  by (induction t) (auto intro: le_SucI)

lemma hits_append [simp]: "hits p (t @ u) = hits p t + hits p u"
  by (simp add: hits_def)

section \<open>Text\<close>

text \<open>\<^verbatim>\<open>left(x, n)\<close> of Postgres and \<^verbatim>\<open>s.slice(0, n)\<close> of JavaScript on a non-negative bound.\<close>

definition left_text :: "nat \<Rightarrow> string \<Rightarrow> string" where
  "left_text n s = take n s"

lemma length_left_text [simp]: "length (left_text n s) \<le> n"
  by (simp add: left_text_def)

text \<open>Decimal digits of a string, as the pattern \<^verbatim>\<open>/^\d+$/\<close> accepts them, and \<^verbatim>\<open>Number(s)\<close> on it.\<close>

definition is_digit :: "char \<Rightarrow> bool" where
  "is_digit c \<longleftrightarrow> CHR ''0'' \<le> c \<and> c \<le> CHR ''9''"

definition digit_val :: "char \<Rightarrow> nat" where
  "digit_val c = of_char c - 48"

definition all_digits :: "string \<Rightarrow> bool" where
  "all_digits s \<longleftrightarrow> s \<noteq> [] \<and> list_all is_digit s"

definition number_of :: "string \<Rightarrow> nat" where
  "number_of s = foldl (\<lambda>n c. 10 * n + digit_val c) 0 s"

text \<open>Decimal text of an integer, as a template literal prints it.\<close>

fun nat_text :: "nat \<Rightarrow> string" where
  "nat_text n = (if n < 10 then [char_of (48 + n)] else nat_text (n div 10) @ [char_of (48 + n mod 10)])"

declare nat_text.simps [simp del]

definition int_text :: "int \<Rightarrow> string" where
  "int_text i = (if i < 0 then CHR ''-'' # nat_text (nat (- i)) else nat_text (nat i))"

text \<open>\<^verbatim>\<open>s.split(c)\<close> on a one-character separator.\<close>

fun split_on :: "char \<Rightarrow> string \<Rightarrow> string list" where
  "split_on c [] = [[]]"
| "split_on c (x # xs) =
     (if x = c then [] # split_on c xs
      else case split_on c xs of [] \<Rightarrow> [[x]] | w # ws \<Rightarrow> (x # w) # ws)"

lemma split_on_not_Nil [simp]: "split_on c s \<noteq> []"
  by (induction s) (auto split: list.splits)

lemma split_on_no_sep: "w \<in> set (split_on c s) \<Longrightarrow> c \<notin> set w"
  by (induction s arbitrary: w) (auto split: if_splits list.splits)

fun join_with :: "char \<Rightarrow> string list \<Rightarrow> string" where
  "join_with c [] = []"
| "join_with c [w] = w"
| "join_with c (w # ws) = w @ c # join_with c ws"

lemma join_with_Cons: "ws \<noteq> [] \<Longrightarrow> join_with c (w # ws) = w @ c # join_with c ws"
  by (cases ws) auto

lemma join_split [simp]: "join_with c (split_on c s) = s"
proof (induction s)
  case Nil
  then show ?case by simp
next
  case (Cons x s)
  obtain w ws where sp: "split_on c s = w # ws"
    by (cases "split_on c s") auto
  with Cons show ?case
    by (cases ws) (auto simp: join_with_Cons)
qed

section \<open>Booleans of lists\<close>

lemma list_all_filter [simp]: "list_all p (filter p t)"
  by (simp add: list_all_iff)

section \<open>Taking an element out\<close>

definition without :: "nat \<Rightarrow> 'a list \<Rightarrow> 'a list" where
  "without n xs = take n xs @ drop (Suc n) xs"

lemma length_filter_without:
  assumes "n < length xs"
  shows "length (filter P xs) = length (filter P (without n xs)) + (if P (xs ! n) then 1 else 0)"
proof -
  have "length (filter P xs) = length (filter P (take n xs @ xs ! n # drop (Suc n) xs))" using id_take_nth_drop [OF assms] by simp
  then show ?thesis by (simp add: without_def)
qed

lemma list_all_without: "list_all P xs \<Longrightarrow> list_all P (without n xs)"
  by (auto simp: list_all_iff without_def dest: in_set_takeD in_set_dropD)

section \<open>Histories\<close>

text \<open>A component whose operations keep an invariant keeps it along every sequence of operations.\<close>

locale history =
  fixes step :: "'op \<Rightarrow> 's \<Rightarrow> 's"
    and inv :: "'s \<Rightarrow> bool"
  assumes step_inv: "inv s \<Longrightarrow> inv (step op s)"
begin

lemma fold_inv: "inv s \<Longrightarrow> inv (fold step ops s)"
  by (induction ops arbitrary: s) (auto intro: step_inv)

end

text \<open>Facts that, once true of a state, stay true.\<close>

locale persistent_history = history +
  fixes fact :: "'s \<Rightarrow> bool"
  assumes step_fact: "inv s \<Longrightarrow> fact s \<Longrightarrow> fact (step op s)"
begin

lemma fold_fact: "inv s \<Longrightarrow> fact s \<Longrightarrow> fact (fold step ops s)"
  by (induction ops arbitrary: s) (auto intro: step_inv step_fact)

end

end
