(* ===== verification/Job_Table.thy ===== *)
theory Job_Table
  imports Prelude
begin

text \<open>
  The columns that \<^verbatim>\<open>core.review_jobs\<close> and \<^verbatim>\<open>core.background_jobs\<close> have in common, the fence every
  settling statement carries, the claim predicate with its order, and the row invariant both
  repositories keep. The two repositories extend the record with their own columns.

  The locale \<open>lease_queue\<close> is the contract the runners rely on: one row-level law per operation.
  Its lemmas (stale tokens change nothing, terminal rows are final, the attempt budget holds along
  every history) are proved once there and reached for both repositories by interpretation.
\<close>

section \<open>Rows\<close>

datatype job_state = Ready | Leased | Done | Dead | Cancelled

record job_core =
  job_id :: uuid
  state :: job_state
  priority :: int
  run_after :: db_time
  lease_owner :: "string option"
  attempt_token :: "uuid option"
  leased_until :: "db_time option"
  timeout_at :: "db_time option"
  heartbeat_at :: "db_time option"
  attempts :: nat
  max_attempts :: nat
  finished_at :: "db_time option"
  dead_reason :: "string option"
  last_error :: "string option"
  created_at :: db_time
  payload_sha256 :: string

definition active :: "'x job_core_scheme \<Rightarrow> bool" where
  "active r \<longleftrightarrow> state r = Ready \<or> state r = Leased"

definition terminal :: "'x job_core_scheme \<Rightarrow> bool" where
  "terminal r \<longleftrightarrow> state r = Done \<or> state r = Dead \<or> state r = Cancelled"

lemma active_iff_not_terminal: "active r \<longleftrightarrow> \<not> terminal r"
  by (cases "state r") (auto simp: active_def terminal_def)

section \<open>The fence and the claim\<close>

text \<open>\<^verbatim>\<open>WHERE job_id = $ AND state = 'leased' AND lease_owner = $ AND attempt_token = $\<close>\<close>

definition fenced :: "uuid \<Rightarrow> string \<Rightarrow> uuid \<Rightarrow> 'x job_core_scheme \<Rightarrow> bool" where
  "fenced jid owner tok r \<longleftrightarrow>
     job_id r = jid \<and> state r = Leased \<and> lease_owner r = Some owner \<and> attempt_token r = Some tok"

text \<open>\<^verbatim>\<open>lease_owner = NULL, attempt_token = NULL, leased_until = NULL, timeout_at = NULL,
  heartbeat_at = NULL\<close>\<close>

definition clear_lease :: "'x job_core_scheme \<Rightarrow> 'x job_core_scheme" where
  "clear_lease r = r\<lparr>lease_owner := None, attempt_token := None, leased_until := None,
     timeout_at := None, heartbeat_at := None\<rparr>"

text \<open>An expired lease: \<^verbatim>\<open>leased_until < now()\<close>, which is not true of a NULL column.\<close>

definition lease_expired :: "db_time \<Rightarrow> 'x job_core_scheme \<Rightarrow> bool" where
  "lease_expired now r \<longleftrightarrow> (case leased_until r of None \<Rightarrow> False | Some u \<Rightarrow> u < now)"

definition claimable :: "db_time \<Rightarrow> 'x job_core_scheme \<Rightarrow> bool" where
  "claimable now r \<longleftrightarrow>
     state r = Ready \<and> run_after r \<le> now
     \<or> state r = Leased \<and> lease_expired now r \<and> attempts r < max_attempts r"

definition reapable :: "db_time \<Rightarrow> 'x job_core_scheme \<Rightarrow> bool" where
  "reapable now r \<longleftrightarrow> state r = Leased \<and> lease_expired now r \<and> max_attempts r \<le> attempts r"

text \<open>\<^verbatim>\<open>ORDER BY priority DESC, run_after, created_at, job_id\<close>\<close>

definition claim_key :: "'x job_core_scheme \<Rightarrow> int \<times> int \<times> int \<times> string" where
  "claim_key r = (- priority r, run_after r, created_at r, job_id r)"

text \<open>The subselect with \<^verbatim>\<open>FOR UPDATE SKIP LOCKED LIMIT 1\<close>: rows locked by a concurrent transaction
  are skipped.\<close>

definition pick_claim :: "(uuid \<Rightarrow> bool) \<Rightarrow> db_time \<Rightarrow> 'x job_core_scheme list \<Rightarrow> 'x job_core_scheme option" where
  "pick_claim locked now t =
     first_row (order_by claim_key (filter (\<lambda>r. claimable now r \<and> \<not> locked (job_id r)) t))"

lemma pick_claim_Some:
  assumes "pick_claim locked now t = Some r"
  shows "r \<in> set t" and "claimable now r" and "\<not> locked (job_id r)"
  using first_row_Some [OF assms [unfolded pick_claim_def]] by auto

lemma pick_claim_None_iff:
  "pick_claim locked now t = None \<longleftrightarrow> (\<forall>r\<in>set t. claimable now r \<longrightarrow> locked (job_id r))"
  by (auto simp: pick_claim_def filter_empty_conv)

lemma pick_claim_least:
  assumes "pick_claim locked now t = Some r" and "s \<in> set t" and "claimable now s"
    and "\<not> locked (job_id s)"
  shows "claim_key r \<le> claim_key s"
  using assms first_row_order_by_least unfolding pick_claim_def by fastforce

text \<open>The exponential backoff in microseconds: \<^verbatim>\<open>base * power(2, attempts - 1) * (0.75 + random() * 0.5)\<close>
  milliseconds; \<open>rnd\<close> is the value of \<^verbatim>\<open>random()\<close>.\<close>

definition backoff_us :: "int \<Rightarrow> nat \<Rightarrow> rat \<Rightarrow> int" where
  "backoff_us baseMs n rnd =
     round (of_int baseMs * (2 powi (int n - 1)) * (3 / 4 + rnd * (1 / 2)) * 1000)"

section \<open>The row invariant\<close>

text \<open>
  Lease columns are set exactly on leased rows, \<open>finished_at\<close> exactly on terminal rows, a dead row
  says why, and the attempt counter respects the budget: it never exceeds \<open>max_attempts\<close>, a leased
  row has spent at least one attempt and a ready row has at least one left.
\<close>

definition job_wf :: "'x job_core_scheme \<Rightarrow> bool" where
  "job_wf r \<longleftrightarrow>
     (lease_owner r \<noteq> None \<longleftrightarrow> state r = Leased) \<and>
     (attempt_token r \<noteq> None \<longleftrightarrow> state r = Leased) \<and>
     (leased_until r \<noteq> None \<longleftrightarrow> state r = Leased) \<and>
     (timeout_at r \<noteq> None \<longleftrightarrow> state r = Leased) \<and>
     (heartbeat_at r \<noteq> None \<longleftrightarrow> state r = Leased) \<and>
     (finished_at r \<noteq> None \<longleftrightarrow> terminal r) \<and>
     (state r = Dead \<longrightarrow> dead_reason r \<noteq> None) \<and>
     1 \<le> max_attempts r \<and> attempts r \<le> max_attempts r \<and>
     (state r = Leased \<longrightarrow> 1 \<le> attempts r) \<and>
     (state r = Ready \<longrightarrow> attempts r < max_attempts r)"

lemmas job_defs = job_wf_def terminal_def fenced_def clear_lease_def

lemma claimable_attempts: "job_wf r \<Longrightarrow> claimable now r \<Longrightarrow> attempts r < max_attempts r"
  by (auto simp: claimable_def job_wf_def)

lemma claimable_active: "claimable now r \<Longrightarrow> active r"
  by (auto simp: claimable_def active_def)

lemma fenced_active: "fenced jid owner tok r \<Longrightarrow> active r"
  by (auto simp: fenced_def active_def)

lemma reapable_active: "reapable now r \<Longrightarrow> active r"
  by (auto simp: reapable_def active_def)

lemma fenced_job_id: "fenced jid owner tok r \<Longrightarrow> job_id r = jid"
  by (simp add: fenced_def)

text \<open>Every leased row whose lease ran out belongs to exactly one of the two recoveries.\<close>

lemma expired_claimable_xor_reapable:
  "state r = Leased \<Longrightarrow> lease_expired now r \<Longrightarrow> claimable now r \<noteq> reapable now r"
  by (auto simp: claimable_def reapable_def)

section \<open>The lifecycle of a row\<close>

text \<open>
  \<open>job_step pres mint r r'\<close>: one statement may take row \<open>r\<close> to \<open>r'\<close>. \<open>pres\<close> is the attempt token
  the statement presents, \<open>mint\<close> the token it mints. Only a claim mints, and everything that
  touches a leased row before its lease ran out presents that row's token.
\<close>

inductive job_step :: "uuid option \<Rightarrow> uuid option \<Rightarrow> 'x job_core_scheme \<Rightarrow> 'x job_core_scheme \<Rightarrow> bool" where
  js_stutter: "job_step pres mint r r"
| js_claim: "claimable now r \<Longrightarrow> state r' = Leased \<Longrightarrow> attempt_token r' = Some tok \<Longrightarrow>
     attempts r' = Suc (attempts r) \<Longrightarrow> job_step pres (Some tok) r r'"
| js_beat: "state r = Leased \<Longrightarrow> attempt_token r = Some tok \<Longrightarrow> state r' = Leased \<Longrightarrow>
     attempt_token r' = Some tok \<Longrightarrow> attempts r' = attempts r \<Longrightarrow> job_step (Some tok) mint r r'"
| js_retry: "state r = Leased \<Longrightarrow> attempt_token r = Some tok \<Longrightarrow> state r' = Ready \<Longrightarrow>
     attempts r' = attempts r \<Longrightarrow> attempts r < max_attempts r \<Longrightarrow> job_step (Some tok) mint r r'"
| js_defer: "state r = Leased \<Longrightarrow> attempt_token r = Some tok \<Longrightarrow> state r' = Ready \<Longrightarrow>
     attempts r' = attempts r - 1 \<Longrightarrow> job_step (Some tok) mint r r'"
| js_finish: "state r = Leased \<Longrightarrow> attempt_token r = Some tok \<Longrightarrow> terminal r' \<Longrightarrow>
     attempts r' = attempts r \<Longrightarrow> job_step (Some tok) mint r r'"
| js_reap: "reapable now r \<Longrightarrow> state r' = Dead \<Longrightarrow> attempts r' = attempts r \<Longrightarrow>
     job_step pres mint r r'"

inductive_cases job_step_elim: "job_step pres mint r r'"

lemma job_step_terminal: "job_step pres mint r r' \<Longrightarrow> terminal r \<Longrightarrow> r' = r"
  by (erule job_step_elim) (auto simp: terminal_def claimable_def reapable_def)

lemma job_step_token:
  assumes "job_step pres mint r r'" and "job_wf r'" and "attempt_token r' = Some tok"
  shows "attempt_token r = Some tok \<or> mint = Some tok"
  using assms by (auto elim!: job_step_elim simp: job_wf_def terminal_def)

text \<open>A row that is ready at birth has spent nothing.\<close>

definition newborn :: "'x job_core_scheme \<Rightarrow> bool" where
  "newborn r \<longleftrightarrow> state r = Ready \<and> attempts r = 0 \<and> job_wf r"

definition keyed_step :: "uuid option \<Rightarrow> uuid option \<Rightarrow> 'x job_core_scheme \<Rightarrow> 'x job_core_scheme \<Rightarrow> bool" where
  "keyed_step pres mint r r' \<longleftrightarrow>
     job_id r' = job_id r \<and> max_attempts r' = max_attempts r \<and> (job_wf r \<longrightarrow> job_wf r') \<and>
     job_step pres mint r r'"

definition table_step ::
  "uuid option \<Rightarrow> uuid option \<Rightarrow> 'x job_core_scheme list \<Rightarrow> 'x job_core_scheme list \<Rightarrow> bool" where
  "table_step pres mint t t' \<longleftrightarrow>
     (\<exists>us news. t' = us @ news \<and> list_all2 (keyed_step pres mint) t us \<and>
        (\<forall>n\<in>set news. newborn n) \<and> distinct (map job_id news) \<and>
        job_id ` set news \<inter> job_id ` set t = {})"

definition table_wf :: "'x job_core_scheme list \<Rightarrow> bool" where
  "table_wf t \<longleftrightarrow> distinct (map job_id t) \<and> (\<forall>r\<in>set t. job_wf r)"

lemma keyed_step_refl [simp]: "keyed_step pres mint r r"
  by (simp add: keyed_step_def js_stutter)

lemma keyed_step_ids: "list_all2 (keyed_step pres mint) t us \<Longrightarrow> map job_id us = map job_id t"
  by (induction rule: list_all2_induct) (auto simp: keyed_step_def)

lemma keyed_step_all_wf:
  "list_all2 (keyed_step pres mint) t us \<Longrightarrow> \<forall>r\<in>set t. job_wf r \<Longrightarrow> \<forall>r\<in>set us. job_wf r"
  by (induction rule: list_all2_induct) (auto simp: keyed_step_def)

lemma table_step_refl [simp]: "table_step pres mint t t"
  unfolding table_step_def by (rule exI [of _ t], rule exI [of _ "[]"]) (simp add: list.rel_refl)

lemma table_step_upd_where:
  assumes "\<And>r. r \<in> set t \<Longrightarrow> p r \<Longrightarrow> keyed_step pres mint r (f r)"
  shows "table_step pres mint t (upd_where p f t)"
proof -
  have "list_all2 (keyed_step pres mint) t (upd_where p f t)"
    using assms by (induction t) auto
  then show ?thesis unfolding table_step_def
    by (intro exI [of _ "upd_where p f t"] exI [of _ "[]"]) simp
qed

lemma table_step_insert:
  assumes "newborn n" and "job_id n \<notin> job_id ` set t"
  shows "table_step pres mint t (t @ [n])"
  unfolding table_step_def
  by (rule exI [of _ t], rule exI [of _ "[n]"]) (use assms in \<open>auto simp: list.rel_refl\<close>)

lemma table_step_wf:
  assumes "table_step pres mint t t'" and "table_wf t"
  shows "table_wf t'"
proof -
  from assms(1) obtain us news where t': "t' = us @ news"
    and st: "list_all2 (keyed_step pres mint) t us"
    and n: "\<forall>n\<in>set news. newborn n" "distinct (map job_id news)"
      "job_id ` set news \<inter> job_id ` set t = {}"
    by (auto simp: table_step_def)
  have ids: "map job_id us = map job_id t" using st by (rule keyed_step_ids)
  then have idset: "job_id ` set us = job_id ` set t" by (metis set_map)
  have "\<forall>r\<in>set us. job_wf r"
    using st assms(2) by (simp add: table_wf_def keyed_step_all_wf)
  moreover have "distinct (map job_id t')"
    using assms(2) n(2,3) ids idset t' by (auto simp: table_wf_def)
  ultimately show ?thesis
    using n(1) t' by (auto simp: table_wf_def newborn_def)
qed

lemma table_step_terminal:
  assumes "table_step pres mint t t'" and "r \<in> set t" and "terminal r"
  shows "r \<in> set t'"
proof -
  from assms(1) obtain us news where t': "t' = us @ news"
    and st: "list_all2 (keyed_step pres mint) t us"
    by (auto simp: table_step_def)
  from assms(2) obtain i where i: "i < length t" "t ! i = r"
    by (auto simp: in_set_conv_nth)
  with st have "keyed_step pres mint r (us ! i)" "i < length us"
    by (auto simp: list_all2_conv_all_nth)
  then have "us ! i = r" using assms(3) by (auto simp: keyed_step_def dest: job_step_terminal)
  with \<open>i < length us\<close> show ?thesis using t' by (metis nth_mem Un_iff set_append)
qed

lemma table_step_token:
  assumes "table_step pres mint t t'" and "table_wf t" and "r' \<in> set t'"
    and "attempt_token r' = Some tok"
  shows "(\<exists>r\<in>set t. job_id r = job_id r' \<and> attempt_token r = Some tok) \<or> mint = Some tok"
proof -
  from assms(1) obtain us news where t': "t' = us @ news"
    and st: "list_all2 (keyed_step pres mint) t us" and n: "\<forall>n\<in>set news. newborn n"
    by (auto simp: table_step_def)
  have "r' \<notin> set news" using n assms(4) by (auto simp: newborn_def job_wf_def)
  with assms(3) t' obtain i where i: "i < length us" "us ! i = r'"
    by (auto simp: in_set_conv_nth)
  with st have k: "keyed_step pres mint (t ! i) r'" and "t ! i \<in> set t"
    by (auto simp: list_all2_conv_all_nth)
  then have "job_wf r'" using assms(2) by (auto simp: table_wf_def keyed_step_def)
  with k assms(4) \<open>t ! i \<in> set t\<close> show ?thesis
    by (auto simp: keyed_step_def dest!: job_step_token)
qed

lemma settle_keyed_step:
  assumes "fenced jid owner tok r" and "terminal r'" and "job_id r' = job_id r"
    and "max_attempts r' = max_attempts r" and "attempts r' = attempts r" and "job_wf r \<Longrightarrow> job_wf r'"
  shows "keyed_step (Some tok) mint r r'"
  using assms by (auto simp: keyed_step_def fenced_def intro: js_finish)

lemma defer_keyed_step:
  assumes "fenced jid owner tok r" and "state r' = Ready" and "job_id r' = job_id r"
    and "max_attempts r' = max_attempts r" and "attempts r' = attempts r - 1" and "job_wf r \<Longrightarrow> job_wf r'"
  shows "keyed_step (Some tok) mint r r'"
  using assms by (auto simp: keyed_step_def fenced_def intro: js_defer)

lemma beat_keyed_step:
  assumes "fenced jid owner tok r" and "state r' = Leased" and "attempt_token r' = attempt_token r"
    and "job_id r' = job_id r" and "max_attempts r' = max_attempts r" and "attempts r' = attempts r"
    and "job_wf r \<Longrightarrow> job_wf r'"
  shows "keyed_step (Some tok) mint r r'"
  using assms by (auto simp: keyed_step_def fenced_def intro: js_beat)

lemma reap_keyed_step:
  assumes "reapable now r" and "state r' = Dead" and "job_id r' = job_id r"
    and "max_attempts r' = max_attempts r" and "attempts r' = attempts r" and "job_wf r \<Longrightarrow> job_wf r'"
  shows "keyed_step pres mint r r'"
  using assms by (auto simp: keyed_step_def intro: js_reap)

lemma fenced_token_absent: "\<forall>r\<in>set t. attempt_token r \<noteq> Some tok \<Longrightarrow> upd_where (fenced jid owner tok) f t = t"
  by (rule upd_where_id) (auto simp: fenced_def)

section \<open>The contract the runners rely on\<close>

text \<open>
  \<open>exec op t\<close> is the table after one statement of the repository. \<open>presents\<close> and \<open>mints\<close> read the
  tokens off the operation. The two laws are the refinement of the repository to the row lifecycle
  and the fence: an operation that presents a token no row carries changes nothing.
\<close>

locale lease_queue =
  fixes exec :: "'op \<Rightarrow> 'x job_core_scheme list \<Rightarrow> 'x job_core_scheme list"
    and presents :: "'op \<Rightarrow> uuid option"
    and mints :: "'op \<Rightarrow> uuid option"
  assumes exec_step: "distinct (map job_id t) \<Longrightarrow> table_step (presents op) (mints op) t (exec op t)"
    and exec_fence: "presents op = Some tok \<Longrightarrow> \<forall>r\<in>set t. attempt_token r \<noteq> Some tok \<Longrightarrow> exec op t = t"
begin

lemma exec_wf: "table_wf t \<Longrightarrow> table_wf (exec op t)"
  using table_step_wf [OF exec_step] unfolding table_wf_def by blast

lemma history_wf: "table_wf t \<Longrightarrow> table_wf (fold exec ops t)"
  by (induction ops arbitrary: t) (auto intro: exec_wf)

lemma history_terminal:
  "table_wf t \<Longrightarrow> r \<in> set t \<Longrightarrow> terminal r \<Longrightarrow> r \<in> set (fold exec ops t)"
proof (induction ops arbitrary: t)
  case (Cons op ops)
  have "table_step (presents op) (mints op) t (exec op t)"
    using Cons.prems(1) by (intro exec_step) (simp add: table_wf_def)
  then have "r \<in> set (exec op t)" using Cons.prems(2,3) by (rule table_step_terminal)
  then show ?case using Cons exec_wf by simp
qed simp

lemma history_no_token:
  assumes "table_wf t" and "\<forall>r\<in>set t. attempt_token r \<noteq> Some tok"
    and "\<forall>op\<in>set ops. mints op \<noteq> Some tok"
  shows "\<forall>r\<in>set (fold exec ops t). attempt_token r \<noteq> Some tok"
  using assms
proof (induction ops arbitrary: t)
  case Nil
  then show ?case by simp
next
  case (Cons op ops)
  have "\<forall>r\<in>set (exec op t). attempt_token r \<noteq> Some tok"
    using Cons.prems table_step_token [OF exec_step Cons.prems(1)]
    by (fastforce simp: table_wf_def)
  moreover have "table_wf (exec op t)"
    using Cons.prems(1) by (rule exec_wf)
  ultimately show ?case using Cons.IH Cons.prems(3) by simp
qed

text \<open>A token that left the table is worthless for good: whatever happens in between, an operation
  that presents it later is without effect.\<close>

theorem stale_token_no_effect:
  assumes "table_wf t" and "\<forall>r\<in>set t. attempt_token r \<noteq> Some tok"
    and "\<forall>op\<in>set ops. mints op \<noteq> Some tok" and "presents late = Some tok"
  shows "exec late (fold exec ops t) = fold exec ops t"
  using assms(4) history_no_token [OF assms(1-3)] by (rule exec_fence)

end

end
