(* ===== verification/Canonical_Json.thy ===== *)
theory Canonical_Json
  imports Prelude
begin

text \<open>
  The payload codec of the two job repositories: the strict JSON-value schema that
  \<^verbatim>\<open>BackgroundJobsRepo.enqueue\<close> parses an unknown payload with, and the canonical encoding
  (\<^verbatim>\<open>sortKeysDeep\<close> then \<^verbatim>\<open>JSON.stringify\<close>) that both repositories hash. Numbers are a type
  parameter and their printer a parameter of \<open>stringify\<close>, since the code never inspects a number.

  An object is the list of its own enumerable properties in enumeration order. The main result is
  that the canonical encoding does not depend on that order at any depth (\<open>canonicalJson_key_perm\<close>),
  which is what makes the stored hash stable although \<^verbatim>\<open>jsonb\<close> reorders keys.
\<close>

section \<open>Values\<close>

text \<open>\<open>JsOther\<close> stands for every value the schema excludes: undefined, functions, bigints,
  symbols, dates and the non-finite numbers.\<close>

datatype 'n js =
    JsNull
  | JsBool bool
  | JsNum 'n
  | JsStr string
  | JsArr "'n js list"
  | JsObj "(string \<times> 'n js) list"
  | JsOther string

datatype 'n json =
    JNull
  | JBool bool
  | JNum 'n
  | JStr string
  | JArr "'n json list"
  | JObj "(string \<times> 'n json) list"

section \<open>The strict schema\<close>

text \<open>A property \<^verbatim>\<open>__proto__\<close> is not expected: the validator would leave it out of the object it builds.\<close>

fun JsonValueSchema :: "'n js \<Rightarrow> 'n json option" where
  "JsonValueSchema JsNull = Some JNull"
| "JsonValueSchema (JsBool b) = Some (JBool b)"
| "JsonValueSchema (JsNum n) = Some (JNum n)"
| "JsonValueSchema (JsStr s) = Some (JStr s)"
| "JsonValueSchema (JsArr vs) = map_option JArr (those (map JsonValueSchema vs))"
| "JsonValueSchema (JsObj kvs) =
     map_option JObj (those (map (\<lambda>(k, v). map_option (Pair k) (JsonValueSchema v)) kvs))"
| "JsonValueSchema (JsOther ty) = None"

definition PayloadObject :: "'n js \<Rightarrow> 'n json option" where
  "PayloadObject v = (case v of JsObj kvs \<Rightarrow> JsonValueSchema (JsObj kvs) | _ \<Rightarrow> None)"

text \<open>What the driver hands back for a stored \<^verbatim>\<open>jsonb\<close> value is again a JavaScript value.\<close>

fun js_of_json :: "'n json \<Rightarrow> 'n js" where
  "js_of_json JNull = JsNull"
| "js_of_json (JBool b) = JsBool b"
| "js_of_json (JNum n) = JsNum n"
| "js_of_json (JStr s) = JsStr s"
| "js_of_json (JArr vs) = JsArr (map js_of_json vs)"
| "js_of_json (JObj kvs) = JsObj (map (\<lambda>(k, v). (k, js_of_json v)) kvs)"

section \<open>Key order\<close>

text \<open>
  The enumeration order of a JavaScript object: the array-index keys ascending by value, then the
  other string keys in insertion order. Assigning to the key \<^verbatim>\<open>__proto__\<close> creates no own property.
\<close>

definition is_array_index :: "string \<Rightarrow> bool" where
  "is_array_index k \<longleftrightarrow> all_digits k \<and> (k = ''0'' \<or> hd k \<noteq> CHR ''0'') \<and> number_of k < 2 ^ 32 - 1"

definition js_insert_order :: "(string \<times> 'v) list \<Rightarrow> (string \<times> 'v) list" where
  "js_insert_order kvs =
     (let own = filter (\<lambda>kv. fst kv \<noteq> ''__proto__'') kvs
      in sort_key (\<lambda>kv. number_of (fst kv)) (filter (\<lambda>kv. is_array_index (fst kv)) own)
         @ filter (\<lambda>kv. \<not> is_array_index (fst kv)) own)"

function sortKeysDeep :: "'n json \<Rightarrow> 'n json" where
  "sortKeysDeep JNull = JNull"
| "sortKeysDeep (JBool b) = JBool b"
| "sortKeysDeep (JNum n) = JNum n"
| "sortKeysDeep (JStr s) = JStr s"
| "sortKeysDeep (JArr vs) = JArr (map sortKeysDeep vs)"
| "sortKeysDeep (JObj kvs) =
     JObj (js_insert_order (map (\<lambda>(k, v). (k, sortKeysDeep v)) (sort_key fst kvs)))"
  by pat_completeness auto
termination
proof (relation "measure size", goal_cases)
  case (3 kvs x k v)
  then have "(k, v) \<in> set kvs" by simp
  then have "size v < Suc (size_list (size_prod (\<lambda>_. 0) size) kvs)"
    by (induction kvs) auto
  then show ?case by simp
qed (auto simp: size_list_estimation' less_Suc_eq_le)

section \<open>Encoding\<close>

definition hex_digit :: "nat \<Rightarrow> char" where
  "hex_digit n = (''0123456789abcdef'' ! (n mod 16))"

definition json_escape :: "char \<Rightarrow> string" where
  "json_escape c =
     (if c = CHR 0x22 then [CHR 0x5C, CHR 0x22]
      else if c = CHR 0x5C then [CHR 0x5C, CHR 0x5C]
      else if c = CHR 0x08 then [CHR 0x5C, CHR ''b'']
      else if c = CHR 0x0C then [CHR 0x5C, CHR ''f'']
      else if c = CHR 0x0A then [CHR 0x5C, CHR ''n'']
      else if c = CHR 0x0D then [CHR 0x5C, CHR ''r'']
      else if c = CHR 0x09 then [CHR 0x5C, CHR ''t'']
      else if c < CHR 0x20 then
        [CHR 0x5C, CHR ''u'', CHR ''0'', CHR ''0'',
         hex_digit (of_char c div 16), hex_digit (of_char c)]
      else [c])"

definition json_quote :: "string \<Rightarrow> string" where
  "json_quote s = CHR 0x22 # concat (map json_escape s) @ [CHR 0x22]"

fun stringify :: "('n \<Rightarrow> string) \<Rightarrow> 'n json \<Rightarrow> string" where
  "stringify num JNull = ''null''"
| "stringify num (JBool b) = (if b then ''true'' else ''false'')"
| "stringify num (JNum n) = num n"
| "stringify num (JStr s) = json_quote s"
| "stringify num (JArr vs) = CHR ''['' # join_with (CHR '','') (map (stringify num) vs) @ '']''"
| "stringify num (JObj kvs) =
     CHR 0x7B # join_with (CHR '','')
       (map (\<lambda>(k, v). json_quote k @ CHR '':'' # stringify num v) kvs) @ [CHR 0x7D]"

definition canonicalJson :: "('n \<Rightarrow> string) \<Rightarrow> 'n json \<Rightarrow> string" where
  "canonicalJson num v = stringify num (sortKeysDeep v)"

section \<open>Independence of the key order\<close>

text \<open>\<open>key_perm v w\<close>: the two values agree up to the order of object keys at every depth.\<close>

inductive key_perm :: "'n json \<Rightarrow> 'n json \<Rightarrow> bool" where
  kp_null: "key_perm JNull JNull"
| kp_bool: "key_perm (JBool b) (JBool b)"
| kp_num: "key_perm (JNum n) (JNum n)"
| kp_str: "key_perm (JStr s) (JStr s)"
| kp_arr: "list_all2 key_perm vs ws \<Longrightarrow> key_perm (JArr vs) (JArr ws)"
| kp_obj: "distinct (map fst kvs) \<Longrightarrow> mset us = mset kvs \<Longrightarrow>
     map fst us = map fst lws \<Longrightarrow> list_all2 key_perm (map snd us) (map snd lws) \<Longrightarrow>
     key_perm (JObj kvs) (JObj lws)"

text \<open>Values with distinct keys in every object: what a JavaScript object can be.\<close>

fun distinct_keys :: "'n json \<Rightarrow> bool" where
  "distinct_keys (JArr vs) = list_all distinct_keys vs"
| "distinct_keys (JObj kvs) = (distinct (map fst kvs) \<and> list_all (\<lambda>(k, v). distinct_keys v) kvs)"
| "distinct_keys v = True"

lemma sort_key_map_value:
  "sort_key fst (map (\<lambda>(k, v). (k, f v)) kvs) = map (\<lambda>(k, v). (k, f v)) (sort_key fst kvs)"
proof -
  have ins: "insort_key fst (k, f v) (map (\<lambda>(k, v). (k, f v)) xs)
      = map (\<lambda>(k, v). (k, f v)) (insort_key fst (k, v) xs)" for k v xs
    by (induction xs) auto
  show ?thesis
    by (induction kvs) (auto simp: sort_key_def ins)
qed

lemma sort_key_distinct_mset:
  assumes "mset us = mset kvs" and "distinct (map fst kvs)"
  shows "sort_key fst us = sort_key fst kvs"
proof (rule map_sorted_distinct_set_unique)
  have sets: "set us = set kvs" using assms(1) by (metis set_mset_mset)
  have msets: "mset (map fst us) = mset (map fst kvs)" using assms(1) by simp
  then have "distinct (map fst us)" using assms(2) by (metis mset_eq_imp_distinct_iff)
  then show "distinct (map fst (sort_key fst us))"
    by (metis mset_eq_imp_distinct_iff mset_map mset_sort)
  show "distinct (map fst (sort_key fst kvs))"
    using assms(2) by (metis mset_eq_imp_distinct_iff mset_map mset_sort)
  show "inj_on fst (set (sort_key fst us) \<union> set (sort_key fst kvs))"
    using sets assms(2) by (simp add: distinct_map)
  show "set (sort_key fst us) = set (sort_key fst kvs)"
    using sets by simp
qed simp_all

lemma map_pair_value_zip: "map (\<lambda>(k, v). (k, f v)) kvs = zip (map fst kvs) (map f (map snd kvs))"
  by (induction kvs) auto

lemma map_pair_value_eq:
  assumes "map fst us = map fst lws" and "map f (map snd us) = map f (map snd lws)"
  shows "map (\<lambda>(k, v). (k, f v)) us = map (\<lambda>(k, v). (k, f v)) lws"
  unfolding map_pair_value_zip using assms by simp

theorem sortKeysDeep_key_perm: "key_perm v w \<Longrightarrow> sortKeysDeep v = sortKeysDeep w"
proof (induction rule: key_perm.induct)
  case (kp_arr vs ws)
  then have "map sortKeysDeep vs = map sortKeysDeep ws"
    by (simp add: list_all2_conv_all_nth list_eq_iff_nth_eq)
  then show ?case by simp
next
  case (kp_obj kvs us lws)
  let ?s = "\<lambda>(k, v). (k, sortKeysDeep v)"
  have "map sortKeysDeep (map snd us) = map sortKeysDeep (map snd lws)"
    using kp_obj.IH by (simp add: list_all2_conv_all_nth list_eq_iff_nth_eq)
  then have eq: "map ?s us = map ?s lws"
    using kp_obj.hyps(3) by (rule map_pair_value_eq [rotated])
  have "map ?s (sort_key fst kvs) = map ?s (sort_key fst us)"
    using kp_obj.hyps(1,2) sort_key_distinct_mset by metis
  also have "\<dots> = sort_key fst (map ?s us)"
    by (rule sort_key_map_value [symmetric])
  also have "\<dots> = map ?s (sort_key fst lws)"
    unfolding eq by (rule sort_key_map_value)
  finally show ?case by simp
qed auto

corollary canonicalJson_key_perm: "key_perm v w \<Longrightarrow> canonicalJson num v = canonicalJson num w"
  by (simp add: canonicalJson_def sortKeysDeep_key_perm)

section \<open>Encoding a canonical value again\<close>

lemma mset_filter_both: "mset (filter P xs) + mset (filter (\<lambda>x. \<not> P x) xs) = mset xs"
  by (induction xs) auto

lemma mset_js_insert_order:
  "mset (js_insert_order kvs) = mset (filter (\<lambda>kv. fst kv \<noteq> ''__proto__'') kvs)"
  unfolding js_insert_order_def Let_def mset_append mset_sort by (rule mset_filter_both)

lemma js_insert_order_own:
  "js_insert_order (filter (\<lambda>kv. fst kv \<noteq> ''__proto__'') kvs) = js_insert_order kvs"
  by (simp add: js_insert_order_def)

lemma filter_map_value:
  "filter (\<lambda>kv. P (fst kv)) (map (\<lambda>(k, v). (k, f v)) kvs) = map (\<lambda>(k, v). (k, f v)) (filter (\<lambda>kv. P (fst kv)) kvs)"
  by (induction kvs) auto

lemma distinct_map_fst_filter: "distinct (map fst kvs) \<Longrightarrow> distinct (map fst (filter P kvs))"
  by (induction kvs) auto

lemma map_fst_value [simp]: "map fst (map (\<lambda>(k, v). (k, f v)) kvs) = map fst kvs"
  by (induction kvs) auto

text \<open>Re-sorting an object that was already put in canonical order gives the same object, for any
  treatment \<open>f\<close> of the values.\<close>

lemma js_insert_order_again:
  fixes kvs :: "(string \<times> 'v) list"
  assumes "distinct (map fst kvs)"
  shows "js_insert_order (sort_key fst (js_insert_order (sort_key fst kvs)))
    = js_insert_order (sort_key fst kvs)"
proof -
  let ?own = "filter (\<lambda>kv. fst kv \<noteq> ''__proto__'')"
  have "mset (js_insert_order (sort_key fst kvs)) = mset (?own (sort_key fst kvs))"
    by (rule mset_js_insert_order)
  also have "\<dots> = mset (?own kvs)" by (simp add: filter_sort [symmetric])
  finally have "sort_key fst (js_insert_order (sort_key fst kvs)) = sort_key fst (?own kvs)"
    using assms by (rule sort_key_distinct_mset [OF _ distinct_map_fst_filter])
  also have "\<dots> = ?own (sort_key fst kvs)" by (simp add: filter_sort)
  finally show ?thesis by (simp add: js_insert_order_own)
qed

lemma sort_key_number_map_value:
  "sort_key (\<lambda>kv. number_of (fst kv)) (map (\<lambda>(k, v). (k, f v)) kvs)
    = map (\<lambda>(k, v). (k, f v)) (sort_key (\<lambda>kv. number_of (fst kv)) kvs)"
proof -
  have ins: "insort_key (\<lambda>kv. number_of (fst kv)) (k, f v) (map (\<lambda>(k, v). (k, f v)) xs)
      = map (\<lambda>(k, v). (k, f v)) (insort_key (\<lambda>kv. number_of (fst kv)) (k, v) xs)" for k v xs
    by (induction xs) auto
  show ?thesis
    by (induction kvs) (auto simp: sort_key_def ins)
qed

lemma js_insert_order_map_value:
  "js_insert_order (map (\<lambda>(k, v). (k, f v)) kvs) = map (\<lambda>(k, v). (k, f v)) (js_insert_order kvs)"
  unfolding js_insert_order_def Let_def
  by (simp only: filter_map_value sort_key_number_map_value map_append
      filter_map_value [where P = "\<lambda>k. k \<noteq> ''__proto__''"]
      filter_map_value [where P = is_array_index]
      filter_map_value [where P = "\<lambda>k. \<not> is_array_index k"])

theorem sortKeysDeep_idem: "distinct_keys v \<Longrightarrow> sortKeysDeep (sortKeysDeep v) = sortKeysDeep v"
proof (induction v rule: distinct_keys.induct)
  case (1 vs)
  then show ?case by (auto simp: list_all_iff)
next
  case (2 kvs)
  let ?s = "\<lambda>(k, v). (k, sortKeysDeep v)"
  have vals: "?s (?s kv) = ?s kv" if "kv \<in> set kvs" for kv
    using 2 that by (cases kv) (auto simp: list_all_iff)
  have sub: "set (js_insert_order (sort_key fst kvs)) \<subseteq> set kvs"
    using mset_js_insert_order [of "sort_key fst kvs"]
    by (metis filter_is_subset set_mset_mset set_sort)
  have "sortKeysDeep (sortKeysDeep (JObj kvs))
    = JObj (js_insert_order (map ?s (sort_key fst (map ?s (js_insert_order (sort_key fst kvs))))))"
    by (simp add: js_insert_order_map_value)
  also have "\<dots> = JObj (map ?s (map ?s (js_insert_order (sort_key fst (js_insert_order (sort_key fst kvs))))))"
    by (simp only: sort_key_map_value js_insert_order_map_value)
  also have "\<dots> = JObj (map ?s (map ?s (js_insert_order (sort_key fst kvs))))"
    using 2 by (simp only: distinct_keys.simps js_insert_order_again)
  also have "\<dots> = JObj (map ?s (js_insert_order (sort_key fst kvs)))"
    using sub vals by (auto simp: map_eq_conv)
  finally show ?case by (simp add: js_insert_order_map_value)
qed auto

lemma canonicalJson_stored:
  assumes "distinct_keys v" and "key_perm (sortKeysDeep v) w"
  shows "canonicalJson num w = canonicalJson num v"
  using sortKeysDeep_idem [OF assms(1)] sortKeysDeep_key_perm [OF assms(2)]
  by (simp add: canonicalJson_def)

section \<open>Parsing what was stored\<close>

lemma those_map_Some: "(\<And>x. x \<in> set xs \<Longrightarrow> f x = Some (g x)) \<Longrightarrow> those (map f xs) = Some (map g xs)"
  by (induction xs) auto

lemma JsonValueSchema_js_of_json [simp]: "JsonValueSchema (js_of_json v) = Some v"
proof (induction v rule: distinct_keys.induct)
  case (1 vs)
  then have "those (map (\<lambda>x. JsonValueSchema (js_of_json x)) vs) = Some (map id vs)"
    by (intro those_map_Some) simp
  then show ?case by (simp add: comp_def)
next
  case (2 kvs)
  then have "those (map (\<lambda>x. case x of (k, v) \<Rightarrow> map_option (Pair k) (JsonValueSchema (js_of_json v))) kvs)
      = Some (map id kvs)"
    by (intro those_map_Some) (auto split: prod.splits)
  then show ?case by (simp add: comp_def case_prod_unfold)
qed auto

text \<open>The schema rejects exactly the trees that hold a value JSON cannot carry.\<close>

fun strict_json :: "'n js \<Rightarrow> bool" where
  "strict_json (JsArr vs) = list_all strict_json vs"
| "strict_json (JsObj kvs) = list_all (\<lambda>(k, v). strict_json v) kvs"
| "strict_json (JsOther ty) = False"
| "strict_json v = True"

lemma those_map_None: "those (map f xs) = None \<longleftrightarrow> (\<exists>x\<in>set xs. f x = None)"
  by (induction xs) (auto split: option.splits)

lemma JsonValueSchema_None_iff: "JsonValueSchema v = None \<longleftrightarrow> \<not> strict_json v"
proof (induction v rule: strict_json.induct)
  case (1 vs)
  then show ?case by (simp add: those_map_None list_all_iff)
next
  case (2 kvs)
  then have "(JsonValueSchema (snd kv) = None) = (\<not> strict_json (snd kv))" if "kv \<in> set kvs" for kv
    using that by (cases kv) auto
  then show ?case by (simp add: those_map_None list_all_iff case_prod_unfold)
qed auto

lemma PayloadObject_JObj: "PayloadObject v = Some w \<Longrightarrow> \<exists>kvs. w = JObj kvs"
  by (auto simp: PayloadObject_def split: js.splits)

lemma PayloadObject_js_of_json: "PayloadObject (js_of_json (JObj kvs)) = Some (JObj kvs)"
  using JsonValueSchema_js_of_json [of "JObj kvs"] by (simp add: PayloadObject_def)

end
