(* ===== verification/Background_Jobs.thy ===== *)
theory Background_Jobs
  imports Job_Table Canonical_Json
begin

text \<open>
  \<^verbatim>\<open>runner/background_jobs_repo.ts\<close>: the repository over \<^verbatim>\<open>core.background_jobs\<close>. One definition
  per method; a statement's affected rows are what \<open>upd_where\<close> and \<open>hits\<close> say. The instants are
  the database's \<^verbatim>\<open>now()\<close> at the statement, \<open>tok\<close> is the value of \<^verbatim>\<open>gen_random_uuid()\<close> and
  \<open>rnd\<close> the value of \<^verbatim>\<open>random()\<close>. \<open>bg_op\<close> and \<open>bg_exec\<close> put the methods in one
  vocabulary, on which the contract \<open>lease_queue\<close> is interpreted.
\<close>

record 'n background_job = job_core +
  job_type :: string
  bj_installation_id :: "uuid option"
  bj_payload :: "'n js"
  dedup_key :: "string option"
  updated_at :: db_time
  schema_version :: int

text \<open>What the repository uses from outside: the printer of numbers inside \<^verbatim>\<open>JSON.stringify\<close>, SHA-256
  in hexadecimal, and the value the driver reads back for a text cast to \<^verbatim>\<open>jsonb\<close>.\<close>

record 'n codec =
  num_text :: "'n \<Rightarrow> string"
  sha256hex :: "string \<Rightarrow> string"
  db_json :: "string \<Rightarrow> 'n js"

record 'n bj_enqueue_args =
  a_jobType :: string
  a_payload :: "'n js"
  a_dedupKey :: "string option"
  a_installationId :: "uuid option"
  a_priority :: "int option"
  a_maxAttempts :: "int option"
  a_runAfter :: "js_date option"

datatype bj_error =
    InvalidPayload
  | PayloadIntegrityError uuid
  | CheckViolation
  | PkViolation
  | DidNotConverge "string option"

definition BACKGROUND_JOB_ENVELOPE_SCHEMA_VERSION :: int where
  "BACKGROUND_JOB_ENVELOPE_SCHEMA_VERSION = 1"

section \<open>Enqueue\<close>

definition is_sha256_hex :: "string \<Rightarrow> bool" where
  "is_sha256_hex s \<longleftrightarrow> length s = 64 \<and>
     list_all (\<lambda>c. is_digit c \<or> CHR ''a'' \<le> c \<and> c \<le> CHR ''f'') s"

definition bj_holds_key :: "string option \<Rightarrow> 'n background_job \<Rightarrow> bool" where
  "bj_holds_key dk r \<longleftrightarrow> dk \<noteq> None \<and> dedup_key r = dk \<and> active r"

text \<open>The CHECK constraints an INSERT can meet, and the row it writes.\<close>

definition bj_checks :: "'n bj_enqueue_args \<Rightarrow> string \<Rightarrow> bool" where
  "bj_checks a sha \<longleftrightarrow>
     0 \<le> (case a_priority a of None \<Rightarrow> 0 | Some p \<Rightarrow> p) \<and>
     1 \<le> (case a_maxAttempts a of None \<Rightarrow> 3 | Some m \<Rightarrow> m) \<and> is_sha256_hex sha"

definition bj_new_row :: "'n js \<Rightarrow> string \<Rightarrow> 'n bj_enqueue_args \<Rightarrow> uuid \<Rightarrow> db_time \<Rightarrow> 'n background_job" where
  "bj_new_row pl sha a jid now =
     \<lparr>job_id = jid, state = Ready,
      priority = (case a_priority a of None \<Rightarrow> 0 | Some p \<Rightarrow> p),
      run_after = (case a_runAfter a of None \<Rightarrow> now | Some d \<Rightarrow> of_date d),
      lease_owner = None, attempt_token = None, leased_until = None, timeout_at = None,
      heartbeat_at = None, attempts = 0,
      max_attempts = nat (case a_maxAttempts a of None \<Rightarrow> 3 | Some m \<Rightarrow> m),
      finished_at = None, dead_reason = None, last_error = None, created_at = now,
      payload_sha256 = sha, job_type = a_jobType a, bj_installation_id = a_installationId a,
      bj_payload = pl, dedup_key = a_dedupKey a, updated_at = now,
      schema_version = BACKGROUND_JOB_ENVELOPE_SCHEMA_VERSION\<rparr>"

text \<open>\<^verbatim>\<open>INSERT ... ON CONFLICT (dedup_key) WHERE dedup_key IS NOT NULL AND state IN ('ready','leased')
  DO NOTHING RETURNING job_id\<close>\<close>

definition bj_insert ::
  "'n js \<Rightarrow> string \<Rightarrow> 'n bj_enqueue_args \<Rightarrow> uuid \<Rightarrow> db_time \<Rightarrow> 'n background_job list
     \<Rightarrow> bj_error + (uuid option \<times> 'n background_job list)" where
  "bj_insert pl sha a jid now t =
     (if \<not> bj_checks a sha then Inl CheckViolation
      else if list_ex (bj_holds_key (a_dedupKey a)) t then Inr (None, t)
      else if jid \<in> job_id ` set t then Inl PkViolation
      else Inr (Some jid, t @ [bj_new_row pl sha a jid now]))"

text \<open>The bounded retry. \<open>ids i\<close> and \<open>nows i\<close> belong to try \<open>i\<close>; \<open>env (2 * i)\<close> is what other
  connections do before the INSERT of try \<open>i\<close> and \<open>env (2 * i + 1)\<close> between it and the SELECT.\<close>

fun bj_enqueue_loop ::
  "nat \<Rightarrow> nat \<Rightarrow> 'n js \<Rightarrow> string \<Rightarrow> (nat \<Rightarrow> uuid) \<Rightarrow> (nat \<Rightarrow> db_time)
     \<Rightarrow> (nat \<Rightarrow> 'n background_job list \<Rightarrow> 'n background_job list) \<Rightarrow> 'n bj_enqueue_args
     \<Rightarrow> 'n background_job list \<Rightarrow> (bj_error + uuid) \<times> 'n background_job list" where
  "bj_enqueue_loop 0 i pl sha ids nows env a t = (Inl (DidNotConverge (a_dedupKey a)), t)"
| "bj_enqueue_loop (Suc k) i pl sha ids nows env a t =
     (let t0 = env (2 * i) t
      in case bj_insert pl sha a (ids i) (nows i) t0 of
           Inl e \<Rightarrow> (Inl e, t0)
         | Inr (Some jid, t1) \<Rightarrow> (Inr jid, t1)
         | Inr (None, t1) \<Rightarrow>
             (let t2 = env (2 * i + 1) t1
              in case first_row (filter (bj_holds_key (a_dedupKey a)) t2) of
                   Some r \<Rightarrow> (Inr (job_id r), t2)
                 | None \<Rightarrow> bj_enqueue_loop k (Suc i) pl sha ids nows env a t2))"

definition bj_enqueue ::
  "'n codec \<Rightarrow> (nat \<Rightarrow> uuid) \<Rightarrow> (nat \<Rightarrow> db_time)
     \<Rightarrow> (nat \<Rightarrow> 'n background_job list \<Rightarrow> 'n background_job list) \<Rightarrow> 'n bj_enqueue_args
     \<Rightarrow> 'n background_job list \<Rightarrow> (bj_error + uuid) \<times> 'n background_job list" where
  "bj_enqueue cd ids nows env a t =
     (case PayloadObject (a_payload a) of
        None \<Rightarrow> (Inl InvalidPayload, t)
      | Some pl \<Rightarrow>
          (let canonical = canonicalJson (num_text cd) pl
           in bj_enqueue_loop 3 0 (db_json cd canonical) (sha256hex cd canonical) ids nows env a t))"

definition bj_verifyPayload :: "'n codec \<Rightarrow> 'n background_job \<Rightarrow> bj_error + 'n json" where
  "bj_verifyPayload cd job =
     (case PayloadObject (bj_payload job) of
        None \<Rightarrow> Inl InvalidPayload
      | Some pl \<Rightarrow>
          if sha256hex cd (canonicalJson (num_text cd) pl) \<noteq> payload_sha256 job
          then Inl (PayloadIntegrityError (job_id job)) else Inr pl)"

definition bj_getById :: "uuid \<Rightarrow> 'n background_job list \<Rightarrow> 'n background_job option" where
  "bj_getById jid t = first_row (filter (\<lambda>r. job_id r = jid) t)"

section \<open>Claim and heartbeat\<close>

definition bj_claim_set :: "db_time \<Rightarrow> uuid \<Rightarrow> string \<Rightarrow> int \<Rightarrow> int \<Rightarrow> 'n background_job \<Rightarrow> 'n background_job" where
  "bj_claim_set now tok owner leaseMs maxRuntimeMs r =
     r\<lparr>state := Leased, lease_owner := Some owner, attempt_token := Some tok,
       leased_until := Some (now + leaseMs * 1000), timeout_at := Some (now + maxRuntimeMs * 1000),
       heartbeat_at := Some now, attempts := attempts r + 1, updated_at := now\<rparr>"

definition bj_claim ::
  "(uuid \<Rightarrow> bool) \<Rightarrow> db_time \<Rightarrow> uuid \<Rightarrow> string \<Rightarrow> int \<Rightarrow> int \<Rightarrow> 'n background_job list
     \<Rightarrow> 'n background_job option \<times> 'n background_job list" where
  "bj_claim locked now tok owner leaseMs maxRuntimeMs t =
     (case pick_claim locked now t of
        None \<Rightarrow> (None, t)
      | Some c \<Rightarrow>
          (let p = (\<lambda>r. job_id r = job_id c); f = bj_claim_set now tok owner leaseMs maxRuntimeMs
           in (first_row (returning p f t), upd_where p f t)))"

definition bj_heartbeat ::
  "db_time \<Rightarrow> uuid \<Rightarrow> string \<Rightarrow> uuid \<Rightarrow> int \<Rightarrow> 'n background_job list \<Rightarrow> bool \<times> 'n background_job list" where
  "bj_heartbeat now jid owner tok leaseMs t =
     (let p = (\<lambda>r. fenced jid owner tok r \<and> (case timeout_at r of None \<Rightarrow> True | Some d \<Rightarrow> now < d))
      in (hits p t = 1,
          upd_where p (\<lambda>r. r\<lparr>leased_until := Some (now + leaseMs * 1000), heartbeat_at := Some now,
            updated_at := now\<rparr>) t))"

section \<open>Settling\<close>

definition bj_markDone ::
  "db_time \<Rightarrow> uuid \<Rightarrow> string \<Rightarrow> uuid \<Rightarrow> 'n background_job list \<Rightarrow> bool \<times> 'n background_job list" where
  "bj_markDone now jid owner tok t =
     (hits (fenced jid owner tok) t = 1,
      upd_where (fenced jid owner tok)
        (\<lambda>r. clear_lease (r\<lparr>state := Done, finished_at := Some now, updated_at := now\<rparr>)) t)"

definition bj_fail_set :: "db_time \<Rightarrow> string \<Rightarrow> int \<Rightarrow> rat \<Rightarrow> 'n background_job \<Rightarrow> 'n background_job" where
  "bj_fail_set now err baseMs rnd r =
     clear_lease (r\<lparr>last_error := Some (left_text 2000 err),
       state := (if max_attempts r \<le> attempts r then Dead else Ready),
       dead_reason := (if max_attempts r \<le> attempts r then Some (left_text 2000 err) else dead_reason r),
       finished_at := (if max_attempts r \<le> attempts r then Some now else finished_at r),
       run_after := now + backoff_us baseMs (attempts r) rnd, updated_at := now\<rparr>)"

text \<open>The result is \<open>(applied, terminal)\<close>.\<close>

definition bj_markFailed ::
  "db_time \<Rightarrow> rat \<Rightarrow> uuid \<Rightarrow> string \<Rightarrow> uuid \<Rightarrow> string \<Rightarrow> int \<Rightarrow> 'n background_job list
     \<Rightarrow> (bool \<times> bool) \<times> 'n background_job list" where
  "bj_markFailed now rnd jid owner tok err baseMs t =
     (let rows = returning (fenced jid owner tok) (bj_fail_set now err baseMs rnd) t
      in ((length rows = 1, (case first_row rows of None \<Rightarrow> False | Some r \<Rightarrow> state r = Dead)),
          upd_where (fenced jid owner tok) (bj_fail_set now err baseMs rnd) t))"

definition bj_deferRetry ::
  "db_time \<Rightarrow> uuid \<Rightarrow> string \<Rightarrow> uuid \<Rightarrow> string \<Rightarrow> js_date \<Rightarrow> 'n background_job list
     \<Rightarrow> bool \<times> 'n background_job list" where
  "bj_deferRetry now jid owner tok err runAfter t =
     (hits (fenced jid owner tok) t = 1,
      upd_where (fenced jid owner tok)
        (\<lambda>r. clear_lease (r\<lparr>last_error := Some (left_text 2000 err), state := Ready,
           attempts := attempts r - 1, run_after := of_date runAfter, updated_at := now\<rparr>)) t)"

definition bj_terminalSettle ::
  "db_time \<Rightarrow> uuid \<Rightarrow> string \<Rightarrow> uuid \<Rightarrow> string \<Rightarrow> 'n background_job list
     \<Rightarrow> bool \<times> 'n background_job list" where
  "bj_terminalSettle now jid owner tok reason t =
     (hits (fenced jid owner tok) t = 1,
      upd_where (fenced jid owner tok)
        (\<lambda>r. clear_lease (r\<lparr>state := Dead, dead_reason := Some (left_text 2000 reason),
           finished_at := Some now, updated_at := now\<rparr>)) t)"

definition bj_reapStuckRuns :: "db_time \<Rightarrow> 'n background_job list \<Rightarrow> nat \<times> 'n background_job list" where
  "bj_reapStuckRuns now t =
     (hits (reapable now) t,
      upd_where (reapable now)
        (\<lambda>r. clear_lease (r\<lparr>state := Dead,
           dead_reason := (case dead_reason r of
               None \<Rightarrow> Some ''lease expired with attempts exhausted (stuck run)'' | Some d \<Rightarrow> Some d),
           finished_at := Some now, updated_at := now\<rparr>)) t)"

section \<open>Row lemmas\<close>

lemmas bj_row_defs = bj_claim_set_def bj_fail_set_def clear_lease_def

lemma bj_new_row_newborn: "bj_checks a sha \<Longrightarrow> newborn (bj_new_row pl sha a jid now)"
  by (auto simp: newborn_def job_wf_def terminal_def bj_new_row_def bj_checks_def split: option.splits)

lemma bj_new_row_simps [simp]:
  "job_id (bj_new_row pl sha a jid now) = jid"
  "dedup_key (bj_new_row pl sha a jid now) = a_dedupKey a"
  "active (bj_new_row pl sha a jid now)"
  "bj_payload (bj_new_row pl sha a jid now) = pl"
  "payload_sha256 (bj_new_row pl sha a jid now) = sha"
  by (simp_all add: bj_new_row_def active_def)

lemma bj_claim_keyed_step:
  "claimable now r \<Longrightarrow> keyed_step pres (Some tok) r (bj_claim_set now tok owner l m r)"
  by (auto simp: keyed_step_def job_wf_def terminal_def bj_claim_set_def claimable_def
      intro!: js_claim [of now])

lemma bj_fail_keyed_step:
  "fenced jid owner tok r \<Longrightarrow> keyed_step (Some tok) mint r (bj_fail_set now err b rnd r)"
  by (auto simp: keyed_step_def job_wf_def terminal_def bj_fail_set_def clear_lease_def fenced_def
      intro: js_finish js_retry)

section \<open>The methods as statements on the table\<close>

datatype 'n bg_op =
    BgInsert "'n js" string "'n bj_enqueue_args" uuid db_time
  | BgClaim "uuid \<Rightarrow> bool" db_time uuid string int int
  | BgBeat db_time uuid string uuid int
  | BgDone db_time uuid string uuid
  | BgFail db_time rat uuid string uuid string int
  | BgDefer db_time uuid string uuid string js_date
  | BgTerm db_time uuid string uuid string
  | BgReap db_time

fun bg_exec :: "'n bg_op \<Rightarrow> 'n background_job list \<Rightarrow> 'n background_job list" where
  "bg_exec (BgInsert pl sha a jid now) t =
     (case bj_insert pl sha a jid now t of Inl _ \<Rightarrow> t | Inr (_, t') \<Rightarrow> t')"
| "bg_exec (BgClaim locked now tok owner l m) t = snd (bj_claim locked now tok owner l m t)"
| "bg_exec (BgBeat now jid owner tok l) t = snd (bj_heartbeat now jid owner tok l t)"
| "bg_exec (BgDone now jid owner tok) t = snd (bj_markDone now jid owner tok t)"
| "bg_exec (BgFail now rnd jid owner tok err b) t = snd (bj_markFailed now rnd jid owner tok err b t)"
| "bg_exec (BgDefer now jid owner tok err d) t = snd (bj_deferRetry now jid owner tok err d t)"
| "bg_exec (BgTerm now jid owner tok reason) t = snd (bj_terminalSettle now jid owner tok reason t)"
| "bg_exec (BgReap now) t = snd (bj_reapStuckRuns now t)"

fun bg_presents :: "'n bg_op \<Rightarrow> uuid option" where
  "bg_presents (BgBeat now jid owner tok l) = Some tok"
| "bg_presents (BgDone now jid owner tok) = Some tok"
| "bg_presents (BgFail now rnd jid owner tok err b) = Some tok"
| "bg_presents (BgDefer now jid owner tok err d) = Some tok"
| "bg_presents (BgTerm now jid owner tok reason) = Some tok"
| "bg_presents _ = None"

fun bg_mints :: "'n bg_op \<Rightarrow> uuid option" where
  "bg_mints (BgClaim locked now tok owner l m) = Some tok"
| "bg_mints _ = None"

lemma bj_insert_step:
  "table_step pres mint t (case bj_insert pl sha a jid now t of Inl _ \<Rightarrow> t | Inr (_, t') \<Rightarrow> t')"
  by (auto simp: bj_insert_def bj_new_row_newborn intro: table_step_insert)

lemma bj_claim_step:
  assumes "distinct (map job_id t)"
  shows "table_step pres (Some tok) t (snd (bj_claim locked now tok owner l m t))"
proof (cases "pick_claim locked now t")
  case None
  then show ?thesis by (simp add: bj_claim_def)
next
  case (Some c)
  have "keyed_step pres (Some tok) r (bj_claim_set now tok owner l m r)"
    if "r \<in> set t" "job_id r = job_id c" for r
  proof -
    have "r = c" using assms pick_claim_Some(1) [OF Some] that distinct_key_unique by metis
    then show ?thesis using pick_claim_Some(2) [OF Some] by (simp add: bj_claim_keyed_step)
  qed
  then show ?thesis using Some by (simp add: bj_claim_def Let_def table_step_upd_where)
qed

lemma bj_exec_step:
  assumes "distinct (map job_id t)"
  shows "table_step (bg_presents op) (bg_mints op) t (bg_exec op t)"
proof (cases op)
  case (BgInsert pl sha a jid now)
  then show ?thesis by (simp only: bg_exec.simps bj_insert_step)
next
  case (BgClaim locked now tok owner l m)
  then show ?thesis using bj_claim_step [OF assms] by simp
next
  case (BgBeat now jid owner tok l)
  then show ?thesis
    by (auto simp: bj_heartbeat_def Let_def job_wf_def terminal_def fenced_def
        intro!: table_step_upd_where beat_keyed_step [of jid owner])
next
  case (BgDone now jid owner tok)
  then show ?thesis
    by (auto simp: bj_markDone_def intro!: table_step_upd_where settle_keyed_step [of jid owner])
       (auto simp: clear_lease_def terminal_def fenced_def job_wf_def)
next
  case (BgFail now rnd jid owner tok err b)
  then show ?thesis
    by (auto simp: bj_markFailed_def Let_def intro!: table_step_upd_where bj_fail_keyed_step)
next
  case (BgDefer now jid owner tok err d)
  then show ?thesis
    by (auto simp: bj_deferRetry_def intro!: table_step_upd_where defer_keyed_step [of jid owner])
       (auto simp: clear_lease_def terminal_def fenced_def job_wf_def)
next
  case (BgTerm now jid owner tok reason)
  then show ?thesis
    by (auto simp: bj_terminalSettle_def intro!: table_step_upd_where settle_keyed_step [of jid owner])
       (auto simp: clear_lease_def terminal_def fenced_def job_wf_def)
next
  case (BgReap now)
  then show ?thesis
    by (auto simp: bj_reapStuckRuns_def intro!: table_step_upd_where reap_keyed_step [of now])
       (auto simp: clear_lease_def terminal_def reapable_def job_wf_def split: option.splits)
qed

lemma bj_exec_fence:
  assumes "bg_presents op = Some tok" and "\<forall>r\<in>set t. attempt_token r \<noteq> Some tok"
  shows "bg_exec op t = t"
proof -
  have "upd_where (\<lambda>r. fenced jid owner tok r \<and> q r) f t = t" for jid owner q f
    using assms(2) by (auto intro!: upd_where_id simp: fenced_def)
  then show ?thesis
    using assms by (cases op) (auto simp: bj_heartbeat_def bj_markDone_def bj_markFailed_def
        bj_deferRetry_def bj_terminalSettle_def Let_def fenced_token_absent)
qed

interpretation bg: lease_queue bg_exec bg_presents bg_mints
  by unfold_locales (auto intro: bj_exec_step bj_exec_fence)

section \<open>One active job per dedup key\<close>

definition dedup_unique :: "'n background_job list \<Rightarrow> bool" where
  "dedup_unique t \<longleftrightarrow> (\<forall>dk. hits (bj_holds_key dk) t \<le> 1)"

lemma dedup_unique_upd_where:
  assumes "dedup_unique t" and "\<And>r. r \<in> set t \<Longrightarrow> p r \<Longrightarrow> dedup_key (f r) = dedup_key r"
    and "\<And>r. r \<in> set t \<Longrightarrow> p r \<Longrightarrow> active r"
  shows "dedup_unique (upd_where p f t)"
  unfolding dedup_unique_def
proof
  fix dk
  have "hits (bj_holds_key dk) (upd_where p f t) \<le> hits (bj_holds_key dk) t"
    using assms(2,3) by (intro hits_upd_where_le) (auto simp: bj_holds_key_def)
  also have "\<dots> \<le> 1" using assms(1) by (simp add: dedup_unique_def)
  finally show "hits (bj_holds_key dk) (upd_where p f t) \<le> 1" .
qed

lemma dedup_unique_insert:
  assumes "dedup_unique t" and "bj_insert pl sha a jid now t = Inr (res, t')"
  shows "dedup_unique t'"
proof (cases "list_ex (bj_holds_key (a_dedupKey a)) t")
  case True
  with assms show ?thesis by (auto simp: bj_insert_def split: if_splits)
next
  case False
  then have none: "hits (bj_holds_key (a_dedupKey a)) t = 0"
    by (auto simp: hits_0_iff list_ex_iff)
  have t': "t' = t @ [bj_new_row pl sha a jid now]"
    using assms(2) False by (auto simp: bj_insert_def split: if_splits)
  have "hits (bj_holds_key dk) t' \<le> 1" for dk
  proof (cases "dk = a_dedupKey a")
    case True
    then show ?thesis using none t' by simp
  next
    case False
    then show ?thesis using assms(1) t' by (simp add: bj_holds_key_def [of dk "bj_new_row pl sha a jid now"] dedup_unique_def)
  qed
  then show ?thesis by (simp add: dedup_unique_def)
qed

lemma bg_exec_dedup_unique:
  assumes "distinct (map job_id t)" and "dedup_unique t"
  shows "dedup_unique (bg_exec op t)"
proof (cases op)
  case (BgInsert pl sha a jid now)
  then show ?thesis using assms(2) by (auto split: sum.splits intro: dedup_unique_insert)
next
  case (BgClaim locked now tok owner l m)
  show ?thesis
  proof (cases "pick_claim locked now t")
    case None
    then show ?thesis using BgClaim assms by (simp add: bj_claim_def)
  next
    case (Some c)
    then have "active r" if "r \<in> set t" "job_id r = job_id c" for r
      using that assms(1) distinct_key_unique claimable_active pick_claim_Some by metis
    then show ?thesis using BgClaim Some assms(2)
      by (auto simp: bj_claim_def Let_def bj_claim_set_def intro!: dedup_unique_upd_where)
  qed
qed (use assms(2) in \<open>auto simp: bj_heartbeat_def bj_markDone_def bj_markFailed_def bj_deferRetry_def
    bj_terminalSettle_def bj_reapStuckRuns_def bj_fail_set_def clear_lease_def Let_def
    intro!: dedup_unique_upd_where intro: fenced_active reapable_active\<close>)

lemma bg_fold_invariant:
  "table_wf t \<Longrightarrow> dedup_unique t \<Longrightarrow> table_wf (fold bg_exec ops t) \<and> dedup_unique (fold bg_exec ops t)"
proof (induction ops arbitrary: t)
  case (Cons op ops)
  have "dedup_unique (bg_exec op t)"
    using Cons.prems by (intro bg_exec_dedup_unique) (auto simp: table_wf_def)
  moreover have "table_wf (bg_exec op t)" using Cons.prems(1) by (rule bg.exec_wf)
  ultimately show ?case using Cons.IH by simp
qed simp

section \<open>Attempt accounting\<close>

text \<open>Whether a statement charges job \<open>jid\<close> an attempt, and whether it gives one back.\<close>

fun bg_charge :: "uuid \<Rightarrow> 'n bg_op \<Rightarrow> 'n background_job list \<Rightarrow> nat" where
  "bg_charge jid (BgClaim locked now tok owner l m) t =
     (case fst (bj_claim locked now tok owner l m t) of None \<Rightarrow> 0 | Some r \<Rightarrow> if job_id r = jid then 1 else 0)"
| "bg_charge jid _ t = 0"

fun bg_refund :: "uuid \<Rightarrow> 'n bg_op \<Rightarrow> 'n background_job list \<Rightarrow> nat" where
  "bg_refund jid (BgDefer now j owner tok err d) t =
     (if j = jid \<and> fst (bj_deferRetry now j owner tok err d t) then 1 else 0)"
| "bg_refund jid _ t = 0"

fun bg_charges :: "uuid \<Rightarrow> 'n bg_op list \<Rightarrow> 'n background_job list \<Rightarrow> nat" where
  "bg_charges jid [] t = 0"
| "bg_charges jid (op # ops) t = bg_charge jid op t + bg_charges jid ops (bg_exec op t)"

fun bg_refunds :: "uuid \<Rightarrow> 'n bg_op list \<Rightarrow> 'n background_job list \<Rightarrow> nat" where
  "bg_refunds jid [] t = 0"
| "bg_refunds jid (op # ops) t = bg_refund jid op t + bg_refunds jid ops (bg_exec op t)"

lemma bj_getById_upd_where:
  assumes "\<And>r. p r \<Longrightarrow> job_id (f r) = job_id r"
  shows "bj_getById jid (upd_where p f t) = map_option (\<lambda>r. if p r then f r else r) (bj_getById jid t)"
  unfolding bj_getById_def using assms by (rule lookup_upd_where)

lemma bj_getById_Some: "bj_getById jid t = Some r \<Longrightarrow> r \<in> set t \<and> job_id r = jid"
  using first_row_Some [of "filter (\<lambda>r. job_id r = jid) t" r] by (auto simp: bj_getById_def)

lemma bj_getById_mem: "distinct (map job_id t) \<Longrightarrow> r \<in> set t \<Longrightarrow> bj_getById (job_id r) t = Some r"
  unfolding bj_getById_def by (rule lookup_mem)

lemma bj_getById_insert: "bj_getById jid t = Some r \<Longrightarrow> bj_getById jid (t @ u) = Some r"
  by (auto simp: bj_getById_def first_row_def split: list.splits)

lemma bj_claim_result:
  assumes "distinct (map job_id t)" and "pick_claim locked now t = Some c"
  shows "bj_claim locked now tok owner l m t
    = (Some (bj_claim_set now tok owner l m c),
       upd_where (\<lambda>r. job_id r = job_id c) (bj_claim_set now tok owner l m) t)"
  using lookup_mem [of job_id t c] assms pick_claim_Some(1) [OF assms(2)]
  by (simp add: bj_claim_def Let_def returning_def) (cases "filter (\<lambda>s. job_id s = job_id c) t"; simp)

lemma bg_exec_attempts:
  assumes "table_wf t" and "bj_getById jid t = Some r"
  shows "\<exists>r'. bj_getById jid (bg_exec op t) = Some r' \<and> max_attempts r' = max_attempts r \<and>
    attempts r' + bg_refund jid op t = attempts r + bg_charge jid op t"
proof -
  have dist: "distinct (map job_id t)" and wf: "job_wf r" and mem: "r \<in> set t" and id: "job_id r = jid"
    using assms bj_getById_Some [OF assms(2)] by (auto simp: table_wf_def)
  show ?thesis
  proof (cases op)
    case (BgInsert pl sha a j now)
    then show ?thesis using assms(2) by (auto simp: bj_insert_def intro: bj_getById_insert)
  next
    case (BgClaim locked now tok owner l m)
    show ?thesis
    proof (cases "pick_claim locked now t")
      case None
      then show ?thesis using BgClaim assms(2) by (simp add: bj_claim_def)
    next
      case (Some c)
      then show ?thesis using BgClaim assms(2) id bj_claim_result [OF dist Some]
        by (auto simp: bj_getById_upd_where bj_claim_set_def)
    qed
  next
    case (BgDefer now j owner tok err d)
    have hit: "fst (bj_deferRetry now j owner tok err d t) \<longleftrightarrow> (\<exists>s\<in>set t. fenced j owner tok s)"
      unfolding bj_deferRetry_def fst_conv using dist fenced_job_id by (rule hits_key_eq_1)
    have iff: "(j = jid \<and> fst (bj_deferRetry now j owner tok err d t)) \<longleftrightarrow> fenced j owner tok r"
      using hit mem id fenced_job_id distinct_key_unique [OF dist mem] by metis
    have pos: "1 \<le> attempts r" if "fenced j owner tok r"
      using wf that by (auto simp: job_wf_def fenced_def)
    have row: "bj_getById jid (bg_exec op t) = Some (if fenced j owner tok r
        then clear_lease (r\<lparr>last_error := Some (left_text 2000 err), state := Ready,
           attempts := attempts r - 1, run_after := of_date d, updated_at := now\<rparr>) else r)"
      using BgDefer assms(2) by (simp add: bj_deferRetry_def bj_getById_upd_where clear_lease_def)
    show ?thesis
      unfolding row using BgDefer iff pos by (auto simp: clear_lease_def simp del: One_nat_def)
  qed (use assms(2) in \<open>auto simp: bj_heartbeat_def bj_markDone_def bj_markFailed_def
        bj_terminalSettle_def bj_reapStuckRuns_def bj_fail_set_def clear_lease_def Let_def
        bj_getById_upd_where\<close>)
qed

lemma bg_fold_attempts:
  assumes "table_wf t" and "bj_getById jid t = Some r"
  shows "\<exists>r'. bj_getById jid (fold bg_exec ops t) = Some r' \<and> max_attempts r' = max_attempts r \<and>
    attempts r' + bg_refunds jid ops t = attempts r + bg_charges jid ops t"
  using assms
proof (induction ops arbitrary: t r)
  case (Cons op ops)
  obtain r1 where r1: "bj_getById jid (bg_exec op t) = Some r1" "max_attempts r1 = max_attempts r"
    "attempts r1 + bg_refund jid op t = attempts r + bg_charge jid op t"
    using bg_exec_attempts [OF Cons.prems] by blast
  obtain r2 where "bj_getById jid (fold bg_exec ops (bg_exec op t)) = Some r2"
    "max_attempts r2 = max_attempts r1"
    "attempts r2 + bg_refunds jid ops (bg_exec op t) = attempts r1 + bg_charges jid ops (bg_exec op t)"
    using Cons.IH [OF bg.exec_wf [OF Cons.prems(1)] r1(1)] by blast
  with r1 show ?case by auto
qed simp

section \<open>Payload columns\<close>

lemma bg_exec_payload:
  assumes "bj_getById jid t = Some r"
  shows "\<exists>r'. bj_getById jid (bg_exec op t) = Some r' \<and> bj_payload r' = bj_payload r \<and>
    payload_sha256 r' = payload_sha256 r"
proof (cases op)
  case (BgInsert pl sha a j now)
  then show ?thesis using assms by (auto simp: bj_insert_def intro: bj_getById_insert)
next
  case (BgClaim locked now tok owner l m)
  then show ?thesis using assms
    by (auto simp: bj_claim_def Let_def bj_getById_upd_where bj_claim_set_def split: option.splits)
qed (use assms in \<open>auto simp: bj_heartbeat_def bj_markDone_def bj_markFailed_def bj_deferRetry_def
    bj_terminalSettle_def bj_reapStuckRuns_def bj_fail_set_def clear_lease_def Let_def
    bj_getById_upd_where\<close>)

lemma bg_fold_payload:
  assumes "bj_getById jid t = Some r"
  shows "\<exists>r'. bj_getById jid (fold bg_exec ops t) = Some r' \<and> bj_payload r' = bj_payload r \<and>
    payload_sha256 r' = payload_sha256 r"
  using assms
proof (induction ops arbitrary: t r)
  case (Cons op ops)
  obtain r1 where r1: "bj_getById jid (bg_exec op t) = Some r1" "bj_payload r1 = bj_payload r"
    "payload_sha256 r1 = payload_sha256 r"
    using bg_exec_payload [OF Cons.prems] by blast
  from Cons.IH [OF r1(1)] show ?case using r1(2,3) by simp
qed simp

text \<open>Verification of a row whose stored value agrees with the enqueued one up to key order.\<close>

lemma bj_verifyPayload_stored:
  assumes "PayloadObject src = Some v" and "distinct_keys v"
    and "db_json cd (canonicalJson (num_text cd) v) = js_of_json w" and "key_perm (sortKeysDeep v) w"
    and "bj_payload r = db_json cd (canonicalJson (num_text cd) v)"
    and "payload_sha256 r = sha256hex cd (canonicalJson (num_text cd) v)"
  shows "bj_verifyPayload cd r = Inr w"
proof -
  obtain kvs where "v = JObj kvs" using PayloadObject_JObj [OF assms(1)] by blast
  with assms(4) obtain lws where w: "w = JObj lws" by (auto elim: key_perm.cases)
  have "PayloadObject (bj_payload r) = Some w"
    using assms(3,5) PayloadObject_js_of_json [of lws] w by simp
  then show ?thesis
    using assms(6) canonicalJson_stored [OF assms(2,4)] by (simp add: bj_verifyPayload_def)
qed

lemma bj_enqueue_quiet:
  assumes "PayloadObject (a_payload a) = Some v"
    and "bj_checks a (sha256hex cd (canonicalJson (num_text cd) v))" and "ids 0 \<notin> job_id ` set t"
  shows "bj_enqueue cd ids nows (\<lambda>_ x. x) a t =
    (case first_row (filter (bj_holds_key (a_dedupKey a)) t) of
       Some r \<Rightarrow> (Inr (job_id r), t)
     | None \<Rightarrow> (Inr (ids 0), t @ [bj_new_row (db_json cd (canonicalJson (num_text cd) v))
         (sha256hex cd (canonicalJson (num_text cd) v)) a (ids 0) (nows 0)]))"
proof (cases "first_row (filter (bj_holds_key (a_dedupKey a)) t)")
  case None
  then have "\<not> list_ex (bj_holds_key (a_dedupKey a)) t"
    by (auto simp: list_ex_iff filter_empty_conv)
  then show ?thesis using None assms
    by (simp add: bj_enqueue_def Let_def bj_insert_def numeral_3_eq_3)
next
  case (Some r)
  then have "list_ex (bj_holds_key (a_dedupKey a)) t"
    using first_row_Some by (fastforce simp: list_ex_iff)
  then show ?thesis using Some assms
    by (simp add: bj_enqueue_def Let_def bj_insert_def numeral_3_eq_3)
qed

lemma bj_enqueue_loop_result:
  "bj_enqueue_loop k i pl sha ids nows env a t = (Inr jid, t') \<Longrightarrow>
    \<exists>r\<in>set t'. job_id r = jid \<and> active r \<and> dedup_key r = a_dedupKey a"
proof (induction k i pl sha ids nows env a t rule: bj_enqueue_loop.induct)
  case (2 k i pl sha ids nows env a t)
  show ?case
  proof (cases "bj_insert pl sha a (ids i) (nows i) (env (2 * i) t)")
    case (Inl e)
    then show ?thesis using 2 by (simp add: Let_def)
  next
    case (Inr res)
    obtain oid t1 where res: "res = (oid, t1)" by (cases res)
    show ?thesis
    proof (cases oid)
      case (Some j)
      then have "t1 = env (2 * i) t @ [bj_new_row pl sha a j (nows i)]"
        using Inr res by (auto simp: bj_insert_def split: if_splits)
      then show ?thesis using 2(2) Inr res Some by (auto simp: Let_def)
    next
      case None
      let ?t2 = "env (2 * i + 1) t1"
      show ?thesis
      proof (cases "first_row (filter (bj_holds_key (a_dedupKey a)) ?t2)")
        case None2: None
        then show ?thesis using 2 Inr res None by (simp add: Let_def)
      next
        case (Some r)
        then have "r \<in> set ?t2" "bj_holds_key (a_dedupKey a) r"
          using first_row_Some [OF Some] by auto
        then show ?thesis using 2(2) Inr res None Some by (auto simp: Let_def bj_holds_key_def)
      qed
    qed
  qed
qed simp

section \<open>Properties\<close>

text \<open>Two concrete rows for the witnesses: one ready, one leased whose lease ran out at 1000.\<close>

definition demo_ready :: "int background_job" where
  "demo_ready =
     \<lparr>job_id = ''j1'', state = Ready, priority = 0, run_after = 0, lease_owner = None,
      attempt_token = None, leased_until = None, timeout_at = None, heartbeat_at = None,
      attempts = 0, max_attempts = 3, finished_at = None, dead_reason = None, last_error = None,
      created_at = 0, payload_sha256 = ''s'', job_type = ''cron'', bj_installation_id = None,
      bj_payload = JsObj [], dedup_key = Some ''sched'', updated_at = 0, schema_version = 1\<rparr>"

definition demo_leased :: "int background_job" where
  "demo_leased = demo_ready\<lparr>job_id := ''j2'', state := Leased, lease_owner := Some ''w1'',
     attempt_token := Some ''t1'', leased_until := Some 1000, timeout_at := Some 5000,
     heartbeat_at := Some 0, attempts := 1, dedup_key := None\<rparr>"

lemma demo_wf: "job_wf demo_ready" "job_wf demo_leased"
  by (simp_all add: job_wf_def terminal_def demo_ready_def demo_leased_def)

lemma demo_table_wf: "table_wf [demo_ready, demo_leased]"
  using demo_wf by (simp add: table_wf_def) (simp add: demo_ready_def demo_leased_def)

lemma demo_dedup_unique: "dedup_unique [demo_ready, demo_leased]"
  by (simp add: dedup_unique_def bj_holds_key_def demo_ready_def demo_leased_def)

text \<open>(C1) Whatever sequence of inserts, claims, heartbeats, settles, deferrals and reaps runs, in
  any interleaving of any number of workers, every row keeps the lease, terminal and attempt-budget
  invariant, job ids stay unique and no dedup key has two active jobs.\<close>

theorem bg_history_invariant:
  assumes "table_wf t" and "dedup_unique t"
  shows "table_wf (fold bg_exec ops t) \<and> dedup_unique (fold bg_exec ops t)"
  using assms by (rule bg_fold_invariant)

theorem bg_history_invariant_witness:
  "table_wf (fold bg_exec [BgClaim (\<lambda>_. False) 2000 ''t2'' ''w2'' 60000 600000, BgDone 3000 ''j2'' ''w1'' ''t1'']
      [demo_ready, demo_leased])"
  using bg_history_invariant [OF demo_table_wf demo_dedup_unique] by blast

text \<open>(C2) A worker that lost its lease can never act on the job again: once the job was claimed
  anew under another token, every later statement that presents the old token, a heartbeat as well
  as any kind of settle, leaves the whole table as it is, whatever ran in between.\<close>

theorem bg_superseded_worker_fenced:
  assumes "table_wf t" and "\<forall>r\<in>set t. attempt_token r = Some tok \<longrightarrow> job_id r = jid"
    and "bj_claim locked now tok' owner l m t = (Some j, t1)" and "job_id j = jid" and "tok' \<noteq> tok"
    and "\<forall>op\<in>set ops. bg_mints op \<noteq> Some tok" and "bg_presents late = Some tok"
  shows "bg_exec late (fold bg_exec ops t1) = fold bg_exec ops t1"
proof -
  have dist: "distinct (map job_id t)" using assms(1) by (simp add: table_wf_def)
  obtain c where c: "pick_claim locked now t = Some c"
    using assms(3) by (auto simp: bj_claim_def split: option.splits)
  have t1: "t1 = upd_where (\<lambda>r. job_id r = job_id c) (bj_claim_set now tok' owner l m) t"
    and "job_id c = jid"
    using bj_claim_result [OF dist c] assms(3,4) by (auto simp: bj_claim_set_def)
  then have "\<forall>r\<in>set t1. attempt_token r \<noteq> Some tok"
    using assms(2,5) by (auto simp: set_upd_where bj_claim_set_def)
  moreover have "table_wf t1"
    using bg.exec_wf [OF assms(1), of "BgClaim locked now tok' owner l m"] assms(3) by simp
  ultimately show ?thesis using assms(6,7) by (intro bg.stale_token_no_effect)
qed

lemma demo_claim:
  "bj_claim (\<lambda>_. False) 2000 ''t2'' ''w2'' 60000 600000 [demo_leased]
     = (Some (bj_claim_set 2000 ''t2'' ''w2'' 60000 600000 demo_leased),
        [bj_claim_set 2000 ''t2'' ''w2'' 60000 600000 demo_leased])"
  by (simp add: bj_claim_def pick_claim_def claimable_def lease_expired_def order_by_def returning_def
      Let_def demo_leased_def demo_ready_def)

theorem bg_superseded_worker_fenced_witness:
  "bg_exec (BgDone 3000 ''j2'' ''w1'' ''t1'')
      (fold bg_exec [BgBeat 2500 ''j2'' ''w2'' ''t2'' 60000] [bj_claim_set 2000 ''t2'' ''w2'' 60000 600000 demo_leased])
    = fold bg_exec [BgBeat 2500 ''j2'' ''w2'' ''t2'' 60000] [bj_claim_set 2000 ''t2'' ''w2'' 60000 600000 demo_leased]"
  by (rule bg_superseded_worker_fenced [where jid = "''j2''" and t = "[demo_leased]" and tok = "''t1''", OF _ _ demo_claim])
     (use demo_wf in \<open>auto simp: table_wf_def demo_leased_def bj_claim_set_def\<close>)

text \<open>A claim takes the unlocked claimable row that is first by priority (highest first), run
  time, creation time and id, charges it one attempt within its budget under the new token, and
  changes no other row; it comes back empty exactly when every claimable row is locked elsewhere.\<close>

theorem bg_claim_correct:
  assumes "table_wf t"
  shows "case bj_claim locked now tok owner l m t of
      (None, t') \<Rightarrow> t' = t \<and> (\<forall>r\<in>set t. claimable now r \<longrightarrow> locked (job_id r))
    | (Some j, t') \<Rightarrow> \<exists>r\<in>set t. claimable now r \<and> \<not> locked (job_id r)
        \<and> (\<forall>s\<in>set t. claimable now s \<and> \<not> locked (job_id s) \<longrightarrow> claim_key r \<le> claim_key s)
        \<and> j = bj_claim_set now tok owner l m r \<and> attempts j = Suc (attempts r) \<and> attempts j \<le> max_attempts j
        \<and> j \<in> set t' \<and> (\<forall>s\<in>set t. s \<noteq> r \<longrightarrow> s \<in> set t')"
proof (cases "pick_claim locked now t")
  case None
  then have "\<forall>r\<in>set t. claimable now r \<longrightarrow> locked (job_id r)" by (simp add: pick_claim_None_iff)
  then show ?thesis using None by (simp add: bj_claim_def)
next
  case (Some c)
  have dist: "distinct (map job_id t)" and wf: "job_wf c"
    using assms pick_claim_Some(1) [OF Some] by (auto simp: table_wf_def)
  note c = pick_claim_Some [OF Some]
  have "attempts c < max_attempts c" using wf c(2) by (rule claimable_attempts)
  moreover have "s \<in> set (upd_where (\<lambda>r. job_id r = job_id c) f t)" if "s \<in> set t" "s \<noteq> c" for s f
    using that c(1) distinct_key_unique [OF dist] by (metis upd_where_mem_unchanged)
  moreover have "bj_claim_set now tok owner l m c
      \<in> set (upd_where (\<lambda>r. job_id r = job_id c) (bj_claim_set now tok owner l m) t)"
    using c(1) by (rule upd_where_mem_changed) simp
  ultimately show ?thesis
    unfolding bj_claim_result [OF dist Some] prod.case option.case
    using c pick_claim_least [OF Some] by (intro bexI [of _ c]) (auto simp: bj_claim_set_def)
qed

theorem bg_claim_correct_witness:
  "table_wf [demo_leased] \<and> attempts (bj_claim_set 2000 ''t2'' ''w2'' 60000 600000 demo_leased) \<le> 3"
  using bg_claim_correct [where t = "[demo_leased]" and locked = "\<lambda>_. False" and now = 2000
      and tok = "''t2''" and owner = "''w2''" and l = 60000 and m = 600000] demo_wf
  unfolding demo_claim by (simp add: table_wf_def) (simp add: demo_leased_def demo_ready_def bj_claim_set_def)

text \<open>Lease exclusivity in time: a leased row cannot be claimed or reaped before its lease ran
  out, and an accepted heartbeat moves that instant to one lease length after the beat.\<close>

theorem bg_lease_exclusive:
  assumes "table_wf t" and "fst (bj_heartbeat now jid owner tok leaseMs t)" and "now' \<le> now + leaseMs * 1000"
  shows "\<exists>r\<in>set (snd (bj_heartbeat now jid owner tok leaseMs t)).
      fenced jid owner tok r \<and>
      r \<in> set (snd (bj_claim locked now' tok' owner' l m (snd (bj_heartbeat now jid owner tok leaseMs t)))) \<and>
      r \<in> set (snd (bj_reapStuckRuns now' (snd (bj_heartbeat now jid owner tok leaseMs t))))"
proof -
  let ?p = "\<lambda>r. fenced jid owner tok r \<and> (case timeout_at r of None \<Rightarrow> True | Some d \<Rightarrow> now < d)"
  let ?t = "snd (bj_heartbeat now jid owner tok leaseMs t)"
  obtain s where s: "s \<in> set t" "?p s"
    using assms(2) hits_0_iff [of ?p t] by (auto simp: bj_heartbeat_def Let_def)
  define r where "r = s\<lparr>leased_until := Some (now + leaseMs * 1000), heartbeat_at := Some now, updated_at := now\<rparr>"
  have r: "r \<in> set ?t" "fenced jid owner tok r"
    using s by (auto simp: r_def bj_heartbeat_def Let_def fenced_def intro: upd_where_mem_changed)
  have no: "\<not> claimable now' r" "\<not> reapable now' r"
    using assms(3) r(2) by (auto simp: claimable_def reapable_def lease_expired_def fenced_def r_def)
  have "table_wf ?t"
    using bg.exec_wf [OF assms(1), of "BgBeat now jid owner tok leaseMs"] by simp
  then have "c = r" if "c \<in> set ?t" "job_id c = job_id r" for c
    using that r(1) distinct_key_unique by (metis table_wf_def)
  then have "job_id r \<noteq> job_id c" if "pick_claim locked now' ?t = Some c" for c
    using pick_claim_Some [OF that] no(1) by metis
  then have "r \<in> set (snd (bj_claim locked now' tok' owner' l m ?t))"
    using r(1) by (auto simp: bj_claim_def Let_def split: option.splits intro: upd_where_mem_unchanged)
  moreover have "r \<in> set (snd (bj_reapStuckRuns now' ?t))"
    using r(1) no(2) by (auto simp: bj_reapStuckRuns_def intro: upd_where_mem_unchanged)
  ultimately show ?thesis using r by blast
qed

theorem bg_lease_exclusive_witness:
  "\<exists>r\<in>set (snd (bj_heartbeat 900 ''j2'' ''w1'' ''t1'' 60000 [demo_leased])).
      fenced ''j2'' ''w1'' ''t1'' r \<and>
      r \<in> set (snd (bj_claim (\<lambda>_. False) 2000 ''t2'' ''w2'' 1 1 (snd (bj_heartbeat 900 ''j2'' ''w1'' ''t1'' 60000 [demo_leased]))))"
  using bg_lease_exclusive [where t = "[demo_leased]" and now = 900 and jid = "''j2''" and owner = "''w1''"
      and tok = "''t1''" and leaseMs = 60000 and now' = 2000 and locked = "\<lambda>_. False" and tok' = "''t2''"
      and owner' = "''w2''" and l = 1 and m = 1] demo_wf
  by (auto simp: table_wf_def bj_heartbeat_def Let_def fenced_def demo_leased_def demo_ready_def)

text \<open>The attempt budget: along every history a job is handed to a worker at most
  \<open>max_attempts\<close> times plus once per applied throttle deferral, since a deferral gives back the
  attempt its claim charged.\<close>

theorem bg_attempt_budget:
  assumes "table_wf t" and "bj_getById jid t = Some r"
  shows "bg_charges jid ops t + attempts r \<le> max_attempts r + bg_refunds jid ops t"
proof -
  obtain r' where r': "bj_getById jid (fold bg_exec ops t) = Some r'" "max_attempts r' = max_attempts r"
    "attempts r' + bg_refunds jid ops t = attempts r + bg_charges jid ops t"
    using bg_fold_attempts [OF assms] by blast
  have "job_wf r'"
    using bj_getById_Some [OF r'(1)] bg.history_wf [OF assms(1)] by (auto simp: table_wf_def)
  then have "attempts r' \<le> max_attempts r'" by (simp add: job_wf_def)
  with r' show ?thesis by linarith
qed

theorem bg_attempt_budget_witness:
  "bg_charges ''j2'' [BgClaim (\<lambda>_. False) 2000 ''t2'' ''w2'' 60000 600000] [demo_leased] + 1
    \<le> 3 + bg_refunds ''j2'' [BgClaim (\<lambda>_. False) 2000 ''t2'' ''w2'' 60000 600000] [demo_leased]"
  using bg_attempt_budget [of "[demo_leased]" "''j2''" demo_leased
      "[BgClaim (\<lambda>_. False) 2000 ''t2'' ''w2'' 60000 600000]"] demo_wf
  by (simp add: table_wf_def bj_getById_def demo_leased_def demo_ready_def)

text \<open>Enqueue hands back an active job under the caller's dedup key on every interleaving;
  undisturbed it always succeeds, with the existing holder of the key when there is one (and then
  writes nothing) and with exactly one fresh row otherwise.\<close>

theorem bj_enqueue_correct:
  assumes "PayloadObject (a_payload a) = Some v"
    and "bj_checks a (sha256hex cd (canonicalJson (num_text cd) v))" and "ids 0 \<notin> job_id ` set t"
  shows "bj_enqueue cd ids nows (\<lambda>_ x. x) a t =
      (case first_row (filter (bj_holds_key (a_dedupKey a)) t) of
         Some r \<Rightarrow> (Inr (job_id r), t)
       | None \<Rightarrow> (Inr (ids 0), t @ [bj_new_row (db_json cd (canonicalJson (num_text cd) v))
           (sha256hex cd (canonicalJson (num_text cd) v)) a (ids 0) (nows 0)]))
    \<and> (\<forall>env jid t'. bj_enqueue cd ids nows env a t = (Inr jid, t') \<longrightarrow>
         (\<exists>r\<in>set t'. job_id r = jid \<and> active r \<and> dedup_key r = a_dedupKey a))"
  using bj_enqueue_quiet [of a v cd ids t nows] assms bj_enqueue_loop_result
  unfolding bj_enqueue_def by (fastforce simp: Let_def)

definition demo_args :: "int bj_enqueue_args" where
  "demo_args = \<lparr>a_jobType = ''cron'', a_payload = JsObj [(''b'', JsBool True), (''a'', JsNull)],
     a_dedupKey = Some ''sched'', a_installationId = None, a_priority = None, a_maxAttempts = None,
     a_runAfter = None\<rparr>"

definition demo_codec :: "int codec" where
  "demo_codec = \<lparr>num_text = (\<lambda>_. ''0''), sha256hex = (\<lambda>_. replicate 64 (CHR ''a'')),
     db_json = (\<lambda>_. JsObj [(''b'', JsBool True), (''a'', JsNull)])\<rparr>"

lemma demo_args_ok:
  "PayloadObject (a_payload demo_args) = Some (JObj [(''b'', JBool True), (''a'', JNull)])"
  "bj_checks demo_args (sha256hex demo_codec s)"
  by (simp_all add: PayloadObject_def demo_args_def demo_codec_def bj_checks_def is_sha256_hex_def
      is_digit_def list_all_iff)

theorem bj_enqueue_correct_witness:
  "fst (bj_enqueue demo_codec (\<lambda>_. ''n1'') (\<lambda>_. 0) (\<lambda>_ x. x) demo_args [demo_ready]) = Inr ''j1''
   \<and> fst (bj_enqueue demo_codec (\<lambda>_. ''n1'') (\<lambda>_. 0) (\<lambda>_ x. x) demo_args [demo_leased]) = Inr ''n1''"
proof -
  note c = bj_enqueue_correct [where cd = demo_codec and ids = "\<lambda>_. ''n1''" and nows = "\<lambda>_. 0" and a = demo_args,
      OF demo_args_ok]
  show ?thesis
    using c [of "[demo_ready]", THEN conjunct1] c [of "[demo_leased]", THEN conjunct1]
    by (simp add: bj_holds_key_def active_def) (simp add: demo_ready_def demo_leased_def demo_args_def)
qed

text \<open>(C3) Payload integrity end to end: when the database keeps a JSON value up to the order of its
  object keys, the handler of an enqueued job gets exactly the enqueued value, up to key order,
  after any history of the table, and verification never refuses it.\<close>

theorem bj_enqueue_verify_roundtrip:
  assumes "PayloadObject (a_payload a) = Some v" and "distinct_keys v"
    and "db_json cd (canonicalJson (num_text cd) v) = js_of_json w" and "key_perm (sortKeysDeep v) w"
    and "bj_checks a (sha256hex cd (canonicalJson (num_text cd) v))"
    and "ids 0 \<notin> job_id ` set t" and "filter (bj_holds_key (a_dedupKey a)) t = []"
    and "bj_enqueue cd ids nows (\<lambda>_ x. x) a t = (Inr jid, t')"
  shows "\<exists>r. bj_getById jid (fold bg_exec ops t') = Some r \<and> bj_verifyPayload cd r = Inr w"
proof -
  let ?row = "bj_new_row (db_json cd (canonicalJson (num_text cd) v))
      (sha256hex cd (canonicalJson (num_text cd) v)) a (ids 0) (nows 0)"
  have "t' = t @ [?row]" and "jid = ids 0"
    using assms(8) bj_enqueue_quiet [of a v cd ids t nows] assms(1,5,6) assms(7) by auto
  moreover have "filter (\<lambda>r. job_id r = ids 0) t = []"
    using assms(6) by (force simp: filter_empty_conv image_iff)
  ultimately have "bj_getById jid t' = Some ?row" by (simp add: bj_getById_def)
  then obtain r where "bj_getById jid (fold bg_exec ops t') = Some r" "bj_payload r = bj_payload ?row"
    "payload_sha256 r = payload_sha256 ?row"
    using bg_fold_payload by blast
  then show ?thesis using bj_verifyPayload_stored [OF assms(1-4)] by simp
qed

lemma demo_key_perm:
  "key_perm (sortKeysDeep (JObj [(''b'', JBool True), (''a'', JNull)])) (JObj [(''b'', JBool True), (''a'', JNull :: int json)])"
proof -
  have "sortKeysDeep (JObj [(''b'', JBool True), (''a'', JNull :: int json)]) = JObj [(''a'', JNull), (''b'', JBool True)]"
    by (simp add: js_insert_order_def is_array_index_def all_digits_def is_digit_def)
  then show ?thesis
    by (auto intro!: kp_obj [of _ "[(''b'', JBool True), (''a'', JNull)]"] kp_bool kp_null)
qed

theorem bj_enqueue_verify_roundtrip_witness:
  "\<exists>r. bj_getById ''n1'' (fold bg_exec [BgClaim (\<lambda>_. False) 2000 ''t2'' ''w2'' 60000 600000]
        (snd (bj_enqueue demo_codec (\<lambda>_. ''n1'') (\<lambda>_. 0) (\<lambda>_ x. x) demo_args []))) = Some r
      \<and> bj_verifyPayload demo_codec r = Inr (JObj [(''b'', JBool True), (''a'', JNull)])"
proof -
  have "bj_enqueue demo_codec (\<lambda>_. ''n1'') (\<lambda>_. 0) (\<lambda>_ x. x) demo_args []
      = (Inr ''n1'', snd (bj_enqueue demo_codec (\<lambda>_. ''n1'') (\<lambda>_. 0) (\<lambda>_ x. x) demo_args []))"
    using bj_enqueue_quiet [OF demo_args_ok, where ids = "\<lambda>_. ''n1''" and t = "[]" and nows = "\<lambda>_. 0"] by simp
  then show ?thesis
    by (rule bj_enqueue_verify_roundtrip [OF demo_args_ok(1) _ _ demo_key_perm demo_args_ok(2), rotated 4])
       (simp_all add: demo_codec_def)
qed

end
