(* ===== verification/Retry.thy ===== *)
theory Retry
  imports Prelude
begin

text \<open>
  The three retry seams of the runner: \<^verbatim>\<open>runner/run_with_retry.ts\<close> (in-place retry of one operation
  with exponential backoff), \<^verbatim>\<open>runner/retry_policies.ts\<close> (durations, policies and their
  non-retryable classifier) and \<^verbatim>\<open>runner/retry_hints.ts\<close> (when a throttled job may run again).
  Seconds are rationals. What the wrapped operation does, whether the outer signal has fired and what
  the random source returns are functions of the attempt number.
\<close>

section \<open>Thrown values\<close>

datatype error_class = PlainError | PermanentJobError | ZodError | TerminalCancelError string

text \<open>\<open>e_retryAfterSeconds\<close> is \<open>Some\<close> when the property is a finite number, \<open>e_resetAt\<close> when it is a
  valid date.\<close>

record js_error =
  e_class :: error_class
  e_name :: string
  e_message :: string
  e_retryAfterSeconds :: "rat option"
  e_resetAt :: "js_date option"

datatype thrown = ThrownError js_error | ThrownValue string

definition plain_error :: "string \<Rightarrow> thrown" where
  "plain_error msg = ThrownError \<lparr>e_class = PlainError, e_name = ''Error'', e_message = msg,
     e_retryAfterSeconds = None, e_resetAt = None\<rparr>"

text \<open>\<^verbatim>\<open>e instanceof Error ? e.message : String(e)\<close>\<close>

definition message_of :: "thrown \<Rightarrow> string" where
  "message_of e = (case e of ThrownError x \<Rightarrow> e_message x | ThrownValue s \<Rightarrow> s)"

section \<open>Throttle hints\<close>

definition THROTTLE_ERROR_NAMES :: "string list" where
  "THROTTLE_ERROR_NAMES = [''GitHubRateLimitExceeded'', ''LlmRateLimitError'']"

definition DEFAULT_THROTTLE_DEFER_SECONDS :: rat where
  "DEFAULT_THROTTLE_DEFER_SECONDS = 60"

definition MAX_THROTTLE_DEFER_SECONDS :: rat where
  "MAX_THROTTLE_DEFER_SECONDS = 3600"

text \<open>\<^verbatim>\<open>new Date(x)\<close> truncates to whole milliseconds.\<close>

definition to_date :: "rat \<Rightarrow> js_date" where
  "to_date x = (if 0 \<le> x then \<lfloor>x\<rfloor> else \<lceil>x\<rceil>)"

text \<open>The wait in seconds: the explicit directive, else the reset instant, else the default; a wait
  that is not positive counts as no hint.\<close>

definition throttle_wait :: "js_error \<Rightarrow> js_date \<Rightarrow> rat" where
  "throttle_wait x nowMs =
     (let directive = (case e_retryAfterSeconds x of
          Some s \<Rightarrow> if 0 < s then Some s else None | None \<Rightarrow> None);
        waitSeconds = (case directive of
          Some s \<Rightarrow> s
        | None \<Rightarrow> (case e_resetAt x of
            Some d \<Rightarrow> of_int (d - nowMs) / 1000
          | None \<Rightarrow> DEFAULT_THROTTLE_DEFER_SECONDS))
      in if waitSeconds \<le> 0 then DEFAULT_THROTTLE_DEFER_SECONDS else waitSeconds)"

definition extractRetryAtHint :: "thrown \<Rightarrow> js_date \<Rightarrow> js_date option" where
  "extractRetryAtHint e nowMs =
     (case e of
        ThrownValue _ \<Rightarrow> None
      | ThrownError x \<Rightarrow>
          if e_name x \<notin> set THROTTLE_ERROR_NAMES then None
          else Some (to_date (of_int nowMs + min (throttle_wait x nowMs) MAX_THROTTLE_DEFER_SECONDS * 1000)))"

lemma throttle_wait_pos: "0 < throttle_wait x nowMs"
  by (simp add: throttle_wait_def Let_def DEFAULT_THROTTLE_DEFER_SECONDS_def)

lemma throttle_wait_unusable:
  "e_retryAfterSeconds x = None \<Longrightarrow> \<forall>r. e_resetAt x = Some r \<longrightarrow> r \<le> nowMs \<Longrightarrow> throttle_wait x nowMs = 60"
  by (auto simp: throttle_wait_def DEFAULT_THROTTLE_DEFER_SECONDS_def split: option.splits)

lemma extractRetryAtHint_None_iff:
  "extractRetryAtHint e nowMs = None \<longleftrightarrow>
     (case e of ThrownValue _ \<Rightarrow> True | ThrownError x \<Rightarrow> e_name x \<notin> set THROTTLE_ERROR_NAMES)"
  by (auto simp: extractRetryAtHint_def Let_def split: thrown.splits)

lemma to_date_bounds:
  assumes "0 \<le> now" and "0 \<le> d" and "d \<le> of_int k"
  shows "now \<le> to_date (of_int now + d)" and "to_date (of_int now + d) \<le> now + k"
proof -
  have nn: "0 \<le> (of_int now + d :: rat)" using assms(1,2) by simp
  have "\<lfloor>d\<rfloor> \<le> k" using assms(3) by (metis floor_mono floor_of_int)
  with nn show "to_date (of_int now + d) \<le> now + k" by (simp add: to_date_def)
  have "0 \<le> \<lfloor>d\<rfloor>" using assms(2) by simp
  with nn show "now \<le> to_date (of_int now + d)" by (simp add: to_date_def)
qed

section \<open>Durations and policies\<close>

definition is_space :: "char \<Rightarrow> bool" where
  "is_space c \<longleftrightarrow> c = CHR '' '' \<or> (CHR 0x09 \<le> c \<and> c \<le> CHR 0x0D) \<or> c = CHR 0xA0"

definition trim :: "string \<Rightarrow> string" where
  "trim s = rev (dropWhile is_space (rev (dropWhile is_space s)))"

definition decimal_value :: "string \<Rightarrow> string \<Rightarrow> rat" where
  "decimal_value whole fr =
     of_nat (number_of whole) + of_nat (number_of fr) / 10 ^ length fr"

text \<open>The unit alternatives of the pattern with their seconds.\<close>

definition unit_seconds :: "string \<Rightarrow> rat option" where
  "unit_seconds u =
     (if u = ''ms'' then Some (1 / 1000)
      else if u \<in> {''s'', ''second'', ''seconds''} then Some 1
      else if u \<in> {''m'', ''min'', ''minute'', ''minutes''} then Some 60
      else if u \<in> {''h'', ''hour'', ''hours''} then Some 3600
      else None)"

text \<open>\<open>None\<close> is the thrown \<^verbatim>\<open>unparseable Temporal duration\<close>.\<close>

definition parseTemporalDuration :: "string \<Rightarrow> rat option" where
  "parseTemporalDuration d =
     (let s = trim d; whole = takeWhile is_digit s; r1 = dropWhile is_digit s;
        fr = (case r1 of [] \<Rightarrow> [] | c # r \<Rightarrow> if c = CHR ''.'' then takeWhile is_digit r else []);
        r2 = (if fr = [] then r1 else dropWhile is_digit (tl r1))
      in if whole = [] then None
         else map_option (\<lambda>u. decimal_value whole fr * u) (unit_seconds (dropWhile is_space r2)))"

record retry_options =
  o_startToCloseTimeout :: "string option"
  o_maximumAttempts :: "nat option"
  o_initialInterval :: "string option"
  o_maximumInterval :: "string option"
  o_backoffCoefficient :: "rat option"
  o_nonRetryableErrorTypes :: "string list"

record retry_policy =
  p_startToCloseS :: rat
  p_initialIntervalS :: rat
  p_maxIntervalS :: rat
  p_backoff :: rat
  p_maxAttempts :: nat
  p_declared :: "string list"

datatype policy_error = NoStartToClose | NoMaximumAttempts | UnparseableDuration string

definition SDK_DEFAULT_INITIAL_INTERVAL_S :: rat where "SDK_DEFAULT_INITIAL_INTERVAL_S = 1"
definition SDK_DEFAULT_BACKOFF_COEFFICIENT :: rat where "SDK_DEFAULT_BACKOFF_COEFFICIENT = 2"
definition SDK_DEFAULT_MAX_INTERVAL_FACTOR :: rat where "SDK_DEFAULT_MAX_INTERVAL_FACTOR = 100"

definition duration_or :: "rat \<Rightarrow> string option \<Rightarrow> policy_error + rat" where
  "duration_or dflt d = (case d of None \<Rightarrow> Inr dflt | Some s \<Rightarrow>
     (case parseTemporalDuration s of None \<Rightarrow> Inl (UnparseableDuration s) | Some v \<Rightarrow> Inr v))"

definition toRetryPolicy :: "retry_options \<Rightarrow> policy_error + retry_policy" where
  "toRetryPolicy opts =
     (case o_startToCloseTimeout opts of
        None \<Rightarrow> Inl NoStartToClose
      | Some stc \<Rightarrow>
     (case o_maximumAttempts opts of
        None \<Rightarrow> Inl NoMaximumAttempts
      | Some n \<Rightarrow>
     (case duration_or SDK_DEFAULT_INITIAL_INTERVAL_S (o_initialInterval opts) of
        Inl e \<Rightarrow> Inl e
      | Inr initial \<Rightarrow>
     (case duration_or (initial * SDK_DEFAULT_MAX_INTERVAL_FACTOR) (o_maximumInterval opts) of
        Inl e \<Rightarrow> Inl e
      | Inr mx \<Rightarrow>
     (case parseTemporalDuration stc of
        None \<Rightarrow> Inl (UnparseableDuration stc)
      | Some s \<Rightarrow>
          Inr \<lparr>p_startToCloseS = s, p_initialIntervalS = initial, p_maxIntervalS = mx,
            p_backoff = (case o_backoffCoefficient opts of None \<Rightarrow> SDK_DEFAULT_BACKOFF_COEFFICIENT | Some b \<Rightarrow> b),
            p_maxAttempts = n,
            p_declared = (if ''BedrockOutputUnsafeError'' \<in> set (o_nonRetryableErrorTypes opts)
              then ''LlmOutputUnsafeError'' # o_nonRetryableErrorTypes opts
              else o_nonRetryableErrorTypes opts)\<rparr>)))))"

definition nonRetryable :: "retry_policy \<Rightarrow> thrown \<Rightarrow> bool" where
  "nonRetryable p e = (case e of
     ThrownValue _ \<Rightarrow> False
   | ThrownError x \<Rightarrow> e_name x \<in> set (p_declared p) \<or> e_name x \<in> set THROTTLE_ERROR_NAMES
       \<or> e_name x = ''TerminalCancelError'')"

section \<open>The retry loop\<close>

datatype 'a attempt_result = AOk 'a | AThrow thrown | ATimeout

text \<open>The environment of the attempts, by attempt number: what the operation does, whether the outer
  signal has fired at the gate and at the catch, the jitter factor and the error of a timeout. There
  is no outer signal when both abort functions are constantly false.\<close>

record 'a retry_env =
  re_result :: "nat \<Rightarrow> 'a attempt_result"
  re_gate_aborted :: "nat \<Rightarrow> bool"
  re_catch_aborted :: "nat \<Rightarrow> bool"
  re_abort_error :: thrown
  re_jitter :: "nat \<Rightarrow> rat"
  re_timeout_error :: thrown

text \<open>The outcome: the value or what is thrown (\<open>None\<close> is the undefined \<^verbatim>\<open>lastErr\<close> of a policy with
  no attempts), the attempts dispatched and the backoff sleeps.\<close>

record 'a retry_run =
  rr_result :: "thrown option + 'a"
  rr_dispatched :: "nat list"
  rr_sleeps :: "rat list"

definition backoff_sleep :: "'a retry_env \<Rightarrow> nat \<Rightarrow> rat \<Rightarrow> rat" where
  "backoff_sleep env attempt interval = interval * re_jitter env attempt"

text \<open>\<open>k\<close> is the number of attempts left, \<open>attempt\<close> the loop variable.\<close>

fun retry_loop :: "retry_policy \<Rightarrow> 'a retry_env \<Rightarrow> nat \<Rightarrow> nat \<Rightarrow> rat \<Rightarrow> thrown option
    \<Rightarrow> nat list \<Rightarrow> rat list \<Rightarrow> 'a retry_run" where
  "retry_loop p env 0 attempt interval lastErr ds ss =
     \<lparr>rr_result = Inl lastErr, rr_dispatched = ds, rr_sleeps = ss\<rparr>"
| "retry_loop p env (Suc k) attempt interval lastErr ds ss =
     (if re_gate_aborted env attempt then
        \<lparr>rr_result = Inl (Some (case lastErr of Some e \<Rightarrow> e | None \<Rightarrow> re_abort_error env)),
         rr_dispatched = ds, rr_sleeps = ss\<rparr>
      else
        (let ds' = ds @ [attempt];
           next = min (interval * p_backoff p) (p_maxIntervalS p);
           slept = ss @ [backoff_sleep env attempt interval]
         in case re_result env attempt of
              AThrow e \<Rightarrow>
                (if nonRetryable p e \<or> attempt = p_maxAttempts p \<or> re_catch_aborted env attempt
                 then \<lparr>rr_result = Inl (Some e), rr_dispatched = ds', rr_sleeps = ss\<rparr>
                 else retry_loop p env k (Suc attempt) next (Some e) ds' slept)
            | ATimeout \<Rightarrow>
                (if attempt = p_maxAttempts p \<or> re_catch_aborted env attempt
                 then \<lparr>rr_result = Inl (Some (re_timeout_error env)), rr_dispatched = ds', rr_sleeps = ss\<rparr>
                 else retry_loop p env k (Suc attempt) next (Some (re_timeout_error env)) ds' slept)
            | AOk v \<Rightarrow> \<lparr>rr_result = Inr v, rr_dispatched = ds', rr_sleeps = ss\<rparr>))"

definition runWithRetry :: "retry_policy \<Rightarrow> 'a retry_env \<Rightarrow> 'a retry_run" where
  "runWithRetry p env = retry_loop p env (p_maxAttempts p) 1 (p_initialIntervalS p) None [] []"

text \<open>The interval before attempt \<open>n + 1\<close>, in closed form.\<close>

fun retry_interval :: "retry_policy \<Rightarrow> nat \<Rightarrow> rat" where
  "retry_interval p 0 = p_initialIntervalS p"
| "retry_interval p (Suc n) = min (retry_interval p n * p_backoff p) (p_maxIntervalS p)"

lemma retry_interval_le: "p_initialIntervalS p \<le> p_maxIntervalS p \<Longrightarrow> retry_interval p n \<le> p_maxIntervalS p"
  by (cases n) auto

lemma retry_interval_nonneg:
  "0 \<le> p_initialIntervalS p \<Longrightarrow> 0 \<le> p_backoff p \<Longrightarrow> 0 \<le> p_maxIntervalS p \<Longrightarrow> 0 \<le> retry_interval p n"
  by (induction n) auto

definition retry_sleeps :: "retry_policy \<Rightarrow> 'a retry_env \<Rightarrow> nat \<Rightarrow> rat list" where
  "retry_sleeps p env n = map (\<lambda>i. backoff_sleep env (Suc i) (retry_interval p i)) [0..<n]"

text \<open>A failure the loop retries, and the error it remembers.\<close>

definition retried_failure :: "retry_policy \<Rightarrow> 'a retry_env \<Rightarrow> nat \<Rightarrow> thrown option" where
  "retried_failure p env i =
     (case re_result env i of
        AOk _ \<Rightarrow> None
      | AThrow e \<Rightarrow> if nonRetryable p e then None else Some e
      | ATimeout \<Rightarrow> Some (re_timeout_error env))"

definition retry_state :: "retry_policy \<Rightarrow> 'a retry_env \<Rightarrow> nat \<Rightarrow> 'a retry_run" where
  "retry_state p env n = retry_loop p env (Suc (p_maxAttempts p) - n) n (retry_interval p (n - 1))
     (if n = 1 then None else retried_failure p env (n - 1)) [1..<n] (retry_sleeps p env (n - 1))"

lemma retry_state_step:
  assumes "1 \<le> n" and "n < p_maxAttempts p" and "\<not> re_gate_aborted env n" and "\<not> re_catch_aborted env n"
    and "retried_failure p env n = Some e"
  shows "retry_state p env n = retry_state p env (Suc n)"
proof -
  obtain k where k: "Suc (p_maxAttempts p) - n = Suc k" and k': "Suc (p_maxAttempts p) - Suc n = k"
    using assms(2) by (metis Suc_diff_Suc diff_Suc_Suc less_SucI)
  have iv: "retry_interval p n = min (retry_interval p (n - 1) * p_backoff p) (p_maxIntervalS p)"
    using assms(1) by (cases n) auto
  have sl: "retry_sleeps p env n = retry_sleeps p env (n - 1) @ [backoff_sleep env n (retry_interval p (n - 1))]"
    using assms(1) by (cases n) (auto simp: retry_sleeps_def)
  have ds: "[1..<Suc n] = [1..<n] @ [n]" using assms(1) by simp
  show ?thesis
    unfolding retry_state_def k k' using assms(3-5) assms(2) iv sl ds
    by (auto simp: Let_def retried_failure_def split: attempt_result.splits if_splits)
qed

lemma runWithRetry_state:
  assumes "1 \<le> n" and "n \<le> p_maxAttempts p"
    and "\<forall>i. 1 \<le> i \<and> i < n \<longrightarrow> retried_failure p env i \<noteq> None \<and> \<not> re_gate_aborted env i \<and> \<not> re_catch_aborted env i"
  shows "runWithRetry p env = retry_state p env n"
  using assms
proof (induction n rule: nat_induct_at_least)
  case base
  then show ?case by (simp add: runWithRetry_def retry_state_def retry_sleeps_def)
next
  case (Suc n)
  then have "runWithRetry p env = retry_state p env n" by simp
  also have "\<dots> = retry_state p env (Suc n)"
    using Suc retry_state_step [of n p env] by (metis Suc_le_eq lessI not_Some_eq)
  finally show ?case .
qed

definition retry_good :: "retry_policy \<Rightarrow> 'a retry_env \<Rightarrow> nat \<Rightarrow> 'a retry_run \<Rightarrow> bool" where
  "retry_good p env n run \<longleftrightarrow>
     (\<exists>d\<le>n. rr_dispatched run = [1..<Suc d]
        \<and> (rr_sleeps run = retry_sleeps p env (d - 1) \<or> rr_sleeps run = retry_sleeps p env d)
        \<and> (\<forall>v. rr_result run = Inr v \<longrightarrow> 1 \<le> d \<and> re_result env d = AOk v))"

lemma retry_good_stop:
  assumes "d \<le> n" and "sl = retry_sleeps p env (d - 1) \<or> sl = retry_sleeps p env d"
    and "\<And>v. res = Inr v \<Longrightarrow> 1 \<le> d \<and> re_result env d = AOk v"
  shows "retry_good p env n \<lparr>rr_result = res, rr_dispatched = [1..<Suc d], rr_sleeps = sl\<rparr>"
  unfolding retry_good_def using assms by (intro exI [of _ d]) auto

lemma retry_loop_good:
  "retry_good p env (k + j)
     (retry_loop p env k (Suc j) (retry_interval p j) le [1..<Suc j] (retry_sleeps p env j))"
proof (induction k arbitrary: j le)
  case 0
  show ?case unfolding retry_loop.simps by (rule retry_good_stop) auto
next
  case (Suc k)
  have ds: "[1..<Suc j] @ [Suc j] = [1..<Suc (Suc j)]" by simp
  have ss: "retry_sleeps p env j @ [backoff_sleep env (Suc j) (retry_interval p j)] = retry_sleeps p env (Suc j)"
    by (simp add: retry_sleeps_def)
  have rec: "retry_good p env (Suc k + j) (retry_loop p env k (Suc (Suc j))
      (min (retry_interval p j * p_backoff p) (p_maxIntervalS p)) e [1..<Suc (Suc j)] (retry_sleeps p env (Suc j)))" for e
    using Suc.IH [of "Suc j" e] by (simp del: upt_Suc)
  have stopL: "retry_good p env (Suc k + j)
      \<lparr>rr_result = Inl e, rr_dispatched = [1..<Suc (Suc j)], rr_sleeps = retry_sleeps p env j\<rparr>" for e
    by (rule retry_good_stop) auto
  have stopR: "retry_good p env (Suc k + j)
      \<lparr>rr_result = Inr v, rr_dispatched = [1..<Suc (Suc j)], rr_sleeps = retry_sleeps p env j\<rparr>"
    if "re_result env (Suc j) = AOk v" for v
    using that by (intro retry_good_stop) auto
  have gate: "retry_good p env (Suc k + j)
      \<lparr>rr_result = Inl e, rr_dispatched = [1..<Suc j], rr_sleeps = retry_sleeps p env j\<rparr>" for e
    by (rule retry_good_stop) auto
  show ?case
    unfolding retry_loop.simps Let_def ds ss
    by (cases "re_result env (Suc j)")
       (simp_all only: attempt_result.case rec stopL stopR gate split: if_split, simp_all)
qed

lemma runWithRetry_good: "retry_good p env (p_maxAttempts p) (runWithRetry p env)"
  using retry_loop_good [of p env "p_maxAttempts p" 0 None]
  by (simp add: runWithRetry_def retry_sleeps_def)

section \<open>Properties\<close>

text \<open>In-place retry is bounded: the operation is dispatched for the attempts 1 to at most
  \<open>maxAttempts\<close>, in order and each once; between dispatches it sleeps the jittered exponential
  backoff capped at the maximum interval; and a value it returns is the one the last dispatched
  attempt produced.\<close>

theorem runWithRetry_bounded:
  "\<exists>d\<le>p_maxAttempts p. rr_dispatched (runWithRetry p env) = [1..<Suc d]
    \<and> (rr_sleeps (runWithRetry p env) = map (\<lambda>i. retry_interval p i * re_jitter env (Suc i)) [0..<d - 1]
       \<or> rr_sleeps (runWithRetry p env) = map (\<lambda>i. retry_interval p i * re_jitter env (Suc i)) [0..<d])
    \<and> (\<forall>v. rr_result (runWithRetry p env) = Inr v \<longrightarrow> 1 \<le> d \<and> re_result env d = AOk v)"
  using runWithRetry_good [of p env] by (simp add: retry_good_def retry_sleeps_def backoff_sleep_def)

definition demo_policy :: retry_policy where
  "demo_policy = \<lparr>p_startToCloseS = 10, p_initialIntervalS = 1, p_maxIntervalS = 4, p_backoff = 2,
     p_maxAttempts = 5, p_declared = []\<rparr>"

definition demo_env :: "nat retry_env" where
  "demo_env = \<lparr>re_result = (\<lambda>i. if i < 4 then ATimeout else AOk 7), re_gate_aborted = (\<lambda>_. False),
     re_catch_aborted = (\<lambda>_. False), re_abort_error = plain_error ''aborted'', re_jitter = (\<lambda>_. 1),
     re_timeout_error = plain_error ''timeout''\<rparr>"

theorem runWithRetry_bounded_witness:
  "\<exists>d\<le>5. rr_dispatched (runWithRetry demo_policy demo_env) = [1..<Suc d]"
  using runWithRetry_bounded [of demo_policy demo_env] by (auto simp: demo_policy_def)

text \<open>Retry succeeds when it can: if attempt \<open>n\<close> is within the budget and yields a value, every
  earlier attempt fails in a retryable way and no abort is raised, the value of attempt \<open>n\<close> is
  returned after exactly \<open>n\<close> dispatches and \<open>n - 1\<close> backoff sleeps.\<close>

theorem runWithRetry_first_success:
  assumes "1 \<le> n" and "n \<le> p_maxAttempts p" and "re_result env n = AOk v"
    and "\<forall>i. 1 \<le> i \<and> i < n \<longrightarrow> retried_failure p env i \<noteq> None"
    and "\<forall>i\<le>n. \<not> re_gate_aborted env i \<and> \<not> re_catch_aborted env i"
  shows "runWithRetry p env
    = \<lparr>rr_result = Inr v, rr_dispatched = [1..<Suc n], rr_sleeps = retry_sleeps p env (n - 1)\<rparr>"
proof -
  obtain k where k: "Suc (p_maxAttempts p) - n = Suc k"
    using assms(2) by (metis Suc_diff_le)
  have "runWithRetry p env = retry_state p env n"
    using assms by (intro runWithRetry_state) auto
  then show ?thesis
    using assms(1,3,5) k by (auto simp: retry_state_def Let_def)
qed

theorem runWithRetry_first_success_witness:
  "runWithRetry demo_policy demo_env = \<lparr>rr_result = Inr 7, rr_dispatched = [1, 2, 3, 4], rr_sleeps = [1, 2, 4]\<rparr>"
  using runWithRetry_first_success [of 4 demo_policy demo_env 7]
  by (auto simp: demo_policy_def demo_env_def retried_failure_def retry_sleeps_def backoff_sleep_def upt_rec numeral_eq_Suc)

text \<open>A throttle hint never parks a job for more than an hour and never moves it into the past;
  an unusable hint waits a full minute, and anything that is not one of the two rate-limit errors
  gives no hint at all.\<close>

theorem extractRetryAtHint_window:
  assumes "0 \<le> nowMs"
  shows "case extractRetryAtHint e nowMs of
      None \<Rightarrow> (\<forall>x. e = ThrownError x \<longrightarrow> e_name x \<notin> {''GitHubRateLimitExceeded'', ''LlmRateLimitError''})
    | Some d \<Rightarrow> nowMs \<le> d \<and> d \<le> nowMs + 3600000
        \<and> (\<exists>x. e = ThrownError x \<and> e_name x \<in> {''GitHubRateLimitExceeded'', ''LlmRateLimitError''}
            \<and> (e_retryAfterSeconds x = None \<and> (\<forall>r. e_resetAt x = Some r \<longrightarrow> r \<le> nowMs) \<longrightarrow> d = nowMs + 60000))"
proof (cases "extractRetryAtHint e nowMs")
  case None
  then show ?thesis
    using extractRetryAtHint_None_iff [of e nowMs] by (auto simp: THROTTLE_ERROR_NAMES_def split: thrown.splits)
next
  case (Some d)
  then obtain x where x: "e = ThrownError x" "e_name x \<in> set THROTTLE_ERROR_NAMES"
    using extractRetryAtHint_None_iff [of e nowMs] by (auto split: thrown.splits)
  let ?w = "throttle_wait x nowMs"
  have w: "0 < ?w" "d = to_date (of_int nowMs + min ?w MAX_THROTTLE_DEFER_SECONDS * 1000)"
    using Some x throttle_wait_pos by (auto simp: extractRetryAtHint_def)
  note w60 = throttle_wait_unusable [of x nowMs]
  have m: "0 \<le> min ?w MAX_THROTTLE_DEFER_SECONDS * 1000" "min ?w MAX_THROTTLE_DEFER_SECONDS * 1000 \<le> of_int 3600000"
    using w(1) by (auto simp: MAX_THROTTLE_DEFER_SECONDS_def)
  have "nowMs \<le> d" "d \<le> nowMs + 3600000"
    using to_date_bounds [OF assms m] w(2) by auto
  moreover have "d = nowMs + 60000" if "?w = 60"
  proof -
    have "(of_int nowMs + min ?w MAX_THROTTLE_DEFER_SECONDS * 1000 :: rat) = of_int (nowMs + 60000)"
      using that by (simp add: MAX_THROTTLE_DEFER_SECONDS_def)
    then show ?thesis using assms w(2) by (simp add: to_date_def)
  qed
  ultimately show ?thesis
    using Some x w60 by (auto simp: THROTTLE_ERROR_NAMES_def)
qed

theorem extractRetryAtHint_window_witness:
  "extractRetryAtHint (ThrownError \<lparr>e_class = PlainError, e_name = ''LlmRateLimitError'', e_message = ''slow'',
       e_retryAfterSeconds = Some 7200, e_resetAt = None\<rparr>) 5000 = Some 3605000
   \<and> (3605000 :: int) \<le> 5000 + 3600000"
  using extractRetryAtHint_window [of 5000 "ThrownError \<lparr>e_class = PlainError, e_name = ''LlmRateLimitError'',
      e_message = ''slow'', e_retryAfterSeconds = Some 7200, e_resetAt = None\<rparr>"]
  by (simp add: extractRetryAtHint_def THROTTLE_ERROR_NAMES_def MAX_THROTTLE_DEFER_SECONDS_def to_date_def
      throttle_wait_def)

end
