(* ===== verification/Background_Runner.thy ===== *)
theory Background_Runner
  imports Background_Jobs Retry
begin

text \<open>
  \<^verbatim>\<open>runner/background_runner.ts\<close>: one claim-run-settle cycle of the generic runner and its idle
  maintenance. The handler registry maps a job type to a handler; what a handler does is a
  \<open>handler_result\<close> (it returned, it threw, or the hard runtime ceiling won the race). Between the
  claim and the settle other connections, and the heartbeats of this worker, change the table: that
  is the argument \<open>mid\<close>, an arbitrary function. Metrics and log lines are not modelled.

  The specification is \<open>bg_verdict\<close>, which says what is to become of a claimed job, and the main result
  is that a cycle is a claim, then whatever the others do, then the one statement of the verdict.
\<close>

datatype bg_outcome = BIdle | BDone | BFailed | BLeaseLost | BNoHandler

datatype handler_result = HandlerOk | HandlerThrow thrown | HandlerOverran

type_synonym 'n registry = "string \<Rightarrow> ('n json \<Rightarrow> handler_result) option"

text \<open>The surroundings of one cycle: the rows locked elsewhere and \<^verbatim>\<open>now()\<close> at the claim, the minted
  token, the process clock, the interference, and \<^verbatim>\<open>now()\<close> and \<^verbatim>\<open>random()\<close> at the settle.\<close>

record 'n cycle_env =
  ce_locked :: "uuid \<Rightarrow> bool"
  ce_claim_now :: db_time
  ce_token :: uuid
  ce_clock :: js_date
  ce_mid :: "'n background_job list \<Rightarrow> 'n background_job list"
  ce_settle_now :: db_time
  ce_random :: rat

record bg_config =
  bc_owner :: string
  bc_leaseS :: int
  bc_maxRuntimeS :: int
  bc_shadow :: bool

section \<open>The settle seams\<close>

definition settlePoison ::
  "db_time \<Rightarrow> uuid \<Rightarrow> string \<Rightarrow> uuid \<Rightarrow> string \<Rightarrow> bg_outcome \<Rightarrow> 'n background_job list
     \<Rightarrow> bg_outcome \<times> 'n background_job list" where
  "settlePoison now jid owner tok reason outcome t =
     (let (applied, t') = bj_terminalSettle now jid owner tok reason t
      in (if applied then outcome else BLeaseLost, t'))"

definition settleDefer ::
  "db_time \<Rightarrow> uuid \<Rightarrow> string \<Rightarrow> uuid \<Rightarrow> string \<Rightarrow> js_date \<Rightarrow> 'n background_job list
     \<Rightarrow> bg_outcome \<times> 'n background_job list" where
  "settleDefer now jid owner tok err runAfter t =
     (let (applied, t') = bj_deferRetry now jid owner tok err runAfter t
      in (if applied then BFailed else BLeaseLost, t'))"

definition settleFailure ::
  "db_time \<Rightarrow> rat \<Rightarrow> uuid \<Rightarrow> string \<Rightarrow> uuid \<Rightarrow> string \<Rightarrow> 'n background_job list
     \<Rightarrow> bg_outcome \<times> 'n background_job list" where
  "settleFailure now rnd jid owner tok err t =
     (let ((applied, terminal), t') = bj_markFailed now rnd jid owner tok err 1000 t
      in (if applied then BFailed else BLeaseLost, t'))"

definition settleDone ::
  "db_time \<Rightarrow> uuid \<Rightarrow> string \<Rightarrow> uuid \<Rightarrow> 'n background_job list \<Rightarrow> bg_outcome \<times> 'n background_job list" where
  "settleDone now jid owner tok t =
     (let (applied, t') = bj_markDone now jid owner tok t
      in (if applied then BDone else BLeaseLost, t'))"

text \<open>The catch block: permanent faults, throttle faults, everything else.\<close>

definition is_permanent :: "thrown \<Rightarrow> bool" where
  "is_permanent e = (case e of
     ThrownError x \<Rightarrow> e_class x = PermanentJobError \<or> e_class x = ZodError | ThrownValue _ \<Rightarrow> False)"

definition bg_catch ::
  "db_time \<Rightarrow> rat \<Rightarrow> js_date \<Rightarrow> uuid \<Rightarrow> string \<Rightarrow> uuid \<Rightarrow> thrown \<Rightarrow> 'n background_job list
     \<Rightarrow> bg_outcome \<times> 'n background_job list" where
  "bg_catch now rnd clk jid owner tok e t =
     (if is_permanent e then settlePoison now jid owner tok (message_of e) BFailed t
      else case extractRetryAtHint e clk of
             Some retryAt \<Rightarrow> settleDefer now jid owner tok (message_of e) retryAt t
           | None \<Rightarrow> settleFailure now rnd jid owner tok (message_of e) t)"

definition version_skew_text :: "int \<Rightarrow> string" where
  "version_skew_text v =
     ''envelope schema_version '' @ int_text v @ '' is newer than this runner supports ('' @
     int_text BACKGROUND_JOB_ENVELOPE_SCHEMA_VERSION @ '') '' @ [CHR 0xE2, CHR 0x80, CHR 0x94] @
     '' deferred for a newer runner (deploy skew)''"

text \<open>The message of the error \<^verbatim>\<open>verifyPayload\<close> throws; the schema error's text is Zod's.\<close>

definition verify_error_text :: "'n codec \<Rightarrow> string \<Rightarrow> 'n background_job \<Rightarrow> bj_error \<Rightarrow> string" where
  "verify_error_text cd zod job e =
     (case e of
        PayloadIntegrityError jid \<Rightarrow>
          ''payload hash mismatch for job '' @ jid @ '': stored='' @ payload_sha256 job @ '' recomputed='' @
          (case PayloadObject (bj_payload job) of
             Some pl \<Rightarrow> sha256hex cd (canonicalJson (num_text cd) pl) | None \<Rightarrow> [])
      | _ \<Rightarrow> zod)"

section \<open>One cycle\<close>

definition runOneBackgroundJob ::
  "'n codec \<Rightarrow> string \<Rightarrow> 'n registry \<Rightarrow> bg_config \<Rightarrow> 'n cycle_env \<Rightarrow> 'n background_job list
     \<Rightarrow> (bg_outcome \<times> uuid option) \<times> 'n background_job list" where
  "runOneBackgroundJob cd zod registry cfg ce t =
     (if bc_shadow cfg then ((BIdle, None), t)
      else
        (let owner = bc_owner cfg; tok = ce_token ce; now = ce_settle_now ce
         in case bj_claim (ce_locked ce) (ce_claim_now ce) tok owner (bc_leaseS cfg * 1000) (bc_maxRuntimeS cfg * 1000) t of
              (None, t1) \<Rightarrow> ((BIdle, None), t1)
            | (Some job, t1) \<Rightarrow>
                (let jid = job_id job; t2 = ce_mid ce t1;
                   (outcome, t3) =
                     (if BACKGROUND_JOB_ENVELOPE_SCHEMA_VERSION < schema_version job
                      then settleDefer now jid owner tok (version_skew_text (schema_version job)) (ce_clock ce + 60000) t2
                      else case registry (job_type job) of
                             None \<Rightarrow> settlePoison now jid owner tok (''no handler for '' @ job_type job) BNoHandler t2
                           | Some handler \<Rightarrow>
                               (case bj_verifyPayload cd job of
                                  Inl e \<Rightarrow> settlePoison now jid owner tok (verify_error_text cd zod job e) BFailed t2
                                | Inr payload \<Rightarrow>
                                    (case handler payload of
                                       HandlerOk \<Rightarrow> settleDone now jid owner tok t2
                                     | HandlerOverran \<Rightarrow> settleFailure now (ce_random ce) jid owner tok
                                         (''max runtime '' @ int_text (bc_maxRuntimeS cfg) @ ''s exceeded'') t2
                                     | HandlerThrow e \<Rightarrow>
                                         bg_catch now (ce_random ce) (ce_clock ce) jid owner tok e t2)))
                 in ((outcome, Some jid), t3))))"

definition bg_runIdleMaintenance :: "bg_config \<Rightarrow> db_time \<Rightarrow> 'n background_job list \<Rightarrow> 'n background_job list" where
  "bg_runIdleMaintenance cfg now t = (if bc_shadow cfg then t else snd (bj_reapStuckRuns now t))"

text \<open>One turn of the loop, up to the idle sleep.\<close>

definition bg_loop_turn ::
  "'n codec \<Rightarrow> string \<Rightarrow> 'n registry \<Rightarrow> bg_config \<Rightarrow> 'n cycle_env \<Rightarrow> bool \<Rightarrow> db_time \<Rightarrow> 'n background_job list
     \<Rightarrow> 'n background_job list" where
  "bg_loop_turn cd zod registry cfg ce stopped now t =
     (let ((outcome, _), t') = runOneBackgroundJob cd zod registry cfg ce t
      in if outcome = BIdle \<and> \<not> stopped then bg_runIdleMaintenance cfg now t' else t')"

section \<open>The specification of a cycle\<close>

datatype verdict = VDone | VDead bg_outcome string | VDefer string js_date | VFail string

definition thrown_verdict :: "js_date \<Rightarrow> thrown \<Rightarrow> verdict" where
  "thrown_verdict clk e =
     (if is_permanent e then VDead BFailed (message_of e)
      else case extractRetryAtHint e clk of
             Some d \<Rightarrow> VDefer (message_of e) d | None \<Rightarrow> VFail (message_of e))"

definition bg_verdict :: "'n codec \<Rightarrow> string \<Rightarrow> 'n registry \<Rightarrow> bg_config \<Rightarrow> js_date \<Rightarrow> 'n background_job \<Rightarrow> verdict" where
  "bg_verdict cd zod registry cfg clk job =
     (if 1 < schema_version job then VDefer (version_skew_text (schema_version job)) (clk + 60000)
      else case registry (job_type job) of
             None \<Rightarrow> VDead BNoHandler (''no handler for '' @ job_type job)
           | Some handler \<Rightarrow>
               (case bj_verifyPayload cd job of
                  Inl e \<Rightarrow> VDead BFailed (verify_error_text cd zod job e)
                | Inr payload \<Rightarrow>
                    (case handler payload of
                       HandlerOk \<Rightarrow> VDone
                     | HandlerOverran \<Rightarrow> VFail (''max runtime '' @ int_text (bc_maxRuntimeS cfg) @ ''s exceeded'')
                     | HandlerThrow e \<Rightarrow> thrown_verdict clk e)))"

fun verdict_op :: "db_time \<Rightarrow> rat \<Rightarrow> uuid \<Rightarrow> string \<Rightarrow> uuid \<Rightarrow> verdict \<Rightarrow> 'n bg_op" where
  "verdict_op now rnd jid owner tok VDone = BgDone now jid owner tok"
| "verdict_op now rnd jid owner tok (VDead oc reason) = BgTerm now jid owner tok reason"
| "verdict_op now rnd jid owner tok (VDefer err d) = BgDefer now jid owner tok err d"
| "verdict_op now rnd jid owner tok (VFail err) = BgFail now rnd jid owner tok err 1000"

fun verdict_outcome :: "verdict \<Rightarrow> bg_outcome" where
  "verdict_outcome VDone = BDone"
| "verdict_outcome (VDead oc reason) = oc"
| "verdict_outcome _ = BFailed"

text \<open>Settling statements report \<open>applied\<close> exactly when the lease is still held.\<close>

definition holds_lease :: "uuid \<Rightarrow> string \<Rightarrow> uuid \<Rightarrow> 'n background_job list \<Rightarrow> bool" where
  "holds_lease jid owner tok t \<longleftrightarrow> hits (fenced jid owner tok) t = 1"

lemma settle_verdict:
  "settleDone now jid owner tok t =
     (if holds_lease jid owner tok t then BDone else BLeaseLost, bg_exec (BgDone now jid owner tok) t)"
  "settlePoison now jid owner tok reason oc t =
     (if holds_lease jid owner tok t then oc else BLeaseLost, bg_exec (BgTerm now jid owner tok reason) t)"
  "settleDefer now jid owner tok err d t =
     (if holds_lease jid owner tok t then BFailed else BLeaseLost, bg_exec (BgDefer now jid owner tok err d) t)"
  "settleFailure now rnd jid owner tok err t =
     (if holds_lease jid owner tok t then BFailed else BLeaseLost, bg_exec (BgFail now rnd jid owner tok err 1000) t)"
  by (simp_all add: settleDone_def settlePoison_def settleDefer_def settleFailure_def holds_lease_def
      bj_markDone_def bj_terminalSettle_def bj_deferRetry_def bj_markFailed_def length_returning Let_def)

lemma catch_verdict:
  "bg_catch now rnd clk jid owner tok e t =
     (if holds_lease jid owner tok t then verdict_outcome (thrown_verdict clk e) else BLeaseLost,
      bg_exec (verdict_op now rnd jid owner tok (thrown_verdict clk e)) t)"
  by (simp add: bg_catch_def thrown_verdict_def settle_verdict split: option.splits)

lemma runOneBackgroundJob_spec:
  assumes "\<not> bc_shadow cfg"
    and "bj_claim (ce_locked ce) (ce_claim_now ce) (ce_token ce) (bc_owner cfg) (bc_leaseS cfg * 1000)
           (bc_maxRuntimeS cfg * 1000) t = (Some job, t1)"
  shows "runOneBackgroundJob cd zod registry cfg ce t =
    ((if holds_lease (job_id job) (bc_owner cfg) (ce_token ce) (ce_mid ce t1)
      then verdict_outcome (bg_verdict cd zod registry cfg (ce_clock ce) job) else BLeaseLost, Some (job_id job)),
     bg_exec (verdict_op (ce_settle_now ce) (ce_random ce) (job_id job) (bc_owner cfg) (ce_token ce)
       (bg_verdict cd zod registry cfg (ce_clock ce) job)) (ce_mid ce t1))"
  using assms
  by (auto simp: runOneBackgroundJob_def bg_verdict_def settle_verdict catch_verdict Let_def
      BACKGROUND_JOB_ENVELOPE_SCHEMA_VERSION_def split: option.splits sum.splits handler_result.splits)

lemma holds_lease_iff:
  assumes "distinct (map job_id t)"
  shows "holds_lease jid owner tok t \<longleftrightarrow> (\<exists>r\<in>set t. fenced jid owner tok r)"
  unfolding holds_lease_def using assms fenced_job_id by (rule hits_key_eq_1)

text \<open>What a verdict makes of the leased row.\<close>

fun verdict_row :: "verdict \<Rightarrow> 'n background_job \<Rightarrow> 'n background_job \<Rightarrow> bool" where
  "verdict_row VDone r r' \<longleftrightarrow> state r' = Done"
| "verdict_row (VDead oc reason) r r' \<longleftrightarrow> state r' = Dead \<and> dead_reason r' = Some (left_text 2000 reason)"
| "verdict_row (VDefer err d) r r' \<longleftrightarrow>
     state r' = Ready \<and> attempts r' = attempts r - 1 \<and> run_after r' = of_date d"
| "verdict_row (VFail err) r r' \<longleftrightarrow> attempts r' = attempts r \<and>
     (if attempts r < max_attempts r then state r' = Ready
      else state r' = Dead \<and> dead_reason r' = Some (left_text 2000 err))"

lemma verdict_op_row:
  assumes "r \<in> set t" and "fenced jid owner tok r"
  shows "\<exists>r'\<in>set (bg_exec (verdict_op now rnd jid owner tok v) t).
     job_id r' = jid \<and> verdict_row v r r' \<and> attempt_token r' = None"
proof -
  have mem: "f r \<in> set (upd_where (fenced jid owner tok) f t)" for f
    using assms by (rule upd_where_mem_changed)
  show ?thesis
  proof (cases v)
    case VDone
    show ?thesis using assms(2) unfolding VDone verdict_op.simps bg_exec.simps bj_markDone_def snd_conv
      by (intro bexI [OF _ mem]) (simp add: clear_lease_def fenced_def)
  next
    case (VDead oc reason)
    show ?thesis using assms(2) unfolding VDead verdict_op.simps bg_exec.simps bj_terminalSettle_def snd_conv
      by (intro bexI [OF _ mem]) (simp add: clear_lease_def fenced_def)
  next
    case (VDefer err d)
    show ?thesis using assms(2) unfolding VDefer verdict_op.simps bg_exec.simps bj_deferRetry_def snd_conv
      by (intro bexI [OF _ mem]) (simp add: clear_lease_def fenced_def)
  next
    case (VFail err)
    show ?thesis using assms(2) unfolding VFail verdict_op.simps bg_exec.simps bj_markFailed_def Let_def snd_conv
      by (intro bexI [OF _ mem]) (simp add: bj_fail_set_def clear_lease_def fenced_def)
  qed
qed

lemma verdict_presents: "bg_presents (verdict_op now rnd jid owner tok v) = Some tok"
  by (cases v) auto

section \<open>Properties\<close>

text \<open>One cycle of the runner refines its specification: it is the claim, then whatever others
  did meanwhile, then the single settling statement the verdict on the job calls for; the reported
  outcome is the verdict's exactly when that statement found the lease still held. With nothing
  claimable, or in shadow mode, the table is untouched.\<close>

theorem runOneBackgroundJob_refines:
  "runOneBackgroundJob cd zod registry cfg ce t =
    (if bc_shadow cfg then ((BIdle, None), t)
     else case bj_claim (ce_locked ce) (ce_claim_now ce) (ce_token ce) (bc_owner cfg) (bc_leaseS cfg * 1000)
            (bc_maxRuntimeS cfg * 1000) t of
       (None, t1) \<Rightarrow> ((BIdle, None), t)
     | (Some job, t1) \<Rightarrow>
         (let v = bg_verdict cd zod registry cfg (ce_clock ce) job; t2 = ce_mid ce t1
          in ((if holds_lease (job_id job) (bc_owner cfg) (ce_token ce) t2 then verdict_outcome v else BLeaseLost,
               Some (job_id job)),
              bg_exec (verdict_op (ce_settle_now ce) (ce_random ce) (job_id job) (bc_owner cfg) (ce_token ce) v) t2)))"
proof (cases "bc_shadow cfg")
  case True
  then show ?thesis by (simp add: runOneBackgroundJob_def)
next
  case False
  obtain res t1 where cl: "bj_claim (ce_locked ce) (ce_claim_now ce) (ce_token ce) (bc_owner cfg)
      (bc_leaseS cfg * 1000) (bc_maxRuntimeS cfg * 1000) t = (res, t1)"
    by (meson surj_pair)
  show ?thesis
  proof (cases res)
    case None
    then have "t1 = t"
      using cl by (auto simp: bj_claim_def Let_def returning_def filter_empty_conv dest!: pick_claim_Some(1)
          split: option.splits)
    then show ?thesis using False cl None by (simp add: runOneBackgroundJob_def Let_def)
  next
    case (Some job)
    then show ?thesis using False runOneBackgroundJob_spec [OF False cl [unfolded Some]] cl by (simp add: Let_def)
  qed
qed

text \<open>The fate of a claimed job. If the worker still holds the lease when it settles, the job ends
  as its verdict says (done; dead with the reason; ready again, at the hint and with its attempt
  given back; ready or dead by the attempts left) with the lease cleared. If the lease was lost, the
  worker reports that and changes nothing.\<close>

theorem runOneBackgroundJob_fate:
  assumes "\<not> bc_shadow cfg"
    and "bj_claim (ce_locked ce) (ce_claim_now ce) (ce_token ce) (bc_owner cfg) (bc_leaseS cfg * 1000)
           (bc_maxRuntimeS cfg * 1000) t = (Some job, t1)"
    and "table_wf (ce_mid ce t1)"
    and "runOneBackgroundJob cd zod registry cfg ce t = ((outcome, oid), t')"
  shows "oid = Some (job_id job) \<and>
    (if \<exists>r\<in>set (ce_mid ce t1). fenced (job_id job) (bc_owner cfg) (ce_token ce) r
     then outcome = verdict_outcome (bg_verdict cd zod registry cfg (ce_clock ce) job) \<and>
       (\<exists>r\<in>set (ce_mid ce t1). \<exists>r'\<in>set t'. fenced (job_id job) (bc_owner cfg) (ce_token ce) r \<and>
          job_id r' = job_id job \<and> attempt_token r' = None \<and>
          verdict_row (bg_verdict cd zod registry cfg (ce_clock ce) job) r r')
     else outcome = BLeaseLost \<and> t' = ce_mid ce t1)"
proof -
  let ?t2 = "ce_mid ce t1" and ?v = "bg_verdict cd zod registry cfg (ce_clock ce) job"
  let ?f = "fenced (job_id job) (bc_owner cfg) (ce_token ce)"
  have run: "outcome = (if holds_lease (job_id job) (bc_owner cfg) (ce_token ce) ?t2 then verdict_outcome ?v else BLeaseLost)"
      "oid = Some (job_id job)"
      "t' = bg_exec (verdict_op (ce_settle_now ce) (ce_random ce) (job_id job) (bc_owner cfg) (ce_token ce) ?v) ?t2"
    using runOneBackgroundJob_spec [OF assms(1,2), of cd zod registry] assms(4) by auto
  have held: "holds_lease (job_id job) (bc_owner cfg) (ce_token ce) ?t2 \<longleftrightarrow> (\<exists>r\<in>set ?t2. ?f r)"
    using assms(3) by (intro holds_lease_iff) (simp add: table_wf_def)
  show ?thesis
  proof (cases "\<exists>r\<in>set ?t2. ?f r")
    case True
    then obtain r where r: "r \<in> set ?t2" "?f r" by blast
    from verdict_op_row [OF r, of "ce_settle_now ce" "ce_random ce" ?v] run held True r show ?thesis
      by auto
  next
    case False
    then have "upd_where ?f f ?t2 = ?t2" for f by (auto intro: upd_where_id)
    then have "t' = ?t2"
      using run(3) by (cases ?v) (simp_all add: bj_markDone_def bj_terminalSettle_def bj_deferRetry_def
          bj_markFailed_def Let_def)
    then show ?thesis using run held False by simp
  qed
qed

definition demo_cfg :: bg_config where
  "demo_cfg = \<lparr>bc_owner = ''w2'', bc_leaseS = 60, bc_maxRuntimeS = 600, bc_shadow = False\<rparr>"

definition demo_cycle :: "int cycle_env" where
  "demo_cycle = \<lparr>ce_locked = (\<lambda>_. False), ce_claim_now = 2000, ce_token = ''t2'', ce_clock = 2,
     ce_mid = (\<lambda>t. t), ce_settle_now = 3000, ce_random = 0\<rparr>"

definition demo_claimed :: "int background_job" where
  "demo_claimed = bj_claim_set 2000 ''t2'' ''w2'' 60000 600000 demo_leased"

lemma demo_cycle_claim:
  "bj_claim (ce_locked demo_cycle) (ce_claim_now demo_cycle) (ce_token demo_cycle) (bc_owner demo_cfg)
     (bc_leaseS demo_cfg * 1000) (bc_maxRuntimeS demo_cfg * 1000) [demo_leased] = (Some demo_claimed, [demo_claimed])"
  using demo_claim by (simp add: demo_cycle_def demo_cfg_def demo_claimed_def)

lemma demo_claimed_wf: "table_wf [demo_claimed]"
  by (simp add: table_wf_def job_wf_def terminal_def demo_claimed_def bj_claim_set_def demo_leased_def demo_ready_def)

theorem runOneBackgroundJob_fate_witness:
  "\<exists>outcome oid t'. runOneBackgroundJob demo_codec [] (\<lambda>_. None) demo_cfg demo_cycle [demo_leased] = ((outcome, oid), t')
     \<and> oid = Some ''j2'' \<and> outcome = BNoHandler"
proof -
  obtain outcome oid t' where run:
    "runOneBackgroundJob demo_codec [] (\<lambda>_. None) demo_cfg demo_cycle [demo_leased] = ((outcome, oid), t')"
    by (metis surj_pair)
  have "\<exists>r\<in>set (ce_mid demo_cycle [demo_claimed]). fenced (job_id demo_claimed) (bc_owner demo_cfg) (ce_token demo_cycle) r"
    by (simp add: demo_cycle_def demo_cfg_def fenced_def demo_claimed_def bj_claim_set_def)
  then show ?thesis
    using run runOneBackgroundJob_fate [OF _ demo_cycle_claim _ run] demo_claimed_wf
    by (simp add: demo_cycle_def demo_cfg_def bg_verdict_def)
       (simp add: demo_claimed_def bj_claim_set_def demo_leased_def demo_ready_def)
qed

text \<open>A throttled job is never dead-lettered: when the handler hits a rate limit and the lease
  is still held, the job is ready again at the hint with the attempts it had before this claim,
  however few attempts were left.\<close>

theorem throttled_job_keeps_budget:
  assumes "\<not> bc_shadow cfg" and "table_wf t"
    and "bj_claim (ce_locked ce) (ce_claim_now ce) (ce_token ce) (bc_owner cfg) (bc_leaseS cfg * 1000)
           (bc_maxRuntimeS cfg * 1000) t = (Some job, t1)"
    and "ce_mid ce t1 = t1" and "schema_version job \<le> 1"
    and "registry (job_type job) = Some handler" and "bj_verifyPayload cd job = Inr payload"
    and "handler payload = HandlerThrow e" and "\<not> is_permanent e" and "extractRetryAtHint e (ce_clock ce) = Some d"
  shows "\<exists>r\<in>set t. \<exists>r'\<in>set (snd (runOneBackgroundJob cd zod registry cfg ce t)).
      job_id r = job_id job \<and> job_id r' = job_id job \<and> state r' = Ready \<and> attempts r' = attempts r \<and>
      run_after r' = of_date d"
proof -
  have dist: "distinct (map job_id t)" using assms(2) by (simp add: table_wf_def)
  obtain c where c: "pick_claim (ce_locked ce) (ce_claim_now ce) t = Some c"
    using assms(3) by (auto simp: bj_claim_def split: option.splits)
  note res = bj_claim_result [OF dist c] assms(3)
  have job: "job = bj_claim_set (ce_claim_now ce) (ce_token ce) (bc_owner cfg) (bc_leaseS cfg * 1000)
      (bc_maxRuntimeS cfg * 1000) c" and cm: "c \<in> set t"
    using res pick_claim_Some(1) [OF c] by auto
  have mem: "job \<in> set t1" using res cm job by (auto intro: upd_where_mem_changed)
  have f: "fenced (job_id job) (bc_owner cfg) (ce_token ce) job"
    by (simp add: job fenced_def bj_claim_set_def)
  have v: "bg_verdict cd zod registry cfg (ce_clock ce) job = VDefer (message_of e) d"
    using assms(5-10) by (simp add: bg_verdict_def thrown_verdict_def)
  have "snd (runOneBackgroundJob cd zod registry cfg ce t)
    = bg_exec (verdict_op (ce_settle_now ce) (ce_random ce) (job_id job) (bc_owner cfg) (ce_token ce) (VDefer (message_of e) d)) t1"
    using runOneBackgroundJob_spec [OF assms(1,3), of cd zod registry] v assms(4) by simp
  with verdict_op_row [OF mem f, of "ce_settle_now ce" "ce_random ce" "VDefer (message_of e) d"]
  obtain r' where "r' \<in> set (snd (runOneBackgroundJob cd zod registry cfg ce t))" "job_id r' = job_id job"
    "state r' = Ready" "attempts r' = attempts job - 1" "run_after r' = of_date d"
    by auto
  then show ?thesis using cm by (intro bexI [of _ c] bexI [of _ r']) (auto simp: job bj_claim_set_def)
qed

text \<open>A job in its last attempt, whose handler reports a rate limit without a hint.\<close>

definition demo_last_try :: "int background_job" where
  "demo_last_try = demo_leased\<lparr>attempts := 2, payload_sha256 := replicate 64 (CHR ''a'')\<rparr>"

definition demo_throttle :: thrown where
  "demo_throttle = ThrownError \<lparr>e_class = PlainError, e_name = ''LlmRateLimitError'', e_message = ''slow'',
     e_retryAfterSeconds = None, e_resetAt = None\<rparr>"

lemma demo_throttle_hint: "extractRetryAtHint demo_throttle 2 = Some 60002" "\<not> is_permanent demo_throttle"
  by (simp_all add: demo_throttle_def extractRetryAtHint_def THROTTLE_ERROR_NAMES_def MAX_THROTTLE_DEFER_SECONDS_def
      to_date_def throttle_wait_def DEFAULT_THROTTLE_DEFER_SECONDS_def is_permanent_def)

lemma demo_last_try_claim:
  "bj_claim (ce_locked demo_cycle) (ce_claim_now demo_cycle) (ce_token demo_cycle) (bc_owner demo_cfg)
     (bc_leaseS demo_cfg * 1000) (bc_maxRuntimeS demo_cfg * 1000) [demo_last_try]
   = (Some (bj_claim_set 2000 ''t2'' ''w2'' 60000 600000 demo_last_try),
      [bj_claim_set 2000 ''t2'' ''w2'' 60000 600000 demo_last_try])"
  by (simp add: demo_cycle_def demo_cfg_def bj_claim_def pick_claim_def claimable_def lease_expired_def
      returning_def upd_where_def order_by_def Let_def demo_last_try_def demo_leased_def demo_ready_def)

theorem throttled_job_keeps_budget_witness:
  "\<exists>r'\<in>set (snd (runOneBackgroundJob demo_codec [] (\<lambda>_. Some (\<lambda>_. HandlerThrow demo_throttle)) demo_cfg demo_cycle
       [demo_last_try])). state r' = Ready \<and> attempts r' = 2 \<and> run_after r' = 60002000"
proof -
  let ?job = "bj_claim_set 2000 ''t2'' ''w2'' 60000 600000 demo_last_try"
  have wf: "table_wf [demo_last_try]"
    by (simp add: table_wf_def job_wf_def terminal_def demo_last_try_def demo_leased_def demo_ready_def)
  have ver: "bj_verifyPayload demo_codec ?job = Inr (JObj [])"
    by (simp add: bj_verifyPayload_def PayloadObject_def demo_codec_def bj_claim_set_def demo_last_try_def
        demo_leased_def demo_ready_def)
  have "schema_version ?job \<le> 1"
    by (simp add: bj_claim_set_def demo_last_try_def demo_leased_def demo_ready_def)
  then have "\<exists>r\<in>set [demo_last_try]. \<exists>r'\<in>set (snd (runOneBackgroundJob demo_codec []
      (\<lambda>_. Some (\<lambda>_. HandlerThrow demo_throttle)) demo_cfg demo_cycle [demo_last_try])).
      job_id r = job_id ?job \<and> job_id r' = job_id ?job \<and> state r' = Ready \<and> attempts r' = attempts r \<and>
      run_after r' = of_date 60002"
    by (intro throttled_job_keeps_budget [where payload = "JObj []" and e = demo_throttle, OF _ wf demo_last_try_claim _ _ refl ver refl])
       (simp_all add: demo_cfg_def demo_cycle_def demo_throttle_hint)
  then show ?thesis by (auto simp: demo_last_try_def)
qed

end
