(* ===== verification/Review_Db.thy ===== *)
theory Review_Db
  imports Background_Jobs
begin

text \<open>
  The tables the review pipeline shares: \<^verbatim>\<open>core.pull_request_reviews\<close>, \<^verbatim>\<open>core.repositories\<close>,
  \<^verbatim>\<open>core.review_runs\<close>, \<^verbatim>\<open>core.review_jobs\<close>, \<^verbatim>\<open>core.pr_review_mutex\<close>, \<^verbatim>\<open>audit.workflow_events\<close> and
  \<^verbatim>\<open>audit.audit_events\<close>, with the CHECK, UNIQUE and FOREIGN KEY constraints the code relies on
  (\<^verbatim>\<open>migrations/0001_baseline.sql\<close>), transactions, and the two event writers every component calls.

  A function of type \<open>review_db \<Rightarrow> review_error + 'a \<times> review_db\<close> is code that runs on an open transaction
  handle: an error aborts the transaction, so it carries no state. \<open>transact\<close> is the bracket around it
  (\<^verbatim>\<open>db.transaction().execute\<close>, \<^verbatim>\<open>withPgTransaction\<close>, \<^verbatim>\<open>withMutexTransaction\<close>): an error restores the tables,
  and the deferred foreign key is checked at the commit.
\<close>

section \<open>Rows\<close>

record review_run =
  run_id :: uuid
  rr_review_id :: uuid
  trigger_type :: string
  triggered_by :: "string option"
  attempt_number :: int
  lifecycle_state :: string
  parent_run_id :: "uuid option"
  supersedes_run_id :: "uuid option"
  superseded_by_run_id :: "uuid option"
  run_cancel_reason :: "string option"
  rr_started_at :: db_time
  completed_at :: "db_time option"
  failed_at :: "db_time option"
  cancelled_at :: "db_time option"

record review_row =
  review_id :: uuid
  provider :: string
  repo_id :: int
  rv_pr_number :: int
  provider_pr_id :: string
  pr_node_id :: "string option"
  branch :: "string option"
  current_run_id :: "uuid option"

record repo_row =
  repository_id :: uuid
  github_repo_id :: int
  repo_installation_id :: "uuid option"
  enabled :: bool

record workflow_event =
  event_id :: uuid
  ev_provider :: string
  ev_delivery_id :: "string option"
  ev_run_id :: uuid
  ev_review_id :: uuid
  sequence_no :: int
  event_type :: string
  ev_payload :: "rat json"
  received_at :: db_time
  ev_installation_id :: "uuid option"

record review_job = job_core +
  job_run_id :: uuid
  job_review_id :: uuid
  job_installation_id :: uuid
  delivery_id :: "string option"
  started_at :: "db_time option"
  cancel_reason :: "string option"
  job_payload_schema_version :: int
  job_payload :: "rat js"
  job_mutex_id :: "uuid option"

record pr_mutex =
  mutex_id :: uuid
  mx_installation_id :: uuid
  mx_repository_id :: uuid
  mx_pr_number :: int
  holder_workflow_id :: string
  acquired_at :: db_time
  released_at :: "db_time option"
  lease_expires_at :: "db_time option"

text \<open>The before and after images are shown in clear; the code encrypts them on the way in.\<close>

record audit_event =
  au_installation_id :: uuid
  actor_kind :: string
  au_action :: string
  target_kind :: string
  target_id :: "string option"
  au_before :: "rat json option"
  au_after :: "rat json option"
  au_created_at :: db_time

record review_db =
  reviews :: "review_row list"
  repositories :: "repo_row list"
  review_runs :: "review_run list"
  review_jobs :: "review_job list"
  pr_review_mutex :: "pr_mutex list"
  workflow_events :: "workflow_event list"
  audit_events :: "audit_event list"

datatype review_error =
    BadArgument string
  | StateDrift uuid string "string option"
  | RepositoriesResolveFailed uuid
  | CrossInstallationViolation uuid "uuid option"
  | CurrentRunMismatch uuid "uuid option" "uuid option"
  | ReviewNotFound uuid
  | StaleWriteError uuid uuid "uuid option" string
  | BF3InstallationIdMissing
  | AuditContextMissing
  | MutexTenancyRaceError
  | RunCheckViolation
  | RunFkViolation
  | DuplicateKey string

section \<open>Constraints\<close>

definition active_states :: "string list" where
  "active_states = [''PENDING'', ''RUNNING'', ''WAITING_RETRY'']"

definition LIFECYCLE_STATES :: "string list" where
  "LIFECYCLE_STATES = active_states @ [''COMPLETED'', ''FAILED'', ''CANCELLED'', ''PARTIAL'']"

definition CANCEL_REASONS :: "string list" where
  "CANCEL_REASONS = [''superseded'', ''operator_cancelled'', ''timeout'', ''repository_disabled'',
     ''installation_suspended'', ''shutdown'']"

definition TRIGGER_TYPES :: "string list" where
  "TRIGGER_TYPES = [''pr_opened'', ''pr_synchronize'', ''manual_rerun'', ''comment_trigger'', ''retry'', ''scheduled'']"

text \<open>The CHECK constraints of \<^verbatim>\<open>core.review_runs\<close> on the modelled columns. A comparison with NULL is
  not false, so it passes.\<close>

definition run_checks :: "review_run \<Rightarrow> bool" where
  "run_checks r \<longleftrightarrow>
     1 \<le> attempt_number r \<and>
     (case run_cancel_reason r of None \<Rightarrow> True | Some c \<Rightarrow> c \<in> set CANCEL_REASONS) \<and>
     (cancelled_at r \<noteq> None \<longleftrightarrow> lifecycle_state r = ''CANCELLED'') \<and>
     (completed_at r \<noteq> None \<longleftrightarrow> lifecycle_state r = ''COMPLETED'') \<and>
     (failed_at r \<noteq> None \<longleftrightarrow> lifecycle_state r = ''FAILED'') \<and>
     lifecycle_state r \<in> set LIFECYCLE_STATES \<and>
     superseded_by_run_id r \<noteq> Some (run_id r) \<and>
     (parent_run_id r = None \<or> supersedes_run_id r = None) \<and>
     (run_cancel_reason r = Some ''superseded'' \<longrightarrow> superseded_by_run_id r \<noteq> None) \<and>
     (superseded_by_run_id r \<noteq> None \<longrightarrow> lifecycle_state r = ''CANCELLED'') \<and>
     trigger_type r \<in> set TRIGGER_TYPES"

definition run_active :: "review_run \<Rightarrow> bool" where
  "run_active r \<longleftrightarrow> lifecycle_state r \<in> set active_states"

abbreviation run_ids :: "review_db \<Rightarrow> uuid list" where
  "run_ids db \<equiv> map run_id (review_runs db)"

definition run_ref_ok :: "uuid list \<Rightarrow> uuid option \<Rightarrow> bool" where
  "run_ref_ok ids x \<longleftrightarrow> (case x of None \<Rightarrow> True | Some rid \<Rightarrow> rid \<in> set ids)"

lemma run_ref_ok_None [simp]: "run_ref_ok ids None"
  by (simp add: run_ref_ok_def)

lemma run_ref_ok_Some [simp]: "run_ref_ok ids (Some rid) \<longleftrightarrow> rid \<in> set ids"
  by (simp add: run_ref_ok_def)

lemma run_ref_ok_mono: "run_ref_ok ids x \<Longrightarrow> set ids \<subseteq> set ids' \<Longrightarrow> run_ref_ok ids' x"
  by (auto simp: run_ref_ok_def split: option.splits)

text \<open>\<^verbatim>\<open>UPDATE core.review_runs SET f WHERE p\<close>: one failing CHECK rejects the statement.\<close>

definition update_runs ::
  "(review_run \<Rightarrow> bool) \<Rightarrow> (review_run \<Rightarrow> review_run) \<Rightarrow> review_db \<Rightarrow> review_error + review_db" where
  "update_runs p f db =
     (if \<forall>r\<in>set (review_runs db). p r \<longrightarrow> run_checks (f r)
      then Inr (db\<lparr>review_runs := upd_where p f (review_runs db)\<rparr>) else Inl RunCheckViolation)"

text \<open>\<^verbatim>\<open>review_runs_superseded_by_run_id_fkey\<close> is \<^verbatim>\<open>DEFERRABLE INITIALLY DEFERRED\<close>.\<close>

definition commit_ok :: "review_db \<Rightarrow> bool" where
  "commit_ok db \<longleftrightarrow> (\<forall>r\<in>set (review_runs db). run_ref_ok (run_ids db) (superseded_by_run_id r))"

definition transact ::
  "(review_db \<Rightarrow> review_error + 'a \<times> review_db) \<Rightarrow> review_db \<Rightarrow> (review_error + 'a) \<times> review_db" where
  "transact body db =
     (case body db of
        Inl e \<Rightarrow> (Inl e, db)
      | Inr (a, db') \<Rightarrow> if commit_ok db' then (Inr a, db') else (Inl RunFkViolation, db))"

lemma transact_Inr_iff: "transact body db = (Inr a, db') \<longleftrightarrow> body db = Inr (a, db') \<and> commit_ok db'"
  by (auto simp: transact_def split: sum.splits)

lemma transact_Inl: "transact body db = (Inl e, db') \<Longrightarrow> db' = db"
  by (auto simp: transact_def split: sum.splits if_splits)

lemma transact_db: "snd (transact body db) = db \<or> (\<exists>a. body db = Inr (a, snd (transact body db)))"
  by (auto simp: transact_def split: sum.splits)

section \<open>Joins\<close>

text \<open>The tenant of a review: \<^verbatim>\<open>pull_request_reviews JOIN repositories ON github_repo_id = repo_id\<close>.\<close>

definition review_repos :: "review_db \<Rightarrow> uuid \<Rightarrow> (review_row \<times> repo_row) list" where
  "review_repos db rid =
     [(rv, rp). rv \<leftarrow> filter (\<lambda>rv. review_id rv = rid) (reviews db),
                rp \<leftarrow> filter (\<lambda>rp. github_repo_id rp = repo_id rv) (repositories db)]"

definition run_joins :: "review_db \<Rightarrow> uuid \<Rightarrow> (review_run \<times> review_row \<times> repo_row) list" where
  "run_joins db rid =
     [(rr, rv, rp). rr \<leftarrow> filter (\<lambda>rr. run_id rr = rid) (review_runs db),
                    (rv, rp) \<leftarrow> review_repos db (rr_review_id rr)]"

section \<open>Workflow events\<close>

definition EVENT_TYPES :: "string list" where
  "EVENT_TYPES =
     [''WEBHOOK_RECEIVED'', ''PR_OPENED'', ''PR_SYNCHRONIZE'', ''INGESTED'', ''ANALYSIS_STARTED'', ''ANALYZED'',
      ''FINDINGS_PERSISTED'', ''COMMENT_POSTED'', ''RETRY_STARTED'', ''lifecycle_transition'', ''RUN_SUPERSEDED'',
      ''RUN_CANCELLED'', ''RUN_DRAIN_COMPLETED'', ''STALE_WRITE_BLOCKED'', ''WORKSPACE_ALLOCATED'',
      ''WORKSPACE_RELEASE_REQUESTED'', ''WORKSPACE_RELEASED'', ''WORKSPACE_ORPHANED'', ''WORKSPACE_CLEANUP_FAILED'',
      ''REVIEW_PLACEHOLDER_POSTED'', ''REVIEW_PLACEHOLDER_DELETED'']"

definition ORPHAN_REASONS :: "string list" where
  "ORPHAN_REASONS = [''orphan_retire'', ''bootstrap_sink'']"

text \<open>\<^verbatim>\<open>payload["orphan_reason"]\<close> is a recognised string.\<close>

definition orphan_tagged :: "(string \<times> rat json) list \<Rightarrow> bool" where
  "orphan_tagged payload \<longleftrightarrow>
     (case map_of payload ''orphan_reason'' of Some (JStr s) \<Rightarrow> s \<in> set ORPHAN_REASONS | _ \<Rightarrow> False)"

text \<open>\<^verbatim>\<open>SELECT COALESCE(MAX(sequence_no), 0) + 1 ... WHERE run_id = $\<close>\<close>

definition next_seq :: "uuid \<Rightarrow> workflow_event list \<Rightarrow> int" where
  "next_seq rid es =
     (let ss = map sequence_no (filter (\<lambda>e. ev_run_id e = rid) es)
      in (if ss = [] then 0 else Max (set ss)) + 1)"

definition insert_event :: "workflow_event \<Rightarrow> review_db \<Rightarrow> review_error + review_db" where
  "insert_event e db =
     (if ev_run_id e \<notin> set (run_ids db) \<or> ev_review_id e \<notin> review_id ` set (reviews db) then Inl RunFkViolation
      else if event_type e \<notin> set EVENT_TYPES \<or> sequence_no e < 1 then Inl RunCheckViolation
      else if \<exists>x\<in>set (workflow_events db). received_at x = received_at e \<and>
           (event_id x = event_id e
            \<or> ev_run_id x = ev_run_id e \<and> sequence_no x = sequence_no e
            \<or> ev_delivery_id e \<noteq> None \<and> ev_provider x = ev_provider e \<and> ev_delivery_id x = ev_delivery_id e)
      then Inl (DuplicateKey ''workflow_events'')
      else Inr (db\<lparr>workflow_events := workflow_events db @ [e]\<rparr>))"

text \<open>\<open>eid\<close> is the minted \<^verbatim>\<open>uuid4()\<close>, \<open>clk\<close> the clock's \<^verbatim>\<open>now()\<close>.\<close>

definition emitWorkflowEvent ::
  "js_date \<Rightarrow> uuid \<Rightarrow> string \<Rightarrow> uuid \<Rightarrow> uuid \<Rightarrow> string \<Rightarrow> (string \<times> rat json) list \<Rightarrow> string option \<Rightarrow> uuid option
     \<Rightarrow> review_db \<Rightarrow> review_error + review_db" where
  "emitWorkflowEvent clk eid prov runId reviewId eventType payload deliveryId installationId db =
     (if installationId = None \<and> \<not> orphan_tagged payload then Inl BF3InstallationIdMissing
      else if eventType \<notin> set EVENT_TYPES then Inl (BadArgument ''eventType'')
      else insert_event
        \<lparr>event_id = eid, ev_provider = prov, ev_delivery_id = deliveryId, ev_run_id = runId, ev_review_id = reviewId,
         sequence_no = next_seq runId (workflow_events db), event_type = eventType,
         ev_payload = sortKeysDeep (JObj payload), received_at = of_date clk, ev_installation_id = installationId\<rparr> db)"

section \<open>Audit events\<close>

text \<open>\<^verbatim>\<open>bindAuditContext\<close> followed by \<^verbatim>\<open>emitAuditEvent\<close>: the bound installation is the argument.\<close>

definition ACTOR_KINDS :: "string list" where
  "ACTOR_KINDS = [''user'', ''system'', ''bot'']"

definition emitAuditEvent ::
  "js_date \<Rightarrow> uuid option \<Rightarrow> string \<Rightarrow> string \<Rightarrow> string \<Rightarrow> string option \<Rightarrow> rat json option \<Rightarrow> rat json option
     \<Rightarrow> review_db \<Rightarrow> review_error + review_db" where
  "emitAuditEvent clk context actorKind action targetKind targetId before after db =
     (if actorKind \<notin> set ACTOR_KINDS then Inl (BadArgument ''actor_kind'')
      else case context of
             None \<Rightarrow> Inl AuditContextMissing
           | Some iid \<Rightarrow> Inr (db\<lparr>audit_events := audit_events db @
               [\<lparr>au_installation_id = iid, actor_kind = actorKind, au_action = action, target_kind = targetKind,
                 target_id = targetId, au_before = before, au_after = after, au_created_at = of_date clk\<rparr>]\<rparr>))"

section \<open>Lemmas\<close>

lemma update_runs_Inr:
  assumes "update_runs p f db = Inr db'"
  shows "db' = db\<lparr>review_runs := upd_where p f (review_runs db)\<rparr>"
    and "\<And>r. r \<in> set (review_runs db) \<Longrightarrow> p r \<Longrightarrow> run_checks (f r)"
  using assms by (auto simp: update_runs_def split: if_splits)

lemma insert_event_Inr:
  assumes "insert_event e db = Inr db'"
  shows "db' = db\<lparr>workflow_events := workflow_events db @ [e]\<rparr>"
  using assms by (auto simp: insert_event_def split: if_splits)

lemma emitWorkflowEvent_Inr:
  assumes "emitWorkflowEvent clk eid prov runId reviewId et payload dl iid db = Inr db'"
  shows "\<exists>e. db' = db\<lparr>workflow_events := workflow_events db @ [e]\<rparr> \<and> ev_run_id e = runId \<and> ev_review_id e = reviewId \<and>
    event_type e = et \<and> sequence_no e = next_seq runId (workflow_events db) \<and> ev_payload e = sortKeysDeep (JObj payload) \<and>
    ev_installation_id e = iid \<and> ev_delivery_id e = dl"
  using assms by (auto simp: emitWorkflowEvent_def dest!: insert_event_Inr split: if_splits)

lemma emitAuditEvent_Inr:
  assumes "emitAuditEvent clk ctx ak act tk tid b a db = Inr db'"
  shows "\<exists>e. db' = db\<lparr>audit_events := audit_events db @ [e]\<rparr> \<and> ctx = Some (au_installation_id e) \<and> au_action e = act
     \<and> target_id e = tid"
  using assms by (auto simp: emitAuditEvent_def split: if_splits option.splits)

subsection \<open>Gap-free event streams\<close>

text \<open>The events of a run are numbered 1, 2, 3, ... in the order they were written.\<close>

definition seq_gap_free :: "workflow_event list \<Rightarrow> bool" where
  "seq_gap_free es \<longleftrightarrow>
     (\<forall>rid. map sequence_no (filter (\<lambda>e. ev_run_id e = rid) es) = [1..int (length (filter (\<lambda>e. ev_run_id e = rid) es))])"

lemma next_seq_gap_free:
  assumes "seq_gap_free es"
  shows "next_seq rid es = int (length (filter (\<lambda>e. ev_run_id e = rid) es)) + 1"
proof -
  let ?n = "length (filter (\<lambda>e. ev_run_id e = rid) es)"
  have ss: "map sequence_no (filter (\<lambda>e. ev_run_id e = rid) es) = [1..int ?n]"
    using assms by (simp add: seq_gap_free_def)
  have "Max (set [1..int ?n]) = int ?n" if "?n \<noteq> 0"
    using that by (intro Max_eqI) (auto simp: Suc_le_eq)
  then show ?thesis unfolding next_seq_def ss Let_def by (cases "?n = 0") auto
qed

lemma seq_gap_free_append:
  assumes "seq_gap_free es" and "sequence_no e = next_seq (ev_run_id e) es"
  shows "seq_gap_free (es @ [e])"
  unfolding seq_gap_free_def
proof
  fix rid
  let ?F = "filter (\<lambda>e. ev_run_id e = rid)"
  have es: "map sequence_no (?F es) = [1..int (length (?F es))]"
    using assms(1) by (simp add: seq_gap_free_def)
  show "map sequence_no (?F (es @ [e])) = [1..int (length (?F (es @ [e])))]"
  proof (cases "ev_run_id e = rid")
    case True
    then have "sequence_no e = int (length (?F es)) + 1"
      using assms next_seq_gap_free by simp
    moreover have "[1..int (length (?F es)) + 1] = [1..int (length (?F es))] @ [int (length (?F es)) + 1]"
      by (rule upto_rec2 [THEN trans]) auto
    ultimately show ?thesis using True es by (simp add: add.commute)
  next
    case False
    then show ?thesis using es by simp
  qed
qed

section \<open>The invariant of the review tables\<close>

definition runs_ok :: "review_db \<Rightarrow> bool" where
  "runs_ok db \<longleftrightarrow> distinct (run_ids db) \<and> (\<forall>r\<in>set (review_runs db). run_checks r)"

definition refs_ok :: "review_db \<Rightarrow> bool" where
  "refs_ok db \<longleftrightarrow> distinct (map review_id (reviews db)) \<and>
     (\<forall>rv\<in>set (reviews db). run_ref_ok (run_ids db) (current_run_id rv)) \<and>
     (\<forall>r\<in>set (review_runs db). rr_review_id r \<in> review_id ` set (reviews db))"

definition review_wf :: "review_db \<Rightarrow> bool" where
  "review_wf db \<longleftrightarrow> runs_ok db \<and> refs_ok db \<and> seq_gap_free (workflow_events db) \<and> commit_ok db"

text \<open>What holds inside a transaction, where the deferred key may be open.\<close>

definition review_wf_tx :: "review_db \<Rightarrow> bool" where
  "review_wf_tx db \<longleftrightarrow> runs_ok db \<and> refs_ok db \<and> seq_gap_free (workflow_events db)"

lemma transact_wf:
  assumes "review_wf db" and "\<And>a db'. body db = Inr (a, db') \<Longrightarrow> review_wf_tx db'"
  shows "review_wf (snd (transact body db))"
  using assms by (auto simp: transact_def review_wf_def review_wf_tx_def split: sum.splits)

lemma review_wf_tx_events:
  assumes "review_wf_tx db" and "emitWorkflowEvent clk eid prov runId reviewId et payload dl iid db = Inr db'"
  shows "review_wf_tx db'"
  using assms(1) emitWorkflowEvent_Inr [OF assms(2)]
  by (auto simp: review_wf_tx_def runs_ok_def refs_ok_def intro: seq_gap_free_append)

lemma review_wf_tx_update_runs:
  assumes "review_wf_tx db" and "update_runs p f db = Inr db'"
    and "\<And>r. run_id (f r) = run_id r" and "\<And>r. rr_review_id (f r) = rr_review_id r"
  shows "review_wf_tx db'"
proof -
  have ids: "map run_id (upd_where p f (review_runs db)) = run_ids db"
    using assms(3) by (intro map_key_upd_where) auto
  have "\<forall>r\<in>set (upd_where p f (review_runs db)). run_checks r \<and> rr_review_id r \<in> review_id ` set (reviews db)"
    using assms(1,4) update_runs_Inr(2) [OF assms(2)]
    by (auto simp: set_upd_where review_wf_tx_def runs_ok_def refs_ok_def)
  then show ?thesis
    using assms(1) ids unfolding update_runs_Inr(1) [OF assms(2)]
    by (auto simp: review_wf_tx_def runs_ok_def refs_ok_def)
qed

end
