(* ===== verification/Run_Lifecycle.thy ===== *)
theory Run_Lifecycle
  imports Review_Db
begin

text \<open>
  The lifecycle of review runs: \<^verbatim>\<open>domain/transition_run.ts\<close>, \<^verbatim>\<open>activities/record_review_lifecycle.activity.ts\<close>,
  \<^verbatim>\<open>workflow/_supersede.ts\<close>, \<^verbatim>\<open>ingest/_reviews_repository.ts\<close>, \<^verbatim>\<open>ingest/_review_run_allocator.ts\<close>,
  \<^verbatim>\<open>domain/stale_write_guard.ts\<close> and \<^verbatim>\<open>activities/review_run_reaper.activity.ts\<close>. The check that a transaction
  is open has no counterpart: these definitions only have the state of an open transaction. Warnings are
  not modelled; the post-commit counters are.
\<close>

section \<open>The transition primitive\<close>

record transition_args =
  t_runId :: uuid
  t_fromState :: string
  t_toState :: string
  t_activity :: string
  t_attempt :: int
  t_workerId :: "string option"
  t_durationMs :: "int option"
  t_reason :: "string option"
  t_expectedInstallationId :: "uuid option"

datatype transition_outcome = APPLIED | ALREADY_APPLIED

datatype counter = RunsFailed string string | RunsCancelled string | RunsDraining | StaleWriteBlocked string

definition opt_str :: "string option \<Rightarrow> rat json" where
  "opt_str x = (case x of None \<Rightarrow> JNull | Some s \<Rightarrow> JStr s)"

text \<open>The state flip and the timestamp column of the target state, in one SET clause.\<close>

definition flip_set :: "string \<Rightarrow> db_time \<Rightarrow> review_run \<Rightarrow> review_run" where
  "flip_set toState ts r =
     (let r' = r\<lparr>lifecycle_state := toState\<rparr>
      in if toState = ''COMPLETED'' then r'\<lparr>completed_at := Some ts\<rparr>
         else if toState = ''FAILED'' then r'\<lparr>failed_at := Some ts\<rparr>
         else if toState = ''CANCELLED'' then r'\<lparr>cancelled_at := Some ts\<rparr>
         else r')"

definition transition_counters :: "string \<Rightarrow> review_run \<Rightarrow> counter list" where
  "transition_counters toState r =
     (if toState = ''FAILED'' then [RunsFailed (trigger_type r)
         (case run_cancel_reason r of None \<Rightarrow> ''none'' | Some c \<Rightarrow> c)]
      else if toState = ''CANCELLED'' then
        [RunsCancelled (case run_cancel_reason r of None \<Rightarrow> ''unknown'' | Some c \<Rightarrow> c), RunsDraining]
      else [])"

definition transition_payload :: "transition_args \<Rightarrow> (string \<times> rat json) list" where
  "transition_payload a =
     [(''from'', JStr (t_fromState a)), (''to'', JStr (t_toState a)), (''activity'', JStr (t_activity a)),
      (''attempt'', JNum (of_int (t_attempt a))), (''worker_id'', opt_str (t_workerId a)),
      (''duration_ms'', (case t_durationMs a of None \<Rightarrow> JNull | Some d \<Rightarrow> JNum (of_int d))),
      (''reason'', opt_str (t_reason a))]"

text \<open>The result carries the counters pushed on \<^verbatim>\<open>pending\<close>.\<close>

definition transitionRun ::
  "js_date \<Rightarrow> uuid \<Rightarrow> transition_args \<Rightarrow> review_db \<Rightarrow> review_error + (transition_outcome \<times> counter list) \<times> review_db" where
  "transitionRun clk eid a db =
     (if t_fromState a \<notin> set LIFECYCLE_STATES then Inl (BadArgument ''from_state'')
      else if t_toState a \<notin> set LIFECYCLE_STATES then Inl (BadArgument ''to_state'')
      else if t_activity a = [] then Inl (BadArgument ''activity'')
      else if t_attempt a < 1 then Inl (BadArgument ''attempt'')
      else case first_row (run_joins db (t_runId a)) of
        None \<Rightarrow> Inl (StateDrift (t_runId a) (t_fromState a) None)
      | Some (rr, rv, rp) \<Rightarrow>
          (case repo_installation_id rp of
             None \<Rightarrow> Inl (RepositoriesResolveFailed (rr_review_id rr))
           | Some actual \<Rightarrow>
               if t_expectedInstallationId a \<noteq> None \<and> t_expectedInstallationId a \<noteq> Some actual
               then Inl (CrossInstallationViolation (t_runId a) (Some actual))
               else if lifecycle_state rr = t_toState a then Inr ((ALREADY_APPLIED, []), db)
               else if lifecycle_state rr \<noteq> t_fromState a
               then Inl (StateDrift (t_runId a) (t_fromState a) (Some (lifecycle_state rr)))
               else (case update_runs (\<lambda>r. run_id r = t_runId a) (flip_set (t_toState a) (of_date clk)) db of
                  Inl e \<Rightarrow> Inl e
                | Inr db1 \<Rightarrow>
                    (case emitWorkflowEvent clk eid (provider rv) (t_runId a) (rr_review_id rr) ''lifecycle_transition''
                            (transition_payload a) None (Some actual) db1 of
                       Inl e \<Rightarrow> Inl e
                     | Inr db2 \<Rightarrow> Inr ((APPLIED, transition_counters (t_toState a) rr), db2)))))"

section \<open>The lifecycle activities\<close>

text \<open>\<^verbatim>\<open>driveTransition\<close>: the counters fire only after the commit. The result is the error, if any, the
  counters that fired, and the tables.\<close>

definition driveTransition :: "js_date \<Rightarrow> uuid \<Rightarrow> transition_args \<Rightarrow> review_db \<Rightarrow> (review_error option \<times> counter list) \<times> review_db" where
  "driveTransition clk eid a db =
     (case transact (transitionRun clk eid a) db of
        (Inl e, db') \<Rightarrow> ((Some e, []), db')
      | (Inr (_, pending), db') \<Rightarrow> ((None, pending), db'))"

definition finalizeReviewRun ::
  "js_date \<Rightarrow> uuid \<Rightarrow> uuid \<Rightarrow> int \<Rightarrow> int option \<Rightarrow> string option \<Rightarrow> review_db \<Rightarrow> (review_error option \<times> counter list) \<times> review_db" where
  "finalizeReviewRun clk eid runId attempt durationMs workerId =
     driveTransition clk eid \<lparr>t_runId = runId, t_fromState = ''RUNNING'', t_toState = ''COMPLETED'',
       t_activity = ''review_workflow.run'', t_attempt = attempt, t_workerId = workerId, t_durationMs = durationMs,
       t_reason = None, t_expectedInstallationId = None\<rparr>"

definition recordRunFailed ::
  "js_date \<Rightarrow> uuid \<Rightarrow> uuid \<Rightarrow> string \<Rightarrow> int \<Rightarrow> review_db \<Rightarrow> (review_error option \<times> counter list) \<times> review_db" where
  "recordRunFailed clk eid runId reason attempt =
     driveTransition clk eid \<lparr>t_runId = runId, t_fromState = ''RUNNING'', t_toState = ''FAILED'',
       t_activity = ''review_workflow.run_failed'', t_attempt = attempt, t_workerId = None, t_durationMs = None,
       t_reason = Some reason, t_expectedInstallationId = None\<rparr>"

definition recordRunCancelled ::
  "js_date \<Rightarrow> uuid \<Rightarrow> uuid \<Rightarrow> string \<Rightarrow> int \<Rightarrow> review_db \<Rightarrow> (review_error option \<times> counter list) \<times> review_db" where
  "recordRunCancelled clk eid runId reason attempt =
     driveTransition clk eid \<lparr>t_runId = runId, t_fromState = ''RUNNING'', t_toState = ''CANCELLED'',
       t_activity = ''review_workflow.run_cancelled'', t_attempt = attempt, t_workerId = None, t_durationMs = None,
       t_reason = Some reason, t_expectedInstallationId = None\<rparr>"

definition ALLOWED_GRANULAR_EVENTS :: "string list" where
  "ALLOWED_GRANULAR_EVENTS = [''ANALYSIS_STARTED'', ''ANALYZED'']"

definition recordReviewLifecycleEvent ::
  "js_date \<Rightarrow> uuid \<Rightarrow> string \<Rightarrow> uuid \<Rightarrow> uuid \<Rightarrow> string \<Rightarrow> (string \<times> rat json) list \<Rightarrow> uuid
     \<Rightarrow> review_db \<Rightarrow> (review_error + unit) \<times> review_db" where
  "recordReviewLifecycleEvent clk eid prov runId reviewId eventType payload installationId db =
     (if eventType \<notin> set ALLOWED_GRANULAR_EVENTS then (Inl (BadArgument ''event_type''), db)
      else if eventType \<notin> set EVENT_TYPES then (Inl (BadArgument ''event_type''), db)
      else transact (\<lambda>db.
        if \<exists>e\<in>set (workflow_events db). ev_run_id e = runId \<and> event_type e = eventType then Inr ((), db)
        else (case emitWorkflowEvent clk eid prov runId reviewId eventType payload None (Some installationId) db of
                Inl e \<Rightarrow> Inl e | Inr db' \<Rightarrow> Inr ((), db'))) db)"

section \<open>Superseding and allocating\<close>

text \<open>The BF-9 lookup shared by \<^verbatim>\<open>supersedeRun\<close> and \<^verbatim>\<open>flipCurrentRun\<close>:
  \<^verbatim>\<open>rows[0]?.installation_id ?? null\<close>.\<close>

definition review_installation :: "review_db \<Rightarrow> uuid \<Rightarrow> uuid option" where
  "review_installation db rid =
     (case first_row (review_repos db rid) of None \<Rightarrow> None | Some (rv, rp) \<Rightarrow> repo_installation_id rp)"

definition supersede_set :: "db_time \<Rightarrow> string \<Rightarrow> uuid \<Rightarrow> review_run \<Rightarrow> review_run" where
  "supersede_set ts reason newRun r =
     r\<lparr>lifecycle_state := ''CANCELLED'', cancelled_at := Some ts, run_cancel_reason := Some reason,
       superseded_by_run_id := Some newRun\<rparr>"

text \<open>The result is the old run, if any; \<^verbatim>\<open>wasSupersede\<close> is that it is there.\<close>

definition supersedeRun ::
  "js_date \<Rightarrow> uuid \<Rightarrow> uuid \<Rightarrow> uuid \<Rightarrow> string \<Rightarrow> string \<Rightarrow> uuid option \<Rightarrow> review_db
     \<Rightarrow> review_error + uuid option \<times> review_db" where
  "supersedeRun clk eid reviewId newRunId prov cancelReason expectedInst db =
     (if cancelReason \<notin> set CANCEL_REASONS then Inl (BadArgument ''cancel_reason'')
      else case review_installation db reviewId of
        None \<Rightarrow> Inl (RepositoriesResolveFailed reviewId)
      | Some actual \<Rightarrow>
          if expectedInst \<noteq> None \<and> expectedInst \<noteq> Some actual
          then Inl (CrossInstallationViolation reviewId (Some actual))
          else (let p = (\<lambda>r. rr_review_id r = reviewId \<and> run_active r); f = supersede_set (of_date clk) cancelReason newRunId
                in case update_runs p f db of
                     Inl e \<Rightarrow> Inl e
                   | Inr db1 \<Rightarrow>
                       (case first_row (returning p f (review_runs db)) of
                          None \<Rightarrow> Inr (None, db1)
                        | Some old \<Rightarrow>
                            (case emitWorkflowEvent clk eid prov (run_id old) reviewId ''RUN_SUPERSEDED''
                                    [(''new_run_id'', JStr newRunId), (''reason'', JStr cancelReason)] None (Some actual) db1 of
                               Inl e \<Rightarrow> Inl e
                             | Inr db2 \<Rightarrow> Inr (Some (run_id old), db2)))))"

definition insert_run :: "review_run \<Rightarrow> review_db \<Rightarrow> review_error + review_db" where
  "insert_run r db =
     (if run_id r \<in> set (run_ids db) then Inl (DuplicateKey ''review_runs'')
      else if \<not> run_checks r then Inl RunCheckViolation
      else if rr_review_id r \<notin> review_id ` set (reviews db)
        \<or> \<not> run_ref_ok (run_id r # run_ids db) (parent_run_id r)
        \<or> \<not> run_ref_ok (run_id r # run_ids db) (supersedes_run_id r)
      then Inl RunFkViolation
      else Inr (db\<lparr>review_runs := review_runs db @ [r]\<rparr>))"

definition flipCurrentRun ::
  "uuid \<Rightarrow> uuid \<Rightarrow> uuid option \<Rightarrow> uuid option \<Rightarrow> review_db \<Rightarrow> review_error + uuid option \<times> review_db" where
  "flipCurrentRun reviewId newRunId oldExpected expectedInst db =
     (if expectedInst \<noteq> None \<and> review_installation db reviewId \<noteq> expectedInst
      then Inl (CrossInstallationViolation reviewId (review_installation db reviewId))
      else case first_row (filter (\<lambda>rv. review_id rv = reviewId) (reviews db)) of
        None \<Rightarrow> Inl (ReviewNotFound reviewId)
      | Some prev \<Rightarrow>
          if newRunId \<notin> set (run_ids db) then Inl RunFkViolation
          else if oldExpected \<noteq> None \<and> current_run_id prev \<noteq> oldExpected
          then Inl (CurrentRunMismatch reviewId oldExpected (current_run_id prev))
          else Inr (current_run_id prev,
            db\<lparr>reviews := upd_where (\<lambda>rv. review_id rv = reviewId) (\<lambda>rv. rv\<lparr>current_run_id := Some newRunId\<rparr>) (reviews db)\<rparr>))"

record upsert_args =
  u_provider :: string
  u_repoId :: int
  u_prNumber :: int
  u_providerPrId :: string
  u_prNodeId :: "string option"
  u_branch :: "string option"

definition same_pr :: "upsert_args \<Rightarrow> review_row \<Rightarrow> bool" where
  "same_pr a rv \<longleftrightarrow> provider rv = u_provider a \<and> repo_id rv = u_repoId a \<and> rv_pr_number rv = u_prNumber a"

text \<open>\<^verbatim>\<open>INSERT ... ON CONFLICT (provider, repo_id, pr_number) DO UPDATE\<close>; the other unique index is on
  \<^verbatim>\<open>(provider, provider_pr_id)\<close>.\<close>

definition upsertReview :: "uuid \<Rightarrow> upsert_args \<Rightarrow> review_db \<Rightarrow> review_error + uuid \<times> review_db" where
  "upsertReview newId a db =
     (let clash = (\<lambda>rv. provider rv = u_provider a \<and> provider_pr_id rv = u_providerPrId a \<and> \<not> same_pr a rv)
      in if list_ex clash (reviews db) then Inl (DuplicateKey ''pull_request_reviews'')
         else case first_row (filter (same_pr a) (reviews db)) of
           Some rv \<Rightarrow> Inr (review_id rv, db\<lparr>reviews := upd_where (same_pr a) (\<lambda>rv. rv\<lparr>provider_pr_id := u_providerPrId a,
               pr_node_id := u_prNodeId a, branch := u_branch a\<rparr>) (reviews db)\<rparr>)
         | None \<Rightarrow>
             if newId \<in> review_id ` set (reviews db) then Inl (DuplicateKey ''pull_request_reviews'')
             else Inr (newId, db\<lparr>reviews := reviews db @ [\<lparr>review_id = newId, provider = u_provider a, repo_id = u_repoId a,
               rv_pr_number = u_prNumber a, provider_pr_id = u_providerPrId a, pr_node_id = u_prNodeId a,
               branch = u_branch a, current_run_id = None\<rparr>]\<rparr>))"

record allocate_args =
  al_reviewId :: uuid
  al_installationId :: uuid
  al_triggerType :: string
  al_triggeredBy :: "string option"
  al_provider :: string
  al_deliveryId :: "string option"
  al_parentRunId :: "uuid option"
  al_attemptNumber :: int

text \<open>\<open>now\<close> is the database's clock, \<open>newRunId\<close> the minted \<^verbatim>\<open>uuid7()\<close>, \<open>e1\<close> and \<open>e2\<close> the event ids. The result
  is the superseded run, if any.\<close>

definition allocateRun ::
  "db_time \<Rightarrow> js_date \<Rightarrow> uuid \<Rightarrow> uuid \<Rightarrow> uuid \<Rightarrow> allocate_args \<Rightarrow> review_db \<Rightarrow> review_error + uuid option \<times> review_db" where
  "allocateRun now clk newRunId e1 e2 a db =
     (if al_triggerType a \<notin> set TRIGGER_TYPES then Inl (BadArgument ''trigger_type'')
      else if 1 < al_attemptNumber a \<and> al_parentRunId a = None then Inl (BadArgument ''parent_run_id'')
      else case (if al_parentRunId a = None
                 then supersedeRun clk e1 (al_reviewId a) newRunId (al_provider a) ''superseded'' (Some (al_installationId a)) db
                 else Inr (None, db)) of
        Inl e \<Rightarrow> Inl e
      | Inr (old, db1) \<Rightarrow>
          (case insert_run \<lparr>run_id = newRunId, rr_review_id = al_reviewId a, trigger_type = al_triggerType a,
                 triggered_by = al_triggeredBy a, attempt_number = al_attemptNumber a, lifecycle_state = ''PENDING'',
                 parent_run_id = al_parentRunId a, supersedes_run_id = old, superseded_by_run_id = None,
                 run_cancel_reason = None, rr_started_at = now, completed_at = None, failed_at = None,
                 cancelled_at = None\<rparr> db1 of
             Inl e \<Rightarrow> Inl e
           | Inr db2 \<Rightarrow>
               (case flipCurrentRun (al_reviewId a) newRunId old (Some (al_installationId a)) db2 of
                  Inl e \<Rightarrow> Inl e
                | Inr (_, db3) \<Rightarrow>
                    (case al_deliveryId a of
                       None \<Rightarrow> Inr (old, db3)
                     | Some d \<Rightarrow>
                         (case emitWorkflowEvent clk e2 (al_provider a) newRunId (al_reviewId a) ''WEBHOOK_RECEIVED''
                                 [(''trigger_type'', JStr (al_triggerType a)),
                                  (''attempt_number'', JNum (of_int (al_attemptNumber a)))]
                                 (Some d) (Some (al_installationId a)) db3 of
                            Inl e \<Rightarrow> Inl e
                          | Inr db4 \<Rightarrow> Inr (old, db4))))))"

section \<open>The stale-write guard\<close>

text \<open>The guard writes its forensic row and then throws, so the state after a throw matters: it is what
  the caller's transaction holds if the caller swallows the error.\<close>

definition assertCurrentRun ::
  "js_date \<Rightarrow> uuid \<Rightarrow> uuid \<Rightarrow> uuid \<Rightarrow> string \<Rightarrow> review_db \<Rightarrow> (review_error + unit) \<times> counter list \<times> review_db" where
  "assertCurrentRun clk eid runId reviewId site db =
     (case first_row (filter (\<lambda>rv. review_id rv = reviewId) (reviews db)) of
        None \<Rightarrow> (Inl (StaleWriteError runId reviewId None site), [], db)
      | Some rv \<Rightarrow>
          if current_run_id rv = Some runId then (Inr (), [], db)
          else (case insert_event \<lparr>event_id = eid, ev_provider = provider rv, ev_delivery_id = None, ev_run_id = runId,
                  ev_review_id = reviewId, sequence_no = next_seq runId (workflow_events db),
                  event_type = ''STALE_WRITE_BLOCKED'',
                  ev_payload = sortKeysDeep (JObj [(''current'', opt_str (current_run_id rv)), (''incoming'', JStr runId),
                    (''site'', JStr site)]),
                  received_at = of_date clk, ev_installation_id = None\<rparr> db of
             Inl e \<Rightarrow> (Inl e, [], db)
           | Inr db' \<Rightarrow> (Inl (StaleWriteError runId reviewId (current_run_id rv) site), [StaleWriteBlocked site], db')))"

section \<open>The stale-run reaper\<close>

definition MIN_STALE_AFTER_SECONDS :: int where "MIN_STALE_AFTER_SECONDS = 300"
definition DEFAULT_STALE_AFTER_SECONDS :: int where "DEFAULT_STALE_AFTER_SECONDS = 3600"
definition DEFAULT_SWEEP_LIMIT :: nat where "DEFAULT_SWEEP_LIMIT = 500"

text \<open>\<open>injected\<close> is the dependency's value, \<open>fromEnv\<close> what \<^verbatim>\<open>Number.parseInt\<close> makes of the environment variable.\<close>

definition resolveStaleAfterSeconds :: "rat option \<Rightarrow> int option \<Rightarrow> int" where
  "resolveStaleAfterSeconds injected fromEnv =
     (let raw = (case injected of Some s \<Rightarrow> s
                 | None \<Rightarrow> (case fromEnv of Some n \<Rightarrow> of_int n | None \<Rightarrow> of_int DEFAULT_STALE_AFTER_SECONDS))
      in max (if 0 \<le> raw then \<lfloor>raw\<rfloor> else \<lceil>raw\<rceil>) MIN_STALE_AFTER_SECONDS)"

definition stale_run :: "db_time \<Rightarrow> int \<Rightarrow> review_db \<Rightarrow> review_run \<Rightarrow> bool" where
  "stale_run now secs db r \<longleftrightarrow>
     lifecycle_state r = ''RUNNING'' \<and> rr_started_at r < now - secs * 1000000 \<and>
     \<not> (\<exists>j\<in>set (review_jobs db). job_run_id j = run_id r \<and> active j)"

definition reaped_audit :: "js_date \<Rightarrow> uuid option \<Rightarrow> uuid \<Rightarrow> review_db \<Rightarrow> review_error + review_db" where
  "reaped_audit clk iid rid db =
     (case iid of
        None \<Rightarrow> Inr db
      | Some i \<Rightarrow> emitAuditEvent clk (Some i) ''system'' ''review_run.reaped'' ''review_run'' (Some rid)
          (Some (JObj [(''lifecycle_state'', JStr ''RUNNING'')]))
          (Some (JObj [(''lifecycle_state'', JStr ''CANCELLED''), (''cancel_reason'', JStr ''timeout'')])) db)"

fun audit_reaped :: "js_date \<Rightarrow> (uuid option \<times> uuid) list \<Rightarrow> review_db \<Rightarrow> review_error + review_db" where
  "audit_reaped clk [] db = Inr db"
| "audit_reaped clk ((iid, rid) # rows) db =
     (case reaped_audit clk iid rid db of Inl e \<Rightarrow> Inl e | Inr db' \<Rightarrow> audit_reaped clk rows db')"

definition reap_set :: "db_time \<Rightarrow> review_run \<Rightarrow> review_run" where
  "reap_set now r = r\<lparr>lifecycle_state := ''CANCELLED'', cancelled_at := Some now, run_cancel_reason := Some ''timeout''\<rparr>"

text \<open>The tenants of a review for the audit fan-out: \<^verbatim>\<open>JOIN pull_request_reviews LEFT JOIN repositories\<close>.\<close>

definition review_tenants :: "review_db \<Rightarrow> uuid \<Rightarrow> uuid option list" where
  "review_tenants db rid =
     concat (map (\<lambda>rv. case filter (\<lambda>rp. github_repo_id rp = repo_id rv) (repositories db) of
                 [] \<Rightarrow> [None] | rps \<Rightarrow> map repo_installation_id rps)
               (filter (\<lambda>rv. review_id rv = rid) (reviews db)))"

definition release_mutexes :: "db_time \<Rightarrow> (pr_mutex \<Rightarrow> bool) \<Rightarrow> review_db \<Rightarrow> review_db" where
  "release_mutexes ts p db =
     db\<lparr>pr_review_mutex := upd_where (\<lambda>m. p m \<and> released_at m = None) (\<lambda>m. m\<lparr>released_at := Some ts\<rparr>) (pr_review_mutex db)\<rparr>"

definition reap_batch :: "(uuid \<Rightarrow> bool) \<Rightarrow> db_time \<Rightarrow> int \<Rightarrow> nat \<Rightarrow> review_db \<Rightarrow> uuid list" where
  "reap_batch locked now secs limit db =
     map run_id (take limit (filter (\<lambda>r. \<not> locked (run_id r))
       (order_by rr_started_at (filter (stale_run now secs db) (review_runs db)))))"

definition reap_rows :: "uuid list \<Rightarrow> review_db \<Rightarrow> (uuid option \<times> uuid) list" where
  "reap_rows batch db =
     concat (map (\<lambda>r. map (\<lambda>iid. (iid, run_id r)) (review_tenants db (rr_review_id r)))
       (filter (\<lambda>r. run_id r \<in> set batch) (review_runs db)))"

definition reap_stale_runs ::
  "(uuid \<Rightarrow> bool) \<Rightarrow> db_time \<Rightarrow> js_date \<Rightarrow> int \<Rightarrow> nat \<Rightarrow> review_db \<Rightarrow> review_error + nat \<times> review_db" where
  "reap_stale_runs locked now clk secs limit db =
     (let batch = reap_batch locked now secs limit db
      in case update_runs (\<lambda>r. run_id r \<in> set batch) (reap_set now) db of
           Inl e \<Rightarrow> Inl e
         | Inr db1 \<Rightarrow>
             (let rows = reap_rows batch db
              in case audit_reaped clk rows db1 of
                   Inl e \<Rightarrow> Inl e
                 | Inr db2 \<Rightarrow> Inr (length rows,
                     release_mutexes now (\<lambda>m. \<exists>j\<in>set (review_jobs db2). job_run_id j \<in> snd ` set rows
                        \<and> job_mutex_id j = Some (mutex_id m)) db2)))"

definition reviewRunReaper ::
  "(uuid \<Rightarrow> bool) \<Rightarrow> db_time \<Rightarrow> js_date \<Rightarrow> int \<Rightarrow> nat \<Rightarrow> review_db \<Rightarrow> (review_error + nat) \<times> review_db" where
  "reviewRunReaper locked now clk secs limit = transact (reap_stale_runs locked now clk secs limit)"

section \<open>What a successful call did\<close>

lemma flip_set_simps [simp]:
  "run_id (flip_set to ts r) = run_id r" "rr_review_id (flip_set to ts r) = rr_review_id r"
  "lifecycle_state (flip_set to ts r) = to"
  by (simp_all add: flip_set_def Let_def)

lemma supersede_set_simps [simp]:
  "run_id (supersede_set ts c n r) = run_id r" "rr_review_id (supersede_set ts c n r) = rr_review_id r"
  "lifecycle_state (supersede_set ts c n r) = ''CANCELLED''" "superseded_by_run_id (supersede_set ts c n r) = Some n"
  by (simp_all add: supersede_set_def)

lemma reap_set_simps [simp]:
  "run_id (reap_set ts r) = run_id r" "rr_review_id (reap_set ts r) = rr_review_id r"
  "lifecycle_state (reap_set ts r) = ''CANCELLED''"
  by (simp_all add: reap_set_def)

lemma run_joins_mem:
  assumes "first_row (run_joins db rid) = Some (rr, rv, rp)"
  shows "rr \<in> set (review_runs db)" and "run_id rr = rid" and "rv \<in> set (reviews db)" and "review_id rv = rr_review_id rr"
    and "rp \<in> set (repositories db)"
  using first_row_Some [OF assms] by (auto simp: run_joins_def review_repos_def)

lemma transitionRun_Inr:
  assumes "transitionRun clk eid a db = Inr ((oc, cs), db')"
  obtains (already) rr rv rp where "first_row (run_joins db (t_runId a)) = Some (rr, rv, rp)" "lifecycle_state rr = t_toState a"
      "oc = ALREADY_APPLIED" "cs = []" "db' = db"
  | (applied) rr rv rp e where "first_row (run_joins db (t_runId a)) = Some (rr, rv, rp)" "lifecycle_state rr = t_fromState a"
      "t_fromState a \<noteq> t_toState a"
      "oc = APPLIED" "cs = transition_counters (t_toState a) rr"
      "\<And>r. r \<in> set (review_runs db) \<Longrightarrow> run_id r = t_runId a \<Longrightarrow> run_checks (flip_set (t_toState a) (of_date clk) r)"
      "db' = db\<lparr>review_runs := upd_where (\<lambda>r. run_id r = t_runId a) (flip_set (t_toState a) (of_date clk)) (review_runs db),
              workflow_events := workflow_events db @ [e]\<rparr>"
      "ev_run_id e = t_runId a" "event_type e = ''lifecycle_transition''"
      "sequence_no e = next_seq (t_runId a) (workflow_events db)" "ev_payload e = sortKeysDeep (JObj (transition_payload a))"
proof -
  obtain rr rv rp iid where row: "first_row (run_joins db (t_runId a)) = Some (rr, rv, rp)" "repo_installation_id rp = Some iid"
    using assms by (auto simp: transitionRun_def split: if_splits option.splits)
  show thesis
  proof (cases "lifecycle_state rr = t_toState a")
    case True
    then show thesis using assms row by (intro already [OF row(1)]) (auto simp: transitionRun_def split: if_splits)
  next
    case False
    from assms row False obtain db1 where frm: "lifecycle_state rr = t_fromState a"
      and up: "update_runs (\<lambda>r. run_id r = t_runId a) (flip_set (t_toState a) (of_date clk)) db = Inr db1"
      and em: "emitWorkflowEvent clk eid (provider rv) (t_runId a) (rr_review_id rr) ''lifecycle_transition''
                            (transition_payload a) None (Some iid) db1 = Inr db'"
      and oc: "oc = APPLIED" "cs = transition_counters (t_toState a) rr"
      unfolding transitionRun_def by (auto split: if_splits sum.splits)
    note [simp del] = sortKeysDeep.simps
    from emitWorkflowEvent_Inr [OF em] obtain e where e: "db' = db1\<lparr>workflow_events := workflow_events db1 @ [e]\<rparr>"
      "ev_run_id e = t_runId a" "event_type e = ''lifecycle_transition''" "sequence_no e = next_seq (t_runId a) (workflow_events db1)"
      "ev_payload e = sortKeysDeep (JObj (transition_payload a))" by blast
    show thesis
      by (rule applied [OF row(1) frm _ oc update_runs_Inr(2) [OF up] _ e(2,3) _ e(5)])
         (use False frm e update_runs_Inr(1) [OF up] in auto)
  qed
qed

lemma transitionRun_tenant:
  assumes "transitionRun clk eid a db = Inr res" and "first_row (run_joins db (t_runId a)) = Some (rr, rv, rp)"
  shows "\<exists>iid. repo_installation_id rp = Some iid \<and> (t_expectedInstallationId a = None \<or> t_expectedInstallationId a = Some iid)"
  using assms by (auto simp: transitionRun_def split: if_splits option.splits)

text \<open>A transition that went through is not applied a second time, also when events were written in between.\<close>

lemma transitionRun_again:
  assumes tr: "transitionRun clk eid a db = Inr ((oc, cs), db')"
    and "review_runs db2 = review_runs db'" and "reviews db2 = reviews db'" and "repositories db2 = repositories db'"
  shows "transitionRun clk' eid' a db2 = Inr ((ALREADY_APPLIED, []), db2)"
proof -
  have joins: "run_joins db2 = run_joins db'" using assms(2-4) by (simp add: fun_eq_iff run_joins_def review_repos_def)
  have args: "t_fromState a \<in> set LIFECYCLE_STATES" "t_toState a \<in> set LIFECYCLE_STATES" "t_activity a \<noteq> []" "\<not> t_attempt a < 1"
    using tr by (auto simp: transitionRun_def split: if_splits)
  obtain rr rv rp iid where row: "first_row (run_joins db' (t_runId a)) = Some (rr, rv, rp)" "lifecycle_state rr = t_toState a"
    "repo_installation_id rp = Some iid" "t_expectedInstallationId a = None \<or> t_expectedInstallationId a = Some iid"
    using tr
  proof (cases rule: transitionRun_Inr)
    case (already rr rv rp)
    then show thesis using transitionRun_tenant [OF tr already(1)] that by auto
  next
    case (applied rr rv rp e)
    let ?f = "flip_set (t_toState a) (of_date clk)"
    have "run_joins db' (t_runId a) = map (\<lambda>(rr, x). (?f rr, x)) (run_joins db (t_runId a))"
      unfolding applied(7) run_joins_def review_repos_def
      by (simp add: filter_upd_where map_concat comp_def split_def)
    then have "first_row (run_joins db' (t_runId a)) = Some (?f rr, rv, rp)"
      using applied(1) by (cases "run_joins db (t_runId a)") auto
    then show thesis using transitionRun_tenant [OF tr applied(1)] that by auto
  qed
  show ?thesis using args row by (auto simp: transitionRun_def joins)
qed

lemma transitionRun_wf:
  assumes "review_wf_tx db" and "transitionRun clk eid a db = Inr (res, db')"
  shows "review_wf_tx db'"
proof -
  obtain oc cs where res: "res = (oc, cs)" by (cases res)
  show ?thesis using assms(2) [unfolded res]
  proof (cases rule: transitionRun_Inr)
    case already
    then show ?thesis using assms(1) by simp
  next
    case (applied rr rv rp e)
    let ?db1 = "db\<lparr>review_runs := upd_where (\<lambda>r. run_id r = t_runId a) (flip_set (t_toState a) (of_date clk)) (review_runs db)\<rparr>"
    have up: "update_runs (\<lambda>r. run_id r = t_runId a) (flip_set (t_toState a) (of_date clk)) db = Inr ?db1"
      using applied(6) by (simp add: update_runs_def)
    have "review_wf_tx ?db1" by (rule review_wf_tx_update_runs [OF assms(1) up]) simp_all
    then show ?thesis using applied by (auto simp: review_wf_tx_def runs_ok_def refs_ok_def intro: seq_gap_free_append)
  qed
qed

lemma supersedeRun_Inr:
  assumes "supersedeRun clk eid reviewId newRunId prov cr ei db = Inr (old, db')"
  obtains es where
    "db' = db\<lparr>review_runs := upd_where (\<lambda>r. rr_review_id r = reviewId \<and> run_active r)
         (supersede_set (of_date clk) cr newRunId) (review_runs db), workflow_events := workflow_events db @ es\<rparr>"
    "update_runs (\<lambda>r. rr_review_id r = reviewId \<and> run_active r) (supersede_set (of_date clk) cr newRunId) db
       = Inr (db\<lparr>review_runs := review_runs db'\<rparr>)"
    "es = [] \<or> (\<exists>e. es = [e] \<and> sequence_no e = next_seq (ev_run_id e) (workflow_events db))"
    "old = None \<longleftrightarrow> (\<forall>r\<in>set (review_runs db). rr_review_id r = reviewId \<longrightarrow> \<not> run_active r)"
proof -
  let ?p = "\<lambda>r. rr_review_id r = reviewId \<and> run_active r" and ?f = "supersede_set (of_date clk) cr newRunId"
  note [simp del] = sortKeysDeep.simps
  from assms obtain db1 iid where up: "update_runs ?p ?f db = Inr db1"
    and rest: "(case first_row (returning ?p ?f (review_runs db)) of
                          None \<Rightarrow> Inr (None, db1)
                        | Some o' \<Rightarrow>
                            (case emitWorkflowEvent clk eid prov (run_id o') reviewId ''RUN_SUPERSEDED''
                                    [(''new_run_id'', JStr newRunId), (''reason'', JStr cr)] None (Some iid) db1 of
                               Inl e \<Rightarrow> Inl e
                             | Inr db2 \<Rightarrow> Inr (Some (run_id o'), db2))) = Inr (old, db')"
    by (auto simp: supersedeRun_def Let_def split: if_splits option.splits sum.splits)
  note db1 = update_runs_Inr(1) [OF up]
  show thesis
  proof (cases "first_row (returning ?p ?f (review_runs db))")
    case None
    then show thesis using rest db1 up
      by (intro that [of "[]"]) (auto simp: returning_def filter_empty_conv)
  next
    case (Some o')
    then obtain db2 where em: "emitWorkflowEvent clk eid prov (run_id o') reviewId ''RUN_SUPERSEDED''
        [(''new_run_id'', JStr newRunId), (''reason'', JStr cr)] None (Some iid) db1 = Inr db2" "old = Some (run_id o')" "db' = db2"
      using rest by (auto split: sum.splits)
    from emitWorkflowEvent_Inr [OF em(1)] obtain e where e: "db2 = db1\<lparr>workflow_events := workflow_events db1 @ [e]\<rparr>"
      "ev_run_id e = run_id o'" "sequence_no e = next_seq (run_id o') (workflow_events db1)" by blast
    have ex: "\<exists>r\<in>set (review_runs db). ?p r" using first_row_Some [OF Some] by (auto simp: returning_def)
    show thesis
      by (rule that [of "[e]"]) (use em e db1 up ex in auto)
  qed
qed

lemma supersedeRun_wf:
  assumes "review_wf_tx db" and "supersedeRun clk eid reviewId newRunId prov cr ei db = Inr (old, db')"
  shows "review_wf_tx db'"
  using assms(2)
proof (cases rule: supersedeRun_Inr)
  case (1 es)
  have "review_wf_tx (db\<lparr>review_runs := review_runs db'\<rparr>)"
    using assms(1) 1(2) by (rule review_wf_tx_update_runs) auto
  then show ?thesis using 1(1,3) by (auto simp: review_wf_tx_def runs_ok_def refs_ok_def intro: seq_gap_free_append)
qed

lemma insert_run_Inr:
  assumes "insert_run r db = Inr db'"
  shows "db' = db\<lparr>review_runs := review_runs db @ [r]\<rparr>" and "run_id r \<notin> set (run_ids db)" and "run_checks r"
    and "rr_review_id r \<in> review_id ` set (reviews db)"
  using assms by (auto simp: insert_run_def split: if_splits)

lemma insert_run_wf:
  assumes "review_wf_tx db" and "insert_run r db = Inr db'"
  shows "review_wf_tx db'"
  using assms(1) insert_run_Inr [OF assms(2)]
  by (auto simp: review_wf_tx_def runs_ok_def refs_ok_def run_ref_ok_def split: option.splits)

lemma flipCurrentRun_Inr:
  assumes "flipCurrentRun reviewId newRunId oe ei db = Inr (prev, db')"
  shows "db' = db\<lparr>reviews := upd_where (\<lambda>rv. review_id rv = reviewId) (\<lambda>rv. rv\<lparr>current_run_id := Some newRunId\<rparr>) (reviews db)\<rparr>"
    and "newRunId \<in> set (run_ids db)" and "reviewId \<in> review_id ` set (reviews db)"
    and "oe \<noteq> None \<Longrightarrow> prev = oe" and "ei \<noteq> None \<Longrightarrow> review_installation db reviewId = ei"
  using assms by (auto simp: flipCurrentRun_def dest!: first_row_Some split: if_splits option.splits)

lemma flipCurrentRun_wf:
  assumes "review_wf_tx db" and "flipCurrentRun reviewId newRunId oe ei db = Inr (prev, db')"
  shows "review_wf_tx db'"
proof -
  note f = flipCurrentRun_Inr [OF assms(2)]
  have "map review_id (reviews db') = map review_id (reviews db)"
    unfolding f(1) by (simp add: map_key_upd_where)
  moreover from this have "review_id ` set (reviews db') = review_id ` set (reviews db)" by (metis set_map)
  moreover have "\<forall>rv\<in>set (reviews db'). run_ref_ok (run_ids db) (current_run_id rv)"
    using f(2) assms(1) unfolding f(1) by (auto simp: set_upd_where review_wf_tx_def refs_ok_def run_ref_ok_def)
  ultimately show ?thesis using assms(1) f(1) by (simp add: review_wf_tx_def runs_ok_def refs_ok_def)
qed

lemma allocateRun_Inr:
  assumes "allocateRun now clk newRunId e1 e2 a db = Inr (old, db')"
  obtains db1 db2 db3 prev es where
    "if al_parentRunId a = None
     then supersedeRun clk e1 (al_reviewId a) newRunId (al_provider a) ''superseded'' (Some (al_installationId a)) db = Inr (old, db1)
     else old = None \<and> db1 = db"
    "insert_run \<lparr>run_id = newRunId, rr_review_id = al_reviewId a, trigger_type = al_triggerType a,
                 triggered_by = al_triggeredBy a, attempt_number = al_attemptNumber a, lifecycle_state = ''PENDING'',
                 parent_run_id = al_parentRunId a, supersedes_run_id = old, superseded_by_run_id = None,
                 run_cancel_reason = None, rr_started_at = now, completed_at = None, failed_at = None,
                 cancelled_at = None\<rparr> db1 = Inr db2"
    "flipCurrentRun (al_reviewId a) newRunId old (Some (al_installationId a)) db2 = Inr (prev, db3)"
    "db' = db3\<lparr>workflow_events := workflow_events db3 @ es\<rparr>"
    "es = [] \<or> (\<exists>e. es = [e] \<and> sequence_no e = next_seq (ev_run_id e) (workflow_events db3))"
proof -
  note [simp del] = sortKeysDeep.simps
  have "\<exists>db1 db2 db3 prev. (if al_parentRunId a = None
     then supersedeRun clk e1 (al_reviewId a) newRunId (al_provider a) ''superseded'' (Some (al_installationId a)) db = Inr (old, db1)
     else old = None \<and> db1 = db) \<and>
    insert_run \<lparr>run_id = newRunId, rr_review_id = al_reviewId a, trigger_type = al_triggerType a,
                 triggered_by = al_triggeredBy a, attempt_number = al_attemptNumber a, lifecycle_state = ''PENDING'',
                 parent_run_id = al_parentRunId a, supersedes_run_id = old, superseded_by_run_id = None,
                 run_cancel_reason = None, rr_started_at = now, completed_at = None, failed_at = None,
                 cancelled_at = None\<rparr> db1 = Inr db2 \<and>
    flipCurrentRun (al_reviewId a) newRunId old (Some (al_installationId a)) db2 = Inr (prev, db3) \<and>
    (al_deliveryId a = None \<and> db' = db3 \<or> (\<exists>d. emitWorkflowEvent clk e2 (al_provider a) newRunId (al_reviewId a) ''WEBHOOK_RECEIVED''
       [(''trigger_type'', JStr (al_triggerType a)), (''attempt_number'', JNum (of_int (al_attemptNumber a)))]
       (Some d) (Some (al_installationId a)) db3 = Inr db'))"
    using assms unfolding allocateRun_def
    by (cases "al_parentRunId a") (auto split: if_splits sum.splits option.splits prod.splits)
  then obtain db1 db2 db3 prev where *: "(if al_parentRunId a = None
     then supersedeRun clk e1 (al_reviewId a) newRunId (al_provider a) ''superseded'' (Some (al_installationId a)) db = Inr (old, db1)
     else old = None \<and> db1 = db)"
    "insert_run \<lparr>run_id = newRunId, rr_review_id = al_reviewId a, trigger_type = al_triggerType a,
                 triggered_by = al_triggeredBy a, attempt_number = al_attemptNumber a, lifecycle_state = ''PENDING'',
                 parent_run_id = al_parentRunId a, supersedes_run_id = old, superseded_by_run_id = None,
                 run_cancel_reason = None, rr_started_at = now, completed_at = None, failed_at = None,
                 cancelled_at = None\<rparr> db1 = Inr db2"
    "flipCurrentRun (al_reviewId a) newRunId old (Some (al_installationId a)) db2 = Inr (prev, db3)"
    "al_deliveryId a = None \<and> db' = db3 \<or> (\<exists>d. emitWorkflowEvent clk e2 (al_provider a) newRunId (al_reviewId a) ''WEBHOOK_RECEIVED''
       [(''trigger_type'', JStr (al_triggerType a)), (''attempt_number'', JNum (of_int (al_attemptNumber a)))]
       (Some d) (Some (al_installationId a)) db3 = Inr db')" by blast
  from *(4) have "\<exists>es. db' = db3\<lparr>workflow_events := workflow_events db3 @ es\<rparr> \<and>
      (es = [] \<or> (\<exists>e. es = [e] \<and> sequence_no e = next_seq (ev_run_id e) (workflow_events db3)))"
    by (elim disjE exE conjE) (fastforce intro: exI [of _ "[]"] dest!: emitWorkflowEvent_Inr)+
  then show thesis using that *(1-3) by blast
qed

lemma allocateRun_wf:
  assumes "review_wf_tx db" and "allocateRun now clk newRunId e1 e2 a db = Inr (old, db')"
  shows "review_wf_tx db'"
  using assms(2)
proof (cases rule: allocateRun_Inr)
  case (1 db1 db2 db3 prev es)
  have "review_wf_tx db1" using 1(1) assms(1) by (auto intro: supersedeRun_wf split: if_splits)
  then have "review_wf_tx db3" using 1(2,3) insert_run_wf flipCurrentRun_wf by blast
  then show ?thesis using 1(4,5) by (auto simp: review_wf_tx_def runs_ok_def refs_ok_def intro: seq_gap_free_append)
qed

lemma upsertReview_wf:
  assumes "review_wf_tx db" and "upsertReview newId a db = Inr (rid, db')"
  shows "review_wf_tx db'"
proof (cases "first_row (filter (same_pr a) (reviews db))")
  case None
  then show ?thesis using assms
    by (auto simp: upsertReview_def Let_def review_wf_tx_def runs_ok_def refs_ok_def split: if_splits)
next
  case (Some rv)
  define f where "f = (\<lambda>rv :: review_row. rv\<lparr>provider_pr_id := u_providerPrId a, pr_node_id := u_prNodeId a, branch := u_branch a\<rparr>)"
  have db': "db' = db\<lparr>reviews := upd_where (same_pr a) f (reviews db)\<rparr>"
    using Some assms(2) by (auto simp: upsertReview_def Let_def f_def split: if_splits)
  have "map review_id (upd_where (same_pr a) f (reviews db)) = map review_id (reviews db)"
    by (rule map_key_upd_where) (simp add: f_def)
  moreover from this have "review_id ` set (upd_where (same_pr a) f (reviews db)) = review_id ` set (reviews db)" by (metis set_map)
  moreover have "\<forall>rv\<in>set (upd_where (same_pr a) f (reviews db)). run_ref_ok (run_ids db) (current_run_id rv)"
    using assms(1) by (auto simp: set_upd_where f_def review_wf_tx_def refs_ok_def)
  ultimately show ?thesis using assms(1) db' by (simp add: review_wf_tx_def runs_ok_def refs_ok_def)
qed

lemma audit_reaped_Inr:
  "audit_reaped clk rows db = Inr db' \<Longrightarrow> \<exists>aus. db' = db\<lparr>audit_events := audit_events db @ aus\<rparr> \<and>
     map target_id aus = map (\<lambda>(iid, rid). Some rid) (filter (\<lambda>(iid, rid). iid \<noteq> None) rows) \<and>
     (\<forall>e\<in>set aus. au_action e = ''review_run.reaped'')"
proof (induction clk rows db arbitrary: db' rule: audit_reaped.induct)
  case (1 clk db)
  then show ?case by (intro exI [of _ "[]"]) auto
next
  case (2 clk iid rid rows db)
  then obtain db1 where a: "reaped_audit clk iid rid db = Inr db1" and b: "audit_reaped clk rows db1 = Inr db'"
    by (auto split: sum.splits)
  from 2(1) [OF a b] obtain aus where aus: "db' = db1\<lparr>audit_events := audit_events db1 @ aus\<rparr>"
     "map target_id aus = map (\<lambda>(iid, rid). Some rid) (filter (\<lambda>(iid, rid). iid \<noteq> None) rows)"
     "\<forall>e\<in>set aus. au_action e = ''review_run.reaped''" by blast
  show ?case
  proof (cases iid)
    case None
    then show ?thesis using a aus by (auto simp: reaped_audit_def)
  next
    case (Some i)
    from a Some obtain e where e: "db1 = db\<lparr>audit_events := audit_events db @ [e]\<rparr>" "target_id e = Some rid"
      "au_action e = ''review_run.reaped''"
      by (auto simp: reaped_audit_def dest!: emitAuditEvent_Inr)
    then show ?thesis using aus Some by (intro exI [of _ "e # aus"]) auto
  qed
qed

lemma reap_stale_runs_Inr:
  assumes "reap_stale_runs locked now clk secs limit db = Inr (n, db')"
  defines "batch \<equiv> reap_batch locked now secs limit db"
  obtains aus where
    "db' = db\<lparr>review_runs := upd_where (\<lambda>r. run_id r \<in> set batch) (reap_set now) (review_runs db),
       audit_events := audit_events db @ aus,
       pr_review_mutex := upd_where (\<lambda>m. (\<exists>j\<in>set (review_jobs db). job_run_id j \<in> snd ` set (reap_rows batch db)
          \<and> job_mutex_id j = Some (mutex_id m)) \<and> released_at m = None) (\<lambda>m. m\<lparr>released_at := Some now\<rparr>) (pr_review_mutex db)\<rparr>"
    "update_runs (\<lambda>r. run_id r \<in> set batch) (reap_set now) db = Inr (db\<lparr>review_runs := review_runs db'\<rparr>)"
    "map target_id aus = map (\<lambda>(iid, rid). Some rid) (filter (\<lambda>(iid, rid). iid \<noteq> None) (reap_rows batch db))"
    "n = length (reap_rows batch db)"
proof -
  from assms(1) obtain db1 db2 where up: "update_runs (\<lambda>r. run_id r \<in> set batch) (reap_set now) db = Inr db1"
    and au: "audit_reaped clk (reap_rows batch db) db1 = Inr db2"
    and db': "db' = release_mutexes now (\<lambda>m. \<exists>j\<in>set (review_jobs db2). job_run_id j \<in> snd ` set (reap_rows batch db)
                        \<and> job_mutex_id j = Some (mutex_id m)) db2" "n = length (reap_rows batch db)"
    unfolding reap_stale_runs_def Let_def batch_def by (auto split: sum.splits)
  note db1 = update_runs_Inr(1) [OF up]
  from audit_reaped_Inr [OF au] obtain aus where aus: "db2 = db1\<lparr>audit_events := audit_events db1 @ aus\<rparr>"
    "map target_id aus = map (\<lambda>(iid, rid). Some rid) (filter (\<lambda>(iid, rid). iid \<noteq> None) (reap_rows batch db))" by blast
  show thesis
    by (rule that [OF _ _ aus(2) db'(2)]) (simp_all add: db'(1) aus(1) db1 up [unfolded db1] release_mutexes_def)
qed

section \<open>Histories of the lifecycle\<close>

text \<open>Every transaction of this theory as one operation. A guard whose error the caller swallows is
  included: its forensic row then commits.\<close>

datatype lc_op =
    LcTransition js_date uuid transition_args
  | LcEvent js_date uuid string uuid uuid string "(string \<times> rat json) list" uuid
  | LcUpsert uuid upsert_args
  | LcAllocate db_time js_date uuid uuid uuid allocate_args
  | LcGuard js_date uuid uuid uuid string
  | LcReap "uuid \<Rightarrow> bool" db_time js_date int nat

fun lc_exec :: "lc_op \<Rightarrow> review_db \<Rightarrow> review_db" where
  "lc_exec (LcTransition clk eid a) db = snd (driveTransition clk eid a db)"
| "lc_exec (LcEvent clk eid prov runId reviewId et payload iid) db =
     snd (recordReviewLifecycleEvent clk eid prov runId reviewId et payload iid db)"
| "lc_exec (LcUpsert newId a) db = snd (transact (upsertReview newId a) db)"
| "lc_exec (LcAllocate now clk newRunId e1 e2 a) db = snd (transact (allocateRun now clk newRunId e1 e2 a) db)"
| "lc_exec (LcGuard clk eid runId reviewId site) db = snd (snd (assertCurrentRun clk eid runId reviewId site db))"
| "lc_exec (LcReap locked now clk secs limit) db = snd (reviewRunReaper locked now clk secs limit db)"

lemma driveTransition_db: "snd (driveTransition clk eid a db) = snd (transact (transitionRun clk eid a) db)"
  by (auto simp: driveTransition_def split: prod.splits sum.splits)

lemma review_wf_iff: "review_wf db \<longleftrightarrow> review_wf_tx db \<and> commit_ok db"
  by (auto simp: review_wf_def review_wf_tx_def)

lemma recordReviewLifecycleEvent_wf:
  assumes "review_wf db"
  shows "review_wf (snd (recordReviewLifecycleEvent clk eid prov runId reviewId et payload iid db))"
proof (cases "et \<in> set ALLOWED_GRANULAR_EVENTS \<and> et \<in> set EVENT_TYPES")
  case True
  have tx: "review_wf_tx db" using assms by (simp add: review_wf_iff)
  from True show ?thesis unfolding recordReviewLifecycleEvent_def
    by (auto simp: tx intro!: transact_wf [OF assms] intro: review_wf_tx_events [OF tx] split: if_splits sum.splits)
next
  case False
  then show ?thesis using assms by (auto simp: recordReviewLifecycleEvent_def)
qed

lemma assertCurrentRun_db:
  "\<exists>es. snd (snd (assertCurrentRun clk eid runId reviewId site db)) = db\<lparr>workflow_events := workflow_events db @ es\<rparr> \<and>
     (es = [] \<or> (\<exists>e. es = [e] \<and> sequence_no e = next_seq (ev_run_id e) (workflow_events db) \<and> event_type e = ''STALE_WRITE_BLOCKED''))"
  by (auto simp: assertCurrentRun_def dest!: insert_event_Inr split: option.splits sum.splits
      intro: exI [of _ "[]"])

lemma review_wf_event_append:
  assumes "review_wf db" and "es = [] \<or> (\<exists>e. es = [e] \<and> sequence_no e = next_seq (ev_run_id e) (workflow_events db))"
  shows "review_wf (db\<lparr>workflow_events := workflow_events db @ es\<rparr>)"
  using assms by (auto simp: review_wf_def runs_ok_def refs_ok_def commit_ok_def intro: seq_gap_free_append)

lemma reap_stale_runs_wf:
  assumes "review_wf_tx db" and "reap_stale_runs locked now clk secs limit db = Inr (n, db')"
  shows "review_wf_tx db'"
  using assms(2)
proof (cases rule: reap_stale_runs_Inr)
  case (1 aus)
  have "review_wf_tx (db\<lparr>review_runs := review_runs db'\<rparr>)"
    by (rule review_wf_tx_update_runs [OF assms(1) 1(2)]) simp_all
  then show ?thesis unfolding 1(1) by (simp add: review_wf_tx_def runs_ok_def refs_ok_def)
qed

lemma lc_exec_wf:
  assumes "review_wf db"
  shows "review_wf (lc_exec op db)"
proof -
  have tx: "review_wf_tx db" using assms by (simp add: review_wf_iff)
  show ?thesis
  proof (cases op)
    case (LcGuard clk eid runId reviewId site)
    from assertCurrentRun_db [of clk eid runId reviewId site db] obtain es
      where "lc_exec op db = db\<lparr>workflow_events := workflow_events db @ es\<rparr>"
        "es = [] \<or> (\<exists>e. es = [e] \<and> sequence_no e = next_seq (ev_run_id e) (workflow_events db))"
      using LcGuard by auto
    then show ?thesis using review_wf_event_append [OF assms] by presburger
  qed (use assms tx in \<open>auto simp: driveTransition_db recordReviewLifecycleEvent_wf reviewRunReaper_def intro!: transact_wf
        intro: transitionRun_wf upsertReview_wf allocateRun_wf reap_stale_runs_wf\<close>)
qed

interpretation lc: history lc_exec review_wf
  by unfold_locales (rule lc_exec_wf)

section \<open>Terminal states are final\<close>

definition run_final :: "string \<Rightarrow> bool" where
  "run_final st \<longleftrightarrow> st \<in> {''COMPLETED'', ''FAILED'', ''CANCELLED''}"

definition run_rests :: "uuid \<Rightarrow> string \<Rightarrow> review_db \<Rightarrow> bool" where
  "run_rests rid st db \<longleftrightarrow> run_final st \<and> (\<exists>r\<in>set (review_runs db). run_id r = rid \<and> lifecycle_state r = st)"

lemma run_rests_update:
  assumes "run_rests rid st db" and "\<And>r. run_id (f r) = run_id r"
    and "\<And>r. r \<in> set (review_runs db) \<Longrightarrow> lifecycle_state r = st \<Longrightarrow> p r \<Longrightarrow> lifecycle_state (f r) = st"
    and "review_runs db' = upd_where p f (review_runs db) @ rs"
  shows "run_rests rid st db'"
proof -
  obtain r where r: "r \<in> set (review_runs db)" "run_id r = rid" "lifecycle_state r = st" and st: "run_final st"
    using assms(1) by (auto simp: run_rests_def)
  then have "(if p r then f r else r) \<in> set (review_runs db')" "lifecycle_state (if p r then f r else r) = st"
    using assms(3,4) by (auto simp: set_upd_where)
  then show ?thesis using assms(2) r st unfolding run_rests_def by (metis (full_types))
qed

lemma flip_set_final:
  "run_checks r \<Longrightarrow> run_final (lifecycle_state r) \<Longrightarrow> run_checks (flip_set to ts r) \<Longrightarrow> to = lifecycle_state r"
  by (auto simp: run_checks_def run_final_def flip_set_def Let_def split: if_splits)

lemma run_final_not_active: "run_final (lifecycle_state r) \<Longrightarrow> \<not> run_active r"
  by (auto simp: run_final_def run_active_def active_states_def)

lemma transitionRun_rests:
  assumes "review_wf_tx db" and "transitionRun clk eid a db = Inr (res, db')" and "run_rests rid st db"
  shows "run_rests rid st db'"
proof -
  obtain oc cs where res: "res = (oc, cs)" by (cases res)
  show ?thesis using assms(2) [unfolded res]
  proof (cases rule: transitionRun_Inr)
    case already
    then show ?thesis using assms(3) by simp
  next
    case (applied rr rv rp e)
    have st: "run_final st" using assms(3) by (simp add: run_rests_def)
    have "t_toState a = lifecycle_state r" if "r \<in> set (review_runs db)" "lifecycle_state r = st" "run_id r = t_runId a" for r
      using flip_set_final [of r "t_toState a" "of_date clk"] applied(6) [OF that(1,3)] that st assms(1)
      by (auto simp: review_wf_tx_def runs_ok_def)
    then show ?thesis
      by (intro run_rests_update [OF assms(3), where p = "\<lambda>r. run_id r = t_runId a"
            and f = "flip_set (t_toState a) (of_date clk)" and rs = "[]"]) (auto simp: applied(7))
  qed
qed

lemma supersedeRun_rests:
  assumes "supersedeRun clk eid reviewId newRunId prov cr ei db = Inr (old, db')" and "run_rests rid st db"
  shows "run_rests rid st db'"
  using assms(1)
proof (cases rule: supersedeRun_Inr)
  case (1 es)
  have "run_final st" using assms(2) by (simp add: run_rests_def)
  then show ?thesis
    by (intro run_rests_update [OF assms(2), where p = "\<lambda>r. rr_review_id r = reviewId \<and> run_active r"
          and f = "supersede_set (of_date clk) cr newRunId" and rs = "[]"]) (auto simp: 1(1) dest: run_final_not_active)
qed

lemma run_rests_same: "run_rests rid st db \<Longrightarrow> review_runs db' = review_runs db @ rs \<Longrightarrow> run_rests rid st db'"
  by (auto simp: run_rests_def)

lemma allocateRun_rests:
  assumes "allocateRun now clk newRunId e1 e2 a db = Inr (old, db')" and "run_rests rid st db"
  shows "run_rests rid st db'"
  using assms(1)
proof (cases rule: allocateRun_Inr)
  case (1 db1 db2 db3 prev es)
  have "run_rests rid st db1" using 1(1) assms(2) supersedeRun_rests by (auto split: if_splits)
  then show ?thesis
    by (rule run_rests_same) (simp add: 1(4) flipCurrentRun_Inr(1) [OF 1(3)] insert_run_Inr(1) [OF 1(2)])
qed

lemma reap_stale_runs_rests:
  assumes "reap_stale_runs locked now clk secs limit db = Inr (n, db')" and "run_rests rid st db" and "distinct (run_ids db)"
  shows "run_rests rid st db'"
  using assms(1)
proof (cases rule: reap_stale_runs_Inr)
  case (1 aus)
  have "lifecycle_state r = ''RUNNING''"
    if "r \<in> set (review_runs db)" "run_id r \<in> set (reap_batch locked now secs limit db)" for r
  proof -
    from that(2) obtain r' where "r' \<in> set (review_runs db)" "stale_run now secs db r'" "run_id r' = run_id r"
      by (auto simp: reap_batch_def dest!: in_set_takeD)
    then show ?thesis using that(1) assms(3) by (auto simp: stale_run_def dest: distinct_key_unique)
  qed
  moreover have "st \<noteq> ''RUNNING''" using assms(2) by (auto simp: run_rests_def run_final_def)
  ultimately show ?thesis
    by (intro run_rests_update [OF assms(2), where p = "\<lambda>r. run_id r \<in> set (reap_batch locked now secs limit db)"
          and f = "reap_set now" and rs = "[]"]) (auto simp: 1(1))
qed

lemma transact_rests:
  assumes "run_rests rid st db" and "\<And>a db'. body db = Inr (a, db') \<Longrightarrow> run_rests rid st db'"
  shows "run_rests rid st (snd (transact body db))"
  using transact_db [of body db] assms by metis

lemma lc_exec_rests:
  assumes "review_wf db" and "run_rests rid st db"
  shows "run_rests rid st (lc_exec op db)"
proof -
  have tx: "review_wf_tx db" and dist: "distinct (run_ids db)" using assms(1) by (auto simp: review_wf_iff review_wf_tx_def runs_ok_def)
  note same = run_rests_same [OF assms(2), where rs = "[]"]
  show ?thesis
  proof (cases op)
    case (LcGuard clk eid runId reviewId site)
    have "review_runs (lc_exec op db) = review_runs db"
      using LcGuard assertCurrentRun_db [of clk eid runId reviewId site db] by fastforce
    then show ?thesis using same by simp
  next
    case (LcEvent clk eid prov runId reviewId et payload iid)
    have "review_runs (lc_exec op db) = review_runs db"
      using LcEvent by (auto simp: recordReviewLifecycleEvent_def transact_def dest!: emitWorkflowEvent_Inr
          split: if_splits sum.splits)
    then show ?thesis using same by simp
  next
    case (LcUpsert newId a)
    have "review_runs (lc_exec op db) = review_runs db"
      using LcUpsert by (auto simp: upsertReview_def transact_def Let_def split: if_splits sum.splits option.splits)
    then show ?thesis using same by simp
  qed (use assms tx dist in \<open>auto simp: driveTransition_db reviewRunReaper_def intro!: transact_rests
        intro: transitionRun_rests allocateRun_rests reap_stale_runs_rests\<close>)
qed

interpretation lc_final: persistent_history lc_exec review_wf "run_rests rid st" for rid st
  by unfold_locales (rule lc_exec_rests)

section \<open>Who may write\<close>

definition points_at :: "uuid \<Rightarrow> uuid \<Rightarrow> review_db \<Rightarrow> bool" where
  "points_at revw rid db \<longleftrightarrow> revw \<in> review_id ` set (reviews db) \<and>
     (\<forall>rv\<in>set (reviews db). review_id rv = revw \<longrightarrow> current_run_id rv = Some rid)"

fun allocates :: "uuid \<Rightarrow> lc_op \<Rightarrow> bool" where
  "allocates revw (LcAllocate now clk newRunId e1 e2 a) \<longleftrightarrow> al_reviewId a = revw"
| "allocates revw _ \<longleftrightarrow> False"

lemma allocateRun_reviews:
  assumes "allocateRun now clk newRunId e1 e2 a db = Inr (old, db')"
  shows "reviews db' = upd_where (\<lambda>rv. review_id rv = al_reviewId a) (\<lambda>rv. rv\<lparr>current_run_id := Some newRunId\<rparr>) (reviews db)
    \<and> al_reviewId a \<in> review_id ` set (reviews db)"
  using assms
proof (cases rule: allocateRun_Inr)
  case (1 db1 db2 db3 prev es)
  have "reviews db1 = reviews db" using 1(1) by (auto split: if_splits elim!: supersedeRun_Inr)
  then show ?thesis using flipCurrentRun_Inr(3) [OF 1(3)]
    by (simp add: 1(4) flipCurrentRun_Inr(1) [OF 1(3)] insert_run_Inr(1) [OF 1(2)])
qed

lemma points_at_upd:
  assumes "points_at revw rid db" and "\<And>rv. review_id (f rv) = review_id rv"
    and "\<And>rv. review_id rv = revw \<Longrightarrow> p rv \<Longrightarrow> current_run_id (f rv) = current_run_id rv"
  shows "points_at revw rid (db'\<lparr>reviews := upd_where p f (reviews db)\<rparr>)"
proof -
  have "map review_id (upd_where p f (reviews db)) = map review_id (reviews db)"
    using assms(2) by (intro map_key_upd_where) simp
  then have "review_id ` set (upd_where p f (reviews db)) = review_id ` set (reviews db)" by (metis set_map)
  then show ?thesis using assms by (auto simp: points_at_def set_upd_where)
qed

lemma allocateRun_points_at:
  assumes "allocateRun now clk newRunId e1 e2 a db = Inr (old, db')"
  shows "points_at (al_reviewId a) newRunId db'"
proof -
  let ?f = "\<lambda>rv :: review_row. rv\<lparr>current_run_id := Some newRunId\<rparr>"
  note r = allocateRun_reviews [OF assms]
  then have "map review_id (reviews db') = map review_id (reviews db)" by (simp add: map_key_upd_where)
  then have "review_id ` set (reviews db') = review_id ` set (reviews db)" by (metis set_map)
  then show ?thesis using r by (auto simp: points_at_def set_upd_where)
qed

lemma points_at_same: "points_at revw rid db \<Longrightarrow> reviews db' = reviews db \<Longrightarrow> points_at revw rid db'"
  by (simp add: points_at_def)

lemma upsertReview_points_at:
  assumes "upsertReview newId a db = Inr (x, db')" and "points_at revw rid db"
  shows "points_at revw rid db'"
proof (cases "first_row (filter (same_pr a) (reviews db))")
  case None
  then show ?thesis using assms by (auto simp: upsertReview_def Let_def points_at_def split: if_splits)
next
  case (Some rv)
  then show ?thesis using assms by (auto simp: upsertReview_def Let_def split: if_splits intro!: points_at_upd)
qed

lemma transact_points_at:
  assumes "points_at revw rid db" and "\<And>a db'. body db = Inr (a, db') \<Longrightarrow> points_at revw rid db'"
  shows "points_at revw rid (snd (transact body db))"
  using transact_db [of body db] assms by metis

lemma lc_exec_points_at:
  assumes "points_at revw rid db" and "\<not> allocates revw op"
  shows "points_at revw rid (lc_exec op db)"
proof (cases op)
  case (LcTransition clk eid a)
  have "reviews db' = reviews db" if "transitionRun clk eid a db = Inr (res, db')" for res db'
    using that by (cases res) (auto elim!: transitionRun_Inr)
  then show ?thesis using LcTransition assms by (auto simp: driveTransition_db intro!: transact_points_at intro: points_at_same)
next
  case (LcEvent clk eid prov runId reviewId et payload iid)
  have "reviews (lc_exec op db) = reviews db"
    using LcEvent by (auto simp: recordReviewLifecycleEvent_def transact_def dest!: emitWorkflowEvent_Inr split: if_splits sum.splits)
  then show ?thesis using assms(1) by (rule points_at_same [rotated])
next
  case (LcUpsert newId a)
  then show ?thesis using assms by (auto intro!: transact_points_at intro: upsertReview_points_at)
next
  case (LcAllocate now clk newRunId e1 e2 a)
  have "points_at revw rid db'" if "allocateRun now clk newRunId e1 e2 a db = Inr (old, db')" for old db'
    using points_at_upd [of revw rid db "\<lambda>rv. rv\<lparr>current_run_id := Some newRunId\<rparr>" "\<lambda>rv. review_id rv = al_reviewId a" db]
      allocateRun_reviews [OF that] assms LcAllocate by (auto intro: points_at_same)
  then show ?thesis using LcAllocate assms by (auto intro!: transact_points_at)
next
  case (LcGuard clk eid runId reviewId site)
  have "reviews (lc_exec op db) = reviews db"
    using LcGuard assertCurrentRun_db [of clk eid runId reviewId site db] by fastforce
  then show ?thesis using assms(1) by (rule points_at_same [rotated])
next
  case (LcReap locked now clk secs limit)
  have "reviews db' = reviews db" if "reap_stale_runs locked now clk secs limit db = Inr (n, db')" for n db'
    using that by (cases rule: reap_stale_runs_Inr) auto
  then show ?thesis using LcReap assms by (auto simp: reviewRunReaper_def intro!: transact_points_at intro: points_at_same)
qed

lemma fold_points_at:
  "points_at revw rid db \<Longrightarrow> \<forall>op\<in>set ops. \<not> allocates revw op \<Longrightarrow> points_at revw rid (fold lc_exec ops db)"
  by (induction ops arbitrary: db) (auto intro: lc_exec_points_at)

lemma assertCurrentRun_points_at:
  assumes "points_at revw rid db"
  shows "(\<exists>e. fst (assertCurrentRun clk eid x revw site db) = Inl e) \<longleftrightarrow> x \<noteq> rid"
proof -
  obtain rv where "first_row (filter (\<lambda>rv. review_id rv = revw) (reviews db)) = Some rv" "current_run_id rv = Some rid"
    using assms by (cases "first_row (filter (\<lambda>rv. review_id rv = revw) (reviews db))")
      (auto simp: points_at_def filter_empty_conv dest!: first_row_Some)
  then show ?thesis by (auto simp: assertCurrentRun_def split: sum.splits)
qed

section \<open>Properties\<close>

text \<open>A database for the witnesses: one repository, one review, one running run that started long ago.\<close>

definition demo_run :: review_run where
  "demo_run = \<lparr>run_id = ''r1'', rr_review_id = ''v1'', trigger_type = ''pr_opened'', triggered_by = None, attempt_number = 1,
     lifecycle_state = ''RUNNING'', parent_run_id = None, supersedes_run_id = None, superseded_by_run_id = None,
     run_cancel_reason = None, rr_started_at = 0, completed_at = None, failed_at = None, cancelled_at = None\<rparr>"

definition demo_db :: review_db where
  "demo_db = \<lparr>reviews = [\<lparr>review_id = ''v1'', provider = ''github'', repo_id = 7, rv_pr_number = 3, provider_pr_id = ''p'',
       pr_node_id = None, branch = None, current_run_id = Some ''r1''\<rparr>],
     repositories = [\<lparr>repository_id = ''repo'', github_repo_id = 7, repo_installation_id = Some ''i1'', enabled = True\<rparr>],
     review_runs = [demo_run], review_jobs = [], pr_review_mutex = [], workflow_events = [], audit_events = []\<rparr>"

definition demo_alloc :: allocate_args where
  "demo_alloc = \<lparr>al_reviewId = ''v1'', al_installationId = ''i1'', al_triggerType = ''pr_synchronize'', al_triggeredBy = None,
     al_provider = ''github'', al_deliveryId = None, al_parentRunId = None, al_attemptNumber = 1\<rparr>"

lemmas lc_consts = LIFECYCLE_STATES_def active_states_def CANCEL_REASONS_def TRIGGER_TYPES_def EVENT_TYPES_def

lemma demo_run_checks: "run_checks demo_run"
  by (simp add: run_checks_def demo_run_def lc_consts)

lemma demo_db_wf: "review_wf demo_db"
  by (simp add: review_wf_def runs_ok_def refs_ok_def commit_ok_def seq_gap_free_def demo_db_def demo_run_checks)
     (simp add: demo_run_def)

text \<open>The review tables stay consistent along every history of the transactions of this theory, in any
  interleaving and with any of them failing: run ids are unique, every run satisfies the CHECK
  constraints (a terminal timestamp exactly in its state, a supersede reason only with a successor),
  every reference resolves, and the events of every run are numbered without gap or repetition.\<close>

theorem lifecycle_history_invariant:
  assumes "review_wf db"
  shows "review_wf (fold lc_exec ops db)"
  using assms by (rule lc.fold_inv)

theorem lifecycle_history_invariant_witness:
  "review_wf (fold lc_exec [LcAllocate 5 5 ''r2'' ''e1'' ''e2'' demo_alloc, LcReap (\<lambda>_. False) 9000000000 9 300 500] demo_db)"
  using demo_db_wf by (rule lifecycle_history_invariant)

text \<open>Terminal states are final: once a run is COMPLETED, FAILED or CANCELLED, no sequence of
  lifecycle transactions moves it to another state. The transition primitive itself does not refuse to
  leave such a state; it is the timestamp it leaves behind that makes the CHECK reject the statement.\<close>

theorem terminal_run_final:
  assumes "review_wf db" and "r \<in> set (review_runs db)" and "lifecycle_state r \<in> {''COMPLETED'', ''FAILED'', ''CANCELLED''}"
  shows "\<exists>r'\<in>set (review_runs (fold lc_exec ops db)). run_id r' = run_id r \<and> lifecycle_state r' = lifecycle_state r"
proof -
  have "run_rests (run_id r) (lifecycle_state r) db"
    using assms(2,3) by (auto simp: run_rests_def run_final_def)
  then show ?thesis using lc_final.fold_fact [OF assms(1)] by (auto simp: run_rests_def)
qed

definition demo_done :: review_run where
  "demo_done = demo_run\<lparr>lifecycle_state := ''COMPLETED'', completed_at := Some 4\<rparr>"

definition demo_back_to_running :: transition_args where
  "demo_back_to_running = \<lparr>t_runId = ''r1'', t_fromState = ''COMPLETED'', t_toState = ''RUNNING'', t_activity = ''x'', t_attempt = 1,
     t_workerId = None, t_durationMs = None, t_reason = None, t_expectedInstallationId = None\<rparr>"

theorem terminal_run_final_witness:
  "\<exists>r'\<in>set (review_runs (fold lc_exec [LcTransition 5 ''e'' demo_back_to_running] (demo_db\<lparr>review_runs := [demo_done]\<rparr>))).
     run_id r' = ''r1'' \<and> lifecycle_state r' = ''COMPLETED''"
proof -
  have wf: "review_wf (demo_db\<lparr>review_runs := [demo_done]\<rparr>)"
    using demo_run_checks
    by (simp add: review_wf_def runs_ok_def refs_ok_def commit_ok_def seq_gap_free_def demo_db_def run_checks_def demo_done_def demo_run_def)
       (simp add: lc_consts)
  have "\<exists>r'\<in>set (review_runs (fold lc_exec [LcTransition 5 ''e'' demo_back_to_running] (demo_db\<lparr>review_runs := [demo_done]\<rparr>))).
     run_id r' = run_id demo_done \<and> lifecycle_state r' = lifecycle_state demo_done"
    by (rule terminal_run_final [OF wf]) (simp_all add: demo_done_def)
  then show ?thesis by (simp only: demo_done_def demo_run_def review_run.simps)
qed

text \<open>Retrying a lifecycle activity that already committed is free of effects: the second call
  succeeds, writes no second event, moves no timestamp and fires no counter.\<close>

theorem driveTransition_retry:
  assumes "driveTransition clk eid a db = ((None, cs), db')"
  shows "driveTransition clk' eid' a db' = ((None, []), db')"
proof -
  obtain oc where tr: "transitionRun clk eid a db = Inr ((oc, cs), db')" and ok: "commit_ok db'"
    using assms by (auto simp: driveTransition_def transact_Inr_iff split: prod.splits sum.splits)
  show ?thesis using transitionRun_again [OF tr] ok by (simp add: driveTransition_def transact_def)
qed

theorem driveTransition_retry_witness:
  "driveTransition 9 ''e9'' demo_back_to_running (snd (driveTransition 5 ''e'' demo_back_to_running demo_db))
    = ((None, []), snd (driveTransition 5 ''e'' demo_back_to_running demo_db))"
proof -
  have "driveTransition 5 ''e'' demo_back_to_running demo_db = ((None, []), demo_db)"
    by (simp add: driveTransition_def transact_def transitionRun_def run_joins_def review_repos_def demo_db_def demo_run_def
        demo_back_to_running_def lc_consts commit_ok_def)
  then show ?thesis using driveTransition_retry [of 5 "''e''" demo_back_to_running demo_db "[]" demo_db] by simp
qed

lemma demo_alloc_commits:
  "\<exists>db'. transact (allocateRun 5 5 ''r2'' ''e1'' ''e2'' demo_alloc) demo_db = (Inr (Some ''r1''), db')"
  by (simp add: transact_def allocateRun_def supersedeRun_def review_installation_def review_repos_def Let_def
      update_runs_def returning_def run_active_def run_checks_def supersede_set_def emitWorkflowEvent_def insert_event_def
      next_seq_def insert_run_def flipCurrentRun_def commit_ok_def demo_alloc_def demo_db_def demo_run_def lc_consts
      del: sortKeysDeep.simps)

lemma reap_batch_stale:
  assumes "distinct (run_ids db)" and "r \<in> set (review_runs db)" and "run_id r \<in> set (reap_batch locked now secs limit db)"
  shows "stale_run now secs db r"
proof -
  from assms(3) obtain r' where "r' \<in> set (review_runs db)" "stale_run now secs db r'" "run_id r' = run_id r"
    by (auto simp: reap_batch_def dest!: in_set_takeD)
  then show ?thesis using assms(1,2) by (auto dest: distinct_key_unique)
qed

lemma reap_set_checks: "run_checks r \<Longrightarrow> lifecycle_state r = ''RUNNING'' \<Longrightarrow> run_checks (reap_set now r)"
  by (auto simp: run_checks_def reap_set_def lc_consts)

lemma audit_reaped_total: "\<exists>db'. audit_reaped clk rows db = Inr db'"
proof (induction rows arbitrary: db)
  case (Cons row rows)
  obtain iid rid where row: "row = (iid, rid)" by (cases row)
  have "\<exists>db1. reaped_audit clk iid rid db = Inr db1"
    by (auto simp: reaped_audit_def emitAuditEvent_def ACTOR_KINDS_def split: option.splits)
  then show ?case using Cons.IH by (auto simp: row)
qed simp

lemma reap_rows_cover:
  assumes "refs_ok db" and "r \<in> set (review_runs db)" and "run_id r \<in> set batch"
  shows "run_id r \<in> snd ` set (reap_rows batch db)"
proof -
  obtain rv where rv: "rv \<in> set (reviews db)" "review_id rv = rr_review_id r" using assms(1,2) by (auto simp: refs_ok_def)
  have "\<exists>iid. iid \<in> set (case filter (\<lambda>rp. github_repo_id rp = repo_id rv) (repositories db) of
                 [] \<Rightarrow> [None] | rps \<Rightarrow> map repo_installation_id rps)"
    by (cases "filter (\<lambda>rp. github_repo_id rp = repo_id rv) (repositories db)") auto
  then have "\<exists>iid. iid \<in> set (review_tenants db (rr_review_id r))"
    using rv unfolding review_tenants_def by fastforce
  then show ?thesis using assms(2,3) by (force simp: reap_rows_def)
qed

lemma commit_ok_reap: "commit_ok db \<Longrightarrow> commit_ok (db\<lparr>review_runs := upd_where p (reap_set now) (review_runs db)\<rparr>)"
proof -
  have "run_ids (db\<lparr>review_runs := upd_where p (reap_set now) (review_runs db)\<rparr>) = run_ids db"
    by (simp add: map_key_upd_where)
  then show "commit_ok db \<Longrightarrow> ?thesis" by (auto simp: commit_ok_def set_upd_where reap_set_def)
qed

text \<open>The stale-run sweep always commits, and is safe: it cancels at most the sweep limit of
  runs, each of them RUNNING, older than the threshold and without a claimable or leased job; and
  afterwards no job of a cancelled run refers to a live mutex.\<close>

theorem reviewRunReaper_safe:
  assumes "review_wf db"
  shows "\<exists>n db' batch. reviewRunReaper locked now clk secs limit db = (Inr n, db') \<and> length batch \<le> limit
    \<and> review_runs db' = upd_where (\<lambda>r. run_id r \<in> set batch) (reap_set now) (review_runs db)
    \<and> (\<forall>r\<in>set (review_runs db). run_id r \<in> set batch \<longrightarrow> lifecycle_state r = ''RUNNING''
         \<and> rr_started_at r < now - secs * 1000000 \<and> \<not> (\<exists>j\<in>set (review_jobs db). job_run_id j = run_id r \<and> active j))
    \<and> (\<forall>r\<in>set (review_runs db). \<forall>j\<in>set (review_jobs db'). \<forall>m\<in>set (pr_review_mutex db').
         run_id r \<in> set batch \<and> job_run_id j = run_id r \<and> job_mutex_id j = Some (mutex_id m) \<longrightarrow> released_at m \<noteq> None)"
proof -
  let ?b = "reap_batch locked now secs limit db"
  have dist: "distinct (run_ids db)" and chk: "\<forall>r\<in>set (review_runs db). run_checks r" and refs: "refs_ok db" and ok: "commit_ok db"
    using assms by (auto simp: review_wf_def runs_ok_def)
  note stale = reap_batch_stale [OF dist]
  have up: "update_runs (\<lambda>r. run_id r \<in> set ?b) (reap_set now) db
      = Inr (db\<lparr>review_runs := upd_where (\<lambda>r. run_id r \<in> set ?b) (reap_set now) (review_runs db)\<rparr>)"
    using chk stale by (auto simp: update_runs_def stale_run_def intro!: reap_set_checks)
  obtain n db' where run: "reap_stale_runs locked now clk secs limit db = Inr (n, db')"
    using audit_reaped_total [of clk "reap_rows ?b db"] up unfolding reap_stale_runs_def Let_def by (metis (no_types, lifting) sum.simps(6))
  from run show ?thesis
  proof (cases rule: reap_stale_runs_Inr)
    case (1 aus)
    have "commit_ok db'" using commit_ok_reap [OF ok] unfolding 1(1) commit_ok_def by simp
    then have res: "reviewRunReaper locked now clk secs limit db = (Inr n, db')"
      using run by (simp add: reviewRunReaper_def transact_Inr_iff)
    have mx: "released_at m \<noteq> None" if "r \<in> set (review_runs db)" "j \<in> set (review_jobs db')" "m \<in> set (pr_review_mutex db')"
        "run_id r \<in> set ?b" "job_run_id j = run_id r" "job_mutex_id j = Some (mutex_id m)" for r j m
      using that reap_rows_cover [OF refs that(1,4)] unfolding 1(1)
      by (simp add: set_upd_where del: snd_conv) (erule disjE, force, metis)
    have "length ?b \<le> limit" by (simp add: reap_batch_def)
    then show ?thesis
      using res mx stale 1(1) by (intro exI [of _ n] exI [of _ db'] exI [of _ ?b]) (auto simp: stale_run_def)
  qed
qed

theorem reviewRunReaper_safe_witness:
  "\<exists>n db'. reviewRunReaper (\<lambda>_. False) 4000000000 4000000 3600 500 demo_db = (Inr n, db')"
  using reviewRunReaper_safe [OF demo_db_wf, of "\<lambda>_. False" 4000000000 4000000 3600 500] by blast

text \<open>A run whose repository row is missing is reported as missing itself: the inner join returns
  no row, so the caller gets a state drift without a state, not the unresolved-tenant error that the
  interface documents for this case.\<close>

theorem transitionRun_missing_repository:
  assumes "r \<in> set (review_runs db)" and "run_id r = t_runId a" and "distinct (run_ids db)"
    and "\<forall>rv\<in>set (reviews db). \<forall>rp\<in>set (repositories db). review_id rv = rr_review_id r \<longrightarrow> github_repo_id rp \<noteq> repo_id rv"
    and "t_fromState a \<in> set LIFECYCLE_STATES" and "t_toState a \<in> set LIFECYCLE_STATES" and "t_activity a \<noteq> []" and "1 \<le> t_attempt a"
  shows "transitionRun clk eid a db = Inl (StateDrift (t_runId a) (t_fromState a) None)"
proof -
  have "r' = r" if "r' \<in> set (review_runs db)" "run_id r' = t_runId a" for r'
    using distinct_key_unique [OF assms(3) that(1) assms(1)] that(2) assms(2) by simp
  then have "run_joins db (t_runId a) = []"
    using assms(4) by (auto simp: run_joins_def review_repos_def filter_empty_conv)
  then show ?thesis using assms(5-8) by (simp add: transitionRun_def)
qed

theorem transitionRun_missing_repository_witness:
  "transitionRun 5 ''e'' demo_back_to_running (demo_db\<lparr>repositories := []\<rparr>) = Inl (StateDrift ''r1'' ''COMPLETED'' None)"
  using transitionRun_missing_repository [of demo_run "demo_db\<lparr>repositories := []\<rparr>" demo_back_to_running 5 "''e''"]
  by (simp add: demo_db_def demo_run_def demo_back_to_running_def lc_consts)

end
