(* ===== verification/Review_Payload.thy ===== *)
theory Review_Payload
  imports Canonical_Json
begin

text \<open>
  \<^verbatim>\<open>libs/contracts/src/review_pull_request.v1.ts\<close>: the argument of a review job, its strict schema and the JSON
  object it is printed as. The library's checks of a UUID and of a date-time are the parameter \<open>zod\<close>;
  what is proved about the schema does not depend on them.
\<close>

record zod =
  is_uuid :: "string \<Rightarrow> bool"
  is_datetime :: "string \<Rightarrow> bool"

record review_payload =
  p_installation_id :: uuid
  p_repository_id :: uuid
  p_pr_id :: uuid
  p_pr_number :: int
  p_head_sha :: string
  p_gh_owner :: string
  p_gh_repo_name :: string
  p_pr_title :: string
  p_pr_description :: string
  p_delivery_id :: string
  p_policy_revision :: int
  p_run_id :: uuid
  p_review_id :: uuid
  p_github_installation_id :: "int option"
  p_author_login :: "string option"
  p_draft :: bool
  p_base_ref :: "string option"
  p_head_ref :: "string option"
  p_opened_at :: "string option"

section \<open>Field schemas\<close>

text \<open>A field schema reads the value of the key, \<open>None\<close> when it is absent or undefined.\<close>

definition field :: "(string \<times> 'n js) list \<Rightarrow> string \<Rightarrow> 'n js option" where
  "field kvs k = (case map_of kvs k of Some (JsOther ty) \<Rightarrow> if ty = ''undefined'' then None else Some (JsOther ty) | x \<Rightarrow> x)"

definition z_uuid :: "zod \<Rightarrow> rat js option \<Rightarrow> string option" where
  "z_uuid z v = (case v of Some (JsStr s) \<Rightarrow> if is_uuid z s then Some s else None | _ \<Rightarrow> None)"

definition z_string :: "nat \<Rightarrow> nat \<Rightarrow> rat js option \<Rightarrow> string option" where
  "z_string lo hi v = (case v of Some (JsStr s) \<Rightarrow> if lo \<le> length s \<and> length s \<le> hi then Some s else None | _ \<Rightarrow> None)"

definition z_datetime :: "zod \<Rightarrow> rat js option \<Rightarrow> string option" where
  "z_datetime z v = (case v of Some (JsStr s) \<Rightarrow> if is_datetime z s then Some s else None | _ \<Rightarrow> None)"

definition z_int :: "int \<Rightarrow> rat js option \<Rightarrow> int option" where
  "z_int lo v = (case v of Some (JsNum n) \<Rightarrow> if of_int \<lfloor>n\<rfloor> = n \<and> lo \<le> \<lfloor>n\<rfloor> then Some \<lfloor>n\<rfloor> else None | _ \<Rightarrow> None)"

definition z_nullable :: "(rat js option \<Rightarrow> 'a option) \<Rightarrow> rat js option \<Rightarrow> 'a option option" where
  "z_nullable p v = (case v of None \<Rightarrow> Some None | Some JsNull \<Rightarrow> Some None | Some x \<Rightarrow> map_option Some (p (Some x)))"

definition z_bool_default :: "bool \<Rightarrow> rat js option \<Rightarrow> bool option" where
  "z_bool_default d v = (case v of None \<Rightarrow> Some d | Some (JsBool b) \<Rightarrow> Some b | _ \<Rightarrow> None)"

definition z_literal_default :: "rat \<Rightarrow> rat js option \<Rightarrow> unit option" where
  "z_literal_default n v = (case v of None \<Rightarrow> Some () | Some (JsNum m) \<Rightarrow> if m = n then Some () else None | _ \<Rightarrow> None)"

definition payload_keys :: "string list" where
  "payload_keys =
     [''schema_version'', ''installation_id'', ''repository_id'', ''pr_id'', ''pr_number'', ''head_sha'', ''gh_owner'',
      ''gh_repo_name'', ''pr_title'', ''pr_description'', ''delivery_id'', ''policy_revision'', ''run_id'', ''review_id'',
      ''github_installation_id'', ''author_login'', ''draft'', ''base_ref'', ''head_ref'', ''opened_at'']"

text \<open>The strict object schema; \<open>f k\<close> is the value of key \<open>k\<close>.\<close>

definition parse_fields :: "zod \<Rightarrow> (string \<Rightarrow> rat js option) \<Rightarrow> review_payload option" where
  "parse_fields z f =
     Option.bind (z_literal_default 2 (f ''schema_version'')) (\<lambda>_.
     Option.bind (z_uuid z (f ''installation_id'')) (\<lambda>inst.
     Option.bind (z_uuid z (f ''repository_id'')) (\<lambda>repo.
     Option.bind (z_uuid z (f ''pr_id'')) (\<lambda>pr.
     Option.bind (z_int 1 (f ''pr_number'')) (\<lambda>num.
     Option.bind (z_string 40 40 (f ''head_sha'')) (\<lambda>sha.
     Option.bind (z_string 1 200 (f ''gh_owner'')) (\<lambda>own.
     Option.bind (z_string 1 200 (f ''gh_repo_name'')) (\<lambda>nam.
     Option.bind (z_string 0 500 (f ''pr_title'')) (\<lambda>tit.
     Option.bind (z_string 0 10000 (f ''pr_description'')) (\<lambda>des.
     Option.bind (z_string 1 200 (f ''delivery_id'')) (\<lambda>del.
     Option.bind (z_int 0 (f ''policy_revision'')) (\<lambda>pol.
     Option.bind (z_uuid z (f ''run_id'')) (\<lambda>run.
     Option.bind (z_uuid z (f ''review_id'')) (\<lambda>rvw.
     Option.bind (z_nullable (z_int 0) (f ''github_installation_id'')) (\<lambda>ghi.
     Option.bind (z_nullable (z_string 0 64) (f ''author_login'')) (\<lambda>aut.
     Option.bind (z_bool_default False (f ''draft'')) (\<lambda>dra.
     Option.bind (z_nullable (z_string 0 255) (f ''base_ref'')) (\<lambda>bas.
     Option.bind (z_nullable (z_string 0 255) (f ''head_ref'')) (\<lambda>hea.
     Option.bind (z_nullable (z_datetime z) (f ''opened_at'')) (\<lambda>ope.
     Some \<lparr>p_installation_id = inst, p_repository_id = repo, p_pr_id = pr, p_pr_number = num, p_head_sha = sha,
       p_gh_owner = own, p_gh_repo_name = nam, p_pr_title = tit, p_pr_description = des, p_delivery_id = del,
       p_policy_revision = pol, p_run_id = run, p_review_id = rvw, p_github_installation_id = ghi, p_author_login = aut,
       p_draft = dra, p_base_ref = bas, p_head_ref = hea, p_opened_at = ope\<rparr>))))))))))))))))))))"

definition ReviewPullRequestPayloadV1 :: "zod \<Rightarrow> rat js \<Rightarrow> review_payload option" where
  "ReviewPullRequestPayloadV1 z v =
     (case v of
        JsObj kvs \<Rightarrow> if list_all (\<lambda>k. k \<in> set payload_keys) (map fst kvs) then parse_fields z (field kvs) else None
      | _ \<Rightarrow> None)"

section \<open>Printing\<close>

definition j_opt :: "('a \<Rightarrow> rat json) \<Rightarrow> 'a option \<Rightarrow> rat json" where
  "j_opt f x = (case x of None \<Rightarrow> JNull | Some a \<Rightarrow> f a)"

definition payload_fields :: "review_payload \<Rightarrow> (string \<times> rat json) list" where
  "payload_fields p =
     [(''schema_version'', JNum 2), (''installation_id'', JStr (p_installation_id p)),
      (''repository_id'', JStr (p_repository_id p)), (''pr_id'', JStr (p_pr_id p)), (''pr_number'', JNum (of_int (p_pr_number p))),
      (''head_sha'', JStr (p_head_sha p)), (''gh_owner'', JStr (p_gh_owner p)), (''gh_repo_name'', JStr (p_gh_repo_name p)),
      (''pr_title'', JStr (p_pr_title p)), (''pr_description'', JStr (p_pr_description p)), (''delivery_id'', JStr (p_delivery_id p)),
      (''policy_revision'', JNum (of_int (p_policy_revision p))), (''run_id'', JStr (p_run_id p)), (''review_id'', JStr (p_review_id p)),
      (''github_installation_id'', j_opt (\<lambda>n. JNum (of_int n)) (p_github_installation_id p)),
      (''author_login'', j_opt JStr (p_author_login p)), (''draft'', JBool (p_draft p)), (''base_ref'', j_opt JStr (p_base_ref p)),
      (''head_ref'', j_opt JStr (p_head_ref p)), (''opened_at'', j_opt JStr (p_opened_at p))]"

definition payload_json :: "review_payload \<Rightarrow> rat json" where
  "payload_json p = JObj (payload_fields p)"

section \<open>What the schema accepts\<close>

definition payload_ok :: "zod \<Rightarrow> review_payload \<Rightarrow> bool" where
  "payload_ok z p \<longleftrightarrow>
     is_uuid z (p_installation_id p) \<and> is_uuid z (p_repository_id p) \<and> is_uuid z (p_pr_id p) \<and> 1 \<le> p_pr_number p \<and>
     length (p_head_sha p) = 40 \<and> length (p_gh_owner p) \<in> {1..200} \<and> length (p_gh_repo_name p) \<in> {1..200} \<and>
     length (p_pr_title p) \<le> 500 \<and> length (p_pr_description p) \<le> 10000 \<and> length (p_delivery_id p) \<in> {1..200} \<and>
     0 \<le> p_policy_revision p \<and> is_uuid z (p_run_id p) \<and> is_uuid z (p_review_id p) \<and>
     (\<forall>n. p_github_installation_id p = Some n \<longrightarrow> 0 \<le> n) \<and> (\<forall>s. p_author_login p = Some s \<longrightarrow> length s \<le> 64) \<and>
     (\<forall>s. p_base_ref p = Some s \<longrightarrow> length s \<le> 255) \<and> (\<forall>s. p_head_ref p = Some s \<longrightarrow> length s \<le> 255) \<and>
     (\<forall>s. p_opened_at p = Some s \<longrightarrow> is_datetime z s)"

lemma z_uuid_Some: "z_uuid z v = Some s \<Longrightarrow> is_uuid z s"
  by (auto simp: z_uuid_def split: option.splits js.splits if_splits)

lemma z_string_Some: "z_string lo hi v = Some s \<Longrightarrow> lo \<le> length s \<and> length s \<le> hi"
  by (auto simp: z_string_def split: option.splits js.splits if_splits)

lemma z_datetime_Some: "z_datetime z v = Some s \<Longrightarrow> is_datetime z s"
  by (auto simp: z_datetime_def split: option.splits js.splits if_splits)

lemma z_int_Some: "z_int lo v = Some n \<Longrightarrow> lo \<le> n"
  by (auto simp: z_int_def split: option.splits js.splits if_splits)

lemma z_nullable_Some: "z_nullable p v = Some (Some x) \<Longrightarrow> \<exists>w. p w = Some x"
  by (auto simp: z_nullable_def split: option.splits js.splits)

lemmas z_Some = z_uuid_Some z_string_Some z_datetime_Some z_int_Some

lemma parse_fields_ok: "parse_fields z f = Some p \<Longrightarrow> payload_ok z p"
  unfolding parse_fields_def payload_ok_def
  by (auto simp: bind_eq_Some_conv dest!: z_Some dest!: z_nullable_Some)

lemma payload_schema_ok: "ReviewPullRequestPayloadV1 z v = Some p \<Longrightarrow> payload_ok z p"
  by (auto simp: ReviewPullRequestPayloadV1_def dest: parse_fields_ok split: js.splits if_splits)

section \<open>Printing, storing and reading back\<close>

fun atomic :: "'n json \<Rightarrow> bool" where
  "atomic (JArr vs) = False"
| "atomic (JObj kvs) = False"
| "atomic v = True"

inductive_cases key_perm_ObjE: "key_perm (JObj kvs) w"

lemma key_perm_atomic: "key_perm v w \<Longrightarrow> atomic v \<Longrightarrow> w = v"
  by (induction rule: key_perm.induct) auto

lemma sortKeysDeep_atomic: "atomic v \<Longrightarrow> sortKeysDeep v = v"
  by (cases v) auto

lemma sortKeysDeep_flat:
  assumes "\<forall>kv\<in>set kvs. atomic (snd kv) \<and> fst kv \<noteq> ''__proto__''"
  shows "\<exists>kvs'. sortKeysDeep (JObj kvs) = JObj kvs' \<and> mset kvs' = mset kvs"
proof -
  have "map (\<lambda>(k, v). (k, sortKeysDeep v)) (sort_key fst kvs) = sort_key fst kvs"
    using assms by (intro map_idI) (auto simp: sortKeysDeep_atomic)
  moreover have "filter (\<lambda>kv. fst kv \<noteq> ''__proto__'') (sort_key fst kvs) = sort_key fst kvs"
    using assms by (intro filter_True) auto
  ultimately show ?thesis by (simp add: mset_js_insert_order)
qed

lemma key_perm_flat:
  assumes "key_perm (JObj kvs) w" and "\<forall>kv\<in>set kvs. atomic (snd kv)"
  shows "\<exists>lws. w = JObj lws \<and> mset lws = mset kvs"
proof -
  from assms(1) obtain us lws where us: "w = JObj lws" "mset us = mset kvs" "map fst us = map fst lws"
    "list_all2 key_perm (map snd us) (map snd lws)" by (auto elim!: key_perm_ObjE)
  have "\<forall>v\<in>set (map snd us). atomic v"
    using assms(2) us(2) by (metis (no_types, lifting) image_iff list.set_map set_mset_mset)
  then have "map snd lws = map snd us"
    by (intro list_all2_antisym [of "\<lambda>v w. v = w"])
       (use us(4) in \<open>auto simp: list_all2_conv_all_nth dest!: key_perm_atomic\<close>)
  then have "lws = us" using us(3) by (metis zip_map_fst_snd)
  then show ?thesis using us by simp
qed

lemma payload_fields_flat: "\<forall>kv\<in>set (payload_fields p). atomic (snd kv) \<and> fst kv \<noteq> ''__proto__''"
  by (auto simp: payload_fields_def j_opt_def split: option.splits)

lemma payload_fields_keys: "map fst (payload_fields p) = payload_keys"
  by (simp add: payload_fields_def payload_keys_def)

lemma payload_keys_distinct: "distinct payload_keys"
  by (simp add: payload_keys_def)

lemma map_of_mset_eq:
  assumes "mset xs = mset ys" and "distinct (map fst ys)"
  shows "map_of xs = map_of ys"
proof -
  have "distinct (map fst xs)" using assms by (metis mset_eq_imp_distinct_iff mset_map)
  then show ?thesis using assms by (metis map_of_inject_set set_mset_mset)
qed

lemma z_uuid_JsStr: "is_uuid z s \<Longrightarrow> z_uuid z (Some (JsStr s)) = Some s"
  by (simp add: z_uuid_def)

lemma z_string_JsStr: "lo \<le> length s \<Longrightarrow> length s \<le> hi \<Longrightarrow> z_string lo hi (Some (JsStr s)) = Some s"
  by (simp add: z_string_def)

lemma z_int_JsNum: "lo \<le> n \<Longrightarrow> z_int lo (Some (JsNum (of_int n))) = Some n"
  by (simp add: z_int_def)

lemma z_nullable_int: "(\<forall>n. x = Some n \<longrightarrow> lo \<le> n) \<Longrightarrow>
    z_nullable (z_int lo) (Some (js_of_json (j_opt (\<lambda>n. JNum (of_int n)) x))) = Some x"
  by (cases x) (auto simp: z_nullable_def j_opt_def z_int_def)

lemma z_nullable_string: "(\<forall>s. x = Some s \<longrightarrow> length s \<le> hi) \<Longrightarrow>
    z_nullable (z_string 0 hi) (Some (js_of_json (j_opt JStr x))) = Some x"
  by (cases x) (auto simp: z_nullable_def j_opt_def z_string_def)

lemma z_nullable_datetime: "(\<forall>s. x = Some s \<longrightarrow> is_datetime z s) \<Longrightarrow>
    z_nullable (z_datetime z) (Some (js_of_json (j_opt JStr x))) = Some x"
  by (cases x) (auto simp: z_nullable_def j_opt_def z_datetime_def)

lemmas z_print = z_uuid_JsStr z_string_JsStr z_int_JsNum z_nullable_int z_nullable_string z_nullable_datetime

lemma field_js_of_json: "field (map (\<lambda>(k, v). (k, js_of_json v)) kvs) k = map_option js_of_json (map_of kvs k)"
proof -
  have "map_of (map (\<lambda>(k, v). (k, js_of_json v)) kvs) k = map_option js_of_json (map_of kvs k)"
    by (simp add: map_of_map)
  moreover have "js_of_json v \<noteq> JsOther ty" for v :: "'a json" and ty by (cases v) auto
  ultimately show ?thesis by (auto simp: field_def split: option.splits js.splits)
qed

lemma parse_fields_print:
  assumes "payload_ok z p"
  shows "parse_fields z (\<lambda>k. map_option js_of_json (map_of (payload_fields p) k)) = Some p"
  using assms unfolding payload_ok_def
  by (simp add: parse_fields_def payload_fields_def z_print z_literal_default_def z_bool_default_def Suc_le_eq)

theorem payload_print_parse:
  assumes "payload_ok z p" and "key_perm (sortKeysDeep (payload_json p)) w"
  shows "ReviewPullRequestPayloadV1 z (js_of_json w) = Some p"
proof -
  obtain kvs where kvs: "sortKeysDeep (payload_json p) = JObj kvs" "mset kvs = mset (payload_fields p)"
    using sortKeysDeep_flat [OF payload_fields_flat] unfolding payload_json_def by blast
  have "\<forall>kv\<in>set kvs. atomic (snd kv)" using payload_fields_flat kvs(2) by (metis set_mset_mset)
  then obtain lws where lws: "w = JObj lws" "mset lws = mset (payload_fields p)"
    using key_perm_flat assms(2) kvs by metis
  have mo: "map_of lws = map_of (payload_fields p)"
    using lws(2) payload_keys_distinct payload_fields_keys by (metis map_of_mset_eq)
  have fields: "field (map (\<lambda>(k, v). (k, js_of_json v)) lws) = (\<lambda>k. map_option js_of_json (map_of (payload_fields p) k))"
    by (simp add: field_js_of_json mo fun_eq_iff)
  have "set (map fst lws) = set payload_keys"
    using lws(2) payload_fields_keys by (metis mset_map set_mset_mset)
  then show ?thesis
    using parse_fields_print [OF assms(1)]
    by (simp add: ReviewPullRequestPayloadV1_def lws(1) list_all_iff fields map_fst_value [unfolded case_prod_unfold] del: map_map)
qed

end
