(* ===== verification/Pr_Mutex.thy ===== *)
theory Pr_Mutex
  imports Review_Db Review_Payload "HOL-Library.Word"
begin

unbundle bit_operations_syntax

text \<open>
  \<^verbatim>\<open>concurrency/pr_mutex.ts\<close>: the lease-based mutex per pull request, and \<^verbatim>\<open>activities/mutex_janitor.activity.ts\<close>,
  which sweeps expired leases. The advisory lock only lives inside a transaction; whether it was free is
  the argument \<open>gotLock\<close>. The database's clock is \<open>now\<close>, the injected one \<open>clk\<close>; \<open>newId\<close> is the minted id.
\<close>

section \<open>Advisory keys\<close>

definition PR_REVIEW_MUTEX_LOCK_NAMESPACE :: string where
  "PR_REVIEW_MUTEX_LOCK_NAMESPACE = ''codemaster:pr_review_mutex:v1''"

text \<open>\<^verbatim>\<open>readUInt32BE\<close> at an offset; \<open>digest\<close> is SHA-256 as bytes.\<close>

definition readUInt32BE :: "8 word list \<Rightarrow> nat \<Rightarrow> 32 word" where
  "readUInt32BE bs i =
     push_bit 24 (ucast (bs ! i)) OR push_bit 16 (ucast (bs ! (i + 1))) OR push_bit 8 (ucast (bs ! (i + 2))) OR ucast (bs ! (i + 3))"

definition advisoryKeys :: "(string \<Rightarrow> 8 word list) \<Rightarrow> uuid \<Rightarrow> uuid \<Rightarrow> int \<Rightarrow> 32 word \<times> 32 word" where
  "advisoryKeys digest installationId repositoryId prNumber =
     (let d = digest (PR_REVIEW_MUTEX_LOCK_NAMESPACE @ ''|'' @ installationId @ ''|'' @ repositoryId @ ''|'' @ int_text prNumber)
      in (readUInt32BE d 0 AND 0x7FFFFFFF, readUInt32BE d 4 AND 0x7FFFFFFF))"

section \<open>Operations\<close>

definition DEFAULT_LEASE_TTL_SECONDS :: int where
  "DEFAULT_LEASE_TTL_SECONDS = 30 * 60"

definition live :: "pr_mutex \<Rightarrow> bool" where
  "live m \<longleftrightarrow> released_at m = None"

definition same_slot :: "uuid \<Rightarrow> uuid \<Rightarrow> int \<Rightarrow> pr_mutex \<Rightarrow> bool" where
  "same_slot inst repo pr m \<longleftrightarrow> mx_installation_id m = inst \<and> mx_repository_id m = repo \<and> mx_pr_number m = pr"

definition lease_valid :: "db_time \<Rightarrow> pr_mutex \<Rightarrow> bool" where
  "lease_valid now m \<longleftrightarrow> (case lease_expires_at m of None \<Rightarrow> False | Some u \<Rightarrow> now < u)"

record acquire_result =
  acquired :: bool
  ar_mutexId :: "uuid option"
  ar_holderWorkflowId :: "string option"

text \<open>The INSERT with the constraints it can meet: the primary key, the CHECKs, and the partial unique
  index on the live row of a pull request.\<close>

definition insert_mutex :: "pr_mutex \<Rightarrow> pr_mutex list \<Rightarrow> review_error + pr_mutex list" where
  "insert_mutex m t =
     (if mx_pr_number m \<le> 0 \<or> (live m \<and> lease_expires_at m = None) then Inl RunCheckViolation
      else if mutex_id m \<in> mutex_id ` set t then Inl (DuplicateKey ''pr_review_mutex_pkey'')
      else if live m \<and> list_ex (\<lambda>x. same_slot (mx_installation_id m) (mx_repository_id m) (mx_pr_number m) x \<and> live x) t
      then Inl (DuplicateKey ''uq_pr_review_mutex_live_pr'')
      else Inr (t @ [m]))"

definition release_set :: "db_time \<Rightarrow> pr_mutex \<Rightarrow> pr_mutex" where
  "release_set ts m = m\<lparr>released_at := Some ts\<rparr>"

definition acquirePrReviewMutex ::
  "bool \<Rightarrow> db_time \<Rightarrow> uuid \<Rightarrow> uuid \<Rightarrow> uuid \<Rightarrow> int \<Rightarrow> string \<Rightarrow> int \<Rightarrow> pr_mutex list
     \<Rightarrow> review_error + acquire_result \<times> pr_mutex list" where
  "acquirePrReviewMutex gotLock now newId inst repo pr holder ttlS t =
     (if pr \<le> 0 then Inl (BadArgument ''pr_number'')
      else let existing = first_row (filter (\<lambda>m. same_slot inst repo pr m \<and> live m) t)
      in if \<not> gotLock
         then Inr (\<lparr>acquired = False, ar_mutexId = None, ar_holderWorkflowId = map_option holder_workflow_id existing\<rparr>, t)
         else
           (let insert = (\<lambda>t'. case insert_mutex \<lparr>mutex_id = newId, mx_installation_id = inst, mx_repository_id = repo,
                    mx_pr_number = pr, holder_workflow_id = holder, acquired_at = now, released_at = None,
                    lease_expires_at = Some (now + ttlS * 1000000)\<rparr> t' of
                Inl e \<Rightarrow> Inl e
              | Inr t'' \<Rightarrow> Inr (\<lparr>acquired = True, ar_mutexId = Some newId, ar_holderWorkflowId = Some holder\<rparr>, t''))
            in case existing of
                 None \<Rightarrow> insert t
               | Some m \<Rightarrow>
                   if lease_valid now m
                   then Inr (\<lparr>acquired = False, ar_mutexId = None, ar_holderWorkflowId = Some (holder_workflow_id m)\<rparr>, t)
                   else insert (upd_where (\<lambda>x. mx_installation_id x = inst \<and> mutex_id x = mutex_id m \<and> live x) (release_set now) t)))"

definition releasePrReviewMutex :: "js_date \<Rightarrow> uuid \<Rightarrow> uuid \<Rightarrow> pr_mutex list \<Rightarrow> pr_mutex list" where
  "releasePrReviewMutex clk inst mid t =
     upd_where (\<lambda>x. mx_installation_id x = inst \<and> mutex_id x = mid \<and> live x) (release_set (of_date clk)) t"

definition renew_set :: "db_time \<Rightarrow> int \<Rightarrow> pr_mutex \<Rightarrow> pr_mutex" where
  "renew_set now ttlS m = m\<lparr>lease_expires_at := Some (now + ttlS * 1000000)\<rparr>"

definition renewPrReviewMutexLease :: "db_time \<Rightarrow> uuid \<Rightarrow> uuid \<Rightarrow> int \<Rightarrow> pr_mutex list \<Rightarrow> bool \<times> pr_mutex list" where
  "renewPrReviewMutexLease now inst mid ttlS t =
     (let p = (\<lambda>x. mx_installation_id x = inst \<and> mutex_id x = mid \<and> live x)
      in (hits p t = 1, upd_where p (renew_set now ttlS) t))"

section \<open>The janitor\<close>

text \<open>\<^verbatim>\<open>ORDER BY lease_expires_at NULLS FIRST\<close>\<close>

definition expiry_key :: "pr_mutex \<Rightarrow> nat \<times> int" where
  "expiry_key m = (case lease_expires_at m of None \<Rightarrow> (0, 0) | Some u \<Rightarrow> (1, u))"

definition sweepable :: "db_time \<Rightarrow> pr_mutex \<Rightarrow> bool" where
  "sweepable now m \<longleftrightarrow> live m \<and> (case lease_expires_at m of None \<Rightarrow> True | Some u \<Rightarrow> u < now)"

fun sweep_rows :: "(nat \<Rightarrow> js_date) \<Rightarrow> (js_date \<Rightarrow> string) \<Rightarrow> pr_mutex list \<Rightarrow> review_db \<Rightarrow> review_error + review_db" where
  "sweep_rows clks isoText [] db = Inr db"
| "sweep_rows clks isoText (m # ms) db =
     (let clk = clks (length ms);
          db1 = db\<lparr>pr_review_mutex := upd_where (\<lambda>x. mutex_id x = mutex_id m \<and> live x) (release_set (of_date clk)) (pr_review_mutex db)\<rparr>
      in case emitAuditEvent clk (Some (mx_installation_id m)) ''system'' ''mutex.swept'' ''pr_review_mutex'' (Some (mutex_id m))
              (Some (JObj [(''released_at'', JNull), (''holder_workflow_id'', JStr (holder_workflow_id m))]))
              (Some (JObj [(''released_at'', JStr (isoText clk)), (''reason'', JStr ''lease_expired'')])) db1 of
           Inl e \<Rightarrow> Inl e
         | Inr db2 \<Rightarrow> sweep_rows clks isoText ms db2)"

definition sweep_batch :: "(uuid \<Rightarrow> bool) \<Rightarrow> db_time \<Rightarrow> nat \<Rightarrow> pr_mutex list \<Rightarrow> pr_mutex list" where
  "sweep_batch locked now limit t =
     take limit (filter (\<lambda>m. \<not> locked (mutex_id m)) (order_by expiry_key (filter (sweepable now) t)))"

text \<open>\<open>clks\<close> gives the injected clock for each row, \<open>isoText\<close> is \<^verbatim>\<open>toISOString\<close>. The result is \<^verbatim>\<open>(scanned, swept)\<close>.\<close>

definition mutexJanitorActivity ::
  "(uuid \<Rightarrow> bool) \<Rightarrow> db_time \<Rightarrow> (nat \<Rightarrow> js_date) \<Rightarrow> (js_date \<Rightarrow> string) \<Rightarrow> nat \<Rightarrow> review_db
     \<Rightarrow> (review_error + nat \<times> nat) \<times> review_db" where
  "mutexJanitorActivity locked now clks isoText limit = transact (\<lambda>db.
     (let rows = sweep_batch locked now limit (pr_review_mutex db)
      in case sweep_rows clks isoText rows db of
           Inl e \<Rightarrow> Inl e
         | Inr db' \<Rightarrow> Inr ((length rows, length rows), db')))"

section \<open>The table invariant\<close>

definition mutex_wf :: "pr_mutex list \<Rightarrow> bool" where
  "mutex_wf t \<longleftrightarrow> distinct (map mutex_id t) \<and>
     (\<forall>m\<in>set t. 0 < mx_pr_number m \<and> (live m \<longrightarrow> lease_expires_at m \<noteq> None)) \<and>
     (\<forall>inst repo pr. hits (\<lambda>m. same_slot inst repo pr m \<and> live m) t \<le> 1)"

lemma release_set_simps [simp]:
  "mutex_id (release_set ts m) = mutex_id m" "mx_pr_number (release_set ts m) = mx_pr_number m"
  "\<not> live (release_set ts m)" "same_slot inst repo pr (release_set ts m) = same_slot inst repo pr m"
  by (simp_all add: release_set_def live_def same_slot_def)

lemma renew_set_simps [simp]:
  "mutex_id (renew_set now ttl m) = mutex_id m" "mx_pr_number (renew_set now ttl m) = mx_pr_number m"
  "live (renew_set now ttl m) = live m" "same_slot inst repo pr (renew_set now ttl m) = same_slot inst repo pr m"
  "lease_expires_at (renew_set now ttl m) = Some (now + ttl * 1000000)"
  by (simp_all add: renew_set_def live_def same_slot_def)

lemma mutex_wf_map:
  assumes "mutex_wf t" and "\<And>m. mutex_id (f m) = mutex_id m" and "\<And>m. mx_pr_number (f m) = mx_pr_number m"
    and "\<And>m inst repo pr. same_slot inst repo pr (f m) = same_slot inst repo pr m"
    and "\<And>m. live (f m) \<Longrightarrow> live m \<and> (lease_expires_at m \<noteq> None \<longrightarrow> lease_expires_at (f m) \<noteq> None)"
  shows "mutex_wf (map f t)"
proof -
  have "hits (\<lambda>m. same_slot inst repo pr m \<and> live m) (map f t) \<le> hits (\<lambda>m. same_slot inst repo pr m \<and> live m) t" for inst repo pr
    using assms(4,5) by (induction t) auto
  then have "hits (\<lambda>m. same_slot inst repo pr m \<and> live m) (map f t) \<le> 1" for inst repo pr
    using assms(1) unfolding mutex_wf_def by (meson order_trans)
  then show ?thesis using assms by (auto simp: mutex_wf_def comp_def)
qed

lemma mutex_wf_release: "mutex_wf t \<Longrightarrow> mutex_wf (upd_where p (release_set ts) t)"
  unfolding upd_where_def by (rule mutex_wf_map) (auto split: if_splits)

lemma mutex_wf_renew: "mutex_wf t \<Longrightarrow> mutex_wf (upd_where p (renew_set now ttl) t)"
  unfolding upd_where_def by (rule mutex_wf_map) (auto split: if_splits)

lemma insert_mutex_wf:
  assumes "mutex_wf t" and "insert_mutex m t = Inr t'"
  shows "mutex_wf t'"
proof -
  have t': "t' = t @ [m]" and chk: "0 < mx_pr_number m" "live m \<longrightarrow> lease_expires_at m \<noteq> None" "mutex_id m \<notin> mutex_id ` set t"
    and free: "live m \<Longrightarrow> hits (\<lambda>x. same_slot (mx_installation_id m) (mx_repository_id m) (mx_pr_number m) x \<and> live x) t = 0"
    using assms(2) by (auto simp: insert_mutex_def hits_0_iff list_ex_iff split: if_splits)
  have "hits (\<lambda>x. same_slot inst repo pr x \<and> live x) t' \<le> 1" for inst repo pr
  proof (cases "same_slot inst repo pr m \<and> live m")
    case True
    then show ?thesis using free t' by (auto simp: hits_def same_slot_def)
  next
    case False
    then have "hits (\<lambda>x. same_slot inst repo pr x \<and> live x) t' = hits (\<lambda>x. same_slot inst repo pr x \<and> live x) t"
      using t' by (auto simp: hits_def)
    then show ?thesis using assms(1) by (simp add: mutex_wf_def)
  qed
  then show ?thesis using assms(1) t' chk by (auto simp: mutex_wf_def)
qed

lemma acquire_wf:
  assumes "mutex_wf t" and "acquirePrReviewMutex g now newId inst repo pr holder ttl t = Inr (r, t')"
  shows "mutex_wf t'"
  using assms by (auto simp: acquirePrReviewMutex_def Let_def split: if_splits option.splits sum.splits
      intro: insert_mutex_wf mutex_wf_release)

lemma hits_le_1_unique: "hits p t \<le> 1 \<Longrightarrow> x \<in> set t \<Longrightarrow> y \<in> set t \<Longrightarrow> p x \<Longrightarrow> p y \<Longrightarrow> x = y"
proof (induction t)
  case (Cons a t)
  then show ?case by (cases "p a") (auto simp: hits_0_iff)
qed simp

lemma live_slot_unique:
  assumes "mutex_wf t" and "m \<in> set t" and "m' \<in> set t" and "same_slot inst repo pr m" and "same_slot inst repo pr m'"
    and "live m" and "live m'"
  shows "m = m'"
  using hits_le_1_unique [of "\<lambda>m. same_slot inst repo pr m \<and> live m" t m m'] assms by (auto simp: mutex_wf_def)

lemma first_live_slot:
  assumes "mutex_wf t" and "m \<in> set t" and "same_slot inst repo pr m" and "live m"
  shows "first_row (filter (\<lambda>m. same_slot inst repo pr m \<and> live m) t) = Some m"
proof (cases "first_row (filter (\<lambda>m. same_slot inst repo pr m \<and> live m) t)")
  case None
  then show ?thesis using assms by (auto simp: filter_empty_conv)
next
  case (Some m')
  then have "m' \<in> set t" "same_slot inst repo pr m'" "live m'" by (auto dest!: first_row_Some)
  then show ?thesis using Some live_slot_unique [OF assms(1,2)] assms by auto
qed

section \<open>The sweep\<close>

lemma sweep_rows_Inr:
  "sweep_rows clks isoText ms db = Inr db' \<Longrightarrow> \<exists>ts aus.
     db' = db\<lparr>pr_review_mutex := map (\<lambda>x. if mutex_id x \<in> mutex_id ` set ms \<and> live x then release_set (ts (mutex_id x)) x else x)
                (pr_review_mutex db), audit_events := audit_events db @ aus\<rparr> \<and> map target_id aus = map (\<lambda>m. Some (mutex_id m)) ms"
proof (induction ms arbitrary: db)
  case Nil
  then show ?case by (intro exI [of _ "\<lambda>_. 0"] exI [of _ "[]"]) auto
next
  case (Cons m ms)
  define clk where "clk = clks (length ms)"
  define db1 where "db1 = db\<lparr>pr_review_mutex := upd_where (\<lambda>x. mutex_id x = mutex_id m \<and> live x) (release_set (of_date clk)) (pr_review_mutex db)\<rparr>"
  from Cons.prems obtain db2 where em: "emitAuditEvent clk (Some (mx_installation_id m)) ''system'' ''mutex.swept'' ''pr_review_mutex'' (Some (mutex_id m))
              (Some (JObj [(''released_at'', JNull), (''holder_workflow_id'', JStr (holder_workflow_id m))]))
              (Some (JObj [(''released_at'', JStr (isoText clk)), (''reason'', JStr ''lease_expired'')])) db1 = Inr db2"
      and rest: "sweep_rows clks isoText ms db2 = Inr db'"
    by (auto simp: Let_def clk_def db1_def split: sum.splits)
  from emitAuditEvent_Inr [OF em] obtain e where e: "db2 = db1\<lparr>audit_events := audit_events db1 @ [e]\<rparr>" "target_id e = Some (mutex_id m)"
    by blast
  from Cons.IH [OF rest] obtain ts aus where ih: "db' = db2\<lparr>pr_review_mutex := map (\<lambda>x. if mutex_id x \<in> mutex_id ` set ms \<and> live x
      then release_set (ts (mutex_id x)) x else x) (pr_review_mutex db2), audit_events := audit_events db2 @ aus\<rparr>"
      "map target_id aus = map (\<lambda>m. Some (mutex_id m)) ms" by blast
  let ?g = "\<lambda>ts ids x. if mutex_id x \<in> ids \<and> live x then release_set (ts (mutex_id x)) x else x"
  let ?ts = "\<lambda>i. if i = mutex_id m then of_date clk else ts i"
  have "?g ts (mutex_id ` set ms) \<circ> (\<lambda>r. if mutex_id r = mutex_id m \<and> live r then release_set (of_date clk) r else r)
      = ?g ?ts (mutex_id ` set (m # ms))" by (rule ext) auto
  then show ?case
    by (intro exI [of _ ?ts] exI [of _ "e # aus"]) (use ih e in \<open>simp add: db1_def upd_where_def\<close>)
qed

lemma sweep_rows_total: "\<exists>db'. sweep_rows clks isoText ms db = Inr db'"
  by (induction ms arbitrary: db) (auto simp: Let_def emitAuditEvent_def ACTOR_KINDS_def)

definition swept :: "pr_mutex list \<Rightarrow> (uuid \<Rightarrow> db_time) \<Rightarrow> pr_mutex list \<Rightarrow> pr_mutex list" where
  "swept rows ts t = map (\<lambda>x. if mutex_id x \<in> mutex_id ` set rows \<and> live x then release_set (ts (mutex_id x)) x else x) t"

lemma janitor_result:
  assumes "commit_ok db"
  shows "\<exists>ts aus. mutexJanitorActivity locked now clks isoText limit db =
      (Inr (length (sweep_batch locked now limit (pr_review_mutex db)), length (sweep_batch locked now limit (pr_review_mutex db))),
       db\<lparr>pr_review_mutex := swept (sweep_batch locked now limit (pr_review_mutex db)) ts (pr_review_mutex db),
          audit_events := audit_events db @ aus\<rparr>)
    \<and> map target_id aus = map (\<lambda>m. Some (mutex_id m)) (sweep_batch locked now limit (pr_review_mutex db))"
proof -
  let ?rows = "sweep_batch locked now limit (pr_review_mutex db)"
  obtain db' where sw: "sweep_rows clks isoText ?rows db = Inr db'" using sweep_rows_total by blast
  from sweep_rows_Inr [OF sw] obtain ts aus where
    db': "db' = db\<lparr>pr_review_mutex := swept ?rows ts (pr_review_mutex db), audit_events := audit_events db @ aus\<rparr>"
      "map target_id aus = map (\<lambda>m. Some (mutex_id m)) ?rows" unfolding swept_def by blast
  have "commit_ok db'" using assms unfolding db'(1) commit_ok_def by simp
  then have "mutexJanitorActivity locked now clks isoText limit db = (Inr (length ?rows, length ?rows), db')"
    using sw unfolding mutexJanitorActivity_def transact_Inr_iff by (simp add: Let_def)
  then show ?thesis using db' by blast
qed

section \<open>Histories of the mutex\<close>

datatype mx_op =
    MxAcquire bool db_time uuid uuid uuid int string int
  | MxRelease js_date uuid uuid
  | MxRenew db_time uuid uuid int
  | MxJanitor "uuid \<Rightarrow> bool" db_time "nat \<Rightarrow> js_date" "js_date \<Rightarrow> string" nat

fun mx_exec :: "mx_op \<Rightarrow> review_db \<Rightarrow> review_db" where
  "mx_exec (MxAcquire g now newId inst repo pr holder ttl) db =
     (case acquirePrReviewMutex g now newId inst repo pr holder ttl (pr_review_mutex db) of
        Inl _ \<Rightarrow> db | Inr (_, t) \<Rightarrow> db\<lparr>pr_review_mutex := t\<rparr>)"
| "mx_exec (MxRelease clk inst mid) db = db\<lparr>pr_review_mutex := releasePrReviewMutex clk inst mid (pr_review_mutex db)\<rparr>"
| "mx_exec (MxRenew now inst mid ttl) db = db\<lparr>pr_review_mutex := snd (renewPrReviewMutexLease now inst mid ttl (pr_review_mutex db))\<rparr>"
| "mx_exec (MxJanitor locked now clks isoText limit) db = snd (mutexJanitorActivity locked now clks isoText limit db)"

definition mx_inv :: "review_db \<Rightarrow> bool" where
  "mx_inv db \<longleftrightarrow> mutex_wf (pr_review_mutex db) \<and> commit_ok db"

lemma mx_exec_inv:
  assumes "mx_inv db"
  shows "mx_inv (mx_exec op db)"
proof (cases op)
  case (MxJanitor locked now clks isoText limit)
  have ok: "commit_ok db" and wf: "mutex_wf (pr_review_mutex db)" using assms by (auto simp: mx_inv_def)
  from janitor_result [OF ok, of locked now clks isoText limit] obtain ts aus where
    res: "mx_exec op db = db\<lparr>pr_review_mutex := swept (sweep_batch locked now limit (pr_review_mutex db)) ts (pr_review_mutex db),
          audit_events := audit_events db @ aus\<rparr>" using MxJanitor by auto
  have "mutex_wf (swept rows ts (pr_review_mutex db))" for rows
    unfolding swept_def by (rule mutex_wf_map [OF wf]) (auto split: if_splits)
  then show ?thesis using ok unfolding res by (simp add: mx_inv_def commit_ok_def)
qed (use assms in \<open>auto simp: mx_inv_def commit_ok_def releasePrReviewMutex_def renewPrReviewMutexLease_def Let_def
      intro: mutex_wf_release mutex_wf_renew acquire_wf split: sum.splits\<close>)

interpretation mx: history mx_exec mx_inv
  by unfold_locales (rule mx_exec_inv)

text \<open>An operation spares mutex \<open>mid\<close>, whose lease runs until \<open>u\<close>: it neither releases nor renews it, and the
  database's clock it runs at is before the end of the lease.\<close>

fun spares :: "uuid \<Rightarrow> db_time \<Rightarrow> mx_op \<Rightarrow> bool" where
  "spares mid u (MxAcquire g now newId inst repo pr holder ttl) \<longleftrightarrow> now < u"
| "spares mid u (MxRelease clk inst mid') \<longleftrightarrow> mid' \<noteq> mid"
| "spares mid u (MxRenew now inst mid' ttl) \<longleftrightarrow> mid' \<noteq> mid"
| "spares mid u (MxJanitor locked now clks isoText limit) \<longleftrightarrow> now \<le> u"

lemma acquire_held:
  assumes "mutex_wf t" and "m \<in> set t" and "live m" and "lease_expires_at m = Some u" and "now < u" and "same_slot inst repo pr m"
    and "acquirePrReviewMutex g now newId inst repo pr holder ttl t = Inr (r, t')"
  shows "\<not> acquired r \<and> ar_holderWorkflowId r = Some (holder_workflow_id m) \<and> t' = t"
  using assms(7) first_live_slot [OF assms(1,2,6,3)] assms(4,5)
  by (auto simp: acquirePrReviewMutex_def Let_def lease_valid_def split: if_splits)

lemma acquire_keeps:
  assumes "mutex_wf t" and "m \<in> set t" and "live m" and "lease_expires_at m = Some u" and "now < u"
    and "acquirePrReviewMutex g now newId inst repo pr holder ttl t = Inr (r, t')"
  shows "m \<in> set t'"
proof (cases "same_slot inst repo pr m")
  case True
  then show ?thesis using acquire_held [OF assms(1-5) _ assms(6)] assms(2) by simp
next
  case False
  have "m \<in> set (upd_where (\<lambda>x. mx_installation_id x = inst \<and> mutex_id x = mutex_id m' \<and> live x) (release_set now) t)"
    if "first_row (filter (\<lambda>m. same_slot inst repo pr m \<and> live m) t) = Some m'" for m'
  proof -
    have "m' \<in> set t" "same_slot inst repo pr m'" using first_row_Some [OF that] by auto
    then have "mutex_id m \<noteq> mutex_id m'"
      using False assms(1,2) distinct_key_unique [of mutex_id t m m'] by (auto simp: mutex_wf_def)
    then show ?thesis using upd_where_mem [OF assms(2)] by (metis (mono_tags, lifting))
  qed
  then show ?thesis using assms(2,6)
    by (auto simp: acquirePrReviewMutex_def Let_def insert_mutex_def split: if_splits option.splits sum.splits)
qed

lemma mx_exec_keeps:
  assumes "mx_inv db" and "m \<in> set (pr_review_mutex db)" and "live m" and "lease_expires_at m = Some u" and "spares (mutex_id m) u op"
  shows "m \<in> set (pr_review_mutex (mx_exec op db))"
proof (cases op)
  case (MxAcquire g now newId inst repo pr holder ttl)
  then show ?thesis using assms acquire_keeps [of "pr_review_mutex db" m u now] by (auto simp: mx_inv_def split: sum.splits)
next
  case (MxRelease clk inst mid')
  then show ?thesis using assms upd_where_mem [OF assms(2), of "\<lambda>x. mx_installation_id x = inst \<and> mutex_id x = mid' \<and> live x"]
    by (simp add: releasePrReviewMutex_def)
next
  case (MxRenew now inst mid' ttl)
  then show ?thesis using assms upd_where_mem [OF assms(2), of "\<lambda>x. mx_installation_id x = inst \<and> mutex_id x = mid' \<and> live x"]
    by (simp add: renewPrReviewMutexLease_def Let_def)
next
  case (MxJanitor locked now clks isoText limit)
  have ok: "commit_ok db" and dist: "distinct (map mutex_id (pr_review_mutex db))" using assms(1) by (auto simp: mx_inv_def mutex_wf_def)
  have "mutex_id m \<notin> mutex_id ` set (sweep_batch locked now limit (pr_review_mutex db))"
  proof
    assume "mutex_id m \<in> mutex_id ` set (sweep_batch locked now limit (pr_review_mutex db))"
    then obtain x where "x \<in> set (pr_review_mutex db)" "sweepable now x" "mutex_id x = mutex_id m"
      by (auto simp: sweep_batch_def dest!: in_set_takeD)
    then have "sweepable now m" using distinct_key_unique [OF dist _ assms(2)] by auto
    then show False using assms(4,5) MxJanitor by (simp add: sweepable_def)
  qed
  moreover from janitor_result [OF ok, of locked now clks isoText limit] obtain ts aus where
    "mx_exec op db = db\<lparr>pr_review_mutex := swept (sweep_batch locked now limit (pr_review_mutex db)) ts (pr_review_mutex db),
          audit_events := audit_events db @ aus\<rparr>" using MxJanitor by auto
  ultimately show ?thesis using assms(2) by (force simp: swept_def)
qed

lemma fold_keeps:
  "mx_inv db \<Longrightarrow> m \<in> set (pr_review_mutex db) \<Longrightarrow> live m \<Longrightarrow> lease_expires_at m = Some u \<Longrightarrow> \<forall>op\<in>set ops. spares (mutex_id m) u op
    \<Longrightarrow> m \<in> set (pr_review_mutex (fold mx_exec ops db))"
  by (induction ops arbitrary: db) (auto intro: mx_exec_inv mx_exec_keeps)

section \<open>Properties\<close>

definition demo_mutex :: pr_mutex where
  "demo_mutex = \<lparr>mutex_id = ''m1'', mx_installation_id = ''i1'', mx_repository_id = ''repo'', mx_pr_number = 3,
     holder_workflow_id = ''h1'', acquired_at = 0, released_at = None, lease_expires_at = Some 1000\<rparr>"

definition demo_mx :: review_db where
  "demo_mx = \<lparr>reviews = [], repositories = [], review_runs = [], review_jobs = [], pr_review_mutex = [demo_mutex],
     workflow_events = [], audit_events = []\<rparr>"

lemma demo_mx_inv: "mx_inv demo_mx"
  by (auto simp: mx_inv_def mutex_wf_def commit_ok_def demo_mx_def demo_mutex_def)

text \<open>At most one live mutex per pull request, at all times: along every interleaving of acquires,
  renewals, releases and janitor sweeps, by any number of workers and with any clock readings, ids
  are unique, every live row has a lease, and no pull request has two live rows.\<close>

theorem mutex_history_invariant:
  assumes "mutex_wf (pr_review_mutex db)" and "commit_ok db"
  shows "mutex_wf (pr_review_mutex (fold mx_exec ops db))"
  using mx.fold_inv [of db ops] assms by (simp add: mx_inv_def)

theorem mutex_history_invariant_witness:
  "mutex_wf (pr_review_mutex (fold mx_exec [MxAcquire True 2000 ''m2'' ''i1'' ''repo'' 3 ''h2'' 60] demo_mx))"
  by (rule mutex_history_invariant) (use demo_mx_inv in \<open>simp_all add: mx_inv_def\<close>)

text \<open>A lease cannot be stolen while it runs. As long as nobody releases or renews the mutex itself
  and the database's clock stays before the end of its lease, whatever else happens the row stays as it
  is, and every attempt to acquire the same pull request is refused and told the holder.\<close>

theorem mutex_lease_exclusive:
  assumes "mutex_wf (pr_review_mutex db)" and "commit_ok db" and "m \<in> set (pr_review_mutex db)" and "live m"
    and "lease_expires_at m = Some u" and "\<forall>op\<in>set ops. spares (mutex_id m) u op" and "now < u" and "0 < mx_pr_number m"
  shows "\<exists>r. acquirePrReviewMutex g now newId (mx_installation_id m) (mx_repository_id m) (mx_pr_number m) holder ttl
      (pr_review_mutex (fold mx_exec ops db)) = Inr (r, pr_review_mutex (fold mx_exec ops db))
    \<and> \<not> acquired r \<and> ar_holderWorkflowId r = Some (holder_workflow_id m) \<and> m \<in> set (pr_review_mutex (fold mx_exec ops db))"
proof -
  let ?t = "pr_review_mutex (fold mx_exec ops db)"
  have inv: "mx_inv db" using assms(1,2) by (simp add: mx_inv_def)
  have mem: "m \<in> set ?t" using fold_keeps [OF inv assms(3-6)] .
  have wf: "mutex_wf ?t" using mx.fold_inv [OF inv] by (simp add: mx_inv_def)
  have "first_row (filter (\<lambda>x. same_slot (mx_installation_id m) (mx_repository_id m) (mx_pr_number m) x \<and> live x) ?t) = Some m"
    using wf mem assms(4) by (intro first_live_slot) (auto simp: same_slot_def)
  then show ?thesis using assms(5,7,8) mem by (auto simp: acquirePrReviewMutex_def Let_def lease_valid_def)
qed

theorem mutex_lease_exclusive_witness:
  "\<exists>r. acquirePrReviewMutex True 900 ''m2'' ''i1'' ''repo'' 3 ''h2'' 60
      (pr_review_mutex (fold mx_exec [MxJanitor (\<lambda>_. False) 950 (\<lambda>_. 1) (\<lambda>_. ''t'') 500] demo_mx))
    = Inr (r, pr_review_mutex (fold mx_exec [MxJanitor (\<lambda>_. False) 950 (\<lambda>_. 1) (\<lambda>_. ''t'') 500] demo_mx)) \<and> \<not> acquired r"
proof -
  have "m = demo_mutex \<Longrightarrow> mx_installation_id m = ''i1'' \<and> mx_repository_id m = ''repo'' \<and> mx_pr_number m = 3 \<and> mutex_id m = ''m1''" for m
    by (simp add: demo_mutex_def)
  then show ?thesis
    using mutex_lease_exclusive [of demo_mx demo_mutex 1000 "[MxJanitor (\<lambda>_. False) 950 (\<lambda>_. 1) (\<lambda>_. ''t'') 500]" 900 True "''m2''" "''h2''" 60]
      demo_mx_inv by (auto simp: mx_inv_def demo_mx_def live_def demo_mutex_def simp del: fold_simps mx_exec.simps)
qed

text \<open>What acquiring does, on every branch, with the advisory lock and a fresh id: it is refused
  exactly when the pull request has a live row with a running lease; otherwise it succeeds, never by
  way of the unique index failing, the new row is the only live one of the pull request, and a row
  whose lease had run out is kept as released.\<close>

theorem acquirePrReviewMutex_correct:
  assumes "mutex_wf t" and "0 < pr" and "newId \<notin> mutex_id ` set t"
  shows "if \<exists>m\<in>set t. same_slot inst repo pr m \<and> live m \<and> lease_valid now m
    then \<exists>r. acquirePrReviewMutex True now newId inst repo pr holder ttl t = Inr (r, t) \<and> \<not> acquired r
    else \<exists>t'. acquirePrReviewMutex True now newId inst repo pr holder ttl t
             = Inr (\<lparr>acquired = True, ar_mutexId = Some newId, ar_holderWorkflowId = Some holder\<rparr>, t')
         \<and> map mutex_id t' = map mutex_id t @ [newId]
         \<and> (\<forall>m\<in>set t'. same_slot inst repo pr m \<and> live m \<longleftrightarrow> mutex_id m = newId)"
proof -
  let ?p = "\<lambda>m. same_slot inst repo pr m \<and> live m"
  let ?m = "\<lparr>mutex_id = newId, mx_installation_id = inst, mx_repository_id = repo, mx_pr_number = pr, holder_workflow_id = holder,
      acquired_at = now, released_at = None, lease_expires_at = Some (now + ttl * 1000000)\<rparr>"
  have ins: "insert_mutex ?m t1 = Inr (t1 @ [?m])" if "\<forall>m\<in>set t1. \<not> ?p m" "mutex_id ` set t1 = mutex_id ` set t" for t1
    using that assms(2,3) by (auto simp: insert_mutex_def list_ex_iff live_def)
  show ?thesis
  proof (cases "\<exists>m\<in>set t. ?p m")
    case False
    then have "first_row (filter ?p t) = None" by (auto simp: filter_empty_conv)
    then show ?thesis using ins [of t] False assms(2,3)
      by (auto simp: acquirePrReviewMutex_def Let_def live_def same_slot_def)
  next
    case True
    then obtain m where m: "m \<in> set t" "same_slot inst repo pr m" "live m" by blast
    have row: "first_row (filter ?p t) = Some m" using assms(1) m by (intro first_live_slot)
    have uniq: "x = m" if "x \<in> set t" "?p x" for x using live_slot_unique [OF assms(1) that(1) m(1)] that(2) m by blast
    show ?thesis
    proof (cases "lease_valid now m")
      case True
      then show ?thesis using m row assms(2) by (auto simp: acquirePrReviewMutex_def Let_def)
    next
      case False
      let ?t1 = "upd_where (\<lambda>x. mx_installation_id x = inst \<and> mutex_id x = mutex_id m \<and> live x) (release_set now) t"
      have ids: "map mutex_id ?t1 = map mutex_id t" by (simp add: map_key_upd_where)
      then have "mutex_id ` set ?t1 = mutex_id ` set t" by (metis set_map)
      moreover have free: "\<forall>x\<in>set ?t1. \<not> ?p x"
      proof
        fix x assume "x \<in> set ?t1"
        then obtain r where r: "r \<in> set t" "x = (if mx_installation_id r = inst \<and> mutex_id r = mutex_id m \<and> live r then release_set now r else r)"
          by (auto simp: upd_where_def)
        show "\<not> ?p x"
        proof
          assume px: "?p x"
          then have "x = r" using r(2) by (auto split: if_splits)
          then have "r = m" using uniq r(1) px by blast
          then show False using r(2) px m by (auto simp: same_slot_def)
        qed
      qed
      ultimately have acq: "acquirePrReviewMutex True now newId inst repo pr holder ttl t
          = Inr (\<lparr>acquired = True, ar_mutexId = Some newId, ar_holderWorkflowId = Some holder\<rparr>, ?t1 @ [?m])"
        using ins [of ?t1] row False assms(2) by (simp add: acquirePrReviewMutex_def Let_def)
      have "newId \<notin> mutex_id ` set ?t1" using assms(3) ids by (metis set_map)
      then have "\<forall>x\<in>set ?t1. ?p x \<longleftrightarrow> mutex_id x = newId" using free by blast
      then have live1: "\<forall>x\<in>set (?t1 @ [?m]). ?p x \<longleftrightarrow> mutex_id x = newId"
        by (simp add: ball_Un) (simp add: live_def same_slot_def)
      have "\<not> (\<exists>x\<in>set t. same_slot inst repo pr x \<and> live x \<and> lease_valid now x)" using uniq False by blast
      then show ?thesis unfolding acq using ids live1 by simp
    qed
  qed
qed

theorem acquirePrReviewMutex_correct_witness:
  "\<exists>t'. acquirePrReviewMutex True 2000 ''m2'' ''i1'' ''repo'' 3 ''h2'' 60 [demo_mutex]
     = Inr (\<lparr>acquired = True, ar_mutexId = Some ''m2'', ar_holderWorkflowId = Some ''h2''\<rparr>, t')"
proof -
  have "mutex_wf [demo_mutex]" using demo_mx_inv by (simp add: mx_inv_def demo_mx_def)
  then show ?thesis
    using acquirePrReviewMutex_correct [of "[demo_mutex]" 3 "''m2''" "''i1''" "''repo''" 2000 "''h2''" 60]
    by (auto simp: demo_mutex_def lease_valid_def)
qed

text \<open>The advisory keys fit the database's signed 32-bit arguments: whatever the hash, both keys are
  non-negative as signed words.\<close>

theorem advisoryKeys_non_negative:
  "0 \<le> sint (fst (advisoryKeys digest inst repo pr)) \<and> 0 \<le> sint (snd (advisoryKeys digest inst repo pr))"
proof -
  have "0 \<le> sint (w AND 0x7FFFFFFF)" for w :: "32 word"
  proof -
    have "\<not> bit (w AND 0x7FFFFFFF) 31" by (simp add: bit_and_iff bit_iff_odd_drop_bit)
    then show ?thesis by (simp add: sint_uint signed_take_bit_nonnegative_iff bit_uint_iff)
  qed
  then show ?thesis by (simp add: advisoryKeys_def Let_def)
qed

end
