(* ===== verification/Review_Jobs.thy ===== *)
theory Review_Jobs
  imports Run_Lifecycle Pr_Mutex
begin

text \<open>
  \<^verbatim>\<open>runner/review_jobs_repo.ts\<close>: the repository over \<^verbatim>\<open>core.review_jobs\<close>. The single-statement methods are functions
  on the table of jobs, on which the contract \<open>lease_queue\<close> is interpreted a second time; \<^verbatim>\<open>terminalSettle\<close> and
  \<^verbatim>\<open>reapStuckRuns\<close> are transactions over jobs, runs, mutexes and the audit trail.
\<close>

section \<open>Enqueue and verification\<close>

record rj_enqueue_args =
  e_runId :: uuid
  e_reviewId :: uuid
  e_installationId :: uuid
  e_payload :: "rat js"
  e_deliveryId :: "string option"
  e_priority :: "int option"
  e_maxAttempts :: "int option"

datatype rj_error =
    RjInvalidPayload
  | RjPayloadIntegrity uuid "string list"
  | RjHashMismatch uuid
  | RjActiveRunConflict uuid
  | RjCheckViolation
  | RjFkViolation
  | RjPkViolation

definition JOB_PAYLOAD_SCHEMA_VERSION :: int where
  "JOB_PAYLOAD_SCHEMA_VERSION = 1"

definition REAP_STUCK_RUNS_SWEEP_LIMIT :: nat where
  "REAP_STUCK_RUNS_SWEEP_LIMIT = 500"

text \<open>The columns on which payload and envelope, or payload and stored row, disagree.\<close>

definition assertPayloadIdentityMatchesEnvelope :: "review_payload \<Rightarrow> rj_enqueue_args \<Rightarrow> string list" where
  "assertPayloadIdentityMatchesEnvelope p a =
     (if p_run_id p \<noteq> e_runId a then [''run_id''] else []) @
     (if p_review_id p \<noteq> e_reviewId a then [''review_id''] else []) @
     (if p_installation_id p \<noteq> e_installationId a then [''installation_id''] else []) @
     (if e_deliveryId a \<noteq> None \<and> Some (p_delivery_id p) \<noteq> e_deliveryId a then [''delivery_id''] else [])"

definition assertPayloadIdentityMatchesJobRow :: "review_payload \<Rightarrow> review_job \<Rightarrow> string list" where
  "assertPayloadIdentityMatchesJobRow p job =
     (let expected = (case delivery_id job of None \<Rightarrow> p_delivery_id p | Some d \<Rightarrow> d)
      in (if p_run_id p \<noteq> job_run_id job then [''run_id''] else []) @
         (if p_review_id p \<noteq> job_review_id job then [''review_id''] else []) @
         (if p_installation_id p \<noteq> job_installation_id job then [''installation_id''] else []) @
         (if p_delivery_id p \<noteq> expected then [''delivery_id''] else []))"

definition rj_new_row :: "rat js \<Rightarrow> string \<Rightarrow> rj_enqueue_args \<Rightarrow> uuid \<Rightarrow> db_time \<Rightarrow> review_job" where
  "rj_new_row pl sha a jid now =
     \<lparr>job_id = jid, state = Ready, priority = (case e_priority a of None \<Rightarrow> 0 | Some p \<Rightarrow> p), run_after = now,
      lease_owner = None, attempt_token = None, leased_until = None, timeout_at = None, heartbeat_at = None,
      attempts = 0, max_attempts = nat (case e_maxAttempts a of None \<Rightarrow> 3 | Some m \<Rightarrow> m),
      finished_at = None, dead_reason = None, last_error = None, created_at = now, payload_sha256 = sha,
      job_run_id = e_runId a, job_review_id = e_reviewId a, job_installation_id = e_installationId a,
      delivery_id = e_deliveryId a, started_at = None, cancel_reason = None,
      job_payload_schema_version = JOB_PAYLOAD_SCHEMA_VERSION, job_payload = pl, job_mutex_id = None\<rparr>"

definition holds_run :: "uuid \<Rightarrow> review_job \<Rightarrow> bool" where
  "holds_run rid j \<longleftrightarrow> job_run_id j = rid \<and> active j"

text \<open>The INSERT: CHECK constraints, primary key, the partial unique index \<^verbatim>\<open>uq_review_jobs_active_run\<close> and the
  foreign key to the run.\<close>

definition rj_insert ::
  "uuid list \<Rightarrow> rat js \<Rightarrow> string \<Rightarrow> rj_enqueue_args \<Rightarrow> uuid \<Rightarrow> db_time \<Rightarrow> review_job list \<Rightarrow> rj_error + review_job list" where
  "rj_insert runs pl sha a jid now t =
     (if (case e_priority a of None \<Rightarrow> 0 | Some p \<Rightarrow> p) < 0 \<or> (case e_maxAttempts a of None \<Rightarrow> 3 | Some m \<Rightarrow> m) < 1
         \<or> \<not> is_sha256_hex sha then Inl RjCheckViolation
      else if jid \<in> job_id ` set t then Inl RjPkViolation
      else if list_ex (holds_run (e_runId a)) t then Inl (RjActiveRunConflict (e_runId a))
      else if e_runId a \<notin> set runs then Inl RjFkViolation
      else Inr (t @ [rj_new_row pl sha a jid now]))"

text \<open>\<open>env\<close> is what other connections do between the INSERT and the SELECT.\<close>

definition rj_enqueue ::
  "rat codec \<Rightarrow> zod \<Rightarrow> uuid list \<Rightarrow> uuid \<Rightarrow> db_time \<Rightarrow> (review_job list \<Rightarrow> review_job list) \<Rightarrow> rj_enqueue_args \<Rightarrow> review_job list
     \<Rightarrow> (rj_error + uuid) \<times> review_job list" where
  "rj_enqueue cd z runs jid now env a t =
     (case ReviewPullRequestPayloadV1 z (e_payload a) of
        None \<Rightarrow> (Inl RjInvalidPayload, t)
      | Some payload \<Rightarrow>
          if assertPayloadIdentityMatchesEnvelope payload a \<noteq> []
          then (Inl (RjPayloadIntegrity (e_runId a) (assertPayloadIdentityMatchesEnvelope payload a)), t)
          else
            (let canonical = canonicalJson (num_text cd) (payload_json payload); sha = sha256hex cd canonical
             in case rj_insert runs (db_json cd canonical) sha a jid now t of
                  Inr t' \<Rightarrow> (Inr jid, t')
                | Inl (RjActiveRunConflict rid) \<Rightarrow>
                    (let t1 = env t
                     in case first_row (filter (\<lambda>j. holds_run (e_runId a) j \<and> job_installation_id j = e_installationId a) t1) of
                          None \<Rightarrow> (Inl (RjActiveRunConflict rid), t1)
                        | Some j \<Rightarrow> (Inr (job_id j), t1))
                | Inl e \<Rightarrow> (Inl e, t)))"

definition rj_verifyPayload :: "rat codec \<Rightarrow> zod \<Rightarrow> review_job \<Rightarrow> rj_error + review_payload" where
  "rj_verifyPayload cd z job =
     (case ReviewPullRequestPayloadV1 z (job_payload job) of
        None \<Rightarrow> Inl RjInvalidPayload
      | Some payload \<Rightarrow>
          if sha256hex cd (canonicalJson (num_text cd) (payload_json payload)) \<noteq> payload_sha256 job
          then Inl (RjHashMismatch (job_id job))
          else if assertPayloadIdentityMatchesJobRow payload job \<noteq> []
          then Inl (RjPayloadIntegrity (job_id job) (assertPayloadIdentityMatchesJobRow payload job))
          else Inr payload)"

definition rj_getById :: "uuid \<Rightarrow> review_job list \<Rightarrow> review_job option" where
  "rj_getById jid t = first_row (filter (\<lambda>r. job_id r = jid) t)"

section \<open>Claim, heartbeat and the fenced single statements\<close>

definition rj_claim_set :: "db_time \<Rightarrow> uuid \<Rightarrow> string \<Rightarrow> int \<Rightarrow> int \<Rightarrow> review_job \<Rightarrow> review_job" where
  "rj_claim_set now tok owner leaseMs maxRuntimeMs r =
     r\<lparr>state := Leased, lease_owner := Some owner, attempt_token := Some tok,
       leased_until := Some (now + leaseMs * 1000), timeout_at := Some (now + maxRuntimeMs * 1000), heartbeat_at := Some now,
       started_at := (case started_at r of None \<Rightarrow> Some now | Some s \<Rightarrow> Some s), attempts := attempts r + 1\<rparr>"

definition rj_claim ::
  "(uuid \<Rightarrow> bool) \<Rightarrow> db_time \<Rightarrow> uuid \<Rightarrow> string \<Rightarrow> int \<Rightarrow> int \<Rightarrow> review_job list \<Rightarrow> review_job option \<times> review_job list" where
  "rj_claim locked now tok owner leaseMs maxRuntimeMs t =
     (case pick_claim locked now t of
        None \<Rightarrow> (None, t)
      | Some c \<Rightarrow>
          (let p = (\<lambda>r. job_id r = job_id c); f = rj_claim_set now tok owner leaseMs maxRuntimeMs
           in (first_row (returning p f t), upd_where p f t)))"

definition rj_heartbeat :: "db_time \<Rightarrow> uuid \<Rightarrow> string \<Rightarrow> uuid \<Rightarrow> int \<Rightarrow> review_job list \<Rightarrow> bool \<times> review_job list" where
  "rj_heartbeat now jid owner tok leaseMs t =
     (let p = (\<lambda>r. fenced jid owner tok r \<and> (case timeout_at r of None \<Rightarrow> True | Some d \<Rightarrow> now < d))
      in (hits p t = 1, upd_where p (\<lambda>r. r\<lparr>leased_until := Some (now + leaseMs * 1000), heartbeat_at := Some now\<rparr>) t))"

definition rj_markDone :: "db_time \<Rightarrow> uuid \<Rightarrow> string \<Rightarrow> uuid \<Rightarrow> review_job list \<Rightarrow> bool \<times> review_job list" where
  "rj_markDone now jid owner tok t =
     (hits (fenced jid owner tok) t = 1,
      upd_where (fenced jid owner tok) (\<lambda>r. clear_lease (r\<lparr>state := Done, finished_at := Some now\<rparr>)) t)"

definition rj_cancel_set :: "db_time \<Rightarrow> string \<Rightarrow> review_job \<Rightarrow> review_job" where
  "rj_cancel_set now reason r =
     clear_lease (r\<lparr>state := Cancelled, cancel_reason := Some (left_text 2000 reason), finished_at := Some now\<rparr>)"

definition rj_dead_set :: "db_time \<Rightarrow> string \<Rightarrow> review_job \<Rightarrow> review_job" where
  "rj_dead_set now reason r =
     clear_lease (r\<lparr>state := Dead, dead_reason := Some (left_text 2000 reason), finished_at := Some now\<rparr>)"

definition rj_markCancelled :: "db_time \<Rightarrow> uuid \<Rightarrow> string \<Rightarrow> uuid \<Rightarrow> string \<Rightarrow> review_job list \<Rightarrow> bool \<times> review_job list" where
  "rj_markCancelled now jid owner tok reason t =
     (hits (fenced jid owner tok) t = 1, upd_where (fenced jid owner tok) (rj_cancel_set now reason) t)"

definition rj_persistMutexId :: "uuid \<Rightarrow> string \<Rightarrow> uuid \<Rightarrow> uuid \<Rightarrow> review_job list \<Rightarrow> bool \<times> review_job list" where
  "rj_persistMutexId jid owner tok mid t =
     (hits (fenced jid owner tok) t = 1, upd_where (fenced jid owner tok) (\<lambda>r. r\<lparr>job_mutex_id := Some mid\<rparr>) t)"

definition readMutexRow :: "uuid \<Rightarrow> pr_mutex list \<Rightarrow> pr_mutex option" where
  "readMutexRow mid t = first_row (filter (\<lambda>m. mutex_id m = mid) t)"

definition rj_fail_set :: "db_time \<Rightarrow> string \<Rightarrow> int \<Rightarrow> rat \<Rightarrow> review_job \<Rightarrow> review_job" where
  "rj_fail_set now err baseMs rnd r =
     clear_lease (r\<lparr>last_error := Some (left_text 2000 err),
       state := (if max_attempts r \<le> attempts r then Dead else Ready),
       dead_reason := (if max_attempts r \<le> attempts r then Some (left_text 2000 err) else dead_reason r),
       finished_at := (if max_attempts r \<le> attempts r then Some now else finished_at r),
       run_after := now + backoff_us baseMs (attempts r) rnd\<rparr>)"

definition rj_markFailed ::
  "db_time \<Rightarrow> rat \<Rightarrow> uuid \<Rightarrow> string \<Rightarrow> uuid \<Rightarrow> string \<Rightarrow> int \<Rightarrow> review_job list \<Rightarrow> (bool \<times> bool) \<times> review_job list" where
  "rj_markFailed now rnd jid owner tok err baseMs t =
     (let rows = returning (fenced jid owner tok) (rj_fail_set now err baseMs rnd) t
      in ((length rows = 1, (case first_row rows of None \<Rightarrow> False | Some r \<Rightarrow> state r = Dead)),
          upd_where (fenced jid owner tok) (rj_fail_set now err baseMs rnd) t))"

definition rj_deferRetry :: "uuid \<Rightarrow> string \<Rightarrow> uuid \<Rightarrow> string \<Rightarrow> js_date \<Rightarrow> review_job list \<Rightarrow> bool \<times> review_job list" where
  "rj_deferRetry jid owner tok err runAfter t =
     (hits (fenced jid owner tok) t = 1,
      upd_where (fenced jid owner tok)
        (\<lambda>r. clear_lease (r\<lparr>last_error := Some (left_text 2000 err), state := Ready, attempts := attempts r - 1,
           run_after := of_date runAfter\<rparr>)) t)"

section \<open>Settling a job and its run together\<close>

datatype terminal_job = JobCancelled | JobDead
datatype terminal_run = RunCancelled | RunFailed

definition settle_job :: "terminal_job \<Rightarrow> db_time \<Rightarrow> string \<Rightarrow> review_job \<Rightarrow> review_job" where
  "settle_job js now reason = (case js of JobCancelled \<Rightarrow> rj_cancel_set now reason | JobDead \<Rightarrow> rj_dead_set now reason)"

definition settle_run :: "terminal_run \<Rightarrow> db_time \<Rightarrow> string \<Rightarrow> review_run \<Rightarrow> review_run" where
  "settle_run rs now reason r =
     (case rs of
        RunCancelled \<Rightarrow> r\<lparr>lifecycle_state := ''CANCELLED'', cancelled_at := Some now, run_cancel_reason := Some reason\<rparr>
      | RunFailed \<Rightarrow> r\<lparr>lifecycle_state := ''FAILED'', failed_at := Some now\<rparr>)"

text \<open>\<open>runReason\<close> is \<^verbatim>\<open>runCancelReason ?? "operator_cancelled"\<close>.\<close>

definition settle_tx ::
  "db_time \<Rightarrow> uuid \<Rightarrow> string \<Rightarrow> uuid \<Rightarrow> uuid \<Rightarrow> terminal_job \<Rightarrow> terminal_run \<Rightarrow> string \<Rightarrow> string \<Rightarrow> review_db
     \<Rightarrow> review_error + bool \<times> review_db" where
  "settle_tx now jid owner tok runId js rs reason runReason db =
     (let db1 = db\<lparr>review_jobs := upd_where (fenced jid owner tok) (settle_job js now reason) (review_jobs db)\<rparr>
      in if hits (fenced jid owner tok) (review_jobs db) \<noteq> 1 then Inr (False, db1)
         else (case update_runs (\<lambda>r. run_id r = runId) (settle_run rs now runReason) db1 of
                 Inl e \<Rightarrow> Inl e | Inr db2 \<Rightarrow> Inr (True, db2)))"

definition rj_terminalSettle ::
  "db_time \<Rightarrow> uuid \<Rightarrow> string \<Rightarrow> uuid \<Rightarrow> uuid \<Rightarrow> terminal_job \<Rightarrow> terminal_run \<Rightarrow> string \<Rightarrow> string \<Rightarrow> review_db
     \<Rightarrow> (review_error + bool) \<times> review_db" where
  "rj_terminalSettle now jid owner tok runId js rs reason runReason =
     transact (settle_tx now jid owner tok runId js rs reason runReason)"

section \<open>The reaper of stuck jobs\<close>

definition leased_key :: "review_job \<Rightarrow> int" where
  "leased_key j = (case leased_until j of None \<Rightarrow> 0 | Some u \<Rightarrow> u)"

definition stuck_batch :: "(uuid \<Rightarrow> bool) \<Rightarrow> db_time \<Rightarrow> nat \<Rightarrow> review_job list \<Rightarrow> review_job list" where
  "stuck_batch locked now limit t =
     take limit (filter (\<lambda>j. \<not> locked (job_id j)) (order_by leased_key (filter (reapable now) t)))"

definition reap_job_set :: "db_time \<Rightarrow> review_job \<Rightarrow> review_job" where
  "reap_job_set now r =
     clear_lease (r\<lparr>state := Dead,
       dead_reason := (case dead_reason r of None \<Rightarrow> Some ''lease expired with attempts exhausted (stuck run)'' | Some d \<Rightarrow> Some d),
       finished_at := Some now\<rparr>)"

text \<open>One row of the RETURNING joined with the run's review and repository: run, mutex, tenant.\<close>

definition stuck_rows :: "review_job list \<Rightarrow> review_db \<Rightarrow> (uuid \<times> uuid option \<times> uuid option) list" where
  "stuck_rows js db =
     concat (map (\<lambda>j. concat (map (\<lambda>r. map (\<lambda>iid. (run_id r, job_mutex_id j, iid)) (review_tenants db (rr_review_id r)))
                    (filter (\<lambda>r. run_id r = job_run_id j) (review_runs db)))) js)"

fun reap_stuck_rows ::
  "db_time \<Rightarrow> js_date \<Rightarrow> (uuid \<times> uuid option \<times> uuid option) list \<Rightarrow> review_db \<Rightarrow> review_error + review_db" where
  "reap_stuck_rows now clk [] db = Inr db"
| "reap_stuck_rows now clk ((rid, mid, iid) # rows) db =
     (case update_runs (\<lambda>r. run_id r = rid) (reap_set now) db of
        Inl e \<Rightarrow> Inl e
      | Inr db1 \<Rightarrow>
          (let db2 = (case mid of None \<Rightarrow> db1 | Some m \<Rightarrow> release_mutexes now (\<lambda>x. mutex_id x = m) db1)
           in case reaped_audit clk iid rid db2 of
                Inl e \<Rightarrow> Inl e
              | Inr db3 \<Rightarrow> reap_stuck_rows now clk rows db3))"

definition reap_stuck_tx ::
  "(uuid \<Rightarrow> bool) \<Rightarrow> db_time \<Rightarrow> js_date \<Rightarrow> nat \<Rightarrow> review_db \<Rightarrow> review_error + nat \<times> review_db" where
  "reap_stuck_tx locked now clk limit db =
     (let batch = job_id ` set (stuck_batch locked now limit (review_jobs db));
          rows = stuck_rows (filter (\<lambda>j. job_id j \<in> batch) (review_jobs db)) db;
          db1 = db\<lparr>review_jobs := upd_where (\<lambda>j. job_id j \<in> batch) (reap_job_set now) (review_jobs db)\<rparr>
      in case reap_stuck_rows now clk rows db1 of
           Inl e \<Rightarrow> Inl e | Inr db2 \<Rightarrow> Inr (length rows, db2))"

definition rj_reapStuckRuns ::
  "(uuid \<Rightarrow> bool) \<Rightarrow> db_time \<Rightarrow> js_date \<Rightarrow> nat \<Rightarrow> review_db \<Rightarrow> (review_error + nat) \<times> review_db" where
  "rj_reapStuckRuns locked now clk limit = transact (reap_stuck_tx locked now clk limit)"

section \<open>The single statements as a lease queue\<close>

datatype rj_op =
    RjInsert "uuid list" "rat js" string rj_enqueue_args uuid db_time
  | RjClaim "uuid \<Rightarrow> bool" db_time uuid string int int
  | RjBeat db_time uuid string uuid int
  | RjDone db_time uuid string uuid
  | RjCancel db_time uuid string uuid string
  | RjMutex uuid string uuid uuid
  | RjFail db_time rat uuid string uuid string int
  | RjDefer uuid string uuid string js_date
  | RjSettle db_time uuid string uuid terminal_job string
  | RjReap "uuid \<Rightarrow> bool" db_time nat

text \<open>\<open>RjSettle\<close> and \<open>RjReap\<close> are what the two transactions do to the table of jobs when they commit.\<close>

fun rj_exec :: "rj_op \<Rightarrow> review_job list \<Rightarrow> review_job list" where
  "rj_exec (RjInsert runs pl sha a jid now) t = (case rj_insert runs pl sha a jid now t of Inl _ \<Rightarrow> t | Inr t' \<Rightarrow> t')"
| "rj_exec (RjClaim locked now tok owner l m) t = snd (rj_claim locked now tok owner l m t)"
| "rj_exec (RjBeat now jid owner tok l) t = snd (rj_heartbeat now jid owner tok l t)"
| "rj_exec (RjDone now jid owner tok) t = snd (rj_markDone now jid owner tok t)"
| "rj_exec (RjCancel now jid owner tok reason) t = snd (rj_markCancelled now jid owner tok reason t)"
| "rj_exec (RjMutex jid owner tok mid) t = snd (rj_persistMutexId jid owner tok mid t)"
| "rj_exec (RjFail now rnd jid owner tok err b) t = snd (rj_markFailed now rnd jid owner tok err b t)"
| "rj_exec (RjDefer jid owner tok err d) t = snd (rj_deferRetry jid owner tok err d t)"
| "rj_exec (RjSettle now jid owner tok js reason) t = upd_where (fenced jid owner tok) (settle_job js now reason) t"
| "rj_exec (RjReap locked now limit) t = upd_where (\<lambda>j. job_id j \<in> job_id ` set (stuck_batch locked now limit t)) (reap_job_set now) t"

fun rj_presents :: "rj_op \<Rightarrow> uuid option" where
  "rj_presents (RjBeat now jid owner tok l) = Some tok"
| "rj_presents (RjDone now jid owner tok) = Some tok"
| "rj_presents (RjCancel now jid owner tok reason) = Some tok"
| "rj_presents (RjMutex jid owner tok mid) = Some tok"
| "rj_presents (RjFail now rnd jid owner tok err b) = Some tok"
| "rj_presents (RjDefer jid owner tok err d) = Some tok"
| "rj_presents (RjSettle now jid owner tok js reason) = Some tok"
| "rj_presents _ = None"

fun rj_mints :: "rj_op \<Rightarrow> uuid option" where
  "rj_mints (RjClaim locked now tok owner l m) = Some tok"
| "rj_mints _ = None"

lemmas rj_settle_defs = rj_cancel_set_def rj_dead_set_def settle_job_def

lemma rj_new_row_newborn:
  "1 \<le> (case e_maxAttempts a of None \<Rightarrow> 3 | Some m \<Rightarrow> m) \<Longrightarrow> newborn (rj_new_row pl sha a jid now)"
  by (auto simp: newborn_def job_wf_def terminal_def rj_new_row_def split: option.splits)

lemma rj_insert_Inr:
  assumes "rj_insert runs pl sha a jid now t = Inr t'"
  shows "t' = t @ [rj_new_row pl sha a jid now]" and "jid \<notin> job_id ` set t" and "newborn (rj_new_row pl sha a jid now)"
    and "\<forall>j\<in>set t. \<not> holds_run (e_runId a) j"
  using assms by (auto simp: rj_insert_def list_ex_iff split: if_splits intro!: rj_new_row_newborn)

lemma rj_claim_keyed_step:
  "claimable now r \<Longrightarrow> keyed_step pres (Some tok) r (rj_claim_set now tok owner l m r)"
  by (auto simp: keyed_step_def job_wf_def terminal_def rj_claim_set_def claimable_def intro!: js_claim [of now])

lemma rj_claim_step:
  assumes "distinct (map job_id t)"
  shows "table_step pres (Some tok) t (snd (rj_claim locked now tok owner l m t))"
proof (cases "pick_claim locked now t")
  case None
  then show ?thesis by (simp add: rj_claim_def)
next
  case (Some c)
  have "keyed_step pres (Some tok) r (rj_claim_set now tok owner l m r)" if "r \<in> set t" "job_id r = job_id c" for r
    using assms pick_claim_Some [OF Some] that distinct_key_unique rj_claim_keyed_step by metis
  then show ?thesis using Some by (simp add: rj_claim_def Let_def table_step_upd_where)
qed

lemma rj_fail_keyed_step: "fenced jid owner tok r \<Longrightarrow> keyed_step (Some tok) mint r (rj_fail_set now err b rnd r)"
  by (auto simp: keyed_step_def job_wf_def terminal_def rj_fail_set_def clear_lease_def fenced_def intro: js_finish js_retry)

lemma stuck_batch_reapable:
  assumes "distinct (map job_id t)" and "j \<in> set t" and "job_id j \<in> job_id ` set (stuck_batch locked now limit t)"
  shows "reapable now j"
proof -
  from assms(3) obtain x where "x \<in> set t" "reapable now x" "job_id x = job_id j"
    by (auto simp: stuck_batch_def dest!: in_set_takeD)
  then show ?thesis using assms(1,2) by (auto dest: distinct_key_unique)
qed

lemma rj_exec_step:
  assumes "distinct (map job_id t)"
  shows "table_step (rj_presents op) (rj_mints op) t (rj_exec op t)"
proof (cases op)
  case (RjInsert runs pl sha a jid now)
  have "table_step None None t t'" if "rj_insert runs pl sha a jid now t = Inr t'" for t'
    using rj_insert_Inr(1-3) [OF that] table_step_insert [of "rj_new_row pl sha a jid now" t] by (simp add: rj_new_row_def)
  then show ?thesis using RjInsert by (auto split: sum.splits)
next
  case (RjClaim locked now tok owner l m)
  then show ?thesis using rj_claim_step [OF assms] by simp
next
  case (RjBeat now jid owner tok l)
  then show ?thesis
    by (auto simp: rj_heartbeat_def Let_def job_wf_def terminal_def fenced_def intro!: table_step_upd_where beat_keyed_step [of jid owner])
next
  case (RjDone now jid owner tok)
  then show ?thesis
    by (auto simp: rj_markDone_def intro!: table_step_upd_where settle_keyed_step [of jid owner])
       (auto simp: clear_lease_def terminal_def fenced_def job_wf_def)
next
  case (RjCancel now jid owner tok reason)
  then show ?thesis
    by (auto simp: rj_markCancelled_def rj_cancel_set_def intro!: table_step_upd_where settle_keyed_step [of jid owner])
       (auto simp: clear_lease_def terminal_def fenced_def job_wf_def)
next
  case (RjMutex jid owner tok mid)
  then show ?thesis
    by (auto simp: rj_persistMutexId_def job_wf_def terminal_def fenced_def intro!: table_step_upd_where beat_keyed_step [of jid owner])
next
  case (RjFail now rnd jid owner tok err b)
  then show ?thesis by (auto simp: rj_markFailed_def Let_def intro!: table_step_upd_where rj_fail_keyed_step)
next
  case (RjDefer jid owner tok err d)
  then show ?thesis
    by (auto simp: rj_deferRetry_def intro!: table_step_upd_where defer_keyed_step [of jid owner])
       (auto simp: clear_lease_def terminal_def fenced_def job_wf_def)
next
  case (RjSettle now jid owner tok js reason)
  then show ?thesis
    by (auto simp: rj_settle_defs split: terminal_job.splits intro!: table_step_upd_where settle_keyed_step [of jid owner])
       (auto simp: clear_lease_def terminal_def fenced_def job_wf_def)
next
  case (RjReap locked now limit)
  have "keyed_step pres mint j (reap_job_set now j)" if "reapable now j" for pres mint j
    using that by (intro reap_keyed_step [of now])
      (auto simp: reap_job_set_def clear_lease_def terminal_def reapable_def job_wf_def split: option.splits)
  then show ?thesis unfolding RjReap rj_exec.simps
    by (intro table_step_upd_where) (use stuck_batch_reapable [OF assms] in blast)
qed

lemma rj_exec_fence:
  assumes "rj_presents op = Some tok" and "\<forall>r\<in>set t. attempt_token r \<noteq> Some tok"
  shows "rj_exec op t = t"
proof -
  have "upd_where (\<lambda>r. fenced jid owner tok r \<and> q r) f t = t" for jid owner q f
    using assms(2) by (auto intro!: upd_where_id simp: fenced_def)
  then show ?thesis
    using assms by (cases op) (auto simp: rj_heartbeat_def rj_markDone_def rj_markCancelled_def rj_persistMutexId_def
        rj_markFailed_def rj_deferRetry_def Let_def fenced_token_absent)
qed

interpretation rj: lease_queue rj_exec rj_presents rj_mints
  by unfold_locales (auto intro: rj_exec_step rj_exec_fence)

section \<open>One active job per run\<close>

definition active_run_unique :: "review_job list \<Rightarrow> bool" where
  "active_run_unique t \<longleftrightarrow> (\<forall>rid. hits (holds_run rid) t \<le> 1)"

lemma active_run_unique_upd:
  assumes "active_run_unique t" and "\<And>r. r \<in> set t \<Longrightarrow> p r \<Longrightarrow> job_run_id (f r) = job_run_id r"
    and "\<And>r. r \<in> set t \<Longrightarrow> p r \<Longrightarrow> active r"
  shows "active_run_unique (upd_where p f t)"
  unfolding active_run_unique_def
proof
  fix rid
  have "hits (holds_run rid) (upd_where p f t) \<le> hits (holds_run rid) t"
    using assms(2,3) by (intro hits_upd_where_le) (auto simp: holds_run_def)
  also have "\<dots> \<le> 1" using assms(1) by (simp add: active_run_unique_def)
  finally show "hits (holds_run rid) (upd_where p f t) \<le> 1" .
qed

lemma active_run_unique_insert:
  assumes "active_run_unique t" and "rj_insert runs pl sha a jid now t = Inr t'"
  shows "active_run_unique t'"
proof -
  note ins = rj_insert_Inr [OF assms(2)]
  have "hits (holds_run rid) t' \<le> 1" for rid
  proof (cases "rid = e_runId a")
    case True
    then have "hits (holds_run rid) t = 0" using ins(4) by (simp add: hits_0_iff)
    then show ?thesis unfolding ins(1) by (auto simp: hits_def)
  next
    case False
    then have "\<not> holds_run rid (rj_new_row pl sha a jid now)" by (simp add: holds_run_def rj_new_row_def)
    then show ?thesis using assms(1) unfolding ins(1) by (simp add: hits_def active_run_unique_def)
  qed
  then show ?thesis by (simp add: active_run_unique_def)
qed

lemma rj_exec_active_run_unique:
  assumes "distinct (map job_id t)" and "active_run_unique t"
  shows "active_run_unique (rj_exec op t)"
proof (cases op)
  case (RjInsert runs pl sha a jid now)
  then show ?thesis using assms(2) by (auto split: sum.splits intro: active_run_unique_insert)
next
  case (RjClaim locked now tok owner l m)
  show ?thesis
  proof (cases "pick_claim locked now t")
    case None
    then show ?thesis using RjClaim assms by (simp add: rj_claim_def)
  next
    case (Some c)
    then have "active r" if "r \<in> set t" "job_id r = job_id c" for r
      using that assms(1) distinct_key_unique claimable_active pick_claim_Some by metis
    then show ?thesis using RjClaim Some assms(2)
      by (auto simp: rj_claim_def Let_def rj_claim_set_def intro!: active_run_unique_upd)
  qed
next
  case (RjReap locked now limit)
  have "active r" if "r \<in> set t" "job_id r \<in> job_id ` set (stuck_batch locked now limit t)" for r
    using stuck_batch_reapable [OF assms(1) that] by (rule reapable_active)
  then show ?thesis using assms(2) unfolding RjReap rj_exec.simps
    by (intro active_run_unique_upd) (auto simp: reap_job_set_def clear_lease_def)
qed (use assms(2) in \<open>auto simp: rj_heartbeat_def rj_markDone_def rj_markCancelled_def rj_persistMutexId_def rj_markFailed_def
    rj_deferRetry_def rj_fail_set_def rj_settle_defs clear_lease_def Let_def split: terminal_job.splits
    intro!: active_run_unique_upd intro: fenced_active\<close>)

interpretation rj_runs: history rj_exec "\<lambda>t. table_wf t \<and> active_run_unique t"
  by unfold_locales (simp add: rj.exec_wf rj_exec_active_run_unique table_wf_def [THEN iffD1])

section \<open>The transactions\<close>

lemma settle_job_simps [simp]:
  "job_id (settle_job js now reason j) = job_id j" "terminal (settle_job js now reason j)"
  "job_run_id (settle_job js now reason j) = job_run_id j" "attempt_token (settle_job js now reason j) = None"
  by (cases js; simp add: rj_settle_defs clear_lease_def terminal_def)+

lemma settle_run_simps [simp]:
  "run_id (settle_run rs now c r) = run_id r" "rr_review_id (settle_run rs now c r) = rr_review_id r"
  "superseded_by_run_id (settle_run rs now c r) = superseded_by_run_id r"
  by (cases rs; simp add: settle_run_def)+

lemma commit_ok_runs:
  assumes "commit_ok db" and "\<And>r. run_id (f r) = run_id r" and "\<And>r. superseded_by_run_id (f r) = superseded_by_run_id r"
    and "review_runs db' = upd_where p f (review_runs db)"
  shows "commit_ok db'"
proof -
  have "run_ids db' = run_ids db" unfolding assms(4) using assms(2) by (intro map_key_upd_where) simp
  then show ?thesis using assms by (auto simp: commit_ok_def set_upd_where)
qed

lemma terminalSettle_cases:
  assumes "commit_ok db"
  shows "rj_terminalSettle now jid owner tok runId js rs reason runReason db = (if hits (fenced jid owner tok) (review_jobs db) \<noteq> 1
      then (Inr False, db\<lparr>review_jobs := upd_where (fenced jid owner tok) (settle_job js now reason) (review_jobs db)\<rparr>)
      else if \<forall>r\<in>set (review_runs db). run_id r = runId \<longrightarrow> run_checks (settle_run rs now runReason r)
      then (Inr True, db\<lparr>review_jobs := upd_where (fenced jid owner tok) (settle_job js now reason) (review_jobs db),
              review_runs := upd_where (\<lambda>r. run_id r = runId) (settle_run rs now runReason) (review_runs db)\<rparr>)
      else (Inl RunCheckViolation, db))"
proof -
  have "commit_ok (db\<lparr>review_jobs := x\<rparr>)" for x using assms(1) by (simp add: commit_ok_def)
  moreover have "commit_ok (db\<lparr>review_jobs := x, review_runs := upd_where (\<lambda>r. run_id r = runId) (settle_run rs now runReason) (review_runs db)\<rparr>)" for x
    by (rule commit_ok_runs [OF assms(1)]) simp_all
  ultimately show ?thesis
    by (auto simp: rj_terminalSettle_def transact_def settle_tx_def Let_def update_runs_def)
qed

text \<open>A run that rests in another terminal state cannot be reaped: the CHECK rejects the update.\<close>

lemma reap_set_checks_iff:
  assumes "run_checks r"
  shows "run_checks (reap_set now r) \<longleftrightarrow> lifecycle_state r \<notin> {''COMPLETED'', ''FAILED''}"
  using assms by (auto simp: run_checks_def reap_set_def lc_consts)

lemma reap_stuck_rows_poisoned:
  assumes "r \<in> set (review_runs db)" and "run_checks r" and "lifecycle_state r \<in> {''COMPLETED'', ''FAILED''}"
    and "run_id r \<in> fst ` set rows"
  shows "reap_stuck_rows now clk rows db = Inl RunCheckViolation"
  using assms(1,4)
proof (induction rows arbitrary: db)
  case (Cons row rows)
  obtain rid mid iid where row: "row = (rid, mid, iid)" by (cases row)
  show ?case
  proof (cases "update_runs (\<lambda>r. run_id r = rid) (reap_set now) db")
    case (Inl e)
    then show ?thesis using row by (auto simp: update_runs_def split: if_splits)
  next
    case (Inr db1)
    have ne: "run_id r \<noteq> rid"
      using update_runs_Inr(2) [OF Inr Cons.prems(1)] reap_set_checks_iff [OF assms(2)] assms(3) by auto
    then have mem: "r \<in> set (review_runs db1)"
      using update_runs_Inr(1) [OF Inr] upd_where_mem [OF Cons.prems(1), of "\<lambda>r. run_id r = rid" "reap_set now"] by simp
    define db2 where "db2 = (case mid of None \<Rightarrow> db1 | Some m \<Rightarrow> release_mutexes now (\<lambda>x. mutex_id x = m) db1)"
    obtain db3 where db3: "reaped_audit clk iid rid db2 = Inr db3" "review_runs db3 = review_runs db2"
      by (cases iid) (auto simp: reaped_audit_def emitAuditEvent_def ACTOR_KINDS_def)
    have "review_runs db2 = review_runs db1" by (auto simp: db2_def release_mutexes_def split: option.splits)
    then have "reap_stuck_rows now clk rows db3 = Inl RunCheckViolation"
      using Cons.IH [of db3] mem db3 ne Cons.prems(2) row by auto
    then show ?thesis using row Inr db3 by (simp add: Let_def db2_def)
  qed
qed simp

lemma reap_set_idem: "reap_set now (reap_set now r) = reap_set now r" "run_id (reap_set now r) = run_id r"
  by (simp_all add: reap_set_def)

lemma reaped_audit_Inr:
  assumes "reaped_audit clk iid rid db = Inr db'"
  shows "review_jobs db' = review_jobs db" "review_runs db' = review_runs db" "pr_review_mutex db' = pr_review_mutex db"
  using assms by (auto simp: reaped_audit_def dest!: emitAuditEvent_Inr split: option.splits)

lemma reap_stuck_rows_Inr:
  assumes "reap_stuck_rows now clk rows db = Inr db'"
  shows "review_jobs db' = review_jobs db \<and>
    review_runs db' = upd_where (\<lambda>r. run_id r \<in> fst ` set rows) (reap_set now) (review_runs db) \<and>
    pr_review_mutex db' = upd_where (\<lambda>m. Some (mutex_id m) \<in> (fst \<circ> snd) ` set rows \<and> released_at m = None)
      (\<lambda>m. m\<lparr>released_at := Some now\<rparr>) (pr_review_mutex db)"
  using assms
proof (induction rows arbitrary: db)
  case Nil
  then show ?case by (simp add: upd_where_def)
next
  case (Cons row rows)
  obtain rid mid iid where row: "row = (rid, mid, iid)" by (cases row)
  from Cons.prems row obtain db1 where db1: "update_runs (\<lambda>r. run_id r = rid) (reap_set now) db = Inr db1"
    by (auto split: sum.splits)
  define db2 where "db2 = (case mid of None \<Rightarrow> db1 | Some m \<Rightarrow> release_mutexes now (\<lambda>x. mutex_id x = m) db1)"
  from Cons.prems row db1 obtain db3 where db3: "reaped_audit clk iid rid db2 = Inr db3" "reap_stuck_rows now clk rows db3 = Inr db'"
    by (auto simp: db2_def Let_def split: sum.splits)
  note d1 = update_runs_Inr(1) [OF db1] and d3 = reaped_audit_Inr [OF db3(1)]
  have d2: "review_jobs db2 = review_jobs db1" "review_runs db2 = review_runs db1"
    "pr_review_mutex db2 = upd_where (\<lambda>m. mid = Some (mutex_id m) \<and> released_at m = None) (\<lambda>m. m\<lparr>released_at := Some now\<rparr>) (pr_review_mutex db1)"
    by (auto simp: db2_def release_mutexes_def upd_where_def split: option.splits)
  show ?case unfolding row using Cons.IH [OF db3(2)] d1 d2 d3
    by (auto simp: upd_where_def reap_set_idem)
qed

text \<open>Every job of the batch whose run exists is joined with at least one row, since its review exists.\<close>

lemma review_tenants_not_Nil:
  assumes "rid \<in> review_id ` set (reviews db)"
  shows "review_tenants db rid \<noteq> []"
proof -
  obtain rv where "rv \<in> set (reviews db)" "review_id rv = rid" using assms by auto
  then show ?thesis by (auto simp: review_tenants_def filter_empty_conv split: list.splits intro!: bexI [of _ rv])
qed

lemma stuck_rows_keys:
  assumes "refs_ok db"
  shows "(\<lambda>row. (fst row, fst (snd row))) ` set (stuck_rows js db)
    = (\<lambda>j. (job_run_id j, job_mutex_id j)) ` {j \<in> set js. job_run_id j \<in> set (run_ids db)}" (is "?L = ?R")
proof
  show "?L \<subseteq> ?R" by (force simp: stuck_rows_def)
  show "?R \<subseteq> ?L"
  proof
    fix x assume "x \<in> ?R"
    then obtain j r where jr: "j \<in> set js" "r \<in> set (review_runs db)" "run_id r = job_run_id j" "x = (job_run_id j, job_mutex_id j)"
      by auto
    moreover obtain iid where "iid \<in> set (review_tenants db (rr_review_id r))"
      using review_tenants_not_Nil [of "rr_review_id r" db] jr(2) assms by (fastforce simp: refs_ok_def dest: last_in_set)
    ultimately have "(job_run_id j, job_mutex_id j, iid) \<in> set (stuck_rows js db)"
      by (auto simp: stuck_rows_def)
    then show "x \<in> ?L" using jr(4) by force
  qed
qed

lemma stuck_rows_runs:
  assumes "refs_ok db"
  shows "fst ` set (stuck_rows js db) = job_run_id ` set js \<inter> set (run_ids db)"
proof -
  have "fst ` set (stuck_rows js db) = fst ` (\<lambda>row. (fst row, fst (snd row))) ` set (stuck_rows js db)"
    by (simp add: image_comp comp_def)
  also have "\<dots> = job_run_id ` {j \<in> set js. job_run_id j \<in> set (run_ids db)}"
    by (simp add: stuck_rows_keys [OF assms] image_comp comp_def)
  also have "\<dots> = job_run_id ` set js \<inter> set (run_ids db)" by blast
  finally show ?thesis .
qed

lemma stuck_rows_mutexes:
  assumes "refs_ok db" and "j \<in> set js" and "job_run_id j \<in> set (run_ids db)"
  shows "job_mutex_id j \<in> (fst \<circ> snd) ` set (stuck_rows js db)"
proof -
  have "(job_run_id j, job_mutex_id j) \<in> (\<lambda>row. (fst row, fst (snd row))) ` set (stuck_rows js db)"
    using assms by (auto simp: stuck_rows_keys)
  then show ?thesis by force
qed

lemma stuck_batch_set:
  assumes "distinct (map job_id t)"
  shows "{j \<in> set t. job_id j \<in> job_id ` set (stuck_batch locked now limit t)} = set (stuck_batch locked now limit t)"
proof -
  have "set (stuck_batch locked now limit t) \<subseteq> set t" by (auto simp: stuck_batch_def dest!: in_set_takeD)
  then show ?thesis using distinct_key_unique [OF assms] by blast
qed

section \<open>Payload columns\<close>

lemma rj_getById_upd_where:
  "(\<And>r. p r \<Longrightarrow> job_id (f r) = job_id r) \<Longrightarrow>
    rj_getById jid (upd_where p f t) = map_option (\<lambda>r. if p r then f r else r) (rj_getById jid t)"
  unfolding rj_getById_def by (rule lookup_upd_where)

definition same_identity :: "review_job \<Rightarrow> review_job \<Rightarrow> bool" where
  "same_identity r r' \<longleftrightarrow> job_id r' = job_id r \<and> job_payload r' = job_payload r \<and> payload_sha256 r' = payload_sha256 r \<and>
     job_run_id r' = job_run_id r \<and> job_review_id r' = job_review_id r \<and>
     job_installation_id r' = job_installation_id r \<and> delivery_id r' = delivery_id r"

lemma same_identity_verify: "same_identity r r' \<Longrightarrow> rj_verifyPayload cd z r' = rj_verifyPayload cd z r"
  by (simp add: same_identity_def rj_verifyPayload_def assertPayloadIdentityMatchesJobRow_def cong: if_cong split: option.split)

lemma rj_exec_identity:
  assumes "rj_getById jid t = Some r"
  shows "\<exists>r'. rj_getById jid (rj_exec op t) = Some r' \<and> same_identity r r'"
proof (cases op)
  case (RjInsert runs pl sha a j now)
  then show ?thesis using assms by (auto simp: rj_insert_def rj_getById_def first_row_def same_identity_def split: list.splits)
next
  case (RjClaim locked now tok owner l m)
  then show ?thesis using assms
    by (auto simp: rj_claim_def Let_def rj_getById_upd_where rj_claim_set_def same_identity_def split: option.splits)
qed (use assms in \<open>auto simp: rj_heartbeat_def rj_markDone_def rj_markCancelled_def rj_persistMutexId_def rj_markFailed_def
    rj_deferRetry_def rj_fail_set_def rj_settle_defs reap_job_set_def clear_lease_def Let_def rj_getById_upd_where
    same_identity_def split: terminal_job.splits\<close>)

lemma rj_fold_identity:
  assumes "rj_getById jid t = Some r"
  shows "\<exists>r'. rj_getById jid (fold rj_exec ops t) = Some r' \<and> same_identity r r'"
  using assms
proof (induction ops arbitrary: t r)
  case (Cons op ops)
  obtain r1 where r1: "rj_getById jid (rj_exec op t) = Some r1" "same_identity r r1"
    using rj_exec_identity [OF Cons.prems] by blast
  from Cons.IH [OF r1(1)] show ?case using r1(2) by (auto simp: same_identity_def)
qed (simp add: same_identity_def)

section \<open>Properties\<close>

text \<open>Whatever sequence of inserts, claims, heartbeats, settles, deferrals and reaps of review jobs runs, in any
  interleaving of workers, every row keeps the lease, terminal and attempt-budget invariant, job ids stay unique, and no
  run ever has two active jobs.\<close>

theorem rj_history_invariant:
  assumes "table_wf t" and "active_run_unique t"
  shows "table_wf (fold rj_exec ops t) \<and> active_run_unique (fold rj_exec ops t)"
  using assms by (intro rj_runs.fold_inv) simp

definition demo_job :: review_job where
  "demo_job =
     \<lparr>job_id = ''j1'', state = Leased, priority = 0, run_after = 0, lease_owner = Some ''w1'', attempt_token = Some ''t1'',
      leased_until = Some 1000, timeout_at = Some 9000, heartbeat_at = Some 0, attempts = 3, max_attempts = 3,
      finished_at = None, dead_reason = None, last_error = None, created_at = 0, payload_sha256 = ''h'',
      job_run_id = ''r1'', job_review_id = ''v1'', job_installation_id = ''i1'', delivery_id = None, started_at = Some 0,
      cancel_reason = None, job_payload_schema_version = 1, job_payload = JsNull, job_mutex_id = Some ''m1''\<rparr>"

lemma demo_job_table: "table_wf [demo_job]" "active_run_unique [demo_job]"
  by (auto simp: demo_job_def table_wf_def job_wf_def terminal_def active_run_unique_def)

theorem rj_history_invariant_witness:
  "table_wf (fold rj_exec [RjReap (\<lambda>_. False) 2000 500, RjDone 3000 ''j1'' ''w1'' ''t1''] [demo_job])"
  using rj_history_invariant [OF demo_job_table] by blast

lemma rj_enqueue_again:
  assumes "rj_enqueue cd z runs jid now env a t = (Inr j, t')" and "jid' \<notin> job_id ` set t'"
  shows "rj_enqueue cd z runs' jid' now' (\<lambda>x. x) a t' = (Inr j, t')"
proof -
  let ?Q = "\<lambda>j. holds_run (e_runId a) j \<and> job_installation_id j = e_installationId a"
  obtain p where p: "ReviewPullRequestPayloadV1 z (e_payload a) = Some p" "assertPayloadIdentityMatchesEnvelope p a = []"
    using assms(1) by (auto simp: rj_enqueue_def split: option.splits if_splits)
  let ?c = "canonicalJson (num_text cd) (payload_json p)"
  let ?ins = "rj_insert runs (db_json cd ?c) (sha256hex cd ?c) a jid now t"
  have holder: "\<exists>x. first_row (filter ?Q t') = Some x \<and> job_id x = j"
  proof (cases ?ins)
    case (Inl e)
    then show ?thesis using assms(1) p by (auto simp: rj_enqueue_def Let_def split: rj_error.splits option.splits)
  next
    case (Inr t1)
    have "filter ?Q t = []" using rj_insert_Inr(4) [OF Inr] by (auto simp: filter_empty_conv)
    then show ?thesis using assms(1) p Inr rj_insert_Inr(1) [OF Inr]
      by (auto simp: rj_enqueue_def Let_def rj_new_row_def holds_run_def active_def)
  qed
  then obtain x where x: "first_row (filter ?Q t') = Some x" "job_id x = j" by blast
  then have "x \<in> set t'" "holds_run (e_runId a) x" using first_row_Some [OF x(1)] by auto
  then have "list_ex (holds_run (e_runId a)) t'" by (auto simp: list_ex_iff)
  moreover have "?ins \<noteq> Inl RjCheckViolation" using assms(1) p by (auto simp: rj_enqueue_def Let_def)
  ultimately have "rj_insert runs' (db_json cd ?c) (sha256hex cd ?c) a jid' now' t' = Inl (RjActiveRunConflict (e_runId a))"
    using assms(2) by (auto simp: rj_insert_def split: if_splits)
  then show ?thesis using p x by (simp add: rj_enqueue_def Let_def)
qed

text \<open>Redelivery is idempotent: when an enqueue of a run returned a job id, the same enqueue issued again returns
  that id and writes nothing, whatever other connections did inside the first call.\<close>

theorem rj_enqueue_redelivery:
  assumes "rj_enqueue cd z runs jid now env a t = (Inr j, t')" and "jid' \<notin> job_id ` set t'"
  shows "rj_enqueue cd z runs' jid' now' (\<lambda>x. x) a t' = (Inr j, t')"
  by (rule rj_enqueue_again [OF assms])

definition demo_zod :: zod where
  "demo_zod = \<lparr>is_uuid = (\<lambda>_. True), is_datetime = (\<lambda>_. True)\<rparr>"

definition demo_payload :: review_payload where
  "demo_payload =
     \<lparr>p_installation_id = ''i1'', p_repository_id = ''repo'', p_pr_id = ''p'', p_pr_number = 3,
      p_head_sha = replicate 40 (CHR ''a''), p_gh_owner = ''o'', p_gh_repo_name = ''n'', p_pr_title = ''t'', p_pr_description = [],
      p_delivery_id = ''d'', p_policy_revision = 0, p_run_id = ''r1'', p_review_id = ''v1'', p_github_installation_id = None,
      p_author_login = None, p_draft = False, p_base_ref = None, p_head_ref = None, p_opened_at = None\<rparr>"

definition demo_rj_args :: rj_enqueue_args where
  "demo_rj_args =
     \<lparr>e_runId = ''r1'', e_reviewId = ''v1'', e_installationId = ''i1'', e_payload = js_of_json (sortKeysDeep (payload_json demo_payload)),
      e_deliveryId = Some ''d'', e_priority = None, e_maxAttempts = None\<rparr>"

definition demo_rj_codec :: "rat codec" where
  "demo_rj_codec = \<lparr>num_text = (\<lambda>_. ''0''), sha256hex = (\<lambda>_. replicate 64 (CHR ''a'')),
     db_json = (\<lambda>_. js_of_json (sortKeysDeep (payload_json demo_payload)))\<rparr>"

lemma payload_key_perm: "key_perm (sortKeysDeep (payload_json p)) (sortKeysDeep (payload_json p))"
proof -
  obtain kvs where kvs: "sortKeysDeep (payload_json p) = JObj kvs" "mset kvs = mset (payload_fields p)"
    using sortKeysDeep_flat [OF payload_fields_flat] unfolding payload_json_def by blast
  have "distinct (map fst kvs)"
    using kvs(2) payload_keys_distinct payload_fields_keys by (metis mset_eq_imp_distinct_iff mset_map)
  moreover have "\<forall>kv\<in>set kvs. atomic (snd kv)" using payload_fields_flat kvs(2) by (metis set_mset_mset)
  then have "list_all2 key_perm (map snd kvs) (map snd kvs)"
    by (auto simp: list_all2_map1 list_all2_map2 list_all2_same intro: key_perm.intros elim!: atomic.elims dest!: bspec)
  ultimately show ?thesis unfolding kvs(1) by (intro kp_obj [of kvs kvs]) simp_all
qed

lemma demo_rj_parse: "ReviewPullRequestPayloadV1 demo_zod (e_payload demo_rj_args) = Some demo_payload"
proof -
  have "payload_ok demo_zod demo_payload" by (simp add: payload_ok_def demo_zod_def demo_payload_def)
  then show ?thesis unfolding demo_rj_args_def rj_enqueue_args.select_convs
    using payload_print_parse payload_key_perm by blast
qed

lemma demo_rj_enqueue:
  "rj_enqueue demo_rj_codec demo_zod [''r1''] ''j9'' 0 (\<lambda>x. x) demo_rj_args []
     = (Inr ''j9'', snd (rj_enqueue demo_rj_codec demo_zod [''r1''] ''j9'' 0 (\<lambda>x. x) demo_rj_args []))"
  unfolding rj_enqueue_def demo_rj_parse option.case
  by (simp add: Let_def rj_insert_def demo_rj_args_def demo_rj_codec_def is_sha256_hex_def list_all_iff
      assertPayloadIdentityMatchesEnvelope_def demo_payload_def)

theorem rj_enqueue_redelivery_witness:
  "fst (rj_enqueue demo_rj_codec demo_zod [] ''j10'' 5 (\<lambda>x. x) demo_rj_args
      (snd (rj_enqueue demo_rj_codec demo_zod [''r1''] ''j9'' 0 (\<lambda>x. x) demo_rj_args []))) = Inr ''j9''"
proof -
  have "''j10'' \<notin> job_id ` set (snd (rj_enqueue demo_rj_codec demo_zod [''r1''] ''j9'' 0 (\<lambda>x. x) demo_rj_args []))"
    unfolding rj_enqueue_def demo_rj_parse option.case
    by (simp add: Let_def rj_insert_def demo_rj_args_def demo_rj_codec_def is_sha256_hex_def rj_new_row_def
      assertPayloadIdentityMatchesEnvelope_def demo_payload_def)
  then show ?thesis using rj_enqueue_redelivery [OF demo_rj_enqueue] by simp
qed

text \<open>Payload integrity and tenancy end to end: when the database keeps a JSON value up to the order of its object
  keys, the payload the shell verifies is the enqueued one, after any history of the table.\<close>

theorem rj_enqueue_verify_roundtrip:
  assumes "ReviewPullRequestPayloadV1 z (e_payload a) = Some p"
    and "db_json cd (canonicalJson (num_text cd) (payload_json p)) = js_of_json w"
    and "key_perm (sortKeysDeep (payload_json p)) w"
    and "jid \<notin> job_id ` set t" and "rj_enqueue cd z runs jid now (\<lambda>x. x) a t = (Inr jid, t')"
  shows "\<exists>r. rj_getById jid (fold rj_exec ops t') = Some r \<and> rj_verifyPayload cd z r = Inr p"
proof -
  let ?c = "canonicalJson (num_text cd) (payload_json p)"
  let ?row = "rj_new_row (db_json cd ?c) (sha256hex cd ?c) a jid now"
  have ident: "assertPayloadIdentityMatchesEnvelope p a = []"
    using assms(1,5) by (auto simp: rj_enqueue_def split: if_splits)
  have "\<exists>t1. rj_insert runs (db_json cd ?c) (sha256hex cd ?c) a jid now t = Inr t1 \<and> t1 = t'"
    using assms(1,4,5) ident
    by (auto simp: rj_enqueue_def Let_def dest!: first_row_Some split: sum.splits rj_error.splits option.splits)
  then have t': "t' = t @ [?row]" using rj_insert_Inr(1) by blast
  have "filter (\<lambda>r. job_id r = jid) t = []" using assms(4) by (force simp: filter_empty_conv image_iff)
  then have "rj_getById jid t' = Some ?row" by (simp add: t' rj_getById_def rj_new_row_def)
  moreover have "ReviewPullRequestPayloadV1 z (job_payload ?row) = Some p"
    using payload_print_parse [OF payload_schema_ok [OF assms(1)] assms(3)] assms(2) by (simp add: rj_new_row_def)
  then have "rj_verifyPayload cd z ?row = Inr p"
    using ident by (auto simp: rj_verifyPayload_def rj_new_row_def assertPayloadIdentityMatchesJobRow_def
        assertPayloadIdentityMatchesEnvelope_def split: if_splits option.splits)
  ultimately show ?thesis using rj_fold_identity [of jid t' ?row ops] same_identity_verify by metis
qed

theorem rj_enqueue_verify_roundtrip_witness:
  "\<exists>r. rj_getById ''j9'' (fold rj_exec [RjClaim (\<lambda>_. False) 2000 ''t2'' ''w2'' 60000 600000]
        (snd (rj_enqueue demo_rj_codec demo_zod [''r1''] ''j9'' 0 (\<lambda>x. x) demo_rj_args []))) = Some r
      \<and> rj_verifyPayload demo_rj_codec demo_zod r = Inr demo_payload"
  by (rule rj_enqueue_verify_roundtrip [OF demo_rj_parse _ payload_key_perm _ demo_rj_enqueue])
     (simp_all add: demo_rj_codec_def)

text \<open>(C6) A terminal settle moves a job and its run together or moves neither: it succeeds only for the worker that
  holds the lease, a lost fence and a rejected run update both leave the whole database as it was, and a success changes
  only that job and that run and keeps both tables well formed.\<close>

theorem rj_terminalSettle_lockstep:
  assumes "review_wf db" and "table_wf (review_jobs db)"
    and "rj_terminalSettle now jid owner tok runId js rs reason runReason db = (res, db')"
  shows "case res of
      Inl e \<Rightarrow> db' = db \<and> e = RunCheckViolation \<and>
        (\<exists>r\<in>set (review_runs db). run_id r = runId \<and> \<not> run_checks (settle_run rs now runReason r))
    | Inr ok \<Rightarrow> if ok then
        (\<exists>j\<in>set (review_jobs db). fenced jid owner tok j \<and> settle_job js now reason j \<in> set (review_jobs db')) \<and>
        (\<forall>j\<in>set (review_jobs db). job_id j \<noteq> jid \<longrightarrow> j \<in> set (review_jobs db')) \<and>
        review_runs db' = upd_where (\<lambda>r. run_id r = runId) (settle_run rs now runReason) (review_runs db) \<and>
        review_wf db' \<and> table_wf (review_jobs db')
      else db' = db \<and> (\<forall>j\<in>set (review_jobs db). \<not> fenced jid owner tok j)"
proof -
  let ?F = "fenced jid owner tok" and ?J = "review_jobs db"
  have dist: "distinct (map job_id ?J)" using assms(2) by (simp add: table_wf_def)
  have le: "hits ?F ?J \<le> 1" using dist fenced_job_id by (rule hits_key_le_1)
  have wf: "table_wf (upd_where ?F (settle_job js now reason) ?J)"
    using rj.exec_wf [OF assms(2), of "RjSettle now jid owner tok js reason"] by simp
  have "commit_ok db" using assms(1) by (simp add: review_wf_def)
  note cases = terminalSettle_cases [OF this, of now jid owner tok runId js rs reason runReason, unfolded assms(3)]
  show ?thesis
  proof (cases "hits ?F ?J = 1")
    case False
    then have "hits ?F ?J = 0" using le by linarith
    then have "upd_where ?F f ?J = ?J" and "\<forall>j\<in>set ?J. \<not> ?F j" for f
      by (auto simp: upd_where_no_hits hits_0_iff)
    then show ?thesis using cases False by simp
  next
    case hit: True
    show ?thesis
    proof (cases "\<forall>r\<in>set (review_runs db). run_id r = runId \<longrightarrow> run_checks (settle_run rs now runReason r)")
      case False
      then have "(res, db') = (Inl RunCheckViolation, db)" using cases hit by (simp only: if_False if_True refl not_True_eq_False)
      then show ?thesis using False by auto
    next
      case True
      obtain j where "j \<in> set ?J" "?F j" using hit hits_0_iff [of ?F ?J] by auto
      moreover have "\<forall>j\<in>set ?J. job_id j \<noteq> jid \<longrightarrow> j \<in> set (upd_where ?F (settle_job js now reason) ?J)"
        using fenced_job_id by (blast intro: upd_where_mem_unchanged)
      moreover have "review_wf_tx (db\<lparr>review_runs := upd_where (\<lambda>r. run_id r = runId) (settle_run rs now runReason) (review_runs db)\<rparr>)"
        by (rule review_wf_tx_update_runs [of db "\<lambda>r. run_id r = runId" "settle_run rs now runReason"])
           (use True assms(1) in \<open>simp_all add: update_runs_def review_wf_def review_wf_tx_def\<close>)
      moreover have "commit_ok db'"
        by (rule commit_ok_runs [of db "settle_run rs now runReason" _ "\<lambda>r. run_id r = runId"])
           (use assms(1) cases hit True in \<open>simp_all add: review_wf_def\<close>)
      moreover have "res = Inr True" and db': "db' = db\<lparr>review_jobs := upd_where ?F (settle_job js now reason) ?J,
          review_runs := upd_where (\<lambda>r. run_id r = runId) (settle_run rs now runReason) (review_runs db)\<rparr>"
        using cases hit True by simp_all
      ultimately show ?thesis using wf upd_where_mem_changed [of j ?J ?F "settle_job js now reason"]
        unfolding review_wf_def review_wf_tx_def runs_ok_def refs_ok_def by (simp add: db') blast
    qed
  qed
qed

definition demo_stuck :: "review_run \<Rightarrow> review_db" where
  "demo_stuck r = demo_db\<lparr>review_runs := [r], review_jobs := [demo_job], pr_review_mutex := [demo_mutex]\<rparr>"

lemma demo_stuck_wf:
  assumes "run_checks r" and "run_id r = ''r1''" and "rr_review_id r = ''v1''" and "superseded_by_run_id r = None"
  shows "review_wf (demo_stuck r)" "table_wf (review_jobs (demo_stuck r))"
    "stuck_batch (\<lambda>_. False) 2000 500 (review_jobs (demo_stuck r)) = [demo_job]"
  using assms demo_job_table(1)
  by (simp_all add: demo_stuck_def review_wf_def runs_ok_def refs_ok_def commit_ok_def seq_gap_free_def demo_db_def)
     (simp add: stuck_batch_def order_by_def reapable_def lease_expired_def demo_job_def)

theorem rj_terminalSettle_lockstep_witness:
  "fst (rj_terminalSettle 500 ''j1'' ''w1'' ''t0'' ''r1'' JobDead RunFailed ''boom'' ''operator_cancelled'' (demo_stuck demo_run)) = Inr False
   \<and> review_runs (snd (rj_terminalSettle 500 ''j1'' ''w1'' ''t1'' ''r1'' JobDead RunFailed ''boom'' ''operator_cancelled'' (demo_stuck demo_run)))
      = [settle_run RunFailed 500 ''operator_cancelled'' demo_run]"
proof -
  have r: "run_id demo_run = ''r1''" "rr_review_id demo_run = ''v1''" "superseded_by_run_id demo_run = None"
    by (simp_all add: demo_run_def)
  note wf = demo_stuck_wf [OF demo_run_checks r]
  have ok: "run_checks (settle_run RunFailed 500 ''operator_cancelled'' demo_run)"
    by (simp add: run_checks_def settle_run_def demo_run_def lc_consts)
  have t: "fst (rj_terminalSettle 500 ''j1'' ''w1'' tok ''r1'' JobDead RunFailed ''boom'' ''operator_cancelled'' (demo_stuck demo_run))
      = Inr (tok = ''t1'')" for tok
    using wf(1) ok by (subst terminalSettle_cases) (auto simp: review_wf_def demo_stuck_def fenced_def demo_job_def)
  obtain db' where e: "rj_terminalSettle 500 ''j1'' ''w1'' ''t1'' ''r1'' JobDead RunFailed ''boom'' ''operator_cancelled'' (demo_stuck demo_run)
      = (Inr True, db')" using t [of "''t1''"] by (metis prod.collapse)
  have "review_runs (demo_stuck demo_run) = [demo_run]" by (simp add: demo_stuck_def)
  then show ?thesis using rj_terminalSettle_lockstep [OF wf(1,2) e] t [of "''t0''"] by (simp add: e r)
qed

text \<open>A committed sweep of stuck jobs kills exactly the batch: every job of it ends dead, its run ends cancelled for
  \<open>timeout\<close>, the mutex it held is released; every other job and run is as before.\<close>

theorem rj_reapStuckRuns_correct:
  assumes "review_wf db" and "table_wf (review_jobs db)" and "rj_reapStuckRuns locked now clk limit db = (Inr n, db')"
    and "batch = stuck_batch locked now limit (review_jobs db)"
  shows "(\<forall>j\<in>set batch. reapable now j \<and> reap_job_set now j \<in> set (review_jobs db')) \<and>
    (\<forall>j\<in>set (review_jobs db). j \<notin> set batch \<longrightarrow> j \<in> set (review_jobs db')) \<and>
    review_runs db' = upd_where (\<lambda>r. run_id r \<in> job_run_id ` set batch) (reap_set now) (review_runs db) \<and>
    (\<forall>m\<in>set (pr_review_mutex db'). \<forall>j\<in>set batch.
       job_mutex_id j = Some (mutex_id m) \<and> job_run_id j \<in> set (run_ids db) \<longrightarrow> released_at m \<noteq> None)"
proof -
  let ?J = "review_jobs db" and ?B = "\<lambda>j. job_id j \<in> job_id ` set batch"
  let ?rows = "stuck_rows (filter ?B ?J) db"
  have dist: "distinct (map job_id ?J)" using assms(2) by (simp add: table_wf_def)
  have sb: "set (filter ?B ?J) = set batch" using stuck_batch_set [OF dist] assms(4) by simp
  have refs: "refs_ok db" using assms(1) by (simp add: review_wf_def)
  have "reap_stuck_rows now clk ?rows (db\<lparr>review_jobs := upd_where ?B (reap_job_set now) ?J\<rparr>) = Inr db'"
    using assms(3,4) by (auto simp: rj_reapStuckRuns_def transact_Inr_iff reap_stuck_tx_def Let_def split: sum.splits)
  note rows = reap_stuck_rows_Inr [OF this, simplified]
  have "review_runs db' = upd_where (\<lambda>r. run_id r \<in> job_run_id ` set batch) (reap_set now) (review_runs db)"
    using rows stuck_rows_runs [OF refs, of "filter ?B ?J"] by (auto simp: sb [simplified] upd_where_def)
  moreover have "reapable now j" "reap_job_set now j \<in> set (review_jobs db')" if "j \<in> set batch" for j
  proof -
    have "j \<in> set ?J" "?B j" using that sb by auto
    then show "reapable now j" "reap_job_set now j \<in> set (review_jobs db')"
      using stuck_batch_reapable [OF dist, of j locked now limit] assms(4) rows upd_where_mem_changed [of j ?J ?B "reap_job_set now"]
      by simp_all
  qed
  moreover have "\<forall>j\<in>set ?J. j \<notin> set batch \<longrightarrow> j \<in> set (review_jobs db')"
    using rows upd_where_mem_unchanged [of _ ?J ?B "reap_job_set now"]
    by (metis (mono_tags, lifting) sb set_filter mem_Collect_eq)
  moreover have "\<forall>m\<in>set (pr_review_mutex db'). \<forall>j\<in>set batch.
      job_mutex_id j = Some (mutex_id m) \<and> job_run_id j \<in> set (run_ids db) \<longrightarrow> released_at m \<noteq> None"
  proof (intro ballI impI)
    fix m j
    assume m: "m \<in> set (pr_review_mutex db')" and j: "j \<in> set batch" "job_mutex_id j = Some (mutex_id m) \<and> job_run_id j \<in> set (run_ids db)"
    have "Some (mutex_id m) \<in> (fst \<circ> snd) ` set ?rows"
      using stuck_rows_mutexes [OF refs, of j "filter ?B ?J"] sb j by (simp del: set_filter)
    then show "released_at m \<noteq> None" using m rows by (auto simp: set_upd_where split: if_splits)
  qed
  ultimately show ?thesis by blast
qed

theorem rj_reapStuckRuns_correct_witness:
  "reap_job_set 2000 demo_job \<in> set (review_jobs (snd (rj_reapStuckRuns (\<lambda>_. False) 2000 2 500 (demo_stuck demo_run))))"
proof -
  have r: "run_id demo_run = ''r1''" "rr_review_id demo_run = ''v1''" "superseded_by_run_id demo_run = None"
    by (simp_all add: demo_run_def)
  have checks: "run_checks (reap_set 2000 demo_run)" by (simp add: run_checks_def reap_set_def demo_run_def lc_consts)
  note wf = demo_stuck_wf [OF demo_run_checks r]
  have "fst (rj_reapStuckRuns (\<lambda>_. False) 2000 2 500 (demo_stuck demo_run)) = Inr 1"
    using checks by (simp add: rj_reapStuckRuns_def transact_def reap_stuck_tx_def wf(3) Let_def stuck_rows_def demo_stuck_def
        demo_db_def review_tenants_def update_runs_def reaped_audit_def emitAuditEvent_def ACTOR_KINDS_def release_mutexes_def
        commit_ok_def demo_job_def [symmetric])
       (use wf(3) in \<open>simp add: demo_run_def demo_job_def reap_set_def release_mutexes_def demo_stuck_def demo_db_def\<close>)
  then obtain db' where e: "rj_reapStuckRuns (\<lambda>_. False) 2000 2 500 (demo_stuck demo_run) = (Inr 1, db')"
    by (metis prod.collapse)
  show ?thesis using rj_reapStuckRuns_correct [OF wf(1,2) e refl] wf(3) by (simp add: e)
qed

text \<open>(C7) A stuck job whose run already completed or failed (the worker died between finalising the run and marking
  the job done) poisons the sweep: the CHECK constraints reject the run update, the transaction rolls back, and no stuck
  job of the batch is reaped.\<close>

theorem rj_reapStuckRuns_poisoned:
  assumes "review_wf db" and "table_wf (review_jobs db)" and "j \<in> set (stuck_batch locked now limit (review_jobs db))"
    and "r \<in> set (review_runs db)" and "run_id r = job_run_id j" and "lifecycle_state r \<in> {''COMPLETED'', ''FAILED''}"
  shows "rj_reapStuckRuns locked now clk limit db = (Inl RunCheckViolation, db)"
proof -
  let ?J = "review_jobs db" and ?batch = "stuck_batch locked now limit (review_jobs db)"
  let ?B = "\<lambda>j. job_id j \<in> job_id ` set ?batch"
  have "set (filter ?B ?J) = set ?batch" using stuck_batch_set assms(2) by (simp add: table_wf_def)
  moreover have "job_run_id j \<in> set (run_ids db)" using assms(4,5) by (metis image_eqI list.set_map)
  moreover have "refs_ok db" using assms(1) by (simp add: review_wf_def)
  ultimately have "run_id r \<in> fst ` set (stuck_rows (filter ?B ?J) db)"
    using assms(3,5) stuck_rows_runs by simp
  moreover have "run_checks r" using assms(1,4) by (auto simp: review_wf_def runs_ok_def)
  ultimately have "reap_stuck_rows now clk (stuck_rows (filter ?B ?J) db)
      (db\<lparr>review_jobs := upd_where ?B (reap_job_set now) ?J\<rparr>) = Inl RunCheckViolation"
    using assms(4,6) by (intro reap_stuck_rows_poisoned) auto
  then show ?thesis by (simp add: rj_reapStuckRuns_def transact_def reap_stuck_tx_def Let_def)
qed

theorem rj_reapStuckRuns_poisoned_witness:
  "rj_reapStuckRuns (\<lambda>_. False) 2000 2 500 (demo_stuck demo_done) = (Inl RunCheckViolation, demo_stuck demo_done)"
proof -
  have r: "run_id demo_done = ''r1''" "rr_review_id demo_done = ''v1''" "superseded_by_run_id demo_done = None" "run_checks demo_done"
    "lifecycle_state demo_done \<in> {''COMPLETED'', ''FAILED''}"
    by (simp_all add: demo_done_def demo_run_def run_checks_def lc_consts)
  note wf = demo_stuck_wf [OF r(4,1-3)]
  show ?thesis
    by (rule rj_reapStuckRuns_poisoned [OF wf(1,2), of demo_job _ _ _ demo_done])
       (use r wf(3) in \<open>simp_all add: demo_stuck_def demo_job_def\<close>)
qed

end
