(* ===== verification/Review_Shell.thy ===== *)
theory Review_Shell
  imports Review_Jobs Retry
begin

text \<open>
  \<^verbatim>\<open>runner/shell_mutex.ts\<close> and \<^verbatim>\<open>runner/review_job_shell.ts\<close>: the handler of a review job. It verifies the payload, takes the
  pull request's mutex or reuses the one an earlier attempt left, runs the pipeline under a claim check and a renew loop,
  and gives the mutex back on every exit path. The pipeline from the placeholder to the finalize is an argument of the
  model, so the theorems hold for every pipeline.
\<close>

section \<open>Acquire or reuse the mutex\<close>

datatype acquire_or_reuse = MxAcquired uuid | MxReused uuid | MxBusy | MxLeaseLost

datatype mutex_error = MutexTenancyRaceError string | MutexDbError review_error

text \<open>The surroundings: whether the advisory lock is free, the database's clock at the renew and at the acquire, the
  minted id, the injected clock, and what other connections do to the mutexes between read and renew and to the jobs
  between acquire and persist.\<close>

record mutex_env =
  me_gotLock :: bool
  me_renew_now :: db_time
  me_acquire_now :: db_time
  me_newId :: uuid
  me_clk :: js_date
  me_between :: "pr_mutex list \<Rightarrow> pr_mutex list"
  me_steal :: "review_job list \<Rightarrow> review_job list"

definition mutex_holder :: "review_payload \<Rightarrow> string" where
  "mutex_holder p =
     ''ReviewPR-'' @ p_gh_owner p @ ''/'' @ p_gh_repo_name p @ ''-'' @ int_text (p_pr_number p) @ ''-'' @ take 8 (p_head_sha p)"

definition payload_slot :: "review_payload \<Rightarrow> pr_mutex \<Rightarrow> bool" where
  "payload_slot p = same_slot (p_installation_id p) (p_repository_id p) (p_pr_number p)"

text \<open>The reuse branch: \<^verbatim>\<open>Some\<close> when the persisted mutex was renewed.\<close>

definition reuse_mutex :: "mutex_env \<Rightarrow> review_payload \<Rightarrow> review_job \<Rightarrow> review_db \<Rightarrow> uuid option \<times> review_db" where
  "reuse_mutex me p job db =
     (case job_mutex_id job of
        None \<Rightarrow> (None, db)
      | Some persisted \<Rightarrow>
          (case readMutexRow persisted (pr_review_mutex db) of
             None \<Rightarrow> (None, db)
           | Some row \<Rightarrow>
               if released_at row = None \<and> payload_slot p row
               then (let (renewed, t) = renewPrReviewMutexLease (me_renew_now me) (p_installation_id p) persisted
                           DEFAULT_LEASE_TTL_SECONDS (me_between me (pr_review_mutex db))
                     in (if renewed then Some persisted else None, db\<lparr>pr_review_mutex := t\<rparr>))
               else (None, db)))"

text \<open>The acquire branch: the tenancy re-check and the acquire, in one transaction.\<close>

definition acquire_tx :: "mutex_env \<Rightarrow> review_payload \<Rightarrow> review_db \<Rightarrow> mutex_error + acquire_result \<times> review_db" where
  "acquire_tx me p db =
     (case first_row (filter (\<lambda>rp. repository_id rp = p_repository_id p \<and> repo_installation_id rp = Some (p_installation_id p))
            (repositories db)) of
        None \<Rightarrow> Inl (MutexTenancyRaceError (''repository_id='' @ p_repository_id p @ '' not found for installation_id='' @
            p_installation_id p @ ''; reconcile race''))
      | Some rp \<Rightarrow>
          if \<not> enabled rp then Inl (MutexTenancyRaceError (''repository_id='' @ p_repository_id p @ '' is disabled for installation_id='' @
            p_installation_id p))
          else case acquirePrReviewMutex (me_gotLock me) (me_acquire_now me) (me_newId me) (p_installation_id p)
                 (p_repository_id p) (p_pr_number p) (mutex_holder p) DEFAULT_LEASE_TTL_SECONDS (pr_review_mutex db) of
                 Inl e \<Rightarrow> Inl (MutexDbError e)
               | Inr (r, t) \<Rightarrow> Inr (r, db\<lparr>pr_review_mutex := t\<rparr>))"

text \<open>\<^verbatim>\<open>persistMutexId\<close> under the job's own fence; a NULL owner or token matches no row.\<close>

definition persist_own :: "review_job \<Rightarrow> uuid \<Rightarrow> review_job list \<Rightarrow> bool \<times> review_job list" where
  "persist_own job mid js =
     (case (lease_owner job, attempt_token job) of
        (Some ow, Some tok) \<Rightarrow> rj_persistMutexId (job_id job) ow tok mid js
      | _ \<Rightarrow> (False, js))"

definition acquireOrReuseMutex ::
  "mutex_env \<Rightarrow> review_payload \<Rightarrow> review_job \<Rightarrow> review_db \<Rightarrow> (mutex_error + acquire_or_reuse) \<times> review_db" where
  "acquireOrReuseMutex me p job db =
     (case reuse_mutex me p job db of
        (Some mid, db1) \<Rightarrow> (Inr (MxReused mid), db1)
      | (None, db1) \<Rightarrow>
          (case acquire_tx me p db1 of
             Inl e \<Rightarrow> (Inl e, db1)
           | Inr (r, db2) \<Rightarrow>
               (case (acquired r, ar_mutexId r) of
                  (True, Some mid) \<Rightarrow>
                    (let (applied, js) = persist_own job mid (me_steal me (review_jobs db2));
                         db3 = db2\<lparr>review_jobs := js\<rparr>
                     in if applied then (Inr (MxAcquired mid), db3)
                        else (Inr MxLeaseLost,
                              db3\<lparr>pr_review_mutex := releasePrReviewMutex (me_clk me) (p_installation_id p) mid (pr_review_mutex db3)\<rparr>))
                | _ \<Rightarrow> (Inr MxBusy, db2))))"

section \<open>The claim check and the renew loop\<close>

definition readCurrentRunId :: "uuid \<Rightarrow> review_db \<Rightarrow> uuid option" where
  "readCurrentRunId reviewId db =
     (case first_row (filter (\<lambda>rv. review_id rv = reviewId) (reviews db)) of None \<Rightarrow> None | Some rv \<Rightarrow> current_run_id rv)"

text \<open>\<open>renewFails\<close>: the renew threw, which the check takes for a success. \<^verbatim>\<open>Inl reason\<close> is \<^verbatim>\<open>TerminalCancelError(reason)\<close>.\<close>

definition claimCheck ::
  "bool \<Rightarrow> bool \<Rightarrow> db_time \<Rightarrow> review_payload \<Rightarrow> review_job \<Rightarrow> uuid \<Rightarrow> review_db \<Rightarrow> (string + unit) \<times> review_db" where
  "claimCheck aborted renewFails now p job mid db =
     (if aborted then (Inl ''aborted'', db)
      else
        (let (renewed, t) = (if renewFails then (True, pr_review_mutex db)
               else renewPrReviewMutexLease now (p_installation_id p) mid DEFAULT_LEASE_TTL_SECONDS (pr_review_mutex db));
             db1 = db\<lparr>pr_review_mutex := t\<rparr>
         in if \<not> renewed then (Inl ''mutex-lost'', db1)
            else if readCurrentRunId (p_review_id p) db1 \<noteq> Some (job_run_id job) then (Inl ''superseded'', db1)
            else (Inr (), db1)))"

definition MAX_CONSECUTIVE_MUTEX_RENEW_FAILURES :: nat where
  "MAX_CONSECUTIVE_MUTEX_RENEW_FAILURES = 3"

definition classifyRenewOutcome :: "bool \<Rightarrow> bool \<Rightarrow> nat \<Rightarrow> nat \<Rightarrow> nat \<times> bool" where
  "classifyRenewOutcome errored renewedOk prior maxErrors =
     (if \<not> errored then (0, \<not> renewedOk) else (prior + 1, maxErrors \<le> prior + 1))"

datatype renew_attempt = RenewOk | RenewLost | RenewThrew

text \<open>The renew loop over the attempts it gets to make until it is stopped: does it abort the shell?\<close>

fun renew_loop :: "nat \<Rightarrow> renew_attempt list \<Rightarrow> bool" where
  "renew_loop n [] = False"
| "renew_loop n (x # xs) =
     (let (n', abandon) = classifyRenewOutcome (x = RenewThrew) (x = RenewOk) n MAX_CONSECUTIVE_MUTEX_RENEW_FAILURES
      in abandon \<or> renew_loop n' xs)"

section \<open>The handler\<close>

datatype job_throw = TerminalCancelError string | OtherThrow thrown
datatype job_result = JobOk | JobThrow job_throw | JobOverran

text \<open>What the pipeline can throw: a cancel, one of the lost-claim family, anything else.\<close>

datatype lost_claim = LostStaleWrite | LostStateDrift | LostCurrentRun
datatype pipeline_throw = PipeCancel string | PipeLost lost_claim | PipeFault thrown

fun constructor_name :: "lost_claim \<Rightarrow> string" where
  "constructor_name LostStaleWrite = ''StaleWriteError''"
| "constructor_name LostStateDrift = ''StateDrift''"
| "constructor_name LostCurrentRun = ''CurrentRunMismatch''"

fun wrap_throw :: "pipeline_throw \<Rightarrow> job_throw" where
  "wrap_throw (PipeCancel reason) = TerminalCancelError reason"
| "wrap_throw (PipeLost c) = TerminalCancelError (constructor_name c)"
| "wrap_throw (PipeFault e) = OtherThrow e"

definition releasePrReviewMutexActivity :: "js_date \<Rightarrow> uuid \<Rightarrow> pr_mutex list \<Rightarrow> pr_mutex list" where
  "releasePrReviewMutexActivity clk mid t =
     (case first_row (filter (\<lambda>m. mutex_id m = mid) t) of
        None \<Rightarrow> t
      | Some m \<Rightarrow> releasePrReviewMutex clk (mx_installation_id m) mid t)"

record shell_env =
  se_mutex :: mutex_env
  se_pipeline :: "review_payload \<Rightarrow> uuid \<Rightarrow> review_db \<Rightarrow> pipeline_throw option \<times> review_db"
  se_release_clk :: js_date
  se_verify_fault :: "rj_error \<Rightarrow> thrown"
  se_mutex_fault :: "mutex_error \<Rightarrow> thrown"

definition with_mutex :: "shell_env \<Rightarrow> review_payload \<Rightarrow> uuid \<Rightarrow> review_db \<Rightarrow> job_result \<times> review_db" where
  "with_mutex se p mid db =
     (let (r, db1) = se_pipeline se p mid db
      in (case r of None \<Rightarrow> JobOk | Some e \<Rightarrow> JobThrow (wrap_throw e),
          db1\<lparr>pr_review_mutex := releasePrReviewMutexActivity (se_release_clk se) mid (pr_review_mutex db1)\<rparr>))"

definition runReviewJob :: "rat codec \<Rightarrow> zod \<Rightarrow> shell_env \<Rightarrow> review_job \<Rightarrow> review_db \<Rightarrow> job_result \<times> review_db" where
  "runReviewJob cd z se job db =
     (case rj_verifyPayload cd z job of
        Inl e \<Rightarrow> (JobThrow (OtherThrow (se_verify_fault se e)), db)
      | Inr p \<Rightarrow>
          (case acquireOrReuseMutex (se_mutex se) p job db of
             (Inl e, db1) \<Rightarrow> (JobThrow (OtherThrow (se_mutex_fault se e)), db1)
           | (Inr MxBusy, db1) \<Rightarrow> (JobThrow (TerminalCancelError ''mutex-busy''), db1)
           | (Inr MxLeaseLost, db1) \<Rightarrow> (JobOk, db1)
           | (Inr (MxAcquired mid), db1) \<Rightarrow> with_mutex se p mid db1
           | (Inr (MxReused mid), db1) \<Rightarrow> with_mutex se p mid db1))"

section \<open>Lemmas\<close>

text \<open>What is asked of the other connections between read and renew: they keep the table's invariant and do not move a
  mutex to another pull request.\<close>

definition others_ok :: "review_payload \<Rightarrow> mutex_env \<Rightarrow> bool" where
  "others_ok p me \<longleftrightarrow> (\<forall>t. mutex_wf t \<longrightarrow> mutex_wf (me_between me t) \<and>
     (\<forall>m\<in>set t. \<forall>m'\<in>set (me_between me t). mutex_id m' = mutex_id m \<longrightarrow> payload_slot p m' = payload_slot p m))"

text \<open>A mutex held for the pull request with a lease to the given instant.\<close>

definition holds_pr :: "review_payload \<Rightarrow> uuid \<Rightarrow> db_time \<Rightarrow> pr_mutex list \<Rightarrow> bool" where
  "holds_pr p mid u t \<longleftrightarrow> (\<exists>m\<in>set t. mutex_id m = mid \<and> payload_slot p m \<and> live m \<and> lease_expires_at m = Some u)"

lemma renew_held:
  assumes "renewPrReviewMutexLease now inst mid ttl t = (True, t')"
  obtains m where "m \<in> set t" "mutex_id m = mid" "live m" "mx_installation_id m = inst" "renew_set now ttl m \<in> set t'"
proof -
  let ?p = "\<lambda>x. mx_installation_id x = inst \<and> mutex_id x = mid \<and> live x"
  have "hits ?p t = 1" and t': "t' = upd_where ?p (renew_set now ttl) t"
    using assms by (auto simp: renewPrReviewMutexLease_def Let_def)
  then obtain m where "m \<in> set t" "?p m" using hits_0_iff [of ?p t] by auto
  then show thesis using that upd_where_mem_changed [of m t ?p] t' by blast
qed

lemma reuse_mutex_cases:
  assumes "mutex_wf (pr_review_mutex db)" and "others_ok p me" and "reuse_mutex me p job db = (res, db1)"
  shows "mutex_wf (pr_review_mutex db1) \<and> review_jobs db1 = review_jobs db \<and> repositories db1 = repositories db \<and>
    (\<forall>mid. res = Some mid \<longrightarrow> job_mutex_id job = Some mid \<and>
       holds_pr p mid (me_renew_now me + DEFAULT_LEASE_TTL_SECONDS * 1000000) (pr_review_mutex db1))"
proof -
  let ?t = "pr_review_mutex db"
  let ?ren = "\<lambda>mid. renewPrReviewMutexLease (me_renew_now me) (p_installation_id p) mid DEFAULT_LEASE_TTL_SECONDS (me_between me ?t)"
  have between: "mutex_wf (me_between me ?t)" using assms(1,2) by (simp add: others_ok_def)
  have wf: "mutex_wf (snd (?ren mid))" for mid
    using between by (simp add: renewPrReviewMutexLease_def Let_def mutex_wf_renew)
  have held: "holds_pr p mid (me_renew_now me + DEFAULT_LEASE_TTL_SECONDS * 1000000) (snd (?ren mid))"
    if rd: "readMutexRow mid ?t = Some row" "payload_slot p row" "fst (?ren mid)" for mid row
  proof -
    have row: "row \<in> set ?t" "mutex_id row = mid"
      using rd(1) by (auto simp: readMutexRow_def dest!: first_row_Some)
    obtain m where m: "m \<in> set (me_between me ?t)" "mutex_id m = mid" "live m"
        "renew_set (me_renew_now me) DEFAULT_LEASE_TTL_SECONDS m \<in> set (snd (?ren mid))"
      using renew_held rd(3) by (metis prod.collapse)
    have "payload_slot p m" using assms(1,2) row m(1,2) rd(2) unfolding others_ok_def by metis
    then show ?thesis using m(2-4) unfolding holds_pr_def by (intro bexI [OF _ m(4)]) (simp add: payload_slot_def)
  qed
  show ?thesis
    using assms(1,3) wf held by (auto simp: reuse_mutex_def split_beta split: option.splits if_splits)
qed

lemma acquire_acquired:
  assumes "acquirePrReviewMutex g now newId inst repo pr holder ttl t = Inr (r, t')" and "acquired r"
  shows "ar_mutexId r = Some newId \<and> \<lparr>mutex_id = newId, mx_installation_id = inst, mx_repository_id = repo, mx_pr_number = pr,
    holder_workflow_id = holder, acquired_at = now, released_at = None, lease_expires_at = Some (now + ttl * 1000000)\<rparr> \<in> set t'"
  using assms by (auto simp: acquirePrReviewMutex_def insert_mutex_def Let_def split: if_splits option.splits sum.splits)

lemma persist_own_True:
  assumes "persist_own job mid js = (True, js')"
  shows "\<exists>j\<in>set js'. job_id j = job_id job \<and> job_mutex_id j = Some mid"
proof -
  obtain ow tok where "rj_persistMutexId (job_id job) ow tok mid js = (True, js')"
    using assms by (auto simp: persist_own_def split: option.splits)
  then have "hits (fenced (job_id job) ow tok) js = 1"
    and js': "js' = upd_where (fenced (job_id job) ow tok) (\<lambda>r. r\<lparr>job_mutex_id := Some mid\<rparr>) js"
    by (auto simp: rj_persistMutexId_def)
  then obtain j where j: "j \<in> set js" "fenced (job_id job) ow tok j" using hits_0_iff [of "fenced (job_id job) ow tok" js] by auto
  then show ?thesis using upd_where_mem_changed [of j js "fenced (job_id job) ow tok" "\<lambda>r. r\<lparr>job_mutex_id := Some mid\<rparr>"] j fenced_job_id [OF j(2)]
    unfolding js' by (intro bexI [of _ "j\<lparr>job_mutex_id := Some mid\<rparr>"]) simp_all
qed

lemma persist_own_False:
  assumes "persist_own job mid js = (False, js')" and "distinct (map job_id js)"
  shows "js' = js"
proof -
  have le: "hits (fenced (job_id job) ow tok) js \<le> 1" for ow tok
    by (rule hits_key_le_1 [of job_id js _ "job_id job"]) (use assms(2) fenced_job_id in auto)
  have "upd_where (fenced (job_id job) ow tok) f js = js" if "hits (fenced (job_id job) ow tok) js \<noteq> 1" for ow tok f
    by (rule upd_where_no_hits) (use le [of ow tok] that in linarith)
  then show ?thesis using assms(1) by (auto simp: persist_own_def rj_persistMutexId_def split: option.splits)
qed

lemma release_frees_slot:
  assumes "mutex_wf t" and "m \<in> set t" and "payload_slot p m" and "live m"
  shows "\<forall>x\<in>set (releasePrReviewMutex clk (p_installation_id p) (mutex_id m) t). \<not> (payload_slot p x \<and> live x)"
proof
  fix x
  assume "x \<in> set (releasePrReviewMutex clk (p_installation_id p) (mutex_id m) t)"
  then obtain y where y: "y \<in> set t" "x = (if mx_installation_id y = p_installation_id p \<and> mutex_id y = mutex_id m \<and> live y
      then release_set (of_date clk) y else y)"
    by (auto simp: releasePrReviewMutex_def set_upd_where)
  show "\<not> (payload_slot p x \<and> live x)"
  proof
    assume x: "payload_slot p x \<and> live x"
    then have "x = y" using y(2) by (auto split: if_splits)
    then have "y = m" using live_slot_unique [OF assms(1) y(1) assms(2) _ _ _ assms(4)] x assms(3) unfolding payload_slot_def by blast
    moreover from this have "x = release_set (of_date clk) m"
      using y(2) assms(3,4) by (simp add: payload_slot_def same_slot_def)
    ultimately show False using x by simp
  qed
qed

lemma acquireOrReuse_cases:
  assumes "mutex_wf (pr_review_mutex db)" and "others_ok p me" and "distinct (map job_id (me_steal me (review_jobs db)))"
    and "acquireOrReuseMutex me p job db = (res, db')"
  shows "mutex_wf (pr_review_mutex db') \<and>
    (case res of
       Inl e \<Rightarrow> review_jobs db' = review_jobs db
     | Inr (MxReused mid) \<Rightarrow> job_mutex_id job = Some mid \<and> review_jobs db' = review_jobs db \<and>
         holds_pr p mid (me_renew_now me + 1800000000) (pr_review_mutex db')
     | Inr (MxAcquired mid) \<Rightarrow> holds_pr p mid (me_acquire_now me + 1800000000) (pr_review_mutex db') \<and>
         (\<exists>j\<in>set (review_jobs db'). job_id j = job_id job \<and> job_mutex_id j = Some mid)
     | Inr MxLeaseLost \<Rightarrow> (\<forall>m\<in>set (pr_review_mutex db'). \<not> (payload_slot p m \<and> live m)) \<and>
         review_jobs db' = me_steal me (review_jobs db)
     | Inr MxBusy \<Rightarrow> review_jobs db' = review_jobs db)"
proof -
  obtain ru db1 where ru: "reuse_mutex me p job db = (ru, db1)" by (cases "reuse_mutex me p job db")
  note r1 = reuse_mutex_cases [OF assms(1,2) ru, unfolded DEFAULT_LEASE_TTL_SECONDS_def, simplified]
  show ?thesis
  proof (cases ru)
    case (Some mid)
    then show ?thesis using r1 assms(4) ru by (auto simp: acquireOrReuseMutex_def)
  next
    case None
    show ?thesis
    proof (cases "acquire_tx me p db1")
      case (Inl e)
      then show ?thesis using r1 assms(4) ru None by (auto simp: acquireOrReuseMutex_def)
    next
      case (Inr x)
      obtain r db2 where x: "x = (r, db2)" by (cases x)
      from Inr [unfolded x] obtain t2 where
        acq: "acquirePrReviewMutex (me_gotLock me) (me_acquire_now me) (me_newId me) (p_installation_id p)
            (p_repository_id p) (p_pr_number p) (mutex_holder p) DEFAULT_LEASE_TTL_SECONDS (pr_review_mutex db1) = Inr (r, t2)"
        and db2: "db2 = db1\<lparr>pr_review_mutex := t2\<rparr>"
        by (auto simp: acquire_tx_def split: option.splits if_splits sum.splits)
      have wf2: "mutex_wf t2" using r1 acq by (blast intro: acquire_wf)
      show ?thesis
      proof (cases "acquired r")
        case False
        then show ?thesis using assms(4) ru None Inr x db2 wf2 r1 by (auto simp: acquireOrReuseMutex_def)
      next
        case True
        note new = acquire_acquired [OF acq True]
        obtain ap js where per: "persist_own job (me_newId me) (me_steal me (review_jobs db)) = (ap, js)"
          by (cases "persist_own job (me_newId me) (me_steal me (review_jobs db))")
        have held: "holds_pr p (me_newId me) (me_acquire_now me + 1800000000) t2"
          using new unfolding holds_pr_def
          by (intro bexI [OF _ conjunct2 [OF new]]) (simp add: payload_slot_def same_slot_def live_def DEFAULT_LEASE_TTL_SECONDS_def)
        show ?thesis
        proof (cases ap)
          case True
          then have "res = Inr (MxAcquired (me_newId me))" "db' = db2\<lparr>review_jobs := js\<rparr>"
            using assms(4) ru None Inr x db2 r1 per new \<open>acquired r\<close> by (auto simp: acquireOrReuseMutex_def)
          then show ?thesis using held wf2 db2 persist_own_True per True by auto
        next
          case False
          then have res: "res = Inr MxLeaseLost" "review_jobs db' = js"
              "pr_review_mutex db' = releasePrReviewMutex (me_clk me) (p_installation_id p) (me_newId me) t2"
            using assms(4) ru None Inr x db2 r1 per new \<open>acquired r\<close> by (auto simp: acquireOrReuseMutex_def)
          have "js = me_steal me (review_jobs db)" using persist_own_False per False assms(3) by auto
          moreover obtain m where "m \<in> set t2" "mutex_id m = me_newId me" "payload_slot p m" "live m"
            using held by (auto simp: holds_pr_def)
          then have "\<forall>x\<in>set (pr_review_mutex db'). \<not> (payload_slot p x \<and> live x)"
            using release_frees_slot [OF wf2] res(3) by metis
          moreover have "mutex_wf (pr_review_mutex db')"
            using wf2 by (simp add: res(3) releasePrReviewMutex_def mutex_wf_release)
          ultimately show ?thesis using res by simp
        qed
      qed
    qed
  qed
qed

section \<open>Properties\<close>

text \<open>Taking the mutex for a job never breaks the mutex table and ends in one of five ways: the mutex the job already
  had, live and renewed; a fresh one, live, leased and written on the job's row; busy, when another execution holds the
  pull request; the lease lost, in which case the pull request is left free; or an error. Only a fresh acquire writes the
  job.\<close>

theorem acquireOrReuseMutex_correct:
  assumes "mutex_wf (pr_review_mutex db)" and "others_ok p me" and "distinct (map job_id (me_steal me (review_jobs db)))"
    and "acquireOrReuseMutex me p job db = (res, db')"
  shows "mutex_wf (pr_review_mutex db') \<and>
    (case res of
       Inl e \<Rightarrow> review_jobs db' = review_jobs db
     | Inr (MxReused mid) \<Rightarrow> job_mutex_id job = Some mid \<and> review_jobs db' = review_jobs db \<and>
         holds_pr p mid (me_renew_now me + 1800000000) (pr_review_mutex db')
     | Inr (MxAcquired mid) \<Rightarrow> holds_pr p mid (me_acquire_now me + 1800000000) (pr_review_mutex db') \<and>
         (\<exists>j\<in>set (review_jobs db'). job_id j = job_id job \<and> job_mutex_id j = Some mid)
     | Inr MxLeaseLost \<Rightarrow> (\<forall>m\<in>set (pr_review_mutex db'). \<not> (payload_slot p m \<and> live m)) \<and>
         review_jobs db' = me_steal me (review_jobs db)
     | Inr MxBusy \<Rightarrow> review_jobs db' = review_jobs db)"
  using assms by (rule acquireOrReuse_cases)

definition demo_menv :: mutex_env where
  "demo_menv = \<lparr>me_gotLock = True, me_renew_now = 500, me_acquire_now = 2000, me_newId = ''m2'', me_clk = 3,
     me_between = (\<lambda>t. t), me_steal = (\<lambda>js. js)\<rparr>"

lemma demo_menv_ok:
  "mutex_wf (pr_review_mutex (demo_stuck demo_run))" "others_ok demo_payload demo_menv"
  "distinct (map job_id (me_steal demo_menv (review_jobs (demo_stuck demo_run))))"
proof -
  show "mutex_wf (pr_review_mutex (demo_stuck demo_run))"
    using demo_mx_inv by (simp add: demo_stuck_def mx_inv_def demo_mx_def)
  show "others_ok demo_payload demo_menv" by (auto simp: others_ok_def demo_menv_def mutex_wf_def dest: distinct_key_unique)
  show "distinct (map job_id (me_steal demo_menv (review_jobs (demo_stuck demo_run))))"
    by (simp add: demo_menv_def demo_stuck_def)
qed

theorem acquireOrReuseMutex_correct_witness:
  "holds_pr demo_payload ''m1'' (500 + 1800000000)
     (pr_review_mutex (snd (acquireOrReuseMutex demo_menv demo_payload demo_job (demo_stuck demo_run))))"
proof -
  have "fst (acquireOrReuseMutex demo_menv demo_payload demo_job (demo_stuck demo_run)) = Inr (MxReused ''m1'')"
    by (simp add: acquireOrReuseMutex_def reuse_mutex_def demo_job_def readMutexRow_def demo_stuck_def demo_mutex_def
        payload_slot_def same_slot_def demo_payload_def renewPrReviewMutexLease_def demo_menv_def live_def Let_def)
  then obtain db' where e: "acquireOrReuseMutex demo_menv demo_payload demo_job (demo_stuck demo_run) = (Inr (MxReused ''m1''), db')"
    by (metis prod.collapse)
  have "me_renew_now demo_menv = 500" by (simp add: demo_menv_def)
  then show ?thesis using acquireOrReuseMutex_correct [OF demo_menv_ok e] by (simp add: e)
qed

text \<open>The renew loop abandons the review exactly when the lease was definitively lost or when three renewals in a row
  could not be carried out; a single success in between forgives the errors before it.\<close>

theorem renew_loop_abandons_iff:
  "renew_loop 0 xs \<longleftrightarrow> RenewLost \<in> set xs \<or> sublist [RenewThrew, RenewThrew, RenewThrew] xs"
proof -
  have "renew_loop n xs \<longleftrightarrow> RenewLost \<in> set xs \<or> prefix (replicate (3 - n) RenewThrew) xs
      \<or> sublist [RenewThrew, RenewThrew, RenewThrew] xs" if "n < 3" for n
    using that
  proof (induction xs arbitrary: n)
    case Nil
    then show ?case by (cases "3 - n") auto
  next
    case (Cons x xs)
    have "n = 0 \<or> n = 1 \<or> n = 2" using Cons.prems by auto
    then show ?case
      using Cons.IH [of 0] Cons.IH [of "n + 1"]
      by (cases x; cases xs) (auto simp: classifyRenewOutcome_def MAX_CONSECUTIVE_MUTEX_RENEW_FAILURES_def sublist_Cons_right
          numeral_3_eq_3 numeral_2_eq_2 dest: prefix_imp_sublist)
  qed
  from this [of 0] show ?thesis by (auto simp: numeral_3_eq_3 dest: prefix_imp_sublist)
qed

text \<open>The claim check fails closed on supersede. It lets a job pass only when the review points at exactly that job's
  run; so once a fresh allocation on the review committed, whatever lifecycle transactions follow as long as none allocates
  on that review again, every job of another run is cancelled at its next check, even when its mutex cannot be renewed
  for an error.\<close>

theorem claimCheck_superseded:
  assumes "al_parentRunId a = None" and "transact (allocateRun now clk newRunId e1 e2 a) db = (Inr old, db')"
    and "\<forall>op\<in>set ops. \<not> allocates (al_reviewId a) op" and "p_review_id p = al_reviewId a" and "job_run_id job \<noteq> newRunId"
  shows "\<exists>reason\<in>{''aborted'', ''mutex-lost'', ''superseded''}.
    fst (claimCheck aborted renewFails now' p job mid (fold lc_exec ops db')) = Inl reason"
proof -
  let ?db = "fold lc_exec ops db'"
  have "allocateRun now clk newRunId e1 e2 a db = Inr (old, db')" using assms(2) by (simp add: transact_Inr_iff)
  then have pt: "points_at (al_reviewId a) newRunId ?db" using allocateRun_points_at assms(3) fold_points_at by blast
  have "readCurrentRunId (al_reviewId a) ?db = Some newRunId"
    using pt by (auto simp: readCurrentRunId_def points_at_def filter_empty_conv split: option.splits dest!: first_row_Some)
  then have "readCurrentRunId (al_reviewId a) (?db\<lparr>pr_review_mutex := t\<rparr>) = Some newRunId" for t
    by (simp add: readCurrentRunId_def)
  then show ?thesis using assms(4,5) by (auto simp: claimCheck_def Let_def split_beta)
qed

theorem claimCheck_superseded_witness:
  "\<exists>db' reason. transact (allocateRun 5 5 ''r2'' ''e1'' ''e2'' demo_alloc) demo_db = (Inr (Some ''r1''), db')
     \<and> fst (claimCheck False True 9 demo_payload demo_job ''m1'' db') = Inl reason"
proof -
  obtain db' where db': "transact (allocateRun 5 5 ''r2'' ''e1'' ''e2'' demo_alloc) demo_db = (Inr (Some ''r1''), db')"
    using demo_alloc_commits by blast
  have "\<exists>reason\<in>{''aborted'', ''mutex-lost'', ''superseded''}. fst (claimCheck False True 9 demo_payload demo_job ''m1'' (fold lc_exec [] db')) = Inl reason"
    by (rule claimCheck_superseded [OF _ db']) (simp_all add: demo_alloc_def demo_payload_def demo_job_def)
  then show ?thesis using db' by (auto simp del: fold.simps simp: fold_Nil)
qed

text \<open>The handler leaves no mutex behind. Whatever the pipeline does, and whether it returns or throws, a mutex the
  handler took or reused is released when it ends, and every error of the lost-claim family leaves it as a terminal
  cancel.\<close>

theorem runReviewJob_releases:
  assumes "rj_verifyPayload cd z job = Inr p"
    and "acquireOrReuseMutex (se_mutex se) p job db = (Inr res, db1)" and "res = MxAcquired mid \<or> res = MxReused mid"
    and "se_pipeline se p mid db1 = (r, db2)" and "mutex_wf (pr_review_mutex db2)"
  shows "(\<forall>m\<in>set (pr_review_mutex (snd (runReviewJob cd z se job db))). mutex_id m = mid \<longrightarrow> \<not> live m) \<and>
    fst (runReviewJob cd z se job db) = (case r of
      None \<Rightarrow> JobOk
    | Some (PipeFault e) \<Rightarrow> JobThrow (OtherThrow e)
    | Some (PipeCancel reason) \<Rightarrow> JobThrow (TerminalCancelError reason)
    | Some (PipeLost c) \<Rightarrow> JobThrow (TerminalCancelError (constructor_name c)))"
proof -
  let ?t = "pr_review_mutex db2"
  have run: "runReviewJob cd z se job db = with_mutex se p mid db1"
    using assms(1-3) by (auto simp: runReviewJob_def)
  have "\<not> live m" if mm: "m \<in> set (releasePrReviewMutexActivity clk mid ?t)" "mutex_id m = mid" for m clk
  proof (cases "first_row (filter (\<lambda>m. mutex_id m = mid) ?t)")
    case None
    then show ?thesis using mm by (auto simp: releasePrReviewMutexActivity_def filter_empty_conv)
  next
    case (Some m0)
    have "x = m0" if "x \<in> set ?t" "mutex_id x = mid" for x
      using that first_row_Some [OF Some] assms(5) by (auto simp: mutex_wf_def dest: distinct_key_unique)
    note uniq = this
    obtain x where x: "x \<in> set ?t" "m = (if mx_installation_id x = mx_installation_id m0 \<and> mutex_id x = mid \<and> live x
        then release_set (of_date clk) x else x)"
      using mm(1) Some by (auto simp: releasePrReviewMutexActivity_def releasePrReviewMutex_def set_upd_where)
    then have "mutex_id x = mid" using mm(2) by (simp split: if_splits)
    then have "mx_installation_id x = mx_installation_id m0" using uniq [OF x(1)] by simp
    then show ?thesis using x(2) \<open>mutex_id x = mid\<close> by (cases "live x") simp_all
  qed
  then have "\<forall>m\<in>set (pr_review_mutex (snd (with_mutex se p mid db1))). mutex_id m = mid \<longrightarrow> \<not> live m"
    using assms(4) by (simp add: with_mutex_def)
  moreover have "fst (with_mutex se p mid db1) = (case r of None \<Rightarrow> JobOk | Some e \<Rightarrow> JobThrow (wrap_throw e))"
    using assms(4) by (simp add: with_mutex_def)
  ultimately show ?thesis unfolding run by (simp split: option.splits pipeline_throw.splits)
qed

definition demo_shell :: shell_env where
  "demo_shell = \<lparr>se_mutex = demo_menv, se_pipeline = (\<lambda>p mid db. (Some (PipeLost LostStateDrift), db)), se_release_clk = 4,
     se_verify_fault = (\<lambda>_. plain_error ''bad payload''), se_mutex_fault = (\<lambda>_. plain_error ''tenancy'')\<rparr>"

definition demo_full_job :: review_job where
  "demo_full_job = demo_job\<lparr>job_payload := e_payload demo_rj_args, payload_sha256 := replicate 64 (CHR ''a'')\<rparr>"

theorem runReviewJob_releases_witness:
  "fst (runReviewJob demo_rj_codec demo_zod demo_shell demo_full_job (demo_stuck demo_run)) = JobThrow (TerminalCancelError ''StateDrift'')"
proof -
  have ver: "rj_verifyPayload demo_rj_codec demo_zod demo_full_job = Inr demo_payload"
  proof -
    have "job_payload demo_full_job = e_payload demo_rj_args" by (simp add: demo_full_job_def)
    then show ?thesis using demo_rj_parse unfolding rj_verifyPayload_def
      by (simp add: demo_full_job_def demo_job_def demo_rj_codec_def assertPayloadIdentityMatchesJobRow_def demo_payload_def Let_def)
  qed
  have acq: "fst (acquireOrReuseMutex (se_mutex demo_shell) demo_payload demo_full_job (demo_stuck demo_run)) = Inr (MxReused ''m1'')"
    by (simp add: acquireOrReuseMutex_def reuse_mutex_def demo_full_job_def demo_job_def readMutexRow_def demo_stuck_def demo_mutex_def
        payload_slot_def same_slot_def demo_payload_def renewPrReviewMutexLease_def demo_menv_def live_def Let_def demo_shell_def)
  then obtain db1 where e: "acquireOrReuseMutex (se_mutex demo_shell) demo_payload demo_full_job (demo_stuck demo_run) = (Inr (MxReused ''m1''), db1)"
    by (metis prod.collapse)
  have pipe: "se_pipeline demo_shell demo_payload ''m1'' db1 = (Some (PipeLost LostStateDrift), db1)" by (simp add: demo_shell_def)
  have wf: "mutex_wf (pr_review_mutex db1)"
    using acquireOrReuse_cases [OF demo_menv_ok e [unfolded demo_shell_def shell_env.select_convs]] by simp
  show ?thesis using runReviewJob_releases [OF ver e _ pipe wf] by simp
qed

end
