(* ===== verification/Review_Runner.thy ===== *)
theory Review_Runner
  imports Review_Shell
begin

text \<open>
  \<^verbatim>\<open>runner/review_job_runner.ts\<close>: one claim-run-settle cycle of the review runner, the idle maintenance with its throttled
  ledger prune, and one turn of the loop. The handler is an argument: it gets the claimed job and the database, and what
  it returns includes everything that happened until the settle (its own writes, the heartbeats, other workers). A
  database error that a settling statement throws is a value of the result, since the code's \<^verbatim>\<open>try\<close> catches the first one
  and lets the second escape.
\<close>

section \<open>One cycle\<close>

datatype run_outcome = RIdle | RDone | RFailed | RLeaseLost | RCancelled

record rr_config =
  rc_owner :: string
  rc_leaseS :: int
  rc_maxRuntimeS :: int

record rr_env =
  re_locked :: "uuid \<Rightarrow> bool"
  re_claim_now :: db_time
  re_token :: uuid
  re_clock :: js_date
  re_settle_now :: "nat \<Rightarrow> db_time"
  re_random :: rat
  re_pg :: "review_error \<Rightarrow> thrown"

definition RUN_CANCEL_REASON :: string where
  "RUN_CANCEL_REASON = ''operator_cancelled''"

text \<open>\<open>k\<close> counts the settle attempts of the cycle; it only picks the database's clock.\<close>

definition rr_terminal ::
  "nat \<Rightarrow> rr_config \<Rightarrow> rr_env \<Rightarrow> review_job \<Rightarrow> terminal_job \<Rightarrow> terminal_run \<Rightarrow> string \<Rightarrow> run_outcome \<Rightarrow> review_db
     \<Rightarrow> (review_error + run_outcome) \<times> review_db" where
  "rr_terminal k cfg re job js rs reason oc db =
     (case rj_terminalSettle (re_settle_now re k) (job_id job) (rc_owner cfg) (re_token re) (job_run_id job) js rs reason
             RUN_CANCEL_REASON db of
        (Inl e, db') \<Rightarrow> (Inl e, db')
      | (Inr applied, db') \<Rightarrow> (Inr (if applied then oc else RLeaseLost), db'))"

definition rr_settleFailure ::
  "nat \<Rightarrow> rr_config \<Rightarrow> rr_env \<Rightarrow> review_job \<Rightarrow> string \<Rightarrow> review_db \<Rightarrow> (review_error + run_outcome) \<times> review_db" where
  "rr_settleFailure k cfg re job err db =
     (if max_attempts job \<le> attempts job then rr_terminal k cfg re job JobDead RunFailed err RFailed db
      else (let ((applied, terminal), js) = rj_markFailed (re_settle_now re k) (re_random re) (job_id job) (rc_owner cfg)
                  (re_token re) err 1000 (review_jobs db)
            in (Inr (if applied then RFailed else RLeaseLost), db\<lparr>review_jobs := js\<rparr>)))"

text \<open>The catch block.\<close>

definition rr_catch ::
  "nat \<Rightarrow> rr_config \<Rightarrow> rr_env \<Rightarrow> review_job \<Rightarrow> job_throw \<Rightarrow> review_db \<Rightarrow> (review_error + run_outcome) \<times> review_db" where
  "rr_catch k cfg re job e db =
     (case e of
        TerminalCancelError reason \<Rightarrow> rr_terminal k cfg re job JobCancelled RunCancelled reason RCancelled db
      | OtherThrow x \<Rightarrow>
          (case extractRetryAtHint x (re_clock re) of
             Some retryAt \<Rightarrow>
               (let (applied, js) = rj_deferRetry (job_id job) (rc_owner cfg) (re_token re) (message_of x) retryAt (review_jobs db)
                in (Inr (if applied then RFailed else RLeaseLost), db\<lparr>review_jobs := js\<rparr>))
           | None \<Rightarrow> rr_settleFailure k cfg re job (message_of x) db))"

text \<open>The try block: what it throws the catch block gets.\<close>

definition rr_settle ::
  "rr_config \<Rightarrow> rr_env \<Rightarrow> review_job \<Rightarrow> job_result \<Rightarrow> review_db \<Rightarrow> (review_error + run_outcome) \<times> review_db" where
  "rr_settle cfg re job r db =
     (case r of
        JobOk \<Rightarrow>
          (let (applied, js) = rj_markDone (re_settle_now re 0) (job_id job) (rc_owner cfg) (re_token re) (review_jobs db)
           in (Inr (if applied then RDone else RLeaseLost), db\<lparr>review_jobs := js\<rparr>))
      | JobThrow e \<Rightarrow> rr_catch 0 cfg re job e db
      | JobOverran \<Rightarrow>
          (case rr_settleFailure 0 cfg re job (''max runtime '' @ int_text (rc_maxRuntimeS cfg) @ ''s exceeded'') db of
             (Inl e, db1) \<Rightarrow> rr_catch 1 cfg re job (OtherThrow (re_pg re e)) db1
           | (Inr oc, db1) \<Rightarrow> (Inr oc, db1)))"

definition runOneJob ::
  "(review_job \<Rightarrow> review_db \<Rightarrow> job_result \<times> review_db) \<Rightarrow> rr_config \<Rightarrow> rr_env \<Rightarrow> review_db
     \<Rightarrow> (review_error + run_outcome \<times> uuid option) \<times> review_db" where
  "runOneJob handler cfg re db =
     (case rj_claim (re_locked re) (re_claim_now re) (re_token re) (rc_owner cfg) (rc_leaseS cfg * 1000)
             (rc_maxRuntimeS cfg * 1000) (review_jobs db) of
        (None, js) \<Rightarrow> (Inr (RIdle, None), db\<lparr>review_jobs := js\<rparr>)
      | (Some job, js) \<Rightarrow>
          (let (r, db2) = handler job (db\<lparr>review_jobs := js\<rparr>)
           in case rr_settle cfg re job r db2 of
                (Inl e, db3) \<Rightarrow> (Inl e, db3)
              | (Inr oc, db3) \<Rightarrow> (Inr (oc, Some (job_id job)), db3)))"

section \<open>Idle maintenance and the loop\<close>

text \<open>\<open>raw\<close> is the environment variable as \<^verbatim>\<open>Number(raw)\<close> reads it: absent, not finite, or a number.\<close>

definition DEFAULT_LEDGER_PRUNE_INTERVAL_S :: "rat option option \<Rightarrow> rat" where
  "DEFAULT_LEDGER_PRUNE_INTERVAL_S raw =
     (case raw of None \<Rightarrow> 21600 | Some None \<Rightarrow> 21600 | Some (Some n) \<Rightarrow> if 0 < n then n else 21600)"

text \<open>The loop's state: the database, the marker of the last prune (\<open>None\<close> is \<^verbatim>\<open>-Infinity\<close>), and the instants at which the
  ledger port was asked to prune, latest first.\<close>

record loop_state =
  ls_db :: review_db
  ls_lastPrune :: "rat option"
  ls_prunes :: "rat list"

definition runIdleMaintenance ::
  "rat \<Rightarrow> (uuid \<Rightarrow> bool) \<Rightarrow> db_time \<Rightarrow> js_date \<Rightarrow> rat \<Rightarrow> loop_state \<Rightarrow> (review_error + unit) \<times> loop_state" where
  "runIdleMaintenance interval locked now clk tick s =
     (case rj_reapStuckRuns locked now clk REAP_STUCK_RUNS_SWEEP_LIMIT (ls_db s) of
        (Inl e, db) \<Rightarrow> (Inl e, s\<lparr>ls_db := db\<rparr>)
      | (Inr n, db) \<Rightarrow>
          (Inr (),
           if (case ls_lastPrune s of None \<Rightarrow> True | Some l \<Rightarrow> interval \<le> tick - l)
           then s\<lparr>ls_db := db, ls_lastPrune := Some tick, ls_prunes := tick # ls_prunes s\<rparr>
           else s\<lparr>ls_db := db\<rparr>))"

text \<open>One turn of \<^verbatim>\<open>RunnerLoop.run\<close> up to the idle sleep; an error ends the loop.\<close>

definition review_loop_turn ::
  "(review_job \<Rightarrow> review_db \<Rightarrow> job_result \<times> review_db) \<Rightarrow> rr_config \<Rightarrow> rr_env \<Rightarrow> rat \<Rightarrow> bool \<Rightarrow> (uuid \<Rightarrow> bool) \<Rightarrow> db_time
     \<Rightarrow> js_date \<Rightarrow> rat \<Rightarrow> loop_state \<Rightarrow> (review_error + unit) \<times> loop_state" where
  "review_loop_turn handler cfg re interval stopped locked now clk tick s =
     (case runOneJob handler cfg re (ls_db s) of
        (Inl e, db) \<Rightarrow> (Inl e, s\<lparr>ls_db := db\<rparr>)
      | (Inr (oc, _), db) \<Rightarrow>
          if oc = RIdle \<and> \<not> stopped then runIdleMaintenance interval locked now clk tick (s\<lparr>ls_db := db\<rparr>)
          else (Inr (), s\<lparr>ls_db := db\<rparr>))"

section \<open>The specification of a cycle\<close>

datatype rr_verdict = RvDone | RvCancel string | RvDie string | RvRetry string | RvDefer string js_date

definition failure_verdict :: "review_job \<Rightarrow> string \<Rightarrow> rr_verdict" where
  "failure_verdict job err = (if attempts job < max_attempts job then RvRetry err else RvDie err)"

definition rr_verdict :: "rr_config \<Rightarrow> rr_env \<Rightarrow> review_job \<Rightarrow> job_result \<Rightarrow> rr_verdict" where
  "rr_verdict cfg re job r =
     (case r of
        JobOk \<Rightarrow> RvDone
      | JobOverran \<Rightarrow> failure_verdict job (''max runtime '' @ int_text (rc_maxRuntimeS cfg) @ ''s exceeded'')
      | JobThrow (TerminalCancelError reason) \<Rightarrow> RvCancel reason
      | JobThrow (OtherThrow x) \<Rightarrow>
          (case extractRetryAtHint x (re_clock re) of
             Some d \<Rightarrow> RvDefer (message_of x) d | None \<Rightarrow> failure_verdict job (message_of x)))"

text \<open>The job of the cycle ends in a state with its lease cleared.\<close>

definition job_ends :: "uuid \<Rightarrow> job_state \<Rightarrow> review_db \<Rightarrow> bool" where
  "job_ends jid st db \<longleftrightarrow> (\<exists>j\<in>set (review_jobs db). job_id j = jid \<and> state j = st \<and> attempt_token j = None)"

definition run_in :: "uuid \<Rightarrow> string set \<Rightarrow> review_db \<Rightarrow> bool" where
  "run_in rid S db \<longleftrightarrow> (\<exists>r\<in>set (review_runs db). run_id r = rid \<and> lifecycle_state r \<in> S)"

text \<open>Job and run settle together; a run that rests in another terminal state makes the statement throw.\<close>

definition settles_both ::
  "uuid \<Rightarrow> uuid \<Rightarrow> run_outcome \<Rightarrow> job_state \<Rightarrow> string \<Rightarrow> string set \<Rightarrow> review_db \<Rightarrow> (review_error + run_outcome \<times> uuid option) \<Rightarrow> review_db \<Rightarrow> bool"
  where
  "settles_both jid rid oc js rs bad db res db' \<longleftrightarrow>
     (if run_in rid bad db then res = Inl RunCheckViolation \<and> db' = db
      else res = Inr (oc, Some jid) \<and> job_ends jid js db' \<and> \<not> run_in rid (- {rs}) db')"

fun verdict_holds ::
  "uuid \<Rightarrow> uuid \<Rightarrow> rr_verdict \<Rightarrow> review_db \<Rightarrow> (review_error + run_outcome \<times> uuid option) \<Rightarrow> review_db \<Rightarrow> bool" where
  "verdict_holds jid rid RvDone db res db' \<longleftrightarrow>
     res = Inr (RDone, Some jid) \<and> job_ends jid Done db' \<and> review_runs db' = review_runs db"
| "verdict_holds jid rid (RvRetry err) db res db' \<longleftrightarrow>
     res = Inr (RFailed, Some jid) \<and> job_ends jid Ready db' \<and> review_runs db' = review_runs db"
| "verdict_holds jid rid (RvDefer err d) db res db' \<longleftrightarrow>
     res = Inr (RFailed, Some jid) \<and> job_ends jid Ready db' \<and> review_runs db' = review_runs db"
| "verdict_holds jid rid (RvCancel reason) db res db' \<longleftrightarrow>
     settles_both jid rid RCancelled Cancelled ''CANCELLED'' {''COMPLETED'', ''FAILED''} db res db'"
| "verdict_holds jid rid (RvDie err) db res db' \<longleftrightarrow>
     settles_both jid rid RFailed Dead ''FAILED'' {''COMPLETED'', ''CANCELLED''} db res db'"

lemma settle_run_checks:
  assumes "run_checks r"
  shows "run_checks (settle_run RunFailed now c r) \<longleftrightarrow> lifecycle_state r \<notin> {''COMPLETED'', ''CANCELLED''}"
    and "run_checks (settle_run RunCancelled now RUN_CANCEL_REASON r) \<longleftrightarrow> lifecycle_state r \<notin> {''COMPLETED'', ''FAILED''}"
  using assms by (auto simp: run_checks_def settle_run_def RUN_CANCEL_REASON_def lc_consts)

lemma fenced_hits:
  assumes "table_wf t"
  shows "hits (fenced jid owner tok) t = 1 \<longleftrightarrow> (\<exists>j\<in>set t. fenced jid owner tok j)"
  by (rule hits_key_eq_1 [of job_id t _ jid]) (use assms fenced_job_id in \<open>auto simp: table_wf_def\<close>)

text \<open>The terminal settle on a database where the lease is held, and where it is not.\<close>

lemma rr_terminal_held:
  assumes "review_wf db" and "table_wf (review_jobs db)" and "\<exists>j\<in>set (review_jobs db). fenced (job_id job) (rc_owner cfg) (re_token re) j"
    and "rs = RunFailed \<and> js = JobDead \<and> bad = {''COMPLETED'', ''CANCELLED''} \<and> st = ''FAILED'' \<and> jst = Dead \<or>
         rs = RunCancelled \<and> js = JobCancelled \<and> bad = {''COMPLETED'', ''FAILED''} \<and> st = ''CANCELLED'' \<and> jst = Cancelled"
  shows "settles_both (job_id job) (job_run_id job) oc jst st bad db
     (case fst (rr_terminal k cfg re job js rs reason oc db) of Inl e \<Rightarrow> Inl e | Inr o' \<Rightarrow> Inr (o', Some (job_id job)))
     (snd (rr_terminal k cfg re job js rs reason oc db))"
proof -
  let ?F = "fenced (job_id job) (rc_owner cfg) (re_token re)" and ?rid = "job_run_id job"
  let ?sr = "settle_run rs (re_settle_now re k) RUN_CANCEL_REASON" and ?sj = "settle_job js (re_settle_now re k) reason"
  have hit: "hits ?F (review_jobs db) = 1"
    using assms(3) fenced_hits [OF assms(2)] by blast
  have "run_checks r" if "r \<in> set (review_runs db)" for r using assms(1) that by (auto simp: review_wf_def runs_ok_def)
  then have blocked: "(\<forall>r\<in>set (review_runs db). run_id r = ?rid \<longrightarrow> run_checks (?sr r)) \<longleftrightarrow> \<not> run_in ?rid bad db"
    using assms(4) settle_run_checks by (auto simp: run_in_def)
  have "commit_ok db" using assms(1) by (simp add: review_wf_def)
  note cases = terminalSettle_cases [OF this, of "re_settle_now re k" "job_id job" "rc_owner cfg" "re_token re" ?rid js rs reason RUN_CANCEL_REASON]
  show ?thesis
  proof (cases "run_in ?rid bad db")
    case True
    then show ?thesis using cases hit blocked by (simp add: rr_terminal_def settles_both_def)
  next
    case False
    have res: "rr_terminal k cfg re job js rs reason oc db = (Inr oc, db\<lparr>review_jobs := upd_where ?F ?sj (review_jobs db),
        review_runs := upd_where (\<lambda>r. run_id r = ?rid) ?sr (review_runs db)\<rparr>)"
      using cases hit blocked False by (simp add: rr_terminal_def)
    obtain j where j: "j \<in> set (review_jobs db)" "?F j" using assms(3) by blast
    have mem: "?sj j \<in> set (upd_where ?F ?sj (review_jobs db))" using j by (rule upd_where_mem_changed)
    have "state (?sj j) = jst" using assms(4) by (auto simp: rj_settle_defs clear_lease_def)
    then have "job_ends (job_id job) jst (snd (rr_terminal k cfg re job js rs reason oc db))"
      unfolding res job_ends_def using fenced_job_id [OF j(2)] mem by (intro bexI [of _ "?sj j"]) simp_all
    moreover have "lifecycle_state (?sr r) = st" for r using assms(4) by (auto simp: settle_run_def)
    then have "\<not> run_in ?rid (- {st}) (snd (rr_terminal k cfg re job js rs reason oc db))"
      unfolding res by (auto simp: run_in_def set_upd_where split: if_splits)
    ultimately show ?thesis using False by (simp add: settles_both_def res)
  qed
qed

lemma rr_terminal_lost:
  assumes "review_wf db" and "\<forall>j\<in>set (review_jobs db). \<not> fenced (job_id job) (rc_owner cfg) (re_token re) j"
  shows "rr_terminal k cfg re job js rs reason oc db = (Inr RLeaseLost, db)"
proof -
  have "hits (fenced (job_id job) (rc_owner cfg) (re_token re)) (review_jobs db) = 0" using assms(2) by (simp add: hits_0_iff)
  moreover from this have "upd_where (fenced (job_id job) (rc_owner cfg) (re_token re)) f (review_jobs db) = review_jobs db" for f
    by (rule upd_where_no_hits)
  ultimately show ?thesis using terminalSettle_cases [of db] assms(1) by (simp add: rr_terminal_def review_wf_def)
qed

lemma rr_settle_lost:
  assumes "review_wf db" and "\<forall>j\<in>set (review_jobs db). \<not> fenced (job_id job) (rc_owner cfg) (re_token re) j"
  shows "rr_settle cfg re job r db = (Inr RLeaseLost, db)"
proof -
  let ?F = "fenced (job_id job) (rc_owner cfg) (re_token re)"
  have no: "hits ?F (review_jobs db) = 0" using assms(2) by (simp add: hits_0_iff)
  then have same: "upd_where ?F f (review_jobs db) = review_jobs db" for f by (rule upd_where_no_hits)
  have fail: "rr_settleFailure k cfg re job err db = (Inr RLeaseLost, db)" for k err
    using rr_terminal_lost [OF assms] no same by (simp add: rr_settleFailure_def rj_markFailed_def Let_def length_returning)
  have "rr_catch k cfg re job e db = (Inr RLeaseLost, db)" for k e
    using rr_terminal_lost [OF assms] no same fail
    by (simp add: rr_catch_def rj_deferRetry_def split: job_throw.splits option.splits)
  then show ?thesis using no same fail by (simp add: rr_settle_def rj_markDone_def split: job_result.splits)
qed

text \<open>The single-row settles on a database where the lease is held.\<close>

lemma settle_row_held:
  assumes "table_wf (review_jobs db)" and "j \<in> set (review_jobs db)" and "fenced jid owner tok j"
    and "\<And>j. fenced jid owner tok j \<Longrightarrow> job_id (f j) = job_id j" and "state (f j) = st" and "attempt_token (f j) = None"
  shows "hits (fenced jid owner tok) (review_jobs db) = 1"
    and "job_ends jid st (db\<lparr>review_jobs := upd_where (fenced jid owner tok) f (review_jobs db)\<rparr>)"
proof -
  show "hits (fenced jid owner tok) (review_jobs db) = 1"
    using assms(2,3) fenced_hits [OF assms(1)] by blast
  have "f j \<in> set (upd_where (fenced jid owner tok) f (review_jobs db))" using assms(2,3) by (rule upd_where_mem_changed)
  then show "job_ends jid st (db\<lparr>review_jobs := upd_where (fenced jid owner tok) f (review_jobs db)\<rparr>)"
    using assms(3-6) fenced_job_id [OF assms(3)] unfolding job_ends_def by (intro bexI [of _ "f j"]) simp_all
qed

abbreviation with_id :: "uuid \<Rightarrow> review_error + run_outcome \<Rightarrow> review_error + run_outcome \<times> uuid option" where
  "with_id jid r \<equiv> (case r of Inl e \<Rightarrow> Inl e | Inr oc \<Rightarrow> Inr (oc, Some jid))"

lemma rr_settleFailure_held:
  assumes "review_wf db" and "table_wf (review_jobs db)" and "j \<in> set (review_jobs db)"
    and "fenced (job_id job) (rc_owner cfg) (re_token re) j" and "attempts j = attempts job" and "max_attempts j = max_attempts job"
  shows "verdict_holds (job_id job) (job_run_id job) (failure_verdict job err) db
    (with_id (job_id job) (fst (rr_settleFailure k cfg re job err db))) (snd (rr_settleFailure k cfg re job err db))"
proof (cases "max_attempts job \<le> attempts job")
  case True
  then show ?thesis
    using rr_terminal_held [OF assms(1,2), of job cfg re RunFailed JobDead _ _ _ RFailed k err] assms(3,4)
    by (auto simp: rr_settleFailure_def failure_verdict_def)
next
  case False
  let ?f = "rj_fail_set (re_settle_now re k) err 1000 (re_random re)"
  have "job_id (?f j) = job_id j" "attempt_token (?f j) = None" for j by (simp_all add: rj_fail_set_def clear_lease_def)
  moreover have "state (?f j) = Ready" using False assms(5,6) by (simp add: rj_fail_set_def clear_lease_def)
  ultimately have "hits (fenced (job_id job) (rc_owner cfg) (re_token re)) (review_jobs db) = 1"
    "job_ends (job_id job) Ready (db\<lparr>review_jobs := upd_where (fenced (job_id job) (rc_owner cfg) (re_token re)) ?f (review_jobs db)\<rparr>)"
    using settle_row_held [OF assms(2-4), of ?f] by blast+
  then show ?thesis using False
    by (simp add: rr_settleFailure_def failure_verdict_def rj_markFailed_def Let_def length_returning)
qed

lemma rr_catch_held:
  assumes "review_wf db" and "table_wf (review_jobs db)" and "j \<in> set (review_jobs db)"
    and "fenced (job_id job) (rc_owner cfg) (re_token re) j" and "attempts j = attempts job" and "max_attempts j = max_attempts job"
  shows "verdict_holds (job_id job) (job_run_id job) (rr_verdict cfg re job (JobThrow e)) db
    (with_id (job_id job) (fst (rr_catch k cfg re job e db))) (snd (rr_catch k cfg re job e db))"
proof (cases e)
  case (TerminalCancelError reason)
  then show ?thesis
    using rr_terminal_held [OF assms(1,2), of job cfg re RunCancelled JobCancelled _ _ _ RCancelled k reason] assms(3,4)
    by (auto simp: rr_catch_def rr_verdict_def)
next
  case (OtherThrow x)
  show ?thesis
  proof (cases "extractRetryAtHint x (re_clock re)")
    case None
    then show ?thesis using rr_settleFailure_held [OF assms, of "message_of x" k] OtherThrow by (simp add: rr_catch_def rr_verdict_def)
  next
    case (Some d)
    let ?f = "\<lambda>r. clear_lease (r\<lparr>last_error := Some (left_text 2000 (message_of x)), state := Ready, attempts := attempts r - 1,
           run_after := of_date d\<rparr>) :: review_job"
    have "job_id (?f j) = job_id j" "attempt_token (?f j) = None" "state (?f j) = Ready" for j by (simp_all add: clear_lease_def)
    then have "hits (fenced (job_id job) (rc_owner cfg) (re_token re)) (review_jobs db) = 1"
      "job_ends (job_id job) Ready (db\<lparr>review_jobs := upd_where (fenced (job_id job) (rc_owner cfg) (re_token re)) ?f (review_jobs db)\<rparr>)"
      using settle_row_held [OF assms(2-4), of ?f] by blast+
    then show ?thesis using Some OtherThrow by (simp add: rr_catch_def rr_verdict_def rj_deferRetry_def)
  qed
qed

lemma rr_settle_held:
  assumes "review_wf db" and "table_wf (review_jobs db)" and "j \<in> set (review_jobs db)"
    and "fenced (job_id job) (rc_owner cfg) (re_token re) j" and "attempts j = attempts job" and "max_attempts j = max_attempts job"
    and "\<forall>e. extractRetryAtHint (re_pg re e) (re_clock re) = None"
  shows "verdict_holds (job_id job) (job_run_id job) (rr_verdict cfg re job r) db
    (with_id (job_id job) (fst (rr_settle cfg re job r db))) (snd (rr_settle cfg re job r db))"
proof (cases r)
  case JobOk
  let ?f = "\<lambda>r. clear_lease (r\<lparr>state := Done, finished_at := Some (re_settle_now re 0)\<rparr>) :: review_job"
  have "job_id (?f j) = job_id j" "attempt_token (?f j) = None" "state (?f j) = Done" for j by (simp_all add: clear_lease_def)
  then have "hits (fenced (job_id job) (rc_owner cfg) (re_token re)) (review_jobs db) = 1"
    "job_ends (job_id job) Done (db\<lparr>review_jobs := upd_where (fenced (job_id job) (rc_owner cfg) (re_token re)) ?f (review_jobs db)\<rparr>)"
    using settle_row_held [OF assms(2-4), of ?f] by blast+
  then show ?thesis using JobOk by (simp add: rr_settle_def rr_verdict_def rj_markDone_def)
next
  case (JobThrow e)
  then show ?thesis using rr_catch_held [OF assms(1-6), of e 0] by (simp add: rr_settle_def)
next
  case JobOverran
  let ?err = "''max runtime '' @ int_text (rc_maxRuntimeS cfg) @ ''s exceeded''"
  obtain x db1 where first: "rr_settleFailure 0 cfg re job ?err db = (x, db1)" by (cases "rr_settleFailure 0 cfg re job ?err db")
  have v: "verdict_holds (job_id job) (job_run_id job) (failure_verdict job ?err) db (with_id (job_id job) x) db1"
    using rr_settleFailure_held [OF assms(1-6), of ?err 0] first by simp
  show ?thesis
  proof (cases x)
    case (Inr oc)
    then show ?thesis using v first JobOverran by (simp add: rr_settle_def rr_verdict_def)
  next
    case (Inl e)
    then have die: "\<not> attempts job < max_attempts job" "run_in (job_run_id job) {''COMPLETED'', ''CANCELLED''} db" "db1 = db"
      using v by (auto simp: failure_verdict_def settles_both_def split: if_splits)
    have "rr_settle cfg re job r db = rr_settleFailure 1 cfg re job (message_of (re_pg re e)) db"
      using first Inl JobOverran die(3) assms(7) by (simp add: rr_settle_def rr_catch_def)
    moreover have "verdict_holds (job_id job) (job_run_id job) (RvDie ?err) db
        (with_id (job_id job) (fst (rr_settleFailure 1 cfg re job (message_of (re_pg re e)) db)))
        (snd (rr_settleFailure 1 cfg re job (message_of (re_pg re e)) db))"
      using rr_settleFailure_held [OF assms(1-6), of "message_of (re_pg re e)" 1] die(1) by (simp add: failure_verdict_def)
    ultimately show ?thesis using JobOverran die(1) by (simp add: rr_verdict_def failure_verdict_def)
  qed
qed

section \<open>Properties\<close>

text \<open>(C8) The fate of a claimed review job. If the worker still holds the lease when it settles, job and run end as the
  verdict says: done; cancelled together; dead and failed together; ready again with the run untouched, for a retry or at
  the throttle's instant. If the run already rests in another terminal state the settle throws and changes nothing. If the
  lease was lost the worker says so and changes nothing.\<close>

theorem runOneJob_fate:
  assumes "rj_claim (re_locked re) (re_claim_now re) (re_token re) (rc_owner cfg) (rc_leaseS cfg * 1000) (rc_maxRuntimeS cfg * 1000)
      (review_jobs db) = (Some job, js)"
    and "handler job (db\<lparr>review_jobs := js\<rparr>) = (r, db2)" and "review_wf db2" and "table_wf (review_jobs db2)"
    and "\<forall>j\<in>set (review_jobs db2). fenced (job_id job) (rc_owner cfg) (re_token re) j
           \<longrightarrow> attempts j = attempts job \<and> max_attempts j = max_attempts job"
    and "\<forall>e. extractRetryAtHint (re_pg re e) (re_clock re) = None"
    and "runOneJob handler cfg re db = (res, db')"
  shows "if \<exists>j\<in>set (review_jobs db2). fenced (job_id job) (rc_owner cfg) (re_token re) j
    then verdict_holds (job_id job) (job_run_id job) (rr_verdict cfg re job r) db2 res db'
    else res = Inr (RLeaseLost, Some (job_id job)) \<and> db' = db2"
proof -
  have run: "res = with_id (job_id job) (fst (rr_settle cfg re job r db2))" "db' = snd (rr_settle cfg re job r db2)"
    using assms(1,2,7) by (auto simp: runOneJob_def split: prod.splits sum.splits)
  show ?thesis
  proof (cases "\<exists>j\<in>set (review_jobs db2). fenced (job_id job) (rc_owner cfg) (re_token re) j")
    case True
    then obtain j where "j \<in> set (review_jobs db2)" "fenced (job_id job) (rc_owner cfg) (re_token re) j" by blast
    then show ?thesis using rr_settle_held [OF assms(3,4) _ _ _ _ assms(6)] assms(5) run True by auto
  next
    case False
    then show ?thesis using rr_settle_lost [OF assms(3), of job cfg re r] run by simp
  qed
qed

definition demo_rcfg :: rr_config where
  "demo_rcfg = \<lparr>rc_owner = ''w1'', rc_leaseS = 60, rc_maxRuntimeS = 600\<rparr>"

definition demo_renv :: rr_env where
  "demo_renv = \<lparr>re_locked = (\<lambda>_. False), re_claim_now = 2000, re_token = ''t9'', re_clock = 3, re_settle_now = (\<lambda>_. 3000),
     re_random = 0, re_pg = (\<lambda>_. plain_error ''check violation'')\<rparr>"

definition demo_ready_job :: review_job where
  "demo_ready_job = demo_job\<lparr>state := Ready, lease_owner := None, attempt_token := None, leased_until := None, timeout_at := None,
     heartbeat_at := None, attempts := 2\<rparr>"

theorem runOneJob_fate_witness:
  "\<exists>res db'. runOneJob (\<lambda>job db. (JobThrow (TerminalCancelError ''superseded''), db)) demo_rcfg demo_renv
        (demo_stuck demo_run\<lparr>review_jobs := [demo_ready_job]\<rparr>) = (res, db')
     \<and> settles_both ''j1'' ''r1'' RCancelled Cancelled ''CANCELLED'' {''COMPLETED'', ''FAILED''}
        (demo_stuck demo_run\<lparr>review_jobs := [rj_claim_set 2000 ''t9'' ''w1'' 60000 600000 demo_ready_job]\<rparr>) res db'"
proof -
  let ?h = "\<lambda>job db. (JobThrow (TerminalCancelError ''superseded''), db)" and ?db = "demo_stuck demo_run\<lparr>review_jobs := [demo_ready_job]\<rparr>"
  let ?job = "rj_claim_set 2000 ''t9'' ''w1'' 60000 600000 demo_ready_job"
  have cl: "rj_claim (re_locked demo_renv) (re_claim_now demo_renv) (re_token demo_renv) (rc_owner demo_rcfg) (rc_leaseS demo_rcfg * 1000)
      (rc_maxRuntimeS demo_rcfg * 1000) (review_jobs ?db) = (Some ?job, [?job])"
    by (simp add: rj_claim_def pick_claim_def order_by_def claimable_def demo_renv_def demo_rcfg_def demo_ready_job_def demo_job_def returning_def Let_def)
  have tab: "table_wf [?job]"
    by (simp add: table_wf_def job_wf_def terminal_def rj_claim_set_def demo_ready_job_def demo_job_def)
  have r: "run_id demo_run = ''r1''" "rr_review_id demo_run = ''v1''" "superseded_by_run_id demo_run = None"
    by (simp_all add: demo_run_def)
  have wf: "review_wf (demo_stuck demo_run\<lparr>review_jobs := [?job]\<rparr>)"
    using demo_stuck_wf(1) [OF demo_run_checks r] by (simp add: review_wf_def runs_ok_def refs_ok_def commit_ok_def)
  obtain res db' where run: "runOneJob ?h demo_rcfg demo_renv ?db = (res, db')" by (meson surj_pair)
  have job: "fenced (job_id ?job) (rc_owner demo_rcfg) (re_token demo_renv) ?job" "job_id ?job = ''j1''" "job_run_id ?job = ''r1''"
    by (simp_all add: fenced_def rj_claim_set_def demo_ready_job_def demo_job_def demo_rcfg_def demo_renv_def)
  have "verdict_holds ''j1'' ''r1'' (rr_verdict demo_rcfg demo_renv ?job (JobThrow (TerminalCancelError ''superseded'')))
      (demo_stuck demo_run\<lparr>review_jobs := [?job]\<rparr>) res db'"
    using runOneJob_fate [OF cl, where handler = ?h and r = "JobThrow (TerminalCancelError ''superseded'')"
        and db' = db' and res = res] job tab wf run
    by (simp add: demo_renv_def plain_error_def extractRetryAtHint_def THROTTLE_ERROR_NAMES_def)
  then show ?thesis using run by (auto simp: rr_verdict_def)
qed

text \<open>An idle cycle, and what the throttle keeps.\<close>

fun idle_step :: "rat \<Rightarrow> (uuid \<Rightarrow> bool) \<times> db_time \<times> js_date \<times> rat \<Rightarrow> loop_state \<Rightarrow> loop_state" where
  "idle_step interval (locked, now, clk, tick) s = snd (runIdleMaintenance interval locked now clk tick s)"

definition prunes_spaced :: "rat \<Rightarrow> loop_state \<Rightarrow> bool" where
  "prunes_spaced interval s \<longleftrightarrow>
     ls_lastPrune s = first_row (ls_prunes s) \<and> successively (\<lambda>later earlier. earlier + interval \<le> later) (ls_prunes s)"

interpretation prune: history "idle_step interval" "prunes_spaced interval" for interval
proof
  fix s and op :: "(uuid \<Rightarrow> bool) \<times> db_time \<times> js_date \<times> rat"
  assume "prunes_spaced interval s"
  then show "prunes_spaced interval (idle_step interval op s)"
    by (cases op; cases "ls_prunes s")
       (auto simp: prunes_spaced_def runIdleMaintenance_def first_row_def algebra_simps split: prod.splits sum.splits option.splits)
qed

text \<open>The ledger prune is throttled: along every sequence of idle cycles, at whatever instants, two prunes are at
  least one interval apart, and the interval is positive whatever the environment variable says.\<close>

theorem ledger_prune_throttled:
  assumes "ls_prunes s = []" and "ls_lastPrune s = None"
  shows "0 < DEFAULT_LEDGER_PRUNE_INTERVAL_S raw \<and>
    successively (\<lambda>later earlier. earlier + DEFAULT_LEDGER_PRUNE_INTERVAL_S raw \<le> later)
      (ls_prunes (fold (idle_step (DEFAULT_LEDGER_PRUNE_INTERVAL_S raw)) cycles s))"
proof -
  have "prunes_spaced i s" for i using assms by (simp add: prunes_spaced_def)
  then have "prunes_spaced i (fold (idle_step i) cycles s)" for i by (rule prune.fold_inv)
  then show ?thesis
    by (auto simp: prunes_spaced_def DEFAULT_LEDGER_PRUNE_INTERVAL_S_def split: option.splits)
qed

theorem ledger_prune_throttled_witness:
  "successively (\<lambda>later earlier. earlier + 21600 \<le> later) (ls_prunes (fold (idle_step 21600)
     [(\<lambda>_. False, 1, 1, 10), (\<lambda>_. False, 2, 2, 20), (\<lambda>_. False, 3, 3, 30000)] \<lparr>ls_db = demo_db, ls_lastPrune = None, ls_prunes = []\<rparr>))"
  using ledger_prune_throttled [of "\<lparr>ls_db = demo_db, ls_lastPrune = None, ls_prunes = []\<rparr>" "None"]
  by (simp add: DEFAULT_LEDGER_PRUNE_INTERVAL_S_def del: fold.simps fold_simps)

end
