(* ===== verification/Scheduler.thy ===== *)
theory Scheduler
  imports Background_Jobs
begin

text \<open>
  \<^verbatim>\<open>runner/scheduler.ts\<close>: the cadence computation with its cron parser, and one pass of the poller over
  \<^verbatim>\<open>core.scheduled_jobs\<close>. The enqueue port is an argument of the pass, as it is in the code; the locale \<open>enqueue_port\<close> states
  what the pass relies on, and the job repository is the interpretation.

  JavaScript dates are milliseconds with the range \<^verbatim>\<open>Date\<close> has; a value outside of it is an Invalid Date, \<open>None\<close>.
  \<^verbatim>\<open>Date.UTC\<close> reads the years 0 to 99 as 1900 to 1999; the process clock is past the epoch, which is what
  \<open>computeNextRun_cron\<close> assumes.
\<close>

section \<open>Cron fields\<close>

datatype sched_error =
    BadIntervalSpec string
  | BadCronSpec string
  | NoMatchingInstant string
  | BadCadenceKind string
  | NewerEnvelope int
  | NoInputContract string
  | InputRejected string
  | EnqueueFailed bj_error
  | AdvanceFailed

definition MAX_DATE :: int where
  "MAX_DATE = 8640000000000000"

definition to_js_date :: "int \<Rightarrow> js_date option" where
  "to_js_date ms = (if \<bar>ms\<bar> \<le> MAX_DATE then Some ms else None)"

text \<open>\<^verbatim>\<open>for (let v = lo; v <= hi; v += step) out.add(v)\<close>\<close>

function cron_values :: "nat \<Rightarrow> nat \<Rightarrow> nat \<Rightarrow> nat list" where
  "cron_values lo hi step = (if hi < lo \<or> step = 0 then [] else lo # cron_values (lo + step) hi step)"
  by auto

termination cron_values
  by (relation "measure (\<lambda>(lo, hi, step). Suc hi - lo)") auto

declare cron_values.simps [simp del]

text \<open>\<^verbatim>\<open>s.indexOf(c)\<close> with the two slices around it.\<close>

fun cut_at :: "char \<Rightarrow> string \<Rightarrow> (string \<times> string) option" where
  "cut_at c [] = None"
| "cut_at c (x # xs) = (if x = c then Some ([], xs) else map_option (\<lambda>(a, b). (x # a, b)) (cut_at c xs))"

text \<open>The base of an atom: the values it ranges over.\<close>

definition cron_base :: "string \<Rightarrow> nat \<Rightarrow> nat \<Rightarrow> (nat \<times> nat) option" where
  "cron_base base mn mx =
     (if base = ''*'' then Some (mn, mx)
      else if CHR ''-'' \<in> set base then
        (case split_on (CHR ''-'') base of
           [a, b] \<Rightarrow> if all_digits a \<and> all_digits b \<and> number_of a \<le> number_of b then Some (number_of a, number_of b) else None
         | _ \<Rightarrow> None)
      else if all_digits base then Some (number_of base, number_of base) else None)"

definition cron_atom :: "string \<Rightarrow> nat \<Rightarrow> nat \<Rightarrow> nat list option" where
  "cron_atom atom mn mx =
     (case (case cut_at (CHR ''/'') atom of
              None \<Rightarrow> Some (atom, 1)
            | Some (base, stepStr) \<Rightarrow>
                if \<not> all_digits stepStr \<or> number_of stepStr < 1 then None
                else if base \<noteq> ''*'' \<and> CHR ''-'' \<notin> set base then None
                else Some (base, number_of stepStr)) of
        None \<Rightarrow> None
      | Some (base, step) \<Rightarrow>
          (case cron_base base mn mx of
             None \<Rightarrow> None
           | Some (lo, hi) \<Rightarrow> if lo < mn \<or> mx < hi then None else Some (cron_values lo hi step)))"

fun cron_atoms :: "string list \<Rightarrow> nat \<Rightarrow> nat \<Rightarrow> nat list option" where
  "cron_atoms [] mn mx = Some []"
| "cron_atoms (a # as) mn mx =
     (case cron_atom a mn mx of
        None \<Rightarrow> None
      | Some vs \<Rightarrow> (case cron_atoms as mn mx of None \<Rightarrow> None | Some ws \<Rightarrow> Some (vs @ ws)))"

text \<open>\<^verbatim>\<open>parseCronField\<close>; \<open>None\<close> is \<^verbatim>\<open>badCronSpec\<close>.\<close>

definition parseCronField :: "string \<Rightarrow> nat \<Rightarrow> nat \<Rightarrow> nat list option" where
  "parseCronField fld mn mx = (if fld = [] then None else cron_atoms (split_on (CHR '','') fld) mn mx)"

section \<open>The next run\<close>

definition utc_minute :: "js_date \<Rightarrow> int" where
  "utc_minute t = (t div 60000) mod 60"

definition utc_hour :: "js_date \<Rightarrow> int" where
  "utc_hour t = (t div 3600000) mod 24"

definition cron_match :: "nat list \<Rightarrow> nat list \<Rightarrow> js_date \<Rightarrow> bool" where
  "cron_match mins hrs t \<longleftrightarrow> \<bar>t\<bar> \<le> MAX_DATE \<and> utc_minute t \<in> int ` set mins \<and> utc_hour t \<in> int ` set hrs"

fun cron_scan :: "nat \<Rightarrow> int \<Rightarrow> js_date \<Rightarrow> nat list \<Rightarrow> nat list \<Rightarrow> js_date option" where
  "cron_scan 0 i base mins hrs = None"
| "cron_scan (Suc k) i base mins hrs =
     (if cron_match mins hrs (base + i * 60000) then Some (base + i * 60000) else cron_scan k (i + 1) base mins hrs)"

text \<open>\<open>Inr None\<close> is an Invalid Date, which the interval branch can return.\<close>

definition computeNextRun :: "string \<Rightarrow> string \<Rightarrow> js_date \<Rightarrow> sched_error + js_date option" where
  "computeNextRun kind spec after =
     (if kind = ''interval'' then
        (if \<not> all_digits spec \<or> number_of spec < 1 then Inl (BadIntervalSpec spec)
         else Inr (to_js_date (after + int (number_of spec) * 1000)))
      else if kind = ''cron'' then
        (case split_on (CHR '' '') spec of
           [f0, f1, f2, f3, f4] \<Rightarrow>
             if f2 \<noteq> ''*'' \<or> f3 \<noteq> ''*'' \<or> f4 \<noteq> ''*'' then Inl (BadCronSpec spec)
             else (case (parseCronField f0 0 59, parseCronField f1 0 23) of
                     (Some mins, Some hrs) \<Rightarrow>
                       (case cron_scan 2880 1 (after div 60000 * 60000) mins hrs of
                          Some c \<Rightarrow> Inr (Some c) | None \<Rightarrow> Inl (NoMatchingInstant spec))
                   | _ \<Rightarrow> Inl (BadCronSpec spec))
         | _ \<Rightarrow> Inl (BadCronSpec spec))
      else Inl (BadCadenceKind kind))"

section \<open>One pass of the poller\<close>

record 'n schedule =
  schedule_id :: string
  sj_job_type :: string
  cadence_kind :: string
  cadence_spec :: string
  sj_input :: "'n js"
  sj_enabled :: bool
  next_run_at :: db_time
  last_enqueued_at :: "db_time option"
  sj_updated_at :: db_time
  sj_schema_version :: int

definition SCHEDULED_JOB_ENVELOPE_SCHEMA_VERSION :: int where
  "SCHEDULED_JOB_ENVELOPE_SCHEMA_VERSION = 1"

text \<open>The driver reads a timestamp as a \<^verbatim>\<open>Date\<close>: whole milliseconds.\<close>

definition date_of :: "db_time \<Rightarrow> js_date" where
  "date_of t = t div 1000"

text \<open>What the pass is given: the process clock at its start and for each row, the rows another pass holds, the contract
  registry, the rows whose UPDATE the database rejects, and the posture.\<close>

record 'n poll_env =
  pe_now :: js_date
  pe_clock :: "nat \<Rightarrow> js_date"
  pe_locked :: "string \<Rightarrow> bool"
  pe_contracts :: "(string \<Rightarrow> ('n js \<Rightarrow> bool) option) option"
  pe_rejects :: "string \<Rightarrow> bool"
  pe_shadow :: bool

type_synonym ('n, 's) enqueue_fn = "nat \<Rightarrow> 'n bj_enqueue_args \<Rightarrow> 's \<Rightarrow> (bj_error + uuid) \<times> 's"

definition schedule_args :: "'n schedule \<Rightarrow> 'n bj_enqueue_args" where
  "schedule_args row =
     \<lparr>a_jobType = sj_job_type row, a_payload = sj_input row, a_dedupKey = Some (schedule_id row), a_installationId = None,
      a_priority = None, a_maxAttempts = None, a_runAfter = None\<rparr>"

text \<open>The checks before the side effect: envelope version, input contract, cadence.\<close>

definition contract_check :: "'n poll_env \<Rightarrow> 'n schedule \<Rightarrow> sched_error option" where
  "contract_check pe row =
     (case pe_contracts pe of
        None \<Rightarrow> None
      | Some reg \<Rightarrow>
          (case reg (sj_job_type row) of
             None \<Rightarrow> Some (NoInputContract (sj_job_type row))
           | Some accepts \<Rightarrow> if accepts (sj_input row) then None else Some (InputRejected (sj_job_type row))))"

definition schedule_next :: "'n poll_env \<Rightarrow> js_date \<Rightarrow> 'n schedule \<Rightarrow> sched_error + js_date option" where
  "schedule_next pe enqueuedAt row =
     (if SCHEDULED_JOB_ENVELOPE_SCHEMA_VERSION < sj_schema_version row then Inl (NewerEnvelope (sj_schema_version row))
      else case contract_check pe row of
             Some e \<Rightarrow> Inl e
           | None \<Rightarrow> computeNextRun (cadence_kind row) (cadence_spec row) enqueuedAt)"

definition advance :: "js_date \<Rightarrow> js_date \<Rightarrow> 'n schedule \<Rightarrow> 'n schedule" where
  "advance nextRunAt enqueuedAt row =
     row\<lparr>next_run_at := of_date nextRunAt, last_enqueued_at := Some (of_date enqueuedAt), sj_updated_at := of_date enqueuedAt\<rparr>"

text \<open>One row of the pass under its savepoint: the table of schedules changes only when every step went through; what was
  enqueued stays. The second call of \<^verbatim>\<open>computeNextRun\<close> is the lateness signal.\<close>

definition poll_row ::
  "('n, 's) enqueue_fn \<Rightarrow> 'n poll_env \<Rightarrow> nat \<Rightarrow> 'n schedule \<Rightarrow> 'n schedule list \<times> 's
     \<Rightarrow> (sched_error + unit) \<times> ('n schedule list \<times> 's)" where
  "poll_row enq pe i row st =
     (let (t, s) = st; enqueuedAt = pe_clock pe i
      in case schedule_next pe enqueuedAt row of
           Inl e \<Rightarrow> (Inl e, (t, s))
         | Inr nextRunAt \<Rightarrow>
             (case enq i (schedule_args row) s of
                (Inl e, s') \<Rightarrow> (Inl (EnqueueFailed e), (t, s'))
              | (Inr jid, s') \<Rightarrow>
                  (case nextRunAt of
                     None \<Rightarrow> (Inl AdvanceFailed, (t, s'))
                   | Some d \<Rightarrow>
                       if pe_rejects pe (schedule_id row) then (Inl AdvanceFailed, (t, s'))
                       else (case computeNextRun (cadence_kind row) (cadence_spec row) (date_of (next_run_at row)) of
                               Inl e \<Rightarrow> (Inl e, (t, s'))
                             | Inr _ \<Rightarrow> (Inr (), (upd_where (\<lambda>r. schedule_id r = schedule_id row) (advance d enqueuedAt) t, s'))))))"

fun poll_rows ::
  "('n, 's) enqueue_fn \<Rightarrow> 'n poll_env \<Rightarrow> nat \<Rightarrow> 'n schedule list \<Rightarrow> 'n schedule list \<times> 's \<Rightarrow> nat \<times> ('n schedule list \<times> 's)" where
  "poll_rows enq pe i [] st = (0, st)"
| "poll_rows enq pe i (row # rows) st =
     (let (r, st1) = poll_row enq pe i row st; (n, st2) = poll_rows enq pe (Suc i) rows st1
      in ((case r of Inl _ \<Rightarrow> n | Inr _ \<Rightarrow> Suc n), st2))"

definition due :: "'n poll_env \<Rightarrow> 'n schedule \<Rightarrow> bool" where
  "due pe row \<longleftrightarrow> sj_enabled row \<and> next_run_at row \<le> of_date (pe_now pe) \<and> \<not> pe_locked pe (schedule_id row)"

definition pollAndEnqueue ::
  "('n, 's) enqueue_fn \<Rightarrow> 'n poll_env \<Rightarrow> 'n schedule list \<times> 's \<Rightarrow> nat \<times> ('n schedule list \<times> 's)" where
  "pollAndEnqueue enq pe st =
     (if pe_shadow pe then (0, st) else poll_rows enq pe 0 (filter (due pe) (fst st)) st)"

text \<open>\<^verbatim>\<open>SchedulerLoop.run\<close>: passes until \<^verbatim>\<open>stop()\<close>, which the loop reads before each pass and which ends the sleep;
  a pass that rejects (the SELECT or the transaction) ends the loop with its error. \<open>None\<close> for a pass stands for that.
  The port of a pass is taken from the number of enqueue calls before it.\<close>

datatype sched_end = Stopped | PassRejected | Running

fun scheduler_run ::
  "(nat \<Rightarrow> ('n, 's) enqueue_fn) \<Rightarrow> nat \<Rightarrow> (bool \<times> 'n poll_env option) list \<Rightarrow> 'n schedule list \<times> 's \<Rightarrow> sched_end \<times> ('n schedule list \<times> 's)" where
  "scheduler_run port b [] st = (Running, st)"
| "scheduler_run port b ((stopped, pass) # ps) st =
     (if stopped then (Stopped, st)
      else case pass of
             None \<Rightarrow> (PassRejected, st)
           | Some pe \<Rightarrow>
               scheduler_run port (b + length (filter (due pe) (fst st))) ps (snd (pollAndEnqueue (port b) pe st)))"

section \<open>Lemmas on cron fields\<close>

lemma cron_values_range: "v \<in> set (cron_values lo hi step) \<Longrightarrow> lo \<le> v \<and> v \<le> hi"
proof (induction lo hi step rule: cron_values.induct)
  case (1 lo hi step)
  then show ?case using cron_values.simps [of lo hi step] by (auto split: if_splits)
qed

lemma cron_values_not_Nil: "lo \<le> hi \<Longrightarrow> 0 < step \<Longrightarrow> cron_values lo hi step \<noteq> []"
  by (subst cron_values.simps) simp

lemma cron_base_le: "cron_base base mn mx = Some (lo, hi) \<Longrightarrow> mn \<le> mx \<Longrightarrow> lo \<le> hi"
  by (auto simp: cron_base_def split: if_splits list.splits)

lemma cron_atom_Some:
  assumes "cron_atom atom mn mx = Some vs" and "mn \<le> mx"
  shows "vs \<noteq> []" and "\<forall>v\<in>set vs. mn \<le> v \<and> v \<le> mx"
proof -
  from assms(1) obtain base step lo hi where *: "vs = cron_values lo hi step" "cron_base base mn mx = Some (lo, hi)"
      "mn \<le> lo" "hi \<le> mx" "0 < step"
    by (auto simp: cron_atom_def not_less split: option.splits if_splits prod.splits)
  show "vs \<noteq> []" using * cron_values_not_Nil cron_base_le assms(2) by auto
  show "\<forall>v\<in>set vs. mn \<le> v \<and> v \<le> mx" using * cron_values_range by fastforce
qed

lemma cron_atoms_Some:
  "cron_atoms as mn mx = Some vs \<Longrightarrow> mn \<le> mx \<Longrightarrow> (as \<noteq> [] \<longrightarrow> vs \<noteq> []) \<and> (\<forall>v\<in>set vs. mn \<le> v \<and> v \<le> mx)"
proof (induction as arbitrary: vs)
  case (Cons a as)
  then obtain us ws where "cron_atom a mn mx = Some us" "cron_atoms as mn mx = Some ws" "vs = us @ ws"
    by (auto split: option.splits)
  then show ?case using cron_atom_Some [of a mn mx us] Cons by auto
qed simp

lemma parseCronField_Some:
  assumes "parseCronField fld mn mx = Some vs" and "mn \<le> mx"
  shows "vs \<noteq> []" and "\<forall>v\<in>set vs. mn \<le> v \<and> v \<le> mx"
  using assms cron_atoms_Some [of "split_on (CHR '','') fld" mn mx vs] by (auto simp: parseCronField_def split: if_splits)

lemma cron_scan_Some:
  "cron_scan k i base mins hrs = Some c \<Longrightarrow>
    \<exists>j. i \<le> j \<and> j < i + int k \<and> c = base + j * 60000 \<and> cron_match mins hrs c \<and>
      (\<forall>l. i \<le> l \<and> l < j \<longrightarrow> \<not> cron_match mins hrs (base + l * 60000))"
proof (induction k arbitrary: i)
  case (Suc k)
  show ?case
  proof (cases "cron_match mins hrs (base + i * 60000)")
    case True
    then show ?thesis using Suc.prems by (intro exI [of _ i]) auto
  next
    case False
    then obtain j where j: "i + 1 \<le> j" "j < i + 1 + int k" "c = base + j * 60000" "cron_match mins hrs c"
        "\<forall>l. i + 1 \<le> l \<and> l < j \<longrightarrow> \<not> cron_match mins hrs (base + l * 60000)"
      using Suc by auto
    have "\<not> cron_match mins hrs (base + l * 60000)" if "i \<le> l" "l < j" for l
      using that False j(5) by (cases "l = i") auto
    then show ?thesis using j by (intro exI [of _ j]) auto
  qed
qed simp

lemma cron_scan_total:
  "i \<le> j \<Longrightarrow> j < i + int k \<Longrightarrow> cron_match mins hrs (base + j * 60000) \<Longrightarrow> \<exists>c. cron_scan k i base mins hrs = Some c"
proof (induction k arbitrary: i)
  case (Suc k)
  show ?case
  proof (cases "j = i")
    case False
    then show ?thesis using Suc.IH [of "i + 1"] Suc.prems by auto
  qed (use Suc.prems in auto)
qed simp

lemma minute_of_day:
  fixes b h m :: int
  assumes "0 \<le> m" "m < 60" "0 \<le> h" "h < 24" "b mod 1440 = 60 * h + m"
  shows "utc_minute (b * 60000) = m \<and> utc_hour (b * 60000) = h"
proof -
  obtain q where b: "b = 1440 * q + 60 * h + m" using assms(5) by (metis add.assoc mult_div_mod_eq)
  have "b * 60000 div 3600000 = b div 60" using div_mult_mult2 [of 60000 b 60] by simp
  then have "b * 60000 div 3600000 = 24 * q + h" using b assms(1,2) by simp
  moreover have "b = m + 60 * (24 * q + h)" using b by simp
  then have "b mod 60 = m" using assms(1,2) by (simp only: mod_mult_self2 mod_pos_pos_trivial)
  ultimately show ?thesis using assms(3,4) by (simp add: utc_minute_def utc_hour_def)
qed

text \<open>Some boundary within a day matches.\<close>

lemma cron_match_within_day:
  assumes "m \<in> set mins" "m \<le> 59" "h \<in> set hrs" "h \<le> 23"
    and "- MAX_DATE \<le> after" "after + 86400000 \<le> MAX_DATE"
  shows "\<exists>j. 1 \<le> j \<and> j \<le> 1440 \<and> cron_match mins hrs (after div 60000 * 60000 + j * 60000)"
proof -
  define b where "b = after div 60000"
  define j where "j = (60 * int h + int m - b - 1) mod 1440 + 1"
  have j: "1 \<le> j" "j \<le> 1440" unfolding j_def by (auto simp: add1_zle_eq)
  let ?X = "60 * int h + int m - b - 1"
  have "b + j = 60 * int h + int m + 1440 * (- (?X div 1440))"
    unfolding j_def using mult_div_mod_eq [of 1440 ?X] by linarith
  then have "(b + j) mod 1440 = (60 * int h + int m) mod 1440" by (simp only: mod_mult_self2)
  also have "\<dots> = 60 * int h + int m" using assms(2,4) by (intro mod_pos_pos_trivial) auto
  finally have t: "utc_minute ((b + j) * 60000) = int m" "utc_hour ((b + j) * 60000) = int h"
    using minute_of_day [of "int m" "int h" "b + j"] assms(2,4) by auto
  have "b * 60000 \<le> after" "after < b * 60000 + 60000" unfolding b_def by (auto simp: div_mult_mod_eq [symmetric] minus_mod_eq_div_mult [symmetric])
  then have "\<bar>(b + j) * 60000\<bar> \<le> MAX_DATE" using j assms(5,6) by (auto simp: algebra_simps abs_le_iff)
  then have "cron_match mins hrs (b * 60000 + j * 60000)"
    using t assms(1,3) by (auto simp: cron_match_def algebra_simps)
  then show ?thesis using j unfolding b_def by blast
qed

lemma computeNextRun_future: "computeNextRun kind spec after = Inr (Some d) \<Longrightarrow> after < d"
proof -
  have base: "after < after div 60000 * 60000 + j * 60000" if "1 \<le> j" for j
  proof -
    have "after < after div 60000 * 60000 + 60000"
      by (metis add.commute div_mult_mod_eq add_less_cancel_right pos_mod_bound zero_less_numeral)
    also have "\<dots> \<le> after div 60000 * 60000 + j * 60000" using that by simp
    finally show ?thesis .
  qed
  assume "computeNextRun kind spec after = Inr (Some d)"
  then show ?thesis
    by (auto simp: computeNextRun_def to_js_date_def not_less dest!: cron_scan_Some base
        split: if_splits list.splits option.splits)
qed

section \<open>The enqueue port\<close>

text \<open>What the pass relies on. \<open>inv i\<close> is the port's invariant before call \<open>i\<close>, \<open>holds k\<close> says that the key has an active job.\<close>

locale enqueue_port =
  fixes enq :: "('n, 's) enqueue_fn"
    and inv :: "nat \<Rightarrow> 's \<Rightarrow> bool"
    and holds :: "string \<Rightarrow> 's \<Rightarrow> bool"
    and accepts :: "'n bj_enqueue_args \<Rightarrow> bool"
  assumes enq_inv: "inv i s \<Longrightarrow> inv (Suc i) (snd (enq i a s))"
    and skip_inv: "inv i s \<Longrightarrow> inv (Suc i) s"
    and enq_holds: "enq i a s = (Inr j, s') \<Longrightarrow> a_dedupKey a = Some k \<Longrightarrow> holds k s'"
    and enq_keeps: "holds k s \<Longrightarrow> holds k (snd (enq i a s))"
    and enq_accepts: "inv i s \<Longrightarrow> (\<exists>j. fst (enq i a s) = Inr j) \<longleftrightarrow> accepts a"

text \<open>A row the pass can serve, and the instant it then moves to.\<close>

definition healthy :: "('n bj_enqueue_args \<Rightarrow> bool) \<Rightarrow> 'n poll_env \<Rightarrow> nat \<Rightarrow> 'n schedule \<Rightarrow> bool" where
  "healthy accepts pe i row \<longleftrightarrow>
     (case schedule_next pe (pe_clock pe i) row of Inr (Some d) \<Rightarrow> True | _ \<Rightarrow> False) \<and> accepts (schedule_args row) \<and>
     \<not> pe_rejects pe (schedule_id row) \<and>
     (case computeNextRun (cadence_kind row) (cadence_spec row) (date_of (next_run_at row)) of Inl _ \<Rightarrow> False | Inr _ \<Rightarrow> True)"

definition next_of :: "'n poll_env \<Rightarrow> nat \<Rightarrow> 'n schedule \<Rightarrow> js_date" where
  "next_of pe i row = (case schedule_next pe (pe_clock pe i) row of Inr (Some d) \<Rightarrow> d | _ \<Rightarrow> 0)"

lemma advance_simps [simp]: "schedule_id (advance d c row) = schedule_id row"
  by (simp add: advance_def)

lemma next_of_future: "healthy accepts pe i row \<Longrightarrow> pe_clock pe i < next_of pe i row"
  by (auto simp: healthy_def next_of_def schedule_next_def split: sum.splits option.splits if_splits dest: computeNextRun_future)

text \<open>No schedule is lost and none moves back.\<close>

definition schedules_le :: "'n schedule list \<Rightarrow> 'n schedule list \<Rightarrow> bool" where
  "schedules_le t t' \<longleftrightarrow> (\<forall>r\<in>set t. \<exists>r'\<in>set t'. schedule_id r' = schedule_id r \<and> next_run_at r \<le> next_run_at r')"

lemma schedules_le_trans: "schedules_le t t1 \<Longrightarrow> schedules_le t1 t2 \<Longrightarrow> schedules_le t t2"
  unfolding schedules_le_def by (metis order_trans)

lemma poll_row_ids: "map schedule_id (fst (snd (poll_row enq pe i row st))) = map schedule_id (fst st)"
  by (auto simp: poll_row_def Let_def map_key_upd_where split: prod.splits sum.splits option.splits)

lemma poll_rows_ids: "map schedule_id (fst (snd (poll_rows enq pe i rows st))) = map schedule_id (fst st)"
proof (induction rows arbitrary: i st)
  case (Cons row rows)
  show ?case using Cons [of "Suc i" "snd (poll_row enq pe i row st)"] poll_row_ids [of enq pe i row st]
    by (auto simp: split_beta Let_def)
qed simp

context enqueue_port
begin

lemma poll_row_result:
  assumes "inv i s" and "poll_row enq pe i row (t, s) = (r, (t1, s1))"
  shows "inv (Suc i) s1 \<and> (holds k s \<longrightarrow> holds k s1) \<and> ((\<exists>u. r = Inr u) \<longleftrightarrow> healthy accepts pe i row) \<and>
    (if healthy accepts pe i row
     then holds (schedule_id row) s1 \<and>
       t1 = upd_where (\<lambda>x. schedule_id x = schedule_id row) (advance (next_of pe i row) (pe_clock pe i)) t
     else t1 = t)"
proof (cases "schedule_next pe (pe_clock pe i) row")
  case (Inl e)
  then show ?thesis using assms skip_inv by (auto simp: poll_row_def healthy_def)
next
  case (Inr d)
  obtain x s' where e: "enq i (schedule_args row) s = (x, s')" by (cases "enq i (schedule_args row) s")
  have inv1: "inv (Suc i) s'" and keep: "holds k s \<longrightarrow> holds k s'" using enq_inv [OF assms(1)] enq_keeps e by (metis snd_conv)+
  show ?thesis
  proof (cases x)
    case (Inl err)
    then have "\<not> accepts (schedule_args row)" using enq_accepts [OF assms(1)] e by (metis Inl_Inr_False fst_conv)
    then show ?thesis using assms(2) Inr e Inl inv1 keep by (auto simp: poll_row_def healthy_def)
  next
    case (Inr j)
    then have acc: "accepts (schedule_args row)" using enq_accepts [OF assms(1)] e by (metis fst_conv)
    have hold: "holds (schedule_id row) s'" using enq_holds [OF e [unfolded Inr]] by (simp add: schedule_args_def)
    show ?thesis using assms(2) \<open>schedule_next pe (pe_clock pe i) row = Inr d\<close> e Inr inv1 keep acc hold
      by (auto simp: poll_row_def healthy_def next_of_def split: option.splits if_splits sum.splits)
  qed
qed

lemma poll_rows_result:
  assumes "distinct (map schedule_id rows)" and "set rows \<subseteq> set t" and "distinct (map schedule_id t)" and "inv i s"
    and "poll_rows enq pe i rows (t, s) = (n, (t', s'))"
  shows "inv (i + length rows) s' \<and> (\<forall>k. holds k s \<longrightarrow> holds k s') \<and>
    (\<forall>r\<in>set t. schedule_id r \<notin> schedule_id ` set rows \<longrightarrow> r \<in> set t') \<and>
    n = length (filter (\<lambda>k. healthy accepts pe (i + k) (rows ! k)) [0..<length rows]) \<and>
    (\<forall>k<length rows. if healthy accepts pe (i + k) (rows ! k)
       then advance (next_of pe (i + k) (rows ! k)) (pe_clock pe (i + k)) (rows ! k) \<in> set t' \<and> holds (schedule_id (rows ! k)) s'
       else rows ! k \<in> set t')"
  using assms
proof (induction rows arbitrary: i t s n)
  case Nil
  then show ?case by auto
next
  case (Cons row rows)
  obtain r t1 s1 where pr: "poll_row enq pe i row (t, s) = (r, (t1, s1))"
    by (cases "poll_row enq pe i row (t, s)") (metis surj_pair)
  obtain m where rest: "poll_rows enq pe (Suc i) rows (t1, s1) = (m, (t', s'))" and n: "n = (case r of Inl _ \<Rightarrow> m | Inr _ \<Rightarrow> Suc m)"
    using Cons.prems(5) pr by (auto simp: Let_def split: prod.splits)
  note res = poll_row_result [OF Cons.prems(4) pr]
  let ?p = "\<lambda>x. schedule_id x = schedule_id row" and ?f = "advance (next_of pe i row) (pe_clock pe i)"
  have t1: "t1 = (if healthy accepts pe i row then upd_where ?p ?f t else t)" using res by presburger
  have ids: "map schedule_id t1 = map schedule_id t" unfolding t1 by (simp add: map_key_upd_where)
  have keep: "x \<in> set t1" if "x \<in> set t" "schedule_id x \<noteq> schedule_id row" for x
    using that upd_where_mem_unchanged [of x t ?p ?f] by (simp add: t1)
  have sub: "set rows \<subseteq> set t1"
  proof
    fix x assume "x \<in> set rows"
    moreover from this have "schedule_id x \<noteq> schedule_id row" using Cons.prems(1) by (auto simp: image_iff)
    ultimately show "x \<in> set t1" using Cons.prems(2) keep by auto
  qed
  have row1: "(if healthy accepts pe i row then ?f row else row) \<in> set t1"
    using Cons.prems(2) upd_where_mem_changed [of row t ?p ?f] by (simp add: t1)
  have "distinct (map schedule_id rows)" "schedule_id row \<notin> schedule_id ` set rows" using Cons.prems(1) by auto
  note ih = Cons.IH [OF this(1) sub Cons.prems(3) [folded ids] _ rest]
  have inv1: "inv (Suc i) s1" and hold: "\<And>k. holds k s \<longrightarrow> holds k s1" and ok: "(\<exists>u. r = Inr u) \<longleftrightarrow> healthy accepts pe i row"
    using res by blast+
  note ih = ih [OF inv1]
  have row': "(if healthy accepts pe i row then ?f row else row) \<in> set t'"
    using ih row1 \<open>schedule_id row \<notin> schedule_id ` set rows\<close> by (cases "healthy accepts pe i row") simp_all
  have holdr: "healthy accepts pe i row \<longrightarrow> holds (schedule_id row) s'" using res ih by presburger
  have step: "if healthy accepts pe (i + k) ((row # rows) ! k)
      then advance (next_of pe (i + k) ((row # rows) ! k)) (pe_clock pe (i + k)) ((row # rows) ! k) \<in> set t'
        \<and> holds (schedule_id ((row # rows) ! k)) s'
      else (row # rows) ! k \<in> set t'" if "k < length (row # rows)" for k
  proof (cases k)
    case 0
    then show ?thesis using row' holdr by (simp split: if_splits)
  next
    case (Suc l)
    then have "l < length rows" using that by simp
    then show ?thesis using ih unfolding Suc nth_Cons_Suc add_Suc_right add_Suc by blast
  qed
  have "[0..<length (row # rows)] = 0 # map Suc [0..<length rows]"
    by (metis length_Cons map_Suc_upt upt_conv_Cons zero_less_Suc)
  then have "length (filter (\<lambda>k. healthy accepts pe (i + k) ((row # rows) ! k)) [0..<length (row # rows)])
      = (if healthy accepts pe i row then 1 else 0) + m"
    using ih by (simp add: filter_map comp_def)
  then have "n = length (filter (\<lambda>k. healthy accepts pe (i + k) ((row # rows) ! k)) [0..<length (row # rows)])"
    using n ok by (cases r) auto
  moreover have "r \<in> set t'" if "r \<in> set t" "schedule_id r \<notin> schedule_id ` set (row # rows)" for r
    using ih keep that by auto
  ultimately show ?case using ih hold step by simp
qed

lemma shift: "enqueue_port (\<lambda>i. enq (b + i)) (\<lambda>i. inv (b + i)) holds accepts"
  using enq_inv skip_inv enq_holds enq_keeps enq_accepts by unfold_locales auto

lemma skip_invs: "inv b s \<Longrightarrow> inv (b + k) s"
  by (induction k) (auto intro: skip_inv)

lemma poll_pass_result:
  assumes "distinct (map schedule_id t)" and "inv b s" and "\<forall>i. pe_now pe \<le> pe_clock pe i"
    and "pollAndEnqueue (\<lambda>i. enq (b + i)) pe (t, s) = (n, (t', s'))"
  shows "inv (b + length (filter (due pe) t)) s' \<and> map schedule_id t' = map schedule_id t \<and> schedules_le t t'"
proof (cases "pe_shadow pe")
  case True
  then show ?thesis using assms skip_invs by (auto simp: pollAndEnqueue_def schedules_le_def)
next
  case False
  let ?rows = "filter (due pe) t"
  have run: "poll_rows (\<lambda>i. enq (b + i)) pe 0 ?rows (t, s) = (n, (t', s'))" using False assms(4) by (simp add: pollAndEnqueue_def)
  have d: "distinct (map schedule_id ?rows)" "set ?rows \<subseteq> set t" using assms(1) by (auto simp: distinct_map_filter)
  have "inv (b + 0) s" using assms(2) by simp
  note res = enqueue_port.poll_rows_result [OF shift d assms(1) this run]
  have ids: "map schedule_id t' = map schedule_id t" using poll_rows_ids run by (metis fst_conv snd_conv)
  have "\<exists>r'\<in>set t'. schedule_id r' = schedule_id r \<and> next_run_at r \<le> next_run_at r'" if "r \<in> set t" for r
  proof (cases "due pe r")
    case False
    then have "schedule_id r \<notin> schedule_id ` set ?rows" using that assms(1) by (auto dest: distinct_key_unique)
    then show ?thesis using res that by auto
  next
    case True
    then have "r \<in> set ?rows" using that by simp
    then obtain k where k: "k < length ?rows" "?rows ! k = r" by (metis in_set_conv_nth)
    have "next_run_at r \<le> of_date (pe_clock pe k)"
      using True assms(3) [rule_format, of k] by (simp add: due_def)
    then have "next_run_at r \<le> of_date (next_of pe k r)" if "healthy accepts pe k r"
      using next_of_future [OF that] by simp
    note le = this
    have "if healthy accepts pe k r then advance (next_of pe k r) (pe_clock pe k) r \<in> set t' else r \<in> set t'"
      using res [THEN conjunct2, THEN conjunct2, THEN conjunct2, THEN conjunct2, rule_format, OF k(1)] unfolding k(2) add_0
      by presburger
    then show ?thesis using le
      by (cases "healthy accepts pe k r")
        (auto intro: bexI [of _ "advance (next_of pe k r) (pe_clock pe k) r"] bexI [of _ r] simp: advance_def)
  qed
  then show ?thesis using res ids by (auto simp: schedules_le_def)
qed

lemma scheduler_run_result:
  assumes "distinct (map schedule_id t)" and "inv b s" and "\<forall>(st, p)\<in>set ps. \<forall>pe i. p = Some pe \<longrightarrow> pe_now pe \<le> pe_clock pe i"
    and "scheduler_run (\<lambda>b i. enq (b + i)) b ps (t, s) = (r, (t', s'))"
  shows "(\<exists>b'. inv b' s') \<and> schedules_le t t'"
  using assms
proof (induction ps arbitrary: b t s)
  case Nil
  then show ?case by (auto simp: schedules_le_def)
next
  case (Cons p ps)
  obtain st pass where p: "p = (st, pass)" by (cases p)
  show ?case
  proof (cases "st \<or> pass = None")
    case True
    then show ?thesis using Cons.prems p by (auto simp: schedules_le_def split: if_splits)
  next
    case False
    then obtain pe where pe: "pass = Some pe" "\<not> st" by auto
    obtain n t1 s1 where pass: "pollAndEnqueue (\<lambda>i. enq (b + i)) pe (t, s) = (n, (t1, s1))" by (metis prod.exhaust)
    have clk: "\<forall>i. pe_now pe \<le> pe_clock pe i" using Cons.prems(3) p pe by auto
    note res = poll_pass_result [OF Cons.prems(1,2) clk pass]
    have run: "scheduler_run (\<lambda>b i. enq (b + i)) (b + length (filter (due pe) t)) ps (t1, s1) = (r, (t', s'))"
      using Cons.prems(4) p pe pass by simp
    have "distinct (map schedule_id t1)" using res Cons.prems(1) by simp
    from Cons.IH [OF this _ _ run] res Cons.prems(3) have "(\<exists>b'. inv b' s') \<and> schedules_le t1 t'" by simp
    then show ?thesis using res schedules_le_trans by blast
  qed
qed

end

section \<open>The job repository as the port\<close>

definition repo_accepts :: "'n codec \<Rightarrow> 'n bj_enqueue_args \<Rightarrow> bool" where
  "repo_accepts cd a \<longleftrightarrow>
     (case PayloadObject (a_payload a) of
        None \<Rightarrow> False | Some v \<Rightarrow> bj_checks a (sha256hex cd (canonicalJson (num_text cd) v)))"

text \<open>The repository's table between two calls: well formed, one active job per key, and the ids of the calls to come are
  fresh and differ from each other.\<close>

definition repo_ready :: "(nat \<Rightarrow> nat \<Rightarrow> uuid) \<Rightarrow> nat \<Rightarrow> 'n background_job list \<Rightarrow> bool" where
  "repo_ready ids i t \<longleftrightarrow> table_wf t \<and> dedup_unique t \<and> (\<forall>k\<ge>i. ids k 0 \<notin> job_id ` set t) \<and> inj (\<lambda>k. ids k 0)"

definition key_active :: "string \<Rightarrow> 'n background_job list \<Rightarrow> bool" where
  "key_active k t \<longleftrightarrow> (\<exists>j\<in>set t. active j \<and> dedup_key j = Some k)"

definition repo_port :: "'n codec \<Rightarrow> (nat \<Rightarrow> nat \<Rightarrow> uuid) \<Rightarrow> (nat \<Rightarrow> nat \<Rightarrow> db_time) \<Rightarrow> ('n, 'n background_job list) enqueue_fn" where
  "repo_port cd ids nows i = bj_enqueue cd (ids i) (nows i) (\<lambda>_ x. x)"

lemma repo_refuses:
  assumes "\<not> repo_accepts cd a"
  shows "\<exists>e. bj_enqueue cd ids nows (\<lambda>_ x. x) a t = (Inl e, t)"
  using assms by (auto simp: repo_accepts_def bj_enqueue_def bj_insert_def Let_def numeral_3_eq_3 split: option.splits)

lemma repo_enqueue_cases:
  assumes "repo_ready ids i t"
  shows "case repo_port cd ids nows i a t of
      (Inl e, t') \<Rightarrow> \<not> repo_accepts cd a \<and> t' = t
    | (Inr j, t') \<Rightarrow> repo_accepts cd a \<and> (t' = t \<or> (\<exists>pl sha now. bj_checks a sha \<and> filter (bj_holds_key (a_dedupKey a)) t = [] \<and>
        t' = t @ [bj_new_row pl sha a (ids i 0) now]))"
proof (cases "repo_accepts cd a")
  case False
  then show ?thesis using repo_refuses [OF False, of "ids i" "nows i" t] by (auto simp: repo_port_def)
next
  case True
  then obtain v where v: "PayloadObject (a_payload a) = Some v" "bj_checks a (sha256hex cd (canonicalJson (num_text cd) v))"
    by (auto simp: repo_accepts_def split: option.splits)
  have "ids i 0 \<notin> job_id ` set t" using assms by (simp add: repo_ready_def)
  with v have "repo_port cd ids nows i a t =
    (case first_row (filter (bj_holds_key (a_dedupKey a)) t) of
       Some r \<Rightarrow> (Inr (job_id r), t)
     | None \<Rightarrow> (Inr (ids i 0), t @ [bj_new_row (db_json cd (canonicalJson (num_text cd) v))
         (sha256hex cd (canonicalJson (num_text cd) v)) a (ids i 0) (nows i 0)]))"
    unfolding repo_port_def by (intro bj_enqueue_quiet)
  then show ?thesis using True v(2)
    by (cases "first_row (filter (bj_holds_key (a_dedupKey a)) t)") auto
qed

lemma repo_ready_insert:
  assumes "repo_ready ids i t" and "bj_checks a sha" and "filter (bj_holds_key (a_dedupKey a)) t = []"
  shows "repo_ready ids (Suc i) (t @ [bj_new_row pl sha a (ids i 0) now])"
proof -
  let ?op = "BgInsert pl sha a (ids i 0) now"
  have "\<not> list_ex (bj_holds_key (a_dedupKey a)) t" using assms(3) by (auto simp: list_ex_iff filter_empty_conv)
  then have ex: "bg_exec ?op t = t @ [bj_new_row pl sha a (ids i 0) now]"
    using assms(1,2) by (auto simp: bj_insert_def repo_ready_def)
  have "table_wf (bg_exec ?op t) \<and> dedup_unique (bg_exec ?op t)"
    using bg_fold_invariant [of t "[?op]"] assms(1) by (simp add: repo_ready_def)
  then show ?thesis using assms(1) ex unfolding repo_ready_def by (auto dest: injD)
qed

interpretation repo: enqueue_port "repo_port cd ids nows" "repo_ready ids" key_active "repo_accepts cd"
  for cd :: "'n codec" and ids nows
proof
  fix i and s :: "'n background_job list" and a :: "'n bj_enqueue_args"
  assume rr: "repo_ready ids i s"
  show skip: "repo_ready ids (Suc i) s" using rr by (simp add: repo_ready_def)
  note c = repo_enqueue_cases [OF rr, of cd a nows]
  show "repo_ready ids (Suc i) (snd (repo_port cd ids nows i a s))"
    using c skip repo_ready_insert [OF rr] by (auto split: prod.splits sum.splits)
  show "(\<exists>j. fst (repo_port cd ids nows i a s) = Inr j) = repo_accepts cd a"
    using c by (auto split: prod.splits sum.splits)
next
  fix i j k and s s' :: "'n background_job list" and a :: "'n bj_enqueue_args"
  assume "repo_port cd ids nows i a s = (Inr j, s')" "a_dedupKey a = Some k"
  then show "key_active k s'"
    using bj_enqueue_loop_result by (fastforce simp: repo_port_def bj_enqueue_def Let_def key_active_def split: option.splits)
next
  fix i k and s :: "'n background_job list" and a :: "'n bj_enqueue_args"
  assume "key_active k s"
  moreover have "set s \<subseteq> set (snd (repo_port cd ids nows i a s))"
    by (auto simp: repo_port_def bj_enqueue_def Let_def bj_insert_def numeral_3_eq_3 split: option.splits)
  ultimately show "key_active k (snd (repo_port cd ids nows i a s))" by (auto simp: key_active_def)
qed

section \<open>Properties\<close>

text \<open>(C30) Every accepted cron spec has a next run, and it is the right one: strictly later than the given instant, at
  most a day later, on a minute boundary whose minute and hour are in the two fields, and the first such boundary. The
  scan never runs into its ceiling.\<close>

theorem computeNextRun_cron:
  assumes "split_on (CHR '' '') spec = [f0, f1, ''*'', ''*'', ''*'']" and "parseCronField f0 0 59 = Some mins"
    and "parseCronField f1 0 23 = Some hrs" and "0 \<le> after" and "after + 86400000 \<le> MAX_DATE"
  shows "\<exists>d. computeNextRun ''cron'' spec after = Inr (Some d) \<and> after < d \<and> d \<le> after + 86400000 \<and> 60000 dvd d \<and>
    cron_match mins hrs d \<and> (\<forall>c. after < c \<and> c < d \<and> 60000 dvd c \<longrightarrow> \<not> cron_match mins hrs c)"
proof -
  let ?base = "after div 60000 * 60000"
  have base: "?base \<le> after" "after < ?base + 60000"
    using div_mult_mod_eq [of after 60000] pos_mod_bound [of 60000 after] pos_mod_sign [of 60000 after] by linarith+
  obtain m h where mh: "m \<in> set mins" "m \<le> 59" "h \<in> set hrs" "h \<le> 23"
    using parseCronField_Some [OF assms(2)] parseCronField_Some [OF assms(3)] by (metis hd_in_set zero_le)
  obtain j where j: "1 \<le> j" "j \<le> 1440" "cron_match mins hrs (?base + j * 60000)"
    using cron_match_within_day [OF mh _ assms(5)] assms(4) by (auto simp: MAX_DATE_def)
  then obtain d where scan: "cron_scan 2880 1 ?base mins hrs = Some d" using cron_scan_total [of 1 j 2880 mins hrs ?base] by auto
  from cron_scan_Some [OF this] obtain l where l: "1 \<le> l" "d = ?base + l * 60000" "cron_match mins hrs d"
      "\<forall>i. 1 \<le> i \<and> i < l \<longrightarrow> \<not> cron_match mins hrs (?base + i * 60000)" by auto
  have "l \<le> j" using l(4) j by (meson not_le)
  have run: "computeNextRun ''cron'' spec after = Inr (Some d)" using assms(1-3) scan by (simp add: computeNextRun_def)
  have "\<not> cron_match mins hrs c" if "after < c" "c < d" "60000 dvd c" for c
  proof -
    have "c = ?base + (c div 60000 - after div 60000) * 60000" using that(3) by (simp add: left_diff_distrib)
    moreover have "1 \<le> c div 60000 - after div 60000" using that(1) base(1) calculation
      by (smt (verit, best) mult_le_0_iff)
    moreover have "c div 60000 - after div 60000 < l" using that(2) l(2) calculation(1)
      by (smt (verit, best) mult_right_less_imp_less)
    ultimately show ?thesis using l(4) by metis
  qed
  moreover have "d \<le> after + 86400000" using l(2) \<open>l \<le> j\<close> j(2) base(1) by linarith
  ultimately show ?thesis using run l(2,3) computeNextRun_future [OF run] by (intro exI [of _ d]) simp
qed

theorem computeNextRun_cron_witness:
  "\<exists>d. computeNextRun ''cron'' ''*/15 9-17 * * *'' 1000 = Inr (Some d) \<and> d \<le> 86401000"
proof -
  have sp: "split_on (CHR '' '') ''*/15 9-17 * * *'' = [''*/15'', ''9-17'', ''*'', ''*'', ''*'']" by simp
  have p: "parseCronField ''*/15'' 0 59 = Some [0, 15, 30, 45]" "parseCronField ''9-17'' 0 23 = Some [9, 10, 11, 12, 13, 14, 15, 16, 17]"
    by (simp_all add: parseCronField_def cron_atom_def cron_base_def all_digits_def is_digit_def number_of_def digit_val_def cron_values.simps)
  show ?thesis using computeNextRun_cron [OF sp p, of 1000] by (auto simp: MAX_DATE_def)
qed

text \<open>(C29) One pass of the poller does exactly what it should and isolates every failure. Each due schedule with a known
  envelope, an accepted input and a computable cadence moves strictly into the future and has an active job under its own
  id; every other due schedule, and every schedule that is not due, is left exactly as it was; the pass counts the first
  kind. The job table stays well formed with at most one active job per schedule.\<close>

theorem pollAndEnqueue_correct:
  assumes "distinct (map schedule_id t)" and "repo_ready ids 0 js" and "\<not> pe_shadow pe"
    and "pollAndEnqueue (repo_port cd ids nows) pe (t, js) = (n, (t', js'))"
    and "rows = filter (due pe) t"
  shows "table_wf js' \<and> dedup_unique js' \<and>
    (\<forall>r\<in>set t. \<not> due pe r \<longrightarrow> r \<in> set t') \<and>
    n = length (filter (\<lambda>k. healthy (repo_accepts cd) pe k (rows ! k)) [0..<length rows]) \<and>
    (\<forall>k<length rows. if healthy (repo_accepts cd) pe k (rows ! k)
       then advance (next_of pe k (rows ! k)) (pe_clock pe k) (rows ! k) \<in> set t' \<and> pe_clock pe k < next_of pe k (rows ! k)
         \<and> key_active (schedule_id (rows ! k)) js'
       else rows ! k \<in> set t')"
proof -
  have run: "poll_rows (repo_port cd ids nows) pe 0 rows (t, js) = (n, (t', js'))"
    using assms(3-5) by (simp add: pollAndEnqueue_def)
  have d: "distinct (map schedule_id rows)" "set rows \<subseteq> set t" using assms(1,5) by (auto simp: distinct_map_filter)
  note res = repo.poll_rows_result [OF d assms(1,2) run, simplified]
  have "r \<in> set t'" if "r \<in> set t" "\<not> due pe r" for r
  proof -
    have "schedule_id r \<notin> schedule_id ` set rows"
      using that assms(1,5) by (auto dest: distinct_key_unique)
    then show ?thesis using res that(1) by blast
  qed
  then show ?thesis using res next_of_future by (fastforce simp: repo_ready_def)
qed

text \<open>An interval so long that the next instant leaves the range of \<^verbatim>\<open>Date\<close> is not caught by the cadence check: the job
  is enqueued, and only the advance fails, on every pass.\<close>

lemma poll_row_interval_out_of_range:
  assumes "schedule_next pe (pe_clock pe i) row = Inr None" and "repo_ready ids i js" and "repo_accepts cd (schedule_args row)"
  shows "\<exists>js'. poll_row (repo_port cd ids nows) pe i row (t, js) = (Inl AdvanceFailed, (t, js')) \<and> key_active (schedule_id row) js'"
proof -
  obtain jid js' where e: "repo_port cd ids nows i (schedule_args row) js = (Inr jid, js')"
    using repo.enq_accepts [OF assms(2), where a = "schedule_args row"] assms(3) by (metis prod.collapse)
  have "key_active (schedule_id row) js'" using repo.enq_holds [OF e] by (simp add: schedule_args_def)
  with e assms(1) show ?thesis by (simp add: poll_row_def)
qed

text \<open>However many passes the scheduler loop makes, and however it ends, the job table stays well formed with at most
  one active job per schedule, and no schedule is lost or moves back in time, provided the clock does not run backwards
  within a pass.\<close>

theorem scheduler_run_invariant:
  assumes "distinct (map schedule_id t)" and "repo_ready ids b js"
    and "\<forall>(st, p)\<in>set ps. \<forall>pe i. p = Some pe \<longrightarrow> pe_now pe \<le> pe_clock pe i"
    and "scheduler_run (\<lambda>b i. repo_port cd ids nows (b + i)) b ps (t, js) = (e, (t', js'))"
  shows "table_wf js' \<and> dedup_unique js' \<and> schedules_le t t'"
  using repo.scheduler_run_result [OF assms] by (auto simp: repo_ready_def)

definition demo_schedule :: "int schedule" where
  "demo_schedule = \<lparr>schedule_id = ''s1'', sj_job_type = ''gc'', cadence_kind = ''interval'', cadence_spec = ''60'',
     sj_input = JsObj [], sj_enabled = True, next_run_at = 1000, last_enqueued_at = None, sj_updated_at = 0, sj_schema_version = 1\<rparr>"

definition demo_poll :: "int poll_env" where
  "demo_poll = \<lparr>pe_now = 5, pe_clock = (\<lambda>_. 5), pe_locked = (\<lambda>_. False), pe_contracts = None, pe_rejects = (\<lambda>_. False),
     pe_shadow = False\<rparr>"

definition demo_poison :: "int schedule" where
  "demo_poison = demo_schedule\<lparr>schedule_id := ''s0'', cadence_kind := ''cron'', cadence_spec := ''30 5 1 * *''\<rparr>"

lemma demo_poll_rows:
  "healthy (repo_accepts demo_codec) demo_poll k demo_schedule" "\<not> healthy (repo_accepts demo_codec) demo_poll k demo_poison"
  "filter (due demo_poll) [demo_poison, demo_schedule] = [demo_poison, demo_schedule]"
  by (simp_all add: healthy_def schedule_next_def SCHEDULED_JOB_ENVELOPE_SCHEMA_VERSION_def contract_check_def demo_poll_def demo_schedule_def
      computeNextRun_def all_digits_def is_digit_def number_of_def digit_val_def to_js_date_def MAX_DATE_def repo_accepts_def
      schedule_args_def PayloadObject_def bj_checks_def is_sha256_hex_def demo_codec_def date_of_def demo_poison_def due_def
      list_all_iff)

lemma demo_repo_ready: "repo_ready (\<lambda>k _. replicate k CHR ''x'') 0 ([] :: int background_job list)"
  by (auto simp: repo_ready_def table_wf_def dedup_unique_def inj_def)

theorem pollAndEnqueue_correct_witness:
  "\<exists>n t' js'. pollAndEnqueue (repo_port demo_codec (\<lambda>k _. replicate k CHR ''x'') (\<lambda>_ _. 0)) demo_poll ([demo_poison, demo_schedule], [])
       = (n, (t', js')) \<and> n = 1 \<and> key_active ''s1'' js' \<and> demo_poison \<in> set t' \<and> advance 60005 5 demo_schedule \<in> set t'"
proof -
  let ?ids = "\<lambda>(k::nat) (_::nat). replicate k CHR ''x''"
  obtain n t' js' where run: "pollAndEnqueue (repo_port demo_codec ?ids (\<lambda>_ _. 0)) demo_poll ([demo_poison, demo_schedule], []) = (n, (t', js'))"
    by (metis prod.exhaust)
  have d: "distinct (map schedule_id [demo_poison, demo_schedule])" by (simp add: demo_poison_def demo_schedule_def)
  have sh: "\<not> pe_shadow demo_poll" by (simp add: demo_poll_def)
  have nx: "next_of demo_poll k demo_schedule = 60005" for k
    by (simp add: next_of_def schedule_next_def SCHEDULED_JOB_ENVELOPE_SCHEMA_VERSION_def contract_check_def demo_poll_def demo_schedule_def
        computeNextRun_def all_digits_def is_digit_def number_of_def digit_val_def to_js_date_def MAX_DATE_def)
  have c: "pe_clock demo_poll k = 5" "schedule_id demo_schedule = ''s1''" for k by (simp_all add: demo_poll_def demo_schedule_def)
  note res = pollAndEnqueue_correct [OF d demo_repo_ready sh run refl, unfolded demo_poll_rows(3)]
  have up: "[0..<length [demo_poison, demo_schedule]] = [0, 1]" by (simp add: upt_rec)
  have "n = 1" using res unfolding up by (simp add: demo_poll_rows)
  moreover have "demo_poison \<in> set t'" using res by (simp add: demo_poll_rows All_less_Suc)
  moreover have "advance 60005 5 demo_schedule \<in> set t' \<and> key_active ''s1'' js'"
    using res by (simp add: demo_poll_rows nx c All_less_Suc)
  ultimately show ?thesis using run by blast
qed

theorem scheduler_run_invariant_witness:
  "\<exists>e t' js'. scheduler_run (\<lambda>b i. repo_port demo_codec (\<lambda>k _. replicate k CHR ''x'') (\<lambda>_ _. 0) (b + i)) 0
       [(False, Some demo_poll), (False, Some demo_poll), (True, None)] ([demo_poison, demo_schedule], []) = (e, (t', js'))
     \<and> table_wf js' \<and> dedup_unique js' \<and> schedules_le [demo_poison, demo_schedule] t'"
proof -
  let ?ids = "\<lambda>(k::nat) (_::nat). replicate k CHR ''x''" and ?ps = "[(False, Some demo_poll), (False, Some demo_poll), (True, None)]"
  obtain e t' js' where run: "scheduler_run (\<lambda>b i. repo_port demo_codec ?ids (\<lambda>_ _. 0) (b + i)) 0 ?ps ([demo_poison, demo_schedule], []) = (e, (t', js'))"
    by (metis prod.exhaust)
  have d: "distinct (map schedule_id [demo_poison, demo_schedule])" by (simp add: demo_poison_def demo_schedule_def)
  have clk: "\<forall>(st, p)\<in>set ?ps. \<forall>pe i. p = Some pe \<longrightarrow> pe_now pe \<le> pe_clock pe i" by (simp add: demo_poll_def)
  show ?thesis using scheduler_run_invariant [OF d demo_repo_ready clk run] run by blast
qed

end
