(* ===== verification/Loop_Health.thy ===== *)
theory Loop_Health
  imports Prelude
begin

text \<open>
  The liveness registry of the runtime loops (\<^verbatim>\<open>runner/loop_health.ts\<close>), the supervisor that feeds it
  (\<^verbatim>\<open>superviseLoop\<close> and \<^verbatim>\<open>runSupervisedLoops\<close> in \<^verbatim>\<open>runner/background_runner_main.ts\<close>) and the readiness check that
  reads it (\<^verbatim>\<open>makeRuntimeLoopsCheck\<close> in \<^verbatim>\<open>api/dependency_checks.ts\<close>).

  A JavaScript \<^verbatim>\<open>Map\<close> keeps insertion order, so the registry is an association list. The loops run concurrently; what
  the supervisor sees of a loop is how its \<^verbatim>\<open>run()\<close> ends and in which order the loops end, and both are arguments.
\<close>

section \<open>The registry\<close>

datatype loop_health = LoopUp js_date | LoopDown string js_date

datatype loop_reason = ReasonText string | ReasonError string string

datatype registry_error = AlreadyRegistered string | NotRegistered string string

type_synonym registry = "(string \<times> loop_health) list"

definition register :: "js_date \<Rightarrow> string \<Rightarrow> registry \<Rightarrow> registry_error + registry" where
  "register now name reg =
     (if map_of reg name \<noteq> None then Inl (AlreadyRegistered name) else Inr (reg @ [(name, LoopUp now)]))"

text \<open>\<^verbatim>\<open>Map.set\<close> on a key that is present: the entry keeps its place.\<close>

definition map_set :: "string \<Rightarrow> loop_health \<Rightarrow> registry \<Rightarrow> registry" where
  "map_set name h reg = upd_where (\<lambda>e. fst e = name) (\<lambda>e. (name, h)) reg"

definition reason_text :: "loop_reason \<Rightarrow> string" where
  "reason_text r = (case r of ReasonText s \<Rightarrow> s | ReasonError n m \<Rightarrow> n @ '': '' @ m)"

definition markDown :: "js_date \<Rightarrow> string \<Rightarrow> loop_reason \<Rightarrow> registry \<Rightarrow> registry_error + registry" where
  "markDown now name reason reg =
     (if map_of reg name = None then Inl (NotRegistered ''markDown'' name)
      else Inr (map_set name
        (LoopDown (if reason_text reason = '''' then ''(no reason provided)'' else reason_text reason) now) reg))"

definition markUp :: "js_date \<Rightarrow> string \<Rightarrow> registry \<Rightarrow> registry_error + registry" where
  "markUp now name reg =
     (if map_of reg name = None then Inl (NotRegistered ''markUp'' name) else Inr (map_set name (LoopUp now) reg))"

definition is_down :: "loop_health \<Rightarrow> bool" where
  "is_down h = (case h of LoopDown _ _ \<Rightarrow> True | LoopUp _ \<Rightarrow> False)"

definition allRequiredUp :: "registry \<Rightarrow> bool" where
  "allRequiredUp reg = list_all (\<lambda>e. \<not> is_down (snd e)) reg"

section \<open>The supervisor\<close>

text \<open>How a loop's \<^verbatim>\<open>run()\<close> ended: \<open>None\<close> is a graceful stop, else the instant of the crash and the error's name and
  message (a thrown value that is no \<^verbatim>\<open>Error\<close> has been wrapped in one).\<close>

type_synonym run_end = "(js_date \<times> string \<times> string) option"

definition superviseLoop :: "string \<Rightarrow> run_end \<Rightarrow> registry \<Rightarrow> registry_error + registry" where
  "superviseLoop name outcome reg =
     (case outcome of None \<Rightarrow> Inr reg | Some (now, n, m) \<Rightarrow> markDown now name (ReasonError n m) reg)"

fun register_all :: "js_date \<Rightarrow> string list \<Rightarrow> registry \<Rightarrow> registry_error + registry" where
  "register_all now [] reg = Inr reg"
| "register_all now (n # ns) reg = (case register now n reg of Inl e \<Rightarrow> Inl e | Inr reg' \<Rightarrow> register_all now ns reg')"

fun supervise_all :: "(string \<Rightarrow> run_end) \<Rightarrow> string list \<Rightarrow> registry \<Rightarrow> registry_error + registry" where
  "supervise_all ends [] reg = Inr reg"
| "supervise_all ends (n # ns) reg =
     (case superviseLoop n (ends n) reg of Inl e \<Rightarrow> Inl e | Inr reg' \<Rightarrow> supervise_all ends ns reg')"

definition supervised_names :: "bool \<Rightarrow> string list" where
  "supervised_names review = [''runner'', ''scheduler'', ''outbox''] @ (if review then [''review''] else [])"

text \<open>\<open>order\<close> is the order in which the loops end; the crashes are reported in the order of the supervised set.\<close>

definition runSupervisedLoops ::
  "js_date \<Rightarrow> bool \<Rightarrow> (string \<Rightarrow> run_end) \<Rightarrow> string list \<Rightarrow> registry \<Rightarrow> registry_error + (string list \<times> registry)" where
  "runSupervisedLoops now review ends order reg =
     (case register_all now (supervised_names review) reg of
        Inl e \<Rightarrow> Inl e
      | Inr reg1 \<Rightarrow>
          (case supervise_all ends order reg1 of
             Inl e \<Rightarrow> Inl e
           | Inr reg2 \<Rightarrow> Inr (filter (\<lambda>n. ends n \<noteq> None) (supervised_names review), reg2)))"

text \<open>The readiness dependency: up, or down with the loops that are down and their reasons.\<close>

definition makeRuntimeLoopsCheck :: "registry \<Rightarrow> (string \<times> string) list option" where
  "makeRuntimeLoopsCheck reg =
     (if allRequiredUp reg then None
      else Some [(n, r). (n, LoopDown r since) \<leftarrow> reg])"

section \<open>Lemmas\<close>

lemma map_set_keys [simp]: "map fst (map_set n h reg) = map fst reg"
  by (auto simp: map_set_def intro: map_key_upd_where)

lemma map_of_map_set: "map_of reg n \<noteq> None \<Longrightarrow> map_of (map_set n h reg) = (map_of reg)(n \<mapsto> h)"
proof (induction reg)
  case (Cons e reg)
  show ?case
  proof (cases "map_of reg n = None")
    case True
    then have "n \<notin> fst ` set reg" by (simp add: map_of_eq_None_iff)
    then have "map_set n h reg = reg" unfolding map_set_def by (intro upd_where_id) auto
    then show ?thesis using Cons.prems True by (cases e) (auto simp: map_set_def split: if_splits)
  next
    case False
    then show ?thesis using Cons.IH by (cases e) (auto simp: map_set_def)
  qed
qed simp

lemma map_of_None_iff_key: "map_of reg n = None \<longleftrightarrow> n \<notin> set (map fst reg)"
  by (simp add: map_of_eq_None_iff)

lemma register_all_fresh:
  "distinct ns \<Longrightarrow> set ns \<inter> set (map fst reg) = {} \<Longrightarrow> register_all now ns reg = Inr (reg @ map (\<lambda>n. (n, LoopUp now)) ns)"
  by (induction ns arbitrary: reg) (auto simp: register_def map_of_None_iff_key)

lemma register_all_taken: "set ns \<inter> set (map fst reg) \<noteq> {} \<Longrightarrow> \<exists>n. register_all now ns reg = Inl (AlreadyRegistered n)"
proof (induction ns arbitrary: reg)
  case (Cons n ns)
  show ?case
  proof (cases "n \<in> set (map fst reg)")
    case False
    then have "set ns \<inter> set (map fst (reg @ [(n, LoopUp now)])) \<noteq> {}" using Cons.prems by auto
    from Cons.IH [OF this] False show ?thesis by (simp add: register_def map_of_None_iff_key)
  qed (simp add: register_def map_of_None_iff_key)
qed simp

text \<open>What the supervisor leaves of a loop.\<close>

definition health_after :: "run_end \<Rightarrow> loop_health \<Rightarrow> loop_health" where
  "health_after outcome h = (case outcome of None \<Rightarrow> h | Some (now, n, m) \<Rightarrow> LoopDown (n @ '': '' @ m) now)"

lemma supervise_all_result:
  "set ns \<subseteq> set (map fst reg) \<Longrightarrow>
    \<exists>reg'. supervise_all ends ns reg = Inr reg' \<and> map fst reg' = map fst reg \<and>
      (\<forall>n. map_of reg' n = (if n \<in> set ns then map_option (health_after (ends n)) (map_of reg n) else map_of reg n))"
proof (induction ns arbitrary: reg)
  case (Cons n ns)
  have in_reg: "map_of reg n \<noteq> None" using Cons.prems by (auto simp: map_of_None_iff_key)
  show ?case
  proof (cases "ends n")
    case None
    then have "health_after (ends n) = id" by (auto simp: health_after_def)
    then show ?thesis using Cons.IH [of reg] Cons.prems None by (auto simp: superviseLoop_def option.map_id)
  next
    case (Some o1)
    obtain now en em where o1: "o1 = (now, en, em)" by (cases o1)
    let ?h = "LoopDown (en @ '': '' @ em) now"
    have step: "superviseLoop n (ends n) reg = Inr (map_set n ?h reg)"
      using Some o1 in_reg by (simp add: superviseLoop_def markDown_def reason_text_def)
    have "set ns \<subseteq> set (map fst (map_set n ?h reg))" using Cons.prems by simp
    from Cons.IH [OF this] obtain reg' where "supervise_all ends ns (map_set n ?h reg) = Inr reg'" "map fst reg' = map fst reg"
        "\<forall>x. map_of reg' x = (if x \<in> set ns then map_option (health_after (ends x)) (map_of (map_set n ?h reg) x)
          else map_of (map_set n ?h reg) x)"
      by auto
    moreover have "health_after (ends n) h = ?h" for h using Some o1 by (simp add: health_after_def)
    ultimately show ?thesis using step in_reg by (auto simp: map_of_map_set)
  qed
qed auto

lemma allRequiredUp_map_of:
  "distinct (map fst reg) \<Longrightarrow> allRequiredUp reg \<longleftrightarrow> (\<forall>n h. map_of reg n = Some h \<longrightarrow> \<not> is_down h)"
  by (auto simp: allRequiredUp_def list_all_iff dest: map_of_SomeD)

lemma check_mem: "\<not> allRequiredUp reg \<Longrightarrow> set (the (makeRuntimeLoopsCheck reg)) = {(n, r). \<exists>since. (n, LoopDown r since) \<in> set reg}"
  by (force simp: makeRuntimeLoopsCheck_def split: loop_health.splits)

section \<open>Properties\<close>

text \<open>A dead required loop is always visible, and nothing else is. Started on a registry none of its names are in, the
  supervisor never fails, whatever the order in which the loops end: a loop is down exactly when it crashed, with its own
  error as the reason, a loop that was stopped stays up, other entries keep their state, and the crashes are reported in
  the order of the supervised set.\<close>

theorem runSupervisedLoops_health:
  assumes "set (supervised_names review) \<inter> set (map fst reg) = {}" and "set order = set (supervised_names review)"
    and "distinct (map fst reg)"
  shows "\<exists>reg'. runSupervisedLoops now review ends order reg
      = Inr (filter (\<lambda>n. ends n \<noteq> None) (supervised_names review), reg') \<and> distinct (map fst reg') \<and>
    (\<forall>n. map_of reg' n =
       (if n \<in> set (supervised_names review)
        then Some (case ends n of None \<Rightarrow> LoopUp now | Some (t, en, em) \<Rightarrow> LoopDown (en @ '': '' @ em) t)
        else map_of reg n)) \<and>
    (allRequiredUp reg' \<longleftrightarrow> allRequiredUp reg \<and> (\<forall>n\<in>set (supervised_names review). ends n = None))"
proof -
  let ?ns = "supervised_names review"
  let ?reg1 = "reg @ map (\<lambda>n. (n, LoopUp now)) ?ns"
  have dn: "distinct ?ns" by (simp add: supervised_names_def)
  have keys: "map fst ?reg1 = map fst reg @ ?ns" by (simp add: comp_def)
  then have d1: "distinct (map fst ?reg1)" using assms(1,3) dn by auto
  have r1: "map_of ?reg1 n = (if n \<in> set ?ns then Some (LoopUp now) else map_of reg n)" for n
  proof (cases "n \<in> set ?ns")
    case True
    then have "(n, LoopUp now) \<in> set ?reg1" by auto
    from map_of_is_SomeI [OF d1 this] show ?thesis using True by (simp only: if_True)
  next
    case False
    then have "map_of (map (\<lambda>n. (n, LoopUp now)) ?ns) n = None" by (auto simp: map_of_eq_None_iff)
    then show ?thesis using False by (auto simp: map_add_def split: option.splits)
  qed
  have "set order \<subseteq> set (map fst ?reg1)" using assms(2) keys by auto
  from supervise_all_result [OF this, of ends] obtain reg' where sup: "supervise_all ends order ?reg1 = Inr reg'"
      "map fst reg' = map fst ?reg1"
      "\<forall>n. map_of reg' n = (if n \<in> set order then map_option (health_after (ends n)) (map_of ?reg1 n) else map_of ?reg1 n)"
    by blast
  have run: "runSupervisedLoops now review ends order reg = Inr (filter (\<lambda>n. ends n \<noteq> None) ?ns, reg')"
    using register_all_fresh [OF dn assms(1), of now] sup(1) by (simp add: runSupervisedLoops_def)
  have st: "map_of reg' n = (if n \<in> set ?ns
      then Some (case ends n of None \<Rightarrow> LoopUp now | Some (t, en, em) \<Rightarrow> LoopDown (en @ '': '' @ em) t) else map_of reg n)" for n
    unfolding sup(3) [rule_format] r1 assms(2) by (simp add: health_after_def)
  have d': "distinct (map fst reg')" using sup(2) d1 by simp
  let ?h = "\<lambda>n. case ends n of None \<Rightarrow> LoopUp now | Some (t, en, em) \<Rightarrow> LoopDown (en @ '': '' @ em) t"
  have out: "n \<notin> set ?ns" if "map_of reg n = Some h" for n h using that assms(1) by (force dest: map_of_SomeD)
  have down: "is_down (?h n) \<longleftrightarrow> ends n \<noteq> None" for n by (cases "ends n") (auto simp: is_down_def)
  have "(\<forall>n h. map_of reg' n = Some h \<longrightarrow> \<not> is_down h) \<longleftrightarrow>
      (\<forall>n h. map_of reg n = Some h \<longrightarrow> \<not> is_down h) \<and> (\<forall>n\<in>set ?ns. \<not> is_down (?h n))"
    unfolding st using out by (metis (no_types, lifting) option.inject)
  then have "allRequiredUp reg' \<longleftrightarrow> allRequiredUp reg \<and> (\<forall>n\<in>set ?ns. ends n = None)"
    unfolding allRequiredUp_map_of [OF d'] allRequiredUp_map_of [OF assms(3)] down not_not .
  then show ?thesis using run st d' by blast
qed

theorem runSupervisedLoops_health_witness:
  "\<exists>reg'. runSupervisedLoops 0 False (\<lambda>n. if n = ''outbox'' then Some (7, ''Error'', ''db'') else None)
      [''outbox'', ''runner'', ''scheduler''] [] = Inr ([''outbox''], reg')
    \<and> map_of reg' ''outbox'' = Some (LoopDown ''Error: db'' 7) \<and> \<not> allRequiredUp reg'"
proof -
  let ?order = "[''outbox'', ''runner'', ''scheduler'']"
  have "set (supervised_names False) \<inter> set (map fst []) = {}" "set ?order = set (supervised_names False)" "distinct (map fst [])"
    by (auto simp: supervised_names_def)
  from runSupervisedLoops_health [OF this, of 0 "\<lambda>n. if n = ''outbox'' then Some (7, ''Error'', ''db'') else None"]
  show ?thesis by (auto simp: supervised_names_def)
qed

text \<open>Sharing one registry between two supervised sets fails before any loop starts.\<close>

lemma runSupervisedLoops_twice:
  assumes "set (supervised_names review) \<inter> set (map fst reg) \<noteq> {}"
  shows "\<exists>n. runSupervisedLoops now review ends order reg = Inl (AlreadyRegistered n)"
  using register_all_taken [OF assms, of now] by (auto simp: runSupervisedLoops_def)

text \<open>The readiness answer names exactly the loops that are down, each with its reason.\<close>

lemma makeRuntimeLoopsCheck_names:
  assumes "distinct (map fst reg)"
  shows "makeRuntimeLoopsCheck reg = None \<longleftrightarrow> (\<forall>n h. map_of reg n = Some h \<longrightarrow> \<not> is_down h)"
    and "makeRuntimeLoopsCheck reg = Some rs \<Longrightarrow> (n, r) \<in> set rs \<longleftrightarrow> (\<exists>since. map_of reg n = Some (LoopDown r since))"
  using assms allRequiredUp_map_of [OF assms] check_mem [of reg]
  by (auto simp: makeRuntimeLoopsCheck_def split: if_splits loop_health.splits)

end
