(* ===== verification/Outbox.thy ===== *)
theory Outbox
  imports Prelude
begin

text \<open>
  The table \<^verbatim>\<open>core.outbox\<close> and its repository (\<^verbatim>\<open>domain/repos/outbox_repo.ts\<close>): the three producer methods, the leased
  claim, the two settling statements with their attempt fence, and the operator's dead-letter surface.

  Instants are microseconds, the injected clock gives milliseconds. \<^verbatim>\<open>attempts\<close> is a natural number: the column is an
  \<^verbatim>\<open>integer\<close>, and \<open>ob_history_invariant\<close> shows that it stays below the dead-letter threshold while a row is pending. The
  foreign keys to installations and runs restrict the producers' transactions and are not modelled here.
\<close>

section \<open>Rows\<close>

datatype outbox_state = ObPending | ObDispatched | ObDead

record 'p outbox_row =
  ob_id :: uuid
  ob_sink :: string
  ob_payload :: 'p
  ob_schema_version :: int
  ob_attempts :: nat
  ob_state :: outbox_state
  ob_last_error :: "string option"
  ob_last_attempted_at :: "db_time option"
  ob_dispatched_at :: "db_time option"
  ob_created_at :: db_time
  ob_leased_until :: "db_time option"
  ob_trace_context :: "'p option"
  ob_delivery_id :: "string option"
  ob_installation_id :: "uuid option"
  ob_run_id :: "uuid option"

definition OUTBOX_SINK_TEMPORAL_WORKFLOW_START :: string where
  "OUTBOX_SINK_TEMPORAL_WORKFLOW_START = ''temporal_workflow_start''"

definition OUTBOX_SINK_INSTALLATION_RECONCILE :: string where
  "OUTBOX_SINK_INSTALLATION_RECONCILE = ''installation_reconcile''"

definition OUTBOX_RETRY_BACKOFF_BASE_SECONDS :: int where "OUTBOX_RETRY_BACKOFF_BASE_SECONDS = 2"
definition OUTBOX_RETRY_BACKOFF_CAP_SECONDS :: int where "OUTBOX_RETRY_BACKOFF_CAP_SECONDS = 300"

datatype outbox_error = OutboxCheckViolation | OutboxDuplicateKey

text \<open>\<^verbatim>\<open>n * interval '1 second'\<close> in microseconds.\<close>

abbreviation seconds :: "int \<Rightarrow> db_time" where
  "seconds n \<equiv> n * 1000000"

section \<open>Producers\<close>

definition ob_checks :: "'p outbox_row \<Rightarrow> bool" where
  "ob_checks r \<longleftrightarrow> ob_sink r = OUTBOX_SINK_INSTALLATION_RECONCILE \<or> ob_installation_id r \<noteq> None"

text \<open>\<open>newId\<close> is the minted \<^verbatim>\<open>uuid4()\<close>, \<open>now\<close> the server clock of the column default.\<close>

definition ob_insert ::
  "uuid \<Rightarrow> db_time \<Rightarrow> string \<Rightarrow> 'p \<Rightarrow> int \<Rightarrow> uuid option \<Rightarrow> uuid option \<Rightarrow> string option \<Rightarrow> 'p option
     \<Rightarrow> 'p outbox_row list \<Rightarrow> outbox_error + 'p outbox_row list" where
  "ob_insert newId now snk payload schemaVersion runId installationId deliveryId trace t =
     (let r = \<lparr>ob_id = newId, ob_sink = snk, ob_payload = payload, ob_schema_version = schemaVersion, ob_attempts = 0,
               ob_state = ObPending, ob_last_error = None, ob_last_attempted_at = None, ob_dispatched_at = None,
               ob_created_at = now, ob_leased_until = None, ob_trace_context = trace, ob_delivery_id = deliveryId,
               ob_installation_id = installationId, ob_run_id = runId\<rparr>
      in if \<not> ob_checks r then Inl OutboxCheckViolation
         else if newId \<in> ob_id ` set t then Inl OutboxDuplicateKey
         else Inr (t @ [r]))"

definition appendReviewDispatch ::
  "uuid \<Rightarrow> db_time \<Rightarrow> uuid \<Rightarrow> 'p \<Rightarrow> int \<Rightarrow> uuid \<Rightarrow> string option \<Rightarrow> 'p option
     \<Rightarrow> 'p outbox_row list \<Rightarrow> outbox_error + 'p outbox_row list" where
  "appendReviewDispatch newId now runId payload schemaVersion installationId deliveryId trace =
     ob_insert newId now OUTBOX_SINK_TEMPORAL_WORKFLOW_START payload schemaVersion (Some runId) (Some installationId) deliveryId trace"

text \<open>The producer-drift warning for a review workflow type is a log line.\<close>

definition appendNonReviewDispatch ::
  "uuid \<Rightarrow> db_time \<Rightarrow> 'p \<Rightarrow> int \<Rightarrow> uuid \<Rightarrow> string option \<Rightarrow> 'p option
     \<Rightarrow> 'p outbox_row list \<Rightarrow> outbox_error + 'p outbox_row list" where
  "appendNonReviewDispatch newId now payload schemaVersion installationId deliveryId trace =
     ob_insert newId now OUTBOX_SINK_TEMPORAL_WORKFLOW_START payload schemaVersion None (Some installationId) deliveryId trace"

definition appendReconcile ::
  "uuid \<Rightarrow> db_time \<Rightarrow> 'p \<Rightarrow> int \<Rightarrow> string option \<Rightarrow> 'p option \<Rightarrow> 'p outbox_row list \<Rightarrow> outbox_error + 'p outbox_row list" where
  "appendReconcile newId now payload schemaVersion deliveryId trace =
     ob_insert newId now OUTBOX_SINK_INSTALLATION_RECONCILE payload schemaVersion None None deliveryId trace"

section \<open>The dispatcher's statements\<close>

definition ob_claimable :: "js_date \<Rightarrow> 'p outbox_row \<Rightarrow> bool" where
  "ob_claimable now r \<longleftrightarrow>
     ob_state r = ObPending \<and> (case ob_leased_until r of None \<Rightarrow> True | Some l \<Rightarrow> l < of_date now)"

text \<open>The rows the claim selects: oldest first, at most a batch, rows another transaction has locked skipped.\<close>

definition claim_batch :: "(uuid \<Rightarrow> bool) \<Rightarrow> js_date \<Rightarrow> nat \<Rightarrow> 'p outbox_row list \<Rightarrow> 'p outbox_row list" where
  "claim_batch locked now batchSize t =
     take batchSize (order_by ob_created_at (filter (\<lambda>r. ob_claimable now r \<and> \<not> locked (ob_id r)) t))"

definition claimPending ::
  "(uuid \<Rightarrow> bool) \<Rightarrow> js_date \<Rightarrow> nat \<Rightarrow> int \<Rightarrow> 'p outbox_row list \<Rightarrow> 'p outbox_row list \<times> 'p outbox_row list" where
  "claimPending locked now batchSize leaseSeconds t =
     (let rows = claim_batch locked now batchSize t; ids = map ob_id rows
      in (rows, if rows = [] then t
                else upd_where (\<lambda>r. ob_id r \<in> set ids)
                       (\<lambda>r. r\<lparr>ob_leased_until := Some (of_date now + seconds leaseSeconds)\<rparr>) t))"

definition markDispatched ::
  "js_date \<Rightarrow> uuid \<Rightarrow> nat \<Rightarrow> 'p outbox_row list \<Rightarrow> (db_time option \<times> db_time) option \<times> 'p outbox_row list" where
  "markDispatched now rid expectedAttempts t =
     (let p = (\<lambda>r. ob_id r = rid \<and> ob_state r = ObPending \<and> ob_attempts r = expectedAttempts);
          f = (\<lambda>r. r\<lparr>ob_state := ObDispatched, ob_dispatched_at := Some (of_date now), ob_leased_until := None\<rparr>)
      in (map_option (\<lambda>r. (ob_last_attempted_at r, ob_created_at r)) (first_row (returning p f t)), upd_where p f t))"

definition backoff_seconds :: "nat \<Rightarrow> int" where
  "backoff_seconds attempts = min (OUTBOX_RETRY_BACKOFF_BASE_SECONDS * 2 ^ attempts) OUTBOX_RETRY_BACKOFF_CAP_SECONDS"

text \<open>The SET clause of a failed attempt; \<open>now1\<close> and \<open>now2\<close> are the two clock reads of the statement's parameters.\<close>

definition fail_set :: "js_date \<Rightarrow> js_date \<Rightarrow> string \<Rightarrow> nat \<Rightarrow> bool \<Rightarrow> 'p outbox_row \<Rightarrow> 'p outbox_row" where
  "fail_set now1 now2 err maxAttempts permanent r =
     r\<lparr>ob_attempts := ob_attempts r + 1,
       ob_last_error := Some (take 1024 err),
       ob_last_attempted_at := Some (of_date now1),
       ob_leased_until := (if permanent \<or> maxAttempts \<le> ob_attempts r + 1 then None
                        else Some (of_date now2 + seconds (backoff_seconds (ob_attempts r)))),
       ob_state := (if permanent \<or> maxAttempts \<le> ob_attempts r + 1 then ObDead else ob_state r)\<rparr>"

definition markAttemptFailed ::
  "js_date \<Rightarrow> js_date \<Rightarrow> uuid \<Rightarrow> string \<Rightarrow> nat \<Rightarrow> nat \<Rightarrow> bool \<Rightarrow> 'p outbox_row list
     \<Rightarrow> (outbox_state \<times> string) option \<times> 'p outbox_row list" where
  "markAttemptFailed now1 now2 rid err maxAttempts expectedAttempts permanent t =
     (let p = (\<lambda>r. ob_id r = rid \<and> ob_attempts r = expectedAttempts);
          f = fail_set now1 now2 err maxAttempts permanent
      in (map_option (\<lambda>r. (ob_state r, ob_sink r)) (first_row (returning p f t)), upd_where p f t))"

definition extendLease :: "js_date \<Rightarrow> uuid \<Rightarrow> int \<Rightarrow> 'p outbox_row list \<Rightarrow> 'p outbox_row list" where
  "extendLease now rid leaseSeconds t =
     upd_where (\<lambda>r. ob_id r = rid) (\<lambda>r. r\<lparr>ob_leased_until := Some (of_date now + seconds leaseSeconds)\<rparr>) t"

section \<open>The operator's statements\<close>

definition ob_markDead :: "js_date \<Rightarrow> uuid \<Rightarrow> string \<Rightarrow> 'p outbox_row list \<Rightarrow> 'p outbox_row list" where
  "ob_markDead now rid err t =
     upd_where (\<lambda>r. ob_id r = rid)
       (\<lambda>r. r\<lparr>ob_state := ObDead, ob_last_error := Some (take 1024 err), ob_last_attempted_at := Some (of_date now),
              ob_leased_until := None\<rparr>) t"

text \<open>\<^verbatim>\<open>ORDER BY last_attempted_at DESC NULLS LAST\<close>\<close>

definition listDead :: "nat \<Rightarrow> 'p outbox_row list \<Rightarrow> 'p outbox_row list" where
  "listDead limit t =
     (let dead = filter (\<lambda>r. ob_state r = ObDead) t
      in take limit (order_by (\<lambda>r. - the (ob_last_attempted_at r)) (filter (\<lambda>r. ob_last_attempted_at r \<noteq> None) dead)
           @ filter (\<lambda>r. ob_last_attempted_at r = None) dead))"

definition replayDead :: "uuid \<Rightarrow> 'p outbox_row list \<Rightarrow> (nat \<times> string option) option \<times> 'p outbox_row list" where
  "replayDead rid t =
     (let old = filter (\<lambda>r. ob_id r = rid \<and> ob_state r = ObDead) t
      in (map_option (\<lambda>r. (ob_attempts r, ob_last_error r)) (first_row old),
          upd_where (\<lambda>r. ob_id r \<in> ob_id ` set old)
            (\<lambda>r. r\<lparr>ob_state := ObPending, ob_attempts := 0, ob_leased_until := None, ob_last_error := None\<rparr>) t))"

section \<open>Histories\<close>

text \<open>Every statement that changes the table, by whichever process; \<open>mx\<close> is the configured dead-letter threshold.\<close>

datatype 'p ob_op =
    ObInsert uuid db_time string 'p int "uuid option" "uuid option" "string option" "'p option"
  | ObClaim "uuid \<Rightarrow> bool" js_date nat int
  | ObMarkDispatched js_date uuid nat
  | ObMarkFailed js_date js_date uuid string nat bool
  | ObExtendLease js_date uuid int
  | ObMarkDead js_date uuid string
  | ObReplay uuid

fun ob_exec :: "nat \<Rightarrow> 'p ob_op \<Rightarrow> 'p outbox_row list \<Rightarrow> 'p outbox_row list" where
  "ob_exec mx (ObInsert newId now snk pl sv run iid dl tr) t =
     (case ob_insert newId now snk pl sv run iid dl tr t of Inl _ \<Rightarrow> t | Inr t' \<Rightarrow> t')"
| "ob_exec mx (ObClaim locked now n secs) t = snd (claimPending locked now n secs t)"
| "ob_exec mx (ObMarkDispatched now rid ex) t = snd (markDispatched now rid ex t)"
| "ob_exec mx (ObMarkFailed now1 now2 rid err ex perm) t = snd (markAttemptFailed now1 now2 rid err mx ex perm t)"
| "ob_exec mx (ObExtendLease now rid secs) t = extendLease now rid secs t"
| "ob_exec mx (ObMarkDead now rid err) t = ob_markDead now rid err t"
| "ob_exec mx (ObReplay rid) t = snd (replayDead rid t)"

text \<open>The update one operation makes to one row: every operation but the insert is such an update.\<close>

definition ob_row_ok :: "nat \<Rightarrow> 'p outbox_row \<Rightarrow> bool" where
  "ob_row_ok mx r \<longleftrightarrow> ob_checks r \<and> (ob_state r = ObPending \<longrightarrow> ob_attempts r < mx) \<and>
     (ob_state r = ObDispatched \<longrightarrow> ob_dispatched_at r \<noteq> None) \<and>
     (case ob_last_error r of None \<Rightarrow> True | Some e \<Rightarrow> length e \<le> 1024)"

definition ob_wf :: "nat \<Rightarrow> 'p outbox_row list \<Rightarrow> bool" where
  "ob_wf mx t \<longleftrightarrow> 0 < mx \<and> distinct (map ob_id t) \<and> (\<forall>r\<in>set t. ob_row_ok mx r)"

lemma claimPending_snd:
  "snd (claimPending locked now n secs t) =
     upd_where (\<lambda>r. ob_id r \<in> ob_id ` set (claim_batch locked now n t))
       (\<lambda>r. r\<lparr>ob_leased_until := Some (of_date now + seconds secs)\<rparr>) t"
  by (auto simp: claimPending_def Let_def upd_where_id)

lemma fail_set_simps [simp]:
  "ob_id (fail_set n1 n2 e mx pm r) = ob_id r" "ob_sink (fail_set n1 n2 e mx pm r) = ob_sink r"
  "ob_installation_id (fail_set n1 n2 e mx pm r) = ob_installation_id r"
  "ob_attempts (fail_set n1 n2 e mx pm r) = Suc (ob_attempts r)"
  "ob_created_at (fail_set n1 n2 e mx pm r) = ob_created_at r"
  "ob_dispatched_at (fail_set n1 n2 e mx pm r) = ob_dispatched_at r"
  "ob_last_error (fail_set n1 n2 e mx pm r) = Some (take 1024 e)"
  "ob_state (fail_set n1 n2 e mx pm r) = (if pm \<or> mx \<le> Suc (ob_attempts r) then ObDead else ob_state r)"
  by (simp_all add: fail_set_def)

lemma ob_row_ok_update:
  assumes "ob_wf mx t" and "\<And>r. ob_id (f r) = ob_id r" and "\<And>r. r \<in> set t \<Longrightarrow> p r \<Longrightarrow> ob_row_ok mx r \<Longrightarrow> ob_row_ok mx (f r)"
  shows "ob_wf mx (upd_where p f t)"
  using assms by (auto simp: ob_wf_def map_key_upd_where set_upd_where)

lemma ob_exec_wf:
  assumes wf: "ob_wf mx t"
  shows "ob_wf mx (ob_exec mx op t)"
proof (cases op)
  case (ObInsert newId now snk pl sv run iid dl tr)
  then show ?thesis using wf by (auto simp: ob_insert_def Let_def ob_wf_def ob_row_ok_def image_iff)
qed (use wf in \<open>auto simp: claimPending_snd markDispatched_def markAttemptFailed_def extendLease_def ob_markDead_def replayDead_def
      Let_def ob_row_ok_def ob_checks_def intro!: ob_row_ok_update [OF wf]\<close>, auto simp: ob_wf_def)

interpretation ob: history "ob_exec mx" "ob_wf mx" for mx
  by unfold_locales (rule ob_exec_wf)

section \<open>How a row moves\<close>

text \<open>\<open>r'\<close> is a later version of \<open>r\<close> with no replay in between: what was written at the insert is unchanged, the attempt
  counter has not gone down, and a row that had left the queue is still out of it.\<close>

definition ob_later :: "'p outbox_row \<Rightarrow> 'p outbox_row \<Rightarrow> bool" where
  "ob_later r r' \<longleftrightarrow> ob_id r' = ob_id r \<and> ob_sink r' = ob_sink r \<and> ob_payload r' = ob_payload r \<and>
     ob_run_id r' = ob_run_id r \<and> ob_installation_id r' = ob_installation_id r \<and> ob_created_at r' = ob_created_at r \<and>
     ob_attempts r \<le> ob_attempts r' \<and> (ob_state r \<noteq> ObPending \<longrightarrow> ob_state r' \<noteq> ObPending)"

lemma ob_later_refl [simp]: "ob_later r r"
  by (simp add: ob_later_def)

lemma ob_later_trans: "ob_later r s \<Longrightarrow> ob_later s u \<Longrightarrow> ob_later r u"
  by (auto simp: ob_later_def)

lemma ob_later_upd:
  assumes "r \<in> set t" and "p r \<Longrightarrow> ob_later r (f r)"
  shows "\<exists>r'\<in>set (upd_where p f t). ob_later r r'"
  using upd_where_mem [OF assms(1), of p f] assms(2) by (cases "p r") (auto intro: bexI [of _ r])

lemma ob_later_sets [intro]:
  "ob_later r (r\<lparr>ob_leased_until := l\<rparr>)"
  "ob_later r (r\<lparr>ob_state := ObDispatched, ob_dispatched_at := d, ob_leased_until := l\<rparr>)"
  "ob_later r (r\<lparr>ob_state := ObDead, ob_last_error := e, ob_last_attempted_at := a, ob_leased_until := l\<rparr>)"
  "ob_later r (fail_set n1 n2 err mx pm r)"
  by (simp_all add: ob_later_def fail_set_def)

lemma ob_exec_later:
  assumes "r \<in> set t" and "op \<noteq> ObReplay (ob_id r)"
  shows "\<exists>r'\<in>set (ob_exec mx op t). ob_later r r'"
proof (cases op)
  case (ObInsert newId now snk pl sv run iid dl tr)
  then have "r \<in> set (ob_exec mx op t)" using assms(1) by (auto simp: ob_insert_def Let_def)
  then show ?thesis by (auto intro: ob_later_refl)
next
  case (ObReplay rid)
  then have "ob_id r \<noteq> rid" using assms(2) by auto
  then show ?thesis unfolding ObReplay using assms(1) by (auto simp: replayDead_def Let_def intro!: ob_later_upd)
qed (use assms(1) in \<open>auto simp: claimPending_snd markDispatched_def markAttemptFailed_def extendLease_def ob_markDead_def Let_def
      intro!: ob_later_upd\<close>)

lemma ob_fold_later:
  assumes "r \<in> set t" and "ObReplay (ob_id r) \<notin> set ops"
  shows "\<exists>r'\<in>set (fold (ob_exec mx) ops t). ob_later r r'"
  using assms
proof (induction ops arbitrary: r t)
  case (Cons op ops)
  obtain r1 where r1: "r1 \<in> set (ob_exec mx op t)" "ob_later r r1" using ob_exec_later [of r t op mx] Cons.prems by auto
  then have "ObReplay (ob_id r1) \<notin> set ops" using Cons.prems(2) by (simp add: ob_later_def)
  from Cons.IH [OF r1(1) this] r1(2) show ?case by (auto intro: ob_later_trans)
qed (use ob_later_refl in fastforce)

text \<open>The two settling statements on a table with one row per id.\<close>

lemma settle_no_hit:
  assumes "\<forall>r\<in>set t. ob_id r = rid \<longrightarrow> ob_attempts r \<noteq> ex"
  shows "markDispatched now rid ex t = (None, t)" and "markAttemptFailed n1 n2 rid e mx ex pm t = (None, t)"
  using assms by (auto simp: markDispatched_def markAttemptFailed_def Let_def returning_def filter_empty_conv intro: upd_where_id)

lemma lookup_unique: "distinct (map ob_id t) \<Longrightarrow> r \<in> set t \<Longrightarrow> (\<forall>x\<in>set t. ob_id x = ob_id r \<longrightarrow> x = r)"
  by (auto dest: distinct_key_unique)

lemma markAttemptFailed_hit:
  assumes "distinct (map ob_id t)" and "r \<in> set t"
  shows "fst (markAttemptFailed n1 n2 (ob_id r) e mx (ob_attempts r) pm t)
      = Some (ob_state (fail_set n1 n2 e mx pm r), ob_sink r)"
    and "fail_set n1 n2 e mx pm r \<in> set (snd (markAttemptFailed n1 n2 (ob_id r) e mx (ob_attempts r) pm t))"
    and "x \<in> set t \<Longrightarrow> ob_id x \<noteq> ob_id r \<Longrightarrow> x \<in> set (snd (markAttemptFailed n1 n2 (ob_id r) e mx (ob_attempts r) pm t))"
proof -
  let ?p = "\<lambda>x. ob_id x = ob_id r \<and> ob_attempts x = ob_attempts r" and ?f = "fail_set n1 n2 e mx pm"
  have "returning ?p ?f t \<noteq> []" "\<forall>x\<in>set (returning ?p ?f t). x = ?f r"
    using assms lookup_unique [OF assms] by (auto simp: returning_def filter_empty_conv)
  then show "fst (markAttemptFailed n1 n2 (ob_id r) e mx (ob_attempts r) pm t)
      = Some (ob_state (fail_set n1 n2 e mx pm r), ob_sink r)"
    unfolding markAttemptFailed_def Let_def by (cases "returning ?p ?f t") auto
  show "?f r \<in> set (snd (markAttemptFailed n1 n2 (ob_id r) e mx (ob_attempts r) pm t))"
    unfolding markAttemptFailed_def Let_def using upd_where_mem_changed [OF assms(2), of ?p ?f] by simp
  show "x \<in> set t \<Longrightarrow> ob_id x \<noteq> ob_id r \<Longrightarrow> x \<in> set (snd (markAttemptFailed n1 n2 (ob_id r) e mx (ob_attempts r) pm t))"
    unfolding markAttemptFailed_def Let_def using upd_where_mem_unchanged [of x t ?p ?f] by simp
qed

definition dispatched_set :: "js_date \<Rightarrow> 'p outbox_row \<Rightarrow> 'p outbox_row" where
  "dispatched_set now r = r\<lparr>ob_state := ObDispatched, ob_dispatched_at := Some (of_date now), ob_leased_until := None\<rparr>"

lemma markDispatched_hit:
  assumes "distinct (map ob_id t)" and "r \<in> set t" and "ob_state r = ObPending"
  shows "fst (markDispatched now (ob_id r) (ob_attempts r) t) = Some (ob_last_attempted_at r, ob_created_at r)"
    and "dispatched_set now r \<in> set (snd (markDispatched now (ob_id r) (ob_attempts r) t))"
    and "x \<in> set t \<Longrightarrow> ob_id x \<noteq> ob_id r \<Longrightarrow> x \<in> set (snd (markDispatched now (ob_id r) (ob_attempts r) t))"
proof -
  let ?p = "\<lambda>x. ob_id x = ob_id r \<and> ob_state x = ObPending \<and> ob_attempts x = ob_attempts r" and ?f = "dispatched_set now"
  have df: "(\<lambda>r. r\<lparr>ob_state := ObDispatched, ob_dispatched_at := Some (of_date now), ob_leased_until := None\<rparr>) = dispatched_set now"
    by (simp add: dispatched_set_def fun_eq_iff)
  have "returning ?p ?f t \<noteq> []" "\<forall>x\<in>set (returning ?p ?f t). x = ?f r"
    using assms lookup_unique [OF assms(1,2)] by (auto simp: returning_def filter_empty_conv)
  then show "fst (markDispatched now (ob_id r) (ob_attempts r) t) = Some (ob_last_attempted_at r, ob_created_at r)"
    unfolding markDispatched_def Let_def df by (cases "returning ?p ?f t") (auto simp: dispatched_set_def)
  show "?f r \<in> set (snd (markDispatched now (ob_id r) (ob_attempts r) t))"
    unfolding markDispatched_def Let_def df using upd_where_mem_changed [OF assms(2), of ?p ?f] assms(3) by simp
  show "x \<in> set t \<Longrightarrow> ob_id x \<noteq> ob_id r \<Longrightarrow> x \<in> set (snd (markDispatched now (ob_id r) (ob_attempts r) t))"
    unfolding markDispatched_def Let_def df using upd_where_mem_unchanged [of x t ?p ?f] by simp
qed

lemma settle_ids [simp]:
  "map ob_id (snd (markDispatched now rid ex t)) = map ob_id t"
  "map ob_id (snd (markAttemptFailed n1 n2 rid e mx ex pm t)) = map ob_id t"
  by (auto simp: markDispatched_def markAttemptFailed_def Let_def intro: map_key_upd_where)

section \<open>Properties\<close>

definition demo_outbox_row :: "nat outbox_row" where
  "demo_outbox_row = \<lparr>ob_id = ''o1'', ob_sink = ''temporal_workflow_start'', ob_payload = 0, ob_schema_version = 2, ob_attempts = 1,
     ob_state = ObPending, ob_last_error = None, ob_last_attempted_at = None, ob_dispatched_at = None, ob_created_at = 7,
     ob_leased_until = None, ob_trace_context = None, ob_delivery_id = None, ob_installation_id = Some ''i1'', ob_run_id = None\<rparr>"

lemma demo_outbox_wf: "ob_wf 5 [demo_outbox_row]"
  by (simp add: ob_wf_def ob_row_ok_def ob_checks_def demo_outbox_row_def)

text \<open>The outbox invariant. Along every history of producer, dispatcher and operator statements, ids are unique, only
  reconcile rows lack a tenant, a pending row has attempts left, a dispatched row carries its instant, and the stored
  error fits its bound.\<close>

theorem ob_history_invariant:
  assumes "ob_wf mx t"
  shows "ob_wf mx (fold (ob_exec mx) ops t)"
  using assms by (rule ob.fold_inv)

theorem ob_history_invariant_witness:
  "ob_wf 5 (fold (ob_exec 5) [ObClaim (\<lambda>_. False) 3 10 10, ObMarkFailed 4 4 ''o1'' ''down'' 1 False, ObReplay ''o1''] [demo_outbox_row])"
  using ob_history_invariant [OF demo_outbox_wf] by blast

text \<open>A worker that was overtaken cannot settle. Once a newer worker has recorded a failed attempt on a row, a settle
  that still carries the older attempt count writes nothing and reports so, whatever else happens to the table, unless an
  operator replays the row.\<close>

theorem ob_stale_settle_fenced:
  assumes "ob_wf mx t" and "r \<in> set t" and "ex < ob_attempts r" and "ObReplay (ob_id r) \<notin> set ops"
    and "t' = fold (ob_exec mx) ops t"
  shows "markDispatched now (ob_id r) ex t' = (None, t') \<and> markAttemptFailed n1 n2 (ob_id r) e mx ex pm t' = (None, t')"
proof -
  obtain r' where r': "r' \<in> set t'" "ob_later r r'" using ob_fold_later [OF assms(2,4)] assms(5) by blast
  have "ob_wf mx t'" unfolding assms(5) by (rule ob.fold_inv) (rule assms(1))
  then have d: "distinct (map ob_id t')" by (simp add: ob_wf_def)
  have "\<forall>x\<in>set t'. ob_id x = ob_id r \<longrightarrow> ob_attempts x \<noteq> ex"
    using lookup_unique [OF d r'(1)] r'(2) assms(3) unfolding ob_later_def by (metis le_trans not_less)
  then show ?thesis using settle_no_hit by blast
qed

theorem ob_stale_settle_fenced_witness:
  "markDispatched 9 ''o1'' 0 (fold (ob_exec 5) [ObClaim (\<lambda>_. False) 3 10 10] [demo_outbox_row])
     = (None, fold (ob_exec 5) [ObClaim (\<lambda>_. False) 3 10 10] [demo_outbox_row])"
proof -
  have m: "demo_outbox_row \<in> set [demo_outbox_row]" "0 < ob_attempts demo_outbox_row" and rid: "ob_id demo_outbox_row = ''o1''"
    by (simp_all add: demo_outbox_row_def)
  have n: "ObReplay (ob_id demo_outbox_row) \<notin> set [ObClaim (\<lambda>_. False) 3 10 10]" by simp
  show ?thesis by (rule ob_stale_settle_fenced [OF demo_outbox_wf m n refl, THEN conjunct1, unfolded rid])
qed

text \<open>A row that left the queue is not dispatched again. Once a row is dispatched or dead, no claim returns it, in any
  history in which no operator replays it, and it is still there with its payload.\<close>

theorem ob_settled_not_claimed:
  assumes "ob_wf mx t" and "r \<in> set t" and "ob_state r \<noteq> ObPending" and "ObReplay (ob_id r) \<notin> set ops"
    and "t' = fold (ob_exec mx) ops t"
  shows "ob_id r \<notin> ob_id ` set (fst (claimPending locked now n secs t')) \<and> (\<exists>r'\<in>set t'. ob_later r r')"
proof -
  obtain r' where r': "r' \<in> set t'" "ob_later r r'" using ob_fold_later [OF assms(2,4)] assms(5) by blast
  have "ob_wf mx t'" unfolding assms(5) by (rule ob.fold_inv) (rule assms(1))
  then have d: "distinct (map ob_id t')" by (simp add: ob_wf_def)
  have "ob_id x \<noteq> ob_id r" if "x \<in> set (fst (claimPending locked now n secs t'))" for x
  proof -
    have "x \<in> set t'" "ob_state x = ObPending"
      using that by (auto simp: claimPending_def Let_def claim_batch_def ob_claimable_def dest!: in_set_takeD)
    moreover have "ob_id r' = ob_id r" "ob_state r' \<noteq> ObPending" using r'(2) assms(3) by (auto simp: ob_later_def)
    ultimately show ?thesis using distinct_key_unique [OF d _ r'(1), of x] by metis
  qed
  then have "ob_id r \<notin> ob_id ` set (fst (claimPending locked now n secs t'))" unfolding image_iff by metis
  then show ?thesis using r' by (intro conjI bexI)
qed

theorem ob_settled_not_claimed_witness:
  "''o1'' \<notin> ob_id ` set (fst (claimPending (\<lambda>_. False) 99 10 10 (fold (ob_exec 5) [ObExtendLease 3 ''o1'' 10]
     [demo_outbox_row\<lparr>ob_state := ObDispatched, ob_dispatched_at := Some 3\<rparr>])))"
proof -
  let ?r = "demo_outbox_row\<lparr>ob_state := ObDispatched, ob_dispatched_at := Some 3\<rparr>"
  have "ob_wf 5 [?r]" by (simp add: ob_wf_def ob_row_ok_def ob_checks_def demo_outbox_row_def)
  moreover have "ob_id ?r = ''o1''" by (simp add: demo_outbox_row_def)
  moreover have "?r \<in> set [?r]" "ob_state ?r \<noteq> ObPending" "ObReplay ''o1'' \<notin> set [ObExtendLease 3 ''o1'' 10]" by simp_all
  ultimately show ?thesis
    using ob_settled_not_claimed [of 5 "[?r]" ?r "[ObExtendLease 3 ''o1'' 10]" _ "\<lambda>_. False" 99 10 10] by (simp only: simp_thms) blast
qed

text \<open>The claim takes the oldest claimable rows, at most a batch, in the order of their creation, and leases exactly
  those; fewer than a batch means that every claimable row was taken. Until the lease ends no other drainer's claim
  gets any of them.\<close>

theorem claimPending_correct:
  assumes "distinct (map ob_id t)" and "claimPending locked now n secs t = (rows, t')"
  shows "set rows \<subseteq> {r \<in> set t. ob_claimable now r \<and> \<not> locked (ob_id r)} \<and> length rows \<le> n \<and>
    sorted (map ob_created_at rows) \<and>
    (\<forall>x\<in>set t - set rows. ob_claimable now x \<longrightarrow> \<not> locked (ob_id x) \<longrightarrow> length rows = n \<and> (\<forall>r\<in>set rows. ob_created_at r \<le> ob_created_at x)) \<and>
    (\<forall>x\<in>set t. (if x \<in> set rows then x\<lparr>ob_leased_until := Some (of_date now + seconds secs)\<rparr> else x) \<in> set t') \<and>
    (\<forall>now2 locked2 n2 s2. of_date now2 \<le> of_date now + seconds secs \<longrightarrow>
       ob_id ` set (fst (claimPending locked2 now2 n2 s2 t')) \<inter> ob_id ` set rows = {})"
proof -
  let ?C = "order_by ob_created_at (filter (\<lambda>r. ob_claimable now r \<and> \<not> locked (ob_id r)) t)"
  let ?f = "\<lambda>r. r\<lparr>ob_leased_until := Some (of_date now + seconds secs)\<rparr>"
  have rows: "rows = take n ?C" using assms(2) by (simp add: claimPending_def claim_batch_def Let_def)
  have t': "t' = upd_where (\<lambda>r. ob_id r \<in> ob_id ` set rows) ?f t"
    using claimPending_snd [of locked now n secs t] assms(2) rows by (simp add: claim_batch_def)
  have sub: "set rows \<subseteq> {r \<in> set t. ob_claimable now r \<and> \<not> locked (ob_id r)}" using rows by (auto dest: in_set_takeD)
  have C: "set ?C = {r \<in> set t. ob_claimable now r \<and> \<not> locked (ob_id r)}" "sorted (map ob_created_at ?C)"
    by (auto simp: order_by_def)
  have srt: "sorted (map ob_created_at rows)" using C(2) unfolding rows by (simp only: take_map [symmetric] sorted_wrt_take)
  have rest: "length rows = n \<and> (\<forall>r\<in>set rows. ob_created_at r \<le> ob_created_at x)"
    if "x \<in> set t - set rows" "ob_claimable now x" "\<not> locked (ob_id x)" for x
  proof -
    have "x \<in> set (take n ?C) \<union> set (drop n ?C)" using that C(1) by (metis (no_types, lifting) DiffD1 append_take_drop_id mem_Collect_eq set_append)
    then have x: "x \<in> set (drop n ?C)" using that(1) rows by auto
    then have "n < length ?C" by (cases "n < length ?C") auto
    moreover have "sorted (map ob_created_at (take n ?C) @ map ob_created_at (drop n ?C))"
      using C(2) by (metis append_take_drop_id map_append)
    ultimately show ?thesis using x rows by (auto simp: sorted_append)
  qed
  have inrows: "ob_id x \<in> ob_id ` set rows \<longleftrightarrow> x \<in> set rows" if "x \<in> set t" for x
    using that sub distinct_key_unique [OF assms(1)] by blast
  have upd: "(if x \<in> set rows then ?f x else x) \<in> set t'" if "x \<in> set t" for x
    using upd_where_mem [OF that, of "\<lambda>r. ob_id r \<in> ob_id ` set rows" ?f] inrows [OF that] by (simp add: t')
  have excl: "ob_id y \<notin> ob_id ` set rows"
    if "of_date now2 \<le> of_date now + seconds secs" "y \<in> set (fst (claimPending locked2 now2 n2 s2 t'))" for y now2 locked2 n2 s2
  proof
    assume leased: "ob_id y \<in> ob_id ` set rows"
    have "y \<in> set t'" and y: "ob_claimable now2 y"
      using that(2) by (auto simp: claimPending_def Let_def claim_batch_def dest!: in_set_takeD)
    with leased have "ob_leased_until y = Some (of_date now + seconds secs)" by (auto simp: t' set_upd_where)
    then show False using y that(1) by (simp add: ob_claimable_def)
  qed
  show ?thesis using sub srt rest upd excl rows by (auto simp: image_iff)
qed

theorem claimPending_correct_witness:
  "\<exists>rows t'. claimPending (\<lambda>_. False) 3 1 10 [demo_outbox_row] = (rows, t') \<and> sorted (map ob_created_at rows) \<and>
     ob_id ` set (fst (claimPending (\<lambda>_. False) 9 1 10 t')) \<inter> ob_id ` set rows = {}"
proof -
  obtain rows t' where c: "claimPending (\<lambda>_. False) 3 1 10 [demo_outbox_row] = (rows, t')" by (metis prod.exhaust)
  have "of_date (9::int) \<le> of_date 3 + seconds 10" by simp
  with claimPending_correct [OF _ c] c show ?thesis by simp
qed

text \<open>A dispatch that keeps failing: one fenced settle per attempt, each with the attempt count it was claimed at.\<close>

fun fail_times :: "nat \<Rightarrow> uuid \<Rightarrow> nat \<Rightarrow> (js_date \<times> string) list \<Rightarrow> 'p outbox_row list \<Rightarrow> 'p outbox_row list" where
  "fail_times mx rid k [] t = t"
| "fail_times mx rid k ((now, err) # es) t = fail_times mx rid (Suc k) es (snd (markAttemptFailed now now rid err mx k False t))"

lemma fail_times_row:
  assumes "distinct (map ob_id t)" and "r \<in> set t" and "ob_state r = ObPending" and "ob_attempts r + length es \<le> mx" and "es \<noteq> []"
  shows "\<exists>r'\<in>set (fail_times mx (ob_id r) (ob_attempts r) es t). ob_id r' = ob_id r \<and> ob_attempts r' = ob_attempts r + length es \<and>
    (if ob_attempts r' = mx then ob_state r' = ObDead \<and> ob_leased_until r' = None
     else ob_state r' = ObPending \<and> ob_leased_until r' = Some (of_date (fst (last es)) + seconds (backoff_seconds (ob_attempts r' - 1))))"
  using assms
proof (induction es arbitrary: r t)
  case (Cons e es)
  obtain now err where e: "e = (now, err)" by (cases e)
  let ?r1 = "fail_set now now err mx False r" and ?t1 = "snd (markAttemptFailed now now (ob_id r) err mx (ob_attempts r) False t)"
  have r1: "?r1 \<in> set ?t1" by (rule markAttemptFailed_hit(2) [OF Cons.prems(1,2)])
  show ?case
  proof (cases "es = []")
    case True
    then show ?thesis using r1 Cons.prems(3,4) e
      by (intro bexI [of _ ?r1]) (auto simp: fail_set_def)
  next
    case False
    have d1: "distinct (map ob_id ?t1)" using Cons.prems(1) by simp
    have "ob_state ?r1 = ObPending" "ob_attempts ?r1 + length es \<le> mx" using Cons.prems(3,4) False by (auto simp: neq_Nil_conv)
    from Cons.IH [OF d1 r1 this False] show ?thesis
      unfolding e fail_times.simps by (simp only: fail_set_simps length_Cons add_Suc_right add_Suc last_ConsR [OF False])
  qed
qed simp

text \<open>The retry budget. A row whose dispatch fails again and again is retried with pauses that double from two seconds
  up to five minutes, is pending as long as it has attempts left, and is dead after exactly \<open>mx\<close> failures: it cannot be
  claimed before its pause is over, and never after its last failure.\<close>

theorem ob_retry_budget:
  assumes "distinct (map ob_id t)" and "r \<in> set t" and "ob_state r = ObPending" and "ob_attempts r = 0"
    and "0 < length es" and "length es \<le> mx" and "t' = fail_times mx (ob_id r) 0 es t"
  shows "(\<forall>now. (\<exists>x\<in>set t'. ob_id x = ob_id r \<and> ob_claimable now x) \<longleftrightarrow>
      length es < mx \<and> of_date (fst (last es)) + seconds (min (2 ^ length es) 300) < of_date now)"
proof -
  have ids: "map ob_id (fail_times mx rid k es t) = map ob_id t" for rid k
    by (induction mx rid k es t rule: fail_times.induct) simp_all
  have "es \<noteq> []" using assms(5) by simp
  from fail_times_row [OF assms(1-3) _ this, of mx] assms(4,6)
  obtain r' where r': "r' \<in> set t'" "ob_id r' = ob_id r" "ob_attempts r' = length es"
      "if ob_attempts r' = mx then ob_state r' = ObDead \<and> ob_leased_until r' = None
       else ob_state r' = ObPending \<and> ob_leased_until r' = Some (of_date (fst (last es)) + seconds (backoff_seconds (ob_attempts r' - 1)))"
    unfolding assms(7) by (auto simp: assms(4))
  have uniq: "x = r'" if "x \<in> set t'" "ob_id x = ob_id r" for x
    using distinct_key_unique [of ob_id t' x r'] that r'(1,2) ids assms(1,7) by simp
  have "(2::int) * 2 ^ (length es - 1) = 2 ^ length es" using assms(5) by (cases "length es") simp_all
  then have "backoff_seconds (length es - 1) = min (2 ^ length es) 300"
    by (simp add: backoff_seconds_def OUTBOX_RETRY_BACKOFF_BASE_SECONDS_def OUTBOX_RETRY_BACKOFF_CAP_SECONDS_def)
  then have "ob_claimable now r' \<longleftrightarrow> length es < mx \<and> of_date (fst (last es)) + seconds (min (2 ^ length es) 300) < of_date now" for now
    using r'(3,4) assms(6) by (cases "length es = mx") (simp_all add: ob_claimable_def)
  then show ?thesis using uniq r'(1,2) by metis
qed

theorem ob_retry_budget_witness:
  "(\<exists>x\<in>set (fail_times 5 ''o1'' 0 [(10, ''a''), (20, ''b'')] [demo_outbox_row\<lparr>ob_attempts := 0\<rparr>]). ob_id x = ''o1'' \<and> ob_claimable 4021 x)"
proof -
  let ?r = "demo_outbox_row\<lparr>ob_attempts := 0\<rparr>"
  have p: "distinct (map ob_id [?r])" "?r \<in> set [?r]" "ob_state ?r = ObPending" "ob_attempts ?r = 0"
    "0 < length [(10::int, ''a''), (20, ''b'')]" "length [(10::int, ''a''), (20, ''b'')] \<le> 5" by (simp_all add: demo_outbox_row_def)
  have rid: "ob_id ?r = ''o1''" by (simp add: demo_outbox_row_def)
  show ?thesis using ob_retry_budget [OF p refl, rule_format, of 4021] unfolding rid by simp
qed

text \<open>(C27) The fence has a gap. The failing settle is fenced on the attempt count alone, and a successful settle does not
  raise it: when two workers hold the same row (the first one's lease ran out), and the slower one fails for good after the
  faster one has dispatched the row, the dispatched row becomes dead, and an operator's replay dispatches it again.\<close>

theorem dispatched_row_dies:
  assumes "ob_wf mx t" and "r \<in> set t" and "ob_state r = ObPending"
    and "t1 = snd (markDispatched now (ob_id r) (ob_attempts r) t)"
    and "t2 = snd (markAttemptFailed n1 n2 (ob_id r) err mx (ob_attempts r) True t1)"
  shows "(\<exists>x\<in>set t1. ob_id x = ob_id r \<and> ob_state x = ObDispatched) \<and> (\<exists>x\<in>set t2. ob_id x = ob_id r \<and> ob_state x = ObDead) \<and>
    (\<exists>x\<in>set (snd (replayDead (ob_id r) t2)). ob_id x = ob_id r \<and> ob_claimable later x)"
proof -
  have d: "distinct (map ob_id t)" using assms(1) by (simp add: ob_wf_def)
  let ?r1 = "dispatched_set now r" and ?r2 = "fail_set n1 n2 err mx True (dispatched_set now r)"
  have r1: "?r1 \<in> set t1" unfolding assms(4) by (rule markDispatched_hit(2) [OF d assms(2,3)])
  have same: "ob_id ?r1 = ob_id r" "ob_attempts ?r1 = ob_attempts r" "ob_state ?r1 = ObDispatched" by (simp_all add: dispatched_set_def)
  have "distinct (map ob_id t1)" unfolding assms(4) using d by simp
  from markAttemptFailed_hit(2) [OF this r1, of n1 n2 err mx True] have r2: "?r2 \<in> set t2" unfolding assms(5) same .
  let ?p = "\<lambda>x. ob_id x \<in> ob_id ` set (filter (\<lambda>x. ob_id x = ob_id r \<and> ob_state x = ObDead) t2)"
  let ?f = "\<lambda>r. r\<lparr>ob_state := ObPending, ob_attempts := 0, ob_leased_until := None, ob_last_error := None\<rparr>"
  have st2: "ob_id ?r2 = ob_id r" "ob_state ?r2 = ObDead" using same by simp_all
  then have "?f ?r2 \<in> set (snd (replayDead (ob_id r) t2))"
    unfolding replayDead_def Let_def snd_conv using r2 by (intro upd_where_mem_changed) auto
  moreover have "ob_claimable later (?f ?r2)" by (simp add: ob_claimable_def)
  ultimately show ?thesis using r1 r2 same st2
    by (intro conjI bexI [of _ ?r1] bexI [of _ ?r2] bexI [of _ "?f ?r2"]) simp_all
qed

theorem dispatched_row_dies_witness:
  "\<exists>x\<in>set (snd (markAttemptFailed 9 9 ''o1'' ''already started'' 5 1 True (snd (markDispatched 8 ''o1'' 1 [demo_outbox_row])))).
     ob_id x = ''o1'' \<and> ob_state x = ObDead"
proof -
  have p: "demo_outbox_row \<in> set [demo_outbox_row]" "ob_state demo_outbox_row = ObPending" by (simp_all add: demo_outbox_row_def)
  have id1: "ob_id demo_outbox_row = ''o1''" "ob_attempts demo_outbox_row = 1" by (simp_all add: demo_outbox_row_def)
  show ?thesis using dispatched_row_dies [OF demo_outbox_wf p refl refl, unfolded id1] by blast
qed

end
