(* ===== verification/Outbox_Dispatch.thy ===== *)
theory Outbox_Dispatch
  imports Outbox Run_Lifecycle
begin

text \<open>
  The dispatcher of the outbox: the sink registry (\<^verbatim>\<open>outbox/sink_registry.ts\<close>), the dispatch activity with its guard
  transaction and its lease heartbeat (\<^verbatim>\<open>activities/outbox_dispatch.activity.ts\<close>), and the drain loop
  (\<^verbatim>\<open>runner/outbox_dispatcher_loop.ts\<close>).

  The sinks are an argument, as they are in the code: a handler changes the review tables and whatever else it reaches
  (type \<open>'s\<close>). What other processes, the heartbeat and abandoned dispatches do while a row is being dispatched is an
  arbitrary function of the tables.
\<close>

section \<open>Sinks\<close>

datatype dispatch_error =
    UnknownSinkError string
  | PermanentSinkError string
  | RetryableSinkError string
  | DispatchTimeoutError string
  | DispatchInputInvalid
  | GuardFailed review_error
  | MarkFault
  | OtherDispatchError string

record sink_context =
  sc_deliveryId :: "string option"
  sc_installationId :: "uuid option"
  sc_runId :: "uuid option"
  sc_outboxRowId :: uuid

type_synonym 's sink_handler =
  "rat json \<Rightarrow> sink_context \<Rightarrow> review_db \<times> 's \<Rightarrow> (dispatch_error + unit) \<times> (review_db \<times> 's)"

type_synonym 's sinks = "(string \<times> 's sink_handler) list"

text \<open>\<open>Inl\<close> is \<^verbatim>\<open>SinkAlreadyRegisteredError\<close>.\<close>

definition registerSink :: "string \<Rightarrow> 's sink_handler \<Rightarrow> 's sinks \<Rightarrow> string + 's sinks" where
  "registerSink name h reg = (if map_of reg name \<noteq> None then Inl name else Inr (reg @ [(name, h)]))"

definition getSink :: "string \<Rightarrow> 's sinks \<Rightarrow> dispatch_error + 's sink_handler" where
  "getSink name reg = (case map_of reg name of None \<Rightarrow> Inl (UnknownSinkError name) | Some h \<Rightarrow> Inr h)"

section \<open>The dispatch activity\<close>

record claimed_row =
  cl_row :: "rat json outbox_row"
  cl_reviewId :: "uuid option"
  cl_provider :: "string option"

text \<open>The two LEFT JOINs of the claim.\<close>

definition project_row :: "review_db \<Rightarrow> rat json outbox_row \<Rightarrow> claimed_row" where
  "project_row db r =
     (let rr = (case ob_run_id r of None \<Rightarrow> None | Some rid \<Rightarrow> first_row (filter (\<lambda>x. run_id x = rid) (review_runs db)));
          rv = (case rr of None \<Rightarrow> None | Some x \<Rightarrow> first_row (filter (\<lambda>v. review_id v = rr_review_id x) (reviews db)))
      in \<lparr>cl_row = r, cl_reviewId = map_option rr_review_id rr, cl_provider = map_option provider rv\<rparr>)"

record dispatch_input =
  di_row_id :: uuid
  di_sink :: string
  di_payload :: "rat json"
  di_trace_context :: "rat json"
  di_run_id :: "uuid option"
  di_review_id :: "uuid option"
  di_provider :: "string option"
  di_installation_id :: "uuid option"
  di_orphan_reason :: "string option"

text \<open>\<^verbatim>\<open>DispatchRowInputV1.parse\<close> on rows whose ids come from \<^verbatim>\<open>uuid\<close> columns: the payload is an object, the trace context
  maps to strings, and the tenant is missing exactly when the orphan reason says so.\<close>

definition DispatchRowInputV1 :: "dispatch_input \<Rightarrow> bool" where
  "DispatchRowInputV1 v \<longleftrightarrow>
     (case di_payload v of JObj _ \<Rightarrow> True | _ \<Rightarrow> False) \<and>
     (case di_trace_context v of JObj kvs \<Rightarrow> list_all (\<lambda>(k, x). case x of JStr _ \<Rightarrow> True | _ \<Rightarrow> False) kvs | _ \<Rightarrow> False) \<and>
     di_orphan_reason v \<in> {None, Some ''bootstrap_sink''} \<and>
     (di_installation_id v = None \<longleftrightarrow> di_orphan_reason v \<noteq> None)"

definition dispatch_site :: string where
  "dispatch_site = ''outbox_dispatcher.dispatch_row''"

definition start_args :: "uuid \<Rightarrow> transition_args" where
  "start_args runId = \<lparr>t_runId = runId, t_fromState = ''PENDING'', t_toState = ''RUNNING'', t_activity = dispatch_site, t_attempt = 1,
     t_workerId = None, t_durationMs = None, t_reason = None, t_expectedInstallationId = None\<rparr>"

definition ingested_payload :: "dispatch_input \<Rightarrow> (string \<times> rat json) list" where
  "ingested_payload v = [(''outbox_id'', JStr (di_row_id v)), (''sink'', JStr (di_sink v))] @
     (case di_orphan_reason v of None \<Rightarrow> [] | Some x \<Rightarrow> [(''orphan_reason'', JStr x)])"

text \<open>One transaction: the stale-write guard, the start of the run, the milestone. \<open>e1\<close>, \<open>e2\<close>, \<open>e3\<close> are the minted event ids.
  An error of the guard is thrown on after its savepoint is released, so the transaction rolls back.\<close>

definition guard_body :: "js_date \<Rightarrow> uuid \<Rightarrow> uuid \<Rightarrow> uuid \<Rightarrow> dispatch_input \<Rightarrow> uuid \<Rightarrow> uuid \<Rightarrow> review_db \<Rightarrow> review_error + unit \<times> review_db" where
  "guard_body clk e1 e2 e3 v runId reviewId db =
     (case assertCurrentRun clk e1 runId reviewId dispatch_site db of
        (Inl e, _, _) \<Rightarrow> Inl e
      | (Inr _, _, db1) \<Rightarrow>
          (case transitionRun clk e2 (start_args runId) db1 of
             Inl e \<Rightarrow> Inl e
           | Inr ((outcome, _), db2) \<Rightarrow>
               (if outcome = APPLIED then
                  (case emitWorkflowEvent clk e3 (case di_provider v of None \<Rightarrow> ''github'' | Some p \<Rightarrow> p) runId reviewId ''INGESTED''
                          (ingested_payload v) None (di_installation_id v) db2 of
                     Inl e \<Rightarrow> Inl e | Inr db3 \<Rightarrow> Inr ((), db3))
                else Inr ((), db2))))"

definition guardTransitionAndIngest ::
  "js_date \<Rightarrow> uuid \<Rightarrow> uuid \<Rightarrow> uuid \<Rightarrow> dispatch_input \<Rightarrow> uuid \<Rightarrow> uuid \<Rightarrow> review_db \<Rightarrow> (review_error + unit) \<times> review_db" where
  "guardTransitionAndIngest clk e1 e2 e3 v runId reviewId = transact (guard_body clk e1 e2 e3 v runId reviewId)"

text \<open>Only a row that belongs to a run of a review is guarded.\<close>

definition row_guard :: "js_date \<Rightarrow> uuid \<Rightarrow> uuid \<Rightarrow> uuid \<Rightarrow> dispatch_input \<Rightarrow> review_db \<Rightarrow> (review_error + unit) \<times> review_db" where
  "row_guard clk e1 e2 e3 v db =
     (case (di_run_id v, di_review_id v) of
        (Some runId, Some reviewId) \<Rightarrow> guardTransitionAndIngest clk e1 e2 e3 v runId reviewId db
      | _ \<Rightarrow> (Inr (), db))"

definition dispatchRow ::
  "'s sinks \<Rightarrow> js_date \<Rightarrow> uuid \<Rightarrow> uuid \<Rightarrow> uuid \<Rightarrow> dispatch_input \<Rightarrow> string option \<Rightarrow> review_db \<times> 's
     \<Rightarrow> (dispatch_error + unit) \<times> (review_db \<times> 's)" where
  "dispatchRow reg clk e1 e2 e3 v deliveryId w =
     (if \<not> DispatchRowInputV1 v then (Inl DispatchInputInvalid, w)
      else case getSink (di_sink v) reg of
             Inl e \<Rightarrow> (Inl e, w)
           | Inr handler \<Rightarrow>
               (let (g, db1) = row_guard clk e1 e2 e3 v (fst w)
                in case g of
                     Inl e \<Rightarrow> (Inl (GuardFailed e), (db1, snd w))
                   | Inr _ \<Rightarrow> handler (di_payload v)
                       \<lparr>sc_deliveryId = deliveryId, sc_installationId = di_installation_id v, sc_runId = di_run_id v,
                        sc_outboxRowId = di_row_id v\<rparr> (db1, snd w)))"

text \<open>The lease heartbeat: after each sleep it stops when the handler is done or when the monotonic clock has reached the
  cap, else it extends the lease. The list gives, per turn, whether the handler was done after the sleep and the reading
  of the monotonic clock (milliseconds); the result is the readings at which the lease was extended.\<close>

definition HEARTBEAT_LEASE_SECONDS :: int where "HEARTBEAT_LEASE_SECONDS = 10"
definition HEARTBEAT_MAX_TOTAL_SECONDS :: int where "HEARTBEAT_MAX_TOTAL_SECONDS = 60"

fun heartbeat_loop :: "int \<Rightarrow> (bool \<times> int) list \<Rightarrow> int list" where
  "heartbeat_loop capDeadline [] = []"
| "heartbeat_loop capDeadline ((stopped, m) # ts) =
     (if stopped \<or> capDeadline \<le> m then [] else m # heartbeat_loop capDeadline ts)"

definition startLeaseHeartbeat :: "int \<Rightarrow> (bool \<times> int) list \<Rightarrow> int list" where
  "startLeaseHeartbeat start = heartbeat_loop (start + HEARTBEAT_MAX_TOTAL_SECONDS * 1000)"

section \<open>The drain loop\<close>

definition DEFAULT_OUTBOX_BATCH_SIZE :: nat where "DEFAULT_OUTBOX_BATCH_SIZE = 100"
definition DEFAULT_OUTBOX_LEASE_SECONDS :: int where "DEFAULT_OUTBOX_LEASE_SECONDS = 10"

text \<open>The watchdog's turns: at each, whether the race was decided before, and the monotonic reading (milliseconds).
  \<open>True\<close> is a \<^verbatim>\<open>DispatchTimeoutError\<close>.\<close>

fun dispatchWatchdog :: "int \<Rightarrow> (bool \<times> int) list \<Rightarrow> bool" where
  "dispatchWatchdog deadline [] = False"
| "dispatchWatchdog deadline ((aborted, m) # ts) =
     (if aborted then False else if deadline - m \<le> 0 then True else dispatchWatchdog deadline ts)"

record 's drain_env =
  oe_max :: nat
  oe_batch :: nat
  oe_lease :: int
  oe_shadow :: bool
  oe_claim_now :: js_date
  oe_locked :: "uuid \<Rightarrow> bool"
  oe_claim_fails :: bool
  oe_sinks :: "'s sinks"
  oe_clk :: "nat \<Rightarrow> js_date"
  oe_ids :: "nat \<Rightarrow> nat \<Rightarrow> uuid"
  oe_timeout :: "nat \<Rightarrow> bool"
  oe_mark_fails :: "nat \<Rightarrow> bool"
  oe_settle_fails :: "nat \<Rightarrow> bool"
  oe_now :: "nat \<Rightarrow> js_date"
  oe_now2 :: "nat \<Rightarrow> js_date"
  oe_text :: "dispatch_error \<Rightarrow> string"

record 's ob_world =
  w_outbox :: "rat json outbox_row list"
  w_db :: review_db
  w_ext :: 's

definition sink_permanent :: "dispatch_error \<Rightarrow> bool" where
  "sink_permanent e = (case e of PermanentSinkError _ \<Rightarrow> True | UnknownSinkError _ \<Rightarrow> True | _ \<Rightarrow> False)"

definition input_of :: "claimed_row \<Rightarrow> dispatch_input" where
  "input_of c =
     \<lparr>di_row_id = ob_id (cl_row c), di_sink = ob_sink (cl_row c), di_payload = ob_payload (cl_row c),
      di_trace_context = (case ob_trace_context (cl_row c) of None \<Rightarrow> JObj [] | Some x \<Rightarrow> x),
      di_run_id = ob_run_id (cl_row c), di_review_id = cl_reviewId c, di_provider = cl_provider c,
      di_installation_id = ob_installation_id (cl_row c),
      di_orphan_reason = (if ob_installation_id (cl_row c) = None then Some ''bootstrap_sink'' else None)\<rparr>"

text \<open>The dispatch under its bound. When the watchdog wins the race, the dispatch is abandoned and its effects, if any, come
  later: they belong to the interference.\<close>

definition dispatchBounded :: "'s drain_env \<Rightarrow> nat \<Rightarrow> claimed_row \<Rightarrow> 's ob_world \<Rightarrow> (dispatch_error + unit) \<times> 's ob_world" where
  "dispatchBounded env i c w =
     (if oe_timeout env i then (Inl (DispatchTimeoutError (ob_id (cl_row c))), w)
      else (let (r, (db', s')) = dispatchRow (oe_sinks env) (oe_clk env i) (oe_ids env i 0) (oe_ids env i 1) (oe_ids env i 2)
                                   (input_of c) (ob_delivery_id (cl_row c)) (w_db w, w_ext w)
            in (r, w\<lparr>w_db := db', w_ext := s'\<rparr>)))"

text \<open>One row: dispatch and mark in the try block, the classified settle in the catch block. A fault of the first mark is
  caught too; only a fault of the settle leaves the pass, \<open>False\<close>.\<close>

definition row_verdict :: "'s drain_env \<Rightarrow> nat \<Rightarrow> dispatch_error + unit \<Rightarrow> dispatch_error + unit" where
  "row_verdict env i r = (case r of Inl e \<Rightarrow> Inl e | Inr _ \<Rightarrow> if oe_mark_fails env i then Inl MarkFault else Inr ())"

definition drain_row :: "'s drain_env \<Rightarrow> (nat \<Rightarrow> 's ob_world \<Rightarrow> 's ob_world) \<Rightarrow> nat \<Rightarrow> claimed_row \<Rightarrow> 's ob_world \<Rightarrow> bool \<times> 's ob_world" where
  "drain_row env between i c w =
     (let (r, w1) = dispatchBounded env i c w; w2 = between i w1; row = cl_row c
      in case row_verdict env i r of
           Inr _ \<Rightarrow> (True, w2\<lparr>w_outbox := snd (markDispatched (oe_now env i) (ob_id row) (ob_attempts row) (w_outbox w2))\<rparr>)
         | Inl e \<Rightarrow>
             (if oe_settle_fails env i then (False, w2)
              else (True, w2\<lparr>w_outbox := snd (markAttemptFailed (oe_now env i) (oe_now2 env i) (ob_id row) (take 1024 (oe_text env e))
                                                (oe_max env) (ob_attempts row) (sink_permanent e) (w_outbox w2))\<rparr>)))"

fun drain_rows :: "'s drain_env \<Rightarrow> (nat \<Rightarrow> 's ob_world \<Rightarrow> 's ob_world) \<Rightarrow> nat \<Rightarrow> claimed_row list \<Rightarrow> 's ob_world \<Rightarrow> bool \<times> 's ob_world" where
  "drain_rows env between i [] w = (True, w)"
| "drain_rows env between i (c # cs) w =
     (let (ok, w') = drain_row env between i c w in if ok then drain_rows env between (Suc i) cs w' else (False, w'))"

text \<open>\<^verbatim>\<open>ClaimPendingRowsInputV1.parse\<close>\<close>

definition ClaimPendingRowsInputV1 :: "nat \<Rightarrow> int \<Rightarrow> bool" where
  "ClaimPendingRowsInputV1 batch secs \<longleftrightarrow> 1 \<le> batch \<and> batch \<le> 1000 \<and> 10 \<le> secs \<and> secs \<le> 300"

definition drainOnce :: "'s drain_env \<Rightarrow> (nat \<Rightarrow> 's ob_world \<Rightarrow> 's ob_world) \<Rightarrow> 's ob_world \<Rightarrow> nat option \<times> 's ob_world" where
  "drainOnce env between w =
     (if oe_shadow env then (Some 0, w)
      else if \<not> ClaimPendingRowsInputV1 (oe_batch env) (oe_lease env) \<or> oe_claim_fails env then (None, w)
      else (let (rows, t') = claimPending (oe_locked env) (oe_claim_now env) (oe_batch env) (oe_lease env) (w_outbox w);
                (ok, w') = drain_rows env between 0 (map (project_row (w_db w)) rows) (w\<lparr>w_outbox := t'\<rparr>)
            in (if ok then Some (length rows) else None, w')))"

text \<open>\<^verbatim>\<open>run()\<close>: passes until \<^verbatim>\<open>stop()\<close>; a pass that throws ends the loop. Between two passes others may write.\<close>

datatype drain_end = DrainStopped | DrainThrew | DrainRunning

fun drain_run ::
  "(bool \<times> 's drain_env \<times> (nat \<Rightarrow> 's ob_world \<Rightarrow> 's ob_world) \<times> ('s ob_world \<Rightarrow> 's ob_world)) list \<Rightarrow> 's ob_world \<Rightarrow> drain_end \<times> 's ob_world" where
  "drain_run [] w = (DrainRunning, w)"
| "drain_run ((stopped, env, between, after) # ps) w =
     (if stopped then (DrainStopped, w)
      else (case drainOnce env between w of
              (None, w') \<Rightarrow> (DrainThrew, w')
            | (Some _, w') \<Rightarrow> drain_run ps (after w')))"

section \<open>Lemmas on the dispatch\<close>

lemma dispatchBounded_outbox [simp]: "w_outbox (snd (dispatchBounded env i c w)) = w_outbox w"
  by (auto simp: dispatchBounded_def split: prod.splits)

lemma heartbeat_loop_before: "m \<in> set (heartbeat_loop d ts) \<Longrightarrow> m < d"
  by (induction d ts rule: heartbeat_loop.induct) (auto split: if_splits)

text \<open>A stuck handler cannot pin its row: every extension happens within the cap, so the lease ends within the cap plus one
  lease, and without a stop the loop ends at the first reading past the cap.\<close>

lemma startLeaseHeartbeat_capped:
  assumes "m \<in> set (startLeaseHeartbeat start ts)"
  shows "m + HEARTBEAT_LEASE_SECONDS * 1000 < start + 70000"
  using heartbeat_loop_before [OF assms [unfolded startLeaseHeartbeat_def]]
  by (simp add: HEARTBEAT_LEASE_SECONDS_def HEARTBEAT_MAX_TOTAL_SECONDS_def)

lemma dispatchWatchdog_fires:
  assumes "\<forall>(a, m)\<in>set ts. \<not> a" and "\<exists>(a, m)\<in>set ts. d \<le> m"
  shows "dispatchWatchdog d ts"
  using assms by (induction d ts rule: dispatchWatchdog.induct) auto

lemma guardTransitionAndIngest_Inl:
  "guardTransitionAndIngest clk e1 e2 e3 v runId reviewId db = (Inl e, db') \<Longrightarrow> db' = db"
  unfolding guardTransitionAndIngest_def by (rule transact_Inl)

lemma guard_body_Inr:
  assumes "guard_body clk e1 e2 e3 v runId reviewId db = Inr ((), db')"
  obtains oc cs db2 where "fst (assertCurrentRun clk e1 runId reviewId dispatch_site db) = Inr ()"
      "transitionRun clk e2 (start_args runId) db = Inr ((oc, cs), db2)"
      "review_runs db' = review_runs db2" "reviews db' = reviews db2" "repositories db' = repositories db2"
proof -
  obtain x y db1 where ac: "assertCurrentRun clk e1 runId reviewId dispatch_site db = (x, y, db1)" by (metis prod.exhaust)
  then have x: "x = Inr ()" using assms by (cases x) (auto simp: guard_body_def)
  then have db1: "db1 = db" using ac by (auto simp: assertCurrentRun_def split: option.splits if_splits sum.splits)
  obtain oc cs db2 where tr: "transitionRun clk e2 (start_args runId) db = Inr ((oc, cs), db2)"
    using assms ac x db1 by (auto simp: guard_body_def split: sum.splits)
  have "review_runs db' = review_runs db2 \<and> reviews db' = reviews db2 \<and> repositories db' = repositories db2"
    using assms ac x db1 tr by (auto simp: guard_body_def dest!: emitWorkflowEvent_Inr split: if_splits sum.splits)
  with tr ac x show thesis using that by auto
qed

lemma assertCurrentRun_again:
  assumes "fst (assertCurrentRun clk e1 runId reviewId site db) = Inr ()" and "reviews db' = reviews db"
  shows "assertCurrentRun clk' e1' runId reviewId site' db' = (Inr (), [], db')"
  using assms by (auto simp: assertCurrentRun_def split: option.splits if_splits sum.splits)

lemma transitionRun_reviews: "transitionRun clk eid a db = Inr ((oc, cs), db') \<Longrightarrow> reviews db' = reviews db"
  by (erule transitionRun_Inr) auto

lemma transitionRun_target:
  assumes "transitionRun clk eid a db = Inr ((oc, cs), db')"
  shows "\<exists>r\<in>set (review_runs db'). run_id r = t_runId a \<and> lifecycle_state r = t_toState a"
  using assms
proof (cases rule: transitionRun_Inr)
  case (already rr rv rp)
  then show ?thesis using run_joins_mem [OF already(1)] by auto
next
  case (applied rr rv rp e)
  then have "flip_set (t_toState a) (of_date clk) rr \<in> set (review_runs db')"
    using run_joins_mem [OF applied(1)] upd_where_mem_changed [of rr "review_runs db" "\<lambda>r. run_id r = t_runId a"] by auto
  then show ?thesis using run_joins_mem(2) [OF applied(1)] by (auto intro!: bexI [of _ "flip_set (t_toState a) (of_date clk) rr"])
qed

text \<open>Once the guard transaction of a row has committed, it passes again without writing, also after writes to other tables.\<close>

lemma guard_again:
  assumes "guardTransitionAndIngest clk e1 e2 e3 v runId reviewId db = (Inr (), db1)"
    and "review_runs db2 = review_runs db1" and "reviews db2 = reviews db1" and "repositories db2 = repositories db1" and "commit_ok db2"
  shows "guardTransitionAndIngest clk' e1' e2' e3' v' runId reviewId db2 = (Inr (), db2)"
proof -
  have body: "guard_body clk e1 e2 e3 v runId reviewId db = Inr ((), db1)"
    using assms(1) by (simp add: guardTransitionAndIngest_def transact_Inr_iff)
  from body obtain oc cs db' where g: "fst (assertCurrentRun clk e1 runId reviewId dispatch_site db) = Inr ()"
      "transitionRun clk e2 (start_args runId) db = Inr ((oc, cs), db')"
      "review_runs db1 = review_runs db'" "reviews db1 = reviews db'" "repositories db1 = repositories db'"
    by (rule guard_body_Inr)
  have "reviews db2 = reviews db" using g(4) assms(3) transitionRun_reviews [OF g(2)] by simp
  then have "guard_body clk' e1' e2' e3' v' runId reviewId db2 = Inr ((), db2)"
    using assertCurrentRun_again [OF g(1)] transitionRun_again [OF g(2), of db2] g(3-5) assms(2-4) by (simp add: guard_body_def)
  then show ?thesis using assms(5) by (simp add: guardTransitionAndIngest_def transact_def)
qed

lemma guard_starts_run:
  assumes "guardTransitionAndIngest clk e1 e2 e3 v runId reviewId db = (Inr (), db1)"
  shows "\<exists>r\<in>set (review_runs db1). run_id r = runId \<and> lifecycle_state r = ''RUNNING''"
proof -
  have body: "guard_body clk e1 e2 e3 v runId reviewId db = Inr ((), db1)"
    using assms by (simp add: guardTransitionAndIngest_def transact_Inr_iff)
  then obtain oc cs db' where g: "transitionRun clk e2 (start_args runId) db = Inr ((oc, cs), db')" "review_runs db1 = review_runs db'"
    by (rule guard_body_Inr)
  show ?thesis using transitionRun_target [OF g(1)] by (simp add: g(2) start_args_def)
qed

section \<open>Lemmas on the drain\<close>

text \<open>How each row of a pass ended, and what the pass makes of a row with that ending.\<close>

fun drain_verdicts ::
  "'s drain_env \<Rightarrow> (nat \<Rightarrow> 's ob_world \<Rightarrow> 's ob_world) \<Rightarrow> nat \<Rightarrow> claimed_row list \<Rightarrow> 's ob_world \<Rightarrow> (dispatch_error + unit) list" where
  "drain_verdicts env between i [] w = []"
| "drain_verdicts env between i (c # cs) w =
     row_verdict env i (fst (dispatchBounded env i c w)) # drain_verdicts env between (Suc i) cs (snd (drain_row env between i c w))"

definition settled_row :: "'s drain_env \<Rightarrow> nat \<Rightarrow> dispatch_error + unit \<Rightarrow> rat json outbox_row \<Rightarrow> rat json outbox_row" where
  "settled_row env i v r =
     (case v of
        Inr _ \<Rightarrow> dispatched_set (oe_now env i) r
      | Inl e \<Rightarrow> fail_set (oe_now env i) (oe_now2 env i) (take 1024 (oe_text env e)) (oe_max env) (sink_permanent e) r)"

lemma length_drain_verdicts [simp]: "length (drain_verdicts env between i cs w) = length cs"
  by (induction cs arbitrary: i w) simp_all

lemma settled_row_lease [simp]: "settled_row env i v (r\<lparr>ob_leased_until := l\<rparr>) = settled_row env i v r"
  by (simp add: settled_row_def dispatched_set_def fail_set_def split: sum.split)

lemma drain_row_fate:
  assumes quiet: "\<And>w. w_outbox (between i w) = w_outbox w" and "\<not> oe_settle_fails env i"
    and d: "distinct (map ob_id (w_outbox w))" and m: "(cl_row c)\<lparr>ob_leased_until := l\<rparr> \<in> set (w_outbox w)"
    and p: "ob_state (cl_row c) = ObPending"
    and v: "v = row_verdict env i (fst (dispatchBounded env i c w))"
  shows "fst (drain_row env between i c w)"
    and "map ob_id (w_outbox (snd (drain_row env between i c w))) = map ob_id (w_outbox w)"
    and "settled_row env i v (cl_row c) \<in> set (w_outbox (snd (drain_row env between i c w)))"
    and "x \<in> set (w_outbox w) \<Longrightarrow> ob_id x \<noteq> ob_id (cl_row c) \<Longrightarrow> x \<in> set (w_outbox (snd (drain_row env between i c w)))"
proof -
  let ?r = "(cl_row c)\<lparr>ob_leased_until := l\<rparr>"
  obtain r w1 where b: "dispatchBounded env i c w = (r, w1)" by (metis prod.exhaust)
  then have w1: "w_outbox w1 = w_outbox w" using dispatchBounded_outbox [of env i c w] by simp
  have st: "ob_state ?r = ObPending" using p by simp
  note hitD = markDispatched_hit [OF d m st, where now = "oe_now env i"]
  note hitF = markAttemptFailed_hit [OF d m]
  show "fst (drain_row env between i c w)"
    "map ob_id (w_outbox (snd (drain_row env between i c w))) = map ob_id (w_outbox w)"
    using assms(2) w1 quiet by (auto simp: drain_row_def b Let_def split: sum.splits)
  show "settled_row env i v (cl_row c) \<in> set (w_outbox (snd (drain_row env between i c w)))"
  proof (cases v)
    case (Inl e)
    then show ?thesis using hitF(2) assms(2) v w1 quiet
      by (subst settled_row_lease [symmetric, where l = l]) (simp add: drain_row_def b settled_row_def Let_def)
  next
    case (Inr u)
    then show ?thesis using hitD(2) v w1 quiet
      by (subst settled_row_lease [symmetric, where l = l]) (simp add: drain_row_def b settled_row_def Let_def)
  qed
  show "x \<in> set (w_outbox (snd (drain_row env between i c w)))" if "x \<in> set (w_outbox w)" "ob_id x \<noteq> ob_id (cl_row c)"
    using that hitD(3) [of x] hitF(3) [of x] assms(2) w1 quiet by (auto simp: drain_row_def b Let_def split: sum.splits)
qed

lemma drain_rows_fate:
  assumes quiet: "\<And>i w. w_outbox (between i w) = w_outbox w" and ok: "\<And>i. \<not> oe_settle_fails env i"
    and "distinct (map ob_id (w_outbox w))" and "distinct (map (ob_id \<circ> cl_row) cs)"
    and "\<forall>c\<in>set cs. (cl_row c)\<lparr>ob_leased_until := l\<rparr> \<in> set (w_outbox w) \<and> ob_state (cl_row c) = ObPending"
  shows "fst (drain_rows env between i cs w) \<and>
    (\<forall>k<length cs. settled_row env (i + k) (drain_verdicts env between i cs w ! k) (cl_row (cs ! k))
       \<in> set (w_outbox (snd (drain_rows env between i cs w)))) \<and>
    (\<forall>x\<in>set (w_outbox w). ob_id x \<notin> (ob_id \<circ> cl_row) ` set cs \<longrightarrow> x \<in> set (w_outbox (snd (drain_rows env between i cs w))))"
  using assms(3-5)
proof (induction cs arbitrary: i w)
  case (Cons c cs)
  let ?v = "row_verdict env i (fst (dispatchBounded env i c w))" and ?w1 = "snd (drain_row env between i c w)"
  have m: "(cl_row c)\<lparr>ob_leased_until := l\<rparr> \<in> set (w_outbox w)" "ob_state (cl_row c) = ObPending" using Cons.prems(3) by simp_all
  note f = drain_row_fate [where between = between, OF quiet ok Cons.prems(1) m refl]
  have sep: "\<And>x. x \<in> set cs \<Longrightarrow> ob_id (cl_row x) \<noteq> ob_id (cl_row c)" using Cons.prems(2) by (auto simp: image_iff)
  have "\<forall>x\<in>set cs. (cl_row x)\<lparr>ob_leased_until := l\<rparr> \<in> set (w_outbox ?w1) \<and> ob_state (cl_row x) = ObPending"
    using Cons.prems(3) f(4) sep by simp
  then have ih: "fst (drain_rows env between (Suc i) cs ?w1) \<and>
    (\<forall>k<length cs. settled_row env (Suc i + k) (drain_verdicts env between (Suc i) cs ?w1 ! k) (cl_row (cs ! k))
       \<in> set (w_outbox (snd (drain_rows env between (Suc i) cs ?w1)))) \<and>
    (\<forall>x\<in>set (w_outbox ?w1). ob_id x \<notin> (ob_id \<circ> cl_row) ` set cs \<longrightarrow> x \<in> set (w_outbox (snd (drain_rows env between (Suc i) cs ?w1))))"
    using Cons.IH [of ?w1 "Suc i"] Cons.prems(1,2) f(2) by simp
  have step: "drain_rows env between i (c # cs) w = drain_rows env between (Suc i) cs ?w1"
    using f(1) by (simp add: split_beta Let_def)
  have sid: "ob_id (settled_row env i ?v (cl_row c)) = ob_id (cl_row c)"
    by (auto simp: settled_row_def dispatched_set_def split: sum.splits)
  have first: "settled_row env i ?v (cl_row c) \<in> set (w_outbox (snd (drain_rows env between (Suc i) cs ?w1)))"
    using ih f(3) sep sid by (metis comp_apply imageE)
  have "settled_row env (i + k) (drain_verdicts env between i (c # cs) w ! k) (cl_row ((c # cs) ! k))
       \<in> set (w_outbox (snd (drain_rows env between (Suc i) cs ?w1)))" if "k < length (c # cs)" for k
    using that first ih by (cases k) simp_all
  then show ?case unfolding step using ih f(4) by simp
qed simp

text \<open>Every outbox write of a pass is one of the repository's statements, so a pass keeps the outbox invariant if the others do.\<close>

lemma drain_row_wf:
  assumes "\<And>i w. ob_wf (oe_max env) (w_outbox w) \<Longrightarrow> ob_wf (oe_max env) (w_outbox (between i w))" and "ob_wf (oe_max env) (w_outbox w)"
  shows "ob_wf (oe_max env) (w_outbox (snd (drain_row env between i c w)))"
proof -
  let ?w2 = "between i (snd (dispatchBounded env i c w))" and ?row = "cl_row c"
  have w2: "ob_wf (oe_max env) (w_outbox ?w2)" using assms by simp
  then have "ob_wf (oe_max env) (snd (markDispatched (oe_now env i) (ob_id ?row) (ob_attempts ?row) (w_outbox ?w2)))"
    "ob_wf (oe_max env) (snd (markAttemptFailed (oe_now env i) (oe_now2 env i) (ob_id ?row) e (oe_max env) (ob_attempts ?row) pm (w_outbox ?w2)))" for e pm
    using ob_exec_wf [OF w2, of "ObMarkDispatched (oe_now env i) (ob_id ?row) (ob_attempts ?row)"]
      ob_exec_wf [OF w2, of "ObMarkFailed (oe_now env i) (oe_now2 env i) (ob_id ?row) e (ob_attempts ?row) pm"] by simp_all
  then show ?thesis using w2 by (auto simp: drain_row_def Let_def split: prod.splits sum.splits)
qed

lemma drain_rows_wf:
  assumes "\<And>i w. ob_wf (oe_max env) (w_outbox w) \<Longrightarrow> ob_wf (oe_max env) (w_outbox (between i w))" and "ob_wf (oe_max env) (w_outbox w)"
  shows "ob_wf (oe_max env) (w_outbox (snd (drain_rows env between i cs w)))"
  using assms(2)
proof (induction cs arbitrary: i w)
  case (Cons c cs)
  have "ob_wf (oe_max env) (w_outbox (snd (drain_row env between i c w)))" by (rule drain_row_wf [OF assms(1) Cons.prems])
  then show ?case using Cons.IH by (auto simp: split_beta Let_def)
qed simp

lemma drainOnce_wf:
  assumes "\<And>i w. ob_wf (oe_max env) (w_outbox w) \<Longrightarrow> ob_wf (oe_max env) (w_outbox (between i w))" and "ob_wf (oe_max env) (w_outbox w)"
  shows "ob_wf (oe_max env) (w_outbox (snd (drainOnce env between w)))"
proof -
  have "ob_wf (oe_max env) (snd (claimPending l n b s (w_outbox w)))" for l n b s
    using ob_exec_wf [OF assms(2), of "ObClaim l n b s"] by simp
  then show ?thesis using assms(2) drain_rows_wf [OF assms(1), where w = "w\<lparr>w_outbox := snd (claimPending (oe_locked env)
      (oe_claim_now env) (oe_batch env) (oe_lease env) (w_outbox w))\<rparr>"]
    by (auto simp: drainOnce_def Let_def split_beta)
qed

section \<open>Properties\<close>

text \<open>One drain pass settles every row it claimed, each by its own outcome and none because of another's: a delivered
  row is dispatched, a row whose sink refused it for good or has no handler is dead at once with the attempt recorded, any
  other failure is retried after the backoff or dead at the threshold. Rows that were not claimed are untouched, and the
  pass reports how many rows it claimed.\<close>

theorem drainOnce_fate:
  assumes "distinct (map ob_id (w_outbox w))" and "\<not> oe_shadow env" and "\<not> oe_claim_fails env" and "\<forall>i. \<not> oe_settle_fails env i"
    and "ClaimPendingRowsInputV1 (oe_batch env) (oe_lease env)" and "\<forall>i w. w_outbox (between i w) = w_outbox w"
    and "claimPending (oe_locked env) (oe_claim_now env) (oe_batch env) (oe_lease env) (w_outbox w) = (rows, t')"
    and "vs = drain_verdicts env between 0 (map (project_row (w_db w)) rows) (w\<lparr>w_outbox := t'\<rparr>)"
  shows "\<exists>w'. drainOnce env between w = (Some (length rows), w') \<and>
    (\<forall>k<length rows. case vs ! k of
        Inr _ \<Rightarrow> dispatched_set (oe_now env k) (rows ! k) \<in> set (w_outbox w')
      | Inl e \<Rightarrow> fail_set (oe_now env k) (oe_now2 env k) (take 1024 (oe_text env e)) (oe_max env) (sink_permanent e) (rows ! k) \<in> set (w_outbox w')) \<and>
    (\<forall>x\<in>set (w_outbox w). x \<notin> set rows \<longrightarrow> x \<in> set (w_outbox w'))"
proof -
  let ?l = "Some (of_date (oe_claim_now env) + seconds (oe_lease env))" and ?cs = "map (project_row (w_db w)) rows" and ?w = "w\<lparr>w_outbox := t'\<rparr>"
  have rows: "rows = claim_batch (oe_locked env) (oe_claim_now env) (oe_batch env) (w_outbox w)"
    using assms(7) by (simp add: claimPending_def Let_def)
  have t': "t' = upd_where (\<lambda>r. ob_id r \<in> ob_id ` set rows) (\<lambda>r. r\<lparr>ob_leased_until := ?l\<rparr>) (w_outbox w)"
    using claimPending_snd [of "oe_locked env" "oe_claim_now env" "oe_batch env" "oe_lease env" "w_outbox w"] assms(7) rows by simp
  have sub: "r \<in> set (w_outbox w) \<and> ob_state r = ObPending" if "r \<in> set rows" for r
    using that rows by (auto simp: claim_batch_def ob_claimable_def dest!: in_set_takeD)
  have dr: "distinct (map ob_id rows)"
    unfolding rows claim_batch_def order_by_def take_map [symmetric]
    by (intro distinct_take) (use assms(1) in \<open>simp add: distinct_map_filter distinct_map inj_on_def\<close>)
  have cr: "map (ob_id \<circ> cl_row) ?cs = map ob_id rows" by (simp add: project_row_def Let_def)
  have dcs: "distinct (map (ob_id \<circ> cl_row) ?cs)" unfolding cr by (rule dr)
  have d: "distinct (map ob_id (w_outbox ?w))" using assms(1) by (simp add: t' map_key_upd_where)
  have m: "\<forall>c\<in>set ?cs. (cl_row c)\<lparr>ob_leased_until := ?l\<rparr> \<in> set (w_outbox ?w) \<and> ob_state (cl_row c) = ObPending"
    using sub by (auto simp: project_row_def Let_def t' intro!: upd_where_mem_changed [where f = "\<lambda>r. r\<lparr>ob_leased_until := ?l\<rparr>"])
  have f: "fst (drain_rows env between 0 ?cs ?w) \<and>
    (\<forall>k<length ?cs. settled_row env (0 + k) (drain_verdicts env between 0 ?cs ?w ! k) (cl_row (?cs ! k)) \<in> set (w_outbox (snd (drain_rows env between 0 ?cs ?w)))) \<and>
    (\<forall>x\<in>set (w_outbox ?w). ob_id x \<notin> (ob_id \<circ> cl_row) ` set ?cs \<longrightarrow> x \<in> set (w_outbox (snd (drain_rows env between 0 ?cs ?w))))"
    by (rule drain_rows_fate [OF _ _ d dcs m]) (use assms(4,6) in simp_all)
  let ?w' = "snd (drain_rows env between 0 ?cs ?w)"
  have run: "drainOnce env between w = (Some (length rows), ?w')"
    using assms(2,3,5,7) f by (simp add: drainOnce_def split_beta)
  have settled: "settled_row env k (vs ! k) (rows ! k) \<in> set (w_outbox ?w')" if "k < length rows" for k
    using f that by (auto simp: assms(8) project_row_def Let_def)
  have others: "x \<in> set (w_outbox ?w')" if "x \<in> set (w_outbox w)" "x \<notin> set rows" for x
  proof -
    have "ob_id x \<notin> ob_id ` set rows" using that sub distinct_key_unique [OF assms(1)] by (metis imageE)
    moreover from this have "x \<in> set (w_outbox ?w)" using that(1) by (simp add: t' upd_where_mem_unchanged)
    moreover have "(ob_id \<circ> cl_row) ` set ?cs = ob_id ` set rows" by (auto simp: project_row_def Let_def image_iff)
    ultimately show ?thesis using f by simp
  qed
  have "case vs ! k of Inr _ \<Rightarrow> dispatched_set (oe_now env k) (rows ! k) \<in> set (w_outbox ?w')
      | Inl e \<Rightarrow> fail_set (oe_now env k) (oe_now2 env k) (take 1024 (oe_text env e)) (oe_max env) (sink_permanent e) (rows ! k) \<in> set (w_outbox ?w')"
    if "k < length rows" for k
    using settled [OF that] by (cases "vs ! k") (simp_all add: settled_row_def)
  then show ?thesis using run others by blast
qed

definition demo_ob_row :: "rat json outbox_row" where
  "demo_ob_row = \<lparr>ob_id = ''o1'', ob_sink = ''k'', ob_payload = JObj [], ob_schema_version = 2, ob_attempts = 1,
     ob_state = ObPending, ob_last_error = None, ob_last_attempted_at = None, ob_dispatched_at = None, ob_created_at = 7,
     ob_leased_until = None, ob_trace_context = None, ob_delivery_id = None, ob_installation_id = Some ''i1'', ob_run_id = None\<rparr>"

definition demo_drain :: "unit drain_env" where
  "demo_drain = \<lparr>oe_max = 5, oe_batch = 100, oe_lease = 10, oe_shadow = False, oe_claim_now = 3, oe_locked = (\<lambda>_. False),
     oe_claim_fails = False, oe_sinks = [(''k'', \<lambda>_ _ w. (Inl (PermanentSinkError ''no''), w))], oe_clk = (\<lambda>_. 3), oe_ids = (\<lambda>_ _. ''e''),
     oe_timeout = (\<lambda>_. False), oe_mark_fails = (\<lambda>_. False), oe_settle_fails = (\<lambda>_. False), oe_now = (\<lambda>_. 4), oe_now2 = (\<lambda>_. 4),
     oe_text = (\<lambda>_. ''no'')\<rparr>"

definition demo_ob_world :: "unit ob_world" where
  "demo_ob_world = \<lparr>w_outbox = [demo_ob_row], w_db = demo_db, w_ext = ()\<rparr>"

theorem drainOnce_fate_witness:
  "\<exists>w'. drainOnce demo_drain (\<lambda>_ w. w) demo_ob_world = (Some 1, w') \<and> (\<exists>r\<in>set (w_outbox w'). ob_id r = ''o1'' \<and> ob_state r = ObDead)"
proof -
  let ?env = demo_drain and ?w = demo_ob_world
  obtain t' where c: "claimPending (oe_locked ?env) (oe_claim_now ?env) (oe_batch ?env) (oe_lease ?env) (w_outbox ?w) = ([demo_ob_row], t')"
    by (simp add: claimPending_def claim_batch_def ob_claimable_def order_by_def demo_drain_def demo_ob_world_def demo_ob_row_def Let_def)
  have p: "distinct (map ob_id (w_outbox ?w))" "\<not> oe_shadow ?env" "\<not> oe_claim_fails ?env" "\<forall>i. \<not> oe_settle_fails ?env i"
      "ClaimPendingRowsInputV1 (oe_batch ?env) (oe_lease ?env)"
    by (simp_all add: demo_ob_world_def demo_drain_def ClaimPendingRowsInputV1_def)
  have v: "drain_verdicts ?env (\<lambda>_ w. w) 0 (map (project_row (w_db ?w)) [demo_ob_row]) (?w\<lparr>w_outbox := t'\<rparr>) = [Inl (PermanentSinkError ''no'')]"
    by (simp add: dispatchBounded_def dispatchRow_def row_guard_def DispatchRowInputV1_def getSink_def input_of_def project_row_def row_verdict_def
        demo_drain_def demo_ob_row_def)
  have "\<forall>i w. w_outbox ((\<lambda>_ w. w) i w) = w_outbox w" by simp
  from drainOnce_fate [OF p this c v [symmetric]] obtain w' where w': "drainOnce ?env (\<lambda>_ w. w) ?w = (Some 1, w')"
      "fail_set (oe_now ?env 0) (oe_now2 ?env 0) (take 1024 (oe_text ?env (PermanentSinkError ''no''))) (oe_max ?env)
         (sink_permanent (PermanentSinkError ''no'')) demo_ob_row \<in> set (w_outbox w')"
    by auto
  then show ?thesis by (intro exI [of _ w'] conjI bexI [OF _ w'(2)]) (auto simp: sink_permanent_def demo_ob_row_def)
qed

text \<open>A superseded run drives nothing. After an allocation commits, and whatever lifecycle transactions follow as long
  as none of them allocates on the same review, dispatching an outbox row of any other run fails and changes nothing: the
  sink is not invoked and the tables, the forensic row of the guard included, are as before.\<close>

theorem dispatchRow_superseded_inert:
  assumes "al_parentRunId a = None"
    and "transact (allocateRun now clk newRunId x1 x2 a) db = (Inr old, db')"
    and "\<forall>op\<in>set ops. \<not> allocates (al_reviewId a) op"
    and "di_review_id v = Some (al_reviewId a)" and "di_run_id v = Some rid" and "rid \<noteq> newRunId"
    and "db2 = fold lc_exec ops db'"
  shows "\<exists>e. dispatchRow reg clk' e1 e2 e3 v dl (db2, s) = (Inl e, (db2, s))"
proof -
  have "allocateRun now clk newRunId x1 x2 a db = Inr (old, db')" using assms(2) by (simp add: transact_Inr_iff)
  then have "points_at (al_reviewId a) newRunId db2"
    using allocateRun_points_at assms(3) fold_points_at unfolding assms(7) by blast
  then obtain e where "fst (assertCurrentRun clk' e1 rid (al_reviewId a) dispatch_site db2) = Inl e"
    using assertCurrentRun_points_at assms(6) by blast
  then have "guard_body clk' e1 e2 e3 v rid (al_reviewId a) db2 = Inl e"
    by (auto simp: guard_body_def split: prod.splits)
  then have "guardTransitionAndIngest clk' e1 e2 e3 v rid (al_reviewId a) db2 = (Inl e, db2)"
    by (simp add: guardTransitionAndIngest_def transact_def)
  then show ?thesis using assms(4,5) by (simp add: dispatchRow_def row_guard_def split: sum.splits)
qed

theorem dispatchRow_superseded_inert_witness:
  "\<exists>db'. transact (allocateRun 5 5 ''r2'' ''e1'' ''e2'' demo_alloc) demo_db = (Inr (Some ''r1''), db') \<and>
     (\<exists>e. dispatchRow [(''k'', \<lambda>_ _ w. (Inr (), w))] 6 ''a'' ''b'' ''c''
        \<lparr>di_row_id = ''o1'', di_sink = ''k'', di_payload = JObj [], di_trace_context = JObj [], di_run_id = Some ''r1'',
         di_review_id = Some ''v1'', di_provider = None, di_installation_id = Some ''i1'', di_orphan_reason = None\<rparr> None (db', ())
        = (Inl e, (db', ())))"
proof -
  obtain db' where db': "transact (allocateRun 5 5 ''r2'' ''e1'' ''e2'' demo_alloc) demo_db = (Inr (Some ''r1''), db')"
    using demo_alloc_commits by blast
  let ?v = "\<lparr>di_row_id = ''o1'', di_sink = ''k'', di_payload = JObj [], di_trace_context = JObj [], di_run_id = Some ''r1'',
         di_review_id = Some ''v1'', di_provider = None, di_installation_id = Some ''i1'', di_orphan_reason = None\<rparr>"
  have "al_parentRunId demo_alloc = None" "al_reviewId demo_alloc = ''v1''" by (simp_all add: demo_alloc_def)
  then show ?thesis using dispatchRow_superseded_inert [OF _ db', of "[]" ?v "''r1''" db'] db' by simp
qed

text \<open>Dispatching a row again is safe for its run. Once the guard transaction of a row has committed, the run is
  RUNNING, and a redelivery passes the guard without writing anything: no second milestone, no second transition.\<close>

theorem guard_redrive_inert:
  assumes "guardTransitionAndIngest clk e1 e2 e3 v runId reviewId db = (Inr (), db1)"
  shows "(\<exists>r\<in>set (review_runs db1). run_id r = runId \<and> lifecycle_state r = ''RUNNING'') \<and>
    guardTransitionAndIngest clk' e1' e2' e3' v' runId reviewId db1 = (Inr (), db1)"
proof
  show "\<exists>r\<in>set (review_runs db1). run_id r = runId \<and> lifecycle_state r = ''RUNNING''" by (rule guard_starts_run [OF assms])
  have "commit_ok db1" using assms by (simp add: guardTransitionAndIngest_def transact_Inr_iff)
  then show "guardTransitionAndIngest clk' e1' e2' e3' v' runId reviewId db1 = (Inr (), db1)"
    by (intro guard_again [OF assms]) simp_all
qed

definition demo_pending_db :: review_db where
  "demo_pending_db = demo_db\<lparr>review_runs := [demo_run\<lparr>lifecycle_state := ''PENDING''\<rparr>]\<rparr>"

definition demo_input :: dispatch_input where
  "demo_input = \<lparr>di_row_id = ''o1'', di_sink = ''k'', di_payload = JObj [], di_trace_context = JObj [], di_run_id = Some ''r1'',
     di_review_id = Some ''v1'', di_provider = None, di_installation_id = Some ''i1'', di_orphan_reason = None\<rparr>"

theorem guard_redrive_inert_witness:
  "\<exists>db1. guardTransitionAndIngest 5 ''a'' ''b'' ''c'' demo_input ''r1'' ''v1'' demo_pending_db = (Inr (), db1) \<and>
     guardTransitionAndIngest 9 ''d'' ''e'' ''f'' demo_input ''r1'' ''v1'' db1 = (Inr (), db1)"
proof -
  note [simp del] = sortKeysDeep.simps
  obtain db1 where "guardTransitionAndIngest 5 ''a'' ''b'' ''c'' demo_input ''r1'' ''v1'' demo_pending_db = (Inr (), db1)"
    by (simp add: guardTransitionAndIngest_def transact_def guard_body_def assertCurrentRun_def transitionRun_def start_args_def
        dispatch_site_def run_joins_def review_repos_def demo_pending_db_def demo_db_def demo_run_def lc_consts update_runs_def
        flip_set_def run_checks_def emitWorkflowEvent_def insert_event_def next_seq_def ingested_payload_def demo_input_def
        orphan_tagged_def commit_ok_def)
  then show ?thesis using guard_redrive_inert by blast
qed

text \<open>Over any number of drain passes, with faults, timeouts and other writers that keep the outbox invariant, the outbox
  invariant holds however the loop ends.\<close>

theorem drain_run_invariant:
  assumes "ob_wf mx (w_outbox w)"
    and "\<forall>(stopped, env, between, after)\<in>set ps. oe_max env = mx \<and>
      (\<forall>i w. ob_wf mx (w_outbox w) \<longrightarrow> ob_wf mx (w_outbox (between i w)) \<and> ob_wf mx (w_outbox (after w)))"
  shows "ob_wf mx (w_outbox (snd (drain_run ps w)))"
  using assms
proof (induction ps arbitrary: w)
  case (Cons p ps)
  obtain stopped env between after where p: "p = (stopped, env, between, after)" by (metis prod.exhaust)
  have env: "oe_max env = mx" "\<And>i w. ob_wf mx (w_outbox w) \<Longrightarrow> ob_wf mx (w_outbox (between i w))"
      "\<And>w. ob_wf mx (w_outbox w) \<Longrightarrow> ob_wf mx (w_outbox (after w))"
    using Cons.prems(2) p by auto
  have "ob_wf mx (w_outbox (snd (drainOnce env between w)))"
    using drainOnce_wf [of env between w] env Cons.prems(1) by simp
  then show ?case using Cons.IH Cons.prems env(3) by (auto simp: p split: prod.splits option.splits)
qed simp

theorem drain_run_invariant_witness:
  "ob_wf 5 (w_outbox (snd (drain_run [(False, demo_drain, \<lambda>_ w. w, \<lambda>w. w), (True, demo_drain, \<lambda>_ w. w, \<lambda>w. w)] demo_ob_world)))"
proof -
  let ?ps = "[(False, demo_drain, \<lambda>(_::nat) (w::unit ob_world). w, \<lambda>w. w), (True, demo_drain, \<lambda>_ w. w, \<lambda>w. w)]"
  have wf: "ob_wf 5 (w_outbox demo_ob_world)" by (simp add: demo_ob_world_def ob_wf_def ob_row_ok_def ob_checks_def demo_ob_row_def)
  have ps: "\<forall>(stopped, env, between, after)\<in>set ?ps. oe_max env = 5 \<and>
      (\<forall>i w. ob_wf 5 (w_outbox w) \<longrightarrow> ob_wf 5 (w_outbox (between i w)) \<and> ob_wf 5 (w_outbox (after w)))"
    by (simp add: demo_drain_def)
  show ?thesis by (rule drain_run_invariant [OF wf ps])
qed

end
