(* ===== verification/Outbox_Port.thy ===== *)
theory Outbox_Port
  imports Outbox_Dispatch Review_Jobs
begin

text \<open>
  What the outbox sinks do in production: the \<^verbatim>\<open>temporal_workflow_start\<close> and \<^verbatim>\<open>installation_reconcile\<close> handlers
  (\<^verbatim>\<open>outbox/sinks/*.ts\<close>) with their envelope (\<^verbatim>\<open>outbox_payloads.v1.ts\<close>), and the port they call
  (\<^verbatim>\<open>runner/background_jobs_temporal_port.ts\<close>, \<^verbatim>\<open>runner/workflow_job_map.ts\<close>), which turns a workflow start into a review
  job or a background job. The state is the review tables and the table of background jobs.

  The texts of the errors are shortened to a tag.
\<close>

section \<open>The envelope\<close>

record workflow_call =
  wc_workflowType :: string
  wc_workflowId :: string
  wc_taskQueue :: string
  wc_args :: "rat js list"
  wc_executionTimeoutSeconds :: int
  wc_runTimeoutSeconds :: int
  wc_searchAttributes :: "rat js"
  wc_idReusePolicy :: string
  wc_idConflictPolicy :: string

definition z_text :: "rat js option \<Rightarrow> string option" where
  "z_text v = (case v of Some (JsStr s) \<Rightarrow> Some s | _ \<Rightarrow> None)"

definition z_default :: "'a \<Rightarrow> (rat js option \<Rightarrow> 'a option) \<Rightarrow> rat js option \<Rightarrow> 'a option" where
  "z_default d p v = (case v of None \<Rightarrow> Some d | Some x \<Rightarrow> p (Some x))"

definition z_seconds :: "rat js option \<Rightarrow> int option" where
  "z_seconds v = (case z_int 1 v of None \<Rightarrow> None | Some n \<Rightarrow> if n \<le> 86400 then Some n else None)"

definition z_array :: "rat js option \<Rightarrow> rat js list option" where
  "z_array v = (case v of Some (JsArr xs) \<Rightarrow> Some xs | _ \<Rightarrow> None)"

definition z_record :: "rat js option \<Rightarrow> rat js option" where
  "z_record v = (case v of Some (JsObj kvs) \<Rightarrow> Some (JsObj kvs) | _ \<Rightarrow> None)"

definition z_enum :: "string list \<Rightarrow> rat js option \<Rightarrow> string option" where
  "z_enum xs v = (case v of Some (JsStr s) \<Rightarrow> if s \<in> set xs then Some s else None | _ \<Rightarrow> None)"

definition z_version :: "rat js option \<Rightarrow> unit option" where
  "z_version v = (case v of Some (JsNum n) \<Rightarrow> if n = 1 \<or> n = 2 then Some () else None | _ \<Rightarrow> None)"

text \<open>Unknown keys are dropped: the schema is not strict.\<close>

definition TemporalWorkflowStartPayloadV1 :: "rat js \<Rightarrow> workflow_call option" where
  "TemporalWorkflowStartPayloadV1 v =
     (case v of
        JsObj kvs \<Rightarrow>
          Option.bind (z_default () z_version (field kvs ''schema_version'')) (\<lambda>_.
          Option.bind (z_text (field kvs ''workflow_type'')) (\<lambda>ty.
          Option.bind (z_text (field kvs ''workflow_id'')) (\<lambda>wid.
          Option.bind (z_text (field kvs ''task_queue'')) (\<lambda>tq.
          Option.bind (z_default [] z_array (field kvs ''args'')) (\<lambda>args.
          Option.bind (z_default 900 z_seconds (field kvs ''execution_timeout_seconds'')) (\<lambda>et.
          Option.bind (z_default 900 z_seconds (field kvs ''run_timeout_seconds'')) (\<lambda>rt.
          Option.bind (z_default (JsObj []) z_record (field kvs ''search_attributes'')) (\<lambda>sa.
          Option.bind (z_default ''ALLOW_DUPLICATE'' (z_enum [''ALLOW_DUPLICATE'', ''REJECT_DUPLICATE'']) (field kvs ''id_reuse_policy'')) (\<lambda>rp.
          Option.bind (z_default ''TERMINATE_EXISTING'' (z_enum [''FAIL'', ''USE_EXISTING'', ''TERMINATE_EXISTING''])
             (field kvs ''id_conflict_policy'')) (\<lambda>cp.
          Some \<lparr>wc_workflowType = ty, wc_workflowId = wid, wc_taskQueue = tq, wc_args = args, wc_executionTimeoutSeconds = et,
            wc_runTimeoutSeconds = rt, wc_searchAttributes = sa, wc_idReusePolicy = rp, wc_idConflictPolicy = cp\<rparr>))))))))))
      | _ \<Rightarrow> None)"

section \<open>The sink handler\<close>

datatype port_error =
    WorkflowAlreadyStarted string
  | TemporalConnectivityError string
  | PortThrew dispatch_error

type_synonym 's workflow_port =
  "workflow_call \<Rightarrow> uuid option \<Rightarrow> string option \<Rightarrow> review_db \<times> 's \<Rightarrow> (port_error + string) \<times> (review_db \<times> 's)"

definition makeTemporalWorkflowStartHandler :: "'s workflow_port \<Rightarrow> 's sink_handler" where
  "makeTemporalWorkflowStartHandler port payload ctx w =
     (case TemporalWorkflowStartPayloadV1 (js_of_json payload) of
        None \<Rightarrow> (Inl (PermanentSinkError ''invalid payload''), w)
      | Some call \<Rightarrow>
          (case port call (sc_installationId ctx) (sc_deliveryId ctx) w of
             (Inr _, w') \<Rightarrow> (Inr (), w')
           | (Inl (WorkflowAlreadyStarted m), w') \<Rightarrow> (Inl (PermanentSinkError m), w')
           | (Inl (TemporalConnectivityError m), w') \<Rightarrow> (Inl (RetryableSinkError m), w')
           | (Inl (PortThrew e), w') \<Rightarrow> (Inl e, w')))"

text \<open>\<^verbatim>\<open>registerTemporalWorkflowStartSink\<close> and \<^verbatim>\<open>registerInstallationReconcileSink\<close> on an empty registry: one handler, two names.\<close>

definition production_sinks :: "'s workflow_port \<Rightarrow> 's sinks" where
  "production_sinks port =
     [(OUTBOX_SINK_TEMPORAL_WORKFLOW_START, makeTemporalWorkflowStartHandler port),
      (OUTBOX_SINK_INSTALLATION_RECONCILE, makeTemporalWorkflowStartHandler port)]"

section \<open>The port\<close>

definition REVIEW_WORKFLOW_TYPE :: string where
  "REVIEW_WORKFLOW_TYPE = ''reviewPullRequest''"

definition WORKFLOW_TYPE_TO_JOB_TYPE :: "(string \<times> string) list" where
  "WORKFLOW_TYPE_TO_JOB_TYPE =
     [(''reconcileInstallation'', ''reconcile_installation''), (''reconcileRepositories'', ''reconcile_repositories''),
      (''repairInstallationRepositories'', ''repair_installation_repositories''), (''syncCodeOwners'', ''sync_code_owners''),
      (''refreshSemanticDocs'', ''refresh_semantic_docs''), (''triggerPageResyncWorkflow'', ''trigger_page_resync'')]"

definition JOB_TYPE_MAX_ATTEMPTS :: "(string \<times> int) list" where
  "JOB_TYPE_MAX_ATTEMPTS =
     [(''reconcile_installation'', 5), (''reconcile_repositories'', 10), (''repair_installation_repositories'', 12),
      (''sync_code_owners'', 5), (''refresh_semantic_docs'', 3), (''trigger_page_resync'', 3)]"

text \<open>What the two repositories are given: the codec and the schema library, the minted ids and the clocks, and what other
  connections do in between.\<close>

record port_env =
  pv_cd :: "rat codec"
  pv_zod :: zod
  pv_jid :: uuid
  pv_now :: db_time
  pv_rj_env :: "review_job list \<Rightarrow> review_job list"
  pv_ids :: "nat \<Rightarrow> uuid"
  pv_nows :: "nat \<Rightarrow> db_time"
  pv_bj_env :: "nat \<Rightarrow> rat background_job list \<Rightarrow> rat background_job list"

definition singlePositionalPayload :: "workflow_call \<Rightarrow> dispatch_error + rat js" where
  "singlePositionalPayload call =
     (case wc_args call of
        [JsObj kvs] \<Rightarrow> Inr (JsObj kvs)
      | [_] \<Rightarrow> Inl (PermanentSinkError ''args[0] is not a plain JSON object'')
      | _ \<Rightarrow> Inl (PermanentSinkError ''positional args''))"

definition review_args :: "review_payload \<Rightarrow> string option \<Rightarrow> rj_enqueue_args" where
  "review_args parsed rowDeliveryId =
     \<lparr>e_runId = p_run_id parsed, e_reviewId = p_review_id parsed, e_installationId = p_installation_id parsed,
      e_payload = js_of_json (payload_json parsed),
      e_deliveryId = Some (case rowDeliveryId of None \<Rightarrow> p_delivery_id parsed | Some d \<Rightarrow> d),
      e_priority = None, e_maxAttempts = None\<rparr>"

definition enqueueReviewJob ::
  "port_env \<Rightarrow> rat js \<Rightarrow> string option \<Rightarrow> review_db \<times> rat background_job list \<Rightarrow> (port_error + string) \<times> (review_db \<times> rat background_job list)" where
  "enqueueReviewJob pv payload rowDeliveryId w =
     (case ReviewPullRequestPayloadV1 (pv_zod pv) payload of
        None \<Rightarrow> (Inl (PortThrew (PermanentSinkError ''payload does not parse'')), w)
      | Some parsed \<Rightarrow>
          (let (r, jobs) = rj_enqueue (pv_cd pv) (pv_zod pv) (run_ids (fst w)) (pv_jid pv) (pv_now pv) (pv_rj_env pv)
                             (review_args parsed rowDeliveryId) (review_jobs (fst w));
               w' = ((fst w)\<lparr>review_jobs := jobs\<rparr>, snd w)
           in case r of
                Inr jid \<Rightarrow> (Inr jid, w')
              | Inl (RjPayloadIntegrity rid cols) \<Rightarrow> (Inl (PortThrew (PermanentSinkError ''payload identity diverges'')), w')
              | Inl e \<Rightarrow> (Inl (PortThrew (OtherDispatchError ''enqueue'')), w')))"

definition event_args :: "workflow_call \<Rightarrow> string \<Rightarrow> uuid option \<Rightarrow> rat js \<Rightarrow> rat bj_enqueue_args" where
  "event_args call jobType installationId payload =
     \<lparr>a_jobType = jobType, a_payload = payload, a_dedupKey = Some (wc_workflowId call), a_installationId = installationId,
      a_priority = None, a_maxAttempts = map_of JOB_TYPE_MAX_ATTEMPTS jobType, a_runAfter = None\<rparr>"

definition startWorkflow :: "port_env \<Rightarrow> bool \<Rightarrow> rat background_job list workflow_port" where
  "startWorkflow pv shadow call installationId deliveryId w =
     (if shadow then (Inr (''shadow-would-enqueue:'' @ wc_workflowId call), w)
      else case singlePositionalPayload call of
             Inl e \<Rightarrow> (Inl (PortThrew e), w)
           | Inr payload \<Rightarrow>
               if wc_workflowType call = REVIEW_WORKFLOW_TYPE then enqueueReviewJob pv payload deliveryId w
               else (case map_of WORKFLOW_TYPE_TO_JOB_TYPE (wc_workflowType call) of
                       None \<Rightarrow> (Inl (PortThrew (PermanentSinkError ''no job_type mapped'')), w)
                     | Some jobType \<Rightarrow>
                         (case bj_enqueue (pv_cd pv) (pv_ids pv) (pv_nows pv) (pv_bj_env pv)
                                 (event_args call jobType installationId payload) (snd w) of
                            (Inr jid, js) \<Rightarrow> (Inr jid, (fst w, js))
                          | (Inl InvalidPayload, js) \<Rightarrow> (Inl (PortThrew (PermanentSinkError ''not strict JSON'')), (fst w, js))
                          | (Inl _, js) \<Rightarrow> (Inl (PortThrew (OtherDispatchError ''enqueue'')), (fst w, js)))))"

section \<open>Lemmas\<close>

lemma enqueueReviewJob_Inr:
  assumes "enqueueReviewJob pv payload dl w = (Inr jid, w')"
  obtains p jobs where "ReviewPullRequestPayloadV1 (pv_zod pv) payload = Some p"
    "rj_enqueue (pv_cd pv) (pv_zod pv) (run_ids (fst w)) (pv_jid pv) (pv_now pv) (pv_rj_env pv) (review_args p dl) (review_jobs (fst w))
       = (Inr jid, jobs)" "w' = ((fst w)\<lparr>review_jobs := jobs\<rparr>, snd w)"
proof -
  obtain p where p: "ReviewPullRequestPayloadV1 (pv_zod pv) payload = Some p"
    using assms by (auto simp: enqueueReviewJob_def split: option.splits)
  obtain r jobs where r: "rj_enqueue (pv_cd pv) (pv_zod pv) (run_ids (fst w)) (pv_jid pv) (pv_now pv) (pv_rj_env pv) (review_args p dl)
      (review_jobs (fst w)) = (r, jobs)" by (metis prod.exhaust)
  have "r = Inr jid" "w' = ((fst w)\<lparr>review_jobs := jobs\<rparr>, snd w)"
    using assms p r by (auto simp: enqueueReviewJob_def Let_def split: sum.splits rj_error.splits)
  with p r show thesis using that by blast
qed

lemma rj_enqueue_holder:
  assumes "rj_enqueue cd z runs jid now env a t = (Inr j, t')"
  shows "\<exists>x\<in>set t'. job_id x = j \<and> holds_run (e_runId a) x \<and> job_installation_id x = e_installationId a"
  using assms
  by (auto simp: rj_enqueue_def Let_def rj_new_row_def holds_run_def active_def dest!: first_row_Some rj_insert_Inr(1)
      split: option.splits if_splits sum.splits rj_error.splits)

text \<open>Enqueuing the same review call again returns the same job and writes nothing.\<close>

lemma enqueueReviewJob_again:
  assumes "enqueueReviewJob pv payload dl w = (Inr jid, w')" and "pv_zod pv' = pv_zod pv" and "pv_cd pv' = pv_cd pv"
    and "pv_rj_env pv' = (\<lambda>x. x)" and "pv_jid pv' \<notin> job_id ` set (review_jobs (fst w'))"
    and "review_jobs (fst w2) = review_jobs (fst w')"
  shows "enqueueReviewJob pv' payload dl w2 = (Inr jid, w2)"
  using assms(1)
proof (cases rule: enqueueReviewJob_Inr)
  case (1 p jobs)
  have jobs: "review_jobs (fst w2) = jobs" using 1(3) assms(6) by simp
  have "rj_enqueue (pv_cd pv') (pv_zod pv') (run_ids (fst w2)) (pv_jid pv') (pv_now pv') (pv_rj_env pv') (review_args p dl) jobs = (Inr jid, jobs)"
    unfolding assms(2-4) by (rule rj_enqueue_again [OF 1(2)]) (use assms(5,6) jobs in simp)
  then show ?thesis using 1(1) assms(2) jobs by (simp add: enqueueReviewJob_def) (cases w2, simp)
qed

lemma getSink_production:
  "getSink n (production_sinks port) =
     (if n \<in> {OUTBOX_SINK_TEMPORAL_WORKFLOW_START, OUTBOX_SINK_INSTALLATION_RECONCILE}
      then Inr (makeTemporalWorkflowStartHandler port) else Inl (UnknownSinkError n))"
  by (auto simp: getSink_def production_sinks_def)

text \<open>A payload that parsed parses again after it was printed.\<close>

lemma payload_reparse:
  assumes "ReviewPullRequestPayloadV1 z v = Some p"
  shows "ReviewPullRequestPayloadV1 z (js_of_json (payload_json p)) = Some p"
proof -
  obtain kvs where kvs: "sortKeysDeep (payload_json p) = JObj kvs" "mset kvs = mset (payload_fields p)"
    using sortKeysDeep_flat [OF payload_fields_flat] unfolding payload_json_def by blast
  have "distinct (map fst kvs)"
    using kvs(2) payload_keys_distinct payload_fields_keys by (metis mset_eq_imp_distinct_iff mset_map)
  moreover have "\<forall>kv\<in>set (payload_fields p). atomic (snd kv)" using payload_fields_flat by blast
  then have "list_all2 key_perm (map snd (payload_fields p)) (map snd (payload_fields p))"
    by (auto simp: list_all2_map1 list_all2_map2 list_all2_same intro: key_perm.intros elim!: atomic.elims dest!: bspec)
  ultimately have "key_perm (sortKeysDeep (payload_json p)) (payload_json p)"
    unfolding kvs(1) unfolding payload_json_def by (intro kp_obj [of kvs "payload_fields p"]) (simp_all add: kvs(2))
  then show ?thesis using payload_print_parse [OF payload_schema_ok [OF assms]] by blast
qed

lemma dispatchRow_Inr:
  assumes "dispatchRow (production_sinks port) clk e1 e2 e3 v dl (db, s) = (Inr (), (db1, s1))"
  obtains dbg where "DispatchRowInputV1 v" "di_sink v \<in> {OUTBOX_SINK_TEMPORAL_WORKFLOW_START, OUTBOX_SINK_INSTALLATION_RECONCILE}"
    "row_guard clk e1 e2 e3 v db = (Inr (), dbg)"
    "makeTemporalWorkflowStartHandler port (di_payload v)
       \<lparr>sc_deliveryId = dl, sc_installationId = di_installation_id v, sc_runId = di_run_id v, sc_outboxRowId = di_row_id v\<rparr> (dbg, s)
     = (Inr (), (db1, s1))"
proof -
  obtain g dbg where g: "row_guard clk e1 e2 e3 v db = (g, dbg)" by (metis prod.exhaust)
  have ok: "DispatchRowInputV1 v" "di_sink v \<in> {OUTBOX_SINK_TEMPORAL_WORKFLOW_START, OUTBOX_SINK_INSTALLATION_RECONCILE}"
    using assms by (auto simp: dispatchRow_def getSink_production split: if_splits)
  with assms g have "g = Inr ()" "makeTemporalWorkflowStartHandler port (di_payload v)
       \<lparr>sc_deliveryId = dl, sc_installationId = di_installation_id v, sc_runId = di_run_id v, sc_outboxRowId = di_row_id v\<rparr> (dbg, s)
     = (Inr (), (db1, s1))"
    by (auto simp: dispatchRow_def getSink_production Let_def split: sum.splits)
  with ok g show thesis using that by simp
qed

lemma handler_review:
  assumes "TemporalWorkflowStartPayloadV1 (js_of_json payload) = Some call" and "wc_workflowType call = REVIEW_WORKFLOW_TYPE"
  shows "makeTemporalWorkflowStartHandler (startWorkflow pv False) payload ctx w = (Inr (), w') \<longleftrightarrow>
    (\<exists>kvs jid. wc_args call = [JsObj kvs] \<and> enqueueReviewJob pv (JsObj kvs) (sc_deliveryId ctx) w = (Inr jid, w'))"
proof -
  have "makeTemporalWorkflowStartHandler (startWorkflow pv False) payload ctx w = (Inr (), w') \<longleftrightarrow>
      (\<exists>jid. startWorkflow pv False call (sc_installationId ctx) (sc_deliveryId ctx) w = (Inr jid, w'))"
    using assms(1) by (auto simp: makeTemporalWorkflowStartHandler_def split: prod.splits sum.splits port_error.splits)
  also have "\<dots> \<longleftrightarrow> (\<exists>kvs jid. wc_args call = [JsObj kvs] \<and> enqueueReviewJob pv (JsObj kvs) (sc_deliveryId ctx) w = (Inr jid, w'))"
    using assms(2) by (auto simp: startWorkflow_def singlePositionalPayload_def split: list.splits js.splits)
  finally show ?thesis .
qed

section \<open>Properties\<close>

text \<open>(C28) A review is triggered effectively once. When the dispatch of an outbox row with a review envelope succeeds, the
  run of the payload has an active review job of the payload's tenant; when the row is dispatched again (a crash between
  the dispatch and the mark, or a timeout whose dispatch went through), the second dispatch succeeds too and writes
  nothing at all: no second job, no second transition, no second milestone.\<close>

theorem review_trigger_once:
  assumes "dispatchRow (production_sinks (startWorkflow pv False)) clk e1 e2 e3 v dl (db, js) = (Inr (), (db1, js1))"
    and "TemporalWorkflowStartPayloadV1 (js_of_json (di_payload v)) = Some call" and "wc_workflowType call = REVIEW_WORKFLOW_TYPE"
    and "pv_zod pv' = pv_zod pv" and "pv_cd pv' = pv_cd pv" and "pv_rj_env pv' = (\<lambda>x. x)"
    and "pv_jid pv' \<notin> job_id ` set (review_jobs db1)"
  shows "(\<exists>kvs p. wc_args call = [JsObj kvs] \<and> ReviewPullRequestPayloadV1 (pv_zod pv) (JsObj kvs) = Some p \<and>
      (\<exists>j\<in>set (review_jobs db1). holds_run (p_run_id p) j \<and> job_installation_id j = p_installation_id p)) \<and>
    dispatchRow (production_sinks (startWorkflow pv' False)) clk' e1' e2' e3' v dl (db1, js1) = (Inr (), (db1, js1))"
  using assms(1)
proof (cases rule: dispatchRow_Inr)
  case (1 dbg)
  from 1(4) obtain kvs jid where enq: "wc_args call = [JsObj kvs]" "enqueueReviewJob pv (JsObj kvs) dl (dbg, js) = (Inr jid, (db1, js1))"
    unfolding handler_review [OF assms(2,3)] by auto
  from enq(2) obtain p jobs where p: "ReviewPullRequestPayloadV1 (pv_zod pv) (JsObj kvs) = Some p"
      "rj_enqueue (pv_cd pv) (pv_zod pv) (run_ids dbg) (pv_jid pv) (pv_now pv) (pv_rj_env pv) (review_args p dl) (review_jobs dbg) = (Inr jid, jobs)"
      "db1 = dbg\<lparr>review_jobs := jobs\<rparr>" "js1 = js"
    by (rule enqueueReviewJob_Inr) auto
  have job: "\<exists>j\<in>set (review_jobs db1). holds_run (p_run_id p) j \<and> job_installation_id j = p_installation_id p"
    using rj_enqueue_holder [OF p(2)] p(3) by (auto simp: review_args_def)
  have again: "enqueueReviewJob pv' (JsObj kvs) dl (db1, js1) = (Inr jid, (db1, js1))"
    by (rule enqueueReviewJob_again [OF enq(2) assms(4-6)]) (use assms(7) in simp_all)
  have guard: "row_guard clk' e1' e2' e3' v db1 = (Inr (), db1)"
  proof (cases "di_run_id v = None \<or> di_review_id v = None")
    case True
    then show ?thesis by (auto simp: row_guard_def split: option.splits)
  next
    case False
    then obtain rid vid where ids: "di_run_id v = Some rid" "di_review_id v = Some vid" by auto
    with 1(3) have g: "guardTransitionAndIngest clk e1 e2 e3 v rid vid db = (Inr (), dbg)" by (simp add: row_guard_def)
    then have "commit_ok dbg" by (simp add: guardTransitionAndIngest_def transact_Inr_iff)
    then have "guardTransitionAndIngest clk' e1' e2' e3' v rid vid db1 = (Inr (), db1)"
      by (intro guard_again [OF g]) (simp_all add: p(3) commit_ok_def)
    with ids show ?thesis by (simp add: row_guard_def)
  qed
  have "makeTemporalWorkflowStartHandler (startWorkflow pv' False) (di_payload v)
       \<lparr>sc_deliveryId = dl, sc_installationId = di_installation_id v, sc_runId = di_run_id v, sc_outboxRowId = di_row_id v\<rparr> (db1, js1) = (Inr (), (db1, js1))"
    unfolding handler_review [OF assms(2,3)] using enq(1) again by auto
  then have "dispatchRow (production_sinks (startWorkflow pv' False)) clk' e1' e2' e3' v dl (db1, js1) = (Inr (), (db1, js1))"
    using 1(1,2) guard by (simp add: dispatchRow_def getSink_production)
  then show ?thesis using enq(1) p(1) job by blast
qed

text \<open>A review envelope for the witnesses, its row in the outbox, and what the port is given.\<close>

definition demo_envelope :: "rat json" where
  "demo_envelope = JObj [(''workflow_type'', JStr ''reviewPullRequest''), (''workflow_id'', JStr ''w1''), (''task_queue'', JStr ''q''),
     (''args'', JArr [payload_json demo_payload])]"

definition demo_review_input :: dispatch_input where
  "demo_review_input = demo_input\<lparr>di_sink := OUTBOX_SINK_TEMPORAL_WORKFLOW_START, di_payload := demo_envelope\<rparr>"

definition demo_port :: "uuid \<Rightarrow> port_env" where
  "demo_port jid = \<lparr>pv_cd = demo_rj_codec, pv_zod = demo_zod, pv_jid = jid, pv_now = 0, pv_rj_env = (\<lambda>x. x), pv_ids = (\<lambda>_. ''b1''),
     pv_nows = (\<lambda>_. 0), pv_bj_env = (\<lambda>_ t. t)\<rparr>"

definition demo_call :: workflow_call where
  "demo_call = \<lparr>wc_workflowType = ''reviewPullRequest'', wc_workflowId = ''w1'', wc_taskQueue = ''q'',
     wc_args = [js_of_json (payload_json demo_payload)], wc_executionTimeoutSeconds = 900, wc_runTimeoutSeconds = 900,
     wc_searchAttributes = JsObj [], wc_idReusePolicy = ''ALLOW_DUPLICATE'', wc_idConflictPolicy = ''TERMINATE_EXISTING''\<rparr>"

lemma demo_envelope_parses: "TemporalWorkflowStartPayloadV1 (js_of_json demo_envelope) = Some demo_call"
  by (simp add: TemporalWorkflowStartPayloadV1_def demo_envelope_def demo_call_def field_def z_default_def z_text_def z_array_def)

lemma demo_payload_parses: "ReviewPullRequestPayloadV1 demo_zod (js_of_json (payload_json demo_payload)) = Some demo_payload"
  using payload_reparse demo_rj_parse by blast

lemma demo_review_enqueue:
  "\<exists>db1. enqueueReviewJob (demo_port ''j9'') (js_of_json (payload_json demo_payload)) None (demo_db, []) = (Inr ''j9'', (db1, []))
     \<and> job_id ` set (review_jobs db1) = {''j9''}"
proof -
  have parse: "ReviewPullRequestPayloadV1 demo_zod (e_payload (review_args demo_payload None)) = Some demo_payload"
    using demo_payload_parses by (simp add: review_args_def)
  have ident: "assertPayloadIdentityMatchesEnvelope demo_payload (review_args demo_payload None) = []"
    by (simp add: assertPayloadIdentityMatchesEnvelope_def review_args_def)
  have sha: "is_sha256_hex (sha256hex demo_rj_codec x)" for x by (simp add: demo_rj_codec_def is_sha256_hex_def list_all_iff)
  have run: "p_run_id demo_payload \<in> set (run_ids demo_db)" "review_jobs demo_db = []"
    by (simp_all add: demo_payload_def demo_db_def demo_run_def)
  have "\<exists>r. rj_enqueue demo_rj_codec demo_zod (run_ids demo_db) ''j9'' 0 (\<lambda>x. x) (review_args demo_payload None) [] = (Inr ''j9'', [r]) \<and> job_id r = ''j9''"
    unfolding rj_enqueue_def parse option.case
    using ident sha run(1) by (simp add: rj_insert_def Let_def review_args_def rj_new_row_def)
  then show ?thesis using demo_payload_parses run(2)
    by (auto simp: enqueueReviewJob_def demo_port_def)
qed

theorem review_trigger_once_witness:
  "\<exists>db1. dispatchRow (production_sinks (startWorkflow (demo_port ''j9'') False)) 5 ''a'' ''b'' ''c'' (demo_review_input\<lparr>di_run_id := None\<rparr>) None (demo_db, [])
       = (Inr (), (db1, [])) \<and>
     dispatchRow (production_sinks (startWorkflow (demo_port ''j10'') False)) 6 ''d'' ''e'' ''f'' (demo_review_input\<lparr>di_run_id := None\<rparr>) None (db1, [])
       = (Inr (), (db1, []))"
proof -
  let ?v = "demo_review_input\<lparr>di_run_id := None\<rparr>"
  obtain db1 where enq: "enqueueReviewJob (demo_port ''j9'') (js_of_json (payload_json demo_payload)) None (demo_db, []) = (Inr ''j9'', (db1, []))"
      "job_id ` set (review_jobs db1) = {''j9''}"
    using demo_review_enqueue by blast
  have pl: "TemporalWorkflowStartPayloadV1 (js_of_json (di_payload ?v)) = Some demo_call"
    using demo_envelope_parses by (simp add: demo_review_input_def)
  have ty: "wc_workflowType demo_call = REVIEW_WORKFLOW_TYPE" by (simp add: demo_call_def REVIEW_WORKFLOW_TYPE_def)
  have args: "wc_args demo_call = [JsObj (map (\<lambda>(k, v). (k, js_of_json v)) (payload_fields demo_payload))]"
    by (simp add: demo_call_def payload_json_def)
  have ok: "DispatchRowInputV1 ?v" "di_sink ?v = OUTBOX_SINK_TEMPORAL_WORKFLOW_START"
    by (simp_all add: DispatchRowInputV1_def demo_review_input_def demo_input_def demo_envelope_def)
  have "makeTemporalWorkflowStartHandler (startWorkflow (demo_port ''j9'') False) (di_payload ?v) ctx (demo_db, []) = (Inr (), (db1, []))"
    if "sc_deliveryId ctx = None" for ctx
    unfolding handler_review [OF pl ty] using args enq(1) that by (simp add: payload_json_def)
  then have first: "dispatchRow (production_sinks (startWorkflow (demo_port ''j9'') False)) 5 ''a'' ''b'' ''c'' ?v None (demo_db, []) = (Inr (), (db1, []))"
    using ok by (simp add: dispatchRow_def getSink_production row_guard_def)
  have "pv_jid (demo_port ''j10'') \<notin> job_id ` set (review_jobs db1)" using enq(2) by (simp add: demo_port_def)
  then have "dispatchRow (production_sinks (startWorkflow (demo_port ''j10'') False)) 6 ''d'' ''e'' ''f'' ?v None (db1, []) = (Inr (), (db1, []))"
    using review_trigger_once [OF first pl ty, of "demo_port ''j10''" 6 "''d''" "''e''" "''f''"] by (simp add: demo_port_def)
  with first show ?thesis by blast
qed

text \<open>Faults that no retry can cure dead-letter at once. A start whose arguments are not one object, whose type is
  unmapped, whose review payload does not parse, or whose delivery id is not the one of its outbox row, fails with the
  permanent error and writes nothing.\<close>

theorem port_poison_permanent:
  assumes "TemporalWorkflowStartPayloadV1 (js_of_json payload) = Some call"
    and "(\<forall>kvs. wc_args call \<noteq> [JsObj kvs])
      \<or> (wc_workflowType call \<noteq> REVIEW_WORKFLOW_TYPE \<and> map_of WORKFLOW_TYPE_TO_JOB_TYPE (wc_workflowType call) = None)
      \<or> (wc_workflowType call = REVIEW_WORKFLOW_TYPE \<and> (\<exists>a. wc_args call = [a] \<and> ReviewPullRequestPayloadV1 (pv_zod pv) a = None))
      \<or> (wc_workflowType call = REVIEW_WORKFLOW_TYPE \<and> (\<exists>a p d. wc_args call = [a] \<and> ReviewPullRequestPayloadV1 (pv_zod pv) a = Some p \<and>
           sc_deliveryId ctx = Some d \<and> d \<noteq> p_delivery_id p))"
  shows "\<exists>m. makeTemporalWorkflowStartHandler (startWorkflow pv False) payload ctx w = (Inl (PermanentSinkError m), w)"
proof -
  have "\<exists>m. startWorkflow pv False call (sc_installationId ctx) (sc_deliveryId ctx) w = (Inl (PortThrew (PermanentSinkError m)), w)"
  proof (cases "\<exists>kvs. wc_args call = [JsObj kvs]")
    case False
    then show ?thesis by (auto simp: startWorkflow_def singlePositionalPayload_def split: list.splits js.splits)
  next
    case True
    then obtain kvs where kvs: "wc_args call = [JsObj kvs]" by blast
    show ?thesis
    proof (cases "wc_workflowType call = REVIEW_WORKFLOW_TYPE")
      case False
      then show ?thesis using assms(2) kvs by (auto simp: startWorkflow_def singlePositionalPayload_def)
    next
      case True
      show ?thesis
      proof (cases "ReviewPullRequestPayloadV1 (pv_zod pv) (JsObj kvs)")
        case None
        then show ?thesis using True kvs by (simp add: startWorkflow_def singlePositionalPayload_def enqueueReviewJob_def)
      next
        case (Some p)
        then obtain d where d: "sc_deliveryId ctx = Some d" "d \<noteq> p_delivery_id p" using assms(2) True kvs by auto
        let ?a = "review_args p (Some d)"
        have "ReviewPullRequestPayloadV1 (pv_zod pv) (e_payload ?a) = Some p" using payload_reparse [OF Some] by (simp add: review_args_def)
        moreover have "assertPayloadIdentityMatchesEnvelope p ?a = [''delivery_id'']"
          using d(2) by (simp add: assertPayloadIdentityMatchesEnvelope_def review_args_def)
        ultimately show ?thesis using True kvs Some d(1)
          by (cases w) (simp add: startWorkflow_def singlePositionalPayload_def enqueueReviewJob_def rj_enqueue_def)
      qed
    qed
  qed
  then show ?thesis using assms(1) by (auto simp: makeTemporalWorkflowStartHandler_def)
qed

theorem port_poison_permanent_witness:
  "\<exists>m. makeTemporalWorkflowStartHandler (startWorkflow (demo_port ''j9'') False) demo_envelope
     \<lparr>sc_deliveryId = Some ''other'', sc_installationId = None, sc_runId = None, sc_outboxRowId = ''o1''\<rparr> (demo_db, []) = (Inl (PermanentSinkError m), (demo_db, []))"
proof (rule port_poison_permanent [OF demo_envelope_parses], intro disjI2 conjI exI)
  show "wc_workflowType demo_call = REVIEW_WORKFLOW_TYPE" by (simp add: demo_call_def REVIEW_WORKFLOW_TYPE_def)
  show "wc_args demo_call = [js_of_json (payload_json demo_payload)]" by (simp add: demo_call_def)
  show "ReviewPullRequestPayloadV1 (pv_zod (demo_port ''j9'')) (js_of_json (payload_json demo_payload)) = Some demo_payload"
    using demo_payload_parses by (simp add: demo_port_def)
  show "''other'' \<noteq> p_delivery_id demo_payload" unfolding demo_payload_def by simp
qed simp

text \<open>The other workflow types become background jobs. A mapped start with one object argument is answered by the
  active job that already holds its workflow id, or by exactly one new ready job with the mapped type, the row's tenant,
  the workflow id as its key and the attempt budget of its type; the review tables are not touched.\<close>

theorem event_route_correct:
  assumes "wc_workflowType call \<noteq> REVIEW_WORKFLOW_TYPE" and "map_of WORKFLOW_TYPE_TO_JOB_TYPE (wc_workflowType call) = Some jt"
    and "wc_args call = [JsObj kvs]" and "PayloadObject (JsObj kvs) = Some x"
    and "is_sha256_hex (sha256hex (pv_cd pv) (canonicalJson (num_text (pv_cd pv)) x))"
    and "pv_bj_env pv = (\<lambda>_ t. t)" and "pv_ids pv 0 \<notin> job_id ` set js"
  shows "case first_row (filter (bj_holds_key (Some (wc_workflowId call))) js) of
      Some r \<Rightarrow> startWorkflow pv False call iid dl (db, js) = (Inr (job_id r), (db, js))
    | None \<Rightarrow> (\<exists>r. startWorkflow pv False call iid dl (db, js) = (Inr (job_id r), (db, js @ [r])) \<and> job_id r = pv_ids pv 0 \<and> state r = Ready \<and>
        job_type r = jt \<and> bj_installation_id r = iid \<and> dedup_key r = Some (wc_workflowId call) \<and>
        int (max_attempts r) = the (map_of JOB_TYPE_MAX_ATTEMPTS jt) \<and> 3 \<le> max_attempts r)"
proof -
  let ?a = "event_args call jt iid (JsObj kvs)"
  from assms(2) have jt: "\<exists>m. map_of JOB_TYPE_MAX_ATTEMPTS jt = Some m \<and> 3 \<le> m"
    by (auto simp: WORKFLOW_TYPE_TO_JOB_TYPE_def JOB_TYPE_MAX_ATTEMPTS_def split: if_splits)
  then obtain m where m: "map_of JOB_TYPE_MAX_ATTEMPTS jt = Some m" "3 \<le> m" by blast
  have pl: "PayloadObject (a_payload ?a) = Some x" using assms(4) by (simp add: event_args_def)
  have ck: "bj_checks ?a (sha256hex (pv_cd pv) (canonicalJson (num_text (pv_cd pv)) x))"
    using assms(5) m by (simp add: bj_checks_def event_args_def)
  note q = bj_enqueue_quiet [where ids = "pv_ids pv" and nows = "pv_nows pv", OF pl ck assms(7)]
  have key: "a_dedupKey ?a = Some (wc_workflowId call)" by (simp add: event_args_def)
  show ?thesis
  proof (cases "first_row (filter (bj_holds_key (Some (wc_workflowId call))) js)")
    case None
    then show ?thesis using assms(1-3,6) q m unfolding key
      by (simp add: startWorkflow_def singlePositionalPayload_def bj_new_row_def event_args_def)
  next
    case (Some r)
    then show ?thesis using assms(1-3,6) q unfolding key by (simp add: startWorkflow_def singlePositionalPayload_def)
  qed
qed

theorem event_route_correct_witness:
  "\<exists>r. startWorkflow (demo_port ''j9'') False (demo_call\<lparr>wc_workflowType := ''syncCodeOwners'', wc_args := [JsObj []]\<rparr>) (Some ''i1'') None (demo_db, [])
     = (Inr ''b1'', (demo_db, [r])) \<and> job_type r = ''sync_code_owners'' \<and> max_attempts r = 5"
proof -
  let ?call = "demo_call\<lparr>wc_workflowType := ''syncCodeOwners'', wc_args := [JsObj []]\<rparr>" and ?pv = "demo_port ''j9''"
  have "wc_workflowType ?call \<noteq> REVIEW_WORKFLOW_TYPE" "map_of WORKFLOW_TYPE_TO_JOB_TYPE (wc_workflowType ?call) = Some ''sync_code_owners''"
      "wc_args ?call = [JsObj []]" "PayloadObject (JsObj []) = Some (JObj [])"
      "is_sha256_hex (sha256hex (pv_cd ?pv) (canonicalJson (num_text (pv_cd ?pv)) (JObj [])))" "pv_bj_env ?pv = (\<lambda>_ t. t)"
      "pv_ids ?pv 0 \<notin> job_id ` set ([] :: rat background_job list)"
    by (simp_all add: REVIEW_WORKFLOW_TYPE_def WORKFLOW_TYPE_TO_JOB_TYPE_def PayloadObject_def demo_port_def demo_rj_codec_def is_sha256_hex_def list_all_iff)
  from event_route_correct [OF this, of "Some ''i1''" None demo_db]
  show ?thesis by (auto simp: JOB_TYPE_MAX_ATTEMPTS_def demo_port_def)
qed

end
