(* ===== verification/Cost.thy ===== *)
theory Cost
  imports Prelude
begin

text \<open>
  The cost-cap enforcer: \<^verbatim>\<open>cost/enforcer.ts\<close> (errors, decision, defaults) and
  \<^verbatim>\<open>cost/postgres_enforcer.ts\<close> (the production enforcer over \<^verbatim>\<open>telemetry.cost_daily\<close>).

  A statement is a function on the table that may fail with an SQLSTATE. \<open>fault\<close> says which
  statements the database refuses besides (a lock timeout, a lost connection, a missing table), by
  the place of the statement in the source. A failed statement aborts its transaction: every later
  statement of the transaction is refused with 25P02, also when the code caught the first failure.
  Every writer of the table takes the row of the global scope first and a row lock is held to the end
  of the transaction, so the calls are modelled one after the other. Cents are integers; identifiers
  are the text of a uuid as the database prints it.
\<close>

section \<open>Errors, decisions, defaults\<close>

definition ZERO_UUID :: uuid where
  "ZERO_UUID = ''00000000-0000-0000-0000-000000000000''"

definition DEFAULT_GLOBAL_CAP_CENTS :: int where "DEFAULT_GLOBAL_CAP_CENTS = 500000"
definition DEFAULT_PER_ORG_CAP_CENTS :: int where "DEFAULT_PER_ORG_CAP_CENTS = 100000"

text \<open>\<open>CostDbError\<close> carries the SQLSTATE of a driver error.\<close>

datatype cost_error =
    CostRangeError string
  | BedrockBudgetExceededError string string "uuid option"
  | CostCapLockTimeoutError string
  | CostDbError string
  | CostFault string
  | CostDecisionInvalid

record cost_decision =
  cents_spent_today_global :: int
  cents_spent_today_org :: int
  cents_estimated :: int

text \<open>\<^verbatim>\<open>CostCapDecisionV1.parse\<close> of an allowed decision: the three amounts are not negative.\<close>

definition CostCapDecisionV1 :: "cost_decision \<Rightarrow> cost_error + cost_decision" where
  "CostCapDecisionV1 d =
     (if 0 \<le> cents_spent_today_global d \<and> 0 \<le> cents_spent_today_org d \<and> 0 \<le> cents_estimated d
      then Inr d else Inl CostDecisionInvalid)"

definition global_refusal :: "int \<Rightarrow> int \<Rightarrow> int \<Rightarrow> cost_error" where
  "global_refusal tot est cap = BedrockBudgetExceededError
     (''global spend '' @ int_text tot @ '' + estimated '' @ int_text est
        @ '' would exceed cap '' @ int_text cap @ '' cents/day'') ''global'' None"

definition org_refusal :: "uuid \<Rightarrow> int \<Rightarrow> int \<Rightarrow> int \<Rightarrow> cost_error" where
  "org_refusal org tot est cap = BedrockBudgetExceededError
     (''org '' @ org @ '' spend '' @ int_text tot @ '' + estimated '' @ int_text est
        @ '' would exceed per-org cap '' @ int_text cap @ '' cents/day'') ''per_org'' (Some org)"

section \<open>Transactions\<close>

text \<open>The state of a transaction: whether a statement has failed, and the tables as it sees them.\<close>

type_synonym ('s, 'a) tx = "bool \<times> 's \<Rightarrow> (cost_error + 'a) \<times> bool \<times> 's"

definition tx_return :: "'a \<Rightarrow> ('s, 'a) tx" where
  "tx_return a = (\<lambda>s. (Inr a, s))"

definition tx_throw :: "cost_error \<Rightarrow> ('s, 'a) tx" where
  "tx_throw e = (\<lambda>s. (Inl e, s))"

definition tx_bind :: "('s, 'a) tx \<Rightarrow> ('a \<Rightarrow> ('s, 'b) tx) \<Rightarrow> ('s, 'b) tx" where
  "tx_bind m k = (\<lambda>s. case m s of (Inl e, s') \<Rightarrow> (Inl e, s') | (Inr a, s') \<Rightarrow> k a s')"

definition tx_catch :: "('s, 'a) tx \<Rightarrow> (cost_error \<Rightarrow> ('s, 'a) tx) \<Rightarrow> ('s, 'a) tx" where
  "tx_catch m h = (\<lambda>s. case m s of (Inl e, s') \<Rightarrow> h e s' | (Inr a, s') \<Rightarrow> (Inr a, s'))"

definition tx_lift :: "(cost_error + 'a) \<Rightarrow> ('s, 'a) tx" where
  "tx_lift r = (\<lambda>s. (r, s))"

definition stmt :: "('k \<Rightarrow> string option) \<Rightarrow> 'k \<Rightarrow> ('s \<Rightarrow> string + 'a \<times> 's) \<Rightarrow> ('s, 'a) tx" where
  "stmt fault k run = (\<lambda>(aborted, s).
     if aborted then (Inl (CostDbError ''25P02''), True, s)
     else (case fault k of
             Some code \<Rightarrow> (Inl (CostDbError code), True, s)
           | None \<Rightarrow> (case run s of
               Inl code \<Rightarrow> (Inl (CostDbError code), True, s)
             | Inr (a, s') \<Rightarrow> (Inr a, False, s'))))"

text \<open>\<^verbatim>\<open>db.transaction().execute\<close>: a throw rolls back, and so does the commit of an aborted
  transaction, which is no error.\<close>

definition transaction :: "('s, 'a) tx \<Rightarrow> 's \<Rightarrow> (cost_error + 'a) \<times> 's" where
  "transaction m s = (case m (False, s) of
     (Inl e, _) \<Rightarrow> (Inl e, s)
   | (Inr a, aborted, s') \<Rightarrow> (Inr a, if aborted then s else s'))"

definition mapLockTimeout :: "string \<Rightarrow> (cost_error + 'a) \<times> 's \<Rightarrow> (cost_error + 'a) \<times> 's" where
  "mapLockTimeout context r = (case r of
     (Inl (CostDbError code), s) \<Rightarrow>
       (Inl (if code = ''55P03'' then CostCapLockTimeoutError context else CostDbError code), s)
   | _ \<Rightarrow> r)"

lemma transaction_Inl: "transaction m s = (Inl e, s') \<Longrightarrow> s' = s"
  by (auto simp: transaction_def split: prod.splits sum.splits)

lemma mapLockTimeout_Inr [simp]: "mapLockTimeout c (Inr a, s) = (Inr a, s)"
  by (simp add: mapLockTimeout_def)

lemma mapLockTimeout_snd [simp]: "snd (mapLockTimeout c r) = snd r"
  by (auto simp: mapLockTimeout_def split: prod.splits sum.splits cost_error.splits)

lemma mapLockTimeout_isl: "isl (fst (mapLockTimeout c r)) = isl (fst r)"
  by (auto simp: mapLockTimeout_def split: prod.splits sum.splits cost_error.splits)

section \<open>The daily rows\<close>

record daily_row =
  cd_today :: string
  cd_scope :: string
  cd_scope_id :: uuid
  daily_total_cents :: int
  cd_cap_cents :: int
  cd_updated_at :: db_time

text \<open>The CHECK constraints of the table.\<close>

definition daily_check :: "daily_row \<Rightarrow> bool" where
  "daily_check r \<longleftrightarrow>
     (cd_scope r = ''global'' \<and> cd_scope_id r = ZERO_UUID \<or> cd_scope r = ''per_org'' \<and> cd_scope_id r \<noteq> ZERO_UUID)
     \<and> 0 \<le> daily_total_cents r"

definition daily_pk :: "daily_row \<Rightarrow> string \<times> string \<times> uuid" where
  "daily_pk r = (cd_today r, cd_scope r, cd_scope_id r)"

text \<open>\<^verbatim>\<open>INSERT \<dots> ON CONFLICT DO NOTHING\<close>; a new row violating a CHECK is refused first.\<close>

definition insert_daily :: "daily_row \<Rightarrow> daily_row list \<Rightarrow> string + unit \<times> daily_row list" where
  "insert_daily r t =
     (if \<not> daily_check r then Inl ''23514''
      else if daily_pk r \<in> daily_pk ` set t then Inr ((), t) else Inr ((), t @ [r]))"

text \<open>\<^verbatim>\<open>UPDATE \<dots> RETURNING\<close> under the CHECKs.\<close>

definition update_daily :: "(daily_row \<Rightarrow> bool) \<Rightarrow> (daily_row \<Rightarrow> daily_row) \<Rightarrow> daily_row list
    \<Rightarrow> string + daily_row list \<times> daily_row list" where
  "update_daily p f t =
     (if \<forall>r\<in>set t. p r \<longrightarrow> daily_check (f r) then Inr (returning p f t, upd_where p f t) else Inl ''23514'')"

definition select_daily :: "(daily_row \<Rightarrow> bool) \<Rightarrow> daily_row list \<Rightarrow> string + daily_row list \<times> daily_row list" where
  "select_daily p t = Inr (filter p t, t)"

definition global_row :: "string \<Rightarrow> daily_row \<Rightarrow> bool" where
  "global_row today r \<longleftrightarrow> cd_today r = today \<and> cd_scope r = ''global''"

definition org_row :: "string \<Rightarrow> uuid \<Rightarrow> daily_row \<Rightarrow> bool" where
  "org_row today org r \<longleftrightarrow> cd_today r = today \<and> cd_scope r = ''per_org'' \<and> cd_scope_id r = org"

section \<open>The environment of a call\<close>

text \<open>The places of the statements.\<close>

datatype cost_site = SetLockTimeout | InsertGlobal | InsertOrg | ReadOverride | ReadOrgDefault | ReadGlobalCap
  | RefreshGlobal | RefreshOrg | GateGlobal | GateOrg | ReadDailyRow | SettleGlobal | SettleOrg

record cap_override =
  ov_installation_id :: uuid
  ov_cap_cents :: int
  ov_expires_at :: "db_time option"

text \<open>The enforcer's fields, the two cap tables (which it only reads), the clock by place, the
  database clock and the faults.\<close>

record cost_env =
  ce_globalCapCents :: int
  ce_perOrgCapCents :: int
  ce_readCapsFromDb :: bool
  ce_overrides :: "cap_override list"
  ce_settings :: "(string \<times> int) list"
  ce_clock :: "cost_site \<Rightarrow> js_date"
  ce_db_now :: db_time
  ce_fault :: "cost_site \<Rightarrow> string option"

definition override_live :: "cost_env \<Rightarrow> uuid \<Rightarrow> cap_override \<Rightarrow> bool" where
  "override_live e org o' \<longleftrightarrow> ov_installation_id o' = org
     \<and> (case ov_expires_at o' of None \<Rightarrow> True | Some x \<Rightarrow> of_date (ce_clock e ReadOverride) < x)"

definition read_setting :: "cost_env \<Rightarrow> cost_site \<Rightarrow> string \<Rightarrow> int \<Rightarrow> (daily_row list, int) tx" where
  "read_setting e k scope fallback =
     tx_bind (stmt (ce_fault e) k (\<lambda>t. Inr (map_of (ce_settings e) scope, t)))
       (\<lambda>c. tx_return (case c of Some cap \<Rightarrow> cap | None \<Rightarrow> fallback))"

text \<open>\<open>scopeId = None\<close> is the global scope. Every failure is caught and yields the fallback.\<close>

definition resolveEffectiveCap :: "cost_env \<Rightarrow> uuid option \<Rightarrow> int \<Rightarrow> (daily_row list, int) tx" where
  "resolveEffectiveCap e scopeId fallback =
     (if \<not> ce_readCapsFromDb e then tx_return fallback
      else tx_catch
        (case scopeId of
           Some org \<Rightarrow>
             tx_bind (stmt (ce_fault e) ReadOverride
                 (\<lambda>t. Inr (first_row (filter (override_live e org) (ce_overrides e)), t)))
               (\<lambda>ovr. case ovr of
                  Some r \<Rightarrow> tx_return (ov_cap_cents r)
                | None \<Rightarrow> read_setting e ReadOrgDefault ''per_org_default'' fallback)
         | None \<Rightarrow> read_setting e ReadGlobalCap ''global'' fallback)
        (\<lambda>_. tx_return fallback))"

definition refreshCapCents :: "cost_env \<Rightarrow> string \<Rightarrow> uuid option \<Rightarrow> int \<Rightarrow> (daily_row list, unit) tx" where
  "refreshCapCents e today scopeId configuredCap =
     tx_bind (case scopeId of
         None \<Rightarrow> stmt (ce_fault e) RefreshGlobal (update_daily
           (\<lambda>r. global_row today r \<and> cd_cap_cents r \<noteq> configuredCap)
           (\<lambda>r. r\<lparr>cd_cap_cents := configuredCap, cd_updated_at := of_date (ce_clock e RefreshGlobal)\<rparr>))
       | Some org \<Rightarrow> stmt (ce_fault e) RefreshOrg (update_daily
           (\<lambda>r. org_row today org r \<and> cd_cap_cents r \<noteq> configuredCap)
           (\<lambda>r. r\<lparr>cd_cap_cents := configuredCap, cd_updated_at := of_date (ce_clock e RefreshOrg)\<rparr>)))
       (\<lambda>_. tx_return ())"

definition readDailyRow :: "cost_env \<Rightarrow> string \<Rightarrow> uuid option \<Rightarrow> (daily_row list, int \<times> int) tx" where
  "readDailyRow e today scopeId =
     tx_bind (stmt (ce_fault e) ReadDailyRow (select_daily
         (case scopeId of None \<Rightarrow> global_row today | Some org \<Rightarrow> org_row today org)))
       (\<lambda>rows. case first_row rows of
          None \<Rightarrow> tx_throw (CostFault ((case scopeId of None \<Rightarrow> ''global'' | Some _ \<Rightarrow> ''per_org'')
            @ '' cost_daily row missing after idempotent insert''))
        | Some r \<Rightarrow> tx_return (daily_total_cents r, cd_cap_cents r))"

section \<open>The two operations\<close>

definition add_cents :: "int \<Rightarrow> js_date \<Rightarrow> daily_row \<Rightarrow> daily_row" where
  "add_cents c now r = r\<lparr>daily_total_cents := daily_total_cents r + c, cd_updated_at := of_date now\<rparr>"

definition new_daily :: "cost_env \<Rightarrow> string \<Rightarrow> string \<Rightarrow> uuid \<Rightarrow> int \<Rightarrow> daily_row" where
  "new_daily e today scope scopeId cap = \<lparr>cd_today = today, cd_scope = scope, cd_scope_id = scopeId,
     daily_total_cents = 0, cd_cap_cents = cap, cd_updated_at = ce_db_now e\<rparr>"

text \<open>Both caps are resolved, then written to the rows.\<close>

definition refresh_caps :: "cost_env \<Rightarrow> uuid \<Rightarrow> string \<Rightarrow> (daily_row list, unit) tx" where
  "refresh_caps e installationId today =
     tx_bind (resolveEffectiveCap e None (ce_globalCapCents e)) (\<lambda>effectiveGlobalCap.
     tx_bind (resolveEffectiveCap e (Some installationId) (ce_perOrgCapCents e)) (\<lambda>effectiveOrgCap.
     tx_bind (refreshCapCents e today None effectiveGlobalCap) (\<lambda>_.
     refreshCapCents e today (Some installationId) effectiveOrgCap)))"

text \<open>One reserve gate: the conditional UPDATE and, when it matched no row, the refusal.\<close>

definition gate :: "cost_env \<Rightarrow> cost_site \<Rightarrow> string \<Rightarrow> uuid option \<Rightarrow> int \<Rightarrow> (daily_row list, int) tx" where
  "gate e k today scopeId est =
     tx_bind (stmt (ce_fault e) k (update_daily
         (\<lambda>r. (case scopeId of None \<Rightarrow> global_row today r | Some org \<Rightarrow> org_row today org r)
              \<and> daily_total_cents r + est \<le> cd_cap_cents r)
         (add_cents est (ce_clock e k))))
       (\<lambda>rows. case first_row rows of
          None \<Rightarrow> tx_bind (readDailyRow e today scopeId) (\<lambda>(tot, cap). tx_throw
            (case scopeId of None \<Rightarrow> global_refusal tot est cap | Some org \<Rightarrow> org_refusal org tot est cap))
        | Some r \<Rightarrow> tx_return (daily_total_cents r - est))"

definition reserve_tx :: "cost_env \<Rightarrow> uuid \<Rightarrow> int \<Rightarrow> string \<Rightarrow> (daily_row list, cost_decision) tx" where
  "reserve_tx e installationId est today =
     (let isPlatformScope = (installationId = ZERO_UUID) in
     tx_bind (stmt (ce_fault e) SetLockTimeout (\<lambda>t. Inr ((), t))) (\<lambda>_.
     tx_bind (stmt (ce_fault e) InsertGlobal
       (insert_daily (new_daily e today ''global'' ZERO_UUID (ce_globalCapCents e)))) (\<lambda>_.
     tx_bind (if isPlatformScope then tx_return () else stmt (ce_fault e) InsertOrg
       (insert_daily (new_daily e today ''per_org'' installationId (ce_perOrgCapCents e)))) (\<lambda>_.
     tx_bind (refresh_caps e installationId today) (\<lambda>_.
     tx_bind (gate e GateGlobal today None est) (\<lambda>globalTotal.
     tx_bind (if isPlatformScope then tx_return 0 else gate e GateOrg today (Some installationId) est) (\<lambda>orgTotal.
     tx_lift (CostCapDecisionV1 \<lparr>cents_spent_today_global = globalTotal, cents_spent_today_org = orgTotal,
       cents_estimated = est\<rparr>))))))))"

definition checkOrRaise :: "cost_env \<Rightarrow> uuid \<Rightarrow> int \<Rightarrow> string \<Rightarrow> daily_row list
    \<Rightarrow> (cost_error + cost_decision) \<times> daily_row list" where
  "checkOrRaise e installationId estimatedCents today t =
     (if estimatedCents < 0 then (Inl (CostRangeError ''estimatedCents must be >= 0''), t)
      else mapLockTimeout (''cost_daily row lock timed out after 2s ''
             @ ''(SQLSTATE 55P03); BedrockClient will retry once'')
        (transaction (reserve_tx e installationId estimatedCents today) t))"

definition settle_row_tx :: "cost_env \<Rightarrow> cost_site \<Rightarrow> (daily_row \<Rightarrow> bool) \<Rightarrow> int \<Rightarrow> (daily_row list, unit) tx" where
  "settle_row_tx e k p diff =
     tx_bind (stmt (ce_fault e) k (update_daily p (add_cents diff (ce_clock e k)))) (\<lambda>_. tx_return ())"

definition settle_cost_tx :: "cost_env \<Rightarrow> uuid \<Rightarrow> int \<Rightarrow> string \<Rightarrow> (daily_row list, unit) tx" where
  "settle_cost_tx e installationId diff today =
     tx_bind (stmt (ce_fault e) SetLockTimeout (\<lambda>t. Inr ((), t))) (\<lambda>_.
     tx_bind (refresh_caps e installationId today) (\<lambda>_.
     tx_bind (settle_row_tx e SettleGlobal (global_row today) diff) (\<lambda>_.
     if installationId = ZERO_UUID then tx_return ()
     else settle_row_tx e SettleOrg (org_row today installationId) diff)))"

definition recordCallCost :: "cost_env \<Rightarrow> uuid \<Rightarrow> int \<Rightarrow> int \<Rightarrow> string \<Rightarrow> daily_row list
    \<Rightarrow> (cost_error + unit) \<times> daily_row list" where
  "recordCallCost e installationId costCents estimatedCents today t =
     (if costCents < 0 then (Inl (CostRangeError ''costCents must be >= 0''), t)
      else if costCents - estimatedCents = 0 then (Inr (), t)
      else mapLockTimeout ''cost_daily row lock timed out during recordCallCost (SQLSTATE 55P03)''
        (transaction (settle_cost_tx e installationId (costCents - estimatedCents) today) t))"

section \<open>What the table says\<close>

text \<open>A key is \<open>None\<close> for the global row of a day and \<open>Some org\<close> for the row of an installation;
  \<open>daily_at\<close> reads its tot and its cap.\<close>

definition key_row :: "string \<Rightarrow> uuid option \<Rightarrow> daily_row \<Rightarrow> bool" where
  "key_row d k = (case k of None \<Rightarrow> global_row d | Some org \<Rightarrow> org_row d org)"

definition daily_at :: "daily_row list \<Rightarrow> string \<Rightarrow> uuid option \<Rightarrow> (int \<times> int) option" where
  "daily_at t d k = map_option (\<lambda>r. (daily_total_cents r, cd_cap_cents r)) (first_row (filter (key_row d k) t))"

definition spent :: "daily_row list \<Rightarrow> string \<Rightarrow> uuid option \<Rightarrow> int" where
  "spent t d k = (case daily_at t d k of None \<Rightarrow> 0 | Some (tot, _) \<Rightarrow> tot)"

definition daily_wf :: "daily_row list \<Rightarrow> bool" where
  "daily_wf t \<longleftrightarrow> distinct (map daily_pk t) \<and> (\<forall>r\<in>set t. daily_check r)"

text \<open>The cap the code resolves when no statement fails.\<close>

definition effective_cap :: "cost_env \<Rightarrow> uuid option \<Rightarrow> int" where
  "effective_cap e k =
     (let setting = (\<lambda>scope fallback. case map_of (ce_settings e) scope of Some c \<Rightarrow> c | None \<Rightarrow> fallback) in
      case k of
        None \<Rightarrow> if ce_readCapsFromDb e then setting ''global'' (ce_globalCapCents e) else ce_globalCapCents e
      | Some org \<Rightarrow> if \<not> ce_readCapsFromDb e then ce_perOrgCapCents e
          else (case first_row (filter (override_live e org) (ce_overrides e)) of
             Some r \<Rightarrow> ov_cap_cents r | None \<Rightarrow> setting ''per_org_default'' (ce_perOrgCapCents e)))"

lemma key_row_simps [simp]: "key_row d None = global_row d" "key_row d (Some org) = org_row d org"
  by (simp_all add: key_row_def)

lemma key_row_pk: "key_row d k r \<Longrightarrow> daily_check r \<Longrightarrow>
    daily_pk r = (d, if k = None then ''global'' else ''per_org'', case k of None \<Rightarrow> ZERO_UUID | Some org \<Rightarrow> org)"
  by (auto simp: key_row_def global_row_def org_row_def daily_pk_def daily_check_def split: option.splits)

lemma key_row_disjoint: "key_row d k r \<Longrightarrow> key_row d' k' r \<Longrightarrow> d' = d \<and> k' = k"
  by (auto simp: key_row_def global_row_def org_row_def split: option.splits)

lemma key_rows_le_1:
  assumes "daily_wf t"
  shows "filter (key_row d k) t = [] \<or> (\<exists>r. filter (key_row d k) t = [r])"
proof (cases "filter (key_row d k) t")
  case (Cons r rs)
  have dis: "distinct (map daily_pk (r # rs))"
    using assms by (simp add: daily_wf_def distinct_map_filter flip: Cons)
  have mem: "x \<in> set t \<and> key_row d k x" if "x \<in> set (r # rs)" for x
    using that unfolding Cons [symmetric] by simp
  have "daily_pk x = daily_pk r" if "x \<in> set rs" for x
    using key_row_pk [of d k x] key_row_pk [of d k r] mem [of x] mem [of r] that assms by (simp add: daily_wf_def)
  with dis have "rs = []" by (cases rs) auto
  with Cons show ?thesis by simp
qed simp

lemma filter_upd_keep:
  "(\<And>r. p r \<Longrightarrow> q (f r) = q r) \<Longrightarrow> filter q (upd_where p f t) = map (\<lambda>r. if p r then f r else r) (filter q t)"
  by (induction t) auto

lemma daily_at_wf: "daily_wf t \<Longrightarrow> daily_at t d k = Some (x, c) \<Longrightarrow> 0 \<le> x \<and> k \<noteq> Some ZERO_UUID"
  by (auto simp: daily_at_def daily_wf_def daily_check_def first_row_def key_row_def org_row_def filter_eq_Cons_iff
      split: list.splits option.splits)

lemma spent_nonneg: "daily_wf t \<Longrightarrow> 0 \<le> spent t d k"
  using daily_at_wf by (auto simp: spent_def split: option.splits)

lemma spent_platform: "daily_wf t \<Longrightarrow> spent t d (Some ZERO_UUID) = 0"
  using daily_at_wf [of t d "Some ZERO_UUID"] by (auto simp: spent_def split: option.splits)

section \<open>Steps of a transaction that meets no fault\<close>

definition yields :: "('s, 'a) tx \<Rightarrow> 's \<Rightarrow> 'a \<Rightarrow> 's \<Rightarrow> bool" where
  "yields m t a t' \<longleftrightarrow> m (False, t) = (Inr a, False, t')"

definition refuses :: "('s, 'a) tx \<Rightarrow> 's \<Rightarrow> cost_error \<Rightarrow> bool" where
  "refuses m t e \<longleftrightarrow> fst (m (False, t)) = Inl e"

lemma yields_return: "yields (tx_return a) t a t"
  by (simp add: yields_def tx_return_def)

lemma yields_bind: "yields m t a t1 \<Longrightarrow> yields (k a) t1 b t2 \<Longrightarrow> yields (tx_bind m k) t b t2"
  by (simp add: yields_def tx_bind_def)

lemma refuses_bind: "yields m t a t1 \<Longrightarrow> refuses (k a) t1 e \<Longrightarrow> refuses (tx_bind m k) t e"
  by (simp add: yields_def refuses_def tx_bind_def)

lemma refuses_first: "refuses m t e \<Longrightarrow> refuses (tx_bind m k) t e"
  by (auto simp: refuses_def tx_bind_def split: prod.splits sum.splits)

lemma refuses_throw: "refuses (tx_throw e) t e"
  by (simp add: refuses_def tx_throw_def)

lemma yields_catch: "yields m t a t' \<Longrightarrow> yields (tx_catch m h) t a t'"
  by (simp add: yields_def tx_catch_def)

lemma yields_stmt: "fault k = None \<Longrightarrow> run t = Inr (a, t') \<Longrightarrow> yields (stmt fault k run) t a t'"
  by (simp add: yields_def stmt_def)

lemma yields_transaction: "yields m t a t' \<Longrightarrow> transaction m t = (Inr a, t')"
  by (simp add: yields_def transaction_def)

lemma refuses_transaction: "refuses m t e \<Longrightarrow> transaction m t = (Inl e, t)"
  by (auto simp: refuses_def transaction_def split: prod.splits)

lemma yields_insert:
  assumes "fault k = None" and "daily_wf t" and "daily_check r" and "key_row d x r"
  shows "\<exists>t'. yields (stmt fault k (insert_daily r)) t () t' \<and> daily_wf t'
    \<and> daily_at t' = (if daily_at t d x = None
        then (daily_at t)(d := (daily_at t d)(x := Some (daily_total_cents r, cd_cap_cents r))) else daily_at t)"
proof (cases "daily_pk r \<in> daily_pk ` set t")
  case True
  then obtain r' where r': "r' \<in> set t" "daily_pk r' = daily_pk r" by auto
  then have "key_row d x r'"
    using assms(4) by (auto simp: key_row_def global_row_def org_row_def daily_pk_def split: option.splits)
  then have "filter (key_row d x) t \<noteq> []" using r'(1) by (auto simp: filter_empty_conv)
  then have "daily_at t d x \<noteq> None" by (auto simp: daily_at_def first_row_def split: list.splits)
  then show ?thesis
    using True assms by (intro exI [of _ t]) (auto simp: insert_daily_def intro!: yields_stmt)
next
  case False
  have "\<not> key_row d x r'" if "r' \<in> set t" for r'
    using key_row_pk [OF _ assms(3), of d x] key_row_pk [of d x r'] that assms(2,4) False
    by (metis daily_wf_def image_eqI)
  then have none: "filter (key_row d x) t = []" by (simp add: filter_empty_conv)
  have "daily_at (t @ [r]) = (daily_at t)(d := (daily_at t d)(x := Some (daily_total_cents r, cd_cap_cents r)))"
  proof (intro ext)
    fix d' x'
    show "daily_at (t @ [r]) d' x' = ((daily_at t)(d := (daily_at t d)(x := Some (daily_total_cents r, cd_cap_cents r)))) d' x'"
      using none key_row_disjoint [OF assms(4), of d' x'] assms(4)
      by (cases "key_row d' x' r") (auto simp: daily_at_def first_row_def)
  qed
  then show ?thesis
    using False assms none
    by (intro exI [of _ "t @ [r]"]) (auto simp: insert_daily_def daily_wf_def daily_at_def first_row_def intro!: yields_stmt)
qed

text \<open>An UPDATE of the row of one key under a condition on its tot and cap.\<close>

lemma yields_update:
  assumes fault: "fault s = None" and wf: "daily_wf t"
    and p: "\<And>r. p r \<longleftrightarrow> key_row d x r \<and> c (daily_total_cents r) (cd_cap_cents r)"
    and f: "\<And>r. daily_pk (f r) = daily_pk r \<and> daily_total_cents (f r) = g (daily_total_cents r) \<and> cd_cap_cents (f r) = h (cd_cap_cents r)"
    and nonneg: "\<And>y z. daily_at t d x = Some (y, z) \<Longrightarrow> c y z \<Longrightarrow> 0 \<le> g y"
  shows "\<exists>t' rs. yields (stmt fault s (update_daily p f)) t rs t' \<and> daily_wf t'
    \<and> (case daily_at t d x of
         Some (y, z) \<Rightarrow> if c y z
           then (\<exists>r. rs = [r] \<and> daily_total_cents r = g y) \<and> daily_at t' = (daily_at t)(d := (daily_at t d)(x := Some (g y, h z)))
           else rs = [] \<and> daily_at t' = daily_at t
       | None \<Rightarrow> rs = [] \<and> daily_at t' = daily_at t)"
proof -
  have keep: "key_row d' x' (f r) = key_row d' x' r" for d' x' r
    using f [of r] by (auto simp: key_row_def global_row_def org_row_def daily_pk_def split: option.splits)
  have at: "daily_at t d x = Some (daily_total_cents r, cd_cap_cents r)" if "r \<in> set t" "key_row d x r" for r
  proof -
    have "r \<in> set (filter (key_row d x) t)" using that by simp
    with key_rows_le_1 [OF wf, of d x] show ?thesis by (auto simp: daily_at_def first_row_def simp del: set_filter)
  qed
  have ok: "\<forall>r\<in>set t. p r \<longrightarrow> daily_check (f r)"
  proof (intro ballI impI)
    fix r assume r: "r \<in> set t" "p r"
    then have "0 \<le> daily_total_cents (f r)" using nonneg [OF at] p [of r] f [of r] by auto
    moreover have "daily_check r" using wf r by (simp add: daily_wf_def)
    ultimately show "daily_check (f r)" using f [of r] by (simp add: daily_check_def daily_pk_def)
  qed
  have step: "yields (stmt fault s (update_daily p f)) t (returning p f t) (upd_where p f t)"
    using ok fault by (intro yields_stmt) (simp_all add: update_daily_def)
  have wf': "daily_wf (upd_where p f t)"
    using wf ok f by (auto simp: daily_wf_def set_upd_where map_key_upd_where)
  have flt: "filter (key_row d' x') (upd_where p f t) = map (\<lambda>r. if p r then f r else r) (filter (key_row d' x') t)" for d' x'
    by (rule filter_upd_keep) (simp add: keep)
  have other: "daily_at (upd_where p f t) d' x' = daily_at t d' x'" if "(d', x') \<noteq> (d, x)" for d' x'
  proof -
    have "map (\<lambda>r. if p r then f r else r) (filter (key_row d' x') t) = filter (key_row d' x') t"
      using that p key_row_disjoint by (intro map_idI) auto
    then show ?thesis by (simp add: daily_at_def flt)
  qed
  have ret: "returning p f t = map f (filter (\<lambda>r. c (daily_total_cents r) (cd_cap_cents r)) (filter (key_row d x) t))"
    by (simp add: returning_def p conj_commute cong: filter_cong)
  show ?thesis
  proof (cases "filter (key_row d x) t")
    case Nil
    then have "daily_at (upd_where p f t) = daily_at t"
      using other flt [of d x] by (intro ext) (metis (no_types, lifting) daily_at_def list.simps(8) prod.inject)
    then show ?thesis using step wf' ret Nil by (auto simp: daily_at_def first_row_def)
  next
    case (Cons r rs)
    with key_rows_le_1 [OF wf, of d x] have one: "filter (key_row d x) t = [r]" by auto
    then have "key_row d x r" by (metis filter_eq_ConsD)
    have at0: "daily_at t d x = Some (daily_total_cents r, cd_cap_cents r)"
      using one by (simp add: daily_at_def first_row_def)
    from \<open>key_row d x r\<close> have self: "daily_at (upd_where p f t) d x = (if c (daily_total_cents r) (cd_cap_cents r)
        then Some (g (daily_total_cents r), h (cd_cap_cents r)) else daily_at t d x)"
      using one f [of r] p [of r] by (simp add: daily_at_def flt first_row_def)
    have "daily_at (upd_where p f t) = (daily_at t)(d := (daily_at t d)(x := daily_at (upd_where p f t) d x))"
      using other by (intro ext) auto
    then have "case daily_at t d x of
         Some (y, z) \<Rightarrow> if c y z
           then (\<exists>r. returning p f t = [r] \<and> daily_total_cents r = g y)
             \<and> daily_at (upd_where p f t) = (daily_at t)(d := (daily_at t d)(x := Some (g y, h z)))
           else returning p f t = [] \<and> daily_at (upd_where p f t) = daily_at t
       | None \<Rightarrow> returning p f t = [] \<and> daily_at (upd_where p f t) = daily_at t"
      using ret one self at0 f [of r] by (simp split: if_splits) (metis fun_upd_triv)
    then show ?thesis using step wf' by blast
  qed
qed

text \<open>No statement of the call fails.\<close>

definition quiet_cost :: "cost_env \<Rightarrow> bool" where
  "quiet_cost e \<longleftrightarrow> ce_fault e = (\<lambda>_. None)"

definition set_at :: "string \<Rightarrow> uuid option \<Rightarrow> 'v \<Rightarrow> (string \<Rightarrow> uuid option \<Rightarrow> 'v) \<Rightarrow> string \<Rightarrow> uuid option \<Rightarrow> 'v" where
  "set_at d k v A = A(d := (A d)(k := v))"

lemma set_at_apply: "set_at d k v A d' k' = (if d' = d \<and> k' = k then v else A d' k')"
  by (simp add: set_at_def)

lemma yields_resolve:
  assumes "quiet_cost e"
  shows "yields (resolveEffectiveCap e None (ce_globalCapCents e)) t (effective_cap e None) t"
    and "yields (resolveEffectiveCap e (Some org) (ce_perOrgCapCents e)) t (effective_cap e (Some org)) t"
  using assms
  by (auto simp: resolveEffectiveCap_def effective_cap_def read_setting_def quiet_cost_def yields_def tx_catch_def
      tx_bind_def tx_return_def stmt_def split: option.splits)

lemma yields_refresh:
  assumes "quiet_cost e" and "daily_wf t"
  shows "\<exists>t'. yields (refreshCapCents e d k cap) t () t' \<and> daily_wf t'
    \<and> daily_at t' = (case daily_at t d k of Some (y, _) \<Rightarrow> set_at d k (Some (y, cap)) (daily_at t) | None \<Rightarrow> daily_at t)"
proof -
  let ?s = "case k of None \<Rightarrow> RefreshGlobal | Some _ \<Rightarrow> RefreshOrg"
  obtain t' rs where "yields (stmt (ce_fault e) ?s (update_daily (\<lambda>r. key_row d k r \<and> cd_cap_cents r \<noteq> cap)
        (\<lambda>r. r\<lparr>cd_cap_cents := cap, cd_updated_at := of_date (ce_clock e ?s)\<rparr>))) t rs t'" "daily_wf t'"
    and "case daily_at t d k of
         Some (y, z) \<Rightarrow> if z \<noteq> cap
           then (\<exists>r. rs = [r] \<and> daily_total_cents r = y) \<and> daily_at t' = (daily_at t)(d := (daily_at t d)(k := Some (y, cap)))
           else rs = [] \<and> daily_at t' = daily_at t
       | None \<Rightarrow> rs = [] \<and> daily_at t' = daily_at t"
    using yields_update [where fault = "ce_fault e" and s = ?s and t = t and d = d and x = k
        and p = "\<lambda>r. key_row d k r \<and> cd_cap_cents r \<noteq> cap" and c = "\<lambda>y z. z \<noteq> cap"
        and f = "\<lambda>r. r\<lparr>cd_cap_cents := cap, cd_updated_at := of_date (ce_clock e ?s)\<rparr>" and g = "\<lambda>y. y" and h = "\<lambda>_. cap"]
      assms daily_at_wf [of t d k]
    by (auto simp: quiet_cost_def daily_pk_def)
  then show ?thesis
    by (intro exI [of _ t']) (auto simp: refreshCapCents_def yields_def tx_bind_def tx_return_def set_at_def
        fun_upd_idem split: option.splits if_splits)
qed

lemma yields_refresh_caps:
  assumes "quiet_cost e" and "daily_wf t"
  shows "\<exists>t'. yields (refresh_caps e org d) t () t' \<and> daily_wf t'
    \<and> (\<forall>d' k. daily_at t' d' k = (if d' = d \<and> k \<in> {None, Some org}
          then map_option (\<lambda>(y, _). (y, effective_cap e k)) (daily_at t d' k) else daily_at t d' k))"
proof -
  obtain t1 where t1: "yields (refreshCapCents e d None (effective_cap e None)) t () t1" "daily_wf t1"
      "daily_at t1 = (case daily_at t d None of Some (y, _) \<Rightarrow> set_at d None (Some (y, effective_cap e None)) (daily_at t)
         | None \<Rightarrow> daily_at t)"
    using yields_refresh [OF assms] by blast
  obtain t2 where t2: "yields (refreshCapCents e d (Some org) (effective_cap e (Some org))) t1 () t2" "daily_wf t2"
      "daily_at t2 = (case daily_at t1 d (Some org) of
           Some (y, _) \<Rightarrow> set_at d (Some org) (Some (y, effective_cap e (Some org))) (daily_at t1) | None \<Rightarrow> daily_at t1)"
    using yields_refresh [OF assms(1) t1(2)] by blast
  have "yields (refresh_caps e org d) t () t2"
    unfolding refresh_caps_def
    by (rule yields_bind [OF yields_resolve(1) [OF assms(1)]], rule yields_bind [OF yields_resolve(2) [OF assms(1)]],
        rule yields_bind [OF t1(1)], rule t2(1))
  then show ?thesis
    using t1(3) t2(2,3) by (intro exI [of _ t2]) (auto simp: set_at_apply split: option.splits)
qed

lemma gate_open:
  assumes "quiet_cost e" and "daily_wf t" and "daily_at t d k = Some (y, z)" and "0 \<le> est" and "y + est \<le> z"
  shows "\<exists>t'. yields (gate e s d k est) t y t' \<and> daily_wf t' \<and> daily_at t' = set_at d k (Some (y + est, z)) (daily_at t)"
proof -
  obtain t' rs where "yields (stmt (ce_fault e) s (update_daily (\<lambda>r. key_row d k r \<and> daily_total_cents r + est \<le> cd_cap_cents r)
        (add_cents est (ce_clock e s)))) t rs t'" "daily_wf t'"
    and "(\<exists>r. rs = [r] \<and> daily_total_cents r = y + est) \<and> daily_at t' = (daily_at t)(d := (daily_at t d)(k := Some (y + est, z)))"
    using yields_update [where fault = "ce_fault e" and s = s and t = t and d = d and x = k
        and p = "\<lambda>r. key_row d k r \<and> daily_total_cents r + est \<le> cd_cap_cents r" and c = "\<lambda>y z. y + est \<le> z"
        and f = "add_cents est (ce_clock e s)" and g = "\<lambda>y. y + est" and h = "\<lambda>z. z"]
      assms daily_at_wf [of t d k]
    by (auto simp: quiet_cost_def daily_pk_def add_cents_def)
  then show ?thesis
    by (intro exI [of _ t']) (auto simp: gate_def key_row_def yields_def tx_bind_def tx_return_def set_at_def first_row_def
        split: option.splits)
qed

lemma gate_closed:
  assumes "quiet_cost e" and "daily_wf t" and "daily_at t d k = Some (y, z)" and "z < y + est"
  shows "refuses (gate e s d k est) t (case k of None \<Rightarrow> global_refusal y est z | Some org \<Rightarrow> org_refusal org y est z)"
proof -
  obtain r where r: "filter (key_row d k) t = [r]" "daily_total_cents r = y" "cd_cap_cents r = z"
    using assms(3) key_rows_le_1 [OF assms(2), of d k] by (auto simp: daily_at_def first_row_def)
  have "x = r" if "x \<in> set t" "key_row d k x" for x
  proof -
    have "x \<in> set (filter (key_row d k) t)" using that by simp
    then show ?thesis unfolding r(1) by simp
  qed
  then have none: "\<not> (key_row d k x \<and> daily_total_cents x + est \<le> cd_cap_cents x)" if "x \<in> set t" for x
    using that assms(4) r(2,3) by fastforce
  then have "returning (\<lambda>r. key_row d k r \<and> daily_total_cents r + est \<le> cd_cap_cents r) f t = []" for f
    by (auto simp: returning_def filter_empty_conv)
  moreover have "upd_where (\<lambda>r. key_row d k r \<and> daily_total_cents r + est \<le> cd_cap_cents r) f t = t" for f
    using none by (intro upd_where_id) auto
  ultimately show ?thesis
    using assms(1) none r
    by (cases k) (auto simp: gate_def refuses_def tx_bind_def tx_throw_def tx_return_def stmt_def update_daily_def
        select_daily_def readDailyRow_def quiet_cost_def first_row_def)
qed

section \<open>The contract of a cost-cap enforcer\<close>

text \<open>The abstract ledger: what is spent by day and key, and which keys a call has opened.\<close>

record spend =
  sp_total :: "string \<Rightarrow> uuid option \<Rightarrow> int"
  sp_open :: "string \<Rightarrow> uuid option \<Rightarrow> bool"

definition org_keys :: "uuid \<Rightarrow> uuid option set" where
  "org_keys org = (if org = ZERO_UUID then {None} else {None, Some org})"

definition charge :: "uuid \<Rightarrow> string \<Rightarrow> int \<Rightarrow> (string \<Rightarrow> uuid option \<Rightarrow> int) \<Rightarrow> string \<Rightarrow> uuid option \<Rightarrow> int" where
  "charge org d c T = (\<lambda>d' k. if d' = d \<and> k \<in> org_keys org then T d' k + c else T d' k)"

definition spec_decide :: "int \<Rightarrow> int \<Rightarrow> uuid \<Rightarrow> int \<Rightarrow> string \<Rightarrow> (string \<Rightarrow> uuid option \<Rightarrow> int)
    \<Rightarrow> cost_error + cost_decision" where
  "spec_decide gcap ocap org est d T =
     (if est < 0 then Inl (CostRangeError ''estimatedCents must be >= 0'')
      else if gcap < T d None + est then Inl (global_refusal (T d None) est gcap)
      else if org \<noteq> ZERO_UUID \<and> ocap < T d (Some org) + est then Inl (org_refusal org (T d (Some org)) est ocap)
      else Inr \<lparr>cents_spent_today_global = T d None,
             cents_spent_today_org = (if org = ZERO_UUID then 0 else T d (Some org)), cents_estimated = est\<rparr>)"

definition spec_reserve :: "int \<Rightarrow> int \<Rightarrow> uuid \<Rightarrow> int \<Rightarrow> string \<Rightarrow> spend \<Rightarrow> spend" where
  "spec_reserve gcap ocap org est d a =
     (case spec_decide gcap ocap org est d (sp_total a) of
        Inl _ \<Rightarrow> a
      | Inr _ \<Rightarrow> \<lparr>sp_total = charge org d est (sp_total a),
          sp_open = (\<lambda>d' k. sp_open a d' k \<or> d' = d \<and> k \<in> org_keys org)\<rparr>)"

text \<open>A settle is covered when its rows are open and stay non-negative.\<close>

definition spec_settle_ok :: "uuid \<Rightarrow> int \<Rightarrow> string \<Rightarrow> spend \<Rightarrow> bool" where
  "spec_settle_ok org diff d a \<longleftrightarrow> (\<forall>k\<in>org_keys org. sp_open a d k \<and> 0 \<le> sp_total a d k + diff)"

definition spec_record :: "int \<Rightarrow> cost_error + unit" where
  "spec_record cost = (if cost < 0 then Inl (CostRangeError ''costCents must be >= 0'') else Inr ())"

definition spec_settle :: "uuid \<Rightarrow> int \<Rightarrow> int \<Rightarrow> string \<Rightarrow> spend \<Rightarrow> spend" where
  "spec_settle org cost est d a =
     (if cost < 0 then a else a\<lparr>sp_total := charge org d (cost - est) (sp_total a)\<rparr>)"

definition spend_ok :: "spend \<Rightarrow> bool" where
  "spend_ok a \<longleftrightarrow> (\<forall>d k. 0 \<le> sp_total a d k)"

text \<open>Sequences of calls, each in its own environment, on an enforcer and on the contract.\<close>

datatype cost_op = CheckOp uuid int string | RecordOp uuid int int string

datatype cost_answer = Decided "cost_error + cost_decision" | Settled "cost_error + unit"

fun cost_run :: "('e \<Rightarrow> uuid \<Rightarrow> int \<Rightarrow> string \<Rightarrow> 's \<Rightarrow> (cost_error + cost_decision) \<times> 's)
    \<Rightarrow> ('e \<Rightarrow> uuid \<Rightarrow> int \<Rightarrow> int \<Rightarrow> string \<Rightarrow> 's \<Rightarrow> (cost_error + unit) \<times> 's)
    \<Rightarrow> ('e \<times> cost_op) list \<Rightarrow> 's \<Rightarrow> cost_answer list \<times> 's" where
  "cost_run check settle [] s = ([], s)"
| "cost_run check settle ((e, CheckOp org est d) # ops) s =
     (let (r, s') = check e org est d s; (rs, s'') = cost_run check settle ops s' in (Decided r # rs, s''))"
| "cost_run check settle ((e, RecordOp org cost est d) # ops) s =
     (let (r, s') = settle e org cost est d s; (rs, s'') = cost_run check settle ops s' in (Settled r # rs, s''))"

fun spec_run :: "int \<Rightarrow> int \<Rightarrow> cost_op list \<Rightarrow> spend \<Rightarrow> cost_answer list \<times> spend" where
  "spec_run gcap ocap [] a = ([], a)"
| "spec_run gcap ocap (CheckOp org est d # ops) a =
     (let (rs, a') = spec_run gcap ocap ops (spec_reserve gcap ocap org est d a)
      in (Decided (spec_decide gcap ocap org est d (sp_total a)) # rs, a'))"
| "spec_run gcap ocap (RecordOp org cost est d # ops) a =
     (let (rs, a') = spec_run gcap ocap ops (spec_settle org cost est d a) in (Settled (spec_record cost) # rs, a'))"

text \<open>Every settle of the sequence is covered when its turn comes.\<close>

fun covered :: "int \<Rightarrow> int \<Rightarrow> cost_op list \<Rightarrow> spend \<Rightarrow> bool" where
  "covered gcap ocap [] a \<longleftrightarrow> True"
| "covered gcap ocap (CheckOp org est d # ops) a \<longleftrightarrow> covered gcap ocap ops (spec_reserve gcap ocap org est d a)"
| "covered gcap ocap (RecordOp org cost est d # ops) a \<longleftrightarrow>
     (0 \<le> cost \<longrightarrow> spec_settle_ok org (cost - est) d a) \<and> covered gcap ocap ops (spec_settle org cost est d a)"

lemma spend_ok_reserve: "spend_ok a \<Longrightarrow> spend_ok (spec_reserve gcap ocap org est d a)"
  by (auto simp: spend_ok_def spec_reserve_def spec_decide_def charge_def split: if_splits)

lemma spend_ok_settle:
  "spend_ok a \<Longrightarrow> (0 \<le> cost \<Longrightarrow> spec_settle_ok org (cost - est) d a) \<Longrightarrow> spend_ok (spec_settle org cost est d a)"
  by (auto simp: spend_ok_def spec_settle_def spec_settle_ok_def charge_def)

text \<open>An implementation of the contract: on good environments its decisions and its state follow
  the abstract ledger.\<close>

locale cost_enforcer =
  fixes check :: "'e \<Rightarrow> uuid \<Rightarrow> int \<Rightarrow> string \<Rightarrow> 's \<Rightarrow> (cost_error + cost_decision) \<times> 's"
    and settle :: "'e \<Rightarrow> uuid \<Rightarrow> int \<Rightarrow> int \<Rightarrow> string \<Rightarrow> 's \<Rightarrow> (cost_error + unit) \<times> 's"
    and good :: "int \<Rightarrow> int \<Rightarrow> 'e \<Rightarrow> cost_op \<Rightarrow> bool"
    and sim :: "'s \<Rightarrow> spend \<Rightarrow> bool"
  assumes check_sim: "sim s a \<Longrightarrow> spend_ok a \<Longrightarrow> good gcap ocap e (CheckOp org est d)
      \<Longrightarrow> \<exists>s'. check e org est d s = (spec_decide gcap ocap org est d (sp_total a), s')
            \<and> sim s' (spec_reserve gcap ocap org est d a)"
    and settle_sim: "sim s a \<Longrightarrow> spend_ok a \<Longrightarrow> good gcap ocap e (RecordOp org cost est d)
      \<Longrightarrow> (0 \<le> cost \<Longrightarrow> spec_settle_ok org (cost - est) d a)
      \<Longrightarrow> \<exists>s'. settle e org cost est d s = (spec_record cost, s') \<and> sim s' (spec_settle org cost est d a)"
begin

lemma run_sim:
  assumes "sim s a" and "spend_ok a" and "\<forall>(e, op)\<in>set ops. good gcap ocap e op" and "covered gcap ocap (map snd ops) a"
  shows "fst (cost_run check settle ops s) = fst (spec_run gcap ocap (map snd ops) a)
    \<and> sim (snd (cost_run check settle ops s)) (snd (spec_run gcap ocap (map snd ops) a))"
  using assms
proof (induction ops arbitrary: s a)
  case (Cons x ops)
  obtain e op where x: "x = (e, op)" by (cases x)
  then have good: "good gcap ocap e op" using Cons.prems(3) by simp
  show ?case
  proof (cases op)
    case (CheckOp org est d)
    obtain s' where s': "check e org est d s = (spec_decide gcap ocap org est d (sp_total a), s')"
        "sim s' (spec_reserve gcap ocap org est d a)"
      using check_sim [OF Cons.prems(1,2)] good CheckOp by blast
    have "fst (cost_run check settle ops s') = fst (spec_run gcap ocap (map snd ops) (spec_reserve gcap ocap org est d a))
        \<and> sim (snd (cost_run check settle ops s')) (snd (spec_run gcap ocap (map snd ops) (spec_reserve gcap ocap org est d a)))"
      using Cons.prems x CheckOp by (intro Cons.IH s'(2) spend_ok_reserve) auto
    then show ?thesis using x CheckOp s'(1) by (simp add: case_prod_beta)
  next
    case (RecordOp org cost est d)
    have cov: "0 \<le> cost \<Longrightarrow> spec_settle_ok org (cost - est) d a" using Cons.prems(4) x RecordOp by simp
    obtain s' where s': "settle e org cost est d s = (spec_record cost, s')" "sim s' (spec_settle org cost est d a)"
      using settle_sim [OF Cons.prems(1,2) _ cov] good RecordOp by blast
    have "fst (cost_run check settle ops s') = fst (spec_run gcap ocap (map snd ops) (spec_settle org cost est d a))
        \<and> sim (snd (cost_run check settle ops s')) (snd (spec_run gcap ocap (map snd ops) (spec_settle org cost est d a)))"
      using Cons.prems x RecordOp by (intro Cons.IH s'(2) spend_ok_settle) auto
    then show ?thesis using x RecordOp s'(1) by (simp add: case_prod_beta)
  qed
qed simp

end

section \<open>The enforcer meets the contract\<close>

lemma yields_open_row:
  assumes "quiet_cost e" and "daily_wf t"
    and "key_row d k r" and "daily_check r" and "daily_total_cents r = 0"
  shows "\<exists>t'. yields (stmt (ce_fault e) s (insert_daily r)) t () t' \<and> daily_wf t'
    \<and> spent t' = spent t \<and> daily_at t' d k \<noteq> None \<and> (\<forall>d' k'. daily_at t d' k' \<noteq> None \<longrightarrow> daily_at t' d' k' = daily_at t d' k')"
proof -
  obtain t' where "yields (stmt (ce_fault e) s (insert_daily r)) t () t'" "daily_wf t'"
      "daily_at t' = (if daily_at t d k = None
        then (daily_at t)(d := (daily_at t d)(k := Some (daily_total_cents r, cd_cap_cents r))) else daily_at t)"
    using yields_insert [of "ce_fault e" s t r d k] assms by (auto simp: quiet_cost_def)
  then show ?thesis
    using assms(5) by (intro exI [of _ t']) (auto simp: spent_def fun_eq_iff split: if_splits)
qed

lemma new_daily_rows:
  "key_row d None (new_daily e d ''global'' ZERO_UUID c)" "daily_check (new_daily e d ''global'' ZERO_UUID c)"
  "key_row d (Some org) (new_daily e d ''per_org'' org c)"
  "org \<noteq> ZERO_UUID \<Longrightarrow> daily_check (new_daily e d ''per_org'' org c)"
  "daily_total_cents (new_daily e d x org c) = 0"
  by (simp_all add: new_daily_def global_row_def org_row_def daily_check_def)

text \<open>The transaction up to the gates: the rows exist and carry the effective caps.\<close>

lemma reserve_prefix:
  assumes "quiet_cost e" and "daily_wf t"
  obtains t1 t2 t3 where
    "yields (stmt (ce_fault e) InsertGlobal (insert_daily (new_daily e d ''global'' ZERO_UUID (ce_globalCapCents e)))) t () t1"
    "yields (if org = ZERO_UUID then tx_return () else stmt (ce_fault e) InsertOrg
       (insert_daily (new_daily e d ''per_org'' org (ce_perOrgCapCents e)))) t1 () t2"
    "yields (refresh_caps e org d) t2 () t3" "daily_wf t3" "spent t3 = spent t"
    "\<forall>k\<in>org_keys org. daily_at t3 d k = Some (spent t d k, effective_cap e k)"
    "\<forall>d' k. daily_at t d' k \<noteq> None \<longrightarrow> daily_at t3 d' k \<noteq> None"
proof -
  obtain t1 where t1: "yields (stmt (ce_fault e) InsertGlobal
        (insert_daily (new_daily e d ''global'' ZERO_UUID (ce_globalCapCents e)))) t () t1"
      "daily_wf t1" "spent t1 = spent t" "daily_at t1 d None \<noteq> None"
      "\<forall>d' k'. daily_at t d' k' \<noteq> None \<longrightarrow> daily_at t1 d' k' = daily_at t d' k'"
    using yields_open_row [OF assms new_daily_rows(1,2,5)] by blast
  have "\<exists>t2. yields (if org = ZERO_UUID then tx_return () else stmt (ce_fault e) InsertOrg
       (insert_daily (new_daily e d ''per_org'' org (ce_perOrgCapCents e)))) t1 () t2
      \<and> daily_wf t2 \<and> spent t2 = spent t1 \<and> (org \<noteq> ZERO_UUID \<longrightarrow> daily_at t2 d (Some org) \<noteq> None)
      \<and> (\<forall>d' k'. daily_at t1 d' k' \<noteq> None \<longrightarrow> daily_at t2 d' k' = daily_at t1 d' k')"
  proof (cases "org = ZERO_UUID")
    case True
    then show ?thesis using t1(2) by (auto intro: yields_return)
  next
    case False
    show ?thesis
      using yields_open_row [OF assms(1) t1(2) new_daily_rows(3) new_daily_rows(4) [OF False] new_daily_rows(5)] False by simp
  qed
  then obtain t2 where t2: "yields (if org = ZERO_UUID then tx_return () else stmt (ce_fault e) InsertOrg
       (insert_daily (new_daily e d ''per_org'' org (ce_perOrgCapCents e)))) t1 () t2"
      "daily_wf t2" "spent t2 = spent t1" "org \<noteq> ZERO_UUID \<longrightarrow> daily_at t2 d (Some org) \<noteq> None"
      "\<forall>d' k'. daily_at t1 d' k' \<noteq> None \<longrightarrow> daily_at t2 d' k' = daily_at t1 d' k'"
    by blast
  obtain t3 where t3: "yields (refresh_caps e org d) t2 () t3" "daily_wf t3"
      "\<forall>d' k. daily_at t3 d' k = (if d' = d \<and> k \<in> {None, Some org}
          then map_option (\<lambda>(y, _). (y, effective_cap e k)) (daily_at t2 d' k) else daily_at t2 d' k)"
    using yields_refresh_caps [OF assms(1) t2(2)] by blast
  have spent3: "spent t3 = spent t2"
    using t3(3) by (auto simp: fun_eq_iff spent_def split: option.splits)
  have open2: "daily_at t2 d k \<noteq> None" if "k \<in> org_keys org" for k
    using that t2(4,5) t1(4) by (auto simp: org_keys_def split: if_splits)
  have rows: "daily_at t3 d k = Some (spent t d k, effective_cap e k)" if "k \<in> org_keys org" for k
  proof -
    from open2 [OF that] obtain y z where "daily_at t2 d k = Some (y, z)" by auto
    moreover have "spent t d k = spent t2 d k" using t1(3) t2(3) by simp
    moreover have "k \<in> {None, Some org}" using that by (auto simp: org_keys_def split: if_splits)
    ultimately show ?thesis using t3(3) by (simp add: spent_def)
  qed
  have "daily_at t3 d' k \<noteq> None" if "daily_at t d' k \<noteq> None" for d' k
    using that t1(5) t2(5) t3(3) by (metis (no_types, lifting) option.map_disc_iff)
  then show thesis using that t1(1) t2(1) t3(1,2) spent3 t1(3) t2(3) rows by metis
qed

text \<open>The transaction in full.\<close>

lemma reserve_tx_refuses:
  assumes "quiet_cost e" and "daily_wf t" and "0 \<le> est"
    and "spec_decide (effective_cap e None) (effective_cap e (Some org)) org est d (spent t) = Inl x"
  shows "refuses (reserve_tx e org est d) t x"
proof -
  obtain t1 t2 t3 where pre:
    "yields (stmt (ce_fault e) InsertGlobal (insert_daily (new_daily e d ''global'' ZERO_UUID (ce_globalCapCents e)))) t () t1"
    "yields (if org = ZERO_UUID then tx_return () else stmt (ce_fault e) InsertOrg
       (insert_daily (new_daily e d ''per_org'' org (ce_perOrgCapCents e)))) t1 () t2"
    "yields (refresh_caps e org d) t2 () t3" "daily_wf t3"
    and rows: "\<forall>k\<in>org_keys org. daily_at t3 d k = Some (spent t d k, effective_cap e k)"
    using reserve_prefix [OF assms(1,2)] by metis
  have t0: "yields (stmt (ce_fault e) SetLockTimeout (\<lambda>t. Inr ((), t))) t () t"
    using assms(1) by (simp add: quiet_cost_def yields_stmt)
  have g: "daily_at t3 d None = Some (spent t d None, effective_cap e None)" using rows by (simp add: org_keys_def)
  note gates = refuses_bind [OF t0] refuses_bind [OF pre(1)] refuses_bind [OF pre(2)] refuses_bind [OF pre(3)]
  show ?thesis
  proof (cases "effective_cap e None < spent t d None + est")
    case True
    then have "x = global_refusal (spent t d None) est (effective_cap e None)"
      using assms(3,4) by (simp add: spec_decide_def)
    with gate_closed [OF assms(1) pre(4) g True] show ?thesis
      unfolding reserve_tx_def Let_def by (intro gates) (auto intro: refuses_first)
  next
    case False
    then have org: "org \<noteq> ZERO_UUID" "effective_cap e (Some org) < spent t d (Some org) + est"
        "x = org_refusal org (spent t d (Some org)) est (effective_cap e (Some org))"
      using assms(3,4) by (auto simp: spec_decide_def split: if_splits)
    obtain t4 where t4: "yields (gate e GateGlobal d None est) t3 (spent t d None) t4" "daily_wf t4"
        "daily_at t4 = set_at d None (Some (spent t d None + est, effective_cap e None)) (daily_at t3)"
      using gate_open [OF assms(1) pre(4) g assms(3)] False by auto
    have "daily_at t4 d (Some org) = Some (spent t d (Some org), effective_cap e (Some org))"
      using rows org(1) t4(3) by (simp add: org_keys_def set_at_apply)
    from gate_closed [OF assms(1) t4(2) this org(2)] org show ?thesis
      unfolding reserve_tx_def Let_def by (intro gates refuses_bind [OF t4(1)]) (auto intro: refuses_first)
  qed
qed

lemma reserve_tx_yields:
  assumes "quiet_cost e" and "daily_wf t" and "0 \<le> est"
    and "spec_decide (effective_cap e None) (effective_cap e (Some org)) org est d (spent t) = Inr x"
  shows "\<exists>t'. yields (reserve_tx e org est d) t x t' \<and> daily_wf t' \<and> spent t' = charge org d est (spent t)
    \<and> (\<forall>k\<in>org_keys org. daily_at t' d k = Some (spent t d k + est, effective_cap e k))
    \<and> (\<forall>d' k. daily_at t d' k \<noteq> None \<longrightarrow> daily_at t' d' k \<noteq> None)"
proof -
  obtain t1 t2 t3 where pre:
    "yields (stmt (ce_fault e) InsertGlobal (insert_daily (new_daily e d ''global'' ZERO_UUID (ce_globalCapCents e)))) t () t1"
    "yields (if org = ZERO_UUID then tx_return () else stmt (ce_fault e) InsertOrg
       (insert_daily (new_daily e d ''per_org'' org (ce_perOrgCapCents e)))) t1 () t2"
    "yields (refresh_caps e org d) t2 () t3" "daily_wf t3" "spent t3 = spent t"
    and rows: "\<forall>k\<in>org_keys org. daily_at t3 d k = Some (spent t d k, effective_cap e k)"
    and kept: "\<forall>d' k. daily_at t d' k \<noteq> None \<longrightarrow> daily_at t3 d' k \<noteq> None"
    using reserve_prefix [OF assms(1,2)] by metis
  have t0: "yields (stmt (ce_fault e) SetLockTimeout (\<lambda>t. Inr ((), t))) t () t"
    using assms(1) by (simp add: quiet_cost_def yields_stmt)
  have le: "spent t d None + est \<le> effective_cap e None"
    "org \<noteq> ZERO_UUID \<Longrightarrow> spent t d (Some org) + est \<le> effective_cap e (Some org)"
    and x: "x = \<lparr>cents_spent_today_global = spent t d None,
        cents_spent_today_org = (if org = ZERO_UUID then 0 else spent t d (Some org)), cents_estimated = est\<rparr>"
    using assms(3,4) by (auto simp: spec_decide_def split: if_splits)
  have g: "daily_at t3 d None = Some (spent t d None, effective_cap e None)" using rows by (simp add: org_keys_def)
  obtain t4 where t4: "yields (gate e GateGlobal d None est) t3 (spent t d None) t4" "daily_wf t4"
      "daily_at t4 = set_at d None (Some (spent t d None + est, effective_cap e None)) (daily_at t3)"
    using gate_open [OF assms(1) pre(4) g assms(3) le(1)] by auto
  have "\<exists>t5. yields (if org = ZERO_UUID then tx_return 0 else gate e GateOrg d (Some org) est) t4
        (cents_spent_today_org x) t5 \<and> daily_wf t5
      \<and> daily_at t5 = (if org = ZERO_UUID then daily_at t4
          else set_at d (Some org) (Some (spent t d (Some org) + est, effective_cap e (Some org))) (daily_at t4))"
  proof (cases "org = ZERO_UUID")
    case True
    then show ?thesis using t4(2) x by (auto intro: yields_return)
  next
    case False
    have "daily_at t4 d (Some org) = Some (spent t d (Some org), effective_cap e (Some org))"
      using rows False t4(3) by (simp add: org_keys_def set_at_apply)
    from gate_open [OF assms(1) t4(2) this assms(3) le(2) [OF False]] False x show ?thesis by auto
  qed
  then obtain t5 where t5: "yields (if org = ZERO_UUID then tx_return 0 else gate e GateOrg d (Some org) est) t4
        (cents_spent_today_org x) t5" "daily_wf t5"
      "daily_at t5 = (if org = ZERO_UUID then daily_at t4
          else set_at d (Some org) (Some (spent t d (Some org) + est, effective_cap e (Some org))) (daily_at t4))"
    by blast
  have parse: "CostCapDecisionV1 x = Inr x"
    using x assms(2,3) spent_nonneg by (simp add: CostCapDecisionV1_def)
  have run: "yields (reserve_tx e org est d) t x t5"
    unfolding reserve_tx_def Let_def
    by (rule yields_bind [OF t0], rule yields_bind [OF pre(1)], rule yields_bind [OF pre(2)], rule yields_bind [OF pre(3)],
        rule yields_bind [OF t4(1)], rule yields_bind [OF t5(1)]) (use parse x in \<open>simp add: yields_def tx_lift_def\<close>)
  have at5: "daily_at t5 d' k = (if d' = d \<and> k \<in> org_keys org then Some (spent t d k + est, effective_cap e k) else daily_at t3 d' k)" for d' k
    using t5(3) t4(3) by (auto simp: set_at_apply org_keys_def)
  have "spent t5 = charge org d est (spent t)"
    using at5 pre(5) by (auto simp: fun_eq_iff spent_def charge_def)
  then show ?thesis using run t5(2) at5 kept by (intro exI [of _ t5]) auto
qed

lemma checkOrRaise_quiet:
  fixes org d :: string and est :: int
  assumes "quiet_cost e" and "daily_wf t"
  defines "decision \<equiv> spec_decide (effective_cap e None) (effective_cap e (Some org)) org est d (spent t)"
  shows "\<exists>t'. checkOrRaise e org est d t = (decision, t') \<and> daily_wf t'
    \<and> (isl decision \<longrightarrow> t' = t)
    \<and> (\<not> isl decision \<longrightarrow> spent t' = charge org d est (spent t)
         \<and> (\<forall>k\<in>org_keys org. daily_at t' d k = Some (spent t d k + est, effective_cap e k)))
    \<and> (\<forall>d' k. daily_at t d' k \<noteq> None \<longrightarrow> daily_at t' d' k \<noteq> None)"
proof (cases "est < 0")
  case True
  then show ?thesis using assms(2) by (simp add: checkOrRaise_def decision_def spec_decide_def)
next
  case False
  show ?thesis
  proof (cases decision)
    case (Inl x)
    then have "refuses (reserve_tx e org est d) t x"
      using False reserve_tx_refuses [OF assms(1,2)] unfolding decision_def by simp
    moreover have "mapLockTimeout c (Inl x, t) = (Inl x, t)" for c :: string
      using Inl False by (auto simp: decision_def spec_decide_def mapLockTimeout_def global_refusal_def org_refusal_def
          split: if_splits)
    ultimately show ?thesis
      using False Inl assms(2) by (simp add: checkOrRaise_def refuses_transaction)
  next
    case (Inr x)
    then obtain t' where "yields (reserve_tx e org est d) t x t'" "daily_wf t'" "spent t' = charge org d est (spent t)"
        "\<forall>k\<in>org_keys org. daily_at t' d k = Some (spent t d k + est, effective_cap e k)"
        "\<forall>d' k. daily_at t d' k \<noteq> None \<longrightarrow> daily_at t' d' k \<noteq> None"
      using False reserve_tx_yields [OF assms(1,2)] unfolding decision_def by (metis linorder_not_less)
    then show ?thesis using False Inr by (simp add: checkOrRaise_def yields_transaction)
  qed
qed

lemma yields_settle:
  assumes "quiet_cost e" and "daily_wf t" and "daily_at t d k = Some (y, z)" and "0 \<le> y + c"
  shows "\<exists>t'. yields (settle_row_tx e s (key_row d k) c) t () t' \<and> daily_wf t'
    \<and> daily_at t' = set_at d k (Some (y + c, z)) (daily_at t)"
proof -
  obtain t' rs where "yields (stmt (ce_fault e) s (update_daily (key_row d k) (add_cents c (ce_clock e s)))) t rs t'" "daily_wf t'"
    and "daily_at t' = (daily_at t)(d := (daily_at t d)(k := Some (y + c, z)))"
    using yields_update [where fault = "ce_fault e" and s = s and t = t and d = d and x = k
        and p = "key_row d k" and c = "\<lambda>_ _. True"
        and f = "add_cents c (ce_clock e s)" and g = "\<lambda>y. y + c" and h = "\<lambda>z. z"] assms
    by (auto simp: quiet_cost_def daily_pk_def add_cents_def)
  then show ?thesis
    by (intro exI [of _ t']) (auto simp: settle_row_tx_def yields_def tx_bind_def tx_return_def set_at_def)
qed

lemma settle_tx_yields:
  assumes "quiet_cost e" and "daily_wf t"
    and "\<forall>k\<in>org_keys org. daily_at t d k \<noteq> None \<and> 0 \<le> spent t d k + c"
  shows "\<exists>t'. yields (settle_cost_tx e org c d) t () t' \<and> daily_wf t' \<and> spent t' = charge org d c (spent t)
    \<and> (\<forall>d' k. daily_at t d' k \<noteq> None \<longrightarrow> daily_at t' d' k \<noteq> None)"
proof -
  have t0: "yields (stmt (ce_fault e) SetLockTimeout (\<lambda>t. Inr ((), t))) t () t"
    using assms(1) by (simp add: quiet_cost_def yields_stmt)
  obtain t1 where t1: "yields (refresh_caps e org d) t () t1" "daily_wf t1"
      "\<forall>d' k. daily_at t1 d' k = (if d' = d \<and> k \<in> {None, Some org}
          then map_option (\<lambda>(y, _). (y, effective_cap e k)) (daily_at t d' k) else daily_at t d' k)"
    using yields_refresh_caps [OF assms(1,2)] by blast
  have rows: "daily_at t1 d k = Some (spent t d k, effective_cap e k)" if "k \<in> org_keys org" for k
  proof -
    from assms(3) that obtain y z where "daily_at t d k = Some (y, z)" by fastforce
    moreover have "k \<in> {None, Some org}" using that by (auto simp: org_keys_def split: if_splits)
    ultimately show ?thesis using t1(3) by (simp add: spent_def)
  qed
  have "None \<in> org_keys org" by (simp add: org_keys_def)
  then obtain t2 where t2: "yields (settle_row_tx e SettleGlobal (global_row d) c) t1 () t2" "daily_wf t2"
      "daily_at t2 = set_at d None (Some (spent t d None + c, effective_cap e None)) (daily_at t1)"
    using yields_settle [OF assms(1) t1(2) rows, of None c SettleGlobal] assms(3) by auto
  have "\<exists>t3. yields (if org = ZERO_UUID then tx_return () else settle_row_tx e SettleOrg (org_row d org) c) t2 () t3
      \<and> daily_wf t3 \<and> daily_at t3 = (if org = ZERO_UUID then daily_at t2
          else set_at d (Some org) (Some (spent t d (Some org) + c, effective_cap e (Some org))) (daily_at t2))"
  proof (cases "org = ZERO_UUID")
    case True
    then show ?thesis using t2(2) by (auto intro: yields_return)
  next
    case False
    then have "daily_at t2 d (Some org) = Some (spent t d (Some org), effective_cap e (Some org))"
      using rows t2(3) by (simp add: org_keys_def set_at_apply)
    from yields_settle [OF assms(1) t2(2) this, of c SettleOrg] False assms(3) show ?thesis by (simp add: org_keys_def)
  qed
  then obtain t3 where t3: "yields (if org = ZERO_UUID then tx_return () else settle_row_tx e SettleOrg (org_row d org) c) t2 () t3"
      "daily_wf t3" "daily_at t3 = (if org = ZERO_UUID then daily_at t2
          else set_at d (Some org) (Some (spent t d (Some org) + c, effective_cap e (Some org))) (daily_at t2))"
    by blast
  have "yields (settle_cost_tx e org c d) t () t3"
    unfolding settle_cost_tx_def
    by (rule yields_bind [OF t0], rule yields_bind [OF t1(1)], rule yields_bind [OF t2(1)], rule t3(1))
  moreover have at3: "daily_at t3 d' k = (if d' = d \<and> k \<in> org_keys org then Some (spent t d k + c, effective_cap e k) else daily_at t1 d' k)" for d' k
    using t3(3) t2(3) by (auto simp: set_at_apply org_keys_def)
  moreover have "spent t3 = charge org d c (spent t)"
    using at3 t1(3) by (auto simp: fun_eq_iff spent_def charge_def split: option.splits)
  moreover have "daily_at t3 d' k \<noteq> None" if "daily_at t d' k \<noteq> None" for d' k
    using that at3 t1(3) by auto
  ultimately show ?thesis using t3(2) by blast
qed

definition agg_sim :: "daily_row list \<Rightarrow> spend \<Rightarrow> bool" where
  "agg_sim t a \<longleftrightarrow> daily_wf t \<and> sp_total a = spent t \<and> (\<forall>d k. sp_open a d k \<longrightarrow> daily_at t d k \<noteq> None)"

text \<open>A good environment: no fault, and the effective caps are the given ones.\<close>

definition agg_good :: "int \<Rightarrow> int \<Rightarrow> cost_env \<Rightarrow> cost_op \<Rightarrow> bool" where
  "agg_good gcap ocap e op \<longleftrightarrow> quiet_cost e \<and> effective_cap e None = gcap
     \<and> effective_cap e (Some (case op of CheckOp org _ _ \<Rightarrow> org | RecordOp org _ _ _ \<Rightarrow> org)) = ocap"

interpretation agg: cost_enforcer checkOrRaise recordCallCost agg_good agg_sim
proof (unfold_locales, goal_cases)
  case (1 s a gcap ocap e org est d)
  then have caps: "effective_cap e None = gcap" "effective_cap e (Some org) = ocap" and tot: "sp_total a = spent s"
    by (simp_all add: agg_good_def agg_sim_def)
  obtain t' where "checkOrRaise e org est d s = (spec_decide gcap ocap org est d (spent s), t')" "daily_wf t'"
      "isl (spec_decide gcap ocap org est d (spent s)) \<longrightarrow> t' = s"
      "\<not> isl (spec_decide gcap ocap org est d (spent s)) \<longrightarrow> spent t' = charge org d est (spent s)
         \<and> (\<forall>k\<in>org_keys org. daily_at t' d k = Some (spent s d k + est, effective_cap e k))"
      "\<forall>d' k. daily_at s d' k \<noteq> None \<longrightarrow> daily_at t' d' k \<noteq> None"
    using checkOrRaise_quiet [of e s org est d] 1 caps by (auto simp: agg_good_def agg_sim_def)
  then show ?case
    using 1(1) tot by (intro exI [of _ t']) (auto simp: agg_sim_def spec_reserve_def split: sum.splits)
next
  case (2 s a gcap ocap e org cost est d)
  show ?case
  proof (cases "cost < 0")
    case True
    then show ?thesis using 2(1) by (simp add: recordCallCost_def spec_record_def spec_settle_def)
  next
    case False
    then have ok: "spec_settle_ok org (cost - est) d a" using 2(4) by simp
    show ?thesis
    proof (cases "cost = est")
      case True
      then have "charge org d (cost - est) (sp_total a) = sp_total a" by (auto simp: charge_def fun_eq_iff)
      then show ?thesis using 2(1) False True by (simp add: recordCallCost_def spec_record_def spec_settle_def)
    next
      case ne: False
      obtain t' where "yields (settle_cost_tx e org (cost - est) d) s () t'" "daily_wf t'"
          "spent t' = charge org d (cost - est) (spent s)" "\<forall>d' k. daily_at s d' k \<noteq> None \<longrightarrow> daily_at t' d' k \<noteq> None"
        using settle_tx_yields [of e s org d "cost - est"] 2(1,3) ok
        by (auto simp: agg_good_def agg_sim_def spec_settle_ok_def)
      then show ?thesis
        using 2(1) False ne
        by (intro exI [of _ t']) (auto simp: recordCallCost_def yields_transaction spec_record_def spec_settle_def agg_sim_def)
    qed
  qed
qed

section \<open>Properties\<close>

text \<open>(C31) Without a fault the answer of a cap check is the contract's decision on the caps in force
  and the totals of the table. A refusal leaves the table as it was; a grant adds the estimate to the
  global row and, for an installation, to its own row, and to nothing else, and neither total exceeds
  its cap afterwards.\<close>

theorem checkOrRaise_correct:
  assumes "quiet_cost e" and "daily_wf t"
  shows "case checkOrRaise e org est d t of (r, t') \<Rightarrow>
      r = spec_decide (effective_cap e None) (effective_cap e (Some org)) org est d (spent t)
      \<and> daily_wf t'
      \<and> (case r of
           Inl _ \<Rightarrow> t' = t
         | Inr _ \<Rightarrow> spent t' = charge org d est (spent t) \<and> (\<forall>k\<in>org_keys org. spent t' d k \<le> effective_cap e k))"
proof -
  let ?r = "spec_decide (effective_cap e None) (effective_cap e (Some org)) org est d (spent t)"
  obtain t' where t': "checkOrRaise e org est d t = (?r, t')" "daily_wf t'" "isl ?r \<longrightarrow> t' = t"
      "\<not> isl ?r \<longrightarrow> spent t' = charge org d est (spent t)"
    using checkOrRaise_quiet [OF assms] by blast
  have "spent t d k + est \<le> effective_cap e k" if "\<not> isl ?r" and "k \<in> org_keys org" for k
    using that by (auto simp: spec_decide_def org_keys_def split: if_splits)
  with t' show ?thesis by (auto simp: charge_def isl_def split: sum.splits)
qed

definition demo_cost :: cost_env where
  "demo_cost = \<lparr>ce_globalCapCents = 500, ce_perOrgCapCents = 100, ce_readCapsFromDb = True,
     ce_overrides = [\<lparr>ov_installation_id = ''org'', ov_cap_cents = 80, ov_expires_at = Some 5000000\<rparr>],
     ce_settings = [(''global'', 400)], ce_clock = (\<lambda>_. 1000), ce_db_now = 0, ce_fault = (\<lambda>_. None)\<rparr>"

definition demo_daily :: "daily_row list" where
  "demo_daily = [\<lparr>cd_today = ''2026-01-02'', cd_scope = ''global'', cd_scope_id = ZERO_UUID,
       daily_total_cents = 70, cd_cap_cents = 500, cd_updated_at = 0\<rparr>,
     \<lparr>cd_today = ''2026-01-02'', cd_scope = ''per_org'', cd_scope_id = ''org'',
       daily_total_cents = 70, cd_cap_cents = 100, cd_updated_at = 0\<rparr>]"

lemmas demo_cost_simps = demo_cost_def demo_daily_def ZERO_UUID_def effective_cap_def override_live_def first_row_def
  spent_def daily_at_def global_row_def org_row_def

lemma demo_cost_ok: "quiet_cost demo_cost" "daily_wf demo_daily"
  by (simp_all add: quiet_cost_def daily_wf_def daily_check_def daily_pk_def demo_cost_simps)

theorem checkOrRaise_correct_witness:
  "checkOrRaise demo_cost ''org'' 20 ''2026-01-02'' demo_daily = (Inl (org_refusal ''org'' 70 20 80), demo_daily)"
  using checkOrRaise_correct [OF demo_cost_ok, of "''org''" 20 "''2026-01-02''"]
  by (simp add: spec_decide_def demo_cost_simps split: prod.splits)

lemma refresh_caps_aborted:
  assumes "ce_readCapsFromDb e" and "ce_fault e ReadGlobalCap = Some code"
  shows "refresh_caps e org d (False, t) = (Inl (CostDbError ''25P02''), True, t)"
  using assms
  by (simp add: refresh_caps_def resolveEffectiveCap_def read_setting_def refreshCapCents_def tx_bind_def tx_catch_def
      tx_return_def stmt_def)

text \<open>When the read of the global cap fails, the code catches the error and goes on with its
  fallback, but the failed statement has aborted the transaction: the next UPDATE is refused. The
  reservation fails, and a settle of a different amount is lost.\<close>

theorem cap_read_fault_fails_closed:
  assumes "daily_wf t" and "ce_readCapsFromDb e" and "ce_fault e = (\<lambda>_. None)(ReadGlobalCap := Some code)"
    and "0 \<le> est" and "0 \<le> cost" and "cost \<noteq> est"
  shows "checkOrRaise e org est d t = (Inl (CostDbError ''25P02''), t)
    \<and> recordCallCost e org cost est d t = (Inl (CostDbError ''25P02''), t)"
proof
  have fault: "ce_fault e ReadGlobalCap = Some code" and ok: "k \<noteq> ReadGlobalCap \<Longrightarrow> ce_fault e k = None" for k
    using assms(3) by simp_all
  have t0: "yields (stmt (ce_fault e) SetLockTimeout (\<lambda>t. Inr ((), t))) t () t" for t :: "daily_row list"
    by (simp add: ok yields_stmt)
  have stop: "refuses (refresh_caps e org d) t (CostDbError ''25P02'')" for t
    using refresh_caps_aborted [OF assms(2) fault] by (simp add: refuses_def)
  obtain t1 where t1: "yields (stmt (ce_fault e) InsertGlobal
        (insert_daily (new_daily e d ''global'' ZERO_UUID (ce_globalCapCents e)))) t () t1" "daily_wf t1"
    using yields_insert [where fault = "ce_fault e", OF _ assms(1) new_daily_rows(2,1)] ok [of InsertGlobal] by blast
  have "\<exists>t2. yields (if org = ZERO_UUID then tx_return () else stmt (ce_fault e) InsertOrg
       (insert_daily (new_daily e d ''per_org'' org (ce_perOrgCapCents e)))) t1 () t2"
    using yields_insert [where fault = "ce_fault e" and k = InsertOrg, OF _ t1(2) new_daily_rows(4) new_daily_rows(3)] ok [of InsertOrg]
    by (cases "org = ZERO_UUID") (auto intro: yields_return, metis)
  then obtain t2 where t2: "yields (if org = ZERO_UUID then tx_return () else stmt (ce_fault e) InsertOrg
       (insert_daily (new_daily e d ''per_org'' org (ce_perOrgCapCents e)))) t1 () t2" by blast
  have "refuses (reserve_tx e org est d) t (CostDbError ''25P02'')"
    unfolding reserve_tx_def Let_def
    by (rule refuses_bind [OF t0], rule refuses_bind [OF t1(1)], rule refuses_bind [OF t2], rule refuses_first [OF stop])
  then show "checkOrRaise e org est d t = (Inl (CostDbError ''25P02''), t)"
    using assms(4) by (simp add: checkOrRaise_def refuses_transaction mapLockTimeout_def)
  have "refuses (settle_cost_tx e org (cost - est) d) t (CostDbError ''25P02'')"
    unfolding settle_cost_tx_def by (rule refuses_bind [OF t0], rule refuses_first [OF stop])
  then show "recordCallCost e org cost est d t = (Inl (CostDbError ''25P02''), t)"
    using assms(5,6) by (simp add: recordCallCost_def refuses_transaction mapLockTimeout_def)
qed

theorem cap_read_fault_fails_closed_witness:
  "checkOrRaise (demo_cost\<lparr>ce_fault := (\<lambda>_. None)(ReadGlobalCap := Some ''57014'')\<rparr>) ''org'' 5 ''2026-01-02'' demo_daily
     = (Inl (CostDbError ''25P02''), demo_daily)
   \<and> recordCallCost (demo_cost\<lparr>ce_fault := (\<lambda>_. None)(ReadGlobalCap := Some ''57014'')\<rparr>) ''org'' 7 5 ''2026-01-02'' demo_daily
     = (Inl (CostDbError ''25P02''), demo_daily)"
  by (rule cap_read_fault_fails_closed [OF demo_cost_ok(2)]) (simp_all add: demo_cost_def)

end
