(* ===== verification/Cost_Memory.thy ===== *)
theory Cost_Memory
  imports Cost
begin

text \<open>
  The in-memory enforcer of \<^verbatim>\<open>cost/enforcer.ts\<close>, the double that tests and local runs put in the place of
  the Postgres enforcer. It does not reserve: a check only reads and the settle books the whole cost.
  The lemmas compare it with the Postgres enforcer on calls that are checked and settled one after the
  other. JavaScript maps with string keys are functions to options.
\<close>

section \<open>State and operations\<close>

record memory_enforcer =
  me_globalCapCents :: int
  me_perOrgCapCents :: int
  me_killSwitch :: bool
  me_globalSpend :: "string \<Rightarrow> int option"
  me_orgSpend :: "string \<Rightarrow> int option"
  me_perOrgOverrides :: "uuid \<Rightarrow> int option"

definition new_memory_enforcer :: "int option \<Rightarrow> int option \<Rightarrow> bool \<Rightarrow> memory_enforcer" where
  "new_memory_enforcer gcap ocap kill = \<lparr>
     me_globalCapCents = (case gcap of None \<Rightarrow> DEFAULT_GLOBAL_CAP_CENTS | Some c \<Rightarrow> c),
     me_perOrgCapCents = (case ocap of None \<Rightarrow> DEFAULT_PER_ORG_CAP_CENTS | Some c \<Rightarrow> c),
     me_killSwitch = kill, me_globalSpend = (\<lambda>_. None), me_orgSpend = (\<lambda>_. None), me_perOrgOverrides = (\<lambda>_. None)\<rparr>"

definition orgKey :: "string \<Rightarrow> uuid \<Rightarrow> string" where
  "orgKey today org = today @ [CHR 0x00] @ org"

definition setKillSwitch :: "bool \<Rightarrow> memory_enforcer \<Rightarrow> memory_enforcer" where
  "setKillSwitch v m = m\<lparr>me_killSwitch := v\<rparr>"

definition setPerOrgCap :: "uuid \<Rightarrow> int \<Rightarrow> memory_enforcer \<Rightarrow> memory_enforcer" where
  "setPerOrgCap org cents m = m\<lparr>me_perOrgOverrides := (me_perOrgOverrides m)(org \<mapsto> cents)\<rparr>"

definition or_zero :: "int option \<Rightarrow> int" where
  "or_zero x = (case x of None \<Rightarrow> 0 | Some v \<Rightarrow> v)"

definition getGlobalSpend :: "string \<Rightarrow> memory_enforcer \<Rightarrow> int" where
  "getGlobalSpend today m = or_zero (me_globalSpend m today)"

definition getOrgSpend :: "uuid \<Rightarrow> string \<Rightarrow> memory_enforcer \<Rightarrow> int" where
  "getOrgSpend org today m = or_zero (me_orgSpend m (orgKey today org))"

definition capForOrg :: "uuid \<Rightarrow> memory_enforcer \<Rightarrow> int" where
  "capForOrg org m = (case me_perOrgOverrides m org of None \<Rightarrow> me_perOrgCapCents m | Some c \<Rightarrow> c)"

definition memory_checkOrRaise :: "uuid \<Rightarrow> int \<Rightarrow> string \<Rightarrow> memory_enforcer \<Rightarrow> cost_error + cost_decision" where
  "memory_checkOrRaise org est today m =
     (if est < 0 then Inl (CostRangeError ''estimatedCents must be >= 0'')
      else
        (let globalSpent = or_zero (me_globalSpend m today); orgSpent = or_zero (me_orgSpend m (orgKey today org)) in
         if me_killSwitch m
         then Inl (BedrockBudgetExceededError ''bedrock_global_kill_switch is set'' ''kill_switch'' None)
         else if me_globalCapCents m < globalSpent + est
         then Inl (global_refusal globalSpent est (me_globalCapCents m))
         else if capForOrg org m < orgSpent + est
         then Inl (org_refusal org orgSpent est (capForOrg org m))
         else CostCapDecisionV1 \<lparr>cents_spent_today_global = globalSpent, cents_spent_today_org = orgSpent,
                cents_estimated = est\<rparr>))"

definition memory_recordCallCost :: "uuid \<Rightarrow> int \<Rightarrow> string \<Rightarrow> memory_enforcer \<Rightarrow> (cost_error + unit) \<times> memory_enforcer" where
  "memory_recordCallCost org cost today m =
     (if cost < 0 then (Inl (CostRangeError ''costCents must be >= 0''), m)
      else (Inr (), m\<lparr>me_globalSpend := (me_globalSpend m)(today \<mapsto> or_zero (me_globalSpend m today) + cost),
                     me_orgSpend := (me_orgSpend m)(orgKey today org \<mapsto> or_zero (me_orgSpend m (orgKey today org)) + cost)\<rparr>))"

section \<open>Paired calls\<close>

text \<open>Calls in the order of the worker: the check, then, when it is granted, the settle.\<close>

fun paired_run :: "('e \<Rightarrow> uuid \<Rightarrow> int \<Rightarrow> string \<Rightarrow> 's \<Rightarrow> (cost_error + cost_decision) \<times> 's)
    \<Rightarrow> ('e \<Rightarrow> uuid \<Rightarrow> int \<Rightarrow> int \<Rightarrow> string \<Rightarrow> 's \<Rightarrow> (cost_error + unit) \<times> 's)
    \<Rightarrow> ('e \<times> uuid \<times> int \<times> int \<times> string) list \<Rightarrow> 's \<Rightarrow> (cost_error + cost_decision) list \<times> 's" where
  "paired_run check settle [] s = ([], s)"
| "paired_run check settle ((e, org, est, cost, d) # calls) s =
     (let (r, s1) = check e org est d s;
        s2 = (case r of Inl _ \<Rightarrow> s1 | Inr _ \<Rightarrow> snd (settle e org cost est d s1));
        (rs, s3) = paired_run check settle calls s2
      in (r # rs, s3))"

definition spec_pair :: "int \<Rightarrow> int \<Rightarrow> uuid \<Rightarrow> int \<Rightarrow> int \<Rightarrow> string \<Rightarrow> spend \<Rightarrow> spend" where
  "spec_pair gcap ocap org est cost d a =
     (case spec_decide gcap ocap org est d (sp_total a) of
        Inl _ \<Rightarrow> a
      | Inr _ \<Rightarrow> \<lparr>sp_total = charge org d cost (sp_total a),
          sp_open = (\<lambda>d' k. sp_open a d' k \<or> d' = d \<and> k \<in> org_keys org)\<rparr>)"

fun spec_paired :: "int \<Rightarrow> int \<Rightarrow> (uuid \<times> int \<times> int \<times> string) list \<Rightarrow> spend \<Rightarrow> (cost_error + cost_decision) list" where
  "spec_paired gcap ocap [] a = []"
| "spec_paired gcap ocap ((org, est, cost, d) # calls) a =
     spec_decide gcap ocap org est d (sp_total a) # spec_paired gcap ocap calls (spec_pair gcap ocap org est cost d a)"

lemma spend_ok_pair: "spend_ok a \<Longrightarrow> 0 \<le> cost \<Longrightarrow> spend_ok (spec_pair gcap ocap org est cost d a)"
  by (auto simp: spend_ok_def spec_pair_def charge_def split: sum.splits)

locale paired_enforcer =
  fixes check :: "'e \<Rightarrow> uuid \<Rightarrow> int \<Rightarrow> string \<Rightarrow> 's \<Rightarrow> (cost_error + cost_decision) \<times> 's"
    and settle :: "'e \<Rightarrow> uuid \<Rightarrow> int \<Rightarrow> int \<Rightarrow> string \<Rightarrow> 's \<Rightarrow> (cost_error + unit) \<times> 's"
    and pgood :: "int \<Rightarrow> int \<Rightarrow> 'e \<Rightarrow> uuid \<Rightarrow> int \<Rightarrow> int \<Rightarrow> string \<Rightarrow> bool"
    and psim :: "int \<Rightarrow> int \<Rightarrow> 's \<Rightarrow> spend \<Rightarrow> bool"
  assumes pair_sim: "psim gcap ocap s a \<Longrightarrow> spend_ok a \<Longrightarrow> 0 \<le> cost \<Longrightarrow> pgood gcap ocap e org est cost d
      \<Longrightarrow> \<exists>s1. check e org est d s = (spec_decide gcap ocap org est d (sp_total a), s1)
            \<and> psim gcap ocap (case spec_decide gcap ocap org est d (sp_total a) of
                 Inl _ \<Rightarrow> s1 | Inr _ \<Rightarrow> snd (settle e org cost est d s1)) (spec_pair gcap ocap org est cost d a)"
begin

lemma paired_sim:
  assumes "psim gcap ocap s a" and "spend_ok a"
    and "\<forall>(e, org, est, cost, d)\<in>set calls. 0 \<le> cost \<and> pgood gcap ocap e org est cost d"
  shows "fst (paired_run check settle calls s) = spec_paired gcap ocap (map snd calls) a"
  using assms
proof (induction calls arbitrary: s a)
  case (Cons x calls)
  obtain e org est cost d where x: "x = (e, org, est, cost, d)" by (cases x)
  then have ok: "0 \<le> cost" "pgood gcap ocap e org est cost d" using Cons.prems(3) by auto
  obtain s1 where s1: "check e org est d s = (spec_decide gcap ocap org est d (sp_total a), s1)"
      "psim gcap ocap (case spec_decide gcap ocap org est d (sp_total a) of
         Inl _ \<Rightarrow> s1 | Inr _ \<Rightarrow> snd (settle e org cost est d s1)) (spec_pair gcap ocap org est cost d a)"
    using pair_sim [OF Cons.prems(1,2) ok] by blast
  from Cons.IH [OF s1(2) spend_ok_pair [OF Cons.prems(2) ok(1)]] Cons.prems(3) show ?case
    by (simp add: x s1(1) case_prod_beta)
qed simp

end

text \<open>An enforcer that reserves handles paired calls: the settle of a granted call is covered.\<close>

lemma spec_reserve_settle:
  assumes "spend_ok a" and "0 \<le> cost" and "\<not> isl (spec_decide gcap ocap org est d (sp_total a))"
  shows "spec_settle_ok org (cost - est) d (spec_reserve gcap ocap org est d a)"
    and "spec_settle org cost est d (spec_reserve gcap ocap org est d a) = spec_pair gcap ocap org est cost d a"
  using assms by (auto simp: spec_reserve_def spec_settle_ok_def spec_settle_def spec_pair_def charge_def spend_ok_def
      fun_eq_iff split: sum.splits)

sublocale cost_enforcer \<subseteq> paired: paired_enforcer check settle
    "\<lambda>gcap ocap e org est cost d. good gcap ocap e (CheckOp org est d) \<and> good gcap ocap e (RecordOp org cost est d)"
    "\<lambda>_ _. sim"
proof (unfold_locales, goal_cases)
  case (1 gcap ocap s a cost e org est d)
  then obtain s1 where s1: "check e org est d s = (spec_decide gcap ocap org est d (sp_total a), s1)"
      "sim s1 (spec_reserve gcap ocap org est d a)"
    using check_sim by blast
  show ?case
  proof (cases "spec_decide gcap ocap org est d (sp_total a)")
    case (Inl x)
    then show ?thesis using s1 by (simp add: spec_reserve_def spec_pair_def)
  next
    case (Inr x)
    then have "\<not> isl (spec_decide gcap ocap org est d (sp_total a))" by simp
    note spec = spec_reserve_settle [OF 1(2,3) this]
    obtain s2 where "settle e org cost est d s1 = (spec_record cost, s2)"
        "sim s2 (spec_settle org cost est d (spec_reserve gcap ocap org est d a))"
      using settle_sim [OF s1(2) spend_ok_reserve [OF 1(2)]] spec(1) 1(4) by blast
    then show ?thesis using s1(1) Inr by (simp add: spec(2))
  qed
qed

section \<open>The double keeps the contract on paired calls\<close>

lemma orgKey_inj:
  assumes "CHR 0x00 \<notin> set d" and "CHR 0x00 \<notin> set d'"
  shows "orgKey d org = orgKey d' org' \<longleftrightarrow> d = d' \<and> org = org'"
proof
  assume eq: "orgKey d org = orgKey d' org'"
  have "takeWhile (\<lambda>c. c \<noteq> CHR 0x00) (x @ [CHR 0x00] @ y) = x" if "CHR 0x00 \<notin> set x" for x y
    using that by (induction x) auto
  with assms eq have "d = d'" unfolding orgKey_def by metis
  with eq show "d = d' \<and> org = org'" by (simp add: orgKey_def)
qed simp

definition mem_sim :: "int \<Rightarrow> int \<Rightarrow> memory_enforcer \<Rightarrow> spend \<Rightarrow> bool" where
  "mem_sim gcap ocap m a \<longleftrightarrow> \<not> me_killSwitch m \<and> me_globalCapCents m = gcap \<and> me_perOrgCapCents m = ocap
     \<and> me_perOrgOverrides m = (\<lambda>_. None)
     \<and> (\<forall>d org. CHR 0x00 \<notin> set d \<longrightarrow> org \<noteq> ZERO_UUID \<longrightarrow>
          getGlobalSpend d m = sp_total a d None \<and> getOrgSpend org d m = sp_total a d (Some org))"

text \<open>The double has no platform scope; the day contains no NUL, which separates the parts of a key.\<close>

definition mem_good :: "uuid \<Rightarrow> string \<Rightarrow> bool" where
  "mem_good org d \<longleftrightarrow> org \<noteq> ZERO_UUID \<and> CHR 0x00 \<notin> set d"

lemma mem_decides:
  assumes "mem_sim gcap ocap m a" and "spend_ok a" and "mem_good org d"
  shows "memory_checkOrRaise org est d m = spec_decide gcap ocap org est d (sp_total a)"
proof -
  have "or_zero (me_globalSpend m d) = sp_total a d None" "or_zero (me_orgSpend m (orgKey d org)) = sp_total a d (Some org)"
    using assms(1,3) by (auto simp: mem_sim_def mem_good_def getGlobalSpend_def getOrgSpend_def)
  moreover have "0 \<le> sp_total a d None" "0 \<le> sp_total a d (Some org)" using assms(2) by (auto simp: spend_ok_def)
  ultimately show ?thesis
    using assms(1,3)
    by (auto simp: memory_checkOrRaise_def mem_sim_def mem_good_def capForOrg_def spec_decide_def CostCapDecisionV1_def Let_def)
qed

lemma mem_settles:
  assumes "mem_sim gcap ocap m a" and "mem_good org d" and "0 \<le> cost"
    and "\<not> isl (spec_decide gcap ocap org est d (sp_total a))"
  shows "mem_sim gcap ocap (snd (memory_recordCallCost org cost d m)) (spec_pair gcap ocap org est cost d a)"
proof -
  let ?m = "snd (memory_recordCallCost org cost d m)"
  have tot: "sp_total (spec_pair gcap ocap org est cost d a) = charge org d cost (sp_total a)"
    using assms(4) by (auto simp: spec_pair_def split: sum.splits)
  have "getGlobalSpend d' ?m = charge org d cost (sp_total a) d' None
      \<and> getOrgSpend org' d' ?m = charge org d cost (sp_total a) d' (Some org')"
    if "CHR 0x00 \<notin> set d'" and "org' \<noteq> ZERO_UUID" for d' org'
    using assms(1-3) that orgKey_inj [of d' d org' org]
    by (auto simp: memory_recordCallCost_def mem_sim_def mem_good_def getGlobalSpend_def getOrgSpend_def or_zero_def
        charge_def org_keys_def split: option.splits)
  with assms(1) tot show ?thesis by (simp add: mem_sim_def memory_recordCallCost_def)
qed

interpretation mem: paired_enforcer "\<lambda>_ org est d m. (memory_checkOrRaise org est d m, m)"
    "\<lambda>_ org cost est d m. memory_recordCallCost org cost d m"
    "\<lambda>gcap ocap e org est cost d. mem_good org d" mem_sim
proof (unfold_locales, goal_cases)
  case (1 gcap ocap s a cost e org est d)
  then show ?case
    using mem_decides [OF 1(1,2,4), of est] mem_settles [OF 1(1,4,3), of est]
    by (cases "spec_decide gcap ocap org est d (sp_total a)") (auto simp: spec_pair_def)
qed

section \<open>Properties\<close>

text \<open>On any sequence of calls that are checked and, when granted, settled before the next one, for
  installations other than the platform's, the in-memory double answers exactly as the Postgres
  enforcer with the same caps does, although it never reserves.\<close>

theorem memory_double_agrees:
  assumes "\<forall>(e, org, est, cost, d)\<in>set calls. agg_good gcap ocap e (CheckOp org est d) \<and> mem_good org d \<and> 0 \<le> cost"
  shows "fst (paired_run (\<lambda>_ org est d m. (memory_checkOrRaise org est d m, m))
            (\<lambda>_ org cost est d m. memory_recordCallCost org cost d m) calls (new_memory_enforcer (Some gcap) (Some ocap) False))
       = fst (paired_run checkOrRaise recordCallCost calls [])"
proof -
  define a where "a = \<lparr>sp_total = (\<lambda>_ _. 0), sp_open = (\<lambda>_ _. False)\<rparr>"
  have start: "spend_ok a" "mem_sim gcap ocap (new_memory_enforcer (Some gcap) (Some ocap) False) a" "agg_sim [] a"
    by (auto simp: a_def spend_ok_def mem_sim_def new_memory_enforcer_def getGlobalSpend_def getOrgSpend_def or_zero_def
        agg_sim_def daily_wf_def spent_def daily_at_def first_row_def fun_eq_iff)
  have "fst (paired_run (\<lambda>_ org est d m. (memory_checkOrRaise org est d m, m))
            (\<lambda>_ org cost est d m. memory_recordCallCost org cost d m) calls (new_memory_enforcer (Some gcap) (Some ocap) False))
      = spec_paired gcap ocap (map snd calls) a"
    using assms by (intro mem.paired_sim start) auto
  also have "\<dots> = fst (paired_run checkOrRaise recordCallCost calls [])"
    using assms by (intro agg.paired.paired_sim [symmetric] start) (auto simp: agg_good_def)
  finally show ?thesis .
qed

definition demo_pairs :: "(cost_env \<times> uuid \<times> int \<times> int \<times> string) list" where
  "demo_pairs = [(demo_cost\<lparr>ce_readCapsFromDb := False\<rparr>, ''org'', 60, 45, ''2026-01-02''),
     (demo_cost\<lparr>ce_readCapsFromDb := False\<rparr>, ''org'', 60, 60, ''2026-01-02'')]"

theorem memory_double_agrees_witness:
  "fst (paired_run (\<lambda>_ org est d m. (memory_checkOrRaise org est d m, m))
        (\<lambda>_ org cost est d m. memory_recordCallCost org cost d m) demo_pairs (new_memory_enforcer (Some 500) (Some 100) False))
   = fst (paired_run checkOrRaise recordCallCost demo_pairs [])"
  by (rule memory_double_agrees)
    (simp add: demo_pairs_def agg_good_def quiet_cost_def demo_cost_def effective_cap_def mem_good_def ZERO_UUID_def)

end
