(* ===== verification/Cost_Journal.thy ===== *)
theory Cost_Journal
  imports Cost Retry
begin

text \<open>
  The signed cost journal: \<^verbatim>\<open>cost/cost_journal.ts\<close> (shadow appends, the deciding path on the sums of
  the journal, the comparison with the aggregate) and \<^verbatim>\<open>cost/cost_journal_reconciler.ts\<close> (the window
  derived from the retry policy and the healing pass). A journal row's id is drawn by the database;
  \<open>je_newId\<close> is the draw. The advisory lock of a day serialises the deciding calls, so they are
  modelled one after the other.
\<close>

section \<open>The journal\<close>

datatype entry_kind = JReserve | JSettle | JRelease

record journal_row =
  journal_id :: uuid
  jr_call_id :: string
  jr_installation_id :: uuid
  jr_today :: string
  jr_entry_kind :: entry_kind
  jr_amount_cents :: int
  jr_closes_journal_id :: "uuid option"
  jr_created_at :: db_time

text \<open>The CHECK constraints of the table.\<close>

definition journal_check :: "journal_row \<Rightarrow> bool" where
  "journal_check r \<longleftrightarrow> (jr_closes_journal_id r = None \<or> jr_entry_kind r = JRelease)
     \<and> (jr_entry_kind r \<noteq> JRelease \<or> jr_amount_cents r \<le> 0) \<and> (jr_entry_kind r \<noteq> JReserve \<or> 0 \<le> jr_amount_cents r)"

definition insert_journal :: "journal_row \<Rightarrow> journal_row list \<Rightarrow> string + unit \<times> journal_row list" where
  "insert_journal r j =
     (if \<not> journal_check r then Inl ''23514''
      else if journal_id r \<in> journal_id ` set j then Inl ''23505'' else Inr ((), j @ [r]))"

datatype journal_site = JSetLockTimeout | JLockDay | JSumGlobal | JSumOrg | JAppend

record journal_env =
  je_callId :: string
  je_globalCapCents :: int
  je_perOrgCapCents :: int
  je_clock :: js_date
  je_newId :: "journal_row list \<Rightarrow> uuid"
  je_fault :: "journal_site \<Rightarrow> string option"

definition journal_entry :: "journal_env \<Rightarrow> uuid \<Rightarrow> int \<Rightarrow> string \<Rightarrow> entry_kind \<Rightarrow> journal_row list \<Rightarrow> journal_row" where
  "journal_entry e org cents today kind j =
     \<lparr>journal_id = je_newId e j, jr_call_id = je_callId e, jr_installation_id = org, jr_today = today,
      jr_entry_kind = kind, jr_amount_cents = cents, jr_closes_journal_id = None, jr_created_at = of_date (je_clock e)\<rparr>"

definition journal_append :: "journal_env \<Rightarrow> uuid \<Rightarrow> int \<Rightarrow> string \<Rightarrow> entry_kind \<Rightarrow> (journal_row list, unit) tx" where
  "journal_append e org cents today kind =
     stmt (je_fault e) JAppend (\<lambda>j. insert_journal (journal_entry e org cents today kind j) j)"

text \<open>The shadow appends run outside a transaction: a single statement commits by itself.\<close>

definition appendReserve :: "journal_env \<Rightarrow> uuid \<Rightarrow> int \<Rightarrow> string \<Rightarrow> journal_row list \<Rightarrow> (cost_error + unit) \<times> journal_row list" where
  "appendReserve e org cents today j =
     (if cents < 0 then (Inl (CostRangeError ''reserve amountCents must be >= 0''), j)
      else transaction (journal_append e org cents today JReserve) j)"

definition appendSettle :: "journal_env \<Rightarrow> uuid \<Rightarrow> int \<Rightarrow> string \<Rightarrow> journal_row list \<Rightarrow> (cost_error + unit) \<times> journal_row list" where
  "appendSettle e org cents today j = transaction (journal_append e org cents today JSettle) j"

section \<open>The deciding path\<close>

definition sumDay :: "string \<Rightarrow> uuid option \<Rightarrow> journal_row list \<Rightarrow> int" where
  "sumDay today org j = sum_list (map jr_amount_cents
     (filter (\<lambda>r. jr_today r = today \<and> (case org of None \<Rightarrow> True | Some x \<Rightarrow> jr_installation_id r = x)) j))"

definition lockDay :: "journal_env \<Rightarrow> (journal_row list, unit) tx" where
  "lockDay e = tx_bind (stmt (je_fault e) JSetLockTimeout (\<lambda>j. Inr ((), j)))
     (\<lambda>_. stmt (je_fault e) JLockDay (\<lambda>j. Inr ((), j)))"

definition journal_reserve_tx :: "journal_env \<Rightarrow> uuid \<Rightarrow> int \<Rightarrow> string \<Rightarrow> (journal_row list, cost_decision) tx" where
  "journal_reserve_tx e org est today =
     tx_bind (lockDay e) (\<lambda>_.
     tx_bind (stmt (je_fault e) JSumGlobal (\<lambda>j. Inr (sumDay today None j, j))) (\<lambda>globalTotal.
     tx_bind (if org = ZERO_UUID then tx_return 0
              else stmt (je_fault e) JSumOrg (\<lambda>j. Inr (sumDay today (Some org) j, j))) (\<lambda>orgTotal.
     if je_globalCapCents e < globalTotal + est
     then tx_throw (global_refusal globalTotal est (je_globalCapCents e))
     else if org \<noteq> ZERO_UUID \<and> je_perOrgCapCents e < orgTotal + est
     then tx_throw (org_refusal org orgTotal est (je_perOrgCapCents e))
     else tx_bind (journal_append e org est today JReserve) (\<lambda>_.
       tx_lift (CostCapDecisionV1 \<lparr>cents_spent_today_global = globalTotal, cents_spent_today_org = orgTotal,
         cents_estimated = est\<rparr>)))))"

definition journal_checkOrRaise :: "journal_env \<Rightarrow> uuid \<Rightarrow> int \<Rightarrow> string \<Rightarrow> journal_row list
    \<Rightarrow> (cost_error + cost_decision) \<times> journal_row list" where
  "journal_checkOrRaise e org est today j =
     (if est < 0 then (Inl (CostRangeError ''estimatedCents must be >= 0''), j)
      else mapLockTimeout (''cost_journal day lock timed out after 2s ''
             @ ''(SQLSTATE 55P03); BedrockClient will retry once'')
        (transaction (journal_reserve_tx e org est today) j))"

definition journal_recordCallCost :: "journal_env \<Rightarrow> uuid \<Rightarrow> int \<Rightarrow> int \<Rightarrow> string \<Rightarrow> journal_row list
    \<Rightarrow> (cost_error + unit) \<times> journal_row list" where
  "journal_recordCallCost e org cost est today j =
     (if cost < 0 then (Inl (CostRangeError ''costCents must be >= 0''), j)
      else mapLockTimeout ''cost_journal day lock timed out during recordCallCost (SQLSTATE 55P03)''
        (transaction (tx_bind (lockDay e) (\<lambda>_. journal_append e org (cost - est) today JSettle)) j))"

section \<open>The comparison with the aggregate\<close>

record cost_divergence =
  dv_scope :: string
  dv_scopeId :: uuid
  dv_aggregateCents :: int
  dv_journalCents :: int

definition map_get :: "('k \<times> int) list \<Rightarrow> 'k \<Rightarrow> int" where
  "map_get m k = (case map_of m k of None \<Rightarrow> 0 | Some v \<Rightarrow> v)"

text \<open>The GROUP BY of the journal, one entry per installation of the day.\<close>

definition journal_groups :: "string \<Rightarrow> journal_row list \<Rightarrow> (uuid \<times> int) list" where
  "journal_groups today j = map (\<lambda>org. (org, sumDay today (Some org) j))
     (remdups (map jr_installation_id (filter (\<lambda>r. jr_today r = today) j)))"

definition divergenceFromAggregate :: "string \<Rightarrow> daily_row list \<Rightarrow> journal_row list \<Rightarrow> cost_divergence list" where
  "divergenceFromAggregate today t j =
     (let agg = filter (\<lambda>r. cd_today r = today) t;
        jnl = journal_groups today j;
        journalGlobal = sum_list (map snd jnl);
        journalOrg = filter (\<lambda>x. fst x \<noteq> ZERO_UUID) jnl;
        aggregateGlobal = fold (\<lambda>r g. if cd_scope r = ''global'' then daily_total_cents r else g) agg 0;
        aggregateOrg = map (\<lambda>r. (cd_scope_id r, daily_total_cents r)) (rev (filter (\<lambda>r. cd_scope r \<noteq> ''global'') agg));
        orgIds = sort (remdups (map fst aggregateOrg @ map fst journalOrg))
      in (if aggregateGlobal = journalGlobal then []
          else [\<lparr>dv_scope = ''global'', dv_scopeId = ZERO_UUID, dv_aggregateCents = aggregateGlobal,
                  dv_journalCents = journalGlobal\<rparr>])
         @ concat (map (\<lambda>org. if map_get aggregateOrg org = map_get journalOrg org then []
             else [\<lparr>dv_scope = ''per_org'', dv_scopeId = org, dv_aggregateCents = map_get aggregateOrg org,
                     dv_journalCents = map_get journalOrg org\<rparr>]) orgIds))"

section \<open>The sums\<close>

definition jn_total :: "journal_row list \<Rightarrow> string \<Rightarrow> uuid option \<Rightarrow> int" where
  "jn_total j d k = (if k = Some ZERO_UUID then 0 else sumDay d k j)"

lemma sumDay_append: "sumDay d k (j @ j') = sumDay d k j + sumDay d k j'"
  by (simp add: sumDay_def)

lemma sumDay_Nil [simp]: "sumDay d k [] = 0"
  by (simp add: sumDay_def)

lemma sumDay_one: "sumDay d k [r] =
    (if jr_today r = d \<and> (k = None \<or> k = Some (jr_installation_id r)) then jr_amount_cents r else 0)"
  by (auto simp: sumDay_def split: option.splits)

lemma jn_total_entry:
  "jn_total (j @ [r]) = charge (jr_installation_id r) (jr_today r) (jr_amount_cents r) (jn_total j)"
  by (auto simp: fun_eq_iff jn_total_def charge_def org_keys_def sumDay_append sumDay_one)

definition jn_sim :: "journal_row list \<Rightarrow> spend \<Rightarrow> bool" where
  "jn_sim j a \<longleftrightarrow> sp_total a = jn_total j"

text \<open>A good environment: no fault, the given caps, and an id that is new.\<close>

definition jn_good :: "int \<Rightarrow> int \<Rightarrow> journal_env \<Rightarrow> cost_op \<Rightarrow> bool" where
  "jn_good gcap ocap e op \<longleftrightarrow> je_fault e = (\<lambda>_. None) \<and> je_globalCapCents e = gcap \<and> je_perOrgCapCents e = ocap
     \<and> (\<forall>j. je_newId e j \<notin> journal_id ` set j)"

lemma append_yields:
  assumes "jn_good gcap ocap e op" and "kind = JReserve \<Longrightarrow> 0 \<le> c" and "kind \<noteq> JRelease"
  shows "yields (journal_append e org c d kind) j () (j @ [journal_entry e org c d kind j])"
  using assms by (auto simp: journal_append_def jn_good_def insert_journal_def journal_check_def journal_entry_def intro!: yields_stmt)

lemma lockDay_yields: "jn_good gcap ocap e op \<Longrightarrow> yields (lockDay e) j () j"
  by (simp add: lockDay_def jn_good_def yields_def tx_bind_def stmt_def)

lemma entry_total: "jn_total (j @ [journal_entry e org c d kind j]) = charge org d c (jn_total j)"
  by (simp add: jn_total_entry) (simp add: journal_entry_def)

lemma journal_reserve_sim:
  assumes "jn_good gcap ocap e (CheckOp org est d)" and "\<forall>d k. 0 \<le> jn_total j d k" and "0 \<le> est"
  shows "transaction (journal_reserve_tx e org est d) j = (spec_decide gcap ocap org est d (jn_total j),
      if isl (spec_decide gcap ocap org est d (jn_total j)) then j else j @ [journal_entry e org est d JReserve j])"
proof -
  have caps: "je_fault e = (\<lambda>_. None)" "je_globalCapCents e = gcap" "je_perOrgCapCents e = ocap"
    using assms(1) by (simp_all add: jn_good_def)
  have lock: "lockDay e (False, j) = (Inr (), False, j)"
    using lockDay_yields [OF assms(1)] by (simp add: yields_def)
  have app: "journal_append e org est d JReserve (False, j) = (Inr (), False, j @ [journal_entry e org est d JReserve j])"
    using append_yields [OF assms(1), of JReserve est org d j] assms(3) by (simp add: yields_def)
  have "jn_total j d None = sumDay d None j" "org \<noteq> ZERO_UUID \<Longrightarrow> jn_total j d (Some org) = sumDay d (Some org) j"
    by (simp_all add: jn_total_def)
  moreover from this have "0 \<le> sumDay d None j" "org \<noteq> ZERO_UUID \<Longrightarrow> 0 \<le> sumDay d (Some org) j"
    using assms(2) by metis+
  ultimately show ?thesis
    using assms(3) caps lock app
    by (auto simp: journal_reserve_tx_def transaction_def tx_bind_def tx_return_def tx_throw_def tx_lift_def stmt_def
        spec_decide_def CostCapDecisionV1_def)
qed

interpretation jnl: cost_enforcer journal_checkOrRaise journal_recordCallCost jn_good jn_sim
proof (unfold_locales, goal_cases)
  case (1 s a gcap ocap e org est d)
  then have tot: "sp_total a = jn_total s" and nn: "\<forall>d k. 0 \<le> jn_total s d k" by (auto simp: jn_sim_def spend_ok_def)
  show ?case
  proof (cases "est < 0")
    case True
    then show ?thesis using 1(1) by (auto simp: journal_checkOrRaise_def spec_reserve_def spec_decide_def)
  next
    case False
    then show ?thesis
      using journal_reserve_sim [OF 1(3) nn] 1(1) tot
      by (cases "spec_decide gcap ocap org est d (jn_total s)")
        (auto simp: journal_checkOrRaise_def mapLockTimeout_def spec_reserve_def jn_sim_def entry_total
          spec_decide_def global_refusal_def org_refusal_def split: if_splits)
  qed
next
  case (2 s a gcap ocap e org cost est d)
  have "transaction (tx_bind (lockDay e) (\<lambda>_. journal_append e org (cost - est) d JSettle)) s
      = (Inr (), s @ [journal_entry e org (cost - est) d JSettle s])"
    by (rule yields_transaction, rule yields_bind [OF lockDay_yields [OF 2(3)]], rule append_yields [OF 2(3)]) simp_all
  then show ?case
    using 2(1) by (auto simp: journal_recordCallCost_def spec_record_def spec_settle_def jn_sim_def entry_total)
qed

section \<open>What the comparison reports\<close>

lemma fold_last: "fold (\<lambda>r g. if P r then f r else g) xs a = (case rev (filter P xs) of [] \<Rightarrow> a | y # _ \<Rightarrow> f y)"
  by (induction xs rule: rev_induct) auto

lemma sum_groups:
  "finite S \<Longrightarrow> g ` set xs \<subseteq> S \<Longrightarrow> (\<Sum>k\<in>S. sum_list (map f (filter (\<lambda>r. g r = k) xs))) = (sum_list (map f xs) :: int)"
proof (induction xs)
  case (Cons x xs)
  have "(\<Sum>k\<in>S. sum_list (map f (filter (\<lambda>r. g r = k) (x # xs))))
      = (\<Sum>k\<in>S. (if g x = k then f x else 0) + sum_list (map f (filter (\<lambda>r. g r = k) xs)))"
    by (rule sum.cong) auto
  also have "\<dots> = f x + sum_list (map f xs)"
    using Cons by (simp add: sum.distrib)
  finally show ?case by simp
qed simp

lemma map_of_rows: "map_of (map (\<lambda>r. (a r, b r)) xs) k = map_option b (first_row (filter (\<lambda>r. a r = k) xs))"
  by (induction xs) (auto simp: first_row_def)

lemma aggregate_global: "daily_wf t \<Longrightarrow>
    fold (\<lambda>r g. if cd_scope r = ''global'' then daily_total_cents r else g) (filter (\<lambda>r. cd_today r = d) t) 0 = spent t d None"
proof -
  assume "daily_wf t"
  moreover have "filter (\<lambda>r. cd_scope r = ''global'') (filter (\<lambda>r. cd_today r = d) t) = filter (key_row d None) t"
    by (simp add: global_row_def conj_commute cong: filter_cong)
  ultimately show ?thesis
    using key_rows_le_1 [of t d None] by (auto simp: fold_last spent_def daily_at_def first_row_def)
qed

lemma aggregate_org:
  fixes d :: string
  assumes "daily_wf t"
  defines "rows \<equiv> map (\<lambda>r. (cd_scope_id r, daily_total_cents r))
      (rev (filter (\<lambda>r. cd_scope r \<noteq> ''global'') (filter (\<lambda>r. cd_today r = d) t)))"
  shows "map_get rows org = spent t d (Some org)" and "ZERO_UUID \<notin> fst ` set rows"
proof -
  have "filter (\<lambda>r. cd_scope_id r = org) (filter (\<lambda>r. cd_scope r \<noteq> ''global'') (filter (\<lambda>r. cd_today r = d) t))
      = filter (key_row d (Some org)) t"
  proof (unfold filter_filter, rule filter_cong [OF refl])
    fix r assume "r \<in> set t"
    then have "daily_check r" using assms(1) by (simp add: daily_wf_def)
    then show "((cd_today r = d \<and> cd_scope r \<noteq> ''global'') \<and> cd_scope_id r = org) = key_row d (Some org) r"
      by (auto simp: daily_check_def org_row_def)
  qed
  then show "map_get rows org = spent t d (Some org)"
    using key_rows_le_1 [OF assms(1), of d "Some org"]
    by (auto simp: rows_def map_get_def map_of_rows spent_def daily_at_def first_row_def simp flip: rev_filter)
  have "cd_scope_id r \<noteq> ZERO_UUID" if "r \<in> set t" "cd_scope r \<noteq> ''global''" for r
  proof -
    have "daily_check r" using that(1) assms(1) by (simp add: daily_wf_def)
    with that(2) show ?thesis unfolding daily_check_def by blast
  qed
  then show "ZERO_UUID \<notin> fst ` set rows" by (fastforce simp: rows_def)
qed

lemma journal_global: "sum_list (map snd (journal_groups d j)) = jn_total j d None"
proof -
  let ?js = "filter (\<lambda>r. jr_today r = d) j"
  have "sum_list (map snd (journal_groups d j))
      = (\<Sum>k\<in>jr_installation_id ` set ?js. sum_list (map jr_amount_cents (filter (\<lambda>r. jr_installation_id r = k) ?js)))"
    by (simp add: journal_groups_def o_def sum_list_distinct_conv_sum_set sumDay_def conj_commute)
  also have "\<dots> = sum_list (map jr_amount_cents ?js)" by (rule sum_groups) auto
  finally show ?thesis by (simp add: jn_total_def sumDay_def)
qed

lemma journal_org:
  assumes "org \<noteq> ZERO_UUID"
  shows "map_get (filter (\<lambda>x. fst x \<noteq> ZERO_UUID) (journal_groups d j)) org = jn_total j d (Some org)"
proof -
  let ?orgs = "filter (\<lambda>x. x \<noteq> ZERO_UUID) (remdups (map jr_installation_id (filter (\<lambda>r. jr_today r = d) j)))"
  have groups: "filter (\<lambda>x. fst x \<noteq> ZERO_UUID) (journal_groups d j) = map (\<lambda>x. (x, sumDay d (Some x) j)) ?orgs"
    by (simp add: journal_groups_def filter_map o_def)
  have "filter (\<lambda>r. jr_today r = d \<and> jr_installation_id r = org) j = []" if "org \<notin> set ?orgs"
    using that assms by (auto simp: filter_empty_conv)
  then have "sumDay d (Some org) j = 0" if "org \<notin> set ?orgs" using that by (simp add: sumDay_def)
  then show ?thesis
    using assms unfolding groups map_get_def by (simp add: map_of_map_restrict restrict_map_def jn_total_def)
qed

lemma map_get_key: "map_get m org \<noteq> 0 \<Longrightarrow> org \<in> fst ` set m"
  by (auto simp: map_get_def split: option.splits dest: map_of_SomeD intro: rev_image_eqI)

definition divergence_at :: "daily_row list \<Rightarrow> journal_row list \<Rightarrow> string \<Rightarrow> uuid option \<Rightarrow> cost_divergence" where
  "divergence_at t j d k = \<lparr>dv_scope = (if k = None then ''global'' else ''per_org''),
     dv_scopeId = (case k of None \<Rightarrow> ZERO_UUID | Some org \<Rightarrow> org),
     dv_aggregateCents = spent t d k, dv_journalCents = jn_total j d k\<rparr>"

lemma set_option_blocks: "set (f None @ concat (map (\<lambda>x. f (Some x)) xs)) = (\<Union>k\<in>insert None (Some ` set xs). set (f k))"
  by auto

lemma union_blocks: "{k. a k \<noteq> b k} \<subseteq> K \<Longrightarrow> (\<Union>k\<in>K. set (if a k = b k then [] else [g k])) = g ` {k. a k \<noteq> b k}"
  by (auto split: if_splits)

lemma divergence_set:
  assumes "daily_wf t"
  shows "set (divergenceFromAggregate d t j) = divergence_at t j d ` {k. spent t d k \<noteq> jn_total j d k}"
proof -
  define agg where "agg = map (\<lambda>r. (cd_scope_id r, daily_total_cents r))
      (rev (filter (\<lambda>r. cd_scope r \<noteq> ''global'') (filter (\<lambda>r. cd_today r = d) t)))"
  define jo where "jo = filter (\<lambda>x. fst x \<noteq> ZERO_UUID) (journal_groups d j)"
  have ag: "map_get agg org = spent t d (Some org)" "ZERO_UUID \<notin> fst ` set agg" for org
    unfolding agg_def using aggregate_org [OF assms] by blast+
  have jg: "map_get jo org = jn_total j d (Some org)" if "org \<noteq> ZERO_UUID" for org
    unfolding jo_def using journal_org [OF that] .
  have zero: "ZERO_UUID \<notin> fst ` set jo" by (auto simp: jo_def)
  have ids: "org \<in> fst ` set agg \<union> fst ` set jo \<and> org \<noteq> ZERO_UUID" if "spent t d (Some org) \<noteq> jn_total j d (Some org)" for org
  proof -
    have "org \<noteq> ZERO_UUID" using that spent_platform [OF assms] by (auto simp: jn_total_def)
    moreover from this have "map_get agg org \<noteq> 0 \<or> map_get jo org \<noteq> 0" using that ag jg by auto
    ultimately show ?thesis using map_get_key [of agg org] map_get_key [of jo org] by auto
  qed
  let ?one = "\<lambda>k. if spent t d k = jn_total j d k then [] else [divergence_at t j d k]"
  let ?ids = "sort (remdups (map fst agg @ map fst jo))"
  have "divergenceFromAggregate d t j = ?one None
      @ concat (map (\<lambda>org. if map_get agg org = map_get jo org then []
          else [\<lparr>dv_scope = ''per_org'', dv_scopeId = org, dv_aggregateCents = map_get agg org,
                 dv_journalCents = map_get jo org\<rparr>]) ?ids)"
    unfolding divergenceFromAggregate_def Let_def aggregate_global [OF assms] journal_global agg_def jo_def divergence_at_def
    by simp
  also have "\<dots> = ?one None @ concat (map (\<lambda>org. ?one (Some org)) ?ids)"
  proof -
    have "(if map_get agg org = map_get jo org then []
          else [\<lparr>dv_scope = ''per_org'', dv_scopeId = org, dv_aggregateCents = map_get agg org,
                 dv_journalCents = map_get jo org\<rparr>]) = ?one (Some org)" if "org \<in> set ?ids" for org
    proof -
      have "org \<noteq> ZERO_UUID" using that ag(2) zero by auto
      then show ?thesis using ag(1) jg by (simp add: divergence_at_def)
    qed
    then show ?thesis by (intro arg_cong2 [where f = append] arg_cong [where f = concat] map_cong refl)
  qed
  finally have eq: "divergenceFromAggregate d t j = ?one None @ concat (map (\<lambda>org. ?one (Some org)) ?ids)" .
  have "set (divergenceFromAggregate d t j) = (\<Union>k\<in>insert None (Some ` set ?ids). set (?one k))"
    unfolding eq by (rule set_option_blocks)
  also have "\<dots> = divergence_at t j d ` {k. spent t d k \<noteq> jn_total j d k}"
  proof -
    have mem: "k \<in> insert None (Some ` set ?ids)" if "spent t d k \<noteq> jn_total j d k" for k
      using that ids by (cases k) auto
    show ?thesis by (rule union_blocks) (use mem in blast)
  qed
  finally show ?thesis .
qed

section \<open>Aggregate and journal agree\<close>

definition no_spend :: spend where
  "no_spend = \<lparr>sp_total = (\<lambda>_ _. 0), sp_open = (\<lambda>_ _. False)\<rparr>"

text \<open>(C32) From empty tables, any sequence of cap checks and covered settles gets the same answers from
  the aggregate enforcer and from the deciding path of the journal, with the same caps and no fault,
  and afterwards the comparison of the two accountings reports nothing on any day.\<close>

theorem cost_parity:
  assumes "\<forall>(ea, ej, op)\<in>set calls. agg_good gcap ocap ea op \<and> jn_good gcap ocap ej op"
    and "covered gcap ocap (map (\<lambda>(_, _, op). op) calls) no_spend"
  shows "case (cost_run checkOrRaise recordCallCost (map (\<lambda>(ea, _, op). (ea, op)) calls) [],
          cost_run journal_checkOrRaise journal_recordCallCost (map (\<lambda>(_, ej, op). (ej, op)) calls) []) of
      ((answers, t), (answers', j)) \<Rightarrow> answers = answers' \<and> (\<forall>d. divergenceFromAggregate d t j = [])"
proof -
  let ?as = "map (\<lambda>(ea, _, op). (ea, op)) calls" and ?js = "map (\<lambda>(_, ej, op). (ej, op)) calls"
  let ?ops = "map (\<lambda>(_, _, op). op) calls"
  have ops: "map snd ?as = ?ops" "map snd ?js = ?ops" by (auto simp: case_prod_beta)
  have good: "\<forall>(e, op)\<in>set ?as. agg_good gcap ocap e op" "\<forall>(e, op)\<in>set ?js. jn_good gcap ocap e op"
    using assms(1) by fastforce+
  have start: "agg_sim [] no_spend" "jn_sim [] no_spend" "spend_ok no_spend"
    by (auto simp: agg_sim_def jn_sim_def no_spend_def spend_ok_def daily_wf_def spent_def daily_at_def first_row_def
        jn_total_def fun_eq_iff)
  have "fst (cost_run checkOrRaise recordCallCost ?as []) = fst (spec_run gcap ocap ?ops no_spend)
      \<and> agg_sim (snd (cost_run checkOrRaise recordCallCost ?as [])) (snd (spec_run gcap ocap ?ops no_spend))"
    using agg.run_sim [OF start(1,3), of ?as gcap ocap] good assms(2) unfolding ops by blast
  moreover have "fst (cost_run journal_checkOrRaise journal_recordCallCost ?js []) = fst (spec_run gcap ocap ?ops no_spend)
      \<and> jn_sim (snd (cost_run journal_checkOrRaise journal_recordCallCost ?js [])) (snd (spec_run gcap ocap ?ops no_spend))"
    using jnl.run_sim [OF start(2,3), of ?js gcap ocap] good assms(2) unfolding ops by blast
  moreover have "divergenceFromAggregate d t j = []" if "agg_sim t a" "jn_sim j a" for t j a d
  proof -
    have "set (divergenceFromAggregate d t j) = {}"
      using that divergence_set [of t d j] by (simp add: agg_sim_def jn_sim_def)
    then show ?thesis by simp
  qed
  ultimately show ?thesis by (auto simp: case_prod_beta simp del: map_map)
qed

definition fresh_id :: "journal_row list \<Rightarrow> uuid" where
  "fresh_id j = replicate (Suc (sum_list (map (length \<circ> journal_id) j))) CHR ''a''"

lemma fresh_id_new: "fresh_id j \<notin> journal_id ` set j"
proof
  assume "fresh_id j \<in> journal_id ` set j"
  then obtain r where "r \<in> set j" "journal_id r = fresh_id j" by auto
  then have "length (fresh_id j) \<in> set (map (length \<circ> journal_id) j)" by (simp add: rev_image_eqI)
  then have "length (fresh_id j) \<le> sum_list (map (length \<circ> journal_id) j)" by (rule member_le_sum_list) simp
  then show False by (simp add: fresh_id_def)
qed

definition demo_journal_env :: "string \<Rightarrow> journal_env" where
  "demo_journal_env c = \<lparr>je_callId = c, je_globalCapCents = 500, je_perOrgCapCents = 100, je_clock = 1000,
     je_newId = fresh_id, je_fault = (\<lambda>_. None)\<rparr>"

definition demo_agg_env :: cost_env where
  "demo_agg_env = demo_cost\<lparr>ce_readCapsFromDb := False\<rparr>"

definition demo_calls :: "(cost_env \<times> journal_env \<times> cost_op) list" where
  "demo_calls =
     [(demo_agg_env, demo_journal_env ''c1'', CheckOp ''org'' 60 ''2026-01-02''),
      (demo_agg_env, demo_journal_env ''c2'', CheckOp ''org'' 60 ''2026-01-02''),
      (demo_agg_env, demo_journal_env ''c1'', RecordOp ''org'' 20 60 ''2026-01-02''),
      (demo_agg_env, demo_journal_env ''c3'', CheckOp ZERO_UUID 60 ''2026-01-02'')]"

theorem cost_parity_witness:
  "case (cost_run checkOrRaise recordCallCost (map (\<lambda>(ea, _, op). (ea, op)) demo_calls) [],
          cost_run journal_checkOrRaise journal_recordCallCost (map (\<lambda>(_, ej, op). (ej, op)) demo_calls) []) of
      ((answers, t), (answers', j)) \<Rightarrow> answers = answers' \<and> (\<forall>d. divergenceFromAggregate d t j = [])"
proof (rule cost_parity [where gcap = 500 and ocap = 100])
  show "\<forall>(ea, ej, op)\<in>set demo_calls. agg_good 500 100 ea op \<and> jn_good 500 100 ej op"
    by (simp add: demo_calls_def agg_good_def jn_good_def demo_agg_env_def demo_cost_def demo_journal_env_def quiet_cost_def
        effective_cap_def fresh_id_new)
  show "covered 500 100 (map (\<lambda>(_, _, op). op) demo_calls) no_spend"
    by (simp add: demo_calls_def no_spend_def spec_reserve_def spec_decide_def charge_def org_keys_def ZERO_UUID_def
        spec_settle_ok_def spec_settle_def)
qed

text \<open>The comparison reports exactly the keys whose totals differ, with both totals: an empty
  report means that aggregate and journal agree on the day.\<close>

theorem divergence_complete:
  assumes "daily_wf t"
  shows "set (divergenceFromAggregate d t j) =
      {\<lparr>dv_scope = (if k = None then ''global'' else ''per_org''),
        dv_scopeId = (case k of None \<Rightarrow> ZERO_UUID | Some org \<Rightarrow> org),
        dv_aggregateCents = spent t d k, dv_journalCents = jn_total j d k\<rparr> | k. spent t d k \<noteq> jn_total j d k}"
  unfolding divergence_set [OF assms] divergence_at_def by (rule image_Collect)

theorem divergence_complete_witness:
  "\<lparr>dv_scope = ''per_org'', dv_scopeId = ''org'', dv_aggregateCents = 70, dv_journalCents = 0\<rparr>
     \<in> set (divergenceFromAggregate ''2026-01-02'' demo_daily [])"
  unfolding divergence_complete [OF demo_cost_ok(2)]
  by (rule CollectI, rule exI [of _ "Some ''org''"]) (simp add: demo_cost_simps jn_total_def)

end
