(* ===== verification/Cost_Window.thy ===== *)
theory Cost_Window
  imports Retry
begin

text \<open>
  The reconcile window of \<^verbatim>\<open>cost/cost_journal_reconciler.ts\<close>: the worst-case wall time of one retry
  envelope, derived from the retry policy of the paid call, and that the retry loop of
  \<^verbatim>\<open>run_with_retry.ts\<close> stays within it. Seconds are rationals.
\<close>

section \<open>The window\<close>

definition RETRY_ENVELOPE_JITTER_MAX :: rat where "RETRY_ENVELOPE_JITTER_MAX = 5 / 4"

text \<open>The pattern \<^verbatim>\<open>/^(\d+(?:\.\d+)?)s$/\<close>; \<open>None\<close> is the thrown error.\<close>

definition parseSecondsStrict :: "string \<Rightarrow> rat option" where
  "parseSecondsStrict d =
     (let whole = takeWhile is_digit d; r1 = dropWhile is_digit d;
        fr = (case r1 of [] \<Rightarrow> [] | c # r \<Rightarrow> if c = CHR ''.'' then takeWhile is_digit r else []);
        r2 = (if fr = [] then r1 else dropWhile is_digit (tl r1))
      in if whole = [] \<or> r2 \<noteq> ''s'' then None else Some (decimal_value whole fr))"

datatype envelope_error = NoEnvelope | BadDuration string | BadAttempts nat | NoInitialInterval

definition parse_seconds :: "string \<Rightarrow> envelope_error + rat" where
  "parse_seconds d = (case parseSecondsStrict d of None \<Rightarrow> Inl (BadDuration d) | Some s \<Rightarrow> Inr s)"

text \<open>The loop over the gaps; \<open>None\<close> is the infinite cap.\<close>

fun envelope_sleep :: "nat \<Rightarrow> rat \<Rightarrow> rat option \<Rightarrow> rat \<Rightarrow> rat" where
  "envelope_sleep 0 interval cap backoff = 0"
| "envelope_sleep (Suc n) interval cap backoff =
     (case cap of None \<Rightarrow> interval | Some c \<Rightarrow> min interval c) + envelope_sleep n (interval * backoff) cap backoff"

definition worstCaseWallTimeSeconds :: "retry_options \<Rightarrow> envelope_error + rat" where
  "worstCaseWallTimeSeconds policy =
     (case o_startToCloseTimeout policy of
        None \<Rightarrow> Inl NoEnvelope
      | Some stc \<Rightarrow>
     (case parse_seconds stc of
        Inl e \<Rightarrow> Inl e
      | Inr startToCloseS \<Rightarrow>
     (let attempts = (case o_maximumAttempts policy of None \<Rightarrow> 1 | Some n \<Rightarrow> n) in
      if attempts < 1 then Inl (BadAttempts attempts)
      else if attempts = 1 then Inr startToCloseS
      else (case o_initialInterval policy of
              None \<Rightarrow> Inl NoInitialInterval
            | Some i \<Rightarrow>
           (case parse_seconds i of
              Inl e \<Rightarrow> Inl e
            | Inr initialS \<Rightarrow>
           (case (case o_maximumInterval policy of None \<Rightarrow> Inr None | Some m \<Rightarrow> map_sum id Some (parse_seconds m)) of
              Inl e \<Rightarrow> Inl e
            | Inr maxIntervalS \<Rightarrow>
                Inr (of_nat attempts * startToCloseS
                  + envelope_sleep (attempts - 1) initialS maxIntervalS
                      (case o_backoffCoefficient policy of None \<Rightarrow> 2 | Some b \<Rightarrow> b) * RETRY_ENVELOPE_JITTER_MAX)))))))"

definition reviewChunk_policy :: retry_options where
  "reviewChunk_policy = \<lparr>o_startToCloseTimeout = Some ''90s'', o_maximumAttempts = Some 4,
     o_initialInterval = Some ''5s'', o_maximumInterval = Some ''60s'', o_backoffCoefficient = Some 2,
     o_nonRetryableErrorTypes = [''BedrockBudgetExceededError'', ''BedrockOutputUnsafeError'', ''BedrockInvalidRequestError'']\<rparr>"

definition RECONCILE_WINDOW_SECONDS :: rat where
  "RECONCILE_WINDOW_SECONDS = (case worstCaseWallTimeSeconds reviewChunk_policy of
     Inr w \<Rightarrow> of_int \<lceil>2 * w\<rceil> | Inl _ \<Rightarrow> 0)"

section \<open>The envelope bounds the retries\<close>

lemma parseSecondsStrict_temporal:
  assumes "parseSecondsStrict d = Some v"
  shows "parseTemporalDuration d = Some v"
proof -
  define whole where "whole = takeWhile is_digit d"
  define r1 where "r1 = dropWhile is_digit d"
  define fr where "fr = (case r1 of [] \<Rightarrow> [] | c # r \<Rightarrow> if c = CHR ''.'' then takeWhile is_digit r else [])"
  define r2 where "r2 = (if fr = [] then r1 else dropWhile is_digit (tl r1))"
  have v: "whole \<noteq> []" "r2 = ''s''" "v = decimal_value whole fr"
    using assms by (auto simp: parseSecondsStrict_def Let_def simp flip: r1_def whole_def fr_def r2_def split: if_splits)
  have "last d = CHR ''s''"
  proof -
    have d: "d = whole @ r1" by (simp add: whole_def r1_def)
    have "\<exists>ys. r1 = ys @ ''s''"
    proof (cases "fr = []")
      case False
      then obtain c r where "r1 = c # r" by (auto simp: fr_def split: list.splits)
      then have "r1 = (c # takeWhile is_digit r) @ r2" using False by (simp add: r2_def)
      then show ?thesis using v(2) by metis
    qed (use v(2) r2_def in auto)
    then show ?thesis using d by auto
  qed
  moreover have "is_digit (hd d)" "d \<noteq> []"
    using v(1) by (auto simp: whole_def takeWhile_eq_Nil_iff)
  moreover have "\<not> is_space c" if "is_digit c \<or> c = CHR ''s''" for c
    using that by (auto simp: is_space_def is_digit_def less_eq_char_def)
  ultimately have "dropWhile is_space d = d" "dropWhile is_space (rev d) = rev d"
    by (metis dropWhile_eq_self_iff, metis dropWhile_eq_self_iff hd_rev)
  then have "trim d = d" by (simp add: trim_def)
  then have "parseTemporalDuration d = (if whole = [] then None
      else map_option (\<lambda>u. decimal_value whole fr * u) (unit_seconds (dropWhile is_space r2)))"
    by (simp only: parseTemporalDuration_def Let_def whole_def r1_def fr_def r2_def)
  then show ?thesis using v by (simp add: unit_seconds_def is_space_def less_eq_char_def)
qed

lemma retry_loop_sleeps:
  "attempt + k = Suc (p_maxAttempts p) \<Longrightarrow>
     length (rr_sleeps (retry_loop p env k attempt interval le ds ss)) \<le> length ss + (k - 1)"
proof (induction k arbitrary: attempt interval le ds ss)
  case (Suc k)
  show ?case
  proof (cases k)
    case 0
    with Suc.prems have "attempt = p_maxAttempts p" by simp
    then show ?thesis by (simp add: Let_def split: attempt_result.splits)
  next
    case (Suc k')
    have "length (rr_sleeps (retry_loop p env k (Suc attempt) i l d (ss @ [x]))) \<le> length ss + k" for i l d x
      using Suc.IH [of "Suc attempt" i l d "ss @ [x]"] Suc.prems Suc by simp
    then show ?thesis by (simp add: Let_def split: attempt_result.splits)
  qed
qed simp

lemma envelope_sleep_bound:
  assumes "0 \<le> p_backoff p" and "\<And>k. 0 \<le> retry_interval p k"
    and "\<And>c k. cap = Some c \<Longrightarrow> retry_interval p k \<le> c" and "retry_interval p m \<le> i"
  shows "(\<Sum>k<n. retry_interval p (m + k)) \<le> envelope_sleep n i cap (p_backoff p)"
  using assms(4)
proof (induction n arbitrary: m i)
  case (Suc n)
  have "retry_interval p (Suc m) \<le> retry_interval p m * p_backoff p" by simp
  also have "\<dots> \<le> i * p_backoff p" using Suc.prems assms(1) by (rule mult_right_mono)
  finally have "(\<Sum>k<n. retry_interval p (Suc m + k)) \<le> envelope_sleep n (i * p_backoff p) cap (p_backoff p)"
    by (rule Suc.IH)
  moreover have "retry_interval p m \<le> (case cap of None \<Rightarrow> i | Some c \<Rightarrow> min i c)"
    using Suc.prems assms(3) by (auto split: option.splits)
  ultimately show ?case by (simp add: sum.lessThan_Suc_shift del: sum.lessThan_Suc)
qed simp

lemma runWithRetry_wall:
  assumes "0 \<le> p_startToCloseS p" and "1 \<le> p_maxAttempts p" and "0 \<le> p_backoff p"
    and "0 \<le> p_initialIntervalS p" and "p_initialIntervalS p \<le> p_maxIntervalS p"
    and "\<forall>i. re_jitter env i \<le> RETRY_ENVELOPE_JITTER_MAX"
    and "\<And>c. cap = Some c \<Longrightarrow> p_maxIntervalS p \<le> c"
  shows "sum_list (rr_sleeps (runWithRetry p env)) + of_nat (length (rr_dispatched (runWithRetry p env))) * p_startToCloseS p
    \<le> of_nat (p_maxAttempts p) * p_startToCloseS p
      + envelope_sleep (p_maxAttempts p - 1) (p_initialIntervalS p) cap (p_backoff p) * RETRY_ENVELOPE_JITTER_MAX"
proof -
  let ?n = "p_maxAttempts p" and ?J = RETRY_ENVELOPE_JITTER_MAX
  have nn: "0 \<le> retry_interval p k" and le: "retry_interval p k \<le> p_maxIntervalS p" for k
    using retry_interval_nonneg [of p k] retry_interval_le [of p k] assms(3-5) by auto
  have J: "0 \<le> ?J" by (simp add: RETRY_ENVELOPE_JITTER_MAX_def)
  obtain d s where d: "d \<le> ?n" "rr_dispatched (runWithRetry p env) = [1..<Suc d]"
      and s: "rr_sleeps (runWithRetry p env) = retry_sleeps p env s"
    using runWithRetry_good [of p env] by (auto simp: retry_good_def)
  have "length (rr_sleeps (runWithRetry p env)) \<le> ?n - 1"
    using retry_loop_sleeps [of 1 ?n p env "p_initialIntervalS p" None "[]" "[]"] by (simp add: runWithRetry_def)
  then have sn: "s \<le> ?n - 1" by (simp add: s retry_sleeps_def)
  have "sum_list (rr_sleeps (runWithRetry p env)) = (\<Sum>k<s. retry_interval p k * re_jitter env (Suc k))"
    by (simp add: s retry_sleeps_def backoff_sleep_def interv_sum_list_conv_sum_set_nat atLeast0LessThan)
  also have "\<dots> \<le> (\<Sum>k<s. retry_interval p k * ?J)"
    using assms(6) nn by (intro sum_mono mult_left_mono) auto
  also have "\<dots> \<le> (\<Sum>k<?n - 1. retry_interval p k * ?J)"
    using sn nn J by (intro sum_mono2) auto
  also have "\<dots> = (\<Sum>k<?n - 1. retry_interval p (0 + k)) * ?J" by (simp add: sum_distrib_right)
  also have "\<dots> \<le> envelope_sleep (?n - 1) (p_initialIntervalS p) cap (p_backoff p) * ?J"
  proof (rule mult_right_mono [OF _ J], rule envelope_sleep_bound [OF assms(3) nn])
    show "retry_interval p k \<le> c" if "cap = Some c" for c k using assms(7) [OF that] le [of k] by simp
  qed simp
  finally have "sum_list (rr_sleeps (runWithRetry p env))
      \<le> envelope_sleep (?n - 1) (p_initialIntervalS p) cap (p_backoff p) * ?J" .
  moreover have "of_nat (length (rr_dispatched (runWithRetry p env))) * p_startToCloseS p \<le> of_nat ?n * p_startToCloseS p"
    using d assms(1) by (intro mult_right_mono) (simp_all del: upt_Suc)
  ultimately show ?thesis by linarith
qed

lemma parseTemporalDuration_nonneg: "parseTemporalDuration d = Some v \<Longrightarrow> 0 \<le> v"
  by (auto simp: parseTemporalDuration_def Let_def unit_seconds_def decimal_value_def split: if_splits)

lemma duration_or_nonneg: "0 \<le> x \<Longrightarrow> duration_or x d = Inr v \<Longrightarrow> 0 \<le> v"
  by (auto simp: duration_or_def parseTemporalDuration_nonneg split: option.splits)

lemma parse_seconds_Inr: "parse_seconds d = Inr v \<longleftrightarrow> parseSecondsStrict d = Some v"
  by (simp add: parse_seconds_def split: option.splits)

text \<open>What a parsed policy and its envelope agree on.\<close>

lemma toRetryPolicy_Inr:
  assumes "toRetryPolicy opts = Inr p"
  obtains stc where "o_startToCloseTimeout opts = Some stc" "parseTemporalDuration stc = Some (p_startToCloseS p)"
    "o_maximumAttempts opts = Some (p_maxAttempts p)"
    "duration_or SDK_DEFAULT_INITIAL_INTERVAL_S (o_initialInterval opts) = Inr (p_initialIntervalS p)"
    "duration_or (p_initialIntervalS p * SDK_DEFAULT_MAX_INTERVAL_FACTOR) (o_maximumInterval opts) = Inr (p_maxIntervalS p)"
    "p_backoff p = (case o_backoffCoefficient opts of None \<Rightarrow> 2 | Some b \<Rightarrow> b)"
  using assms
  by (auto simp: toRetryPolicy_def SDK_DEFAULT_BACKOFF_COEFFICIENT_def split: option.splits sum.splits intro!: that)

lemma worstCase_Inr:
  assumes "worstCaseWallTimeSeconds opts = Inr w" and "toRetryPolicy opts = Inr p"
  obtains cap where "1 \<le> p_maxAttempts p" "\<forall>c. cap = Some c \<longrightarrow> p_maxIntervalS p = c"
    "w = of_nat (p_maxAttempts p) * p_startToCloseS p
      + envelope_sleep (p_maxAttempts p - 1) (p_initialIntervalS p) cap (p_backoff p) * RETRY_ENVELOPE_JITTER_MAX"
proof -
  obtain stc where p: "o_startToCloseTimeout opts = Some stc" "parseTemporalDuration stc = Some (p_startToCloseS p)"
    "o_maximumAttempts opts = Some (p_maxAttempts p)"
    "duration_or SDK_DEFAULT_INITIAL_INTERVAL_S (o_initialInterval opts) = Inr (p_initialIntervalS p)"
    "duration_or (p_initialIntervalS p * SDK_DEFAULT_MAX_INTERVAL_FACTOR) (o_maximumInterval opts) = Inr (p_maxIntervalS p)"
    "p_backoff p = (case o_backoffCoefficient opts of None \<Rightarrow> 2 | Some b \<Rightarrow> b)"
    using toRetryPolicy_Inr [OF assms(2)] .
  have stc: "parseSecondsStrict stc = Some (p_startToCloseS p)" and n: "1 \<le> p_maxAttempts p"
    using assms(1) p(1,2,3) parseSecondsStrict_temporal
    by (auto simp: worstCaseWallTimeSeconds_def parse_seconds_def Let_def split: option.splits if_splits)
  show thesis
  proof (cases "p_maxAttempts p = 1")
    case True
    then have "w = p_startToCloseS p" using assms(1) p(1,3) stc by (simp add: worstCaseWallTimeSeconds_def parse_seconds_def)
    then show thesis using that [of None] True by simp
  next
    case False
    with n have "\<not> p_maxAttempts p < 1" by simp
    with False obtain i initial cap where i: "o_initialInterval opts = Some i" "parseSecondsStrict i = Some initial"
        and cap: "(case o_maximumInterval opts of None \<Rightarrow> Inr None | Some m \<Rightarrow> map_sum id Some (parse_seconds m)) = (Inr cap :: envelope_error + rat option)"
        and w: "w = of_nat (p_maxAttempts p) * p_startToCloseS p
            + envelope_sleep (p_maxAttempts p - 1) initial cap (p_backoff p) * RETRY_ENVELOPE_JITTER_MAX"
      using assms(1) p(1,3,6) stc
      by (auto simp: worstCaseWallTimeSeconds_def parse_seconds_Inr Let_def split: option.splits sum.splits)
    have "initial = p_initialIntervalS p"
      using p(4) i parseSecondsStrict_temporal [OF i(2)] by (simp add: duration_or_def)
    moreover have "p_maxIntervalS p = c" if "cap = Some c" for c
    proof -
      from cap that obtain m where m: "o_maximumInterval opts = Some m" "parseSecondsStrict m = Some c"
        by (auto simp: parse_seconds_def split: option.splits)
      then show ?thesis using p(5) parseSecondsStrict_temporal [OF m(2)] by (simp add: duration_or_def)
    qed
    ultimately show thesis using that n w by blast
  qed
qed

lemma shipped_window: "RECONCILE_WINDOW_SECONDS = 808"
  by (simp add: RECONCILE_WINDOW_SECONDS_def worstCaseWallTimeSeconds_def reviewChunk_policy_def parse_seconds_def
      parseSecondsStrict_def is_digit_def less_eq_char_def decimal_value_def number_of_def digit_val_def
      RETRY_ENVELOPE_JITTER_MAX_def numeral_eq_Suc ceiling_eq_iff)

section \<open>Properties of the window\<close>

text \<open>The derived envelope is an upper bound: whatever the attempts of a paid call do, the retry
  loop's sleeps and its attempts, each at its full timeout, take no longer than
  \<open>worstCaseWallTimeSeconds\<close> of the same policy.\<close>

theorem worst_case_covers_retry:
  assumes "toRetryPolicy opts = Inr p" and "worstCaseWallTimeSeconds opts = Inr w"
    and "p_initialIntervalS p \<le> p_maxIntervalS p" and "0 \<le> p_backoff p"
    and "\<forall>i. re_jitter env i \<le> RETRY_ENVELOPE_JITTER_MAX"
  shows "sum_list (rr_sleeps (runWithRetry p env))
      + of_nat (length (rr_dispatched (runWithRetry p env))) * p_startToCloseS p \<le> w"
proof -
  obtain stc where "parseTemporalDuration stc = Some (p_startToCloseS p)"
      "duration_or SDK_DEFAULT_INITIAL_INTERVAL_S (o_initialInterval opts) = Inr (p_initialIntervalS p)"
    using toRetryPolicy_Inr [OF assms(1)] .
  then have nn: "0 \<le> p_startToCloseS p" "0 \<le> p_initialIntervalS p"
    using parseTemporalDuration_nonneg duration_or_nonneg [of SDK_DEFAULT_INITIAL_INTERVAL_S]
    by (auto simp: SDK_DEFAULT_INITIAL_INTERVAL_S_def)
  obtain cap where cap: "1 \<le> p_maxAttempts p" "\<forall>c. cap = Some c \<longrightarrow> p_maxIntervalS p = c"
    and w: "w = of_nat (p_maxAttempts p) * p_startToCloseS p
      + envelope_sleep (p_maxAttempts p - 1) (p_initialIntervalS p) cap (p_backoff p) * RETRY_ENVELOPE_JITTER_MAX"
    using worstCase_Inr [OF assms(2,1)] .
  show ?thesis
    unfolding w using cap(2) by (intro runWithRetry_wall nn cap(1) assms) simp
qed

definition demo_retry :: "nat retry_env" where
  "demo_retry = demo_env\<lparr>re_jitter := (\<lambda>_. 5 / 4), re_result := (\<lambda>_. ATimeout)\<rparr>"

definition demo_chunk :: retry_policy where
  "demo_chunk = \<lparr>p_startToCloseS = 90, p_initialIntervalS = 5, p_maxIntervalS = 60, p_backoff = 2, p_maxAttempts = 4,
     p_declared = [''LlmOutputUnsafeError'', ''BedrockBudgetExceededError'', ''BedrockOutputUnsafeError'', ''BedrockInvalidRequestError'']\<rparr>"

lemmas duration_simps = reviewChunk_policy_def parse_seconds_def parseSecondsStrict_def is_digit_def less_eq_char_def
  decimal_value_def number_of_def digit_val_def RETRY_ENVELOPE_JITTER_MAX_def numeral_eq_Suc

lemma demo_chunk_policy: "toRetryPolicy reviewChunk_policy = Inr demo_chunk"
  by (simp add: toRetryPolicy_def duration_simps demo_chunk_def duration_or_def parseTemporalDuration_def trim_def is_space_def
      unit_seconds_def Let_def)

theorem worst_case_covers_retry_witness:
  "sum_list (rr_sleeps (runWithRetry demo_chunk demo_retry))
      + of_nat (length (rr_dispatched (runWithRetry demo_chunk demo_retry))) * 90 \<le> (1615 / 4 :: rat)"
proof -
  have "worstCaseWallTimeSeconds reviewChunk_policy = Inr (1615 / 4)"
    by (simp add: worstCaseWallTimeSeconds_def duration_simps)
  from worst_case_covers_retry [OF demo_chunk_policy this, of demo_retry] show ?thesis
    by (simp add: demo_chunk_def demo_retry_def RETRY_ENVELOPE_JITTER_MAX_def)
qed

end
