(* ===== verification/Cost_Reconciler.thy ===== *)
theory Cost_Reconciler
  imports Cost_Journal Cost_Window
begin

text \<open>
  The healing pass of \<^verbatim>\<open>cost/cost_journal_reconciler.ts\<close>: the single \<^verbatim>\<open>INSERT \<dots> SELECT\<close> that appends a
  release for each orphaned reserve. The new rows are listed call by call, in the order in which the
  calls first appear; the ids the database draws are the argument \<open>gen\<close>.
\<close>

section \<open>The healing pass\<close>

definition is_reserve :: "string \<Rightarrow> journal_row \<Rightarrow> bool" where
  "is_reserve c r \<longleftrightarrow> jr_call_id r = c \<and> jr_entry_kind r = JReserve"

definition is_closer :: "string \<Rightarrow> journal_row \<Rightarrow> bool" where
  "is_closer c r \<longleftrightarrow> jr_call_id r = c \<and> jr_entry_kind r \<noteq> JReserve"

text \<open>The CTE \<^verbatim>\<open>open_calls\<close> with its \<^verbatim>\<open>HAVING\<close>.\<close>

definition n_open :: "journal_row list \<Rightarrow> string \<Rightarrow> nat" where
  "n_open j c = hits (is_reserve c) j - hits (is_closer c) j"

definition open_calls :: "db_time \<Rightarrow> journal_row list \<Rightarrow> string list" where
  "open_calls cutoff j = filter (\<lambda>c. hits (is_closer c) j < hits (is_reserve c) j
       \<and> (\<forall>r\<in>set j. is_reserve c r \<longrightarrow> jr_created_at r < cutoff)) (remdups (map jr_call_id j))"

text \<open>The CTE \<^verbatim>\<open>candidates\<close>, cut at \<^verbatim>\<open>rn <= n_open\<close>.\<close>

definition is_closed :: "journal_row list \<Rightarrow> journal_row \<Rightarrow> bool" where
  "is_closed j r \<longleftrightarrow> (\<exists>x\<in>set j. jr_closes_journal_id x = Some (journal_id r))"

definition orphans :: "journal_row list \<Rightarrow> string \<Rightarrow> journal_row list" where
  "orphans j c = take (n_open j c) (order_by (\<lambda>r. (jr_created_at r, journal_id r))
     (filter (\<lambda>r. is_reserve c r \<and> \<not> is_closed j r) j))"

definition release_of :: "db_time \<Rightarrow> uuid \<Rightarrow> journal_row \<Rightarrow> journal_row" where
  "release_of now newId r = \<lparr>journal_id = newId, jr_call_id = jr_call_id r, jr_installation_id = jr_installation_id r,
     jr_today = jr_today r, jr_entry_kind = JRelease, jr_amount_cents = - jr_amount_cents r,
     jr_closes_journal_id = Some (journal_id r), jr_created_at = now\<rparr>"

text \<open>Insertion one by one with \<^verbatim>\<open>ON CONFLICT (closes_journal_id) DO NOTHING\<close>; the count is the number
  of rows written.\<close>

fun insert_releases :: "(nat \<Rightarrow> uuid) \<Rightarrow> db_time \<Rightarrow> journal_row list \<Rightarrow> journal_row list \<Rightarrow> string + nat \<times> journal_row list" where
  "insert_releases gen now [] j = Inr (0, j)"
| "insert_releases gen now (r # rs) j =
     (if is_closed j r then insert_releases gen now rs j
      else (case insert_journal (release_of now (gen (length j)) r) j of
              Inl code \<Rightarrow> Inl code
            | Inr (_, j') \<Rightarrow> (case insert_releases gen now rs j' of
                Inl code \<Rightarrow> Inl code | Inr (n, j'') \<Rightarrow> Inr (Suc n, j''))))"

text \<open>The default of \<open>olderThanSeconds\<close> is \<open>RECONCILE_WINDOW_SECONDS\<close>.\<close>

definition releaseOrphanedReserves :: "(nat \<Rightarrow> uuid) \<Rightarrow> js_date \<Rightarrow> rat \<Rightarrow> journal_row list
    \<Rightarrow> (cost_error + nat) \<times> journal_row list" where
  "releaseOrphanedReserves gen now olderThanSeconds j =
     (if olderThanSeconds \<le> 0
      then (Inl (CostRangeError ''olderThanSeconds must be > 0 (a non-positive window would release live reserves)''), j)
      else
        (let cutoff = of_date (to_date (of_int now - olderThanSeconds * 1000)) in
         case insert_releases gen (of_date now) (concat (map (orphans j) (open_calls cutoff j))) j of
           Inl code \<Rightarrow> (Inl (CostDbError code), j)
         | Inr (n, j') \<Rightarrow> (Inr n, j')))"

section \<open>The journal invariant\<close>

text \<open>Ids are unique, the CHECKs hold, every release closes a reserve of its call, and no reserve is
  closed twice.\<close>

definition closes_ok :: "journal_row list \<Rightarrow> journal_row \<Rightarrow> bool" where
  "closes_ok j x \<longleftrightarrow> jr_entry_kind x = JRelease
     \<longrightarrow> (\<exists>r\<in>set j. is_reserve (jr_call_id x) r \<and> jr_closes_journal_id x = Some (journal_id r))"

definition journal_wf :: "journal_row list \<Rightarrow> bool" where
  "journal_wf j \<longleftrightarrow> distinct (map journal_id j) \<and> (\<forall>x\<in>set j. journal_check x \<and> closes_ok j x)
     \<and> distinct (map jr_closes_journal_id (filter (\<lambda>x. jr_entry_kind x = JRelease) j))"

lemma closes_ok_append: "closes_ok j x \<Longrightarrow> closes_ok (j @ j') x"
  by (auto simp: closes_ok_def)

lemma insert_journal_Inr: "insert_journal r j = Inr (u, j') \<longleftrightarrow>
    j' = j @ [r] \<and> journal_check r \<and> journal_id r \<notin> journal_id ` set j"
  by (auto simp: insert_journal_def)

lemma journal_wf_append:
  assumes "journal_wf j" and "insert_journal r j = Inr (u, j')" and "jr_entry_kind r \<noteq> JRelease"
  shows "journal_wf j'"
  using assms by (auto simp: insert_journal_Inr journal_wf_def closes_ok_append) (simp add: closes_ok_def)

lemma journal_wf_release:
  assumes "journal_wf j" and "insert_journal (release_of now i r) j = Inr (u, j')"
    and "r \<in> set j" and "is_reserve (jr_call_id r) r" and "\<not> is_closed j r"
  shows "journal_wf j'"
proof -
  have "Some (journal_id r) \<notin> jr_closes_journal_id ` set j"
    using assms(5) by (auto simp: is_closed_def)
  moreover have "closes_ok (j @ [release_of now i r]) (release_of now i r)"
    using assms(3,4) by (auto simp: closes_ok_def release_of_def)
  ultimately show ?thesis
    using assms(1,2) by (auto simp: insert_journal_Inr journal_wf_def closes_ok_append) (auto simp: release_of_def)
qed

lemma insert_releases_wf:
  assumes "journal_wf j" and "insert_releases gen now rs j = Inr (n, j')"
    and "\<forall>r\<in>set rs. r \<in> set j \<and> is_reserve (jr_call_id r) r"
  shows "journal_wf j'"
  using assms
proof (induction rs arbitrary: j n)
  case (Cons r rs)
  show ?case
  proof (cases "is_closed j r")
    case True
    then show ?thesis using Cons by auto
  next
    case False
    then obtain u j1 n1 where ins: "insert_journal (release_of now (gen (length j)) r) j = Inr (u, j1)"
        and rest: "insert_releases gen now rs j1 = Inr (n1, j')"
      using Cons.prems(2) by (auto split: sum.splits)
    have "journal_wf j1" using journal_wf_release [OF Cons.prems(1) ins] Cons.prems(3) False by simp
    moreover have "set j \<subseteq> set j1" using ins by (auto simp: insert_journal_Inr)
    ultimately show ?thesis using Cons.IH [OF _ rest] Cons.prems(3) by auto
  qed
qed simp

lemma orphans_mem: "r \<in> set (orphans j c) \<Longrightarrow> r \<in> set j \<and> is_reserve c r \<and> \<not> is_closed j r"
  by (auto simp: orphans_def order_by_def dest!: in_set_takeD)

lemma stale_orphans: "r \<in> set (concat (map (orphans j) cs)) \<Longrightarrow> r \<in> set j \<and> is_reserve (jr_call_id r) r \<and> \<not> is_closed j r"
  by (auto dest!: orphans_mem simp: is_reserve_def)

section \<open>Histories\<close>

datatype journal_op =
    ShadowReserve journal_env uuid int string
  | ShadowSettle journal_env uuid int string
  | DecideOp journal_env uuid int string
  | RecordCost journal_env uuid int int string
  | Reconcile "nat \<Rightarrow> uuid" js_date rat

fun journal_exec :: "journal_op \<Rightarrow> journal_row list \<Rightarrow> journal_row list" where
  "journal_exec (ShadowReserve e org c d) j = snd (appendReserve e org c d j)"
| "journal_exec (ShadowSettle e org c d) j = snd (appendSettle e org c d j)"
| "journal_exec (DecideOp e org est d) j = snd (journal_checkOrRaise e org est d j)"
| "journal_exec (RecordCost e org cost est d) j = snd (journal_recordCallCost e org cost est d j)"
| "journal_exec (Reconcile gen now w) j = snd (releaseOrphanedReserves gen now w j)"

text \<open>A transaction keeps what each of its statements keeps.\<close>

definition tx_keeps :: "('s \<Rightarrow> bool) \<Rightarrow> ('s, 'a) tx \<Rightarrow> bool" where
  "tx_keeps P m \<longleftrightarrow> (\<forall>b s. P s \<longrightarrow> P (snd (snd (m (b, s)))))"

lemma tx_keeps_intros:
  "tx_keeps P (tx_return a)" "tx_keeps P (tx_throw e)" "tx_keeps P (tx_lift r)"
  "tx_keeps P m \<Longrightarrow> (\<And>a. tx_keeps P (k a)) \<Longrightarrow> tx_keeps P (tx_bind m k)"
  "(\<And>s a s'. P s \<Longrightarrow> run s = Inr (a, s') \<Longrightarrow> P s') \<Longrightarrow> tx_keeps P (stmt fault x run)"
  by (auto simp: tx_keeps_def tx_return_def tx_throw_def tx_lift_def tx_bind_def stmt_def split: prod.splits sum.splits option.splits)
    (metis snd_conv)+

lemma tx_keeps_transaction: "tx_keeps P m \<Longrightarrow> P s \<Longrightarrow> P (snd (transaction m s))"
  by (auto simp: tx_keeps_def transaction_def split: prod.splits sum.splits) (metis snd_conv)

lemma append_keeps: "kind \<noteq> JRelease \<Longrightarrow> tx_keeps journal_wf (journal_append e org c d kind)"
  unfolding journal_append_def by (rule tx_keeps_intros(5)) (auto intro: journal_wf_append simp: journal_entry_def)

lemma lockDay_keeps: "tx_keeps journal_wf (lockDay e)"
  unfolding lockDay_def by (intro tx_keeps_intros) auto

lemma reserve_keeps: "tx_keeps journal_wf (journal_reserve_tx e org est d)"
  unfolding journal_reserve_tx_def
  by (intro tx_keeps_intros lockDay_keeps) (auto intro!: tx_keeps_intros append_keeps)

lemma journal_exec_wf: "journal_wf j \<Longrightarrow> journal_wf (journal_exec op j)"
proof (cases op)
  case (Reconcile gen now w)
  assume wf: "journal_wf j"
  show ?thesis
    using wf insert_releases_wf [OF wf] stale_orphans
    by (auto simp: Reconcile releaseOrphanedReserves_def Let_def split: sum.splits)
qed (auto simp: appendReserve_def appendSettle_def journal_checkOrRaise_def journal_recordCallCost_def
    intro!: tx_keeps_transaction append_keeps reserve_keeps tx_keeps_intros lockDay_keeps)

section \<open>What a pass appends\<close>

fun release_rows :: "(nat \<Rightarrow> uuid) \<Rightarrow> db_time \<Rightarrow> nat \<Rightarrow> journal_row list \<Rightarrow> journal_row list" where
  "release_rows gen now n [] = []"
| "release_rows gen now n (r # rs) = release_of now (gen n) r # release_rows gen now (Suc n) rs"

lemma insert_releases_run:
  assumes "distinct (map journal_id rs)" and "\<forall>r\<in>set rs. \<not> is_closed j r \<and> 0 \<le> jr_amount_cents r"
    and "inj gen" and "\<forall>i\<ge>length j. gen i \<notin> journal_id ` set j"
  shows "insert_releases gen now rs j = Inr (length rs, j @ release_rows gen now (length j) rs)"
  using assms
proof (induction rs arbitrary: j)
  case (Cons r rs)
  let ?x = "release_of now (gen (length j)) r"
  have ins: "insert_journal ?x j = Inr ((), j @ [?x])"
    using Cons.prems(2,4) by (simp add: insert_journal_def journal_check_def release_of_def)
  have "\<not> is_closed (j @ [?x]) y" if "y \<in> set rs" for y
    using Cons.prems(1,2) that by (auto simp: is_closed_def release_of_def)
  moreover have "gen i \<notin> journal_id ` set (j @ [?x])" if "length (j @ [?x]) \<le> i" for i
  proof -
    have "gen i \<noteq> gen (length j)" using Cons.prems(3) that by (auto dest: injD)
    then show ?thesis using Cons.prems(4) that by (simp add: release_of_def)
  qed
  ultimately have "insert_releases gen now rs (j @ [?x]) = Inr (length rs, (j @ [?x]) @ release_rows gen now (length (j @ [?x])) rs)"
    using Cons.prems by (intro Cons.IH) auto
  then show ?case using Cons.prems(2) ins by simp
qed simp

lemma release_rows_simps:
  "length (release_rows gen now n rs) = length rs"
  "map jr_call_id (release_rows gen now n rs) = map jr_call_id rs"
  "x \<in> set (release_rows gen now n rs) \<Longrightarrow> jr_entry_kind x = JRelease \<and> (\<exists>r\<in>set rs. x = release_of now (journal_id x) r)"
  by (induction rs arbitrary: n) (auto simp: release_of_def)

lemma concat_calls_filter:
  assumes "distinct cs" and "\<And>c r. r \<in> set (f c) \<Longrightarrow> key r = c"
  shows "filter (\<lambda>r. key r = c) (concat (map f cs)) = (if c \<in> set cs then f c else [])"
  using assms
proof (induction cs)
  case (Cons a cs)
  have "filter (\<lambda>r. key r = c) (f a) = (if c = a then f c else [])"
    using Cons.prems(2) by (auto simp: filter_id_conv filter_empty_conv)
  then show ?case using Cons by auto
qed simp

lemma distinct_concat_calls:
  assumes "distinct cs" and "\<And>c r. r \<in> set (f c) \<Longrightarrow> key r = c" and "\<And>c. distinct (f c)"
  shows "distinct (concat (map f cs))"
  using assms(1)
proof (induction cs)
  case (Cons a cs)
  then show ?case using assms(2,3) by simp blast
qed simp

lemma hits_split: "hits p t = hits (\<lambda>r. p r \<and> q r) t + hits (\<lambda>r. p r \<and> \<not> q r) t"
  by (induction t) auto

lemma closed_reserves:
  assumes "journal_wf j"
  shows "hits (\<lambda>r. is_reserve c r \<and> is_closed j r) j \<le> hits (is_closer c) j"
proof -
  let ?A = "filter (\<lambda>r. is_reserve c r \<and> is_closed j r) j" and ?B = "filter (is_closer c) j"
  have dis: "distinct (map journal_id ?A)" using assms by (simp add: journal_wf_def distinct_map_filter)
  have "Some ` journal_id ` set ?A \<subseteq> jr_closes_journal_id ` set ?B"
  proof clarsimp
    fix r assume r: "r \<in> set j" "is_reserve c r" "is_closed j r"
    then obtain x where x: "x \<in> set j" "jr_closes_journal_id x = Some (journal_id r)" by (auto simp: is_closed_def)
    then have rel: "jr_entry_kind x = JRelease" using assms by (auto simp: journal_wf_def journal_check_def)
    then obtain y where "y \<in> set j" "is_reserve (jr_call_id x) y" "journal_id y = journal_id r"
      using assms x by (auto simp: journal_wf_def closes_ok_def)
    then have "y = r" using assms r(1) by (auto simp: journal_wf_def distinct_map dest: inj_onD)
    with \<open>is_reserve (jr_call_id x) y\<close> r(2) have "jr_call_id x = c" by (simp add: is_reserve_def)
    with x rel show "Some (journal_id r) \<in> jr_closes_journal_id ` {x \<in> set j. is_closer c x}"
      by (auto simp: is_closer_def intro!: image_eqI [of _ _ x])
  qed
  then have "card (Some ` journal_id ` set ?A) \<le> card (set ?B)"
    by (meson List.finite_set card_image_le card_mono finite_imageI order_trans)
  moreover have "card (Some ` journal_id ` set ?A) = length ?A"
    using distinct_card [OF dis] by (simp add: card_image)
  moreover have "card (set ?B) \<le> length ?B" by (rule card_length)
  ultimately show ?thesis by (simp add: hits_def)
qed

lemma length_orphans: "journal_wf j \<Longrightarrow> length (orphans j c) = n_open j c"
proof -
  assume wf: "journal_wf j"
  have "hits (is_reserve c) j = hits (\<lambda>r. is_reserve c r \<and> is_closed j r) j + hits (\<lambda>r. is_reserve c r \<and> \<not> is_closed j r) j"
    by (rule hits_split)
  then have "n_open j c \<le> hits (\<lambda>r. is_reserve c r \<and> \<not> is_closed j r) j"
    using closed_reserves [OF wf, of c] by (simp add: n_open_def)
  then show ?thesis by (simp add: orphans_def order_by_def hits_def min_absorb2)
qed

text \<open>A pass with new ids: it appends one release for each orphan of the stale calls.\<close>

definition reconcile_cutoff :: "js_date \<Rightarrow> rat \<Rightarrow> db_time" where
  "reconcile_cutoff now w = of_date (to_date (of_int now - w * 1000))"

lemma reconcile_run:
  fixes now :: js_date
  assumes "journal_wf j" and "0 < w" and "inj gen" and "\<forall>i. gen i \<notin> journal_id ` set j"
  defines "rs \<equiv> concat (map (orphans j) (open_calls (reconcile_cutoff now w) j))"
  shows "releaseOrphanedReserves gen now w j = (Inr (length rs), j @ release_rows gen (of_date now) (length j) rs)"
proof -
  have call: "r \<in> set (orphans j c) \<Longrightarrow> jr_call_id r = c" for r c
    using orphans_mem [of r j c] by (simp add: is_reserve_def)
  have dj: "distinct j" using assms(1) by (simp add: journal_wf_def distinct_map)
  have "distinct rs"
    unfolding rs_def
    by (rule distinct_concat_calls [OF _ call]) (auto simp: open_calls_def orphans_def order_by_def dj)
  moreover have "set rs \<subseteq> set j" unfolding rs_def using stale_orphans by blast
  ultimately have "distinct (map journal_id rs)"
    using assms(1) by (auto simp: journal_wf_def distinct_map intro: inj_on_subset)
  moreover have "\<not> is_closed j r \<and> 0 \<le> jr_amount_cents r" if "r \<in> set rs" for r
  proof -
    have "r \<in> set j" "is_reserve (jr_call_id r) r" "\<not> is_closed j r"
      using stale_orphans that unfolding rs_def by blast+
    then show ?thesis using assms(1) by (auto simp: journal_wf_def journal_check_def is_reserve_def)
  qed
  ultimately have "insert_releases gen (of_date now) rs j = Inr (length rs, j @ release_rows gen (of_date now) (length j) rs)"
    using assms(3,4) by (intro insert_releases_run) auto
  then show ?thesis using assms(2) by (simp add: releaseOrphanedReserves_def rs_def reconcile_cutoff_def)
qed

lemma reconcile_counts:
  fixes cutoff now :: db_time and gen :: "nat \<Rightarrow> uuid" and n :: nat
  assumes "journal_wf j"
  defines "cs \<equiv> open_calls cutoff j"
  defines "new \<equiv> release_rows gen now n (concat (map (orphans j) cs))"
  shows "hits (is_reserve c) new = 0" and "hits (is_closer c) new = (if c \<in> set cs then n_open j c else 0)"
proof -
  have kinds: "jr_entry_kind x = JRelease" if "x \<in> set new" for x using that release_rows_simps(3) unfolding new_def by blast
  then show "hits (is_reserve c) new = 0" by (auto simp: hits_0_iff is_reserve_def)
  have call: "r \<in> set (orphans j c) \<Longrightarrow> jr_call_id r = c" for r c
    using orphans_mem [of r j c] by (simp add: is_reserve_def)
  have "hits (is_closer c) new = hits (\<lambda>r. jr_call_id r = c) new"
    using kinds by (auto simp: hits_def is_closer_def intro!: arg_cong [where f = length] filter_cong)
  also have "\<dots> = length (filter (\<lambda>x. x = c) (map jr_call_id new))" by (simp add: hits_def filter_map o_def)
  also have "map jr_call_id new = map jr_call_id (concat (map (orphans j) cs))"
    unfolding new_def by (rule release_rows_simps(2))
  also have "length (filter (\<lambda>x. x = c) \<dots>) = length (filter (\<lambda>r. jr_call_id r = c) (concat (map (orphans j) cs)))"
    by (simp add: filter_map o_def)
  also have "\<dots> = (if c \<in> set cs then n_open j c else 0)"
  proof -
    have "distinct cs" by (simp add: cs_def open_calls_def)
    from concat_calls_filter [of cs "orphans j" jr_call_id c, OF this call] show ?thesis by (simp add: length_orphans [OF assms(1)])
  qed
  finally show "hits (is_closer c) new = (if c \<in> set cs then n_open j c else 0)" .
qed

lemma open_calls_iff: "c \<in> set (open_calls cutoff j) \<longleftrightarrow>
    hits (is_closer c) j < hits (is_reserve c) j \<and> (\<forall>r\<in>set j. is_reserve c r \<longrightarrow> jr_created_at r < cutoff)"
proof -
  have "c \<in> jr_call_id ` set j" if "hits (is_closer c) j < hits (is_reserve c) j"
  proof -
    from that have "hits (is_reserve c) j \<noteq> 0" by simp
    then show ?thesis by (auto simp: hits_0_iff is_reserve_def)
  qed
  then show ?thesis by (auto simp: open_calls_def)
qed

section \<open>Properties\<close>

text \<open>Whatever appends, cap checks, settles and healing passes run, with whatever faults: journal ids
  stay unique, the sign rules hold, every release closes a reserve of its own call and no reserve is
  released twice.\<close>

theorem journal_history_invariant:
  assumes "journal_wf j"
  shows "journal_wf (fold journal_exec ops j)"
  using assms by (induction ops arbitrary: j) (simp_all add: journal_exec_wf)

definition demo_reserve :: "string \<Rightarrow> string \<Rightarrow> string \<Rightarrow> db_time \<Rightarrow> journal_row" where
  "demo_reserve i c d t = \<lparr>journal_id = i, jr_call_id = c, jr_installation_id = ''org'', jr_today = d,
     jr_entry_kind = JReserve, jr_amount_cents = 40, jr_closes_journal_id = None, jr_created_at = t\<rparr>"

definition demo_gen :: "nat \<Rightarrow> uuid" where
  "demo_gen i = replicate (Suc i) CHR ''n''"

lemmas journal_demo_simps = demo_reserve_def journal_wf_def journal_check_def closes_ok_def is_reserve_def is_closer_def

theorem journal_history_invariant_witness:
  "journal_wf (fold journal_exec [ShadowSettle (demo_journal_env ''c'') ''org'' 3 ''2026-01-02'', Reconcile demo_gen 9000 2]
     [demo_reserve ''r'' ''c'' ''2026-01-02'' 0])"
  by (rule journal_history_invariant) (simp add: journal_demo_simps)

text \<open>(C33) A healing pass with new ids succeeds, and it only appends. Each row it adds is the exact
  negation of an open reserve of a call all of whose reserves are older than the window, for the same
  installation and day. Afterwards every such call is balanced, every other call is as it was, and a
  second pass at the same instant appends nothing.\<close>

theorem reconcile_heals:
  assumes "journal_wf j" and "0 < w" and "inj gen" and "\<forall>i. gen i \<notin> journal_id ` set j"
  shows "\<exists>new. releaseOrphanedReserves gen now w j = (Inr (length new), j @ new)
    \<and> (\<forall>x\<in>set new. jr_call_id x \<in> set (open_calls (reconcile_cutoff now w) j)
          \<and> (\<exists>r\<in>set j. is_reserve (jr_call_id x) r \<and> \<not> is_closed j r \<and> x = release_of (of_date now) (journal_id x) r))
    \<and> (\<forall>c\<in>set (open_calls (reconcile_cutoff now w) j). hits (is_closer c) (j @ new) = hits (is_reserve c) (j @ new))
    \<and> releaseOrphanedReserves gen' now w (j @ new) = (Inr 0, j @ new)"
proof -
  let ?cut = "reconcile_cutoff now w"
  define rs where "rs = concat (map (orphans j) (open_calls ?cut j))"
  define new where "new = release_rows gen (of_date now) (length j) rs"
  have run: "releaseOrphanedReserves gen now w j = (Inr (length new), j @ new)"
    using reconcile_run [OF assms] by (simp add: new_def rs_def release_rows_simps(1))
  have counts: "hits (is_reserve c) new = 0" "hits (is_closer c) new = (if c \<in> set (open_calls ?cut j) then n_open j c else 0)" for c
    unfolding new_def rs_def using reconcile_counts [OF assms(1)] by blast+
  have rows: "jr_call_id x \<in> set (open_calls ?cut j)
      \<and> (\<exists>r\<in>set j. is_reserve (jr_call_id x) r \<and> \<not> is_closed j r \<and> x = release_of (of_date now) (journal_id x) r)" if "x \<in> set new" for x
  proof -
    obtain r where r: "r \<in> set rs" "x = release_of (of_date now) (journal_id x) r"
      using release_rows_simps(3) \<open>x \<in> set new\<close> unfolding new_def by blast
    then obtain c where c: "c \<in> set (open_calls ?cut j)" "r \<in> set (orphans j c)" by (auto simp: rs_def)
    have "jr_call_id x = jr_call_id r" using r(2) by (metis (mono_tags) journal_row.select_convs(2) release_of_def)
    moreover have "r \<in> set j" "is_reserve c r" "\<not> is_closed j r" using orphans_mem [OF c(2)] by simp_all
    ultimately show ?thesis using c r(2) by (metis is_reserve_def)
  qed
  have balanced: "hits (is_closer c) (j @ new) = hits (is_reserve c) (j @ new)" if "c \<in> set (open_calls ?cut j)" for c
    using that counts [of c] by (simp add: hits_append n_open_def open_calls_iff)
  have "c \<notin> set (open_calls ?cut (j @ new))" for c
  proof (cases "c \<in> set (open_calls ?cut j)")
    case True
    then show ?thesis using balanced by (simp add: open_calls_iff)
  next
    case False
    then show ?thesis using counts [of c] by (auto simp: open_calls_iff hits_append)
  qed
  then have "open_calls ?cut (j @ new) = []" by (metis all_not_in_conv set_empty)
  then have "releaseOrphanedReserves gen' now w (j @ new) = (Inr 0, j @ new)"
    using assms(2) by (simp add: releaseOrphanedReserves_def flip: reconcile_cutoff_def)
  then show ?thesis using run rows balanced by blast
qed

lemma demo_gen_inj: "inj demo_gen"
  by (rule injI) (metis demo_gen_def length_replicate nat.inject)

lemma demo_gen_fresh: "hd i \<noteq> CHR ''n'' \<Longrightarrow> demo_gen k \<noteq> i"
  by (auto simp: demo_gen_def)

theorem reconcile_heals_witness:
  "\<exists>new. releaseOrphanedReserves demo_gen 9000 2 [demo_reserve ''r'' ''c'' ''2026-01-02'' 0]
     = (Inr (length new), [demo_reserve ''r'' ''c'' ''2026-01-02'' 0] @ new)
   \<and> hits (is_closer ''c'') ([demo_reserve ''r'' ''c'' ''2026-01-02'' 0] @ new) = 1"
proof -
  let ?j = "[demo_reserve ''r'' ''c'' ''2026-01-02'' 0]"
  have wf: "journal_wf ?j" and fresh: "\<forall>i. demo_gen i \<notin> journal_id ` set ?j"
    using demo_gen_fresh [of "''r''"] by (simp_all add: journal_demo_simps)
  have stale: "''c'' \<in> set (open_calls (reconcile_cutoff 9000 2) ?j)"
    by (simp add: open_calls_iff is_reserve_def is_closer_def demo_reserve_def reconcile_cutoff_def to_date_def)
  obtain new where new: "releaseOrphanedReserves demo_gen 9000 2 ?j = (Inr (length new), ?j @ new)"
      "\<forall>x\<in>set new. jr_call_id x \<in> set (open_calls (reconcile_cutoff 9000 2) ?j)
          \<and> (\<exists>r\<in>set ?j. is_reserve (jr_call_id x) r \<and> \<not> is_closed ?j r \<and> x = release_of (of_date 9000) (journal_id x) r)"
      "\<forall>c\<in>set (open_calls (reconcile_cutoff 9000 2) ?j). hits (is_closer c) (?j @ new) = hits (is_reserve c) (?j @ new)"
    using reconcile_heals [OF wf _ demo_gen_inj fresh, of 2 9000 demo_gen] by fastforce
  have "\<not> is_reserve ''c'' x" if x: "x \<in> set new" for x
  proof -
    from new(2) x obtain r where "x = release_of (of_date 9000) (journal_id x) r" by blast
    then have "jr_entry_kind x = JRelease" by (metis journal_row.select_convs(5) release_of_def)
    then show ?thesis by (simp add: is_reserve_def)
  qed
  then have "hits (is_reserve ''c'') (?j @ new) = 1"
    by (simp add: hits_append hits_0_iff) (simp add: is_reserve_def demo_reserve_def)
  then show ?thesis using new(1,3) stale by auto
qed

text \<open>A call whose first attempt settled on one day and whose second attempt reserved on another and
  never settled.\<close>

definition recurring_call :: "uuid list \<Rightarrow> string \<Rightarrow> uuid \<Rightarrow> string \<times> string \<Rightarrow> int \<times> int \<times> int \<Rightarrow> db_time \<times> db_time \<times> db_time
    \<Rightarrow> journal_row list" where
  "recurring_call ids c org = (\<lambda>(d1, d2) (a, x, b) (t1, ts, t2).
     [\<lparr>journal_id = ids ! 0, jr_call_id = c, jr_installation_id = org, jr_today = d1, jr_entry_kind = JReserve,
        jr_amount_cents = a, jr_closes_journal_id = None, jr_created_at = t1\<rparr>,
      \<lparr>journal_id = ids ! 1, jr_call_id = c, jr_installation_id = org, jr_today = d1, jr_entry_kind = JSettle,
        jr_amount_cents = x, jr_closes_journal_id = None, jr_created_at = ts\<rparr>,
      \<lparr>journal_id = ids ! 2, jr_call_id = c, jr_installation_id = org, jr_today = d2, jr_entry_kind = JReserve,
        jr_amount_cents = b, jr_closes_journal_id = None, jr_created_at = t2\<rparr>])"

text \<open>When a call id recurs, its first attempt settled on one day and its second attempt orphaned on
  the next, the pass releases the oldest reserve, which is the settled one: the first day loses the
  estimate of the completed attempt and the second day keeps the estimate of the orphan.\<close>

theorem release_hits_settled_reserve:
  assumes "d1 \<noteq> d2" and "t1 < t2" and "t2 < reconcile_cutoff now w" and "0 < w" and "0 \<le> a" and "0 \<le> b"
    and "distinct [i1, i2, i3]" and "inj gen" and "\<forall>i. gen i \<notin> {i1, i2, i3}"
  shows "case releaseOrphanedReserves gen now w (recurring_call [i1, i2, i3] c org (d1, d2) (a, x, b) (t1, ts, t2)) of
      (r, j') \<Rightarrow> r = Inr 1 \<and> sumDay d1 None (recurring_call [i1, i2, i3] c org (d1, d2) (a, x, b) (t1, ts, t2)) = a + x
        \<and> sumDay d1 None j' = x \<and> sumDay d2 None j' = b"
proof -
  define j where "j = recurring_call [i1, i2, i3] c org (d1, d2) (a, x, b) (t1, ts, t2)"
  note j_simps = j_def recurring_call_def
  have "journal_wf j" using assms by (auto simp: j_simps journal_wf_def journal_check_def closes_ok_def)
  moreover have "\<forall>i. gen i \<notin> journal_id ` set j" using assms(9) by (simp add: j_simps)
  moreover have "concat (map (orphans j) (open_calls (reconcile_cutoff now w) j)) = [hd j]"
    using assms(1-3)
    by (simp add: j_simps open_calls_def orphans_def n_open_def is_reserve_def is_closer_def is_closed_def order_by_def)
  ultimately have "releaseOrphanedReserves gen now w j = (Inr 1, j @ [release_of (of_date now) (gen (length j)) (hd j)])"
    using reconcile_run [of j w gen now] assms(4,8) by simp
  then show ?thesis unfolding j_def [symmetric] using assms(1) by (simp add: j_simps sumDay_def release_of_def)
qed

theorem release_hits_settled_reserve_witness:
  "case releaseOrphanedReserves demo_gen 9000 2
        (recurring_call [''a'', ''b'', ''d''] ''c'' ''org'' (''2026-01-01'', ''2026-01-02'') (40, - 10, 40) (0, 1, 2)) of
      (r, j') \<Rightarrow> r = Inr 1 \<and> sumDay ''2026-01-01'' None
          (recurring_call [''a'', ''b'', ''d''] ''c'' ''org'' (''2026-01-01'', ''2026-01-02'') (40, - 10, 40) (0, 1, 2)) = 40 + - 10
        \<and> sumDay ''2026-01-01'' None j' = - 10 \<and> sumDay ''2026-01-02'' None j' = 40"
  by (rule release_hits_settled_reserve)
    (use demo_gen_fresh [of "''a''"] demo_gen_fresh [of "''b''"] demo_gen_fresh [of "''d''"] demo_gen_inj
      in \<open>simp_all add: reconcile_cutoff_def to_date_def\<close>)

end
