(* ===== verification/Workspace.thy ===== *)
theory Workspace
  imports Review_Db
begin

text \<open>
  Workspace leases: \<^verbatim>\<open>workspace/transition.ts\<close> (the only primitive that changes a lease's state),
  \<^verbatim>\<open>workspace/lease_repo.ts\<close>, and the activities \<^verbatim>\<open>allocate_workspace\<close>, \<^verbatim>\<open>release_workspace\<close> and
  \<^verbatim>\<open>workspace_retention\<close> with the cron handler that chains them. \<^verbatim>\<open>core.workspace_leases\<close> carries its
  CHECKs, its primary key and the partial unique index on the active leases of a run. The file system
  is a list of directories together with what \<^verbatim>\<open>realpath\<close> and \<^verbatim>\<open>rm\<close> answer; paths are absolute POSIX paths
  without dot segments, which is what \<^verbatim>\<open>realpath\<close> returns and what the uuids of a lease give.
\<close>

section \<open>Leases\<close>

record workspace_lease =
  workspace_id :: uuid
  ws_run_id :: uuid
  ws_review_id :: uuid
  ws_installation_id :: uuid
  ws_state :: string
  pod_name :: string
  pod_namespace :: string
  node_name :: "string option"
  worker_id :: string
  ws_created_at :: db_time
  ws_heartbeat_at :: db_time
  orphan_check_after :: db_time
  release_requested_at :: "db_time option"
  release_requested_by :: "string option"
  ws_released_at :: "db_time option"
  cleanup_failed_at :: "db_time option"
  last_cleanup_attempt_at :: "db_time option"
  cleanup_attempts :: int
  last_cleanup_error :: "string option"

definition LEASE_STATES :: "string list" where
  "LEASE_STATES = [''ALLOCATED'', ''RELEASE_REQUESTED'', ''RELEASED'', ''ORPHANED'', ''FAILED_CLEANUP'']"

definition active_lease :: "workspace_lease \<Rightarrow> bool" where
  "active_lease r \<longleftrightarrow> ws_state r \<in> {''ALLOCATED'', ''RELEASE_REQUESTED''}"

text \<open>The CHECK constraints of the table and its enum.\<close>

definition lease_checks :: "workspace_lease \<Rightarrow> bool" where
  "lease_checks r \<longleftrightarrow>
     ws_state r \<in> set LEASE_STATES \<and>
     0 \<le> cleanup_attempts r \<and>
     (ws_state r = ''FAILED_CLEANUP'' \<longleftrightarrow> cleanup_failed_at r \<noteq> None) \<and>
     (ws_state r \<in> {''RELEASE_REQUESTED'', ''RELEASED'', ''FAILED_CLEANUP''} \<longrightarrow> release_requested_at r \<noteq> None) \<and>
     (ws_state r = ''RELEASED'' \<longrightarrow> cleanup_failed_at r = None) \<and>
     (ws_state r = ''RELEASED'' \<longleftrightarrow> ws_released_at r \<noteq> None)"

text \<open>\<^verbatim>\<open>ux_workspace_active_run\<close>\<close>

definition active_runs_unique :: "workspace_lease list \<Rightarrow> bool" where
  "active_runs_unique t \<longleftrightarrow> distinct (map ws_run_id (filter active_lease t))"

datatype ws_error =
    WsBadArgument string
  | WsStateDrift uuid string string
  | WsCrossInstallation uuid uuid uuid
  | WsReview review_error
  | WsLeaseCheck
  | WsLeaseDuplicate string
  | WsLeaseFk
  | WsDbFault string
  | WsNoActiveLease uuid
  | WorkspaceSecurityViolation string
  | WsIo string

record ws_db =
  ws_leases :: "workspace_lease list"
  ws_review :: review_db

text \<open>\<^verbatim>\<open>UPDATE core.workspace_leases SET f WHERE p\<close>\<close>

definition update_leases :: "(workspace_lease \<Rightarrow> bool) \<Rightarrow> (workspace_lease \<Rightarrow> workspace_lease) \<Rightarrow> ws_db \<Rightarrow> ws_error + ws_db" where
  "update_leases p f db =
     (let t = upd_where p f (ws_leases db) in
      if \<not> (\<forall>r\<in>set (ws_leases db). p r \<longrightarrow> lease_checks (f r)) then Inl WsLeaseCheck
      else if \<not> active_runs_unique t then Inl (WsLeaseDuplicate ''ux_workspace_active_run'')
      else Inr (db\<lparr>ws_leases := t\<rparr>))"

definition ws_transact :: "(ws_db \<Rightarrow> ws_error + 'a \<times> ws_db) \<Rightarrow> ws_db \<Rightarrow> (ws_error + 'a) \<times> ws_db" where
  "ws_transact body db =
     (case body db of
        Inl e \<Rightarrow> (Inl e, db)
      | Inr (a, db') \<Rightarrow> if commit_ok (ws_review db') then (Inr a, db') else (Inl (WsReview RunFkViolation), db))"

section \<open>The transition primitive\<close>

datatype lease_outcome = LeaseApplied | LeaseAlreadyApplied

definition eventTypeFor :: "string \<Rightarrow> string" where
  "eventTypeFor s = (if s = ''FAILED_CLEANUP'' then ''WORKSPACE_CLEANUP_FAILED'' else ''WORKSPACE_'' @ s)"

text \<open>The SET list of the flip: the state, its timestamp column, the attribution of a release request
  and the reset of a retried cleanup, in this order.\<close>

definition stamp_lease :: "string \<Rightarrow> db_time \<Rightarrow> workspace_lease \<Rightarrow> workspace_lease" where
  "stamp_lease toState now r =
     (if toState = ''RELEASE_REQUESTED'' then r\<lparr>release_requested_at := Some now\<rparr>
      else if toState = ''RELEASED'' then r\<lparr>ws_released_at := Some now\<rparr>
      else if toState = ''FAILED_CLEANUP'' then r\<lparr>cleanup_failed_at := Some now\<rparr> else r)"

definition flip_lease :: "string \<Rightarrow> string \<Rightarrow> string \<Rightarrow> db_time \<Rightarrow> workspace_lease \<Rightarrow> workspace_lease" where
  "flip_lease fromState toState activity now r =
     (let r1 = stamp_lease toState now (r\<lparr>ws_state := toState\<rparr>);
        r2 = (if toState = ''RELEASE_REQUESTED'' then r1\<lparr>release_requested_by := Some activity\<rparr> else r1)
      in if fromState = ''FAILED_CLEANUP'' \<and> toState \<noteq> ''FAILED_CLEANUP'' then r2\<lparr>cleanup_failed_at := None\<rparr> else r2)"

text \<open>The clock is read once for the stamp and once for the event; \<open>eid\<close> is the event id.\<close>

record lease_transition_args =
  ta_workspaceId :: uuid
  ta_fromState :: string
  ta_toState :: string
  ta_activity :: string
  ta_reason :: "string option"
  ta_expectedInstallationId :: "uuid option"
  ta_stampClock :: js_date
  ta_eventClock :: js_date
  ta_eventId :: uuid

definition lease_transition_payload :: "lease_transition_args \<Rightarrow> (string \<times> rat json) list" where
  "lease_transition_payload a =
     [(''workspace_id'', JStr (ta_workspaceId a)), (''from_state'', JStr (ta_fromState a)), (''to_state'', JStr (ta_toState a)),
      (''activity'', JStr (ta_activity a)), (''reason'', case ta_reason a of None \<Rightarrow> JNull | Some s \<Rightarrow> JStr s)]"

definition lift_review :: "ws_db \<Rightarrow> (review_error + review_db) \<Rightarrow> ws_error + ws_db" where
  "lift_review db r = (case r of Inl e \<Rightarrow> Inl (WsReview e) | Inr d \<Rightarrow> Inr (db\<lparr>ws_review := d\<rparr>))"

definition apply_transition :: "lease_transition_args \<Rightarrow> workspace_lease \<Rightarrow> ws_db \<Rightarrow> ws_error + lease_outcome \<times> ws_db" where
  "apply_transition a row db =
     (case update_leases (\<lambda>r. workspace_id r = ta_workspaceId a)
             (flip_lease (ta_fromState a) (ta_toState a) (ta_activity a) (of_date (ta_stampClock a))) db of
        Inl e \<Rightarrow> Inl e
      | Inr db1 \<Rightarrow>
          if eventTypeFor (ta_toState a) \<notin> set EVENT_TYPES then Inl (WsBadArgument ''eventType'')
          else (case lift_review db1 (emitWorkflowEvent (ta_eventClock a) (ta_eventId a) ''github'' (ws_run_id row)
                  (ws_review_id row) (eventTypeFor (ta_toState a)) (lease_transition_payload a) None
                  (Some (ws_installation_id row)) (ws_review db1)) of
                  Inl e \<Rightarrow> Inl e
                | Inr db2 \<Rightarrow> Inr (LeaseApplied, db2)))"

definition transitionLease :: "lease_transition_args \<Rightarrow> ws_db \<Rightarrow> ws_error + lease_outcome \<times> ws_db" where
  "transitionLease a db =
     (if ta_fromState a \<notin> set LEASE_STATES then Inl (WsBadArgument ''fromState'')
      else if ta_toState a \<notin> set LEASE_STATES then Inl (WsBadArgument ''toState'')
      else if ta_activity a = [] then Inl (WsBadArgument ''activity'')
      else (case first_row (filter (\<lambda>r. workspace_id r = ta_workspaceId a) (ws_leases db)) of
              None \<Rightarrow> Inl (WsStateDrift (ta_workspaceId a) (ta_fromState a) ''<missing>'')
            | Some row \<Rightarrow>
                (case ta_expectedInstallationId a of
                   Some expected \<Rightarrow>
                     if ws_installation_id row \<noteq> expected
                     then Inl (WsCrossInstallation (ta_workspaceId a) expected (ws_installation_id row))
                     else if ws_state row = ta_toState a then Inr (LeaseAlreadyApplied, db)
                     else if ws_state row \<noteq> ta_fromState a
                     then Inl (WsStateDrift (ta_workspaceId a) (ta_fromState a) (ws_state row))
                     else apply_transition a row db
                 | None \<Rightarrow>
                     if ws_state row = ta_toState a then Inr (LeaseAlreadyApplied, db)
                     else if ws_state row \<noteq> ta_fromState a
                     then Inl (WsStateDrift (ta_workspaceId a) (ta_fromState a) (ws_state row))
                     else apply_transition a row db)))"

section \<open>The repository\<close>

record insert_lease_args =
  il_workspaceId :: uuid
  il_runId :: uuid
  il_reviewId :: uuid
  il_installationId :: uuid
  il_podName :: string
  il_podNamespace :: string
  il_nodeName :: "string option"
  il_workerId :: string
  il_orphanCheckAfter :: js_date

definition new_lease :: "db_time \<Rightarrow> insert_lease_args \<Rightarrow> workspace_lease" where
  "new_lease dbNow a = \<lparr>workspace_id = il_workspaceId a, ws_run_id = il_runId a, ws_review_id = il_reviewId a,
     ws_installation_id = il_installationId a, ws_state = ''ALLOCATED'', pod_name = il_podName a,
     pod_namespace = il_podNamespace a, node_name = il_nodeName a, worker_id = il_workerId a,
     ws_created_at = dbNow, ws_heartbeat_at = dbNow, orphan_check_after = of_date (il_orphanCheckAfter a),
     release_requested_at = None, release_requested_by = None, ws_released_at = None, cleanup_failed_at = None,
     last_cleanup_attempt_at = None, cleanup_attempts = 0, last_cleanup_error = None\<rparr>"

text \<open>\<^verbatim>\<open>ON CONFLICT (run_id) WHERE active DO NOTHING\<close>; a conflict on the primary key is an error.\<close>

definition lease_insert :: "db_time \<Rightarrow> insert_lease_args \<Rightarrow> ws_db \<Rightarrow> ws_error + ws_db" where
  "lease_insert dbNow a db =
     (if \<exists>r\<in>set (ws_leases db). active_lease r \<and> ws_run_id r = il_runId a then Inr db
      else if il_workspaceId a \<in> workspace_id ` set (ws_leases db) then Inl (WsLeaseDuplicate ''workspace_leases_pkey'')
      else if il_runId a \<notin> set (run_ids (ws_review db)) \<or> il_reviewId a \<notin> review_id ` set (reviews (ws_review db)) then Inl WsLeaseFk
      else Inr (db\<lparr>ws_leases := ws_leases db @ [new_lease dbNow a]\<rparr>))"

definition lease_getById :: "uuid \<Rightarrow> ws_db \<Rightarrow> workspace_lease option" where
  "lease_getById wid db = first_row (filter (\<lambda>r. workspace_id r = wid) (ws_leases db))"

definition findActiveByRun :: "uuid \<Rightarrow> ws_db \<Rightarrow> workspace_lease option" where
  "findActiveByRun rid db = first_row (filter (\<lambda>r. ws_run_id r = rid \<and> active_lease r) (ws_leases db))"

definition touchHeartbeat :: "db_time \<Rightarrow> uuid \<Rightarrow> ws_db \<Rightarrow> bool \<times> ws_db" where
  "touchHeartbeat dbClock wid db =
     (let p = (\<lambda>r. workspace_id r = wid \<and> ws_state r = ''ALLOCATED'') in
      (0 < hits p (ws_leases db), db\<lparr>ws_leases := upd_where p (\<lambda>r. r\<lparr>ws_heartbeat_at := dbClock\<rparr>) (ws_leases db)\<rparr>))"

section \<open>Paths\<close>

text \<open>\<open>fs_realpath\<close> is \<^verbatim>\<open>fs.realpath\<close> (\<open>None\<close> when it throws), \<open>fs_rm\<close> the message of a failing
  \<^verbatim>\<open>fs.rm\<close>, \<open>fs_mkdir\<close> that of a failing \<^verbatim>\<open>fs.mkdir\<close>.\<close>

record file_system =
  fs_realpath :: "string \<Rightarrow> string option"
  fs_rm :: "string \<Rightarrow> string option"
  fs_mkdir :: "string \<Rightarrow> string option"

definition path_join :: "string \<Rightarrow> string list \<Rightarrow> string" where
  "path_join a parts = join_with CHR ''/'' ((if a = ''/'' then [] else a) # parts)"

definition deriveWorkspacePath :: "string \<Rightarrow> uuid \<Rightarrow> uuid \<Rightarrow> string" where
  "deriveWorkspacePath wroot installationId runId = path_join wroot [''installations'', installationId, ''runs'', runId]"

text \<open>\<^verbatim>\<open>path.relative\<close> of two absolute paths leads upwards exactly when the second is not below the
  first.\<close>

definition under_root :: "string \<Rightarrow> string \<Rightarrow> bool" where
  "under_root wroot p \<longleftrightarrow> wroot = ''/'' \<or> p = wroot \<or> prefix (wroot @ ''/'') p"

definition resolveAndValidate :: "file_system \<Rightarrow> string \<Rightarrow> string \<Rightarrow> ws_error + string" where
  "resolveAndValidate fs wroot candidate =
     (case fs_realpath fs wroot of
        None \<Rightarrow> Inl (WorkspaceSecurityViolation candidate)
      | Some rootResolved \<Rightarrow>
     (case fs_realpath fs candidate of
        None \<Rightarrow> Inl (WorkspaceSecurityViolation candidate)
      | Some resolved \<Rightarrow>
          if under_root rootResolved resolved then Inr resolved else Inl (WorkspaceSecurityViolation candidate)))"

text \<open>The walk from the full path to the shortest prefix.\<close>

fun resolve_depth :: "file_system \<Rightarrow> string list \<Rightarrow> nat \<Rightarrow> string" where
  "resolve_depth fs parts 0 = join_with CHR ''/'' parts"
| "resolve_depth fs parts (Suc n) =
     (let pre = join_with CHR ''/'' (take (Suc n) parts); rest = drop (Suc n) parts in
      case fs_realpath fs (if pre = [] then ''/'' else pre) of
        Some res \<Rightarrow> if rest = [] then res else path_join res rest
      | None \<Rightarrow> resolve_depth fs parts n)"

definition resolveNonStrict :: "file_system \<Rightarrow> string \<Rightarrow> string" where
  "resolveNonStrict fs candidate = (let parts = split_on CHR ''/'' candidate in resolve_depth fs parts (length parts))"

definition validateCleanupPath :: "file_system \<Rightarrow> string \<Rightarrow> string \<Rightarrow> ws_error + string" where
  "validateCleanupPath fs wroot candidate =
     (case fs_realpath fs wroot of
        None \<Rightarrow> Inl (WorkspaceSecurityViolation candidate)
      | Some rootResolved \<Rightarrow>
          if under_root rootResolved (resolveNonStrict fs candidate) then Inr (resolveNonStrict fs candidate)
          else Inl (WorkspaceSecurityViolation candidate))"

section \<open>Allocation\<close>

text \<open>The lease tables and the directories that exist.\<close>

record ws_world =
  ww_db :: ws_db
  ww_dirs :: "string list"

record pod_identity =
  pi_podName :: string
  pi_podNamespace :: string
  pi_nodeName :: "string option"
  pi_workerId :: string

record alloc_env =
  ae_fs :: file_system
  ae_root :: string
  ae_identity :: pod_identity
  ae_clock :: js_date
  ae_db_now :: db_time
  ae_candidate :: uuid

record workspace_handle =
  wh_workspace_id :: uuid
  wh_installation_id :: uuid
  wh_run_id :: uuid
  wh_derived_path :: string
  wh_state :: string

definition ORPHAN_GRACE_SECONDS :: int where "ORPHAN_GRACE_SECONDS = 30 * 60"

definition alloc_args :: "alloc_env \<Rightarrow> uuid \<Rightarrow> uuid \<Rightarrow> uuid \<Rightarrow> insert_lease_args" where
  "alloc_args e runId reviewId installationId = \<lparr>il_workspaceId = ae_candidate e, il_runId = runId, il_reviewId = reviewId,
     il_installationId = installationId, il_podName = pi_podName (ae_identity e), il_podNamespace = pi_podNamespace (ae_identity e),
     il_nodeName = pi_nodeName (ae_identity e), il_workerId = pi_workerId (ae_identity e),
     il_orphanCheckAfter = ae_clock e + ORPHAN_GRACE_SECONDS * 1000\<rparr>"

definition allocate_tx :: "alloc_env \<Rightarrow> uuid \<Rightarrow> uuid \<Rightarrow> uuid \<Rightarrow> ws_db \<Rightarrow> ws_error + uuid \<times> ws_db" where
  "allocate_tx e runId reviewId installationId db =
     (case lease_insert (ae_db_now e) (alloc_args e runId reviewId installationId) db of
        Inl x \<Rightarrow> Inl x
      | Inr db1 \<Rightarrow> (case findActiveByRun runId db1 of
          None \<Rightarrow> Inl (WsNoActiveLease runId)
        | Some canonical \<Rightarrow> Inr (workspace_id canonical, db1)))"

definition allocateWorkspace :: "alloc_env \<Rightarrow> uuid \<Rightarrow> uuid \<Rightarrow> uuid \<Rightarrow> ws_world \<Rightarrow> (ws_error + workspace_handle) \<times> ws_world" where
  "allocateWorkspace e runId reviewId installationId w =
     (let path = deriveWorkspacePath (ae_root e) installationId runId in
      case fs_mkdir (ae_fs e) path of
        Some msg \<Rightarrow> (Inl (WsIo msg), w)
      | None \<Rightarrow>
          (let w1 = w\<lparr>ww_dirs := List.insert path (ww_dirs w)\<rparr> in
           case ws_transact (allocate_tx e runId reviewId installationId) (ww_db w1) of
             (Inl x, _) \<Rightarrow> (Inl x, w1)
           | (Inr wid, db1) \<Rightarrow>
               (let w2 = w1\<lparr>ww_db := db1\<rparr> in
                case resolveAndValidate (ae_fs e) (ae_root e) path of
                  Inl x \<Rightarrow> (Inl x, w2)
                | Inr derived \<Rightarrow> (Inr \<lparr>wh_workspace_id = wid, wh_installation_id = installationId, wh_run_id = runId,
                    wh_derived_path = derived, wh_state = ''ALLOCATED''\<rparr>, w2))))"

section \<open>Release\<close>

definition MAX_CLEANUP_ERROR_LEN :: nat where "MAX_CLEANUP_ERROR_LEN = 1024"

text \<open>The clock readings and event ids are numbered by the transition they belong to: 0 for the hop to
  RELEASE_REQUESTED, 1 for the last one. \<open>re_other\<close> is what other workers do after the read of the
  lease (0), after the hop (1) and after the removal (2).\<close>

record release_env =
  re_fs :: file_system
  re_root :: string
  re_stampClock :: "nat \<Rightarrow> js_date"
  re_eventClock :: "nat \<Rightarrow> js_date"
  re_attemptClock :: js_date
  re_eventId :: "nat \<Rightarrow> uuid"
  re_other :: "nat \<Rightarrow> ws_world \<Rightarrow> ws_world"

definition release_args :: "release_env \<Rightarrow> nat \<Rightarrow> uuid \<Rightarrow> string \<Rightarrow> string \<Rightarrow> string option \<Rightarrow> lease_transition_args" where
  "release_args e k wid fromState toState reason = \<lparr>ta_workspaceId = wid, ta_fromState = fromState, ta_toState = toState,
     ta_activity = ''release_workspace_activity'', ta_reason = reason, ta_expectedInstallationId = None,
     ta_stampClock = re_stampClock e k, ta_eventClock = re_eventClock e k, ta_eventId = re_eventId e k\<rparr>"

definition runTransition :: "release_env \<Rightarrow> nat \<Rightarrow> uuid \<Rightarrow> string \<Rightarrow> string \<Rightarrow> string option \<Rightarrow> ws_db \<Rightarrow> (ws_error + unit) \<times> ws_db" where
  "runTransition e k wid fromState toState reason =
     ws_transact (\<lambda>db. case transitionLease (release_args e k wid fromState toState reason) db of
       Inl x \<Rightarrow> Inl x | Inr (_, db') \<Rightarrow> Inr ((), db'))"

definition fail_mark :: "js_date \<Rightarrow> string \<Rightarrow> workspace_lease \<Rightarrow> workspace_lease" where
  "fail_mark now reason r = r\<lparr>cleanup_attempts := cleanup_attempts r + 1, last_cleanup_attempt_at := Some (of_date now),
     last_cleanup_error := Some (take MAX_CLEANUP_ERROR_LEN reason)\<rparr>"

definition transitionToFailedCleanup :: "release_env \<Rightarrow> uuid \<Rightarrow> string \<Rightarrow> string \<Rightarrow> ws_db \<Rightarrow> (ws_error + unit) \<times> ws_db" where
  "transitionToFailedCleanup e wid fromState reason =
     ws_transact (\<lambda>db. case transitionLease (release_args e 1 wid fromState ''FAILED_CLEANUP'' (Some reason)) db of
       Inl x \<Rightarrow> Inl x
     | Inr (_, db1) \<Rightarrow> (case update_leases (\<lambda>r. workspace_id r = wid) (fail_mark (re_attemptClock e) reason) db1 of
         Inl x \<Rightarrow> Inl x | Inr db2 \<Rightarrow> Inr ((), db2)))"

definition rm_dir :: "string \<Rightarrow> string list \<Rightarrow> string list" where
  "rm_dir p dirs = filter (\<lambda>d. \<not> (d = p \<or> prefix (p @ ''/'') d)) dirs"

text \<open>A failure after the path or the removal: the lease is marked, then the error is thrown; an
  error of the marking is thrown instead.\<close>

definition fail_cleanup :: "release_env \<Rightarrow> uuid \<Rightarrow> string \<Rightarrow> string \<Rightarrow> ws_error \<Rightarrow> ws_world \<Rightarrow> (ws_error + unit) \<times> ws_world" where
  "fail_cleanup e wid currentState reason x w =
     (case transitionToFailedCleanup e wid currentState reason (ww_db w) of
        (Inl y, db') \<Rightarrow> (Inl y, w\<lparr>ww_db := db'\<rparr>)
      | (Inr _, db') \<Rightarrow> (Inl x, w\<lparr>ww_db := db'\<rparr>))"

definition release_files :: "release_env \<Rightarrow> workspace_lease \<Rightarrow> string \<Rightarrow> ws_world \<Rightarrow> (ws_error + unit) \<times> ws_world" where
  "release_files e row currentState w =
     (case validateCleanupPath (re_fs e) (re_root e)
             (deriveWorkspacePath (re_root e) (ws_installation_id row) (ws_run_id row)) of
        Inl x \<Rightarrow> fail_cleanup e (workspace_id row) currentState ''security_violation'' x w
      | Inr resolved \<Rightarrow>
          (case fs_rm (re_fs e) resolved of
             Some msg \<Rightarrow> fail_cleanup e (workspace_id row) currentState (''rm failed: '' @ msg) (WsIo msg) w
           | None \<Rightarrow>
               (let w1 = re_other e 2 (w\<lparr>ww_dirs := rm_dir resolved (ww_dirs w)\<rparr>) in
                case runTransition e 1 (workspace_id row) currentState ''RELEASED'' None (ww_db w1) of
                  (r, db') \<Rightarrow> (r, w1\<lparr>ww_db := db'\<rparr>))))"

definition releaseWorkspace :: "release_env \<Rightarrow> uuid \<Rightarrow> ws_world \<Rightarrow> (ws_error + unit) \<times> ws_world" where
  "releaseWorkspace e wid w =
     (case lease_getById wid (ww_db w) of
        None \<Rightarrow> (Inr (), w)
      | Some row \<Rightarrow>
          if ws_state row = ''RELEASED'' then (Inr (), w)
          else if ws_state row \<in> {''ALLOCATED'', ''ORPHANED''}
          then (let w0 = re_other e 0 w in
                case runTransition e 0 wid (ws_state row) ''RELEASE_REQUESTED'' (Some ''release_workspace_activity entry'') (ww_db w0) of
                  (Inl x, db') \<Rightarrow> (Inl x, w0\<lparr>ww_db := db'\<rparr>)
                | (Inr _, db') \<Rightarrow> release_files e row ''RELEASE_REQUESTED'' (re_other e 1 (w0\<lparr>ww_db := db'\<rparr>)))
          else release_files e row (ws_state row) (re_other e 1 (re_other e 0 w)))"

section \<open>Retention\<close>

definition WORKER_DEAD_AFTER_MS :: int where "WORKER_DEAD_AFTER_MS = 5 * 60 * 1000"
definition RELEASE_GRACE_MS :: int where "RELEASE_GRACE_MS = 5 * 60 * 1000"
definition CLEANUP_MAX_ATTEMPTS :: int where "CLEANUP_MAX_ATTEMPTS = 5"
definition CLEANUP_BACKOFF_SCHEDULE_MS :: "int list" where
  "CLEANUP_BACKOFF_SCHEDULE_MS = [1 * 60 * 1000, 5 * 60 * 1000, 30 * 60 * 1000, 2 * 60 * 60 * 1000, 12 * 60 * 60 * 1000]"
definition RELEASED_LEASE_RETENTION_MS :: int where "RELEASED_LEASE_RETENTION_MS = 7 * 24 * 60 * 60 * 1000"
definition ORPHANED_AGED_THRESHOLD_MS :: int where "ORPHANED_AGED_THRESHOLD_MS = 24 * 60 * 60 * 1000"

text \<open>\<^verbatim>\<open>core.worker_heartbeats\<close> is a list of workers with the instant they were last seen.\<close>

definition orphan_candidates :: "js_date \<Rightarrow> (string \<times> db_time) list \<Rightarrow> workspace_lease list \<Rightarrow> uuid list" where
  "orphan_candidates now heartbeats t =
     [workspace_id l. l \<leftarrow> t, (w, seen) \<leftarrow> heartbeats, seen < of_date (now - WORKER_DEAD_AFTER_MS) \<and> worker_id l = w
        \<and> ws_state l = ''ALLOCATED'' \<and> orphan_check_after l < of_date now]"

record sweep_env =
  se_now :: js_date
  se_stampClock :: "nat \<Rightarrow> js_date"
  se_eventClock :: "nat \<Rightarrow> js_date"
  se_eventId :: "nat \<Rightarrow> uuid"
  se_fault :: "nat \<Rightarrow> string option"

definition sweep_args :: "sweep_env \<Rightarrow> nat \<Rightarrow> uuid \<Rightarrow> lease_transition_args" where
  "sweep_args e k wid = \<lparr>ta_workspaceId = wid, ta_fromState = ''ALLOCATED'', ta_toState = ''ORPHANED'',
     ta_activity = ''run_workspace_orphan_sweep_activity'', ta_reason = Some ''worker_dead_after_threshold'',
     ta_expectedInstallationId = None, ta_stampClock = se_stampClock e k, ta_eventClock = se_eventClock e k,
     ta_eventId = se_eventId e k\<rparr>"

text \<open>A failure of a statement, as opposed to an error the code throws itself, aborts the transaction.\<close>

definition is_db_error :: "ws_error \<Rightarrow> bool" where
  "is_db_error x = (case x of
     WsLeaseCheck \<Rightarrow> True | WsLeaseDuplicate _ \<Rightarrow> True | WsLeaseFk \<Rightarrow> True | WsDbFault _ \<Rightarrow> True
   | WsReview e \<Rightarrow> (case e of RunFkViolation \<Rightarrow> True | RunCheckViolation \<Rightarrow> True | DuplicateKey _ \<Rightarrow> True | _ \<Rightarrow> False)
   | _ \<Rightarrow> False)"

text \<open>The loop of the sweep: every error is caught. \<open>aborted\<close> says that a statement has failed; then
  every later one fails too. \<open>k\<close> numbers the candidates.\<close>

fun orphan_loop :: "sweep_env \<Rightarrow> nat \<Rightarrow> uuid list \<Rightarrow> bool \<Rightarrow> ws_db \<Rightarrow> nat \<Rightarrow> nat \<times> bool \<times> ws_db" where
  "orphan_loop e k [] aborted db n = (n, aborted, db)"
| "orphan_loop e k (wid # ids) aborted db n =
     (if aborted then orphan_loop e (Suc k) ids True db n
      else (case (case se_fault e k of Some code \<Rightarrow> Inl (WsDbFault code) | None \<Rightarrow> transitionLease (sweep_args e k wid) db) of
              Inl x \<Rightarrow> orphan_loop e (Suc k) ids (is_db_error x) db n
            | Inr (_, db') \<Rightarrow> orphan_loop e (Suc k) ids False db' (Suc n)))"

text \<open>The commit of an aborted transaction is a rollback and no error.\<close>

definition runWorkspaceOrphanSweepActivity :: "sweep_env \<Rightarrow> (string \<times> db_time) list \<Rightarrow> ws_db \<Rightarrow> nat \<times> ws_db" where
  "runWorkspaceOrphanSweepActivity e heartbeats db =
     (case orphan_loop e 0 (orphan_candidates (se_now e) heartbeats (ws_leases db)) False db 0 of
        (n, aborted, db') \<Rightarrow> (n, if aborted then db else db'))"

definition backoff_elapsed :: "js_date \<Rightarrow> workspace_lease \<Rightarrow> bool" where
  "backoff_elapsed now r =
     (let backoffMs = CLEANUP_BACKOFF_SCHEDULE_MS ! min (nat (cleanup_attempts r)) (length CLEANUP_BACKOFF_SCHEDULE_MS - 1) in
      case last_cleanup_attempt_at r of None \<Rightarrow> True | Some t \<Rightarrow> t div 1000 + backoffMs < now)"

definition release_overdue :: "js_date \<Rightarrow> workspace_lease \<Rightarrow> bool" where
  "release_overdue now r \<longleftrightarrow> ws_state r = ''RELEASE_REQUESTED''
     \<and> (case release_requested_at r of None \<Rightarrow> False | Some t \<Rightarrow> t < of_date (now - RELEASE_GRACE_MS))"

definition runWorkspaceReapActivity :: "js_date \<Rightarrow> workspace_lease list \<Rightarrow> uuid list" where
  "runWorkspaceReapActivity now t =
     sort (map workspace_id
       (filter (\<lambda>r. ws_state r = ''ORPHANED'') t
        @ filter (release_overdue now) t
        @ filter (backoff_elapsed now) (filter (\<lambda>r. ws_state r = ''FAILED_CLEANUP'' \<and> cleanup_attempts r < CLEANUP_MAX_ATTEMPTS) t)))"

definition purgeable :: "js_date \<Rightarrow> workspace_lease \<Rightarrow> bool" where
  "purgeable now r \<longleftrightarrow> ws_state r = ''RELEASED''
     \<and> (case ws_released_at r of None \<Rightarrow> False | Some t \<Rightarrow> t < of_date (now - RELEASED_LEASE_RETENTION_MS))"

definition runWorkspaceReleasedRetentionActivity :: "js_date \<Rightarrow> ws_db \<Rightarrow> nat \<times> ws_db" where
  "runWorkspaceReleasedRetentionActivity now db =
     (hits (purgeable now) (ws_leases db), db\<lparr>ws_leases := filter (\<lambda>r. \<not> purgeable now r) (ws_leases db)\<rparr>)"

definition runWorkspaceDeadLetterSweepActivity :: "js_date \<Rightarrow> workspace_lease list \<Rightarrow> nat \<times> nat" where
  "runWorkspaceDeadLetterSweepActivity now t =
     (hits (\<lambda>r. ws_state r = ''FAILED_CLEANUP'' \<and> CLEANUP_MAX_ATTEMPTS \<le> cleanup_attempts r) t,
      hits (\<lambda>r. ws_state r = ''ORPHANED'' \<and> ws_created_at r < of_date (now - ORPHANED_AGED_THRESHOLD_MS)) t)"

text \<open>The reap loop of the cron handler: a failing release is skipped.\<close>

fun reap_loop :: "(nat \<Rightarrow> release_env) \<Rightarrow> nat \<Rightarrow> uuid list \<Rightarrow> ws_world \<Rightarrow> nat \<times> ws_world" where
  "reap_loop e k [] w = (0, w)"
| "reap_loop e k (wid # ids) w =
     (case releaseWorkspace (e k) wid w of (r, w') \<Rightarrow>
       (case reap_loop e (Suc k) ids w' of (n, w'') \<Rightarrow> (if isl r then n else Suc n, w'')))"

text \<open>The handler reads the clock in each step.\<close>

record retention_env =
  te_sweep :: sweep_env
  te_heartbeats :: "(string \<times> db_time) list"
  te_reapNow :: js_date
  te_release :: "nat \<Rightarrow> release_env"
  te_purgeNow :: js_date
  te_deadNow :: js_date

definition workspace_retention :: "retention_env \<Rightarrow> ws_world \<Rightarrow> (nat \<times> nat \<times> nat \<times> nat \<times> nat) \<times> ws_world" where
  "workspace_retention e w =
     (let (orphaned, db1) = runWorkspaceOrphanSweepActivity (te_sweep e) (te_heartbeats e) (ww_db w);
        w1 = w\<lparr>ww_db := db1\<rparr>;
        (reaped, w2) = reap_loop (te_release e) 0 (runWorkspaceReapActivity (te_reapNow e) (ws_leases (ww_db w1))) w1;
        (purged, db3) = runWorkspaceReleasedRetentionActivity (te_purgeNow e) (ww_db w2);
        w3 = w2\<lparr>ww_db := db3\<rparr>;
        (stuck, aged) = runWorkspaceDeadLetterSweepActivity (te_deadNow e) (ws_leases db3)
      in ((orphaned, reaped, purged, stuck, aged), w3))"

section \<open>The invariant\<close>

definition leases_ok :: "ws_db \<Rightarrow> bool" where
  "leases_ok db \<longleftrightarrow> distinct (map workspace_id (ws_leases db)) \<and> active_runs_unique (ws_leases db)
     \<and> (\<forall>r\<in>set (ws_leases db). lease_checks r \<and> ws_run_id r \<in> set (run_ids (ws_review db))
          \<and> ws_review_id r \<in> review_id ` set (reviews (ws_review db)))"

definition ws_wf :: "ws_db \<Rightarrow> bool" where
  "ws_wf db \<longleftrightarrow> leases_ok db \<and> review_wf (ws_review db)"

lemma flip_lease_simps [simp]:
  "workspace_id (flip_lease f t a now r) = workspace_id r" "ws_run_id (flip_lease f t a now r) = ws_run_id r"
  "ws_review_id (flip_lease f t a now r) = ws_review_id r" "ws_installation_id (flip_lease f t a now r) = ws_installation_id r"
  "ws_state (flip_lease f t a now r) = t" "cleanup_attempts (flip_lease f t a now r) = cleanup_attempts r"
  "worker_id (flip_lease f t a now r) = worker_id r"
  by (simp_all add: flip_lease_def stamp_lease_def Let_def)

lemma fail_mark_simps [simp]:
  "workspace_id (fail_mark now x r) = workspace_id r" "ws_run_id (fail_mark now x r) = ws_run_id r"
  "ws_review_id (fail_mark now x r) = ws_review_id r" "ws_state (fail_mark now x r) = ws_state r"
  "cleanup_attempts (fail_mark now x r) = cleanup_attempts r + 1"
  by (simp_all add: fail_mark_def)

lemma fail_mark_checks: "lease_checks (fail_mark now x r) \<longleftrightarrow> lease_checks r" if "0 \<le> cleanup_attempts r"
  using that by (simp add: lease_checks_def fail_mark_def)

lemma update_leases_Inr:
  assumes "update_leases p f db = Inr db'"
  shows "db' = db\<lparr>ws_leases := upd_where p f (ws_leases db)\<rparr>" and "active_runs_unique (ws_leases db')"
    and "\<And>r. r \<in> set (ws_leases db) \<Longrightarrow> p r \<Longrightarrow> lease_checks (f r)"
  using assms by (auto simp: update_leases_def Let_def split: if_splits)

lemma update_leases_ok:
  assumes "leases_ok db" and "update_leases p f db = Inr db'"
    and "\<And>r. workspace_id (f r) = workspace_id r \<and> ws_run_id (f r) = ws_run_id r \<and> ws_review_id (f r) = ws_review_id r"
  shows "leases_ok db'"
  using assms(1,3) update_leases_Inr [OF assms(2)]
  by (auto simp: leases_ok_def set_upd_where map_key_upd_where)

lemma leases_ok_review:
  "leases_ok db \<Longrightarrow> review_runs d = review_runs (ws_review db) \<Longrightarrow> reviews d = reviews (ws_review db)
    \<Longrightarrow> leases_ok (db\<lparr>ws_review := d\<rparr>)"
  by (simp add: leases_ok_def)

lemma transitionLease_Inr:
  assumes "transitionLease a db = Inr (x, db')"
  obtains (already) row where "x = LeaseAlreadyApplied" "db' = db" "lease_getById (ta_workspaceId a) db = Some row" "ws_state row = ta_toState a"
  | (applied) row db1 d where "x = LeaseApplied" "lease_getById (ta_workspaceId a) db = Some row" "ws_state row = ta_fromState a"
      "ta_fromState a \<noteq> ta_toState a"
      "update_leases (\<lambda>r. workspace_id r = ta_workspaceId a)
         (flip_lease (ta_fromState a) (ta_toState a) (ta_activity a) (of_date (ta_stampClock a))) db = Inr db1"
      "emitWorkflowEvent (ta_eventClock a) (ta_eventId a) ''github'' (ws_run_id row) (ws_review_id row)
         (eventTypeFor (ta_toState a)) (lease_transition_payload a) None (Some (ws_installation_id row)) (ws_review db1) = Inr d"
      "db' = db1\<lparr>ws_review := d\<rparr>"
  using assms
  by (auto simp: transitionLease_def apply_transition_def lift_review_def lease_getById_def split: option.splits if_splits sum.splits)

lemma ws_review_tx: "ws_wf db \<Longrightarrow> review_wf_tx (ws_review db)"
  by (simp add: ws_wf_def review_wf_def review_wf_tx_def)

text \<open>What holds inside a transaction.\<close>

definition ws_wf_tx :: "ws_db \<Rightarrow> bool" where
  "ws_wf_tx db \<longleftrightarrow> leases_ok db \<and> review_wf_tx (ws_review db)"

lemma transitionLease_wf:
  assumes "ws_wf_tx db" and "transitionLease a db = Inr (x, db')"
  shows "ws_wf_tx db'"
  using assms(2)
proof (cases rule: transitionLease_Inr)
  case (already row)
  then show ?thesis using assms(1) by simp
next
  case (applied row db1 d)
  have ok: "leases_ok db1" using update_leases_ok [OF _ applied(5)] assms(1) by (simp add: ws_wf_tx_def)
  have rv: "ws_review db1 = ws_review db" using update_leases_Inr(1) [OF applied(5)] by simp
  then have "review_wf_tx d" using review_wf_tx_events [OF _ applied(6)] assms(1) by (simp add: ws_wf_tx_def)
  moreover have "review_runs d = review_runs (ws_review db1)" "reviews d = reviews (ws_review db1)"
    using emitWorkflowEvent_Inr [OF applied(6)] by auto
  ultimately show ?thesis using ok applied(7) by (simp add: ws_wf_tx_def leases_ok_review)
qed

lemma ws_transact_wf:
  assumes "ws_wf db" and "\<And>a db'. body db = Inr (a, db') \<Longrightarrow> ws_wf_tx db'"
  shows "ws_wf (snd (ws_transact body db))"
  using assms by (auto simp: ws_transact_def ws_wf_def ws_wf_tx_def review_wf_def review_wf_tx_def split: sum.splits)

lemma ws_wf_tx: "ws_wf db \<Longrightarrow> ws_wf_tx db"
  by (simp add: ws_wf_def ws_wf_tx_def review_wf_def review_wf_tx_def)

section \<open>Released leases rest\<close>

text \<open>What every operation but the purge keeps: the invariant and a given released row.\<close>

definition rests :: "workspace_lease \<Rightarrow> ws_db \<Rightarrow> bool" where
  "rests r db \<longleftrightarrow> ws_wf db \<and> r \<in> set (ws_leases db)"

lemma getById_Some: "lease_getById wid db = Some row \<Longrightarrow> row \<in> set (ws_leases db) \<and> workspace_id row = wid"
  by (auto simp: lease_getById_def first_row_def filter_eq_Cons_iff split: list.splits)

lemma getById_unique:
  assumes "leases_ok db" and "r \<in> set (ws_leases db)"
  shows "lease_getById (workspace_id r) db = Some r"
proof -
  from assms(2) have "r \<in> set (filter (\<lambda>x. workspace_id x = workspace_id r) (ws_leases db))" by simp
  then obtain row where row: "lease_getById (workspace_id r) db = Some row"
    by (cases "filter (\<lambda>x. workspace_id x = workspace_id r) (ws_leases db)") (auto simp: lease_getById_def first_row_def)
  then have "row = r"
    using getById_Some [OF row] assms by (auto simp: leases_ok_def distinct_map dest: inj_onD)
  with row show ?thesis by simp
qed

lemma transitionLease_rests:
  assumes "ws_wf_tx db" and "transitionLease a db = Inr (x, db')" and "r \<in> set (ws_leases db)" and "ws_state r = ''RELEASED''"
  shows "r \<in> set (ws_leases db')" and "ta_toState a \<noteq> ''RELEASED'' \<Longrightarrow> workspace_id r \<noteq> ta_workspaceId a"
proof -
  have own: "lease_getById (workspace_id r) db = Some r"
    using assms(1,3) by (simp add: getById_unique ws_wf_tx_def)
  have "lease_checks r" using assms(1,3) by (simp add: ws_wf_tx_def leases_ok_def)
  then have rel: "ws_released_at r \<noteq> None" using assms(4) by (simp add: lease_checks_def)
  have ne: "workspace_id r \<noteq> ta_workspaceId a" if "ta_toState a \<noteq> ''RELEASED'' \<or> x = LeaseApplied"
    using assms(2)
  proof (cases rule: transitionLease_Inr)
    case (already row)
    then show ?thesis using own assms(4) that by auto
  next
    case (applied row db1 d)
    show ?thesis
    proof
      assume eq: "workspace_id r = ta_workspaceId a"
      then have "row = r" using own applied(2) by simp
      then have from_to: "ta_fromState a = ''RELEASED''" "ta_toState a \<noteq> ''RELEASED''" using applied(3,4) assms(4) by auto
      have "lease_checks (flip_lease (ta_fromState a) (ta_toState a) (ta_activity a) (of_date (ta_stampClock a)) r)"
        using update_leases_Inr(3) [OF applied(5) assms(3)] eq by simp
      then show False using rel from_to by (auto simp: lease_checks_def flip_lease_def stamp_lease_def Let_def split: if_splits)
    qed
  qed
  then show "ta_toState a \<noteq> ''RELEASED'' \<Longrightarrow> workspace_id r \<noteq> ta_workspaceId a" by simp
  show "r \<in> set (ws_leases db')"
    using assms(2)
  proof (cases rule: transitionLease_Inr)
    case (already row)
    then show ?thesis using assms(3) by simp
  next
    case (applied row db1 d)
    then show ?thesis
      using ne update_leases_Inr(1) [OF applied(5)] assms(3) upd_where_mem_unchanged [of r "ws_leases db" "\<lambda>r. workspace_id r = ta_workspaceId a"]
      by simp
  qed
qed

section \<open>Any interleaving of the transactions\<close>

text \<open>Every write to the leases is one of these committed transactions, whatever order the workers, the
  workflow bodies and the janitor reach the database in.\<close>

datatype ws_tx =
    TxAllocate alloc_env uuid uuid uuid
  | TxHeartbeat db_time uuid
  | TxTransition release_env nat uuid string string "string option"
  | TxFailCleanup release_env uuid string string
  | TxSweep sweep_env "(string \<times> db_time) list"
  | TxPurge js_date

fun ws_exec :: "ws_tx \<Rightarrow> ws_db \<Rightarrow> ws_db" where
  "ws_exec (TxAllocate e runId reviewId installationId) db = snd (ws_transact (allocate_tx e runId reviewId installationId) db)"
| "ws_exec (TxHeartbeat now wid) db = snd (touchHeartbeat now wid db)"
| "ws_exec (TxTransition e k wid fromState toState reason) db = snd (runTransition e k wid fromState toState reason db)"
| "ws_exec (TxFailCleanup e wid fromState reason) db = snd (transitionToFailedCleanup e wid fromState reason db)"
| "ws_exec (TxSweep e heartbeats) db = snd (runWorkspaceOrphanSweepActivity e heartbeats db)"
| "ws_exec (TxPurge now) db = snd (runWorkspaceReleasedRetentionActivity now db)"

lemma active_unique_iff:
  assumes "distinct (map workspace_id t)"
  shows "active_runs_unique t \<longleftrightarrow> (\<forall>x\<in>set t. \<forall>y\<in>set t. active_lease x \<longrightarrow> active_lease y \<longrightarrow>
    ws_run_id x = ws_run_id y \<longrightarrow> workspace_id x = workspace_id y)"
proof -
  have key: "workspace_id x = workspace_id y \<longleftrightarrow> x = y" if "x \<in> set t" "y \<in> set t" for x y
    using distinct_key_unique [OF assms that] by auto
  have "distinct t" using assms by (simp add: distinct_map)
  then have "active_runs_unique t \<longleftrightarrow> inj_on ws_run_id (set (filter active_lease t))"
    by (simp add: active_runs_unique_def distinct_map)
  also have "\<dots> \<longleftrightarrow> (\<forall>x\<in>set t. \<forall>y\<in>set t. active_lease x \<longrightarrow> active_lease y \<longrightarrow> ws_run_id x = ws_run_id y \<longrightarrow> x = y)"
    by (auto simp: inj_on_def)
  finally show ?thesis by (simp add: key cong: ball_cong)
qed

lemma leases_ok_unique:
  assumes "leases_ok db" and "x \<in> set (ws_leases db)" and "y \<in> set (ws_leases db)" and "active_lease x" and "active_lease y"
    and "ws_run_id x = ws_run_id y"
  shows "workspace_id x = workspace_id y"
proof -
  have "distinct (map workspace_id (ws_leases db))" "active_runs_unique (ws_leases db)"
    using assms(1) by (simp_all add: leases_ok_def)
  then have "\<forall>x\<in>set (ws_leases db). \<forall>y\<in>set (ws_leases db). active_lease x \<longrightarrow> active_lease y \<longrightarrow>
      ws_run_id x = ws_run_id y \<longrightarrow> workspace_id x = workspace_id y"
    using active_unique_iff by blast
  then show ?thesis using assms(2-6) by blast
qed

lemma ws_transact_cases:
  "snd (ws_transact body db) = db \<or> (\<exists>a. body db = Inr (a, snd (ws_transact body db)))"
  by (auto simp: ws_transact_def split: sum.splits)

lemma ws_transact_rests:
  assumes "rests r db" and "\<And>a db'. body db = Inr (a, db') \<Longrightarrow> ws_wf_tx db' \<and> r \<in> set (ws_leases db')"
  shows "rests r (snd (ws_transact body db))"
proof -
  have "ws_wf (snd (ws_transact body db))"
    using assms by (intro ws_transact_wf) (auto simp: rests_def)
  then show ?thesis
    using assms ws_transact_cases [of body db] by (auto simp: rests_def)
qed

text \<open>\<open>ws_wf\<close> is \<open>rests\<close> without a row; the facts below are about the invariant alone.\<close>

lemma new_lease_checks: "lease_checks (new_lease now a)"
  by (simp add: lease_checks_def new_lease_def LEASE_STATES_def)

lemma lease_insert_Inr:
  assumes "lease_insert now a db = Inr db'"
  obtains "db' = db" | "db' = db\<lparr>ws_leases := ws_leases db @ [new_lease now a]\<rparr>"
    "\<forall>r\<in>set (ws_leases db). active_lease r \<longrightarrow> ws_run_id r \<noteq> il_runId a" "il_workspaceId a \<notin> workspace_id ` set (ws_leases db)"
    "il_runId a \<in> set (run_ids (ws_review db))" "il_reviewId a \<in> review_id ` set (reviews (ws_review db))"
  using assms by (auto simp: lease_insert_def split: if_splits)

lemma lease_insert_wf:
  assumes "ws_wf_tx db" and "lease_insert now a db = Inr db'"
  shows "ws_wf_tx db'"
  using assms(2)
proof (cases rule: lease_insert_Inr)
  case 1
  then show ?thesis using assms(1) by simp
next
  case 2
  have keys: "workspace_id (new_lease now a) = il_workspaceId a" "ws_run_id (new_lease now a) = il_runId a"
    "ws_review_id (new_lease now a) = il_reviewId a" by (simp_all add: new_lease_def)
  have dist: "distinct (map workspace_id (ws_leases db @ [new_lease now a]))"
    using assms(1) 2(3) keys by (simp add: ws_wf_tx_def leases_ok_def)
  have "active_runs_unique (ws_leases db @ [new_lease now a])"
    unfolding active_unique_iff [OF dist]
  proof (intro ballI impI)
    fix x y assume "x \<in> set (ws_leases db @ [new_lease now a])" "y \<in> set (ws_leases db @ [new_lease now a])"
      and act: "active_lease x" "active_lease y" "ws_run_id x = ws_run_id y"
    then consider "x \<in> set (ws_leases db)" "y \<in> set (ws_leases db)" | "x = new_lease now a" | "y = new_lease now a" by auto
    then show "workspace_id x = workspace_id y"
    proof cases
      case 1
      then show ?thesis using leases_ok_unique [OF _ 1 act] assms(1) by (simp add: ws_wf_tx_def)
    qed (use act 2(2) keys \<open>x \<in> _\<close> \<open>y \<in> _\<close> in auto)
  qed
  then show ?thesis using assms(1) 2 dist keys by (simp add: ws_wf_tx_def leases_ok_def new_lease_checks)
qed

lemma lease_insert_keeps: "lease_insert now a db = Inr db' \<Longrightarrow> r \<in> set (ws_leases db) \<Longrightarrow> r \<in> set (ws_leases db')"
  by (erule lease_insert_Inr) simp_all

lemma allocate_tx_Inr:
  "allocate_tx e runId reviewId iid db = Inr (wid, db') \<Longrightarrow> lease_insert (ae_db_now e) (alloc_args e runId reviewId iid) db = Inr db'"
  by (auto simp: allocate_tx_def split: sum.splits option.splits)

lemma heartbeat_checks: "lease_checks (r\<lparr>ws_heartbeat_at := now\<rparr>) = lease_checks r"
  by (simp add: lease_checks_def)

lemma touchHeartbeat_wf:
  assumes "ws_wf db"
  shows "ws_wf (snd (touchHeartbeat now wid db))"
proof -
  let ?p = "\<lambda>r. workspace_id r = wid \<and> ws_state r = ''ALLOCATED''"
  let ?f = "\<lambda>r. r\<lparr>ws_heartbeat_at := now\<rparr>"
  have dist: "distinct (map workspace_id (upd_where ?p ?f (ws_leases db)))"
    using assms by (subst map_key_upd_where) (simp_all add: ws_wf_def leases_ok_def)
  have uniq: "active_runs_unique (upd_where ?p ?f (ws_leases db))"
    unfolding active_unique_iff [OF dist]
  proof (intro ballI impI)
    fix x y assume xy: "x \<in> set (upd_where ?p ?f (ws_leases db))" "y \<in> set (upd_where ?p ?f (ws_leases db))"
      and act: "active_lease x" "active_lease y" "ws_run_id x = ws_run_id y"
    have same: "\<exists>z\<in>set (ws_leases db). workspace_id z = workspace_id u \<and> ws_run_id z = ws_run_id u \<and> active_lease z = active_lease u"
      if "u \<in> set (upd_where ?p ?f (ws_leases db))" for u
      using that by (auto simp: set_upd_where active_lease_def)
    obtain x0 y0 where "x0 \<in> set (ws_leases db)" "workspace_id x0 = workspace_id x" "ws_run_id x0 = ws_run_id x" "active_lease x0"
      "y0 \<in> set (ws_leases db)" "workspace_id y0 = workspace_id y" "ws_run_id y0 = ws_run_id y" "active_lease y0"
      using same [OF xy(1)] same [OF xy(2)] act by auto
    then show "workspace_id x = workspace_id y"
      using leases_ok_unique [of db x0 y0] assms act(3) by (simp add: ws_wf_def)
  qed
  have "\<forall>r\<in>set (upd_where ?p ?f (ws_leases db)). lease_checks r \<and> ws_run_id r \<in> set (run_ids (ws_review db))
      \<and> ws_review_id r \<in> review_id ` set (reviews (ws_review db))"
    using assms by (auto simp: ws_wf_def leases_ok_def set_upd_where heartbeat_checks)
  then show ?thesis using assms dist uniq by (simp add: ws_wf_def leases_ok_def touchHeartbeat_def Let_def)
qed

lemma touchHeartbeat_keeps: "r \<in> set (ws_leases db) \<Longrightarrow> ws_state r = ''RELEASED'' \<Longrightarrow> r \<in> set (ws_leases (snd (touchHeartbeat now wid db)))"
  by (simp add: touchHeartbeat_def Let_def upd_where_mem_unchanged)

lemma purge_wf: "ws_wf db \<Longrightarrow> ws_wf (snd (runWorkspaceReleasedRetentionActivity now db))"
  by (auto simp: ws_wf_def leases_ok_def runWorkspaceReleasedRetentionActivity_def active_runs_unique_def
      distinct_map filter_filter conj_commute intro: inj_on_subset)

lemma failed_cleanup_body:
  assumes "ws_wf_tx db" and "transitionLease a db = Inr (x, db1)" and "ta_toState a = ''FAILED_CLEANUP''" and "ta_workspaceId a = wid"
    and "update_leases (\<lambda>r. workspace_id r = wid) (fail_mark now reason) db1 = Inr db2"
  shows "ws_wf_tx db2" and "r \<in> set (ws_leases db) \<Longrightarrow> ws_state r = ''RELEASED'' \<Longrightarrow> r \<in> set (ws_leases db2)"
proof -
  have wf1: "ws_wf_tx db1" using transitionLease_wf [OF assms(1,2)] .
  then have "leases_ok db2" using update_leases_ok [OF _ assms(5)] by (simp add: ws_wf_tx_def)
  then show "ws_wf_tx db2" using wf1 update_leases_Inr(1) [OF assms(5)] by (simp add: ws_wf_tx_def)
  show "r \<in> set (ws_leases db) \<Longrightarrow> ws_state r = ''RELEASED'' \<Longrightarrow> r \<in> set (ws_leases db2)"
    using transitionLease_rests [OF assms(1,2)] assms(3,4) update_leases_Inr(1) [OF assms(5)]
    by (simp add: upd_where_mem_unchanged)
qed

lemma orphan_loop_wf: "ws_wf_tx db \<Longrightarrow> ws_wf_tx (snd (snd (orphan_loop e k ids ab db n)))"
  by (induction ids arbitrary: k ab db n) (auto split: option.splits sum.splits dest: transitionLease_wf)

lemma orphan_loop_rests:
  assumes "ws_state r = ''RELEASED''"
  shows "ws_wf_tx db \<Longrightarrow> r \<in> set (ws_leases db) \<Longrightarrow> r \<in> set (ws_leases (snd (snd (orphan_loop e k ids ab db n))))"
proof (induction ids arbitrary: k ab db n)
  case (Cons wid ids)
  have "r \<in> set (ws_leases db')" "ws_wf_tx db'" if "transitionLease (sweep_args e k wid) db = Inr (x, db')" for x db'
    using transitionLease_rests(1) [OF Cons.prems(1) that Cons.prems(2) assms] transitionLease_wf [OF Cons.prems(1) that] by auto
  then show ?case using Cons by (auto split: option.splits sum.splits)
qed simp

lemma transitionLease_commit:
  assumes "transitionLease a db = Inr (x, db')" and "commit_ok (ws_review db)"
  shows "commit_ok (ws_review db')"
  using assms(1)
proof (cases rule: transitionLease_Inr)
  case (applied row db1 d)
  then show ?thesis using assms(2) update_leases_Inr(1) [OF applied(5)] emitWorkflowEvent_Inr [OF applied(6)]
    by (auto simp: commit_ok_def)
qed (use assms(2) in simp)

lemma orphan_loop_commit: "commit_ok (ws_review db) \<Longrightarrow> commit_ok (ws_review (snd (snd (orphan_loop e k ids ab db n))))"
  by (induction ids arbitrary: k ab db n) (auto split: option.splits sum.splits dest: transitionLease_commit)

lemma ws_wf_of_tx: "ws_wf_tx db \<Longrightarrow> commit_ok (ws_review db) \<Longrightarrow> ws_wf db"
  by (simp add: ws_wf_def ws_wf_tx_def review_wf_def review_wf_tx_def)

lemma sweep_wf:
  assumes "ws_wf db"
  shows "ws_wf (snd (runWorkspaceOrphanSweepActivity e hb db))"
proof -
  let ?L = "orphan_loop e 0 (orphan_candidates (se_now e) hb (ws_leases db)) False db 0"
  have "ws_wf (snd (snd ?L))"
    using orphan_loop_wf [OF ws_wf_tx [OF assms]] orphan_loop_commit [of db] assms
    by (intro ws_wf_of_tx) (simp_all add: ws_wf_def review_wf_def)
  then show ?thesis using assms by (cases ?L) (simp add: runWorkspaceOrphanSweepActivity_def)
qed

lemma sweep_keeps:
  assumes "ws_wf db" and "r \<in> set (ws_leases db)" and "ws_state r = ''RELEASED''"
  shows "r \<in> set (ws_leases (snd (runWorkspaceOrphanSweepActivity e hb db)))"
proof -
  let ?L = "orphan_loop e 0 (orphan_candidates (se_now e) hb (ws_leases db)) False db 0"
  have "r \<in> set (ws_leases (snd (snd ?L)))"
    using orphan_loop_rests [OF assms(3) ws_wf_tx [OF assms(1)] assms(2)] by blast
  then show ?thesis using assms(2) by (cases ?L) (simp add: runWorkspaceOrphanSweepActivity_def)
qed

lemma ws_exec_wf: "ws_wf db \<Longrightarrow> ws_wf (ws_exec op db)"
proof (cases op)
  case (TxAllocate e runId reviewId iid)
  then show "ws_wf db \<Longrightarrow> ?thesis"
    using lease_insert_wf [OF ws_wf_tx allocate_tx_Inr] ws_transact_wf [of db "allocate_tx e runId reviewId iid"] by simp
next
  case (TxTransition e k wid f t reason)
  then show "ws_wf db \<Longrightarrow> ?thesis"
    by (auto simp: runTransition_def intro!: ws_transact_wf intro: transitionLease_wf [OF ws_wf_tx] split: sum.splits)
next
  case (TxFailCleanup e wid f reason)
  have "ws_wf_tx db2" if "ws_wf db" "transitionLease (release_args e 1 wid f ''FAILED_CLEANUP'' (Some reason)) db = Inr (x, db1)"
      "update_leases (\<lambda>r. workspace_id r = wid) (fail_mark (re_attemptClock e) reason) db1 = Inr db2" for x db1 db2
    using failed_cleanup_body(1) [OF ws_wf_tx [OF that(1)] that(2) _ _ that(3)] by (simp add: release_args_def)
  then show "ws_wf db \<Longrightarrow> ?thesis" using TxFailCleanup
    by (auto simp: transitionToFailedCleanup_def intro!: ws_transact_wf split: sum.splits)
qed (simp_all add: touchHeartbeat_wf sweep_wf purge_wf)

lemma ws_exec_keeps:
  assumes "ws_wf db" and "r \<in> set (ws_leases db)" and "ws_state r = ''RELEASED''" and "\<And>now. op = TxPurge now \<Longrightarrow> \<not> purgeable now r"
  shows "r \<in> set (ws_leases (ws_exec op db))"
proof (cases op)
  case (TxAllocate e runId reviewId iid)
  then show ?thesis using assms(2) ws_transact_cases [of "allocate_tx e runId reviewId iid" db]
    by (auto dest!: allocate_tx_Inr dest: lease_insert_keeps)
next
  case (TxTransition e k wid f t reason)
  then show ?thesis using assms(2) transitionLease_rests(1) [OF ws_wf_tx [OF assms(1)] _ assms(2,3)]
    by (auto simp: runTransition_def ws_transact_def split: sum.splits)
next
  case (TxFailCleanup e wid f reason)
  have "r \<in> set (ws_leases db2)" if "transitionLease (release_args e 1 wid f ''FAILED_CLEANUP'' (Some reason)) db = Inr (x, db1)"
      "update_leases (\<lambda>r. workspace_id r = wid) (fail_mark (re_attemptClock e) reason) db1 = Inr db2" for x db1 db2
    using failed_cleanup_body(2) [OF ws_wf_tx [OF assms(1)] that(1) _ _ that(2) assms(2,3)] by (simp add: release_args_def)
  then show ?thesis using TxFailCleanup assms(2) by (auto simp: transitionToFailedCleanup_def ws_transact_def split: sum.splits)
next
  case (TxPurge now)
  then show ?thesis using assms(2,4) by (simp add: runWorkspaceReleasedRetentionActivity_def)
qed (use assms in \<open>simp_all add: touchHeartbeat_keeps sweep_keeps\<close>)

interpretation wsh: history ws_exec ws_wf
  by unfold_locales (rule ws_exec_wf)

text \<open>A RELEASED lease is final: over any interleaving of the transactions of workers, releases, sweeps
  and purges the tables stay well-formed, and the row stays in the table exactly as it is (same state, same stamps)
  unless a purge runs whose clock is past the retention period of that row.\<close>

theorem released_lease_final:
  assumes "ws_wf db" and "r \<in> set (ws_leases db)" and "ws_state r = ''RELEASED''"
  shows "ws_wf (fold ws_exec ops db)
    \<and> (r \<in> set (ws_leases (fold ws_exec ops db)) \<or> (\<exists>now. TxPurge now \<in> set ops \<and> purgeable now r))"
proof -
  have "r \<in> set (ws_leases (fold ws_exec ops db)) \<or> (\<exists>now. TxPurge now \<in> set ops \<and> purgeable now r)"
    using assms(1,2)
  proof (induction ops arbitrary: db)
    case (Cons op ops)
    show ?case
    proof (cases "\<exists>now. op = TxPurge now \<and> purgeable now r")
      case True
      then show ?thesis by auto
    next
      case False
      then have "r \<in> set (ws_leases (ws_exec op db))" using ws_exec_keeps [OF Cons.prems assms(3)] by blast
      then show ?thesis using Cons.IH [OF ws_exec_wf [OF Cons.prems(1)]] by auto
    qed
  qed simp
  then show ?thesis using wsh.fold_inv [OF assms(1)] by simp
qed

section \<open>A concrete workspace\<close>

definition demo_review_db :: review_db where
  "demo_review_db = \<lparr>reviews = [\<lparr>review_id = ''rv'', provider = ''github'', repo_id = 1, rv_pr_number = 7, provider_pr_id = ''7'', pr_node_id = None,
       branch = None, current_run_id = None\<rparr>],
     repositories = [],
     review_runs = [\<lparr>run_id = ''run'', rr_review_id = ''rv'', trigger_type = ''pr_opened'', triggered_by = None, attempt_number = 1,
       lifecycle_state = ''RUNNING'', parent_run_id = None, supersedes_run_id = None, superseded_by_run_id = None,
       run_cancel_reason = None, rr_started_at = 0, completed_at = None, failed_at = None, cancelled_at = None\<rparr>],
     review_jobs = [], pr_review_mutex = [], workflow_events = [], audit_events = []\<rparr>"

definition demo_lease :: "uuid \<Rightarrow> string \<Rightarrow> workspace_lease" where
  "demo_lease wid st = \<lparr>workspace_id = wid, ws_run_id = ''run'', ws_review_id = ''rv'', ws_installation_id = ''inst'', ws_state = st,
     pod_name = ''pod'', pod_namespace = ''ns'', node_name = None, worker_id = ''worker'', ws_created_at = 0, ws_heartbeat_at = 0,
     orphan_check_after = 0, release_requested_at = (if st \<in> {''ALLOCATED'', ''ORPHANED''} then None else Some 0), release_requested_by = None,
     ws_released_at = (if st = ''RELEASED'' then Some 0 else None), cleanup_failed_at = (if st = ''FAILED_CLEANUP'' then Some 0 else None),
     last_cleanup_attempt_at = None, cleanup_attempts = 0, last_cleanup_error = None\<rparr>"

definition demo_ws :: "workspace_lease list \<Rightarrow> ws_db" where
  "demo_ws t = \<lparr>ws_leases = t, ws_review = demo_review_db\<rparr>"

lemma demo_review_wf: "review_wf demo_review_db"
  by (simp add: review_wf_def runs_ok_def refs_ok_def seq_gap_free_def commit_ok_def demo_review_db_def run_checks_def
      LIFECYCLE_STATES_def active_states_def TRIGGER_TYPES_def)

lemma demo_lease_checks: "st \<in> set LEASE_STATES \<Longrightarrow> lease_checks (demo_lease wid st)"
  by (auto simp: LEASE_STATES_def lease_checks_def demo_lease_def)

lemma demo_ws_wf:
  assumes "distinct (map fst xs)" and "\<forall>x\<in>set xs. snd x \<in> set LEASE_STATES"
    and "length (filter (\<lambda>x. snd x \<in> {''ALLOCATED'', ''RELEASE_REQUESTED''}) xs) \<le> 1"
  shows "ws_wf (demo_ws (map (\<lambda>(wid, st). demo_lease wid st) xs))"
proof -
  let ?t = "map (\<lambda>(wid, st). demo_lease wid st) xs"
  have ids: "map workspace_id ?t = map fst xs" by (simp add: demo_lease_def split_beta)
  have "map ws_run_id (filter active_lease ?t) = map (\<lambda>_. ''run'') (filter (\<lambda>x. snd x \<in> {''ALLOCATED'', ''RELEASE_REQUESTED''}) xs)"
    by (simp add: filter_map o_def split_beta active_lease_def demo_lease_def)
  then have "active_runs_unique ?t"
    using assms(3) unfolding active_runs_unique_def by (cases "filter (\<lambda>x. snd x \<in> {''ALLOCATED'', ''RELEASE_REQUESTED''}) xs") auto
  moreover have "\<forall>r\<in>set ?t. lease_checks r \<and> ws_run_id r \<in> set (run_ids demo_review_db) \<and> ws_review_id r \<in> review_id ` set (reviews demo_review_db)"
    using assms(2) by (auto simp: demo_lease_checks) (simp_all add: demo_lease_def demo_review_db_def)
  moreover have "distinct (map workspace_id ?t)" using assms(1) unfolding ids .
  ultimately have "leases_ok (demo_ws ?t)" unfolding leases_ok_def by (simp add: demo_ws_def del: map_map set_map)
  then show ?thesis using demo_review_wf by (simp add: demo_ws_def ws_wf_def)
qed

theorem released_lease_final_witness:
  "ws_wf (fold ws_exec [TxHeartbeat 5 ''a'', TxPurge 10] (demo_ws [demo_lease ''a'' ''RELEASED'']))
    \<and> demo_lease ''a'' ''RELEASED'' \<in> set (ws_leases (fold ws_exec [TxHeartbeat 5 ''a'', TxPurge 10] (demo_ws [demo_lease ''a'' ''RELEASED''])))"
proof -
  have "ws_wf (demo_ws [demo_lease ''a'' ''RELEASED''])" using demo_ws_wf [of "[(''a'', ''RELEASED'')]"] by (simp add: LEASE_STATES_def)
  moreover have "demo_lease ''a'' ''RELEASED'' \<in> set (ws_leases (demo_ws [demo_lease ''a'' ''RELEASED'']))" by (simp add: demo_ws_def)
  moreover have "ws_state (demo_lease ''a'' ''RELEASED'') = ''RELEASED''" by (simp add: demo_lease_def)
  moreover have "\<not> purgeable 10 (demo_lease ''a'' ''RELEASED'')" by (simp add: purgeable_def demo_lease_def RELEASED_LEASE_RETENTION_MS_def)
  ultimately show ?thesis using released_lease_final [of "demo_ws [demo_lease ''a'' ''RELEASED'']" "demo_lease ''a'' ''RELEASED''" "[TxHeartbeat 5 ''a'', TxPurge 10]"]
    by auto
qed

end
