(* ===== verification/Workspace_Release.thy ===== *)
theory Workspace_Release
  imports Workspace
begin

text \<open>
  What a release does when nothing interferes, in every state of the lease and on every outcome of the
  path check and of the removal; and two histories in which the leases and the directories, or the
  report of the orphan sweep and the table, come apart.
\<close>

section \<open>Transitions that apply\<close>

lemma next_seq_fresh:
  assumes "seq_gap_free es" and "x \<in> set es" and "ev_run_id x = rid"
  shows "sequence_no x < next_seq rid es"
proof -
  have "sequence_no x \<in> set (map sequence_no (filter (\<lambda>e. ev_run_id e = rid) es))" using assms(2,3) by auto
  then show ?thesis using assms(1) by (simp add: next_seq_gap_free seq_gap_free_def del: set_map)
qed

lemma next_seq_pos: "seq_gap_free es \<Longrightarrow> 1 \<le> next_seq rid es"
  by (simp add: next_seq_gap_free)

lemma emit_ok:
  assumes "review_wf_tx db" and "rid \<in> set (run_ids db)" and "rvid \<in> review_id ` set (reviews db)"
    and "et \<in> set EVENT_TYPES" and "eid \<notin> event_id ` set (workflow_events db)"
  shows "\<exists>d. emitWorkflowEvent clk eid prov rid rvid et payload None (Some iid) db = Inr d
    \<and> review_runs d = review_runs db \<and> reviews d = reviews db \<and> event_id ` set (workflow_events d) = insert eid (event_id ` set (workflow_events db))"
proof -
  have gap: "seq_gap_free (workflow_events db)" using assms(1) by (simp add: review_wf_tx_def)
  have "\<not> (event_id x = eid \<or> ev_run_id x = rid \<and> sequence_no x = next_seq rid (workflow_events db))"
    if "x \<in> set (workflow_events db)" for x
    using that assms(5) next_seq_fresh [OF gap that] by force
  then show ?thesis
    using assms(2-4) next_seq_pos [OF gap, of rid] by (auto simp: emitWorkflowEvent_def insert_event_def)
qed

lemma eventTypeFor_known: "s \<in> set LEASE_STATES \<Longrightarrow> eventTypeFor s \<in> set EVENT_TYPES"
  by (auto simp: LEASE_STATES_def eventTypeFor_def EVENT_TYPES_def)

text \<open>A write to one lease that the partial unique index admits.\<close>

lemma update_one_lease:
  assumes "leases_ok db" and "lease_getById wid db = Some row"
    and "workspace_id (f row) = wid" and "ws_run_id (f row) = ws_run_id row" and "lease_checks (f row)"
    and "active_lease (f row) \<Longrightarrow> active_lease row \<or>
      (\<forall>x\<in>set (ws_leases db). active_lease x \<longrightarrow> ws_run_id x = ws_run_id row \<longrightarrow> workspace_id x = wid)"
  shows "update_leases (\<lambda>r. workspace_id r = wid) f db = Inr (db\<lparr>ws_leases := upd_where (\<lambda>r. workspace_id r = wid) f (ws_leases db)\<rparr>)"
proof -
  let ?t = "upd_where (\<lambda>r. workspace_id r = wid) f (ws_leases db)"
  have row: "row \<in> set (ws_leases db)" "workspace_id row = wid" using getById_Some [OF assms(2)] by auto
  have only: "r = row" if "r \<in> set (ws_leases db)" "workspace_id r = wid" for r
    using getById_unique [OF assms(1) that(1)] that(2) assms(2) by simp
  have t: "set ?t \<subseteq> insert (f row) {r \<in> set (ws_leases db). workspace_id r \<noteq> wid}"
    using only by (auto simp: set_upd_where)
  have "map workspace_id ?t = map workspace_id (ws_leases db)"
    unfolding upd_where_def using only assms(3) by (auto simp: row(2))
  then have dist: "distinct (map workspace_id ?t)" using assms(1) by (simp add: leases_ok_def)
  have clash: False if "x \<in> set (ws_leases db)" "workspace_id x \<noteq> wid" "active_lease x" "active_lease (f row)" "ws_run_id x = ws_run_id row" for x
    using leases_ok_unique [OF assms(1) that(1) row(1) that(3) _ that(5)] assms(6) [OF that(4)] that row(2) by blast
  have "active_runs_unique ?t"
    unfolding active_unique_iff [OF dist]
  proof (intro ballI impI)
    fix x y assume xy: "x \<in> set ?t" "y \<in> set ?t" and act: "active_lease x" "active_lease y" "ws_run_id x = ws_run_id y"
    consider "x = f row" | "y = f row" | "x \<in> set (ws_leases db)" "y \<in> set (ws_leases db)" "workspace_id x \<noteq> wid" "workspace_id y \<noteq> wid"
      using t xy by blast
    then show "workspace_id x = workspace_id y"
    proof cases
      case 1
      then show ?thesis using t xy(2) act clash [of y] assms(3,4) by auto
    next
      case 2
      then show ?thesis using t xy(1) act clash [of x] assms(3,4) by auto
    next
      case 3
      then show ?thesis using leases_ok_unique [OF assms(1) 3(1,2) act] by simp
    qed
  qed
  then show ?thesis using only assms(5) by (auto simp: update_leases_def Let_def)
qed

lemma getById_update_one:
  assumes "lease_getById wid db = Some row" and "ws_leases db' = upd_where (\<lambda>r. workspace_id r = wid) f (ws_leases db)"
    and "\<And>r. workspace_id (f r) = workspace_id r"
  shows "lease_getById wid db' = Some (f row)"
  using assms(1) getById_Some [OF assms(1)]
  unfolding lease_getById_def assms(2) lookup_upd_where [of "\<lambda>r. workspace_id r = wid" workspace_id f, OF assms(3)] by simp

text \<open>The tables after one lease has been written: the invariant, the row, the other rows, and no other
  event ids than the given ones.\<close>

definition lease_now :: "ws_db \<Rightarrow> uuid \<Rightarrow> workspace_lease \<Rightarrow> uuid set \<Rightarrow> ws_db \<Rightarrow> bool" where
  "lease_now db wid row eids db' \<longleftrightarrow> ws_wf db' \<and> lease_getById wid db' = Some row
     \<and> (\<forall>r\<in>set (ws_leases db). workspace_id r \<noteq> wid \<longrightarrow> r \<in> set (ws_leases db'))
     \<and> event_id ` set (workflow_events (ws_review db')) \<subseteq> eids \<union> event_id ` set (workflow_events (ws_review db))"

lemma lease_now_trans: "lease_now db wid row A db1 \<Longrightarrow> lease_now db1 wid row' B db2 \<Longrightarrow> lease_now db wid row' (A \<union> B) db2"
  unfolding lease_now_def by blast

lemma lease_now_mono: "lease_now db wid row A db' \<Longrightarrow> A \<subseteq> B \<Longrightarrow> lease_now db wid row B db'"
  unfolding lease_now_def by blast

lemma transition_applies:
  assumes "ws_wf db" and row: "lease_getById (ta_workspaceId a) db = Some row" and "ws_state row = ta_fromState a"
    and "ta_fromState a \<noteq> ta_toState a" and "ta_toState a \<in> set LEASE_STATES" and "ta_activity a \<noteq> []"
    and "ta_expectedInstallationId a = None" and "ta_eventId a \<notin> event_id ` set (workflow_events (ws_review db))"
    and f: "f = flip_lease (ta_fromState a) (ta_toState a) (ta_activity a) (of_date (ta_stampClock a))"
    and "lease_checks (f row)"
    and "active_lease (f row) \<Longrightarrow> active_lease row \<or>
      (\<forall>x\<in>set (ws_leases db). active_lease x \<longrightarrow> ws_run_id x = ws_run_id row \<longrightarrow> workspace_id x = ta_workspaceId a)"
  shows "\<exists>db'. transitionLease a db = Inr (LeaseApplied, db') \<and> lease_now db (ta_workspaceId a) (f row) {ta_eventId a} db'"
proof -
  let ?p = "\<lambda>r. workspace_id r = ta_workspaceId a"
  define db1 where "db1 = db\<lparr>ws_leases := upd_where ?p f (ws_leases db)\<rparr>"
  have mem: "row \<in> set (ws_leases db)" "workspace_id row = ta_workspaceId a" using getById_Some [OF row] by auto
  have ok: "leases_ok db" "review_wf_tx (ws_review db)" using ws_wf_tx [OF assms(1)] by (simp_all add: ws_wf_tx_def)
  have refs: "lease_checks row" "ws_run_id row \<in> set (run_ids (ws_review db))" "ws_review_id row \<in> review_id ` set (reviews (ws_review db))"
    using ok(1) mem(1) by (simp_all add: leases_ok_def)
  have up: "update_leases ?p f db = Inr db1"
    unfolding db1_def by (rule update_one_lease [OF ok(1) row]) (use assms mem in \<open>auto simp: f\<close>)
  obtain d where d: "emitWorkflowEvent (ta_eventClock a) (ta_eventId a) ''github'' (ws_run_id row) (ws_review_id row)
      (eventTypeFor (ta_toState a)) (lease_transition_payload a) None (Some (ws_installation_id row)) (ws_review db) = Inr d"
      "event_id ` set (workflow_events d) = insert (ta_eventId a) (event_id ` set (workflow_events (ws_review db)))"
    using emit_ok [OF ok(2) refs(2,3) eventTypeFor_known [OF assms(5)] assms(8)] by blast
  have from_known: "ta_fromState a \<in> set LEASE_STATES" using refs(1) assms(3) by (simp add: lease_checks_def)
  have tr: "transitionLease a db = Inr (LeaseApplied, db1\<lparr>ws_review := d\<rparr>)"
    using assms(3-7) row up d(1) from_known eventTypeFor_known [OF assms(5)]
    by (simp add: transitionLease_def apply_transition_def lift_review_def lease_getById_def f db1_def)
  have "ws_wf (db1\<lparr>ws_review := d\<rparr>)"
    using transitionLease_wf [OF ws_wf_tx [OF assms(1)] tr] transitionLease_commit [OF tr] assms(1)
    by (intro ws_wf_of_tx) (simp_all add: ws_wf_def review_wf_def)
  moreover have "lease_getById (ta_workspaceId a) (db1\<lparr>ws_review := d\<rparr>) = Some (f row)"
    by (rule getById_update_one [OF row]) (simp_all add: db1_def f)
  ultimately show ?thesis using tr d(2)
    by (auto simp: lease_now_def db1_def intro: upd_where_mem_unchanged)
qed

section \<open>Release\<close>

lemma commit_of_wf: "ws_wf db \<Longrightarrow> commit_ok (ws_review db)"
  by (simp add: ws_wf_def review_wf_def)

definition event_free :: "ws_db \<Rightarrow> uuid \<Rightarrow> bool" where
  "event_free db eid \<longleftrightarrow> eid \<notin> event_id ` set (workflow_events (ws_review db))"

lemma runTransition_ok:
  assumes "ws_wf db" and row: "lease_getById wid db = Some row" and "fromState = ws_state row" and "fromState \<noteq> toState"
    and "toState \<in> set LEASE_STATES" and "event_free db (re_eventId e k)"
    and f: "f = flip_lease fromState toState ''release_workspace_activity'' (of_date (re_stampClock e k))" and "lease_checks (f row)"
    and "active_lease (f row) \<Longrightarrow> active_lease row \<or>
      (\<forall>x\<in>set (ws_leases db). active_lease x \<longrightarrow> ws_run_id x = ws_run_id row \<longrightarrow> workspace_id x = wid)"
  shows "\<exists>db'. runTransition e k wid fromState toState reason db = (Inr (), db') \<and> lease_now db wid (f row) {re_eventId e k} db'"
proof -
  let ?a = "release_args e k wid fromState toState reason"
  have a: "ta_workspaceId ?a = wid" "ta_fromState ?a = fromState" "ta_toState ?a = toState" "ta_activity ?a = ''release_workspace_activity''"
    "ta_stampClock ?a = re_stampClock e k" "ta_eventId ?a = re_eventId e k" "ta_expectedInstallationId ?a = None"
    by (simp_all add: release_args_def)
  have "\<exists>db'. transitionLease ?a db = Inr (LeaseApplied, db') \<and> lease_now db (ta_workspaceId ?a) (f row) {ta_eventId ?a} db'"
    by (rule transition_applies [OF assms(1)], unfold a) (use assms(2-8) assms(9) in \<open>simp_all add: event_free_def\<close>)
  then obtain db' where "transitionLease ?a db = Inr (LeaseApplied, db')" "lease_now db wid (f row) {re_eventId e k} db'"
    unfolding a by blast
  then show ?thesis by (auto simp: runTransition_def ws_transact_def lease_now_def commit_of_wf)
qed

text \<open>The row a failed cleanup leaves: the flip is skipped when the lease has failed before.\<close>

definition failed_row :: "release_env \<Rightarrow> string \<Rightarrow> workspace_lease \<Rightarrow> workspace_lease" where
  "failed_row e reason row = fail_mark (re_attemptClock e) reason
     (if ws_state row = ''FAILED_CLEANUP'' then row
      else flip_lease (ws_state row) ''FAILED_CLEANUP'' ''release_workspace_activity'' (of_date (re_stampClock e 1)) row)"

lemma mark_ok:
  assumes "ws_wf db" and row: "lease_getById wid db = Some row"
  shows "\<exists>db'. update_leases (\<lambda>r. workspace_id r = wid) (fail_mark now reason) db = Inr db' \<and> lease_now db wid (fail_mark now reason row) {} db'"
proof -
  let ?f = "fail_mark now reason"
  let ?db' = "db\<lparr>ws_leases := upd_where (\<lambda>r. workspace_id r = wid) ?f (ws_leases db)\<rparr>"
  have ok: "leases_ok db" and mem: "row \<in> set (ws_leases db)" "workspace_id row = wid"
    using assms getById_Some [OF row] by (auto simp: ws_wf_def)
  then have "lease_checks row" by (simp add: leases_ok_def)
  then have chk: "lease_checks (?f row)" using fail_mark_checks [of row] by (simp add: lease_checks_def)
  have up: "update_leases (\<lambda>r. workspace_id r = wid) ?f db = Inr ?db'"
    by (rule update_one_lease [OF ok row]) (use mem chk in \<open>auto simp: active_lease_def\<close>)
  then have "ws_wf ?db'" using update_leases_ok [OF ok up] assms(1) by (simp add: ws_wf_def)
  moreover have "lease_getById wid ?db' = Some (?f row)" by (rule getById_update_one [OF row]) simp_all
  ultimately show ?thesis using up by (auto simp: lease_now_def intro: upd_where_mem_unchanged)
qed

lemma transitionToFailedCleanup_ok:
  assumes "ws_wf db" and row: "lease_getById wid db = Some row" and st: "ws_state row \<in> {''RELEASE_REQUESTED'', ''FAILED_CLEANUP''}"
    and "event_free db (re_eventId e 1)"
  shows "\<exists>db'. transitionToFailedCleanup e wid (ws_state row) reason db = (Inr (), db')
    \<and> lease_now db wid (failed_row e reason row) {re_eventId e 1} db'"
proof -
  let ?a = "release_args e 1 wid (ws_state row) ''FAILED_CLEANUP'' (Some reason)"
  define row1 where "row1 = (if ws_state row = ''FAILED_CLEANUP'' then row
      else flip_lease (ws_state row) ''FAILED_CLEANUP'' ''release_workspace_activity'' (of_date (re_stampClock e 1)) row)"
  have chk: "lease_checks row" using assms(1) getById_Some [OF row] by (auto simp: ws_wf_def leases_ok_def)
  have "\<exists>x db1. transitionLease ?a db = Inr (x, db1) \<and> lease_now db wid row1 {re_eventId e 1} db1"
  proof (cases "ws_state row = ''FAILED_CLEANUP''")
    case True
    then have "transitionLease ?a db = Inr (LeaseAlreadyApplied, db)"
      using row by (simp add: transitionLease_def release_args_def LEASE_STATES_def lease_getById_def)
    then show ?thesis using True assms(1) row by (auto simp: lease_now_def row1_def)
  next
    case False
    then show ?thesis
      using transition_applies [of db ?a row "flip_lease (ws_state row) ''FAILED_CLEANUP'' ''release_workspace_activity'' (of_date (re_stampClock e 1))"]
        assms chk
      by (auto simp: release_args_def event_free_def row1_def LEASE_STATES_def lease_checks_def active_lease_def flip_lease_def stamp_lease_def)
  qed
  then obtain x db1 where tr: "transitionLease ?a db = Inr (x, db1)" and now1: "lease_now db wid row1 {re_eventId e 1} db1" by blast
  then obtain db2 where up: "update_leases (\<lambda>r. workspace_id r = wid) (fail_mark (re_attemptClock e) reason) db1 = Inr db2"
    and now2: "lease_now db1 wid (fail_mark (re_attemptClock e) reason row1) {} db2"
    using mark_ok [of db1 wid row1 "re_attemptClock e" reason] unfolding lease_now_def by blast
  have "lease_now db wid (failed_row e reason row) {re_eventId e 1} db2"
    using lease_now_trans [OF now1 now2] by (simp add: failed_row_def row1_def)
  then show ?thesis using tr up
    by (auto simp: transitionToFailedCleanup_def ws_transact_def lease_now_def commit_of_wf)
qed

text \<open>The part of the release after the hop.\<close>

definition release_outcome :: "release_env \<Rightarrow> workspace_lease \<Rightarrow> (ws_error + unit) \<times> string list \<Rightarrow> string list \<Rightarrow> workspace_lease \<Rightarrow> bool" where
  "release_outcome e row r dirs row' \<longleftrightarrow>
     (let failed = (\<lambda>reason. ws_state row' = ''FAILED_CLEANUP'' \<and> cleanup_attempts row' = cleanup_attempts row + 1
            \<and> last_cleanup_error row' = Some (take MAX_CLEANUP_ERROR_LEN reason) \<and> last_cleanup_attempt_at row' = Some (of_date (re_attemptClock e))) in
      case validateCleanupPath (re_fs e) (re_root e) (deriveWorkspacePath (re_root e) (ws_installation_id row) (ws_run_id row)) of
        Inl x \<Rightarrow> r = (Inl x, dirs) \<and> failed ''security_violation''
      | Inr p \<Rightarrow> (case fs_rm (re_fs e) p of
          Some msg \<Rightarrow> r = (Inl (WsIo msg), dirs) \<and> failed (''rm failed: '' @ msg)
        | None \<Rightarrow> r = (Inr (), rm_dir p dirs) \<and> ws_state row' = ''RELEASED''
            \<and> ws_released_at row' = Some (of_date (re_stampClock e 1)) \<and> cleanup_attempts row' = cleanup_attempts row))"

lemma failed_row_facts:
  "ws_state (failed_row e reason row) = ''FAILED_CLEANUP''" "cleanup_attempts (failed_row e reason row) = cleanup_attempts row + 1"
  "last_cleanup_error (failed_row e reason row) = Some (take MAX_CLEANUP_ERROR_LEN reason)"
  "last_cleanup_attempt_at (failed_row e reason row) = Some (of_date (re_attemptClock e))"
  by (simp_all add: failed_row_def fail_mark_def)

lemma flip_released:
  assumes "lease_checks row" and st: "ws_state row \<in> {''RELEASE_REQUESTED'', ''FAILED_CLEANUP''}"
    and f: "f = flip_lease (ws_state row) ''RELEASED'' act now"
  shows "lease_checks (f row)" and "\<not> active_lease (f row)" and "ws_released_at (f row) = Some now"
proof -
  have "cleanup_failed_at (f row) = None" "release_requested_at (f row) = release_requested_at row"
    using assms(1) st unfolding f by (auto simp: lease_checks_def flip_lease_def stamp_lease_def)
  moreover show rel: "ws_released_at (f row) = Some now"
    unfolding f by (simp add: flip_lease_def stamp_lease_def Let_def)
  moreover have "ws_state (f row) = ''RELEASED''" "cleanup_attempts (f row) = cleanup_attempts row" by (simp_all add: f)
  moreover have "release_requested_at row \<noteq> None" "0 \<le> cleanup_attempts row" using assms(1) st by (auto simp: lease_checks_def)
  ultimately show "lease_checks (f row)" "\<not> active_lease (f row)"
    by (simp_all add: lease_checks_def active_lease_def LEASE_STATES_def)
qed

lemma release_files_ok:
  assumes wf: "ws_wf (ww_db w)" and row: "lease_getById wid (ww_db w) = Some row" and st: "ws_state row \<in> {''RELEASE_REQUESTED'', ''FAILED_CLEANUP''}"
    and ev: "event_free (ww_db w) (re_eventId e 1)" and other: "re_other e = (\<lambda>_. id)"
    and keys: "workspace_id row0 = wid" "ws_installation_id row0 = ws_installation_id row" "ws_run_id row0 = ws_run_id row"
  shows "\<exists>row' db' r ds. release_files e row0 (ws_state row) w = (r, \<lparr>ww_db = db', ww_dirs = ds\<rparr>)
    \<and> lease_now (ww_db w) wid row' {re_eventId e 1} db' \<and> release_outcome e row (r, ds) (ww_dirs w) row'"
proof -
  let ?v = "validateCleanupPath (re_fs e) (re_root e) (deriveWorkspacePath (re_root e) (ws_installation_id row) (ws_run_id row))"
  have fail: "\<exists>db'. fail_cleanup e wid (ws_state row) reason x w = (Inl x, \<lparr>ww_db = db', ww_dirs = ww_dirs w\<rparr>)
      \<and> lease_now (ww_db w) wid (failed_row e reason row) {re_eventId e 1} db'" for reason x
    using transitionToFailedCleanup_ok [OF wf row st ev, of reason] by (cases w) (auto simp: fail_cleanup_def)
  have chk: "lease_checks row" using wf getById_Some [OF row] by (auto simp: ws_wf_def leases_ok_def)
  show ?thesis
  proof (cases ?v)
    case (Inl x)
    then show ?thesis using fail [of "''security_violation''" x] keys
      by (force simp: release_files_def release_outcome_def failed_row_facts)
  next
    case (Inr p)
    show ?thesis
    proof (cases "fs_rm (re_fs e) p")
      case (Some msg)
      then show ?thesis using fail [of "''rm failed: '' @ msg" "WsIo msg"] keys Inr
        by (force simp: release_files_def release_outcome_def failed_row_facts)
    next
      case None
      let ?f = "flip_lease (ws_state row) ''RELEASED'' ''release_workspace_activity'' (of_date (re_stampClock e 1))"
      have "lease_checks (?f row)" "\<not> active_lease (?f row)" "ws_released_at (?f row) = Some (of_date (re_stampClock e 1))"
        using flip_released [OF chk st] by auto
      moreover from this obtain db' where "runTransition e 1 wid (ws_state row) ''RELEASED'' None (ww_db w) = (Inr (), db')"
        "lease_now (ww_db w) wid (?f row) {re_eventId e 1} db'"
        using runTransition_ok [OF wf row refl _ _ ev refl, of "''RELEASED''" None] st by (auto simp: LEASE_STATES_def)
      ultimately show ?thesis using Inr None keys other
        by (cases w) (force simp: release_files_def release_outcome_def)
    qed
  qed
qed

lemma hop_checks:
  assumes "lease_checks row" and st: "ws_state row \<in> {''ALLOCATED'', ''ORPHANED''}"
    and f: "f = flip_lease (ws_state row) ''RELEASE_REQUESTED'' act now"
  shows "lease_checks (f row)"
proof -
  have "cleanup_failed_at row = None" "ws_released_at row = None" "0 \<le> cleanup_attempts row"
    using assms(1) st by (auto simp: lease_checks_def)
  moreover have "cleanup_failed_at (f row) = cleanup_failed_at row" "ws_released_at (f row) = ws_released_at row"
    "release_requested_at (f row) = Some now" "ws_state (f row) = ''RELEASE_REQUESTED''" "cleanup_attempts (f row) = cleanup_attempts row"
    using st unfolding f by (auto simp: flip_lease_def stamp_lease_def)
  ultimately show ?thesis by (simp add: lease_checks_def LEASE_STATES_def)
qed

lemma lease_states_cases:
  "lease_checks row \<Longrightarrow> ws_state row \<noteq> ''RELEASED'' \<Longrightarrow>
     ws_state row \<in> {''ALLOCATED'', ''ORPHANED''} \<or> ws_state row \<in> {''RELEASE_REQUESTED'', ''FAILED_CLEANUP''}"
  by (auto simp: lease_checks_def LEASE_STATES_def)

lemma release_outcome_cong:
  "ws_installation_id row = ws_installation_id row1 \<Longrightarrow> ws_run_id row = ws_run_id row1 \<Longrightarrow> cleanup_attempts row = cleanup_attempts row1
    \<Longrightarrow> release_outcome e row1 = release_outcome e row"
  by (simp add: release_outcome_def fun_eq_iff split: sum.splits option.splits)

text \<open>Releasing a lease that is not yet RELEASED, without interference: a directory outside the root
  or a removal that fails leaves the lease FAILED_CLEANUP with one more attempt and the bounded error text, and the
  error is thrown; otherwise exactly the run's directory tree is removed and the lease is RELEASED. Every other
  lease is as before and the tables stay well-formed. An ORPHANED lease must be the only candidate for its run's active slot.\<close>

theorem releaseWorkspace_correct:
  assumes wf: "ws_wf (ww_db w)" and row: "lease_getById wid (ww_db w) = Some row" and st: "ws_state row \<noteq> ''RELEASED''"
    and other: "re_other e = (\<lambda>_. id)"
    and ev: "event_free (ww_db w) (re_eventId e 0)" "event_free (ww_db w) (re_eventId e 1)" "re_eventId e 0 \<noteq> re_eventId e 1"
    and orphan: "ws_state row = ''ORPHANED'' \<Longrightarrow> findActiveByRun (ws_run_id row) (ww_db w) = None"
  shows "\<exists>row' db' r ds. releaseWorkspace e wid w = (r, \<lparr>ww_db = db', ww_dirs = ds\<rparr>)
    \<and> lease_now (ww_db w) wid row' {re_eventId e 0, re_eventId e 1} db' \<and> release_outcome e row (r, ds) (ww_dirs w) row'"
proof -
  have mem: "row \<in> set (ws_leases (ww_db w))" "workspace_id row = wid" using getById_Some [OF row] by auto
  have chk: "lease_checks row" using wf mem(1) by (simp add: ws_wf_def leases_ok_def)
  from lease_states_cases [OF chk st] show ?thesis
  proof
    assume hop: "ws_state row \<in> {''ALLOCATED'', ''ORPHANED''}"
    let ?f = "flip_lease (ws_state row) ''RELEASE_REQUESTED'' ''release_workspace_activity'' (of_date (re_stampClock e 0))"
    have free: "active_lease row \<or> (\<forall>x\<in>set (ws_leases (ww_db w)). active_lease x \<longrightarrow> ws_run_id x = ws_run_id row \<longrightarrow> workspace_id x = wid)"
      using hop orphan by (auto simp: active_lease_def findActiveByRun_def filter_empty_conv)
    have known: "ws_state row \<noteq> ''RELEASE_REQUESTED''" "''RELEASE_REQUESTED'' \<in> set LEASE_STATES"
      using hop by (auto simp: LEASE_STATES_def)
    obtain db1 where tr: "runTransition e 0 wid (ws_state row) ''RELEASE_REQUESTED'' (Some ''release_workspace_activity entry'') (ww_db w) = (Inr (), db1)"
      and now1: "lease_now (ww_db w) wid (?f row) {re_eventId e 0} db1"
      using runTransition_ok [OF wf row refl known ev(1) refl hop_checks [OF chk hop refl] free] by blast
    let ?w1 = "\<lparr>ww_db = db1, ww_dirs = ww_dirs w\<rparr>"
    have "event_free db1 (re_eventId e 1)" using now1 ev by (auto simp: lease_now_def event_free_def)
    then obtain row' db' r ds where fin: "release_files e row (ws_state (?f row)) ?w1 = (r, \<lparr>ww_db = db', ww_dirs = ds\<rparr>)"
      "lease_now db1 wid row' {re_eventId e 1} db'" "release_outcome e (?f row) (r, ds) (ww_dirs w) row'"
      using release_files_ok [of ?w1 wid "?f row" e row] now1 other mem(2) by (auto simp: lease_now_def)
    have "releaseWorkspace e wid w = (r, \<lparr>ww_db = db', ww_dirs = ds\<rparr>)"
      using row st hop other tr fin(1) by (cases w) (simp add: releaseWorkspace_def)
    moreover have "lease_now (ww_db w) wid row' {re_eventId e 0, re_eventId e 1} db'"
      using lease_now_trans [OF now1 fin(2)] by (simp add: insert_commute)
    moreover have "release_outcome e row (r, ds) (ww_dirs w) row'"
      using fin(3) release_outcome_cong [of row "?f row" e] by simp
    ultimately show ?thesis by blast
  next
    assume late: "ws_state row \<in> {''RELEASE_REQUESTED'', ''FAILED_CLEANUP''}"
    then have "releaseWorkspace e wid w = release_files e row (ws_state row) w"
      using row other by (auto simp: releaseWorkspace_def)
    moreover obtain row' db' r ds where fin: "release_files e row (ws_state row) w = (r, \<lparr>ww_db = db', ww_dirs = ds\<rparr>)"
        "lease_now (ww_db w) wid row' {re_eventId e 1} db'" "release_outcome e row (r, ds) (ww_dirs w) row'"
      using release_files_ok [OF wf row late ev(2) other mem(2) refl refl] by blast
    moreover have "lease_now (ww_db w) wid row' {re_eventId e 0, re_eventId e 1} db'"
      using lease_now_mono [OF fin(2)] by blast
    ultimately show ?thesis by metis
  qed
qed

section \<open>The orphan sweep\<close>

lemma orphan_transition:
  assumes "ws_wf db" and row: "lease_getById wid db = Some row" and st: "ws_state row = ''ALLOCATED''" and "event_free db (se_eventId e k)"
  shows "\<exists>db' row'. transitionLease (sweep_args e k wid) db = Inr (LeaseApplied, db')
    \<and> lease_now db wid row' {se_eventId e k} db' \<and> ws_state row' = ''ORPHANED''"
proof -
  let ?a = "sweep_args e k wid"
  let ?f = "flip_lease ''ALLOCATED'' ''ORPHANED'' (ta_activity ?a) (of_date (ta_stampClock ?a))"
  have a: "ta_workspaceId ?a = wid" "ta_fromState ?a = ''ALLOCATED''" "ta_toState ?a = ''ORPHANED''" "ta_activity ?a \<noteq> []"
    "ta_eventId ?a = se_eventId e k" "ta_expectedInstallationId ?a = None"
    by (simp_all add: sweep_args_def)
  have "lease_checks row" using assms(1) getById_Some [OF row] by (auto simp: ws_wf_def leases_ok_def)
  then have "lease_checks (?f row)" "\<not> active_lease (?f row)"
    using st by (simp_all add: lease_checks_def active_lease_def flip_lease_def stamp_lease_def LEASE_STATES_def)
  then have "\<exists>db'. transitionLease ?a db = Inr (LeaseApplied, db') \<and> lease_now db (ta_workspaceId ?a) (?f row) {ta_eventId ?a} db'"
    using a row st assms(4) by (intro transition_applies [OF assms(1)]) (simp_all add: event_free_def LEASE_STATES_def)
  then show ?thesis unfolding a by (metis flip_lease_simps(5))
qed

lemma orphan_loop_append:
  "orphan_loop e k (xs @ ys) ab db n = (case orphan_loop e k xs ab db n of (n', ab', db') \<Rightarrow> orphan_loop e (k + length xs) ys ab' db' n')"
  by (induction e k xs ab db n rule: orphan_loop.induct) (auto split: option.splits sum.splits)

lemma orphan_loop_aborted: "orphan_loop e k ids True db n = (n, True, db)"
  by (induction ids arbitrary: k) simp_all

text \<open>Without a fault every candidate is flipped and counted.\<close>

lemma orphan_loop_ok:
  assumes "ws_wf db" and "distinct ids" and "\<forall>wid\<in>set ids. \<exists>row. lease_getById wid db = Some row \<and> ws_state row = ''ALLOCATED''"
    and "\<forall>j. k \<le> j \<longrightarrow> j < k + length ids \<longrightarrow> se_fault e j = None \<and> event_free db (se_eventId e j)" and inj: "inj (se_eventId e)"
  shows "\<exists>db'. orphan_loop e k ids False db n = (n + length ids, False, db') \<and> ws_wf db'
    \<and> (\<forall>wid\<in>set ids. \<exists>row. lease_getById wid db' = Some row \<and> ws_state row = ''ORPHANED'')
    \<and> (\<forall>r\<in>set (ws_leases db). workspace_id r \<notin> set ids \<longrightarrow> r \<in> set (ws_leases db'))"
  using assms(1-4)
proof (induction ids arbitrary: k db n)
  case (Cons wid ids)
  obtain row where row: "lease_getById wid db = Some row" "ws_state row = ''ALLOCATED''" using Cons.prems(3) by auto
  have now0: "se_fault e k = None" "event_free db (se_eventId e k)" using Cons.prems(4) [rule_format, of k] by auto
  obtain db1 row1 where tr: "transitionLease (sweep_args e k wid) db = Inr (LeaseApplied, db1)"
    and l1: "lease_now db wid row1 {se_eventId e k} db1" and st1: "ws_state row1 = ''ORPHANED''"
    using orphan_transition [OF Cons.prems(1) row now0(2)] by blast
  have wf1: "ws_wf db1" using l1 by (simp add: lease_now_def)
  have keep: "lease_getById v db1 = Some r" if "lease_getById v db = Some r" "v \<noteq> wid" for v r
  proof -
    have r: "r \<in> set (ws_leases db)" "workspace_id r = v" using getById_Some [OF that(1)] by auto
    then have "r \<in> set (ws_leases db1)" using l1 that(2) by (simp add: lease_now_def)
    then show ?thesis using getById_unique [of db1 r] wf1 r(2) by (simp add: ws_wf_def)
  qed
  have rows: "\<forall>v\<in>set ids. \<exists>row. lease_getById v db1 = Some row \<and> ws_state row = ''ALLOCATED''"
  proof
    fix v assume v: "v \<in> set ids"
    then obtain r where "lease_getById v db = Some r" "ws_state r = ''ALLOCATED''" using Cons.prems(3) by auto
    moreover have "v \<noteq> wid" using v Cons.prems(2) by auto
    ultimately show "\<exists>row. lease_getById v db1 = Some row \<and> ws_state row = ''ALLOCATED''" using keep by blast
  qed
  have envs: "\<forall>j. Suc k \<le> j \<longrightarrow> j < Suc k + length ids \<longrightarrow> se_fault e j = None \<and> event_free db1 (se_eventId e j)"
  proof (intro allI impI)
    fix j assume j: "Suc k \<le> j" "j < Suc k + length ids"
    then have old: "se_fault e j = None" "event_free db (se_eventId e j)" using Cons.prems(4) [rule_format, of j] by auto
    have "se_eventId e j \<noteq> se_eventId e k" using inj j by (auto dest: injD)
    then show "se_fault e j = None \<and> event_free db1 (se_eventId e j)" using old l1 unfolding lease_now_def event_free_def by blast
  qed
  obtain db' where ih: "orphan_loop e (Suc k) ids False db1 (Suc n) = (Suc n + length ids, False, db')" "ws_wf db'"
      "\<forall>v\<in>set ids. \<exists>row. lease_getById v db' = Some row \<and> ws_state row = ''ORPHANED''"
      "\<forall>r\<in>set (ws_leases db1). workspace_id r \<notin> set ids \<longrightarrow> r \<in> set (ws_leases db')"
    using Cons.IH [OF wf1 _ rows envs, where n = "Suc n"] Cons.prems(2) by auto
  have "row1 \<in> set (ws_leases db')" "workspace_id row1 = wid"
    using l1 getById_Some [of wid db1 row1] ih(4) Cons.prems(2) by (auto simp: lease_now_def)
  then have "lease_getById wid db' = Some row1" using getById_unique [of db' row1] ih(2) by (simp add: ws_wf_def)
  then show ?case using ih tr now0 st1 l1 by (auto simp: lease_now_def)
qed simp

lemma orphan_candidates_allocated:
  assumes "ws_wf db" and "wid \<in> set (orphan_candidates now hb (ws_leases db))"
  shows "\<exists>row. lease_getById wid db = Some row \<and> ws_state row = ''ALLOCATED''"
proof -
  obtain l where "l \<in> set (ws_leases db)" "workspace_id l = wid" "ws_state l = ''ALLOCATED''"
    using assms(2) by (auto simp: orphan_candidates_def split: if_splits)
  then show ?thesis using getById_unique [of db l] assms(1) by (auto simp: ws_wf_def)
qed

text \<open>One statement that fails inside the sweep's transaction is caught, logged and skipped, and the
  report still counts the leases flipped before it; but the transaction is aborted, so its commit rolls all of them
  back. The sweep then answers \<open>orphaned_count = k\<close> while no lease is ORPHANED that was not so before.\<close>

theorem orphan_sweep_reports_lost:
  assumes wf: "ws_wf db" and ids: "ids = orphan_candidates (se_now e) heartbeats (ws_leases db)" and dist: "distinct ids"
    and k: "k < length ids" and fault: "se_fault e k = Some code" and before: "\<forall>j<k. se_fault e j = None \<and> event_free db (se_eventId e j)"
    and inj: "inj (se_eventId e)"
  shows "runWorkspaceOrphanSweepActivity e heartbeats db = (k, db)"
proof -
  obtain wid rest where split: "ids = take k ids @ wid # rest" using id_take_nth_drop [OF k] by blast
  have "\<exists>db'. orphan_loop e 0 (take k ids) False db 0 = (0 + length (take k ids), False, db')"
    using orphan_loop_ok [OF wf, of "take k ids" 0 e 0] dist before inj k orphan_candidates_allocated [OF wf] in_set_takeD [of _ k ids]
    unfolding ids by (fastforce simp: distinct_take)
  then obtain db' where pre: "orphan_loop e 0 (take k ids) False db 0 = (k, False, db')" using k by auto
  have "orphan_loop e 0 ids False db 0 = (k, True, db')"
    by (subst split) (simp add: orphan_loop_append pre fault k is_db_error_def orphan_loop_aborted min_absorb2)
  then show ?thesis by (simp add: runWorkspaceOrphanSweepActivity_def ids)
qed

section \<open>A run that is allocated again\<close>

lemma path_join_ne: "parts \<noteq> [] \<Longrightarrow> path_join a parts \<noteq> []"
  by (auto simp: path_join_def join_with_Cons)

text \<open>A path that \<^verbatim>\<open>realpath\<close> resolves is validated alike by both checks.\<close>

lemma validate_same:
  assumes "resolveAndValidate fs wroot c = Inr p" and "c \<noteq> []"
  shows "validateCleanupPath fs wroot c = Inr p"
proof -
  obtain rr where rr: "fs_realpath fs wroot = Some rr" "fs_realpath fs c = Some p" "under_root rr p"
    using assms(1) by (auto simp: resolveAndValidate_def split: option.splits if_splits)
  obtain n where n: "length (split_on CHR ''/'' c) = Suc n" by (cases "split_on CHR ''/'' c") auto
  have "resolveNonStrict fs c = p"
    using rr(2) assms(2) n by (simp add: resolveNonStrict_def Let_def)
  then show ?thesis using rr by (simp add: validateCleanupPath_def)
qed

lemma allocate_fresh:
  assumes wf: "ws_wf (ww_db w)" and none: "findActiveByRun runId (ww_db w) = None"
    and al: "allocateWorkspace a runId reviewId iid w = (Inr h, w1)"
  shows "ws_leases (ww_db w1) = ws_leases (ww_db w) @ [new_lease (ae_db_now a) (alloc_args a runId reviewId iid)]"
    and "wh_workspace_id h = ae_candidate a" and "ws_wf (ww_db w1)" and "ws_review (ww_db w1) = ws_review (ww_db w)"
    and "resolveAndValidate (ae_fs a) (ae_root a) (deriveWorkspacePath (ae_root a) iid runId) = Inr (wh_derived_path h)"
proof -
  let ?new = "new_lease (ae_db_now a) (alloc_args a runId reviewId iid)"
  have inactive: "\<not> (\<exists>r\<in>set (ws_leases (ww_db w)). active_lease r \<and> ws_run_id r = runId)"
    using none by (auto simp: findActiveByRun_def filter_empty_conv)
  obtain wid where tx: "ws_transact (allocate_tx a runId reviewId iid) (ww_db w) = (Inr wid, ww_db w1)" and h: "wh_workspace_id h = wid"
    "resolveAndValidate (ae_fs a) (ae_root a) (deriveWorkspacePath (ae_root a) iid runId) = Inr (wh_derived_path h)"
    using al by (auto simp: allocateWorkspace_def Let_def split: option.splits sum.splits prod.splits)
  then have body: "allocate_tx a runId reviewId iid (ww_db w) = Inr (wid, ww_db w1)"
    by (auto simp: ws_transact_def split: sum.splits if_splits)
  have ins: "lease_insert (ae_db_now a) (alloc_args a runId reviewId iid) (ww_db w) = Inr (ww_db w1)" using allocate_tx_Inr [OF body] .
  then have db1: "ww_db w1 = (ww_db w)\<lparr>ws_leases := ws_leases (ww_db w) @ [?new]\<rparr>"
    using inactive by (auto simp: lease_insert_def alloc_args_def split: if_splits)
  then show "ws_leases (ww_db w1) = ws_leases (ww_db w) @ [?new]" "ws_review (ww_db w1) = ws_review (ww_db w)" by simp_all
  have "findActiveByRun runId (ww_db w1) = Some ?new"
    using none unfolding findActiveByRun_def db1 by (simp add: new_lease_def alloc_args_def active_lease_def)
  then have "wid = workspace_id ?new" using body ins by (simp add: allocate_tx_def)
  then show "wh_workspace_id h = ae_candidate a" using h by (simp add: new_lease_def alloc_args_def)
  show "ws_wf (ww_db w1)"
    using lease_insert_wf [OF ws_wf_tx [OF wf] ins] commit_of_wf [OF wf] by (intro ws_wf_of_tx) (simp_all add: db1)
  show "resolveAndValidate (ae_fs a) (ae_root a) (deriveWorkspacePath (ae_root a) iid runId) = Inr (wh_derived_path h)" by (rule h(2))
qed

text \<open>(C40) The directory of a lease is derived from its run, not from the lease. When the cleanup of an
  earlier lease of the run failed and the run is then allocated again, the reaper retries the old lease as soon as
  its backoff has elapsed: the release succeeds and removes the directory the new, still ALLOCATED lease was handed.\<close>

theorem reap_removes_live_workspace:
  assumes wf: "ws_wf (ww_db w)" and row: "lease_getById wid (ww_db w) = Some row" and st: "ws_state row = ''FAILED_CLEANUP''"
    and budget: "cleanup_attempts row < CLEANUP_MAX_ATTEMPTS" and due: "backoff_elapsed now row"
    and none: "findActiveByRun (ws_run_id row) (ww_db w) = None"
    and al: "allocateWorkspace a (ws_run_id row) (ws_review_id row) (ws_installation_id row) w = (Inr h, w1)"
    and env: "re_fs e = ae_fs a" "re_root e = ae_root a" "re_other e = (\<lambda>_. id)" "event_free (ww_db w) (re_eventId e 1)"
    and rm: "fs_rm (re_fs e) (wh_derived_path h) = None"
  shows "wid \<in> set (runWorkspaceReapActivity now (ws_leases (ww_db w1)))
    \<and> (\<exists>w2 live. releaseWorkspace e wid w1 = (Inr (), w2) \<and> wh_derived_path h \<notin> set (ww_dirs w2)
       \<and> lease_getById (wh_workspace_id h) (ww_db w2) = Some live \<and> ws_state live = ''ALLOCATED'')"
proof -
  note fresh = allocate_fresh [OF wf none al]
  let ?new = "new_lease (ae_db_now a) (alloc_args a (ws_run_id row) (ws_review_id row) (ws_installation_id row))"
  have mem: "row \<in> set (ws_leases (ww_db w1))" "workspace_id row = wid" using getById_Some [OF row] fresh(1) by auto
  then have row1: "lease_getById wid (ww_db w1) = Some row" using getById_unique [of "ww_db w1" row] fresh(3) by (simp add: ws_wf_def)
  have "wid \<in> set (runWorkspaceReapActivity now (ws_leases (ww_db w1)))"
    using mem st budget due by (auto simp: runWorkspaceReapActivity_def)
  moreover have v: "validateCleanupPath (re_fs e) (re_root e) (deriveWorkspacePath (re_root e) (ws_installation_id row) (ws_run_id row)) = Inr (wh_derived_path h)"
    using validate_same [OF fresh(5)] env(1,2) by (simp add: deriveWorkspacePath_def path_join_ne)
  moreover have "releaseWorkspace e wid w1 = release_files e row (ws_state row) w1"
    using row1 st env(3) by (simp add: releaseWorkspace_def)
  moreover obtain row' db' r ds where fin: "release_files e row (ws_state row) w1 = (r, \<lparr>ww_db = db', ww_dirs = ds\<rparr>)"
      "lease_now (ww_db w1) wid row' {re_eventId e 1} db'" "release_outcome e row (r, ds) (ww_dirs w1) row'"
    using release_files_ok [OF fresh(3) row1 _ _ env(3) mem(2) refl refl] st env(4) by (auto simp: event_free_def fresh(4))
  moreover have "r = Inr ()" "ds = rm_dir (wh_derived_path h) (ww_dirs w1)"
    using fin(3) v rm by (simp_all add: release_outcome_def)
  moreover have "lease_getById (wh_workspace_id h) db' = Some ?new" "ws_state ?new = ''ALLOCATED''"
  proof -
    have key: "workspace_id ?new = wh_workspace_id h" by (simp add: fresh(2) new_lease_def alloc_args_def)
    have "?new \<in> set (ws_leases (ww_db w1))" by (simp add: fresh(1))
    moreover have "workspace_id ?new \<noteq> wid"
      using fresh(1,3) getById_Some [OF row] by (auto simp: ws_wf_def leases_ok_def)
    ultimately have "?new \<in> set (ws_leases db')" using fin(2) by (simp add: lease_now_def)
    then show "lease_getById (wh_workspace_id h) db' = Some ?new"
      using getById_unique [of db' ?new] fin(2) key by (simp add: lease_now_def ws_wf_def)
    show "ws_state ?new = ''ALLOCATED''" by (simp add: new_lease_def)
  qed
  ultimately show ?thesis by (auto simp: rm_dir_def)
qed

section \<open>Instances\<close>

definition demo_fs :: file_system where
  "demo_fs = \<lparr>fs_realpath = Some, fs_rm = (\<lambda>_. None), fs_mkdir = (\<lambda>_. None)\<rparr>"

definition demo_release :: release_env where
  "demo_release = \<lparr>re_fs = demo_fs, re_root = ''/w'', re_stampClock = int, re_eventClock = int, re_attemptClock = 5,
     re_eventId = (\<lambda>k. if k = 0 then ''e0'' else ''e1''), re_other = (\<lambda>_. id)\<rparr>"

lemma demo_event_free [simp]: "event_free (demo_ws t) eid"
  by (simp add: event_free_def demo_ws_def demo_review_db_def)

theorem releaseWorkspace_correct_witness:
  "\<exists>row' db' r ds. releaseWorkspace demo_release ''a'' \<lparr>ww_db = demo_ws [demo_lease ''a'' ''ALLOCATED''], ww_dirs = [''/w/installations/inst/runs/run'', ''/w/x'']\<rparr>
      = (r, \<lparr>ww_db = db', ww_dirs = ds\<rparr>)
    \<and> lease_now (demo_ws [demo_lease ''a'' ''ALLOCATED'']) ''a'' row' {''e0'', ''e1''} db'
    \<and> release_outcome demo_release (demo_lease ''a'' ''ALLOCATED'') (r, ds) [''/w/installations/inst/runs/run'', ''/w/x''] row'"
proof -
  let ?w = "\<lparr>ww_db = demo_ws [demo_lease ''a'' ''ALLOCATED''], ww_dirs = [''/w/installations/inst/runs/run'', ''/w/x'']\<rparr>"
  have "ws_wf (ww_db ?w)" using demo_ws_wf [of "[(''a'', ''ALLOCATED'')]"] by (simp add: LEASE_STATES_def)
  moreover have "lease_getById ''a'' (ww_db ?w) = Some (demo_lease ''a'' ''ALLOCATED'')"
    by (simp add: lease_getById_def demo_ws_def demo_lease_def)
  moreover have "ws_state (demo_lease ''a'' ''ALLOCATED'') = ''ALLOCATED''" by (simp add: demo_lease_def)
  ultimately show ?thesis
    using releaseWorkspace_correct [of ?w "''a''" "demo_lease ''a'' ''ALLOCATED''" demo_release] by (simp add: demo_release_def)
qed

definition demo_sweep :: sweep_env where
  "demo_sweep = \<lparr>se_now = 1000000, se_stampClock = int, se_eventClock = int, se_eventId = (\<lambda>k. replicate k CHR ''e''),
     se_fault = (\<lambda>k. if k = 1 then Some ''57014'' else None)\<rparr>"

text \<open>Two dead leases of two runs are needed; the second run is added to the tables.\<close>

definition demo_two :: ws_db where
  "demo_two = \<lparr>ws_leases = [demo_lease ''a'' ''ALLOCATED'', (demo_lease ''b'' ''ALLOCATED'')\<lparr>ws_run_id := ''run2''\<rparr>],
     ws_review = demo_review_db\<lparr>review_runs := [hd (review_runs demo_review_db), (hd (review_runs demo_review_db))\<lparr>run_id := ''run2''\<rparr>]\<rparr>\<rparr>"

lemma demo_two_wf: "ws_wf demo_two"
proof -
  have "review_wf (ws_review demo_two)"
    by (simp add: review_wf_def runs_ok_def refs_ok_def seq_gap_free_def commit_ok_def demo_two_def demo_review_db_def run_checks_def
        LIFECYCLE_STATES_def active_states_def TRIGGER_TYPES_def)
  moreover have "leases_ok demo_two"
    by (simp add: leases_ok_def demo_two_def demo_lease_def demo_review_db_def active_runs_unique_def active_lease_def lease_checks_def LEASE_STATES_def)
  ultimately show ?thesis by (simp add: ws_wf_def)
qed

theorem orphan_sweep_reports_lost_witness:
  "runWorkspaceOrphanSweepActivity demo_sweep [(''worker'', 0)] demo_two = (1, demo_two)"
proof -
  have ids: "orphan_candidates (se_now demo_sweep) [(''worker'', 0)] (ws_leases demo_two) = [''a'', ''b'']"
    by (simp add: orphan_candidates_def demo_sweep_def demo_two_def demo_lease_def WORKER_DEAD_AFTER_MS_def)
  have "inj (se_eventId demo_sweep)" by (simp add: demo_sweep_def inj_def)
  moreover have "\<forall>j<1. se_fault demo_sweep j = None \<and> event_free demo_two (se_eventId demo_sweep j)"
    by (simp add: demo_sweep_def event_free_def demo_two_def demo_review_db_def)
  ultimately show ?thesis
    using orphan_sweep_reports_lost [OF demo_two_wf ids [symmetric], of 1 "''57014''"] by (simp add: demo_sweep_def)
qed

definition demo_ws_alloc :: alloc_env where
  "demo_ws_alloc = \<lparr>ae_fs = demo_fs, ae_root = ''/w'', ae_identity = \<lparr>pi_podName = ''pod'', pi_podNamespace = ''ns'', pi_nodeName = None, pi_workerId = ''worker''\<rparr>,
     ae_clock = 9, ae_db_now = 9000, ae_candidate = ''b''\<rparr>"

theorem reap_removes_live_workspace_witness:
  "\<exists>h w1 w2 live. allocateWorkspace demo_ws_alloc ''run'' ''rv'' ''inst'' \<lparr>ww_db = demo_ws [demo_lease ''a'' ''FAILED_CLEANUP''], ww_dirs = []\<rparr> = (Inr h, w1)
    \<and> wh_derived_path h \<in> set (ww_dirs w1) \<and> releaseWorkspace demo_release ''a'' w1 = (Inr (), w2) \<and> wh_derived_path h \<notin> set (ww_dirs w2)
    \<and> lease_getById (wh_workspace_id h) (ww_db w2) = Some live \<and> ws_state live = ''ALLOCATED''"
proof -
  let ?r = "demo_lease ''a'' ''FAILED_CLEANUP''"
  let ?w = "\<lparr>ww_db = demo_ws [?r], ww_dirs = []\<rparr>"
  have wf: "ws_wf (ww_db ?w)" using demo_ws_wf [of "[(''a'', ''FAILED_CLEANUP'')]"] by (simp add: LEASE_STATES_def)
  have row: "lease_getById ''a'' (ww_db ?w) = Some ?r" "ws_state ?r = ''FAILED_CLEANUP''" "cleanup_attempts ?r < CLEANUP_MAX_ATTEMPTS"
    "backoff_elapsed 9 ?r" "findActiveByRun (ws_run_id ?r) (ww_db ?w) = None"
    by (simp_all add: lease_getById_def demo_ws_def demo_lease_def CLEANUP_MAX_ATTEMPTS_def backoff_elapsed_def findActiveByRun_def active_lease_def)
  have keys: "ws_run_id ?r = ''run''" "ws_review_id ?r = ''rv''" "ws_installation_id ?r = ''inst''" by (simp_all add: demo_lease_def)
  obtain h w1 where al: "allocateWorkspace demo_ws_alloc ''run'' ''rv'' ''inst'' ?w = (Inr h, w1)" "wh_derived_path h \<in> set (ww_dirs w1)"
    by (simp add: allocateWorkspace_def demo_ws_alloc_def demo_fs_def ws_transact_def allocate_tx_def lease_insert_def alloc_args_def
        demo_ws_def demo_lease_def active_lease_def demo_review_db_def findActiveByRun_def new_lease_def commit_ok_def
        resolveAndValidate_def deriveWorkspacePath_def path_join_def under_root_def Let_def)
  show ?thesis
    using reap_removes_live_workspace [of ?w "''a''" ?r 9 demo_ws_alloc h w1 demo_release] wf row keys al
    by (auto simp: demo_release_def demo_ws_alloc_def demo_fs_def)
qed

end
