(* ===== verification/Findings.thy ===== *)
theory Findings
  imports Prelude
begin

text \<open>
  Aggregation of review findings: \<^verbatim>\<open>review/aggregation.ts\<close>, \<^verbatim>\<open>review/aggregation_semantic.ts\<close>, the
  activities \<^verbatim>\<open>aggregate_findings\<close> and \<^verbatim>\<open>dedup_findings\<close> and the contract of a finding. A confidence is a
  rational number (the code only compares confidences), an embedding a list of reals. The embedder is a
  parameter: it answers a batch of texts with vectors or throws (\<open>None\<close>).
\<close>

section \<open>The contract\<close>

record citation =
  ct_kind :: string
  ct_locator :: string
  ct_excerpt :: "string option"

record review_finding =
  rf_file :: string
  rf_start_line :: int
  rf_end_line :: int
  rf_severity :: string
  rf_category :: string
  rf_title :: string
  rf_body :: string
  rf_suggestion :: "string option"
  rf_confidence :: rat
  rf_sources :: "citation list"
  rf_scope :: string
  rf_evidence_refs :: "string list"

definition SEVERITIES :: "string list" where
  "SEVERITIES = [''nit'', ''suggestion'', ''issue'', ''blocker'']"

definition CATEGORIES :: "string list" where
  "CATEGORIES = [''bug'', ''security'', ''performance'', ''style'', ''test'', ''docs'', ''config'', ''context_breaks_consumer'', ''other'']"

definition SCOPES :: "string list" where
  "SCOPES = [''chunk_observed'', ''cross_chunk'', ''pr_global'']"

definition CITATION_KINDS :: "string list" where
  "CITATION_KINDS = [''repo_path'', ''knowledge_chunk'', ''linter_rule'', ''policy_rule'']"

definition citation_ok :: "citation \<Rightarrow> bool" where
  "citation_ok c \<longleftrightarrow> ct_kind c \<in> set CITATION_KINDS \<and> 1 \<le> length (ct_locator c) \<and> length (ct_locator c) \<le> 500
     \<and> (case ct_excerpt c of None \<Rightarrow> True | Some x \<Rightarrow> length x \<le> 300)"

definition ev_id_ok :: "string \<Rightarrow> bool" where
  "ev_id_ok s \<longleftrightarrow> length s = 19 \<and> take 3 s = ''ev_'' \<and> list_all (\<lambda>c. c \<in> set ''0123456789abcdef'') (drop 3 s)"

definition finding_ok :: "review_finding \<Rightarrow> bool" where
  "finding_ok f \<longleftrightarrow> rf_file f \<noteq> [] \<and> 1 \<le> rf_start_line f \<and> 1 \<le> rf_end_line f
     \<and> rf_severity f \<in> set SEVERITIES \<and> rf_category f \<in> set CATEGORIES
     \<and> 1 \<le> length (rf_title f) \<and> length (rf_title f) \<le> 200 \<and> 1 \<le> length (rf_body f) \<and> length (rf_body f) \<le> 2000
     \<and> 0 \<le> rf_confidence f \<and> rf_confidence f \<le> 1 \<and> list_all citation_ok (rf_sources f) \<and> rf_scope f \<in> set SCOPES
     \<and> length (rf_evidence_refs f) \<le> 20 \<and> rf_start_line f \<le> rf_end_line f \<and> list_all ev_id_ok (rf_evidence_refs f)"

section \<open>Scope authority\<close>

definition ACTIVITIES_THAT_MAY_EMIT_BEYOND_CHUNK_SCOPE :: "string list" where
  "ACTIVITIES_THAT_MAY_EMIT_BEYOND_CHUNK_SCOPE = []"

definition activityMayEmitScope :: "string \<Rightarrow> string \<Rightarrow> bool" where
  "activityMayEmitScope activityName scope \<longleftrightarrow>
     (if scope = ''chunk_observed'' then True else activityName \<in> set ACTIVITIES_THAT_MAY_EMIT_BEYOND_CHUNK_SCOPE)"

definition AGGREGATOR_UPSTREAM_ACTIVITY :: string where
  "AGGREGATOR_UPSTREAM_ACTIVITY = ''bedrock_review_chunk''"

fun scope_loop :: "review_finding list \<Rightarrow> review_finding list \<Rightarrow> nat \<Rightarrow> review_finding list \<times> nat" where
  "scope_loop [] kept dropped = (kept, dropped)"
| "scope_loop (f # fs) kept dropped =
     (if activityMayEmitScope AGGREGATOR_UPSTREAM_ACTIVITY (rf_scope f) then scope_loop fs (kept @ [f]) dropped
      else scope_loop fs kept (dropped + 1))"

definition assertFindingScopeConsistency :: "review_finding list \<Rightarrow> review_finding list \<times> nat" where
  "assertFindingScopeConsistency findings = scope_loop findings [] 0"

section \<open>Exact merge\<close>

definition severityRank :: "string \<Rightarrow> int" where
  "severityRank s = (if s = ''blocker'' then 3 else if s = ''issue'' then 2 else if s = ''suggestion'' then 1 else if s = ''nit'' then 0 else - 1)"

definition maxSeverity :: "string \<Rightarrow> string \<Rightarrow> string" where
  "maxSeverity a b = (if severityRank b \<le> severityRank a then a else b)"

definition BODY_SEPARATOR :: string where
  "BODY_SEPARATOR = [CHR 0x0A] @ ''---'' @ [CHR 0x0A]"

text \<open>\<^verbatim>\<open>s.split(sep)\<close> for a separator that is not empty.\<close>

function split_str :: "string \<Rightarrow> string \<Rightarrow> string list" where
  "split_str sep s =
     (if sep \<noteq> [] \<and> prefix sep s then [] # split_str sep (drop (length sep) s)
      else case s of [] \<Rightarrow> [[]] | c # cs \<Rightarrow> (case split_str sep cs of [] \<Rightarrow> [[c]] | w # ws \<Rightarrow> (c # w) # ws))"
  by pat_completeness auto
termination
  by (relation "measure (\<lambda>(sep, s). length s)") (auto simp: prefix_def)

declare split_str.simps [simp del]

definition merged_body :: "string \<Rightarrow> string \<Rightarrow> string" where
  "merged_body keep add = (if add \<in> set (split_str BODY_SEPARATOR keep) then keep else keep @ BODY_SEPARATOR @ add)"

text \<open>The key of a finding: its components separated by NUL.\<close>

definition exact_key :: "review_finding \<Rightarrow> string" where
  "exact_key f = rf_file f @ [CHR 0x00] @ int_text (rf_start_line f) @ [CHR 0x00] @ int_text (rf_end_line f) @ [CHR 0x00] @ rf_category f"

definition merge_exact :: "review_finding \<Rightarrow> review_finding \<Rightarrow> review_finding" where
  "merge_exact existing f =
     (let higher = (if rf_confidence existing < rf_confidence f then f else existing) in
      \<lparr>rf_file = rf_file existing, rf_start_line = rf_start_line existing, rf_end_line = rf_end_line existing,
       rf_severity = maxSeverity (rf_severity existing) (rf_severity f), rf_category = rf_category existing,
       rf_title = rf_title higher, rf_body = merged_body (rf_body existing) (rf_body f), rf_suggestion = rf_suggestion higher,
       rf_confidence = max (rf_confidence existing) (rf_confidence f), rf_sources = [], rf_scope = ''chunk_observed'', rf_evidence_refs = []\<rparr>)"

definition exact_step :: "(string \<rightharpoonup> review_finding) \<times> string list \<Rightarrow> review_finding \<Rightarrow> (string \<rightharpoonup> review_finding) \<times> string list" where
  "exact_step st f =
     (case st of (keyed, order) \<Rightarrow>
       (case keyed (exact_key f) of
          None \<Rightarrow> (keyed(exact_key f \<mapsto> f), order @ [exact_key f])
        | Some existing \<Rightarrow> (keyed(exact_key f \<mapsto> merge_exact existing f), order)))"

definition aggregateExact :: "review_finding list \<Rightarrow> review_finding list" where
  "aggregateExact findings =
     (if findings = [] then []
      else case foldl exact_step (Map.empty, []) findings of (keyed, order) \<Rightarrow> map (\<lambda>k. the (keyed k)) order)"

section \<open>Rank and cap\<close>

definition PER_FILE_CAP :: nat where "PER_FILE_CAP = 10"
definition PER_REVIEW_CAP :: nat where "PER_REVIEW_CAP = 50"

definition rank_key :: "nat \<times> review_finding \<Rightarrow> int \<times> rat \<times> nat" where
  "rank_key x = (- severityRank (rf_severity (snd x)), - rf_confidence (snd x), fst x)"

fun per_file_loop :: "nat \<Rightarrow> (string \<Rightarrow> nat) \<Rightarrow> (nat \<times> review_finding) list \<Rightarrow> (nat \<times> review_finding) list" where
  "per_file_loop perFile counts [] = []"
| "per_file_loop perFile counts (x # xs) =
     (if perFile \<le> counts (rf_file (snd x)) then per_file_loop perFile counts xs
      else x # per_file_loop perFile (counts(rf_file (snd x) := counts (rf_file (snd x)) + 1)) xs)"

definition survivors :: "nat \<Rightarrow> nat \<Rightarrow> review_finding list \<Rightarrow> (nat \<times> review_finding) list" where
  "survivors perFile perReview findings =
     take perReview (per_file_loop perFile (\<lambda>_. 0) (sort_key rank_key (zip [0..<length findings] findings)))"

text \<open>\<open>None\<close> is the error for a cap that is not positive.\<close>

definition rankAndCap :: "nat \<Rightarrow> nat \<Rightarrow> review_finding list \<Rightarrow> (review_finding list \<times> nat) option" where
  "rankAndCap perFile perReview findings =
     (if perFile = 0 \<or> perReview = 0 then None
      else if findings = [] then Some ([], 0)
      else let s = survivors perFile perReview findings in Some (map snd s, length findings - length s))"

section \<open>Semantic merge\<close>

definition SEMANTIC_MERGE_THRESHOLD :: real where "SEMANTIC_MERGE_THRESHOLD = 92 / 100"
definition EMBED_MAX_TEXTS :: nat where "EMBED_MAX_TEXTS = 128"

definition cosine :: "real list \<Rightarrow> real list \<Rightarrow> real" where
  "cosine u v =
     (if length u \<noteq> length v \<or> length u = 0 then 0
      else let dot = sum_list (map2 (*) u v); nu = sum_list (map2 (*) u u); nv = sum_list (map2 (*) v v) in
        if nu = 0 \<or> nv = 0 then 0 else dot / (sqrt nu * sqrt nv))"

definition merge_semantic :: "review_finding \<Rightarrow> review_finding \<Rightarrow> review_finding" where
  "merge_semantic absorber absorbed =
     \<lparr>rf_file = rf_file absorber, rf_start_line = rf_start_line absorber, rf_end_line = rf_end_line absorber,
      rf_severity = maxSeverity (rf_severity absorber) (rf_severity absorbed), rf_category = rf_category absorber,
      rf_title = rf_title absorber, rf_body = merged_body (rf_body absorber) (rf_body absorbed), rf_suggestion = rf_suggestion absorber,
      rf_confidence = max (rf_confidence absorber) (rf_confidence absorbed), rf_sources = [], rf_scope = ''chunk_observed'', rf_evidence_refs = []\<rparr>"

record 'v slot =
  sl_absorber :: review_finding
  sl_vec :: 'v
  sl_consumed :: bool

text \<open>The inner loop of one absorber over the slots after it.\<close>

fun absorb :: "('v \<Rightarrow> 'v \<Rightarrow> bool) \<Rightarrow> 'v slot \<Rightarrow> 'v slot list \<Rightarrow> 'v slot \<times> 'v slot list" where
  "absorb similar i [] = (i, [])"
| "absorb similar i (j # js) =
     (if sl_consumed j \<or> rf_file (sl_absorber j) \<noteq> rf_file (sl_absorber i) \<or> \<not> similar (sl_vec i) (sl_vec j)
      then (case absorb similar i js of (i', js') \<Rightarrow> (i', j # js'))
      else let i1 = (if rf_confidence (sl_absorber i) < rf_confidence (sl_absorber j)
                     then i\<lparr>sl_absorber := merge_semantic (sl_absorber j) (sl_absorber i), sl_vec := sl_vec j\<rparr>
                     else i\<lparr>sl_absorber := merge_semantic (sl_absorber i) (sl_absorber j)\<rparr>) in
           (case absorb similar i1 js of (i', js') \<Rightarrow> (i', j\<lparr>sl_consumed := True\<rparr> # js')))"

lemma length_absorb [simp]: "length (snd (absorb similar i js)) = length js"
  by (induction similar i js rule: absorb.induct) (auto simp: Let_def split: prod.splits)

function merge_slots :: "('v \<Rightarrow> 'v \<Rightarrow> bool) \<Rightarrow> 'v slot list \<Rightarrow> review_finding list" where
  "merge_slots similar [] = []"
| "merge_slots similar (i # js) =
     (if sl_consumed i then merge_slots similar js
      else sl_absorber (fst (absorb similar i js)) # merge_slots similar (snd (absorb similar i js)))"
  by pat_completeness auto
termination
  by (relation "measure (\<lambda>(similar, js). length js)") auto

text \<open>The batches of at most \<open>EMBED_MAX_TEXTS\<close> texts.\<close>

function embed_batches :: "(string list \<Rightarrow> real list list option) \<Rightarrow> string list \<Rightarrow> real list list option" where
  "embed_batches emb texts =
     (if texts = [] then Some []
      else case emb (take EMBED_MAX_TEXTS texts) of
             None \<Rightarrow> None
           | Some vs \<Rightarrow> (case embed_batches emb (drop EMBED_MAX_TEXTS texts) of None \<Rightarrow> None | Some ws \<Rightarrow> Some (vs @ ws)))"
  by pat_completeness auto
termination
  by (relation "measure (\<lambda>(emb, texts). length texts)") (auto simp: EMBED_MAX_TEXTS_def)

declare embed_batches.simps [simp del]

definition aggregateSemantic ::
  "(string list \<Rightarrow> real list list option) option \<Rightarrow> real \<Rightarrow> review_finding list \<Rightarrow> review_finding list \<times> bool" where
  "aggregateSemantic embedder threshold findings =
     (if length findings < 2 then (findings, False)
      else case embedder of
             None \<Rightarrow> (findings, True)
           | Some emb \<Rightarrow>
               (case embed_batches emb (map rf_body findings) of
                  None \<Rightarrow> (findings, True)
                | Some vectors \<Rightarrow>
                    if length vectors \<noteq> length findings then (findings, True)
                    else (merge_slots (\<lambda>u v. \<not> cosine u v < threshold)
                            (map2 (\<lambda>f v. \<lparr>sl_absorber = f, sl_vec = v, sl_consumed = False\<rparr>) findings vectors), False)))"

section \<open>The activities\<close>

record dedupe_stats =
  ds_input_count :: nat
  ds_exact_dropped :: nat
  ds_semantic_merged :: nat
  ds_capped :: nat
  ds_semantic_skipped :: bool

record aggregated_findings =
  ag_findings :: "review_finding list"
  ag_stats :: dedupe_stats
  ag_policy_revision :: int

definition doAggregate ::
  "review_finding list \<Rightarrow> int \<Rightarrow> (string list \<Rightarrow> real list list option) option \<Rightarrow> aggregated_findings option" where
  "doAggregate findings policyRevision embedder =
     (let afterScope = fst (assertFindingScopeConsistency findings);
        afterExact = aggregateExact afterScope;
        (afterSemantic, semanticSkipped) = aggregateSemantic embedder SEMANTIC_MERGE_THRESHOLD afterExact
      in case rankAndCap PER_FILE_CAP PER_REVIEW_CAP afterSemantic of
           None \<Rightarrow> None
         | Some (afterCap, capped) \<Rightarrow> Some
             \<lparr>ag_findings = afterCap,
              ag_stats = \<lparr>ds_input_count = length findings, ds_exact_dropped = length afterScope - length afterExact,
                ds_semantic_merged = length afterExact - length afterSemantic, ds_capped = capped, ds_semantic_skipped = semanticSkipped\<rparr>,
              ag_policy_revision = policyRevision\<rparr>)"

text \<open>The activity parses its input against the contract first.\<close>

definition aggregateFindings ::
  "review_finding list \<Rightarrow> int \<Rightarrow> (string list \<Rightarrow> real list list option) option \<Rightarrow> aggregated_findings option" where
  "aggregateFindings findings policyRevision embedder =
     (if list_all finding_ok findings \<and> 0 \<le> policyRevision then doAggregate findings policyRevision embedder else None)"

definition doDedupLinterWithLlm ::
  "review_finding list \<Rightarrow> review_finding list \<Rightarrow> (string list \<Rightarrow> real list list option) option \<Rightarrow> review_finding list \<times> bool" where
  "doDedupLinterWithLlm linterFindings llmFindings embedder =
     (if linterFindings = [] \<and> llmFindings = [] then ([], False)
      else if linterFindings = [] then (llmFindings, False)
      else if llmFindings = [] then (linterFindings, False)
      else aggregateSemantic embedder SEMANTIC_MERGE_THRESHOLD (aggregateExact (linterFindings @ llmFindings)))"

section \<open>Merged bodies\<close>

fun join_str :: "string \<Rightarrow> string list \<Rightarrow> string" where
  "join_str sep [] = []"
| "join_str sep (w # ws) = (if ws = [] then w else w @ sep @ join_str sep ws)"

lemma split_str_ne [simp]: "split_str sep s \<noteq> []"
  by (subst split_str.simps) (auto split: list.splits)

lemma join_split_str: "join_str sep (split_str sep s) = s"
proof (induction sep s rule: split_str.induct)
  case (1 sep s)
  show ?case
  proof (cases "sep \<noteq> [] \<and> prefix sep s")
    case True
    then obtain r where "s = sep @ r" by (auto simp: prefix_def)
    then show ?thesis using 1(1) [OF True] True by (simp add: split_str.simps [of sep "sep @ r"])
  next
    case False
    show ?thesis
    proof (cases s)
      case Nil
      then show ?thesis using False by (auto simp: split_str.simps [of sep "[]"])
    next
      case (Cons c cs)
      then have ih: "join_str sep (split_str sep cs) = cs" using 1(2) [OF False] by blast
      obtain w ws where w: "split_str sep cs = w # ws" by (cases "split_str sep cs") auto
      have "split_str sep (c # cs) = (c # w) # ws" using False Cons w by (subst split_str.simps) auto
      then show ?thesis using ih w Cons by (auto split: if_splits)
    qed
  qed
qed

lemma sublist_join_str: "w \<in> set ws \<Longrightarrow> sublist w (join_str sep ws)"
proof (induction ws)
  case (Cons v ws)
  show ?case
  proof (cases "w = v")
    case True
    then show ?thesis by (simp add: sublist_append)
  next
    case False
    then have "sublist w (join_str sep ws)" "ws \<noteq> []" using Cons by auto
    then show ?thesis by (simp add: sublist_append)
  qed
qed simp

lemma merged_body_contains: "sublist keep (merged_body keep add)" "sublist add (merged_body keep add)"
proof -
  have seg: "sublist w s" if "w \<in> set (split_str sep s)" for w sep s
    using sublist_join_str [OF that, of sep] by (simp add: join_split_str)
  show "sublist keep (merged_body keep add)" by (simp add: merged_body_def)
  show "sublist add (merged_body keep add)" using seg by (simp add: merged_body_def sublist_append)
qed

section \<open>A finding represented by another\<close>

text \<open>\<open>covers g f\<close>: the text of \<open>f\<close> is part of \<open>g\<close>, at the same file, and \<open>g\<close> is at least as severe and as confident.\<close>

definition covers :: "review_finding \<Rightarrow> review_finding \<Rightarrow> bool" where
  "covers g f \<longleftrightarrow> rf_file g = rf_file f \<and> sublist (rf_body f) (rf_body g)
     \<and> severityRank (rf_severity f) \<le> severityRank (rf_severity g) \<and> rf_confidence f \<le> rf_confidence g"

lemma covers_refl [simp]: "covers f f"
  by (simp add: covers_def)

lemma covers_trans: "covers h g \<Longrightarrow> covers g f \<Longrightarrow> covers h f"
  by (auto simp: covers_def intro: sublist_order.order.trans)

lemma severityRank_max: "severityRank (maxSeverity a b) = max (severityRank a) (severityRank b)"
  by (simp add: maxSeverity_def max_def)

lemma covers_merge_semantic:
  "rf_file b = rf_file a \<Longrightarrow> covers (merge_semantic a b) a" "rf_file b = rf_file a \<Longrightarrow> covers (merge_semantic a b) b"
  by (simp_all add: covers_def merge_semantic_def merged_body_contains severityRank_max)

lemma covers_merge_exact:
  "rf_file b = rf_file a \<Longrightarrow> covers (merge_exact a b) a" "rf_file b = rf_file a \<Longrightarrow> covers (merge_exact a b) b"
  by (simp_all add: covers_def merge_exact_def merged_body_contains severityRank_max Let_def)

section \<open>The key of a finding\<close>

lemma digit_val_char [simp]: "k < 10 \<Longrightarrow> digit_val (char_of (48 + k)) = k"
  by (simp add: digit_val_def)

lemma number_of_nat_text [simp]: "number_of (nat_text n) = n"
proof (induction n rule: nat_text.induct)
  case (1 n)
  show ?case
  proof (cases "n < 10")
    case True
    then show ?thesis by (simp add: nat_text.simps number_of_def)
  next
    case False
    have "number_of (nat_text n) = 10 * number_of (nat_text (n div 10)) + n mod 10"
      using False by (simp add: nat_text.simps [of n] number_of_def)
    then show ?thesis using 1 False by simp
  qed
qed

lemma nat_text_no_nul: "CHR 0x00 \<notin> set (nat_text n)"
proof (induction n rule: nat_text.induct)
  case (1 n)
  have ne: "CHR 0x00 \<noteq> char_of (48 + k)" if "k < 10" for k :: nat
  proof
    assume "CHR 0x00 = char_of (48 + k)"
    then have "(of_char (CHR 0x00) :: nat) = of_char (char_of (48 + k) :: char)" by simp
    then show False using that by simp
  qed
  show ?case using 1 ne [of n] ne [of "n mod 10"] by (subst nat_text.simps) auto
qed

lemma append_first_eq: "x \<notin> set u \<Longrightarrow> x \<notin> set v \<Longrightarrow> u @ x # p = v @ x # q \<Longrightarrow> u = v \<and> p = q"
proof (induction u arbitrary: v)
  case Nil
  then show ?case by (cases v) auto
next
  case (Cons y u)
  then show ?case by (cases v) auto
qed

lemma append_last_eq:
  assumes "x \<notin> set b" and "x \<notin> set d" and "a @ x # b = c @ x # d"
  shows "a = c \<and> b = d"
proof -
  have "rev b @ x # rev a = rev d @ x # rev c" using arg_cong [OF assms(3), of rev] by simp
  then have "rev b = rev d \<and> rev a = rev c" using assms(1,2) by (intro append_first_eq) auto
  then show ?thesis by simp
qed

definition location :: "review_finding \<Rightarrow> string \<times> int \<times> int \<times> string" where
  "location f = (rf_file f, rf_start_line f, rf_end_line f, rf_category f)"

text \<open>The text key is as good as the tuple for findings that pass the contract.\<close>

lemma exact_key_inj:
  assumes "finding_ok f" and "finding_ok g"
  shows "exact_key f = exact_key g \<longleftrightarrow> location f = location g"
proof
  assume eq: "exact_key f = exact_key g"
  have cat: "CHR 0x00 \<notin> set (rf_category h)" if "finding_ok h" for h
    using that by (auto simp: finding_ok_def CATEGORIES_def)
  have line: "int_text (rf_start_line h) = nat_text (nat (rf_start_line h))" "int_text (rf_end_line h) = nat_text (nat (rf_end_line h))"
    if "finding_ok h" for h using that by (simp_all add: finding_ok_def int_text_def)
  have e1: "rf_category f = rf_category g" and r1: "rf_file f @ [CHR 0x00] @ int_text (rf_start_line f) @ [CHR 0x00] @ int_text (rf_end_line f)
      = rf_file g @ [CHR 0x00] @ int_text (rf_start_line g) @ [CHR 0x00] @ int_text (rf_end_line g)"
    using append_last_eq [OF cat [OF assms(1)] cat [OF assms(2)], of "rf_file f @ [CHR 0x00] @ int_text (rf_start_line f) @ [CHR 0x00] @ int_text (rf_end_line f)"
        "rf_file g @ [CHR 0x00] @ int_text (rf_start_line g) @ [CHR 0x00] @ int_text (rf_end_line g)"] eq by (simp_all add: exact_key_def)
  have e2: "int_text (rf_end_line f) = int_text (rf_end_line g)" and r2: "rf_file f @ [CHR 0x00] @ int_text (rf_start_line f) = rf_file g @ [CHR 0x00] @ int_text (rf_start_line g)"
    using append_last_eq [of "CHR 0x00" "int_text (rf_end_line f)" "int_text (rf_end_line g)" "rf_file f @ [CHR 0x00] @ int_text (rf_start_line f)"
        "rf_file g @ [CHR 0x00] @ int_text (rf_start_line g)"] r1 line assms by (simp_all add: nat_text_no_nul)
  have e3: "int_text (rf_start_line f) = int_text (rf_start_line g)" "rf_file f = rf_file g"
    using append_last_eq [of "CHR 0x00" "int_text (rf_start_line f)" "int_text (rf_start_line g)" "rf_file f" "rf_file g"] r2 line assms
    by (simp_all add: nat_text_no_nul)
  have "nat (rf_start_line f) = nat (rf_start_line g)" "nat (rf_end_line f) = nat (rf_end_line g)"
    using e2 e3(1) line assms by (metis number_of_nat_text)+
  moreover have "1 \<le> rf_start_line f" "1 \<le> rf_start_line g" "1 \<le> rf_end_line f" "1 \<le> rf_end_line g"
    using assms by (simp_all add: finding_ok_def)
  ultimately show "location f = location g" using e1 e3(2) by (simp add: location_def eq_nat_nat_iff)
qed (simp add: location_def exact_key_def)

section \<open>Exact merge against its reference\<close>

text \<open>The groups of a list by a key, in the order of first occurrence.\<close>

fun nub :: "'a list \<Rightarrow> 'a list" where
  "nub [] = []"
| "nub (x # xs) = x # filter (\<lambda>y. y \<noteq> x) (nub xs)"

definition group_merge :: "review_finding list \<Rightarrow> review_finding" where
  "group_merge g = foldl merge_exact (hd g) (tl g)"

definition exact_reference :: "review_finding list \<Rightarrow> review_finding list" where
  "exact_reference fs = map (\<lambda>l. group_merge (filter (\<lambda>f. location f = l) fs)) (nub (map location fs))"

lemma set_nub [simp]: "set (nub xs) = set xs"
  by (induction xs) auto

lemma distinct_nub [simp]: "distinct (nub xs)"
  by (induction xs) auto

lemma nub_append: "nub (xs @ ys) = nub xs @ filter (\<lambda>y. y \<notin> set xs) (nub ys)"
proof (induction xs)
  case (Cons x xs)
  then show ?case by (auto intro!: filter_cong)
qed simp

lemma nub_snoc: "nub (xs @ [x]) = (if x \<in> set xs then nub xs else nub xs @ [x])"
  by (simp add: nub_append)

definition keyed_of :: "review_finding list \<Rightarrow> string \<rightharpoonup> review_finding" where
  "keyed_of fs k = (let g = filter (\<lambda>f. exact_key f = k) fs in if g = [] then None else Some (group_merge g))"

lemma group_merge_snoc: "g \<noteq> [] \<Longrightarrow> group_merge (g @ [f]) = merge_exact (group_merge g) f"
  by (cases g) (simp_all add: group_merge_def)

lemma exact_fold: "foldl exact_step (Map.empty, []) fs = (keyed_of fs, nub (map exact_key fs))"
proof (induction fs rule: rev_induct)
  case Nil
  then show ?case by (simp add: keyed_of_def fun_eq_iff)
next
  case (snoc f fs)
  let ?k = "exact_key f"
  have none: "keyed_of fs ?k = None \<longleftrightarrow> ?k \<notin> exact_key ` set fs"
    by (auto simp: keyed_of_def Let_def filter_empty_conv intro: rev_image_eqI)
  have upd: "keyed_of (fs @ [f]) = (keyed_of fs)(?k \<mapsto> (case keyed_of fs ?k of None \<Rightarrow> f | Some e \<Rightarrow> merge_exact e f))"
    by (auto simp: fun_eq_iff keyed_of_def Let_def group_merge_snoc group_merge_def [of "[f]"])
  show ?case
    unfolding foldl_append snoc.IH using none by (auto simp: exact_step_def upd nub_snoc split: option.splits)
qed

lemma aggregateExact_groups:
  "aggregateExact fs = map (\<lambda>k. group_merge (filter (\<lambda>f. exact_key f = k) fs)) (nub (map exact_key fs))"
proof -
  have "the (keyed_of fs k) = group_merge (filter (\<lambda>f. exact_key f = k) fs)" if "k \<in> set (nub (map exact_key fs))" for k
    using that by (auto simp: keyed_of_def Let_def filter_empty_conv)
  then show ?thesis by (simp add: aggregateExact_def exact_fold)
qed

text \<open>One representative of each group.\<close>

fun nub_by :: "('a \<Rightarrow> 'b) \<Rightarrow> 'a list \<Rightarrow> 'a list" where
  "nub_by h [] = []"
| "nub_by h (x # xs) = x # filter (\<lambda>y. h y \<noteq> h x) (nub_by h xs)"

lemma set_nub_by: "set (nub_by h xs) \<subseteq> set xs"
  by (induction xs) auto

lemma nub_map: "nub (map h xs) = map h (nub_by h xs)"
  by (induction xs) (simp_all add: filter_map o_def)

lemma nub_by_cong:
  "(\<And>x y. x \<in> set xs \<Longrightarrow> y \<in> set xs \<Longrightarrow> h x = h y \<longleftrightarrow> k x = k y) \<Longrightarrow> nub_by h xs = nub_by k xs"
proof (induction xs)
  case (Cons x xs)
  then have "nub_by h xs = nub_by k xs" by simp
  moreover have "filter (\<lambda>y. h y \<noteq> h x) (nub_by k xs) = filter (\<lambda>y. k y \<noteq> k x) (nub_by k xs)"
    using Cons.prems set_nub_by [of k xs] by (intro filter_cong) auto
  ultimately show ?case by simp
qed simp

lemma groups_cong:
  assumes "\<And>x y. x \<in> set xs \<Longrightarrow> y \<in> set xs \<Longrightarrow> h x = h y \<longleftrightarrow> k x = k y"
  shows "map (\<lambda>a. G (filter (\<lambda>x. h x = a) xs)) (nub (map h xs)) = map (\<lambda>b. G (filter (\<lambda>x. k x = b) xs)) (nub (map k xs))"
proof -
  have "filter (\<lambda>x. h x = h r) xs = filter (\<lambda>x. k x = k r) xs" if "r \<in> set (nub_by k xs)" for r
    using that set_nub_by [of k xs] assms by (intro filter_cong) auto
  then show ?thesis using nub_by_cong [of xs h k, OF assms] by (simp add: nub_map)
qed

text \<open>The incremental merge over a map of text keys is the merge of each group of findings with the same
  file, lines and category, in the order in which the groups first occur.\<close>

theorem aggregateExact_reference:
  assumes "list_all finding_ok findings"
  shows "aggregateExact findings = exact_reference findings"
  unfolding aggregateExact_groups exact_reference_def
  by (rule groups_cong [where G = group_merge]) (use assms in \<open>simp add: list_all_iff exact_key_inj\<close>)

section \<open>Nothing is lost by merging\<close>

lemma group_merge_covers:
  assumes "f \<in> set g" and "\<forall>x\<in>set g. rf_file x = fl"
  shows "covers (group_merge g) f \<and> rf_file (group_merge g) = fl"
  using assms
proof (induction g arbitrary: f rule: rev_induct)
  case (snoc x g)
  show ?case
  proof (cases "g = []")
    case True
    then show ?thesis using snoc.prems by (simp add: group_merge_def)
  next
    case False
    have all: "\<forall>y\<in>set g. rf_file y = fl" using snoc.prems(2) by simp
    have ih: "covers (group_merge g) y \<and> rf_file (group_merge g) = fl" if "y \<in> set g" for y
      by (rule snoc.IH [OF that all])
    have fl: "rf_file (group_merge g) = fl" "rf_file x = fl" using ih [OF hd_in_set [OF False]] snoc.prems(2) by auto
    have m: "covers (merge_exact (group_merge g) x) (group_merge g)" "covers (merge_exact (group_merge g) x) x"
      using covers_merge_exact [of x "group_merge g"] fl by simp_all
    have "covers (merge_exact (group_merge g) x) f"
    proof (cases "f = x")
      case True
      then show ?thesis using m(2) by simp
    next
      case False
      then have "f \<in> set g" using snoc.prems(1) by simp
      then show ?thesis using covers_trans [OF m(1)] ih by blast
    qed
    moreover have "rf_file (merge_exact (group_merge g) x) = fl" using fl by (simp add: merge_exact_def Let_def)
    ultimately show ?thesis using False by (simp add: group_merge_snoc)
  qed
qed simp

lemma aggregateExact_covers:
  assumes "\<forall>x\<in>set fs. finding_ok x" and "f \<in> set fs"
  shows "\<exists>g\<in>set (aggregateExact fs). covers g f"
proof -
  let ?g = "filter (\<lambda>x. exact_key x = exact_key f) fs"
  have "rf_file x = rf_file f" if "x \<in> set ?g" for x
    using that exact_key_inj [of x f] assms by (simp add: location_def)
  then have all: "\<forall>x\<in>set ?g. rf_file x = rf_file f" by blast
  have "covers (group_merge ?g) f" using group_merge_covers [OF _ all, of f] assms(2) by (simp del: set_filter add: set_filter)
  moreover have "group_merge ?g \<in> set (aggregateExact fs)"
    unfolding aggregateExact_groups set_map set_nub using assms(2) by blast
  ultimately show ?thesis by blast
qed

lemma absorb_consumed: "sl_consumed (fst (absorb sim i js)) = sl_consumed i"
  by (induction sim i js rule: absorb.induct) (auto simp: Let_def split: prod.splits)

lemma absorb_covers:
  "covers (sl_absorber (fst (absorb sim i js))) (sl_absorber i)
   \<and> (\<forall>j\<in>set js. \<not> sl_consumed j \<longrightarrow> covers (sl_absorber (fst (absorb sim i js))) (sl_absorber j)
        \<or> j \<in> set (snd (absorb sim i js)))"
proof (induction sim i js rule: absorb.induct)
  case (2 sim i j js)
  show ?case
  proof (cases "sl_consumed j \<or> rf_file (sl_absorber j) \<noteq> rf_file (sl_absorber i) \<or> \<not> sim (sl_vec i) (sl_vec j)")
    case True
    then show ?thesis using 2(1) [OF True] by (auto split: prod.splits)
  next
    case False
    define i1 where "i1 = (if rf_confidence (sl_absorber i) < rf_confidence (sl_absorber j)
                     then i\<lparr>sl_absorber := merge_semantic (sl_absorber j) (sl_absorber i), sl_vec := sl_vec j\<rparr>
                     else i\<lparr>sl_absorber := merge_semantic (sl_absorber i) (sl_absorber j)\<rparr>)"
    have one: "covers (sl_absorber i1) (sl_absorber i)" "covers (sl_absorber i1) (sl_absorber j)"
      using False by (auto simp: i1_def covers_merge_semantic)
    note ih = 2(2) [OF False i1_def]
    then show ?thesis using False one
      by (auto simp: i1_def [symmetric] Let_def split: prod.splits intro: covers_trans)
  qed
qed simp

lemma merge_slots_covers:
  "s \<in> set js \<Longrightarrow> \<not> sl_consumed s \<Longrightarrow> \<exists>g\<in>set (merge_slots sim js). covers g (sl_absorber s)"
proof (induction sim js rule: merge_slots.induct)
  case (2 sim i js)
  show ?case
  proof (cases "sl_consumed i")
    case True
    then show ?thesis using 2 by auto
  next
    case False
    then show ?thesis using 2(2) [OF False] 2(3,4) absorb_covers [of sim i js] by auto
  qed
qed simp

lemma map2_mem: "length fs = length vs \<Longrightarrow> f \<in> set fs \<Longrightarrow> \<exists>v. h f v \<in> set (map2 h fs vs)"
  by (induction fs vs rule: list_induct2) auto

lemma aggregateSemantic_covers:
  assumes "f \<in> set fs"
  shows "\<exists>g\<in>set (fst (aggregateSemantic emb t fs)). covers g f"
proof -
  have "\<exists>g\<in>set (merge_slots sim (map2 (\<lambda>f v. \<lparr>sl_absorber = f, sl_vec = v, sl_consumed = False\<rparr>) fs vs)). covers g f"
    if "length vs = length fs" for sim and vs :: "real list list"
    using map2_mem [OF that [symmetric] assms, of "\<lambda>f v. \<lparr>sl_absorber = f, sl_vec = v, sl_consumed = False\<rparr>"]
      merge_slots_covers [of _ "map2 (\<lambda>f v. \<lparr>sl_absorber = f, sl_vec = v, sl_consumed = False\<rparr>) fs vs" sim] by force
  then show ?thesis using assms by (auto simp: aggregateSemantic_def split: option.splits intro: bexI [of _ f])
qed

section \<open>Rank and cap\<close>

lemma per_file_loop_subseq: "subseq (per_file_loop pf counts xs) xs"
  by (induction xs arbitrary: counts) auto

lemma per_file_loop_count:
  "counts fl \<le> pf \<Longrightarrow> counts fl + length (filter (\<lambda>x. rf_file (snd x) = fl) (per_file_loop pf counts xs)) \<le> pf"
proof (induction xs arbitrary: counts)
  case (Cons x xs)
  let ?c = "counts(rf_file (snd x) := counts (rf_file (snd x)) + 1)"
  have ih: "?c fl \<le> pf \<Longrightarrow> ?c fl + length (filter (\<lambda>x. rf_file (snd x) = fl) (per_file_loop pf ?c xs)) \<le> pf" by (rule Cons.IH)
  have same: "counts fl + length (filter (\<lambda>x. rf_file (snd x) = fl) (per_file_loop pf counts xs)) \<le> pf" by (rule Cons.IH [of counts, OF Cons.prems])
  show ?case using same ih Cons.prems by (cases "pf \<le> counts (rf_file (snd x))"; cases "rf_file (snd x) = fl") simp_all
qed simp

text \<open>What the cap of a file drops ranks below enough findings of the file that it keeps.\<close>

definition better :: "nat \<times> review_finding \<Rightarrow> nat \<times> review_finding \<Rightarrow> bool" where
  "better x y \<longleftrightarrow> rf_file (snd y) = rf_file (snd x) \<and> rank_key y < rank_key x"

lemma per_file_loop_dropped:
  assumes "sorted_wrt (\<lambda>x y. rank_key x < rank_key y) xs" and "x \<in> set xs" and "x \<notin> set (per_file_loop pf counts xs)"
  shows "pf \<le> counts (rf_file (snd x)) + length (filter (better x) (per_file_loop pf counts xs))"
  using assms
proof (induction xs arbitrary: counts)
  case (Cons y xs)
  let ?c = "counts(rf_file (snd y) := counts (rf_file (snd y)) + 1)"
  show ?case
  proof (cases "pf \<le> counts (rf_file (snd y))")
    case True
    then show ?thesis using Cons by auto
  next
    case False
    then have x: "x \<in> set xs" "x \<notin> set (per_file_loop pf ?c xs)" using Cons.prems(2,3) by auto
    have "rank_key y < rank_key x" using Cons.prems(1) x(1) by simp
    moreover have "pf \<le> ?c (rf_file (snd x)) + length (filter (better x) (per_file_loop pf ?c xs))"
      using Cons.IH [of ?c, OF _ x] Cons.prems(1) unfolding sorted_wrt.simps by blast
    moreover have "better x y \<longleftrightarrow> rf_file (snd y) = rf_file (snd x)" using \<open>rank_key y < rank_key x\<close> by (simp add: better_def)
    ultimately show ?thesis using False by (cases "rf_file (snd y) = rf_file (snd x)") simp_all
  qed
qed simp

definition ranked :: "review_finding list \<Rightarrow> (nat \<times> review_finding) list" where
  "ranked fs = sort_key rank_key (zip [0..<length fs] fs)"

lemma ranked_strict: "sorted_wrt (\<lambda>x y. rank_key x < rank_key y) (ranked fs)"
proof -
  have sorted: "sorted (map rank_key (ranked fs))" by (simp add: ranked_def)
  have "mset (map rank_key (ranked fs)) = mset (map rank_key (zip [0..<length fs] fs))" by (simp add: ranked_def)
  moreover have "distinct (map rank_key (zip [0..<length fs] fs))"
  proof -
    have "distinct (map fst (zip [0..<length fs] fs))" by simp
    then have "distinct (map (snd \<circ> snd \<circ> rank_key) (zip [0..<length fs] fs))" by (simp add: rank_key_def o_def)
    then show ?thesis unfolding map_map [symmetric] by (metis distinct_map map_map)
  qed
  ultimately have "distinct (map rank_key (ranked fs))" by (metis mset_eq_imp_distinct_iff)
  then have "sorted_wrt (<) (map rank_key (ranked fs))" using sorted by (simp add: strict_sorted_iff)
  then show ?thesis by (simp add: sorted_wrt_map)
qed

lemma subseq_set: "subseq xs ys \<Longrightarrow> set xs \<subseteq> set ys"
  by (induction rule: list_emb.induct) auto

lemma sorted_wrt_subseq: "subseq xs ys \<Longrightarrow> sorted_wrt P ys \<Longrightarrow> sorted_wrt P xs"
  by (induction rule: list_emb.induct) (auto dest: subseq_set)

lemma take_precedes:
  assumes "sorted_wrt P xs" and "x \<in> set xs" and "x \<notin> set (take n xs)"
  shows "length (take n xs) = n \<and> (\<forall>y\<in>set (take n xs). P y x)"
proof -
  have x: "x \<in> set (drop n xs)" using assms(2,3) by (metis Un_iff append_take_drop_id set_append)
  then have "n < length xs" by (metis drop_all empty_iff list.set(1) not_le)
  moreover have "\<forall>y\<in>set (take n xs). P y x"
    using assms(1) x sorted_wrt_append [of P "take n xs" "drop n xs"] by simp
  ultimately show ?thesis by simp
qed

lemma ranked_caps:
  assumes "0 < perFile" and "0 < perReview"
  shows "\<exists>s. rankAndCap perFile perReview findings = Some (map snd s, length findings - length s)
    \<and> sorted_wrt (\<lambda>x y. rank_key x < rank_key y) s \<and> set s \<subseteq> set (zip [0..<length findings] findings)
    \<and> length s \<le> perReview \<and> (\<forall>fl. length (filter (\<lambda>x. rf_file (snd x) = fl) s) \<le> perFile)
    \<and> (\<forall>x\<in>set (zip [0..<length findings] findings) - set s.
         perFile \<le> length (filter (better x) s) \<or> length s = perReview \<and> (\<forall>y\<in>set s. rank_key y < rank_key x))"
proof -
  let ?L = "per_file_loop perFile (\<lambda>_. 0) (ranked findings)" and ?s = "survivors perFile perReview findings"
  have s: "?s = take perReview ?L" by (simp add: survivors_def ranked_def)
  have sub: "subseq ?L (ranked findings)" by (rule per_file_loop_subseq)
  have sL: "sorted_wrt (\<lambda>x y. rank_key x < rank_key y) ?L" by (rule sorted_wrt_subseq [OF sub ranked_strict])
  have mem: "set (ranked findings) = set (zip [0..<length findings] findings)" by (simp add: ranked_def)
  have "rankAndCap perFile perReview findings = Some (map snd ?s, length findings - length ?s)"
    using assms by (cases "findings = []") (simp_all add: rankAndCap_def survivors_def Let_def)
  moreover have "sorted_wrt (\<lambda>x y. rank_key x < rank_key y) ?s" unfolding s by (rule sorted_wrt_take [OF sL])
  moreover have "set ?s \<subseteq> set (zip [0..<length findings] findings)"
    using subseq_set [OF sub] set_take_subset [of perReview ?L] unfolding s mem by blast
  moreover have "length ?s \<le> perReview" by (simp add: s)
  moreover have "length (filter (\<lambda>x. rf_file (snd x) = fl) ?s) \<le> perFile" for fl
  proof -
    have "length (filter (\<lambda>x. rf_file (snd x) = fl) ?s) \<le> length (filter (\<lambda>x. rf_file (snd x) = fl) ?L)"
      unfolding s by (metis append_take_drop_id filter_append le_add1 length_append)
    then show ?thesis using per_file_loop_count [of "\<lambda>_. 0" fl perFile "ranked findings"] by simp
  qed
  moreover have "perFile \<le> length (filter (better x) ?s) \<or> length ?s = perReview \<and> (\<forall>y\<in>set ?s. rank_key y < rank_key x)"
    if x: "x \<in> set (zip [0..<length findings] findings) - set ?s" for x
  proof (cases "x \<in> set ?L")
    case True
    then show ?thesis using take_precedes [OF sL True, of perReview] x by (simp add: s)
  next
    case False
    have many: "perFile \<le> length (filter (better x) ?L)"
      using per_file_loop_dropped [OF ranked_strict, of x findings perFile "\<lambda>_. 0"] x False mem by simp
    show ?thesis
    proof (cases "\<exists>z\<in>set (drop perReview ?L). better x z")
      case True
      then obtain z where z: "z \<in> set (drop perReview ?L)" "rank_key z < rank_key x" by (auto simp: better_def)
      have "z \<in> set ?L" using z(1) by (rule in_set_dropD)
      moreover have "z \<notin> set (take perReview ?L)"
        using z(1) sL sorted_wrt_append [of "\<lambda>x y. rank_key x < rank_key y" "take perReview ?L" "drop perReview ?L"] by force
      ultimately have "length ?s = perReview \<and> (\<forall>y\<in>set ?s. rank_key y < rank_key z)"
        using take_precedes [OF sL, of z perReview] by (simp add: s)
      then show ?thesis using z(2) by (meson order.strict_trans)
    next
      case False
      then have "filter (better x) ?L = filter (better x) ?s"
        unfolding s by (metis append_Nil2 append_take_drop_id filter_append filter_empty_conv)
      then show ?thesis using many by simp
    qed
  qed
  ultimately show ?thesis by blast
qed

text \<open>The findings that survive are strictly in rank order (severity, then confidence, then input
  order), at most \<open>perFile\<close> per file and \<open>perReview\<close> in all, the rest is counted as dropped, and a finding is dropped only when
  \<open>perFile\<close> better ones of its file are kept or the review is full with better ones.\<close>

theorem rankAndCap_correct:
  assumes "0 < perFile" and "0 < perReview"
  shows "\<exists>s. rankAndCap perFile perReview findings = Some (map snd s, length findings - length s)
    \<and> sorted_wrt (\<lambda>x y. rank_key x < rank_key y) s \<and> set s \<subseteq> set (zip [0..<length findings] findings)
    \<and> length s \<le> perReview \<and> (\<forall>fl. length (filter (\<lambda>x. rf_file (snd x) = fl) s) \<le> perFile)
    \<and> (\<forall>x\<in>set (zip [0..<length findings] findings) - set s.
         perFile \<le> length (filter (better x) s) \<or> length s = perReview \<and> (\<forall>y\<in>set s. rank_key y < rank_key x))"
  by (rule ranked_caps [OF assms])

section \<open>The aggregate\<close>

lemma scope_loop_filter:
  "scope_loop fs kept n = (kept @ filter (\<lambda>f. activityMayEmitScope AGGREGATOR_UPSTREAM_ACTIVITY (rf_scope f)) fs,
     n + length (filter (\<lambda>f. \<not> activityMayEmitScope AGGREGATOR_UPSTREAM_ACTIVITY (rf_scope f)) fs))"
  by (induction fs kept n rule: scope_loop.induct) auto

lemma may_emit_iff: "activityMayEmitScope a scope \<longleftrightarrow> scope = ''chunk_observed''"
  by (simp add: activityMayEmitScope_def ACTIVITIES_THAT_MAY_EMIT_BEYOND_CHUNK_SCOPE_def)

lemma scope_consistency: "fst (assertFindingScopeConsistency fs) = filter (\<lambda>f. rf_scope f = ''chunk_observed'') fs"
  by (simp add: assertFindingScopeConsistency_def scope_loop_filter may_emit_iff)

text \<open>A finding ranks at least as high as another: by severity, then by confidence.\<close>

definition at_least :: "review_finding \<Rightarrow> review_finding \<Rightarrow> bool" where
  "at_least y f \<longleftrightarrow> (severityRank (rf_severity f), rf_confidence f) \<le> (severityRank (rf_severity y), rf_confidence y)"

lemma at_least_rank: "rank_key y < rank_key x \<Longrightarrow> at_least (snd y) (snd x)"
  by (auto simp: rank_key_def at_least_def less_eq_prod_def less_prod_def)

lemma at_least_covers: "at_least y g \<Longrightarrow> covers g f \<Longrightarrow> at_least y f"
  by (auto simp: at_least_def covers_def less_eq_prod_def)

lemma length_filter_le_imp: "(\<And>x. x \<in> set xs \<Longrightarrow> P x \<Longrightarrow> Q x) \<Longrightarrow> length (filter P xs) \<le> length (filter Q xs)"
  by (induction xs) (auto intro: le_SucI)

text \<open>Aggregation always answers, within the caps; and every finding of chunk scope is part of a
  finding of the answer that is in the same file and at least as severe and confident, unless the file or the review is full with
  findings that rank at least as high. This holds whatever the embedder answers.\<close>

theorem doAggregate_covers:
  assumes "\<forall>f\<in>set findings. finding_ok f"
  shows "\<exists>out. doAggregate findings policyRevision embedder = Some out
    \<and> length (ag_findings out) \<le> PER_REVIEW_CAP \<and> (\<forall>fl. length (filter (\<lambda>g. rf_file g = fl) (ag_findings out)) \<le> PER_FILE_CAP)
    \<and> (\<forall>f\<in>set findings. rf_scope f = ''chunk_observed'' \<longrightarrow>
         (\<exists>g\<in>set (ag_findings out). covers g f)
         \<or> PER_FILE_CAP \<le> length (filter (\<lambda>y. rf_file y = rf_file f \<and> at_least y f) (ag_findings out))
         \<or> length (ag_findings out) = PER_REVIEW_CAP \<and> (\<forall>y\<in>set (ag_findings out). at_least y f))"
proof -
  define scoped where "scoped = filter (\<lambda>f. rf_scope f = ''chunk_observed'') findings"
  define sem where "sem = fst (aggregateSemantic embedder SEMANTIC_MERGE_THRESHOLD (aggregateExact scoped))"
  have caps: "0 < PER_FILE_CAP" "0 < PER_REVIEW_CAP" by (simp_all add: PER_FILE_CAP_def PER_REVIEW_CAP_def)
  obtain s where s: "rankAndCap PER_FILE_CAP PER_REVIEW_CAP sem = Some (map snd s, length sem - length s)"
      "length s \<le> PER_REVIEW_CAP" "\<forall>fl. length (filter (\<lambda>x. rf_file (snd x) = fl) s) \<le> PER_FILE_CAP"
      "\<forall>x\<in>set (zip [0..<length sem] sem) - set s.
         PER_FILE_CAP \<le> length (filter (better x) s) \<or> length s = PER_REVIEW_CAP \<and> (\<forall>y\<in>set s. rank_key y < rank_key x)"
    using ranked_caps [OF caps, of sem] by blast
  have "\<exists>out. doAggregate findings policyRevision embedder = Some out \<and> ag_findings out = map snd s"
    using s(1) by (cases "aggregateSemantic embedder SEMANTIC_MERGE_THRESHOLD (aggregateExact scoped)")
      (simp add: doAggregate_def scope_consistency scoped_def [symmetric] sem_def Let_def)
  then obtain out where out: "doAggregate findings policyRevision embedder = Some out" "ag_findings out = map snd s" by blast
  have "(\<exists>g\<in>set (map snd s). covers g f)
       \<or> PER_FILE_CAP \<le> length (filter (\<lambda>y. rf_file y = rf_file f \<and> at_least y f) (map snd s))
       \<or> length (map snd s) = PER_REVIEW_CAP \<and> (\<forall>y\<in>set (map snd s). at_least y f)"
    if f: "f \<in> set findings" "rf_scope f = ''chunk_observed''" for f
  proof -
    obtain h where h: "h \<in> set (aggregateExact scoped)" "covers h f"
      using aggregateExact_covers [of scoped f] assms f by (auto simp: scoped_def)
    obtain g where g: "g \<in> set sem" "covers g f"
      using aggregateSemantic_covers [OF h(1)] covers_trans [OF _ h(2)] unfolding sem_def by blast
    then obtain i where i: "i < length sem" "sem ! i = g" by (auto simp: in_set_conv_nth)
    then have x: "(i, g) \<in> set (zip [0..<length sem] sem)" by (auto simp: set_zip intro!: exI [of _ i])
    show ?thesis
    proof (cases "(i, g) \<in> set s")
      case True
      then have "g \<in> set (map snd s)" by force
      then show ?thesis using g(2) by blast
    next
      case False
      have fl: "rf_file g = rf_file f" using g(2) by (simp add: covers_def)
      have imp: "at_least (snd y) f" if "rank_key y < rank_key (i, g)" for y
        using at_least_covers [OF at_least_rank [OF that]] g(2) by simp
      have le: "length (filter (better (i, g)) s) \<le> length (filter (\<lambda>y. rf_file (snd y) = rf_file f \<and> at_least (snd y) f) s)"
        using imp fl by (intro length_filter_le_imp) (auto simp: better_def)
      have eq: "length (filter (\<lambda>y. rf_file y = rf_file f \<and> at_least y f) (map snd s)) = length (filter (\<lambda>y. rf_file (snd y) = rf_file f \<and> at_least (snd y) f) s)"
        by (simp add: filter_map o_def)
      have "PER_FILE_CAP \<le> length (filter (better (i, g)) s) \<or> length s = PER_REVIEW_CAP \<and> (\<forall>y\<in>set s. rank_key y < rank_key (i, g))"
        using s(4) x False by blast
      then show ?thesis
      proof
        assume "PER_FILE_CAP \<le> length (filter (better (i, g)) s)"
        then have "PER_FILE_CAP \<le> length (filter (\<lambda>y. rf_file y = rf_file f \<and> at_least y f) (map snd s))" using le eq by linarith
        then show ?thesis by blast
      next
        assume "length s = PER_REVIEW_CAP \<and> (\<forall>y\<in>set s. rank_key y < rank_key (i, g))"
        then show ?thesis using imp by auto
      qed
    qed
  qed
  moreover have "length (filter (\<lambda>g. rf_file g = fl) (map snd s)) \<le> PER_FILE_CAP" for fl
    using s(3) by (simp add: filter_map o_def)
  ultimately show ?thesis using out s(2) by auto
qed

text \<open>Merging concatenates bodies without the bound of the contract. Two findings that pass it, at the
  same place, with bodies that are together too long, are merged by the deduplication into a finding that the input schema of
  the aggregation (and of every later stage) rejects.\<close>

theorem merged_finding_rejected:
  assumes "finding_ok f" and "finding_ok g" and "location f = location g"
    and "rf_body g \<notin> set (split_str BODY_SEPARATOR (rf_body f))" and "2000 < length (rf_body f) + 5 + length (rf_body g)"
  shows "\<exists>h. doDedupLinterWithLlm [f] [g] embedder = ([h], False) \<and> \<not> finding_ok h
    \<and> aggregateFindings [h] policyRevision embedder' = None"
proof -
  have "exact_key f = exact_key g" using exact_key_inj assms(1-3) by blast
  then have "aggregateExact [f, g] = [merge_exact f g]" by (simp add: aggregateExact_groups group_merge_def)
  moreover have "\<not> finding_ok (merge_exact f g)"
    using assms(4,5) by (simp add: finding_ok_def merge_exact_def merged_body_def BODY_SEPARATOR_def Let_def)
  ultimately show ?thesis by (simp add: doDedupLinterWithLlm_def aggregateSemantic_def aggregateFindings_def)
qed

section \<open>Instances\<close>

definition demo_finding :: "string \<Rightarrow> string \<Rightarrow> string \<Rightarrow> rat \<Rightarrow> review_finding" where
  "demo_finding fl sev body conf = \<lparr>rf_file = fl, rf_start_line = 3, rf_end_line = 4, rf_severity = sev, rf_category = ''bug'',
     rf_title = ''t'', rf_body = body, rf_suggestion = None, rf_confidence = conf, rf_sources = [], rf_scope = ''chunk_observed'', rf_evidence_refs = []\<rparr>"

lemma demo_finding_ok:
  "fl \<noteq> [] \<Longrightarrow> sev \<in> set SEVERITIES \<Longrightarrow> 1 \<le> length body \<Longrightarrow> length body \<le> 2000 \<Longrightarrow> 0 \<le> conf \<Longrightarrow> conf \<le> 1
    \<Longrightarrow> finding_ok (demo_finding fl sev body conf)"
  by (simp add: finding_ok_def demo_finding_def CATEGORIES_def SCOPES_def)

theorem aggregateExact_reference_witness:
  "aggregateExact [demo_finding ''a'' ''nit'' ''x'' 1, demo_finding ''b'' ''nit'' ''y'' 1, demo_finding ''a'' ''issue'' ''z'' 0]
    = exact_reference [demo_finding ''a'' ''nit'' ''x'' 1, demo_finding ''b'' ''nit'' ''y'' 1, demo_finding ''a'' ''issue'' ''z'' 0]"
  by (rule aggregateExact_reference) (simp add: demo_finding_ok SEVERITIES_def)

abbreviation (input) demo_pair :: "review_finding list" where
  "demo_pair \<equiv> [demo_finding ''a'' ''nit'' ''x'' 1, demo_finding ''a'' ''issue'' ''z'' 0]"

theorem rankAndCap_correct_witness:
  "\<exists>s. rankAndCap 1 2 demo_pair = Some (map snd s, length demo_pair - length s)
    \<and> sorted_wrt (\<lambda>x y. rank_key x < rank_key y) s \<and> set s \<subseteq> set (zip [0..<length demo_pair] demo_pair)
    \<and> length s \<le> 2 \<and> (\<forall>fl. length (filter (\<lambda>x. rf_file (snd x) = fl) s) \<le> 1)
    \<and> (\<forall>x\<in>set (zip [0..<length demo_pair] demo_pair) - set s.
         1 \<le> length (filter (better x) s) \<or> length s = 2 \<and> (\<forall>y\<in>set s. rank_key y < rank_key x))"
  by (rule rankAndCap_correct) simp_all

theorem doAggregate_covers_witness:
  "\<exists>out. doAggregate [demo_finding ''a'' ''nit'' ''x'' 1] 0 None = Some out
    \<and> ((\<exists>g\<in>set (ag_findings out). covers g (demo_finding ''a'' ''nit'' ''x'' 1)) \<or> PER_FILE_CAP \<le> length (ag_findings out))"
proof -
  let ?f = "demo_finding ''a'' ''nit'' ''x'' 1"
  have ok: "\<forall>f\<in>set [?f]. finding_ok f" by (simp add: demo_finding_ok SEVERITIES_def)
  have sc: "rf_scope ?f = ''chunk_observed''" by (simp add: demo_finding_def)
  obtain out where out: "doAggregate [?f] 0 None = Some out"
      "(\<exists>g\<in>set (ag_findings out). covers g ?f)
         \<or> PER_FILE_CAP \<le> length (filter (\<lambda>y. rf_file y = rf_file ?f \<and> at_least y ?f) (ag_findings out))
         \<or> length (ag_findings out) = PER_REVIEW_CAP \<and> (\<forall>y\<in>set (ag_findings out). at_least y ?f)"
    using doAggregate_covers [OF ok, of 0 None] sc by auto
  moreover have "length (filter (\<lambda>y. rf_file y = rf_file ?f \<and> at_least y ?f) (ag_findings out)) \<le> length (ag_findings out)"
    by (rule length_filter_le)
  ultimately have "(\<exists>g\<in>set (ag_findings out). covers g ?f) \<or> PER_FILE_CAP \<le> length (ag_findings out)"
    unfolding PER_FILE_CAP_def PER_REVIEW_CAP_def by linarith
  then show ?thesis using out(1) by blast
qed

theorem merged_finding_rejected_witness:
  "\<exists>h. doDedupLinterWithLlm [demo_finding ''a'' ''nit'' (replicate 1500 CHR ''x'') 1] [demo_finding ''a'' ''nit'' (replicate 1400 CHR ''y'') 1] None = ([h], False)
    \<and> \<not> finding_ok h \<and> aggregateFindings [h] 0 None = None"
proof (rule merged_finding_rejected)
  have "sublist w s" if "w \<in> set (split_str sep s)" for w sep s :: string
    using sublist_join_str [OF that, of sep] by (simp add: join_split_str)
  then have "set w \<subseteq> {CHR ''x''}" if "w \<in> set (split_str BODY_SEPARATOR (replicate 1500 CHR ''x''))" for w
    using set_mono_sublist [of w "replicate 1500 CHR ''x''"] that by fastforce
  moreover have "CHR ''y'' \<in> set (replicate 1400 CHR ''y'')" by simp
  ultimately show "rf_body (demo_finding ''a'' ''nit'' (replicate 1400 CHR ''y'') 1)
      \<notin> set (split_str BODY_SEPARATOR (rf_body (demo_finding ''a'' ''nit'' (replicate 1500 CHR ''x'') 1)))"
    by (fastforce simp: demo_finding_def)
  show "finding_ok (demo_finding ''a'' ''nit'' (replicate 1500 CHR ''x'') 1)" "finding_ok (demo_finding ''a'' ''nit'' (replicate 1400 CHR ''y'') 1)"
    by (simp_all add: demo_finding_ok SEVERITIES_def)
qed (simp_all add: demo_finding_def location_def)

end
