(* ===== verification/Arbitration.thy ===== *)
theory Arbitration
  imports Prelude
begin

text \<open>
  Arbitration of static-analysis findings: \<^verbatim>\<open>review/arbitration/suppression_policy.ts\<close>,
  \<^verbatim>\<open>arbitrate.ts\<close>, \<^verbatim>\<open>arbitration_apply.ts\<close> and the two repositories it writes. An intent of the model asks to suppress a
  finding with a confidence; the policy decides. A confidence is carried as its decimal text and compared by its value;
  the texts the contract admits have at most three decimals, where the comparison of doubles is the comparison of
  the decimals.
\<close>

section \<open>Policy\<close>

record rule_suppressibility =
  rs_suppressible :: bool
  rs_min_confidence :: rat

record tool_policy =
  tp_default :: rule_suppressibility
  tp_rules :: "(string \<times> rule_suppressibility) list"

record suppression_policy =
  sp_ruff :: tool_policy
  sp_gitleaks :: tool_policy
  sp_semgrep :: tool_policy
  sp_trivy :: tool_policy
  sp_eslint :: tool_policy
  sp_llm :: tool_policy

definition KNOWN_TOOLS :: "string list" where
  "KNOWN_TOOLS = [''ruff'', ''gitleaks'', ''semgrep'', ''trivy'', ''eslint'', ''llm'']"

definition BUNDLED_SUPPRESSION_POLICY :: suppression_policy where
  "BUNDLED_SUPPRESSION_POLICY =
     (let rule = (\<lambda>s c. \<lparr>rs_suppressible = s, rs_min_confidence = c\<rparr>); plain = (\<lambda>r. \<lparr>tp_default = r, tp_rules = []\<rparr>) in
      \<lparr>sp_ruff = \<lparr>tp_default = rule True (85/100), tp_rules = [(''F401'', rule True (90/100)), (''E501'', rule True (80/100))]\<rparr>,
       sp_gitleaks = plain (rule False 1), sp_semgrep = plain (rule True (90/100)), sp_trivy = plain (rule False 1),
       sp_eslint = \<lparr>tp_default = rule True (85/100), tp_rules = [(''no-unused-vars'', rule True (90/100))]\<rparr>,
       sp_llm = plain (rule True (85/100))\<rparr>)"

definition lookupRuleOrDefault :: "tool_policy \<Rightarrow> string \<Rightarrow> rule_suppressibility" where
  "lookupRuleOrDefault tp rule_id = (case map_of (tp_rules tp) rule_id of Some r \<Rightarrow> r | None \<Rightarrow> tp_default tp)"

definition selectToolBranch :: "suppression_policy \<Rightarrow> string \<Rightarrow> tool_policy" where
  "selectToolBranch p tool =
     (if tool = ''ruff'' then sp_ruff p else if tool = ''gitleaks'' then sp_gitleaks p else if tool = ''semgrep'' then sp_semgrep p
      else if tool = ''trivy'' then sp_trivy p else if tool = ''eslint'' then sp_eslint p else if tool = ''llm'' then sp_llm p
      else sp_gitleaks p)"

definition isSuppressible :: "suppression_policy \<Rightarrow> string \<Rightarrow> string \<Rightarrow> rat \<Rightarrow> bool \<times> rat" where
  "isSuppressible p tool rule_id confidence =
     (if tool \<notin> set KNOWN_TOOLS then (False, 1)
      else let r = lookupRuleOrDefault (selectToolBranch p tool) rule_id in
           (rs_suppressible r \<and> rs_min_confidence r \<le> confidence, rs_min_confidence r))"

section \<open>Intents and decisions\<close>

record analysis_finding =
  af_finding_id :: uuid
  af_tool :: string
  af_rule_id :: string
  af_file :: string
  af_start_line :: int
  af_end_line :: int

record arbitration_intent =
  in_target :: uuid
  in_confidence :: string
  in_reason :: string

record arbitration_decision =
  de_finding_id :: uuid
  de_state :: string
  de_reason :: "string option"
  de_confidence :: "string option"
  de_model :: "string option"
  de_prompt_version :: "string option"
  de_suppressed_at :: "string option"

record rejected_intent =
  ri_target :: uuid
  ri_reason_rejected :: string
  ri_confidence :: "string option"
  ri_reason :: "string option"

text \<open>\<^verbatim>\<open>Number(text)\<close> of a canonical decimal.\<close>

definition confidence_value :: "string \<Rightarrow> rat" where
  "confidence_value s = (case split_on CHR ''.'' s of
     [wpart] \<Rightarrow> of_nat (number_of wpart)
   | [wpart, fpart] \<Rightarrow> of_nat (number_of wpart) + of_nat (number_of fpart) / 10 ^ length fpart
   | _ \<Rightarrow> 0)"

definition rejectionReason :: "suppression_policy \<Rightarrow> string \<Rightarrow> string \<Rightarrow> string" where
  "rejectionReason p tool rule_id =
     (if tool \<notin> set KNOWN_TOOLS then ''policy_forbids''
      else if \<not> rs_suppressible (lookupRuleOrDefault (selectToolBranch p tool) rule_id) then ''policy_forbids''
      else ''below_min_confidence'')"

definition noneDecision :: "uuid \<Rightarrow> arbitration_decision" where
  "noneDecision fid = \<lparr>de_finding_id = fid, de_state = ''NONE'', de_reason = None, de_confidence = None, de_model = None,
     de_prompt_version = None, de_suppressed_at = None\<rparr>"

definition intent_key :: "arbitration_intent \<Rightarrow> string \<times> rat \<times> string" where
  "intent_key i = (in_target i, - confidence_value (in_confidence i), in_reason i)"

text \<open>The index of the sorted intents: the first of each target, and the others.\<close>

definition index_step ::
  "(uuid \<rightharpoonup> arbitration_intent) \<times> arbitration_intent list \<Rightarrow> arbitration_intent \<Rightarrow> (uuid \<rightharpoonup> arbitration_intent) \<times> arbitration_intent list" where
  "index_step st i =
     (case st of (byTarget, losers) \<Rightarrow>
       if byTarget (in_target i) = None then (byTarget(in_target i \<mapsto> i), losers) else (byTarget, losers @ [i]))"

record arb_env =
  ar_policy :: suppression_policy
  ar_model :: string
  ar_promptVersion :: string
  ar_now :: string

definition suppress_decision :: "arb_env \<Rightarrow> analysis_finding \<Rightarrow> arbitration_intent \<Rightarrow> arbitration_decision" where
  "suppress_decision e f i = \<lparr>de_finding_id = af_finding_id f, de_state = ''SUPPRESSED_BY_LLM'', de_reason = Some (in_reason i),
     de_confidence = Some (in_confidence i), de_model = Some (ar_model e), de_prompt_version = Some (ar_promptVersion e),
     de_suppressed_at = Some (ar_now e)\<rparr>"

definition reject :: "string \<Rightarrow> arbitration_intent \<Rightarrow> rejected_intent" where
  "reject why i = \<lparr>ri_target = in_target i, ri_reason_rejected = why, ri_confidence = Some (in_confidence i), ri_reason = Some (in_reason i)\<rparr>"

text \<open>One round of the loop over the findings: its decision and the rejection it adds.\<close>

definition decide :: "arb_env \<Rightarrow> (uuid \<rightharpoonup> arbitration_intent) \<Rightarrow> analysis_finding \<Rightarrow> arbitration_decision \<times> rejected_intent list" where
  "decide e byTarget f =
     (case byTarget (af_finding_id f) of
        None \<Rightarrow> (noneDecision (af_finding_id f), [])
      | Some i \<Rightarrow>
          if fst (isSuppressible (ar_policy e) (af_tool f) (af_rule_id f) (confidence_value (in_confidence i)))
          then (suppress_decision e f i, [])
          else (noneDecision (af_finding_id f), [reject (rejectionReason (ar_policy e) (af_tool f) (af_rule_id f)) i]))"

record arbitration_result =
  ar_decisions :: "arbitration_decision list"
  ar_rejected :: "rejected_intent list"

definition arbitrate ::
  "arb_env \<Rightarrow> analysis_finding list \<Rightarrow> uuid list \<Rightarrow> arbitration_intent list \<Rightarrow> arbitration_result" where
  "arbitrate e tier1 tier2 intents =
     (let ordered = sort_key intent_key intents;
        (byTarget, losers) = foldl index_step (Map.empty, []) ordered;
        ids = map af_finding_id tier1;
        outs = map (decide e byTarget) tier1;
        decisions = map fst outs @ map noneDecision tier2;
        rejected = concat (map snd outs)
          @ map (reject ''target_not_found'') (filter (\<lambda>i. in_target i \<notin> set ids) ordered)
          @ map (reject ''duplicate_intent_loser'') losers
      in \<lparr>ar_decisions = sort_key (\<lambda>d. (de_state d, de_finding_id d)) decisions,
          ar_rejected = sort_key (\<lambda>r. (ri_reason_rejected r, ri_target r)) rejected\<rparr>)"

section \<open>The winning intent\<close>

definition winner :: "arbitration_intent list \<Rightarrow> uuid \<Rightarrow> arbitration_intent option" where
  "winner intents t = first_row (filter (\<lambda>i. in_target i = t) (sort_key intent_key intents))"

lemma index_fold_fst: "fst (foldl index_step (m, ls) is) = (\<lambda>t. case m t of Some i \<Rightarrow> Some i | None \<Rightarrow> first_row (filter (\<lambda>i. in_target i = t) is))"
proof (induction "is" arbitrary: m ls)
  case Nil
  then show ?case by (auto simp: fun_eq_iff split: option.splits)
next
  case (Cons i "is")
  then show ?case by (auto simp: fun_eq_iff index_step_def split: option.splits)
qed

lemma index_is_winner: "fst (foldl index_step (Map.empty, []) (sort_key intent_key intents)) = winner intents"
  by (simp add: index_fold_fst winner_def fun_eq_iff)

text \<open>The losers are the intents that are not first of their target.\<close>

lemma index_fold_parts:
  "i \<in> set is \<Longrightarrow> fst (foldl index_step (m, ls) is) (in_target i) = Some i \<or> i \<in> set (snd (foldl index_step (m, ls) is))"
proof -
  have mono: "set ls \<subseteq> set (snd (foldl index_step (m, ls) is))" for m ls "is"
    by (induction "is" arbitrary: m ls) (fastforce simp: index_step_def)+
  show "i \<in> set is \<Longrightarrow> ?thesis"
  proof (induction "is" arbitrary: m ls)
    case (Cons j "is")
    show ?case
    proof (cases "i = j")
      case True
      show ?thesis
      proof (cases "m (in_target i)")
        case None
        then have "index_step (m, ls) j = (m(in_target i \<mapsto> i), ls)" using True by (simp add: index_step_def)
        then show ?thesis using True by (simp add: index_fold_fst)
      next
        case (Some k)
        then have "index_step (m, ls) j = (m, ls @ [i])" using True by (simp add: index_step_def)
        then show ?thesis using mono [of "ls @ [i]" m "is"] by auto
      qed
    next
      case False
      then show ?thesis using Cons by (cases "index_step (m, ls) j") auto
    qed
  qed simp
qed

lemma winner_Some:
  assumes "winner intents t = Some w"
  shows "w \<in> set intents" and "in_target w = t"
    and "\<And>i. i \<in> set intents \<Longrightarrow> in_target i = t \<Longrightarrow> confidence_value (in_confidence i) \<le> confidence_value (in_confidence w)"
proof -
  let ?F = "filter (\<lambda>i. in_target i = t) (sort_key intent_key intents)"
  obtain rest where F: "?F = w # rest" using assms by (cases ?F) (auto simp: winner_def)
  have mem: "w \<in> set ?F" by (simp add: F)
  then show "w \<in> set intents" "in_target w = t" by auto
  have "sorted (map intent_key ?F)" by (rule sorted_filter) simp
  then have least: "intent_key w \<le> intent_key i" if "i \<in> set ?F" for i using that by (auto simp: F)
  show "confidence_value (in_confidence i) \<le> confidence_value (in_confidence w)" if "i \<in> set intents" "in_target i = t" for i
    using least [of i] that \<open>in_target w = t\<close> by (auto simp: intent_key_def less_eq_prod_def)
qed

lemma winner_None: "winner intents t = None \<longleftrightarrow> (\<forall>i\<in>set intents. in_target i \<noteq> t)"
  by (auto simp: winner_def filter_empty_conv)

lemma isSuppressible_mono:
  "fst (isSuppressible p tool rule c) \<Longrightarrow> c \<le> c' \<Longrightarrow> fst (isSuppressible p tool rule c')"
  by (auto simp: isSuppressible_def Let_def split: if_splits)

definition losers :: "arbitration_intent list \<Rightarrow> arbitration_intent list" where
  "losers intents = snd (foldl index_step (Map.empty, []) (sort_key intent_key intents))"

lemma index_fold: "foldl index_step (Map.empty, []) (sort_key intent_key intents) = (winner intents, losers intents)"
  by (simp add: prod_eq_iff index_is_winner losers_def)

lemma arbitrate_alt:
  "arbitrate e tier1 tier2 intents =
     \<lparr>ar_decisions = sort_key (\<lambda>d. (de_state d, de_finding_id d)) (map (fst \<circ> decide e (winner intents)) tier1 @ map noneDecision tier2),
      ar_rejected = sort_key (\<lambda>r. (ri_reason_rejected r, ri_target r))
        (concat (map (snd \<circ> decide e (winner intents)) tier1)
          @ map (reject ''target_not_found'') (filter (\<lambda>i. in_target i \<notin> af_finding_id ` set tier1) (sort_key intent_key intents))
          @ map (reject ''duplicate_intent_loser'') (losers intents))\<rparr>"
  by (simp add: arbitrate_def index_fold Let_def)

lemma decide_id [simp]: "de_finding_id (fst (decide e m f)) = af_finding_id f"
  by (auto simp: decide_def noneDecision_def suppress_decision_def split: option.splits)

lemma decide_suppressed: "de_state (fst (decide e m f)) = ''SUPPRESSED_BY_LLM'' \<longleftrightarrow>
    (\<exists>i. m (af_finding_id f) = Some i \<and> fst (isSuppressible (ar_policy e) (af_tool f) (af_rule_id f) (confidence_value (in_confidence i))))"
  by (auto simp: decide_def noneDecision_def suppress_decision_def split: option.splits)

lemma noneDecision_simps [simp]: "de_finding_id (noneDecision fid) = fid" "de_state (noneDecision fid) = ''NONE''"
  by (simp_all add: noneDecision_def)

lemma arbitrate_ids: "mset (map de_finding_id (ar_decisions (arbitrate e tier1 tier2 intents))) = mset (map af_finding_id tier1 @ tier2)"
proof -
  let ?D = "map (fst \<circ> decide e (winner intents)) tier1 @ map noneDecision tier2"
  have "mset (map de_finding_id (ar_decisions (arbitrate e tier1 tier2 intents))) = mset (map de_finding_id ?D)"
    by (simp add: arbitrate_alt del: map_map map_append)
  also have "map de_finding_id ?D = map af_finding_id tier1 @ tier2" by (simp add: o_def)
  finally show ?thesis .
qed

text \<open>Arbitration decides every finding exactly once, and a Tier-1 finding is suppressed exactly when
  some intent on it has a confidence the policy accepts for its tool and rule: neither the order of the intents nor a
  weaker duplicate changes that. Tier-2 findings are never suppressed.\<close>

theorem arbitrate_correct:
  assumes "distinct (map af_finding_id tier1 @ tier2)"
  shows "mset (map de_finding_id (ar_decisions (arbitrate e tier1 tier2 intents))) = mset (map af_finding_id tier1 @ tier2)
    \<and> (\<forall>d\<in>set (ar_decisions (arbitrate e tier1 tier2 intents)).
         de_state d = ''SUPPRESSED_BY_LLM'' \<longleftrightarrow>
         (\<exists>f\<in>set tier1. de_finding_id d = af_finding_id f
            \<and> (\<exists>i\<in>set intents. in_target i = af_finding_id f
                 \<and> fst (isSuppressible (ar_policy e) (af_tool f) (af_rule_id f) (confidence_value (in_confidence i))))))"
proof -
  let ?D = "map (fst \<circ> decide e (winner intents)) tier1 @ map noneDecision tier2"
  have own: "de_state (fst (decide e (winner intents) f)) = ''SUPPRESSED_BY_LLM'' \<longleftrightarrow>
      (\<exists>i\<in>set intents. in_target i = af_finding_id f \<and> fst (isSuppressible (ar_policy e) (af_tool f) (af_rule_id f) (confidence_value (in_confidence i))))" for f
  proof (cases "winner intents (af_finding_id f)")
    case None
    then show ?thesis using iffD1 [OF winner_None None] by (simp add: decide_suppressed)
  next
    case (Some w)
    then show ?thesis using winner_Some [OF Some] isSuppressible_mono by (auto simp: decide_suppressed)
  qed
  have "de_state d = ''SUPPRESSED_BY_LLM'' \<longleftrightarrow>
         (\<exists>f\<in>set tier1. de_finding_id d = af_finding_id f
            \<and> (\<exists>i\<in>set intents. in_target i = af_finding_id f
                 \<and> fst (isSuppressible (ar_policy e) (af_tool f) (af_rule_id f) (confidence_value (in_confidence i)))))"
    if "d \<in> set ?D" for d
  proof -
    from that consider (one) f where "f \<in> set tier1" "d = fst (decide e (winner intents) f)" | (two) t where "t \<in> set tier2" "d = noneDecision t"
      by auto
    then show ?thesis
    proof cases
      case one
      have "g = f" if "g \<in> set tier1" "af_finding_id f = af_finding_id g" for g
        using that one(1) assms distinct_key_unique [of af_finding_id tier1 g f] by simp
      then show ?thesis using one own [of f] by auto
    next
      case two
      then have "\<forall>f\<in>set tier1. af_finding_id f \<noteq> t" using assms by auto
      then show ?thesis using two(2) by auto
    qed
  qed
  then show ?thesis using arbitrate_ids [of e tier1 tier2 intents] by (simp add: arbitrate_alt)
qed

definition ex_tier1 :: "analysis_finding list" where
  "ex_tier1 = [\<lparr>af_finding_id = ''f1'', af_tool = ''ruff'', af_rule_id = ''F401'', af_file = ''a.py'', af_start_line = 3, af_end_line = 3\<rparr>,
     \<lparr>af_finding_id = ''f2'', af_tool = ''gitleaks'', af_rule_id = ''aws'', af_file = ''b.py'', af_start_line = 1, af_end_line = 1\<rparr>]"

definition ex_intents :: "arbitration_intent list" where
  "ex_intents = [\<lparr>in_target = ''f1'', in_confidence = ''0.5'', in_reason = ''unused''\<rparr>, \<lparr>in_target = ''f1'', in_confidence = ''0.95'', in_reason = ''re-export''\<rparr>,
     \<lparr>in_target = ''f2'', in_confidence = ''0.99'', in_reason = ''test key''\<rparr>]"

definition ex_arb :: arb_env where
  "ex_arb = \<lparr>ar_policy = BUNDLED_SUPPRESSION_POLICY, ar_model = ''m'', ar_promptVersion = ''v1'', ar_now = ''2026-01-01T00:00:00Z''\<rparr>"

theorem arbitrate_correct_witness:
  "distinct (map af_finding_id ex_tier1 @ [''g1''])
    \<and> mset (map de_finding_id (ar_decisions (arbitrate ex_arb ex_tier1 [''g1''] ex_intents))) = mset [''f1'', ''f2'', ''g1'']"
proof -
  have d: "distinct (map af_finding_id ex_tier1 @ [''g1''])" by (simp add: ex_tier1_def)
  show ?thesis using d conjunct1 [OF arbitrate_correct [OF d, of ex_arb ex_intents]] by (simp add: ex_tier1_def)
qed

text \<open>Under the policy that is shipped a finding of gitleaks or trivy, of a tool the policy does not
  know, or one on which no intent reaches a confidence of 0.8, is never suppressed, whatever the model asks for.\<close>

theorem secrets_never_suppressed:
  assumes "ar_policy e = BUNDLED_SUPPRESSION_POLICY"
    and "d \<in> set (ar_decisions (arbitrate e tier1 tier2 intents))" and "de_state d \<noteq> ''NONE''"
  shows "\<exists>f\<in>set tier1. \<exists>i\<in>set intents. de_finding_id d = af_finding_id f \<and> in_target i = af_finding_id f
    \<and> af_tool f \<in> {''ruff'', ''semgrep'', ''eslint'', ''llm''} \<and> 8/10 \<le> confidence_value (in_confidence i)"
proof -
  from assms(2,3) obtain f where f: "f \<in> set tier1" "d = fst (decide e (winner intents) f)"
    by (auto simp: arbitrate_alt)
  then obtain i where i: "winner intents (af_finding_id f) = Some i" "fst (isSuppressible (ar_policy e) (af_tool f) (af_rule_id f) (confidence_value (in_confidence i)))"
    using assms(3) by (auto simp: decide_def split: option.splits if_splits)
  have "af_tool f \<in> {''ruff'', ''semgrep'', ''eslint'', ''llm''} \<and> 8/10 \<le> confidence_value (in_confidence i)"
    using i(2) by (auto simp: assms(1) isSuppressible_def KNOWN_TOOLS_def lookupRuleOrDefault_def selectToolBranch_def
        BUNDLED_SUPPRESSION_POLICY_def Let_def split: if_splits)
  then show ?thesis using f winner_Some(1,2) [OF i(1)] by auto
qed

lemma ex_suppressed: "suppress_decision ex_arb (hd ex_tier1) (ex_intents ! 1) \<in> set (ar_decisions (arbitrate ex_arb ex_tier1 [''g1''] ex_intents))"
  by code_simp

theorem secrets_never_suppressed_witness:
  "ar_policy ex_arb = BUNDLED_SUPPRESSION_POLICY
    \<and> (\<exists>f\<in>set ex_tier1. \<exists>i\<in>set ex_intents. af_finding_id f = ''f1'' \<and> in_target i = ''f1'' \<and> 8/10 \<le> confidence_value (in_confidence i))"
proof -
  have p: "ar_policy ex_arb = BUNDLED_SUPPRESSION_POLICY" by (simp add: ex_arb_def)
  have n: "de_state (suppress_decision ex_arb (hd ex_tier1) (ex_intents ! 1)) \<noteq> ''NONE''" by (simp add: suppress_decision_def)
  have "de_finding_id (suppress_decision ex_arb (hd ex_tier1) (ex_intents ! 1)) = ''f1''" by (simp add: suppress_decision_def ex_tier1_def)
  then show ?thesis using p secrets_never_suppressed [OF p ex_suppressed n] by fastforce
qed

text \<open>No intent is lost: each one is the reason of a suppression or is reported as rejected.\<close>

lemma loser_rejected: "i \<in> set (losers intents) \<Longrightarrow> reject ''duplicate_intent_loser'' i \<in> set (ar_rejected (arbitrate e tier1 tier2 intents))"
  by (auto simp: arbitrate_alt)

theorem every_intent_accounted:
  assumes "i \<in> set intents"
  shows "(\<exists>d\<in>set (ar_decisions (arbitrate e tier1 tier2 intents)). de_state d = ''SUPPRESSED_BY_LLM'' \<and> de_finding_id d = in_target i
            \<and> de_confidence d = Some (in_confidence i) \<and> de_reason d = Some (in_reason i))
    \<or> (\<exists>r\<in>set (ar_rejected (arbitrate e tier1 tier2 intents)). ri_target r = in_target i
            \<and> ri_confidence r = Some (in_confidence i) \<and> ri_reason r = Some (in_reason i))"
proof -
  have own: "ri_target (reject w i) = in_target i \<and> ri_confidence (reject w i) = Some (in_confidence i) \<and> ri_reason (reject w i) = Some (in_reason i)" for w
    by (simp add: reject_def)
  have "winner intents (in_target i) = Some i \<or> i \<in> set (losers intents)"
    using index_fold_parts [of i "sort_key intent_key intents" Map.empty "[]"] assms by (simp add: index_fold)
  then consider (loser) "i \<in> set (losers intents)" | (unknown) "in_target i \<notin> af_finding_id ` set tier1"
    | (known) f where "f \<in> set tier1" "in_target i = af_finding_id f" "winner intents (in_target i) = Some i"
    by (metis imageE)
  then show ?thesis
  proof cases
    case loser
    then show ?thesis using loser_rejected own by blast
  next
    case unknown
    then have "reject ''target_not_found'' i \<in> set (ar_rejected (arbitrate e tier1 tier2 intents))"
      using assms by (auto simp: arbitrate_alt)
    then show ?thesis using own by blast
  next
    case known
    let ?out = "decide e (winner intents) f"
    have dec: "fst ?out \<in> set (ar_decisions (arbitrate e tier1 tier2 intents))"
      and rej: "set (snd ?out) \<subseteq> set (ar_rejected (arbitrate e tier1 tier2 intents))"
      using known(1) by (auto simp: arbitrate_alt)
    show ?thesis
    proof (cases "fst (isSuppressible (ar_policy e) (af_tool f) (af_rule_id f) (confidence_value (in_confidence i)))")
      case True
      then have "fst ?out = suppress_decision e f i" using known(2,3) by (simp add: decide_def)
      then show ?thesis using dec known(2) by (intro disjI1 bexI [OF _ dec]) (simp add: suppress_decision_def)
    next
      case False
      then have "snd ?out = [reject (rejectionReason (ar_policy e) (af_tool f) (af_rule_id f)) i]" using known(2,3) by (simp add: decide_def)
      then show ?thesis using rej own by fastforce
    qed
  qed
qed

theorem every_intent_accounted_witness:
  "(ex_intents ! 2) \<in> set ex_intents
    \<and> ((\<exists>d\<in>set (ar_decisions (arbitrate ex_arb ex_tier1 [] ex_intents)). de_state d = ''SUPPRESSED_BY_LLM'' \<and> de_finding_id d = ''f2''
            \<and> de_confidence d = Some ''0.99'' \<and> de_reason d = Some ''test key'')
    \<or> (\<exists>r\<in>set (ar_rejected (arbitrate ex_arb ex_tier1 [] ex_intents)). ri_target r = ''f2''
            \<and> ri_confidence r = Some ''0.99'' \<and> ri_reason r = Some ''test key''))"
proof -
  have i: "(ex_intents ! 2) \<in> set ex_intents" by (simp add: ex_intents_def)
  have "in_target (ex_intents ! 2) = ''f2''" "in_confidence (ex_intents ! 2) = ''0.99''" "in_reason (ex_intents ! 2) = ''test key''"
    by (simp_all add: ex_intents_def)
  then show ?thesis using i every_intent_accounted [OF i, of ex_arb ex_tier1 "[]"] by simp
qed

section \<open>Persisting the result\<close>

text \<open>The rows of \<^verbatim>\<open>core.review_findings\<close> by their primary key, with the columns the two setters write, and the rows of
  \<^verbatim>\<open>core.arbitration_rejections\<close> by their unique key (run, target, reason). An instant is carried as its ISO text.\<close>

record suppression =
  su_state :: string
  su_reason :: "string option"
  su_confidence :: "rat option"
  su_model :: "string option"
  su_prompt_version :: "string option"
  su_at :: "string option"

record finding_row =
  fw_installation :: uuid
  fw_pr :: uuid
  fw_file :: string
  fw_start_line :: int
  fw_end_line :: int
  fw_severity :: string
  fw_category :: string
  fw_title :: string
  fw_body :: string
  fw_confidence :: rat
  fw_scope :: string
  fw_created_at :: string
  fw_tier :: nat
  fw_source_tool :: "string option"
  fw_suppression :: suppression

record rejection_row =
  rw_installation :: uuid
  rw_review :: uuid
  rw_confidence :: "string option"
  rw_reason :: "string option"
  rw_model :: "string option"
  rw_prompt_version :: "string option"

record arb_db =
  ab_findings :: "uuid \<rightharpoonup> finding_row"
  ab_rejections :: "uuid \<times> uuid \<times> string \<rightharpoonup> rejection_row"

record apply_env =
  ap_installation :: uuid
  ap_pr :: uuid
  ap_run :: uuid
  ap_review :: uuid
  ap_model :: "string option"
  ap_prompt_version :: "string option"

definition insertTier1Finding ::
  "string \<Rightarrow> apply_env \<Rightarrow> uuid \<Rightarrow> analysis_finding \<Rightarrow> suppression \<Rightarrow> arb_db \<Rightarrow> arb_db" where
  "insertTier1Finding now a fid f su db =
     (if ab_findings db fid \<noteq> None then db
      else let ruleTitle = af_tool f @ '':'' @ af_rule_id f in
        db\<lparr>ab_findings := (ab_findings db)(fid \<mapsto>
          \<lparr>fw_installation = ap_installation a, fw_pr = ap_pr a, fw_file = af_file f, fw_start_line = af_start_line f, fw_end_line = af_end_line f,
           fw_severity = ''issue'', fw_category = ''other'', fw_title = ruleTitle, fw_body = ruleTitle, fw_confidence = 1,
           fw_scope = ''chunk_observed'', fw_created_at = now, fw_tier = 1, fw_source_tool = Some (af_tool f), fw_suppression = su\<rparr>)\<rparr>)"

definition updateTier2Arbitration :: "apply_env \<Rightarrow> uuid \<Rightarrow> suppression \<Rightarrow> arb_db \<Rightarrow> arb_db" where
  "updateTier2Arbitration a rfid su db =
     (case ab_findings db rfid of
        None \<Rightarrow> db
      | Some r \<Rightarrow>
          if fw_installation r = ap_installation a
          then db\<lparr>ab_findings := (ab_findings db)(rfid \<mapsto>
                 r\<lparr>fw_suppression := su, fw_tier := 2,
                   fw_source_tool := (case fw_source_tool r of Some t \<Rightarrow> Some t | None \<Rightarrow> Some ''llm'')\<rparr>)\<rparr>
          else db)"

definition insertRejection :: "apply_env \<Rightarrow> rejected_intent \<Rightarrow> arb_db \<Rightarrow> arb_db" where
  "insertRejection a r db =
     (let key = (ap_run a, ri_target r, ri_reason_rejected r) in
      if ab_rejections db key \<noteq> None then db
      else db\<lparr>ab_rejections := (ab_rejections db)(key \<mapsto>
         \<lparr>rw_installation = ap_installation a, rw_review = ap_review a, rw_confidence = ri_confidence r, rw_reason = ri_reason r,
          rw_model = ap_model a, rw_prompt_version = ap_prompt_version a\<rparr>)\<rparr>)"

text \<open>The statements of \<^verbatim>\<open>applyArbitration\<close>, in its order: a decision of a known Tier-1 finding inserts its row, one whose id is
  in the Tier-2 map updates that row, any other one is skipped with a warning.\<close>

datatype arb_write =
    InsertTier1 uuid analysis_finding suppression
  | UpdateTier2 uuid suppression
  | InsertRejection rejected_intent

definition decision_suppression :: "arbitration_decision \<Rightarrow> suppression" where
  "decision_suppression d = \<lparr>su_state = de_state d, su_reason = de_reason d, su_confidence = map_option confidence_value (de_confidence d),
     su_model = de_model d, su_prompt_version = de_prompt_version d, su_at = de_suppressed_at d\<rparr>"

definition decision_write ::
  "analysis_finding list \<Rightarrow> (uuid \<rightharpoonup> uuid) \<Rightarrow> arbitration_decision \<Rightarrow> arb_write list" where
  "decision_write tier1 t2 d =
     (case map_of (rev (map (\<lambda>f. (af_finding_id f, f)) tier1)) (de_finding_id d) of
        Some f \<Rightarrow> [InsertTier1 (de_finding_id d) f (decision_suppression d)]
      | None \<Rightarrow> (case t2 (de_finding_id d) of
          Some rfid \<Rightarrow> [UpdateTier2 rfid (decision_suppression d)]
        | None \<Rightarrow> []))"

definition arbitration_writes :: "analysis_finding list \<Rightarrow> (uuid \<rightharpoonup> uuid) \<Rightarrow> arbitration_result \<Rightarrow> arb_write list" where
  "arbitration_writes tier1 t2 res = concat (map (decision_write tier1 t2) (ar_decisions res)) @ map InsertRejection (ar_rejected res)"

fun exec_write :: "string \<Rightarrow> apply_env \<Rightarrow> arb_write \<Rightarrow> arb_db \<Rightarrow> arb_db" where
  "exec_write now a (InsertTier1 fid f su) = insertTier1Finding now a fid f su"
| "exec_write now a (UpdateTier2 rfid su) = updateTier2Arbitration a rfid su"
| "exec_write now a (InsertRejection r) = insertRejection a r"

text \<open>The first \<^verbatim>\<open>n\<close> statements of a run, each in its own transaction; the whole of it when \<^verbatim>\<open>n\<close> is their number.\<close>

definition apply_prefix :: "nat \<Rightarrow> string \<Rightarrow> apply_env \<Rightarrow> analysis_finding list \<Rightarrow> (uuid \<rightharpoonup> uuid) \<Rightarrow> arbitration_result \<Rightarrow> arb_db \<Rightarrow> arb_db" where
  "apply_prefix n now a tier1 t2 res db = fold (exec_write now a) (take n (arbitration_writes tier1 t2 res)) db"

definition applyArbitration :: "string \<Rightarrow> apply_env \<Rightarrow> analysis_finding list \<Rightarrow> (uuid \<rightharpoonup> uuid) \<Rightarrow> arbitration_result \<Rightarrow> arb_db \<Rightarrow> arb_db" where
  "applyArbitration now a tier1 t2 res db = fold (exec_write now a) (arbitration_writes tier1 t2 res) db"

section \<open>Retries\<close>

text \<open>A statement has settled when running it again, at any time, changes nothing.\<close>

definition settled :: "apply_env \<Rightarrow> arb_write \<Rightarrow> arb_db \<Rightarrow> bool" where
  "settled a w db \<longleftrightarrow> (\<forall>now. exec_write now a w db = db)"

fun tier2_target :: "arb_write \<Rightarrow> uuid option" where
  "tier2_target (UpdateTier2 rfid su) = Some rfid"
| "tier2_target (InsertTier1 fid f su) = None"
| "tier2_target (InsertRejection r) = None"

fun row_target :: "arb_write \<Rightarrow> uuid option" where
  "row_target (UpdateTier2 rfid su) = Some rfid"
| "row_target (InsertTier1 fid f su) = Some fid"
| "row_target (InsertRejection r) = None"

definition compatible :: "arb_write \<Rightarrow> arb_write \<Rightarrow> bool" where
  "compatible w w' \<longleftrightarrow> (tier2_target w = None \<or> tier2_target w \<noteq> row_target w') \<and> (tier2_target w' = None \<or> tier2_target w' \<noteq> row_target w)"

lemma exec_settles: "settled a w (exec_write now a w db)"
  by (cases w) (auto simp: settled_def insertTier1Finding_def updateTier2Arbitration_def insertRejection_def Let_def split: option.splits)

lemma exec_keeps_settled:
  assumes "settled a w db" "compatible w w'"
  shows "settled a w (exec_write now a w' db)"
proof -
  have fin: "ab_findings (exec_write now a w' db) k = ab_findings db k" if "row_target w' \<noteq> Some k" for k
    using that by (cases w') (auto simp: insertTier1Finding_def updateTier2Arbitration_def insertRejection_def Let_def split: option.splits)
  have keepf: "ab_findings (exec_write now a w' db) k \<noteq> None" if "ab_findings db k \<noteq> None" for k
    using that by (cases w') (auto simp: insertTier1Finding_def updateTier2Arbitration_def insertRejection_def Let_def split: option.splits)
  have keepr: "ab_rejections (exec_write now a w' db) k \<noteq> None" if "ab_rejections db k \<noteq> None" for k
    using that by (cases w') (auto simp: insertTier1Finding_def updateTier2Arbitration_def insertRejection_def Let_def split: option.splits)
  show ?thesis
  proof (cases w)
    case (InsertTier1 fid f su)
    have "ab_findings db fid \<noteq> None"
    proof
      assume "ab_findings db fid = None"
      moreover have "ab_findings (exec_write now a w db) fid = ab_findings db fid" using assms(1) by (simp add: settled_def)
      ultimately show False by (simp add: InsertTier1 insertTier1Finding_def Let_def)
    qed
    then show ?thesis using keepf by (simp add: settled_def InsertTier1 insertTier1Finding_def)
  next
    case (InsertRejection r)
    let ?k = "(ap_run a, ri_target r, ri_reason_rejected r)"
    have "ab_rejections db ?k \<noteq> None"
    proof
      assume "ab_rejections db ?k = None"
      moreover have "ab_rejections (exec_write now a w db) ?k = ab_rejections db ?k" using assms(1) by (simp add: settled_def)
      ultimately show False by (simp add: InsertRejection insertRejection_def Let_def)
    qed
    then show ?thesis using keepr by (simp add: settled_def InsertRejection insertRejection_def)
  next
    case (UpdateTier2 rfid su)
    let ?db = "exec_write now a w' db"
    have same: "ab_findings ?db rfid = ab_findings db rfid" using fin assms(2) by (auto simp: UpdateTier2 compatible_def)
    have upd: "updateTier2Arbitration a rfid su db = db" using assms(1) by (simp add: settled_def UpdateTier2)
    have "updateTier2Arbitration a rfid su ?db = ?db"
    proof (cases "ab_findings db rfid")
      case None
      then show ?thesis using same by (simp add: updateTier2Arbitration_def)
    next
      case (Some r)
      let ?r = "r\<lparr>fw_suppression := su, fw_tier := 2, fw_source_tool := (case fw_source_tool r of Some t \<Rightarrow> Some t | None \<Rightarrow> Some ''llm'')\<rparr>"
      have "?r = r" if "fw_installation r = ap_installation a"
      proof -
        have "ab_findings (updateTier2Arbitration a rfid su db) rfid = Some ?r" using that Some by (simp add: updateTier2Arbitration_def)
        then show ?thesis using Some by (simp only: upd) simp
      qed
      then show ?thesis using Some same by (simp add: updateTier2Arbitration_def fun_upd_idem)
    qed
    then show ?thesis by (simp add: settled_def UpdateTier2)
  qed
qed

lemma fold_keeps_settled:
  "settled a w db \<Longrightarrow> (\<And>w'. w' \<in> set ws \<Longrightarrow> compatible w w') \<Longrightarrow> settled a w (fold (exec_write now a) ws db)"
  by (induction ws arbitrary: db) (simp_all add: exec_keeps_settled)

lemma fold_settles:
  "sorted_wrt compatible ws \<Longrightarrow> w \<in> set ws \<Longrightarrow> settled a w (fold (exec_write now a) ws db)"
  by (induction ws arbitrary: db) (auto intro: fold_keeps_settled exec_settles)

lemma fold_settled: "(\<And>w. w \<in> set ws \<Longrightarrow> settled a w db) \<Longrightarrow> fold (exec_write now a) ws db = db"
  by (induction ws) (simp_all add: settled_def)

lemma retry_resumes:
  assumes "sorted_wrt compatible ws"
  shows "fold (exec_write now' a) ws (fold (exec_write now a) (take n ws) db) = fold (exec_write now' a) (drop n ws) (fold (exec_write now a) (take n ws) db)"
proof -
  let ?db = "fold (exec_write now a) (take n ws) db"
  have "sorted_wrt compatible (take n ws)" using assms by (rule sorted_wrt_take)
  then have "fold (exec_write now' a) (take n ws) ?db = ?db" by (intro fold_settled fold_settles)
  moreover have "fold (exec_write now' a) ws ?db = fold (exec_write now' a) (drop n ws) (fold (exec_write now' a) (take n ws) ?db)"
    by (metis append_take_drop_id fold_append o_apply)
  ultimately show ?thesis by simp
qed

lemma decision_write_targets:
  assumes "w \<in> set (decision_write tier1 t2 d)"
  shows "tier2_target w = Some k \<Longrightarrow> t2 (de_finding_id d) = Some k"
    and "row_target w = Some k \<Longrightarrow> (k = de_finding_id d \<and> k \<in> af_finding_id ` set tier1) \<or> t2 (de_finding_id d) = Some k"
  using assms map_of_SomeD [of "rev (map (\<lambda>f. (af_finding_id f, f)) tier1)"]
  by (auto simp: decision_write_def split: option.splits)

lemma decision_writes_compatible:
  assumes "inj_on t2 (dom t2)" "ran t2 \<inter> af_finding_id ` set tier1 = {}" "de_finding_id d \<noteq> de_finding_id d'"
    "w \<in> set (decision_write tier1 t2 d)" "w' \<in> set (decision_write tier1 t2 d')"
  shows "tier2_target w = None \<or> tier2_target w \<noteq> row_target w'"
proof (cases "tier2_target w")
  case (Some k)
  then have k: "t2 (de_finding_id d) = Some k" by (rule decision_write_targets(1) [OF assms(4)])
  have "row_target w' \<noteq> Some k"
  proof
    assume "row_target w' = Some k"
    then have "k \<in> af_finding_id ` set tier1 \<or> t2 (de_finding_id d') = Some k" using decision_write_targets(2) [OF assms(5)] by blast
    moreover have "k \<in> ran t2" using k by (rule ranI)
    ultimately have "t2 (de_finding_id d') = t2 (de_finding_id d)" using assms(2) k by auto
    then show False using inj_onD [OF assms(1), of "de_finding_id d'" "de_finding_id d"] k assms(3) by (simp add: domIff)
  qed
  then show ?thesis using Some by metis
qed simp

lemma decision_write_short: "length (decision_write tier1 t2 d) \<le> 1"
  by (simp add: decision_write_def split: option.split)

lemma decision_write_sorted: "sorted_wrt compatible (decision_write tier1 t2 d)"
  using decision_write_short [of tier1 t2 d] by (cases "decision_write tier1 t2 d") auto

lemma writes_compatible:
  assumes "inj_on t2 (dom t2)" "ran t2 \<inter> af_finding_id ` set tier1 = {}" "distinct (map de_finding_id (ar_decisions res))"
  shows "sorted_wrt compatible (arbitration_writes tier1 t2 res)"
proof -
  have "distinct (map de_finding_id ds) \<Longrightarrow> sorted_wrt compatible (concat (map (decision_write tier1 t2) ds))" for ds
  proof (induction ds)
    case (Cons d ds)
    have "compatible w w'" if "w \<in> set (decision_write tier1 t2 d)" "d' \<in> set ds" "w' \<in> set (decision_write tier1 t2 d')" for w w' d'
    proof -
      have "de_finding_id d \<noteq> de_finding_id d'" using Cons.prems that(2) by auto
      then show ?thesis
        using decision_writes_compatible [OF assms(1,2) _ that(1,3)] decision_writes_compatible [OF assms(1,2) _ that(3,1)]
        unfolding compatible_def by metis
    qed
    then show ?case using Cons by (auto simp: sorted_wrt_append decision_write_sorted)
  qed simp
  moreover have "sorted_wrt compatible (map InsertRejection rs)" for rs
    by (induction rs) (auto simp: compatible_def)
  moreover have "compatible w (InsertRejection r)" for w r by (cases "tier2_target w") (simp_all add: compatible_def)
  ultimately show ?thesis using assms(3) by (auto simp: arbitration_writes_def sorted_wrt_append)
qed

text \<open>(C12) A run of the activity that stopped after any number of its statements is completed by the next
  one exactly: the statements that had run change nothing again, whenever the retry happens, and only the others take effect. So a row is
  never duplicated, overwritten or lost by a retry.\<close>

theorem applyArbitration_resumes:
  assumes "distinct (map af_finding_id tier1 @ tier2)" and "inj_on t2 (dom t2)" and "ran t2 \<inter> af_finding_id ` set tier1 = {}"
    and "res = arbitrate e tier1 tier2 intents"
  shows "applyArbitration now' a tier1 t2 res (apply_prefix n now a tier1 t2 res db)
    = fold (exec_write now' a) (drop n (arbitration_writes tier1 t2 res)) (apply_prefix n now a tier1 t2 res db)"
proof -
  have "distinct (map de_finding_id (ar_decisions res))"
    using arbitrate_ids [of e tier1 tier2 intents] assms(1,4) by (metis distinct_count_atmost_1 mset_eq_imp_distinct_iff)
  then show ?thesis unfolding applyArbitration_def apply_prefix_def by (intro retry_resumes writes_compatible assms(2,3))
qed

definition ex_apply :: apply_env where
  "ex_apply = \<lparr>ap_installation = ''i1'', ap_pr = ''p1'', ap_run = ''u1'', ap_review = ''v1'', ap_model = Some ''m'', ap_prompt_version = Some ''v1''\<rparr>"

theorem applyArbitration_resumes_witness:
  "distinct (map af_finding_id ex_tier1 @ [''g1''])
    \<and> applyArbitration ''t2'' ex_apply ex_tier1 [''g1'' \<mapsto> ''r1''] (arbitrate ex_arb ex_tier1 [''g1''] ex_intents)
        (apply_prefix 2 ''t1'' ex_apply ex_tier1 [''g1'' \<mapsto> ''r1''] (arbitrate ex_arb ex_tier1 [''g1''] ex_intents) \<lparr>ab_findings = Map.empty, ab_rejections = Map.empty\<rparr>)
    = fold (exec_write ''t2'' ex_apply) (drop 2 (arbitration_writes ex_tier1 [''g1'' \<mapsto> ''r1''] (arbitrate ex_arb ex_tier1 [''g1''] ex_intents)))
        (apply_prefix 2 ''t1'' ex_apply ex_tier1 [''g1'' \<mapsto> ''r1''] (arbitrate ex_arb ex_tier1 [''g1''] ex_intents) \<lparr>ab_findings = Map.empty, ab_rejections = Map.empty\<rparr>)"
proof -
  have d: "distinct (map af_finding_id ex_tier1 @ [''g1''])" by (simp add: ex_tier1_def)
  have inj: "inj_on [''g1'' \<mapsto> ''r1''] (dom [''g1'' \<mapsto> ''r1''])" by (simp add: inj_on_def)
  have ran: "ran [''g1'' \<mapsto> ''r1''] \<inter> af_finding_id ` set ex_tier1 = {}" by (simp add: ex_tier1_def)
  show ?thesis using d applyArbitration_resumes [OF d inj ran refl] by blast
qed

section \<open>Walkthrough footer\<close>

text \<open>\<^verbatim>\<open>arbitration_footer.ts\<close>: the block of suppressed findings and the block of degraded tools, each absent when
  there is nothing to say.\<close>

record tool_status =
  ts_tool_name :: string
  ts_status :: string
  ts_files_scanned :: nat
  ts_files_total :: nat
  ts_error_class :: "string option"

definition nl :: string where
  "nl = [CHR 0x0A]"

definition join_lines :: "string \<Rightarrow> string list \<Rightarrow> string" where
  "join_lines sep xs = (case xs of [] \<Rightarrow> [] | y # ys \<Rightarrow> y @ concat (map (\<lambda>z. sep @ z) ys))"

definition renderSuppressedSection :: "arbitration_result \<Rightarrow> string" where
  "renderSuppressedSection res =
     (let suppressed = filter (\<lambda>s. s \<noteq> ''NONE'') (map de_state (ar_decisions res)) in
      if suppressed = [] then []
      else join_lines nl ([''<details>'', ''<summary>Suppressed findings (operator audit)</summary>'', []]
        @ map (\<lambda>s. ''- '' @ s @ '' x '' @ nat_text (count_list suppressed s)) (sort (remdups suppressed))
        @ [[], ''</details>'']))"

definition renderToolDegradationSection :: "tool_status list \<Rightarrow> string" where
  "renderToolDegradationSection statuses =
     (let degraded = filter (\<lambda>s. ts_status s \<noteq> ''completed'') statuses in
      if degraded = [] then []
      else join_lines nl ([''<details>'', ''<summary>Tool degradation</summary>'', []]
        @ map (\<lambda>s. ''- '' @ ts_tool_name s @ '': '' @ ts_status s @ '' ('' @ nat_text (ts_files_scanned s) @ ''/'' @ nat_text (ts_files_total s) @ '' files''
            @ (case ts_error_class s of Some c \<Rightarrow> if c = [] then [] else '', '' @ c | None \<Rightarrow> []) @ '')'')
          (sort_key ts_tool_name degraded)
        @ [[], ''</details>'']))"

definition renderArbitrationFooterMd :: "arbitration_result \<Rightarrow> tool_status list \<Rightarrow> string" where
  "renderArbitrationFooterMd res statuses =
     (let sections = filter (\<lambda>s. s \<noteq> []) [renderSuppressedSection res, renderToolDegradationSection statuses] in
      if sections = [] then [] else nl @ nl @ ''---'' @ nl @ nl @ join_lines (nl @ nl) sections)"

text \<open>A walkthrough has no footer exactly when no intent led to a suppression and every tool completed.\<close>

lemma join_lines_Cons: "x \<noteq> [] \<Longrightarrow> join_lines sep (x # xs) \<noteq> []"
  by (simp add: join_lines_def)

lemma suppressed_section_empty: "renderSuppressedSection res = [] \<longleftrightarrow> (\<forall>d\<in>set (ar_decisions res). de_state d = ''NONE'')"
  by (simp add: renderSuppressedSection_def Let_def join_lines_Cons filter_empty_conv)

lemma degradation_section_empty: "renderToolDegradationSection statuses = [] \<longleftrightarrow> (\<forall>s\<in>set statuses. ts_status s = ''completed'')"
  by (simp add: renderToolDegradationSection_def Let_def join_lines_Cons filter_empty_conv)

lemma footer_empty:
  "renderArbitrationFooterMd res statuses = []
    \<longleftrightarrow> (\<forall>d\<in>set (ar_decisions res). de_state d = ''NONE'') \<and> (\<forall>s\<in>set statuses. ts_status s = ''completed'')"
proof -
  have "renderArbitrationFooterMd res statuses = [] \<longleftrightarrow> renderSuppressedSection res = [] \<and> renderToolDegradationSection statuses = []"
    by (simp add: renderArbitrationFooterMd_def nl_def Let_def)
  then show ?thesis by (simp only: suppressed_section_empty degradation_section_empty)
qed

end
