(* ===== verification/Js_Regex.thy ===== *)
theory Js_Regex
  imports Prelude
begin

text \<open>
  The part of JavaScript's text and regular expressions the redactors rest on. A text is its list of
  UTF-16 code units, as offsets of a match count them. A pattern is matched by backtracking: \<^verbatim>\<open>rmatch\<close> lists the
  ends of all matches at a cursor in the order the engine tries them, so that the first one is the engine's answer, and
  \<^verbatim>\<open>matchAll\<close> is \<^verbatim>\<open>String.prototype.matchAll\<close> of a global pattern.
\<close>

section \<open>Texts\<close>

type_synonym js_text = "nat list"

definition jstr :: "string \<Rightarrow> js_text" where
  "jstr s = map of_char s"

lemma length_jstr [simp]: "length (jstr s) = length s"
  by (simp add: jstr_def)

definition js_slice :: "nat \<Rightarrow> nat \<Rightarrow> 'a list \<Rightarrow> 'a list" where
  "js_slice s e t = take (e - s) (drop s t)"

lemma take_slice: "s \<le> e \<Longrightarrow> take s t @ js_slice s e t = take e t"
  using take_add [of s "e - s" t] by (simp add: js_slice_def)

lemma slice_nths: "e \<le> length t \<Longrightarrow> js_slice s e t = map (nth t) [s..<e]"
  by (rule nth_equalityI) (auto simp: js_slice_def)

section \<open>Character classes\<close>

definition between :: "char \<Rightarrow> char \<Rightarrow> nat \<Rightarrow> bool" where
  "between a b c \<longleftrightarrow> of_char a \<le> c \<and> c \<le> of_char b"

definition among :: "string \<Rightarrow> nat \<Rightarrow> bool" where
  "among cs c \<longleftrightarrow> c \<in> set (jstr cs)"

abbreviation is_dig :: "nat \<Rightarrow> bool" where
  "is_dig \<equiv> between CHR ''0'' CHR ''9''"

abbreviation is_upper :: "nat \<Rightarrow> bool" where
  "is_upper \<equiv> between CHR ''A'' CHR ''Z''"

definition is_alnum :: "nat \<Rightarrow> bool" where
  "is_alnum c \<longleftrightarrow> is_upper c \<or> between CHR ''a'' CHR ''z'' c \<or> is_dig c"

definition is_word :: "nat \<Rightarrow> bool" where
  "is_word c \<longleftrightarrow> is_alnum c \<or> c = 0x5F"

text \<open>\<^verbatim>\<open>\s\<close>: white space and line terminators.\<close>

definition is_js_space :: "nat \<Rightarrow> bool" where
  "is_js_space c \<longleftrightarrow> (0x09 \<le> c \<and> c \<le> 0x0D) \<or> c \<in> {0x20, 0xA0, 0x1680, 0x2028, 0x2029, 0x202F, 0x205F, 0x3000, 0xFEFF}
     \<or> (0x2000 \<le> c \<and> c \<le> 0x200A)"

section \<open>Patterns\<close>

datatype re =
    Lit js_text
  | CSet "nat \<Rightarrow> bool"
  | Many "nat \<Rightarrow> bool" nat
  | Seq re re
  | Alt re re
  | Opt re
  | Rep re nat nat
  | WordB
  | NotAhead re
  | NotBehind "nat \<Rightarrow> bool"

text \<open>A cursor: the offset, the code unit before it and the text from it on.\<close>

type_synonym cursor = "nat \<times> nat option \<times> js_text"

fun lit :: "js_text \<Rightarrow> cursor \<Rightarrow> cursor list" where
  "lit [] z = [z]"
| "lit (w # ws) (n, b, []) = []"
| "lit (w # ws) (n, b, c # cs) = (if c = w then lit ws (Suc n, Some c, cs) else [])"

fun many :: "(nat \<Rightarrow> bool) \<Rightarrow> nat \<Rightarrow> nat \<Rightarrow> nat option \<Rightarrow> js_text \<Rightarrow> cursor list" where
  "many p lo n b [] = (if lo = 0 then [(n, b, [])] else [])"
| "many p lo n b (c # cs) = (if p c then many p (lo - 1) (Suc n) (Some c) cs else []) @ (if lo = 0 then [(n, b, c # cs)] else [])"

fun rep :: "(cursor \<Rightarrow> cursor list) \<Rightarrow> nat \<Rightarrow> nat \<Rightarrow> cursor \<Rightarrow> cursor list" where
  "rep f lo 0 z = (if lo = 0 then [z] else [])"
| "rep f lo (Suc hi) z = concat (map (rep f (lo - 1) hi) (f z)) @ (if lo = 0 then [z] else [])"

definition word_boundary :: "nat option \<Rightarrow> js_text \<Rightarrow> bool" where
  "word_boundary b cs \<longleftrightarrow> (case b of None \<Rightarrow> False | Some c \<Rightarrow> is_word c) \<noteq> (case cs of [] \<Rightarrow> False | c # _ \<Rightarrow> is_word c)"

fun rmatch :: "re \<Rightarrow> cursor \<Rightarrow> cursor list" where
  "rmatch (Lit ws) z = lit ws z"
| "rmatch (CSet p) (n, b, []) = []"
| "rmatch (CSet p) (n, b, c # cs) = (if p c then [(Suc n, Some c, cs)] else [])"
| "rmatch (Many p lo) (n, b, cs) = many p lo n b cs"
| "rmatch (Seq r s) z = concat (map (rmatch s) (rmatch r z))"
| "rmatch (Alt r s) z = rmatch r z @ rmatch s z"
| "rmatch (Opt r) z = rmatch r z @ [z]"
| "rmatch (Rep r lo hi) z = rep (rmatch r) lo hi z"
| "rmatch WordB (n, b, cs) = (if word_boundary b cs then [(n, b, cs)] else [])"
| "rmatch (NotAhead r) z = (if rmatch r z = [] then [z] else [])"
| "rmatch (NotBehind p) (n, b, cs) = (if (case b of None \<Rightarrow> False | Some c \<Rightarrow> p c) then [] else [(n, b, cs)])"

fun min_len :: "re \<Rightarrow> nat" where
  "min_len (Lit ws) = length ws"
| "min_len (CSet p) = 1"
| "min_len (Many p lo) = lo"
| "min_len (Seq r s) = min_len r + min_len s"
| "min_len (Alt r s) = min (min_len r) (min_len s)"
| "min_len (Opt r) = 0"
| "min_len (Rep r lo hi) = lo * min_len r"
| "min_len WordB = 0"
| "min_len (NotAhead r) = 0"
| "min_len (NotBehind p) = 0"

text \<open>A match moves the cursor over a prefix of the text that is no shorter than the pattern.\<close>

definition advances :: "nat \<Rightarrow> cursor \<Rightarrow> cursor \<Rightarrow> bool" where
  "advances k z z' \<longleftrightarrow> (\<exists>u. snd (snd z) = u @ snd (snd z') \<and> fst z' = fst z + length u \<and> k \<le> length u)"

lemma advances_refl: "advances 0 z z"
  by (simp add: advances_def)

lemma advances_trans:
  assumes "advances k z z'" "advances k' z' z''"
  shows "advances (k + k') z z''"
proof -
  from assms obtain u v where "snd (snd z) = u @ snd (snd z')" "fst z' = fst z + length u" "k \<le> length u"
    "snd (snd z') = v @ snd (snd z'')" "fst z'' = fst z' + length v" "k' \<le> length v"
    by (auto simp: advances_def)
  then show ?thesis unfolding advances_def by (intro exI [of _ "u @ v"]) simp
qed

lemma advances_le: "advances k z z' \<Longrightarrow> j \<le> k \<Longrightarrow> advances j z z'"
  unfolding advances_def by (meson order_trans)

lemma advances_one: "advances 1 (n, b, c # cs) (Suc n, Some c, cs)"
  by (auto simp: advances_def)

lemma lit_advances: "z' \<in> set (lit ws z) \<Longrightarrow> advances (length ws) z z'"
proof (induction ws z rule: lit.induct)
  case (3 w ws n b c cs)
  then have "advances (length ws) (Suc n, Some c, cs) z'" by (auto split: if_splits)
  from advances_trans [OF advances_one [of n b c cs] this] show ?case by simp
qed (simp_all add: advances_refl)

lemma many_advances: "z' \<in> set (many p lo n b cs) \<Longrightarrow> advances lo (n, b, cs) z'"
proof (induction p lo n b cs rule: many.induct)
  case (2 p lo n b c cs)
  show ?case
  proof (cases "lo = 0 \<and> z' = (n, b, c # cs)")
    case True
    then show ?thesis by (simp add: advances_refl)
  next
    case False
    then have "advances (lo - 1) (Suc n, Some c, cs) z'" using 2 by (auto split: if_splits)
    from advances_trans [OF advances_one [of n b c cs] this] show ?thesis by (rule advances_le) simp
  qed
qed (simp add: advances_refl split: if_splits)

lemma rep_advances:
  assumes "\<And>z z'. z' \<in> set (f z) \<Longrightarrow> advances k z z'"
  shows "z' \<in> set (rep f lo hi z) \<Longrightarrow> advances (lo * k) z z'"
proof (induction hi arbitrary: lo z)
  case (Suc hi)
  show ?case
  proof (cases "lo = 0 \<and> z' = z")
    case True
    then show ?thesis by (simp add: advances_refl)
  next
    case False
    then obtain y where y: "y \<in> set (f z)" "z' \<in> set (rep f (lo - 1) hi y)" using Suc.prems by (auto split: if_splits)
    have "advances (k + (lo - 1) * k) z z'" by (rule advances_trans [OF assms [OF y(1)] Suc.IH [OF y(2)]])
    moreover have "lo * k \<le> k + (lo - 1) * k" by (cases lo) simp_all
    ultimately show ?thesis by (rule advances_le)
  qed
qed (simp add: advances_refl split: if_splits)

lemma rmatch_advances: "z' \<in> set (rmatch r z) \<Longrightarrow> advances (min_len r) z z'"
proof (induction r arbitrary: z z')
  case (Lit ws)
  then show ?case by (simp add: lit_advances)
next
  case (CSet p)
  then show ?case by (cases "(CSet p, z)" rule: rmatch.cases) (auto simp: advances_one [simplified] split: if_splits)
next
  case (Many p lo)
  then show ?case by (cases z) (simp add: many_advances)
next
  case (Seq r s)
  then obtain y where "y \<in> set (rmatch r z)" "z' \<in> set (rmatch s y)" by auto
  then show ?case using advances_trans [OF Seq.IH(1) Seq.IH(2)] by simp
next
  case (Alt r s)
  then consider "z' \<in> set (rmatch r z)" | "z' \<in> set (rmatch s z)" by auto
  then show ?case using advances_le [OF Alt.IH(1)] advances_le [OF Alt.IH(2)] by cases simp_all
next
  case (Opt r)
  then consider "z' \<in> set (rmatch r z)" | "z' = z" by auto
  then show ?case using advances_le [OF Opt.IH] advances_refl by cases simp_all
next
  case (Rep r lo hi)
  then show ?case using rep_advances [of "rmatch r" "min_len r"] by simp
next
  case WordB
  then show ?case by (cases z) (simp add: advances_refl split: if_splits)
next
  case (NotAhead r)
  then show ?case by (simp add: advances_refl split: if_splits)
next
  case (NotBehind p)
  then show ?case by (cases z) (auto simp: advances_refl split: if_splits)
qed

section \<open>All matches of a text\<close>

text \<open>A pattern is what precedes its capture group, the group, and a condition on its end that consumes
  nothing; a pattern without a group is one whole group.\<close>

record js_pattern =
  pt_pre :: re
  pt_group :: re
  pt_post :: re

definition whole :: "re \<Rightarrow> js_pattern" where
  "whole r = \<lparr>pt_pre = Lit [], pt_group = r, pt_post = Lit []\<rparr>"

definition match_at :: "js_pattern \<Rightarrow> cursor \<Rightarrow> (cursor \<times> cursor) option" where
  "match_at pt z = first_row (concat (map (\<lambda>s. map (\<lambda>e. (s, e)) (filter (\<lambda>e. rmatch (pt_post pt) e \<noteq> []) (rmatch (pt_group pt) s))) (rmatch (pt_pre pt) z)))"

record js_match =
  jm_index :: nat
  jm_start :: nat
  jm_end :: nat
  jm_value :: js_text

text \<open>The search from a cursor on; after an empty match it moves on by one unit.\<close>

function scan :: "js_pattern \<Rightarrow> cursor \<Rightarrow> js_match list" where
  "scan pt (n, b, cs) =
     (case match_at pt (n, b, cs) of
        Some (s, e) \<Rightarrow>
          \<lparr>jm_index = n, jm_start = fst s, jm_end = fst e, jm_value = take (fst e - fst s) (snd (snd s))\<rparr>
          # (if length (snd (snd e)) < length cs then scan pt e else case cs of [] \<Rightarrow> [] | c # cs' \<Rightarrow> scan pt (Suc n, Some c, cs'))
      | None \<Rightarrow> (case cs of [] \<Rightarrow> [] | c # cs' \<Rightarrow> scan pt (Suc n, Some c, cs')))"
  by pat_completeness auto
termination by (relation "measure (\<lambda>(pt, n, b, cs). length cs)") auto

declare scan.simps [simp del]

definition matchAll :: "js_pattern \<Rightarrow> js_text \<Rightarrow> js_match list" where
  "matchAll pt t = scan pt (0, None, t)"

lemma match_at_Some:
  assumes "match_at pt z = Some (s, e)"
  shows "advances (min_len (pt_pre pt)) z s" "advances (min_len (pt_group pt)) s e"
  using first_row_Some [OF assms [unfolded match_at_def]] by (auto intro: rmatch_advances)

lemma scan_spans:
  assumes "m \<in> set (scan pt (n, b, cs))"
  shows "n \<le> jm_index m \<and> jm_index m + min_len (pt_pre pt) \<le> jm_start m \<and> jm_start m + min_len (pt_group pt) \<le> jm_end m
    \<and> jm_end m \<le> n + length cs \<and> jm_value m = js_slice (jm_start m - n) (jm_end m - n) cs"
  using assms
proof (induction "length cs" arbitrary: n b cs rule: less_induct)
  case less
  have tl: ?case if "cs = c # cs'" "m \<in> set (scan pt (Suc n, Some c, cs'))" for c cs'
    using less.hyps [of cs' "Suc n" "Some c"] that by (auto simp: js_slice_def drop_Cons')
  show ?case
  proof (cases "match_at pt (n, b, cs)")
    case None
    then show ?thesis using less.prems tl by (auto simp: scan.simps [of pt n b cs] split: list.splits)
  next
    case (Some se)
    obtain s e where se: "se = (s, e)" by (cases se)
    let ?m = "\<lparr>jm_index = n, jm_start = fst s, jm_end = fst e, jm_value = take (fst e - fst s) (snd (snd s))\<rparr>"
    from match_at_Some [OF Some [unfolded se]] obtain u v where
      u: "cs = u @ snd (snd s)" "fst s = n + length u" "min_len (pt_pre pt) \<le> length u" and
      v: "snd (snd s) = v @ snd (snd e)" "fst e = fst s + length v" "min_len (pt_group pt) \<le> length v"
      by (auto simp: advances_def)
    consider (own) "m = ?m" | (on) "length (snd (snd e)) < length cs" "m \<in> set (scan pt e)"
      | (tail) c cs' where "cs = c # cs'" "m \<in> set (scan pt (Suc n, Some c, cs'))"
      using less.prems Some se by (auto simp: scan.simps [of pt n b cs] split: if_splits list.splits)
    then show ?thesis
    proof cases
      case own
      then show ?thesis using u v by (auto simp: js_slice_def)
    next
      case on
      obtain k b' cs' where e: "e = (k, b', cs')" by (cases e)
      have k: "k = n + length (u @ v)" "cs = (u @ v) @ cs'" using u v e by simp_all
      have "k \<le> jm_index m \<and> jm_index m + min_len (pt_pre pt) \<le> jm_start m \<and> jm_start m + min_len (pt_group pt) \<le> jm_end m
        \<and> jm_end m \<le> k + length cs' \<and> jm_value m = js_slice (jm_start m - k) (jm_end m - k) cs'"
        using less.hyps [of cs' k b'] on e by simp
      then show ?thesis using k by (auto simp: js_slice_def add.assoc)
    next
      case tail
      then show ?thesis by (rule tl)
    qed
  qed
qed

lemma matchAll_spans:
  assumes "m \<in> set (matchAll pt t)"
  shows "jm_index m + min_len (pt_pre pt) \<le> jm_start m" "jm_start m + min_len (pt_group pt) \<le> jm_end m" "jm_end m \<le> length t"
    and "jm_value m = js_slice (jm_start m) (jm_end m) t"
  using scan_spans [OF assms [unfolded matchAll_def]] by simp_all

end
