(* ===== verification/Chunks.thy ===== *)
theory Chunks
  imports Redaction "HOL-Library.Word"
begin

unbundle bit_operations_syntax

text \<open>
  Diff chunks: the contract and its content-derived id (\<^verbatim>\<open>libs/contracts/src/diff_chunking.v1.ts\<close>), the token budget
  (\<^verbatim>\<open>chunking/token_budget.ts\<close>), batching (\<^verbatim>\<open>chunking/batcher.ts\<close>), the line-window chunker
  (\<^verbatim>\<open>chunking/hunk_fallback.ts\<close>) and the redaction of chunks (\<^verbatim>\<open>activities/chunk_and_redact.activity.ts\<close>). The digests
  of \<^verbatim>\<open>node:crypto\<close> are parameters, functions on bytes.
\<close>

section \<open>Code points and bytes\<close>

type_synonym byte = "8 word"

fun codepoints :: "js_text \<Rightarrow> nat list" where
  "codepoints [] = []"
| "codepoints [c] = [c]"
| "codepoints (h # l # cs) =
     (if 0xD800 \<le> h \<and> h \<le> 0xDBFF \<and> 0xDC00 \<le> l \<and> l \<le> 0xDFFF
      then (0x10000 + (h - 0xD800) * 0x400 + (l - 0xDC00)) # codepoints cs
      else h # codepoints (l # cs))"

definition utf8_codepoint :: "nat \<Rightarrow> nat list" where
  "utf8_codepoint c =
     (if c < 0x80 then [c]
      else if c < 0x800 then [0xC0 + c div 64, 0x80 + c mod 64]
      else if 0xD800 \<le> c \<and> c \<le> 0xDFFF then [0xEF, 0xBF, 0xBD]
      else if c < 0x10000 then [0xE0 + c div 4096, 0x80 + c div 64 mod 64, 0x80 + c mod 64]
      else [0xF0 + c div 262144, 0x80 + c div 4096 mod 64, 0x80 + c div 64 mod 64, 0x80 + c mod 64])"

definition utf8 :: "js_text \<Rightarrow> byte list" where
  "utf8 t = map word_of_nat (concat (map utf8_codepoint (codepoints t)))"

definition HEX :: string where
  "HEX = ''0123456789abcdef''"

definition hex :: "byte list \<Rightarrow> string" where
  "hex bs = concat (map (\<lambda>b. [HEX ! (unat b div 16), HEX ! (unat b mod 16)]) bs)"

section \<open>Chunk ids\<close>

record hashes =
  h_sha1 :: "byte list \<Rightarrow> byte list"
  h_sha256 :: "byte list \<Rightarrow> byte list"

definition CHUNK_ID_NAMESPACE :: "byte list" where
  "CHUNK_ID_NAMESPACE = [0xc4, 0xf8, 0xc4, 0xf8, 0xc4, 0xf8, 0x4c, 0x4f, 0x8c, 0x4f, 0xc4, 0xf8, 0xc4, 0xf8, 0xc4, 0xf8]"

definition uuid5 :: "hashes \<Rightarrow> byte list \<Rightarrow> js_text \<Rightarrow> string" where
  "uuid5 H namespace name =
     (let digest = h_sha1 H (namespace @ utf8 name);
        b = take 16 digest;
        b = b[6 := (b ! 6 AND 0x0f) OR 0x50];
        b = b[8 := (b ! 8 AND 0x3f) OR 0x80];
        h = hex b
      in js_slice 0 8 h @ ''-'' @ js_slice 8 12 h @ ''-'' @ js_slice 12 16 h @ ''-'' @ js_slice 16 20 h @ ''-'' @ drop 20 h)"

definition computeChunkId :: "hashes \<Rightarrow> string \<Rightarrow> int \<Rightarrow> int \<Rightarrow> js_text \<Rightarrow> string" where
  "computeChunkId H path start_line end_line body =
     (let bodyHash = hex (h_sha256 H (utf8 body));
        name = jstr path @ [0x0A] @ jstr (int_text start_line) @ [0x0A] @ jstr (int_text end_line) @ [0x0A] @ jstr bodyHash
      in uuid5 H CHUNK_ID_NAMESPACE name)"

text \<open>The shape \<^verbatim>\<open>z.string().uuid()\<close> accepts.\<close>

definition is_uuid :: "string \<Rightarrow> bool" where
  "is_uuid s \<longleftrightarrow> length s = 36 \<and> list_all (\<lambda>i. if i \<in> {8, 13, 18, 23} then s ! i = CHR ''-'' else s ! i \<in> set HEX) [0..<36]"

lemma length_hex [simp]: "length (hex bs) = 2 * length bs"
  by (induction bs) (simp_all add: hex_def)

lemma hex_Cons: "hex (b # bs) = HEX ! (unat b div 16) # HEX ! (unat b mod 16) # hex bs"
  by (simp add: hex_def)

lemma unat_byte_less: "unat (b :: byte) < 256"
  using unsigned_less [of b] by simp

lemma hex_digits: "set (hex bs) \<subseteq> set HEX"
proof -
  have "HEX ! i \<in> set HEX" if "i < 16" for i using that by (intro nth_mem) (simp add: HEX_def)
  moreover have "unat b div 16 < 16" for b :: byte using unat_byte_less [of b] by simp
  ultimately show ?thesis by (induction bs) (auto simp: hex_Cons hex_def)
qed

lemma version_nibble: "unat ((b AND 0x0f) OR 0x50 :: byte) div 16 = 5"
proof -
  have "drop_bit 4 ((b AND 0x0f) OR 0x50 :: byte) = 5"
    by (rule bit_word_eqI) (auto simp: bit_simps)
  then have "((b AND 0x0f) OR 0x50 :: byte) div 16 = 5" by (simp add: drop_bit_eq_div)
  then show ?thesis using unat_div_distrib [of "(b AND 0x0f) OR 0x50 :: byte" 16] by simp
qed

lemma variant_nibble: "unat ((b AND 0x3f) OR 0x80 :: byte) div 16 \<in> {8, 9, 10, 11}"
proof -
  have "drop_bit 6 ((b AND 0x3f) OR 0x80 :: byte) = 2"
    by (rule bit_word_eqI) (auto simp: bit_simps)
  then have "((b AND 0x3f) OR 0x80 :: byte) div 64 = 2" by (simp add: drop_bit_eq_div)
  then have "unat ((b AND 0x3f) OR 0x80 :: byte) div 64 = 2"
    using unat_div_distrib [of "(b AND 0x3f) OR 0x80 :: byte" 64] by simp
  then have "8 \<le> unat ((b AND 0x3f) OR 0x80 :: byte) div 16 \<and> unat ((b AND 0x3f) OR 0x80 :: byte) div 16 < 12" by linarith
  then show ?thesis by auto
qed

lemma upt_36: "[0..<36] = [0,1,2,3,4,5,6,7,8,9,10,11,12,13,14,15,16,17,18,19,20,21,22,23,24,25,26,27,28,29,30,31,32,33,34,35::nat]"
  by (simp add: upt_rec)

lemma upt_16: "[0..<16] = [0,1,2,3,4,5,6,7,8,9,10,11,12,13,14,15::nat]"
  by (simp add: upt_rec)

lemma list_16: "length l = 16 \<Longrightarrow> l = [l ! 0,l ! 1,l ! 2,l ! 3,l ! 4,l ! 5,l ! 6,l ! 7,l ! 8,l ! 9,l ! 10,l ! 11,l ! 12,l ! 13,l ! 14,l ! 15]"
proof -
  assume "length l = 16"
  then have "map (nth l) [0..<16] = l" using map_nth [of l] by simp
  moreover have "map (nth l) [0..<16] = [l ! 0,l ! 1,l ! 2,l ! 3,l ! 4,l ! 5,l ! 6,l ! 7,l ! 8,l ! 9,l ! 10,l ! 11,l ! 12,l ! 13,l ! 14,l ! 15]" by (simp only: upt_16 list.map)
  ultimately show "l = [l ! 0,l ! 1,l ! 2,l ! 3,l ! 4,l ! 5,l ! 6,l ! 7,l ! 8,l ! 9,l ! 10,l ! 11,l ! 12,l ! 13,l ! 14,l ! 15]" by simp
qed

lemma computeChunkId_ok:
  assumes "\<And>x. length (h_sha1 H x) = 20"
  shows "is_uuid (computeChunkId H path start_line end_line body)
    \<and> computeChunkId H path start_line end_line body ! 14 = CHR ''5''
    \<and> computeChunkId H path start_line end_line body ! 19 \<in> set ''89ab''"
proof -
  let ?b = "\<lambda>x. (take 16 (h_sha1 H x))[6 := (take 16 (h_sha1 H x) ! 6 AND 0x0f) OR 0x50]"
  let ?c = "\<lambda>x. (?b x)[8 := (?b x ! 8 AND 0x3f) OR 0x80]"
  obtain x where id: "computeChunkId H path start_line end_line body =
      js_slice 0 8 (hex (?c x)) @ ''-'' @ js_slice 8 12 (hex (?c x)) @ ''-'' @ js_slice 12 16 (hex (?c x)) @ ''-'' @ js_slice 16 20 (hex (?c x)) @ ''-'' @ drop 20 (hex (?c x))"
    by (simp add: computeChunkId_def uuid5_def Let_def)
  have len: "length (?c x) = 16" using assms by simp
  then obtain b0 b1 b2 b3 b4 b5 b6 b7 b8 b9 b10 b11 b12 b13 b14 b15 where
    c: "?c x = [b0,b1,b2,b3,b4,b5,b6,b7,b8,b9,b10,b11,b12,b13,b14,b15]"
    using list_16 [of "?c x"] by metis
  have b6: "\<exists>b. b6 = (b AND 0x0f) OR 0x50" and b8: "\<exists>b. b8 = (b AND 0x3f) OR 0x80"
    using assms arg_cong [OF c, of "\<lambda>l. l ! 6"] arg_cong [OF c, of "\<lambda>l. l ! 8"] by auto
  have digit: "HEX ! (unat b div 16) \<in> set HEX" "HEX ! (unat b mod 16) \<in> set HEX" for b :: byte
    using hex_digits [of "[b]"] by (auto simp: hex_Cons)
  have v: "HEX ! (unat b6 div 16) = CHR ''5''" using b6 version_nibble by (auto simp: HEX_def)
  have w: "HEX ! (unat b8 div 16) \<in> set ''89ab''" 
  proof -
    have "unat b8 div 16 \<in> {8, 9, 10, 11}" using b8 variant_nibble by blast
    then show ?thesis by (elim insertE emptyE) (simp_all add: HEX_def)
  qed
  show ?thesis unfolding id c
    using v w by (simp add: is_uuid_def upt_36 hex_Cons js_slice_def digit) (simp add: HEX_def)
qed

text \<open>(C13) Whatever the digests return, the id of a chunk is a well-formed UUID of version 5 and of the RFC's
  variant, so the contract that every chunk is parsed by accepts it.\<close>

theorem computeChunkId_uuid:
  assumes "\<And>x. length (h_sha1 H x) = 20"
  shows "is_uuid (computeChunkId H path start_line end_line body)
    \<and> computeChunkId H path start_line end_line body ! 14 = CHR ''5''
    \<and> computeChunkId H path start_line end_line body ! 19 \<in> set ''89ab''"
  by (rule computeChunkId_ok) (rule assms)

theorem computeChunkId_uuid_witness:
  "(\<forall>x. length (h_sha1 \<lparr>h_sha1 = (\<lambda>_. replicate 20 0), h_sha256 = id\<rparr> x) = 20)
    \<and> is_uuid (computeChunkId \<lparr>h_sha1 = (\<lambda>_. replicate 20 0), h_sha256 = id\<rparr> ''a.py'' 1 2 [])"
  using computeChunkId_uuid [of "\<lparr>h_sha1 = (\<lambda>_. replicate 20 0), h_sha256 = id\<rparr>"] by simp

section \<open>The contract\<close>

datatype chunk_kind = FunctionChunk | ClassChunk | ModuleChunk | HunkChunk | BatchChunk

record diff_chunk =
  dc_chunk_id :: string
  dc_path :: string
  dc_language :: "string option"
  dc_start_line :: int
  dc_end_line :: int
  dc_body :: js_text
  dc_chunk_kind :: chunk_kind
  dc_token_estimate :: int

datatype chunk_error =
    ZodError
  | RangeError string
  | DiffTooLargeError nat
  | WorkspacePathOutsideRootError string

definition DiffChunkV1_valid :: "diff_chunk \<Rightarrow> bool" where
  "DiffChunkV1_valid c \<longleftrightarrow> is_uuid (dc_chunk_id c) \<and> dc_path c \<noteq> [] \<and> 1 \<le> dc_start_line c \<and> 1 \<le> dc_end_line c
     \<and> 0 \<le> dc_token_estimate c \<and> dc_start_line c \<le> dc_end_line c"

definition DiffChunkV1_parse :: "diff_chunk \<Rightarrow> chunk_error + diff_chunk" where
  "DiffChunkV1_parse c = (if DiffChunkV1_valid c then Inr c else Inl ZodError)"

section \<open>Lines\<close>

definition LINE_BOUNDARY_CODEPOINTS :: "nat list" where
  "LINE_BOUNDARY_CODEPOINTS = [0x0a, 0x0d, 0x0b, 0x0c, 0x1c, 0x1d, 0x1e, 0x85, 0x2028, 0x2029]"

text \<open>The loop with the line read so far. No boundary is a surrogate, so that units and code points
  split alike.\<close>

function split_from :: "js_text \<Rightarrow> js_text \<Rightarrow> js_text list" where
  "split_from cur [] = (if cur = [] then [] else [cur])"
| "split_from cur (c # cs) =
     (if c \<in> set LINE_BOUNDARY_CODEPOINTS
      then if c = 0x0d \<and> cs \<noteq> [] \<and> hd cs = 0x0a then (cur @ [c, 0x0a]) # split_from [] (tl cs) else (cur @ [c]) # split_from [] cs
      else split_from (cur @ [c]) cs)"
  by pat_completeness auto
termination by (relation "measure (\<lambda>(cur, cs). length cs)") (auto simp: less_Suc_eq_le)

definition splitlinesKeepends :: "js_text \<Rightarrow> js_text list" where
  "splitlinesKeepends t = split_from [] t"

definition estimateTokens :: "js_text \<Rightarrow> int" where
  "estimateTokens body =
     (if body = [] then 1
      else let cps = codepoints body; n = int (length cps); nonAscii = int (length (filter (\<lambda>c. 127 < c) cps)) in
        max 1 (if n < 10 * nonAscii then n * 5 div 8 else n div 4))"

section \<open>Token budget\<close>

definition chunk_part :: "hashes \<Rightarrow> diff_chunk \<Rightarrow> int \<Rightarrow> int \<Rightarrow> js_text \<Rightarrow> diff_chunk" where
  "chunk_part H c s e body = \<lparr>dc_chunk_id = computeChunkId H (dc_path c) s e body, dc_path = dc_path c, dc_language = dc_language c,
     dc_start_line = s, dc_end_line = e, dc_body = body, dc_chunk_kind = dc_chunk_kind c, dc_token_estimate = estimateTokens body\<rparr>"

text \<open>\<^verbatim>\<open>splitOnce\<close>: no value is the sentinel of a chunk that cannot be split.\<close>

definition splitOnce :: "hashes \<Rightarrow> diff_chunk \<Rightarrow> chunk_error + (diff_chunk \<times> diff_chunk) option" where
  "splitOnce H c =
     (let lines = splitlinesKeepends (dc_body c); nLines = dc_end_line c - dc_start_line c + 1 in
      if nLines < 2 \<or> length lines < 2 then Inr None
      else let mid = nLines div 2; leftEnd = dc_start_line c + mid - 1; rightStart = leftEnd + 1;
          leftBody = concat (take (nat mid) lines); rightBody = concat (drop (nat mid) lines) in
        case DiffChunkV1_parse (chunk_part H c (dc_start_line c) leftEnd leftBody) of
          Inl e \<Rightarrow> Inl e
        | Inr left \<Rightarrow>
            (case DiffChunkV1_parse (chunk_part H c rightStart (dc_end_line c) rightBody) of
               Inl e \<Rightarrow> Inl e
             | Inr right \<Rightarrow> Inr (Some (left, right))))"

text \<open>The worklist loop, as a partial function: that it returns is proved below.\<close>

partial_function (option) budget_loop ::
  "hashes \<Rightarrow> int \<Rightarrow> diff_chunk list \<Rightarrow> diff_chunk list \<Rightarrow> (chunk_error + diff_chunk list) option" where
  "budget_loop H maxTokens pending out =
     (case pending of
        [] \<Rightarrow> Some (Inr out)
      | head # rest \<Rightarrow>
          if dc_token_estimate head \<le> maxTokens then budget_loop H maxTokens rest (out @ [head])
          else (case splitOnce H head of
              Inl e \<Rightarrow> Some (Inl e)
            | Inr None \<Rightarrow> budget_loop H maxTokens rest (out @ [head])
            | Inr (Some (left, right)) \<Rightarrow> budget_loop H maxTokens (left # right # rest) out))"

definition MAX_CHUNK_TOKENS :: int where
  "MAX_CHUNK_TOKENS = 6000"

definition enforceTokenBudget :: "hashes \<Rightarrow> diff_chunk list \<Rightarrow> int option \<Rightarrow> (chunk_error + diff_chunk list) option" where
  "enforceTokenBudget H chunks opt =
     (let maxTokens = (case opt of Some m \<Rightarrow> m | None \<Rightarrow> MAX_CHUNK_TOKENS) in
      if maxTokens \<le> 0 then Some (Inl (RangeError ''max_tokens must be positive''))
      else budget_loop H maxTokens chunks [])"

subsection \<open>Splitting keeps the lines\<close>

abbreviation is_boundary :: "nat \<Rightarrow> bool" where
  "is_boundary c \<equiv> c \<in> set LINE_BOUNDARY_CODEPOINTS"

lemma concat_split_from [simp]: "concat (split_from cur cs) = cur @ cs"
proof (induction cur cs rule: split_from.induct)
  case (2 cur c cs)
  then show ?case by (cases cs) auto
qed simp

lemma concat_splitlines [simp]: "concat (splitlinesKeepends t) = t"
  by (simp add: splitlinesKeepends_def)

lemma split_from_plain: "\<forall>c\<in>set u. \<not> is_boundary c \<Longrightarrow> split_from cur (u @ cs) = split_from (cur @ u) cs"
  by (induction u arbitrary: cur) simp_all

lemma concat_take_hd: "concat (take n ls) \<noteq> [] \<Longrightarrow> concat ls \<noteq> [] \<and> hd (concat (take n ls)) = hd (concat ls)"
  by (metis append_is_Nil_conv append_take_drop_id concat_append hd_append2)

lemma split_from_take:
  "\<forall>c\<in>set cur. \<not> is_boundary c \<Longrightarrow> split_from [] (concat (take n (split_from cur cs))) = take n (split_from cur cs)"
proof (induction cur cs arbitrary: n rule: split_from.induct)
  case (1 cur)
  then show ?case using split_from_plain [of cur "[]" "[]"] by (cases n) simp_all
next
  case (2 cur c cs)
  show ?case
  proof (cases n)
    case (Suc m)
    consider (crlf) "is_boundary c" "c = 0x0d" "cs \<noteq> []" "hd cs = 0x0a" | (line) "is_boundary c" "\<not> (c = 0x0d \<and> cs \<noteq> [] \<and> hd cs = 0x0a)"
      | (plain) "\<not> is_boundary c" by blast
    then show ?thesis
    proof cases
      case crlf
      then have "split_from [] (concat (take m (split_from [] (tl cs)))) = take m (split_from [] (tl cs))" using 2(1) by simp
      then show ?thesis using Suc crlf split_from_plain [OF "2.prems", of "[]"] by simp
    next
      case line
      let ?X = "concat (take m (split_from [] cs))"
      have IH: "split_from [] ?X = take m (split_from [] cs)" using 2(2) line by simp
      have "\<not> (c = 0x0d \<and> ?X \<noteq> [] \<and> hd ?X = 0x0a)" using line(2) concat_take_hd [of m "split_from [] cs"] by (metis append_Nil concat_split_from)
      then have e2: "split_from cur (c # ?X) = (cur @ [c]) # split_from [] ?X" using line(1) by auto
      have e1: "split_from cur (c # cs) = (cur @ [c]) # split_from [] cs" using line by auto
      have "split_from [] (concat (take n (split_from cur (c # cs)))) = split_from cur (c # ?X)"
        using split_from_plain [OF "2.prems", of "[]" "c # ?X"] by (simp add: e1 Suc del: split_from.simps)
      then show ?thesis using IH by (simp add: e1 e2 Suc del: split_from.simps)
    next
      case plain
      then show ?thesis using 2(3) [of n] "2.prems" by auto
    qed
  qed simp
qed

lemma split_from_drop:
  "\<forall>c\<in>set cur. \<not> is_boundary c \<Longrightarrow> split_from [] (concat (drop n (split_from cur cs))) = drop n (split_from cur cs)"
proof (induction cur cs arbitrary: n rule: split_from.induct)
  case (1 cur)
  then show ?case using split_from_plain [of cur "[]" "[]"] by (cases n) simp_all
next
  case (2 cur c cs)
  show ?case
  proof (cases n)
    case 0
    then show ?thesis using split_from_plain [OF "2.prems", of "[]" "c # cs"] by (simp del: split_from.simps)
  next
    case (Suc m)
    consider (crlf) "is_boundary c" "c = 0x0d" "cs \<noteq> []" "hd cs = 0x0a" | (line) "is_boundary c" "\<not> (c = 0x0d \<and> cs \<noteq> [] \<and> hd cs = 0x0a)"
      | (plain) "\<not> is_boundary c" by blast
    then show ?thesis
    proof cases
      case crlf
      then show ?thesis using 2(1) [of m] Suc by simp
    next
      case line
      then show ?thesis using 2(2) [of m] Suc by auto
    next
      case plain
      then show ?thesis using 2(3) [of n] "2.prems" by auto
    qed
  qed
qed

lemma splitlines_take [simp]: "splitlinesKeepends (concat (take n (splitlinesKeepends t))) = take n (splitlinesKeepends t)"
  unfolding splitlinesKeepends_def by (rule split_from_take) simp

lemma splitlines_drop [simp]: "splitlinesKeepends (concat (drop n (splitlinesKeepends t))) = drop n (splitlinesKeepends t)"
  unfolding splitlinesKeepends_def by (rule split_from_drop) simp

subsection \<open>The loop returns\<close>

abbreviation line_span :: "diff_chunk \<Rightarrow> int" where
  "line_span c \<equiv> dc_end_line c - dc_start_line c + 1"

lemma splitOnce_Some:
  assumes "splitOnce H c = Inr (Some (left, right))"
  shows "left = chunk_part H c (dc_start_line c) (dc_start_line c + line_span c div 2 - 1) (concat (take (nat (line_span c div 2)) (splitlinesKeepends (dc_body c))))"
    and "right = chunk_part H c (dc_start_line c + line_span c div 2) (dc_end_line c) (concat (drop (nat (line_span c div 2)) (splitlinesKeepends (dc_body c))))"
    and "2 \<le> line_span c" "DiffChunkV1_valid left" "DiffChunkV1_valid right"
  using assms by (auto simp: splitOnce_def DiffChunkV1_parse_def Let_def split: if_splits)

lemma splitOnce_spans:
  assumes "splitOnce H c = Inr (Some (left, right))"
  shows "nat (line_span left) < nat (line_span c)" "nat (line_span right) < nat (line_span c)"
proof -
  note parts = splitOnce_Some [OF assms]
  have "line_span left = line_span c div 2" "line_span right = line_span c - line_span c div 2"
    unfolding parts(1,2) by (simp_all add: chunk_part_def)
  then show "nat (line_span left) < nat (line_span c)" "nat (line_span right) < nat (line_span c)"
    using parts(3) by linarith+
qed

lemma budget_loop_Nil: "budget_loop H m [] out = Some (Inr out)"
  by (simp add: budget_loop.simps [of H m "[]"])

lemma budget_loop_keep:
  "dc_token_estimate c \<le> m \<or> splitOnce H c = Inr None \<Longrightarrow> budget_loop H m (c # rest) out = budget_loop H m rest (out @ [c])"
  by (subst budget_loop.simps) auto

lemma budget_loop_split:
  "\<not> dc_token_estimate c \<le> m \<Longrightarrow> splitOnce H c = Inr (Some (left, right)) \<Longrightarrow> budget_loop H m (c # rest) out = budget_loop H m (left # right # rest) out"
  by (subst budget_loop.simps) simp

lemma budget_loop_fail: "\<not> dc_token_estimate c \<le> m \<Longrightarrow> splitOnce H c = Inl e \<Longrightarrow> budget_loop H m (c # rest) out = Some (Inl e)"
  by (subst budget_loop.simps) simp

lemma budget_head_returns:
  "(\<exists>ps. \<forall>rest out. budget_loop H m (c # rest) out = budget_loop H m rest (out @ ps)) \<or> (\<exists>e. \<forall>rest out. budget_loop H m (c # rest) out = Some (Inl e))"
proof (induction "nat (line_span c)" arbitrary: c rule: less_induct)
  case less
  show ?case
  proof (cases "dc_token_estimate c \<le> m \<or> splitOnce H c = Inr None")
    case True
    then show ?thesis using budget_loop_keep by blast
  next
    case False
    then consider (fail) e where "splitOnce H c = Inl e" | (halves) left right where "splitOnce H c = Inr (Some (left, right))"
      by (cases "splitOnce H c") auto
    then show ?thesis
    proof cases
      case fail
      then show ?thesis using budget_loop_fail False by blast
    next
      case halves
      have step: "budget_loop H m (c # rest) out = budget_loop H m (left # right # rest) out" for rest out
        using budget_loop_split False halves by blast
      consider (l) e where "\<forall>rest out. budget_loop H m (left # rest) out = Some (Inl e)"
        | (lr) ps e where "\<forall>rest out. budget_loop H m (left # rest) out = budget_loop H m rest (out @ ps)" "\<forall>rest out. budget_loop H m (right # rest) out = Some (Inl e)"
        | (both) ps qs where "\<forall>rest out. budget_loop H m (left # rest) out = budget_loop H m rest (out @ ps)"
            "\<forall>rest out. budget_loop H m (right # rest) out = budget_loop H m rest (out @ qs)"
        using less [OF splitOnce_spans(1) [OF halves]] less [OF splitOnce_spans(2) [OF halves]] by blast
      then show ?thesis
      proof cases
        case l
        then show ?thesis using step by simp
      next
        case lr
        then show ?thesis using step by simp
      next
        case both
        have "\<forall>rest out. budget_loop H m (c # rest) out = budget_loop H m rest (out @ (ps @ qs))" using both step by simp
        then show ?thesis by blast
      qed
    qed
  qed
qed

lemma budget_loop_returns: "\<exists>r. budget_loop H m pending out = Some r"
proof (induction pending arbitrary: out)
  case (Cons c rest)
  then show ?case using budget_head_returns [of H m c] by metis
qed (simp add: budget_loop_Nil)

text \<open>(C14) The worklist loop returns on every input, valid chunks or not: a split always leaves two shorter line
  spans.\<close>

theorem enforceTokenBudget_returns: "\<exists>r. enforceTokenBudget H chunks opt = Some r"
  using budget_loop_returns [of H] by (simp add: enforceTokenBudget_def Let_def)

subsection \<open>What the loop returns\<close>

fun contiguous :: "int \<Rightarrow> int \<Rightarrow> diff_chunk list \<Rightarrow> bool" where
  "contiguous s e [] \<longleftrightarrow> False"
| "contiguous s e [p] \<longleftrightarrow> dc_start_line p = s \<and> dc_end_line p = e"
| "contiguous s e (p # q # ps) \<longleftrightarrow> dc_start_line p = s \<and> contiguous (dc_end_line p + 1) e (q # ps)"

lemma contiguous_append: "contiguous s e ps \<Longrightarrow> contiguous (e + 1) e' qs \<Longrightarrow> contiguous s e' (ps @ qs)"
proof (induction s e ps rule: contiguous.induct)
  case (2 s e p)
  then show ?case by (cases qs) auto
qed simp_all

text \<open>The pieces of a chunk: its lines in order, in consecutive line ranges, each piece a valid chunk of the
  same file, within the budget unless a single line.\<close>

definition pieces :: "int \<Rightarrow> diff_chunk \<Rightarrow> diff_chunk list \<Rightarrow> bool" where
  "pieces m c ps \<longleftrightarrow> contiguous (dc_start_line c) (dc_end_line c) ps
     \<and> concat (map (splitlinesKeepends \<circ> dc_body) ps) = splitlinesKeepends (dc_body c)
     \<and> list_all (\<lambda>p. DiffChunkV1_valid p \<and> dc_path p = dc_path c \<and> dc_language p = dc_language c \<and> dc_chunk_kind p = dc_chunk_kind c
         \<and> (dc_token_estimate p \<le> m \<or> dc_start_line p = dc_end_line p \<or> length (splitlinesKeepends (dc_body p)) < 2)) ps
     \<and> (dc_token_estimate c \<le> m \<longrightarrow> ps = [c])"

lemma estimateTokens_pos: "1 \<le> estimateTokens body"
  by (simp add: estimateTokens_def Let_def)

lemma splitOnce_valid:
  assumes "\<And>x. length (h_sha1 H x) = 20" "DiffChunkV1_valid c"
  shows "splitOnce H c = Inr None \<and> (dc_start_line c = dc_end_line c \<or> length (splitlinesKeepends (dc_body c)) < 2)
    \<or> (\<exists>left right. splitOnce H c = Inr (Some (left, right)))"
proof (cases "line_span c < 2 \<or> length (splitlinesKeepends (dc_body c)) < 2")
  case True
  then show ?thesis using assms(2) by (auto simp: splitOnce_def DiffChunkV1_valid_def Let_def)
next
  case False
  have id: "is_uuid (computeChunkId H path s e body)" for path s e body using computeChunkId_ok [OF assms(1)] by blast
  have "0 \<le> estimateTokens body" for body using estimateTokens_pos [of body] by simp
  then have "DiffChunkV1_valid (chunk_part H c (dc_start_line c) (dc_start_line c + line_span c div 2 - 1) b1)"
    "DiffChunkV1_valid (chunk_part H c (dc_start_line c + line_span c div 2) (dc_end_line c) b2)" for b1 b2
    using False assms(2) id by (auto simp: DiffChunkV1_valid_def chunk_part_def)
  then show ?thesis using False by (simp add: splitOnce_def DiffChunkV1_parse_def Let_def)
qed

lemma contiguous_not_Nil: "contiguous s e ps \<Longrightarrow> ps \<noteq> []"
  by auto

lemma budget_head_pieces:
  assumes "\<And>x. length (h_sha1 H x) = 20" "DiffChunkV1_valid c"
  shows "\<exists>ps. pieces m c ps \<and> (\<forall>rest out. budget_loop H m (c # rest) out = budget_loop H m rest (out @ ps))"
  using assms(2)
proof (induction "nat (line_span c)" arbitrary: c rule: less_induct)
  case less
  consider (keep) "dc_token_estimate c \<le> m \<or> splitOnce H c = Inr None"
    | (halves) left right where "\<not> dc_token_estimate c \<le> m" "splitOnce H c = Inr (Some (left, right))"
    using splitOnce_valid [OF assms(1) less.prems] by blast
  then show ?case
  proof cases
    case keep
    have "pieces m c [c]" using less.prems splitOnce_valid [OF assms(1) less.prems] keep by (auto simp: pieces_def)
    then show ?thesis using budget_loop_keep [OF keep] by blast
  next
    case halves
    note parts = splitOnce_Some [OF halves(2)]
    obtain ps where ps: "pieces m left ps" "\<forall>rest out. budget_loop H m (left # rest) out = budget_loop H m rest (out @ ps)"
      using less.hyps [OF splitOnce_spans(1) [OF halves(2)] parts(4)] by blast
    obtain qs where qs: "pieces m right qs" "\<forall>rest out. budget_loop H m (right # rest) out = budget_loop H m rest (out @ qs)"
      using less.hyps [OF splitOnce_spans(2) [OF halves(2)] parts(5)] by blast
    have left: "dc_start_line left = dc_start_line c" "dc_path left = dc_path c" "dc_language left = dc_language c" "dc_chunk_kind left = dc_chunk_kind c"
      and right: "dc_start_line right = dc_end_line left + 1" "dc_end_line right = dc_end_line c" "dc_path right = dc_path c"
        "dc_language right = dc_language c" "dc_chunk_kind right = dc_chunk_kind c"
      and lines: "splitlinesKeepends (dc_body left) @ splitlinesKeepends (dc_body right) = splitlinesKeepends (dc_body c)"
      unfolding parts(1,2) by (simp_all add: chunk_part_def)
    have "contiguous (dc_start_line c) (dc_end_line c) (ps @ qs)"
      using contiguous_append [of _ "dc_end_line left"] ps(1) qs(1) left(1) right(1,2) by (simp add: pieces_def)
    moreover have "concat (map (splitlinesKeepends \<circ> dc_body) (ps @ qs)) = splitlinesKeepends (dc_body c)"
      using ps(1) qs(1) lines by (simp add: pieces_def)
    ultimately have "pieces m c (ps @ qs)"
      using ps(1) qs(1) left right halves(1) by (auto simp: pieces_def list_all_iff)
    moreover have "budget_loop H m (c # rest) out = budget_loop H m rest (out @ (ps @ qs))" for rest out
      using budget_loop_split [OF halves] ps(2) qs(2) by simp
    ultimately show ?thesis by blast
  qed
qed

lemma budget_loop_pieces:
  assumes "\<And>x. length (h_sha1 H x) = 20" "list_all DiffChunkV1_valid chunks"
  shows "\<exists>pss. list_all2 (pieces m) chunks pss \<and> (\<forall>out. budget_loop H m chunks out = Some (Inr (out @ concat pss)))"
  using assms(2)
proof (induction chunks)
  case (Cons c chunks)
  obtain ps where ps: "pieces m c ps" "\<forall>rest out. budget_loop H m (c # rest) out = budget_loop H m rest (out @ ps)"
    using budget_head_pieces [OF assms(1)] Cons.prems by fastforce
  obtain pss where "list_all2 (pieces m) chunks pss" "\<forall>out. budget_loop H m chunks out = Some (Inr (out @ concat pss))"
    using Cons by auto
  then have "list_all2 (pieces m) (c # chunks) (ps # pss) \<and> (\<forall>out. budget_loop H m (c # chunks) out = Some (Inr (out @ concat (ps # pss))))"
    using ps by simp
  then show ?case by blast
qed (simp add: budget_loop_Nil)

text \<open>Enforcing a positive budget on valid chunks never throws; every chunk is replaced, in place, by its pieces:
  the same lines in consecutive ranges, each a valid chunk within the budget or a single line.\<close>

theorem enforceTokenBudget_pieces:
  assumes "\<And>x. length (h_sha1 H x) = 20" and "list_all DiffChunkV1_valid chunks" and "0 < m"
  shows "\<exists>pss. enforceTokenBudget H chunks (Some m) = Some (Inr (concat pss)) \<and> list_all2 (pieces m) chunks pss"
  using budget_loop_pieces [OF assms(1,2), of m] assms(3) by (auto simp: enforceTokenBudget_def)

definition ex_hashes :: hashes where
  "ex_hashes = \<lparr>h_sha1 = (\<lambda>_. replicate 20 0), h_sha256 = id\<rparr>"

definition ex_chunk :: diff_chunk where
  "ex_chunk = \<lparr>dc_chunk_id = ''c4f8c4f8-c4f8-4c4f-8c4f-c4f8c4f8c4f8'', dc_path = ''a.py'', dc_language = None, dc_start_line = 1, dc_end_line = 2,
     dc_body = [97, 98, 99, 100, 10, 97, 98, 99, 10], dc_chunk_kind = HunkChunk, dc_token_estimate = 2\<rparr>"

lemma ex_chunk_valid: "DiffChunkV1_valid ex_chunk"
  by (simp add: DiffChunkV1_valid_def ex_chunk_def is_uuid_def upt_36 HEX_def)

theorem enforceTokenBudget_pieces_witness:
  "DiffChunkV1_valid ex_chunk \<and> (\<exists>pss. enforceTokenBudget ex_hashes [ex_chunk] (Some 1) = Some (Inr (concat pss)) \<and> list_all2 (pieces 1) [ex_chunk] pss)"
  using ex_chunk_valid enforceTokenBudget_pieces [of ex_hashes "[ex_chunk]" 1] by (simp add: ex_hashes_def)

end
