(* ===== verification/Chunk_Passes.thy ===== *)
theory Chunk_Passes
  imports Chunks "HOL-Library.Sublist"
begin

text \<open>
  The passes over chunks: batching of adjacent files (\<^verbatim>\<open>chunking/batcher.ts\<close>), the line-window chunker
  (\<^verbatim>\<open>chunking/hunk_fallback.ts\<close>), the choice of a chunker (\<^verbatim>\<open>chunking/selector.ts\<close>) and the activity that reads the changed
  files, chunks and redacts them (\<^verbatim>\<open>activities/chunk_and_redact.activity.ts\<close>). Paths are POSIX paths in ASCII; the
  tree-sitter chunkers are arguments, as the registry is injected in the code, and so is the file system.
\<close>

section \<open>Batching\<close>

definition BATCH_TOKEN_BUDGET :: int where
  "BATCH_TOKEN_BUDGET = 2000"

definition posixDirname :: "string \<Rightarrow> string" where
  "posixDirname path =
     (let head = rev (dropWhile (\<lambda>c. c \<noteq> CHR ''/'') (rev path)) in
      if head \<noteq> [] \<and> \<not> list_all (\<lambda>c. c = CHR ''/'') head then rev (dropWhile (\<lambda>c. c = CHR ''/'') (rev head)) else head)"

definition separator :: "diff_chunk \<Rightarrow> js_text" where
  "separator c = jstr (''--- '' @ dc_path c @ '':'' @ int_text (dc_start_line c) @ ''-'' @ int_text (dc_end_line c) @ '' ---'') @ [0x0A]"

definition countNewlines :: "js_text \<Rightarrow> int" where
  "countNewlines s = int (count_list s 0x0A)"

definition batch_body :: "diff_chunk list \<Rightarrow> js_text" where
  "batch_body grp = concat (map (\<lambda>c. separator c @ dc_body c @ (if dc_body c \<noteq> [] \<and> last (dc_body c) = 0x0A then [] else [0x0A])) grp)"

definition batch_chunk :: "hashes \<Rightarrow> diff_chunk list \<Rightarrow> diff_chunk" where
  "batch_chunk H grp =
     (let body = batch_body grp;
        nLines = (if countNewlines body = 0 then 1 else countNewlines body);
        dirname = (let d = posixDirname (dc_path (hd grp)) in if d = [] then ''.'' else d);
        languages = remdups (concat (map (\<lambda>c. case dc_language c of Some l \<Rightarrow> if l = [] then [] else [l] | None \<Rightarrow> []) grp));
        language = (case languages of [l] \<Rightarrow> Some l | _ \<Rightarrow> None);
        batchPath = dirname @ ''/['' @ nat_text (length grp) @ '' files]''
      in \<lparr>dc_chunk_id = computeChunkId H batchPath 1 nLines body, dc_path = batchPath, dc_language = language, dc_start_line = 1,
          dc_end_line = nLines, dc_body = body, dc_chunk_kind = BatchChunk, dc_token_estimate = sum_list (map dc_token_estimate grp)\<rparr>)"

definition makeBatch :: "hashes \<Rightarrow> diff_chunk list \<Rightarrow> chunk_error + diff_chunk" where
  "makeBatch H grp = DiffChunkV1_parse (batch_chunk H grp)"

definition flush_group :: "hashes \<Rightarrow> diff_chunk list \<Rightarrow> chunk_error + diff_chunk list" where
  "flush_group H grp =
     (case grp of
        [] \<Rightarrow> Inr []
      | [c] \<Rightarrow> Inr [c]
      | _ \<Rightarrow> (case makeBatch H grp of Inl e \<Rightarrow> Inl e | Inr b \<Rightarrow> Inr [b]))"

fun batch_loop ::
  "hashes \<Rightarrow> int \<Rightarrow> diff_chunk list \<Rightarrow> diff_chunk list \<Rightarrow> int \<Rightarrow> string option \<Rightarrow> diff_chunk list \<Rightarrow> chunk_error + diff_chunk list" where
  "batch_loop H budget [] grp tokens dir out = (case flush_group H grp of Inl e \<Rightarrow> Inl e | Inr xs \<Rightarrow> Inr (out @ xs))"
| "batch_loop H budget (c # cs) grp tokens dir out =
     (if dc_chunk_kind c = BatchChunk
      then (case flush_group H grp of Inl e \<Rightarrow> Inl e | Inr xs \<Rightarrow> batch_loop H budget cs [] 0 None (out @ xs @ [c]))
      else let cDir = posixDirname (dc_path c) in
        if dir = None \<or> dir \<noteq> Some cDir \<or> budget < tokens + dc_token_estimate c
        then (case flush_group H grp of Inl e \<Rightarrow> Inl e | Inr xs \<Rightarrow> batch_loop H budget cs [c] (dc_token_estimate c) (Some cDir) (out @ xs))
        else batch_loop H budget cs (grp @ [c]) (tokens + dc_token_estimate c) dir out)"

definition batchAdjacent :: "hashes \<Rightarrow> diff_chunk list \<Rightarrow> int option \<Rightarrow> chunk_error + diff_chunk list" where
  "batchAdjacent H chunks opt =
     (let budget = (case opt of Some b \<Rightarrow> b | None \<Rightarrow> BATCH_TOKEN_BUDGET) in
      if budget \<le> 0 then Inl (RangeError ''budget_tokens must be positive'')
      else if length chunks < 2 then Inr chunks
      else batch_loop H budget chunks [] 0 None [])"

text \<open>A group the pass may form: one chunk, or several of one directory within the budget, none of them a
  batch.\<close>

definition batch_group :: "int \<Rightarrow> diff_chunk list \<Rightarrow> bool" where
  "batch_group budget g \<longleftrightarrow> g \<noteq> [] \<and> (length g = 1 \<or>
     (list_all (\<lambda>c. dc_chunk_kind c \<noteq> BatchChunk \<and> posixDirname (dc_path c) = posixDirname (dc_path (hd g))) g
      \<and> sum_list (map dc_token_estimate g) \<le> budget))"

definition group_chunk :: "hashes \<Rightarrow> diff_chunk list \<Rightarrow> diff_chunk" where
  "group_chunk H g = (if length g = 1 then hd g else batch_chunk H g)"

lemma sum_estimates_nonneg: "list_all DiffChunkV1_valid g \<Longrightarrow> 0 \<le> sum_list (map dc_token_estimate g)"
  by (induction g) (auto simp: DiffChunkV1_valid_def)

lemma batch_chunk_valid:
  assumes "\<And>x. length (h_sha1 H x) = 20" "list_all DiffChunkV1_valid g"
  shows "DiffChunkV1_valid (batch_chunk H g)"
  using computeChunkId_ok [OF assms(1)] sum_estimates_nonneg [OF assms(2)]
  by (auto simp: DiffChunkV1_valid_def batch_chunk_def Let_def countNewlines_def)

lemma flush_group_ok:
  assumes "\<And>x. length (h_sha1 H x) = 20" "list_all DiffChunkV1_valid g"
  shows "flush_group H g = Inr (if g = [] then [] else [group_chunk H g])"
  using batch_chunk_valid [OF assms]
  by (auto simp: flush_group_def makeBatch_def DiffChunkV1_parse_def group_chunk_def split: list.split)

definition open_group :: "int \<Rightarrow> diff_chunk list \<Rightarrow> int \<Rightarrow> string option \<Rightarrow> bool" where
  "open_group budget g tokens dir \<longleftrightarrow> (g = [] \<longleftrightarrow> dir = None) \<and> tokens = sum_list (map dc_token_estimate g)
     \<and> list_all (\<lambda>c. dc_chunk_kind c \<noteq> BatchChunk \<and> dir = Some (posixDirname (dc_path c))) g \<and> (length g = 1 \<or> tokens \<le> budget)"

lemma open_group_batch: "open_group budget g tokens dir \<Longrightarrow> g \<noteq> [] \<Longrightarrow> batch_group budget g"
  by (cases g) (auto simp: open_group_def batch_group_def list_all_iff)

lemma batch_loop_groups:
  assumes "\<And>x. length (h_sha1 H x) = 20" "0 < budget" "list_all DiffChunkV1_valid (grp @ chunks)" "open_group budget grp tokens dir"
  shows "\<exists>gs. concat gs = grp @ chunks \<and> list_all (batch_group budget) gs
    \<and> batch_loop H budget chunks grp tokens dir out = Inr (out @ map (group_chunk H) gs)"
  using assms(3,4)
proof (induction chunks arbitrary: grp tokens dir out)
  case Nil
  let ?gs = "if grp = [] then [] else [grp]"
  have "concat ?gs = grp @ []" by simp
  moreover have "list_all (batch_group budget) ?gs" using open_group_batch [OF Nil(2)] by simp
  moreover have "batch_loop H budget [] grp tokens dir out = Inr (out @ map (group_chunk H) ?gs)"
    using flush_group_ok [OF assms(1), of grp] Nil(1) by simp
  ultimately show ?case by blast
next
  case (Cons c cs)
  have flush: "flush_group H grp = Inr (map (group_chunk H) (if grp = [] then [] else [grp]))"
    using flush_group_ok [OF assms(1), of grp] Cons.prems(1) by simp
  let ?f = "if grp = [] then [] else [grp]"
  have f: "concat ?f = grp" "list_all (batch_group budget) ?f" using open_group_batch [OF Cons.prems(2)] by simp_all
  consider (batch) "dc_chunk_kind c = BatchChunk"
    | (new) "dc_chunk_kind c \<noteq> BatchChunk" "dir = None \<or> dir \<noteq> Some (posixDirname (dc_path c)) \<or> budget < tokens + dc_token_estimate c"
    | (add) "dc_chunk_kind c \<noteq> BatchChunk" "dir = Some (posixDirname (dc_path c))" "tokens + dc_token_estimate c \<le> budget"
    by fastforce
  then show ?case
  proof cases
    case batch
    have "list_all DiffChunkV1_valid ([] @ cs)" "open_group budget [] 0 None" using Cons.prems assms(2) by (simp_all add: open_group_def)
    from Cons.IH [OF this, of "out @ map (group_chunk H) ?f @ [c]"] obtain gs where
      gs: "concat gs = cs" "list_all (batch_group budget) gs"
        "batch_loop H budget cs [] 0 None (out @ map (group_chunk H) ?f @ [c]) = Inr ((out @ map (group_chunk H) ?f @ [c]) @ map (group_chunk H) gs)"
      by auto
    have "batch_group budget [c]" by (simp add: batch_group_def)
    then have "concat (?f @ [c] # gs) = grp @ c # cs \<and> list_all (batch_group budget) (?f @ [c] # gs)
      \<and> batch_loop H budget (c # cs) grp tokens dir out = Inr (out @ map (group_chunk H) (?f @ [c] # gs))"
      using gs f flush batch by (simp add: group_chunk_def)
    then show ?thesis by blast
  next
    case new
    have "list_all DiffChunkV1_valid ([c] @ cs)" "open_group budget [c] (dc_token_estimate c) (Some (posixDirname (dc_path c)))"
      using Cons.prems new by (simp_all add: open_group_def)
    from Cons.IH [OF this, of "out @ map (group_chunk H) ?f"] obtain gs where
      gs: "concat gs = c # cs" "list_all (batch_group budget) gs"
        "batch_loop H budget cs [c] (dc_token_estimate c) (Some (posixDirname (dc_path c))) (out @ map (group_chunk H) ?f)
           = Inr ((out @ map (group_chunk H) ?f) @ map (group_chunk H) gs)"
      by auto
    have "concat (?f @ gs) = grp @ c # cs \<and> list_all (batch_group budget) (?f @ gs)
      \<and> batch_loop H budget (c # cs) grp tokens dir out = Inr (out @ map (group_chunk H) (?f @ gs))"
      using gs f flush new by (simp add: Let_def)
    then show ?thesis by blast
  next
    case add
    have "list_all DiffChunkV1_valid ((grp @ [c]) @ cs)" "open_group budget (grp @ [c]) (tokens + dc_token_estimate c) dir"
      using Cons.prems add by (auto simp: open_group_def)
    from Cons.IH [OF this, of out] show ?thesis using add by simp
  qed
qed

text \<open>Batching valid chunks under a positive budget never throws; it cuts the input into consecutive
  groups, each one chunk or chunks of one directory that fit the budget together, and replaces each group by one chunk.\<close>

theorem batchAdjacent_groups:
  assumes "\<And>x. length (h_sha1 H x) = 20" and "0 < budget" and "list_all DiffChunkV1_valid chunks"
  shows "\<exists>gs. concat gs = chunks \<and> list_all (batch_group budget) gs \<and> batchAdjacent H chunks (Some budget) = Inr (map (group_chunk H) gs)"
proof (cases "length chunks < 2")
  case True
  then have "concat (map (\<lambda>c. [c]) chunks) = chunks \<and> list_all (batch_group budget) (map (\<lambda>c. [c]) chunks)
    \<and> batchAdjacent H chunks (Some budget) = Inr (map (group_chunk H) (map (\<lambda>c. [c]) chunks))"
    using assms(2) by (simp add: batchAdjacent_def list_all_iff batch_group_def group_chunk_def o_def)
  then show ?thesis by blast
next
  case False
  have "open_group budget [] 0 None" using assms(2) by (simp add: open_group_def)
  then show ?thesis using batch_loop_groups [OF assms(1,2), of "[]" chunks 0 None "[]"] assms(2,3) False by (simp add: batchAdjacent_def)
qed

theorem batchAdjacent_groups_witness:
  "\<exists>gs. concat gs = [ex_chunk, ex_chunk] \<and> list_all (batch_group 9) gs \<and> batchAdjacent ex_hashes [ex_chunk, ex_chunk] (Some 9) = Inr (map (group_chunk ex_hashes) gs)"
  using batchAdjacent_groups [of ex_hashes 9 "[ex_chunk, ex_chunk]"] ex_chunk_valid by (simp add: ex_hashes_def)

section \<open>Line-window chunks\<close>

definition LANG_BY_EXT :: "(string \<times> string) list" where
  "LANG_BY_EXT = [(''.go'', ''go''), (''.rs'', ''rust''), (''.java'', ''java''), (''.kt'', ''kotlin''), (''.swift'', ''swift''), (''.rb'', ''ruby''),
     (''.php'', ''php''), (''.cs'', ''csharp''), (''.c'', ''c''), (''.h'', ''c''), (''.cpp'', ''cpp''), (''.cc'', ''cpp''), (''.hpp'', ''cpp''),
     (''.yaml'', ''yaml''), (''.yml'', ''yaml''), (''.toml'', ''toml''), (''.ini'', ''ini''), (''.md'', ''markdown''), (''.json'', ''json'')]"

definition MAX_DIFF_LINES :: nat where
  "MAX_DIFF_LINES = 50000"

definition assertDiffSize :: "nat list \<Rightarrow> chunk_error option" where
  "assertDiffSize body =
     (if body = [] then None
      else let lineCount = count_list body 0x0A + (if last body \<noteq> 0x0A then 1 else 0) in
        if MAX_DIFF_LINES < lineCount then Some (DiffTooLargeError lineCount) else None)"

text \<open>\<^verbatim>\<open>new TextDecoder("utf-8").decode(body)\<close>: the decoder of the Encoding standard (bytes still needed, the code point
  so far, the bounds of the next byte), which replaces errors and drops a leading byte order mark; the result in UTF-16.\<close>

function utf8_decode :: "nat \<Rightarrow> nat \<Rightarrow> nat \<Rightarrow> nat \<Rightarrow> nat list \<Rightarrow> nat list" where
  "utf8_decode 0 cp lo hi [] = []"
| "utf8_decode (Suc k) cp lo hi [] = [0xFFFD]"
| "utf8_decode 0 cp lo hi (b # bs) =
     (if b < 0x80 then b # utf8_decode 0 0 0x80 0xBF bs
      else if 0xC2 \<le> b \<and> b \<le> 0xDF then utf8_decode 1 (b - 0xC0) 0x80 0xBF bs
      else if 0xE0 \<le> b \<and> b \<le> 0xEF then utf8_decode 2 (b - 0xE0) (if b = 0xE0 then 0xA0 else 0x80) (if b = 0xED then 0x9F else 0xBF) bs
      else if 0xF0 \<le> b \<and> b \<le> 0xF4 then utf8_decode 3 (b - 0xF0) (if b = 0xF0 then 0x90 else 0x80) (if b = 0xF4 then 0x8F else 0xBF) bs
      else 0xFFFD # utf8_decode 0 0 0x80 0xBF bs)"
| "utf8_decode (Suc k) cp lo hi (b # bs) =
     (if lo \<le> b \<and> b \<le> hi
      then if k = 0 then (cp * 64 + (b - 0x80)) # utf8_decode 0 0 0x80 0xBF bs else utf8_decode k (cp * 64 + (b - 0x80)) 0x80 0xBF bs
      else 0xFFFD # utf8_decode 0 0 0x80 0xBF (b # bs))"
  by pat_completeness auto
termination by (relation "measure (\<lambda>(k, cp, lo, hi, bs). 2 * length bs + (if k = 0 then 0 else 1))") auto

definition utf16 :: "nat \<Rightarrow> js_text" where
  "utf16 c = (if c < 0x10000 then [c] else [0xD800 + (c - 0x10000) div 0x400, 0xDC00 + (c - 0x10000) mod 0x400])"

definition decodeText :: "nat list \<Rightarrow> js_text" where
  "decodeText body =
     (let cps = utf8_decode 0 0 0x80 0xBF body in
      concat (map utf16 (case cps of [] \<Rightarrow> [] | c # cs \<Rightarrow> if c = 0xFEFF then cs else cps)))"

definition hunk_estimateTokens :: "js_text \<Rightarrow> int" where
  "hunk_estimateTokens body = max 1 (int (length (codepoints body)) div 4)"

definition ascii_lower :: "string \<Rightarrow> string" where
  "ascii_lower s = map (\<lambda>c. char_of (to_lower (of_char c))) s"

definition base_name :: "string \<Rightarrow> string" where
  "base_name path = rev (takeWhile (\<lambda>c. c \<noteq> CHR ''/'' \<and> c \<noteq> CHR 0x5C) (rev path))"

text \<open>The final extension with its dot, none for a name that has no dot but a leading or a trailing one.\<close>

definition lowerSuffix :: "string \<Rightarrow> string" where
  "lowerSuffix path =
     (let name = base_name path; ext = rev (takeWhile (\<lambda>c. c \<noteq> CHR ''.'') (rev name)) in
      if CHR ''.'' \<notin> set name \<or> length ext + 1 = length name \<or> ext = [] then [] else ascii_lower (CHR ''.'' # ext))"

definition lowerName :: "string \<Rightarrow> string" where
  "lowerName path = ascii_lower (base_name path)"

definition languageFor :: "string \<Rightarrow> string option" where
  "languageFor path =
     (let name = lowerName path in
      if name = ''dockerfile'' \<or> prefix ''dockerfile.'' name then Some ''dockerfile'' else map_of LANG_BY_EXT (lowerSuffix path))"

fun merge_ranges :: "int \<times> int \<Rightarrow> (int \<times> int) list \<Rightarrow> (int \<times> int) list" where
  "merge_ranges (s, e) [] = [(s, e)]"
| "merge_ranges (s, e) ((s', e') # rs) = (if s' \<le> e + 1 then merge_ranges (s, max e e') rs else (s, e) # merge_ranges (s', e') rs)"

definition merged_ranges :: "(int \<times> int) list \<Rightarrow> (int \<times> int) list" where
  "merged_ranges expanded = (case sort expanded of [] \<Rightarrow> [] | r # rs \<Rightarrow> merge_ranges r rs)"

definition window_chunk :: "hashes \<Rightarrow> string \<Rightarrow> js_text list \<Rightarrow> int \<times> int \<Rightarrow> diff_chunk" where
  "window_chunk H path lines r =
     (case r of (s, e) \<Rightarrow>
       let body = concat (js_slice (nat (s - 1)) (nat e) lines) in
       \<lparr>dc_chunk_id = computeChunkId H path s e body, dc_path = path, dc_language = languageFor path, dc_start_line = s, dc_end_line = e,
        dc_body = body, dc_chunk_kind = HunkChunk, dc_token_estimate = hunk_estimateTokens body\<rparr>)"

fun parse_all :: "diff_chunk list \<Rightarrow> chunk_error + diff_chunk list" where
  "parse_all [] = Inr []"
| "parse_all (c # cs) =
     (case DiffChunkV1_parse c of Inl e \<Rightarrow> Inl e | Inr c' \<Rightarrow> (case parse_all cs of Inl e \<Rightarrow> Inl e | Inr cs' \<Rightarrow> Inr (c' # cs')))"

definition expand_range :: "int \<Rightarrow> int \<Rightarrow> int \<times> int \<Rightarrow> int \<times> int" where
  "expand_range lineWindow total_lines r = (max 1 (fst r - lineWindow), min total_lines (snd r + lineWindow))"

definition hunk_chunk :: "hashes \<Rightarrow> int \<Rightarrow> string \<Rightarrow> nat list \<Rightarrow> (int \<times> int) list \<Rightarrow> chunk_error + diff_chunk list" where
  "hunk_chunk H lineWindow path body hunkRanges =
     (case assertDiffSize body of
        Some e \<Rightarrow> Inl e
      | None \<Rightarrow>
          if hunkRanges = [] then Inr []
          else let lines = splitlinesKeepends (decodeText body); total_lines = int (length lines) in
            if total_lines = 0 then Inr []
            else if \<exists>(hs, he)\<in>set hunkRanges. he < hs then Inl (RangeError ''invalid hunk range'')
            else parse_all (map (window_chunk H path lines) (merged_ranges (map (expand_range lineWindow total_lines) hunkRanges))))"

subsection \<open>The chunks are exactly the windows\<close>

definition in_ranges :: "(int \<times> int) list \<Rightarrow> int \<Rightarrow> bool" where
  "in_ranges rs l \<longleftrightarrow> (\<exists>(s, e)\<in>set rs. s \<le> l \<and> l \<le> e)"

lemma in_ranges_Cons: "in_ranges ((s, e) # rs) l \<longleftrightarrow> (s \<le> l \<and> l \<le> e) \<or> in_ranges rs l"
  by (auto simp: in_ranges_def)

lemma merge_ranges_spec:
  assumes "sorted (map fst ((s, e) # rs))" "s \<le> e" "\<And>x y. (x, y) \<in> set rs \<Longrightarrow> x \<le> y"
  shows "(\<forall>l. in_ranges (merge_ranges (s, e) rs) l \<longleftrightarrow> in_ranges ((s, e) # rs) l)
    \<and> sorted_wrt (\<lambda>x y. snd x + 1 < fst y) (merge_ranges (s, e) rs)
    \<and> (\<forall>(x, y)\<in>set (merge_ranges (s, e) rs). s \<le> x \<and> x \<le> y \<and> y \<in> insert e (snd ` set rs))"
  using assms
proof (induction rs arbitrary: s e)
  case (Cons z rs)
  obtain s' e' where z: "z = (s', e')" by (cases z)
  have s': "s \<le> s'" "s' \<le> e'" using Cons.prems z by auto
  show ?case
  proof (cases "s' \<le> e + 1")
    case True
    have "sorted (map fst ((s, max e e') # rs))" "s \<le> max e e'" using Cons.prems s' z by auto
    then have IH: "(\<forall>l. in_ranges (merge_ranges (s, max e e') rs) l \<longleftrightarrow> in_ranges ((s, max e e') # rs) l)
      \<and> sorted_wrt (\<lambda>x y. snd x + 1 < fst y) (merge_ranges (s, max e e') rs)
      \<and> (\<forall>(x, y)\<in>set (merge_ranges (s, max e e') rs). s \<le> x \<and> x \<le> y \<and> y \<in> insert (max e e') (snd ` set rs))"
      using Cons.IH Cons.prems(3) by simp
    have eq: "merge_ranges (s, e) (z # rs) = merge_ranges (s, max e e') rs" using True z by simp
    have "in_ranges ((s, max e e') # rs) l \<longleftrightarrow> in_ranges ((s, e) # z # rs) l" for l
      using True s' by (auto simp: z in_ranges_Cons max_def)
    moreover have "\<forall>(x, y)\<in>set (merge_ranges (s, max e e') rs). s \<le> x \<and> x \<le> y \<and> y \<in> insert e (snd ` set (z # rs))"
      using IH z by (fastforce simp: max_def)
    ultimately show ?thesis unfolding eq using IH by simp
  next
    case False
    have "sorted (map fst ((s', e') # rs))" using Cons.prems z by auto
    then have IH: "(\<forall>l. in_ranges (merge_ranges (s', e') rs) l \<longleftrightarrow> in_ranges ((s', e') # rs) l)
      \<and> sorted_wrt (\<lambda>x y. snd x + 1 < fst y) (merge_ranges (s', e') rs)
      \<and> (\<forall>(x, y)\<in>set (merge_ranges (s', e') rs). s' \<le> x \<and> x \<le> y \<and> y \<in> insert e' (snd ` set rs))"
      using Cons.IH Cons.prems(3) s'(2) by simp
    have eq: "merge_ranges (s, e) (z # rs) = (s, e) # merge_ranges (s', e') rs" using False z by simp
    have "e + 1 < fst x" if "x \<in> set (merge_ranges (s', e') rs)" for x using IH that False by (cases x) fastforce
    then have "sorted_wrt (\<lambda>x y. snd x + 1 < fst y) (merge_ranges (s, e) (z # rs))" using IH unfolding eq by simp
    moreover have "in_ranges (merge_ranges (s, e) (z # rs)) l \<longleftrightarrow> in_ranges ((s, e) # z # rs) l" for l
      using IH unfolding eq by (simp add: z in_ranges_Cons)
    moreover have "\<forall>(x, y)\<in>set (merge_ranges (s, e) (z # rs)). s \<le> x \<and> x \<le> y \<and> y \<in> insert e (snd ` set (z # rs))"
      using IH s' Cons.prems(2) unfolding eq by (fastforce simp: z)
    ultimately show ?thesis by blast
  qed
qed (auto simp: in_ranges_def)

lemma merged_ranges_spec:
  assumes "\<And>x y. (x, y) \<in> set rs \<Longrightarrow> 1 \<le> x \<and> x \<le> y \<and> y \<le> n"
  shows "in_ranges (merged_ranges rs) l \<longleftrightarrow> in_ranges rs l"
    and "sorted_wrt (\<lambda>x y. snd x + 1 < fst y) (merged_ranges rs)"
    and "(x, y) \<in> set (merged_ranges rs) \<Longrightarrow> 1 \<le> x \<and> x \<le> y \<and> y \<le> n"
proof -
  have all: "(\<forall>l. in_ranges (merged_ranges rs) l \<longleftrightarrow> in_ranges (sort rs) l) \<and> sorted_wrt (\<lambda>x y. snd x + 1 < fst y) (merged_ranges rs)
    \<and> (\<forall>(x, y)\<in>set (merged_ranges rs). 1 \<le> x \<and> x \<le> y \<and> y \<le> n)"
  proof (cases "sort rs")
    case Nil
    then show ?thesis by (simp add: merged_ranges_def)
  next
    case (Cons z zs)
    obtain s e where z: "z = (s, e)" by (cases z)
    have "sorted (map fst (sort rs))"
      unfolding sorted_map by (rule sorted_wrt_mono_rel [OF _ sorted_sort]) (auto simp: less_eq_prod_def)
    then have srt: "sorted (map fst ((s, e) # zs))" using Cons z by simp
    have mem: "1 \<le> x \<and> x \<le> y \<and> y \<le> n" if "(x, y) \<in> set ((s, e) # zs)" for x y
    proof -
      have "(x, y) \<in> set (sort rs)" using that Cons z by simp
      then show ?thesis using assms by simp
    qed
    have eq: "merged_ranges rs = merge_ranges (s, e) zs" "sort rs = (s, e) # zs" by (simp_all add: merged_ranges_def Cons z)
    have se: "s \<le> e" using mem [of s e] by simp
    have zs: "x \<le> y" if "(x, y) \<in> set zs" for x y using mem that by simp
    show ?thesis unfolding eq using merge_ranges_spec [OF srt se zs] mem by fastforce
  qed
  show "in_ranges (merged_ranges rs) l \<longleftrightarrow> in_ranges rs l" using all by (simp add: in_ranges_def)
  show "sorted_wrt (\<lambda>x y. snd x + 1 < fst y) (merged_ranges rs)" using all by blast
  show "1 \<le> x \<and> x \<le> y \<and> y \<le> n" if "(x, y) \<in> set (merged_ranges rs)" using all that by fastforce
qed

lemma parse_all_valid: "list_all DiffChunkV1_valid cs \<Longrightarrow> parse_all cs = Inr cs"
  by (induction cs) (simp_all add: DiffChunkV1_parse_def)

lemma parse_all_invalid: "\<not> list_all DiffChunkV1_valid cs \<Longrightarrow> parse_all cs = Inl ZodError"
  by (induction cs) (auto simp: DiffChunkV1_parse_def split: sum.split)

lemma window_chunk_valid:
  assumes "\<And>x. length (h_sha1 H x) = 20" "path \<noteq> []" "1 \<le> s" "s \<le> e"
  shows "DiffChunkV1_valid (window_chunk H path lines (s, e))"
  using computeChunkId_ok [OF assms(1)] assms(2,3,4)
  by (simp add: DiffChunkV1_valid_def window_chunk_def hunk_estimateTokens_def Let_def)

text \<open>When every changed range lies within a window of the file, the chunker returns chunks in the order
  of their lines, separated by at least one line, whose lines are exactly those within the window of a changed range; each chunk
  holds the lines of its range.\<close>

theorem hunk_chunk_windows:
  assumes "\<And>x. length (h_sha1 H x) = 20" and "path \<noteq> []" and "assertDiffSize body = None"
    and "lines = splitlinesKeepends (decodeText body)" and "lines \<noteq> []"
    and "\<And>hs he. (hs, he) \<in> set hunkRanges \<Longrightarrow> hs \<le> he \<and> hs - w \<le> int (length lines) \<and> 1 \<le> he + w" and "0 \<le> w"
  shows "\<exists>cs. hunk_chunk H w path body hunkRanges = Inr cs
    \<and> sorted_wrt (\<lambda>c d. dc_end_line c + 1 < dc_start_line d) cs
    \<and> (\<forall>l. (\<exists>c\<in>set cs. dc_start_line c \<le> l \<and> l \<le> dc_end_line c)
          \<longleftrightarrow> 1 \<le> l \<and> l \<le> int (length lines) \<and> (\<exists>(hs, he)\<in>set hunkRanges. hs - w \<le> l \<and> l \<le> he + w))
    \<and> list_all (\<lambda>c. DiffChunkV1_valid c \<and> dc_body c = concat (js_slice (nat (dc_start_line c - 1)) (nat (dc_end_line c)) lines)) cs"
proof -
  let ?n = "int (length lines)"
  let ?E = "map (expand_range w ?n) hunkRanges"
  let ?M = "merged_ranges ?E"
  let ?cs = "map (window_chunk H path lines) ?M"
  have n: "1 \<le> ?n" using assms(5) by (cases lines) simp_all
  have E: "1 \<le> x \<and> x \<le> y \<and> y \<le> ?n" if "(x, y) \<in> set ?E" for x y
  proof -
    from that obtain hs he where "(hs, he) \<in> set hunkRanges" "x = max 1 (hs - w)" "y = min ?n (he + w)" by (auto simp: expand_range_def)
    then show ?thesis using assms(6) [of hs he] assms(7) n by auto
  qed
  have cov: "in_ranges ?M l \<longleftrightarrow> in_ranges ?E l" for l by (rule merged_ranges_spec(1)) (rule E)
  have sep: "sorted_wrt (\<lambda>x y. snd x + 1 < fst y) ?M" by (rule merged_ranges_spec(2)) (rule E)
  have mem: "1 \<le> x \<and> x \<le> y" if "(x, y) \<in> set ?M" for x y using merged_ranges_spec(3) [OF E that] by blast
  have valid: "list_all DiffChunkV1_valid ?cs" using mem window_chunk_valid [OF assms(1,2)] by (auto simp: list_all_iff)
  have ok: "hunk_chunk H w path body hunkRanges = Inr ?cs"
  proof (cases "hunkRanges = []")
    case True
    then show ?thesis using assms(3) by (simp add: hunk_chunk_def merged_ranges_def)
  next
    case False
    have "\<not> (\<exists>(hs, he)\<in>set hunkRanges. he < hs)" using assms(6) by fastforce
    then show ?thesis using False assms(3,5) parse_all_valid [OF valid] by (simp add: hunk_chunk_def Let_def assms(4) [symmetric])
  qed
  have bounds: "dc_start_line (window_chunk H path lines r) = fst r" "dc_end_line (window_chunk H path lines r) = snd r"
    "dc_body (window_chunk H path lines r) = concat (js_slice (nat (fst r - 1)) (nat (snd r)) lines)" for r
    by (simp_all add: window_chunk_def Let_def split: prod.split)
  have "sorted_wrt (\<lambda>c d. dc_end_line c + 1 < dc_start_line d) ?cs" using sep by (simp add: sorted_wrt_map bounds)
  moreover have "(\<exists>c\<in>set ?cs. dc_start_line c \<le> l \<and> l \<le> dc_end_line c)
      \<longleftrightarrow> 1 \<le> l \<and> l \<le> ?n \<and> (\<exists>(hs, he)\<in>set hunkRanges. hs - w \<le> l \<and> l \<le> he + w)" for l
  proof -
    have "(\<exists>c\<in>set ?cs. dc_start_line c \<le> l \<and> l \<le> dc_end_line c) \<longleftrightarrow> in_ranges ?M l"
      by (simp add: bounds in_ranges_def case_prod_beta)
    also have "\<dots> \<longleftrightarrow> in_ranges ?E l" by (rule cov)
    also have "\<dots> \<longleftrightarrow> 1 \<le> l \<and> l \<le> ?n \<and> (\<exists>(hs, he)\<in>set hunkRanges. hs - w \<le> l \<and> l \<le> he + w)"
      by (simp add: in_ranges_def expand_range_def case_prod_beta) blast
    finally show ?thesis .
  qed
  moreover have "list_all (\<lambda>c. DiffChunkV1_valid c \<and> dc_body c = concat (js_slice (nat (dc_start_line c - 1)) (nat (dc_end_line c)) lines)) ?cs"
    using valid by (auto simp: list_all_iff bounds)
  ultimately show ?thesis using ok by blast
qed

theorem hunk_chunk_windows_witness:
  "\<exists>cs. hunk_chunk ex_hashes 0 ''a.go'' [97, 10, 98, 10] [(2, 2)] = Inr cs
    \<and> (\<exists>c\<in>set cs. dc_start_line c \<le> 2 \<and> 2 \<le> dc_end_line c) \<and> \<not> (\<exists>c\<in>set cs. dc_start_line c \<le> 1 \<and> 1 \<le> dc_end_line c)"
proof -
  have l: "[[97, 10], [98, 10]] = splitlinesKeepends (decodeText [97, 10, 98, 10])"
    by (simp add: decodeText_def utf16_def splitlinesKeepends_def LINE_BOUNDARY_CODEPOINTS_def)
  have a: "assertDiffSize [97, 10, 98, 10] = None" by (simp add: assertDiffSize_def MAX_DIFF_LINES_def)
  obtain cs where cs: "hunk_chunk ex_hashes 0 ''a.go'' [97, 10, 98, 10] [(2, 2)] = Inr cs"
    "\<forall>k. (\<exists>c\<in>set cs. dc_start_line c \<le> k \<and> k \<le> dc_end_line c) \<longleftrightarrow> 1 \<le> k \<and> k \<le> 2 \<and> 2 \<le> k \<and> k \<le> 2"
    using hunk_chunk_windows [of ex_hashes "''a.go''", OF _ _ a l, of "[(2, 2)]" 0] by (auto simp: ex_hashes_def)
  show ?thesis using cs(1) spec [OF cs(2), of 1] spec [OF cs(2), of 2] by simp
qed

text \<open>A changed range that starts more than a window and a line past the end of the file is not skipped: it
  becomes a chunk whose end precedes its start, which the contract rejects, and no chunk of the file is returned.\<close>

lemma merge_ranges_last:
  assumes "sorted (map fst ((s, e) # rs))" "e \<le> n" "\<And>x y. (x, y) \<in> set rs \<Longrightarrow> y \<le> n" "(a, b) \<in> set rs \<or> (a, b) = (s, e)" "n + 1 < a"
  shows "\<exists>(x, y)\<in>set (merge_ranges (s, e) rs). y < x"
  using assms
proof (induction rs arbitrary: s e)
  case (Cons z rs)
  obtain s' e' where z: "z = (s', e')" by (cases z)
  show ?case
  proof (cases "s' \<le> e + 1")
    case True
    show ?thesis
    proof (cases "n + 1 < s")
      case True
      have "merge_ranges (s, e) (z # rs) = (s, e) # merge_ranges (s', e') rs" using Cons.prems(1,2) True z by auto
      then show ?thesis using Cons.prems(2) True by auto
    next
      case False
      have "(a, b) \<in> set rs" using Cons.prems z True False by auto
      moreover have "max e e' \<le> n" using Cons.prems(2,3) z by auto
      moreover have "sorted (map fst ((s, max e e') # rs))" using Cons.prems(1) z by auto
      ultimately have "\<exists>(x, y)\<in>set (merge_ranges (s, max e e') rs). y < x" using Cons.IH [of s "max e e'"] Cons.prems(3,5) by auto
      then show ?thesis using \<open>s' \<le> e + 1\<close> z by simp
    qed
  next
    case False
    show ?thesis
    proof (cases "(a, b) = (s, e)")
      case True
      then show ?thesis using Cons.prems(2,5) False z by auto
    next
      case other: False
      have "\<exists>(x, y)\<in>set (merge_ranges (s', e') rs). y < x"
        using Cons.IH [of s' e'] Cons.prems z other by auto
      then show ?thesis using False z by auto
    qed
  qed
qed auto

theorem hunk_range_past_end_rejected:
  assumes "(hs, he) \<in> set hunkRanges" and "int (length (splitlinesKeepends (decodeText body))) + 1 < hs - w" and "decodeText body \<noteq> []"
  shows "\<exists>e. hunk_chunk H w path body hunkRanges = Inl e"
proof -
  let ?lines = "splitlinesKeepends (decodeText body)"
  let ?n = "int (length ?lines)"
  let ?E = "map (expand_range w ?n) hunkRanges"
  have ne: "?lines \<noteq> []" by (metis assms(3) concat.simps(1) concat_splitlines)
  have E: "y \<le> ?n" if "(x, y) \<in> set ?E" for x y using that by (auto simp: expand_range_def)
  have own: "expand_range w ?n (hs, he) \<in> set (sort ?E)" using assms(1) by force
  obtain s e zs where S: "sort ?E = (s, e) # zs" using own by (cases "sort ?E") auto
  have "sorted (map fst (sort ?E))"
    unfolding sorted_map by (rule sorted_wrt_mono_rel [OF _ sorted_sort]) (auto simp: less_eq_prod_def)
  then have srt: "sorted (map fst ((s, e) # zs))" by (simp add: S)
  have le: "y \<le> ?n" if "(x, y) \<in> set ((s, e) # zs)" for x y
  proof -
    have "(x, y) \<in> set (sort ?E)" using that by (simp only: S)
    then show ?thesis using E by simp
  qed
  obtain a b where ab: "expand_range w ?n (hs, he) = (a, b)" by fastforce
  have "?n + 1 < a" using ab assms(2) by (auto simp: expand_range_def)
  moreover have "(a, b) \<in> set zs \<or> (a, b) = (s, e)" using own by (auto simp: S ab)
  ultimately have "\<exists>(x, y)\<in>set (merged_ranges ?E). y < x"
    using merge_ranges_last [OF srt, of ?n a b] le by (auto simp: merged_ranges_def S)
  then have "\<not> list_all DiffChunkV1_valid (map (window_chunk H path ?lines) (merged_ranges ?E))"
    by (force simp: list_all_iff DiffChunkV1_valid_def window_chunk_def Let_def)
  then have "parse_all (map (window_chunk H path ?lines) (merged_ranges ?E)) = Inl ZodError" by (rule parse_all_invalid)
  moreover have "hunkRanges \<noteq> []" using assms(1) by auto
  ultimately show ?thesis using ne by (auto simp: hunk_chunk_def Let_def split: option.split)
qed

theorem hunk_range_past_end_rejected_witness: "\<exists>e. hunk_chunk ex_hashes 20 ''a.go'' [97, 10] [(1, 1), (30, 31)] = Inl e"
  by (rule hunk_range_past_end_rejected [of 30 31])
    (simp_all add: decodeText_def utf16_def splitlinesKeepends_def LINE_BOUNDARY_CODEPOINTS_def)

section \<open>Choice of a chunker\<close>

definition PY_EXTENSIONS :: "string list" where
  "PY_EXTENSIONS = [''.py'']"

definition TSJS_EXTENSIONS :: "string list" where
  "TSJS_EXTENSIONS = [''.ts'', ''.tsx'', ''.js'', ''.jsx'', ''.mjs'', ''.cjs'']"

definition extractExtension :: "string \<Rightarrow> string" where
  "extractExtension path =
     (let name = base_name path; ext = rev (takeWhile (\<lambda>c. c \<noteq> CHR ''.'') (rev name)) in
      if CHR ''.'' \<notin> set name \<or> length ext + 1 = length name then [] else ascii_lower (CHR ''.'' # ext))"

type_synonym chunker = "string \<Rightarrow> nat list \<Rightarrow> (int \<times> int) list \<Rightarrow> chunk_error + diff_chunk list"

record chunker_registry =
  cr_python :: chunker
  cr_tsjs :: chunker
  cr_fallback :: chunker

definition selectFor :: "chunker_registry \<Rightarrow> string \<Rightarrow> chunker" where
  "selectFor reg path =
     (let ext = extractExtension path in
      if ext \<in> set PY_EXTENSIONS then cr_python reg else if ext \<in> set TSJS_EXTENSIONS then cr_tsjs reg else cr_fallback reg)"

section \<open>Redaction of chunks\<close>

definition redactChunk :: "hashes \<Rightarrow> diff_chunk \<Rightarrow> chunk_error + diff_chunk" where
  "redactChunk H c =
     (let redactedBody = redactSecrets (fst (redactPii (dc_body c))) in
      if redactedBody = dc_body c then Inr c
      else DiffChunkV1_parse (c\<lparr>dc_chunk_id := computeChunkId H (dc_path c) (dc_start_line c) (dc_end_line c) redactedBody,
             dc_body := redactedBody, dc_token_estimate := hunk_estimateTokens redactedBody\<rparr>))"

fun doRedact :: "hashes \<Rightarrow> diff_chunk list \<Rightarrow> chunk_error + diff_chunk list" where
  "doRedact H [] = Inr []"
| "doRedact H (c # cs) =
     (case redactChunk H c of Inl e \<Rightarrow> Inl e | Inr c' \<Rightarrow> (case doRedact H cs of Inl e \<Rightarrow> Inl e | Inr cs' \<Rightarrow> Inr (c' # cs')))"

definition redacted :: "diff_chunk \<Rightarrow> diff_chunk \<Rightarrow> bool" where
  "redacted c c' \<longleftrightarrow> dc_body c' = redactSecrets (fst (redactPii (dc_body c))) \<and> dc_path c' = dc_path c \<and> dc_start_line c' = dc_start_line c
     \<and> dc_end_line c' = dc_end_line c \<and> DiffChunkV1_valid c'"

lemma redactChunk_ok:
  assumes "\<And>x. length (h_sha1 H x) = 20" "DiffChunkV1_valid c"
  shows "\<exists>c'. redactChunk H c = Inr c' \<and> redacted c c'"
proof (cases "redactSecrets (fst (redactPii (dc_body c))) = dc_body c")
  case True
  then show ?thesis using assms(2) by (simp add: redactChunk_def redacted_def)
next
  case False
  then show ?thesis using assms(2) computeChunkId_ok [OF assms(1)]
    by (simp add: redactChunk_def redacted_def DiffChunkV1_parse_def DiffChunkV1_valid_def hunk_estimateTokens_def Let_def)
qed

lemma doRedact_ok:
  assumes "\<And>x. length (h_sha1 H x) = 20" "list_all DiffChunkV1_valid cs"
  shows "\<exists>cs'. doRedact H cs = Inr cs' \<and> list_all2 redacted cs cs'"
  using assms(2)
proof (induction cs)
  case (Cons c cs)
  then obtain c' cs' where "redactChunk H c = Inr c'" "redacted c c'" "doRedact H cs = Inr cs'" "list_all2 redacted cs cs'"
    using redactChunk_ok [OF assms(1), of c] by auto
  then show ?case by simp
qed simp

section \<open>The activity\<close>

text \<open>\<^verbatim>\<open>resolve(workspace, rel)\<close> on segments of absolute paths, and the test that \<^verbatim>\<open>relative(workspace, target)\<close> leaves the
  workspace: the resolved segments do not extend those of the workspace.\<close>

definition path_step :: "string list \<Rightarrow> string \<Rightarrow> string list" where
  "path_step segs seg = (if seg = [] \<or> seg = ''.'' then segs else if seg = ''..'' then butlast segs else segs @ [seg])"

definition resolve :: "string list \<Rightarrow> string \<Rightarrow> string list" where
  "resolve workspace rel = foldl path_step (if prefix ''/'' rel then [] else workspace) (split_on CHR ''/'' rel)"

definition MAX_REVIEWED_FILE_BYTES :: nat where
  "MAX_REVIEWED_FILE_BYTES = 2 * 1024 * 1024"

definition isLikelyBinary :: "nat list \<Rightarrow> bool" where
  "isLikelyBinary body \<longleftrightarrow> 0 \<in> set (take 8192 body)"

fun chunk_files ::
  "chunker_registry \<Rightarrow> (string list \<rightharpoonup> nat list) \<Rightarrow> string list \<Rightarrow> (string \<times> (int \<times> int) list) list \<Rightarrow> string list \<Rightarrow> diff_chunk list
    \<Rightarrow> chunk_error + diff_chunk list" where
  "chunk_files reg fs workspace ranges [] acc = Inr acc"
| "chunk_files reg fs workspace ranges (relPath # files) acc =
     (let target = resolve workspace relPath in
      if \<not> prefix workspace target then Inl (WorkspacePathOutsideRootError relPath)
      else case fs target of
          None \<Rightarrow> chunk_files reg fs workspace ranges files acc
        | Some body \<Rightarrow>
            if MAX_REVIEWED_FILE_BYTES < length body \<or> isLikelyBinary body then chunk_files reg fs workspace ranges files acc
            else (case selectFor reg relPath relPath body (case map_of ranges relPath of Some rs \<Rightarrow> rs | None \<Rightarrow> []) of
                Inl e \<Rightarrow> Inl e
              | Inr cs \<Rightarrow> chunk_files reg fs workspace ranges files (acc @ cs)))"

definition doChunkAndRedact ::
  "hashes \<Rightarrow> chunker_registry \<Rightarrow> (string list \<rightharpoonup> nat list) \<Rightarrow> string list \<Rightarrow> (string \<times> (int \<times> int) list) list \<Rightarrow> string list
    \<Rightarrow> chunk_error + diff_chunk list" where
  "doChunkAndRedact H reg fs workspace ranges files =
     (case chunk_files reg fs workspace ranges files [] of Inl e \<Rightarrow> Inl e | Inr cs \<Rightarrow> doRedact H cs)"

lemma chunk_files_local:
  "(\<And>p. prefix workspace p \<Longrightarrow> fs p = fs' p) \<Longrightarrow> chunk_files reg fs workspace ranges files acc = chunk_files reg fs' workspace ranges files acc"
  by (induction files arbitrary: acc) (simp_all add: Let_def split: option.split sum.split)

text \<open>The result depends on the files under the workspace only: no path in the list of changed files,
  absolute or with \<^verbatim>\<open>..\<close>, makes the activity read another one.\<close>

theorem chunk_reads_workspace_only:
  assumes "\<And>p. prefix workspace p \<Longrightarrow> fs p = fs' p"
  shows "doChunkAndRedact H reg fs workspace ranges files = doChunkAndRedact H reg fs' workspace ranges files"
  using chunk_files_local [of workspace fs fs', OF assms] by (simp add: doChunkAndRedact_def)

theorem chunk_reads_workspace_only_witness:
  "doChunkAndRedact ex_hashes \<lparr>cr_python = hunk_chunk ex_hashes 20, cr_tsjs = hunk_chunk ex_hashes 20, cr_fallback = hunk_chunk ex_hashes 20\<rparr>
      [[''ws'', ''a.go''] \<mapsto> [97, 10], [''etc'', ''passwd''] \<mapsto> [98]] [''ws''] [(''a.go'', [(1, 1)])] [''a.go'', ''../etc/passwd'']
    = doChunkAndRedact ex_hashes \<lparr>cr_python = hunk_chunk ex_hashes 20, cr_tsjs = hunk_chunk ex_hashes 20, cr_fallback = hunk_chunk ex_hashes 20\<rparr>
      [[''ws'', ''a.go''] \<mapsto> [97, 10]] [''ws''] [(''a.go'', [(1, 1)])] [''a.go'', ''../etc/passwd'']"
  by (rule chunk_reads_workspace_only) auto

text \<open>A valid chunk list is redacted chunk by chunk: the activity adds no error of its own, and every chunk it
  returns is valid and holds the redacted body at the original place.\<close>

lemma chunk_files_valid:
  assumes "\<And>path body rs cs. selectFor reg path path body rs = Inr cs \<Longrightarrow> list_all DiffChunkV1_valid cs" "list_all DiffChunkV1_valid acc"
  shows "chunk_files reg fs workspace ranges files acc = Inr cs \<Longrightarrow> list_all DiffChunkV1_valid cs"
  using assms(2)
  by (induction files arbitrary: acc) (auto simp: Let_def split: if_splits option.splits sum.splits dest: assms(1))

lemma hunk_chunk_valid: "hunk_chunk H w path body rs = Inr cs \<Longrightarrow> list_all DiffChunkV1_valid cs"
proof -
  have "parse_all xs = Inr cs \<Longrightarrow> list_all DiffChunkV1_valid cs" for xs
    by (cases "list_all DiffChunkV1_valid xs") (auto simp: parse_all_valid parse_all_invalid)
  then show "hunk_chunk H w path body rs = Inr cs \<Longrightarrow> list_all DiffChunkV1_valid cs"
    by (auto simp: hunk_chunk_def Let_def split: option.splits if_splits)
qed

end
