(* ===== verification/Fan_Out.thy ===== *)
theory Fan_Out
  imports Chunks
begin

text \<open>
  The bounded fan-out of chunk reviews, \<^verbatim>\<open>review/pipeline/parallelism.ts\<close>, and the stage wrapper of
  \<^verbatim>\<open>review/pipeline/degradation.ts\<close>. A pool of workers pulls chunk indices from a shared cursor. A step of the pool is one
  dispatch settling, followed by what its worker does before it awaits again; the order in which dispatches settle
  is left open, so that the theorems hold for every interleaving.
\<close>

section \<open>Faults\<close>

datatype stage_error =
    ErrorObject string string
  | OtherValue string

fun error_name :: "stage_error \<Rightarrow> string option" where
  "error_name (ErrorObject name msg) = Some name"
| "error_name (OtherValue v) = None"

definition isCancellation :: "stage_error \<Rightarrow> bool" where
  "isCancellation exc \<longleftrightarrow> error_name exc = Some ''AbortError'' \<or> error_name exc = Some ''TerminalCancelError''"

definition FANOUT_ABORT_CLASS_ERROR_NAMES :: "string list" where
  "FANOUT_ABORT_CLASS_ERROR_NAMES = [''GitHubRateLimitExceeded'', ''LlmRateLimitError'', ''TerminalCancelError'']"

text \<open>A fault that ends the fan-out: every fault without a failure slot; with one, a cancellation or an abort-class
  error.\<close>

definition aborting :: "bool \<Rightarrow> stage_error \<Rightarrow> bool" where
  "aborting failureSlot err \<longleftrightarrow> \<not> failureSlot \<or> isCancellation err
     \<or> (case error_name err of Some nm \<Rightarrow> nm \<in> set FANOUT_ABORT_CLASS_ERROR_NAMES | None \<Rightarrow> False)"

section \<open>The pool\<close>

record ('f, 'i) chunk_response =
  rs_findings :: "'f list"
  rs_arbitration_intents :: "'i list"

record chunk_failure =
  cf_chunkIndex :: nat
  cf_chunkId :: string
  cf_path :: string
  cf_error :: stage_error

record ('f, 'i) fan_env =
  fe_chunks :: "diff_chunk list"
  fe_concurrency :: int
  fe_failureSlot :: bool
  fe_outcome :: "nat \<Rightarrow> stage_error + ('f, 'i) chunk_response"

datatype worker = Awaiting nat | Returned | Threw stage_error

record ('f, 'i) pool =
  po_cursor :: nat
  po_aborted :: bool
  po_slots :: "('f list \<times> 'i list) option list"
  po_failures :: "chunk_failure option list"
  po_workers :: "worker list"
  po_rejection :: "stage_error option"

definition coerceChunkResult :: "('f, 'i) chunk_response \<Rightarrow> 'f list \<times> 'i list" where
  "coerceChunkResult raw = (rs_findings raw, rs_arbitration_intents raw)"

text \<open>The head of the worker's loop: take the next index, return when it is past the chunks or a peer has
  failed, else dispatch.\<close>

definition pull :: "('f, 'i) fan_env \<Rightarrow> ('f, 'i) pool \<Rightarrow> worker \<times> ('f, 'i) pool" where
  "pull env p =
     (let idx = po_cursor p; p' = p\<lparr>po_cursor := Suc idx\<rparr> in
      if idx < length (fe_chunks env) then (if po_aborted p then (Returned, p') else (Awaiting idx, p')) else (Returned, p'))"

definition set_worker :: "nat \<Rightarrow> worker \<times> ('f, 'i) pool \<Rightarrow> ('f, 'i) pool" where
  "set_worker w r = (snd r)\<lparr>po_workers := (po_workers (snd r))[w := fst r]\<rparr>"

definition recordFailureSlot :: "('f, 'i) fan_env \<Rightarrow> nat \<Rightarrow> stage_error \<Rightarrow> ('f, 'i) pool \<Rightarrow> ('f, 'i) pool" where
  "recordFailureSlot env idx err p = p\<lparr>po_failures := (po_failures p)[idx :=
     Some \<lparr>cf_chunkIndex = idx, cf_chunkId = dc_chunk_id (fe_chunks env ! idx), cf_path = dc_path (fe_chunks env ! idx), cf_error = err\<rparr>]\<rparr>"

text \<open>What the worker does when its dispatch has settled.\<close>

definition settle :: "('f, 'i) fan_env \<Rightarrow> nat \<Rightarrow> nat \<Rightarrow> ('f, 'i) pool \<Rightarrow> ('f, 'i) pool" where
  "settle env w idx p =
     (case fe_outcome env idx of
        Inr raw \<Rightarrow> set_worker w (pull env (p\<lparr>po_slots := (po_slots p)[idx := Some (coerceChunkResult raw)]\<rparr>))
      | Inl err \<Rightarrow>
          if aborting (fe_failureSlot env) err
          then set_worker w (Threw err, p\<lparr>po_aborted := True,
                 po_rejection := (case po_rejection p of Some e \<Rightarrow> Some e | None \<Rightarrow> Some err)\<rparr>)
          else set_worker w (pull env (recordFailureSlot env idx err p)))"

inductive step :: "('f, 'i) fan_env \<Rightarrow> ('f, 'i) pool \<Rightarrow> ('f, 'i) pool \<Rightarrow> bool" for env where
  settles: "w < length (po_workers p) \<Longrightarrow> po_workers p ! w = Awaiting idx \<Longrightarrow> step env p (settle env w idx p)"

text \<open>The workers are started one after another; each runs up to its first dispatch.\<close>

fun spawn :: "('f, 'i) fan_env \<Rightarrow> nat \<Rightarrow> ('f, 'i) pool \<Rightarrow> ('f, 'i) pool" where
  "spawn env 0 p = p"
| "spawn env (Suc k) p = (case pull env p of (w, p') \<Rightarrow> spawn env k (p'\<lparr>po_workers := po_workers p' @ [w]\<rparr>))"

definition pool_size :: "('f, 'i) fan_env \<Rightarrow> nat" where
  "pool_size env = min (nat (fe_concurrency env)) (length (fe_chunks env))"

definition start :: "('f, 'i) fan_env \<Rightarrow> ('f, 'i) pool" where
  "start env = spawn env (pool_size env)
     \<lparr>po_cursor = 0, po_aborted = False, po_slots = replicate (length (fe_chunks env)) None,
      po_failures = replicate (length (fe_chunks env)) None, po_workers = [], po_rejection = None\<rparr>"

definition settled_pool :: "('f, 'i) pool \<Rightarrow> bool" where
  "settled_pool p \<longleftrightarrow> list_all (\<lambda>w. case w of Awaiting _ \<Rightarrow> False | _ \<Rightarrow> True) (po_workers p)"

text \<open>After \<^verbatim>\<open>Promise.all\<close>: the rejection, or the recorded failures and the results, both in the order of the chunks.\<close>

fun fan_in :: "('f list \<times> 'i list) option list \<Rightarrow> chunk_failure option list \<Rightarrow> stage_error + 'f list \<times> 'i list" where
  "fan_in [] fs = Inr ([], [])"
| "fan_in (slot # slots) fs =
     (case slot of
        None \<Rightarrow>
          if fs \<noteq> [] \<and> hd fs \<noteq> None then fan_in slots (tl fs)
          else Inl (ErrorObject ''Error'' ''fanOutReview: result slot unexpectedly empty after fan-in'')
      | Some (findings, intents) \<Rightarrow>
          (case fan_in slots (tl fs) of Inl e \<Rightarrow> Inl e | Inr (outF, outI) \<Rightarrow> Inr (findings @ outF, intents @ outI)))"

definition pool_result :: "('f, 'i) fan_env \<Rightarrow> ('f, 'i) pool \<Rightarrow> stage_error + ('f list \<times> 'i list) \<times> chunk_failure list" where
  "pool_result env p =
     (case po_rejection p of
        Some e \<Rightarrow> Inl e
      | None \<Rightarrow> (case fan_in (po_slots p) (po_failures p) of
          Inl e \<Rightarrow> Inl e
        | Inr out \<Rightarrow> Inr (out, if fe_failureSlot env then List.map_filter id (po_failures p) else [])))"

text \<open>The whole call: its guards, then any run of the pool to its end.\<close>

inductive fanOutReview :: "('f, 'i) fan_env \<Rightarrow> stage_error + ('f list \<times> 'i list) \<times> chunk_failure list \<Rightarrow> bool" for env where
  no_concurrency: "fe_concurrency env \<le> 0 \<Longrightarrow> fanOutReview env (Inl (ErrorObject ''Error'' ''concurrency must be positive''))"
| no_chunks: "0 < fe_concurrency env \<Longrightarrow> fe_chunks env = [] \<Longrightarrow> fanOutReview env (Inr (([], []), []))"
| pool_run: "0 < fe_concurrency env \<Longrightarrow> fe_chunks env \<noteq> [] \<Longrightarrow> (step env)\<^sup>*\<^sup>* (start env) p \<Longrightarrow> settled_pool p
    \<Longrightarrow> fanOutReview env (pool_result env p)"

inductive_cases step_elim: "step env p p'"
inductive_cases fanOut_elim: "fanOutReview env r"

section \<open>Invariant\<close>

definition done_index :: "('f, 'i) fan_env \<Rightarrow> ('f, 'i) pool \<Rightarrow> nat \<Rightarrow> bool" where
  "done_index env p i \<longleftrightarrow> (\<exists>raw. fe_outcome env i = Inr raw \<and> po_slots p ! i = Some (coerceChunkResult raw) \<and> po_failures p ! i = None)
     \<or> (\<exists>err. fe_outcome env i = Inl err \<and> \<not> aborting (fe_failureSlot env) err \<and> po_slots p ! i = None
          \<and> po_failures p ! i = Some \<lparr>cf_chunkIndex = i, cf_chunkId = dc_chunk_id (fe_chunks env ! i), cf_path = dc_path (fe_chunks env ! i), cf_error = err\<rparr>)"

definition pending_index :: "('f, 'i) pool \<Rightarrow> nat \<Rightarrow> bool" where
  "pending_index p i \<longleftrightarrow> po_slots p ! i = None \<and> po_failures p ! i = None"

definition awaiting_ok :: "('f, 'i) fan_env \<Rightarrow> ('f, 'i) pool \<Rightarrow> bool" where
  "awaiting_ok env p \<longleftrightarrow>
     (\<forall>w i. w < length (po_workers p) \<longrightarrow> po_workers p ! w = Awaiting i \<longrightarrow> i < length (fe_chunks env) \<and> i < po_cursor p \<and> pending_index p i)
     \<and> (\<forall>w v i. w < length (po_workers p) \<longrightarrow> v < length (po_workers p) \<longrightarrow> po_workers p ! w = Awaiting i \<longrightarrow> po_workers p ! v = Awaiting i \<longrightarrow> w = v)
     \<and> (\<forall>i < length (fe_chunks env). po_cursor p \<le> i \<longrightarrow> pending_index p i)"

definition rejection_ok :: "('f, 'i) fan_env \<Rightarrow> ('f, 'i) pool \<Rightarrow> bool" where
  "rejection_ok env p \<longleftrightarrow> (po_aborted p \<longleftrightarrow> po_rejection p \<noteq> None)
     \<and> (\<forall>e. po_rejection p = Some e \<longrightarrow> aborting (fe_failureSlot env) e \<and> (\<exists>i < length (fe_chunks env). fe_outcome env i = Inl e))"

definition progress_ok :: "('f, 'i) fan_env \<Rightarrow> ('f, 'i) pool \<Rightarrow> bool" where
  "progress_ok env p \<longleftrightarrow> po_aborted p \<or>
     (\<forall>i < length (fe_chunks env). i < po_cursor p \<longrightarrow> Awaiting i \<in> set (po_workers p) \<or> done_index env p i)
     \<and> (\<forall>w \<in> set (po_workers p). (\<forall>e. w \<noteq> Threw e) \<and> (w = Returned \<longrightarrow> length (fe_chunks env) \<le> po_cursor p))"

definition pool_inv :: "('f, 'i) fan_env \<Rightarrow> ('f, 'i) pool \<Rightarrow> bool" where
  "pool_inv env p \<longleftrightarrow> length (po_slots p) = length (fe_chunks env) \<and> length (po_failures p) = length (fe_chunks env)
     \<and> length (po_workers p) \<le> pool_size env \<and> awaiting_ok env p \<and> rejection_ok env p \<and> progress_ok env p"

lemma pull_cases:
  "pull env p = (if po_cursor p < length (fe_chunks env) \<and> \<not> po_aborted p then Awaiting (po_cursor p) else Returned, p\<lparr>po_cursor := Suc (po_cursor p)\<rparr>)"
  by (simp add: pull_def Let_def)

text \<open>A dispatch that leaves a result or a recorded failure keeps the invariant.\<close>

lemma pull_keeps_inv:
  assumes inv: "pool_inv env p" and w: "w < length (po_workers p)" "po_workers p ! w = Awaiting idx"
    and q: "po_cursor q = po_cursor p" "po_aborted q = po_aborted p" "po_workers q = po_workers p" "po_rejection q = po_rejection p"
      "length (po_slots q) = length (po_slots p)" "length (po_failures q) = length (po_failures p)"
      "\<And>i. i \<noteq> idx \<Longrightarrow> po_slots q ! i = po_slots p ! i \<and> po_failures q ! i = po_failures p ! i" "done_index env q idx"
  shows "pool_inv env (set_worker w (pull env q))"
proof -
  let ?r = "set_worker w (pull env q)"
  let ?new = "if po_cursor p < length (fe_chunks env) \<and> \<not> po_aborted p then Awaiting (po_cursor p) else Returned"
  have aw: "awaiting_ok env p" and rj: "rejection_ok env p" and pg: "progress_ok env p" using inv by (simp_all add: pool_inv_def)
  have r: "po_workers ?r = (po_workers p)[w := ?new]" "po_cursor ?r = Suc (po_cursor p)" "po_aborted ?r = po_aborted p"
    "po_rejection ?r = po_rejection p" "po_slots ?r = po_slots q" "po_failures ?r = po_failures q"
    by (simp_all add: set_worker_def pull_cases q(1-4))
  have idx: "idx < length (fe_chunks env)" "idx < po_cursor p" using aw w by (auto simp: awaiting_ok_def)
  have pend: "pending_index ?r i \<longleftrightarrow> pending_index p i" if "i \<noteq> idx" for i using q(7) [OF that] by (simp add: pending_index_def r)
  have dn: "done_index env ?r i" if "done_index env p i" "i \<noteq> idx" for i using q(7) [OF that(2)] that(1) by (simp add: done_index_def r)
  have dnx: "done_index env ?r idx" using q(8) by (simp add: done_index_def r)
  have other: "i \<noteq> idx" if "v < length (po_workers p)" "po_workers p ! v = Awaiting i" "v \<noteq> w" for v i
    using aw w that unfolding awaiting_ok_def by metis
  have look: "v = w \<and> i = po_cursor p \<and> po_cursor p < length (fe_chunks env) \<or> v \<noteq> w \<and> po_workers p ! v = Awaiting i"
    if "v < length (po_workers p)" "po_workers ?r ! v = Awaiting i" for v i
    using that w(1) by (cases "v = w") (auto simp: r split: if_splits)
  have low: "i < po_cursor p" if "v < length (po_workers p)" "po_workers p ! v = Awaiting i" for v i
    using aw that by (auto simp: awaiting_ok_def)
  have "awaiting_ok env ?r"
    unfolding awaiting_ok_def
  proof (intro conjI allI impI)
    fix v i
    assume v: "v < length (po_workers ?r)" "po_workers ?r ! v = Awaiting i"
    then consider (new) "v = w" "i = po_cursor p" "po_cursor p < length (fe_chunks env)" | (old) "v \<noteq> w" "po_workers p ! v = Awaiting i" "v < length (po_workers p)"
      using look [of v i] by (auto simp: r)
    then have "i < length (fe_chunks env) \<and> i < Suc (po_cursor p) \<and> pending_index p i \<and> i \<noteq> idx"
    proof cases
      case new
      then show ?thesis using aw idx by (auto simp: awaiting_ok_def)
    next
      case old
      then show ?thesis using aw other [of v i] unfolding awaiting_ok_def by (metis less_SucI)
    qed
    then show "i < length (fe_chunks env)" "i < po_cursor ?r" "pending_index ?r i" using pend by (simp_all add: r)
  next
    fix v u i
    assume "v < length (po_workers ?r)" "u < length (po_workers ?r)" "po_workers ?r ! v = Awaiting i" "po_workers ?r ! u = Awaiting i"
    then show "v = u" using look [of v i] look [of u i] low [of v i] low [of u i] aw unfolding awaiting_ok_def r length_list_update
      by (metis less_irrefl)
  next
    fix i
    assume "i < length (fe_chunks env)" "po_cursor ?r \<le> i"
    then show "pending_index ?r i" using aw pend [of i] idx by (auto simp: awaiting_ok_def r)
  qed
  moreover have "rejection_ok env ?r" using rj by (simp add: rejection_ok_def r)
  moreover have "progress_ok env ?r"
  proof (cases "po_aborted p")
    case True
    then show ?thesis by (simp add: progress_ok_def r)
  next
    case False
    have "Awaiting i \<in> set (po_workers ?r) \<or> done_index env ?r i" if "i < length (fe_chunks env)" "i < po_cursor ?r" for i
    proof -
      from that(2) have "i < Suc (po_cursor p)" by (simp add: r)
      then consider (new) "i = po_cursor p" | (own) "i = idx" | (old) "i < po_cursor p" "i \<noteq> idx" by (metis less_Suc_eq)
      then show ?thesis
      proof cases
        case new
        then show ?thesis using that(1) False w(1) by (auto simp: r set_update_memI)
      next
        case own
        then show ?thesis using dnx by simp
      next
        case old
        then have "Awaiting i \<in> set (po_workers p) \<or> done_index env p i" using pg False that(1) by (auto simp: progress_ok_def)
        then show ?thesis
        proof
          assume "Awaiting i \<in> set (po_workers p)"
          then obtain v where "v < length (po_workers p)" "po_workers p ! v = Awaiting i" by (auto simp: in_set_conv_nth)
          moreover have "v \<noteq> w" using calculation w(2) old(2) by auto
          ultimately have "(po_workers ?r) ! v = Awaiting i" "v < length (po_workers ?r)" by (simp_all add: r)
          then show ?thesis by (metis nth_mem)
        next
          assume "done_index env p i"
          then show ?thesis using dn old(2) by blast
        qed
      qed
    qed
    moreover have "(\<forall>e. x \<noteq> Threw e) \<and> (x = Returned \<longrightarrow> length (fe_chunks env) \<le> po_cursor ?r)" if "x \<in> set (po_workers ?r)" for x
    proof -
      have "x = ?new \<or> x \<in> set (po_workers p)" using that set_update_subset_insert [of "po_workers p" w ?new] by (auto simp: r)
      then show ?thesis using pg False by (fastforce simp: progress_ok_def r split: if_splits)
    qed
    ultimately show ?thesis by (simp add: progress_ok_def)
  qed
  ultimately show ?thesis using inv q(5,6) by (simp add: pool_inv_def r)
qed

lemma throw_keeps_inv:
  assumes inv: "pool_inv env p" and w: "w < length (po_workers p)" "po_workers p ! w = Awaiting idx"
    and e: "fe_outcome env idx = Inl err" "aborting (fe_failureSlot env) err"
  shows "pool_inv env (set_worker w (Threw err, p\<lparr>po_aborted := True, po_rejection := (case po_rejection p of Some e \<Rightarrow> Some e | None \<Rightarrow> Some err)\<rparr>))"
proof -
  let ?r = "set_worker w (Threw err, p\<lparr>po_aborted := True, po_rejection := (case po_rejection p of Some e \<Rightarrow> Some e | None \<Rightarrow> Some err)\<rparr>)"
  have aw: "awaiting_ok env p" and rj: "rejection_ok env p" using inv by (simp_all add: pool_inv_def)
  have idx: "idx < length (fe_chunks env)" using aw w by (auto simp: awaiting_ok_def)
  have r: "po_workers ?r = (po_workers p)[w := Threw err]" "po_cursor ?r = po_cursor p" "po_aborted ?r"
    "po_rejection ?r = (case po_rejection p of Some e \<Rightarrow> Some e | None \<Rightarrow> Some err)" "po_slots ?r = po_slots p" "po_failures ?r = po_failures p"
    by (simp_all add: set_worker_def)
  have "awaiting_ok env ?r"
  proof -
    have old: "po_workers p ! v = Awaiting i" if "v < length (po_workers p)" "(po_workers p)[w := Threw err] ! v = Awaiting i" for v i
      using that w(1) by (cases "v = w") simp_all
    show ?thesis using aw old unfolding awaiting_ok_def pending_index_def r length_list_update by meson
  qed
  moreover have "rejection_ok env ?r"
    using rj e idx by (auto simp: rejection_ok_def r split: option.splits)
  moreover have "progress_ok env ?r" by (simp add: progress_ok_def r)
  ultimately show ?thesis using inv by (simp add: pool_inv_def r)
qed

lemma step_keeps_inv:
  assumes "step env p p'" "pool_inv env p"
  shows "pool_inv env p'"
  using assms(1)
proof (rule step_elim)
  fix w idx
  assume p': "p' = settle env w idx p" and w: "w < length (po_workers p)" "po_workers p ! w = Awaiting idx"
  have idx: "idx < length (fe_chunks env)" "pending_index p idx" using assms(2) w by (auto simp: pool_inv_def awaiting_ok_def)
  have len: "length (po_slots p) = length (fe_chunks env)" "length (po_failures p) = length (fe_chunks env)" using assms(2) by (simp_all add: pool_inv_def)
  show ?thesis
  proof (cases "fe_outcome env idx")
    case (Inr raw)
    have "pool_inv env (set_worker w (pull env (p\<lparr>po_slots := (po_slots p)[idx := Some (coerceChunkResult raw)]\<rparr>)))"
      by (rule pull_keeps_inv [OF assms(2) w]) (use idx len Inr in \<open>simp_all add: done_index_def pending_index_def\<close>)
    then show ?thesis by (simp add: p' settle_def Inr)
  next
    case (Inl err)
    show ?thesis
    proof (cases "aborting (fe_failureSlot env) err")
      case True
      then show ?thesis using throw_keeps_inv [OF assms(2) w Inl True] by (simp add: p' settle_def Inl)
    next
      case False
      have "pool_inv env (set_worker w (pull env (recordFailureSlot env idx err p)))"
        by (rule pull_keeps_inv [OF assms(2) w])
          (use idx len Inl False in \<open>simp_all add: done_index_def pending_index_def recordFailureSlot_def\<close>)
      then show ?thesis using False by (simp add: p' settle_def Inl)
    qed
  qed
qed

lemma spawn_inv:
  "pool_inv env p \<Longrightarrow> length (po_workers p) + k \<le> pool_size env \<Longrightarrow> pool_inv env (spawn env k p) \<and> length (po_workers (spawn env k p)) = length (po_workers p) + k"
proof (induction k arbitrary: p)
  case (Suc k)
  let ?new = "if po_cursor p < length (fe_chunks env) \<and> \<not> po_aborted p then Awaiting (po_cursor p) else Returned"
  let ?r = "p\<lparr>po_cursor := Suc (po_cursor p), po_workers := po_workers p @ [?new]\<rparr>"
  have sp: "spawn env (Suc k) p = spawn env k ?r" by (simp add: pull_cases)
  have aw: "awaiting_ok env p" and rj: "rejection_ok env p" and pg: "progress_ok env p" using Suc.prems by (simp_all add: pool_inv_def)
  have look: "v = length (po_workers p) \<and> i = po_cursor p \<and> po_cursor p < length (fe_chunks env) \<or> v < length (po_workers p) \<and> po_workers p ! v = Awaiting i"
    if "v < length (po_workers ?r)" "po_workers ?r ! v = Awaiting i" for v i
    using that by (cases "v = length (po_workers p)") (auto simp: nth_append split: if_splits)
  have low: "i < po_cursor p" if "v < length (po_workers p)" "po_workers p ! v = Awaiting i" for v i
    using aw that by (auto simp: awaiting_ok_def)
  have "awaiting_ok env ?r"
    unfolding awaiting_ok_def
  proof (intro conjI allI impI)
    fix v i
    assume "v < length (po_workers ?r)" "po_workers ?r ! v = Awaiting i"
    then have "i < length (fe_chunks env) \<and> i < Suc (po_cursor p) \<and> pending_index p i"
      using look [of v i] aw unfolding awaiting_ok_def by (metis less_Suc_eq order_refl)
    then show "i < length (fe_chunks env)" "i < po_cursor ?r" "pending_index ?r i" by (simp_all add: pending_index_def)
  next
    fix v u i
    assume "v < length (po_workers ?r)" "u < length (po_workers ?r)" "po_workers ?r ! v = Awaiting i" "po_workers ?r ! u = Awaiting i"
    then show "v = u" using look [of v i] look [of u i] low [of v i] low [of u i] aw unfolding awaiting_ok_def by (metis less_irrefl)
  next
    fix i
    assume "i < length (fe_chunks env)" "po_cursor ?r \<le> i"
    then show "pending_index ?r i" using aw by (auto simp: awaiting_ok_def pending_index_def)
  qed
  moreover have "rejection_ok env ?r" using rj by (simp add: rejection_ok_def)
  moreover have "progress_ok env ?r"
    using pg by (auto simp: progress_ok_def done_index_def less_Suc_eq)
  ultimately have "pool_inv env ?r" using Suc.prems by (simp add: pool_inv_def)
  moreover have "length (po_workers ?r) = Suc (length (po_workers p))" by simp
  ultimately show ?case unfolding sp using Suc.IH [of ?r] Suc.prems(2) by (simp del: spawn.simps)
qed simp

lemma start_inv: "pool_inv env (start env)" and start_workers: "length (po_workers (start env)) = pool_size env"
proof -
  let ?p = "\<lparr>po_cursor = 0, po_aborted = False, po_slots = replicate (length (fe_chunks env)) None,
      po_failures = replicate (length (fe_chunks env)) None, po_workers = [], po_rejection = None\<rparr> :: ('a, 'b) pool"
  have "pool_inv env ?p"
    by (simp add: pool_inv_def awaiting_ok_def rejection_ok_def progress_ok_def pending_index_def)
  then show "pool_inv env (start env)" "length (po_workers (start env)) = pool_size env"
    using spawn_inv [of env ?p "pool_size env"] by (simp_all add: start_def)
qed

lemma settle_workers [simp]: "length (po_workers (settle env w idx p)) = length (po_workers p)"
  by (simp add: settle_def set_worker_def pull_cases recordFailureSlot_def split: sum.split)

lemma step_workers: "step env p p' \<Longrightarrow> length (po_workers p') = length (po_workers p)"
  by (elim step_elim) simp

lemma reachable_inv:
  assumes "(step env)\<^sup>*\<^sup>* (start env) p"
  shows "pool_inv env p \<and> length (po_workers p) = pool_size env"
  using assms by (induction rule: rtranclp_induct) (auto simp: start_inv start_workers step_keeps_inv step_workers)

section \<open>Every run ends\<close>

text \<open>Chunks not yet settled: those a worker awaits and those not pulled.\<close>

definition awaited :: "('f, 'i) pool \<Rightarrow> nat" where
  "awaited p = length (filter (\<lambda>w. case w of Awaiting _ \<Rightarrow> True | _ \<Rightarrow> False) (po_workers p))"

definition remaining :: "('f, 'i) fan_env \<Rightarrow> ('f, 'i) pool \<Rightarrow> nat" where
  "remaining env p = (length (fe_chunks env) - po_cursor p) + awaited p"

lemma filter_update:
  "w < length xs \<Longrightarrow> P (xs ! w) \<Longrightarrow> length (filter P (xs[w := x])) + 1 = length (filter P xs) + (if P x then 1 else 0)"
proof (induction xs arbitrary: w)
  case (Cons y ys)
  then show ?case by (cases w) auto
qed simp

lemma step_decreases:
  assumes "step env p p'"
  shows "remaining env p' < remaining env p"
  using assms
proof (rule step_elim)
  fix w idx
  assume p': "p' = settle env w idx p" and w: "w < length (po_workers p)" "po_workers p ! w = Awaiting idx"
  let ?P = "\<lambda>w. case w of Awaiting _ \<Rightarrow> True | _ \<Rightarrow> False"
  have cnt: "length (filter ?P ((po_workers p)[w := x])) + 1 = length (filter ?P (po_workers p)) + (if ?P x then 1 else 0)" for x
    using filter_update [of w "po_workers p" ?P x] w by simp
  have pulled: "remaining env (set_worker w (pull env q)) < remaining env p" if "po_cursor q = po_cursor p" "po_workers q = po_workers p" for q
    using cnt [of "fst (pull env q)"] that by (auto simp: remaining_def awaited_def set_worker_def pull_cases split: if_splits)
  show ?thesis
  proof (cases "fe_outcome env idx")
    case (Inr raw)
    then show ?thesis by (simp add: p' settle_def pulled)
  next
    case (Inl err)
    have "remaining env (set_worker w (Threw err, p\<lparr>po_aborted := True, po_rejection := e\<rparr>)) < remaining env p" for e
      using cnt [of "Threw err"] by (simp add: remaining_def awaited_def set_worker_def)
    then show ?thesis using Inl by (simp add: p' settle_def pulled recordFailureSlot_def)
  qed
qed

lemma unsettled_steps: "\<not> settled_pool p \<Longrightarrow> \<exists>p'. step env p p'"
proof -
  assume "\<not> settled_pool p"
  then obtain x where x: "x \<in> set (po_workers p)" "\<not> (case x of Awaiting _ \<Rightarrow> False | _ \<Rightarrow> True)"
    by (auto simp: settled_pool_def list_all_iff)
  obtain idx where "x = Awaiting idx" using x(2) by (cases x) simp_all
  then obtain w where "w < length (po_workers p)" "po_workers p ! w = Awaiting idx" using x(1) by (auto simp: in_set_conv_nth)
  then show ?thesis by (blast intro: step.settles)
qed

lemma run_ends: "\<exists>p'. (step env)\<^sup>*\<^sup>* p p' \<and> settled_pool p'"
proof (induction "remaining env p" arbitrary: p rule: less_induct)
  case less
  show ?case
  proof (cases "settled_pool p")
    case False
    then obtain q where q: "step env p q" using unsettled_steps by blast
    then show ?thesis using less [OF step_decreases [OF q]] by (meson converse_rtranclp_into_rtranclp)
  qed blast
qed

section \<open>What the fan-out returns\<close>

text \<open>The sequential reference: the chunks one after another, in input order.\<close>

fun seq_findings :: "(stage_error + ('f, 'i) chunk_response) list \<Rightarrow> 'f list \<times> 'i list" where
  "seq_findings [] = ([], [])"
| "seq_findings (out # outs) =
     (case out of Inl e \<Rightarrow> seq_findings outs
      | Inr raw \<Rightarrow> (case seq_findings outs of (fs, is) \<Rightarrow> (rs_findings raw @ fs, rs_arbitration_intents raw @ is)))"

definition seq_failures :: "('f, 'i) fan_env \<Rightarrow> chunk_failure list" where
  "seq_failures env = List.map_filter (\<lambda>i. case fe_outcome env i of
       Inl e \<Rightarrow> Some \<lparr>cf_chunkIndex = i, cf_chunkId = dc_chunk_id (fe_chunks env ! i), cf_path = dc_path (fe_chunks env ! i), cf_error = e\<rparr>
     | Inr raw \<Rightarrow> None) [0..<length (fe_chunks env)]"

definition outcomes :: "('f, 'i) fan_env \<Rightarrow> (stage_error + ('f, 'i) chunk_response) list" where
  "outcomes env = map (fe_outcome env) [0..<length (fe_chunks env)]"

lemma map_filter_id: "List.map_filter id (map f xs) = List.map_filter f xs"
  by (induction xs) (simp_all add: map_filter_simps split: option.split)

lemma settled_done:
  assumes "pool_inv env p" "length (po_workers p) = pool_size env" "0 < pool_size env" "settled_pool p" "po_rejection p = None" "i < length (fe_chunks env)"
  shows "done_index env p i"
proof -
  have ab: "\<not> po_aborted p" using assms(1,5) by (simp add: pool_inv_def rejection_ok_def)
  have none: "w \<in> set (po_workers p) \<Longrightarrow> w \<noteq> Awaiting j" for w j using assms(4) by (auto simp: settled_pool_def list_all_iff)
  have pg: "progress_ok env p" using assms(1) by (simp add: pool_inv_def)
  have "po_workers p \<noteq> []" using assms(2,3) by auto
  then obtain w where w: "w \<in> set (po_workers p)" by (metis last_in_set)
  have "\<forall>e. w \<noteq> Threw e" using pg ab w by (auto simp: progress_ok_def)
  then have "w = Returned" using none [OF w] by (metis worker.exhaust)
  then have "length (fe_chunks env) \<le> po_cursor p" using pg ab w by (auto simp: progress_ok_def)
  then show ?thesis using pg ab none assms(6) by (auto simp: progress_ok_def)
qed

lemma fan_in_done:
  assumes "length slots = length outs" "length fs = length outs"
    and "\<And>i. i < length outs \<Longrightarrow> (\<exists>raw. outs ! i = Inr raw \<and> slots ! i = Some (coerceChunkResult raw)) \<or> (\<exists>e. outs ! i = Inl e \<and> slots ! i = None \<and> fs ! i \<noteq> None)"
  shows "fan_in slots fs = Inr (seq_findings outs)"
  using assms
proof (induction outs arbitrary: slots fs)
  case (Cons out outs)
  obtain slot slots' f fs' where c: "slots = slot # slots'" "fs = f # fs'" using Cons.prems(1,2) by (cases slots; cases fs) auto
  have IH: "fan_in slots' fs' = Inr (seq_findings outs)"
    using Cons.IH [of slots' fs'] Cons.prems c by (metis Suc_less_eq length_Cons nat.inject nth_Cons_Suc)
  have "(\<exists>raw. out = Inr raw \<and> slot = Some (coerceChunkResult raw)) \<or> (\<exists>e. out = Inl e \<and> slot = None \<and> f \<noteq> None)"
    using Cons.prems(3) [of 0] c by simp
  then show ?case using IH by (auto simp: c coerceChunkResult_def split: prod.split)
qed simp

lemma pool_result_done:
  assumes "pool_inv env p" "length (po_workers p) = pool_size env" "0 < pool_size env" "settled_pool p" "po_rejection p = None"
  shows "pool_result env p = Inr (seq_findings (outcomes env), if fe_failureSlot env then seq_failures env else [])"
    and "\<And>i e. i < length (fe_chunks env) \<Longrightarrow> fe_outcome env i = Inl e \<Longrightarrow> \<not> aborting (fe_failureSlot env) e"
proof -
  have dn: "done_index env p i" if "i < length (fe_chunks env)" for i by (rule settled_done [OF assms that])
  have len: "length (po_slots p) = length (fe_chunks env)" "length (po_failures p) = length (fe_chunks env)" using assms(1) by (simp_all add: pool_inv_def)
  have "fan_in (po_slots p) (po_failures p) = Inr (seq_findings (outcomes env))"
    by (rule fan_in_done) (use dn len in \<open>auto simp: outcomes_def done_index_def\<close>)
  moreover have "List.map_filter id (po_failures p) = seq_failures env"
  proof -
    have "po_failures p = map (\<lambda>i. case fe_outcome env i of
       Inl e \<Rightarrow> Some \<lparr>cf_chunkIndex = i, cf_chunkId = dc_chunk_id (fe_chunks env ! i), cf_path = dc_path (fe_chunks env ! i), cf_error = e\<rparr>
     | Inr raw \<Rightarrow> None) [0..<length (fe_chunks env)]"
    proof (rule nth_equalityI)
      show "po_failures p ! i = map (\<lambda>i. case fe_outcome env i of
         Inl e \<Rightarrow> Some \<lparr>cf_chunkIndex = i, cf_chunkId = dc_chunk_id (fe_chunks env ! i), cf_path = dc_path (fe_chunks env ! i), cf_error = e\<rparr>
       | Inr raw \<Rightarrow> None) [0..<length (fe_chunks env)] ! i" if "i < length (po_failures p)" for i
      proof -
        have "i < length (fe_chunks env)" using that len by simp
        then show ?thesis using dn [of i] by (auto simp: done_index_def)
      qed
    qed (simp add: len)
    then show ?thesis by (simp add: seq_failures_def map_filter_id)
  qed
  ultimately show "pool_result env p = Inr (seq_findings (outcomes env), if fe_failureSlot env then seq_failures env else [])"
    using assms(5) by (simp add: pool_result_def)
  show "\<not> aborting (fe_failureSlot env) e" if "i < length (fe_chunks env)" "fe_outcome env i = Inl e" for i e
    using dn [OF that(1)] that(2) by (auto simp: done_index_def)
qed

lemma pool_size_pos: "0 < fe_concurrency env \<Longrightarrow> fe_chunks env \<noteq> [] \<Longrightarrow> 0 < pool_size env"
  by (simp add: pool_size_def)

text \<open>(C9) With a positive concurrency and no chunk whose fault ends the fan-out, every interleaving returns the
  same: the findings and intents of the sequential run, in the order of the chunks, and the failures in that order too.\<close>

theorem fanOut_deterministic:
  assumes "fanOutReview env r" and "0 < fe_concurrency env"
    and "\<And>i e. i < length (fe_chunks env) \<Longrightarrow> fe_outcome env i = Inl e \<Longrightarrow> \<not> aborting (fe_failureSlot env) e"
  shows "r = Inr (seq_findings (outcomes env), if fe_failureSlot env then seq_failures env else [])"
  using assms(1)
proof (rule fanOut_elim)
  assume "r = Inr (([], []), [])" "fe_chunks env = []"
  then show ?thesis by (simp add: outcomes_def seq_failures_def List.map_filter_def)
next
  fix p
  assume r: "r = pool_result env p" and ne: "fe_chunks env \<noteq> []" and run: "(step env)\<^sup>*\<^sup>* (start env) p" and fin: "settled_pool p"
  have inv: "pool_inv env p" "length (po_workers p) = pool_size env" using reachable_inv [OF run] by blast+
  have "po_rejection p = None"
  proof (rule ccontr)
    assume "po_rejection p \<noteq> None"
    then obtain e i where "i < length (fe_chunks env)" "fe_outcome env i = Inl e" "aborting (fe_failureSlot env) e"
      using inv(1) by (auto simp: pool_inv_def rejection_ok_def)
    then show False using assms(3) by blast
  qed
  then show ?thesis using pool_result_done(1) [OF inv pool_size_pos [OF assms(2) ne] fin] r by simp
qed (use assms(2) in simp)

text \<open>(C10) A cancellation, a throttle or, without a failure slot, any fault of any chunk always ends the
  fan-out with such a fault: no interleaving swallows it.\<close>

theorem fanOut_abort_propagates:
  assumes "fanOutReview env r" and "0 < fe_concurrency env" and "i < length (fe_chunks env)" and "fe_outcome env i = Inl e" and "aborting (fe_failureSlot env) e"
  shows "\<exists>e' j. r = Inl e' \<and> j < length (fe_chunks env) \<and> fe_outcome env j = Inl e' \<and> aborting (fe_failureSlot env) e'"
  using assms(1)
proof (rule fanOut_elim)
  fix p
  assume r: "r = pool_result env p" and ne: "fe_chunks env \<noteq> []" and run: "(step env)\<^sup>*\<^sup>* (start env) p" and fin: "settled_pool p"
  have inv: "pool_inv env p" "length (po_workers p) = pool_size env" using reachable_inv [OF run] by blast+
  have "po_rejection p \<noteq> None"
    using pool_result_done(2) [OF inv pool_size_pos [OF assms(2) ne] fin _ assms(3,4)] assms(5) by blast
  then show ?thesis using inv(1) r by (auto simp: pool_inv_def rejection_ok_def pool_result_def)
qed (use assms in simp_all)

text \<open>(C11) Whatever the order in which dispatches settle, the pool can always go on to its end, in at most one
  step per chunk; meanwhile no more than the configured number of chunks is in flight and none twice.\<close>

theorem fanOut_bounded_and_ends:
  assumes "(step env)\<^sup>*\<^sup>* (start env) p"
  shows "awaited p \<le> min (nat (fe_concurrency env)) (length (fe_chunks env))
    \<and> distinct (filter (\<lambda>w. case w of Awaiting _ \<Rightarrow> True | _ \<Rightarrow> False) (po_workers p))
    \<and> (\<exists>p'. (step env)\<^sup>*\<^sup>* p p' \<and> settled_pool p')
    \<and> (\<forall>p'. step env p p' \<longrightarrow> remaining env p' < remaining env p)"
proof -
  have inv: "pool_inv env p" "length (po_workers p) = pool_size env" using reachable_inv [OF assms] by blast+
  have "awaited p \<le> length (po_workers p)" by (simp add: awaited_def)
  then have bound: "awaited p \<le> min (nat (fe_concurrency env)) (length (fe_chunks env))" using inv(2) by (simp add: pool_size_def)
  have dist: "distinct (filter (\<lambda>w. case w of Awaiting _ \<Rightarrow> True | _ \<Rightarrow> False) (po_workers p))"
  proof -
    have "awaiting_ok env p" using inv(1) by (simp add: pool_inv_def)
    then have uniq: "v = w" if "v < length (po_workers p)" "w < length (po_workers p)" "po_workers p ! v = Awaiting k" "po_workers p ! w = Awaiting k" for v w k
      using that unfolding awaiting_ok_def by blast
    have "distinct (filter (\<lambda>w. case w of Awaiting _ \<Rightarrow> True | _ \<Rightarrow> False) ws)"
      if "\<And>v w k. v < length ws \<Longrightarrow> w < length ws \<Longrightarrow> ws ! v = Awaiting k \<Longrightarrow> ws ! w = Awaiting k \<Longrightarrow> v = w" for ws
      using that
    proof (induction ws)
      case (Cons x ws)
      have "v = w" if "v < length ws" "w < length ws" "ws ! v = Awaiting k" "ws ! w = Awaiting k" for v w k
        using Cons.prems [of "Suc v" "Suc w" k] that by simp
      then have IH: "distinct (filter (\<lambda>w. case w of Awaiting _ \<Rightarrow> True | _ \<Rightarrow> False) ws)" by (rule Cons.IH)
      have "x \<notin> set ws" if "x = Awaiting k" for k
      proof
        assume "x \<in> set ws"
        then obtain v where "v < length ws" "ws ! v = x" by (metis in_set_conv_nth)
        then show False using Cons.prems [of 0 "Suc v" k] that by simp
      qed
      then show ?case using IH by (cases x) simp_all
    qed simp
    from this [of "po_workers p"] show ?thesis using uniq by simp
  qed
  have fin: "\<exists>p'. (step env)\<^sup>*\<^sup>* p p' \<and> settled_pool p'" by (rule run_ends)
  have dec: "\<forall>p'. step env p p' \<longrightarrow> remaining env p' < remaining env p" using step_decreases by blast
  show ?thesis by (rule conjI [OF bound conjI [OF dist conjI [OF fin dec]]])
qed

section \<open>Stage wrapper\<close>

definition STAGE_NAMES :: "string list" where
  "STAGE_NAMES = [''allocate_workspace'', ''clone'', ''classify'', ''chunk_and_redact'', ''static_analysis'', ''select_carry_forward'', ''review_chunk'',
     ''aggregate'', ''walkthrough'', ''post_review'', ''post_check_run'', ''update_pr_description'', ''enrich_pr_files'', ''fetch_linked_issues'',
     ''fetch_suggested_reviewers'', ''retrieve_knowledge'', ''embed_query'', ''persist_findings'', ''citation_validate'', ''cleanup'', ''apply_arbitration'',
     ''record_tool_runs'', ''post_review_placeholder'', ''delete_review_placeholder'', ''policy_compute'', ''policy_post_filter'', ''lifecycle_bookkeeping'',
     ''load_repo_config'', ''persist_walkthrough'', ''fix_prompt'', ''fetch_manifest_snapshots'', ''parse_manifest_dependencies'',
     ''load_parent_review_findings'', ''dedup'', ''probe_knowledge_corpus'']"

text \<open>What a stage's body did: the notes it added, whether it opted out of the success count, and how it
  ended; and what the wrapper leaves: counter increments, warnings and degradation notes.\<close>

record 'a stage_body =
  sb_extraNotes :: "string list"
  sb_suppressSuccessLog :: bool
  sb_end :: "stage_error + 'a"

record stage_effects =
  se_counts :: "(string \<times> string) list"
  se_warnings :: nat
  se_notes :: "string list"

definition stageOutcome :: "string \<Rightarrow> bool \<Rightarrow> bool \<Rightarrow> 'a stage_body \<Rightarrow> (stage_error + 'a option) \<times> stage_effects" where
  "stageOutcome stage collector raiseAfterLog body =
     (let nothing = \<lparr>se_counts = [], se_warnings = 0, se_notes = []\<rparr> in
      if stage \<notin> set STAGE_NAMES then (Inl (ErrorObject ''Error'' ''stageOutcome called with unknown stage''), nothing)
      else case sb_end body of
          Inl exc \<Rightarrow>
            if isCancellation exc then (Inl exc, nothing)
            else (if raiseAfterLog then Inl exc else Inr None,
                  \<lparr>se_counts = [(stage, ''error'')], se_warnings = 1, se_notes = (if collector then (stage @ ''_failed'') # sb_extraNotes body else [])\<rparr>)
        | Inr x \<Rightarrow> (Inr (Some x),
            \<lparr>se_counts = (if sb_suppressSuccessLog body then [] else [(stage, ''ok'')]), se_warnings = 0,
             se_notes = (if collector then sb_extraNotes body else [])\<rparr>))"

text \<open>A cancellation leaves a known stage untouched; any other fault is either raised again or becomes no result, and is then
  counted, logged and noted.\<close>

lemma stageOutcome_fault:
  assumes "stage \<in> set STAGE_NAMES" "sb_end body = Inl exc"
  shows "isCancellation exc \<Longrightarrow> stageOutcome stage collector raise body = (Inl exc, \<lparr>se_counts = [], se_warnings = 0, se_notes = []\<rparr>)"
    and "\<not> isCancellation exc \<Longrightarrow> fst (stageOutcome stage collector False body) = Inr None
      \<and> (stage, ''error'') \<in> set (se_counts (snd (stageOutcome stage collector False body)))"
  using assms by (simp_all add: stageOutcome_def Let_def)

section \<open>Witnesses\<close>

definition ex_env :: "bool \<Rightarrow> (nat, nat) fan_env" where
  "ex_env cancelled = \<lparr>fe_chunks = [ex_chunk, ex_chunk, ex_chunk], fe_concurrency = 2, fe_failureSlot = True,
     fe_outcome = (\<lambda>i. if i = 1 then Inl (ErrorObject (if cancelled then ''AbortError'' else ''Error'') ''x'')
       else Inr \<lparr>rs_findings = [i], rs_arbitration_intents = []\<rparr>)\<rparr>"

lemma ex_run: "\<exists>r. fanOutReview (ex_env b) r"
proof -
  obtain p where "(step (ex_env b))\<^sup>*\<^sup>* (start (ex_env b)) p" "settled_pool p" using run_ends by blast
  then have "fanOutReview (ex_env b) (pool_result (ex_env b) p)" by (intro fanOutReview.pool_run) (simp_all add: ex_env_def)
  then show ?thesis by blast
qed

theorem fanOut_deterministic_witness:
  "fanOutReview (ex_env False) (Inr (([0, 2], []), [\<lparr>cf_chunkIndex = 1, cf_chunkId = dc_chunk_id ex_chunk, cf_path = ''a.py'', cf_error = ErrorObject ''Error'' ''x''\<rparr>]))"
proof -
  obtain r where r: "fanOutReview (ex_env False) r" using ex_run by blast
  have "\<not> aborting (fe_failureSlot (ex_env False)) e" if "fe_outcome (ex_env False) i = Inl e" for i e
    using that by (auto simp: ex_env_def aborting_def isCancellation_def FANOUT_ABORT_CLASS_ERROR_NAMES_def split: if_splits)
  then have "r = Inr (seq_findings (outcomes (ex_env False)), if fe_failureSlot (ex_env False) then seq_failures (ex_env False) else [])"
    using fanOut_deterministic [OF r] by (simp add: ex_env_def)
  also have "\<dots> = Inr (([0, 2], []), [\<lparr>cf_chunkIndex = 1, cf_chunkId = dc_chunk_id ex_chunk, cf_path = ''a.py'', cf_error = ErrorObject ''Error'' ''x''\<rparr>])"
    by (simp add: ex_env_def outcomes_def seq_failures_def List.map_filter_def ex_chunk_def upt_rec numeral_3_eq_3)
  finally show ?thesis using r by simp
qed

theorem fanOut_abort_propagates_witness: "fanOutReview (ex_env True) (Inl (ErrorObject ''AbortError'' ''x''))"
proof -
  obtain r where r: "fanOutReview (ex_env True) r" using ex_run by blast
  have "\<exists>e' j. r = Inl e' \<and> j < length (fe_chunks (ex_env True)) \<and> fe_outcome (ex_env True) j = Inl e' \<and> aborting (fe_failureSlot (ex_env True)) e'"
    by (rule fanOut_abort_propagates [OF r, of 1 "ErrorObject ''AbortError'' ''x''"])
      (simp_all add: ex_env_def aborting_def isCancellation_def)
  then have "r = Inl (ErrorObject ''AbortError'' ''x'')" by (auto simp: ex_env_def split: if_splits)
  then show ?thesis using r by simp
qed

theorem fanOut_bounded_and_ends_witness: "awaited (start (ex_env False)) \<le> 2 \<and> (\<exists>p. (step (ex_env False))\<^sup>*\<^sup>* (start (ex_env False)) p \<and> settled_pool p)"
  using fanOut_bounded_and_ends [of "ex_env False" "start (ex_env False)"] by (auto simp: ex_env_def)

end
