(* ===== verification/Login_Limit.thy ===== *)
theory Login_Limit
  imports Retry
begin

text \<open>
  The per-address limiter of failed logins (\<^verbatim>\<open>api/auth/rate_limit.ts\<close>) and the address it counts by
  (\<^verbatim>\<open>api/auth/client_ip.ts\<close>). The two implementations, a map in the process and a table shared by the
  replicas, interpret one locale: what a check answers is the number of failures that are recent enough. A statement
  of the table may fail; every method then fails open.
\<close>

section \<open>Options\<close>

record limiter_options =
  lo_maxAttempts :: int
  lo_windowMs :: int
  lo_lockoutMs :: int

definition limiter_accepts :: "limiter_options \<Rightarrow> bool" where
  "limiter_accepts opt \<longleftrightarrow> 1 \<le> lo_maxAttempts opt \<and> 0 < lo_windowMs opt \<and> 0 < lo_lockoutMs opt"

definition horizon :: "limiter_options \<Rightarrow> int" where
  "horizon opt = max (lo_windowMs opt) (lo_lockoutMs opt)"

definition cutoff :: "limiter_options \<Rightarrow> js_date \<Rightarrow> js_date" where
  "cutoff opt now = now - horizon opt"

section \<open>The limiter in the process\<close>

type_synonym failure_map = "string \<rightharpoonup> js_date list"

definition prune :: "limiter_options \<Rightarrow> js_date \<Rightarrow> string \<Rightarrow> failure_map \<Rightarrow> failure_map" where
  "prune opt now key m =
     (case m key of
        None \<Rightarrow> m
      | Some bucket \<Rightarrow>
          if bucket = [] then m
          else let kept = filter (\<lambda>ts. cutoff opt now < ts) bucket
               in if kept \<noteq> [] then m(key \<mapsto> kept) else m(key := None))"

definition bucket_of :: "string \<Rightarrow> failure_map \<Rightarrow> js_date list" where
  "bucket_of key m = (case m key of None \<Rightarrow> [] | Some bucket \<Rightarrow> bucket)"

definition mem_checkAllowed :: "limiter_options \<Rightarrow> js_date \<Rightarrow> string \<Rightarrow> failure_map \<Rightarrow> bool \<times> failure_map" where
  "mem_checkAllowed opt now key m =
     (let m' = prune opt now key m in (int (length (bucket_of key m')) < lo_maxAttempts opt, m'))"

text \<open>The clock is read for the entry and again for the pruning.\<close>

definition mem_recordFailure :: "limiter_options \<Rightarrow> js_date \<Rightarrow> js_date \<Rightarrow> string \<Rightarrow> failure_map \<Rightarrow> failure_map" where
  "mem_recordFailure opt now now' key m = prune opt now' key (m(key \<mapsto> bucket_of key m @ [now]))"

definition mem_recordSuccess :: "string \<Rightarrow> failure_map \<Rightarrow> failure_map" where
  "mem_recordSuccess key m = m(key := None)"

section \<open>The limiter over the table\<close>

text \<open>The rows of \<^verbatim>\<open>core.login_rate_limit_failures\<close>: the key and the instant. A fault is given by the number of
  statements of the method that ran before the failing one.\<close>

type_synonym failure_table = "(string \<times> js_date) list"

definition pg_checkAllowed :: "bool \<Rightarrow> limiter_options \<Rightarrow> js_date \<Rightarrow> string \<Rightarrow> failure_table \<Rightarrow> bool \<times> failure_table" where
  "pg_checkAllowed fault opt now key t =
     (if fault then True else int (hits (\<lambda>r. fst r = key \<and> cutoff opt now < snd r) t) < lo_maxAttempts opt, t)"

definition pg_recordFailure :: "nat option \<Rightarrow> limiter_options \<Rightarrow> js_date \<Rightarrow> js_date \<Rightarrow> string \<Rightarrow> failure_table \<Rightarrow> failure_table" where
  "pg_recordFailure fault opt now now' key t =
     (if fault = Some 0 then t
      else let t1 = t @ [(key, now)]
           in if fault = Some 1 then t1 else filter (\<lambda>r. \<not> snd r \<le> cutoff opt now') t1)"

definition pg_recordSuccess :: "bool \<Rightarrow> string \<Rightarrow> failure_table \<Rightarrow> failure_table" where
  "pg_recordSuccess fault key t = (if fault then t else filter (\<lambda>r. fst r \<noteq> key) t)"

section \<open>Requests against a limiter\<close>

text \<open>The login route checks the limiter, authenticates, and then records the verdict. Requests overlap between the check and
  the record: \<open>Arrives\<close> is a request up to the check, which may fail (the flag), and the other steps end the \<open>n\<close>-th request that was let
  through. One whose authentication throws records nothing. The log holds the verdicts, newest first.\<close>

datatype login_verdict = RateLimited | Passed | Rejected

record login_request =
  rq_at :: js_date
  rq_settled :: js_date
  rq_pruned :: js_date
  rq_key :: string

type_synonym login_log = "(js_date \<times> string \<times> login_verdict) list"

datatype limit_step =
    Arrives bool js_date string
  | Fails nat "nat option" js_date js_date
  | Succeeds nat bool js_date
  | Throws nat

type_synonym 's limit_state = "'s \<times> string list \<times> login_log"

fun limited_step ::
  "(bool \<Rightarrow> js_date \<Rightarrow> string \<Rightarrow> 's \<Rightarrow> bool \<times> 's) \<Rightarrow> (nat option \<Rightarrow> js_date \<Rightarrow> js_date \<Rightarrow> string \<Rightarrow> 's \<Rightarrow> 's) \<Rightarrow> (bool \<Rightarrow> string \<Rightarrow> 's \<Rightarrow> 's)
   \<Rightarrow> limit_step \<Rightarrow> 's limit_state \<Rightarrow> 's limit_state" where
  "limited_step check failure success (Arrives f now key) (s, fl, lg) =
     (let (allowed, s1) = check f now key s in
      if allowed then (s1, fl @ [key], lg) else (s1, fl, (now, key, RateLimited) # lg))"
| "limited_step check failure success (Fails n f now now') (s, fl, lg) =
     (if n < length fl then (failure f now now' (fl ! n) s, without n fl, (now, fl ! n, Rejected) # lg) else (s, fl, lg))"
| "limited_step check failure success (Succeeds n f now) (s, fl, lg) =
     (if n < length fl then (success f (fl ! n) s, without n fl, (now, fl ! n, Passed) # lg) else (s, fl, lg))"
| "limited_step check failure success (Throws n) (s, fl, lg) = (s, without n fl, lg)"

text \<open>The failures of a key later than \<open>lo\<close> since its last success.\<close>

fun strikes :: "string \<Rightarrow> js_date \<Rightarrow> login_log \<Rightarrow> nat" where
  "strikes key lo [] = 0"
| "strikes key lo ((t, k, v) # lg) =
     (if k \<noteq> key then strikes key lo lg
      else if v = Passed then 0
      else (if v = Rejected \<and> lo < t then 1 else 0) + strikes key lo lg)"

text \<open>The clock does not go back.\<close>

definition step_span :: "js_date \<Rightarrow> limit_step \<Rightarrow> js_date \<times> js_date" where
  "step_span now x = (case x of Arrives _ t _ \<Rightarrow> (t, t) | Fails _ _ t t' \<Rightarrow> (t, t') | Succeeds _ _ t \<Rightarrow> (t, t) | Throws _ \<Rightarrow> (now, now))"

fun in_order :: "js_date \<Rightarrow> limit_step list \<Rightarrow> bool" where
  "in_order now [] \<longleftrightarrow> True"
| "in_order now (x # xs) \<longleftrightarrow> now \<le> fst (step_span now x) \<and> fst (step_span now x) \<le> snd (step_span now x) \<and> in_order (snd (step_span now x)) xs"

fun last_instant :: "js_date \<Rightarrow> limit_step list \<Rightarrow> js_date" where
  "last_instant now [] = now"
| "last_instant now (x # xs) = last_instant (snd (step_span now x)) xs"

text \<open>The requests of a key that are under way, their peak over a run, and the statements for the key that failed: a check that
  failed open and an insert that was lost.\<close>

definition in_flight :: "string \<Rightarrow> string list \<Rightarrow> nat" where
  "in_flight key fl = length (filter (\<lambda>k. k = key) fl)"

primrec peak :: "(limit_step \<Rightarrow> 's limit_state \<Rightarrow> 's limit_state) \<Rightarrow> string \<Rightarrow> limit_step list \<Rightarrow> 's limit_state \<Rightarrow> nat" where
  "peak step key [] st = in_flight key (fst (snd st))"
| "peak step key (x # xs) st = max (in_flight key (fst (snd st))) (peak step key xs (step x st))"

definition slip :: "string \<Rightarrow> limit_step \<Rightarrow> 's limit_state \<Rightarrow> nat" where
  "slip key x st = (case x of
       Arrives f now k \<Rightarrow> if f \<and> k = key then 1 else 0
     | Fails n f now now' \<Rightarrow> if f = Some 0 \<and> n < length (fst (snd st)) \<and> fst (snd st) ! n = key then 1 else 0
     | _ \<Rightarrow> 0)"

primrec slips :: "(limit_step \<Rightarrow> 's limit_state \<Rightarrow> 's limit_state) \<Rightarrow> string \<Rightarrow> limit_step list \<Rightarrow> 's limit_state \<Rightarrow> nat" where
  "slips step key [] st = 0"
| "slips step key (x # xs) st = slip key x st + slips step key xs (step x st)"

definition faultless :: "limit_step \<Rightarrow> bool" where
  "faultless x \<longleftrightarrow> (case x of Arrives f _ _ \<Rightarrow> \<not> f | Fails _ f _ _ \<Rightarrow> f = None | Succeeds _ f _ \<Rightarrow> \<not> f | Throws _ \<Rightarrow> True)"

locale login_limiter =
  fixes check :: "bool \<Rightarrow> js_date \<Rightarrow> string \<Rightarrow> 's \<Rightarrow> bool \<times> 's"
    and failure :: "nat option \<Rightarrow> js_date \<Rightarrow> js_date \<Rightarrow> string \<Rightarrow> 's \<Rightarrow> 's"
    and success :: "bool \<Rightarrow> string \<Rightarrow> 's \<Rightarrow> 's"
    and recent :: "'s \<Rightarrow> string \<Rightarrow> js_date \<Rightarrow> nat"
    and start :: 's
    and width :: int
    and bound :: int
  assumes check_iff: "fst (check False now key s) \<longleftrightarrow> int (recent s key (now - width)) < bound"
    and check_recent: "now - width \<le> lo \<Longrightarrow> recent (snd (check f now key s)) k lo = recent s k lo"
    and failure_recent: "now' - width \<le> lo \<Longrightarrow>
      recent (failure None now now' key s) k lo = (if k = key \<and> lo < now then 1 else 0) + recent s k lo"
    and failure_lost: "now' - width \<le> lo \<Longrightarrow>
      (if k = key \<and> lo < now then 1 else 0) + recent s k lo \<le> recent (failure g now now' key s) k lo + (if g = Some 0 \<and> k = key then 1 else 0)"
    and success_recent: "recent (success False key s) k lo = (if k = key then 0 else recent s k lo)"
    and success_other: "k \<noteq> key \<Longrightarrow> recent s k lo \<le> recent (success f key s) k lo"
    and start_recent: "recent start k lo = 0"
    and bound_pos: "0 < bound"
begin

abbreviation step :: "limit_step \<Rightarrow> 's limit_state \<Rightarrow> 's limit_state" where
  "step \<equiv> limited_step check failure success"

definition bounded :: "string \<Rightarrow> nat \<Rightarrow> nat \<Rightarrow> js_date \<Rightarrow> 's limit_state \<Rightarrow> bool" where
  "bounded key c p now st \<longleftrightarrow> (case st of (s, fl, lg) \<Rightarrow> in_flight key fl \<le> p
     \<and> (\<forall>lo. now - width \<le> lo \<longrightarrow> strikes key lo lg \<le> recent s key lo + c
          \<and> int (strikes key lo lg + in_flight key fl) \<le> bound - 1 + int p + int c))"

lemma bounded_mono:
  assumes "bounded key c p now st" and "now \<le> b" and "c \<le> c'" and "p \<le> p'"
  shows "bounded key c' p' b st"
proof -
  obtain s fl lg where st: "st = (s, fl, lg)" by (cases st) auto
  have old: "in_flight key fl \<le> p" "strikes key lo lg \<le> recent s key lo + c"
    "int (strikes key lo lg + in_flight key fl) \<le> bound - 1 + int p + int c" if "b - width \<le> lo" for lo
    using assms(1,2) that by (simp_all add: bounded_def st)
  have "strikes key lo lg \<le> recent s key lo + c' \<and> int (strikes key lo lg + in_flight key fl) \<le> bound - 1 + int p' + int c'"
    if "b - width \<le> lo" for lo
    using old(2,3) [OF that] assms(3,4) by linarith
  then show ?thesis using old(1) [of b] assms(1,4) by (simp add: bounded_def st)
qed

lemma strikes_antimono: "lo \<le> lo' \<Longrightarrow> strikes k lo' lg \<le> strikes k lo lg"
  by (induction k lo lg rule: strikes.induct) auto

lemma bounded_start: "bounded key 0 0 now (start, [], [])"
  using bound_pos by (simp add: bounded_def in_flight_def)

lemma in_flight_without:
  "n < length fl \<Longrightarrow> in_flight key fl = in_flight key (without n fl) + (if fl ! n = key then 1 else 0)"
  unfolding in_flight_def by (rule length_filter_without)

lemma in_flight_without_le: "in_flight key (without n fl) \<le> in_flight key fl"
proof (cases "n < length fl")
  case True
  then show ?thesis using in_flight_without [of n fl key] by simp
qed (simp add: without_def)

lemma bounded_arrives:
  assumes "bounded key c p now (s, fl, lg)" and "now \<le> t" and "st = step (Arrives f t k) (s, fl, lg)"
  shows "bounded key (c + slip key (Arrives f t k) (s, fl, lg)) (max p (in_flight key (fst (snd st)))) t st"
proof -
  obtain allowed s1 where c: "check f t k s = (allowed, s1)" by (cases "check f t k s")
  have s1: "recent s1 key lo = recent s key lo" if "t - width \<le> lo" for lo using check_recent [OF that, of f k s key] c by simp
  have old: "in_flight key fl \<le> p" "strikes key lo lg \<le> recent s key lo + c"
    "int (strikes key lo lg + in_flight key fl) \<le> bound - 1 + int p + int c" if "t - width \<le> lo" for lo
    using assms(1,2) that by (simp_all add: bounded_def)
  show ?thesis
  proof (cases "allowed \<and> k = key")
    case False
    then show ?thesis using old s1 c by (force simp: assms(3) bounded_def slip_def in_flight_def)
  next
    case True
    then have st: "st = (s1, fl @ [key], lg)" using c by (simp add: assms(3))
    have fl: "in_flight key (fl @ [key]) = Suc (in_flight key fl)" by (simp add: in_flight_def)
    have "int (strikes key lo lg + Suc (in_flight key fl)) \<le> bound - 1 + int (max p (Suc (in_flight key fl))) + int (c + (if f then 1 else 0))"
      if lo: "t - width \<le> lo" for lo
    proof (cases f)
      case True
      then show ?thesis using old(3) [OF lo] by simp
    next
      case f: False
      then have "int (recent s key (t - width)) < bound" using check_iff [of t k s] c True by simp
      then have "int (strikes key lo lg) \<le> bound - 1 + int c"
        using strikes_antimono [OF lo, of key lg] old(2) [of "t - width"] by simp
      then show ?thesis using f by simp
    qed
    then show ?thesis using old(1,2) s1 True by (force simp: bounded_def st fl slip_def)
  qed
qed

lemma bounded_ends:
  assumes "bounded key c p now (s, fl, lg)" and "now \<le> a" and "a \<le> b" and "n < length fl"
    and "v = Rejected \<or> v = Passed"
    and "\<And>lo. b - width \<le> lo \<Longrightarrow> fl ! n = key \<Longrightarrow> v = Rejected \<Longrightarrow> (if lo < a then 1 else 0) + recent s key lo \<le> recent s1 key lo + c1"
    and "\<And>lo. b - width \<le> lo \<Longrightarrow> fl ! n \<noteq> key \<Longrightarrow> recent s key lo \<le> recent s1 key lo + c1"
  shows "bounded key (c + c1) p b (s1, without n fl, (a, fl ! n, v) # lg)"
proof -
  have old: "in_flight key fl \<le> p" "strikes key lo lg \<le> recent s key lo + c"
    "int (strikes key lo lg + in_flight key fl) \<le> bound - 1 + int p + int c" if "b - width \<le> lo" for lo
    using assms(1-3) that by (simp_all add: bounded_def)
  note fl = in_flight_without [OF assms(4), of key]
  show ?thesis unfolding bounded_def prod.case
  proof (intro conjI allI impI)
    show "in_flight key (without n fl) \<le> p" using fl old(1) [of b] assms(1) by (simp add: bounded_def)
    fix lo assume lo: "b - width \<le> lo"
    show "strikes key lo ((a, fl ! n, v) # lg) \<le> recent s1 key lo + (c + c1)"
      using assms(5) assms(6,7) [OF lo] old(2) [OF lo] by (cases "fl ! n = key") force+
    show "int (strikes key lo ((a, fl ! n, v) # lg) + in_flight key (without n fl)) \<le> bound - 1 + int p + int (c + c1)"
      using assms(5) old(1,3) [OF lo] fl bound_pos by (auto split: if_splits)
  qed
qed

lemma bounded_step:
  assumes "bounded key c p now st" and "now \<le> fst (step_span now x)" and "fst (step_span now x) \<le> snd (step_span now x)"
  shows "bounded key (c + slip key x st) (max p (in_flight key (fst (snd (step x st))))) (snd (step_span now x)) (step x st)"
proof -
  obtain s fl lg where st: "st = (s, fl, lg)" by (cases st) auto
  have p: "in_flight key fl \<le> p" using assms(1) by (simp add: bounded_def st)
  then have less: "max p (in_flight key (without n fl)) = p" for n using in_flight_without_le [of key n fl] by simp
  have later: "bounded key (c + c') p b (s, fl, lg)" if "now \<le> b" for b c' using bounded_mono [OF assms(1) that] by (simp add: st)
  show ?thesis
  proof (cases x)
    case (Arrives f t k)
    then show ?thesis using bounded_arrives [OF assms(1) [unfolded st], of t _ f k] assms(2) by (simp add: st step_span_def)
  next
    case (Fails n f t t')
    show ?thesis
    proof (cases "n < length fl")
      case True
      have "bounded key (c + (if f = Some 0 \<and> fl ! n = key then 1 else 0)) p t' (failure f t t' (fl ! n) s, without n fl, (t, fl ! n, Rejected) # lg)"
        by (rule bounded_ends [OF assms(1) [unfolded st]])
          (use True assms(2,3) Fails failure_lost [of t' _ key "fl ! n" t s f] in \<open>auto simp: step_span_def\<close>)
      then show ?thesis using True less by (simp add: st Fails step_span_def slip_def)
    next
      case False
      then show ?thesis using later [of t' 0] p assms(2,3) by (simp add: st Fails step_span_def slip_def max_absorb1)
    qed
  next
    case (Succeeds n f t)
    show ?thesis
    proof (cases "n < length fl")
      case True
      have "bounded key (c + 0) p t (success f (fl ! n) s, without n fl, (t, fl ! n, Passed) # lg)"
        by (rule bounded_ends [OF assms(1) [unfolded st]])
          (use True assms(2,3) Succeeds success_other [of key "fl ! n" s _ f] in \<open>auto simp: step_span_def\<close>)
      then show ?thesis using True less by (simp add: st Succeeds step_span_def slip_def)
    next
      case False
      then show ?thesis using later [of t 0] p assms(2,3) by (simp add: st Succeeds step_span_def slip_def max_absorb1)
    qed
  next
    case (Throws n)
    have "in_flight key (without n fl) \<le> in_flight key fl" by (rule in_flight_without_le)
    then have "bounded key c p now (s, without n fl, lg)" using assms(1) by (force simp: st bounded_def)
    then show ?thesis using less by (simp add: st Throws step_span_def slip_def)
  qed
qed

lemma bounded_run:
  "in_order now xs \<Longrightarrow> bounded key c p now st \<Longrightarrow> in_flight key (fst (snd st)) \<le> p
    \<Longrightarrow> bounded key (c + slips step key xs st) (max p (peak step key xs st)) (last_instant now xs) (fold step xs st)"
proof (induction xs arbitrary: now c p st)
  case (Cons x xs)
  let ?st = "step x st"
  have "bounded key (c + slip key x st + slips step key xs ?st) (max (max p (in_flight key (fst (snd ?st)))) (peak step key xs ?st))
      (last_instant (snd (step_span now x)) xs) (fold step xs ?st)"
    using Cons.prems by (intro Cons.IH bounded_step) simp_all
  moreover have "in_flight key (fst (snd ?st)) \<le> peak step key xs ?st" by (cases xs) simp_all
  then have "max (max p (in_flight key (fst (snd ?st)))) (peak step key xs ?st) = max p (peak step key (x # xs) st)"
    using Cons.prems(3) by (simp add: max_def)
  ultimately show ?case by (simp add: add.assoc)
qed (simp add: max_absorb1)

theorem failures_bounded:
  assumes "in_order now xs" and "last_instant now xs \<le> t"
  shows "int (strikes key (t - width) (snd (snd (fold step xs (start, [], [])))))
    \<le> bound - 1 + int (peak step key xs (start, [], [])) + int (slips step key xs (start, [], []))"
proof -
  have "bounded key (0 + slips step key xs (start, [], [])) (max 0 (peak step key xs (start, [], []))) (last_instant now xs) (fold step xs (start, [], []))"
    by (rule bounded_run [OF assms(1) bounded_start]) (simp add: in_flight_def)
  from bounded_mono [OF this assms(2) order_refl order_refl] show ?thesis
    by (cases "fold step xs (start, [], [])") (auto simp: bounded_def elim!: allE [of _ "t - width"])
qed

text \<open>Without faults the store says what the log says, and the log and the requests under way are a function of the steps alone.\<close>

definition tracks :: "js_date \<Rightarrow> 's limit_state \<Rightarrow> bool" where
  "tracks now st \<longleftrightarrow> (\<forall>k lo. now - width \<le> lo \<longrightarrow> recent (fst st) k lo = strikes k lo (snd (snd st)))"

fun log_step :: "limit_step \<Rightarrow> string list \<times> login_log \<Rightarrow> string list \<times> login_log" where
  "log_step (Arrives f now key) (fl, lg) =
     (if int (strikes key (now - width) lg) < bound then (fl @ [key], lg) else (fl, (now, key, RateLimited) # lg))"
| "log_step (Fails n f now now') (fl, lg) = (if n < length fl then (without n fl, (now, fl ! n, Rejected) # lg) else (fl, lg))"
| "log_step (Succeeds n f now) (fl, lg) = (if n < length fl then (without n fl, (now, fl ! n, Passed) # lg) else (fl, lg))"
| "log_step (Throws n) (fl, lg) = (without n fl, lg)"

lemma tracks_step:
  assumes "tracks now st" and "now \<le> fst (step_span now x)" and "fst (step_span now x) \<le> snd (step_span now x)" and "faultless x"
  shows "tracks (snd (step_span now x)) (step x st) \<and> snd (step x st) = log_step x (snd st)"
proof -
  obtain s fl lg where st: "st = (s, fl, lg)" by (cases st) auto
  have old: "recent s k lo = strikes k lo lg" if "now - width \<le> lo" for k lo using assms(1) that by (simp add: tracks_def st)
  show ?thesis
  proof (cases x)
    case (Arrives f t key)
    obtain allowed s1 where c: "check False t key s = (allowed, s1)" by (cases "check False t key s")
    have f: "\<not> f" "now \<le> t" using assms(2,4) by (simp_all add: Arrives faultless_def step_span_def)
    have "allowed \<longleftrightarrow> int (strikes key (t - width) lg) < bound" using check_iff [of t key s] old [of "t - width" key] c f(2) by simp
    moreover have "recent s1 k lo = strikes k lo lg" if "t - width \<le> lo" for k lo
      using check_recent [OF that, of False key s k] old [of lo k] that c f(2) by simp
    ultimately show ?thesis using c f(1) by (simp add: st Arrives tracks_def step_span_def)
  next
    case (Fails n f t t')
    then show ?thesis using assms(2-4) old failure_recent [of t' _ t]
      by (simp add: st Fails tracks_def step_span_def faultless_def)
  next
    case (Succeeds n f t)
    then show ?thesis using assms(2-4) old by (simp add: st Succeeds tracks_def step_span_def faultless_def success_recent)
  next
    case (Throws n)
    then show ?thesis using assms(1) by (simp add: st Throws tracks_def step_span_def)
  qed
qed

lemma run_log:
  "in_order now xs \<Longrightarrow> list_all faultless xs \<Longrightarrow> tracks now st \<Longrightarrow> snd (fold step xs st) = fold log_step xs (snd st)"
proof (induction xs arbitrary: now st)
  case (Cons x xs)
  note t = tracks_step [OF Cons.prems(3), of x]
  show ?case using Cons.IH [of "snd (step_span now x)" "step x st"] Cons.prems t by simp
qed simp

lemma tracks_start: "tracks now (start, [], [])"
  by (simp add: tracks_def start_recent)

end

section \<open>Both limiters keep the contract\<close>

definition mem_recent :: "failure_map \<Rightarrow> string \<Rightarrow> js_date \<Rightarrow> nat" where
  "mem_recent m k lo = length (filter (\<lambda>ts. lo < ts) (bucket_of k m))"

definition pg_recent :: "failure_table \<Rightarrow> string \<Rightarrow> js_date \<Rightarrow> nat" where
  "pg_recent t k lo = hits (\<lambda>r. fst r = k \<and> lo < snd r) t"

lemma bucket_prune:
  "bucket_of k (prune opt now key m) = (if k = key then filter (\<lambda>ts. cutoff opt now < ts) (bucket_of k m) else bucket_of k m)"
  by (auto simp: prune_def bucket_of_def Let_def split: option.split)

lemma filter_newer: "lo \<le> lo' \<Longrightarrow> filter (\<lambda>ts. lo' < ts) (filter (\<lambda>ts. lo < (ts::int)) xs) = filter (\<lambda>ts. lo' < ts) xs"
  by (auto intro!: filter_cong)

lemma mem_recent_prune: "cutoff opt now \<le> lo \<Longrightarrow> mem_recent (prune opt now key m) k lo = mem_recent m k lo"
  by (simp add: mem_recent_def bucket_prune filter_newer del: filter_filter)

lemma pg_recent_filter:
  "cutoff opt now \<le> lo \<Longrightarrow> pg_recent (filter (\<lambda>r. \<not> snd r \<le> cutoff opt now) t) k lo = pg_recent t k lo"
  by (auto simp: pg_recent_def hits_def intro!: arg_cong [where f = length] filter_cong)

lemma pg_recent_insert:
  assumes "cutoff opt now' \<le> lo"
  shows "pg_recent (pg_recordFailure f opt now now' key t) k lo
    = (if f \<noteq> Some 0 \<and> k = key \<and> lo < now then 1 else 0) + pg_recent t k lo"
proof (cases "f = Some 0")
  case False
  have "pg_recent (t @ [(key, now)]) k lo = (if k = key \<and> lo < now then 1 else 0) + pg_recent t k lo"
    by (auto simp: pg_recent_def hits_def)
  moreover have "pg_recent (filter (\<lambda>r. \<not> snd r \<le> cutoff opt now') (t @ [(key, now)])) k lo = pg_recent (t @ [(key, now)]) k lo"
    by (rule pg_recent_filter [OF assms])
  ultimately show ?thesis using False by (cases "f = Some 1") (simp_all add: pg_recordFailure_def Let_def)
qed (simp add: pg_recordFailure_def)

lemma pg_recent_success:
  "pg_recent (pg_recordSuccess f key t) k lo = (if \<not> f \<and> k = key then 0 else pg_recent t k lo)"
  by (auto simp: pg_recent_def pg_recordSuccess_def hits_def filter_empty_conv intro!: arg_cong [where f = length] filter_cong)

text \<open>The limiter of the process has no statements that could fail.\<close>

lemma mem_limiter:
  assumes "limiter_accepts opt"
  shows "login_limiter (\<lambda>_. mem_checkAllowed opt) (\<lambda>_. mem_recordFailure opt) (\<lambda>_. mem_recordSuccess) mem_recent Map.empty
    (horizon opt) (lo_maxAttempts opt)"
proof
  show "fst (mem_checkAllowed opt now key s) \<longleftrightarrow> int (mem_recent s key (now - horizon opt)) < lo_maxAttempts opt" for now key s
    by (simp add: mem_checkAllowed_def Let_def bucket_prune mem_recent_def cutoff_def)
  show "mem_recent (snd (mem_checkAllowed opt now key s)) k lo = mem_recent s k lo" if "now - horizon opt \<le> lo" for now lo key s k
    using that by (simp add: mem_checkAllowed_def Let_def mem_recent_prune cutoff_def)
  have ins: "mem_recent (mem_recordFailure opt now now' key s) k lo = (if k = key \<and> lo < now then 1 else 0) + mem_recent s k lo"
    if "now' - horizon opt \<le> lo" for now' lo now key s k
    using that by (simp add: mem_recordFailure_def mem_recent_prune cutoff_def) (simp add: mem_recent_def bucket_of_def)
  show "mem_recent (mem_recordFailure opt now now' key s) k lo = (if k = key \<and> lo < now then 1 else 0) + mem_recent s k lo"
    if "now' - horizon opt \<le> lo" for now' lo now key s k using ins [OF that] .
  show "(if k = key \<and> lo < now then 1 else 0) + mem_recent s k lo
      \<le> mem_recent (mem_recordFailure opt now now' key s) k lo + (if f = Some 0 \<and> k = key then 1 else 0)"
    if "now' - horizon opt \<le> lo" for now' lo k key now s and f :: "nat option" using ins [OF that] by simp
  have suc: "mem_recent (mem_recordSuccess key s) k lo = (if k = key then 0 else mem_recent s k lo)" for key s k lo
    by (simp add: mem_recent_def bucket_of_def mem_recordSuccess_def)
  show "mem_recent (mem_recordSuccess key s) k lo = (if k = key then 0 else mem_recent s k lo)" for key s k lo by (rule suc)
  show "mem_recent s k lo \<le> mem_recent (mem_recordSuccess key s) k lo" if "k \<noteq> key" for k key s lo using suc [of key s k lo] that by simp
  show "mem_recent Map.empty k lo = 0" for k lo by (simp add: mem_recent_def bucket_of_def)
  show "0 < lo_maxAttempts opt" using assms by (simp add: limiter_accepts_def)
qed

lemma pg_limiter:
  assumes "limiter_accepts opt"
  shows "login_limiter (\<lambda>f. pg_checkAllowed f opt) (\<lambda>f. pg_recordFailure f opt) pg_recordSuccess pg_recent []
    (horizon opt) (lo_maxAttempts opt)"
proof
  show "fst (pg_checkAllowed False opt now key s) \<longleftrightarrow> int (pg_recent s key (now - horizon opt)) < lo_maxAttempts opt" for now key s
    by (simp add: pg_checkAllowed_def pg_recent_def cutoff_def)
  show "pg_recent (snd (pg_checkAllowed f opt now key s)) k lo = pg_recent s k lo" for now lo key s k f
    by (simp add: pg_checkAllowed_def)
  show "pg_recent (pg_recordFailure None opt now now' key s) k lo = (if k = key \<and> lo < now then 1 else 0) + pg_recent s k lo"
    if "now' - horizon opt \<le> lo" for now' lo now key s k
    using that by (simp add: pg_recent_insert cutoff_def)
  show "(if k = key \<and> lo < now then 1 else 0) + pg_recent s k lo
      \<le> pg_recent (pg_recordFailure f opt now now' key s) k lo + (if f = Some 0 \<and> k = key then 1 else 0)"
    if "now' - horizon opt \<le> lo" for now' lo k key now s f using that by (simp add: pg_recent_insert cutoff_def)
  show "pg_recent (pg_recordSuccess False key s) k lo = (if k = key then 0 else pg_recent s k lo)" for key s k lo
    by (simp add: pg_recent_success)
  show "pg_recent s k lo \<le> pg_recent (pg_recordSuccess f key s) k lo" if "k \<noteq> key" for k key s lo f using that by (simp add: pg_recent_success)
  show "pg_recent [] k lo = 0" for k lo by (simp add: pg_recent_def)
  show "0 < lo_maxAttempts opt" using assms by (simp add: limiter_accepts_def)
qed

text \<open>The options of the route: ten attempts in five minutes.\<close>

definition LOGIN_LIMITS :: limiter_options where
  "LOGIN_LIMITS = \<lparr>lo_maxAttempts = 10, lo_windowMs = 5 * 60 * 1000, lo_lockoutMs = 5 * 60 * 1000\<rparr>"

lemma LOGIN_LIMITS_ok: "limiter_accepts LOGIN_LIMITS"
  by (simp add: LOGIN_LIMITS_def limiter_accepts_def)

interpretation mem_login: login_limiter "\<lambda>_. mem_checkAllowed LOGIN_LIMITS" "\<lambda>_. mem_recordFailure LOGIN_LIMITS" "\<lambda>_. mem_recordSuccess"
  mem_recent Map.empty "horizon LOGIN_LIMITS" "lo_maxAttempts LOGIN_LIMITS"
  by (rule mem_limiter [OF LOGIN_LIMITS_ok])

interpretation pg_login: login_limiter "\<lambda>f. pg_checkAllowed f LOGIN_LIMITS" "\<lambda>f. pg_recordFailure f LOGIN_LIMITS" pg_recordSuccess pg_recent
  "[]" "horizon LOGIN_LIMITS" "lo_maxAttempts LOGIN_LIMITS"
  by (rule pg_limiter [OF LOGIN_LIMITS_ok])

text \<open>The requests against the two limiters.\<close>

definition pg_step :: "limiter_options \<Rightarrow> limit_step \<Rightarrow> failure_table limit_state \<Rightarrow> failure_table limit_state" where
  "pg_step opt = limited_step (\<lambda>f. pg_checkAllowed f opt) (\<lambda>f. pg_recordFailure f opt) pg_recordSuccess"

definition mem_step :: "limiter_options \<Rightarrow> limit_step \<Rightarrow> failure_map limit_state \<Rightarrow> failure_map limit_state" where
  "mem_step opt = limited_step (\<lambda>_. mem_checkAllowed opt) (\<lambda>_. mem_recordFailure opt) (\<lambda>_. mem_recordSuccess)"

definition log_of :: "'s limit_state \<Rightarrow> login_log" where
  "log_of st = snd (snd st)"

text \<open>(C38) Over any interleaving of requests one address is answered with at most this many failures in every window of the
  configured width, counted from its last success: the limit less one, and the peak of its requests that are under way together,
  and the statements for it that failed (a check that failed open, an insert that was lost). With requests one after
  another and no fault that is the limit. A login that throws is answered without a verdict and is not counted.\<close>

theorem login_failures_bounded:
  assumes "limiter_accepts opt" and "in_order now xs" and "last_instant now xs \<le> t"
  shows "int (strikes key (t - horizon opt) (log_of (fold (pg_step opt) xs ([], [], []))))
    \<le> lo_maxAttempts opt - 1 + int (peak (pg_step opt) key xs ([], [], [])) + int (slips (pg_step opt) key xs ([], [], []))"
  using login_limiter.failures_bounded [OF pg_limiter [OF assms(1)] assms(2,3), of key] by (simp add: pg_step_def log_of_def)

text \<open>The same for the limiter of the process, which meets no faults of a table.\<close>

lemma mem_failures_bounded:
  assumes "limiter_accepts opt" and "in_order now xs" and "last_instant now xs \<le> t"
  shows "int (strikes key (t - horizon opt) (log_of (fold (mem_step opt) xs (Map.empty, [], []))))
    \<le> lo_maxAttempts opt - 1 + int (peak (mem_step opt) key xs (Map.empty, [], [])) + int (slips (mem_step opt) key xs (Map.empty, [], []))"
  using login_limiter.failures_bounded [OF mem_limiter [OF assms(1)] assms(2,3), of key] by (simp add: mem_step_def log_of_def)

text \<open>The limiter of the process and the limiter of the table let the same requests pass.\<close>

theorem login_limiters_agree:
  assumes "limiter_accepts opt" and "in_order now xs" and "list_all faultless xs"
  shows "log_of (fold (mem_step opt) xs (Map.empty, [], [])) = log_of (fold (pg_step opt) xs ([], [], []))"
proof -
  note m = mem_limiter [OF assms(1)] and p = pg_limiter [OF assms(1)]
  have "fold (login_limiter.log_step (horizon opt) (lo_maxAttempts opt)) xs ([], []) = snd (fold (mem_step opt) xs (Map.empty, [], []))"
    using login_limiter.run_log [OF m assms(2,3) login_limiter.tracks_start [OF m]] by (simp add: mem_step_def)
  moreover have "fold (login_limiter.log_step (horizon opt) (lo_maxAttempts opt)) xs ([], []) = snd (fold (pg_step opt) xs ([], [], []))"
    using login_limiter.run_log [OF p assms(2,3) login_limiter.tracks_start [OF p]] by (simp add: pg_step_def)
  ultimately show ?thesis by (simp add: log_of_def)
qed

text \<open>The check sees the recorded failures only, so the requests under way do not count: from an empty table any number of wrong
  passwords sent at once are all tried, whatever the limit.\<close>

definition burst :: "nat \<Rightarrow> js_date \<Rightarrow> string \<Rightarrow> limit_step list" where
  "burst n t key = replicate n (Arrives False t key) @ replicate n (Fails 0 None t t)"

lemma burst_arrives:
  assumes "limiter_accepts opt"
  shows "fold (pg_step opt) (replicate n (Arrives False t key)) ([], fl, lg) = ([], fl @ replicate n key, lg)"
proof (induction n arbitrary: fl)
  case (Suc n)
  have "pg_step opt (Arrives False t key) ([], fl, lg) = ([], fl @ [key], lg)"
    using assms by (simp add: pg_step_def pg_checkAllowed_def hits_def limiter_accepts_def)
  then show ?case using Suc [of "fl @ [key]"] by simp
qed simp

lemma burst_fails:
  "snd (fold (pg_step opt) (replicate n (Fails 0 None t t)) (s, replicate n key, lg)) = ([], replicate n (t, key, Rejected) @ lg)"
proof (induction n arbitrary: s lg)
  case (Suc n)
  have "replicate n (t, key, Rejected) @ (t, key, Rejected) # lg = (t, key, Rejected) # replicate n (t, key, Rejected) @ lg"
    by (induction n) simp_all
  then show ?case using Suc [of "pg_recordFailure None opt t t key s" "(t, key, Rejected) # lg"] by (simp add: pg_step_def without_def)
qed simp

lemma strikes_replicate: "lo < t \<Longrightarrow> strikes key lo (replicate n (t, key, Rejected)) = n"
  by (induction n) simp_all

theorem burst_passes_limit:
  assumes "limiter_accepts opt"
  shows "strikes key (t - horizon opt) (log_of (fold (pg_step opt) (burst n t key) ([], [], []))) = n"
proof -
  have "fold (pg_step opt) (burst n t key) ([], [], []) = fold (pg_step opt) (replicate n (Fails 0 None t t)) ([], replicate n key, [])"
    by (simp only: burst_def fold_append o_apply burst_arrives [OF assms] append_Nil)
  moreover have "t - horizon opt < t" using assms by (simp add: horizon_def limiter_accepts_def less_max_iff_disj)
  ultimately show ?thesis by (simp only: log_of_def burst_fails strikes_replicate snd_conv append_Nil2)
qed

text \<open>Ten failures lock the eleventh request out, which a witness plays with a bound of one.\<close>

definition demo_limit :: limiter_options where
  "demo_limit = \<lparr>lo_maxAttempts = 1, lo_windowMs = 1000, lo_lockoutMs = 500\<rparr>"

definition demo_requests :: "limit_step list" where
  "demo_requests = [Arrives False 0 ''ip'', Fails 0 None 1 1, Arrives False 2 ''ip'']"

lemmas demo_limit_simps = demo_limit_def demo_requests_def limiter_accepts_def horizon_def cutoff_def step_span_def faultless_def
  pg_step_def mem_step_def pg_checkAllowed_def pg_recordFailure_def pg_recordSuccess_def hits_def without_def in_flight_def slip_def log_of_def

lemma demo_limit_ok:
  "limiter_accepts demo_limit" "in_order 0 demo_requests" "last_instant 0 demo_requests \<le> 3" "list_all faultless demo_requests"
  by (simp_all add: demo_limit_simps)

lemma demo_limit_run:
  "log_of (fold (pg_step demo_limit) demo_requests ([], [], [])) = [(2, ''ip'', RateLimited), (1, ''ip'', Rejected)]"
  "peak (pg_step demo_limit) ''ip'' demo_requests ([], [], []) = 1" "slips (pg_step demo_limit) ''ip'' demo_requests ([], [], []) = 0"
  by (simp_all add: demo_limit_simps)

theorem login_failures_bounded_witness:
  "log_of (fold (pg_step demo_limit) demo_requests ([], [], [])) = [(2, ''ip'', RateLimited), (1, ''ip'', Rejected)]
    \<and> int (strikes ''ip'' (3 - horizon demo_limit) [(2, ''ip'', RateLimited), (1, ''ip'', Rejected)]) \<le> lo_maxAttempts demo_limit"
  using login_failures_bounded [OF demo_limit_ok(1-3), of "''ip''"] demo_limit_run by simp

theorem login_limiters_agree_witness:
  "log_of (fold (mem_step demo_limit) demo_requests (Map.empty, [], [])) = [(2, ''ip'', RateLimited), (1, ''ip'', Rejected)]"
  using login_limiters_agree [OF demo_limit_ok(1,2,4)] demo_limit_run by simp

theorem burst_passes_limit_witness:
  "strikes ''ip'' (5 - horizon LOGIN_LIMITS) (log_of (fold (pg_step LOGIN_LIMITS) (burst 100 5 ''ip'') ([], [], []))) = 100"
  by (rule burst_passes_limit [OF LOGIN_LIMITS_ok])

section \<open>The address that is counted\<close>

datatype forwarded_for = NoHeader | OneHeader string | ManyHeaders "string list"

definition joined_header :: "forwarded_for \<Rightarrow> string" where
  "joined_header xff = (case xff of NoHeader \<Rightarrow> [] | OneHeader h \<Rightarrow> h | ManyHeaders hs \<Rightarrow> join_with CHR '','' hs)"

definition trustedClientIp :: "forwarded_for \<Rightarrow> string \<Rightarrow> int \<Rightarrow> string" where
  "trustedClientIp xff socketIp hops =
     (let fallback = (if socketIp \<noteq> [] then socketIp else ''unknown'') in
      if hops \<le> 0 then fallback
      else let entries = filter (\<lambda>e. e \<noteq> []) (map trim (split_on CHR '','' (joined_header xff)))
           in if int (length entries) < hops then fallback else entries ! nat (int (length entries) - hops))"

lemma split_on_append: "split_on c (a @ c # b) = split_on c a @ split_on c b"
proof (induction a)
  case (Cons x a)
  then show ?case by (cases "split_on c a") auto
qed simp

lemma split_on_plain: "c \<notin> set w \<Longrightarrow> split_on c w = [w]"
  by (induction w) auto

lemma split_join: "ws \<noteq> [] \<Longrightarrow> (\<And>w. w \<in> set ws \<Longrightarrow> c \<notin> set w) \<Longrightarrow> split_on c (join_with c ws) = ws"
proof (induction c ws rule: join_with.induct)
  case (3 c w v ws)
  then show ?case by (simp add: split_on_append split_on_plain)
qed (simp_all add: split_on_plain)

text \<open>With \<open>N\<close> trusted proxies, each of which appends one entry, the address is the entry of the
  outermost one: whatever a client writes into the header in front of it does not matter.\<close>

theorem client_ip_unspoofable:
  assumes "hops \<noteq> []" and "\<And>h. h \<in> set hops \<Longrightarrow> CHR '','' \<notin> set h \<and> trim h \<noteq> []"
  shows "trustedClientIp (OneHeader (spoof @ CHR '','' # join_with CHR '','' hops)) socketIp (int (length hops)) = trim (hd hops)"
proof -
  let ?es = "filter (\<lambda>e. e \<noteq> []) (map trim (split_on CHR '','' spoof))"
  have sp: "split_on CHR '','' (join_with CHR '','' hops) = hops" using assms by (intro split_join) auto
  have es: "filter (\<lambda>e. e \<noteq> []) (map trim (split_on CHR '','' (spoof @ CHR '','' # join_with CHR '','' hops))) = ?es @ map trim hops"
    using assms(2) by (simp add: split_on_append sp)
  have len: "0 < length hops" using assms(1) by simp
  have "(?es @ map trim hops) ! nat (int (length (?es @ map trim hops)) - int (length hops)) = trim (hd hops)"
    using len by (simp add: nth_append hd_conv_nth)
  then show ?thesis using len unfolding trustedClientIp_def joined_header_def forwarded_for.case Let_def es by simp
qed

theorem client_ip_unspoofable_witness:
  "trustedClientIp (OneHeader (''6.6.6.6'' @ CHR '','' # join_with CHR '','' [''1.2.3.4''])) ''10.0.0.1'' 1 = ''1.2.3.4''"
proof -
  have t: "trim ''1.2.3.4'' = ''1.2.3.4''" by (simp add: trim_def is_space_def less_eq_char_def)
  show ?thesis using client_ip_unspoofable [of "[''1.2.3.4'']" "''6.6.6.6''" "''10.0.0.1''"] by (simp add: t)
qed

end
