(* ===== verification/Login.thy ===== *)
theory Login
  imports Login_Limit
begin

text \<open>
  Who may log in (\<^verbatim>\<open>api/auth/login.ts\<close>, \<^verbatim>\<open>local_user_repo.ts\<close>, \<^verbatim>\<open>core_user_repo.ts\<close>,
  \<^verbatim>\<open>credential_lockout.ts\<close>, \<^verbatim>\<open>roles.ts\<close>, \<^verbatim>\<open>role_resolver.ts\<close> and the login route of
  \<^verbatim>\<open>auth_routes.ts\<close>). The password hash function, the LDAP server and the faults of statements are
  parameters. The encrypted email column is carried in clear.
\<close>

section \<open>Lockout\<close>

definition LOCKOUT_THRESHOLD :: int where "LOCKOUT_THRESHOLD = 5"
definition LOCKOUT_DURATION_MS :: int where "LOCKOUT_DURATION_MS = 15 * 60 * 1000"

record lockout_state =
  failed_attempts :: int
  locked_until :: "js_date option"
  last_login_at :: "js_date option"

definition applyAttempt :: "bool \<Rightarrow> js_date \<Rightarrow> lockout_state \<Rightarrow> lockout_state" where
  "applyAttempt ok now st =
     (if ok then \<lparr>failed_attempts = 0, locked_until = None, last_login_at = Some now\<rparr>
      else let newAttempts = failed_attempts st + 1
           in \<lparr>failed_attempts = newAttempts,
               locked_until = (if newAttempts = LOCKOUT_THRESHOLD then Some (now + LOCKOUT_DURATION_MS) else locked_until st),
               last_login_at = last_login_at st\<rparr>)"

definition isLocked :: "js_date option \<Rightarrow> js_date \<Rightarrow> bool" where
  "isLocked lockedUntil now \<longleftrightarrow> (case lockedUntil of None \<Rightarrow> False | Some u \<Rightarrow> now < u)"

section \<open>The account tables\<close>

text \<open>The rows of \<^verbatim>\<open>core.local_users\<close> and of \<^verbatim>\<open>core.users\<close> share the columns a login reads and writes.\<close>

record account = lockout_state +
  ac_user_id :: uuid
  ac_username :: "string option"
  ac_email :: string
  ac_name :: string
  ac_password_hash :: "string option"
  ac_password_changed_at :: js_date

record local_user = account +
  lu_role :: string
  lu_active :: bool

record core_user = account +
  cu_installation_id :: uuid

datatype account_error = UserNotFound uuid | LastSuperAdmin | AuditFailed

definition clear_lockout :: "js_date \<Rightarrow> 'a account_scheme \<Rightarrow> 'a account_scheme" where
  "clear_lockout now r = r\<lparr>failed_attempts := 0, locked_until := None, last_login_at := Some now\<rparr>"

definition count_failure :: "js_date \<Rightarrow> 'a account_scheme \<Rightarrow> 'a account_scheme" where
  "count_failure now r =
     r\<lparr>failed_attempts := failed_attempts r + 1,
       locked_until := (if failed_attempts r + 1 = LOCKOUT_THRESHOLD then Some (now + LOCKOUT_DURATION_MS) else locked_until r)\<rparr>"

text \<open>The audit callback runs in the transaction of the update: \<open>Some False\<close> is a callback that throws.\<close>

definition record_attempt ::
  "('a account_scheme \<Rightarrow> bool) \<Rightarrow> uuid \<Rightarrow> bool \<Rightarrow> js_date \<Rightarrow> bool option \<Rightarrow> 'a account_scheme list \<Rightarrow> (account_error + bool) \<times> 'a account_scheme list" where
  "record_attempt credentialed userId ok now audit t =
     (let p = (\<lambda>r. ac_user_id r = userId \<and> credentialed r); f = (if ok then clear_lockout now else count_failure now)
      in case first_row (returning p f t) of
           None \<Rightarrow> (Inl (UserNotFound userId), t)
         | Some r \<Rightarrow> if audit = Some False then (Inl AuditFailed, t) else (Inr (LOCKOUT_THRESHOLD \<le> failed_attempts r), upd_where p f t))"

definition local_recordLoginAttempt ::
  "uuid \<Rightarrow> bool \<Rightarrow> js_date \<Rightarrow> bool option \<Rightarrow> local_user list \<Rightarrow> (account_error + bool) \<times> local_user list" where
  "local_recordLoginAttempt = record_attempt (\<lambda>_. True)"

definition core_recordLoginAttempt ::
  "uuid \<Rightarrow> bool \<Rightarrow> js_date \<Rightarrow> bool option \<Rightarrow> core_user list \<Rightarrow> (account_error + bool) \<times> core_user list" where
  "core_recordLoginAttempt = record_attempt (\<lambda>r. ac_password_hash r \<noteq> None)"

definition local_getByUsername :: "string \<Rightarrow> local_user list \<Rightarrow> local_user option" where
  "local_getByUsername u t = first_row (filter (\<lambda>r. ac_username r = Some u) t)"

definition core_getByUsername :: "string \<Rightarrow> core_user list \<Rightarrow> core_user option" where
  "core_getByUsername u t = first_row (filter (\<lambda>r. ac_username r = Some u \<and> ac_password_hash r \<noteq> None) t)"

text \<open>The double of the tests keeps a map from ids to users; its rows stay in the order of insertion.\<close>

definition lockout_of :: "'a account_scheme \<Rightarrow> lockout_state" where
  "lockout_of r = \<lparr>failed_attempts = failed_attempts r, locked_until = locked_until r, last_login_at = last_login_at r\<rparr>"

definition mem_recordLoginAttempt ::
  "uuid \<Rightarrow> bool \<Rightarrow> js_date \<Rightarrow> 'a account_scheme list \<Rightarrow> (account_error + bool) \<times> 'a account_scheme list" where
  "mem_recordLoginAttempt userId ok now t =
     (case first_row (filter (\<lambda>r. ac_user_id r = userId) t) of
        None \<Rightarrow> (Inl (UserNotFound userId), t)
      | Some user \<Rightarrow>
          let nx = applyAttempt ok now (lockout_of user);
              user' = user\<lparr>failed_attempts := failed_attempts nx, locked_until := locked_until nx, last_login_at := last_login_at nx\<rparr>
          in (Inr (LOCKOUT_THRESHOLD \<le> failed_attempts nx), upd_where (\<lambda>r. ac_user_id r = userId) (\<lambda>_. user') t))"

subsection \<open>The other statements of the local table\<close>

definition local_updatePassword :: "uuid \<Rightarrow> string \<Rightarrow> js_date \<Rightarrow> local_user list \<Rightarrow> (account_error + unit) \<times> local_user list" where
  "local_updatePassword userId newHash now t =
     (let p = (\<lambda>r. ac_user_id r = userId) in
      if hits p t = 0 then (Inl (UserNotFound userId), t)
      else (Inr (), upd_where p (\<lambda>r. r\<lparr>ac_password_hash := Some newHash, ac_password_changed_at := now\<rparr>) t))"

definition reactivateWithPassword :: "uuid \<Rightarrow> string \<Rightarrow> js_date \<Rightarrow> local_user list \<Rightarrow> (account_error + unit) \<times> local_user list" where
  "reactivateWithPassword userId newHash now t =
     (let p = (\<lambda>r. ac_user_id r = userId) in
      if hits p t = 0 then (Inl (UserNotFound userId), t)
      else (Inr (), upd_where p (\<lambda>r. r\<lparr>lu_active := True, lu_role := ''super_admin'', ac_password_hash := Some newHash,
              ac_password_changed_at := now, failed_attempts := 0, locked_until := None\<rparr>) t))"

definition listActiveSuperAdmins :: "local_user list \<Rightarrow> local_user list" where
  "listActiveSuperAdmins t = filter (\<lambda>r. lu_active r \<and> lu_role r = ''super_admin'') t"

text \<open>Disabling reads the state and the number of active administrators, then updates. Under the isolation level of
  the code another transaction may commit between the reads and the update.\<close>

definition disable_check :: "uuid \<Rightarrow> local_user list \<Rightarrow> account_error + unit" where
  "disable_check userId t =
     (case first_row (filter (\<lambda>r. ac_user_id r = userId) t) of
        None \<Rightarrow> Inl (UserNotFound userId)
      | Some r \<Rightarrow> if lu_active r \<and> length (listActiveSuperAdmins t) \<le> 1 then Inl LastSuperAdmin else Inr ())"

definition disable_write :: "uuid \<Rightarrow> local_user list \<Rightarrow> local_user list" where
  "disable_write userId t = upd_where (\<lambda>r. ac_user_id r = userId) (\<lambda>r. r\<lparr>lu_active := False\<rparr>) t"

definition disable_user :: "uuid \<Rightarrow> local_user list \<Rightarrow> (account_error + unit) \<times> local_user list" where
  "disable_user userId t = (case disable_check userId t of Inl e \<Rightarrow> (Inl e, t) | Inr _ \<Rightarrow> (Inr (), disable_write userId t))"

section \<open>Roles\<close>

definition ROLES :: "string list" where
  "ROLES = [''super_admin'', ''platform_owner'', ''platform_operator'', ''knowledge_curator'', ''security_auditor'', ''org_owner'', ''reader'']"

definition rolePrecedence :: "string \<Rightarrow> nat" where
  "rolePrecedence role = (let n = length (takeWhile (\<lambda>r. r \<noteq> role) ROLES) in if n < length ROLES then n else 2 ^ 53 - 1)"


definition higher_role :: "string \<Rightarrow> string \<Rightarrow> string" where
  "higher_role a b = (if rolePrecedence a \<le> rolePrecedence b then a else b)"

fun highestPrecedence :: "string list \<Rightarrow> string option" where
  "highestPrecedence [] = None"
| "highestPrecedence (r # rs) = Some (foldl higher_role r rs)"

definition LDAP_GROUP_TO_ROLE :: "(string \<times> string) list" where
  "LDAP_GROUP_TO_ROLE = map (\<lambda>r. (''codemaster-admin-'' @ r, r)) (tl ROLES)"

definition resolveRoleFromLdapGroups :: "string list \<Rightarrow> string option" where
  "resolveRoleFromLdapGroups cns = highestPrecedence (List.map_filter (map_of LDAP_GROUP_TO_ROLE) cns)"

record role_grant =
  gr_subject_kind :: string
  gr_user_id :: uuid
  gr_scope :: string
  gr_installation_id :: "uuid option"
  gr_role :: string
  gr_revoked_at :: "js_date option"

definition grant_counts :: "uuid \<Rightarrow> uuid \<Rightarrow> role_grant \<Rightarrow> bool" where
  "grant_counts userId installationId g \<longleftrightarrow>
     gr_subject_kind g = ''user'' \<and> gr_user_id g = userId \<and> gr_revoked_at g = None
     \<and> (gr_scope g = ''platform'' \<or> gr_scope g = ''installation'' \<and> gr_installation_id g = Some installationId)"



text \<open>A database error denies the login.\<close>

definition resolve_role :: "bool \<Rightarrow> role_grant list \<Rightarrow> uuid \<Rightarrow> uuid \<Rightarrow> string option" where
  "resolve_role fault grants userId installationId =
     (if fault then None else highestPrecedence (map gr_role (filter (grant_counts userId installationId) grants)))"

section \<open>Authentication\<close>

datatype login_outcome = LoginOk | BadCredentials | AccountLocked | NoRole | LdapUnreachable | AccountDisabled

record login_result =
  lr_outcome :: login_outcome
  lr_role :: "string option"
  lr_user_id :: "uuid option"
  lr_email :: "string option"
  lr_ldap_groups :: "string list"
  lr_auth_source :: "string option"
  lr_installation_id :: "uuid option"
  lr_audit_emitted :: bool

definition outcome_result :: "login_outcome \<Rightarrow> login_result" where
  "outcome_result oc = \<lparr>lr_outcome = oc, lr_role = None, lr_user_id = None, lr_email = None, lr_ldap_groups = [],
     lr_auth_source = None, lr_installation_id = None, lr_audit_emitted = False\<rparr>"

datatype ldap_error = LdapBindError | LdapOther

record ldap_user =
  ld_user_id :: uuid
  ld_email :: string
  ld_groups :: "string list"

record login_env =
  le_verify :: "string option \<Rightarrow> string \<Rightarrow> bool"
  le_ldap :: "string \<Rightarrow> string \<Rightarrow> ldap_error + ldap_user"
  le_core_step :: bool
  le_role_fault :: bool
  le_audit :: "bool option"

record login_db =
  db_local :: "local_user list"
  db_core :: "core_user list"
  db_grants :: "role_grant list"

datatype login_error = LoginAccount account_error | LoginLdap ldap_error

text \<open>What is decided on the rows that were read, and the attempt that is then recorded.\<close>

datatype attempt_record = NoAttempt | LocalAttempt uuid bool | CoreAttempt uuid bool

definition decide_local :: "login_env \<Rightarrow> js_date \<Rightarrow> string \<Rightarrow> local_user \<Rightarrow> login_result \<times> attempt_record" where
  "decide_local env now password user =
     (let emitted = le_audit env \<noteq> None in
      if \<not> lu_active user then (outcome_result AccountDisabled, NoAttempt)
      else if isLocked (locked_until user) now then (outcome_result AccountLocked, NoAttempt)
      else if \<not> le_verify env (ac_password_hash user) password
      then ((outcome_result BadCredentials)\<lparr>lr_audit_emitted := emitted\<rparr>, LocalAttempt (ac_user_id user) False)
      else ((outcome_result LoginOk)\<lparr>lr_role := Some (lu_role user), lr_user_id := Some (ac_user_id user), lr_email := Some (ac_email user),
              lr_auth_source := Some ''local'', lr_audit_emitted := emitted\<rparr>, LocalAttempt (ac_user_id user) True))"

definition decide_core :: "login_env \<Rightarrow> js_date \<Rightarrow> string \<Rightarrow> role_grant list \<Rightarrow> core_user \<Rightarrow> login_result \<times> attempt_record" where
  "decide_core env now password grants user =
     (let emitted = le_audit env \<noteq> None in
      if isLocked (locked_until user) now then (outcome_result AccountLocked, NoAttempt)
      else if \<not> le_verify env (ac_password_hash user) password
      then ((outcome_result BadCredentials)\<lparr>lr_audit_emitted := emitted\<rparr>, CoreAttempt (ac_user_id user) False)
      else (case resolve_role (le_role_fault env) grants (ac_user_id user) (cu_installation_id user) of
              None \<Rightarrow> ((outcome_result NoRole)\<lparr>lr_user_id := Some (ac_user_id user), lr_email := Some (ac_email user),
                lr_installation_id := Some (cu_installation_id user), lr_audit_emitted := emitted\<rparr>, CoreAttempt (ac_user_id user) True)
            | Some role \<Rightarrow> ((outcome_result LoginOk)\<lparr>lr_role := Some role, lr_user_id := Some (ac_user_id user), lr_email := Some (ac_email user),
                lr_auth_source := Some ''core_local'', lr_installation_id := Some (cu_installation_id user), lr_audit_emitted := emitted\<rparr>,
                CoreAttempt (ac_user_id user) True)))"

definition decide_ldap :: "login_env \<Rightarrow> string \<Rightarrow> string \<Rightarrow> login_error + login_result" where
  "decide_ldap env username password =
     (case le_ldap env username password of
        Inl LdapBindError \<Rightarrow> Inr (outcome_result BadCredentials)
      | Inl e \<Rightarrow> Inl (LoginLdap e)
      | Inr user \<Rightarrow>
          case resolveRoleFromLdapGroups (ld_groups user) of
            None \<Rightarrow> Inr ((outcome_result NoRole)\<lparr>lr_user_id := Some (ld_user_id user), lr_email := Some (ld_email user), lr_ldap_groups := ld_groups user\<rparr>)
          | Some role \<Rightarrow> Inr ((outcome_result LoginOk)\<lparr>lr_role := Some role, lr_user_id := Some (ld_user_id user), lr_email := Some (ld_email user),
              lr_ldap_groups := ld_groups user, lr_auth_source := Some ''ldap''\<rparr>))"

definition login_decide :: "login_env \<Rightarrow> js_date \<Rightarrow> string \<Rightarrow> string \<Rightarrow> login_db \<Rightarrow> login_error + (login_result \<times> attempt_record)" where
  "login_decide env now username password db =
     (case local_getByUsername username (db_local db) of
        Some user \<Rightarrow> Inr (decide_local env now password user)
      | None \<Rightarrow>
          case (if le_core_step env then core_getByUsername username (db_core db) else None) of
            Some user \<Rightarrow> Inr (decide_core env now password (db_grants db) user)
          | None \<Rightarrow> map_sum id (\<lambda>r. (r, NoAttempt)) (decide_ldap env username password))"

definition login_record :: "login_env \<Rightarrow> js_date \<Rightarrow> attempt_record \<Rightarrow> login_db \<Rightarrow> (login_error + unit) \<times> login_db" where
  "login_record env now a db =
     (case a of
        NoAttempt \<Rightarrow> (Inr (), db)
      | LocalAttempt userId ok \<Rightarrow>
          (case local_recordLoginAttempt userId ok now (le_audit env) (db_local db) of (r, t) \<Rightarrow> (map_sum LoginAccount (\<lambda>_. ()) r, db\<lparr>db_local := t\<rparr>))
      | CoreAttempt userId ok \<Rightarrow>
          (case core_recordLoginAttempt userId ok now (le_audit env) (db_core db) of (r, t) \<Rightarrow> (map_sum LoginAccount (\<lambda>_. ()) r, db\<lparr>db_core := t\<rparr>)))"

definition authenticate :: "login_env \<Rightarrow> js_date \<Rightarrow> string \<Rightarrow> string \<Rightarrow> login_db \<Rightarrow> (login_error + login_result) \<times> login_db" where
  "authenticate env now username password db =
     (case login_decide env now username password db of
        Inl e \<Rightarrow> (Inl e, db)
      | Inr (r, a) \<Rightarrow> (case login_record env now a db of (Inl e, db') \<Rightarrow> (Inl e, db') | (Inr _, db') \<Rightarrow> (Inr r, db')))"

section \<open>The login route\<close>

definition SESSION_LIFETIME_MS :: int where "SESSION_LIFETIME_MS = 12 * 60 * 60 * 1000"

definition outcome_status :: "login_outcome \<Rightarrow> nat" where
  "outcome_status oc = (case oc of LoginOk \<Rightarrow> 200 | BadCredentials \<Rightarrow> 401 | AccountLocked \<Rightarrow> 423 | AccountDisabled \<Rightarrow> 403 | NoRole \<Rightarrow> 403 | LdapUnreachable \<Rightarrow> 503)"

record login_response =
  rp_status :: nat
  rp_session :: "(uuid \<times> string \<times> js_date) option"

record route_faults =
  rf_check :: bool
  rf_failure :: "nat option"
  rf_success :: bool

definition post_login ::
  "login_env \<Rightarrow> route_faults \<Rightarrow> login_request \<Rightarrow> string \<Rightarrow> string \<Rightarrow> failure_table \<times> login_db \<Rightarrow> login_response \<times> failure_table \<times> login_db" where
  "post_login env flt rq username password st =
     (case st of (t, db) \<Rightarrow>
       let (allowed, t1) = pg_checkAllowed (rf_check flt) LOGIN_LIMITS (rq_at rq) (rq_key rq) t in
       if \<not> allowed then (\<lparr>rp_status = 429, rp_session = None\<rparr>, t1, db)
       else (case authenticate env (rq_at rq) username password db of
               (Inl e, db') \<Rightarrow> (\<lparr>rp_status = 500, rp_session = None\<rparr>, t1, db')
             | (Inr r, db') \<Rightarrow>
                 if lr_outcome r = LoginOk
                 then (\<lparr>rp_status = 200, rp_session = Some (the (lr_user_id r), the (lr_role r), rq_at rq + SESSION_LIFETIME_MS)\<rparr>,
                       pg_recordSuccess (rf_success flt) (rq_key rq) t1, db')
                 else (\<lparr>rp_status = outcome_status (lr_outcome r), rp_session = None\<rparr>,
                       pg_recordFailure (rf_failure flt) LOGIN_LIMITS (rq_settled rq) (rq_pruned rq) (rq_key rq) t1, db')))"

section \<open>The two repositories agree\<close>

lemma count_failure_applyAttempt:
  "r\<lparr>failed_attempts := failed_attempts (applyAttempt ok now (lockout_of r)), locked_until := locked_until (applyAttempt ok now (lockout_of r)),
     last_login_at := last_login_at (applyAttempt ok now (lockout_of r))\<rparr> = (if ok then clear_lockout now r else count_failure now r)"
  by (simp add: applyAttempt_def lockout_of_def clear_lockout_def count_failure_def Let_def)

lemma returning_first: "first_row (returning p f t) = map_option f (first_row (filter p t))"
  by (simp add: returning_def first_row_def split: list.split)

lemma first_row_key:
  assumes "distinct (map ac_user_id t)" and "first_row (filter (\<lambda>r. ac_user_id r = u) t) = Some x"
  shows "upd_where (\<lambda>r. ac_user_id r = u) (\<lambda>_. f x) t = upd_where (\<lambda>r. ac_user_id r = u) f t"
proof -
  have "x \<in> set t" "ac_user_id x = u" using first_row_Some [OF assms(2)] by simp_all
  then have "r = x" if "r \<in> set t" "ac_user_id r = u" for r using assms(1) that by (auto simp: distinct_map inj_on_def)
  then show ?thesis by (auto simp: upd_where_def)
qed

lemma record_attempt_double:
  assumes "distinct (map ac_user_id t)" and "\<And>r. r \<in> set t \<Longrightarrow> credentialed r" and "audit \<noteq> Some False"
  shows "record_attempt credentialed userId ok now audit t = mem_recordLoginAttempt userId ok now t"
proof -
  have p: "filter (\<lambda>r. ac_user_id r = userId \<and> credentialed r) t = filter (\<lambda>r. ac_user_id r = userId) t"
    using assms(2) by (auto intro: filter_cong)
  have u: "upd_where (\<lambda>r. ac_user_id r = userId \<and> credentialed r) f t = upd_where (\<lambda>r. ac_user_id r = userId) f t" for f
    using assms(2) by (auto simp: upd_where_def)
  show ?thesis
  proof (cases "first_row (filter (\<lambda>r. ac_user_id r = userId) t)")
    case (Some x)
    let ?f = "if ok then clear_lockout now else count_failure now"
    have f: "failed_attempts (applyAttempt ok now (lockout_of x)) = failed_attempts (?f x)"
      by (simp add: applyAttempt_def lockout_of_def clear_lockout_def count_failure_def Let_def)
    have "mem_recordLoginAttempt userId ok now t
        = (Inr (LOCKOUT_THRESHOLD \<le> failed_attempts (applyAttempt ok now (lockout_of x))), upd_where (\<lambda>r. ac_user_id r = userId) (\<lambda>_. ?f x) t)"
      by (simp only: mem_recordLoginAttempt_def Let_def Some option.case count_failure_applyAttempt) simp
    then show ?thesis using first_row_key [OF assms(1) Some, of ?f] assms(3)
      by (simp add: record_attempt_def Let_def returning_first p Some u f)
  qed (simp add: record_attempt_def mem_recordLoginAttempt_def Let_def returning_first p)
qed

section \<open>Roles are resolved to the highest\<close>



lemma highestPrecedence_None_iff [simp]: "highestPrecedence rs = None \<longleftrightarrow> rs = []"
  by (cases rs) auto





section \<open>Who gets in\<close>


lemma outcome_simps [simp]:
  "lr_outcome (outcome_result oc) = oc" "lr_role (outcome_result oc) = None" "lr_user_id (outcome_result oc) = None"
  "lr_auth_source (outcome_result oc) = None" "lr_installation_id (outcome_result oc) = None"
  by (simp_all add: outcome_result_def)








section \<open>The lockout\<close>

lemma filter_upd_where_keep: "(\<And>r. q (f r) = q r) \<Longrightarrow> filter q (upd_where p f t) = upd_where p f (filter q t)"
  by (induction t) auto

lemma failure_step:
  assumes "local_getByUsername username (db_local db) = Some u" and "lu_active u" and "\<not> isLocked (locked_until u) now"
    and "\<not> le_verify env (ac_password_hash u) password" and "le_audit env \<noteq> Some False"
  shows "\<exists>r db'. authenticate env now username password db = (Inr r, db') \<and> lr_outcome r = BadCredentials
    \<and> local_getByUsername username (db_local db') = Some (count_failure now u)"
proof -
  let ?p = "\<lambda>r. ac_user_id r = ac_user_id u \<and> True" and ?t = "db_local db"
  have u: "u \<in> set ?t" using first_row_Some assms(1) by (fastforce simp: local_getByUsername_def)
  have "filter ?p ?t \<noteq> []" using u by (auto simp: filter_empty_conv)
  then obtain x where x: "first_row (filter ?p ?t) = Some x" by (cases "filter ?p ?t") simp_all
  have rec: "local_recordLoginAttempt (ac_user_id u) False now (le_audit env) ?t
      = (Inr (LOCKOUT_THRESHOLD \<le> failed_attempts (count_failure now x)), upd_where ?p (count_failure now) ?t)"
    using x assms(5) by (simp add: local_recordLoginAttempt_def record_attempt_def Let_def returning_first)
  have name: "filter (\<lambda>r. ac_username r = Some username) (upd_where ?p (count_failure now) ?t)
      = upd_where ?p (count_failure now) (filter (\<lambda>r. ac_username r = Some username) ?t)"
    by (rule filter_upd_where_keep) (simp add: count_failure_def)
  have "local_getByUsername username (upd_where ?p (count_failure now) ?t) = Some (count_failure now u)"
    using assms(1) unfolding local_getByUsername_def name
    by (cases "filter (\<lambda>r. ac_username r = Some username) ?t") simp_all
  then show ?thesis using assms rec
    by (simp add: authenticate_def login_decide_def decide_local_def login_record_def Let_def map_sum_def)
qed

lemma success_step:
  assumes "local_getByUsername username (db_local db) = Some u" and "lu_active u" and "\<not> isLocked (locked_until u) now"
    and "le_verify env (ac_password_hash u) password" and "le_audit env \<noteq> Some False"
  shows "\<exists>r. fst (authenticate env now username password db) = Inr r \<and> lr_outcome r = LoginOk"
proof -
  let ?p = "\<lambda>r. ac_user_id r = ac_user_id u \<and> True" and ?t = "db_local db"
  have u: "u \<in> set ?t" using first_row_Some assms(1) by (fastforce simp: local_getByUsername_def)
  have "filter ?p ?t \<noteq> []" using u by (auto simp: filter_empty_conv)
  then obtain x where x: "first_row (filter ?p ?t) = Some x" by (cases "filter ?p ?t") simp_all
  then show ?thesis using assms
    by (simp add: authenticate_def login_decide_def decide_local_def login_record_def Let_def map_sum_def
        local_recordLoginAttempt_def record_attempt_def returning_first)
qed

definition guess :: "login_env \<Rightarrow> string \<Rightarrow> js_date \<times> string \<Rightarrow> login_db \<Rightarrow> login_db" where
  "guess env username g db = snd (authenticate env (fst g) username (snd g) db)"

lemma guesses_row:
  assumes "local_getByUsername username (db_local db) = Some u" and "lu_active u" and "LOCKOUT_THRESHOLD \<le> failed_attempts u"
    and "\<And>g. g \<in> set gs \<Longrightarrow> \<not> isLocked (locked_until u) (fst g) \<and> \<not> le_verify env (ac_password_hash u) (snd g)"
    and "le_audit env \<noteq> Some False"
  shows "local_getByUsername username (db_local (fold (guess env username) gs db)) = Some (u\<lparr>failed_attempts := failed_attempts u + int (length gs)\<rparr>)"
  using assms(1-4)
proof (induction gs arbitrary: db u)
  case (Cons g gs)
  obtain r db' where g: "authenticate env (fst g) username (snd g) db = (Inr r, db')"
    "local_getByUsername username (db_local db') = Some (count_failure (fst g) u)"
    using failure_step [OF Cons.prems(1,2) _ _ assms(5), of "fst g" "snd g"] Cons.prems(4) by auto
  have cf: "count_failure (fst g) u = u\<lparr>failed_attempts := failed_attempts u + 1\<rparr>"
    using Cons.prems(3) by (simp add: count_failure_def LOCKOUT_THRESHOLD_def)
  have "local_getByUsername username (db_local (fold (guess env username) gs db'))
      = Some ((count_failure (fst g) u)\<lparr>failed_attempts := failed_attempts (count_failure (fst g) u) + int (length gs)\<rparr>)"
    using Cons.prems by (intro Cons.IH [OF g(2)]) (simp_all add: cf)
  moreover have "guess env username g db = db'" by (simp add: guess_def g(1))
  ultimately show ?case by (simp add: cf add.commute add.left_commute)
qed simp

text \<open>The lockout fires once. When it has run out and the password is still wrong, the counter is past the
  threshold and never equals it again: however many wrong passwords follow, in whatever time, each is checked against the
  hash and the account stays open, until the right one is let in.\<close>

theorem lockout_never_rearms:
  assumes "local_getByUsername username (db_local db) = Some u" and "lu_active u" and "LOCKOUT_THRESHOLD \<le> failed_attempts u"
    and "\<And>g. g \<in> set gs \<Longrightarrow> \<not> isLocked (locked_until u) (fst g) \<and> \<not> le_verify env (ac_password_hash u) (snd g)"
    and "le_audit env \<noteq> Some False" and "\<not> isLocked (locked_until u) now" and "le_verify env (ac_password_hash u) password"
  shows "\<exists>r. fst (authenticate env now username password (fold (guess env username) gs db)) = Inr r \<and> lr_outcome r = LoginOk"
  by (rule success_step [OF guesses_row [OF assms(1-5)]]) (use assms in simp_all)

text \<open>Up to the threshold the lockout holds: after the failure that reaches it, a quarter of an hour of right and
  wrong passwords is answered by \<open>AccountLocked\<close>, and none of them is checked or counted.\<close>

theorem lockout_holds:
  assumes "local_getByUsername username (db_local db) = Some u" and "lu_active u" and "failed_attempts u + 1 = LOCKOUT_THRESHOLD"
    and "\<not> isLocked (locked_until u) now" and "\<not> le_verify env (ac_password_hash u) wrong" and "le_audit env \<noteq> Some False"
    and "now' < now + LOCKOUT_DURATION_MS"
  shows "authenticate env now' username password (guess env username (now, wrong) db)
    = (Inr (outcome_result AccountLocked), guess env username (now, wrong) db)"
proof -
  obtain r db' where s: "authenticate env now username wrong db = (Inr r, db')"
    "local_getByUsername username (db_local db') = Some (count_failure now u)"
    using failure_step [OF assms(1,2,4,5,6)] by blast
  have "locked_until (count_failure now u) = Some (now + LOCKOUT_DURATION_MS)" "lu_active (count_failure now u)"
    using assms(2,3) by (simp_all add: count_failure_def)
  then show ?thesis using s assms(7)
    by (simp add: guess_def authenticate_def [of env now'] login_decide_def decide_local_def login_record_def isLocked_def Let_def)
qed

section \<open>The last administrator\<close>

lemma active_after_disable:
  "listActiveSuperAdmins (disable_write userId t) = filter (\<lambda>r. ac_user_id r \<noteq> userId) (listActiveSuperAdmins t)"
  by (induction t) (auto simp: listActiveSuperAdmins_def disable_write_def)

text \<open>One after another, disabling never removes the last active administrator.\<close>

theorem disable_keeps_admin:
  assumes "distinct (map ac_user_id t)" and "listActiveSuperAdmins t \<noteq> []" and "\<And>r. r \<in> set t \<Longrightarrow> lu_role r = ''super_admin''"
  shows "listActiveSuperAdmins (snd (disable_user userId t)) \<noteq> []"
proof (cases "disable_check userId t")
  case (Inr ok)
  obtain r where fr: "first_row (filter (\<lambda>r. ac_user_id r = userId) t) = Some r"
    using Inr by (cases "first_row (filter (\<lambda>r. ac_user_id r = userId) t)") (simp_all add: disable_check_def)
  have "r \<in> set (filter (\<lambda>r. ac_user_id r = userId) t)" by (rule first_row_Some [OF fr])
  moreover have "\<not> (lu_active r \<and> length (listActiveSuperAdmins t) \<le> 1)"
    using Inr fr by (simp add: disable_check_def split: if_splits)
  ultimately have r: "r \<in> set t" "ac_user_id r = userId" "\<not> (lu_active r \<and> length (listActiveSuperAdmins t) \<le> 1)" by simp_all
  let ?A = "listActiveSuperAdmins t"
  have only: "x = r" if "x \<in> set t" "ac_user_id x = userId" for x using assms(1) that r(1,2) by (auto simp: distinct_map inj_on_def)
  have "filter (\<lambda>x. ac_user_id x \<noteq> userId) ?A \<noteq> []"
  proof (cases "lu_active r")
    case False
    then have "filter (\<lambda>x. ac_user_id x \<noteq> userId) ?A = ?A" using only unfolding listActiveSuperAdmins_def filter_filter by (intro filter_cong) auto
    then show ?thesis using assms(2) by simp
  next
    case True
    then have two: "1 < length ?A" using r(3) by simp
    obtain p q rest where A: "?A = p # q # rest" using two by (cases ?A; cases "tl ?A") simp_all
    have "distinct (p # q # rest)" 
      using assms(1) unfolding A [symmetric] listActiveSuperAdmins_def by (simp add: distinct_map)
    then have "p \<noteq> r \<or> q \<noteq> r" by auto
    then have "\<exists>x\<in>set ?A. x \<noteq> r" unfolding A by auto
    then obtain x where x: "x \<in> set ?A" "x \<noteq> r" by blast
    then have "x \<in> set t" by (simp add: listActiveSuperAdmins_def)
    then have "ac_user_id x \<noteq> userId" using only x(2) by blast
    then show ?thesis using x(1) by (auto simp: filter_empty_conv)
  qed
  then show ?thesis by (simp add: disable_user_def Inr active_after_disable)
qed (simp add: disable_user_def assms(2))

text \<open>Two transactions that disable the last two administrators at the same time both read two active rows,
  and both commit: no active administrator is left.\<close>

theorem concurrent_disables_lock_out:
  assumes "listActiveSuperAdmins t = [x, y]" and "distinct (map ac_user_id t)"
  shows "disable_check (ac_user_id x) t = Inr () \<and> disable_check (ac_user_id y) t = Inr ()
    \<and> listActiveSuperAdmins (disable_write (ac_user_id y) (disable_write (ac_user_id x) t)) = []"
proof -
  have in_t: "x \<in> set t" "y \<in> set t"
    using arg_cong [OF assms(1), of set] by (auto simp: listActiveSuperAdmins_def)
  have "disable_check (ac_user_id z) t = Inr ()" if "z \<in> set t" for z
  proof -
    have "filter (\<lambda>r. ac_user_id r = ac_user_id z) t \<noteq> []" using that by (auto simp: filter_empty_conv)
    then show ?thesis using assms(1) by (cases "filter (\<lambda>r. ac_user_id r = ac_user_id z) t") (simp_all add: disable_check_def)
  qed
  then show ?thesis using in_t by (simp add: active_after_disable assms(1))
qed

section \<open>Instances\<close>

definition demo_admin :: "uuid \<Rightarrow> string \<Rightarrow> int \<Rightarrow> local_user" where
  "demo_admin i name n = \<lparr>failed_attempts = n, locked_until = Some 0, last_login_at = None, ac_user_id = i, ac_username = Some name,
     ac_email = ''e'', ac_name = ''n'', ac_password_hash = Some ''pw'', ac_password_changed_at = 0, lu_role = ''super_admin'', lu_active = True\<rparr>"

definition demo_login_env :: login_env where
  "demo_login_env = \<lparr>le_verify = (\<lambda>h p. h = Some p), le_ldap = (\<lambda>_ _. Inl LdapBindError), le_core_step = True, le_role_fault = False, le_audit = Some True\<rparr>"

definition demo_login_db :: "int \<Rightarrow> login_db" where
  "demo_login_db n = \<lparr>db_local = [demo_admin ''u1'' ''root'' n], db_core = [], db_grants = []\<rparr>"

lemmas demo_login_simps = demo_admin_def demo_login_env_def demo_login_db_def local_getByUsername_def isLocked_def LOCKOUT_THRESHOLD_def
  LOCKOUT_DURATION_MS_def


theorem lockout_never_rearms_witness:
  "\<exists>r. fst (authenticate demo_login_env 3 ''root'' ''pw'' (fold (guess demo_login_env ''root'') [(1, ''x''), (2, ''y'')] (demo_login_db 5))) = Inr r
     \<and> lr_outcome r = LoginOk"
  by (rule lockout_never_rearms [where u = "demo_admin ''u1'' ''root'' 5"]) (auto simp: demo_login_simps)

theorem lockout_holds_witness:
  "authenticate demo_login_env 900000 ''root'' ''pw'' (guess demo_login_env ''root'' (1, ''x'') (demo_login_db 4))
    = (Inr (outcome_result AccountLocked), guess demo_login_env ''root'' (1, ''x'') (demo_login_db 4))"
  by (rule lockout_holds [where u = "demo_admin ''u1'' ''root'' 4"]) (auto simp: demo_login_simps)

theorem disable_keeps_admin_witness:
  "listActiveSuperAdmins (snd (disable_user ''u1'' [demo_admin ''u1'' ''a'' 0, demo_admin ''u2'' ''b'' 0])) \<noteq> []"
  by (rule disable_keeps_admin) (auto simp: demo_admin_def listActiveSuperAdmins_def)

theorem concurrent_disables_lock_out_witness:
  "listActiveSuperAdmins (disable_write ''u2'' (disable_write ''u1'' [demo_admin ''u1'' ''a'' 0, demo_admin ''u2'' ''b'' 0])) = []"
  using concurrent_disables_lock_out [of "[demo_admin ''u1'' ''a'' 0, demo_admin ''u2'' ''b'' 0]" "demo_admin ''u1'' ''a'' 0" "demo_admin ''u2'' ''b'' 0"]
  by (simp add: demo_admin_def listActiveSuperAdmins_def)

end
