(* ===== verification/Llm_Client.thy ===== *)
theory Llm_Client
  imports Cost_Journal Canonical_Json
begin

text \<open>
  One paid model call (\<^verbatim>\<open>integrations/llm/client.ts\<close>) and the ledger that keeps it from being paid
  twice (\<^verbatim>\<open>integrations/llm/invocation_ledger.ts\<close>), over the cost caps of \<open>Cost\<close> and the journal of
  \<open>Cost_Journal\<close>. What the provider answers, the digests, the output validator, the archive redactor and which
  store fails are parameters; so are the instants the clock returns. The trace export has no effect
  on the result and is left out. Prices are computed over the rationals. The calls of the provider are logged
  in \<open>ll_provider\<close>, which the code cannot read.
\<close>

section \<open>The price of a call\<close>

definition USD_CENTS_PER_PROMPT_TOKEN :: "(string \<times> rat) list" where
  "USD_CENTS_PER_PROMPT_TOKEN = [(''claude-opus-4-7'', 15 / 10000), (''claude-sonnet-4-6'', 3 / 10000), (''claude-haiku-4-5-20251001'', 25 / 1000000)]"

definition USD_CENTS_PER_COMPLETION_TOKEN :: "(string \<times> rat) list" where
  "USD_CENTS_PER_COMPLETION_TOKEN =
     [(''claude-opus-4-7'', 75 / 10000), (''claude-sonnet-4-6'', 15 / 10000), (''claude-haiku-4-5-20251001'', 125 / 1000000)]"

definition price :: "(string \<times> rat) list \<Rightarrow> string \<Rightarrow> rat" where
  "price m model = (case map_of m model of None \<Rightarrow> 0 | Some c \<Rightarrow> c)"

text \<open>\<^verbatim>\<open>Math.trunc\<close>.\<close>

definition js_trunc :: "rat \<Rightarrow> int" where
  "js_trunc x = (if 0 \<le> x then \<lfloor>x\<rfloor> else \<lceil>x\<rceil>)"

definition estimateCentsPreCall :: "string \<Rightarrow> nat \<Rightarrow> int" where
  "estimateCentsPreCall model promptChars =
     (let estimatedPromptTokens = max 1 (promptChars div 4); estimatedCompletionTokens = 1024;
        cents = of_nat estimatedPromptTokens * price USD_CENTS_PER_PROMPT_TOKEN model
          + estimatedCompletionTokens * price USD_CENTS_PER_COMPLETION_TOKEN model
      in max 1 (js_trunc cents))"

definition CACHE_READ_PROMPT_COST_FACTOR :: rat where "CACHE_READ_PROMPT_COST_FACTOR = 1 / 10"
definition CACHE_WRITE_PROMPT_COST_FACTOR :: rat where "CACHE_WRITE_PROMPT_COST_FACTOR = 125 / 100"

definition finalCents :: "string \<Rightarrow> int \<Rightarrow> int \<Rightarrow> int \<Rightarrow> int \<Rightarrow> int" where
  "finalCents model promptTokens completionTokens readTokens creationTokens =
     (let promptRate = price USD_CENTS_PER_PROMPT_TOKEN model;
        cents = of_int promptTokens * promptRate + of_int readTokens * promptRate * CACHE_READ_PROMPT_COST_FACTOR
          + of_int creationTokens * promptRate * CACHE_WRITE_PROMPT_COST_FACTOR
          + of_int completionTokens * price USD_CENTS_PER_COMPLETION_TOKEN model
      in max 1 (js_trunc cents))"

section \<open>The ledger\<close>

record ledger_key_inputs =
  lk_reviewId :: uuid
  lk_chunkId :: uuid
  lk_role :: string
  lk_model :: string
  lk_promptSha256 :: string
  lk_toolSchemaVersion :: string

text \<open>The rows of \<^verbatim>\<open>core.llm_invocation_ledger\<close>.\<close>

record ledger_row = ledger_key_inputs +
  lg_key :: string
  lg_installation_id :: uuid
  lg_response :: "rat json"
  lg_created_at :: db_time

definition ledger_preimage :: "ledger_key_inputs \<Rightarrow> string" where
  "ledger_preimage i = join_with (CHR 0x00)
     [lk_reviewId i, lk_chunkId i, lk_role i, lk_model i, lk_promptSha256 i, lk_toolSchemaVersion i]"

definition computeKey :: "(string \<Rightarrow> string) \<Rightarrow> ledger_key_inputs \<Rightarrow> string" where
  "computeKey sha256 i = sha256 (ledger_preimage i)"

definition ledger_lookup :: "string \<Rightarrow> uuid \<Rightarrow> ledger_row list \<Rightarrow> rat json option" where
  "ledger_lookup key installationId t =
     (case first_row (filter (\<lambda>r. lg_key r = key \<and> lg_installation_id r = installationId) t) of
        None \<Rightarrow> None
      | Some r \<Rightarrow> case lg_response r of JObj kvs \<Rightarrow> Some (JObj kvs) | _ \<Rightarrow> None)"

definition ledger_store :: "ledger_row \<Rightarrow> ledger_row list \<Rightarrow> ledger_row list" where
  "ledger_store r t = (if lg_key r \<in> lg_key ` set t then t else t @ [r])"

definition pruneOlderThan :: "db_time \<Rightarrow> int \<Rightarrow> ledger_row list \<Rightarrow> nat \<times> ledger_row list" where
  "pruneOlderThan now days t =
     (let old = (\<lambda>r. lg_created_at r < now - days * 86400000000) in (hits old t, filter (\<lambda>r. \<not> old r) t))"

section \<open>Reading a response\<close>

definition json_field :: "string \<Rightarrow> 'n json \<Rightarrow> 'n json option" where
  "json_field k v = (case v of JObj kvs \<Rightarrow> map_of kvs k | _ \<Rightarrow> None)"

definition is_record :: "'n json \<Rightarrow> bool" where
  "is_record v \<longleftrightarrow> (case v of JObj _ \<Rightarrow> True | _ \<Rightarrow> False)"

text \<open>\<open>num\<close> is \<^verbatim>\<open>Number\<close> of a text, when that is finite.\<close>

definition intOrZero :: "(string \<Rightarrow> rat option) \<Rightarrow> rat json option \<Rightarrow> int" where
  "intOrZero num v =
     (case v of
        Some (JNum n) \<Rightarrow> js_trunc n
      | Some (JStr s) \<Rightarrow> if s = [] then 0 else (case num s of Some n \<Rightarrow> js_trunc n | None \<Rightarrow> 0)
      | _ \<Rightarrow> 0)"

text \<open>\<open>str\<close> is \<^verbatim>\<open>String\<close> of a value that is no string and not null.\<close>

definition pyStr :: "(rat json \<Rightarrow> string) \<Rightarrow> rat json option \<Rightarrow> string" where
  "pyStr str v = (case v of None \<Rightarrow> [] | Some JNull \<Rightarrow> [] | Some (JStr s) \<Rightarrow> s | Some x \<Rightarrow> str x)"

definition content_blocks :: "rat json \<Rightarrow> rat json list" where
  "content_blocks response = (case json_field ''content'' response of Some (JArr bs) \<Rightarrow> if bs = [] then [JObj []] else bs | _ \<Rightarrow> [JObj []])"

definition content_text :: "(rat json \<Rightarrow> string) \<Rightarrow> rat json \<Rightarrow> string" where
  "content_text str response =
     (case content_blocks response of [] \<Rightarrow> [] | b # _ \<Rightarrow> if is_record b then pyStr str (json_field ''text'' b) else [])"

definition redact_block :: "(string \<Rightarrow> string) \<Rightarrow> rat json \<Rightarrow> rat json" where
  "redact_block red b =
     (case b of
        JObj kvs \<Rightarrow> (case map_of kvs ''text'' of
            Some (JStr s) \<Rightarrow> JObj (map (\<lambda>(k, v). (k, if k = ''text'' then JStr (red s) else v)) kvs)
          | _ \<Rightarrow> JObj kvs)
      | _ \<Rightarrow> b)"

definition redactResponseForArchive :: "(string \<Rightarrow> string) \<Rightarrow> rat json \<Rightarrow> rat json" where
  "redactResponseForArchive red response =
     (case response of
        JObj kvs \<Rightarrow> (case map_of kvs ''content'' of
            Some (JArr bs) \<Rightarrow> JObj (map (\<lambda>(k, v). (k, if k = ''content'' then JArr (map (redact_block red) bs) else v)) kvs)
          | _ \<Rightarrow> JObj kvs)
      | _ \<Rightarrow> response)"

section \<open>The day of an instant\<close>

definition pad :: "nat \<Rightarrow> string \<Rightarrow> string" where
  "pad n s = replicate (n - length s) (CHR ''0'') @ s"

definition year_of_era :: "int \<Rightarrow> int" where
  "year_of_era doe = (doe - doe div 1460 + doe div 36524 - doe div 146096) div 365"

definition month_day :: "int \<Rightarrow> int \<times> int" where
  "month_day doy = (let mp = (5 * doy + 2) div 153 in (if mp < 10 then mp + 3 else mp - 9, doy - (153 * mp + 2) div 5 + 1))"

text \<open>The date of a day counted from 1 March of the year 0.\<close>

definition civil_date :: "int \<Rightarrow> int \<times> int \<times> int" where
  "civil_date z =
     (let doe = z mod 146097; yoe = year_of_era doe; (m, d) = month_day (doe - (365 * yoe + yoe div 4 - yoe div 100))
      in (yoe + z div 146097 * 400 + (if m \<le> 2 then 1 else 0), m, d))"

text \<open>\<^verbatim>\<open>toISOString().slice(0, 10)\<close> for the years 0 to 9999.\<close>

definition isoDate :: "js_date \<Rightarrow> string" where
  "isoDate ms = (case civil_date (ms div 86400000 + 719468) of (y, m, d) \<Rightarrow>
     pad 4 (int_text y) @ ''-'' @ pad 2 (int_text m) @ ''-'' @ pad 2 (int_text d))"

section \<open>A call\<close>

record llm_message =
  ms_role :: string
  ms_content :: string

record idempotency =
  ip_reviewId :: uuid
  ip_chunkId :: uuid
  ip_toolSchemaVersion :: string

record invoke_args =
  ia_role :: string
  ia_model :: "string option"
  ia_messages :: "llm_message list"
  ia_maxTokens :: int
  ia_purpose :: string
  ia_installationId :: uuid
  ia_idempotency :: "idempotency option"
  ia_aborted :: "string option"
  ia_cachePrefixMessages :: "int option"

text \<open>An error of the provider adapter: of the typed family, or anything else, with its name and message.\<close>

datatype sdk_error = SdkTyped string string | SdkRaw string string

datatype invoke_error =
    InvTypeError
  | InvAborted string
  | InvLedgerRequired
  | InvCost cost_error
  | InvSdk string string
  | InvFault string
  | InvUnsafe string "rat json list" uuid

record invoke_result =
  ir_request_id :: uuid
  ir_model :: string
  ir_prompt_tokens :: int
  ir_completion_tokens :: int
  ir_latency_ms :: int
  ir_cost_usd_cents :: int
  ir_payload_blob_ref :: string
  ir_content :: string
  ir_stop_reason :: string
  ir_raw_content_blocks :: "rat json list"
  ir_role :: string

record call_row =
  cl_installation_id :: uuid
  cl_request_id :: uuid
  cl_model :: string
  cl_prompt_tokens :: int
  cl_completion_tokens :: int
  cl_latency_ms :: int
  cl_cost_usd_cents :: int
  cl_status :: string
  cl_created_at :: js_date

datatype blob_body = RequestBody string "(string \<times> string) list" int string | ResponseBody "rat json"

record llm_db =
  ll_daily :: "daily_row list"
  ll_journal :: "journal_row list"
  ll_ledger :: "ledger_row list"
  ll_calls :: "call_row list"
  ll_blobs :: "(uuid \<times> string \<times> blob_body) list"
  ll_provider :: "(string option \<times> bool) list"

text \<open>The client's collaborators and one call's surroundings. A fault of a store is the error text it throws.\<close>

record invoke_env =
  ie_has_ledger :: bool
  ie_strict :: bool
  ie_journal_on :: bool
  ie_sha256 :: "string \<Rightarrow> string"
  ie_hashMessages :: "llm_message list \<Rightarrow> string"
  ie_redact :: "string \<Rightarrow> string"
  ie_safe :: "string \<Rightarrow> bool"
  ie_num :: "string \<Rightarrow> rat option"
  ie_str :: "rat json \<Rightarrow> string"
  ie_sdk :: "sdk_error + rat json"
  ie_requestId :: uuid
  ie_latency :: int
  ie_check_at :: js_date
  ie_settle_at :: js_date
  ie_check1 :: cost_env
  ie_check2 :: cost_env
  ie_settle :: cost_env
  ie_reserve_journal :: journal_env
  ie_settle_journal :: journal_env
  ie_db_now :: db_time
  ie_lookup_fault :: "string option"
  ie_store_fault :: bool
  ie_request_fault :: "string option"
  ie_response_fault :: "string option"
  ie_telemetry_fault :: "string option"

definition TELEMETRY_MISSING_INSTALLATION_ID :: uuid where
  "TELEMETRY_MISSING_INSTALLATION_ID = ''ffffffff-ffff-ffff-ffff-ffffffffffff''"

definition telemetry_iid :: "invoke_args \<Rightarrow> uuid" where
  "telemetry_iid a = (if ia_installationId a = [] then TELEMETRY_MISSING_INSTALLATION_ID else ia_installationId a)"

definition client_constructible :: "invoke_env \<Rightarrow> bool" where
  "client_constructible e \<longleftrightarrow> \<not> (ie_strict e \<and> \<not> ie_has_ledger e)"

definition key_inputs :: "invoke_env \<Rightarrow> invoke_args \<Rightarrow> string \<Rightarrow> idempotency \<Rightarrow> ledger_key_inputs" where
  "key_inputs e a model i = \<lparr>lk_reviewId = ip_reviewId i, lk_chunkId = ip_chunkId i, lk_role = ia_role a, lk_model = model,
     lk_promptSha256 = ie_hashMessages e (ia_messages a), lk_toolSchemaVersion = ip_toolSchemaVersion i\<rparr>"

definition idempotency_key :: "invoke_env \<Rightarrow> invoke_args \<Rightarrow> string \<Rightarrow> string option" where
  "idempotency_key e a model =
     (if ie_has_ledger e then map_option (\<lambda>i. computeKey (ie_sha256 e) (key_inputs e a model i)) (ia_idempotency a) else None)"

definition estimate :: "invoke_args \<Rightarrow> string \<Rightarrow> int" where
  "estimate a model = estimateCentsPreCall model (sum_list (map (length \<circ> ms_content) (ia_messages a)))"

text \<open>The cap check is tried again once when a row lock timed out; a second timeout is a refusal.\<close>

definition cap_check :: "invoke_env \<Rightarrow> uuid \<Rightarrow> int \<Rightarrow> string \<Rightarrow> daily_row list \<Rightarrow> (cost_error + unit) \<times> daily_row list" where
  "cap_check e iid est today t =
     (case checkOrRaise (ie_check1 e) iid est today t of
        (Inr _, t1) \<Rightarrow> (Inr (), t1)
      | (Inl (CostCapLockTimeoutError _), t1) \<Rightarrow>
          (case checkOrRaise (ie_check2 e) iid est today t1 of
             (Inr _, t2) \<Rightarrow> (Inr (), t2)
           | (Inl (CostCapLockTimeoutError _), t2) \<Rightarrow>
               (Inl (BedrockBudgetExceededError ''cost-cap row lock timed out twice; failing closed to preserve daily-budget invariant''
                  ''kill_switch'' None), t2)
           | (Inl x, t2) \<Rightarrow> (Inl x, t2))
      | (Inl x, t1) \<Rightarrow> (Inl x, t1))"

definition shadowJournalAppend :: "invoke_env \<Rightarrow> entry_kind \<Rightarrow> uuid \<Rightarrow> int \<Rightarrow> string \<Rightarrow> journal_row list \<Rightarrow> journal_row list" where
  "shadowJournalAppend e kind iid cents today j =
     (if \<not> ie_journal_on e then j
      else if kind = JReserve then snd (appendReserve (ie_reserve_journal e) iid cents today j)
      else snd (appendSettle (ie_settle_journal e) iid cents today j))"

definition isTimeoutError :: "sdk_error \<Rightarrow> bool" where
  "isTimeoutError x \<longleftrightarrow> (case x of SdkTyped n _ \<Rightarrow> n = ''TimeoutError'' | SdkRaw n _ \<Rightarrow> n = ''TimeoutError'')"

definition formatErr :: "string \<Rightarrow> string \<Rightarrow> string" where
  "formatErr name message = name @ '': '' @ (if message = [] then ''<empty>'' else message)"

definition sdk_failure :: "sdk_error \<Rightarrow> invoke_error" where
  "sdk_failure x = (case x of SdkTyped n m \<Rightarrow> InvSdk n m | SdkRaw n m \<Rightarrow> InvSdk ''LlmInvocationError'' (''bedrock invocation failed: '' @ formatErr n m))"

definition new_call_row :: "invoke_env \<Rightarrow> uuid \<Rightarrow> string \<Rightarrow> int \<Rightarrow> int \<Rightarrow> int \<Rightarrow> string \<Rightarrow> call_row" where
  "new_call_row e iid model prompt completion cents status = \<lparr>cl_installation_id = iid, cl_request_id = ie_requestId e, cl_model = model,
     cl_prompt_tokens = prompt, cl_completion_tokens = completion, cl_latency_ms = ie_latency e, cl_cost_usd_cents = cents,
     cl_status = status, cl_created_at = ie_settle_at e\<rparr>"

text \<open>What follows a failed provider call: the failure row, the release of the reserve and its journal twin, none of
  which may hide the error.\<close>

definition after_sdk_failure :: "invoke_env \<Rightarrow> uuid \<Rightarrow> string \<Rightarrow> int \<Rightarrow> sdk_error \<Rightarrow> llm_db \<Rightarrow> llm_db" where
  "after_sdk_failure e iid model est x db =
     (let calls = (if ie_telemetry_fault e = None
            then ll_calls db @ [new_call_row e iid model 0 0 0 (if isTimeoutError x then ''timeout'' else ''failed'')] else ll_calls db);
        daily = snd (recordCallCost (ie_settle e) iid 0 est (isoDate (ie_settle_at e)) (ll_daily db));
        journal = shadowJournalAppend e JSettle iid (0 - est) (isoDate (ie_settle_at e)) (ll_journal db)
      in db\<lparr>ll_calls := calls, ll_daily := daily, ll_journal := journal\<rparr>)"

definition storeInvocation :: "invoke_env \<Rightarrow> invoke_args \<Rightarrow> string \<Rightarrow> uuid \<Rightarrow> string option \<Rightarrow> rat json \<Rightarrow> ledger_row list \<Rightarrow> ledger_row list" where
  "storeInvocation e a model iid key response t =
     (case (key, ia_idempotency a) of
        (Some k, Some i) \<Rightarrow>
          if ie_store_fault e then t
          else ledger_store (ledger_key_inputs.extend (key_inputs e a model i)
            \<lparr>lg_key = k, lg_installation_id = iid, lg_response = response, lg_created_at = ie_db_now e\<rparr>) t
      | _ \<Rightarrow> t)"

definition paid_call :: "invoke_env \<Rightarrow> invoke_args \<Rightarrow> string \<Rightarrow> llm_db \<Rightarrow> (invoke_error + rat json) \<times> llm_db" where
  "paid_call e a model db =
     (let iid = telemetry_iid a; est = estimate a model; key = idempotency_key e a model; today = isoDate (ie_check_at e) in
      case ia_aborted a of
        Some reason \<Rightarrow> (Inl (InvAborted reason), db)
      | None \<Rightarrow>
      if ie_strict e \<and> key = None then (Inl InvLedgerRequired, db)
      else case cap_check e iid est today (ll_daily db) of
        (Inl x, t) \<Rightarrow> (Inl (InvCost x), db\<lparr>ll_daily := t\<rparr>)
      | (Inr _, t) \<Rightarrow>
          let db1 = db\<lparr>ll_daily := t, ll_journal := shadowJournalAppend e JReserve iid est today (ll_journal db)\<rparr> in
          case ie_request_fault e of
            Some m \<Rightarrow> (Inl (InvFault m), db1)
          | None \<Rightarrow>
              let db2 = db1\<lparr>ll_blobs := ll_blobs db1 @ [(iid, ''llm-payloads/'' @ ie_requestId e @ ''/request.json'',
                    RequestBody model (map (\<lambda>m. (ms_role m, ie_redact e (ms_content m))) (ia_messages a)) (ia_maxTokens a) (ia_purpose a))]\<rparr> in
              case ie_sdk e of
                Inl x \<Rightarrow> (Inl (sdk_failure x), after_sdk_failure e iid model est x (db2\<lparr>ll_provider := ll_provider db2 @ [(key, False)]\<rparr>))
              | Inr response \<Rightarrow>
                  (Inr response, db2\<lparr>ll_provider := ll_provider db2 @ [(key, True)],
                     ll_ledger := storeInvocation e a model iid key response (ll_ledger db2)\<rparr>))"

definition usage_tokens :: "invoke_env \<Rightarrow> string \<Rightarrow> rat json \<Rightarrow> int" where
  "usage_tokens e k response = intOrZero (ie_num e) (case json_field ''usage'' response of Some u \<Rightarrow> json_field k u | None \<Rightarrow> None)"

definition response_cents :: "invoke_env \<Rightarrow> string \<Rightarrow> rat json \<Rightarrow> int" where
  "response_cents e model response = finalCents model (usage_tokens e ''input_tokens'' response) (usage_tokens e ''output_tokens'' response)
     (usage_tokens e ''cache_read_input_tokens'' response) (usage_tokens e ''cache_creation_input_tokens'' response)"

text \<open>From the response to the result; a replay neither reserves nor settles.\<close>

definition finish_call :: "invoke_env \<Rightarrow> invoke_args \<Rightarrow> string \<Rightarrow> bool \<Rightarrow> rat json \<Rightarrow> llm_db \<Rightarrow> (invoke_error + invoke_result) \<times> llm_db" where
  "finish_call e a model isReplay response db =
     (let iid = telemetry_iid a; est = estimate a model; cents = response_cents e model response;
        text = content_text (ie_str e) response; blocks = filter is_record (content_blocks response);
        path = ''llm-payloads/'' @ ie_requestId e @ ''/response.json'' in
      case ie_response_fault e of
        Some m \<Rightarrow> (Inl (InvFault m), db)
      | None \<Rightarrow>
      let db1 = db\<lparr>ll_blobs := ll_blobs db @ [(iid, path, ResponseBody (redactResponseForArchive (ie_redact e) response))]\<rparr> in
      case ie_telemetry_fault e of
        Some m \<Rightarrow> (Inl (InvFault m), db1)
      | None \<Rightarrow>
      let db2 = db1\<lparr>ll_calls := ll_calls db1 @ [new_call_row e iid model (usage_tokens e ''input_tokens'' response)
            (usage_tokens e ''output_tokens'' response) cents (if ie_safe e text then ''ok'' else ''failed'')]\<rparr>;
        settled = (if isReplay then (Inr (), db2)
          else case recordCallCost (ie_settle e) iid cents est (isoDate (ie_settle_at e)) (ll_daily db2) of
                 (Inl x, t) \<Rightarrow> (Inl (InvCost x), db2\<lparr>ll_daily := t\<rparr>)
               | (Inr _, t) \<Rightarrow> (Inr (), db2\<lparr>ll_daily := t,
                   ll_journal := shadowJournalAppend e JSettle iid (cents - est) (isoDate (ie_settle_at e)) (ll_journal db2)\<rparr>))
      in case settled of
           (Inl x, db3) \<Rightarrow> (Inl x, db3)
         | (Inr _, db3) \<Rightarrow>
             if \<not> ie_safe e text then (Inl (InvUnsafe text blocks (ie_requestId e)), db3)
             else (Inr \<lparr>ir_request_id = ie_requestId e, ir_model = model, ir_prompt_tokens = usage_tokens e ''input_tokens'' response,
                     ir_completion_tokens = usage_tokens e ''output_tokens'' response, ir_latency_ms = ie_latency e, ir_cost_usd_cents = cents,
                     ir_payload_blob_ref = path, ir_content = text, ir_stop_reason = pyStr (ie_str e) (json_field ''stop_reason'' response),
                     ir_raw_content_blocks = blocks, ir_role = ia_role a\<rparr>, db3))"

text \<open>A call up to its lookup: it is over, or it goes on to the paid path for a model.\<close>

definition invoke_entry :: "invoke_env \<Rightarrow> invoke_args \<Rightarrow> llm_db \<Rightarrow> ((invoke_error + invoke_result) \<times> llm_db) + string" where
  "invoke_entry e a db =
     (if (case ia_cachePrefixMessages a of None \<Rightarrow> False | Some n \<Rightarrow> n < 1 \<or> int (length (ia_messages a)) \<le> n) then Inl (Inl InvTypeError, db)
      else case ia_model a of
        None \<Rightarrow> Inl (Inl InvTypeError, db)
      | Some model \<Rightarrow>
          let key = idempotency_key e a model in
          if key \<noteq> None \<and> ie_lookup_fault e \<noteq> None then Inl (Inl (InvFault (the (ie_lookup_fault e))), db)
          else case (case key of None \<Rightarrow> None | Some k \<Rightarrow> ledger_lookup k (telemetry_iid a) (ll_ledger db)) of
            Some response \<Rightarrow> Inl (finish_call e a model True response db)
          | None \<Rightarrow> Inr model)"

definition invoke_miss :: "invoke_env \<Rightarrow> invoke_args \<Rightarrow> string \<Rightarrow> llm_db \<Rightarrow> (invoke_error + invoke_result) \<times> llm_db" where
  "invoke_miss e a model db =
     (case paid_call e a model db of
        (Inl x, db') \<Rightarrow> (Inl x, db')
      | (Inr response, db') \<Rightarrow> finish_call e a model False response db')"

definition invokeModel :: "invoke_env \<Rightarrow> invoke_args \<Rightarrow> llm_db \<Rightarrow> (invoke_error + invoke_result) \<times> llm_db" where
  "invokeModel e a db = (case invoke_entry e a db of Inl r \<Rightarrow> r | Inr model \<Rightarrow> invoke_miss e a model db)"

lemma invokeModel_unfold:
  "invokeModel e a db =
     (if (case ia_cachePrefixMessages a of None \<Rightarrow> False | Some n \<Rightarrow> n < 1 \<or> int (length (ia_messages a)) \<le> n) then (Inl InvTypeError, db)
      else case ia_model a of
        None \<Rightarrow> (Inl InvTypeError, db)
      | Some model \<Rightarrow>
          let key = idempotency_key e a model in
          if key \<noteq> None \<and> ie_lookup_fault e \<noteq> None then (Inl (InvFault (the (ie_lookup_fault e))), db)
          else case (case key of None \<Rightarrow> None | Some k \<Rightarrow> ledger_lookup k (telemetry_iid a) (ll_ledger db)) of
            Some response \<Rightarrow> finish_call e a model True response db
          | None \<Rightarrow>
              (case paid_call e a model db of
                 (Inl x, db') \<Rightarrow> (Inl x, db')
               | (Inr response, db') \<Rightarrow> finish_call e a model False response db'))"
  by (simp add: invokeModel_def invoke_entry_def invoke_miss_def Let_def split: option.split)

section \<open>Prices\<close>

lemma estimate_pos: "1 \<le> estimate a model"
  by (simp add: estimate_def estimateCentsPreCall_def Let_def)

lemma response_cents_pos: "1 \<le> response_cents e model response"
  by (simp add: response_cents_def finalCents_def Let_def)

section \<open>Transactions of the caps under faults\<close>

text \<open>A transaction that meets faults does what the one without faults does, or it is aborted; and an aborted one never
  returns a value. So an operation of the caps that returns has done all its work, and one that throws has done none.\<close>

definition without_faults :: "cost_env \<Rightarrow> cost_env" where
  "without_faults e = e\<lparr>ce_fault := (\<lambda>_. None)\<rparr>"

lemma without_faults_quiet [simp]: "quiet_cost (without_faults e)"
  by (simp add: without_faults_def quiet_cost_def)

definition follows :: "('s, 'a) tx \<Rightarrow> ('s, 'a) tx \<Rightarrow> bool" where
  "follows m m' \<longleftrightarrow> (\<forall>t. m (False, t) = m' (False, t) \<or> fst (snd (m (False, t))))"

definition stays_aborted :: "('s, 'a) tx \<Rightarrow> bool" where
  "stays_aborted m \<longleftrightarrow> (\<forall>t. fst (snd (m (True, t))))"

definition throws_aborted :: "('s, 'a) tx \<Rightarrow> bool" where
  "throws_aborted m \<longleftrightarrow> (\<forall>b t. fst (snd (m (b, t))) \<longrightarrow> isl (fst (m (b, t))))"

named_theorems tx_rules

lemma follows_refl [tx_rules]: "follows m m"
  by (simp add: follows_def)

lemma follows_stmt [tx_rules]: "follows (stmt fault k run) (stmt (\<lambda>_. None) k run)"
  by (simp add: follows_def stmt_def split: option.split)

lemma follows_bind [tx_rules]:
  assumes "follows m m'" and "\<And>a. follows (k a) (k' a)" and "\<And>a. stays_aborted (k a)"
  shows "follows (tx_bind m k) (tx_bind m' k')"
  unfolding follows_def
proof
  fix t
  obtain x b t1 where m: "m (False, t) = (x, b, t1)" by (cases "m (False, t)") auto
  show "tx_bind m k (False, t) = tx_bind m' k' (False, t) \<or> fst (snd (tx_bind m k (False, t)))"
  proof (cases b)
    case True
    then show ?thesis using m assms(3) by (cases x) (simp_all add: tx_bind_def stays_aborted_def)
  next
    case False
    then have "m' (False, t) = (x, False, t1)" using m assms(1) unfolding follows_def by (metis fst_conv snd_conv)
    then show ?thesis using m False assms(2) by (cases x) (simp_all add: tx_bind_def follows_def)
  qed
qed

lemma follows_catch [tx_rules]:
  assumes "follows m m'" and "\<And>x. stays_aborted (h x)"
  shows "follows (tx_catch m h) (tx_catch m' h)"
  unfolding follows_def
proof
  fix t
  obtain x b t1 where m: "m (False, t) = (x, b, t1)" by (cases "m (False, t)") auto
  show "tx_catch m h (False, t) = tx_catch m' h (False, t) \<or> fst (snd (tx_catch m h (False, t)))"
  proof (cases b)
    case True
    then show ?thesis using m assms(2) by (cases x) (simp_all add: tx_catch_def stays_aborted_def)
  next
    case False
    then have "m' (False, t) = (x, False, t1)" using m assms(1) unfolding follows_def by (metis fst_conv snd_conv)
    then show ?thesis using m False by (simp add: tx_catch_def)
  qed
qed

lemma stays_basic [tx_rules]:
  "stays_aborted (stmt fault k run)" "stays_aborted (tx_return a)" "stays_aborted (tx_throw x)" "stays_aborted (tx_lift r)"
  by (simp_all add: stays_aborted_def stmt_def tx_return_def tx_throw_def tx_lift_def)

lemma stays_bind [tx_rules]: "stays_aborted m \<Longrightarrow> (\<And>a. stays_aborted (k a)) \<Longrightarrow> stays_aborted (tx_bind m k)"
  by (auto simp: stays_aborted_def tx_bind_def split: prod.split sum.split) (metis fst_conv snd_conv)+

lemma stays_catch [tx_rules]: "stays_aborted m \<Longrightarrow> (\<And>x. stays_aborted (h x)) \<Longrightarrow> stays_aborted (tx_catch m h)"
  by (auto simp: stays_aborted_def tx_catch_def split: prod.split sum.split) (metis fst_conv snd_conv)+

lemma throws_stmt: "throws_aborted (stmt fault k run)"
  by (auto simp: throws_aborted_def stmt_def split: option.split sum.split prod.split)

lemma throws_bind: "(\<And>a. throws_aborted (k a)) \<Longrightarrow> throws_aborted (tx_bind m k)"
  by (auto simp: throws_aborted_def tx_bind_def split: prod.splits sum.splits)

text \<open>A tail that runs no statement leaves the verdict to what ran before it.\<close>

lemma throws_bind_tail: "throws_aborted m \<Longrightarrow> (\<And>a s. snd (k a s) = s) \<Longrightarrow> throws_aborted (tx_bind m k)"
  by (auto simp: throws_aborted_def tx_bind_def split: prod.splits sum.splits) (metis Inl_Inr_False fst_conv isl_def snd_conv)+

lemma transaction_follows:
  assumes "follows m m'" and "throws_aborted m" and "transaction m t = (Inr a, t')"
  shows "transaction m' t = (Inr a, t')"
proof -
  obtain x b t1 where m: "m (False, t) = (x, b, t1)" by (cases "m (False, t)") auto
  have x: "x = Inr a" using assms(3) m by (auto simp: transaction_def split: sum.splits)
  then have "\<not> b" using assms(2) m unfolding throws_aborted_def by (metis fst_conv isl_def old.sum.distinct(1) snd_conv)
  then show ?thesis using assms(1,3) m unfolding follows_def transaction_def by (metis fst_conv snd_conv)
qed

lemma without_faults_simps [simp]:
  "ce_fault (without_faults e) = (\<lambda>_. None)" "ce_clock (without_faults e) = ce_clock e" "ce_settings (without_faults e) = ce_settings e"
  "ce_overrides (without_faults e) = ce_overrides e" "ce_readCapsFromDb (without_faults e) = ce_readCapsFromDb e"
  "ce_globalCapCents (without_faults e) = ce_globalCapCents e" "ce_perOrgCapCents (without_faults e) = ce_perOrgCapCents e"
  "override_live (without_faults e) = override_live e" "new_daily (without_faults e) = new_daily e"
  by (auto simp: without_faults_def override_live_def new_daily_def fun_eq_iff split: option.split)

lemma follows_resolve [tx_rules]: "follows (resolveEffectiveCap e k c) (resolveEffectiveCap (without_faults e) k c)"
  unfolding resolveEffectiveCap_def read_setting_def without_faults_simps
  by (cases "ce_readCapsFromDb e"; cases k) (auto intro!: tx_rules split: option.split)

lemma stays_refresh [tx_rules]: "stays_aborted (refreshCapCents e d k c)"
  unfolding refreshCapCents_def by (cases k) (auto intro!: tx_rules)

lemma stays_resolve [tx_rules]: "stays_aborted (resolveEffectiveCap e k c)"
  unfolding resolveEffectiveCap_def read_setting_def
  by (cases "ce_readCapsFromDb e"; cases k) (auto intro!: tx_rules split: option.split)

lemma follows_refresh_row [tx_rules]: "follows (refreshCapCents e d k c) (refreshCapCents (without_faults e) d k c)"
  unfolding refreshCapCents_def without_faults_simps by (cases k) (auto intro!: tx_rules)

lemma caps_refresh [tx_rules]:
  "follows (refresh_caps e org d) (refresh_caps (without_faults e) org d)" "stays_aborted (refresh_caps e org d)"
  unfolding refresh_caps_def without_faults_simps by (auto intro!: tx_rules)

lemma follows_read_row [tx_rules]:
  "follows (readDailyRow e d k) (readDailyRow (without_faults e) d k)" "stays_aborted (readDailyRow e d k)"
  unfolding readDailyRow_def without_faults_simps by (auto intro!: tx_rules split: option.split)

lemma follows_gate [tx_rules]:
  "follows (gate e s d k est) (gate (without_faults e) s d k est)" "stays_aborted (gate e s d k est)"
  unfolding gate_def without_faults_simps by (auto intro!: tx_rules split: option.split)

lemma follows_settle_row [tx_rules]:
  "follows (settle_row_tx e s p c) (settle_row_tx (without_faults e) s p c)" "stays_aborted (settle_row_tx e s p c)"
  unfolding settle_row_tx_def without_faults_simps by (auto intro!: tx_rules)

lemma throws_settle_row: "throws_aborted (settle_row_tx e s p c)"
  unfolding settle_row_tx_def by (rule throws_bind_tail [OF throws_stmt]) (simp add: tx_return_def)

lemma throws_read_row: "throws_aborted (readDailyRow e d k)"
  unfolding readDailyRow_def
  by (rule throws_bind_tail [OF throws_stmt]) (simp add: tx_return_def tx_throw_def split: option.split)

lemma throws_gate: "throws_aborted (gate e s d k est)"
proof -
  have "throws_aborted (tx_bind (stmt f s u) (\<lambda>rows. case first_row rows of None \<Rightarrow> tx_bind (readDailyRow e d k) (\<lambda>(tot, cap). tx_throw (g tot cap))
      | Some r \<Rightarrow> tx_return (h r)))" for f u g h
    unfolding throws_aborted_def
  proof (intro allI impI)
    fix b t assume ab: "fst (snd (tx_bind (stmt f s u) (\<lambda>rows. case first_row rows of None \<Rightarrow> tx_bind (readDailyRow e d k) (\<lambda>(tot, cap). tx_throw (g tot cap))
      | Some r \<Rightarrow> tx_return (h r)) (b, t)))"
    show "isl (fst (tx_bind (stmt f s u) (\<lambda>rows. case first_row rows of None \<Rightarrow> tx_bind (readDailyRow e d k) (\<lambda>(tot, cap). tx_throw (g tot cap))
      | Some r \<Rightarrow> tx_return (h r)) (b, t)))"
      using ab throws_stmt [of f s u, unfolded throws_aborted_def]
      by (auto simp: tx_bind_def tx_throw_def tx_return_def split: prod.splits sum.splits option.splits) (metis fst_conv isl_def snd_conv sum.distinct(1))+
  qed
  then show ?thesis unfolding gate_def .
qed

lemma settle_cost_follows: "follows (settle_cost_tx e org c d) (settle_cost_tx (without_faults e) org c d)"
  unfolding settle_cost_tx_def without_faults_simps by (auto intro!: tx_rules)

lemma settle_cost_throws: "throws_aborted (settle_cost_tx e org c d)"
proof -
  have "throws_aborted (tx_bind (settle_row_tx e SettleGlobal (global_row d) c) (\<lambda>_. if org = ZERO_UUID then tx_return () else settle_row_tx e SettleOrg (org_row d org) c))"
    by (cases "org = ZERO_UUID") (simp_all add: throws_bind [OF throws_settle_row] throws_bind_tail [OF throws_settle_row] tx_return_def)
  then show ?thesis unfolding settle_cost_tx_def by (rule throws_bind [OF throws_bind])
qed

lemma reserve_follows: "follows (reserve_tx e org est d) (reserve_tx (without_faults e) org est d)"
  unfolding reserve_tx_def Let_def without_faults_simps by (auto intro!: tx_rules)

lemma reserve_throws: "throws_aborted (reserve_tx e org est d)"
proof (cases "org = ZERO_UUID")
  case True
  have "throws_aborted (tx_bind (gate e GateGlobal d None est) (\<lambda>x. tx_bind (tx_return 0) (\<lambda>y. tx_lift (f x y))))"
    for f :: "int \<Rightarrow> int \<Rightarrow> cost_error + cost_decision"
    by (rule throws_bind_tail [OF throws_gate]) (simp add: tx_bind_def tx_return_def tx_lift_def)
  note t = throws_bind [OF throws_bind [OF throws_bind [OF throws_bind [OF this]]]]
  show ?thesis unfolding reserve_tx_def Let_def if_P [OF True] by (rule t)
next
  case False
  have "throws_aborted (tx_bind (gate e GateOrg d (Some org) est) (\<lambda>y. tx_lift (f y)))" for f :: "int \<Rightarrow> cost_error + cost_decision"
    by (rule throws_bind_tail [OF throws_gate]) (simp add: tx_lift_def)
  note t = throws_bind [OF throws_bind [OF throws_bind [OF throws_bind [OF throws_bind [OF this]]]]]
  show ?thesis unfolding reserve_tx_def Let_def if_not_P [OF False] by (rule t)
qed

text \<open>The two operations of the caps, whatever faults they meet.\<close>

lemma mapLockTimeout_Inr_iff [simp]: "mapLockTimeout c r = (Inr a, s) \<longleftrightarrow> r = (Inr a, s)"
  by (auto simp: mapLockTimeout_def split: prod.splits sum.splits cost_error.splits)

lemma mapLockTimeout_Inl: "mapLockTimeout c (transaction m t) = (Inl x, t') \<Longrightarrow> t' = t"
  using transaction_Inl by (fastforce simp: mapLockTimeout_def split: prod.splits sum.splits cost_error.splits)

lemma record_any:
  shows "recordCallCost e org cost est d t = (Inr u, t') \<Longrightarrow> recordCallCost (without_faults e) org cost est d t = (Inr u, t')"
    and "recordCallCost e org cost est d t = (Inl x, t') \<Longrightarrow> t' = t"
  using transaction_follows [OF settle_cost_follows settle_cost_throws, of e org "cost - est" d t]
  by (auto simp: recordCallCost_def dest: mapLockTimeout_Inl split: if_splits)

lemma check_any:
  shows "checkOrRaise e org est d t = (Inr u, t') \<Longrightarrow> checkOrRaise (without_faults e) org est d t = (Inr u, t')"
    and "checkOrRaise e org est d t = (Inl x, t') \<Longrightarrow> t' = t"
  using transaction_follows [OF reserve_follows reserve_throws, of e org est d t]
  by (auto simp: checkOrRaise_def dest: mapLockTimeout_Inl split: if_splits)

section \<open>The caps under a call\<close>

lemma record_quiet:
  assumes "quiet_cost e" and "daily_wf t" and "0 \<le> cost" and "\<forall>k\<in>org_keys org. daily_at t d k \<noteq> None \<and> 0 \<le> spent t d k + (cost - est)"
  shows "\<exists>t'. recordCallCost e org cost est d t = (Inr (), t') \<and> daily_wf t' \<and> spent t' = charge org d (cost - est) (spent t)"
proof (cases "cost = est")
  case True
  then show ?thesis using assms(2,3) by (auto simp: recordCallCost_def charge_def fun_eq_iff)
next
  case False
  obtain t' where "yields (settle_cost_tx e org (cost - est) d) t () t'" "daily_wf t'" "spent t' = charge org d (cost - est) (spent t)"
    using settle_tx_yields [OF assms(1,2,4)] by blast
  then show ?thesis using assms(3) False by (simp add: recordCallCost_def yields_transaction)
qed

text \<open>A settle that would make the total of its day negative violates the CHECK of the table.\<close>

lemma record_negative:
  assumes "quiet_cost e" and "daily_wf t" and "0 \<le> cost" and "daily_at t d None = Some (y, z)" and "y + (cost - est) < 0"
  shows "recordCallCost e org cost est d t = (Inl (CostDbError ''23514''), t)"
proof -
  let ?c = "cost - est"
  have t0: "yields (stmt (ce_fault e) SetLockTimeout (\<lambda>t. Inr ((), t))) t () t"
    using assms(1) by (simp add: quiet_cost_def yields_stmt)
  obtain t1 where t1: "yields (refresh_caps e org d) t () t1"
      "\<forall>d' k. daily_at t1 d' k = (if d' = d \<and> k \<in> {None, Some org}
          then map_option (\<lambda>(y, _). (y, effective_cap e k)) (daily_at t d' k) else daily_at t d' k)"
    using yields_refresh_caps [OF assms(1,2)] by blast
  then have "daily_at t1 d None = Some (y, effective_cap e None)" using assms(4) by simp
  then obtain r where r: "first_row (filter (global_row d) t1) = Some r" "daily_total_cents r = y"
    by (auto simp: daily_at_def)
  have "r \<in> set (filter (global_row d) t1)" by (rule first_row_Some [OF r(1)])
  then have "r \<in> set t1" "global_row d r" "\<not> daily_check (add_cents ?c (ce_clock e SettleGlobal) r)"
    using r(2) assms(5) by (simp_all add: daily_check_def add_cents_def)
  then have "update_daily (global_row d) (add_cents ?c (ce_clock e SettleGlobal)) t1 = Inl ''23514''"
    by (auto simp: update_daily_def)
  then have "refuses (settle_row_tx e SettleGlobal (global_row d) ?c) t1 (CostDbError ''23514'')"
    using assms(1) by (simp add: refuses_def settle_row_tx_def tx_bind_def stmt_def quiet_cost_def)
  then have "refuses (settle_cost_tx e org ?c d) t (CostDbError ''23514'')"
    unfolding settle_cost_tx_def by (intro refuses_bind [OF t0] refuses_bind [OF t1(1)] refuses_first)
  moreover have "?c \<noteq> 0" using assms(2,4,5) daily_at_wf by fastforce
  ultimately show ?thesis using assms(3) by (simp add: recordCallCost_def refuses_transaction mapLockTimeout_def)
qed

lemma spec_decide_no_timeout: "spec_decide gcap ocap org est d T \<noteq> Inl (CostCapLockTimeoutError c)"
  by (simp add: spec_decide_def global_refusal_def org_refusal_def)

lemma cap_check_quiet:
  assumes "quiet_cost (ie_check1 e)" and "daily_wf t"
  shows "(\<exists>x. cap_check e org est d t = (Inl x, t))
    \<or> (\<exists>t'. cap_check e org est d t = (Inr (), t') \<and> daily_wf t' \<and> spent t' = charge org d est (spent t)
         \<and> (\<forall>k\<in>org_keys org. daily_at t' d k \<noteq> None \<and> spent t d k + est \<le> effective_cap (ie_check1 e) k)
         \<and> (\<forall>d' k. daily_at t d' k \<noteq> None \<longrightarrow> daily_at t' d' k \<noteq> None))"
proof -
  let ?d = "spec_decide (effective_cap (ie_check1 e) None) (effective_cap (ie_check1 e) (Some org)) org est d (spent t)"
  obtain t' where t': "checkOrRaise (ie_check1 e) org est d t = (?d, t')" "daily_wf t'" "isl ?d \<longrightarrow> t' = t"
    "\<not> isl ?d \<longrightarrow> spent t' = charge org d est (spent t) \<and> (\<forall>k\<in>org_keys org. daily_at t' d k = Some (spent t d k + est, effective_cap (ie_check1 e) k))"
    "\<forall>d' k. daily_at t d' k \<noteq> None \<longrightarrow> daily_at t' d' k \<noteq> None"
    using checkOrRaise_quiet [OF assms] by blast
  show ?thesis
  proof (cases ?d)
    case (Inl x)
    then show ?thesis using t'(1,3) spec_decide_no_timeout by (cases x) (auto simp: cap_check_def)
  next
    case (Inr x)
    then have "spent t d k + est \<le> effective_cap (ie_check1 e) k" if "k \<in> org_keys org" for k
      using that by (auto simp: spec_decide_def org_keys_def split: if_splits)
    then show ?thesis using t'(1,2,4,5) Inr by (intro disjI2 exI [of _ t']) (auto simp: cap_check_def)
  qed
qed

section \<open>What a call does\<close>

lemma after_sdk_failure_simps [simp]:
  "ll_ledger (after_sdk_failure e iid model est x db) = ll_ledger db" "ll_provider (after_sdk_failure e iid model est x db) = ll_provider db"
  "ll_daily (after_sdk_failure e iid model est x db) = snd (recordCallCost (ie_settle e) iid 0 est (isoDate (ie_settle_at e)) (ll_daily db))"
  by (simp_all add: after_sdk_failure_def Let_def)

lemma finish_keeps [simp]:
  "ll_ledger (snd (finish_call e a model b response db)) = ll_ledger db" "ll_provider (snd (finish_call e a model b response db)) = ll_provider db"
  by (auto simp: finish_call_def Let_def split: option.split prod.split sum.split)

lemma finish_replay_keeps [simp]:
  "ll_daily (snd (finish_call e a model True response db)) = ll_daily db" "ll_journal (snd (finish_call e a model True response db)) = ll_journal db"
  by (auto simp: finish_call_def Let_def split: option.split)

text \<open>The provider is called when nothing stops the call before.\<close>

lemma paid_call_cases:
  obtains (stopped) x t where "paid_call e a model db = (Inl x, db\<lparr>ll_daily := t\<rparr>)"
      and "ia_aborted a \<noteq> None \<and> t = ll_daily db \<or> ie_strict e \<and> idempotency_key e a model = None \<and> t = ll_daily db
        \<or> (\<exists>y. cap_check e (telemetry_iid a) (estimate a model) (isoDate (ie_check_at e)) (ll_daily db) = (Inl y, t))"
    | (reserved) t db1 where "cap_check e (telemetry_iid a) (estimate a model) (isoDate (ie_check_at e)) (ll_daily db) = (Inr (), t)"
      and "ia_aborted a = None" and "\<not> (ie_strict e \<and> idempotency_key e a model = None)" and "ll_daily db1 = t"
      and "ll_ledger db1 = ll_ledger db" and "ll_provider db1 = ll_provider db"
      and "paid_call e a model db = (case ie_request_fault e of Some m \<Rightarrow> (Inl (InvFault m), db1)
        | None \<Rightarrow> (case ie_sdk e of
             Inl x \<Rightarrow> (Inl (sdk_failure x), after_sdk_failure e (telemetry_iid a) model (estimate a model) x
                 (db1\<lparr>ll_provider := ll_provider db @ [(idempotency_key e a model, False)]\<rparr>))
           | Inr response \<Rightarrow> (Inr response, db1\<lparr>ll_provider := ll_provider db @ [(idempotency_key e a model, True)],
               ll_ledger := storeInvocation e a model (telemetry_iid a) (idempotency_key e a model) response (ll_ledger db)\<rparr>)))"
proof (cases "ia_aborted a = None \<and> \<not> (ie_strict e \<and> idempotency_key e a model = None)")
  case False
  then show thesis
    by (intro stopped [of "if ia_aborted a = None then InvLedgerRequired else InvAborted (the (ia_aborted a))" "ll_daily db"])
      (auto simp: paid_call_def Let_def)
next
  case True
  obtain r t where c: "cap_check e (telemetry_iid a) (estimate a model) (isoDate (ie_check_at e)) (ll_daily db) = (r, t)" by force
  show thesis
  proof (cases r)
    case (Inl y)
    then show thesis using True c by (intro stopped [of "InvCost y" t]) (auto simp: paid_call_def Let_def)
  next
    case (Inr u)
    let ?j = "shadowJournalAppend e JReserve (telemetry_iid a) (estimate a model) (isoDate (ie_check_at e)) (ll_journal db)"
    let ?b = "(telemetry_iid a, ''llm-payloads/'' @ ie_requestId e @ ''/request.json'',
                    RequestBody model (map (\<lambda>m. (ms_role m, ie_redact e (ms_content m))) (ia_messages a)) (ia_maxTokens a) (ia_purpose a))"
    let ?db1 = "db\<lparr>ll_daily := t, ll_journal := ?j, ll_blobs := if ie_request_fault e = None then ll_blobs db @ [?b] else ll_blobs db\<rparr>"
    have ab: "ia_aborted a = None" and st: "(ie_strict e \<and> idempotency_key e a model = None) = False" using True by blast+
    show thesis
    proof (rule reserved [of t ?db1])
      show "cap_check e (telemetry_iid a) (estimate a model) (isoDate (ie_check_at e)) (ll_daily db) = (Inr (), t)" using c Inr by simp
      show "paid_call e a model db = (case ie_request_fault e of Some m \<Rightarrow> (Inl (InvFault m), ?db1)
        | None \<Rightarrow> (case ie_sdk e of
             Inl x \<Rightarrow> (Inl (sdk_failure x), after_sdk_failure e (telemetry_iid a) model (estimate a model) x
                 (?db1\<lparr>ll_provider := ll_provider db @ [(idempotency_key e a model, False)]\<rparr>))
           | Inr response \<Rightarrow> (Inr response, ?db1\<lparr>ll_provider := ll_provider db @ [(idempotency_key e a model, True)],
               ll_ledger := storeInvocation e a model (telemetry_iid a) (idempotency_key e a model) response (ll_ledger db)\<rparr>)))"
        unfolding paid_call_def Let_def using ab st c Inr
        by (cases "idempotency_key e a model"; cases "ie_request_fault e"; cases "ie_sdk e"; simp)
    qed (use True in simp_all)
  qed
qed

text \<open>A call that gets past its arguments and the lookup is a replay or goes to the paid path.\<close>

definition stored_response :: "invoke_env \<Rightarrow> invoke_args \<Rightarrow> string \<Rightarrow> llm_db \<Rightarrow> rat json option" where
  "stored_response e a model db = (case idempotency_key e a model of None \<Rightarrow> None | Some k \<Rightarrow> ledger_lookup k (telemetry_iid a) (ll_ledger db))"

lemma invokeModel_cases:
  obtains (refused) x where "invokeModel e a db = (Inl x, db)"
    | (replay) model response where "ia_model a = Some model" "stored_response e a model db = Some response"
        "invokeModel e a db = finish_call e a model True response db"
    | (miss) model where "ia_model a = Some model" "stored_response e a model db = None"
        "invokeModel e a db = (case paid_call e a model db of (Inl x, db') \<Rightarrow> (Inl x, db') | (Inr response, db') \<Rightarrow> finish_call e a model False response db')"
proof (cases "ia_model a")
  case None
  then show thesis by (intro refused [of InvTypeError]) (simp add: invokeModel_unfold)
next
  case (Some model)
  show thesis
  proof (cases "(case ia_cachePrefixMessages a of None \<Rightarrow> False | Some n \<Rightarrow> n < 1 \<or> int (length (ia_messages a)) \<le> n)
      \<or> idempotency_key e a model \<noteq> None \<and> ie_lookup_fault e \<noteq> None")
    case True
    then have "\<exists>x. invokeModel e a db = (Inl x, db)" using Some by (auto simp: invokeModel_unfold Let_def)
    then show thesis using refused by blast
  next
    case False
    then have inv: "invokeModel e a db = (case stored_response e a model db of Some response \<Rightarrow> finish_call e a model True response db
        | None \<Rightarrow> (case paid_call e a model db of (Inl x, db') \<Rightarrow> (Inl x, db') | (Inr response, db') \<Rightarrow> finish_call e a model False response db'))"
      using Some by (auto simp: invokeModel_unfold Let_def stored_response_def)
    show thesis
    proof (cases "stored_response e a model db")
      case None
      then show thesis using inv Some by (intro miss) simp_all
    next
      case (Some response)
      then show thesis using inv \<open>ia_model a = Some model\<close> by (intro replay) simp_all
    qed
  qed
qed

section \<open>How often a completion is bought\<close>

text \<open>Calls overlap between their lookup and the store of the response. \<open>Enter\<close> is a call up to its lookup, \<open>Leave n\<close> the rest
  of the \<open>n\<close>-th call that found nothing, and \<open>Die n\<close> its worker's death between the provider's answer and the store. \<open>Prune\<close> is
  the sweep of the ledger.\<close>

datatype call_step = Enter invoke_env invoke_args | Leave nat | Die nat | Prune db_time int

type_synonym missed_call = "invoke_env \<times> invoke_args \<times> string"

fun call_step_run :: "call_step \<Rightarrow> llm_db \<times> missed_call list \<Rightarrow> llm_db \<times> missed_call list" where
  "call_step_run (Enter e a) (db, ps) = (case invoke_entry e a db of Inl (_, db') \<Rightarrow> (db', ps) | Inr model \<Rightarrow> (db, ps @ [(e, a, model)]))"
| "call_step_run (Leave n) (db, ps) =
     (if n < length ps then case ps ! n of (e, a, model) \<Rightarrow> (snd (invoke_miss e a model db), without n ps) else (db, ps))"
| "call_step_run (Die n) (db, ps) =
     (if n < length ps then case ps ! n of (e, a, model) \<Rightarrow> (snd (paid_call (e\<lparr>ie_store_fault := True\<rparr>) a model db), without n ps) else (db, ps))"
| "call_step_run (Prune now days) (db, ps) = (db\<lparr>ll_ledger := snd (pruneOlderThan now days (ll_ledger db))\<rparr>, ps)"

definition run_calls :: "call_step list \<Rightarrow> llm_db \<times> missed_call list \<Rightarrow> llm_db \<times> missed_call list" where
  "run_calls = fold call_step_run"

definition missed_key :: "missed_call \<Rightarrow> string option" where
  "missed_key p = (case p of (e, a, model) \<Rightarrow> idempotency_key e a model)"

text \<open>Three counts over a run: the calls of a key whose response is lost, by a fault of the store or the death of the worker,
  the calls of the key that miss while another one of the key is under way, and the sweeps that take the key's row.\<close>

fun lost :: "string \<Rightarrow> call_step \<Rightarrow> llm_db \<times> missed_call list \<Rightarrow> nat" where
  "lost k (Enter e a) (db, ps) = 0"
| "lost k (Leave n) (db, ps) = (if n < length ps \<and> missed_key (ps ! n) = Some k \<and> ie_store_fault (fst (ps ! n)) then 1 else 0)"
| "lost k (Die n) (db, ps) = (if n < length ps \<and> missed_key (ps ! n) = Some k then 1 else 0)"
| "lost k (Prune now days) (db, ps) = 0"

definition under_way :: "string \<Rightarrow> missed_call list \<Rightarrow> nat" where
  "under_way k ps = length (filter (\<lambda>p. missed_key p = Some k) ps)"

fun raced :: "string \<Rightarrow> call_step \<Rightarrow> llm_db \<times> missed_call list \<Rightarrow> nat" where
  "raced k (Enter e a) (db, ps) = (case invoke_entry e a db of Inl _ \<Rightarrow> 0
     | Inr model \<Rightarrow> if idempotency_key e a model = Some k \<and> 0 < under_way k ps then 1 else 0)"
| "raced k (Leave n) (db, ps) = 0"
| "raced k (Die n) (db, ps) = 0"
| "raced k (Prune now days) (db, ps) = 0"

fun swept :: "string \<Rightarrow> call_step \<Rightarrow> llm_db \<times> missed_call list \<Rightarrow> nat" where
  "swept k (Prune now days) (db, ps) = (if \<exists>r\<in>set (ll_ledger db). lg_key r = k \<and> lg_created_at r < now - days * 86400000000 then 1 else 0)"
| "swept k _ _ = 0"

primrec tally :: "(call_step \<Rightarrow> llm_db \<times> missed_call list \<Rightarrow> nat) \<Rightarrow> call_step list \<Rightarrow> llm_db \<times> missed_call list \<Rightarrow> nat" where
  "tally f [] s = 0"
| "tally f (x # xs) s = f x s + tally f xs (call_step_run x s)"

text \<open>The provider answers with an object, and the calls of the key are calls of one installation.\<close>

definition call_ok :: "string \<Rightarrow> uuid \<Rightarrow> call_step \<Rightarrow> bool" where
  "call_ok k iid x \<longleftrightarrow> (case x of
       Enter e a \<Rightarrow> (case ie_sdk e of Inl _ \<Rightarrow> True | Inr r \<Rightarrow> is_record r)
         \<and> (case ia_model a of None \<Rightarrow> True | Some model \<Rightarrow> idempotency_key e a model = Some k \<longrightarrow> telemetry_iid a = iid)
     | _ \<Rightarrow> True)"

definition missed_ok :: "string \<Rightarrow> uuid \<Rightarrow> missed_call \<Rightarrow> bool" where
  "missed_ok k iid p \<longleftrightarrow> (case p of (e, a, model) \<Rightarrow> (case ie_sdk e of Inl _ \<Rightarrow> True | Inr r \<Rightarrow> is_record r)
     \<and> (idempotency_key e a model = Some k \<longrightarrow> telemetry_iid a = iid))"

definition rows_replay :: "string \<Rightarrow> uuid \<Rightarrow> ledger_row list \<Rightarrow> bool" where
  "rows_replay k iid t \<longleftrightarrow> (\<forall>r\<in>set t. lg_key r = k \<longrightarrow> lg_installation_id r = iid \<and> is_record (lg_response r))"

definition bought :: "string \<Rightarrow> llm_db \<Rightarrow> nat" where
  "bought k db = count_list (ll_provider db) (Some k, True)"

text \<open>With \<open>n\<close> purchases excused, a call under way is a purchase to come, and without a row one purchase is still free.\<close>

definition paid_inv :: "string \<Rightarrow> uuid \<Rightarrow> nat \<Rightarrow> llm_db \<times> missed_call list \<Rightarrow> bool" where
  "paid_inv k iid n s \<longleftrightarrow> (case s of (db, ps) \<Rightarrow>
     rows_replay k iid (ll_ledger db) \<and> list_all (missed_ok k iid) ps
     \<and> bought k db + under_way k ps \<le> 1 + n \<and> (k \<notin> lg_key ` set (ll_ledger db) \<longrightarrow> bought k db \<le> n))"

lemma lookup_if_stored:
  assumes "rows_replay k iid t" and "k \<in> lg_key ` set t"
  shows "ledger_lookup k iid t \<noteq> None"
proof -
  let ?f = "filter (\<lambda>r. lg_key r = k \<and> lg_installation_id r = iid) t"
  have "?f \<noteq> []" using assms by (auto simp: filter_empty_conv rows_replay_def)
  then obtain r where r: "first_row ?f = Some r" by (cases ?f) simp_all
  then have "r \<in> set t" "lg_key r = k" using first_row_Some by fastforce+
  then have "is_record (lg_response r)" using assms(1) by (simp add: rows_replay_def)
  then show ?thesis using r by (auto simp: ledger_lookup_def is_record_def split: json.splits)
qed

lemma under_way_without:
  "n < length ps \<Longrightarrow> under_way k ps = under_way k (without n ps) + (if missed_key (ps ! n) = Some k then 1 else 0)"
  unfolding under_way_def by (rule length_filter_without)

text \<open>What the paid path does to the log of the provider and to the ledger.\<close>

lemma paid_effect:
  "(\<exists>xs. ll_provider (snd (paid_call e a model db)) = ll_provider db @ xs \<and> set xs \<subseteq> {(idempotency_key e a model, False)}
      \<and> ll_ledger (snd (paid_call e a model db)) = ll_ledger db)
   \<or> (\<exists>response. ie_sdk e = Inr response \<and> ll_provider (snd (paid_call e a model db)) = ll_provider db @ [(idempotency_key e a model, True)]
      \<and> ll_ledger (snd (paid_call e a model db)) = storeInvocation e a model (telemetry_iid a) (idempotency_key e a model) response (ll_ledger db))"
proof (cases rule: paid_call_cases [of e a model db])
  case (reserved t db1)
  show ?thesis
  proof (cases "ie_request_fault e")
    case None
    then show ?thesis using reserved(5,6) by (cases "ie_sdk e") (simp_all add: reserved(7))
  qed (use reserved(5,6) in \<open>simp add: reserved(7)\<close>)
qed simp

lemma miss_effect:
  "ll_provider (snd (invoke_miss e a model db)) = ll_provider (snd (paid_call e a model db))"
  "ll_ledger (snd (invoke_miss e a model db)) = ll_ledger (snd (paid_call e a model db))"
  by (simp_all add: invoke_miss_def split: prod.split sum.split)

text \<open>The effect on the purchases and the rows of one key.\<close>

lemma paid_counts:
  assumes "rows_replay k iid (ll_ledger db)" and "missed_ok k iid (e, a, model)"
  shows "rows_replay k iid (ll_ledger (snd (paid_call e a model db)))
    \<and> (idempotency_key e a model \<noteq> Some k \<longrightarrow> bought k (snd (paid_call e a model db)) = bought k db
        \<and> (k \<in> lg_key ` set (ll_ledger (snd (paid_call e a model db))) \<longleftrightarrow> k \<in> lg_key ` set (ll_ledger db)))
    \<and> (idempotency_key e a model = Some k \<longrightarrow>
        bought k (snd (paid_call e a model db)) = bought k db \<and> ll_ledger (snd (paid_call e a model db)) = ll_ledger db
        \<or> bought k (snd (paid_call e a model db)) = Suc (bought k db)
          \<and> (if ie_store_fault e then ll_ledger (snd (paid_call e a model db)) = ll_ledger db
             else k \<in> lg_key ` set (ll_ledger (snd (paid_call e a model db)))))"
proof -
  let ?db = "snd (paid_call e a model db)" and ?key = "idempotency_key e a model"
  have store: "rows_replay k iid (storeInvocation e a model (telemetry_iid a) ?key response (ll_ledger db))
      \<and> (?key \<noteq> Some k \<longrightarrow> (k \<in> lg_key ` set (storeInvocation e a model (telemetry_iid a) ?key response (ll_ledger db)) \<longleftrightarrow> k \<in> lg_key ` set (ll_ledger db)))
      \<and> (?key = Some k \<longrightarrow> (if ie_store_fault e then storeInvocation e a model (telemetry_iid a) ?key response (ll_ledger db) = ll_ledger db
           else k \<in> lg_key ` set (storeInvocation e a model (telemetry_iid a) ?key response (ll_ledger db))))"
    if "ie_sdk e = Inr response" for response
  proof (cases ?key)
    case None
    then show ?thesis using assms(1) by (simp add: storeInvocation_def)
  next
    case (Some key)
    then obtain i where i: "ia_idempotency a = Some i" by (auto simp: idempotency_key_def split: if_splits)
    let ?row = "ledger_key_inputs.extend (key_inputs e a model i)
        \<lparr>lg_key = key, lg_installation_id = telemetry_iid a, lg_response = response, lg_created_at = ie_db_now e\<rparr>"
    have row: "lg_key ?row = key" "lg_installation_id ?row = telemetry_iid a" "lg_response ?row = response"
      by (simp_all add: ledger_key_inputs.defs)
    have t: "storeInvocation e a model (telemetry_iid a) ?key response (ll_ledger db)
        = (if ie_store_fault e then ll_ledger db else ledger_store ?row (ll_ledger db))"
      using Some i by (simp add: storeInvocation_def)
    have own: "key = k \<longrightarrow> telemetry_iid a = iid" "is_record response" using assms(2) Some that by (simp_all add: missed_ok_def)
    show ?thesis unfolding t using assms(1) Some row own by (auto simp: ledger_store_def rows_replay_def)
  qed
  show ?thesis using paid_effect [of e a model db]
  proof (elim disjE exE conjE)
    fix xs assume xs: "ll_provider ?db = ll_provider db @ xs" "set xs \<subseteq> {(?key, False)}" "ll_ledger ?db = ll_ledger db"
    then have "count_list xs (Some k, True) = 0" by (auto simp: count_list_0_iff)
    then show ?thesis using xs(1,3) assms(1) by (simp add: bought_def)
  next
    fix response assume r: "ie_sdk e = Inr response" "ll_provider ?db = ll_provider db @ [(?key, True)]"
      "ll_ledger ?db = storeInvocation e a model (telemetry_iid a) ?key response (ll_ledger db)"
    then show ?thesis using store [OF r(1)] by (cases "?key = Some k") (simp_all add: bought_def split: if_splits)
  qed
qed

text \<open>A call under way that ends: its purchase comes out of the calls under way, or was lost.\<close>

lemma end_inv:
  assumes "paid_inv k iid m (db, ps)" and "n < length ps" and "ps ! n = (e, a, model)"
    and "ll_provider db' = ll_provider (snd (paid_call e' a model db))" and "ll_ledger db' = ll_ledger (snd (paid_call e' a model db))"
    and "missed_ok k iid (e', a, model)" and "idempotency_key e' a model = idempotency_key e a model"
    and "c = (if idempotency_key e a model = Some k \<and> ie_store_fault e' then 1 else 0)"
  shows "paid_inv k iid (m + c) (db', without n ps)"
proof -
  let ?K = "k \<in> lg_key ` set (ll_ledger db)" and ?K' = "k \<in> lg_key ` set (ll_ledger db')"
  have inv: "rows_replay k iid (ll_ledger db)" "list_all (missed_ok k iid) ps"
    "bought k db + under_way k ps \<le> 1 + m" "\<not> ?K \<longrightarrow> bought k db \<le> m"
    using assms(1) unfolding paid_inv_def prod.case by blast+
  have b: "bought k db' = bought k (snd (paid_call e' a model db))" using assms(4) by (simp add: bought_def)
  note u = under_way_without [OF assms(2), of k]
  note p = paid_counts [OF inv(1) assms(6), folded assms(5) b]
  have "bought k db' + under_way k (without n ps) \<le> 1 + (m + c) \<and> (\<not> ?K' \<longrightarrow> bought k db' \<le> m + c)"
  proof (cases "idempotency_key e a model = Some k")
    case True
    then have uw: "under_way k ps = Suc (under_way k (without n ps))" using u assms(3) by (simp add: missed_key_def)
    have "bought k db' = bought k db \<and> ll_ledger db' = ll_ledger db
        \<or> bought k db' = Suc (bought k db) \<and> (if ie_store_fault e' then ll_ledger db' = ll_ledger db else ?K')"
      using p True assms(7) by simp
    then show ?thesis using inv(3,4) uw True assms(8) by (auto split: if_splits)
  next
    case False
    then have "under_way k ps = under_way k (without n ps)" using u assms(3) by (simp add: missed_key_def)
    moreover have "bought k db' = bought k db" "?K' \<longleftrightarrow> ?K" using p False assms(7) by simp_all
    ultimately show ?thesis using inv(3,4) by auto
  qed
  then show ?thesis using p inv(2) by (simp add: paid_inv_def list_all_without)
qed

lemma entry_miss:
  assumes "invoke_entry e a db = Inr model"
  shows "ia_model a = Some model" and "idempotency_key e a model = Some k \<Longrightarrow> ledger_lookup k (telemetry_iid a) (ll_ledger db) = None"
  using assms by (auto simp: invoke_entry_def Let_def split: option.splits if_splits)

lemma entry_over:
  assumes "invoke_entry e a db = Inl (x, db')"
  shows "ll_provider db' = ll_provider db" and "ll_ledger db' = ll_ledger db" and "ll_daily db' = ll_daily db"
proof -
  have "db' = db \<or> (\<exists>model response. db' = snd (finish_call e a model True response db))"
    using assms by (auto simp: invoke_entry_def Let_def split: option.splits if_splits intro: sym) (metis snd_conv)+
  then show "ll_provider db' = ll_provider db" "ll_ledger db' = ll_ledger db" "ll_daily db' = ll_daily db" by auto
qed

lemma step_inv:
  assumes "paid_inv k iid m s" and "call_ok k iid x"
  shows "paid_inv k iid (m + (lost k x s + raced k x s + swept k x s)) (call_step_run x s)"
proof -
  obtain db ps where s: "s = (db, ps)" by force
  note inv = assms(1) [unfolded s]
  show ?thesis
  proof (cases x)
    case (Enter e a)
    show ?thesis
    proof (cases "invoke_entry e a db")
      case (Inl y)
      then obtain y1 db' where y: "invoke_entry e a db = Inl (y1, db')" by (cases y) simp
      show ?thesis using inv entry_over [OF y] by (simp add: s Enter y paid_inv_def bought_def)
    next
      case (Inr model)
      note em = entry_miss [OF Inr]
      have ok: "missed_ok k iid (e, a, model)" using assms(2) em(1) by (simp add: Enter call_ok_def missed_ok_def)
      have "k \<notin> lg_key ` set (ll_ledger db)" if "idempotency_key e a model = Some k"
        using em(2) [OF that] ok that inv lookup_if_stored [of k iid "ll_ledger db"] by (auto simp: missed_ok_def paid_inv_def)
      then show ?thesis using inv ok by (auto simp: s Enter Inr paid_inv_def under_way_def missed_key_def)
    qed
  next
    case (Leave n)
    show ?thesis
    proof (cases "n < length ps")
      case True
      obtain e a model where p: "ps ! n = (e, a, model)" by (cases "ps ! n") auto
      have "missed_ok k iid (ps ! n)" using inv True by (simp add: paid_inv_def list_all_length)
      then show ?thesis using end_inv [OF inv True p, of "snd (invoke_miss e a model db)" e] True p
        by (simp add: s Leave miss_effect missed_key_def)
    qed (use inv in \<open>simp add: s Leave\<close>)
  next
    case (Die n)
    show ?thesis
    proof (cases "n < length ps")
      case True
      obtain e a model where p: "ps ! n = (e, a, model)" by (cases "ps ! n") auto
      let ?e = "e\<lparr>ie_store_fault := True\<rparr>"
      have k: "idempotency_key ?e a model = idempotency_key e a model" by (simp add: idempotency_key_def key_inputs_def)
      have "missed_ok k iid (ps ! n)" using inv True by (simp add: paid_inv_def list_all_length)
      then have "missed_ok k iid (?e, a, model)" using p k by (simp add: missed_ok_def)
      then show ?thesis using end_inv [OF inv True p, of "snd (paid_call ?e a model db)" ?e] True p k
        by (simp add: s Die missed_key_def)
    qed (use inv in \<open>simp add: s Die\<close>)
  next
    case (Prune now days)
    let ?t = "snd (pruneOlderThan now days (ll_ledger db))"
    have t: "set ?t = {r \<in> set (ll_ledger db). \<not> lg_created_at r < now - days * 86400000000}"
      by (simp add: pruneOlderThan_def Let_def)
    have "rows_replay k iid ?t" using inv t by (auto simp: paid_inv_def rows_replay_def)
    moreover have "k \<in> lg_key ` set (ll_ledger db) \<and> k \<notin> lg_key ` set ?t \<longrightarrow> swept k x s = 1" using t by (auto simp: s Prune)
    moreover have "lost k x s = 0" "raced k x s = 0" "call_step_run x s = (db\<lparr>ll_ledger := ?t\<rparr>, ps)" by (simp_all add: s Prune)
    moreover have "bought k (db\<lparr>ll_ledger := ?t\<rparr>) = bought k db" by (simp add: bought_def)
    ultimately show ?thesis using inv unfolding paid_inv_def prod.case by (cases "k \<in> lg_key ` set (ll_ledger db)") simp_all
  qed
qed

lemma run_inv:
  "paid_inv k iid m s \<Longrightarrow> list_all (call_ok k iid) steps
    \<Longrightarrow> paid_inv k iid (m + (tally (lost k) steps s + tally (raced k) steps s + tally (swept k) steps s)) (run_calls steps s)"
proof (induction steps arbitrary: m s)
  case (Cons x steps)
  have "paid_inv k iid (m + (lost k x s + raced k x s + swept k x s)
      + (tally (lost k) steps (call_step_run x s) + tally (raced k) steps (call_step_run x s) + tally (swept k) steps (call_step_run x s)))
      (run_calls steps (call_step_run x s))"
    using Cons.prems by (intro Cons.IH step_inv) simp_all
  then show ?case by (simp add: run_calls_def algebra_simps)
qed (simp add: run_calls_def)

text \<open>(C34) Over any interleaving of calls, retries included, and of sweeps of the ledger, the provider completes for a ledger
  key at most one paid call more than there are calls of the key whose response was lost (a fault of the store, a worker
  that died before it), calls of the key that missed while another of the key was under way, and sweeps that took the row of
  the key. So calls that follow each other and lose nothing pay once, whatever else fails: a cap check, an archive, the
  telemetry, the settle, or the provider itself. The provider answers with objects and the calls of the key are calls of
  one installation.\<close>

theorem completion_bought_once:
  assumes "ll_ledger db = []" and "ll_provider db = []" and "list_all (call_ok k iid) steps"
  shows "count_list (ll_provider (fst (run_calls steps (db, [])))) (Some k, True)
    \<le> 1 + tally (lost k) steps (db, []) + tally (raced k) steps (db, []) + tally (swept k) steps (db, [])"
proof -
  have "paid_inv k iid 0 (db, [])" using assms(1,2) by (simp add: paid_inv_def rows_replay_def bought_def under_way_def)
  from run_inv [OF this assms(3)] show ?thesis by (auto simp: paid_inv_def bought_def split: prod.splits)
qed

section \<open>What a call costs\<close>

definition completions :: "llm_db \<Rightarrow> nat" where
  "completions db = length (filter snd (ll_provider db))"

text \<open>The price of what the provider completed between two states, 0 when nothing was completed.\<close>

definition bought_cents :: "invoke_env \<Rightarrow> invoke_args \<Rightarrow> llm_db \<Rightarrow> llm_db \<Rightarrow> int" where
  "bought_cents e a db db' = (if completions db < completions db'
     then (case (ia_model a, ie_sdk e) of (Some model, Inr response) \<Rightarrow> response_cents e model response | _ \<Rightarrow> 0) else 0)"

text \<open>No statement of the cap and no archive or telemetry write fails, and the call stays within one UTC day.\<close>

definition calm :: "invoke_env \<Rightarrow> bool" where
  "calm e \<longleftrightarrow> quiet_cost (ie_check1 e) \<and> quiet_cost (ie_settle e) \<and> ie_request_fault e = None \<and> ie_response_fault e = None
     \<and> ie_telemetry_fault e = None \<and> isoDate (ie_check_at e) = isoDate (ie_settle_at e)"

lemma charge_charge [simp]: "charge org d c (charge org d c' T) = charge org d (c + c') T"
  by (auto simp: charge_def fun_eq_iff)

lemma charge_zero [simp]: "charge org d 0 T = T"
  by (auto simp: charge_def fun_eq_iff)

lemma finish_unpaid_daily:
  "ie_response_fault e = None \<Longrightarrow> ie_telemetry_fault e = None \<Longrightarrow> ll_daily (snd (finish_call e a model False response db))
     = snd (recordCallCost (ie_settle e) (telemetry_iid a) (response_cents e model response) (estimate a model) (isoDate (ie_settle_at e)) (ll_daily db))"
  by (simp add: finish_call_def Let_def split: prod.split sum.split)

text \<open>A settle on the day of the reserve: what stays charged is the cost.\<close>

lemma settle_reserved:
  assumes "quiet_cost e" and "daily_wf t" and "daily_wf t0" and "0 \<le> cost"
    and "spent t = charge org d est (spent t0)" and "\<forall>k\<in>org_keys org. daily_at t d k \<noteq> None"
  shows "fst (recordCallCost e org cost est d t) = Inr ()" and "daily_wf (snd (recordCallCost e org cost est d t))"
    and "spent (snd (recordCallCost e org cost est d t)) = charge org d cost (spent t0)"
proof -
  have "\<forall>k\<in>org_keys org. daily_at t d k \<noteq> None \<and> 0 \<le> spent t d k + (cost - est)"
    using assms(4,6) spent_nonneg [OF assms(3)] by (simp add: assms(5) charge_def)
  from record_quiet [OF assms(1,2,4) this] obtain t' where
    "recordCallCost e org cost est d t = (Inr (), t')" "daily_wf t'" "spent t' = charge org d (cost - est) (spent t)" by blast
  then show "fst (recordCallCost e org cost est d t) = Inr ()" "daily_wf (snd (recordCallCost e org cost est d t))"
    "spent (snd (recordCallCost e org cost est d t)) = charge org d cost (spent t0)"
    using assms(5) by simp_all
qed

text \<open>A check that passed is a reserve under every cap; a check that did not changed nothing.\<close>

lemma cap_check_refused: "quiet_cost (ie_check1 e) \<Longrightarrow> daily_wf t \<Longrightarrow> cap_check e org est d t = (Inl x, t') \<Longrightarrow> t' = t"
  using cap_check_quiet [of e t org est d] by auto

lemma cap_check_passed:
  assumes "quiet_cost (ie_check1 e)" and "daily_wf t" and "cap_check e org est d t = (Inr (), t')"
  shows "daily_wf t'" and "spent t' = charge org d est (spent t)" and "\<forall>k\<in>org_keys org. daily_at t' d k \<noteq> None"
    and "\<forall>k\<in>org_keys org. spent t d k + est \<le> effective_cap (ie_check1 e) k"
    and "\<And>d' k. daily_at t d' k \<noteq> None \<Longrightarrow> daily_at t' d' k \<noteq> None"
  using cap_check_quiet [OF assms(1,2), of org est d] assms(3) by auto

lemma completions_append [simp]: "completions (db\<lparr>ll_provider := xs @ [(k, b)]\<rparr>) = length (filter snd xs) + (if b then 1 else 0)"
  by (simp add: completions_def)

lemma completions_cong: "ll_provider db' = ll_provider db \<Longrightarrow> completions db' = completions db"
  by (simp add: completions_def)

text \<open>Whatever faults it meets, a check that passes has reserved the estimate and one that does not has changed nothing.\<close>

lemma check_passed:
  assumes "daily_wf t" and "checkOrRaise e org est d t = (Inr u, t')"
  shows "daily_wf t' \<and> spent t' = charge org d est (spent t) \<and> (\<forall>k\<in>org_keys org. daily_at t' d k \<noteq> None)"
proof -
  let ?q = "without_faults e"
  have c: "checkOrRaise ?q org est d t = (Inr u, t')" by (rule check_any(1) [OF assms(2)])
  obtain t1 where q: "checkOrRaise ?q org est d t = (spec_decide (effective_cap ?q None) (effective_cap ?q (Some org)) org est d (spent t), t1)"
    "daily_wf t1" "\<not> isl (spec_decide (effective_cap ?q None) (effective_cap ?q (Some org)) org est d (spent t)) \<longrightarrow> spent t1 = charge org d est (spent t)
         \<and> (\<forall>k\<in>org_keys org. daily_at t1 d k = Some (spent t d k + est, effective_cap ?q k))"
    using checkOrRaise_quiet [OF without_faults_quiet [of e] assms(1), of org est d] by blast
  then have "spec_decide (effective_cap ?q None) (effective_cap ?q (Some org)) org est d (spent t) = Inr u" "t1 = t'" using c by simp_all
  then show ?thesis using q(2,3) by simp
qed

lemma cap_check_any:
  assumes "daily_wf t"
  shows "cap_check e org est d t = (Inl x, t') \<Longrightarrow> t' = t"
    and "cap_check e org est d t = (Inr (), t') \<Longrightarrow>
      daily_wf t' \<and> spent t' = charge org d est (spent t) \<and> (\<forall>k\<in>org_keys org. daily_at t' d k \<noteq> None)"
proof -
  obtain r1 t1 where c1: "checkOrRaise (ie_check1 e) org est d t = (r1, t1)" by force
  have t1: "r1 = Inl y \<Longrightarrow> t1 = t" for y using check_any(2) c1 by blast
  obtain r2 t2 where c2: "checkOrRaise (ie_check2 e) org est d t = (r2, t2)" by force
  have t2: "r2 = Inl y \<Longrightarrow> t2 = t" for y using check_any(2) c2 by blast
  show "cap_check e org est d t = (Inl x, t') \<Longrightarrow> t' = t"
    using c1 c2 t1 t2 by (auto simp: cap_check_def split: sum.splits cost_error.splits prod.splits)
  show "cap_check e org est d t = (Inr (), t') \<Longrightarrow>
      daily_wf t' \<and> spent t' = charge org d est (spent t) \<and> (\<forall>k\<in>org_keys org. daily_at t' d k \<noteq> None)"
    using c1 c2 t1 t2 check_passed [OF assms]
    by (auto simp: cap_check_def split: sum.splits cost_error.splits prod.splits)
qed

text \<open>A settle that returns has taken back the estimate but the cost, and one that throws has changed nothing.\<close>

lemma settle_any:
  assumes "daily_wf t" and "daily_wf t0" and "0 \<le> cost" and "spent t = charge org d est (spent t0)" and "\<forall>k\<in>org_keys org. daily_at t d k \<noteq> None"
  shows "daily_wf (snd (recordCallCost e org cost est d t))"
    and "spent (snd (recordCallCost e org cost est d t)) = charge org d (if isl (fst (recordCallCost e org cost est d t)) then est else cost) (spent t0)"
proof -
  obtain r t' where r: "recordCallCost e org cost est d t = (r, t')" by force
  have "daily_wf t' \<and> spent t' = charge org d (if isl r then est else cost) (spent t0)"
  proof (cases r)
    case (Inl x)
    then show ?thesis using record_any(2) [of e org cost est d t x t'] r assms(1,4) by simp
  next
    case (Inr u)
    then have "recordCallCost (without_faults e) org cost est d t = (Inr u, t')" using record_any(1) r by blast
    then show ?thesis using settle_reserved [OF without_faults_quiet [of e] assms(1-5)] Inr by simp
  qed
  then show "daily_wf (snd (recordCallCost e org cost est d t))"
    "spent (snd (recordCallCost e org cost est d t)) = charge org d (if isl (fst (recordCallCost e org cost est d t)) then est else cost) (spent t0)"
    using r by simp_all
qed

text \<open>What stays charged for a call. Nothing was reserved for a call that was over at its entry, aborted, refused for
  want of a key or by a cap. A reserve is given up only by a settle or a release that returns: a fault of an archive or of the
  telemetry stops the call before it.\<close>

definition reserve_of :: "invoke_env \<Rightarrow> invoke_args \<Rightarrow> llm_db \<Rightarrow> (string \<times> daily_row list) option" where
  "reserve_of e a db =
     (case invoke_entry e a db of
        Inl _ \<Rightarrow> None
      | Inr model \<Rightarrow>
          if ia_aborted a \<noteq> None \<or> ie_strict e \<and> idempotency_key e a model = None then None
          else case cap_check e (telemetry_iid a) (estimate a model) (isoDate (ie_check_at e)) (ll_daily db) of
            (Inl _, _) \<Rightarrow> None
          | (Inr _, t) \<Rightarrow> Some (model, t))"

definition settles :: "invoke_env \<Rightarrow> invoke_args \<Rightarrow> string \<Rightarrow> daily_row list \<Rightarrow> int \<Rightarrow> bool" where
  "settles e a model t cost \<longleftrightarrow> \<not> isl (fst (recordCallCost (ie_settle e) (telemetry_iid a) cost (estimate a model) (isoDate (ie_settle_at e)) t))"

definition charged_cents :: "invoke_env \<Rightarrow> invoke_args \<Rightarrow> llm_db \<Rightarrow> int" where
  "charged_cents e a db =
     (case reserve_of e a db of
        None \<Rightarrow> 0
      | Some (model, t) \<Rightarrow>
          if ie_request_fault e \<noteq> None then estimate a model
          else case ie_sdk e of
            Inl _ \<Rightarrow> if settles e a model t 0 then 0 else estimate a model
          | Inr response \<Rightarrow>
              if ie_response_fault e = None \<and> ie_telemetry_fault e = None \<and> settles e a model t (response_cents e model response)
              then response_cents e model response else estimate a model)"

text \<open>What the provider logs for the call.\<close>

definition provider_entry :: "invoke_env \<Rightarrow> invoke_args \<Rightarrow> llm_db \<Rightarrow> (string option \<times> bool) list" where
  "provider_entry e a db =
     (case reserve_of e a db of
        None \<Rightarrow> []
      | Some (model, _) \<Rightarrow> if ie_request_fault e \<noteq> None then [] else [(idempotency_key e a model, \<not> isl (ie_sdk e))])"

lemma finish_paid_daily:
  "ll_daily (snd (finish_call e a model False response db)) =
     (if ie_response_fault e = None \<and> ie_telemetry_fault e = None
      then snd (recordCallCost (ie_settle e) (telemetry_iid a) (response_cents e model response) (estimate a model) (isoDate (ie_settle_at e)) (ll_daily db))
      else ll_daily db)"
  by (auto simp: finish_call_def Let_def split: prod.split sum.split option.split)

text \<open>(C35) A call that begins and settles on one UTC day, whatever faults of the cap's statements, of the archive, of
  the telemetry or of the provider it meets and whatever it returns: the day's totals of the platform and of the installation
  have grown by nothing when no reserve was taken or a failed provider call released it, by the price of the completion when
  the settle returned, and by the estimate when the call failed between the reserve and that; the provider was called exactly
  when the reserve and the archive of the request succeeded. Without such faults the growth is the price of what
  the call bought.\<close>

theorem invoke_accounts_exactly:
  assumes "daily_wf (ll_daily db)" and "isoDate (ie_settle_at e) = isoDate (ie_check_at e)"
  shows "case invokeModel e a db of (_, db') \<Rightarrow> daily_wf (ll_daily db')
    \<and> spent (ll_daily db') = charge (telemetry_iid a) (isoDate (ie_check_at e)) (charged_cents e a db) (spent (ll_daily db))
    \<and> ll_provider db' = ll_provider db @ provider_entry e a db
    \<and> (calm e \<longrightarrow> charged_cents e a db = bought_cents e a db db')"
proof (cases "invoke_entry e a db")
  case (Inl y)
  then obtain x db' where y: "invoke_entry e a db = Inl (x, db')" by (cases y) simp
  then have "reserve_of e a db = None" by (simp add: reserve_of_def)
  then show ?thesis using entry_over [OF y] assms(1)
    by (simp add: invokeModel_def y charged_cents_def provider_entry_def bought_cents_def completions_def)
next
  case (Inr model)
  have m: "ia_model a = Some model" using entry_miss(1) [OF Inr] .
  have inv: "invokeModel e a db = invoke_miss e a model db" by (simp add: invokeModel_def Inr)
  show ?thesis
  proof (cases rule: paid_call_cases [of e a model db])
    case (stopped x t)
    have "reserve_of e a db = None" using stopped(2) by (auto simp: reserve_of_def Inr)
    moreover have "t = ll_daily db" using stopped(2) cap_check_any(1) [OF assms(1)] by blast
    ultimately show ?thesis using assms(1)
      by (simp add: inv invoke_miss_def stopped(1) charged_cents_def provider_entry_def bought_cents_def completions_def)
  next
    case (reserved t db1)
    have r: "reserve_of e a db = Some (model, t)" using reserved(1-3) by (simp add: reserve_of_def Inr)
    have c: "daily_wf t" "spent t = charge (telemetry_iid a) (isoDate (ie_check_at e)) (estimate a model) (spent (ll_daily db))"
      "\<forall>k\<in>org_keys (telemetry_iid a). daily_at t (isoDate (ie_check_at e)) k \<noteq> None"
      using cap_check_any(2) [OF assms(1) reserved(1)] by blast+
    note settle = settle_any [OF c(1) assms(1) _ c(2,3), where e = "ie_settle e"]
    have quiet: "settles e a model t cost" if "calm e" "0 \<le> cost" for cost
      using settle_reserved(1) [OF _ c(1) assms(1) that(2) c(2,3), of "ie_settle e"] that(1) assms(2) by (simp add: settles_def calm_def)
    show ?thesis
    proof (cases "ie_request_fault e")
      case (Some x)
      then show ?thesis using c reserved(4,6)
        by (simp add: inv invoke_miss_def reserved(7) r charged_cents_def provider_entry_def calm_def)
    next
      case None
      show ?thesis
      proof (cases "ie_sdk e")
        case (Inl x)
        then show ?thesis using settle [of 0] quiet [of 0] None reserved(4,6) assms(2)
          by (auto simp: inv invoke_miss_def reserved(7) r charged_cents_def provider_entry_def settles_def bought_cents_def completions_def)
      next
        case (Inr response)
        note pos = order_trans [OF zero_le_one response_cents_pos [of e model response]]
        show ?thesis using settle [OF pos] quiet [OF _ pos] None Inr reserved(4,6) assms(2) c(1,2) m
          by (auto simp: inv invoke_miss_def reserved(7) r charged_cents_def provider_entry_def settles_def bought_cents_def completions_def
              finish_paid_daily calm_def split_beta)
      qed
    qed
  qed
qed

text \<open>(C36) A provider call is made only for a live signal, only with a ledger key where the ledger is strict, only
  when the ledger holds no response for the key, and only when its estimate fits under the cap of the platform and
  of the installation with what the day has already charged.\<close>

theorem paid_only_after_gate:
  assumes "quiet_cost (ie_check1 e)" and "daily_wf (ll_daily db)" and "ia_model a = Some model"
    and "ll_provider (snd (invokeModel e a db)) \<noteq> ll_provider db"
  shows "ia_aborted a = None \<and> (ie_strict e \<longrightarrow> idempotency_key e a model \<noteq> None) \<and> stored_response e a model db = None
    \<and> (\<forall>k\<in>org_keys (telemetry_iid a). spent (ll_daily db) (isoDate (ie_check_at e)) k + estimate a model \<le> effective_cap (ie_check1 e) k)"
proof (cases rule: invokeModel_cases [of e a db])
  case (miss m)
  then have m: "m = model" using assms(3) by simp
  show ?thesis
  proof (cases rule: paid_call_cases [of e a m db])
    case (stopped x t)
    then show ?thesis using assms(4) by (simp add: miss(3))
  next
    case (reserved t db1)
    then show ?thesis using cap_check_passed(4) [OF assms(1,2) reserved(1)] miss(2) m by simp
  qed
qed (use assms(4) in simp_all)

section \<open>Reserves that are never settled\<close>

text \<open>Nothing before the payment stops the call.\<close>

definition admitted :: "invoke_env \<Rightarrow> invoke_args \<Rightarrow> string \<Rightarrow> llm_db \<Rightarrow> bool" where
  "admitted e a model db \<longleftrightarrow> ia_model a = Some model \<and> ia_cachePrefixMessages a = None \<and> ie_lookup_fault e = None
     \<and> stored_response e a model db = None \<and> ia_aborted a = None \<and> (ie_strict e \<longrightarrow> idempotency_key e a model \<noteq> None)
     \<and> quiet_cost (ie_check1 e) \<and> daily_wf (ll_daily db)
     \<and> (\<forall>k\<in>org_keys (telemetry_iid a). spent (ll_daily db) (isoDate (ie_check_at e)) k + estimate a model \<le> effective_cap (ie_check1 e) k)"

lemma cap_check_admits:
  assumes "quiet_cost (ie_check1 e)" and "daily_wf t" and "0 \<le> est"
    and "\<forall>k\<in>org_keys org. spent t d k + est \<le> effective_cap (ie_check1 e) k"
  obtains t' where "cap_check e org est d t = (Inr (), t')"
proof -
  have fits: "spent t d None + est \<le> effective_cap (ie_check1 e) None"
    "org \<noteq> ZERO_UUID \<Longrightarrow> spent t d (Some org) + est \<le> effective_cap (ie_check1 e) (Some org)"
    using assms(4) by (auto simp: org_keys_def split: if_splits)
  obtain t' where "checkOrRaise (ie_check1 e) org est d t
      = (spec_decide (effective_cap (ie_check1 e) None) (effective_cap (ie_check1 e) (Some org)) org est d (spent t), t')"
    using checkOrRaise_quiet [OF assms(1,2)] by blast
  then have "cap_check e org est d t = (Inr (), t')"
    using fits assms(3) by (cases "org = ZERO_UUID") (simp_all add: cap_check_def spec_decide_def)
  then show thesis by (rule that)
qed

lemma admitted_pays:
  assumes "admitted e a model db"
  obtains db1 where "daily_wf (ll_daily db1)"
    and "spent (ll_daily db1) = charge (telemetry_iid a) (isoDate (ie_check_at e)) (estimate a model) (spent (ll_daily db))"
    and "ll_ledger db1 = ll_ledger db" and "ll_provider db1 = ll_provider db"
    and "\<And>d k. daily_at (ll_daily db) d k \<noteq> None \<Longrightarrow> daily_at (ll_daily db1) d k \<noteq> None"
    and "invokeModel e a db = (case ie_request_fault e of Some m \<Rightarrow> (Inl (InvFault m), db1)
        | None \<Rightarrow> (case ie_sdk e of
             Inl x \<Rightarrow> (Inl (sdk_failure x), after_sdk_failure e (telemetry_iid a) model (estimate a model) x
                 (db1\<lparr>ll_provider := ll_provider db @ [(idempotency_key e a model, False)]\<rparr>))
           | Inr response \<Rightarrow> finish_call e a model False response (db1\<lparr>ll_provider := ll_provider db @ [(idempotency_key e a model, True)],
               ll_ledger := storeInvocation e a model (telemetry_iid a) (idempotency_key e a model) response (ll_ledger db)\<rparr>)))"
proof -
  have ad: "ia_model a = Some model" "ia_cachePrefixMessages a = None" "ie_lookup_fault e = None" "stored_response e a model db = None"
    "ia_aborted a = None" "\<not> (ie_strict e \<and> idempotency_key e a model = None)" "quiet_cost (ie_check1 e)" "daily_wf (ll_daily db)"
    "\<forall>k\<in>org_keys (telemetry_iid a). spent (ll_daily db) (isoDate (ie_check_at e)) k + estimate a model \<le> effective_cap (ie_check1 e) k"
    using assms by (auto simp: admitted_def)
  obtain t where t: "cap_check e (telemetry_iid a) (estimate a model) (isoDate (ie_check_at e)) (ll_daily db) = (Inr (), t)"
    using cap_check_admits [OF ad(7,8) _ ad(9)] estimate_pos [of a model] by fastforce
  note c = cap_check_passed [OF ad(7,8) t]
  have inv: "invokeModel e a db = (case paid_call e a model db of (Inl x, db') \<Rightarrow> (Inl x, db') | (Inr response, db') \<Rightarrow> finish_call e a model False response db')"
    using ad(1-4) by (simp add: invokeModel_unfold Let_def stored_response_def)
  show thesis
  proof (cases rule: paid_call_cases [of e a model db])
    case (stopped x t')
    then show thesis using ad(5,6) t by auto
  next
    case (reserved t' db1)
    have t': "ll_daily db1 = t" using reserved(1,4) t by simp
    show thesis
      by (rule that [of db1]) (use c t' reserved(5-7) inv in \<open>simp_all split: option.split sum.split\<close>)
  qed
qed

text \<open>When the archive of the request fails, the call fails before the provider is reached, but the estimate
  stays charged to the day: the write stands outside the block whose handler releases the reserve.\<close>

theorem archive_fault_leaks_reserve:
  assumes "admitted e a model db" and "ie_request_fault e = Some m"
  shows "case invokeModel e a db of (r, db') \<Rightarrow> r = Inl (InvFault m) \<and> ll_provider db' = ll_provider db
    \<and> spent (ll_daily db') = charge (telemetry_iid a) (isoDate (ie_check_at e)) (estimate a model) (spent (ll_daily db))"
proof (cases rule: admitted_pays [OF assms(1)])
  case (1 db1)
  then show ?thesis using assms(2) by simp
qed

text \<open>Two environments under which a call mints the same key.\<close>

definition same_key :: "invoke_env \<Rightarrow> invoke_env \<Rightarrow> bool" where
  "same_key e e' \<longleftrightarrow> ie_has_ledger e = ie_has_ledger e' \<and> ie_sha256 e = ie_sha256 e' \<and> ie_hashMessages e = ie_hashMessages e'"

lemma idempotency_key_same: "same_key e e' \<Longrightarrow> idempotency_key e a model = idempotency_key e' a model"
  by (simp add: same_key_def idempotency_key_def key_inputs_def)

lemma lookup_stored:
  assumes "ledger_lookup k iid t = None" and "k \<notin> lg_key ` set t" and "lg_key r = k" and "lg_installation_id r = iid" and "is_record (lg_response r)"
  shows "ledger_lookup k iid (ledger_store r t) = Some (lg_response r)"
proof -
  have "filter (\<lambda>x. lg_key x = k \<and> lg_installation_id x = iid) t = []" using assms(2) by (auto simp: filter_empty_conv)
  then show ?thesis using assms(2-5) by (auto simp: ledger_lookup_def ledger_store_def first_row_def is_record_def split: json.splits)
qed

text \<open>(C37) When the telemetry write of a paid call fails, the call fails before it settles; its retry finds the response in
  the ledger, succeeds and settles nothing. The day keeps the estimate for good, whatever the call cost.\<close>

theorem replay_never_settles:
  assumes "admitted e a model db" and "ie_request_fault e = None" and "ie_sdk e = Inr response" and "is_record response"
    and "ie_response_fault e = None" and "ie_telemetry_fault e = Some m" and "\<not> ie_store_fault e"
    and "idempotency_key e a model = Some k" and "k \<notin> lg_key ` set (ll_ledger db)"
    and "same_key e e'" and "ie_lookup_fault e' = None" and "ie_response_fault e' = None" and "ie_telemetry_fault e' = None"
    and "ie_safe e' (content_text (ie_str e') response)"
  shows "case invokeModel e a db of (r1, db1) \<Rightarrow> case invokeModel e' a db1 of (r2, db2) \<Rightarrow>
      r1 = Inl (InvFault m) \<and> \<not> isl r2 \<and> ll_provider db2 = ll_provider db @ [(Some k, True)]
    \<and> spent (ll_daily db2) = charge (telemetry_iid a) (isoDate (ie_check_at e)) (estimate a model) (spent (ll_daily db))"
proof (cases rule: admitted_pays [OF assms(1)])
  case (1 db0)
  have ad: "ia_model a = Some model" "ia_cachePrefixMessages a = None" "stored_response e a model db = None" using assms(1) by (auto simp: admitted_def)
  obtain i where i: "ia_idempotency a = Some i" using assms(8) by (auto simp: idempotency_key_def split: if_splits)
  let ?iid = "telemetry_iid a"
  let ?row = "ledger_key_inputs.extend (key_inputs e a model i) \<lparr>lg_key = k, lg_installation_id = ?iid, lg_response = response, lg_created_at = ie_db_now e\<rparr>"
  obtain db1 where db1: "invokeModel e a db = (Inl (InvFault m), db1)" "ll_ledger db1 = ledger_store ?row (ll_ledger db)"
    "ll_provider db1 = ll_provider db @ [(Some k, True)]" "ll_daily db1 = ll_daily db0"
    using 1(6) assms(2,3,5-8) i by (simp add: finish_call_def Let_def storeInvocation_def)
  have "ledger_lookup k ?iid (ll_ledger db) = None" using ad(3) assms(8) by (simp add: stored_response_def)
  from lookup_stored [OF this assms(9), of ?row] have "ledger_lookup k ?iid (ll_ledger db1) = Some response"
    using assms(4) db1(2) by (simp add: ledger_key_inputs.defs)
  moreover have "idempotency_key e' a model = Some k" using assms(8) idempotency_key_same [OF assms(10)] by simp
  ultimately have "invokeModel e' a db1 = finish_call e' a model True response db1"
    using ad(1,2) assms(11) by (simp add: invokeModel_unfold Let_def)
  then show ?thesis using db1 1(2) assms(12-14) by (simp add: finish_call_def Let_def)
qed

text \<open>A call that crosses midnight settles against the new day. When that day's total is below what the settle
  takes back, the settle violates the CHECK of the table: a call that was paid and stored fails, and the old day
  keeps the estimate.\<close>

theorem midnight_settle_fails:
  assumes "admitted e a model db" and "ie_request_fault e = None" and "ie_sdk e = Inr response" and "ie_response_fault e = None"
    and "ie_telemetry_fault e = None" and "quiet_cost (ie_settle e)"
    and "isoDate (ie_settle_at e) \<noteq> isoDate (ie_check_at e)" and "daily_at (ll_daily db) (isoDate (ie_settle_at e)) None = Some (y, z)"
    and "y + response_cents e model response < estimate a model"
  shows "case invokeModel e a db of (r, db') \<Rightarrow> r = Inl (InvCost (CostDbError ''23514''))
    \<and> ll_provider db' = ll_provider db @ [(idempotency_key e a model, True)]
    \<and> spent (ll_daily db') = charge (telemetry_iid a) (isoDate (ie_check_at e)) (estimate a model) (spent (ll_daily db))"
proof (cases rule: admitted_pays [OF assms(1)])
  case (1 db1)
  let ?d = "isoDate (ie_settle_at e)"
  have "spent (ll_daily db1) ?d None = y" using 1(2) assms(7,8) by (simp add: charge_def spent_def)
  moreover have "daily_at (ll_daily db1) ?d None \<noteq> None" using 1(5) assms(8) by simp
  ultimately obtain z' where row: "daily_at (ll_daily db1) ?d None = Some (y, z')" by (auto simp: spent_def)
  have "recordCallCost (ie_settle e) (telemetry_iid a) (response_cents e model response) (estimate a model) ?d (ll_daily db1)
      = (Inl (CostDbError ''23514''), ll_daily db1)"
    using record_negative [OF assms(6) 1(1) _ row] response_cents_pos [of e model response] assms(9) by simp
  then show ?thesis using 1(2,6) assms(2-5) by (simp add: finish_call_def Let_def)
qed

section \<open>A worked call\<close>

definition demo_response :: "rat json" where
  "demo_response = JObj [(''content'', JArr [JObj [(''text'', JStr ''ok'')]]), (''usage'', JObj [(''input_tokens'', JNum 10), (''output_tokens'', JNum 400)])]"

definition demo_invoke_args :: invoke_args where
  "demo_invoke_args = \<lparr>ia_role = ''primary'', ia_model = Some ''claude-opus-4-7'', ia_messages = [\<lparr>ms_role = ''user'', ms_content = ''hi''\<rparr>],
     ia_maxTokens = 1024, ia_purpose = ''review'', ia_installationId = ''org'',
     ia_idempotency = Some \<lparr>ip_reviewId = ''r'', ip_chunkId = ''c'', ip_toolSchemaVersion = ''1''\<rparr>,
     ia_aborted = None, ia_cachePrefixMessages = None\<rparr>"

definition demo_invoke :: invoke_env where
  "demo_invoke = \<lparr>ie_has_ledger = True, ie_strict = True, ie_journal_on = False, ie_sha256 = (\<lambda>s. s),
     ie_hashMessages = (\<lambda>ms. concat (map ms_content ms)), ie_redact = (\<lambda>s. s), ie_safe = (\<lambda>_. True), ie_num = (\<lambda>_. None),
     ie_str = (\<lambda>_. []), ie_sdk = Inr demo_response, ie_requestId = ''q'', ie_latency = 5,
     ie_check_at = 1767312000000, ie_settle_at = 1767312005000, ie_check1 = demo_cost, ie_check2 = demo_cost, ie_settle = demo_cost,
     ie_reserve_journal = demo_journal_env ''q'', ie_settle_journal = demo_journal_env ''q'', ie_db_now = 0,
     ie_lookup_fault = None, ie_store_fault = False, ie_request_fault = None, ie_response_fault = None, ie_telemetry_fault = None\<rparr>"

definition demo_llm :: llm_db where
  "demo_llm = \<lparr>ll_daily = demo_daily, ll_journal = [], ll_ledger = [], ll_calls = [], ll_blobs = [], ll_provider = []\<rparr>"

definition demo_key :: string where
  "demo_key = ledger_preimage (key_inputs demo_invoke demo_invoke_args ''claude-opus-4-7'' \<lparr>ip_reviewId = ''r'', ip_chunkId = ''c'', ip_toolSchemaVersion = ''1''\<rparr>)"

lemma digit_chars: "char_of (48::nat) = CHR ''0''" "char_of (49::nat) = CHR ''1''" "char_of (50::nat) = CHR ''2''"
  "char_of (51::nat) = CHR ''3''" "char_of (54::nat) = CHR ''6''"
  by code_simp+

lemma demo_texts: "int_text 2026 = ''2026''" "int_text 1 = ''1''" "int_text 2 = ''2''" "int_text 3 = ''3''"
  by (simp_all add: int_text_def nat_text.simps digit_chars)

lemma demo_civil: "civil_date 739923 = (2026, 1, 2)" "civil_date 739924 = (2026, 1, 3)"
  by code_simp+

lemma demo_day [simp]: "isoDate 1767312000000 = ''2026-01-02''" "isoDate 1767312005000 = ''2026-01-02''" "isoDate 1767398400001 = ''2026-01-03''"
  by (simp_all add: isoDate_def pad_def demo_texts demo_civil)

lemma demo_prices [simp]: "estimate demo_invoke_args ''claude-opus-4-7'' = 7" "response_cents demo_invoke ''claude-opus-4-7'' demo_response = 3"
  by code_simp+

lemma demo_idempotency [simp]: "idempotency_key demo_invoke demo_invoke_args ''claude-opus-4-7'' = Some demo_key"
  by (simp add: idempotency_key_def computeKey_def demo_key_def) (simp add: demo_invoke_def demo_invoke_args_def)

lemma demo_parts [simp]:
  "ie_check_at demo_invoke = 1767312000000" "ie_response_fault demo_invoke = None" "ie_request_fault demo_invoke = None"
  "ie_telemetry_fault demo_invoke = None" "ie_lookup_fault demo_invoke = None" "\<not> ie_store_fault demo_invoke" "ie_safe demo_invoke x"
  "ie_sdk demo_invoke = Inr demo_response" "ie_settle demo_invoke = demo_cost" "ie_check1 demo_invoke = demo_cost"
  "telemetry_iid demo_invoke_args = ''org''" "ll_provider demo_llm = []" "ll_ledger demo_llm = []" "ll_daily demo_llm = demo_daily"
  "is_record demo_response" "ia_model demo_invoke_args = Some ''claude-opus-4-7''"
  by (simp_all add: demo_invoke_def demo_invoke_args_def demo_llm_def demo_response_def is_record_def telemetry_iid_def)

lemma demo_charge [simp]: "charge ''org'' d c T d None = T d None + c"
  by (simp add: charge_def org_keys_def)

lemma demo_spent [simp]: "spent demo_daily ''2026-01-02'' None = 70"
  by (simp add: demo_cost_simps)

lemma demo_calm: "calm demo_invoke"
  using demo_cost_ok by (simp add: calm_def demo_invoke_def)

lemma demo_admitted: "admitted demo_invoke demo_invoke_args ''claude-opus-4-7'' demo_llm"
proof -
  have "stored_response demo_invoke demo_invoke_args ''claude-opus-4-7'' demo_llm = None"
    by (simp add: stored_response_def) (simp add: ledger_lookup_def demo_llm_def)
  moreover have "spent demo_daily ''2026-01-02'' k + 7 \<le> effective_cap demo_cost k" if "k \<in> org_keys ''org''" for k
    using that by (auto simp: org_keys_def demo_cost_simps split: if_splits)
  ultimately show ?thesis
    using demo_cost_ok by (simp add: admitted_def) (simp add: demo_invoke_def demo_invoke_args_def demo_llm_def telemetry_iid_def)
qed

text \<open>Two calls that both miss.\<close>

definition demo_calls :: "call_step list" where
  "demo_calls = [Enter demo_invoke demo_invoke_args, Enter demo_invoke demo_invoke_args, Leave 0, Leave 0]"

lemma demo_entry: "invoke_entry demo_invoke demo_invoke_args demo_llm = Inr ''claude-opus-4-7''"
  by (simp add: invoke_entry_def Let_def ledger_lookup_def) (simp add: demo_invoke_args_def)

theorem completion_bought_once_witness:
  "count_list (ll_provider (fst (run_calls demo_calls (demo_llm, [])))) (Some demo_key, True) \<le> 2
    \<and> tally (raced demo_key) demo_calls (demo_llm, []) = 1"
proof -
  have t: "tally (raced demo_key) demo_calls (demo_llm, []) = 1" "tally (lost demo_key) demo_calls (demo_llm, []) = 0"
    "tally (swept demo_key) demo_calls (demo_llm, []) = 0"
    by (simp_all add: demo_calls_def demo_entry under_way_def missed_key_def without_def)
  have "list_all (call_ok demo_key ''org'') demo_calls" by (simp add: demo_calls_def call_ok_def)
  from completion_bought_once [OF _ _ this, of demo_llm] show ?thesis using t by simp
qed

text \<open>The call that succeeds is charged its price, and the one whose telemetry fails its estimate.\<close>

theorem invoke_accounts_exactly_witness:
  "case invokeModel demo_invoke demo_invoke_args demo_llm of (_, db') \<Rightarrow> daily_wf (ll_daily db')
    \<and> spent (ll_daily db') ''2026-01-02'' None = 70 + charged_cents demo_invoke demo_invoke_args demo_llm
    \<and> charged_cents demo_invoke demo_invoke_args demo_llm = bought_cents demo_invoke demo_invoke_args demo_llm db'"
proof -
  have "daily_wf (ll_daily demo_llm)" "isoDate (ie_settle_at demo_invoke) = isoDate (ie_check_at demo_invoke)"
    using demo_cost_ok by simp_all (simp add: demo_invoke_def)
  from invoke_accounts_exactly [OF this, of demo_invoke_args] show ?thesis using demo_calm by (simp add: split_beta)
qed

theorem paid_only_after_gate_witness:
  "spent demo_daily ''2026-01-02'' (Some ''org'') + 7 \<le> effective_cap demo_cost (Some ''org'')"
proof -
  have "ll_provider (snd (invokeModel demo_invoke demo_invoke_args demo_llm)) \<noteq> ll_provider demo_llm"
  proof (cases rule: admitted_pays [OF demo_admitted])
    case (1 db1)
    moreover have "ie_request_fault demo_invoke = None" "ie_sdk demo_invoke = Inr demo_response" by (simp_all add: demo_invoke_def)
    ultimately show ?thesis by simp
  qed
  moreover have "quiet_cost (ie_check1 demo_invoke)" "daily_wf (ll_daily demo_llm)" "ia_model demo_invoke_args = Some ''claude-opus-4-7''"
    using demo_cost_ok by (simp_all add: demo_invoke_def demo_llm_def demo_invoke_args_def)
  ultimately have "\<forall>k\<in>org_keys (telemetry_iid demo_invoke_args). spent (ll_daily demo_llm) (isoDate (ie_check_at demo_invoke)) k
      + estimate demo_invoke_args ''claude-opus-4-7'' \<le> effective_cap (ie_check1 demo_invoke) k"
    using paid_only_after_gate [of demo_invoke demo_llm demo_invoke_args "''claude-opus-4-7''"] by blast
  then show ?thesis by (simp add: org_keys_def ZERO_UUID_def)
qed

lemma admitted_cong:
  assumes "admitted e a model db" and "e' = e\<lparr>ie_request_fault := x, ie_telemetry_fault := y, ie_settle_at := z\<rparr>"
  shows "admitted e' a model db"
proof -
  have "same_key e' e" using assms(2) by (simp add: same_key_def)
  then show ?thesis using assms idempotency_key_same [of e' e a model] by (simp add: admitted_def stored_response_def)
qed

theorem archive_fault_leaks_reserve_witness:
  "case invokeModel (demo_invoke\<lparr>ie_request_fault := Some ''down''\<rparr>) demo_invoke_args demo_llm of (r, db') \<Rightarrow>
     r = Inl (InvFault ''down'') \<and> ll_provider db' = [] \<and> spent (ll_daily db') ''2026-01-02'' None = 77"
proof -
  have e: "demo_invoke\<lparr>ie_request_fault := Some ''down''\<rparr>
    = demo_invoke\<lparr>ie_request_fault := Some ''down'', ie_telemetry_fault := None, ie_settle_at := 1767312005000\<rparr>" by (simp add: demo_invoke_def)
  show ?thesis using archive_fault_leaks_reserve [OF admitted_cong [OF demo_admitted e], of "''down''"] by (simp add: split_beta)
qed

theorem replay_never_settles_witness:
  "case invokeModel (demo_invoke\<lparr>ie_telemetry_fault := Some ''down''\<rparr>) demo_invoke_args demo_llm of (r1, db1) \<Rightarrow>
   case invokeModel demo_invoke demo_invoke_args db1 of (r2, db2) \<Rightarrow>
     r1 = Inl (InvFault ''down'') \<and> \<not> isl r2 \<and> ll_provider db2 = [(Some demo_key, True)] \<and> spent (ll_daily db2) ''2026-01-02'' None = 77"
proof -
  let ?e = "demo_invoke\<lparr>ie_telemetry_fault := Some ''down''\<rparr>"
  have e: "?e = demo_invoke\<lparr>ie_request_fault := None, ie_telemetry_fault := Some ''down'', ie_settle_at := 1767312005000\<rparr>" by (simp add: demo_invoke_def)
  have same: "same_key ?e demo_invoke" by (simp add: same_key_def)
  moreover have "idempotency_key ?e demo_invoke_args ''claude-opus-4-7'' = Some demo_key"
    using idempotency_key_same [OF same] demo_idempotency by simp
  ultimately show ?thesis
    using replay_never_settles [OF admitted_cong [OF demo_admitted e], of demo_response "''down''" demo_key demo_invoke]
    by (simp add: split_beta)
qed

text \<open>The day after already holds a row of the platform, with a total of one cent.\<close>

definition demo_midnight :: daily_row where
  "demo_midnight = \<lparr>cd_today = ''2026-01-03'', cd_scope = ''global'', cd_scope_id = ZERO_UUID,
     daily_total_cents = 1, cd_cap_cents = 500, cd_updated_at = 0\<rparr>"

lemma demo_midnight_daily:
  "daily_wf (demo_daily @ [demo_midnight])" "daily_at (demo_daily @ [demo_midnight]) ''2026-01-03'' None = Some (1, 500)"
  "spent (demo_daily @ [demo_midnight]) ''2026-01-02'' = spent demo_daily ''2026-01-02''"
  by (auto simp: daily_wf_def daily_check_def daily_pk_def demo_cost_simps demo_midnight_def key_row_def fun_eq_iff split: option.splits)

theorem midnight_settle_fails_witness:
  "case invokeModel (demo_invoke\<lparr>ie_settle_at := 1767398400001\<rparr>) demo_invoke_args (demo_llm\<lparr>ll_daily := demo_daily @ [demo_midnight]\<rparr>) of (r, db') \<Rightarrow>
     r = Inl (InvCost (CostDbError ''23514'')) \<and> ll_provider db' = [(Some demo_key, True)] \<and> spent (ll_daily db') ''2026-01-02'' None = 77"
proof -
  let ?e = "demo_invoke\<lparr>ie_settle_at := 1767398400001\<rparr>"
  have e: "?e = demo_invoke\<lparr>ie_request_fault := None, ie_telemetry_fault := None, ie_settle_at := 1767398400001\<rparr>" by (simp add: demo_invoke_def)
  have same: "same_key ?e demo_invoke" by (simp add: same_key_def)
  then have key: "idempotency_key ?e demo_invoke_args ''claude-opus-4-7'' = Some demo_key"
    using idempotency_key_same [OF same] demo_idempotency by simp
  have ad: "admitted ?e demo_invoke_args ''claude-opus-4-7'' (demo_llm\<lparr>ll_daily := demo_daily @ [demo_midnight]\<rparr>)"
    using admitted_cong [OF demo_admitted e] demo_midnight_daily key by (simp add: admitted_def stored_response_def ledger_lookup_def)
  have cents: "response_cents ?e ''claude-opus-4-7'' demo_response = 3"
    using demo_prices(2) by (simp add: response_cents_def usage_tokens_def)
  show ?thesis using midnight_settle_fails [OF ad, of demo_response 1 500] demo_midnight_daily(2,3) key cents demo_cost_ok(1) by (simp add: split_beta)
qed

end
