(* ===== verification/Review_Body.thy ===== *)
theory Review_Body
  imports Findings Canonical_Json
begin

text \<open>
  What a review says: the inline comment of a finding and the section of the findings that got none, of
  \<^verbatim>\<open>activities/post_review_results.activity.ts\<close>. A string of this theory is the UTF-8 text of the source's string; the
  host of the links (\<^verbatim>\<open>config/github_host.ts\<close>) is a parameter.
\<close>

section \<open>Text\<close>

definition utf8_text :: "nat list \<Rightarrow> string" where
  "utf8_text = map char_of"

definition em_dash :: string where "em_dash = utf8_text [226, 128, 148]"
definition ellipsis :: string where "ellipsis = utf8_text [226, 128, 166]"
definition middle_dot :: string where "middle_dot = utf8_text [194, 183]"
definition paperclip :: string where "paperclip = utf8_text [240, 159, 147, 142]"

text \<open>\<^verbatim>\<open>s.split(c).join(t)\<close>.\<close>

definition replace_char :: "char \<Rightarrow> string \<Rightarrow> string \<Rightarrow> string" where
  "replace_char c t s = concat (map (\<lambda>x. if x = c then t else [x]) s)"

definition LF :: string where "LF = [CHR 0x0A]"

fun lines_text :: "string list \<Rightarrow> string" where
  "lines_text [] = []"
| "lines_text [l] = l"
| "lines_text (l # ls) = l @ LF @ lines_text ls"

text \<open>The number of disjoint occurrences, found from the left.\<close>

function count_text :: "string \<Rightarrow> string \<Rightarrow> nat" where
  "count_text pat s =
     (if pat = [] \<or> s = [] then 0
      else if take (length pat) s = pat then Suc (count_text pat (drop (length pat) s)) else count_text pat (tl s))"
  by pat_completeness auto
termination
  by (relation "measure (\<lambda>(pat, s). length s)") auto

declare count_text.simps [simp del]

section \<open>The inline comment\<close>

definition SEVERITY_PREFIX :: "(string \<times> string) list" where
  "SEVERITY_PREFIX =
     [(''blocker'', utf8_text [240, 159, 148, 180] @ '' Critical''), (''issue'', utf8_text [240, 159, 159, 160] @ '' Major''),
      (''suggestion'', utf8_text [240, 159, 159, 161] @ '' Minor''), (''nit'', utf8_text [240, 159, 148, 181] @ '' Trivial'')]"

definition potential_issue :: string where
  "potential_issue = utf8_text [226, 154, 160, 239, 184, 143] @ '' Potential issue''"

definition refactor_suggestion :: string where
  "refactor_suggestion = utf8_text [240, 159, 155, 160, 239, 184, 143] @ '' Refactor suggestion''"

definition CATEGORY_REVIEW_TYPE :: "(string \<times> string) list" where
  "CATEGORY_REVIEW_TYPE =
     [(''bug'', potential_issue), (''security'', potential_issue), (''context_breaks_consumer'', potential_issue),
      (''performance'', refactor_suggestion), (''style'', refactor_suggestion), (''test'', refactor_suggestion),
      (''docs'', refactor_suggestion), (''config'', refactor_suggestion), (''other'', refactor_suggestion)]"

definition lookup_default :: "(string \<times> 'v) list \<Rightarrow> string \<Rightarrow> 'v \<Rightarrow> 'v" where
  "lookup_default m k d = (case map_of m k of Some v \<Rightarrow> v | None \<Rightarrow> d)"

definition findingPrefixLine :: "review_finding \<Rightarrow> string" where
  "findingPrefixLine f =
     (let reviewType = (if rf_severity f = ''nit'' then utf8_text [240, 159, 167, 185] @ '' Nitpick''
                        else lookup_default CATEGORY_REVIEW_TYPE (rf_category f) refactor_suggestion)
      in ''_'' @ reviewType @ ''_ | _'' @ lookup_default SEVERITY_PREFIX (rf_severity f) (utf8_text [240, 159, 159, 161] @ '' Minor'') @ ''_'')"

definition CITATION_RANK :: "(string \<times> nat) list" where
  "CITATION_RANK = [(''knowledge_chunk'', 0), (''repo_path'', 1), (''linter_rule'', 2)]"

text \<open>The best source, the first among equals.\<close>

fun top_source :: "citation \<Rightarrow> citation list \<Rightarrow> citation" where
  "top_source t [] = t"
| "top_source t (c # cs) =
     top_source (if lookup_default CITATION_RANK (ct_kind c) 99 < lookup_default CITATION_RANK (ct_kind t) 99 then c else t) cs"

definition inlineSourceLine :: "citation list \<Rightarrow> string" where
  "inlineSourceLine sources =
     (case sources of [] \<Rightarrow> [] | c # cs \<Rightarrow> LF @ LF @ ''> '' @ paperclip @ '' Source: `'' @ ct_locator (top_source c (c # cs)) @ ''`'')"

definition KIND_LABEL :: "(string \<times> string) list" where
  "KIND_LABEL = [(''repo_path'', ''repo''), (''knowledge_chunk'', ''knowledge''), (''linter_rule'', ''linter''), (''policy_rule'', ''policy'')]"

definition formatExcerpt :: "string \<Rightarrow> string" where
  "formatExcerpt excerpt = [CHR 0x22] @ replace_char (CHR 0x22) [CHR 0x5C, CHR 0x22] excerpt @ [CHR 0x22]"

definition formatOneCitation :: "nat \<Rightarrow> citation \<Rightarrow> string" where
  "formatOneCitation i c =
     int_text (int i) @ ''. **'' @ lookup_default KIND_LABEL (ct_kind c) (ct_kind c) @ ''** '' @ em_dash @ '' `'' @ ct_locator c @ ''`''
     @ (case ct_excerpt c of None \<Rightarrow> [] | Some e \<Rightarrow> if e = [] then [] else '': '' @ formatExcerpt e)"

definition renderSourcesBlock :: "citation list \<Rightarrow> string" where
  "renderSourcesBlock sources =
     (if sources = [] then []
      else LF @ LF @ ''---'' @ LF @ ''**Sources:**'' @ LF @ LF @ lines_text (map (\<lambda>(i, c). formatOneCitation (Suc i) c) (enumerate 0 sources)))"

definition suggestionBlock :: "string \<Rightarrow> string" where
  "suggestionBlock suggestion = LF @ LF @ ''```suggestion'' @ LF @ suggestion @ LF @ ''```''"

record inline_comment =
  ic_path :: string
  ic_line :: int
  ic_body :: string
  ic_startLine :: "int option"

definition findingToInlineComment :: "review_finding \<Rightarrow> inline_comment" where
  "findingToInlineComment f =
     \<lparr>ic_path = rf_file f, ic_line = rf_end_line f,
      ic_body = findingPrefixLine f @ LF @ LF @ ''**'' @ rf_title f @ ''**'' @ LF @ LF @ rf_body f
        @ inlineSourceLine (rf_sources f)
        @ (case rf_suggestion f of None \<Rightarrow> [] | Some s \<Rightarrow> if s = [] then [] else suggestionBlock s)
        @ renderSourcesBlock (rf_sources f),
      ic_startLine = (if rf_start_line f = rf_end_line f then None else Some (rf_start_line f))\<rparr>"

definition serialiseInline :: "inline_comment \<Rightarrow> rat json" where
  "serialiseInline c =
     JObj ([(''path'', JStr (ic_path c)), (''line'', JNum (of_int (ic_line c))), (''side'', JStr ''RIGHT''), (''body'', JStr (ic_body c))]
       @ (case ic_startLine c of None \<Rightarrow> [] | Some l \<Rightarrow> [(''start_line'', JNum (of_int l)), (''start_side'', JStr ''RIGHT'')]))"

section \<open>The findings against the diff\<close>

definition DROP_FILE_NOT_IN_DIFF :: string where "DROP_FILE_NOT_IN_DIFF = ''file_not_in_diff''"
definition DROP_LINE_AFTER_LAST_HUNK :: string where "DROP_LINE_AFTER_LAST_HUNK = ''line_after_last_hunk''"
definition DROP_LINE_BEFORE_FIRST_HUNK :: string where "DROP_LINE_BEFORE_FIRST_HUNK = ''line_before_first_hunk''"
definition DROP_LINE_SPANS_HUNKS :: string where "DROP_LINE_SPANS_HUNKS = ''line_spans_hunks''"
definition DROP_LINE_IN_UNCHANGED_GAP :: string where "DROP_LINE_IN_UNCHANGED_GAP = ''line_in_unchanged_gap''"

type_synonym hunk = "int \<times> int"

datatype class_outcome = Valid_finding | Dropped_finding

record classification =
  cl_outcome :: class_outcome
  cl_finding :: review_finding
  cl_dropReason :: "string option"

definition MIN_HUNKS_FOR_SPAN :: nat where "MIN_HUNKS_FOR_SPAN = 2"

definition isBeforeFirstHunk :: "review_finding \<Rightarrow> hunk list \<Rightarrow> bool" where
  "isBeforeFirstHunk f ranges \<longleftrightarrow> rf_start_line f < Min (set (map fst ranges))"

definition isAfterLastHunk :: "review_finding \<Rightarrow> hunk list \<Rightarrow> bool" where
  "isAfterLastHunk f ranges \<longleftrightarrow> Max (set (map snd ranges)) < rf_end_line f"

definition hunk_overlaps :: "review_finding \<Rightarrow> hunk \<Rightarrow> bool" where
  "hunk_overlaps f h \<longleftrightarrow> \<not> (rf_end_line f < fst h \<or> snd h < rf_start_line f)"

definition spansMultipleHunks :: "review_finding \<Rightarrow> hunk list \<Rightarrow> bool" where
  "spansMultipleHunks f ranges \<longleftrightarrow> MIN_HUNKS_FOR_SPAN \<le> length (filter (hunk_overlaps f) ranges)"

definition classifyDropReason :: "review_finding \<Rightarrow> hunk list \<Rightarrow> string" where
  "classifyDropReason f ranges =
     (if isBeforeFirstHunk f ranges then DROP_LINE_BEFORE_FIRST_HUNK
      else if isAfterLastHunk f ranges then DROP_LINE_AFTER_LAST_HUNK
      else if spansMultipleHunks f ranges then DROP_LINE_SPANS_HUNKS
      else DROP_LINE_IN_UNCHANGED_GAP)"

definition findingAccepted :: "review_finding \<Rightarrow> hunk list \<Rightarrow> bool" where
  "findingAccepted f ranges \<longleftrightarrow> list_ex (\<lambda>(lo, hi). lo \<le> rf_start_line f \<and> rf_end_line f \<le> hi) ranges"

definition classify :: "(string \<times> hunk list) list \<Rightarrow> review_finding \<Rightarrow> classification" where
  "classify changed f =
     (case map_of changed (rf_file f) of
        None \<Rightarrow> \<lparr>cl_outcome = Dropped_finding, cl_finding = f, cl_dropReason = Some DROP_FILE_NOT_IN_DIFF\<rparr>
      | Some ranges \<Rightarrow>
          if ranges = [] then \<lparr>cl_outcome = Dropped_finding, cl_finding = f, cl_dropReason = Some DROP_FILE_NOT_IN_DIFF\<rparr>
          else if findingAccepted f ranges then \<lparr>cl_outcome = Valid_finding, cl_finding = f, cl_dropReason = None\<rparr>
          else \<lparr>cl_outcome = Dropped_finding, cl_finding = f, cl_dropReason = Some (classifyDropReason f ranges)\<rparr>)"

definition classifyFindingsAgainstDiff :: "review_finding list \<Rightarrow> (string \<times> hunk list) list \<Rightarrow> classification list" where
  "classifyFindingsAgainstDiff findings changed = map (classify changed) findings"

section \<open>The section of the dropped findings\<close>

datatype bucket = Security | Correctness | Nits

definition SECURITY_RULE_PREFIXES :: "string list" where
  "SECURITY_RULE_PREFIXES = [''gitleaks:'', ''ruff:S'', ''eslint:security/'', ''eslint:no-eval'']"

definition CORRECTNESS_RULE_PREFIXES :: "string list" where
  "CORRECTNESS_RULE_PREFIXES = [''ruff:F'', ''ruff:E9'', ''ruff:B'', ''eslint:no-undef'', ''eslint:no-unused-vars'']"

definition BUCKET_HEADERS :: "bucket \<Rightarrow> string" where
  "BUCKET_HEADERS b = (case b of Security \<Rightarrow> ''**Security & secrets**'' | Correctness \<Rightarrow> ''**Correctness**'' | Nits \<Rightarrow> ''Style & nits'')"

definition PER_BUCKET_CAP :: nat where "PER_BUCKET_CAP = 15"
definition SECTION_CAP :: nat where "SECTION_CAP = 30"
definition SECTION_CHAR_CAP :: nat where "SECTION_CHAR_CAP = 8 * 1024"
definition SECTION_CHAR_CAP_SLACK :: nat where "SECTION_CHAR_CAP_SLACK = 256"

definition ruleIdFromSources :: "citation list \<Rightarrow> string" where
  "ruleIdFromSources sources = (case first_row (filter (\<lambda>c. ct_kind c = ''linter_rule'') sources) of None \<Rightarrow> [] | Some c \<Rightarrow> ct_locator c)"

definition starts_with :: "string \<Rightarrow> string \<Rightarrow> bool" where
  "starts_with s p \<longleftrightarrow> take (length p) s = p"

definition findingBucket :: "review_finding \<Rightarrow> bucket" where
  "findingBucket f =
     (let ruleId = ruleIdFromSources (rf_sources f) in
      if rf_category f = ''security'' then Security
      else if rf_category f = ''bug'' \<or> rf_category f = ''context_breaks_consumer'' then Correctness
      else if list_ex (starts_with ruleId) SECURITY_RULE_PREFIXES then Security
      else if list_ex (starts_with ruleId) CORRECTNESS_RULE_PREFIXES then Correctness
      else Nits)"

definition mdEscapeText :: "string \<Rightarrow> string" where
  "mdEscapeText s =
     replace_char (CHR 0x0A) '' '' (replace_char (CHR ''`'') [CHR 0x5C, CHR ''`'']
       (replace_char (CHR '']'') [CHR 0x5C, CHR '']''] (replace_char (CHR 0x5C) [CHR 0x5C, CHR 0x5C] s)))"

record link_ctx =
  lc_host :: string
  lc_owner :: string
  lc_repo :: string
  lc_headSha :: string

definition deepLink :: "link_ctx \<Rightarrow> string \<Rightarrow> int \<Rightarrow> string" where
  "deepLink ctx path line =
     ''https://'' @ lc_host ctx @ ''/'' @ lc_owner ctx @ ''/'' @ lc_repo ctx @ ''/blob/''
     @ (if lc_headSha ctx \<noteq> [] then lc_headSha ctx else ''HEAD'') @ ''/'' @ path @ ''#L'' @ int_text line"

definition renderBulletLine :: "link_ctx \<Rightarrow> review_finding \<Rightarrow> string" where
  "renderBulletLine ctx f =
     (let ruleId = ruleIdFromSources (rf_sources f)
      in ''- [`'' @ mdEscapeText (rf_file f) @ '':'' @ int_text (rf_start_line f) @ ''`](''
         @ deepLink ctx (rf_file f) (rf_start_line f) @ '')''
         @ (if ruleId \<noteq> [] then '' '' @ middle_dot @ '' '' @ ruleId else []) @ '' '' @ em_dash @ '' '' @ mdEscapeText (rf_title f))"

definition more_line :: "nat \<Rightarrow> string" where
  "more_line n = ''- _'' @ ellipsis @ '' and '' @ int_text (int n) @ '' more in the database_''"

definition renderTopBucketLines :: "link_ctx \<Rightarrow> bucket \<Rightarrow> review_finding list \<Rightarrow> nat \<Rightarrow> string list" where
  "renderTopBucketLines ctx b items truncationCount =
     [BUCKET_HEADERS b @ '' ('' @ int_text (int (length items)) @ '')'', []]
     @ map (renderBulletLine ctx) (take PER_BUCKET_CAP items)
     @ (if 0 < truncationCount then [more_line truncationCount] else []) @ [[]]"

definition renderNitsLines :: "link_ctx \<Rightarrow> review_finding list \<Rightarrow> bool \<Rightarrow> nat \<Rightarrow> string list" where
  "renderNitsLines ctx nits suppressItems truncationCount =
     (let n = int_text (int (length nits)) in
      if suppressItems then [''_'' @ BUCKET_HEADERS Nits @ '' ('' @ n @ '') '' @ em_dash @ '' '' @ n @ '' more in the database_'', []]
      else [''<details><summary>'' @ BUCKET_HEADERS Nits @ '' ('' @ n @ '') '' @ em_dash @ '' click to expand</summary>'', []]
        @ map (renderBulletLine ctx) (take PER_BUCKET_CAP nits)
        @ (if 0 < truncationCount then [more_line truncationCount] else []) @ [[], ''</details>'', []])"

text \<open>A cut in the middle of a code point decodes to replacement characters, and all of those are stripped from the end.\<close>

definition utf8_continues :: "char \<Rightarrow> bool" where
  "utf8_continues c \<longleftrightarrow> 128 \<le> (of_char c :: nat) \<and> of_char c < (192 :: nat)"

definition utf8_needs :: "char \<Rightarrow> nat" where
  "utf8_needs c = (if 240 \<le> (of_char c :: nat) then 4 else if 224 \<le> (of_char c :: nat) then 3 else if 192 \<le> (of_char c :: nat) then 2 else 1)"

definition drop_partial :: "string \<Rightarrow> string" where
  "drop_partial s =
     (let r = rev s; k = length (takeWhile utf8_continues r)
      in case dropWhile utf8_continues r of
           [] \<Rightarrow> s
         | c # front \<Rightarrow> if Suc k < utf8_needs c then rev front else s)"

definition replacement_rev :: string where "replacement_rev = utf8_text [189, 191, 239]"

function strip_rev :: "string \<Rightarrow> string" where
  "strip_rev r = (if r \<noteq> [] \<and> take 3 r = replacement_rev then strip_rev (drop 3 r) else r)"
  by pat_completeness auto
termination
  by (relation "measure length") auto

declare strip_rev.simps [simp del]

definition strip_replacements :: "string \<Rightarrow> string" where
  "strip_replacements s = rev (strip_rev (rev s))"

definition section_footer :: string where
  "section_footer = LF @ LF @ ''_'' @ ellipsis @ '' section truncated; remaining findings recorded in the review database._''"

definition applyCharacterCap :: "string \<Rightarrow> string" where
  "applyCharacterCap rendered =
     (if length rendered \<le> SECTION_CHAR_CAP then rendered
      else let truncated = strip_replacements (drop_partial (take (SECTION_CHAR_CAP - SECTION_CHAR_CAP_SLACK) rendered));
               openCount = count_text ''<details>'' truncated - count_text ''</details>'' truncated
           in truncated @ section_footer @ concat (replicate openCount (LF @ ''</details>'')))"

definition in_bucket :: "bucket \<Rightarrow> classification list \<Rightarrow> review_finding list" where
  "in_bucket b dropped = filter (\<lambda>f. findingBucket f = b) (map cl_finding dropped)"

definition top_bucket :: "link_ctx \<Rightarrow> classification list \<Rightarrow> bucket \<Rightarrow> string list" where
  "top_bucket ctx dropped b =
     (let items = in_bucket b dropped in if items = [] then [] else renderTopBucketLines ctx b items (length items - PER_BUCKET_CAP))"

definition renderDroppedFindingsSection :: "link_ctx \<Rightarrow> classification list \<Rightarrow> string" where
  "renderDroppedFindingsSection ctx classifications =
     (let dropped = filter (\<lambda>c. cl_outcome c = Dropped_finding) classifications; nits = in_bucket Nits dropped;
          total_count = length (in_bucket Security dropped) + length (in_bucket Correctness dropped) + length nits
      in if dropped = [] then []
         else applyCharacterCap (lines_text
           ([LF @ ''---'' @ LF, ''### Additional findings detected ('' @ int_text (int (length dropped)) @ '')'', [],
             ''These findings were detected during review but could not be attached to inline comments automatically.'', []]
            @ top_bucket ctx dropped Security @ top_bucket ctx dropped Correctness
            @ (if nits = [] then [] else renderNitsLines ctx nits (SECTION_CAP < total_count) (length nits - PER_BUCKET_CAP)))))"

definition markerFor :: "uuid \<Rightarrow> string" where
  "markerFor prId = ''<!-- codemaster:review-marker:'' @ prId @ '' -->''"

definition buildReviewBody :: "string \<Rightarrow> uuid \<Rightarrow> string \<Rightarrow> string" where
  "buildReviewBody walkthroughMd prId droppedSectionMd = walkthroughMd @ LF @ LF @ markerFor prId @ LF @ droppedSectionMd"

section \<open>Which findings are kept\<close>

definition is_valid :: "classification \<Rightarrow> bool" where
  "is_valid c \<longleftrightarrow> cl_outcome c = Valid_finding"

lemma classify_valid_iff:
  "is_valid (classify changed f) \<longleftrightarrow>
     (\<exists>ranges lo hi. map_of changed (rf_file f) = Some ranges \<and> (lo, hi) \<in> set ranges \<and> lo \<le> rf_start_line f \<and> rf_end_line f \<le> hi)"
  by (auto simp: is_valid_def classify_def findingAccepted_def list_ex_iff split: option.split)

lemma classify_reason: "cl_dropReason (classify changed f) = None \<longleftrightarrow> is_valid (classify changed f)"
  by (simp add: is_valid_def classify_def split: option.split)

lemma cl_finding_classify [simp]: "cl_finding (classify changed f) = f"
  by (simp add: classify_def split: option.split)

section \<open>The size of the section\<close>

lemma count_text_length: "count_text pat s * length pat \<le> length s"
proof (induction pat s rule: count_text.induct)
  case (1 pat s)
  show ?case
  proof (cases "pat = [] \<or> s = []")
    case False
    show ?thesis
    proof (cases "take (length pat) s = pat")
      case True
      then have "length pat \<le> length s" by (metis length_take min.cobounded1 min.absorb_iff2)
      then show ?thesis using 1(1) False True by (simp add: count_text.simps [of pat s])
    next
      case f: False
      then show ?thesis using 1(2) False by (simp add: count_text.simps [of pat s])
    qed
  qed (simp add: count_text.simps [of pat s])
qed

lemma drop_partial_length: "length (drop_partial s) \<le> length s"
proof -
  have "length (dropWhile utf8_continues (rev s)) \<le> length s" by (metis length_dropWhile_le length_rev)
  then show ?thesis by (auto simp: drop_partial_def Let_def split: list.split)
qed

lemma strip_rev_length: "length (strip_rev r) \<le> length r"
  by (induction r rule: strip_rev.induct) (subst strip_rev.simps, auto)

lemma strip_replacements_length: "length (strip_replacements s) \<le> length s"
  using strip_rev_length [of "rev s"] by (simp add: strip_replacements_def)

lemma section_footer_length: "length section_footer = 78"
  by (simp add: section_footer_def LF_def ellipsis_def utf8_text_def)

text \<open>The section never exceeds 17705 bytes; its own cap of 8192 bytes it can exceed, by the tags it closes.\<close>

theorem section_bounded: "length (applyCharacterCap rendered) \<le> 17705"
proof (cases "length rendered \<le> SECTION_CHAR_CAP")
  case False
  let ?t = "strip_replacements (drop_partial (take (SECTION_CHAR_CAP - SECTION_CHAR_CAP_SLACK) rendered))"
  have t: "length ?t \<le> 7936"
    using strip_replacements_length [of "drop_partial (take 7936 rendered)"] drop_partial_length [of "take 7936 rendered"]
    by (simp add: SECTION_CHAR_CAP_def SECTION_CHAR_CAP_SLACK_def)
  then have "count_text ''<details>'' ?t * 9 \<le> 7936" using count_text_length [of "''<details>''" ?t] by simp
  then have c: "count_text ''<details>'' ?t - count_text ''</details>'' ?t \<le> 881" by simp
  have "length (applyCharacterCap rendered) = length ?t + 78 + (count_text ''<details>'' ?t - count_text ''</details>'' ?t) * 11"
    using False by (simp add: applyCharacterCap_def Let_def section_footer_length LF_def sum_list_replicate length_concat)
  then show ?thesis using t c by linarith
qed (simp add: applyCharacterCap_def SECTION_CHAR_CAP_def)

text \<open>The bound is reached.\<close>

lemma count_text_copies: "pat \<noteq> [] \<Longrightarrow> count_text pat (concat (replicate n pat) @ r) = n + count_text pat r"
  by (induction n) (simp_all add: count_text.simps [of pat "pat @ _"])

lemma count_text_absent: "c \<in> set pat \<Longrightarrow> c \<notin> set s \<Longrightarrow> count_text pat s = 0"
proof (induction pat s rule: count_text.induct)
  case (1 pat s)
  have "take (length pat) s \<noteq> pat" using "1.prems" by (metis in_set_takeD)
  moreover have "s \<noteq> [] \<Longrightarrow> c \<notin> set (tl s)" using "1.prems"(2) by (cases s) auto
  ultimately show ?case using 1 by (auto simp: count_text.simps [of pat s])
qed

definition open_tags :: "nat \<Rightarrow> string" where
  "open_tags n = concat (replicate n ''<details>'')"

lemma open_tags_add: "open_tags (m + n) = open_tags m @ open_tags n"
  by (simp add: open_tags_def replicate_add)

lemma open_tags_cut: "take 7936 (open_tags 1000) = open_tags 881 @ ''<detail''"
proof -
  have "open_tags 1000 = open_tags 881 @ open_tags 119"
    using open_tags_add [of 881 119] by simp
  moreover have "length (open_tags 881) = 7929" by (simp add: open_tags_def length_concat sum_list_replicate)
  moreover have "open_tags 119 = ''<details>'' @ open_tags 118"
    using open_tags_add [of 1 118] by (simp add: open_tags_def)
  ultimately show ?thesis by simp
qed

theorem section_bound_reached: "length (applyCharacterCap (open_tags 1000)) = 17705"
proof -
  let ?t = "open_tags 881 @ ''<detail''"
  have len: "length (open_tags n) = 9 * n" for n by (simp add: open_tags_def length_concat sum_list_replicate)
  have "set (open_tags 881) \<subseteq> set ''<details>''" by (auto simp: open_tags_def)
  then have no: "count_text ''</details>'' ?t = 0" by (intro count_text_absent [of "CHR ''/''"]) auto
  have "count_text ''<details>'' ?t = 881 + count_text ''<details>'' ''<detail''"
    unfolding open_tags_def by (rule count_text_copies) simp
  moreover have "count_text ''<details>'' ''<detail'' = 0" by (rule count_text_absent [of "CHR ''s''"]) auto
  ultimately have yes: "count_text ''<details>'' ?t = 881" by simp
  have "drop_partial ?t = ?t" by (simp add: drop_partial_def utf8_continues_def utf8_needs_def)
  moreover have "CHR ''l'' \<noteq> char_of (189 :: nat)" by code_simp
  then have "strip_replacements ?t = ?t"
    unfolding strip_replacements_def by (subst strip_rev.simps) (simp add: replacement_rev_def utf8_text_def numeral_3_eq_3)
  ultimately have "strip_replacements (drop_partial (take (SECTION_CHAR_CAP - SECTION_CHAR_CAP_SLACK) (open_tags 1000))) = ?t"
    using open_tags_cut by (simp add: SECTION_CHAR_CAP_def SECTION_CHAR_CAP_SLACK_def)
  moreover have "\<not> length (open_tags 1000) \<le> SECTION_CHAR_CAP" using len [of 1000] by (simp add: SECTION_CHAR_CAP_def)
  ultimately have "applyCharacterCap (open_tags 1000) = ?t @ section_footer @ concat (replicate 881 (LF @ ''</details>''))"
    using yes no by (simp only: applyCharacterCap_def Let_def if_False diff_zero)
  moreover have "length (concat (replicate 881 (LF @ ''</details>''))) = 881 * 11"
    by (simp only: length_concat map_replicate sum_list_replicate) (simp add: LF_def)
  ultimately show ?thesis using len [of 881] by (simp add: section_footer_length)
qed

end
