(* ===== verification/Github_Api.thy ===== *)
theory Github_Api
  imports Retry Canonical_Json
begin

text \<open>
  The GitHub REST client: the decision loop of \<^verbatim>\<open>integrations/github/api_client.ts\<close>, its header parsers, the
  token provider of \<^verbatim>\<open>token_provider.ts\<close> with its two caches, and the reviews surface of
  \<^verbatim>\<open>review_client.ts\<close>. The server is a parameter: a function of the attempt, the request and a state \<open>'s\<close> of
  its own, which an answer of any status may have changed. So are the parsers of the platform (JSON, dates), the
  signing of the App token and the instants of the clock. Header names are ASCII.
\<close>

section \<open>Headers\<close>

type_synonym headers = "(string \<times> string) list"

definition lower_char :: "char \<Rightarrow> char" where
  "lower_char c = (if CHR ''A'' \<le> c \<and> c \<le> CHR ''Z'' then char_of (of_char c + (32::nat)) else c)"

definition lower_text :: "string \<Rightarrow> string" where
  "lower_text = map lower_char"

definition header :: "headers \<Rightarrow> string \<Rightarrow> string option" where
  "header hs name =
     (case map_of hs name of
        Some v \<Rightarrow> Some v
      | None \<Rightarrow> map_option snd (first_row (filter (\<lambda>(k, _). lower_text k = lower_text name) hs)))"

definition js_parseInt :: "string \<Rightarrow> int option" where
  "js_parseInt s =
     (let t = dropWhile is_space s;
        (neg, u) = (case t of c # cs \<Rightarrow> if c = CHR ''-'' then (True, cs) else if c = CHR ''+'' then (False, cs) else (False, t) | [] \<Rightarrow> (False, []));
        ds = takeWhile is_digit u
      in if ds = [] then None else Some (if neg then - int (number_of ds) else int (number_of ds)))"

record rate_limit_window =
  rw_resource :: string
  rw_limit :: int
  rw_remaining :: int
  rw_resetAt :: js_date

definition DEFAULT_RESOURCE :: string where "DEFAULT_RESOURCE = ''core''"

definition parseRateLimit :: "headers \<Rightarrow> rate_limit_window option" where
  "parseRateLimit hs =
     (case (header hs ''X-RateLimit-Limit'', header hs ''X-RateLimit-Remaining'', header hs ''X-RateLimit-Reset'') of
        (Some limit, Some remaining, Some reset) \<Rightarrow>
          (case (js_parseInt limit, js_parseInt remaining, js_parseInt reset) of
             (Some l, Some m, Some r) \<Rightarrow> Some \<lparr>rw_resource = DEFAULT_RESOURCE, rw_limit = l, rw_remaining = m, rw_resetAt = r * 1000\<rparr>
           | _ \<Rightarrow> None)
      | _ \<Rightarrow> None)"

text \<open>\<open>date\<close> is \<^verbatim>\<open>Date.parse\<close>.\<close>

definition parseRetryAfter :: "(string \<Rightarrow> js_date option) \<Rightarrow> headers \<Rightarrow> js_date option \<Rightarrow> int option" where
  "parseRetryAfter date hs nowMs =
     (case header hs ''Retry-After'' of
        None \<Rightarrow> None
      | Some raw \<Rightarrow>
          if all_digits (trim raw) then js_parseInt raw
          else (case nowMs of
                  None \<Rightarrow> None
                | Some now \<Rightarrow> map_option (\<lambda>t. max 0 \<lfloor>rat_of_int (t - now) / 1000 + 1 / 2\<rfloor>) (date raw)))"

text \<open>The text before and behind the first occurrence.\<close>

fun cut_text :: "string \<Rightarrow> string \<Rightarrow> (string \<times> string) option" where
  "cut_text pat [] = (if pat = [] then Some ([], []) else None)"
| "cut_text pat (c # s) = (if take (length pat) (c # s) = pat then Some ([], drop (length pat) (c # s))
     else map_option (\<lambda>(a, b). (c # a, b)) (cut_text pat s))"

definition before_text :: "string \<Rightarrow> string \<Rightarrow> string" where
  "before_text pat s = (case cut_text pat s of None \<Rightarrow> s | Some (a, _) \<Rightarrow> a)"

definition unbracket :: "string \<Rightarrow> string" where
  "unbracket s =
     (let t = (case s of c # cs \<Rightarrow> if c = CHR ''<'' then cs else s | [] \<Rightarrow> [])
      in if t \<noteq> [] \<and> last t = CHR ''>'' then butlast t else t)"

text \<open>The path of a link: behind the host of an absolute one.\<close>

definition link_path :: "string \<Rightarrow> string" where
  "link_path urlPart =
     (case cut_text ''://'' urlPart of
        None \<Rightarrow> urlPart
      | Some (_, rest) \<Rightarrow>
          CHR ''/'' # (case cut_text ''/'' (before_text ''://'' rest) of None \<Rightarrow> [] | Some (_, path) \<Rightarrow> path))"

definition segment_next :: "string \<Rightarrow> string option" where
  "segment_next segment =
     (case split_on (CHR '';'') (trim segment) of
        urlPart # attr # attrs \<Rightarrow>
          if list_ex (\<lambda>a. trim a = ''rel=\"next\"'') (attr # attrs) then Some (link_path (unbracket (trim urlPart))) else None
      | _ \<Rightarrow> None)"

fun first_some :: "('a \<Rightarrow> 'b option) \<Rightarrow> 'a list \<Rightarrow> 'b option" where
  "first_some f [] = None"
| "first_some f (x # xs) = (case f x of Some y \<Rightarrow> Some y | None \<Rightarrow> first_some f xs)"

definition extractNextLink :: "string option \<Rightarrow> string option" where
  "extractNextLink linkHeader =
     (case linkHeader of None \<Rightarrow> None | Some h \<Rightarrow> if h = [] then None else first_some segment_next (split_on (CHR '','') h))"

section \<open>The token provider\<close>

record http_response =
  hr_status :: int
  hr_headers :: headers
  hr_body :: "string option"

datatype token_error = PermanentTokenError string | TransientTokenError string | SigningError string | BadInstallationId int

record cached_token =
  ck_token :: string
  ck_expiresAt :: js_date
  ck_mintedAt :: js_date

text \<open>The positive cache in its insertion order; the negative one with the monotonic instant, in seconds, of its end.\<close>

record token_state =
  tp_cache :: "(int \<times> cached_token) list"
  tp_negative :: "int \<rightharpoonup> string \<times> rat"

record token_options =
  to_appId :: int
  to_refreshAtFraction :: rat
  to_maxCacheEntries :: nat

definition SAFE_INTEGER :: int where "SAFE_INTEGER = 2 ^ 53 - 1"
definition NEGATIVE_CACHE_TTL_SECONDS :: rat where "NEGATIVE_CACHE_TTL_SECONDS = 60"
definition TOKEN_MAX_RETRIES :: nat where "TOKEN_MAX_RETRIES = 3"
definition INITIAL_BACKOFF_SECONDS :: rat where "INITIAL_BACKOFF_SECONDS = 1 / 2"

definition provider_accepts :: "token_options \<Rightarrow> bool" where
  "provider_accepts opt \<longleftrightarrow> 0 < to_appId opt \<and> to_appId opt \<le> SAFE_INTEGER
     \<and> 1 / 10 \<le> to_refreshAtFraction opt \<and> to_refreshAtFraction opt \<le> 95 / 100 \<and> 1 \<le> to_maxCacheEntries opt"

definition drop_key :: "int \<Rightarrow> (int \<times> 'v) list \<Rightarrow> (int \<times> 'v) list" where
  "drop_key k m = filter (\<lambda>x. fst x \<noteq> k) m"

text \<open>A hit is moved to the end of the order.\<close>

definition cacheLookup :: "token_options \<Rightarrow> js_date \<Rightarrow> int \<Rightarrow> token_state \<Rightarrow> string option \<times> token_state" where
  "cacheLookup opt now iid s =
     (case map_of (tp_cache s) iid of
        None \<Rightarrow> (None, s)
      | Some c \<Rightarrow>
          let ttl = rat_of_int (ck_expiresAt c - ck_mintedAt c) / 1000; elapsed = rat_of_int (now - ck_mintedAt c) / 1000
          in if ttl * to_refreshAtFraction opt \<le> elapsed then (None, s)
             else (Some (ck_token c), s\<lparr>tp_cache := drop_key iid (tp_cache s) @ [(iid, c)]\<rparr>))"

definition cachePut :: "token_options \<Rightarrow> js_date \<Rightarrow> int \<Rightarrow> string \<Rightarrow> js_date \<Rightarrow> token_state \<Rightarrow> token_state" where
  "cachePut opt now iid token expiresAt s =
     (let m = drop_key iid (tp_cache s) @ [(iid, \<lparr>ck_token = token, ck_expiresAt = expiresAt, ck_mintedAt = now\<rparr>)]
      in s\<lparr>tp_cache := drop (length m - to_maxCacheEntries opt) m\<rparr>)"

definition checkNegativeCache :: "rat \<Rightarrow> int \<Rightarrow> token_state \<Rightarrow> string option \<times> token_state" where
  "checkNegativeCache tick iid s =
     (case tp_negative s iid of
        None \<Rightarrow> (None, s)
      | Some (m, expires) \<Rightarrow> if tick < expires then (Some m, s) else (None, s\<lparr>tp_negative := (tp_negative s)(iid := None)\<rparr>))"

text \<open>What one exchange meets: the two signatures, the answers of the token endpoint in order (\<open>Inl\<close> a network error),
  and the reading of a body by the contract.\<close>

record exchange_env =
  xe_sign :: "nat \<Rightarrow> string + string"
  xe_http :: "nat \<Rightarrow> string \<Rightarrow> string + http_response"
  xe_parse :: "string \<Rightarrow> string + (string \<times> js_date)"
  xe_now :: js_date
  xe_mono :: rat

record token_run =
  tr_result :: "token_error + string \<times> js_date"
  tr_sent :: nat
  tr_sleeps :: "rat list"

definition token_stop :: "token_error + string \<times> js_date \<Rightarrow> nat \<Rightarrow> token_run" where
  "token_stop r n = \<lparr>tr_result = r, tr_sent = n, tr_sleeps = []\<rparr>"

definition token_again :: "rat list \<Rightarrow> token_run \<Rightarrow> token_run" where
  "token_again sleeps t = t\<lparr>tr_sent := Suc (tr_sent t), tr_sleeps := sleeps @ tr_sleeps t\<rparr>"

text \<open>\<open>left\<close> is the number of attempts that remain.\<close>

fun exchange_loop :: "exchange_env \<Rightarrow> int \<Rightarrow> nat \<Rightarrow> nat \<Rightarrow> string \<Rightarrow> bool \<Rightarrow> rat \<Rightarrow> token_run" where
  "exchange_loop e iid 0 attempt jwt consumed backoff = token_stop (Inl (TransientTokenError ''unreachable retry loop exit'')) 0"
| "exchange_loop e iid (Suc n) attempt jwt consumed backoff =
     (case xe_http e attempt jwt of
        Inl m \<Rightarrow>
          if 0 < n then token_again [backoff] (exchange_loop e iid n (Suc attempt) jwt consumed (backoff * 2))
          else token_stop (Inl (TransientTokenError (''network error after 3 retries: '' @ m))) 1
      | Inr r \<Rightarrow>
          let st = hr_status r in
          if st = 401 \<and> \<not> consumed then
            (case xe_sign e 1 of
               Inl m \<Rightarrow> token_stop (Inl (SigningError m)) 1
             | Inr jwt' \<Rightarrow> token_again [] (exchange_loop e iid n (Suc attempt) jwt' True backoff))
          else if st = 401 then
            token_stop (Inl (PermanentTokenError (''GitHub returned 401 twice for installation_id='' @ int_text iid @
              ''; App suspended, key rotated, or unrecoverable clock skew''))) 1
          else if st = 403 \<or> st = 404 then
            token_stop (Inl (PermanentTokenError (''GitHub returned '' @ int_text st @ '' for installation_id='' @ int_text iid))) 1
          else if 500 \<le> st \<and> st < 600 then
            (if 0 < n then token_again [backoff] (exchange_loop e iid n (Suc attempt) jwt consumed (backoff * 2))
             else token_stop (Inl (TransientTokenError (''GitHub '' @ int_text st @ '' after 3 retries on token exchange''))) 1)
          else if 400 \<le> st then
            token_stop (Inl (PermanentTokenError (''GitHub '' @ int_text st @ '' on token exchange for installation_id='' @ int_text iid))) 1
          else (case xe_parse e (case hr_body r of None \<Rightarrow> [] | Some b \<Rightarrow> b) of
                  Inl m \<Rightarrow> token_stop (Inl (PermanentTokenError (''malformed token-exchange response: '' @ m))) 1
                | Inr x \<Rightarrow> token_stop (Inr x) 1))"

definition exchangeWithRetry :: "exchange_env \<Rightarrow> int \<Rightarrow> token_run" where
  "exchangeWithRetry e iid =
     (case xe_sign e 0 of
        Inl m \<Rightarrow> token_stop (Inl (PermanentTokenError (''private key in Vault is malformed: '' @ m))) 0
      | Inr jwt \<Rightarrow> exchange_loop e iid (Suc TOKEN_MAX_RETRIES) 0 jwt False INITIAL_BACKOFF_SECONDS)"

definition mint :: "token_options \<Rightarrow> exchange_env \<Rightarrow> int \<Rightarrow> token_state \<Rightarrow> (token_error + string) \<times> token_state" where
  "mint opt e iid s =
     (case tr_result (exchangeWithRetry e iid) of
        Inr (token, expiresAt) \<Rightarrow> (Inr token, cachePut opt (xe_now e) iid token expiresAt s)
      | Inl (PermanentTokenError m) \<Rightarrow>
          (Inl (PermanentTokenError m), s\<lparr>tp_negative := (tp_negative s)(iid \<mapsto> (m, xe_mono e + NEGATIVE_CACHE_TTL_SECONDS))\<rparr>)
      | Inl x \<Rightarrow> (Inl x, s))"

text \<open>Before the lock of the installation: an answer, or none when the caller has to take the lock.\<close>

definition getToken_fast :: "token_options \<Rightarrow> js_date \<Rightarrow> rat \<Rightarrow> bool \<Rightarrow> int \<Rightarrow> token_state \<Rightarrow> (token_error + string) option \<times> token_state" where
  "getToken_fast opt now tick forceRefresh iid s =
     (if iid \<le> 0 \<or> SAFE_INTEGER < iid then (Some (Inl (BadInstallationId iid)), s)
      else case checkNegativeCache tick iid s of
        (Some m, s1) \<Rightarrow> (Some (Inl (PermanentTokenError m)), s1)
      | (None, s1) \<Rightarrow>
          if forceRefresh then (None, s1\<lparr>tp_cache := drop_key iid (tp_cache s1)\<rparr>)
          else (case cacheLookup opt now iid s1 of (Some t, s2) \<Rightarrow> (Some (Inr t), s2) | (None, s2) \<Rightarrow> (None, s2)))"

text \<open>Under the lock.\<close>

definition getToken_locked :: "token_options \<Rightarrow> js_date \<Rightarrow> exchange_env \<Rightarrow> bool \<Rightarrow> int \<Rightarrow> token_state \<Rightarrow> (token_error + string) \<times> token_state" where
  "getToken_locked opt now e forceRefresh iid s =
     (if forceRefresh then mint opt e iid s
      else case cacheLookup opt now iid s of (Some t, s1) \<Rightarrow> (Inr t, s1) | (None, s1) \<Rightarrow> mint opt e iid s1)"

definition getToken :: "token_options \<Rightarrow> js_date \<Rightarrow> rat \<Rightarrow> exchange_env \<Rightarrow> bool \<Rightarrow> int \<Rightarrow> token_state \<Rightarrow> (token_error + string) \<times> token_state" where
  "getToken opt now tick e forceRefresh iid s =
     (case getToken_fast opt now tick forceRefresh iid s of
        (Some r, s1) \<Rightarrow> (r, s1)
      | (None, s1) \<Rightarrow> getToken_locked opt now e forceRefresh iid s1)"

section \<open>The request loop\<close>

definition MAX_5XX_RETRIES :: nat where "MAX_5XX_RETRIES = 3"

datatype gh_error =
    GitHubApiUnavailableError string
  | GitHubAppUnauthorized string
  | GitHubRateLimitExceeded string js_date "int option"
  | GitHubForbiddenError string
  | GitHubNotFoundError string
  | GitHubUnprocessableError string
  | GitHubClientError int string
  | GhToken token_error
  | GhTransport string
  | GhAborted string
  | GhShape string

text \<open>\<open>hq_body\<close> is the value the transport stringifies.\<close>

record http_request =
  hq_method :: string
  hq_path :: string
  hq_token :: string
  hq_body :: "rat json"

text \<open>\<open>ge_aborted 0\<close> is the signal at the entry, \<open>ge_aborted (Suc i)\<close> before attempt \<open>i\<close>; \<open>ge_token\<close> is the
  provider, called with its \<^verbatim>\<open>forceRefresh\<close> flag; \<open>ge_http\<close> is the server with the transport before it.\<close>

record 's gh_env =
  ge_aborted :: "nat \<Rightarrow> string option"
  ge_token :: "bool \<Rightarrow> token_error + string"
  ge_http :: "nat \<Rightarrow> http_request \<Rightarrow> 's \<Rightarrow> (string + http_response) \<times> 's"
  ge_now :: "nat \<Rightarrow> js_date"
  ge_date :: "string \<Rightarrow> js_date option"

record 's gh_run =
  gr_result :: "gh_error + http_response"
  gr_sent :: "http_request list"
  gr_sleeps :: "rat list"
  gr_refreshes :: nat
  gr_state :: 's

datatype gh_verdict = Refresh | Backoff | Stop gh_error | Accept

definition body_text :: "http_response \<Rightarrow> string" where
  "body_text r = (case hr_body r of None \<Rightarrow> [] | Some b \<Rightarrow> b)"

definition primary_limited :: "http_response \<Rightarrow> bool" where
  "primary_limited r \<longleftrightarrow> (case parseRateLimit (hr_headers r) of None \<Rightarrow> False | Some w \<Rightarrow> rw_remaining w \<le> 0)
     \<or> sublist ''api rate limit exceeded'' (lower_text (body_text r))"

definition gh_message :: "http_request \<Rightarrow> http_response \<Rightarrow> string" where
  "gh_message q r = ''GitHub '' @ int_text (hr_status r) @ '' on '' @ hq_method q @ '' '' @ hq_path q @ '': '' @ left_text 200 (body_text r)"

text \<open>What the loop does with an answer; \<open>left\<close> is the number of attempts after this one.\<close>

definition request_verdict :: "(string \<Rightarrow> js_date option) \<Rightarrow> js_date \<Rightarrow> nat \<Rightarrow> bool \<Rightarrow> http_request \<Rightarrow> http_response \<Rightarrow> gh_verdict" where
  "request_verdict date now left refreshed q r =
     (let st = hr_status r; retryAfter = parseRetryAfter date (hr_headers r) (Some now); window = parseRateLimit (hr_headers r) in
      if st = 401 \<and> \<not> refreshed then Refresh
      else if st = 401 then Stop (GitHubAppUnauthorized ''GitHub returned 401 twice'')
      else if st = 429 then Stop (GitHubRateLimitExceeded ''secondary'' now retryAfter)
      else if st = 403 \<and> sublist ''secondary rate limit'' (lower_text (body_text r))
      then Stop (GitHubRateLimitExceeded ''secondary'' now retryAfter)
      else if st = 403 \<and> primary_limited r
      then (case window of None \<Rightarrow> Stop (GitHubRateLimitExceeded ''core'' now retryAfter)
              | Some w \<Rightarrow> Stop (GitHubRateLimitExceeded (rw_resource w) (rw_resetAt w) retryAfter))
      else if 500 \<le> st \<and> st < 600
      then (if 0 < left then Backoff
            else Stop (GitHubApiUnavailableError (''GitHub '' @ int_text st @ '' after 3 attempts on '' @ hq_method q @ '' '' @ hq_path q)))
      else if st = 403 then Stop (GitHubForbiddenError (gh_message q r))
      else if st = 404 then Stop (GitHubNotFoundError (gh_message q r))
      else if st = 422 then Stop (GitHubUnprocessableError (gh_message q r))
      else if 400 \<le> st then Stop (GitHubClientError st (gh_message q r))
      else (case window of
              None \<Rightarrow> Accept
            | Some w \<Rightarrow> if rw_remaining w \<le> 0 then Stop (GitHubRateLimitExceeded (rw_resource w) (rw_resetAt w) retryAfter) else Accept))"

definition gh_stop :: "gh_error + http_response \<Rightarrow> http_request list \<Rightarrow> 's \<Rightarrow> 's gh_run" where
  "gh_stop r sent s = \<lparr>gr_result = r, gr_sent = sent, gr_sleeps = [], gr_refreshes = 0, gr_state = s\<rparr>"

definition gh_again :: "http_request \<Rightarrow> rat list \<Rightarrow> nat \<Rightarrow> 's gh_run \<Rightarrow> 's gh_run" where
  "gh_again q sleeps refreshes t =
     t\<lparr>gr_sent := q # gr_sent t, gr_sleeps := sleeps @ gr_sleeps t, gr_refreshes := refreshes + gr_refreshes t\<rparr>"

fun request_loop :: "'s gh_env \<Rightarrow> nat \<Rightarrow> nat \<Rightarrow> http_request \<Rightarrow> bool \<Rightarrow> rat \<Rightarrow> 's \<Rightarrow> 's gh_run" where
  "request_loop e 0 attempt q refreshed backoff s = gh_stop (Inl (GitHubApiUnavailableError ''unreachable retry loop exit'')) [] s"
| "request_loop e (Suc n) attempt q refreshed backoff s =
     (case ge_aborted e (Suc attempt) of
        Some reason \<Rightarrow> gh_stop (Inl (GhAborted reason)) [] s
      | None \<Rightarrow>
     (case ge_http e attempt q s of
        (Inl m, s1) \<Rightarrow> gh_stop (Inl (GhTransport m)) [q] s1
      | (Inr r, s1) \<Rightarrow>
          (case request_verdict (ge_date e) (ge_now e attempt) n refreshed q r of
             Refresh \<Rightarrow>
               (case ge_token e True of
                  Inl x \<Rightarrow> gh_again q [] 1 (gh_stop (Inl (GhToken x)) [] s1)
                | Inr token \<Rightarrow> gh_again q [] 1 (request_loop e n (Suc attempt) (q\<lparr>hq_token := token\<rparr>) True backoff s1))
           | Backoff \<Rightarrow> gh_again q [backoff] 0 (request_loop e n (Suc attempt) q refreshed (backoff * 2) s1)
           | Stop x \<Rightarrow> gh_stop (Inl x) [q] s1
           | Accept \<Rightarrow> gh_stop (Inr r) [q] s1)))"

definition gh_request :: "'s gh_env \<Rightarrow> string \<Rightarrow> string \<Rightarrow> rat json \<Rightarrow> 's \<Rightarrow> 's gh_run" where
  "gh_request e verb path body s =
     (case ge_aborted e 0 of
        Some reason \<Rightarrow> gh_stop (Inl (GhAborted reason)) [] s
      | None \<Rightarrow>
     (case ge_token e False of
        Inl x \<Rightarrow> gh_stop (Inl (GhToken x)) [] s
      | Inr token \<Rightarrow> request_loop e MAX_5XX_RETRIES 0 \<lparr>hq_method = verb, hq_path = path, hq_token = token, hq_body = body\<rparr>
          False INITIAL_BACKOFF_SECONDS s))"

section \<open>The reviews surface\<close>

definition REVIEW_EVENT :: string where "REVIEW_EVENT = ''COMMENT''"
definition MARKER_SCAN_MAX_PAGES :: nat where "MARKER_SCAN_MAX_PAGES = 20"

record pull_ref =
  pl_owner :: string
  pl_repo :: string
  pl_number :: int

text \<open>The lookup of the review client has no exact match first.\<close>

definition headerOf :: "headers \<Rightarrow> string \<Rightarrow> string option" where
  "headerOf hs name = map_option snd (first_row (filter (\<lambda>(k, _). lower_text k = lower_text name) hs))"

text \<open>The requests of one operation in their order, with the reading of JSON and of a number.\<close>

record 's review_api =
  ra_get :: "nat \<Rightarrow> 's gh_env"
  ra_write :: "'s gh_env"
  ra_json :: "string \<Rightarrow> rat json option"
  ra_number :: "rat json option \<Rightarrow> int"

definition reviews_path :: "pull_ref \<Rightarrow> string" where
  "reviews_path p = ''/repos/'' @ pl_owner p @ ''/'' @ pl_repo p @ ''/pulls/'' @ int_text (pl_number p) @ ''/reviews''"

definition review_path :: "pull_ref \<Rightarrow> int \<Rightarrow> string" where
  "review_path p reviewId = reviews_path p @ ''/'' @ int_text reviewId"

definition obj_field :: "string \<Rightarrow> 'n json \<Rightarrow> 'n json option" where
  "obj_field k v = (case v of JObj kvs \<Rightarrow> map_of kvs k | _ \<Rightarrow> None)"

definition response_json :: "'s review_api \<Rightarrow> http_response \<Rightarrow> gh_error + rat json" where
  "response_json api r =
     (case ra_json api (case hr_body r of None \<Rightarrow> ''{}'' | Some b \<Rightarrow> b) of None \<Rightarrow> Inl (GhShape ''SyntaxError'') | Some v \<Rightarrow> Inr v)"

definition json_items :: "rat json \<Rightarrow> gh_error + rat json list" where
  "json_items v = (case v of JArr vs \<Rightarrow> Inr vs | _ \<Rightarrow> Inl (GhShape ''TypeError''))"

text \<open>What a \<^verbatim>\<open>for ... of\<close> loop runs over.\<close>

definition json_elements :: "rat json \<Rightarrow> gh_error + rat json list" where
  "json_elements v = (case v of JStr t \<Rightarrow> Inr (map (\<lambda>c. JStr [c]) t) | _ \<Rightarrow> json_items v)"

definition item_ids :: "(rat json option \<Rightarrow> int) \<Rightarrow> rat json list \<Rightarrow> gh_error + int list" where
  "item_ids number vs = (if JNull \<in> set vs then Inl (GhShape ''TypeError'') else Inr (map (\<lambda>c. number (obj_field ''id'' c)) vs))"

definition created_id :: "(rat json option \<Rightarrow> int) \<Rightarrow> rat json \<Rightarrow> gh_error + int" where
  "created_id number v = (if v = JNull then Inl (GhShape ''TypeError'') else Inr (number (obj_field ''id'' v)))"

definition has_marker :: "string \<Rightarrow> rat json \<Rightarrow> bool" where
  "has_marker marker review = (case obj_field ''body'' review of Some (JStr b) \<Rightarrow> b \<noteq> [] \<and> sublist marker b | _ \<Rightarrow> False)"

fun page_hit :: "string \<Rightarrow> rat json list \<Rightarrow> gh_error + rat json option" where
  "page_hit marker [] = Inr None"
| "page_hit marker (v # vs) = (if v = JNull then Inl (GhShape ''TypeError'') else if has_marker marker v then Inr (Some v) else page_hit marker vs)"

definition read_json :: "'s review_api \<Rightarrow> 's gh_run \<Rightarrow> (rat json \<Rightarrow> gh_error + 'a) \<Rightarrow> gh_error + 'a" where
  "read_json api run f =
     (case gr_result run of Inl x \<Rightarrow> Inl x
      | Inr r \<Rightarrow> (case response_json api r of Inl x \<Rightarrow> Inl x | Inr v \<Rightarrow> f v))"

definition next_page :: "'s gh_run \<Rightarrow> string option" where
  "next_page run = (case gr_result run of Inl _ \<Rightarrow> None | Inr r \<Rightarrow> extractNextLink (headerOf (hr_headers r) ''Link''))"

fun marker_scan :: "'s review_api \<Rightarrow> string \<Rightarrow> nat \<Rightarrow> nat \<Rightarrow> string option \<Rightarrow> 's \<Rightarrow> (gh_error + int option) \<times> 's" where
  "marker_scan api marker 0 page path s = (Inr None, s)"
| "marker_scan api marker (Suc n) page None s = (Inr None, s)"
| "marker_scan api marker (Suc n) page (Some path) s =
     (let run = gh_request (ra_get api page) ''GET'' path JNull s in
      case read_json api run (\<lambda>v. case json_elements v of Inl x \<Rightarrow> Inl x | Inr reviews \<Rightarrow> page_hit marker reviews) of
        Inl x \<Rightarrow> (Inl x, gr_state run)
      | Inr (Some review) \<Rightarrow> (Inr (Some (ra_number api (obj_field ''id'' review))), gr_state run)
      | Inr None \<Rightarrow> marker_scan api marker n (Suc page) (next_page run) (gr_state run))"

definition findExistingReviewByMarker :: "'s review_api \<Rightarrow> pull_ref \<Rightarrow> string \<Rightarrow> 's \<Rightarrow> (gh_error + int option) \<times> 's" where
  "findExistingReviewByMarker api p marker s = marker_scan api marker MARKER_SCAN_MAX_PAGES 0 (Some (reviews_path p)) s"

definition listReviewComments :: "'s review_api \<Rightarrow> nat \<Rightarrow> pull_ref \<Rightarrow> int \<Rightarrow> 's \<Rightarrow> (gh_error + int list) \<times> 's" where
  "listReviewComments api i p reviewId s =
     (let run = gh_request (ra_get api i) ''GET'' (review_path p reviewId @ ''/comments'') JNull s
      in (read_json api run (\<lambda>v. case json_items v of Inl x \<Rightarrow> Inl x | Inr cs \<Rightarrow> item_ids (ra_number api) cs), gr_state run))"

record created_review =
  cr_reviewId :: int
  cr_commentIds :: "int list"

definition review_request :: "string \<Rightarrow> string \<Rightarrow> rat json list \<Rightarrow> rat json" where
  "review_request commitId body comments =
     JObj [(''commit_id'', JStr commitId), (''body'', JStr body), (''event'', JStr REVIEW_EVENT), (''comments'', JArr comments)]"

definition createReview :: "'s review_api \<Rightarrow> pull_ref \<Rightarrow> string \<Rightarrow> string \<Rightarrow> rat json list \<Rightarrow> 's \<Rightarrow> (gh_error + created_review) \<times> 's" where
  "createReview api p body commitId comments s =
     (let run = gh_request (ra_write api) ''POST'' (reviews_path p) (review_request commitId body comments) s in
      case read_json api run (created_id (ra_number api)) of
        Inl x \<Rightarrow> (Inl x, gr_state run)
      | Inr reviewId \<Rightarrow>
          if comments = [] then (Inr \<lparr>cr_reviewId = reviewId, cr_commentIds = []\<rparr>, gr_state run)
          else (case listReviewComments api 0 p reviewId (gr_state run) of
                  (Inl x, s2) \<Rightarrow> (Inl x, s2)
                | (Inr ids, s2) \<Rightarrow> (Inr \<lparr>cr_reviewId = reviewId, cr_commentIds = ids\<rparr>, s2)))"

definition updateReview :: "'s review_api \<Rightarrow> pull_ref \<Rightarrow> int \<Rightarrow> string \<Rightarrow> 's \<Rightarrow> (gh_error + unit) \<times> 's" where
  "updateReview api p reviewId body s =
     (let run = gh_request (ra_write api) ''PUT'' (review_path p reviewId) (JObj [(''body'', JStr body)]) s
      in (case gr_result run of Inl x \<Rightarrow> Inl x | Inr _ \<Rightarrow> Inr (), gr_state run))"

definition issue_comments_path :: "pull_ref \<Rightarrow> string" where
  "issue_comments_path p = ''/repos/'' @ pl_owner p @ ''/'' @ pl_repo p @ ''/issues/'' @ int_text (pl_number p) @ ''/comments''"

definition createIssueComment :: "'s review_api \<Rightarrow> pull_ref \<Rightarrow> string \<Rightarrow> 's \<Rightarrow> (gh_error + int) \<times> 's" where
  "createIssueComment api p body s =
     (let run = gh_request (ra_write api) ''POST'' (issue_comments_path p) (JObj [(''body'', JStr body)]) s
      in (read_json api run (created_id (ra_number api)), gr_state run))"

definition listIssueComments :: "'s review_api \<Rightarrow> pull_ref \<Rightarrow> 's \<Rightarrow> (gh_error + rat json) \<times> 's" where
  "listIssueComments api p s =
     (let run = gh_request (ra_get api 0) ''GET'' (issue_comments_path p) JNull s in (read_json api run Inr, gr_state run))"

definition deleteIssueComment :: "'s review_api \<Rightarrow> pull_ref \<Rightarrow> int \<Rightarrow> 's \<Rightarrow> (gh_error + unit) \<times> 's" where
  "deleteIssueComment api p commentId s =
     (let run = gh_request (ra_write api) ''DELETE''
          (''/repos/'' @ pl_owner p @ ''/'' @ pl_repo p @ ''/issues/comments/'' @ int_text commentId) JNull s
      in (map_sum id (\<lambda>_. ()) (gr_result run), gr_state run))"

section \<open>Pages\<close>

text \<open>The client's own reading of a body refuses an empty one.\<close>

definition client_json :: "(string \<Rightarrow> rat json option) \<Rightarrow> string \<Rightarrow> http_response \<Rightarrow> gh_error + rat json" where
  "client_json parse context r =
     (if body_text r = [] then Inl (GitHubClientError (hr_status r) (''empty body where JSON expected on '' @ context))
      else case parse (body_text r) of None \<Rightarrow> Inl (GhShape ''SyntaxError'') | Some v \<Rightarrow> Inr v)"

record pr_file =
  pf_filename :: string
  pf_status :: string
  pf_additions :: int
  pf_deletions :: int
  pf_changes :: int
  pf_patch :: "string option"

definition int_field :: "string \<Rightarrow> rat json \<Rightarrow> int option" where
  "int_field k v = (case obj_field k v of Some (JNum x) \<Rightarrow> if rat_of_int \<lfloor>x\<rfloor> = x then Some \<lfloor>x\<rfloor> else None | _ \<Rightarrow> None)"

definition FILE_STATUSES :: "string list" where
  "FILE_STATUSES = [''added'', ''removed'', ''modified'', ''renamed'', ''copied'', ''changed'', ''unchanged'']"

definition parse_patch :: "rat json \<Rightarrow> string option option" where
  "parse_patch v = (case obj_field ''patch'' v of None \<Rightarrow> Some None | Some JNull \<Rightarrow> Some None | Some (JStr t) \<Rightarrow> Some (Some t) | _ \<Rightarrow> None)"

definition parse_pr_file :: "rat json \<Rightarrow> pr_file option" where
  "parse_pr_file v =
     (case (obj_field ''filename'' v, obj_field ''status'' v) of
        (Some (JStr name), Some (JStr status)) \<Rightarrow>
          if status \<in> set FILE_STATUSES then
            (case (int_field ''additions'' v, int_field ''deletions'' v, int_field ''changes'' v, parse_patch v) of
               (Some a, Some d, Some c, Some p) \<Rightarrow>
                 Some \<lparr>pf_filename = name, pf_status = status, pf_additions = a, pf_deletions = d, pf_changes = c, pf_patch = p\<rparr>
             | _ \<Rightarrow> None)
          else None
      | _ \<Rightarrow> None)"

fun parse_files :: "('a \<Rightarrow> 'b option) \<Rightarrow> 'a list \<Rightarrow> 'b list option" where
  "parse_files f [] = Some []"
| "parse_files f (x # xs) = (case f x of None \<Rightarrow> None | Some y \<Rightarrow> map_option (Cons y) (parse_files f xs))"

definition files_path :: "pull_ref \<Rightarrow> nat \<Rightarrow> string" where
  "files_path p page = ''/repos/'' @ pl_owner p @ ''/'' @ pl_repo p @ ''/pulls/'' @ int_text (pl_number p)
     @ ''/files?per_page=100&page='' @ int_text (int page)"

definition has_next :: "http_response \<Rightarrow> bool" where
  "has_next r = sublist ''rel=\"next\"'' (case header (hr_headers r) ''Link'' of None \<Rightarrow> [] | Some h \<Rightarrow> h)"

text \<open>\<open>n\<close> is the number of pages that remain.\<close>

fun file_pages :: "(nat \<Rightarrow> 's gh_env) \<Rightarrow> (string \<Rightarrow> rat json option) \<Rightarrow> pull_ref \<Rightarrow> nat \<Rightarrow> nat \<Rightarrow> nat \<Rightarrow> pr_file list \<Rightarrow> 's \<Rightarrow> (gh_error + pr_file list) \<times> http_request list \<times> 's" where
  "file_pages env parse p maxFiles 0 page out s = (Inr out, [], s)"
| "file_pages env parse p maxFiles (Suc n) page out s =
     (if maxFiles \<le> length out then (Inr out, [], s)
      else let run = gh_request (env page) ''GET'' (files_path p page) JNull s in
        case gr_result run of
          Inl x \<Rightarrow> (Inl x, gr_sent run, gr_state run)
        | Inr r \<Rightarrow>
            (case client_json parse ''get_pull_request_files'' r of
               Inl x \<Rightarrow> (Inl x, gr_sent run, gr_state run)
             | Inr v \<Rightarrow>
                 (case json_elements v of
                    Inl x \<Rightarrow> (Inl x, gr_sent run, gr_state run)
                  | Inr vs \<Rightarrow>
                      if vs = [] then (Inr out, gr_sent run, gr_state run)
                      else (case parse_files parse_pr_file vs of
                              None \<Rightarrow> (Inl (GhShape ''ZodError''), gr_sent run, gr_state run)
                            | Some fs \<Rightarrow>
                                if has_next r then
                                  (let t = file_pages env parse p maxFiles n (Suc page) (out @ fs) (gr_state run)
                                   in (fst t, gr_sent run @ fst (snd t), snd (snd t)))
                                else (Inr (out @ fs), gr_sent run, gr_state run)))))"

definition max_pages :: "nat \<Rightarrow> nat" where
  "max_pages maxFiles = (maxFiles + 99) div 100 + 1"

definition getPullRequestFiles :: "(nat \<Rightarrow> 's gh_env) \<Rightarrow> (string \<Rightarrow> rat json option) \<Rightarrow> pull_ref \<Rightarrow> nat \<Rightarrow> 's \<Rightarrow> (gh_error + pr_file list) \<times> http_request list \<times> 's" where
  "getPullRequestFiles env parse p maxFiles s =
     (let (r, sent, s1) = file_pages env parse p maxFiles (max_pages maxFiles) 1 [] s in (map_sum id (take maxFiles) r, sent, s1))"

section \<open>The token caches\<close>

datatype token_op = FastOp js_date rat bool int | LockedOp js_date exchange_env bool int

definition token_exec :: "token_options \<Rightarrow> token_op \<Rightarrow> token_state \<Rightarrow> token_state" where
  "token_exec opt op s =
     (case op of FastOp now tick forced iid \<Rightarrow> snd (getToken_fast opt now tick forced iid s)
        | LockedOp now e forced iid \<Rightarrow> snd (getToken_locked opt now e forced iid s))"

definition cache_ok :: "token_options \<Rightarrow> token_state \<Rightarrow> bool" where
  "cache_ok opt s \<longleftrightarrow> distinct (map fst (tp_cache s)) \<and> length (tp_cache s) \<le> to_maxCacheEntries opt"

lemma drop_key_props: "distinct (map fst m) \<Longrightarrow> distinct (map fst (drop_key k m))" "k \<notin> fst ` set (drop_key k m)" "length (drop_key k m) \<le> length m"
  by (auto simp: drop_key_def distinct_map_filter)

lemma drop_key_shorter: "map_of m k = Some v \<Longrightarrow> length (drop_key k m) < length m"
proof -
  assume "map_of m k = Some v"
  then have "(k, v) \<in> set m" by (rule map_of_SomeD)
  then show ?thesis unfolding drop_key_def by (intro length_filter_less [of "(k, v)"]) simp_all
qed

lemma cacheLookup_ok: "cache_ok opt s \<Longrightarrow> cache_ok opt (snd (cacheLookup opt now iid s))"
proof -
  assume ok: "cache_ok opt s"
  note p = drop_key_props [where m = "tp_cache s" and k = iid]
  show ?thesis
  proof (cases "map_of (tp_cache s) iid")
    case (Some c)
    have "length (drop_key iid (tp_cache s)) < length (tp_cache s)" using Some by (rule drop_key_shorter)
    then show ?thesis using Some ok p by (simp add: cacheLookup_def cache_ok_def Let_def)
  qed (use ok in \<open>simp add: cacheLookup_def\<close>)
qed

lemma cachePut_ok: "cache_ok opt s \<Longrightarrow> cache_ok opt (cachePut opt now iid token expiresAt s)"
proof -
  assume ok: "cache_ok opt s"
  note p = drop_key_props [where m = "tp_cache s" and k = iid]
  let ?m = "drop_key iid (tp_cache s) @ [(iid, \<lparr>ck_token = token, ck_expiresAt = expiresAt, ck_mintedAt = now\<rparr>)]"
  have "distinct (map fst ?m)" using ok p by (simp add: cache_ok_def)
  then have "distinct (map fst (drop n ?m))" for n by (simp only: drop_map [symmetric] distinct_drop)
  moreover have "length (drop (length ?m - k) ?m) \<le> k" for k unfolding length_drop by arith
  moreover have "tp_cache (cachePut opt now iid token expiresAt s) = drop (length ?m - to_maxCacheEntries opt) ?m"
    by (simp add: cachePut_def Let_def)
  ultimately show ?thesis unfolding cache_ok_def by (simp only:)
qed

lemma cache_ok_negative [simp]: "cache_ok opt (s\<lparr>tp_negative := n\<rparr>) = cache_ok opt s"
  by (simp add: cache_ok_def)

lemma mint_ok: "cache_ok opt s \<Longrightarrow> cache_ok opt (snd (mint opt e iid s))"
  by (auto simp: mint_def cachePut_ok split: sum.split token_error.split prod.split)

lemma token_exec_ok: "cache_ok opt s \<Longrightarrow> cache_ok opt (token_exec opt op s)"
proof (cases op)
  case (FastOp now tick forced iid)
  assume ok: "cache_ok opt s"
  obtain r s1 where neg: "checkNegativeCache tick iid s = (r, s1)" by force
  have ok1: "cache_ok opt s1" using ok neg by (auto simp: checkNegativeCache_def cache_ok_def split: option.splits if_splits)
  then have "cache_ok opt (s1\<lparr>tp_cache := drop_key iid (tp_cache s1)\<rparr>)"
    using drop_key_props [where m = "tp_cache s1" and k = iid] by (simp add: cache_ok_def)
  then show ?thesis using FastOp ok neg ok1 cacheLookup_ok [OF ok1, of now iid]
    by (cases "cacheLookup opt now iid s1") (auto simp: token_exec_def getToken_fast_def split: option.split)
next
  case (LockedOp now e forced iid)
  assume ok: "cache_ok opt s"
  then show ?thesis using LockedOp mint_ok cacheLookup_ok [OF ok, of now iid]
    by (cases "cacheLookup opt now iid s") (auto simp: token_exec_def getToken_locked_def split: option.split)
qed

text \<open>Along every interleaving of callers, before and under their locks, the cache holds one entry per
  installation and never more than its bound.\<close>

theorem token_cache_bounded:
  assumes "cache_ok opt s"
  shows "cache_ok opt (fold (token_exec opt) ops s)"
  using assms by (induction ops arbitrary: s) (simp_all add: token_exec_ok)

text \<open>A token comes from the exchange of the call itself or is younger than the refresh boundary; a forced call never
  returns the token it was to replace without an exchange.\<close>

lemma cacheLookup_Some:
  "cacheLookup opt now iid s = (Some t, s') \<Longrightarrow> \<exists>c. map_of (tp_cache s) iid = Some c \<and> ck_token c = t
     \<and> rat_of_int (now - ck_mintedAt c) / 1000 < rat_of_int (ck_expiresAt c - ck_mintedAt c) / 1000 * to_refreshAtFraction opt"
  by (auto simp: cacheLookup_def Let_def split: option.splits if_splits)

theorem getToken_fresh:
  assumes "getToken opt now tick e forced iid s = (Inr t, s')"
  shows "(\<exists>expiresAt. tr_result (exchangeWithRetry e iid) = Inr (t, expiresAt))
    \<or> \<not> forced \<and> (\<exists>c. map_of (tp_cache s) iid = Some c \<and> ck_token c = t
        \<and> rat_of_int (now - ck_mintedAt c) / 1000 < rat_of_int (ck_expiresAt c - ck_mintedAt c) / 1000 * to_refreshAtFraction opt)"
proof -
  have minted: "mint opt e iid z = (Inr t, s') \<Longrightarrow> \<exists>expiresAt. tr_result (exchangeWithRetry e iid) = Inr (t, expiresAt)" for z
    by (auto simp: mint_def split: sum.splits token_error.splits)
  have neg: "tp_cache s1 = tp_cache s" if "checkNegativeCache tick iid s = (None, s1)" for s1
    using that by (auto simp: checkNegativeCache_def split: option.splits if_splits)
  show ?thesis
  proof (cases "getToken_fast opt now tick forced iid s")
    case (Pair r s1)
    show ?thesis
    proof (cases r)
      case None
      then have l: "getToken_locked opt now e forced iid s1 = (Inr t, s')" using assms Pair by (simp add: getToken_def)
      show ?thesis
      proof (cases forced)
        case True
        then show ?thesis using l minted by (simp add: getToken_locked_def)
      next
        case False
        have same: "map_of (tp_cache s1) iid = map_of (tp_cache s) iid"
          using Pair None False neg
          by (auto simp: getToken_fast_def cacheLookup_def Let_def split: if_splits option.splits prod.splits)
        show ?thesis
        proof (cases "cacheLookup opt now iid s1")
          case (Pair r2 s2)
          then show ?thesis using l False minted cacheLookup_Some [of opt now iid s1] same
            by (cases r2) (auto simp: getToken_locked_def)
        qed
      qed
    next
      case (Some x)
      then have "x = Inr t" using assms Pair by (simp add: getToken_def)
      then obtain s2 where n: "checkNegativeCache tick iid s = (None, s2)" and c: "cacheLookup opt now iid s2 = (Some t, s1)" and f: "\<not> forced"
        using Pair Some by (auto simp: getToken_fast_def split: if_splits option.splits prod.splits)
      then show ?thesis using cacheLookup_Some [OF c] neg [OF n] by simp
    qed
  qed
qed

text \<open>For a minute after a permanent failure the installation is answered without an exchange.\<close>

theorem negative_cache_silences:
  assumes "mint opt e iid s = (Inl (PermanentTokenError m), s')" and "tick < xe_mono e + 60" and "0 < iid" and "iid \<le> SAFE_INTEGER"
  shows "getToken opt now tick e' forced iid s' = (Inl (PermanentTokenError m), s')"
proof -
  have "tp_negative s' iid = Some (m, xe_mono e + 60)"
    using assms(1) by (auto simp: mint_def NEGATIVE_CACHE_TTL_SECONDS_def split: sum.splits token_error.splits)
  then show ?thesis using assms(2-4) by (simp add: getToken_def getToken_fast_def checkNegativeCache_def)
qed

text \<open>Callers that wait for the lock, one after another.\<close>

fun waiters :: "token_options \<Rightarrow> int \<Rightarrow> (js_date \<times> exchange_env) list \<Rightarrow> token_state \<Rightarrow> (token_error + string) list \<times> token_state" where
  "waiters opt iid [] s = ([], s)"
| "waiters opt iid ((now, e) # ws) s =
     (let (r, s1) = getToken_locked opt now e False iid s; (rs, s2) = waiters opt iid ws s1 in (r # rs, s2))"

lemma waiters_hit:
  assumes "map_of (tp_cache s) iid = Some c"
    and "\<forall>(now, e)\<in>set ws. rat_of_int (now - ck_mintedAt c) / 1000 < rat_of_int (ck_expiresAt c - ck_mintedAt c) / 1000 * to_refreshAtFraction opt"
  shows "fst (waiters opt iid ws s) = map (\<lambda>_. Inr (ck_token c)) ws"
  using assms
proof (induction ws arbitrary: s)
  case (Cons w ws)
  obtain now e where w: "w = (now, e)" by (cases w)
  let ?s = "s\<lparr>tp_cache := drop_key iid (tp_cache s) @ [(iid, c)]\<rparr>"
  have "cacheLookup opt now iid s = (Some (ck_token c), ?s)" using Cons.prems w by (simp add: cacheLookup_def Let_def)
  moreover have "map_of (tp_cache ?s) iid = Some c"
    using drop_key_props(2) [of iid "tp_cache s"] by (simp add: map_add_def map_of_eq_None_iff [symmetric] split: option.split)
  ultimately show ?case using Cons.IH [of ?s] Cons.prems(2) w by (simp add: getToken_locked_def split_beta)
qed simp

lemma cachePut_lookup:
  "1 \<le> to_maxCacheEntries opt \<Longrightarrow> cache_ok opt s \<Longrightarrow>
     map_of (tp_cache (cachePut opt now iid token expiresAt s)) iid = Some \<lparr>ck_token = token, ck_expiresAt = expiresAt, ck_mintedAt = now\<rparr>"
proof -
  assume max: "1 \<le> to_maxCacheEntries opt" and ok: "cache_ok opt s"
  let ?c = "\<lparr>ck_token = token, ck_expiresAt = expiresAt, ck_mintedAt = now\<rparr>"
  have "length (drop_key iid (tp_cache s) @ [(iid, ?c)]) - to_maxCacheEntries opt \<le> length (drop_key iid (tp_cache s))" using max by simp
  then have c: "(iid, ?c) \<in> set (tp_cache (cachePut opt now iid token expiresAt s))" by (simp add: cachePut_def Let_def)
  have "distinct (map fst (tp_cache (cachePut opt now iid token expiresAt s)))"
    using cachePut_ok [OF ok] by (simp add: cache_ok_def)
  then show ?thesis using c by (rule map_of_is_SomeI)
qed

text \<open>Callers that wait behind a successful exchange share its token.\<close>

theorem single_flight:
  assumes "provider_accepts opt" and "cache_ok opt s" and "map_of (tp_cache s) iid = None"
    and "tr_result (exchangeWithRetry e iid) = Inr (token, expiresAt)"
    and "\<forall>(now, e')\<in>set ws. rat_of_int (now - xe_now e) / 1000 < rat_of_int (expiresAt - xe_now e) / 1000 * to_refreshAtFraction opt"
  shows "fst (waiters opt iid ((now, e) # ws) s) = map (\<lambda>_. Inr token) ((now, e) # ws)"
proof -
  let ?s = "cachePut opt (xe_now e) iid token expiresAt s"
  have "getToken_locked opt now e False iid s = (Inr token, ?s)"
    using assms(3,4) by (simp add: getToken_locked_def cacheLookup_def mint_def)
  moreover have "map_of (tp_cache ?s) iid = Some \<lparr>ck_token = token, ck_expiresAt = expiresAt, ck_mintedAt = xe_now e\<rparr>"
    using assms(1,2) by (intro cachePut_lookup) (simp_all add: provider_accepts_def)
  ultimately show ?thesis using waiters_hit [of ?s iid _ ws opt] assms(5) by (simp add: split_beta)
qed

text \<open>Callers that wait behind a permanent failure do not: the negative cache is read before the lock only, so each of them
  makes an exchange of its own.\<close>

theorem failures_not_coalesced:
  assumes "map_of (tp_cache s) iid = None"
    and "\<forall>(now, e)\<in>set ws. \<exists>m. tr_result (exchangeWithRetry e iid) = Inl (PermanentTokenError m)"
  shows "fst (waiters opt iid ws s) = map (\<lambda>(now, e). map_sum id fst (tr_result (exchangeWithRetry e iid))) ws"
  using assms
proof (induction ws arbitrary: s)
  case (Cons w ws)
  obtain now e where w: "w = (now, e)" by (cases w)
  obtain m where m: "tr_result (exchangeWithRetry e iid) = Inl (PermanentTokenError m)" using Cons.prems(2) w by auto
  let ?s = "s\<lparr>tp_negative := (tp_negative s)(iid \<mapsto> (m, xe_mono e + NEGATIVE_CACHE_TTL_SECONDS))\<rparr>"
  have "getToken_locked opt now e False iid s = (Inl (PermanentTokenError m), ?s)"
    using Cons.prems(1) m by (simp add: getToken_locked_def cacheLookup_def mint_def)
  then show ?case using Cons.IH [of ?s] Cons.prems w m by (simp add: split_beta)
qed simp

section \<open>Requests\<close>

lemma gh_stop_simps [simp]: "gr_result (gh_stop r sent s) = r" "gr_sent (gh_stop r sent s) = sent" "gr_sleeps (gh_stop r sent s) = []"
  "gr_refreshes (gh_stop r sent s) = 0" "gr_state (gh_stop r sent s) = s"
  by (simp_all add: gh_stop_def)

lemma gh_again_simps [simp]: "gr_result (gh_again q w k t) = gr_result t" "gr_sent (gh_again q w k t) = q # gr_sent t"
  "gr_sleeps (gh_again q w k t) = w @ gr_sleeps t" "gr_refreshes (gh_again q w k t) = k + gr_refreshes t" "gr_state (gh_again q w k t) = gr_state t"
  by (simp_all add: gh_again_def)

lemma verdict_backoff: "request_verdict date now left refreshed q r = Backoff \<Longrightarrow> 0 < left"
  by (auto simp: request_verdict_def Let_def split: if_splits option.splits)

lemma verdict_refresh: "request_verdict date now left refreshed q r = Refresh \<Longrightarrow> \<not> refreshed"
  by (auto simp: request_verdict_def Let_def split: if_splits option.splits)

lemma request_loop_bounded:
  assumes "0 \<le> backoff"
  shows "length (gr_sent (request_loop e n attempt q refreshed backoff s)) \<le> n
    \<and> sum_list (gr_sleeps (request_loop e n attempt q refreshed backoff s)) \<le> backoff * (2 ^ (n - 1) - 1)
    \<and> gr_refreshes (request_loop e n attempt q refreshed backoff s) \<le> (if refreshed then 0 else 1)
    \<and> (\<forall>x\<in>set (gr_sent (request_loop e n attempt q refreshed backoff s)). \<exists>t. x = q\<lparr>hq_token := t\<rparr>)"
  using assms
proof (induction n arbitrary: attempt q refreshed backoff s)
  case (Suc n)
  have q: "\<exists>t. q = q\<lparr>hq_token := t\<rparr>" by (rule exI [of _ "hq_token q"]) simp
  have pow: "0 \<le> backoff * (2 ^ n - 1)" using Suc.prems by simp
  show ?case
  proof (cases "ge_aborted e (Suc attempt)")
    case None
    obtain a s1 where a: "ge_http e attempt q s = (a, s1)" by force
    show ?thesis
    proof (cases a)
      case (Inl m)
      then show ?thesis using None a q pow by simp
    next
      case (Inr r)
      show ?thesis
      proof (cases "request_verdict (ge_date e) (ge_now e attempt) n refreshed q r")
        case Refresh
        then have f: "\<not> refreshed" by (rule verdict_refresh)
        have p: "backoff * (2 ^ (n - 1) - 1) \<le> backoff * (2 ^ n - 1)"
          using Suc.prems by (intro mult_left_mono) (simp_all add: power_increasing)
        show ?thesis
        proof (cases "ge_token e True")
          case (Inl x)
          then show ?thesis using None a \<open>a = Inr r\<close> Refresh q f pow by simp
        next
          case (Inr token)
          then show ?thesis using None a \<open>a = Inr r\<close> Refresh q f p Suc.IH [of backoff "Suc attempt" "q\<lparr>hq_token := token\<rparr>" True s1] Suc.prems
            by auto
        qed
      next
        case Backoff
        then have n: "0 < n" by (rule verdict_backoff)
        then have "backoff + backoff * 2 * (2 ^ (n - 1) - 1) = backoff * (2 ^ n - 1)"
          by (cases n) (simp_all add: algebra_simps)
        then show ?thesis using None a Inr Backoff q Suc.IH [of "backoff * 2" "Suc attempt" q refreshed s1] Suc.prems by auto
      qed (use None a Inr q pow in simp_all)
    qed
  qed (use pow in simp)
qed simp

lemma gh_request_sent: "length (gr_sent (gh_request e verb path body s)) \<le> 3"
  using request_loop_bounded [of "1 / 2" e 3 0 _ False s]
  by (auto simp: gh_request_def MAX_5XX_RETRIES_def INITIAL_BACKOFF_SECONDS_def split: option.split sum.split)

text \<open>(C17) A request sends at most three times, always the same method, path and body, sleeps a second and a half at
  most and refreshes its token at most once.\<close>

theorem gh_request_bounded:
  "length (gr_sent (gh_request e verb path body s)) \<le> 3 \<and> sum_list (gr_sleeps (gh_request e verb path body s)) \<le> 3 / 2
    \<and> gr_refreshes (gh_request e verb path body s) \<le> 1
    \<and> list_all (\<lambda>q. hq_method q = verb \<and> hq_path q = path \<and> hq_body q = body) (gr_sent (gh_request e verb path body s))"
proof (cases "ge_aborted e 0 = None \<and> (\<exists>token. ge_token e False = Inr token)")
  case True
  then obtain token where t: "ge_aborted e 0 = None" "ge_token e False = Inr token" by blast
  let ?q = "\<lparr>hq_method = verb, hq_path = path, hq_token = token, hq_body = body\<rparr>"
  have "gh_request e verb path body s = request_loop e 3 0 ?q False (1 / 2) s"
    using t by (simp add: gh_request_def MAX_5XX_RETRIES_def INITIAL_BACKOFF_SECONDS_def)
  then show ?thesis using request_loop_bounded [of "1 / 2" e 3 0 ?q False s] by (auto simp: list_all_iff)
next
  case False
  then show ?thesis by (auto simp: gh_request_def split: option.splits sum.splits)
qed

lemma file_pages_bounded:
  "length (fst (snd (file_pages env parse p maxFiles n page out s))) \<le> 3 * n"
proof (induction n arbitrary: page out s)
  case (Suc n)
  let ?run = "gh_request (env page) ''GET'' (files_path p page) JNull s"
  have one: "length (gr_sent ?run) \<le> 3" by (rule gh_request_sent)
  have "length (gr_sent ?run @ fst (snd (file_pages env parse p maxFiles n (Suc page) (out @ fs) (gr_state ?run)))) \<le> 3 * Suc n" for fs
    using one Suc.IH [of "Suc page" "out @ fs" "gr_state ?run"] by simp
  then show ?case using one by (simp add: Let_def split: sum.split option.split)
qed simp

text \<open>The files of a pull request: never more than asked for, with at most three requests for each of its pages.\<close>

theorem getPullRequestFiles_bounded:
  "length (fst (snd (getPullRequestFiles env parse p maxFiles s))) \<le> 3 * ((maxFiles + 99) div 100 + 1)
    \<and> (case fst (getPullRequestFiles env parse p maxFiles s) of Inl _ \<Rightarrow> True | Inr fs \<Rightarrow> length fs \<le> maxFiles)"
proof -
  obtain r sent s1 where t: "file_pages env parse p maxFiles (max_pages maxFiles) 1 [] s = (r, sent, s1)" by (metis prod.exhaust)
  have "length sent \<le> 3 * max_pages maxFiles"
    using file_pages_bounded [of env parse p maxFiles "max_pages maxFiles" 1 "[]" s] t by simp
  moreover have "getPullRequestFiles env parse p maxFiles s = (map_sum id (take maxFiles) r, sent, s1)"
    unfolding getPullRequestFiles_def t by simp
  ultimately show ?thesis by (cases r) (simp_all add: max_pages_def)
qed

text \<open>(C18) A write that answers 5xx after the server has applied it is applied again: every attempt is the same request.\<close>

theorem write_applied_twice:
  assumes "ge_aborted e 0 = None" and "ge_aborted e 1 = None" and "ge_aborted e 2 = None" and "ge_token e False = Inr token"
    and "q = \<lparr>hq_method = verb, hq_path = path, hq_token = token, hq_body = body\<rparr>"
    and "ge_http e 0 q s = (Inr r0, s1)" and "500 \<le> hr_status r0" and "hr_status r0 < 600"
    and "ge_http e 1 q s1 = (Inr r1, s2)" and "200 \<le> hr_status r1" and "hr_status r1 < 300" and "parseRateLimit (hr_headers r1) = None"
  shows "gh_request e verb path body s = \<lparr>gr_result = Inr r1, gr_sent = [q, q], gr_sleeps = [1 / 2], gr_refreshes = 0, gr_state = s2\<rparr>"
proof -
  have v0: "request_verdict (ge_date e) (ge_now e 0) 2 False q r0 = Backoff"
    using assms(7,8) by (simp add: request_verdict_def Let_def)
  have v1: "request_verdict (ge_date e) (ge_now e 1) 1 False q r1 = Accept"
    using assms(10-12) by (simp add: request_verdict_def Let_def)
  have three: "MAX_5XX_RETRIES = Suc (Suc (Suc 0))" by (simp add: MAX_5XX_RETRIES_def)
  show ?thesis
    using assms(1-4,6,9) assms(5) [symmetric] v0 v1
    by (simp add: gh_request_def three INITIAL_BACKOFF_SECONDS_def gh_stop_def gh_again_def numeral_2_eq_2)
qed

text \<open>(C19) A successful answer that uses up the window is reported as an error, with the server already changed.\<close>

theorem last_call_discarded:
  assumes "ge_aborted e 0 = None" and "ge_aborted e 1 = None" and "ge_token e False = Inr token"
    and "ge_http e 0 \<lparr>hq_method = verb, hq_path = path, hq_token = token, hq_body = body\<rparr> s = (Inr r, s1)"
    and "200 \<le> hr_status r" and "hr_status r < 300" and "parseRateLimit (hr_headers r) = Some w" and "rw_remaining w \<le> 0"
  shows "gr_result (gh_request e verb path body s)
      = Inl (GitHubRateLimitExceeded (rw_resource w) (rw_resetAt w) (parseRetryAfter (ge_date e) (hr_headers r) (Some (ge_now e 0))))
    \<and> gr_state (gh_request e verb path body s) = s1"
proof -
  let ?q = "\<lparr>hq_method = verb, hq_path = path, hq_token = token, hq_body = body\<rparr>"
  have v: "request_verdict (ge_date e) (ge_now e 0) 2 False ?q r
      = Stop (GitHubRateLimitExceeded (rw_resource w) (rw_resetAt w) (parseRetryAfter (ge_date e) (hr_headers r) (Some (ge_now e 0))))"
    using assms(5-8) by (simp add: request_verdict_def Let_def)
  have three: "MAX_5XX_RETRIES = Suc (Suc (Suc 0))" by (simp add: MAX_5XX_RETRIES_def)
  show ?thesis using assms(1-4) v by (simp add: gh_request_def three numeral_2_eq_2)
qed

text \<open>The exit behind the loop is reached: two server errors and then an expired token.\<close>

theorem unreachable_exit_reached:
  assumes "\<forall>i. ge_aborted e i = None" and "ge_token e False = Inr token" and "ge_token e True = Inr token'"
    and "q = \<lparr>hq_method = verb, hq_path = path, hq_token = token, hq_body = body\<rparr>"
    and "ge_http e 0 q s = (Inr r0, s1)" and "500 \<le> hr_status r0" and "hr_status r0 < 600"
    and "ge_http e 1 q s1 = (Inr r1, s2)" and "500 \<le> hr_status r1" and "hr_status r1 < 600"
    and "ge_http e 2 q s2 = (Inr r2, s3)" and "hr_status r2 = 401"
  shows "gr_result (gh_request e verb path body s) = Inl (GitHubApiUnavailableError ''unreachable retry loop exit'')"
proof -
  have v: "request_verdict (ge_date e) (ge_now e 0) 2 False q r0 = Backoff" "request_verdict (ge_date e) (ge_now e 1) 1 False q r1 = Backoff"
    "request_verdict (ge_date e) (ge_now e 2) 0 False q r2 = Refresh"
    using assms(6,7,9,10,12) by (simp_all add: request_verdict_def Let_def)
  have three: "MAX_5XX_RETRIES = Suc (Suc (Suc 0))" by (simp add: MAX_5XX_RETRIES_def)
  show ?thesis
    using assms(1-3,5,8,11) assms(4) [symmetric] v by (simp add: gh_request_def three numeral_2_eq_2)
qed

section \<open>Concrete servers\<close>

definition demo_answer :: "int \<Rightarrow> headers \<Rightarrow> http_response" where
  "demo_answer st hs = \<lparr>hr_status = st, hr_headers = hs, hr_body = Some ''{}''\<rparr>"

text \<open>A server that counts what it applied.\<close>

definition demo_gh :: "(nat \<Rightarrow> http_response) \<Rightarrow> nat gh_env" where
  "demo_gh f = \<lparr>ge_aborted = (\<lambda>_. None), ge_token = (\<lambda>_. Inr ''t''), ge_http = (\<lambda>i q s. (Inr (f i), Suc s)), ge_now = (\<lambda>_. 0),
     ge_date = (\<lambda>_. None)\<rparr>"

lemma demo_gh_simps [simp]: "ge_aborted (demo_gh f) i = None" "ge_token (demo_gh f) b = Inr ''t''" "ge_http (demo_gh f) i q s = (Inr (f i), Suc s)"
  by (simp_all add: demo_gh_def)

lemma demo_answer_simps [simp]: "hr_status (demo_answer st hs) = st" "hr_headers (demo_answer st hs) = hs" "hr_body (demo_answer st hs) = Some ''{}''"
  by (simp_all add: demo_answer_def)

definition spent_headers :: headers where
  "spent_headers = [(''X-RateLimit-Limit'', ''5000''), (''X-RateLimit-Remaining'', ''0''), (''X-RateLimit-Reset'', ''60'')]"

lemma spent_window: "parseRateLimit spent_headers = Some \<lparr>rw_resource = ''core'', rw_limit = 5000, rw_remaining = 0, rw_resetAt = 60000\<rparr>"
  by code_simp

theorem write_applied_twice_witness:
  "gr_result (gh_request (demo_gh (\<lambda>i. demo_answer (if i = 0 then 502 else 200) [])) ''POST'' ''/x'' JNull 0) = Inr (demo_answer 200 [])
    \<and> gr_state (gh_request (demo_gh (\<lambda>i. demo_answer (if i = 0 then 502 else 200) [])) ''POST'' ''/x'' JNull 0) = 2"
  using write_applied_twice [of "demo_gh (\<lambda>i. demo_answer (if i = 0 then 502 else 200) [])" "''t''"
      "\<lparr>hq_method = ''POST'', hq_path = ''/x'', hq_token = ''t'', hq_body = JNull\<rparr>" "''POST''" "''/x''" JNull 0 "demo_answer 502 []" 1 "demo_answer 200 []" 2]
  by (simp add: parseRateLimit_def header_def)

theorem last_call_discarded_witness:
  "gr_result (gh_request (demo_gh (\<lambda>_. demo_answer 200 spent_headers)) ''POST'' ''/x'' JNull 0) = Inl (GitHubRateLimitExceeded ''core'' 60000 None)
    \<and> gr_state (gh_request (demo_gh (\<lambda>_. demo_answer 200 spent_headers)) ''POST'' ''/x'' JNull 0) = 1"
proof -
  have "parseRetryAfter d spent_headers n = None" for d n by (simp add: parseRetryAfter_def) code_simp
  then show ?thesis
    using last_call_discarded [of "demo_gh (\<lambda>_. demo_answer 200 spent_headers)" "''t''" "''POST''" "''/x''" JNull 0 "demo_answer 200 spent_headers" 1
        "\<lparr>rw_resource = ''core'', rw_limit = 5000, rw_remaining = 0, rw_resetAt = 60000\<rparr>"] spent_window
    by simp
qed

text \<open>An installation GitHub does not know, asked for by two waiting callers.\<close>

definition demo_exchange :: "int \<Rightarrow> exchange_env" where
  "demo_exchange st = \<lparr>xe_sign = (\<lambda>_. Inr ''jwt''), xe_http = (\<lambda>_ _. Inr (demo_answer st [])), xe_parse = (\<lambda>_. Inr (''ghs'', 3600000)), xe_now = 0, xe_mono = 0\<rparr>"

definition demo_options :: token_options where
  "demo_options = \<lparr>to_appId = 1, to_refreshAtFraction = 8 / 10, to_maxCacheEntries = 1000\<rparr>"

lemma texts: "int_text 404 = ''404''" "int_text 7 = ''7''"
  by code_simp+

lemma demo_exchange_result:
  "tr_result (exchangeWithRetry (demo_exchange 404) 7) = Inl (PermanentTokenError ''GitHub returned 404 for installation_id=7'')"
  "tr_result (exchangeWithRetry (demo_exchange 201) 7) = Inr (''ghs'', 3600000)"
  by (simp_all add: exchangeWithRetry_def demo_exchange_def TOKEN_MAX_RETRIES_def Let_def token_stop_def eval_nat_numeral texts)

theorem failures_not_coalesced_witness:
  "fst (waiters demo_options 7 [(0, demo_exchange 404), (1, demo_exchange 404)] \<lparr>tp_cache = [], tp_negative = Map.empty\<rparr>)
    = replicate 2 (Inl (PermanentTokenError ''GitHub returned 404 for installation_id=7''))"
  using failures_not_coalesced [of "\<lparr>tp_cache = [], tp_negative = Map.empty\<rparr>" 7 "[(0, demo_exchange 404), (1, demo_exchange 404)]" demo_options]
  by (simp add: demo_exchange_result numeral_2_eq_2)

theorem single_flight_witness:
  "fst (waiters demo_options 7 [(0, demo_exchange 201), (1, demo_exchange 404)] \<lparr>tp_cache = [], tp_negative = Map.empty\<rparr>) = [Inr ''ghs'', Inr ''ghs'']"
  using single_flight [of demo_options "\<lparr>tp_cache = [], tp_negative = Map.empty\<rparr>" 7 "demo_exchange 201" "''ghs''" 3600000 "[(1, demo_exchange 404)]" 0]
  by (simp add: demo_exchange_result provider_accepts_def demo_options_def SAFE_INTEGER_def cache_ok_def) (simp add: demo_exchange_def)

end
