(* ===== verification/Posting.thy ===== *)
theory Posting
  imports Run_Lifecycle Review_Body Github_Api
begin

text \<open>
  Posting a review: \<^verbatim>\<open>doPost\<close> of \<^verbatim>\<open>activities/post_review_results.activity.ts\<close> over the table
  \<^verbatim>\<open>core.posted_reviews\<close>, the stale-write guard and a client of the reviews of one pull request. The state of GitHub is a
  parameter \<open>'g\<close>. Between two steps of a call (a transaction or a sequence of requests) other workers act on tables and
  host as they like: \<open>pe_others e i\<close> is what they do before step \<open>i\<close>. A fault of statement \<open>i\<close> (\<open>pe_fault\<close>) is an error
  of the database or a crash of the worker in front of it.
\<close>

section \<open>The contract\<close>

datatype publication_outcome = Inline_posted | Body_only_posted | Degraded_unposted

record dropped_classification =
  dc_index :: nat
  dc_reason :: string

record posted_review =
  po_review_id :: "int option"
  po_was_update :: bool
  po_inline_comment_count :: nat
  po_comment_ids :: "int list"
  po_kept_finding_indices :: "nat list"
  po_outcome :: publication_outcome
  po_degradation_notes :: "string list"
  po_dropped_classifications :: "dropped_classification list"

definition dropped_valid :: "dropped_classification \<Rightarrow> bool" where
  "dropped_valid d \<longleftrightarrow> dc_index d \<le> 200 \<and> 1 \<le> length (dc_reason d) \<and> length (dc_reason d) \<le> 64"

definition posted_valid :: "posted_review \<Rightarrow> bool" where
  "posted_valid p \<longleftrightarrow> (case po_review_id p of None \<Rightarrow> True | Some i \<Rightarrow> 1 \<le> i)
     \<and> list_all dropped_valid (po_dropped_classifications p)
     \<and> (po_outcome p = Degraded_unposted \<longleftrightarrow> po_review_id p = None)"

record posted_row =
  pw_pr_id :: uuid
  pw_review_id :: "int option"
  pw_marker :: string
  pw_posted_at :: db_time
  pw_updated_at :: db_time
  pw_outcome :: publication_outcome
  pw_comment_ids :: "rat json"

text \<open>The CHECKs of the table.\<close>

definition row_checks :: "posted_row \<Rightarrow> bool" where
  "row_checks r \<longleftrightarrow> (pw_outcome r = Degraded_unposted \<longleftrightarrow> pw_review_id r = None)
     \<and> (case pw_comment_ids r of JArr _ \<Rightarrow> True | _ \<Rightarrow> False)"

record dropped_state =
  ds_dropped :: "dropped_classification list"
  ds_kept :: "nat list"
  ds_pr_id :: uuid

datatype post_error =
    PostStale review_error
  | PostCapExceeded nat
  | PostAborted
  | PostFailed string dropped_state gh_error
  | CommentIdsMismatch nat nat
  | PostTransient string
  | PostGithub gh_error
  | PostContract
  | PostCheckViolation
  | PostDbFault

text \<open>The client of the reviews of one pull request; \<open>api_client\<close> is the production one.\<close>

record 'g review_client =
  rc_create :: "string \<Rightarrow> string \<Rightarrow> rat json list \<Rightarrow> 'g \<Rightarrow> (gh_error + created_review) \<times> 'g"
  rc_update :: "int \<Rightarrow> string \<Rightarrow> 'g \<Rightarrow> (gh_error + unit) \<times> 'g"
  rc_find :: "string \<Rightarrow> 'g \<Rightarrow> (gh_error + int option) \<times> 'g"
  rc_comments :: "int \<Rightarrow> 'g \<Rightarrow> (gh_error + int list) \<times> 'g"

definition api_client :: "'g review_api \<Rightarrow> pull_ref \<Rightarrow> 'g review_client" where
  "api_client api p = \<lparr>rc_create = createReview api p, rc_update = updateReview api p,
     rc_find = findExistingReviewByMarker api p, rc_comments = listReviewComments api 0 p\<rparr>"

record 'g post_state =
  ps_db :: review_db
  ps_rows :: "posted_row list"
  ps_host :: 'g

record 'g post_env =
  pe_client :: "'g review_client"
  pe_now :: "nat \<Rightarrow> db_time"
  pe_clk :: js_date
  pe_eid :: uuid
  pe_window :: rat
  pe_takeover :: bool
  pe_aborted :: "nat \<Rightarrow> bool"
  pe_others :: "nat \<Rightarrow> 'g post_state \<Rightarrow> 'g post_state"
  pe_fault :: "nat \<Rightarrow> bool"
  pe_web_host :: string

record post_input =
  pi_findings :: "review_finding list"
  pi_pr_id :: uuid
  pi_head_sha :: string
  pi_walkthrough_md :: string
  pi_owner :: string
  pi_repo_name :: string
  pi_run_id :: uuid
  pi_review_id :: uuid
  pi_changed :: "(string \<times> hunk list) list"

definition MAX_INLINE_COMMENTS_PER_REVIEW :: nat where "MAX_INLINE_COMMENTS_PER_REVIEW = 50"
definition IN_FLIGHT_WINDOW_SECONDS_DEFAULT :: rat where "IN_FLIGHT_WINDOW_SECONDS_DEFAULT = 300"
definition claim_site :: string where "claim_site = ''post_review_results._do_post''"

section \<open>What is posted\<close>

definition input_classes :: "post_input \<Rightarrow> classification list" where
  "input_classes inp = classifyFindingsAgainstDiff (pi_findings inp) (pi_changed inp)"

definition keptFindings :: "post_input \<Rightarrow> review_finding list" where
  "keptFindings inp = map cl_finding (filter is_valid (input_classes inp))"

definition keptIndices :: "post_input \<Rightarrow> nat list" where
  "keptIndices inp = map fst (filter (\<lambda>(i, c). is_valid c) (enumerate 0 (input_classes inp)))"

definition droppedClassifications :: "post_input \<Rightarrow> dropped_classification list" where
  "droppedClassifications inp =
     concat (map (\<lambda>(i, c). case cl_dropReason c of
         Some reason \<Rightarrow> if is_valid c then [] else [\<lparr>dc_index = i, dc_reason = reason\<rparr>]
       | None \<Rightarrow> []) (enumerate 0 (input_classes inp)))"

definition buildDroppedStateDetails :: "post_input \<Rightarrow> dropped_state" where
  "buildDroppedStateDetails inp = \<lparr>ds_dropped = droppedClassifications inp, ds_kept = keptIndices inp, ds_pr_id = pi_pr_id inp\<rparr>"

definition post_body :: "'g post_env \<Rightarrow> post_input \<Rightarrow> string" where
  "post_body e inp = buildReviewBody (pi_walkthrough_md inp) (pi_pr_id inp)
     (renderDroppedFindingsSection \<lparr>lc_host = pe_web_host e, lc_owner = pi_owner inp, lc_repo = pi_repo_name inp, lc_headSha = pi_head_sha inp\<rparr>
        (input_classes inp))"

definition inlinePayload :: "post_input \<Rightarrow> rat json list" where
  "inlinePayload inp = map (\<lambda>f. serialiseInline (findingToInlineComment f)) (keptFindings inp)"

section \<open>Statements\<close>

definition pr_rows :: "uuid \<Rightarrow> posted_row list \<Rightarrow> posted_row list" where
  "pr_rows prId rows = filter (\<lambda>r. pw_pr_id r = prId) rows"

definition claim_row :: "db_time \<Rightarrow> uuid \<Rightarrow> posted_row" where
  "claim_row now prId = \<lparr>pw_pr_id = prId, pw_review_id = None, pw_marker = markerFor prId, pw_posted_at = now, pw_updated_at = now,
     pw_outcome = Degraded_unposted, pw_comment_ids = JArr []\<rparr>"

text \<open>Phase 1: the guard and the insert with its conflict clause in one transaction.\<close>

definition claim_post :: "'g post_env \<Rightarrow> post_input \<Rightarrow> 'g post_state \<Rightarrow> (post_error + bool) \<times> 'g post_state" where
  "claim_post e inp s =
     (if pe_fault e 0 then (Inl PostDbFault, s)
      else case transact (\<lambda>db. case assertCurrentRun (pe_clk e) (pe_eid e) (pi_run_id inp) (pi_review_id inp) claim_site db of
                            (Inl x, _, _) \<Rightarrow> Inl x | (Inr _, _, db1) \<Rightarrow> Inr ((), db1)) (ps_db s) of
        (Inl x, _) \<Rightarrow> (Inl (PostStale x), s)
      | (Inr _, db1) \<Rightarrow>
          if pr_rows (pi_pr_id inp) (ps_rows s) = [] then
            (Inr True, s\<lparr>ps_db := db1, ps_rows := ps_rows s @ [claim_row (pe_now e 0) (pi_pr_id inp)]\<rparr>)
          else (Inr False, s\<lparr>ps_db := db1\<rparr>))"

definition update_rows :: "(posted_row \<Rightarrow> bool) \<Rightarrow> (posted_row \<Rightarrow> posted_row) \<Rightarrow> 'g post_state \<Rightarrow> (post_error + nat) \<times> 'g post_state" where
  "update_rows p f s =
     (if list_all row_checks (map f (filter p (ps_rows s)))
      then (Inr (hits p (ps_rows s)), s\<lparr>ps_rows := upd_where p f (ps_rows s)\<rparr>)
      else (Inl PostCheckViolation, s))"

definition store_review :: "db_time \<Rightarrow> int \<Rightarrow> publication_outcome \<Rightarrow> int list \<Rightarrow> posted_row \<Rightarrow> posted_row" where
  "store_review now reviewId oc commentIds r =
     r\<lparr>pw_review_id := Some reviewId, pw_outcome := oc, pw_comment_ids := JArr (map (\<lambda>i. JNum (of_int i)) commentIds), pw_updated_at := now\<rparr>"

fun json_ints :: "rat json list \<Rightarrow> int list option" where
  "json_ints [] = Some []"
| "json_ints (JNum x # vs) = (if rat_of_int \<lfloor>x\<rfloor> = x then map_option (Cons \<lfloor>x\<rfloor>) (json_ints vs) else None)"
| "json_ints (v # vs) = None"

definition parseStoredCommentIds :: "rat json \<Rightarrow> int list" where
  "parseStoredCommentIds v = (case v of JArr vs \<Rightarrow> (case json_ints vs of None \<Rightarrow> [] | Some is \<Rightarrow> is) | _ \<Rightarrow> [])"

section \<open>The publication ladder\<close>

record publication_attempt =
  pa_created :: "created_review option"
  pa_inlineSucceeded :: bool
  pa_notes :: "string list"

definition is_unprocessable :: "gh_error \<Rightarrow> bool" where
  "is_unprocessable x = (case x of GitHubUnprocessableError _ \<Rightarrow> True | _ \<Rightarrow> False)"

definition attemptCreateWithBodyOnlyFallback ::
  "'g review_client \<Rightarrow> string \<Rightarrow> string \<Rightarrow> rat json list \<Rightarrow> 'g \<Rightarrow> (gh_error + publication_attempt) \<times> 'g" where
  "attemptCreateWithBodyOnlyFallback c body headSha payload g =
     (case rc_create c body headSha payload g of
        (Inr cr, g1) \<Rightarrow> (Inr \<lparr>pa_created = Some cr, pa_inlineSucceeded = True, pa_notes = []\<rparr>, g1)
      | (Inl x, g1) \<Rightarrow>
          if \<not> is_unprocessable x then (Inl x, g1)
          else (case rc_create c body headSha [] g1 of
                  (Inr cr, g2) \<Rightarrow> (Inr \<lparr>pa_created = Some cr, pa_inlineSucceeded = False, pa_notes = [''github_422_on_inline_post'']\<rparr>, g2)
                | (Inl y, g2) \<Rightarrow>
                    if \<not> is_unprocessable y then (Inl y, g2)
                    else (Inr \<lparr>pa_created = None, pa_inlineSucceeded = False,
                            pa_notes = [''github_422_on_inline_post'', ''github_422_on_body_only_retry'']\<rparr>, g2)))"

section \<open>The takeover of an empty row\<close>

datatype takeover = Recovered int "int list" publication_outcome "string list" | Degraded "string list" | Raced

definition cas_store :: "'g post_env \<Rightarrow> post_input \<Rightarrow> int \<Rightarrow> int list \<Rightarrow> publication_outcome \<Rightarrow> string list \<Rightarrow> 'g post_state \<Rightarrow> (post_error + takeover) \<times> 'g post_state" where
  "cas_store e inp reviewId commentIds oc notes s =
     (if pe_fault e 2 then (Inl PostDbFault, s)
      else case update_rows (\<lambda>r. pw_pr_id r = pi_pr_id inp \<and> pw_review_id r = None) (store_review (pe_now e 2) reviewId oc commentIds) s of
        (Inl x, s1) \<Rightarrow> (Inl x, s1)
      | (Inr n, s1) \<Rightarrow> (Inr (if n = 0 then Raced else Recovered reviewId commentIds oc notes), s1))"

definition attemptSameRunTakeover :: "'g post_env \<Rightarrow> post_input \<Rightarrow> 'g post_state \<Rightarrow> (post_error + takeover) \<times> 'g post_state" where
  "attemptSameRunTakeover e inp s0 =
     (let s = pe_others e 2 s0 in
      case rc_find (pe_client e) (markerFor (pi_pr_id inp)) (ps_host s) of
        (Inl x, g1) \<Rightarrow> (Inl (PostGithub x), s\<lparr>ps_host := g1\<rparr>)
      | (Inr (Some reviewId), g1) \<Rightarrow>
          (case rc_comments (pe_client e) reviewId g1 of
             (Inl x, g2) \<Rightarrow> (Inl (PostGithub x), s\<lparr>ps_host := g2\<rparr>)
           | (Inr ids, g2) \<Rightarrow>
               cas_store e inp reviewId ids (if ids \<noteq> [] then Inline_posted else Body_only_posted) [] (pe_others e 4 (s\<lparr>ps_host := g2\<rparr>)))
      | (Inr None, g1) \<Rightarrow>
          let s3 = pe_others e 3 (s\<lparr>ps_host := g1\<rparr>) in
          if pe_aborted e 1 then (Inl PostAborted, s3)
          else (case attemptCreateWithBodyOnlyFallback (pe_client e) (post_body e inp) (pi_head_sha inp) (inlinePayload inp) (ps_host s3) of
                  (Inl x, g4) \<Rightarrow> (Inl (PostGithub x), s3\<lparr>ps_host := g4\<rparr>)
                | (Inr a, g4) \<Rightarrow>
                    (case pa_created a of
                       None \<Rightarrow> (Inr (Degraded (pa_notes a)), s3\<lparr>ps_host := g4\<rparr>)
                     | Some cr \<Rightarrow> cas_store e inp (cr_reviewId cr) (cr_commentIds cr)
                         (if pa_inlineSucceeded a then Inline_posted else Body_only_posted) (pa_notes a)
                         (pe_others e 4 (s3\<lparr>ps_host := g4\<rparr>)))))"

section \<open>The call\<close>

definition parse_posted :: "posted_review \<Rightarrow> post_error + posted_review" where
  "parse_posted p = (if posted_valid p then Inr p else Inl PostContract)"

definition degraded_review :: "post_input \<Rightarrow> string list \<Rightarrow> posted_review" where
  "degraded_review inp notes = \<lparr>po_review_id = None, po_was_update = False, po_inline_comment_count = 0, po_comment_ids = [],
     po_kept_finding_indices = keptIndices inp, po_outcome = Degraded_unposted, po_degradation_notes = notes,
     po_dropped_classifications = droppedClassifications inp\<rparr>"

definition created_message :: string where "created_message = ''post-review failed; classifier state preserved for skip-dispatch''"
definition updated_message :: string where "updated_message = ''post-review failed (update path); classifier state preserved for skip-dispatch''"

definition post_won :: "'g post_env \<Rightarrow> post_input \<Rightarrow> 'g post_state \<Rightarrow> (post_error + posted_review) \<times> 'g post_state" where
  "post_won e inp s0 =
     (let s = pe_others e 1 s0 in
      if pe_aborted e 0 then (Inl PostAborted, s)
      else case attemptCreateWithBodyOnlyFallback (pe_client e) (post_body e inp) (pi_head_sha inp) (inlinePayload inp) (ps_host s) of
        (Inl x, g) \<Rightarrow> (Inl (PostFailed created_message (buildDroppedStateDetails inp) x), s\<lparr>ps_host := g\<rparr>)
      | (Inr a, g) \<Rightarrow>
          let s1 = pe_others e 2 (s\<lparr>ps_host := g\<rparr>) in
          (case pa_created a of
             None \<Rightarrow>
               if pe_fault e 1 then (Inl PostDbFault, s1)
               else (case update_rows (\<lambda>r. pw_pr_id r = pi_pr_id inp) (\<lambda>r. r\<lparr>pw_outcome := Degraded_unposted, pw_updated_at := pe_now e 1\<rparr>) s1 of
                       (Inl x, s2) \<Rightarrow> (Inl x, s2)
                     | (Inr _, s2) \<Rightarrow> (parse_posted (degraded_review inp (pa_notes a)), s2))
           | Some cr \<Rightarrow>
               if pa_inlineSucceeded a \<and> length (cr_commentIds cr) \<noteq> length (keptFindings inp)
               then (Inl (CommentIdsMismatch (length (cr_commentIds cr)) (length (keptFindings inp))), s1)
               else let oc = (if pa_inlineSucceeded a then Inline_posted else Body_only_posted);
                        ids = (if pa_inlineSucceeded a then cr_commentIds cr else []) in
                    if pe_fault e 1 then (Inl PostDbFault, s1)
                    else (case update_rows (\<lambda>r. pw_pr_id r = pi_pr_id inp) (store_review (pe_now e 1) (cr_reviewId cr) oc ids) s1 of
                            (Inl x, s2) \<Rightarrow> (Inl x, s2)
                          | (Inr _, s2) \<Rightarrow>
                              (parse_posted \<lparr>po_review_id = Some (cr_reviewId cr), po_was_update = False,
                                 po_inline_comment_count = (if pa_inlineSucceeded a then length (inlinePayload inp) else 0), po_comment_ids = ids,
                                 po_kept_finding_indices = keptIndices inp, po_outcome = oc, po_degradation_notes = pa_notes a,
                                 po_dropped_classifications = droppedClassifications inp\<rparr>, s2))))"

text \<open>The end of the lost path: the row's review id, its age, outcome and comment ids as they were read.\<close>

definition post_update :: "'g post_env \<Rightarrow> post_input \<Rightarrow> int option \<Rightarrow> rat \<Rightarrow> publication_outcome \<Rightarrow> int list \<Rightarrow> 'g post_state \<Rightarrow> (post_error + posted_review) \<times> 'g post_state" where
  "post_update e inp reviewId ageSeconds oc stored s0 =
     (case reviewId of
        None \<Rightarrow>
          if ageSeconds < pe_window e then (Inl (PostTransient (pi_pr_id inp)), s0)
          else (parse_posted (degraded_review inp [''prior_workflow_terminal_uncertainty'']), s0)
      | Some rid \<Rightarrow>
          let s = pe_others e 6 s0 in
          if pe_aborted e 2 then (Inl PostAborted, s)
          else (case rc_update (pe_client e) rid (post_body e inp) (ps_host s) of
                  (Inl x, g) \<Rightarrow> (Inl (PostFailed updated_message (buildDroppedStateDetails inp) x), s\<lparr>ps_host := g\<rparr>)
                | (Inr _, g) \<Rightarrow>
                    (parse_posted \<lparr>po_review_id = Some rid, po_was_update = True, po_inline_comment_count = length (inlinePayload inp),
                       po_comment_ids = stored, po_kept_finding_indices = keptIndices inp, po_outcome = oc, po_degradation_notes = [],
                       po_dropped_classifications = droppedClassifications inp\<rparr>, s\<lparr>ps_host := g\<rparr>)))"

definition row_age :: "db_time \<Rightarrow> posted_row \<Rightarrow> rat" where
  "row_age now r = of_int (now - pw_posted_at r) / 1000000"

definition post_lost :: "'g post_env \<Rightarrow> post_input \<Rightarrow> 'g post_state \<Rightarrow> (post_error + posted_review) \<times> 'g post_state" where
  "post_lost e inp s0 =
     (let s = pe_others e 1 s0 in
      if pe_fault e 1 then (Inl PostDbFault, s)
      else case first_row (pr_rows (pi_pr_id inp) (ps_rows s)) of
        None \<Rightarrow> (Inl (PostTransient (pi_pr_id inp)), s)
      | Some r \<Rightarrow>
          let age = row_age (pe_now e 1) r in
          if pw_review_id r = None \<and> pe_takeover e then
            (case attemptSameRunTakeover e inp s of
               (Inl x, s1) \<Rightarrow> (Inl x, s1)
             | (Inr (Recovered reviewId ids oc notes), s1) \<Rightarrow>
                 (parse_posted \<lparr>po_review_id = Some reviewId, po_was_update = True, po_inline_comment_count = length ids, po_comment_ids = ids,
                    po_kept_finding_indices = keptIndices inp, po_outcome = oc, po_degradation_notes = notes,
                    po_dropped_classifications = droppedClassifications inp\<rparr>, s1)
             | (Inr (Degraded notes), s1) \<Rightarrow> (parse_posted (degraded_review inp notes), s1)
             | (Inr Raced, s1) \<Rightarrow>
                 let s2 = pe_others e 5 s1 in
                 if pe_fault e 3 then (Inl PostDbFault, s2)
                 else (case first_row (pr_rows (pi_pr_id inp) (ps_rows s2)) of
                         None \<Rightarrow> post_update e inp None age (pw_outcome r) (parseStoredCommentIds (pw_comment_ids r)) s2
                       | Some r2 \<Rightarrow> post_update e inp (pw_review_id r2) age (pw_outcome r2) (parseStoredCommentIds (pw_comment_ids r2)) s2))
          else post_update e inp (pw_review_id r) age (pw_outcome r) (parseStoredCommentIds (pw_comment_ids r)) s)"

definition doPost :: "'g post_env \<Rightarrow> post_input \<Rightarrow> 'g post_state \<Rightarrow> (post_error + posted_review) \<times> 'g post_state" where
  "doPost e inp s =
     (if MAX_INLINE_COMMENTS_PER_REVIEW < length (keptFindings inp) then (Inl (PostCapExceeded (length (keptFindings inp))), s)
      else case claim_post e inp (pe_others e 0 s) of
        (Inl x, s1) \<Rightarrow> (Inl x, s1)
      | (Inr True, s1) \<Rightarrow> post_won e inp s1
      | (Inr False, s1) \<Rightarrow> post_lost e inp s1)"

section \<open>The split of the findings\<close>

lemma enumerate_upt: "enumerate 0 xs = map (\<lambda>i. (i, xs ! i)) [0..<length xs]"
  by (rule nth_equalityI) (simp_all add: nth_enumerate_eq)

lemma filter_fst_upt: "map fst (filter (\<lambda>(i, c). P c) (map (\<lambda>i. (i, xs ! i)) ns)) = filter (\<lambda>i. P (xs ! i)) ns"
  by (induction ns) simp_all

lemma keptIndices_upt: "keptIndices inp = filter (\<lambda>i. is_valid (input_classes inp ! i)) [0..<length (input_classes inp)]"
  unfolding keptIndices_def enumerate_upt filter_fst_upt ..

lemma length_input_classes [simp]: "length (input_classes inp) = length (pi_findings inp)"
  by (simp add: input_classes_def classifyFindingsAgainstDiff_def)

lemma input_class_nth: "i < length (pi_findings inp) \<Longrightarrow> input_classes inp ! i = classify (pi_changed inp) (pi_findings inp ! i)"
  by (simp add: input_classes_def classifyFindingsAgainstDiff_def)

lemma filter_nth_upt: "map ((!) xs) (filter (\<lambda>i. P (xs ! i)) [0..<length xs]) = filter P xs"
proof -
  have "filter P (map ((!) xs) [0..<length xs]) = map ((!) xs) (filter (\<lambda>i. P (xs ! i)) [0..<length xs])"
    by (simp add: filter_map o_def)
  then show ?thesis by (simp add: map_nth)
qed

lemma keptFindings_nth: "keptFindings inp = map ((!) (pi_findings inp)) (keptIndices inp)"
proof -
  have "map cl_finding (map ((!) (input_classes inp)) (keptIndices inp)) = map ((!) (pi_findings inp)) (keptIndices inp)"
    by (auto simp: keptIndices_upt input_class_nth)
  moreover have "filter is_valid (input_classes inp) = map ((!) (input_classes inp)) (keptIndices inp)"
    by (simp only: keptIndices_upt filter_nth_upt)
  ultimately show ?thesis by (simp add: keptFindings_def)
qed

lemma keptIndices_iff: "i \<in> set (keptIndices inp) \<longleftrightarrow> i < length (pi_findings inp) \<and> is_valid (classify (pi_changed inp) (pi_findings inp ! i))"
  by (auto simp: keptIndices_upt input_class_nth)

lemma dropped_iff:
  "d \<in> set (droppedClassifications inp) \<longleftrightarrow> dc_index d < length (pi_findings inp)
     \<and> \<not> is_valid (classify (pi_changed inp) (pi_findings inp ! dc_index d))
     \<and> cl_dropReason (classify (pi_changed inp) (pi_findings inp ! dc_index d)) = Some (dc_reason d)"
  by (auto simp: droppedClassifications_def enumerate_upt input_class_nth split: option.splits if_splits
      intro!: bexI [of _ "dc_index d"] intro: dropped_classification.equality)

lemma dropped_indices: "map dc_index (droppedClassifications inp) = filter (\<lambda>i. \<not> is_valid (input_classes inp ! i)) [0..<length (pi_findings inp)]"
proof -
  have "map dc_index (concat (map (\<lambda>(i, c). case cl_dropReason c of Some reason \<Rightarrow> if is_valid c then [] else [\<lparr>dc_index = i, dc_reason = reason\<rparr>] | None \<Rightarrow> [])
      (map (\<lambda>i. (i, input_classes inp ! i)) ns))) = filter (\<lambda>i. \<not> is_valid (input_classes inp ! i)) ns"
    if "set ns \<subseteq> {..<length (pi_findings inp)}" for ns
    using that
  proof (induction ns)
    case (Cons n ns)
    then have "cl_dropReason (input_classes inp ! n) = None \<longleftrightarrow> is_valid (input_classes inp ! n)"
      by (simp add: input_class_nth classify_reason)
    then show ?case using Cons by (auto split: option.split)
  qed simp
  from this [of "[0..<length (pi_findings inp)]"] show ?thesis by (simp add: droppedClassifications_def enumerate_upt atLeast0LessThan)
qed

text \<open>Why a finding is dropped, said without the tests of the code: its file has no hunk, it begins before every hunk, it
  ends after every hunk, it touches two hunks, or none of these.\<close>

definition dropped_because :: "(string \<times> hunk list) list \<Rightarrow> review_finding \<Rightarrow> string \<Rightarrow> bool" where
  "dropped_because changed f reason \<longleftrightarrow>
     (let rs = (case map_of changed (rf_file f) of None \<Rightarrow> [] | Some ranges \<Rightarrow> ranges);
          inside = (\<exists>h\<in>set rs. fst h \<le> rf_start_line f \<and> rf_end_line f \<le> snd h);
          before = (\<forall>h\<in>set rs. rf_start_line f < fst h);
          after = (\<forall>h\<in>set rs. snd h < rf_end_line f);
          touches = (\<lambda>i. fst (rs ! i) \<le> rf_end_line f \<and> rf_start_line f \<le> snd (rs ! i));
          two = (\<exists>i j. i < j \<and> j < length rs \<and> touches i \<and> touches j)
      in \<not> inside \<and>
         (reason = ''file_not_in_diff'' \<and> rs = []
          \<or> reason = ''line_before_first_hunk'' \<and> rs \<noteq> [] \<and> before
          \<or> reason = ''line_after_last_hunk'' \<and> rs \<noteq> [] \<and> \<not> before \<and> after
          \<or> reason = ''line_spans_hunks'' \<and> \<not> before \<and> \<not> after \<and> two
          \<or> reason = ''line_in_unchanged_gap'' \<and> \<not> before \<and> \<not> after \<and> \<not> two))"

lemma two_filter_iff: "2 \<le> length (filter P xs) \<longleftrightarrow> (\<exists>i j. i < j \<and> j < length xs \<and> P (xs ! i) \<and> P (xs ! j))"
proof (induction xs)
  case (Cons x xs)
  have one: "1 \<le> length (filter P xs) \<longleftrightarrow> (\<exists>j<length xs. P (xs ! j))"
    by (simp add: Suc_le_eq filter_empty_conv all_set_conv_all_nth)
  have "(\<exists>i j. i < j \<and> j < length (x # xs) \<and> P ((x # xs) ! i) \<and> P ((x # xs) ! j))
      \<longleftrightarrow> (P x \<and> (\<exists>j<length xs. P (xs ! j))) \<or> (\<exists>i j. i < j \<and> j < length xs \<and> P (xs ! i) \<and> P (xs ! j))" (is "?l \<longleftrightarrow> ?r")
  proof
    assume ?l
    then obtain i j where ij: "i < j" "j < length (x # xs)" "P ((x # xs) ! i)" "P ((x # xs) ! j)" by blast
    then obtain j' where j: "j = Suc j'" by (cases j) simp_all
    show ?r using ij j by (cases i) auto
  next
    assume ?r
    then show ?l
    proof
      assume "P x \<and> (\<exists>j<length xs. P (xs ! j))"
      then obtain j where "P x" "j < length xs" "P (xs ! j)" by blast
      then show ?l by (intro exI [of _ 0] exI [of _ "Suc j"]) simp
    next
      assume "\<exists>i j. i < j \<and> j < length xs \<and> P (xs ! i) \<and> P (xs ! j)"
      then obtain i j where "i < j" "j < length xs" "P (xs ! i)" "P (xs ! j)" by blast
      then show ?l by (intro exI [of _ "Suc i"] exI [of _ "Suc j"]) simp
    qed
  qed
  moreover have "\<exists>j<length xs. P (xs ! j)" if "\<exists>i j. i < j \<and> j < length xs \<and> P (xs ! i) \<and> P (xs ! j)" using that by blast
  ultimately show ?case using Cons.IH one by (cases "P x") auto
qed simp

lemma before_iff: "rs \<noteq> [] \<Longrightarrow> isBeforeFirstHunk f rs \<longleftrightarrow> (\<forall>h\<in>set rs. rf_start_line f < fst h)"
  by (simp add: isBeforeFirstHunk_def)

lemma after_iff: "rs \<noteq> [] \<Longrightarrow> isAfterLastHunk f rs \<longleftrightarrow> (\<forall>h\<in>set rs. snd h < rf_end_line f)"
  by (simp add: isAfterLastHunk_def)

lemma spans_iff: "spansMultipleHunks f rs \<longleftrightarrow> (\<exists>i j. i < j \<and> j < length rs
    \<and> (fst (rs ! i) \<le> rf_end_line f \<and> rf_start_line f \<le> snd (rs ! i)) \<and> (fst (rs ! j) \<le> rf_end_line f \<and> rf_start_line f \<le> snd (rs ! j)))"
  by (simp add: spansMultipleHunks_def MIN_HUNKS_FOR_SPAN_def two_filter_iff hunk_overlaps_def not_less)

lemma accepted_iff: "findingAccepted f rs \<longleftrightarrow> (\<exists>h\<in>set rs. fst h \<le> rf_start_line f \<and> rf_end_line f \<le> snd h)"
  by (simp add: findingAccepted_def list_ex_iff split_beta)

lemmas drop_names = DROP_FILE_NOT_IN_DIFF_def DROP_LINE_AFTER_LAST_HUNK_def DROP_LINE_BEFORE_FIRST_HUNK_def
  DROP_LINE_SPANS_HUNKS_def DROP_LINE_IN_UNCHANGED_GAP_def

lemma classify_because:
  "(\<not> is_valid (classify changed f) \<and> cl_dropReason (classify changed f) = Some reason) \<longleftrightarrow> dropped_because changed f reason"
proof (cases "case map_of changed (rf_file f) of None \<Rightarrow> [] | Some ranges \<Rightarrow> ranges")
  case Nil
  then have "classify changed f = \<lparr>cl_outcome = Dropped_finding, cl_finding = f, cl_dropReason = Some DROP_FILE_NOT_IN_DIFF\<rparr>"
    by (auto simp: classify_def split: option.splits)
  then show ?thesis using Nil by (auto simp: dropped_because_def is_valid_def drop_names)
next
  case (Cons h hs)
  let ?rs = "h # hs"
  have m: "map_of changed (rf_file f) = Some ?rs" using Cons by (simp split: option.splits)
  have c: "classify changed f = (if findingAccepted f ?rs then \<lparr>cl_outcome = Valid_finding, cl_finding = f, cl_dropReason = None\<rparr>
      else \<lparr>cl_outcome = Dropped_finding, cl_finding = f, cl_dropReason = Some (classifyDropReason f ?rs)\<rparr>)"
    by (simp add: classify_def m)
  have "dropped_because changed f reason \<longleftrightarrow> \<not> findingAccepted f ?rs \<and> reason = classifyDropReason f ?rs"
    unfolding dropped_because_def m option.case Let_def accepted_iff [symmetric] before_iff [of ?rs, OF list.distinct(2), symmetric]
      after_iff [of ?rs, OF list.distinct(2), symmetric] spans_iff [symmetric]
    by (auto simp: classifyDropReason_def drop_names)
  then show ?thesis by (auto simp: c is_valid_def)
qed

text \<open>(C20) Every finding is either an inline comment, exactly when its lines lie inside one hunk of its file, or dropped once
  with its reason: no hunk of the file, before the first, after the last, touching two, or in an unchanged gap. Comments and
  dropped findings keep the order of the findings.\<close>

theorem findings_split:
  "set (keptIndices inp) \<union> dc_index ` set (droppedClassifications inp) = {..<length (pi_findings inp)}
    \<and> set (keptIndices inp) \<inter> dc_index ` set (droppedClassifications inp) = {}
    \<and> sorted_wrt (<) (keptIndices inp) \<and> sorted_wrt (<) (map dc_index (droppedClassifications inp))
    \<and> keptFindings inp = map ((!) (pi_findings inp)) (keptIndices inp)
    \<and> set (keptIndices inp) = {i. i < length (pi_findings inp) \<and> (\<exists>ranges lo hi. map_of (pi_changed inp) (rf_file (pi_findings inp ! i)) = Some ranges
        \<and> (lo, hi) \<in> set ranges \<and> lo \<le> rf_start_line (pi_findings inp ! i) \<and> rf_end_line (pi_findings inp ! i) \<le> hi)}
    \<and> set (droppedClassifications inp) = {d. dc_index d < length (pi_findings inp)
        \<and> dropped_because (pi_changed inp) (pi_findings inp ! dc_index d) (dc_reason d)}"
proof -
  have kept: "set (keptIndices inp) = {i. i < length (pi_findings inp) \<and> is_valid (classify (pi_changed inp) (pi_findings inp ! i))}"
    by (simp add: set_eq_iff keptIndices_iff)
  have "dc_index ` set (droppedClassifications inp) = set (filter (\<lambda>i. \<not> is_valid (input_classes inp ! i)) [0..<length (pi_findings inp)])"
    by (simp only: dropped_indices [symmetric] set_map)
  then have dropped: "dc_index ` set (droppedClassifications inp)
      = {i. i < length (pi_findings inp) \<and> \<not> is_valid (classify (pi_changed inp) (pi_findings inp ! i))}"
    by (auto simp: input_class_nth)
  have order: "sorted_wrt (<) (keptIndices inp)" "sorted_wrt (<) (map dc_index (droppedClassifications inp))"
    unfolding keptIndices_upt dropped_indices by (intro sorted_wrt_filter; simp)+
  have reasons: "set (droppedClassifications inp) = {d. dc_index d < length (pi_findings inp)
      \<and> dropped_because (pi_changed inp) (pi_findings inp ! dc_index d) (dc_reason d)}"
    by (auto simp: dropped_iff classify_because [symmetric])
  have "set (keptIndices inp) \<union> dc_index ` set (droppedClassifications inp) = {..<length (pi_findings inp)}"
    "set (keptIndices inp) \<inter> dc_index ` set (droppedClassifications inp) = {}"
    unfolding kept dropped by auto
  then show ?thesis using order keptFindings_nth kept [unfolded classify_valid_iff] reasons by (intro conjI)
qed

section \<open>The table\<close>

definition rows_ok :: "posted_row list \<Rightarrow> bool" where
  "rows_ok rows \<longleftrightarrow> distinct (map pw_pr_id rows) \<and> list_all row_checks rows"

definition keeps_pr :: "(posted_row \<Rightarrow> posted_row) \<Rightarrow> bool" where
  "keeps_pr f \<longleftrightarrow> (\<forall>r. pw_pr_id (f r) = pw_pr_id r)"

lemma keeps_pr_store [simp]: "keeps_pr (store_review now rid oc ids)"
  by (simp add: keeps_pr_def store_review_def)

lemma keeps_pr_degrade [simp]: "keeps_pr (\<lambda>r. r\<lparr>pw_outcome := oc, pw_updated_at := now\<rparr>)"
  by (simp add: keeps_pr_def)

lemma upd_where_pr_ids: "keeps_pr f \<Longrightarrow> map pw_pr_id (upd_where p f rows) = map pw_pr_id rows"
  by (simp add: upd_where_def keeps_pr_def)

lemma update_rows_ok: "rows_ok (ps_rows s) \<Longrightarrow> keeps_pr f \<Longrightarrow> rows_ok (ps_rows (snd (update_rows p f s)))"
proof -
  assume ok: "rows_ok (ps_rows s)" and k: "keeps_pr f"
  show ?thesis
  proof (cases "list_all row_checks (map f (filter p (ps_rows s)))")
    case True
    then have "list_all row_checks (upd_where p f (ps_rows s))" using ok by (auto simp: rows_ok_def list_all_iff upd_where_def)
    then show ?thesis using True ok by (simp add: update_rows_def rows_ok_def upd_where_pr_ids [OF k])
  qed (use ok in \<open>simp add: update_rows_def\<close>)
qed

lemma update_rows_cases:
  obtains (ok) n s' where "update_rows p f s = (Inr n, s')" | (bad) "update_rows p f s = (Inl PostCheckViolation, s)"
  by (cases "list_all row_checks (map f (filter p (ps_rows s)))") (auto simp: update_rows_def)

lemma snd_case_sum: "snd (case x of (Inl y, z) \<Rightarrow> (Inl y, z) | (Inr n, z) \<Rightarrow> (F n z, z)) = snd x"
  by (simp split: prod.split sum.split)

lemma claim_rows_ok: "rows_ok (ps_rows s) \<Longrightarrow> rows_ok (ps_rows (snd (claim_post e inp s)))"
  by (auto simp: claim_post_def rows_ok_def pr_rows_def claim_row_def row_checks_def filter_empty_conv split: sum.split prod.split)

definition others_keep :: "('g post_state \<Rightarrow> bool) \<Rightarrow> 'g post_env \<Rightarrow> bool" where
  "others_keep P e \<longleftrightarrow> (\<forall>i s. P s \<longrightarrow> P (pe_others e i s))"

lemma cas_store_ok: "rows_ok (ps_rows s) \<Longrightarrow> rows_ok (ps_rows (snd (cas_store e inp rid ids oc notes s)))"
  using update_rows_ok [of s "store_review (pe_now e 2) rid oc ids" "\<lambda>r. pw_pr_id r = pi_pr_id inp \<and> pw_review_id r = None"]
  by (auto simp: cas_store_def split: prod.split sum.split)

lemma takeover_rows_ok:
  assumes "others_keep (\<lambda>s. rows_ok (ps_rows s)) e" and "rows_ok (ps_rows s)"
  shows "rows_ok (ps_rows (snd (attemptSameRunTakeover e inp s)))"
proof -
  have o: "rows_ok (ps_rows z) \<Longrightarrow> rows_ok (ps_rows (pe_others e i z))" for i z using assms(1) by (simp add: others_keep_def)
  show ?thesis using assms(2)
    by (auto simp: attemptSameRunTakeover_def Let_def o cas_store_ok split: prod.split sum.split option.split)
qed

lemma post_update_rows_ok:
  assumes "others_keep (\<lambda>s. rows_ok (ps_rows s)) e" and "rows_ok (ps_rows s)"
  shows "rows_ok (ps_rows (snd (post_update e inp rid age oc stored s)))"
  using assms by (auto simp: post_update_def Let_def others_keep_def split: prod.split sum.split option.split)

lemma post_lost_rows_ok:
  assumes "others_keep (\<lambda>s. rows_ok (ps_rows s)) e" and "rows_ok (ps_rows s)"
  shows "rows_ok (ps_rows (snd (post_lost e inp s)))"
proof -
  have o: "rows_ok (ps_rows z) \<Longrightarrow> rows_ok (ps_rows (pe_others e i z))" for i z using assms(1) by (simp add: others_keep_def)
  let ?s = "pe_others e 1 s"
  have t: "rows_ok (ps_rows (snd (attemptSameRunTakeover e inp ?s)))" using assms(2) by (intro takeover_rows_ok [OF assms(1)] o)
  obtain x s1 where x: "attemptSameRunTakeover e inp ?s = (x, s1)" by force
  have s1: "rows_ok (ps_rows s1)" using t x by simp
  show ?thesis using assms(2) o s1 x
    by (auto simp: post_lost_def Let_def post_update_rows_ok [OF assms(1)] split: sum.split option.split takeover.split)
qed

lemma post_won_rows_ok:
  assumes "others_keep (\<lambda>s. rows_ok (ps_rows s)) e" and "rows_ok (ps_rows s)"
  shows "rows_ok (ps_rows (snd (post_won e inp s)))"
proof -
  have o: "rows_ok (ps_rows z) \<Longrightarrow> rows_ok (ps_rows (pe_others e i z))" for i z using assms(1) by (simp add: others_keep_def)
  obtain x g where x: "attemptCreateWithBodyOnlyFallback (pe_client e) (post_body e inp) (pi_head_sha inp) (inlinePayload inp) (ps_host (pe_others e 1 s)) = (x, g)"
    by force
  have s1: "rows_ok (ps_rows (pe_others e 2 ((pe_others e 1 s)\<lparr>ps_host := g\<rparr>)))" using assms(2) by (intro o) (simp add: o)
  note u = update_rows_ok [OF s1 keeps_pr_store] update_rows_ok [OF s1 keeps_pr_degrade]
  show ?thesis
  proof (cases x)
    case (Inl m)
    then show ?thesis using x assms(2) o by (simp add: post_won_def Let_def)
  next
    case (Inr a)
    then show ?thesis using x s1 u assms(2) o by (cases "pa_created a") (simp_all add: post_won_def Let_def snd_case_sum)
  qed
qed

text \<open>Whatever calls and other workers do, the table keeps one row per pull request, with a review id exactly when the outcome is
  not degraded.\<close>

lemma doPost_rows_ok:
  assumes "others_keep (\<lambda>s. rows_ok (ps_rows s)) e" and "rows_ok (ps_rows s)"
  shows "rows_ok (ps_rows (snd (doPost e inp s)))"
proof -
  have "rows_ok (ps_rows (snd (claim_post e inp (pe_others e 0 s))))" using assms by (intro claim_rows_ok) (simp add: others_keep_def)
  then show ?thesis using assms post_won_rows_ok [OF assms(1)] post_lost_rows_ok [OF assms(1)]
    by (cases "claim_post e inp (pe_others e 0 s)") (auto simp: doPost_def split: sum.split bool.split)
qed

section \<open>The reviews of a pull request\<close>

text \<open>The reviews of the pull request, ids and bodies, as a view \<open>rv\<close> of the host. \<open>review_host\<close> is the ideal client, which the
  wrong outcomes below do not need to spoil: a create adds one review with a fresh id or nothing, and nothing when it is refused as
  unprocessable; a body update changes that body at most; a scan that ends without an error has seen all reviews. What
  the production client makes of a server that is less than ideal is shown in \<open>Review_Server\<close>.\<close>

definition marked_ids :: "('g \<Rightarrow> (int \<times> string) list) \<Rightarrow> string \<Rightarrow> 'g \<Rightarrow> int list" where
  "marked_ids rv marker g = map fst (filter (\<lambda>(i, b). sublist marker b) (rv g))"

definition created_once :: "('g \<Rightarrow> (int \<times> string) list) \<Rightarrow> string \<Rightarrow> 'g \<Rightarrow> (gh_error + created_review) \<times> 'g \<Rightarrow> bool" where
  "created_once rv body g out \<longleftrightarrow>
     (case fst out of
        Inr cr \<Rightarrow> cr_reviewId cr \<notin> fst ` set (rv g) \<and> rv (snd out) = rv g @ [(cr_reviewId cr, body)]
      | Inl x \<Rightarrow> rv (snd out) = rv g \<or> \<not> is_unprocessable x \<and> (\<exists>i. i \<notin> fst ` set (rv g) \<and> rv (snd out) = rv g @ [(i, body)]))"

definition review_host :: "('g \<Rightarrow> (int \<times> string) list) \<Rightarrow> 'g review_client \<Rightarrow> bool" where
  "review_host rv c \<longleftrightarrow>
     (\<forall>body sha cs g. created_once rv body g (rc_create c body sha cs g))
   \<and> (\<forall>i body g. rv (snd (rc_update c i body g)) = rv g \<or> rv (snd (rc_update c i body g)) = map (\<lambda>(j, b). (j, if j = i then body else b)) (rv g))
   \<and> (\<forall>m g. rv (snd (rc_find c m g)) = rv g \<and> (fst (rc_find c m g) = Inr None \<longrightarrow> marked_ids rv m g = [])
        \<and> (\<forall>i. fst (rc_find c m g) = Inr (Some i) \<longrightarrow> i \<in> set (marked_ids rv m g)))
   \<and> (\<forall>i g. rv (snd (rc_comments c i g)) = rv g)"

lemma review_hostD:
  assumes "review_host rv c"
  shows "created_once rv body g (rc_create c body sha cs g)"
    and "rv (snd (rc_update c i body g)) = rv g \<or> rv (snd (rc_update c i body g)) = map (\<lambda>(j, b). (j, if j = i then body else b)) (rv g)"
    and "rv (snd (rc_find c m g)) = rv g" and "fst (rc_find c m g) = Inr None \<Longrightarrow> marked_ids rv m g = []"
    and "fst (rc_find c m g) = Inr (Some i) \<Longrightarrow> i \<in> set (marked_ids rv m g)" and "rv (snd (rc_comments c i g)) = rv g"
  using assms by (simp_all add: review_host_def)

lemma post_body_marked: "sublist (markerFor (pi_pr_id inp)) (post_body e inp)"
proof -
  have "sublist m (a @ LF @ LF @ m @ LF @ b)" for m a b using sublist_appendI [of m "a @ LF @ LF" "LF @ b"] by simp
  then show ?thesis by (simp only: post_body_def buildReviewBody_def)
qed

lemma marked_ids_append: "rv g' = rv g @ [(i, b)] \<Longrightarrow> sublist m b \<Longrightarrow> marked_ids rv m g' = marked_ids rv m g @ [i]"
  by (simp add: marked_ids_def)

lemma marked_ids_same: "rv g' = rv g \<Longrightarrow> marked_ids rv m g' = marked_ids rv m g"
  by (simp add: marked_ids_def)

lemma marked_ids_update:
  assumes "distinct (map fst (rv g))" and "i \<in> set (marked_ids rv m g)" and "sublist m body"
    and "rv g' = map (\<lambda>(j, b). (j, if j = i then body else b)) (rv g)"
  shows "marked_ids rv m g' = marked_ids rv m g"
proof -
  obtain b0 where b0: "(i, b0) \<in> set (rv g)" "sublist m b0" using assms(2) by (auto simp: marked_ids_def)
  have uniq: "(i, b) \<in> set (rv g) \<Longrightarrow> b = b0" for b using assms(1) b0(1) by (metis map_of_eq_Some_iff option.inject)
  have "filter (\<lambda>(j, b). sublist m (if j = i then body else b)) (rv g) = filter (\<lambda>(j, b). sublist m b) (rv g)"
    using uniq b0(2) assms(3) by (intro filter_cong) auto
  then show ?thesis unfolding marked_ids_def assms(4) by (simp add: filter_map o_def case_prod_unfold)
qed

definition alone :: "'g post_env \<Rightarrow> bool" where
  "alone e \<longleftrightarrow> (\<forall>i s. pe_others e i s = s)"

lemma pr_rows_upd: "keeps_pr f \<Longrightarrow> pr_rows pr (upd_where p f rows) = upd_where p f (pr_rows pr rows)"
  by (induction rows) (auto simp: pr_rows_def upd_where_def keeps_pr_def)

text \<open>Once the signal is aborted no call writes to the host.\<close>

theorem abort_no_write:
  assumes "review_host rv (pe_client e)" and "alone e" and "\<forall>i. pe_aborted e i"
  shows "rv (ps_host (snd (doPost e inp s))) = rv (ps_host s)"
proof -
  have o [simp]: "pe_others e k z = z" for k z using assms(2) by (simp add: alone_def)
  have u: "ps_host (snd (update_rows p f z)) = ps_host z" for p f and z :: "'a post_state" by (simp add: update_rows_def)
  have c: "ps_host (snd (cas_store e inp i ids oc ns z)) = ps_host z" for i ids oc ns z by (simp add: cas_store_def snd_case_sum u)
  have upd: "ps_host (snd (post_update e inp rid age oc stored z)) = ps_host z" for rid age oc stored z
    using assms(3) by (simp add: post_update_def split: option.split)
  have tk: "rv (ps_host (snd (attemptSameRunTakeover e inp z))) = rv (ps_host z)" for z
  proof -
    obtain x g1 where x: "rc_find (pe_client e) (markerFor (pi_pr_id inp)) (ps_host z) = (x, g1)" by force
    have g1: "rv g1 = rv (ps_host z)" using review_hostD(3) [OF assms(1), of "markerFor (pi_pr_id inp)" "ps_host z"] x by simp
    have g2: "rv (snd (rc_comments (pe_client e) i g1)) = rv g1" for i by (rule review_hostD(6) [OF assms(1)])
    show ?thesis using x g1 assms(3) g2
      by (auto simp: attemptSameRunTakeover_def Let_def c split: sum.split option.split prod.split) (metis snd_conv)+
  qed
  have lost: "rv (ps_host (snd (post_lost e inp z))) = rv (ps_host z)" for z
  proof -
    obtain x z1 where x: "attemptSameRunTakeover e inp z = (x, z1)" by force
    then have "rv (ps_host z1) = rv (ps_host z)" using tk [of z] by simp
    then show ?thesis using x by (simp add: post_lost_def Let_def upd split: option.split sum.split takeover.split)
  qed
  obtain x z where x: "claim_post e inp s = (x, z)" by force
  have "ps_host z = ps_host s" using x by (auto simp: claim_post_def split: if_splits sum.splits prod.splits)
  then show ?thesis using x lost [of z] assms(3) by (simp add: doPost_def post_won_def split: sum.split bool.split)
qed

section \<open>What goes wrong\<close>

lemma ladder_creates:
  assumes "review_host rv c" and "\<forall>body sha cs g. \<exists>cr. fst (rc_create c body sha cs g) = Inr cr"
  obtains cr g' where "attemptCreateWithBodyOnlyFallback c body sha payload g = (Inr \<lparr>pa_created = Some cr, pa_inlineSucceeded = True, pa_notes = []\<rparr>, g')"
    "cr_reviewId cr \<notin> fst ` set (rv g)" "rv g' = rv g @ [(cr_reviewId cr, body)]"
proof -
  obtain cr where cr: "fst (rc_create c body sha payload g) = Inr cr" using assms(2) by blast
  then have "attemptCreateWithBodyOnlyFallback c body sha payload g
      = (Inr \<lparr>pa_created = Some cr, pa_inlineSucceeded = True, pa_notes = []\<rparr>, snd (rc_create c body sha payload g))"
    by (cases "rc_create c body sha payload g") (simp add: attemptCreateWithBodyOnlyFallback_def)
  moreover note review_hostD(1) [OF assms(1), of body g sha payload]
  ultimately show ?thesis using that [of cr "snd (rc_create c body sha payload g)"] cr by (simp add: created_once_def)
qed

lemma update_rows_host [simp]: "ps_host (snd (update_rows p f s)) = ps_host s"
  by (simp add: update_rows_def)

text \<open>(C22) A second worker that holds the same run (its lease was taken over while the first one was between its claim and its
  create) takes the first one's empty row for its own: both create a review.\<close>

theorem takeover_double_posts:
  assumes host: "review_host rv c" and c: "pe_client e1 = c" "pe_client e2 = c"
    and creates: "\<forall>body sha cs g. \<exists>cr. fst (rc_create c body sha cs g) = Inr cr" and finds: "\<forall>m g. \<exists>r. fst (rc_find c m g) = Inr r"
    and calm: "\<forall>i. \<not> pe_aborted e1 i \<and> \<not> pe_aborted e2 i \<and> \<not> pe_fault e1 i \<and> \<not> pe_fault e2 i"
    and others: "alone e2" "pe_others e1 1 = (\<lambda>z. snd (doPost e2 inp z))" "\<forall>i z. i \<noteq> 1 \<longrightarrow> pe_others e1 i z = z"
    and tk: "pe_takeover e2" and cap: "length (keptFindings inp) \<le> 50"
    and fresh: "pr_rows (pi_pr_id inp) (ps_rows s) = []" "marked_ids rv (markerFor (pi_pr_id inp)) (ps_host s) = []"
    and guards: "fst (claim_post e1 inp s) = Inr True" "fst (claim_post e2 inp (snd (claim_post e1 inp s))) = Inr False"
  shows "length (marked_ids rv (markerFor (pi_pr_id inp)) (ps_host (snd (doPost e1 inp s)))) = 2"
proof -
  let ?m = "markerFor (pi_pr_id inp)"
  obtain s1 where s1: "claim_post e1 inp s = (Inr True, s1)" using guards(1) by (metis prod.collapse)
  obtain s2 where s2: "claim_post e2 inp s1 = (Inr False, s2)" using guards(2) s1 by (metis prod.collapse snd_conv)
  have rows1: "ps_rows s1 = ps_rows s @ [claim_row (pe_now e1 0) (pi_pr_id inp)]" and h1: "ps_host s1 = ps_host s"
    using s1 by (auto simp: claim_post_def split: if_splits sum.splits prod.splits)
  have rows2: "ps_rows s2 = ps_rows s1" and h2: "ps_host s2 = ps_host s1"
    using s2 by (auto simp: claim_post_def split: if_splits sum.splits prod.splits)
  have row: "first_row (pr_rows (pi_pr_id inp) (ps_rows s2)) = Some (claim_row (pe_now e1 0) (pi_pr_id inp))"
    using fresh(1) rows1 rows2 by (simp add: pr_rows_def claim_row_def first_row_def)
  have o2 [simp]: "pe_others e2 k z = z" for k z using others(1) by (simp add: alone_def)
  obtain r where r: "fst (rc_find c ?m (ps_host s2)) = Inr r" using finds by blast
  have "r = None"
  proof (cases r)
    case (Some i)
    then show ?thesis using review_hostD(5) [OF host, of ?m "ps_host s2" i] r fresh(2) h1 h2 by simp
  qed
  then obtain g1 where find: "rc_find c ?m (ps_host s2) = (Inr None, g1)" using r by (metis prod.collapse)
  have g1: "rv g1 = rv (ps_host s)" using review_hostD(3) [OF host, of ?m "ps_host s2"] find h1 h2 by simp
  obtain cr g4 where l2: "attemptCreateWithBodyOnlyFallback c (post_body e2 inp) (pi_head_sha inp) (inlinePayload inp) g1
      = (Inr \<lparr>pa_created = Some cr, pa_inlineSucceeded = True, pa_notes = []\<rparr>, g4)"
    and g4: "rv g4 = rv g1 @ [(cr_reviewId cr, post_body e2 inp)]"
    by (rule ladder_creates [OF host creates])
  have "ps_host (snd (attemptSameRunTakeover e2 inp s2)) = g4"
    using find l2 calm c by (simp add: attemptSameRunTakeover_def Let_def cas_store_def snd_case_sum)
  moreover obtain x z where xz: "attemptSameRunTakeover e2 inp s2 = (x, z)" by force
  moreover have "ps_host (snd (post_update e2 inp None age oc stored z)) = ps_host z" for age oc stored by (simp add: post_update_def)
  ultimately have "ps_host (snd (doPost e2 inp s1)) = g4 \<or> x = Inr Raced"
    using s2 row calm cap tk by (auto simp: doPost_def post_lost_def Let_def claim_row_def MAX_INLINE_COMMENTS_PER_REVIEW_def
        split: sum.split takeover.split)
  moreover have "x \<noteq> Inr Raced"
  proof -
    have "hits (\<lambda>r. pw_pr_id r = pi_pr_id inp \<and> pw_review_id r = None) (ps_rows s2) \<noteq> 0"
      using rows1 rows2 by (simp add: hits_def claim_row_def)
    then show ?thesis using xz find l2 calm c
      by (auto simp: attemptSameRunTakeover_def Let_def cas_store_def update_rows_def split: if_splits)
  qed
  ultimately have g: "ps_host (snd (doPost e2 inp s1)) = g4" by blast
  obtain cr1 g5 where l1: "attemptCreateWithBodyOnlyFallback c (post_body e1 inp) (pi_head_sha inp) (inlinePayload inp) g4
      = (Inr \<lparr>pa_created = Some cr1, pa_inlineSucceeded = True, pa_notes = []\<rparr>, g5)"
    and g5: "rv g5 = rv g4 @ [(cr_reviewId cr1, post_body e1 inp)]"
    by (rule ladder_creates [OF host creates])
  have "ps_host (snd (doPost e1 inp s)) = g5"
    using s1 l1 g c calm cap others(2,3) by (simp add: doPost_def post_won_def Let_def MAX_INLINE_COMMENTS_PER_REVIEW_def snd_case_sum)
  moreover have "marked_ids rv ?m g4 = [cr_reviewId cr]"
    using marked_ids_append [of rv g4 g1 "cr_reviewId cr" "post_body e2 inp" ?m, OF g4 post_body_marked]
      marked_ids_same [of rv g1 "ps_host s" ?m, OF g1] fresh(2) by simp
  then have "marked_ids rv ?m g5 = [cr_reviewId cr, cr_reviewId cr1]"
    using marked_ids_append [of rv g5 g4 "cr_reviewId cr1" "post_body e1 inp" ?m, OF g5 post_body_marked] by simp
  ultimately show ?thesis by simp
qed

text \<open>(C23) When the comment ids read back are fewer than the comments sent (they come from one page of the listing, GitHub's default is
  thirty), the call fails behind the post: the review stays, the row stays empty, and the dropped findings are not reported.\<close>

theorem partial_comment_ids:
  assumes "alone e" and "\<not> pe_aborted e 0" and "length (keptFindings inp) \<le> 50" and "fst (claim_post e inp s) = Inr True"
    and "rc_create (pe_client e) (post_body e inp) (pi_head_sha inp) (inlinePayload inp) (ps_host s) = (Inr cr, g)"
    and "length (cr_commentIds cr) \<noteq> length (keptFindings inp)"
  shows "fst (doPost e inp s) = Inl (CommentIdsMismatch (length (cr_commentIds cr)) (length (keptFindings inp)))
    \<and> ps_host (snd (doPost e inp s)) = g
    \<and> ps_rows (snd (doPost e inp s)) = ps_rows s @ [claim_row (pe_now e 0) (pi_pr_id inp)]"
proof -
  have o [simp]: "pe_others e k z = z" for k z using assms(1) by (simp add: alone_def)
  obtain s1 where s1: "claim_post e inp s = (Inr True, s1)" using assms(4) by (metis prod.collapse)
  then have "ps_rows s1 = ps_rows s @ [claim_row (pe_now e 0) (pi_pr_id inp)]" "ps_host s1 = ps_host s"
    by (auto simp: claim_post_def split: if_splits sum.splits prod.splits)
  then show ?thesis using s1 assms(2,3,5,6)
    by (simp add: doPost_def post_won_def attemptCreateWithBodyOnlyFallback_def MAX_INLINE_COMMENTS_PER_REVIEW_def Let_def)
qed

text \<open>A takeover whose scan, listing or create fails throws the bare error of the client: what the classifier dropped is lost.\<close>

theorem takeover_failure_loses_state:
  assumes "alone e" and "\<not> pe_fault e 1" and "pe_takeover e" and "length (keptFindings inp) \<le> 50" and "fst (claim_post e inp s) = Inr False"
    and "first_row (pr_rows (pi_pr_id inp) (ps_rows s)) = Some r" and "pw_review_id r = None"
    and "fst (rc_find (pe_client e) (markerFor (pi_pr_id inp)) (ps_host s)) = Inl x"
  shows "fst (doPost e inp s) = Inl (PostGithub x)"
proof -
  have o [simp]: "pe_others e k z = z" for k z using assms(1) by (simp add: alone_def)
  obtain s1 where s1: "claim_post e inp s = (Inr False, s1)" using assms(5) by (metis prod.collapse)
  then have "ps_rows s1 = ps_rows s" "ps_host s1 = ps_host s"
    by (auto simp: claim_post_def split: if_splits sum.splits prod.splits)
  then show ?thesis using s1 assms(2-4,6-8)
    by (cases "rc_find (pe_client e) (markerFor (pi_pr_id inp)) (ps_host s)")
      (simp add: doPost_def post_lost_def attemptSameRunTakeover_def MAX_INLINE_COMMENTS_PER_REVIEW_def Let_def)
qed

lemma json_ints_of [simp]: "json_ints (map (\<lambda>i. JNum (rat_of_int i)) is) = Some is"
  by (induction "is") simp_all

text \<open>A later run over a published row sends no comment. It refreshes the body and answers with the comment ids of the run
  that published, next to the indices of its own findings.\<close>

theorem republish_reuses_comment_ids:
  assumes "alone e" and "\<not> pe_aborted e 2" and "\<not> pe_fault e 1" and "length (keptFindings inp) \<le> 50" and "fst (claim_post e inp s) = Inr False"
    and "first_row (pr_rows (pi_pr_id inp) (ps_rows s)) = Some r" and "pw_review_id r = Some rid" and "row_checks r" and "1 \<le> rid"
    and "pw_comment_ids r = JArr (map (\<lambda>i. JNum (rat_of_int i)) ids)" and "list_all dropped_valid (droppedClassifications inp)"
    and "rc_update (pe_client e) rid (post_body e inp) (ps_host s) = (Inr (), g)"
  shows "fst (doPost e inp s) = Inr \<lparr>po_review_id = Some rid, po_was_update = True, po_inline_comment_count = length (keptFindings inp),
       po_comment_ids = ids, po_kept_finding_indices = keptIndices inp, po_outcome = pw_outcome r, po_degradation_notes = [],
       po_dropped_classifications = droppedClassifications inp\<rparr>
    \<and> ps_host (snd (doPost e inp s)) = g"
proof -
  have o [simp]: "pe_others e k z = z" for k z using assms(1) by (simp add: alone_def)
  obtain s1 where s1: "claim_post e inp s = (Inr False, s1)" using assms(5) by (metis prod.collapse)
  then have s: "ps_rows s1 = ps_rows s" "ps_host s1 = ps_host s"
    by (auto simp: claim_post_def split: if_splits sum.splits prod.splits)
  have "post_lost e inp s1 = (Inr \<lparr>po_review_id = Some rid, po_was_update = True, po_inline_comment_count = length (keptFindings inp),
       po_comment_ids = ids, po_kept_finding_indices = keptIndices inp, po_outcome = pw_outcome r, po_degradation_notes = [],
       po_dropped_classifications = droppedClassifications inp\<rparr>, s1\<lparr>ps_host := g\<rparr>)"
    using s assms(2,3,6-12)
    by (simp add: post_lost_def post_update_def parse_posted_def posted_valid_def row_checks_def parseStoredCommentIds_def inlinePayload_def Let_def)
  then show ?thesis using s1 assms(4) by (simp add: doPost_def MAX_INLINE_COMMENTS_PER_REVIEW_def)
qed

section \<open>A concrete host\<close>

type_synonym demo_reviews = "(int \<times> string \<times> int list) list"

definition fresh_review_id :: "demo_reviews \<Rightarrow> int" where
  "fresh_review_id g = Max (insert 0 (fst ` set g)) + 1"

definition demo_view :: "demo_reviews \<Rightarrow> (int \<times> string) list" where
  "demo_view g = map (\<lambda>(i, b, _). (i, b)) g"

text \<open>It lists at most \<open>page\<close> comments of a review.\<close>

definition demo_client :: "nat \<Rightarrow> demo_reviews review_client" where
  "demo_client page =
     \<lparr>rc_create = (\<lambda>body _ cs g. let ids = map int [1..<Suc (length cs)]
        in (Inr \<lparr>cr_reviewId = fresh_review_id g, cr_commentIds = take page ids\<rparr>, g @ [(fresh_review_id g, body, ids)])),
      rc_update = (\<lambda>i body g. (Inr (), map (\<lambda>(j, b, ids). (j, if j = i then body else b, ids)) g)),
      rc_find = (\<lambda>m g. (Inr (map_option fst (first_row (filter (\<lambda>(i, b, _). sublist m b) g))), g)),
      rc_comments = (\<lambda>i g. (Inr (case map_of (map (\<lambda>(j, b, ids). (j, ids)) g) i of None \<Rightarrow> [] | Some ids \<Rightarrow> take page ids), g))\<rparr>"

lemma fresh_review_id_new: "fresh_review_id g \<notin> fst ` set g"
proof
  assume "fresh_review_id g \<in> fst ` set g"
  then have "fresh_review_id g \<le> Max (insert 0 (fst ` set g))" by (intro Max_ge) auto
  then show False by (simp add: fresh_review_id_def)
qed

lemma demo_host: "review_host demo_view (demo_client page)"
proof -
  have "fst ` set (demo_view g) = fst ` set g" for g by (force simp: demo_view_def)
  then have 1: "created_once demo_view body g (rc_create (demo_client page) body sha cs g)" for body g sha cs
    using fresh_review_id_new [of g] by (simp add: created_once_def demo_client_def Let_def demo_view_def)
  have 2: "demo_view (snd (rc_update (demo_client page) i body g)) = map (\<lambda>(j, b). (j, if j = i then body else b)) (demo_view g)" for i body g
    by (auto simp: demo_client_def demo_view_def)
  have ids: "marked_ids demo_view m g = map fst (filter (\<lambda>(i, b, _). sublist m b) g)" for m g
    by (induction g) (auto simp: marked_ids_def demo_view_def)
  have 3: "fst (rc_find (demo_client page) m g) = Inr None \<Longrightarrow> marked_ids demo_view m g = []" for m g
    by (auto simp: demo_client_def ids first_row_def split: list.splits)
  have 4: "i \<in> set (marked_ids demo_view m g)" if hit: "fst (rc_find (demo_client page) m g) = Inr (Some i)" for m g i
  proof -
    obtain b cs ys where "filter (\<lambda>(i, b, _). sublist m b) g = (i, b, cs) # ys"
      using hit by (auto simp: demo_client_def first_row_def split: list.splits)
    then have "(i, b, cs) \<in> set (filter (\<lambda>(i, b, _). sublist m b) g)" by simp
    then show ?thesis unfolding ids by force
  qed
  show ?thesis using 1 2 3 4 by (simp add: review_host_def demo_client_def)
qed

definition demo_post_env :: "nat \<Rightarrow> (nat \<Rightarrow> bool) \<Rightarrow> demo_reviews post_env" where
  "demo_post_env page faulty = \<lparr>pe_client = demo_client page, pe_now = (\<lambda>_. 0), pe_clk = 0, pe_eid = ''e'', pe_window = 300, pe_takeover = True,
     pe_aborted = (\<lambda>_. False), pe_others = (\<lambda>_ s. s), pe_fault = faulty, pe_web_host = ''github.com''\<rparr>"

lemma demo_post_env_simps [simp]:
  "pe_client (demo_post_env page faulty) = demo_client page" "pe_takeover (demo_post_env page faulty)" "\<not> pe_aborted (demo_post_env page faulty) i"
  "pe_others (demo_post_env page faulty) i s = s" "pe_fault (demo_post_env page faulty) i = faulty i" "pe_now (demo_post_env page faulty) i = 0"
  by (simp_all add: demo_post_env_def)

lemma demo_post_env_alone [simp]: "alone (demo_post_env page faulty)"
  by (simp add: alone_def)

definition demo_line_finding :: "int \<Rightarrow> review_finding" where
  "demo_line_finding line = \<lparr>rf_file = ''a.ts'', rf_start_line = line, rf_end_line = line, rf_severity = ''issue'', rf_category = ''bug'',
     rf_title = ''t'', rf_body = ''b'', rf_suggestion = None, rf_confidence = 1, rf_sources = [], rf_scope = ''chunk_observed'', rf_evidence_refs = []\<rparr>"

definition demo_post_input :: "int list \<Rightarrow> post_input" where
  "demo_post_input lines = \<lparr>pi_findings = map demo_line_finding lines, pi_pr_id = ''p'', pi_head_sha = ''sha'', pi_walkthrough_md = ''w'', pi_owner = ''o'',
     pi_repo_name = ''r'', pi_run_id = ''r1'', pi_review_id = ''v1'', pi_changed = [(''a.ts'', [(1, 9)])]\<rparr>"

lemma demo_post_input_simps [simp]:
  "pi_pr_id (demo_post_input lines) = ''p''" "pi_run_id (demo_post_input lines) = ''r1''" "pi_review_id (demo_post_input lines) = ''v1''"
  by (simp_all add: demo_post_input_def)

lemma demo_classes: "input_classes (demo_post_input lines) = map (\<lambda>l. classify [(''a.ts'', [(1, 9)])] (demo_line_finding l)) lines"
  by (simp add: input_classes_def classifyFindingsAgainstDiff_def demo_post_input_def)

lemma demo_valid: "is_valid (classify [(''a.ts'', [(1, 9)])] (demo_line_finding l)) \<longleftrightarrow> 1 \<le> l \<and> l \<le> 9"
  by (simp add: classify_valid_iff demo_line_finding_def)

definition demo_posting :: "posted_row list \<Rightarrow> demo_reviews \<Rightarrow> demo_reviews post_state" where
  "demo_posting rows g = \<lparr>ps_db = demo_db, ps_rows = rows, ps_host = g\<rparr>"

lemma demo_posting_simps [simp]: "ps_rows (demo_posting rows g) = rows" "ps_host (demo_posting rows g) = g" "ps_db (demo_posting rows g) = demo_db"
  by (simp_all add: demo_posting_def)

lemma demo_guard:
  "transact (\<lambda>db. case assertCurrentRun clk eid ''r1'' ''v1'' site db of (Inl x, _, _) \<Rightarrow> Inl x | (Inr _, _, db1) \<Rightarrow> Inr ((), db1)) demo_db = (Inr (), demo_db)"
  using demo_db_wf by (simp add: transact_def assertCurrentRun_def demo_db_def first_row_def review_wf_def)

lemma demo_claim_post:
  "\<not> faulty 0 \<Longrightarrow> fst (claim_post (demo_post_env page faulty) (demo_post_input lines) (demo_posting rows g)) = Inr (pr_rows ''p'' rows = [])"
  by (simp add: claim_post_def demo_guard)

text \<open>Thirty-one comments, read back from a page of thirty.\<close>

theorem partial_comment_ids_witness:
  "fst (doPost (demo_post_env 30 (\<lambda>_. False)) (demo_post_input (replicate 31 3)) (demo_posting [] [])) = Inl (CommentIdsMismatch 30 31)
    \<and> length (ps_host (snd (doPost (demo_post_env 30 (\<lambda>_. False)) (demo_post_input (replicate 31 3)) (demo_posting [] [])))) = 1"
proof -
  let ?e = "demo_post_env 30 (\<lambda>_. False)" and ?inp = "demo_post_input (replicate 31 3)"
  have k: "length (keptFindings ?inp) = 31" by (simp add: keptFindings_def demo_classes demo_valid filter_map o_def)
  then have n: "length (inlinePayload ?inp) = 31" by (simp add: inlinePayload_def)
  have "fst (claim_post ?e ?inp (demo_posting [] [])) = Inr True" by (simp add: demo_claim_post pr_rows_def)
  moreover have i: "map int [Suc 0..<31] = take 30 (map int [Suc 0..<32])" "map int [Suc 0..<31] @ [31] = map int [Suc 0..<32]"
    by code_simp+
  ultimately show ?thesis using k n partial_comment_ids [OF demo_post_env_alone, where inp = ?inp and s = "demo_posting [] []"
      and cr = "\<lparr>cr_reviewId = 1, cr_commentIds = take 30 (map int [1..<Suc 31])\<rparr>"
      and g = "[(1, post_body ?e ?inp, map int [1..<Suc 31])]"]
    by (simp add: demo_client_def fresh_review_id_def Let_def)
qed

lemma claim_others [simp]: "claim_post (e\<lparr>pe_others := f\<rparr>) inp z = claim_post e inp z"
  by (simp add: claim_post_def split: sum.split prod.split)

theorem takeover_double_posts_witness:
  "length (marked_ids demo_view (markerFor ''p'') (ps_host (snd (doPost
     ((demo_post_env 30 (\<lambda>_. False))\<lparr>pe_others := \<lambda>i z. if i = 1 then snd (doPost (demo_post_env 30 (\<lambda>_. False)) (demo_post_input [3]) z) else z\<rparr>)
     (demo_post_input [3]) (demo_posting [] []))))) = 2"
proof -
  let ?e2 = "demo_post_env 30 (\<lambda>_. False)" and ?inp = "demo_post_input [3]"
  let ?e1 = "?e2\<lparr>pe_others := \<lambda>i z. if i = 1 then snd (doPost ?e2 ?inp z) else z\<rparr>"
  have c1: "claim_post ?e2 ?inp (demo_posting [] []) = (Inr True, demo_posting [claim_row 0 ''p''] [])"
    by (simp add: claim_post_def demo_guard pr_rows_def)
  have "fst (claim_post ?e2 ?inp (demo_posting [claim_row 0 ''p''] [])) = Inr False"
    by (simp add: demo_claim_post pr_rows_def claim_row_def)
  moreover have "length (keptFindings ?inp) \<le> 50" by (simp add: keptFindings_def demo_classes)
  moreover have "\<exists>cr. fst (rc_create (demo_client 30) body sha cs g) = Inr cr" "\<exists>r. fst (rc_find (demo_client 30) m g) = Inr r" for body sha cs g m
    by (simp_all add: demo_client_def Let_def)
  ultimately show ?thesis using c1
    by (intro takeover_double_posts [where c = "demo_client 30" and ?e2.0 = ?e2 and inp = ?inp, OF demo_host, simplified])
      (simp_all add: pr_rows_def marked_ids_def demo_view_def)
qed

definition published_row :: "int list \<Rightarrow> posted_row" where
  "published_row ids = (claim_row 0 ''p'')\<lparr>pw_review_id := Some 1, pw_outcome := Inline_posted, pw_comment_ids := JArr (map (\<lambda>i. JNum (rat_of_int i)) ids)\<rparr>"

theorem republish_reuses_comment_ids_witness:
  "ps_host (snd (doPost (demo_post_env 30 (\<lambda>_. False)) (demo_post_input [4]) (demo_posting [published_row [7]] []))) = []
    \<and> map_sum id po_comment_ids (fst (doPost (demo_post_env 30 (\<lambda>_. False)) (demo_post_input [4]) (demo_posting [published_row [7]] []))) = Inr [7]"
proof -
  let ?e = "demo_post_env 30 (\<lambda>_. False)" and ?inp = "demo_post_input [4]"
  have r: "pr_rows ''p'' [published_row [7]] = [published_row [7]]" by (simp add: pr_rows_def published_row_def claim_row_def)
  have "fst (claim_post ?e ?inp (demo_posting [published_row [7]] [])) = Inr False" by (simp add: demo_claim_post r)
  moreover have "keptFindings ?inp = [demo_line_finding 4]" by (simp add: keptFindings_def demo_classes demo_valid)
  moreover have "droppedClassifications ?inp = []"
    using demo_valid [of 4] by (simp add: droppedClassifications_def demo_classes split: option.split)
  ultimately show ?thesis
    using republish_reuses_comment_ids [of ?e ?inp "demo_posting [published_row [7]] []" "published_row [7]" 1 "[7]" "[]"] r
    by (simp add: first_row_def published_row_def claim_row_def row_checks_def demo_client_def)
qed

end
