(* ===== verification/Delivery.thy ===== *)
theory Delivery
  imports Posting Arbitration Chunks
begin

text \<open>
  What becomes of a finding: its row in \<^verbatim>\<open>core.review_findings\<close> (\<^verbatim>\<open>domain/repos/review_findings_repo.ts\<close>, with the columns
  of the delivery life cycle), the three setters and their activities, the post stage (\<^verbatim>\<open>review/pipeline/posting.ts\<close>), the
  bookkeeping of the shell (\<^verbatim>\<open>runLifecycleBookkeeping\<close>) and the steps of the orchestrator between the aggregate and the
  post that decide what is posted. Of several pairs with one id a join uses any (\<open>dx_pick\<close>). The id of a finding is
  computed for ASCII texts.
\<close>

section \<open>Rows\<close>

record delivery_row = finding_row +
  dw_suggestion :: "string option"
  dw_citations :: "citation list"
  dw_evidence_refs :: "string list"
  dw_policy_metadata :: "rat json"
  dw_eligibility :: "string option"
  dw_reason :: "string option"
  dw_outcome :: "string option"
  dw_comment_id :: "int option"
  dw_posted_pr :: "uuid option"
  dw_updated_at :: "db_time option"

type_synonym delivery_table = "uuid \<rightharpoonup> delivery_row"

text \<open>The CHECKs of the life cycle; a CHECK that is NULL holds.\<close>

definition lifecycle_checks :: "delivery_row \<Rightarrow> bool" where
  "lifecycle_checks r \<longleftrightarrow>
     (dw_outcome r = Some ''inline_delivered'' \<longleftrightarrow> dw_comment_id r \<noteq> None)
   \<and> (dw_eligibility r = None \<or> (dw_outcome r = Some ''not_applicable'' \<longleftrightarrow> dw_eligibility r = Some ''skipped'' \<and> dw_outcome r \<noteq> None))
   \<and> (dw_outcome r = None \<or> dw_eligibility r \<noteq> None)
   \<and> (dw_eligibility r = None \<or> (dw_eligibility r = Some ''skipped'' \<longleftrightarrow> dw_reason r \<noteq> None))
   \<and> \<not> (su_state (fw_suppression r) \<noteq> ''NONE'' \<and> dw_outcome r = Some ''inline_delivered'')
   \<and> (case dw_comment_id r of None \<Rightarrow> True | Some i \<Rightarrow> 1 \<le> i)"

section \<open>Persisting the findings of a run\<close>

definition REVIEW_FINDING_UUID5_NAMESPACE :: "byte list" where
  "REVIEW_FINDING_UUID5_NAMESPACE = [0x8a, 0x8c, 0x9d, 0x11, 0x0a, 0x3e, 0x5e, 0x0f, 0x9b, 0x7e, 0xfc, 0x2c, 0x3a, 0x8d, 0x97, 0x01]"

definition deriveReviewFindingId :: "hashes \<Rightarrow> uuid \<Rightarrow> review_finding \<Rightarrow> uuid" where
  "deriveReviewFindingId H prId f =
     uuid5 H REVIEW_FINDING_UUID5_NAMESPACE (jstr
       (prId @ ''|'' @ rf_file f @ ''|'' @ int_text (rf_start_line f) @ ''|'' @ int_text (rf_end_line f) @ ''|'' @ rf_severity f @ ''|'' @ rf_title f))"

definition no_suppression :: suppression where
  "no_suppression = \<lparr>su_state = ''NONE'', su_reason = None, su_confidence = None, su_model = None, su_prompt_version = None, su_at = None\<rparr>"

text \<open>\<^verbatim>\<open>numeric(4,3)\<close>.\<close>

definition round3 :: "rat \<Rightarrow> rat" where
  "round3 x = of_int \<lfloor>x * 1000 + 1 / 2\<rfloor> / 1000"

definition new_row :: "uuid \<Rightarrow> uuid \<Rightarrow> string \<Rightarrow> rat json \<Rightarrow> review_finding \<Rightarrow> delivery_row" where
  "new_row installationId prId now metadata f =
     \<lparr>fw_installation = installationId, fw_pr = prId, fw_file = rf_file f, fw_start_line = rf_start_line f, fw_end_line = rf_end_line f,
      fw_severity = rf_severity f, fw_category = rf_category f, fw_title = rf_title f, fw_body = rf_body f, fw_confidence = round3 (rf_confidence f),
      fw_scope = rf_scope f, fw_created_at = now, fw_tier = 2, fw_source_tool = None, fw_suppression = no_suppression,
      dw_suggestion = rf_suggestion f, dw_citations = rf_sources f, dw_evidence_refs = rf_evidence_refs f, dw_policy_metadata = metadata,
      dw_eligibility = None, dw_reason = None, dw_outcome = None, dw_comment_id = None, dw_posted_pr = None, dw_updated_at = None\<rparr>"

record persist_args =
  pa_pr :: uuid
  pa_installation :: uuid
  pa_findings :: "review_finding list"
  pa_run :: uuid
  pa_review :: uuid
  pa_metadata :: "rat json option list"

record persist_db =
  pb_review :: review_db
  pb_findings :: delivery_table

definition finding_ids :: "hashes \<Rightarrow> persist_args \<Rightarrow> uuid list" where
  "finding_ids H a = map (deriveReviewFindingId H (pa_pr a)) (pa_findings a)"

definition row_metadata :: "persist_args \<Rightarrow> nat \<Rightarrow> rat json" where
  "row_metadata a i = (if i < length (pa_metadata a) then (case pa_metadata a ! i of None \<Rightarrow> JObj [] | Some m \<Rightarrow> m) else JObj [])"

definition insert_row :: "uuid \<times> delivery_row \<Rightarrow> delivery_table \<Rightarrow> delivery_table" where
  "insert_row x t = (if t (fst x) = None then t(fst x \<mapsto> snd x) else t)"

definition new_rows :: "hashes \<Rightarrow> string \<Rightarrow> persist_args \<Rightarrow> (uuid \<times> delivery_row) list" where
  "new_rows H now a = map (\<lambda>(i, f). (deriveReviewFindingId H (pa_pr a) f, new_row (pa_installation a) (pa_pr a) now (row_metadata a i) f))
     (enumerate 0 (pa_findings a))"

definition persist_site :: string where "persist_site = ''findings_repository.persist_aggregated''"

definition provider_of :: "uuid \<Rightarrow> review_db \<Rightarrow> string" where
  "provider_of reviewId db = (case first_row (filter (\<lambda>rv. review_id rv = reviewId) (reviews db)) of None \<Rightarrow> ''github'' | Some rv \<Rightarrow> provider rv)"

definition persist_body :: "hashes \<Rightarrow> js_date \<Rightarrow> uuid \<Rightarrow> uuid \<Rightarrow> persist_args \<Rightarrow> review_db \<Rightarrow> review_error + unit \<times> review_db" where
  "persist_body H clk e1 e2 a db =
     (case assertCurrentRun clk e1 (pa_run a) (pa_review a) persist_site db of
        (Inl x, _, _) \<Rightarrow> Inl x
      | (Inr _, _, db1) \<Rightarrow>
          if list_ex (\<lambda>ev. ev_run_id ev = pa_run a \<and> event_type ev = ''FINDINGS_PERSISTED'') (workflow_events db1) then Inr ((), db1)
          else (case emitWorkflowEvent clk e2 (provider_of (pa_review a) db1) (pa_run a) (pa_review a) ''FINDINGS_PERSISTED''
                       [(''findings_persisted'', JNum (of_nat (length (pa_findings a))))] None (Some (pa_installation a)) db1 of
                  Inl x \<Rightarrow> Inl x
                | Inr db2 \<Rightarrow> Inr ((), db2)))"

text \<open>\<open>now\<close> is the text of the clock's instant \<open>clk\<close>.\<close>

definition persistAggregated ::
  "hashes \<Rightarrow> js_date \<Rightarrow> string \<Rightarrow> uuid \<Rightarrow> uuid \<Rightarrow> persist_args \<Rightarrow> persist_db \<Rightarrow> (review_error + uuid list) \<times> persist_db" where
  "persistAggregated H clk now e1 e2 a s =
     (case transact (persist_body H clk e1 e2 a) (pb_review s) of
        (Inl x, _) \<Rightarrow> (Inl x, s)
      | (Inr _, db) \<Rightarrow> (Inr (finding_ids H a), s\<lparr>pb_review := db, pb_findings := fold insert_row (new_rows H now a) (pb_findings s)\<rparr>))"

section \<open>The setters\<close>

datatype delivery_error = LengthMismatch nat nat | UnknownEligibilityReason string | BadDegradedOutcome string | DeliveryCheckViolation

definition VALID_ELIGIBILITY_REASONS :: "string list" where
  "VALID_ELIGIBILITY_REASONS =
     [''file_not_in_diff'', ''line_after_last_hunk'', ''line_before_first_hunk'', ''line_spans_hunks'', ''line_in_unchanged_gap'']"

definition DEGRADED_OUTCOMES :: "string list" where
  "DEGRADED_OUTCOMES = [''body_only_fallback'', ''failed'']"

record delivery_env =
  dx_writesEnabled :: bool
  dx_installation :: uuid
  dx_pr :: uuid
  dx_now :: db_time
  dx_pick :: "nat list \<Rightarrow> nat"

text \<open>The row an id is joined with: one of the positions that carry it.\<close>

definition positions :: "uuid list \<Rightarrow> uuid \<Rightarrow> nat list" where
  "positions ids i = filter (\<lambda>k. ids ! k = i) [0..<length ids]"

definition joined :: "delivery_env \<Rightarrow> uuid list \<Rightarrow> uuid \<Rightarrow> nat option" where
  "joined e ids i = (if positions ids i = [] then None else Some (dx_pick e (positions ids i)))"

definition flippable :: "delivery_env \<Rightarrow> delivery_row \<Rightarrow> bool" where
  "flippable e r \<longleftrightarrow> fw_installation r = dx_installation e \<and> dw_outcome r = None \<and> su_state (fw_suppression r) = ''NONE''"

definition flip_one :: "delivery_env \<Rightarrow> uuid list \<Rightarrow> (nat \<Rightarrow> delivery_row \<Rightarrow> delivery_row) \<Rightarrow> uuid \<Rightarrow> delivery_row \<Rightarrow> delivery_row" where
  "flip_one e ids f i r = (case joined e ids i of Some k \<Rightarrow> if flippable e r then f k r else r | None \<Rightarrow> r)"

definition flip_rows ::
  "delivery_env \<Rightarrow> uuid list \<Rightarrow> (nat \<Rightarrow> delivery_row \<Rightarrow> delivery_row) \<Rightarrow> delivery_table \<Rightarrow> (delivery_error + uuid list) \<times> delivery_table" where
  "flip_rows e ids f t =
     (let hit = filter (\<lambda>i. case t i of Some r \<Rightarrow> flippable e r | None \<Rightarrow> False) (remdups ids);
          t' = (\<lambda>i. map_option (flip_one e ids f i) (t i))
      in if list_all (\<lambda>i. case t' i of Some r \<Rightarrow> lifecycle_checks r | None \<Rightarrow> True) hit then (Inr hit, t') else (Inl DeliveryCheckViolation, t))"

definition recordDeliveryFinalized :: "delivery_env \<Rightarrow> uuid list \<Rightarrow> int list \<Rightarrow> delivery_table \<Rightarrow> (delivery_error + uuid list) \<times> delivery_table" where
  "recordDeliveryFinalized e rfids commentIds t =
     (if \<not> dx_writesEnabled e then (Inr [], t)
      else if rfids = [] then (Inr [], t)
      else if length rfids \<noteq> length commentIds then (Inl (LengthMismatch (length rfids) (length commentIds)), t)
      else flip_rows e rfids (\<lambda>k r. r\<lparr>dw_eligibility := Some ''eligible'', dw_outcome := Some ''inline_delivered'', dw_comment_id := Some (commentIds ! k),
             dw_posted_pr := Some (dx_pr e), dw_updated_at := Some (dx_now e)\<rparr>) t)"

definition recordDeliverySkipped :: "delivery_env \<Rightarrow> uuid list \<Rightarrow> string list \<Rightarrow> delivery_table \<Rightarrow> (delivery_error + uuid list) \<times> delivery_table" where
  "recordDeliverySkipped e rfids reasons t =
     (if \<not> dx_writesEnabled e then (Inr [], t)
      else if rfids = [] then (Inr [], t)
      else if length rfids \<noteq> length reasons then (Inl (LengthMismatch (length rfids) (length reasons)), t)
      else case first_row (filter (\<lambda>r. r \<notin> set VALID_ELIGIBILITY_REASONS) reasons) of
        Some r \<Rightarrow> (Inl (UnknownEligibilityReason r), t)
      | None \<Rightarrow> flip_rows e rfids (\<lambda>k r. r\<lparr>dw_eligibility := Some ''skipped'', dw_reason := Some (reasons ! k), dw_outcome := Some ''not_applicable'',
             dw_posted_pr := Some (dx_pr e), dw_updated_at := Some (dx_now e)\<rparr>) t)"

definition recordDeliveryDegraded :: "delivery_env \<Rightarrow> uuid list \<Rightarrow> string \<Rightarrow> delivery_table \<Rightarrow> (delivery_error + uuid list) \<times> delivery_table" where
  "recordDeliveryDegraded e rfids oc t =
     (if oc \<notin> set DEGRADED_OUTCOMES then (Inl (BadDegradedOutcome oc), t)
      else if \<not> dx_writesEnabled e then (Inr [], t)
      else if rfids = [] then (Inr [], t)
      else flip_rows e rfids (\<lambda>k r. r\<lparr>dw_eligibility := Some ''eligible'', dw_outcome := Some oc, dw_posted_pr := Some (dx_pr e),
             dw_updated_at := Some (dx_now e)\<rparr>) t)"

datatype setter_call = Finalize "uuid list" "int list" | Skip "uuid list" "string list" | Degrade "uuid list" string

fun run_setter :: "delivery_env \<Rightarrow> setter_call \<Rightarrow> delivery_table \<Rightarrow> (delivery_error + uuid list) \<times> delivery_table" where
  "run_setter e (Finalize rfids ids) t = recordDeliveryFinalized e rfids ids t"
| "run_setter e (Skip rfids reasons) t = recordDeliverySkipped e rfids reasons t"
| "run_setter e (Degrade rfids oc) t = recordDeliveryDegraded e rfids oc t"

text \<open>Every call is caught.\<close>

definition run_setters :: "delivery_env \<Rightarrow> setter_call list \<Rightarrow> delivery_table \<Rightarrow> delivery_table" where
  "run_setters e cs t = fold (\<lambda>c t. snd (run_setter e c t)) cs t"

section \<open>The post stage and the bookkeeping\<close>

record post_capture =
  pc_comment_ids :: "int list"
  pc_pr_id :: "uuid option"
  pc_kept :: "nat list"
  pc_outcome :: "publication_outcome option"
  pc_dropped :: "dropped_classification list"

definition makePostReviewCapture :: post_capture where
  "makePostReviewCapture = \<lparr>pc_comment_ids = [], pc_pr_id = None, pc_kept = [], pc_outcome = None, pc_dropped = []\<rparr>"

definition captureFromPostedReview :: "uuid \<Rightarrow> posted_review \<Rightarrow> post_capture" where
  "captureFromPostedReview prId p = \<lparr>pc_comment_ids = po_comment_ids p, pc_pr_id = Some prId, pc_kept = po_kept_finding_indices p,
     pc_outcome = Some (po_outcome p), pc_dropped = po_dropped_classifications p\<rparr>"

definition extractDroppedStateFromPostFailure :: "post_error \<Rightarrow> dropped_state option" where
  "extractDroppedStateFromPostFailure x = (case x of PostFailed _ d _ \<Rightarrow> Some d | _ \<Rightarrow> None)"

definition dispatchInlineSkippedLifecycle :: "uuid list \<Rightarrow> dropped_state \<Rightarrow> setter_call list" where
  "dispatchInlineSkippedLifecycle rfids d =
     (let pairs = filter (\<lambda>x. dc_index x < length rfids) (ds_dropped d)
      in if pairs = [] then [] else [Skip (map (\<lambda>x. rfids ! dc_index x) pairs) (map dc_reason pairs)])"

text \<open>The capture, or the error, and the setter that was called.\<close>

definition post_stage :: "uuid list \<Rightarrow> uuid \<Rightarrow> post_error + posted_review \<Rightarrow> (post_error + post_capture) \<times> setter_call list" where
  "post_stage rfids prId out =
     (case out of
        Inr p \<Rightarrow> (Inr (captureFromPostedReview prId p), [])
      | Inl x \<Rightarrow> (Inl x, case extractDroppedStateFromPostFailure x of None \<Rightarrow> [] | Some d \<Rightarrow> dispatchInlineSkippedLifecycle rfids d))"

definition resolveDegradedPayload :: "publication_outcome option \<Rightarrow> uuid list \<Rightarrow> uuid list \<times> string option" where
  "resolveDegradedPayload oc keptRfids =
     (case oc of
        Some Body_only_posted \<Rightarrow> (keptRfids, Some ''body_only_fallback'')
      | Some Degraded_unposted \<Rightarrow> (keptRfids, Some ''failed'')
      | _ \<Rightarrow> ([], None))"

definition kept_rfids :: "uuid list \<Rightarrow> post_capture \<Rightarrow> uuid list" where
  "kept_rfids rfids c =
     (if 0 < length rfids \<and> pc_kept c \<noteq> [] \<and> Max (set (pc_kept c)) < length rfids then map ((!) rfids) (pc_kept c) else [])"

definition skipped_of :: "uuid list \<Rightarrow> post_capture \<Rightarrow> dropped_classification list" where
  "skipped_of rfids c =
     (if 0 < length rfids \<and> pc_dropped c \<noteq> [] \<and> Max (set (map dc_index (pc_dropped c))) < length rfids then pc_dropped c else [])"

definition runLifecycleBookkeeping :: "uuid list \<Rightarrow> post_capture \<Rightarrow> setter_call list" where
  "runLifecycleBookkeeping rfids c =
     (let kept = kept_rfids rfids c; skipped = skipped_of rfids c; (flips, oc) = resolveDegradedPayload (pc_outcome c) kept in
      (if kept \<noteq> [] \<and> pc_pr_id c \<noteq> None \<and> pc_outcome c = Some Inline_posted \<and> length kept = length (pc_comment_ids c)
       then [Finalize kept (pc_comment_ids c)] else [])
      @ (if skipped \<noteq> [] \<and> pc_pr_id c \<noteq> None then [Skip (map (\<lambda>d. rfids ! dc_index d) skipped) (map dc_reason skipped)] else [])
      @ (case oc of None \<Rightarrow> [] | Some v \<Rightarrow> if flips \<noteq> [] \<and> pc_pr_id c \<noteq> None then [Degrade flips v] else []))"

section \<open>From the aggregate to the post\<close>

definition MAX_INLINE_FINDINGS :: nat where "MAX_INLINE_FINDINGS = 250"

datatype config_status = Config_absent | Config_valid | Config_malformed

definition CONFIG_YAML_PATH :: string where "CONFIG_YAML_PATH = ''.codemaster.yaml''"

definition config_finding :: "string \<Rightarrow> string \<Rightarrow> review_finding" where
  "config_finding title body = \<lparr>rf_file = CONFIG_YAML_PATH, rf_start_line = 1, rf_end_line = 1, rf_severity = ''suggestion'', rf_category = ''config'',
     rf_title = title, rf_body = body, rf_suggestion = None, rf_confidence = 99 / 100, rf_sources = [], rf_scope = ''chunk_observed'', rf_evidence_refs = []\<rparr>"

definition configChangeNoticeFinding :: review_finding where
  "configChangeNoticeFinding = config_finding ''codemaster: this PR modifies .codemaster.yaml''
     ''This PR modifies `.codemaster.yaml` (review settings). Confirm the change is intended; settings in this file affect how codemaster reviews this and future PRs.''"

definition MALFORMED_CONFIG_TITLE :: string where
  "MALFORMED_CONFIG_TITLE = ''codemaster: .codemaster.yaml is malformed and was ignored''"

definition malformedConfigNoticeFinding :: review_finding where
  "malformedConfigNoticeFinding = config_finding MALFORMED_CONFIG_TITLE
     (''Your `.codemaster.yaml` could not be parsed or validated, so codemaster ignored it and reviewed this PR with the defaults. ''
      @ ''Any opt-outs, path filters, or thresholds in the file are NOT currently in effect '' @ em_dash @ '' fix the file to restore them.'')"

definition has_notice :: "string \<Rightarrow> review_finding list \<Rightarrow> bool" where
  "has_notice title findings \<longleftrightarrow> list_ex (\<lambda>f. rf_file f = CONFIG_YAML_PATH \<and> rf_category f = ''config'' \<and> rf_title f = title) findings"

definition maybeAppendConfigNotice :: "string list \<Rightarrow> aggregated_findings \<Rightarrow> aggregated_findings" where
  "maybeAppendConfigNotice changedPaths a =
     (if CONFIG_YAML_PATH \<notin> set changedPaths then a
      else if has_notice (rf_title configChangeNoticeFinding) (ag_findings a) then a
      else a\<lparr>ag_findings := ag_findings a @ [configChangeNoticeFinding]\<rparr>)"

definition maybeAppendMalformedConfigNotice :: "config_status \<Rightarrow> aggregated_findings \<Rightarrow> aggregated_findings" where
  "maybeAppendMalformedConfigNotice status a =
     (if status \<noteq> Config_malformed then a
      else if has_notice MALFORMED_CONFIG_TITLE (ag_findings a) then a
      else a\<lparr>ag_findings := ag_findings a @ [malformedConfigNoticeFinding]\<rparr>)"

text \<open>Steps 7 to 7.1 of the orchestrator: the answer of the aggregate activity or, when it threw, the deduplicated findings; the
  cap; the notices.\<close>

definition aggregate_step :: "aggregated_findings option \<Rightarrow> review_finding list \<Rightarrow> int \<Rightarrow> string list \<Rightarrow> config_status \<Rightarrow> aggregated_findings" where
  "aggregate_step answer deduped policyRevision changedPaths status =
     (let a = (case answer of Some a \<Rightarrow> a
                | None \<Rightarrow> \<lparr>ag_findings = deduped, ag_stats = \<lparr>ds_input_count = length deduped, ds_exact_dropped = 0, ds_semantic_merged = 0,
                    ds_capped = 0, ds_semantic_skipped = False\<rparr>, ag_policy_revision = policyRevision\<rparr>);
          capped = (if MAX_INLINE_FINDINGS < length (ag_findings a) then a\<lparr>ag_findings := take MAX_INLINE_FINDINGS (ag_findings a)\<rparr> else a)
      in maybeAppendMalformedConfigNotice status (maybeAppendConfigNotice changedPaths capped))"

section \<open>One setter\<close>

lemma flip_rows_snd: "snd (flip_rows e ids f t) = t \<or> snd (flip_rows e ids f t) = (\<lambda>i. map_option (flip_one e ids f i) (t i))"
  by (simp add: flip_rows_def Let_def)

lemma flip_rows_final: "t i = Some r \<Longrightarrow> dw_outcome r \<noteq> None \<Longrightarrow> snd (flip_rows e ids f t) i = Some r"
  using flip_rows_snd [of e ids f t] by (auto simp: flip_one_def flippable_def split: option.split)

lemma run_setter_final: "t i = Some r \<Longrightarrow> dw_outcome r \<noteq> None \<Longrightarrow> snd (run_setter e c t) i = Some r"
  by (cases c) (simp_all add: recordDeliveryFinalized_def recordDeliverySkipped_def recordDeliveryDegraded_def flip_rows_final split: option.split)

text \<open>A finding that has an outcome keeps it, with its comment, whatever setters run afterwards, in whatever order and for whatever
  run.\<close>

theorem delivery_final:
  assumes "t i = Some r" and "dw_outcome r \<noteq> None"
  shows "fold (\<lambda>(e, cs) t. run_setters e cs t) calls t i = Some r"
proof -
  have one: "run_setters e cs t i = Some r" if "t i = Some r" for e cs t
    using that by (induction cs arbitrary: t) (simp_all add: run_setters_def run_setter_final assms(2))
  show ?thesis using assms(1) by (induction calls arbitrary: t) (auto simp: one)
qed

text \<open>A flip of clean rows: every id of the batch ends with its own values.\<close>

definition honest_pick :: "delivery_env \<Rightarrow> bool" where
  "honest_pick e \<longleftrightarrow> (\<forall>ks. ks \<noteq> [] \<longrightarrow> dx_pick e ks \<in> set ks)"

lemma set_positions: "set (positions ids i) = {k. k < length ids \<and> ids ! k = i}"
  by (auto simp: positions_def)

lemma joined_Some: "honest_pick e \<Longrightarrow> joined e ids i = Some k \<Longrightarrow> k < length ids \<and> ids ! k = i"
  using set_positions [of ids i] by (auto simp: joined_def honest_pick_def split: if_splits)

lemma positions_empty: "positions ids i = [] \<longleftrightarrow> i \<notin> set ids"
  by (auto simp: positions_def filter_empty_conv in_set_conv_nth)

lemma joined_None: "i \<notin> set ids \<Longrightarrow> joined e ids i = None"
  by (simp add: joined_def positions_empty)

lemma joined_ex: "i \<in> set ids \<Longrightarrow> \<exists>k. joined e ids i = Some k"
  by (simp add: joined_def positions_empty)

lemma joined_distinct: "honest_pick e \<Longrightarrow> distinct ids \<Longrightarrow> k < length ids \<Longrightarrow> joined e ids (ids ! k) = Some k"
  using joined_ex [of "ids ! k" ids e] joined_Some [of e ids "ids ! k"] nth_eq_iff_index_eq [of ids _ k] by fastforce

lemma flip_rows_all:
  assumes "honest_pick e" and ok: "\<And>k r. k < length ids \<Longrightarrow> t (ids ! k) = Some r \<Longrightarrow> flippable e r \<Longrightarrow> lifecycle_checks (f k r)"
  shows "snd (flip_rows e ids f t) = (\<lambda>i. map_option (flip_one e ids f i) (t i))"
proof -
  have one: "lifecycle_checks (flip_one e ids f i r)" if i: "i \<in> set ids" "t i = Some r" "flippable e r" for i r
  proof -
    obtain k where k: "joined e ids i = Some k" using joined_ex i(1) by blast
    then show ?thesis using joined_Some [OF assms(1) k] ok [of k r] i by (simp add: flip_one_def)
  qed
  have "list_all (\<lambda>i. case map_option (flip_one e ids f i) (t i) of Some r \<Rightarrow> lifecycle_checks r | None \<Rightarrow> True)
      (filter (\<lambda>i. case t i of Some r \<Rightarrow> flippable e r | None \<Rightarrow> False) (remdups ids))"
    using one by (force simp: list_all_iff split: option.splits)
  then show ?thesis by (simp add: flip_rows_def Let_def)
qed

text \<open>A row as it was inserted.\<close>

definition undelivered :: "delivery_env \<Rightarrow> delivery_row \<Rightarrow> bool" where
  "undelivered e r \<longleftrightarrow> flippable e r \<and> dw_eligibility r = None \<and> dw_reason r = None \<and> dw_comment_id r = None"

lemma finalized_row:
  assumes "dx_writesEnabled e" and "honest_pick e" and "distinct ids" and "length ids = length cids" and "k < length ids"
    and rows: "\<And>i. i \<in> set ids \<Longrightarrow> \<exists>r. t i = Some r \<and> undelivered e r" and "\<And>c. c \<in> set cids \<Longrightarrow> 1 \<le> c"
  shows "snd (recordDeliveryFinalized e ids cids t) (ids ! k)
    = map_option (\<lambda>r. r\<lparr>dw_eligibility := Some ''eligible'', dw_outcome := Some ''inline_delivered'', dw_comment_id := Some (cids ! k),
        dw_posted_pr := Some (dx_pr e), dw_updated_at := Some (dx_now e)\<rparr>) (t (ids ! k))"
proof -
  let ?f = "\<lambda>k r. r\<lparr>dw_eligibility := Some ''eligible'', dw_outcome := Some ''inline_delivered'', dw_comment_id := Some (cids ! k),
        dw_posted_pr := Some (dx_pr e), dw_updated_at := Some (dx_now e)\<rparr>"
  have ne: "ids \<noteq> []" using assms(5) by auto
  have "lifecycle_checks (?f j r)" if "j < length ids" "t (ids ! j) = Some r" "flippable e r" for j r
  proof -
    have "undelivered e r" using rows [of "ids ! j"] that by auto
    then show ?thesis using assms(4,7) that(1) by (auto simp: lifecycle_checks_def undelivered_def flippable_def)
  qed
  then have "snd (flip_rows e ids ?f t) = (\<lambda>i. map_option (flip_one e ids ?f i) (t i))" by (rule flip_rows_all [OF assms(2)])
  moreover obtain r where "t (ids ! k) = Some r" "undelivered e r" using rows [of "ids ! k"] assms(5) by auto
  ultimately show ?thesis using assms ne joined_distinct [OF assms(2,3,5)]
    by (simp add: recordDeliveryFinalized_def flip_one_def undelivered_def)
qed

lemma skipped_row:
  assumes "dx_writesEnabled e" and "honest_pick e" and "distinct ids" and "length ids = length reasons" and "k < length ids"
    and rows: "\<And>i. i \<in> set ids \<Longrightarrow> \<exists>r. t i = Some r \<and> undelivered e r" and reasons: "set reasons \<subseteq> set VALID_ELIGIBILITY_REASONS"
  shows "snd (recordDeliverySkipped e ids reasons t) (ids ! k)
    = map_option (\<lambda>r. r\<lparr>dw_eligibility := Some ''skipped'', dw_reason := Some (reasons ! k), dw_outcome := Some ''not_applicable'',
        dw_posted_pr := Some (dx_pr e), dw_updated_at := Some (dx_now e)\<rparr>) (t (ids ! k))"
proof -
  let ?f = "\<lambda>k r. r\<lparr>dw_eligibility := Some ''skipped'', dw_reason := Some (reasons ! k), dw_outcome := Some ''not_applicable'',
        dw_posted_pr := Some (dx_pr e), dw_updated_at := Some (dx_now e)\<rparr>"
  have ne: "ids \<noteq> []" using assms(5) by auto
  have "filter (\<lambda>r. r \<notin> set VALID_ELIGIBILITY_REASONS) reasons = []" using reasons by (auto simp: filter_empty_conv)
  then have known: "first_row (filter (\<lambda>r. r \<notin> set VALID_ELIGIBILITY_REASONS) reasons) = None" by (simp add: first_row_def)
  have "lifecycle_checks (?f j r)" if "j < length ids" "t (ids ! j) = Some r" "flippable e r" for j r
  proof -
    have "undelivered e r" using rows [of "ids ! j"] that by auto
    then show ?thesis by (auto simp: lifecycle_checks_def undelivered_def flippable_def)
  qed
  then have "snd (flip_rows e ids ?f t) = (\<lambda>i. map_option (flip_one e ids ?f i) (t i))" by (rule flip_rows_all [OF assms(2)])
  moreover obtain r where "t (ids ! k) = Some r" "undelivered e r" using rows [of "ids ! k"] assms(5) by auto
  ultimately show ?thesis using assms(1,4) ne known joined_distinct [OF assms(2,3,5)]
    by (simp add: recordDeliverySkipped_def flip_one_def undelivered_def)
qed

lemma flip_rows_other: "i \<notin> set ids \<Longrightarrow> snd (flip_rows e ids f t) i = t i"
  using flip_rows_snd [of e ids f t] by (cases "t i") (auto simp: flip_one_def joined_None)

lemma finalized_other: "i \<notin> set ids \<Longrightarrow> snd (recordDeliveryFinalized e ids cids t) i = t i"
  by (simp add: recordDeliveryFinalized_def flip_rows_other)

lemma skipped_other: "i \<notin> set ids \<Longrightarrow> snd (recordDeliverySkipped e ids reasons t) i = t i"
  by (simp add: recordDeliverySkipped_def flip_rows_other split: option.split)

section \<open>What was posted and what the table says\<close>

lemma dropped_reasons: "set (map dc_reason (droppedClassifications inp)) \<subseteq> set VALID_ELIGIBILITY_REASONS"
proof
  fix reason assume "reason \<in> set (map dc_reason (droppedClassifications inp))"
  then obtain d where d: "d \<in> set (droppedClassifications inp)" "reason = dc_reason d" by auto
  then have "cl_dropReason (classify (pi_changed inp) (pi_findings inp ! dc_index d)) = Some reason" by (simp add: dropped_iff)
  then show "reason \<in> set VALID_ELIGIBILITY_REASONS"
    by (auto simp: classify_def classifyDropReason_def VALID_ELIGIBILITY_REASONS_def DROP_FILE_NOT_IN_DIFF_def DROP_LINE_AFTER_LAST_HUNK_def
        DROP_LINE_BEFORE_FIRST_HUNK_def DROP_LINE_SPANS_HUNKS_def DROP_LINE_IN_UNCHANGED_GAP_def split: option.splits if_splits)
qed

text \<open>Every answer of a post carries the split of its own findings.\<close>

lemma parse_posted_Inr: "parse_posted p = Inr q \<Longrightarrow> q = p"
  by (simp add: parse_posted_def split: if_splits)

lemma doPost_indices:
  assumes "fst (doPost e inp s) = Inr p"
  shows "po_kept_finding_indices p = keptIndices inp \<and> po_dropped_classifications p = droppedClassifications inp"
proof -
  have upd: "fst (post_update e inp rid age oc stored z) = Inr p \<Longrightarrow> ?thesis" for rid age oc stored z
    by (auto simp: post_update_def Let_def degraded_review_def dest!: parse_posted_Inr split: option.splits if_splits sum.splits prod.splits)
  have lost: "fst (post_lost e inp z) = Inr p \<Longrightarrow> ?thesis" for z
    by (auto simp: post_lost_def Let_def degraded_review_def dest!: parse_posted_Inr dest: upd split: option.splits if_splits sum.splits prod.splits takeover.splits)
  have won: "fst (post_won e inp z) = Inr p \<Longrightarrow> ?thesis" for z
    by (auto simp: post_won_def Let_def degraded_review_def dest!: parse_posted_Inr split: option.splits if_splits sum.splits prod.splits)
  show ?thesis using assms lost won by (auto simp: doPost_def split: if_splits sum.splits prod.splits bool.splits)
qed

lemma keptIndices_less: "i \<in> set (keptIndices inp) \<Longrightarrow> i < length (pi_findings inp)"
  by (simp add: keptIndices_iff)

lemma distinct_keptIndices: "distinct (keptIndices inp)"
  by (simp add: keptIndices_upt)

lemma distinct_picks: "distinct rfids \<Longrightarrow> distinct ns \<Longrightarrow> set ns \<subseteq> {..<length rfids} \<Longrightarrow> distinct (map ((!) rfids) ns)"
  by (auto simp: distinct_map inj_on_def nth_eq_iff_index_eq subset_iff)

text \<open>The rows after the bookkeeping of an inline post, for any list of comment ids of the right length.\<close>

lemma bookkeeping_rows:
  fixes prId :: uuid
  assumes env: "dx_writesEnabled d" "honest_pick d" and rf: "distinct rfids" "length rfids = length (pi_findings inp)"
    and rows: "\<And>i. i \<in> set rfids \<Longrightarrow> \<exists>r. t i = Some r \<and> undelivered d r"
    and p: "po_kept_finding_indices p = keptIndices inp" "po_dropped_classifications p = droppedClassifications inp" "po_outcome p = Inline_posted"
    and ids: "length (po_comment_ids p) = length (keptIndices inp)" "\<And>c. c \<in> set (po_comment_ids p) \<Longrightarrow> 1 \<le> c"
  defines "t' \<equiv> run_setters d (runLifecycleBookkeeping rfids (captureFromPostedReview prId p)) t"
  shows "k < length (keptIndices inp) \<Longrightarrow> \<exists>r. t' (rfids ! (keptIndices inp ! k)) = Some r \<and> dw_outcome r = Some ''inline_delivered''
      \<and> dw_comment_id r = Some (po_comment_ids p ! k)"
    and "x \<in> set (droppedClassifications inp) \<Longrightarrow> \<exists>r. t' (rfids ! dc_index x) = Some r \<and> dw_outcome r = Some ''not_applicable'' \<and> dw_reason r = Some (dc_reason x)"
proof -
  let ?c = "captureFromPostedReview prId p" and ?K = "keptIndices inp" and ?D = "droppedClassifications inp"
  let ?kept = "map ((!) rfids) ?K" and ?skip = "map (\<lambda>d. rfids ! dc_index d) ?D"
  have K: "set ?K \<subseteq> {..<length rfids}" using rf(2) keptIndices_less by auto
  have D: "set (map dc_index ?D) \<subseteq> {..<length rfids}" using rf(2) by (auto simp: dropped_iff)
  have dk: "distinct ?kept" using distinct_picks [OF rf(1) distinct_keptIndices K] .
  have "distinct (map ((!) rfids) (map dc_index ?D))" using D by (intro distinct_picks [OF rf(1)]) (simp_all only: dropped_indices distinct_filter distinct_upt)
  then have ds: "distinct ?skip" by (simp add: o_def)
  have apart: "set ?kept \<inter> set ?skip = {}"
  proof -
    have "i \<noteq> dc_index x" if "i \<in> set ?K" "x \<in> set ?D" for i x using that by (auto simp: keptIndices_iff dropped_iff)
    then show ?thesis using K D rf(1) by (auto simp: nth_eq_iff_index_eq subset_iff)
  qed
  have kr: "kept_rfids rfids ?c = ?kept"
  proof (cases "?K = []")
    case False
    then have "Max (set ?K) < length rfids" using K by (simp add: subset_iff)
    then show ?thesis using False K by (auto simp: kept_rfids_def captureFromPostedReview_def p)
  qed (simp add: kept_rfids_def captureFromPostedReview_def p)
  have sk: "skipped_of rfids ?c = ?D"
  proof (cases "?D = []")
    case False
    then have "Max (set (map dc_index ?D)) < length rfids" using D by (subst Max_less_iff) (auto simp: subset_iff)
    then show ?thesis using False by (auto simp: skipped_of_def captureFromPostedReview_def p)
  qed (simp add: skipped_of_def captureFromPostedReview_def p)
  have calls: "runLifecycleBookkeeping rfids ?c = (if ?K \<noteq> [] then [Finalize ?kept (po_comment_ids p)] else []) @ (if ?D \<noteq> [] then [Skip ?skip (map dc_reason ?D)] else [])"
    using ids(1) by (simp add: runLifecycleBookkeeping_def Let_def kr sk resolveDegradedPayload_def) (simp add: captureFromPostedReview_def p)
  obtain t1 where t1: "t1 = (if ?K \<noteq> [] then snd (recordDeliveryFinalized d ?kept (po_comment_ids p) t) else t)" by simp
  have t': "t' = (if ?D \<noteq> [] then snd (recordDeliverySkipped d ?skip (map dc_reason ?D) t1) else t1)"
    unfolding t'_def calls t1 by (simp add: run_setters_def)
  have kept_rows: "\<exists>r. t i = Some r \<and> undelivered d r" if "i \<in> set ?kept" for i using rows that K by (auto simp: subset_iff)
  have skip_rows: "\<exists>r. t1 i = Some r \<and> undelivered d r" if "i \<in> set ?skip" for i
  proof -
    have "i \<notin> set ?kept" using that apart by blast
    moreover have "i \<in> set rfids" using that D by (auto simp: subset_iff)
    ultimately show ?thesis using rows [of i] finalized_other [of i ?kept d "po_comment_ids p" t] by (simp add: t1)
  qed
  show "\<exists>r. t' (rfids ! (?K ! k)) = Some r \<and> dw_outcome r = Some ''inline_delivered'' \<and> dw_comment_id r = Some (po_comment_ids p ! k)"
    if k: "k < length ?K"
  proof -
    have i: "?kept ! k = rfids ! (?K ! k)" "?kept ! k \<in> set ?kept" "?K \<noteq> []" using k by auto
    obtain r where r: "t (?kept ! k) = Some r" using kept_rows i(2) by blast
    have "t1 (?kept ! k) = map_option (\<lambda>r. r\<lparr>dw_eligibility := Some ''eligible'', dw_outcome := Some ''inline_delivered'', dw_comment_id := Some (po_comment_ids p ! k),
        dw_posted_pr := Some (dx_pr d), dw_updated_at := Some (dx_now d)\<rparr>) (t (?kept ! k))"
      using finalized_row [OF env dk, of "po_comment_ids p" k t] kept_rows ids k i(3) by (simp add: t1)
    moreover have "?kept ! k \<notin> set ?skip" using i(2) apart by blast
    then have "t' (?kept ! k) = t1 (?kept ! k)" unfolding t' using skipped_other [of "?kept ! k" ?skip d "map dc_reason ?D" t1] by simp
    ultimately show ?thesis using r i(1) by simp
  qed
  show "\<exists>r. t' (rfids ! dc_index x) = Some r \<and> dw_outcome r = Some ''not_applicable'' \<and> dw_reason r = Some (dc_reason x)" if x: "x \<in> set ?D"
  proof -
    obtain j where j: "j < length ?D" "x = ?D ! j" using x by (metis in_set_conv_nth)
    have ne: "?D \<noteq> []" using x by auto
    have i: "?skip ! j = rfids ! dc_index x" using j by simp
    have i2: "?skip ! j \<in> set ?skip" using j(1) by (intro nth_mem) simp
    obtain r where r: "t1 (?skip ! j) = Some r" using skip_rows i2 by blast
    have "t' (?skip ! j) = map_option (\<lambda>r. r\<lparr>dw_eligibility := Some ''skipped'', dw_reason := Some (map dc_reason ?D ! j), dw_outcome := Some ''not_applicable'',
        dw_posted_pr := Some (dx_pr d), dw_updated_at := Some (dx_now d)\<rparr>) (t1 (?skip ! j))"
      unfolding t' if_P [OF ne] using skip_rows dropped_reasons j(1) by (intro skipped_row [OF env ds]) simp_all
    then show ?thesis using r i j by simp
  qed
qed

text \<open>(C24) A first post with inline comments: behind the bookkeeping every kept finding carries its own comment and every other one the
  reason of the classifier.\<close>

theorem delivered_as_posted:
  assumes "fst (doPost e inp s) = Inr p" and "po_outcome p = Inline_posted"
    and "length (po_comment_ids p) = length (keptIndices inp)" and "\<forall>c\<in>set (po_comment_ids p). 1 \<le> c"
    and "dx_writesEnabled d" and "honest_pick d" and "distinct rfids" and "length rfids = length (pi_findings inp)"
    and "\<forall>i\<in>set rfids. \<exists>r. t i = Some r \<and> undelivered d r"
    and "t' = run_setters d (runLifecycleBookkeeping rfids (captureFromPostedReview (pi_pr_id inp) p)) t"
  shows "(\<forall>k<length (keptIndices inp). \<exists>r. t' (rfids ! (keptIndices inp ! k)) = Some r \<and> dw_outcome r = Some ''inline_delivered''
        \<and> dw_comment_id r = Some (po_comment_ids p ! k))
    \<and> (\<forall>x\<in>set (droppedClassifications inp). \<exists>r. t' (rfids ! dc_index x) = Some r \<and> dw_outcome r = Some ''not_applicable''
        \<and> dw_reason r = Some (dc_reason x))"
  using bookkeeping_rows [of d rfids inp t p _ "pi_pr_id inp"] doPost_indices [OF assms(1)] assms(2-10) by simp

text \<open>(C25) A later run on a published pull request: its findings are entered as delivered with the comments of the run before, while
  the host has only got a new body.\<close>

theorem later_run_claims_old_comments:
  assumes "alone e" and "\<not> pe_aborted e 2" and "\<not> pe_fault e 1" and "length (keptFindings inp) \<le> 50" and "fst (claim_post e inp s) = Inr False"
    and "first_row (pr_rows (pi_pr_id inp) (ps_rows s)) = Some r" and "pw_review_id r = Some rid" and "row_checks r" and "1 \<le> rid"
    and "pw_comment_ids r = JArr (map (\<lambda>i. JNum (rat_of_int i)) ids)" and "pw_outcome r = Inline_posted"
    and "list_all dropped_valid (droppedClassifications inp)"
    and "rc_update (pe_client e) rid (post_body e inp) (ps_host s) = (Inr (), g)"
    and "length ids = length (keptIndices inp)" and "\<forall>c\<in>set ids. 1 \<le> c"
    and "dx_writesEnabled d" and "honest_pick d" and "distinct rfids" and "length rfids = length (pi_findings inp)"
    and "\<forall>i\<in>set rfids. \<exists>r. t i = Some r \<and> undelivered d r" and "k < length ids"
  shows "\<exists>p row. fst (doPost e inp s) = Inr p \<and> ps_host (snd (doPost e inp s)) = g
    \<and> run_setters d (runLifecycleBookkeeping rfids (captureFromPostedReview (pi_pr_id inp) p)) t (rfids ! (keptIndices inp ! k)) = Some row
    \<and> dw_outcome row = Some ''inline_delivered'' \<and> dw_comment_id row = Some (ids ! k)"
proof -
  let ?p = "\<lparr>po_review_id = Some rid, po_was_update = True, po_inline_comment_count = length (keptFindings inp),
       po_comment_ids = ids, po_kept_finding_indices = keptIndices inp, po_outcome = pw_outcome r, po_degradation_notes = [],
       po_dropped_classifications = droppedClassifications inp\<rparr>"
  have post: "fst (doPost e inp s) = Inr ?p" "ps_host (snd (doPost e inp s)) = g"
    using republish_reuses_comment_ids [OF assms(1-10,12,13)] by simp_all
  have "\<exists>row. run_setters d (runLifecycleBookkeeping rfids (captureFromPostedReview (pi_pr_id inp) ?p)) t (rfids ! (keptIndices inp ! k)) = Some row
    \<and> dw_outcome row = Some ''inline_delivered'' \<and> dw_comment_id row = Some (ids ! k)"
    using bookkeeping_rows(1) [of d rfids inp t ?p k "pi_pr_id inp"] assms(11,14-21) by simp
  then show ?thesis using post by blast
qed

section \<open>Too many findings for one review\<close>

lemma keptFindings_filter: "keptFindings inp = filter (\<lambda>f. is_valid (classify (pi_changed inp) f)) (pi_findings inp)"
  by (simp add: keptFindings_def input_classes_def classifyFindingsAgainstDiff_def filter_map o_def)

lemma doPost_cap: "50 < length (keptFindings inp) \<Longrightarrow> doPost e inp s = (Inl (PostCapExceeded (length (keptFindings inp))), s)"
  by (simp add: doPost_def MAX_INLINE_COMMENTS_PER_REVIEW_def)

lemma aggregate_step_keeps:
  "\<exists>more. ag_findings (aggregate_step out deduped revision paths status)
     = take 250 (case out of Some a \<Rightarrow> ag_findings a | None \<Rightarrow> deduped) @ more"
  by (auto simp: aggregate_step_def Let_def maybeAppendConfigNotice_def maybeAppendMalformedConfigNotice_def MAX_INLINE_FINDINGS_def split: option.split)

text \<open>(C26) When the aggregate step fails, the findings go on without the cap per review; with more than fifty of them in the diff the
  post refuses them all, and nothing is posted.\<close>

theorem aggregate_failure_posts_nothing:
  assumes "pi_findings inp = ag_findings (aggregate_step None deduped policyRevision changedPaths status)"
    and "50 < length (filter (\<lambda>f. is_valid (classify (pi_changed inp) f)) (take 250 deduped))"
  shows "doPost e inp s = (Inl (PostCapExceeded (length (keptFindings inp))), s) \<and> snd (post_stage rfids prId (fst (doPost e inp s))) = []"
proof -
  obtain more where "pi_findings inp = take 250 deduped @ more" using aggregate_step_keeps [of None deduped] assms(1) by fastforce
  then have "50 < length (keptFindings inp)" using assms(2) by (simp add: keptFindings_filter)
  then show ?thesis by (simp add: doPost_cap post_stage_def extractDroppedStateFromPostFailure_def)
qed

text \<open>Fifty findings in the diff, as many as the aggregate lets through, and a diff that touches the first line of the
  configuration: the notice is the fifty-first comment, and nothing is posted.\<close>

theorem notice_overflows_review:
  assumes "length (ag_findings a) = 50" and "list_all (\<lambda>f. is_valid (classify (pi_changed inp) f)) (ag_findings a)"
    and "\<not> has_notice (rf_title configChangeNoticeFinding) (ag_findings a)" and "CONFIG_YAML_PATH \<in> set changedPaths"
    and "map_of (pi_changed inp) CONFIG_YAML_PATH = Some ranges" and "(1, hi) \<in> set ranges" and "1 \<le> hi"
    and "pi_findings inp = ag_findings (aggregate_step (Some a) deduped policyRevision changedPaths Config_valid)"
  shows "doPost e inp s = (Inl (PostCapExceeded 51), s)"
proof -
  have f: "pi_findings inp = ag_findings a @ [configChangeNoticeFinding]"
    using assms(1,3,4,8) by (simp add: aggregate_step_def Let_def maybeAppendConfigNotice_def maybeAppendMalformedConfigNotice_def MAX_INLINE_FINDINGS_def)
  have "is_valid (classify (pi_changed inp) configChangeNoticeFinding)"
    using assms(5-7) by (auto simp: classify_valid_iff configChangeNoticeFinding_def config_finding_def)
  moreover have "filter (\<lambda>f. is_valid (classify (pi_changed inp) f)) (ag_findings a) = ag_findings a"
    using assms(2) by (simp add: filter_id_conv list_all_iff)
  ultimately have "length (keptFindings inp) = 51" using assms(1) f by (simp add: keptFindings_filter)
  then show ?thesis using doPost_cap [of inp e s] by simp
qed

section \<open>Persisting twice\<close>

lemma insert_row_keep: "t i = Some r \<Longrightarrow> insert_row x t i = Some r"
  by (auto simp: insert_row_def)

lemma insert_rows_keep: "t i = Some r \<Longrightarrow> fold insert_row xs t i = Some r"
  by (induction xs arbitrary: t) (simp_all add: insert_row_keep)

lemma insert_row_present: "t (fst x) \<noteq> None \<Longrightarrow> insert_row x t = t"
  by (auto simp: insert_row_def)

lemma insert_rows_present: "(\<And>x. x \<in> set xs \<Longrightarrow> t (fst x) \<noteq> None) \<Longrightarrow> fold insert_row xs t = t"
  by (induction xs) (simp_all add: insert_row_present)

lemma insert_rows_fill: "x \<in> set xs \<Longrightarrow> fold insert_row xs t (fst x) \<noteq> None"
proof (induction xs arbitrary: t)
  case (Cons y ys)
  show ?case
  proof (cases "x = y")
    case True
    then have "insert_row y t (fst x) \<noteq> None" by (auto simp: insert_row_def)
    then obtain r where "insert_row y t (fst x) = Some r" by auto
    then show ?thesis by (simp add: insert_rows_keep)
  qed (use Cons in simp)
qed simp

text \<open>A retry of the persist, at any later time, adds no row and no event and answers with the same ids.\<close>

theorem persist_retry:
  assumes "persistAggregated H clk now e1 e2 a s = (Inr ids, s1)"
  shows "persistAggregated H clk' now' e1' e2' a s1 = (Inr ids, s1)"
proof -
  obtain db where t: "transact (persist_body H clk e1 e2 a) (pb_review s) = (Inr (), db)" and ids: "ids = finding_ids H a"
    and s1: "s1 = s\<lparr>pb_review := db, pb_findings := fold insert_row (new_rows H now a) (pb_findings s)\<rparr>"
    using assms by (auto simp: persistAggregated_def split: sum.splits prod.splits)
  have body: "persist_body H clk e1 e2 a (pb_review s) = Inr ((), db)" and ok: "commit_ok db" using t by (simp_all add: transact_Inr_iff)
  then obtain db1 where g: "assertCurrentRun clk e1 (pa_run a) (pa_review a) persist_site (pb_review s) = (Inr (), [], db1)"
    by (auto simp: persist_body_def assertCurrentRun_def split: sum.splits prod.splits option.splits if_splits)
  have db1: "db1 = pb_review s" using g by (auto simp: assertCurrentRun_def split: option.splits if_splits sum.splits)
  have revs: "reviews db = reviews (pb_review s)" and ev: "list_ex (\<lambda>ev. ev_run_id ev = pa_run a \<and> event_type ev = ''FINDINGS_PERSISTED'') (workflow_events db)"
    using body g db1 by (auto simp: persist_body_def dest!: emitWorkflowEvent_Inr split: if_splits sum.splits)
  have "assertCurrentRun clk' e1' (pa_run a) (pa_review a) persist_site db = (Inr (), [], db)"
    using g revs by (auto simp: assertCurrentRun_def split: option.splits if_splits sum.splits)
  then have "persist_body H clk' e1' e2' a db = Inr ((), db)" using ev by (simp add: persist_body_def)
  then have again: "transact (persist_body H clk' e1' e2' a) db = (Inr (), db)" using ok by (simp add: transact_def)
  have "fst ` set (new_rows H now' a) = fst ` set (new_rows H now a)"
    by (auto simp: new_rows_def image_image case_prod_unfold)
  then have "fold insert_row (new_rows H now a) (pb_findings s) (fst x) \<noteq> None" if "x \<in> set (new_rows H now' a)" for x
    using that insert_rows_fill [of _ "new_rows H now a" "pb_findings s"] by (metis (mono_tags, lifting) imageE image_eqI)
  then show ?thesis using again s1 ids by (simp add: persistAggregated_def insert_rows_present)
qed

section \<open>Concrete runs\<close>

definition demo_delivery :: delivery_env where
  "demo_delivery = \<lparr>dx_writesEnabled = True, dx_installation = ''i1'', dx_pr = ''p'', dx_now = 0, dx_pick = hd\<rparr>"

lemma demo_delivery_ok [simp]: "dx_writesEnabled demo_delivery" "honest_pick demo_delivery"
  by (simp_all add: demo_delivery_def honest_pick_def)

definition demo_table :: delivery_table where
  "demo_table i = (if i = ''f1'' \<or> i = ''f2'' then Some (new_row ''i1'' ''p'' ''now'' (JObj []) (demo_line_finding 3)) else None)"

lemma demo_count [simp]: "length (pi_findings (demo_post_input lines)) = length lines"
  by (simp add: demo_post_input_def)

lemma demo_undelivered: "undelivered demo_delivery (new_row ''i1'' ''p'' ''now'' (JObj []) (demo_line_finding 3))"
  by (simp add: undelivered_def flippable_def demo_delivery_def new_row_def no_suppression_def)

lemma demo_split:
  "keptFindings (demo_post_input [3, 20]) = [demo_line_finding 3]" "keptIndices (demo_post_input [3, 20]) = [0]"
  "droppedClassifications (demo_post_input [3, 20]) = [\<lparr>dc_index = 1, dc_reason = ''line_after_last_hunk''\<rparr>]"
proof -
  have c: "classify [(''a.ts'', [(1, 9)])] (demo_line_finding 20)
      = \<lparr>cl_outcome = Dropped_finding, cl_finding = demo_line_finding 20, cl_dropReason = Some ''line_after_last_hunk''\<rparr>"
    by (simp add: classify_def demo_line_finding_def findingAccepted_def classifyDropReason_def isBeforeFirstHunk_def isAfterLastHunk_def
        DROP_LINE_AFTER_LAST_HUNK_def)
  have v: "is_valid (classify [(''a.ts'', [(1, 9)])] (demo_line_finding 3))" by (simp add: demo_valid)
  then have "cl_dropReason (classify [(''a.ts'', [(1, 9)])] (demo_line_finding 3)) = None" by (simp add: classify_reason)
  then show "keptFindings (demo_post_input [3, 20]) = [demo_line_finding 3]" "keptIndices (demo_post_input [3, 20]) = [0]"
    "droppedClassifications (demo_post_input [3, 20]) = [\<lparr>dc_index = 1, dc_reason = ''line_after_last_hunk''\<rparr>]"
    using v by (simp_all add: keptFindings_def keptIndices_def droppedClassifications_def demo_classes c is_valid_def)
qed

definition demo_posted :: posted_review where
  "demo_posted = \<lparr>po_review_id = Some 1, po_was_update = False, po_inline_comment_count = 1, po_comment_ids = [1], po_kept_finding_indices = [0],
     po_outcome = Inline_posted, po_degradation_notes = [], po_dropped_classifications = [\<lparr>dc_index = 1, dc_reason = ''line_after_last_hunk''\<rparr>]\<rparr>"

lemma demo_first_post: "fst (doPost (demo_post_env 30 (\<lambda>_. False)) (demo_post_input [3, 20]) (demo_posting [] [])) = Inr demo_posted"
proof -
  have c: "claim_post (demo_post_env 30 (\<lambda>_. False)) (demo_post_input [3, 20]) (demo_posting [] []) = (Inr True, demo_posting [claim_row 0 ''p''] [])"
    by (simp add: claim_post_def demo_guard pr_rows_def)
  have "list_all row_checks [store_review 0 1 Inline_posted [1] (claim_row 0 ''p'')]"
    by (simp add: store_review_def row_checks_def)
  then show ?thesis
    by (simp add: doPost_def c post_won_def demo_split inlinePayload_def MAX_INLINE_COMMENTS_PER_REVIEW_def attemptCreateWithBodyOnlyFallback_def
        demo_client_def fresh_review_id_def update_rows_def claim_row_def store_review_def row_checks_def parse_posted_def posted_valid_def dropped_valid_def demo_posted_def Let_def)
qed

theorem delivered_as_posted_witness:
  "\<exists>r1 r2. run_setters demo_delivery (runLifecycleBookkeeping [''f1'', ''f2''] (captureFromPostedReview ''p'' demo_posted)) demo_table ''f1'' = Some r1
    \<and> run_setters demo_delivery (runLifecycleBookkeeping [''f1'', ''f2''] (captureFromPostedReview ''p'' demo_posted)) demo_table ''f2'' = Some r2
    \<and> dw_comment_id r1 = Some 1 \<and> dw_reason r2 = Some ''line_after_last_hunk''"
proof -
  let ?t = "run_setters demo_delivery (runLifecycleBookkeeping [''f1'', ''f2''] (captureFromPostedReview ''p'' demo_posted)) demo_table"
  have all: "\<forall>i\<in>set [''f1'', ''f2'']. \<exists>r. demo_table i = Some r \<and> undelivered demo_delivery r"
    by (simp add: demo_table_def demo_undelivered)
  have c: "captureFromPostedReview (pi_pr_id (demo_post_input [3, 20])) demo_posted = captureFromPostedReview ''p'' demo_posted" by simp
  have "(\<forall>k<length (keptIndices (demo_post_input [3, 20])). \<exists>r. ?t ([''f1'', ''f2''] ! (keptIndices (demo_post_input [3, 20]) ! k)) = Some r
        \<and> dw_outcome r = Some ''inline_delivered'' \<and> dw_comment_id r = Some (po_comment_ids demo_posted ! k))
    \<and> (\<forall>x\<in>set (droppedClassifications (demo_post_input [3, 20])). \<exists>r. ?t ([''f1'', ''f2''] ! dc_index x) = Some r
        \<and> dw_outcome r = Some ''not_applicable'' \<and> dw_reason r = Some (dc_reason x))"
    by (rule delivered_as_posted [OF demo_first_post _ _ _ demo_delivery_ok(1) demo_delivery_ok(2) _ _ all])
      (simp_all add: demo_posted_def demo_split)
  then show ?thesis by (auto simp: demo_split demo_posted_def)
qed

text \<open>A pull request published by an earlier run with one comment, and a new finding.\<close>

theorem later_run_claims_old_comments_witness:
  "\<exists>p row. fst (doPost (demo_post_env 30 (\<lambda>_. False)) (demo_post_input [3, 20]) (demo_posting [published_row [7]] [(1, ''old'', [7])])) = Inr p
    \<and> run_setters demo_delivery (runLifecycleBookkeeping [''f1'', ''f2''] (captureFromPostedReview ''p'' p)) demo_table ''f1'' = Some row
    \<and> dw_outcome row = Some ''inline_delivered'' \<and> dw_comment_id row = Some 7"
proof -
  let ?e = "demo_post_env 30 (\<lambda>_. False)" and ?inp = "demo_post_input [3, 20]" and ?s = "demo_posting [published_row [7]] [(1, ''old'', [7])]"
  have r: "pr_rows ''p'' [published_row [7]] = [published_row [7]]" by (simp add: pr_rows_def published_row_def claim_row_def)
  have c: "fst (claim_post ?e ?inp ?s) = Inr False" by (simp add: demo_claim_post r)
  have "\<exists>p row. fst (doPost ?e ?inp ?s) = Inr p \<and> ps_host (snd (doPost ?e ?inp ?s)) = [(1, post_body ?e ?inp, [7])]
    \<and> run_setters demo_delivery (runLifecycleBookkeeping [''f1'', ''f2''] (captureFromPostedReview (pi_pr_id ?inp) p)) demo_table ([''f1'', ''f2''] ! (keptIndices ?inp ! 0)) = Some row
    \<and> dw_outcome row = Some ''inline_delivered'' \<and> dw_comment_id row = Some ([7] ! 0)"
    by (rule later_run_claims_old_comments [where r = "published_row [7]" and rid = 1, OF demo_post_env_alone _ _ _ c])
      (simp_all add: first_row_def pr_rows_def demo_split demo_table_def demo_undelivered published_row_def claim_row_def row_checks_def demo_client_def dropped_valid_def)
  then show ?thesis by (auto simp: demo_split)
qed

theorem aggregate_failure_posts_nothing_witness:
  "doPost (demo_post_env 30 (\<lambda>_. False)) (demo_post_input (replicate 51 3)) (demo_posting [] []) = (Inl (PostCapExceeded 51), demo_posting [] [])"
proof -
  have v: "is_valid (classify (pi_changed (demo_post_input (replicate 51 3))) (demo_line_finding 3))" using demo_valid [of 3] by (simp add: demo_post_input_def)
  have k: "length (keptFindings (demo_post_input (replicate 51 3))) = 51"
    using v by (simp add: keptFindings_filter) (simp add: demo_post_input_def)
  show ?thesis
    using aggregate_failure_posts_nothing [of "demo_post_input (replicate 51 3)" "map demo_line_finding (replicate 51 3)" 0 "[]" Config_valid
        "demo_post_env 30 (\<lambda>_. False)" "demo_posting [] []" "[]" "''p''"] v k
    by (simp add: aggregate_step_def maybeAppendConfigNotice_def maybeAppendMalformedConfigNotice_def MAX_INLINE_FINDINGS_def)
      (simp add: demo_post_input_def)
qed

end
