(* ===== verification/Run_History.thy ===== *)
theory Run_History
  imports Review_Jobs
begin

text \<open>
  Every writer of \<^verbatim>\<open>core.review_runs.lifecycle_state\<close> and of \<^verbatim>\<open>core.pull_request_reviews.current_run_id\<close> in one
  history: the transactions of \<open>Run_Lifecycle\<close>, the settle of a job with its run (\<^verbatim>\<open>terminalSettle\<close>) and the reaper
  of stuck jobs (\<^verbatim>\<open>reapStuckRuns\<close>), with the other components' events and whatever they do to the jobs, the
  mutexes, the repositories and the audit trail. Shown over all interleavings of them: a new push can always be
  allocated, and the run it supersedes is locked out from then on. Left out is the retention sweep, which stamps
  \<^verbatim>\<open>retired_at\<close> on old completed and failed runs (no definition here reads it) and later deletes their events.
\<close>

section \<open>The writers\<close>

datatype review_op =
    Lifecycle lc_op
  | Settle db_time uuid string uuid uuid terminal_job terminal_run string string
  | ReapStuck "uuid \<Rightarrow> bool" db_time js_date nat
  | Emits js_date uuid string uuid uuid string "(string \<times> rat json) list" "string option" "uuid option"
  | Elsewhere "repo_row list" "review_job list" "pr_mutex list" "audit_event list"

fun review_exec :: "review_op \<Rightarrow> review_db \<Rightarrow> review_db" where
  "review_exec (Lifecycle op) db = lc_exec op db"
| "review_exec (Settle now jid owner tok runId js rs reason runReason) db =
     snd (rj_terminalSettle now jid owner tok runId js rs reason runReason db)"
| "review_exec (ReapStuck locked now clk limit) db = snd (rj_reapStuckRuns locked now clk limit db)"
| "review_exec (Emits clk eid prov runId reviewId et payload dl iid) db =
     (case emitWorkflowEvent clk eid prov runId reviewId et payload dl iid db of Inl e \<Rightarrow> db | Inr db' \<Rightarrow> db')"
| "review_exec (Elsewhere rps js ms aus) db =
     db\<lparr>repositories := rps, review_jobs := js, pr_review_mutex := ms, audit_events := aus\<rparr>"

text \<open>What the code passes: a transition leaves an active state, and an allocation is a fresh one.\<close>

fun as_called :: "review_op \<Rightarrow> bool" where
  "as_called (Lifecycle (LcTransition clk eid a)) \<longleftrightarrow> t_fromState a \<in> set active_states"
| "as_called (Lifecycle (LcAllocate now clk newRunId e1 e2 a)) \<longleftrightarrow> al_parentRunId a = None"
| "as_called _ \<longleftrightarrow> True"

fun allocates_on :: "uuid \<Rightarrow> review_op \<Rightarrow> bool" where
  "allocates_on revw (Lifecycle op) \<longleftrightarrow> allocates revw op"
| "allocates_on revw _ \<longleftrightarrow> False"

section \<open>What they leave alone\<close>

text \<open>A transaction that only updates states of runs: the reviews, the repositories and the events stay.\<close>

definition moves_runs :: "(review_run \<Rightarrow> bool) \<Rightarrow> (review_run \<Rightarrow> review_run) \<Rightarrow> review_db \<Rightarrow> review_db \<Rightarrow> bool" where
  "moves_runs p f db db' \<longleftrightarrow> reviews db' = reviews db \<and> repositories db' = repositories db \<and> workflow_events db' = workflow_events db
     \<and> review_runs db' = upd_where p f (review_runs db) \<and> (\<forall>r\<in>set (review_runs db). p r \<longrightarrow> run_checks (f r))"

lemma moves_runs_wf:
  assumes "review_wf_tx db" and "moves_runs p f db db'" and "\<And>r. run_id (f r) = run_id r" and "\<And>r. rr_review_id (f r) = rr_review_id r"
  shows "review_wf_tx db'"
proof -
  have "update_runs p f db = Inr (db\<lparr>review_runs := review_runs db'\<rparr>)" using assms(2) by (simp add: moves_runs_def update_runs_def)
  from review_wf_tx_update_runs [OF assms(1) this assms(3,4)] show ?thesis using assms(2)
    by (simp add: review_wf_tx_def runs_ok_def refs_ok_def moves_runs_def)
qed

lemma moves_runs_points_at: "moves_runs p f db db' \<Longrightarrow> points_at revw rid db \<Longrightarrow> points_at revw rid db'"
  by (simp add: moves_runs_def points_at_def)

lemma settle_tx_moves:
  assumes "settle_tx now jid owner tok runId js rs reason runReason db = Inr (ok, db')"
  shows "moves_runs (\<lambda>r. ok \<and> run_id r = runId) (settle_run rs now runReason) db db'"
  using assms by (auto simp: settle_tx_def Let_def moves_runs_def update_runs_def upd_where_def split: if_splits sum.splits)

lemma reap_rows_keep:
  assumes "reap_stuck_rows now clk rows db = Inr db'"
  shows "reviews db' = reviews db \<and> repositories db' = repositories db \<and> workflow_events db' = workflow_events db
    \<and> (\<forall>r\<in>set (review_runs db). run_id r \<in> fst ` set rows \<longrightarrow> run_checks (reap_set now r))"
  using assms
proof (induction rows arbitrary: db)
  case (Cons row rows)
  obtain rid mid iid where row: "row = (rid, mid, iid)" by (cases row)
  from Cons.prems row obtain db1 where db1: "update_runs (\<lambda>r. run_id r = rid) (reap_set now) db = Inr db1"
    by (auto split: sum.splits)
  obtain db2 where db2: "db2 = (case mid of None \<Rightarrow> db1 | Some m \<Rightarrow> release_mutexes now (\<lambda>x. mutex_id x = m) db1)" by simp
  from Cons.prems row db1 db2 obtain db3 where db3: "reaped_audit clk iid rid db2 = Inr db3" "reap_stuck_rows now clk rows db3 = Inr db'"
    by (auto simp: Let_def split: sum.splits)
  note d1 = update_runs_Inr [OF db1]
  have d2: "reviews db2 = reviews db1" "repositories db2 = repositories db1" "workflow_events db2 = workflow_events db1"
    "review_runs db2 = review_runs db1"
    by (auto simp: db2 release_mutexes_def split: option.splits)
  have d3: "reviews db3 = reviews db2" "repositories db3 = repositories db2" "workflow_events db3 = workflow_events db2"
    "review_runs db3 = review_runs db2"
    using db3(1) by (auto simp: reaped_audit_def dest!: emitAuditEvent_Inr split: option.splits)
  have IH: "reviews db' = reviews db3 \<and> repositories db' = repositories db3 \<and> workflow_events db' = workflow_events db3
    \<and> (\<forall>r\<in>set (review_runs db3). run_id r \<in> fst ` set rows \<longrightarrow> run_checks (reap_set now r))" by (rule Cons.IH [OF db3(2)])
  have "run_checks (reap_set now r)" if "r \<in> set (review_runs db)" "run_id r \<in> fst ` set (row # rows)" for r
  proof (cases "run_id r = rid")
    case True
    then show ?thesis using d1(2) that(1) by blast
  next
    case False
    then have "r \<in> set (review_runs db3)" "run_id r \<in> fst ` set rows"
      using that row d2 d3 d1(1) upd_where_mem_unchanged [of r "review_runs db" "\<lambda>r. run_id r = rid" "reap_set now"] by auto
    then show ?thesis using IH by blast
  qed
  then show ?case using IH d1(1) d2 d3 by simp
qed simp

lemma reap_stuck_tx_moves:
  assumes "reap_stuck_tx locked now clk limit db = Inr (n, db')"
  obtains p where "moves_runs p (reap_set now) db db'"
proof -
  let ?batch = "job_id ` set (stuck_batch locked now limit (review_jobs db))"
  let ?rows = "stuck_rows (filter (\<lambda>j. job_id j \<in> ?batch) (review_jobs db)) db"
  let ?db1 = "db\<lparr>review_jobs := upd_where (\<lambda>j. job_id j \<in> ?batch) (reap_job_set now) (review_jobs db)\<rparr>"
  have r: "reap_stuck_rows now clk ?rows ?db1 = Inr db'" using assms by (simp add: reap_stuck_tx_def Let_def split: sum.splits)
  show thesis using that [of "\<lambda>r. run_id r \<in> fst ` set ?rows"] reap_rows_keep [OF r] reap_stuck_rows_Inr [OF r]
    by (simp add: moves_runs_def)
qed

section \<open>The invariants of a history\<close>

text \<open>Every active run is the run its review points at.\<close>

definition current_live :: "review_db \<Rightarrow> bool" where
  "current_live db \<longleftrightarrow> (\<forall>r\<in>set (review_runs db). run_active r \<longrightarrow>
     (\<forall>rv\<in>set (reviews db). review_id rv = rr_review_id r \<longrightarrow> current_run_id rv = Some (run_id r)))"

definition history_ok :: "review_db \<Rightarrow> bool" where
  "history_ok db \<longleftrightarrow> review_wf db \<and> current_live db"

lemma review_exec_wf:
  assumes "review_wf db"
  shows "review_wf (review_exec op db)"
proof -
  have tx: "review_wf_tx db" using assms by (simp add: review_wf_iff)
  show ?thesis
  proof (cases op)
    case (Lifecycle op')
    then show ?thesis using lc_exec_wf [OF assms] by simp
  next
    case (Settle now jid owner tok runId js rs reason runReason)
    have "review_wf_tx db'" if "settle_tx now jid owner tok runId js rs reason runReason db = Inr (ok, db')" for ok db'
      by (rule moves_runs_wf [OF tx settle_tx_moves [OF that]]) simp_all
    then have "review_wf (snd (transact (settle_tx now jid owner tok runId js rs reason runReason) db))" by (rule transact_wf [OF assms])
    then show ?thesis using Settle by (simp add: rj_terminalSettle_def)
  next
    case (ReapStuck locked now clk limit)
    have "review_wf_tx db'" if t: "reap_stuck_tx locked now clk limit db = Inr (n, db')" for n db'
    proof (rule reap_stuck_tx_moves [OF t])
      fix p assume "moves_runs p (reap_set now) db db'"
      then show ?thesis by (rule moves_runs_wf [OF tx]) simp_all
    qed
    then have "review_wf (snd (transact (reap_stuck_tx locked now clk limit) db))" by (rule transact_wf [OF assms])
    then show ?thesis using ReapStuck by (simp add: rj_reapStuckRuns_def)
  next
    case (Emits clk eid prov runId reviewId et payload dl iid)
    have "review_wf db'" if e: "emitWorkflowEvent clk eid prov runId reviewId et payload dl iid db = Inr db'" for db'
      using review_wf_tx_events [OF tx e] emitWorkflowEvent_Inr [OF e] assms by (auto simp: review_wf_iff commit_ok_def)
    then show ?thesis using Emits assms by (auto split: sum.split)
  next
    case (Elsewhere rps js ms aus)
    then show ?thesis using assms by (simp add: review_wf_def runs_ok_def refs_ok_def commit_ok_def)
  qed
qed

interpretation review_hist: history review_exec review_wf
  by unfold_locales (rule review_exec_wf)

lemma current_live_runs:
  assumes "current_live db" and "reviews db' = reviews db" and "review_runs db' = upd_where p f (review_runs db)"
    and "\<And>r. run_id (f r) = run_id r" and "\<And>r. rr_review_id (f r) = rr_review_id r"
    and "\<And>r. r \<in> set (review_runs db) \<Longrightarrow> p r \<Longrightarrow> run_active (f r) \<Longrightarrow> run_active r"
  shows "current_live db'"
  using assms unfolding current_live_def by (fastforce simp: set_upd_where)

lemma current_live_same: "current_live db \<Longrightarrow> reviews db' = reviews db \<Longrightarrow> review_runs db' = review_runs db \<Longrightarrow> current_live db'"
  by (simp add: current_live_def)

lemma transact_live:
  assumes "current_live db" and "\<And>a db'. body db = Inr (a, db') \<Longrightarrow> current_live db'"
  shows "current_live (snd (transact body db))"
  using transact_db [of body db] assms by metis

lemma not_active [simp]: "\<not> run_active (settle_run rs now c r)" "\<not> run_active (reap_set now r)" "\<not> run_active (supersede_set ts c n r)"
  by (cases rs; simp add: run_active_def active_states_def settle_run_def) (simp_all add: run_active_def active_states_def)

lemma transitionRun_live:
  assumes "review_wf_tx db" and "current_live db" and "t_fromState a \<in> set active_states" and "transitionRun clk eid a db = Inr (res, db')"
  shows "current_live db'"
proof -
  obtain oc cs where res: "res = (oc, cs)" by (cases res)
  have dist: "distinct (run_ids db)" using assms(1) by (simp add: review_wf_tx_def runs_ok_def)
  show ?thesis using assms(4) [unfolded res]
  proof (cases rule: transitionRun_Inr)
    case already
    then show ?thesis using assms(2) by simp
  next
    case (applied rr rv rp e)
    note rr = run_joins_mem(1,2) [OF applied(1)]
    have "run_active r" if "r \<in> set (review_runs db)" "run_id r = t_runId a" for r
    proof -
      have "r = rr" using distinct_key_unique [OF dist that(1) rr(1)] that(2) rr(2) by simp
      then show ?thesis using applied(2) assms(3) by (simp add: run_active_def)
    qed
    then show ?thesis
      by (intro current_live_runs [OF assms(2), where p = "\<lambda>r. run_id r = t_runId a" and f = "flip_set (t_toState a) (of_date clk)"])
        (auto simp: applied(7))
  qed
qed

text \<open>What a committed fresh allocation writes to the runs.\<close>

lemma fresh_runs:
  assumes "al_parentRunId a = None" and "allocateRun now clk newRunId e1 e2 a db = Inr (old, db')"
  obtains n where "review_runs db' = upd_where (\<lambda>r. rr_review_id r = al_reviewId a \<and> run_active r)
      (supersede_set (of_date clk) ''superseded'' newRunId) (review_runs db) @ [n]"
    "run_id n = newRunId" "rr_review_id n = al_reviewId a" "lifecycle_state n = ''PENDING''" "supersedes_run_id n = old"
  using assms(2)
proof (cases rule: allocateRun_Inr)
  case (1 db1 db2 db3 prev es)
  have "review_runs db1 = upd_where (\<lambda>r. rr_review_id r = al_reviewId a \<and> run_active r)
      (supersede_set (of_date clk) ''superseded'' newRunId) (review_runs db)" using 1(1) assms(1) by (auto elim!: supersedeRun_Inr)
  then show thesis using that by (simp add: 1(4) flipCurrentRun_Inr(1) [OF 1(3)] insert_run_Inr(1) [OF 1(2)])
qed

lemma allocateRun_live:
  assumes "current_live db" and "al_parentRunId a = None" and "allocateRun now clk newRunId e1 e2 a db = Inr (old, db')"
  shows "current_live db'"
proof -
  obtain n where n: "review_runs db' = upd_where (\<lambda>r. rr_review_id r = al_reviewId a \<and> run_active r)
      (supersede_set (of_date clk) ''superseded'' newRunId) (review_runs db) @ [n]"
    "run_id n = newRunId" "rr_review_id n = al_reviewId a" "lifecycle_state n = ''PENDING''" using fresh_runs [OF assms(2,3)] by blast
  have rv: "reviews db' = upd_where (\<lambda>rv. review_id rv = al_reviewId a) (\<lambda>rv. rv\<lparr>current_run_id := Some newRunId\<rparr>) (reviews db)"
    using allocateRun_reviews [OF assms(3)] by blast
  show ?thesis unfolding current_live_def
  proof (intro ballI impI)
    fix r v assume r: "r \<in> set (review_runs db')" "run_active r" and v: "v \<in> set (reviews db')" "review_id v = rr_review_id r"
    show "current_run_id v = Some (run_id r)"
    proof (cases "r = n")
      case True
      then show ?thesis using v n(2,3) by (auto simp: rv set_upd_where)
    next
      case False
      then have old: "r \<in> set (review_runs db)" "rr_review_id r \<noteq> al_reviewId a"
        using r n(1) by (auto simp: set_upd_where split: if_splits)
      then have "v \<in> set (reviews db)" using v by (auto simp: rv set_upd_where)
      then show ?thesis using assms(1) old(1) r(2) v(2) by (simp add: current_live_def)
    qed
  qed
qed

lemma upsertReview_live:
  assumes "review_wf_tx db" and "current_live db" and "upsertReview newId a db = Inr (rid, db')"
  shows "current_live db'"
proof (cases "first_row (filter (same_pr a) (reviews db))")
  case None
  have "rr_review_id r \<in> review_id ` set (reviews db)" if "r \<in> set (review_runs db)" for r
    using assms(1) that by (simp add: review_wf_tx_def refs_ok_def)
  then show ?thesis using assms(2,3) None by (auto simp: upsertReview_def Let_def current_live_def split: if_splits)
next
  case (Some rv)
  then show ?thesis using assms(2,3)
    by (auto simp: upsertReview_def Let_def current_live_def set_upd_where split: if_splits)
qed

lemma review_exec_live:
  assumes "review_wf db" and "current_live db" and "as_called op"
  shows "current_live (review_exec op db)"
proof -
  have tx: "review_wf_tx db" using assms(1) by (simp add: review_wf_iff)
  note same = current_live_same [OF assms(2)]
  show ?thesis
  proof (cases op)
    case (Settle now jid owner tok runId js rs reason runReason)
    have "current_live db'" if "settle_tx now jid owner tok runId js rs reason runReason db = Inr (ok, db')" for ok db'
      using settle_tx_moves [OF that]
      by (intro current_live_runs [OF assms(2), where p = "\<lambda>r. ok \<and> run_id r = runId" and f = "settle_run rs now runReason"])
        (simp_all add: moves_runs_def)
    then have "current_live (snd (transact (settle_tx now jid owner tok runId js rs reason runReason) db))" by (rule transact_live [OF assms(2)])
    then show ?thesis using Settle by (simp add: rj_terminalSettle_def)
  next
    case (ReapStuck locked now clk limit)
    have "current_live db'" if t: "reap_stuck_tx locked now clk limit db = Inr (n, db')" for n db'
    proof (rule reap_stuck_tx_moves [OF t])
      fix p assume "moves_runs p (reap_set now) db db'"
      then show ?thesis
        by (intro current_live_runs [OF assms(2), where p = p and f = "reap_set now"]) (simp_all add: moves_runs_def)
    qed
    then have "current_live (snd (transact (reap_stuck_tx locked now clk limit) db))" by (rule transact_live [OF assms(2)])
    then show ?thesis using ReapStuck by (simp add: rj_reapStuckRuns_def)
  next
    case (Emits clk eid prov runId reviewId et payload dl iid)
    then show ?thesis using same by (auto dest!: emitWorkflowEvent_Inr split: sum.split)
  next
    case (Elsewhere rps js ms aus)
    then show ?thesis using same by simp
  next
    case (Lifecycle op')
    show ?thesis
    proof (cases op')
      case (LcTransition clk eid a)
      have "current_live db'" if "transitionRun clk eid a db = Inr (res, db')" for res db'
        using transitionRun_live [OF tx assms(2) _ that] assms(3) Lifecycle LcTransition by simp
      then have "current_live (snd (transact (transitionRun clk eid a) db))" by (rule transact_live [OF assms(2)])
      then show ?thesis using Lifecycle LcTransition by (simp add: driveTransition_db)
    next
      case (LcEvent clk eid prov runId reviewId et payload iid)
      then show ?thesis using Lifecycle same
        by (auto simp: recordReviewLifecycleEvent_def transact_def dest!: emitWorkflowEvent_Inr split: if_splits sum.splits)
    next
      case (LcUpsert newId a)
      have "current_live (snd (transact (upsertReview newId a) db))"
        by (rule transact_live [OF assms(2)]) (rule upsertReview_live [OF tx assms(2)])
      then show ?thesis using Lifecycle LcUpsert by simp
    next
      case (LcAllocate now clk newRunId e1 e2 a)
      have "al_parentRunId a = None" using assms(3) Lifecycle LcAllocate by simp
      then have "current_live (snd (transact (allocateRun now clk newRunId e1 e2 a) db))"
        by (intro transact_live [OF assms(2)]) (rule allocateRun_live [OF assms(2)])
      then show ?thesis using Lifecycle LcAllocate by simp
    next
      case (LcGuard clk eid runId reviewId site)
      then show ?thesis using Lifecycle same assertCurrentRun_db [of clk eid runId reviewId site db] by fastforce
    next
      case (LcReap locked now clk secs limit)
      have "current_live db'" if "reap_stale_runs locked now clk secs limit db = Inr (n, db')" for n db'
        using that
      proof (cases rule: reap_stale_runs_Inr)
        case (1 aus)
        show ?thesis
          by (rule current_live_runs [OF assms(2), where p = "\<lambda>r. run_id r \<in> set (reap_batch locked now secs limit db)" and f = "reap_set now"])
            (simp_all add: 1(1))
      qed
      then have "current_live (snd (transact (reap_stale_runs locked now clk secs limit) db))" by (rule transact_live [OF assms(2)])
      then show ?thesis using Lifecycle LcReap by (simp add: reviewRunReaper_def)
    qed
  qed
qed

lemma history_ok_run: "history_ok db \<Longrightarrow> list_all as_called ops \<Longrightarrow> history_ok (fold review_exec ops db)"
  by (induction ops arbitrary: db) (simp_all add: history_ok_def review_exec_wf review_exec_live)

lemma review_exec_points_at:
  assumes "points_at revw rid db" and "\<not> allocates_on revw op"
  shows "points_at revw rid (review_exec op db)"
proof (cases op)
  case (Lifecycle op')
  then show ?thesis using lc_exec_points_at [OF assms(1)] assms(2) by simp
next
  case (Settle now jid owner tok runId js rs reason runReason)
  have "points_at revw rid db'" if "settle_tx now jid owner tok runId js rs reason runReason db = Inr (ok, db')" for ok db'
    by (rule moves_runs_points_at [OF settle_tx_moves [OF that] assms(1)])
  then show ?thesis using Settle transact_points_at [OF assms(1)] by (auto simp: rj_terminalSettle_def)
next
  case (ReapStuck locked now clk limit)
  have "points_at revw rid db'" if t: "reap_stuck_tx locked now clk limit db = Inr (n, db')" for n db'
    using t by (rule reap_stuck_tx_moves) (rule moves_runs_points_at [OF _ assms(1)])
  then show ?thesis using ReapStuck transact_points_at [OF assms(1)] by (auto simp: rj_reapStuckRuns_def)
next
  case (Emits clk eid prov runId reviewId et payload dl iid)
  then show ?thesis using assms(1) by (auto dest!: emitWorkflowEvent_Inr split: sum.split intro: points_at_same)
next
  case (Elsewhere rps js ms aus)
  then show ?thesis using assms(1) by (auto intro: points_at_same)
qed

lemma run_points_at:
  "points_at revw rid db \<Longrightarrow> list_all (\<lambda>op. \<not> allocates_on revw op) ops \<Longrightarrow> points_at revw rid (fold review_exec ops db)"
  by (induction ops arbitrary: db) (simp_all add: review_exec_points_at)

section \<open>An allocation goes through\<close>

text \<open>What the webhook passes: a known trigger, a first attempt, the tenant of the review's repository, a delivery
  that is not recorded yet, and ids that \<^verbatim>\<open>uuid7()\<close> and \<^verbatim>\<open>uuid4()\<close> have just minted.\<close>

definition alloc_ready :: "uuid \<Rightarrow> uuid \<Rightarrow> uuid \<Rightarrow> allocate_args \<Rightarrow> review_db \<Rightarrow> bool" where
  "alloc_ready newRunId e1 e2 a db \<longleftrightarrow>
     al_parentRunId a = None \<and> al_attemptNumber a = 1 \<and> al_triggerType a \<in> set TRIGGER_TYPES
     \<and> review_installation db (al_reviewId a) = Some (al_installationId a)
     \<and> newRunId \<notin> set (run_ids db) \<and> e1 \<noteq> e2 \<and> e1 \<notin> event_id ` set (workflow_events db) \<and> e2 \<notin> event_id ` set (workflow_events db)
     \<and> (al_deliveryId a = None \<or> list_all (\<lambda>e. ev_provider e \<noteq> al_provider a \<or> ev_delivery_id e \<noteq> al_deliveryId a) (workflow_events db))"

lemma emit_total:
  assumes "seq_gap_free (workflow_events db)" and "et \<in> set EVENT_TYPES" and "runId \<in> set (run_ids db)"
    and "reviewId \<in> review_id ` set (reviews db)" and "eid \<notin> event_id ` set (workflow_events db)"
    and "\<And>e. e \<in> set (workflow_events db) \<Longrightarrow> dl = None \<or> ev_provider e \<noteq> prov \<or> ev_delivery_id e \<noteq> dl"
  shows "\<exists>e. emitWorkflowEvent clk eid prov runId reviewId et payload dl (Some iid) db
      = Inr (db\<lparr>workflow_events := workflow_events db @ [e]\<rparr>) \<and> event_id e = eid \<and> ev_delivery_id e = dl
    \<and> seq_gap_free (workflow_events db @ [e])"
proof -
  let ?n = "next_seq runId (workflow_events db)"
  let ?e = "\<lparr>event_id = eid, ev_provider = prov, ev_delivery_id = dl, ev_run_id = runId, ev_review_id = reviewId,
         sequence_no = ?n, event_type = et, ev_payload = sortKeysDeep (JObj payload), received_at = of_date clk,
         ev_installation_id = Some iid\<rparr>"
  let ?F = "filter (\<lambda>e. ev_run_id e = runId) (workflow_events db)"
  have n: "?n = int (length ?F) + 1" by (rule next_seq_gap_free [OF assms(1)])
  have seq: "sequence_no x < ?n" if "x \<in> set (workflow_events db)" "ev_run_id x = runId" for x
  proof -
    have "sequence_no x \<in> set (map sequence_no ?F)" using that by simp
    also have "map sequence_no ?F = [1..int (length ?F)]" using assms(1) by (simp only: seq_gap_free_def)
    finally show ?thesis using n by simp
  qed
  have "\<not> (received_at x = received_at ?e \<and> (event_id x = event_id ?e
      \<or> ev_run_id x = ev_run_id ?e \<and> sequence_no x = sequence_no ?e
      \<or> ev_delivery_id ?e \<noteq> None \<and> ev_provider x = ev_provider ?e \<and> ev_delivery_id x = ev_delivery_id ?e))"
    if "x \<in> set (workflow_events db)" for x
    using that assms(5) assms(6) [OF that] seq [OF that] by (fastforce simp del: sortKeysDeep.simps)
  moreover have "1 \<le> ?n" using n by simp
  ultimately have "insert_event ?e db = Inr (db\<lparr>workflow_events := workflow_events db @ [?e]\<rparr>)"
    using assms(2-4) unfolding insert_event_def by (simp add: not_less del: sortKeysDeep.simps)
  then have "emitWorkflowEvent clk eid prov runId reviewId et payload dl (Some iid) db
      = Inr (db\<lparr>workflow_events := workflow_events db @ [?e]\<rparr>)"
    using assms(2) by (simp add: emitWorkflowEvent_def del: sortKeysDeep.simps)
  moreover have "seq_gap_free (workflow_events db @ [?e])"
    by (rule seq_gap_free_append [OF assms(1)]) (simp only: workflow_event.simps)
  moreover have "event_id ?e = eid" "ev_delivery_id ?e = dl" by (simp_all only: workflow_event.simps)
  ultimately show ?thesis by blast
qed

lemma review_installation_same:
  "reviews db' = reviews db \<Longrightarrow> repositories db' = repositories db \<Longrightarrow> review_installation db' rid = review_installation db rid"
  by (simp add: review_installation_def review_repos_def)

lemma review_installation_review: "review_installation db rid = Some i \<Longrightarrow> rid \<in> review_id ` set (reviews db)"
  by (auto simp: review_installation_def review_repos_def dest!: first_row_Some split: option.splits)

lemma supersede_checks:
  assumes "run_checks r" and "run_active r" and "newRunId \<noteq> run_id r"
  shows "run_checks (supersede_set ts ''superseded'' newRunId r)"
proof -
  have "lifecycle_state r \<noteq> ''COMPLETED''" "lifecycle_state r \<noteq> ''FAILED''"
    using assms(2) by (auto simp: run_active_def active_states_def)
  then have "completed_at r = None" "failed_at r = None" using assms(1) by (simp_all add: run_checks_def)
  then show ?thesis using assms(1,3) by (simp add: run_checks_def supersede_set_def CANCEL_REASONS_def LIFECYCLE_STATES_def)
qed

lemma supersede_total:
  assumes "history_ok db" and "alloc_ready newRunId e1 e2 a db"
  obtains old es where
    "supersedeRun clk e1 (al_reviewId a) newRunId (al_provider a) ''superseded'' (Some (al_installationId a)) db
       = Inr (old, db\<lparr>review_runs := upd_where (\<lambda>r. rr_review_id r = al_reviewId a \<and> run_active r)
           (supersede_set (of_date clk) ''superseded'' newRunId) (review_runs db), workflow_events := es\<rparr>)"
    "old = None \<or> (\<exists>r\<in>set (review_runs db). rr_review_id r = al_reviewId a \<and> run_active r \<and> old = Some (run_id r))"
    "seq_gap_free es" "\<forall>e\<in>set es. e \<in> set (workflow_events db) \<or> event_id e = e1 \<and> ev_delivery_id e = None"
proof -
  let ?p = "\<lambda>r. rr_review_id r = al_reviewId a \<and> run_active r" and ?f = "supersede_set (of_date clk) ''superseded'' newRunId"
  let ?db1 = "db\<lparr>review_runs := upd_where ?p ?f (review_runs db)\<rparr>"
  have wf: "\<forall>r\<in>set (review_runs db). run_checks r" "seq_gap_free (workflow_events db)"
    using assms(1) by (simp_all add: history_ok_def review_wf_def runs_ok_def)
  have rdy: "review_installation db (al_reviewId a) = Some (al_installationId a)" "newRunId \<notin> set (run_ids db)"
    "e1 \<notin> event_id ` set (workflow_events db)" using assms(2) by (simp_all add: alloc_ready_def)
  have up: "update_runs ?p ?f db = Inr ?db1" using wf(1) rdy(2) by (auto simp: update_runs_def intro!: supersede_checks)
  have sup: "supersedeRun clk e1 (al_reviewId a) newRunId (al_provider a) ''superseded'' (Some (al_installationId a)) db =
    (case first_row (returning ?p ?f (review_runs db)) of None \<Rightarrow> Inr (None, ?db1)
     | Some old \<Rightarrow> (case emitWorkflowEvent clk e1 (al_provider a) (run_id old) (al_reviewId a) ''RUN_SUPERSEDED''
           [(''new_run_id'', JStr newRunId), (''reason'', JStr ''superseded'')] None (Some (al_installationId a)) ?db1 of
              Inl e \<Rightarrow> Inl e | Inr db2 \<Rightarrow> Inr (Some (run_id old), db2)))"
    by (simp add: supersedeRun_def rdy(1) up CANCEL_REASONS_def Let_def)
  show thesis
  proof (cases "first_row (returning ?p ?f (review_runs db))")
    case None
    then show thesis using that [of None "workflow_events db"] sup wf(2) by simp
  next
    case (Some old)
    then obtain r where r: "r \<in> set (review_runs db)" "?p r" "old = ?f r"
      by (auto simp: returning_def dest!: first_row_Some)
    have run: "run_id old \<in> set (run_ids ?db1)" using r by (simp add: map_key_upd_where)
    have more: "seq_gap_free (workflow_events ?db1)" "al_reviewId a \<in> review_id ` set (reviews ?db1)"
      "e1 \<notin> event_id ` set (workflow_events ?db1)" "''RUN_SUPERSEDED'' \<in> set EVENT_TYPES"
      using wf(2) rdy(3) review_installation_review [OF rdy(1)] by (simp_all add: EVENT_TYPES_def)
    obtain e where e: "emitWorkflowEvent clk e1 (al_provider a) (run_id old) (al_reviewId a) ''RUN_SUPERSEDED''
           [(''new_run_id'', JStr newRunId), (''reason'', JStr ''superseded'')] None (Some (al_installationId a)) ?db1
        = Inr (?db1\<lparr>workflow_events := workflow_events ?db1 @ [e]\<rparr>)" "event_id e = e1" "ev_delivery_id e = None"
        "seq_gap_free (workflow_events ?db1 @ [e])"
      using emit_total [OF more(1,4) run more(2,3), of None] by blast
    have one: "supersedeRun clk e1 (al_reviewId a) newRunId (al_provider a) ''superseded'' (Some (al_installationId a)) db
       = Inr (Some (run_id old), db\<lparr>review_runs := upd_where ?p ?f (review_runs db), workflow_events := workflow_events db @ [e]\<rparr>)"
      unfolding sup Some using e(1) by simp
    have two: "Some (run_id old) = None
        \<or> (\<exists>r\<in>set (review_runs db). rr_review_id r = al_reviewId a \<and> run_active r \<and> Some (run_id old) = Some (run_id r))"
      using r by auto
    show thesis using that [OF one two] e(2-4) by auto
  qed
qed

lemma allocateRun_steps:
  assumes "al_parentRunId a = None" and "al_attemptNumber a = 1" and "al_triggerType a \<in> set TRIGGER_TYPES"
    and "supersedeRun clk e1 (al_reviewId a) newRunId (al_provider a) ''superseded'' (Some (al_installationId a)) db = Inr (old, db1)"
    and "insert_run \<lparr>run_id = newRunId, rr_review_id = al_reviewId a, trigger_type = al_triggerType a,
                 triggered_by = al_triggeredBy a, attempt_number = al_attemptNumber a, lifecycle_state = ''PENDING'',
                 parent_run_id = al_parentRunId a, supersedes_run_id = old, superseded_by_run_id = None,
                 run_cancel_reason = None, rr_started_at = now, completed_at = None, failed_at = None,
                 cancelled_at = None\<rparr> db1 = Inr db2"
    and "flipCurrentRun (al_reviewId a) newRunId old (Some (al_installationId a)) db2 = Inr (prev, db3)"
  shows "allocateRun now clk newRunId e1 e2 a db = (case al_deliveryId a of
                       None \<Rightarrow> Inr (old, db3)
                     | Some d \<Rightarrow>
                         (case emitWorkflowEvent clk e2 (al_provider a) newRunId (al_reviewId a) ''WEBHOOK_RECEIVED''
                                 [(''trigger_type'', JStr (al_triggerType a)),
                                  (''attempt_number'', JNum (of_int (al_attemptNumber a)))]
                                 (Some d) (Some (al_installationId a)) db3 of
                            Inl e \<Rightarrow> Inl e
                          | Inr db4 \<Rightarrow> Inr (old, db4)))"
  using assms by (simp add: allocateRun_def)

lemma allocate_total:
  assumes "history_ok db" and "alloc_ready newRunId e1 e2 a db"
  obtains old db' where "transact (allocateRun now clk newRunId e1 e2 a) db = (Inr old, db')"
proof -
  let ?p = "\<lambda>r. rr_review_id r = al_reviewId a \<and> run_active r" and ?f = "supersede_set (of_date clk) ''superseded'' newRunId"
  have wf: "\<forall>r\<in>set (review_runs db). run_checks r" "refs_ok db" "commit_ok db" "current_live db"
    using assms(1) by (simp_all add: history_ok_def review_wf_def runs_ok_def)
  have rdy: "al_parentRunId a = None" "al_attemptNumber a = 1" "al_triggerType a \<in> set TRIGGER_TYPES"
    "review_installation db (al_reviewId a) = Some (al_installationId a)" "newRunId \<notin> set (run_ids db)" "e1 \<noteq> e2"
    "e2 \<notin> event_id ` set (workflow_events db)"
    using assms(2) by (simp_all add: alloc_ready_def)
  obtain old es where sup: "supersedeRun clk e1 (al_reviewId a) newRunId (al_provider a) ''superseded'' (Some (al_installationId a)) db
       = Inr (old, db\<lparr>review_runs := upd_where ?p ?f (review_runs db), workflow_events := es\<rparr>)"
    and old: "old = None \<or> (\<exists>r\<in>set (review_runs db). rr_review_id r = al_reviewId a \<and> run_active r \<and> old = Some (run_id r))"
    and es: "seq_gap_free es" "\<forall>e\<in>set es. e \<in> set (workflow_events db) \<or> event_id e = e1 \<and> ev_delivery_id e = None"
    by (rule supersede_total [OF assms, where clk = clk])
  let ?db1 = "db\<lparr>review_runs := upd_where ?p ?f (review_runs db), workflow_events := es\<rparr>"
  let ?n = "\<lparr>run_id = newRunId, rr_review_id = al_reviewId a, trigger_type = al_triggerType a,
                 triggered_by = al_triggeredBy a, attempt_number = al_attemptNumber a, lifecycle_state = ''PENDING'',
                 parent_run_id = al_parentRunId a, supersedes_run_id = old, superseded_by_run_id = None,
                 run_cancel_reason = None, rr_started_at = now, completed_at = None, failed_at = None,
                 cancelled_at = None\<rparr>"
  let ?db2 = "?db1\<lparr>review_runs := review_runs ?db1 @ [?n]\<rparr>"
  let ?db3 = "?db2\<lparr>reviews := upd_where (\<lambda>rv. review_id rv = al_reviewId a) (\<lambda>rv. rv\<lparr>current_run_id := Some newRunId\<rparr>) (reviews ?db2)\<rparr>"
  have ids: "map run_id (upd_where ?p ?f (review_runs db)) = run_ids db" by (simp add: map_key_upd_where)
  note rv = review_installation_review [OF rdy(4)]
  have ins: "insert_run ?n ?db1 = Inr ?db2"
    using rdy(1-3,5) rv old unfolding insert_run_def by (auto simp: ids run_checks_def lc_consts)
  obtain prev where prev: "first_row (filter (\<lambda>rv. review_id rv = al_reviewId a) (reviews ?db2)) = Some prev"
    using rv by (cases "first_row (filter (\<lambda>rv. review_id rv = al_reviewId a) (reviews ?db2))") (auto simp: filter_empty_conv)
  then have pm: "prev \<in> set (reviews db)" "review_id prev = al_reviewId a" by (auto dest!: first_row_Some)
  have "old = None \<or> current_run_id prev = old" using old wf(4) pm by (auto simp: current_live_def)
  then have flip: "flipCurrentRun (al_reviewId a) newRunId old (Some (al_installationId a)) ?db2 = Inr (current_run_id prev, ?db3)"
    using prev rdy(4) review_installation_same [of ?db2 db "al_reviewId a"] by (auto simp: flipCurrentRun_def)
  have cok: "commit_ok ?db3" using wf(3) ids by (auto simp: commit_ok_def set_upd_where run_ref_ok_def split: option.splits)
  have rest: "allocateRun now clk newRunId e1 e2 a db = (case al_deliveryId a of
                       None \<Rightarrow> Inr (old, ?db3)
                     | Some d \<Rightarrow>
                         (case emitWorkflowEvent clk e2 (al_provider a) newRunId (al_reviewId a) ''WEBHOOK_RECEIVED''
                                 [(''trigger_type'', JStr (al_triggerType a)),
                                  (''attempt_number'', JNum (of_int (al_attemptNumber a)))]
                                 (Some d) (Some (al_installationId a)) ?db3 of
                            Inl e \<Rightarrow> Inl e
                          | Inr db4 \<Rightarrow> Inr (old, db4)))"
    by (rule allocateRun_steps [OF rdy(1-3) sup ins flip])
  show thesis
  proof (cases "al_deliveryId a")
    case None
    then show thesis using that rest cok by (simp add: transact_def)
  next
    case (Some d)
    have "dl = None \<or> ev_provider e \<noteq> al_provider a \<or> ev_delivery_id e \<noteq> dl" if "e \<in> set es" "dl = Some d" for e dl
      using es(2) that(1) assms(2) Some that(2) by (auto simp: alloc_ready_def list_all_iff)
    then have del: "e \<in> set (workflow_events ?db3) \<Longrightarrow> Some d = None \<or> ev_provider e \<noteq> al_provider a \<or> ev_delivery_id e \<noteq> Some d" for e
      by simp
    have "map review_id (reviews ?db3) = map review_id (reviews db)" by (simp add: map_key_upd_where)
    then have rv3: "al_reviewId a \<in> review_id ` set (reviews ?db3)" using rv by (metis set_map)
    have new: "seq_gap_free (workflow_events ?db3)" "''WEBHOOK_RECEIVED'' \<in> set EVENT_TYPES" "newRunId \<in> set (run_ids ?db3)"
      "e2 \<notin> event_id ` set (workflow_events ?db3)"
      using es rdy(6,7) by (auto simp: EVENT_TYPES_def)
    obtain e where "emitWorkflowEvent clk e2 (al_provider a) newRunId (al_reviewId a) ''WEBHOOK_RECEIVED''
           [(''trigger_type'', JStr (al_triggerType a)), (''attempt_number'', JNum (of_int (al_attemptNumber a)))]
           (Some d) (Some (al_installationId a)) ?db3 = Inr (?db3\<lparr>workflow_events := workflow_events ?db3 @ [e]\<rparr>)"
      using emit_total [OF new(1-3) rv3 new(4) del] by blast
    moreover have "commit_ok (?db3\<lparr>workflow_events := workflow_events ?db3 @ [e]\<rparr>)" using cok by (simp add: commit_ok_def)
    ultimately show thesis using that rest Some by (simp add: transact_def)
  qed
qed

text \<open>What a committed fresh allocation leaves behind.\<close>

lemma allocated:
  assumes "al_parentRunId a = None" and "transact (allocateRun now clk newRunId e1 e2 a) db = (Inr old, db')"
  shows "points_at (al_reviewId a) newRunId db'"
    and "\<exists>r\<in>set (review_runs db'). run_id r = newRunId \<and> rr_review_id r = al_reviewId a \<and> lifecycle_state r = ''PENDING''
       \<and> supersedes_run_id r = old"
    and "\<forall>r\<in>set (review_runs db'). rr_review_id r = al_reviewId a \<and> run_active r \<longrightarrow> run_id r = newRunId"
    and "\<forall>r\<in>set (review_runs db). if rr_review_id r = al_reviewId a \<and> run_active r
       then supersede_set (of_date clk) ''superseded'' newRunId r \<in> set (review_runs db') else r \<in> set (review_runs db')"
proof -
  let ?p = "\<lambda>r. rr_review_id r = al_reviewId a \<and> run_active r" and ?f = "supersede_set (of_date clk) ''superseded'' newRunId"
  have al: "allocateRun now clk newRunId e1 e2 a db = Inr (old, db')" using assms(2) by (simp add: transact_Inr_iff)
  obtain n where runs: "review_runs db' = upd_where ?p ?f (review_runs db) @ [n]"
    and n: "run_id n = newRunId" "rr_review_id n = al_reviewId a" "lifecycle_state n = ''PENDING''" "supersedes_run_id n = old"
    by (rule fresh_runs [OF assms(1) al])
  show "points_at (al_reviewId a) newRunId db'" by (rule allocateRun_points_at [OF al])
  show "\<exists>r\<in>set (review_runs db'). run_id r = newRunId \<and> rr_review_id r = al_reviewId a \<and> lifecycle_state r = ''PENDING''
       \<and> supersedes_run_id r = old" using runs n by auto
  show "\<forall>r\<in>set (review_runs db'). ?p r \<longrightarrow> run_id r = newRunId" using runs n(1) by (auto simp: set_upd_where split: if_splits)
  show "\<forall>r\<in>set (review_runs db). if ?p r then ?f r \<in> set (review_runs db') else r \<in> set (review_runs db')"
  proof
    fix r assume "r \<in> set (review_runs db)"
    from upd_where_mem [OF this, of ?p ?f] show "if ?p r then ?f r \<in> set (review_runs db') else r \<in> set (review_runs db')"
      using runs by (cases "?p r") auto
  qed
qed

lemma allocated_history:
  assumes "history_ok db" and "al_parentRunId a = None" and "transact (allocateRun now clk newRunId e1 e2 a) db = (Inr old, db')"
  shows "history_ok db'"
proof -
  have "as_called (Lifecycle (LcAllocate now clk newRunId e1 e2 a))" using assms(2) by simp
  moreover have "review_exec (Lifecycle (LcAllocate now clk newRunId e1 e2 a)) db = db'" using assms(3) by simp
  ultimately show ?thesis using assms(1) review_exec_wf review_exec_live unfolding history_ok_def by metis
qed

lemma only_current_active:
  assumes "history_ok db" and "points_at revw rid db" and "r \<in> set (review_runs db)" and "rr_review_id r = revw" and "run_active r"
  shows "run_id r = rid"
  using assms by (fastforce simp: history_ok_def current_live_def points_at_def)

section \<open>Properties\<close>

lemma demo_history: "history_ok demo_db"
  using demo_db_wf by (simp add: history_ok_def current_live_def demo_db_def demo_run_def)

lemma demo_second_alloc:
  "alloc_ready ''r3'' ''e3'' ''e4'' demo_alloc (fold review_exec [Lifecycle (LcAllocate 5 5 ''r2'' ''e1'' ''e2'' demo_alloc)] demo_db)"
  by (simp add: alloc_ready_def transact_def allocateRun_def supersedeRun_def review_installation_def review_repos_def Let_def
      update_runs_def returning_def run_active_def run_checks_def supersede_set_def emitWorkflowEvent_def insert_event_def
      next_seq_def insert_run_def flipCurrentRun_def commit_ok_def demo_alloc_def demo_db_def demo_run_def lc_consts
      del: sortKeysDeep.simps)

text \<open>(C4) A new push always gets its run. After any history of every writer of the runs and of the current
  pointer, in any interleaving and with any of them failing, the allocation the webhook asks for commits: the constraints
  never reject it, its compare-and-swap on the current run never fails and its two events are never refused. It
  leaves the new run pending, pointed at by the review and its only active run; every run of the review that was
  active is cancelled as superseded by it, stamped by the clock, and every other run of the database is untouched.\<close>

theorem fresh_allocation_commits:
  assumes "history_ok db0" and "list_all as_called ops" and "db = fold review_exec ops db0"
    and "alloc_ready newRunId e1 e2 a db"
  shows "\<exists>old db'. transact (allocateRun now clk newRunId e1 e2 a) db = (Inr old, db')
    \<and> points_at (al_reviewId a) newRunId db'
    \<and> (\<exists>r\<in>set (review_runs db'). run_id r = newRunId \<and> rr_review_id r = al_reviewId a \<and> lifecycle_state r = ''PENDING''
          \<and> supersedes_run_id r = old)
    \<and> (\<forall>r\<in>set (review_runs db'). rr_review_id r = al_reviewId a \<and> run_active r \<longrightarrow> run_id r = newRunId)
    \<and> (\<forall>r\<in>set (review_runs db). if rr_review_id r = al_reviewId a \<and> run_active r
          then r\<lparr>lifecycle_state := ''CANCELLED'', cancelled_at := Some (of_date clk), run_cancel_reason := Some ''superseded'',
                 superseded_by_run_id := Some newRunId\<rparr> \<in> set (review_runs db')
          else r \<in> set (review_runs db'))"
proof -
  have ok: "history_ok db" using history_ok_run [OF assms(1,2)] assms(3) by simp
  have par: "al_parentRunId a = None" using assms(4) by (simp add: alloc_ready_def)
  obtain old db' where t: "transact (allocateRun now clk newRunId e1 e2 a) db = (Inr old, db')"
    by (rule allocate_total [OF ok assms(4), where now = now and clk = clk])
  show ?thesis using t allocated [OF par t] unfolding supersede_set_def by blast
qed

theorem fresh_allocation_commits_witness:
  "\<exists>old db'. transact (allocateRun 6 6 ''r3'' ''e3'' ''e4'' demo_alloc)
       (fold review_exec [Lifecycle (LcAllocate 5 5 ''r2'' ''e1'' ''e2'' demo_alloc)] demo_db) = (Inr old, db')
     \<and> points_at ''v1'' ''r3'' db'"
proof -
  have "list_all as_called [Lifecycle (LcAllocate 5 5 ''r2'' ''e1'' ''e2'' demo_alloc)]" by (simp add: demo_alloc_def)
  from fresh_allocation_commits [OF demo_history this refl demo_second_alloc, of 6 6] show ?thesis
    by (auto simp: demo_alloc_def simp del: fold.simps fold_simps)
qed

text \<open>(C5) A superseded run is locked out. Once a fresh allocation has committed, and whatever the writers of
  the runs do afterwards except allocate on the same review again, the stale-write guard admits the new run and
  refuses every other one, and no run of the review but the new one is active.\<close>

theorem superseded_run_stays_out:
  assumes "history_ok db" and "al_parentRunId a = None"
    and "transact (allocateRun now clk newRunId e1 e2 a) db = (Inr old, db')"
    and "list_all as_called ops" and "list_all (\<lambda>op. \<not> allocates_on (al_reviewId a) op) ops"
  shows "((\<exists>e. fst (assertCurrentRun clk' eid x (al_reviewId a) site (fold review_exec ops db')) = Inl e) \<longleftrightarrow> x \<noteq> newRunId)
    \<and> (\<forall>r\<in>set (review_runs (fold review_exec ops db')). rr_review_id r = al_reviewId a \<and> run_active r \<longrightarrow> run_id r = newRunId)"
proof -
  have p: "points_at (al_reviewId a) newRunId (fold review_exec ops db')"
    using run_points_at [OF allocated(1) [OF assms(2,3)] assms(5)] .
  have "history_ok (fold review_exec ops db')"
    by (rule history_ok_run [OF allocated_history [OF assms(1-3)] assms(4)])
  then show ?thesis using assertCurrentRun_points_at [OF p] only_current_active [OF _ p] by blast
qed
theorem superseded_run_stays_out_witness:
  "\<exists>db'. transact (allocateRun 5 5 ''r2'' ''e1'' ''e2'' demo_alloc) demo_db = (Inr (Some ''r1''), db')
     \<and> (\<exists>e. fst (assertCurrentRun 6 ''e6'' ''r1'' ''v1'' ''site''
          (fold review_exec [Settle 6 ''j1'' ''w1'' ''t1'' ''r1'' JobDead RunFailed ''boom'' ''operator_cancelled'', ReapStuck (\<lambda>_. False) 9 9 5] db')) = Inl e)"
proof -
  obtain db' where db': "transact (allocateRun 5 5 ''r2'' ''e1'' ''e2'' demo_alloc) demo_db = (Inr (Some ''r1''), db')"
    using demo_alloc_commits by blast
  let ?ops = "[Settle 6 ''j1'' ''w1'' ''t1'' ''r1'' JobDead RunFailed ''boom'' ''operator_cancelled'', ReapStuck (\<lambda>_. False) 9 9 5]"
  have "al_parentRunId demo_alloc = None" "list_all as_called ?ops" "list_all (\<lambda>op. \<not> allocates_on (al_reviewId demo_alloc) op) ?ops"
    by (simp_all add: demo_alloc_def)
  from superseded_run_stays_out [OF demo_history this(1) db' this(2,3), of 6 "''e6''" "''r1''" "''site''"] show ?thesis
    using db' by (auto simp: demo_alloc_def simp del: fold.simps fold_simps)
qed

end
