(* ===== verification/Review_Server.thy ===== *)
theory Review_Server
  imports Posting
begin

text \<open>
  The reviews of one pull request on a server, behind the production client: what \<open>Posting\<close> leaves to a client record is
  shown here of \<open>api_client\<close>, from what the server does with one request. The server may answer 5xx after it has added
  a review; \<open>lost\<close> counts these. The scan for the marker reads twenty pages; \<open>reach\<close> is the number of reviews
  it sees.
\<close>

section \<open>The server\<close>

text \<open>\<open>rv\<close> shows the reviews, ids and bodies, in the order of the listing. One request to create: added with a fresh id and
  answered with that id; refused with a 4xx; or answered 5xx, with or without an effect. No answer says nothing.\<close>

definition post_answer :: "('s \<Rightarrow> (int \<times> string) list) \<Rightarrow> ('s \<Rightarrow> nat) \<Rightarrow> 's review_api \<Rightarrow> string \<Rightarrow> 's \<Rightarrow> (string + http_response) \<times> 's \<Rightarrow> bool" where
  "post_answer rv lost api body s out \<longleftrightarrow>
     (let added = (\<lambda>i. i \<notin> fst ` set (rv s) \<and> rv (snd out) = rv s @ [(i, body)]);
          same = (rv (snd out) = rv s); kept = (lost (snd out) = lost s)
      in case fst out of
           Inl m \<Rightarrow> kept \<and> (same \<or> (\<exists>i. added i))
         | Inr r \<Rightarrow>
             if hr_status r < 400 then
               kept \<and> (\<exists>i. added i \<and> (\<forall>v j. response_json api r = Inr v \<longrightarrow> created_id (ra_number api) v = Inr j \<longrightarrow> j = i))
             else if hr_status r < 500 then kept \<and> same
             else kept \<and> same \<or> (\<exists>i. added i) \<and> lost (snd out) = Suc (lost s))"

definition rewritten :: "int \<Rightarrow> string \<Rightarrow> (int \<times> string) list \<Rightarrow> (int \<times> string) list" where
  "rewritten i body = map (\<lambda>(j, b). (j, if j = i then body else b))"

definition shown :: "(rat json option \<Rightarrow> int) \<Rightarrow> int \<times> string \<Rightarrow> rat json \<Rightarrow> bool" where
  "shown number r v \<longleftrightarrow> v \<noteq> JNull \<and> number (obj_field ''id'' v) = fst r \<and> obj_field ''body'' v = Some (JStr (snd r))"

text \<open>Page \<open>k\<close> of the listing has \<open>per\<close> reviews and, unless it is the last one, a link to the next.\<close>

definition page_answer :: "nat \<Rightarrow> (nat \<Rightarrow> string) \<Rightarrow> 's review_api \<Rightarrow> nat \<Rightarrow> (int \<times> string) list \<Rightarrow> http_response \<Rightarrow> bool" where
  "page_answer per link api k rs r \<longleftrightarrow>
     (\<forall>v. response_json api r = Inr v \<longrightarrow> (\<exists>vs. v = JArr vs \<and> list_all2 (shown (ra_number api)) (take per (drop (k * per) rs)) vs))
     \<and> extractNextLink (headerOf (hr_headers r) ''Link'') = (if Suc k * per < length rs then Some (link (Suc k)) else None)"

definition get_answer :: "('s \<Rightarrow> (int \<times> string) list) \<Rightarrow> ('s \<Rightarrow> nat) \<Rightarrow> nat \<Rightarrow> nat \<Rightarrow> (nat \<Rightarrow> string) \<Rightarrow> 's review_api \<Rightarrow> string \<Rightarrow> 's
     \<Rightarrow> (string + http_response) \<times> 's \<Rightarrow> bool" where
  "get_answer rv lost per reach link api path s out \<longleftrightarrow> rv (snd out) = rv s \<and> lost (snd out) = lost s
     \<and> (case fst out of Inl m \<Rightarrow> True
        | Inr r \<Rightarrow> hr_status r \<noteq> 422 \<and> (\<forall>k. path = link k \<and> length (rv s) \<le> reach \<and> (k = 0 \<or> k * per < length (rv s)) \<and> hr_status r < 400
             \<longrightarrow> page_answer per link api k (rv s) r))"

definition put_answer :: "('s \<Rightarrow> (int \<times> string) list) \<Rightarrow> ('s \<Rightarrow> nat) \<Rightarrow> int \<Rightarrow> string \<Rightarrow> 's \<Rightarrow> 's \<Rightarrow> bool" where
  "put_answer rv lost i body s s' \<longleftrightarrow> lost s' = lost s \<and> (rv s' = rv s \<or> rv s' = rewritten i body (rv s))"

definition reviews_server :: "('s \<Rightarrow> (int \<times> string) list) \<Rightarrow> ('s \<Rightarrow> nat) \<Rightarrow> nat \<Rightarrow> nat \<Rightarrow> (nat \<Rightarrow> string) \<Rightarrow> pull_ref \<Rightarrow> 's review_api \<Rightarrow> bool" where
  "reviews_server rv lost per reach link p api \<longleftrightarrow> reach \<le> MARKER_SCAN_MAX_PAGES * per \<and> link 0 = reviews_path p
     \<and> (\<forall>n token sha body cs s. post_answer rv lost api body s
          (ge_http (ra_write api) n \<lparr>hq_method = ''POST'', hq_path = reviews_path p, hq_token = token, hq_body = review_request sha body cs\<rparr> s))
     \<and> (\<forall>n token i body s. put_answer rv lost i body s
          (snd (ge_http (ra_write api) n \<lparr>hq_method = ''PUT'', hq_path = review_path p i, hq_token = token, hq_body = JObj [(''body'', JStr body)]\<rparr> s)))
     \<and> (\<forall>k n token path s. get_answer rv lost per reach link api path s
          (ge_http (ra_get api k) n \<lparr>hq_method = ''GET'', hq_path = path, hq_token = token, hq_body = JNull\<rparr> s))"

section \<open>A rule for the request loop\<close>

text \<open>\<open>I\<close> holds while a request may be sent again, \<open>Q\<close> of what the loop returns.\<close>

lemma verdict_cases:
  "request_verdict date now left refreshed q r = Refresh \<Longrightarrow> hr_status r = 401"
  "request_verdict date now left refreshed q r = Backoff \<Longrightarrow> 500 \<le> hr_status r"
  "request_verdict date now left refreshed q r = Accept \<Longrightarrow> hr_status r < 400"
  "request_verdict date now left refreshed q r = Stop x \<Longrightarrow> is_unprocessable x \<Longrightarrow> hr_status r = 422"
  by (auto simp: request_verdict_def Let_def is_unprocessable_def split: if_splits option.splits)

lemma request_loop_rule:
  assumes stop: "\<And>s x. I s \<Longrightarrow> \<not> is_unprocessable x \<Longrightarrow> Q (Inl x) s"
    and lost: "\<And>n t s m s'. I s \<Longrightarrow> ge_http e n \<lparr>hq_method = verb, hq_path = path, hq_token = t, hq_body = body\<rparr> s = (Inl m, s') \<Longrightarrow> Q (Inl (GhTransport m)) s'"
    and again: "\<And>n t s r s'. I s \<Longrightarrow> ge_http e n \<lparr>hq_method = verb, hq_path = path, hq_token = t, hq_body = body\<rparr> s = (Inr r, s') \<Longrightarrow> hr_status r = 401 \<or> 500 \<le> hr_status r \<Longrightarrow> I s'"
    and good: "\<And>n t s r s'. I s \<Longrightarrow> ge_http e n \<lparr>hq_method = verb, hq_path = path, hq_token = t, hq_body = body\<rparr> s = (Inr r, s') \<Longrightarrow> hr_status r < 400 \<Longrightarrow> Q (Inr r) s'"
    and bad: "\<And>n t s r s' x. I s \<Longrightarrow> ge_http e n \<lparr>hq_method = verb, hq_path = path, hq_token = t, hq_body = body\<rparr> s = (Inr r, s') \<Longrightarrow> (is_unprocessable x \<Longrightarrow> hr_status r = 422) \<Longrightarrow> Q (Inl x) s'"
  shows "I s \<Longrightarrow> Q (gr_result (request_loop e n attempt \<lparr>hq_method = verb, hq_path = path, hq_token = t, hq_body = body\<rparr> refreshed backoff s))
      (gr_state (request_loop e n attempt \<lparr>hq_method = verb, hq_path = path, hq_token = t, hq_body = body\<rparr> refreshed backoff s))"
proof (induction n arbitrary: attempt t refreshed backoff s)
  case 0
  then show ?case by (simp add: stop is_unprocessable_def)
next
  case (Suc n)
  let ?q = "\<lparr>hq_method = verb, hq_path = path, hq_token = t, hq_body = body\<rparr>"
  show ?case
  proof (cases "ge_aborted e (Suc attempt)")
    case (Some m)
    then show ?thesis using Suc.prems by (simp add: stop is_unprocessable_def)
  next
    case None
    obtain a s1 where a: "ge_http e attempt ?q s = (a, s1)" by force
    show ?thesis
    proof (cases a)
      case (Inl m)
      then show ?thesis using None a lost [OF Suc.prems] by simp
    next
      case (Inr r)
      note out = a [unfolded Inr]
      show ?thesis
      proof (cases "request_verdict (ge_date e) (ge_now e attempt) n refreshed ?q r")
        case Refresh
        then have "hr_status r = 401" by (rule verdict_cases)
        moreover from this have "I s1" using again [OF Suc.prems out] by simp
        moreover have "Q (Inl (GhToken x)) s1" for x by (rule bad [OF Suc.prems out]) (simp add: is_unprocessable_def)
        ultimately show ?thesis using None out Refresh Suc.IH [of s1 "Suc attempt" _ True backoff] by (simp split: sum.split)
      next
        case Backoff
        then have "I s1" using again [OF Suc.prems out] verdict_cases(2) by blast
        then show ?thesis using None out Backoff Suc.IH [of s1 "Suc attempt" t refreshed "backoff * 2"] by simp
      next
        case (Stop x)
        then have "Q (Inl x) s1" using verdict_cases(4) by (intro bad [OF Suc.prems out]) blast
        then show ?thesis using None out Stop by simp
      next
        case Accept
        then show ?thesis using None out good [OF Suc.prems out verdict_cases(3) [OF Accept]] by simp
      qed
    qed
  qed
qed

lemma gh_request_rule:
  assumes "I s"
    and stop: "\<And>s x. I s \<Longrightarrow> \<not> is_unprocessable x \<Longrightarrow> Q (Inl x) s"
    and lost: "\<And>n t s m s'. I s \<Longrightarrow> ge_http e n \<lparr>hq_method = verb, hq_path = path, hq_token = t, hq_body = body\<rparr> s = (Inl m, s')
       \<Longrightarrow> Q (Inl (GhTransport m)) s'"
    and again: "\<And>n t s r s'. I s \<Longrightarrow> ge_http e n \<lparr>hq_method = verb, hq_path = path, hq_token = t, hq_body = body\<rparr> s = (Inr r, s')
       \<Longrightarrow> hr_status r = 401 \<or> 500 \<le> hr_status r \<Longrightarrow> I s'"
    and good: "\<And>n t s r s'. I s \<Longrightarrow> ge_http e n \<lparr>hq_method = verb, hq_path = path, hq_token = t, hq_body = body\<rparr> s = (Inr r, s')
       \<Longrightarrow> hr_status r < 400 \<Longrightarrow> Q (Inr r) s'"
    and bad: "\<And>n t s r s' x. I s \<Longrightarrow> ge_http e n \<lparr>hq_method = verb, hq_path = path, hq_token = t, hq_body = body\<rparr> s = (Inr r, s')
       \<Longrightarrow> (is_unprocessable x \<Longrightarrow> hr_status r = 422) \<Longrightarrow> Q (Inl x) s'"
  shows "Q (gr_result (gh_request e verb path body s)) (gr_state (gh_request e verb path body s))"
proof (cases "ge_aborted e 0 = None \<and> (\<exists>token. ge_token e False = Inr token)")
  case True
  then obtain token where t: "ge_aborted e 0 = None" "ge_token e False = Inr token" by blast
  let ?q = "\<lparr>hq_method = verb, hq_path = path, hq_token = token, hq_body = body\<rparr>"
  have "gh_request e verb path body s = request_loop e MAX_5XX_RETRIES 0 ?q False INITIAL_BACKOFF_SECONDS s"
    using t by (simp add: gh_request_def)
  moreover have "Q (gr_result (request_loop e n a ?q f b s)) (gr_state (request_loop e n a ?q f b s))" for n a f b
    by (rule request_loop_rule [of I Q e, OF stop lost again good bad assms(1)])
  ultimately show ?thesis by simp
next
  case False
  then show ?thesis using stop [OF assms(1)] by (auto simp: gh_request_def is_unprocessable_def split: option.splits sum.splits)
qed

section \<open>What a client of such a server does\<close>

definition spread :: "('g \<Rightarrow> (int \<times> string) list) \<Rightarrow> string \<Rightarrow> 'g \<Rightarrow> int list \<Rightarrow> 'g \<Rightarrow> bool" where
  "spread rv body g ids g' \<longleftrightarrow> rv g' = rv g @ map (\<lambda>i. (i, body)) ids \<and> distinct (map fst (rv g'))"

text \<open>A create that says so has added a review; one that is refused has added no more than was lost, one that fails at most
  one more.\<close>

definition created_by :: "('g \<Rightarrow> (int \<times> string) list) \<Rightarrow> ('g \<Rightarrow> nat) \<Rightarrow> string \<Rightarrow> 'g \<Rightarrow> (gh_error + created_review) \<times> 'g \<Rightarrow> bool" where
  "created_by rv lost body g out \<longleftrightarrow> (\<exists>ids. spread rv body g ids (snd out) \<and> lost g \<le> lost (snd out)
     \<and> (case fst out of
          Inr cr \<Rightarrow> cr_reviewId cr \<in> set ids \<and> length ids + lost g \<le> Suc (lost (snd out))
        | Inl x \<Rightarrow> length ids + lost g \<le> (if is_unprocessable x then lost (snd out) else Suc (lost (snd out)))))"

definition review_port :: "('g \<Rightarrow> (int \<times> string) list) \<Rightarrow> ('g \<Rightarrow> nat) \<Rightarrow> nat \<Rightarrow> string \<Rightarrow> 'g review_client \<Rightarrow> bool" where
  "review_port rv lost reach m c \<longleftrightarrow>
     (\<forall>body sha cs g. distinct (map fst (rv g)) \<longrightarrow> created_by rv lost body g (rc_create c body sha cs g))
   \<and> (\<forall>i body g. put_answer rv lost i body g (snd (rc_update c i body g)))
   \<and> (\<forall>g. rv (snd (rc_find c m g)) = rv g \<and> lost (snd (rc_find c m g)) = lost g
        \<and> (length (rv g) \<le> reach \<longrightarrow> (case fst (rc_find c m g) of Inl x \<Rightarrow> True | Inr None \<Rightarrow> marked_ids rv m g = []
             | Inr (Some i) \<Rightarrow> i \<in> set (marked_ids rv m g))))
   \<and> (\<forall>i g. rv (snd (rc_comments c i g)) = rv g \<and> lost (snd (rc_comments c i g)) = lost g)"

lemma get_run:
  assumes "reviews_server rv lost per reach link p api"
  shows "rv (gr_state (gh_request (ra_get api n) ''GET'' path JNull s)) = rv s \<and> lost (gr_state (gh_request (ra_get api n) ''GET'' path JNull s)) = lost s
    \<and> (case gr_result (gh_request (ra_get api n) ''GET'' path JNull s) of
         Inl x \<Rightarrow> \<not> is_unprocessable x
       | Inr r \<Rightarrow> (\<forall>k. path = link k \<and> length (rv s) \<le> reach \<and> (k = 0 \<or> k * per < length (rv s)) \<longrightarrow> page_answer per link api k (rv s) r))"
  (is "?P (gr_result (gh_request (ra_get api n) ''GET'' path JNull s)) (gr_state (gh_request (ra_get api n) ''GET'' path JNull s))")
proof (rule gh_request_rule [where I = "\<lambda>z. rv z = rv s \<and> lost z = lost s"])
  have g: "get_answer rv lost per reach link api path z (ge_http (ra_get api n) i \<lparr>hq_method = ''GET'', hq_path = path, hq_token = t, hq_body = JNull\<rparr> z)"
    for z i t using assms by (simp add: reviews_server_def)
  fix i t z r z' assume I: "rv z = rv s \<and> lost z = lost s"
    and out: "ge_http (ra_get api n) i \<lparr>hq_method = ''GET'', hq_path = path, hq_token = t, hq_body = JNull\<rparr> z = (Inr r, z')"
  note a = g [of z i t, unfolded out]
  show "rv z' = rv s \<and> lost z' = lost s" using a I by (simp add: get_answer_def)
  show "?P (Inr r) z'" if "hr_status r < 400" using a I that by (simp add: get_answer_def)
  show "?P (Inl x) z'" if "is_unprocessable x \<Longrightarrow> hr_status r = 422" for x using a I that by (auto simp: get_answer_def)
next
  fix i t z m z' assume I: "rv z = rv s \<and> lost z = lost s"
    and out: "ge_http (ra_get api n) i \<lparr>hq_method = ''GET'', hq_path = path, hq_token = t, hq_body = JNull\<rparr> z = (Inl m, z')"
  have "get_answer rv lost per reach link api path z (Inl m, z')" using assms out by (simp add: reviews_server_def) metis
  then show "?P (Inl (GhTransport m)) z'" using I by (simp add: get_answer_def is_unprocessable_def)
qed simp_all

lemma post_answer_cases:
  assumes "post_answer rv lost api body s (a, s')" and "distinct (map fst (rv s))"
  shows "case a of
      Inl m \<Rightarrow> lost s' = lost s \<and> (spread rv body s [] s' \<or> (\<exists>i. spread rv body s [i] s'))
    | Inr r \<Rightarrow> if hr_status r < 400 then lost s' = lost s \<and> (\<exists>i. spread rv body s [i] s'
           \<and> (\<forall>v j. response_json api r = Inr v \<longrightarrow> created_id (ra_number api) v = Inr j \<longrightarrow> j = i))
        else spread rv body s [] s' \<and> lost s' = lost s
           \<or> hr_status r \<ge> 500 \<and> (\<exists>i. spread rv body s [i] s') \<and> lost s' = Suc (lost s)"
  using assms by (auto simp: post_answer_def spread_def Let_def split: sum.splits if_splits)

lemma spread_trans: "spread rv body s ids z \<Longrightarrow> spread rv body z js z' \<Longrightarrow> spread rv body s (ids @ js) z'"
  unfolding spread_def by (metis append.assoc map_append)

lemma spread_same: "spread rv body s ids y \<Longrightarrow> rv z = rv y \<Longrightarrow> spread rv body s ids z"
  unfolding spread_def by metis

lemma spread_distinct: "spread rv body s ids z \<Longrightarrow> distinct (map fst (rv z))"
  unfolding spread_def by blast

lemma post_run:
  assumes "reviews_server rv lost per reach link p api" and "distinct (map fst (rv s))"
  shows "case gr_result (gh_request (ra_write api) ''POST'' (reviews_path p) (review_request sha body cs) s) of
      Inl x \<Rightarrow> (\<exists>ids. spread rv body s ids (gr_state (gh_request (ra_write api) ''POST'' (reviews_path p) (review_request sha body cs) s))
          \<and> lost (gr_state (gh_request (ra_write api) ''POST'' (reviews_path p) (review_request sha body cs) s)) = lost s + length ids)
        \<or> \<not> is_unprocessable x \<and> (\<exists>ids i. spread rv body s (ids @ [i]) (gr_state (gh_request (ra_write api) ''POST'' (reviews_path p) (review_request sha body cs) s))
          \<and> lost (gr_state (gh_request (ra_write api) ''POST'' (reviews_path p) (review_request sha body cs) s)) = lost s + length ids)
    | Inr r \<Rightarrow> \<exists>ids i. spread rv body s (ids @ [i]) (gr_state (gh_request (ra_write api) ''POST'' (reviews_path p) (review_request sha body cs) s))
          \<and> lost (gr_state (gh_request (ra_write api) ''POST'' (reviews_path p) (review_request sha body cs) s)) = lost s + length ids
          \<and> (\<forall>v j. response_json api r = Inr v \<longrightarrow> created_id (ra_number api) v = Inr j \<longrightarrow> j = i)"
  (is "?Q (gr_result (gh_request (ra_write api) ''POST'' (reviews_path p) ?b s)) (gr_state (gh_request (ra_write api) ''POST'' (reviews_path p) ?b s))")
proof -
  let ?I = "\<lambda>z. \<exists>ids. spread rv body s ids z \<and> lost z = lost s + length ids"
  let ?one = "\<lambda>z. \<exists>ids i. spread rv body s (ids @ [i]) z \<and> lost z = lost s + length ids"
  have ans: "post_answer rv lost api body z (ge_http (ra_write api) n \<lparr>hq_method = ''POST'', hq_path = reviews_path p, hq_token = t, hq_body = ?b\<rparr> z)"
    for z n t using assms(1) by (simp add: reviews_server_def)
  show ?thesis
  proof (rule gh_request_rule [where I = ?I])
    show "?I s" using assms(2) by (intro exI [of _ "[]"]) (simp add: spread_def)
  next
    fix n t z m z' assume I: "?I z"
      and out: "ge_http (ra_write api) n \<lparr>hq_method = ''POST'', hq_path = reviews_path p, hq_token = t, hq_body = ?b\<rparr> z = (Inl m, z')"
    obtain ids where ids: "spread rv body s ids z" "lost z = lost s + length ids" using I by blast
    note d = spread_distinct [OF ids(1)]
    have "lost z' = lost z \<and> (spread rv body z [] z' \<or> (\<exists>i. spread rv body z [i] z'))"
      using post_answer_cases [OF ans [of z n t, unfolded out] d] by simp
    then have "?I z' \<or> ?one z'" using spread_trans [OF ids(1)] ids(2) by fastforce
    then show "?Q (Inl (GhTransport m)) z'" by (simp add: is_unprocessable_def)
  next
    fix n t z r z' assume I: "?I z"
      and out: "ge_http (ra_write api) n \<lparr>hq_method = ''POST'', hq_path = reviews_path p, hq_token = t, hq_body = ?b\<rparr> z = (Inr r, z')"
    obtain ids where ids: "spread rv body s ids z" "lost z = lost s + length ids" using I by blast
    note d = spread_distinct [OF ids(1)]
    note c = post_answer_cases [OF ans [of z n t, unfolded out] d, unfolded sum.case]
    have keep: "?I z'" if "\<not> hr_status r < 400"
    proof -
      have "spread rv body z [] z' \<and> lost z' = lost z \<or> (\<exists>i. spread rv body z [i] z') \<and> lost z' = Suc (lost z)"
        using c that by auto
      then obtain js where "spread rv body z js z'" "lost z' = lost z + length js" by auto
      then show ?thesis using spread_trans [OF ids(1)] ids(2) by (metis add.assoc length_append)
    qed
    show "hr_status r = 401 \<or> 500 \<le> hr_status r \<Longrightarrow> ?I z'" using keep by auto
    have good: "\<exists>ids i. spread rv body s (ids @ [i]) z' \<and> lost z' = lost s + length ids
        \<and> (\<forall>v j. response_json api r = Inr v \<longrightarrow> created_id (ra_number api) v = Inr j \<longrightarrow> j = i)" if "hr_status r < 400"
    proof -
      note c' = c [unfolded if_P [OF that]]
      obtain i where i: "lost z' = lost z" "spread rv body z [i] z'"
        "\<forall>v j. response_json api r = Inr v \<longrightarrow> created_id (ra_number api) v = Inr j \<longrightarrow> j = i" using c' by blast
      then show ?thesis using spread_trans [OF ids(1) i(2)] ids(2) by auto
    qed
    then show "?Q (Inr r) z'" if "hr_status r < 400" using that by simp
    show "?Q (Inl x) z'" if u: "is_unprocessable x \<Longrightarrow> hr_status r = 422" for x
    proof (cases "hr_status r < 400")
      case True
      then have "\<not> is_unprocessable x" using u by auto
      then show ?thesis using good [OF True] by auto
    next
      case False
      then show ?thesis using keep by simp
    qed
  qed auto
qed

lemma comments_run:
  assumes "reviews_server rv lost per reach link p api"
  shows "rv (snd (listReviewComments api n p i s)) = rv s \<and> lost (snd (listReviewComments api n p i s)) = lost s
    \<and> (\<forall>x. fst (listReviewComments api n p i s) = Inl x \<longrightarrow> \<not> is_unprocessable x)"
  using get_run [OF assms, of n "review_path p i @ ''/comments''" s]
  by (auto simp: listReviewComments_def Let_def read_json_def response_json_def json_items_def item_ids_def is_unprocessable_def
      split: sum.splits option.splits json.splits if_splits)

lemma createReview_by:
  assumes "reviews_server rv lost per reach link p api" and "distinct (map fst (rv s))"
  shows "created_by rv lost body s (createReview api p body sha cs s)"
proof -
  let ?run = "gh_request (ra_write api) ''POST'' (reviews_path p) (review_request sha body cs) s"
  note post = post_run [OF assms, where sha = sha and body = body and cs = cs]
  have made: "\<exists>ids i. spread rv body s (ids @ [i]) (gr_state ?run) \<and> lost (gr_state ?run) = lost s + length ids
      \<and> (\<forall>v j. response_json api r = Inr v \<longrightarrow> created_id (ra_number api) v = Inr j \<longrightarrow> j = i)" if "gr_result ?run = Inr r" for r
    using post that by simp
  have by_I: "created_by rv lost body s (x, z)"
    if "spread rv body s (ids @ [i]) z" "lost z = lost s + length ids" "case x of Inr cr \<Rightarrow> cr_reviewId cr = i | Inl y \<Rightarrow> \<not> is_unprocessable y" for x z ids i
    using that unfolding created_by_def by (intro exI [of _ "ids @ [i]"]) (auto split: sum.splits)
  show ?thesis
  proof (cases "read_json api ?run (created_id (ra_number api))")
    case (Inl x)
    have out: "createReview api p body sha cs s = (Inl x, gr_state ?run)" using Inl by (simp add: createReview_def Let_def)
    show ?thesis
    proof (cases "gr_result ?run")
      case (Inl y)
      then have "y = x" using \<open>read_json api ?run (created_id (ra_number api)) = Inl x\<close> by (simp add: read_json_def)
      then show ?thesis using post Inl out by (fastforce simp: created_by_def)
    next
      case (Inr r)
      have "\<not> is_unprocessable x" using \<open>read_json api ?run (created_id (ra_number api)) = Inl x\<close> Inr
        by (auto simp: read_json_def response_json_def created_id_def is_unprocessable_def split: option.splits if_splits)
      then show ?thesis using made [OF Inr] by_I out by fastforce
    qed
  next
    case (Inr j)
    then obtain r v where r: "gr_result ?run = Inr r" "response_json api r = Inr v" "created_id (ra_number api) v = Inr j"
      by (auto simp: read_json_def split: sum.splits)
    obtain ids where ids: "spread rv body s (ids @ [j]) (gr_state ?run)" "lost (gr_state ?run) = lost s + length ids"
      using made [OF r(1)] r(2,3) by blast
    show ?thesis
    proof (cases "cs = []")
      case True
      then show ?thesis using Inr by_I [OF ids, of "Inr \<lparr>cr_reviewId = j, cr_commentIds = []\<rparr>"] by (simp add: createReview_def Let_def)
    next
      case False
      obtain x z where xz: "listReviewComments api 0 p j (gr_state ?run) = (x, z)" by force
      note c = comments_run [OF assms(1), of 0 j "gr_state ?run", unfolded xz]
      have z: "spread rv body s (ids @ [j]) z" "lost z = lost s + length ids" using c ids spread_same [OF ids(1)] by simp_all
      show ?thesis using Inr False xz c by_I [OF z] by (cases x) (simp_all add: createReview_def Let_def)
    qed
  qed
qed

lemma updateReview_answer:
  assumes "reviews_server rv lost per reach link p api"
  shows "put_answer rv lost i body s (snd (updateReview api p i body s))"
proof -
  let ?P = "put_answer rv lost i body s"
  let ?run = "gh_request (ra_write api) ''PUT'' (review_path p i) (JObj [(''body'', JStr body)]) s"
  have twice: "rewritten i body (rewritten i body rs) = rewritten i body rs" for rs by (induction rs) (auto simp: rewritten_def)
  have ans: "put_answer rv lost i body z (snd (ge_http (ra_write api) n
      \<lparr>hq_method = ''PUT'', hq_path = review_path p i, hq_token = t, hq_body = JObj [(''body'', JStr body)]\<rparr> z))" for z n t
    using assms by (simp add: reviews_server_def)
  have step: "?P z'" if "?P z" "ge_http (ra_write api) n
      \<lparr>hq_method = ''PUT'', hq_path = review_path p i, hq_token = t, hq_body = JObj [(''body'', JStr body)]\<rparr> z = (a, z')" for z n t a z'
    using ans [of z n t] that twice unfolding put_answer_def by auto
  have "?P (gr_state ?run)"
    by (rule gh_request_rule [where I = ?P and Q = "\<lambda>_. ?P"]) (use step in \<open>auto simp: put_answer_def [of rv lost i body s s]\<close>)
  then show ?thesis by (simp add: updateReview_def Let_def)
qed

lemma page_hit_shown:
  assumes "list_all2 (shown number) rs vs" and "m \<noteq> []"
  shows "case page_hit m vs of Inl x \<Rightarrow> False
    | Inr None \<Rightarrow> filter (\<lambda>(i, b). sublist m b) rs = []
    | Inr (Some v) \<Rightarrow> number (obj_field ''id'' v) \<in> fst ` set (filter (\<lambda>(i, b). sublist m b) rs)"
  using assms(1)
proof (induction rs vs rule: list_all2_induct)
  case (Cons r rs v vs)
  obtain i b where r: "r = (i, b)" by (cases r)
  have v: "v \<noteq> JNull" "number (obj_field ''id'' v) = i" "obj_field ''body'' v = Some (JStr b)" using Cons(1) r by (simp_all add: shown_def)
  have "has_marker m v \<longleftrightarrow> sublist m b" using v(3) assms(2) by (auto simp: has_marker_def)
  then show ?case using Cons.IH v r by (auto split: sum.splits option.splits)
qed simp

lemma drop_page: "drop k rs = take per (drop k rs) @ drop (k + per) rs"
  by (metis append_take_drop_id drop_drop add.commute)

lemma marker_scan_sees:
  assumes "reviews_server rv lost per reach link p api" and "m \<noteq> []" and "length (rv s0) \<le> reach"
  shows "rv s = rv s0 \<Longrightarrow> lost s = lost s0 \<Longrightarrow> k = 0 \<or> k * per < length (rv s0) \<Longrightarrow> length (rv s0) \<le> (n + k) * per \<Longrightarrow> 0 < n \<Longrightarrow>
    rv (snd (marker_scan api m n pg (Some (link k)) s)) = rv s0 \<and> lost (snd (marker_scan api m n pg (Some (link k)) s)) = lost s0
    \<and> (case fst (marker_scan api m n pg (Some (link k)) s) of Inl x \<Rightarrow> True
       | Inr None \<Rightarrow> filter (\<lambda>(i, b). sublist m b) (drop (k * per) (rv s0)) = []
       | Inr (Some i) \<Rightarrow> i \<in> set (marked_ids rv m s0))"
proof (induction n arbitrary: k pg s)
  case (Suc n)
  let ?run = "gh_request (ra_get api pg) ''GET'' (link k) JNull s"
  let ?hit = "read_json api ?run (\<lambda>v. case json_elements v of Inl x \<Rightarrow> Inl x | Inr rs \<Rightarrow> page_hit m rs)"
  note run = get_run [OF assms(1), of pg "link k" s]
  have st: "rv (gr_state ?run) = rv s0" "lost (gr_state ?run) = lost s0" using run Suc.prems(1,2) by simp_all
  show ?case
  proof (cases ?hit)
    case (Inl x)
    then show ?thesis using st by (simp add: Let_def)
  next
    case (Inr h)
    then obtain r v where r: "gr_result ?run = Inr r" "response_json api r = Inr v"
      by (auto simp: read_json_def split: sum.splits)
    have page: "page_answer per link api k (rv s0) r" using run r(1) Suc.prems(1,3) assms(3) by simp
    then obtain vs where vs: "v = JArr vs" "list_all2 (shown (ra_number api)) (take per (drop (k * per) (rv s0))) vs"
      using r(2) by (auto simp: page_answer_def)
    have nx: "next_page ?run = (if Suc k * per < length (rv s0) then Some (link (Suc k)) else None)"
      using page r(1) by (simp add: next_page_def page_answer_def)
    have h: "page_hit m vs = Inr h" using Inr r vs(1) by (simp add: read_json_def json_elements_def json_items_def)
    note hit = page_hit_shown [OF vs(2) assms(2), unfolded h]
    show ?thesis
    proof (cases h)
      case (Some w)
      have "set (take per (drop (k * per) (rv s0))) \<subseteq> set (rv s0)" by (meson set_drop_subset set_take_subset subset_trans)
      then have "ra_number api (obj_field ''id'' w) \<in> set (marked_ids rv m s0)" using hit Some by (auto simp: marked_ids_def)
      then show ?thesis using Inr Some st by (simp add: Let_def)
    next
      case None
      have here: "filter (\<lambda>(i, b). sublist m b) (take per (drop (k * per) (rv s0))) = []" using hit None by simp
      show ?thesis
      proof (cases "Suc k * per < length (rv s0)")
        case True
        then have "0 < n" using Suc.prems(4) by (cases n) auto
        then have IH: "rv (snd (marker_scan api m n (Suc pg) (Some (link (Suc k))) (gr_state ?run))) = rv s0
          \<and> lost (snd (marker_scan api m n (Suc pg) (Some (link (Suc k))) (gr_state ?run))) = lost s0
          \<and> (case fst (marker_scan api m n (Suc pg) (Some (link (Suc k))) (gr_state ?run)) of Inl x \<Rightarrow> True
             | Inr None \<Rightarrow> filter (\<lambda>(i, b). sublist m b) (drop (Suc k * per) (rv s0)) = []
             | Inr (Some i) \<Rightarrow> i \<in> set (marked_ids rv m s0))"
          using True Suc.prems(4) by (intro Suc.IH [OF st]) simp_all
        have "filter (\<lambda>(i, b). sublist m b) (drop (k * per) (rv s0)) = filter (\<lambda>(i, b). sublist m b) (drop (Suc k * per) (rv s0))"
          using here by (subst drop_page [where per = per]) (simp add: add.commute)
        then show ?thesis using Inr None nx True IH by (auto simp: Let_def split: sum.splits option.splits)
      next
        case False
        then have "drop (k * per) (rv s0) = take per (drop (k * per) (rv s0))"
          by (subst drop_page [where per = per]) (simp add: add.commute)
        then have "filter (\<lambda>(i, b). sublist m b) (drop (k * per) (rv s0)) = []" using here by simp
        then show ?thesis using Inr None nx False st by (cases n) (simp_all add: Let_def)
      qed
    qed
  qed
qed simp

lemma marker_scan_same:
  assumes "reviews_server rv lost per reach link p api"
  shows "rv (snd (marker_scan api m n pg path s)) = rv s \<and> lost (snd (marker_scan api m n pg path s)) = lost s"
proof (induction n arbitrary: pg path s)
  case (Suc n)
  have "rv (gr_state (gh_request (ra_get api pg) ''GET'' q JNull s)) = rv s \<and> lost (gr_state (gh_request (ra_get api pg) ''GET'' q JNull s)) = lost s" for q
    using get_run [OF assms, of pg q s] by blast
  then show ?case using Suc.IH by (cases path) (simp_all add: Let_def split: sum.split option.split)
qed simp

lemma server_port:
  assumes "reviews_server rv lost per reach link p api" and "m \<noteq> []"
  shows "review_port rv lost reach m (api_client api p)"
proof -
  have f: "rv (snd (findExistingReviewByMarker api p m g)) = rv g \<and> lost (snd (findExistingReviewByMarker api p m g)) = lost g
      \<and> (length (rv g) \<le> reach \<longrightarrow> (case fst (findExistingReviewByMarker api p m g) of Inl x \<Rightarrow> True | Inr None \<Rightarrow> marked_ids rv m g = []
             | Inr (Some i) \<Rightarrow> i \<in> set (marked_ids rv m g)))" for g
  proof (cases "length (rv g) \<le> reach")
    case True
    have n: "length (rv g) \<le> (MARKER_SCAN_MAX_PAGES + 0) * per" "reviews_path p = link 0" "0 < MARKER_SCAN_MAX_PAGES"
      using assms(1) True by (auto simp: reviews_server_def MARKER_SCAN_MAX_PAGES_def)
    show ?thesis using marker_scan_sees [OF assms True refl refl disjI1 n(1,3), of 0] n(2)
      by (auto simp: findExistingReviewByMarker_def marked_ids_def split: sum.splits option.splits)
  next
    case False
    then show ?thesis using marker_scan_same [OF assms(1), of m MARKER_SCAN_MAX_PAGES 0 "Some (reviews_path p)" g]
      by (simp add: findExistingReviewByMarker_def)
  qed
  show ?thesis unfolding review_port_def api_client_def review_client.simps
    using createReview_by [OF assms(1)] updateReview_answer [OF assms(1)] comments_run [OF assms(1)] f by blast
qed

section \<open>One review per pull request\<close>

text \<open>What holds of one pull request between the calls: at most one marked review besides those the server added behind a
  5xx, none besides those before the first claim, and a stored id is that of a marked review.\<close>

definition posted_well :: "('g \<Rightarrow> (int \<times> string) list) \<Rightarrow> ('g \<Rightarrow> nat) \<Rightarrow> uuid \<Rightarrow> 'g post_state \<Rightarrow> bool" where
  "posted_well rv lost prId s \<longleftrightarrow> distinct (map fst (rv (ps_host s)))
     \<and> (case pr_rows prId (ps_rows s) of
          [] \<Rightarrow> length (marked_ids rv (markerFor prId) (ps_host s)) \<le> lost (ps_host s)
        | r # rs \<Rightarrow> rs = [] \<and> length (marked_ids rv (markerFor prId) (ps_host s)) \<le> Suc (lost (ps_host s))
            \<and> (case pw_review_id r of None \<Rightarrow> True | Some i \<Rightarrow> i \<in> set (marked_ids rv (markerFor prId) (ps_host s))))"

lemma posted_well_one:
  assumes "distinct (map fst (rv (ps_host s)))" and "pr_rows pr (ps_rows s) = [r]"
    and "length (marked_ids rv (markerFor pr) (ps_host s)) \<le> Suc (lost (ps_host s))"
    and "pw_review_id r = None \<or> (\<exists>i. pw_review_id r = Some i \<and> i \<in> set (marked_ids rv (markerFor pr) (ps_host s)))"
  shows "posted_well rv lost pr s"
  using assms by (auto simp: posted_well_def)

lemma posted_well_cong:
  assumes "posted_well rv lost pr s" and "ps_rows s' = ps_rows s" and "marked_ids rv (markerFor pr) (ps_host s') = marked_ids rv (markerFor pr) (ps_host s)"
    and "distinct (map fst (rv (ps_host s')))" and "lost (ps_host s') = lost (ps_host s)"
  shows "posted_well rv lost pr s'"
  using assms(1,4) unfolding posted_well_def assms(2,3,5) by simp

lemma marked_ids_spread: "spread rv body g ids g' \<Longrightarrow> sublist m body \<Longrightarrow> marked_ids rv m g' = marked_ids rv m g @ ids"
  by (simp add: marked_ids_def spread_def filter_map o_def)

text \<open>The ladder, over the client.\<close>

lemma ladder_by:
  assumes "review_port rv lost reach m c" and "distinct (map fst (rv g))" and "attemptCreateWithBodyOnlyFallback c body sha payload g = (x, g')"
  shows "\<exists>ids. spread rv body g ids g' \<and> lost g \<le> lost g'
    \<and> (case x of
         Inr a \<Rightarrow> (case pa_created a of None \<Rightarrow> length ids + lost g \<le> lost g'
            | Some cr \<Rightarrow> cr_reviewId cr \<in> set ids \<and> length ids + lost g \<le> Suc (lost g'))
       | Inl y \<Rightarrow> length ids + lost g \<le> Suc (lost g'))"
proof -
  have c: "distinct (map fst (rv g)) \<Longrightarrow> created_by rv lost body g (rc_create c body sha cs g)" for g cs
    using assms(1) by (simp add: review_port_def)
  obtain y g1 where y: "rc_create c body sha payload g = (y, g1)" by force
  obtain ids where ids: "spread rv body g ids g1" "lost g \<le> lost g1"
    "case y of Inr cr \<Rightarrow> cr_reviewId cr \<in> set ids \<and> length ids + lost g \<le> Suc (lost g1)
        | Inl x \<Rightarrow> length ids + lost g \<le> (if is_unprocessable x then lost g1 else Suc (lost g1))"
    using c [OF assms(2), of payload] unfolding created_by_def y fst_conv snd_conv by blast
  show ?thesis
  proof (cases "\<exists>e. y = Inl e \<and> is_unprocessable e")
    case False
    then show ?thesis using assms(3) y ids
      by (intro exI [of _ ids]) (auto simp: attemptCreateWithBodyOnlyFallback_def split: sum.splits if_splits)
  next
    case True
    then obtain e where e: "y = Inl e" "is_unprocessable e" by blast
    have n1: "length ids + lost g \<le> lost g1" using ids(3) e by simp
    obtain z g2 where z: "rc_create c body sha [] g1 = (z, g2)" by force
    obtain js where js: "spread rv body g1 js g2" "lost g1 \<le> lost g2"
      "case z of Inr cr \<Rightarrow> cr_reviewId cr \<in> set js \<and> length js + lost g1 \<le> Suc (lost g2)
        | Inl x \<Rightarrow> length js + lost g1 \<le> (if is_unprocessable x then lost g2 else Suc (lost g2))"
      using c [OF spread_distinct [OF ids(1)], of "[]"] unfolding created_by_def z fst_conv snd_conv by blast
    have g': "g' = g2" using assms(3) y e z by (auto simp: attemptCreateWithBodyOnlyFallback_def split: sum.splits if_splits)
    show ?thesis unfolding g'
    proof (intro exI [of _ "ids @ js"] conjI)
      show "spread rv body g (ids @ js) g2" by (rule spread_trans [OF ids(1) js(1)])
      show "lost g \<le> lost g2" using ids(2) js(2) by simp
      show "case x of
         Inr a \<Rightarrow> (case pa_created a of None \<Rightarrow> length (ids @ js) + lost g \<le> lost g2
            | Some cr \<Rightarrow> cr_reviewId cr \<in> set (ids @ js) \<and> length (ids @ js) + lost g \<le> Suc (lost g2))
       | Inl y \<Rightarrow> length (ids @ js) + lost g \<le> Suc (lost g2)"
        using assms(3) y e z n1 js(3) by (auto simp: attemptCreateWithBodyOnlyFallback_def split: sum.splits if_splits)
    qed
  qed
qed

lemma store_well:
  assumes "posted_well rv lost pr s" and r: "pr_rows pr (ps_rows s) = [r]" "p r" and i: "i \<in> set (marked_ids rv (markerFor pr) (ps_host s))"
  shows "posted_well rv lost pr (snd (update_rows p (store_review now i oc ids) s))"
proof (cases "list_all row_checks (map (store_review now i oc ids) (filter p (ps_rows s)))")
  case True
  have "pr_rows pr (upd_where p (store_review now i oc ids) (ps_rows s)) = [store_review now i oc ids r]"
    unfolding pr_rows_upd [OF keeps_pr_store] r(1) using r(2) by (simp add: upd_where_def)
  then show ?thesis using True assms(1) r(1) i by (simp add: update_rows_def posted_well_def store_review_def)
next
  case False
  then show ?thesis using assms(1) by (simp add: update_rows_def)
qed

lemma cas_store_well:
  assumes "posted_well rv lost (pi_pr_id inp) s" and "pr_rows (pi_pr_id inp) (ps_rows s) = [r]" and "pw_review_id r = None"
    and "i \<in> set (marked_ids rv (markerFor (pi_pr_id inp)) (ps_host s))"
  shows "posted_well rv lost (pi_pr_id inp) (snd (cas_store e inp i ids oc notes s))"
proof -
  have "pw_pr_id r = pi_pr_id inp" using assms(2) by (metis (mono_tags, lifting) filter_eq_Cons_iff pr_rows_def)
  then have "posted_well rv lost (pi_pr_id inp) (snd (update_rows (\<lambda>r. pw_pr_id r = pi_pr_id inp \<and> pw_review_id r = None) (store_review (pe_now e 2) i oc ids) s))"
    using assms by (intro store_well [where r = r]) simp_all
  then show ?thesis using assms(1) by (simp add: cas_store_def snd_case_sum)
qed

text \<open>After a ladder from a state with no more marked reviews than were lost.\<close>

lemma ladder_well:
  assumes port: "review_port rv lost reach m (pe_client e)" and d: "distinct (map fst (rv g))"
    and r: "pr_rows (pi_pr_id inp) (ps_rows s) = [r]" "pw_review_id r = None"
    and few: "length (marked_ids rv (markerFor (pi_pr_id inp)) g) \<le> lost g"
    and run: "attemptCreateWithBodyOnlyFallback (pe_client e) (post_body e inp) (pi_head_sha inp) (inlinePayload inp) g = (x, g')"
  shows "posted_well rv lost (pi_pr_id inp) (s\<lparr>ps_host := g'\<rparr>)"
    and "\<And>a cr. x = Inr a \<Longrightarrow> pa_created a = Some cr \<Longrightarrow> cr_reviewId cr \<in> set (marked_ids rv (markerFor (pi_pr_id inp)) g')"
proof -
  obtain ids where ids: "spread rv (post_body e inp) g ids g'" "lost g \<le> lost g'"
    "case x of
         Inr a \<Rightarrow> (case pa_created a of None \<Rightarrow> length ids + lost g \<le> lost g'
            | Some cr \<Rightarrow> cr_reviewId cr \<in> set ids \<and> length ids + lost g \<le> Suc (lost g'))
       | Inl y \<Rightarrow> length ids + lost g \<le> Suc (lost g')"
    using ladder_by [OF port d run] by blast
  note m = marked_ids_spread [OF ids(1) post_body_marked]
  have "length ids + lost g \<le> Suc (lost g')" using ids(3) by (auto split: sum.splits option.splits)
  then show "posted_well rv lost (pi_pr_id inp) (s\<lparr>ps_host := g'\<rparr>)"
    using r few m spread_distinct [OF ids(1)] by (intro posted_well_one [where r = r]) simp_all
  show "\<And>a cr. x = Inr a \<Longrightarrow> pa_created a = Some cr \<Longrightarrow> cr_reviewId cr \<in> set (marked_ids rv (markerFor (pi_pr_id inp)) g')"
    using ids(3) m by simp
qed

lemma takeover_well:
  assumes port: "review_port rv lost reach (markerFor (pi_pr_id inp)) (pe_client e)" and alone: "alone e"
    and well: "posted_well rv lost (pi_pr_id inp) s" and r: "pr_rows (pi_pr_id inp) (ps_rows s) = [r]" "pw_review_id r = None"
    and fits: "length (rv (ps_host s)) \<le> reach"
  shows "posted_well rv lost (pi_pr_id inp) (snd (attemptSameRunTakeover e inp s))"
proof -
  let ?m = "markerFor (pi_pr_id inp)"
  have o [simp]: "pe_others e i z = z" for i z using alone by (simp add: alone_def)
  have d: "distinct (map fst (rv (ps_host s)))" using well by (simp add: posted_well_def)
  have same: "posted_well rv lost (pi_pr_id inp) (s\<lparr>ps_host := g\<rparr>)" if "rv g = rv (ps_host s)" "lost g = lost (ps_host s)" for g
    using posted_well_cong [OF well, of "s\<lparr>ps_host := g\<rparr>"] marked_ids_same [of rv g "ps_host s" ?m] d that by simp
  obtain x g1 where x: "rc_find (pe_client e) ?m (ps_host s) = (x, g1)" by force
  have "rv (snd (rc_find (pe_client e) ?m g)) = rv g \<and> lost (snd (rc_find (pe_client e) ?m g)) = lost g
        \<and> (length (rv g) \<le> reach \<longrightarrow> (case fst (rc_find (pe_client e) ?m g) of Inl x \<Rightarrow> True | Inr None \<Rightarrow> marked_ids rv ?m g = []
             | Inr (Some i) \<Rightarrow> i \<in> set (marked_ids rv ?m g)))" for g
    using port by (simp add: review_port_def)
  from this [of "ps_host s"] have g1: "rv g1 = rv (ps_host s)" "lost g1 = lost (ps_host s)"
    and hit: "case x of Inl x \<Rightarrow> True | Inr None \<Rightarrow> marked_ids rv ?m (ps_host s) = [] | Inr (Some i) \<Rightarrow> i \<in> set (marked_ids rv ?m (ps_host s))"
    using x fits by simp_all
  consider (fail) y where "x = Inl y" | (found) i where "x = Inr (Some i)" | (miss) "x = Inr None"
    by (metis option.exhaust sum.exhaust)
  then show ?thesis
  proof cases
    case fail
    then show ?thesis using x same [OF g1] by (simp add: attemptSameRunTakeover_def Let_def)
  next
    case found
    obtain y g2 where y: "rc_comments (pe_client e) i g1 = (y, g2)" by force
    have "rv (snd (rc_comments (pe_client e) i g1)) = rv g1 \<and> lost (snd (rc_comments (pe_client e) i g1)) = lost g1"
      using port unfolding review_port_def by blast
    then have g2: "rv g2 = rv (ps_host s)" "lost g2 = lost (ps_host s)" using y g1 by simp_all
    have "i \<in> set (marked_ids rv ?m g2)" using hit found marked_ids_same [of rv g2 "ps_host s" ?m, OF g2(1)] by simp
    then have "posted_well rv lost (pi_pr_id inp) (snd (cas_store e inp i ids oc ns (s\<lparr>ps_host := g2\<rparr>)))" for ids oc ns
      using same [OF g2] r by (intro cas_store_well [where r = r]) simp_all
    then show ?thesis using x y found same [OF g2] by (simp add: attemptSameRunTakeover_def Let_def split: sum.split)
  next
    case miss
    obtain y g4 where y: "attemptCreateWithBodyOnlyFallback (pe_client e) (post_body e inp) (pi_head_sha inp) (inlinePayload inp) g1 = (y, g4)"
      by force
    have few: "length (marked_ids rv ?m g1) \<le> lost g1" using hit miss marked_ids_same [of rv g1 "ps_host s" ?m, OF g1(1)] by simp
    have d1: "distinct (map fst (rv g1))" using d g1 by simp
    note l = ladder_well [OF port d1 r few y]
    have "posted_well rv lost (pi_pr_id inp) (snd (cas_store e inp (cr_reviewId cr) ids oc ns (s\<lparr>ps_host := g4\<rparr>)))"
      if "y = Inr a" "pa_created a = Some cr" for a cr ids oc ns
      using l r that by (intro cas_store_well [where r = r]) simp_all
    then show ?thesis using x y miss l(1) same [OF g1]
      by (simp add: attemptSameRunTakeover_def Let_def split: sum.split option.split)
  qed
qed

lemma post_update_well:
  assumes port: "review_port rv lost reach (markerFor (pi_pr_id inp)) (pe_client e)" and alone: "alone e"
    and well: "posted_well rv lost (pi_pr_id inp) s"
    and named: "\<And>i. rid = Some i \<Longrightarrow> i \<in> set (marked_ids rv (markerFor (pi_pr_id inp)) (ps_host s))"
  shows "posted_well rv lost (pi_pr_id inp) (snd (post_update e inp rid age oc stored s))"
proof (cases rid)
  case None
  then show ?thesis using well by (simp add: post_update_def)
next
  case (Some i)
  let ?m = "markerFor (pi_pr_id inp)"
  have o [simp]: "pe_others e k z = z" for k z using alone by (simp add: alone_def)
  obtain x g where x: "rc_update (pe_client e) i (post_body e inp) (ps_host s) = (x, g)" by force
  have d: "distinct (map fst (rv (ps_host s)))" using well by (simp add: posted_well_def)
  have "put_answer rv lost i (post_body e inp) (ps_host s) (snd (rc_update (pe_client e) i (post_body e inp) (ps_host s)))"
    using port unfolding review_port_def by blast
  then have p: "lost g = lost (ps_host s)" "rv g = rv (ps_host s) \<or> rv g = rewritten i (post_body e inp) (rv (ps_host s))"
    using x by (simp_all add: put_answer_def)
  from p(2) have "marked_ids rv ?m g = marked_ids rv ?m (ps_host s) \<and> map fst (rv g) = map fst (rv (ps_host s))"
  proof
    assume "rv g = rv (ps_host s)"
    then show ?thesis using marked_ids_same [of rv g "ps_host s" ?m] by simp
  next
    assume g: "rv g = rewritten i (post_body e inp) (rv (ps_host s))"
    then have "marked_ids rv ?m g = marked_ids rv ?m (ps_host s)" using d named [OF Some] post_body_marked
      by (intro marked_ids_update [where i = i and body = "post_body e inp"]) (simp_all add: rewritten_def)
    then show ?thesis by (simp add: g rewritten_def case_prod_unfold)
  qed
  then have m: "marked_ids rv ?m g = marked_ids rv ?m (ps_host s)" "map fst (rv g) = map fst (rv (ps_host s))" by simp_all
  then have "posted_well rv lost (pi_pr_id inp) (s\<lparr>ps_host := g\<rparr>)"
    using m p(1) d by (intro posted_well_cong [OF well]) simp_all
  then show ?thesis using Some x well by (simp add: post_update_def Let_def split: sum.split)
qed

lemma row_named:
  assumes "posted_well rv lost pr s" and "first_row (pr_rows pr (ps_rows s)) = Some r" and "pw_review_id r = Some i"
  shows "i \<in> set (marked_ids rv (markerFor pr) (ps_host s))"
  using assms by (auto simp: posted_well_def first_row_def split: list.splits)

lemma post_lost_well:
  assumes port: "review_port rv lost reach (markerFor (pi_pr_id inp)) (pe_client e)" and alone: "alone e"
    and well: "posted_well rv lost (pi_pr_id inp) s" and fits: "length (rv (ps_host s)) \<le> reach"
  shows "posted_well rv lost (pi_pr_id inp) (snd (post_lost e inp s))"
proof -
  have o [simp]: "pe_others e k z = z" for k z using alone by (simp add: alone_def)
  have upd: "posted_well rv lost (pi_pr_id inp) (snd (post_update e inp (pw_review_id r) age oc stored z))"
    if "posted_well rv lost (pi_pr_id inp) z" "first_row (pr_rows (pi_pr_id inp) (ps_rows z)) = Some r" for r age oc stored z
    using that by (intro post_update_well [OF port alone]) (auto intro: row_named)
  show ?thesis
  proof (cases "first_row (pr_rows (pi_pr_id inp) (ps_rows s))")
    case None
    then show ?thesis using well by (simp add: post_lost_def)
  next
    case (Some r)
    show ?thesis
    proof (cases "pw_review_id r = None \<and> pe_takeover e")
      case False
      then show ?thesis using Some well upd [OF well Some] by (auto simp: post_lost_def Let_def)
    next
      case True
      obtain x s1 where x: "attemptSameRunTakeover e inp s = (x, s1)" by force
      have "pr_rows (pi_pr_id inp) (ps_rows s) = [r]"
        using well Some by (auto simp: posted_well_def first_row_def split: list.splits)
      then have s1: "posted_well rv lost (pi_pr_id inp) s1" using takeover_well [OF port alone well _ _ fits, of r] True x by simp
      have gone: "posted_well rv lost (pi_pr_id inp) (snd (post_update e inp None age oc stored s1))" for age oc stored
        using s1 by (simp add: post_update_def)
      show ?thesis using Some True x well s1 gone upd [OF s1]
        by (simp add: post_lost_def Let_def split: sum.split takeover.split option.split)
    qed
  qed
qed

lemma post_won_well:
  assumes port: "review_port rv lost reach m (pe_client e)" and alone: "alone e"
    and d: "distinct (map fst (rv (ps_host s)))" and r: "pr_rows (pi_pr_id inp) (ps_rows s) = [r]" "pw_review_id r = None"
    and few: "length (marked_ids rv (markerFor (pi_pr_id inp)) (ps_host s)) \<le> lost (ps_host s)"
  shows "posted_well rv lost (pi_pr_id inp) (snd (post_won e inp s))"
proof -
  have o [simp]: "pe_others e k z = z" for k z using alone by (simp add: alone_def)
  have pr: "pw_pr_id r = pi_pr_id inp" using r(1) by (metis (mono_tags, lifting) filter_eq_Cons_iff pr_rows_def)
  obtain x g where x: "attemptCreateWithBodyOnlyFallback (pe_client e) (post_body e inp) (pi_head_sha inp) (inlinePayload inp) (ps_host s) = (x, g)"
    by force
  note l = ladder_well [OF port d r few x]
  have start: "posted_well rv lost (pi_pr_id inp) s" using d r few by (intro posted_well_one [where r = r]) simp_all
  show ?thesis
  proof (cases x)
    case (Inl z)
    then show ?thesis using x l(1) start by (simp add: post_won_def Let_def)
  next
    case (Inr a)
    show ?thesis
    proof (cases "pa_created a")
      case None
      let ?f = "\<lambda>r. r\<lparr>pw_outcome := Degraded_unposted, pw_updated_at := pe_now e 1\<rparr>"
      have "pr_rows (pi_pr_id inp) (upd_where (\<lambda>r. pw_pr_id r = pi_pr_id inp) ?f (ps_rows s)) = [?f r]"
        unfolding pr_rows_upd [OF keeps_pr_degrade] r(1) by (simp add: upd_where_def pr)
      then have "posted_well rv lost (pi_pr_id inp) (snd (update_rows (\<lambda>r. pw_pr_id r = pi_pr_id inp) ?f (s\<lparr>ps_host := g\<rparr>)))"
        using l(1) r by (simp add: update_rows_def posted_well_def)
      then show ?thesis using None Inr x start l(1) by (simp add: post_won_def Let_def snd_case_sum)
    next
      case (Some cr)
      have "posted_well rv lost (pi_pr_id inp) (snd (update_rows (\<lambda>r. pw_pr_id r = pi_pr_id inp) (store_review (pe_now e 1) (cr_reviewId cr) oc ids) (s\<lparr>ps_host := g\<rparr>)))"
        for oc ids using l(2) [OF Inr Some] l(1) r pr by (intro store_well [where r = r]) simp_all
      then show ?thesis using Some Inr x start l(1) by (simp add: post_won_def Let_def snd_case_sum)
    qed
  qed
qed

lemma doPost_well:
  assumes port: "review_port rv lost reach (markerFor (pi_pr_id inp)) (pe_client e)" and alone: "alone e"
    and well: "posted_well rv lost (pi_pr_id inp) s" and fits: "length (rv (ps_host s)) \<le> reach"
  shows "posted_well rv lost (pi_pr_id inp) (snd (doPost e inp s))"
proof -
  have o [simp]: "pe_others e k z = z" for k z using alone by (simp add: alone_def)
  obtain x s1 where x: "claim_post e inp s = (x, s1)" by force
  have host1: "ps_host s1 = ps_host s" using x by (auto simp: claim_post_def split: if_splits sum.splits prod.splits)
  show ?thesis
  proof (cases "x = Inr True")
    case True
    then have none: "pr_rows (pi_pr_id inp) (ps_rows s) = []" and rows: "ps_rows s1 = ps_rows s @ [claim_row (pe_now e 0) (pi_pr_id inp)]"
      using x by (auto simp: claim_post_def split: if_splits sum.splits prod.splits)
    have "pr_rows (pi_pr_id inp) (ps_rows s1) = [claim_row (pe_now e 0) (pi_pr_id inp)]"
      using none rows by (simp add: pr_rows_def claim_row_def)
    then have "posted_well rv lost (pi_pr_id inp) (snd (post_won e inp s1))"
      using well none host1
      by (intro post_won_well [OF port alone, where r = "claim_row (pe_now e 0) (pi_pr_id inp)"]) (simp_all add: posted_well_def claim_row_def)
    then show ?thesis using True x well by (simp add: doPost_def)
  next
    case False
    then have rows: "ps_rows s1 = ps_rows s" using x by (auto simp: claim_post_def split: if_splits sum.splits prod.splits)
    then have "posted_well rv lost (pi_pr_id inp) s1"
      using well by (intro posted_well_cong [OF well]) (simp_all add: host1 rows posted_well_def)
    then show ?thesis using False x well host1 fits post_lost_well [OF port alone, of s1] by (auto simp: doPost_def split: sum.split bool.split)
  qed
qed

definition post_all :: "('g post_env \<times> post_input) list \<Rightarrow> 'g post_state \<Rightarrow> 'g post_state" where
  "post_all calls s = fold (\<lambda>(e, inp) s. snd (doPost e inp s)) calls s"

lemma markerFor_text: "markerFor prId \<noteq> []"
  by (simp add: markerFor_def)

text \<open>(C21) However often a pull request is posted through the production client, one call after another, with crashes, database
  faults, refusals, rate limits, expired tokens and answers that never arrive: the reviews that carry its marker are one, and those the
  server added behind an answer of 5xx; and a stored review id is the id of a marked review. Assumed of the server is
  what one request does, and that the twenty pages of the scan show the reviews there are before each call.\<close>

theorem one_review:
  assumes "pr_rows prId (ps_rows s) = []" and "marked_ids rv (markerFor prId) (ps_host s) = []"
    and "distinct (map fst (rv (ps_host s)))" and "lost (ps_host s) = 0"
    and "\<forall>(e, inp)\<in>set calls. alone e \<and> pi_pr_id inp = prId
       \<and> (\<exists>api. pe_client e = api_client api p \<and> reviews_server rv lost per reach link p api)"
    and "\<forall>k<length calls. length (rv (ps_host (post_all (take k calls) s))) \<le> reach"
  shows "length (marked_ids rv (markerFor prId) (ps_host (post_all calls s))) \<le> 1 + lost (ps_host (post_all calls s))
    \<and> (\<forall>r\<in>set (pr_rows prId (ps_rows (post_all calls s))). \<forall>i. pw_review_id r = Some i
         \<longrightarrow> i \<in> set (marked_ids rv (markerFor prId) (ps_host (post_all calls s))))"
proof -
  have "posted_well rv lost prId (post_all calls s)" using assms(5,6)
  proof (induction calls rule: rev_induct)
    case Nil
    then show ?case using assms(1-4) by (simp add: post_all_def posted_well_def)
  next
    case (snoc c calls)
    obtain e inp where c: "c = (e, inp)" by (cases c)
    obtain api where api: "alone e" "pi_pr_id inp = prId" "pe_client e = api_client api p" "reviews_server rv lost per reach link p api"
      using snoc.prems(1) c by auto
    have fits: "length (rv (ps_host (post_all calls s))) \<le> reach" using snoc.prems(2) by force
    have earlier: "\<forall>k<length calls. length (rv (ps_host (post_all (take k calls) s))) \<le> reach"
    proof (intro allI impI)
      fix k assume "k < length calls"
      then show "length (rv (ps_host (post_all (take k calls) s))) \<le> reach" using snoc.prems(2) [rule_format, of k] by simp
    qed
    have port: "review_port rv lost reach (markerFor (pi_pr_id inp)) (pe_client e)"
      using server_port [OF api(4) markerFor_text, of prId] api(2,3) by simp
    have "posted_well rv lost (pi_pr_id inp) (post_all calls s)" using snoc.IH snoc.prems(1) earlier api(2) by simp
    from doPost_well [OF port api(1) this fits] have "posted_well rv lost prId (snd (doPost e inp (post_all calls s)))"
      using api(2) by simp
    then show ?case by (simp add: post_all_def c)
  qed
  then show ?thesis by (auto simp: posted_well_def split: list.splits option.splits)
qed

section \<open>A server\<close>

text \<open>It keeps thirty reviews, and answers the first attempt of every create with 502 behind its effect. Bodies are in a
  code of their own.\<close>

fun enc_review :: "nat \<times> string \<Rightarrow> string" where
  "enc_review (i, b) = replicate i CHR ''1'' @ concat (map (\<lambda>c. [CHR ''c'', c]) b) @ ''.''"

fun dec_reviews :: "nat \<Rightarrow> string \<Rightarrow> string \<Rightarrow> rat json list" where
  "dec_reviews n b [] = []"
| "dec_reviews n b (x # s) =
     (if x = CHR ''1'' then dec_reviews (Suc n) b s
      else if x = CHR ''.'' then JObj [(''id'', JNum (of_nat n)), (''body'', JStr b)] # dec_reviews 0 [] s
      else case s of [] \<Rightarrow> [] | c # s' \<Rightarrow> dec_reviews n (b @ [c]) s')"

lemma dec_ones: "dec_reviews n b (replicate i CHR ''1'' @ s) = dec_reviews (n + i) b s"
  by (induction i arbitrary: n) simp_all

lemma dec_body: "dec_reviews n b (concat (map (\<lambda>c. [CHR ''c'', c]) t) @ s) = dec_reviews n (b @ t) s"
  by (induction t arbitrary: b) simp_all

lemma dec_enc: "dec_reviews 0 [] (concat (map enc_review rs)) = map (\<lambda>(i, b). JObj [(''id'', JNum (of_nat i)), (''body'', JStr b)]) rs"
  by (induction rs) (auto simp: dec_ones dec_body)

type_synonym demo_hub = "(nat \<times> string) list \<times> nat"

definition hub_view :: "demo_hub \<Rightarrow> (int \<times> string) list" where
  "hub_view s = map (\<lambda>(i, b). (int i, b)) (take 30 (fst s))"

definition hub_answer :: "int \<Rightarrow> string \<Rightarrow> http_response" where
  "hub_answer st body = \<lparr>hr_status = st, hr_headers = [], hr_body = Some body\<rparr>"

definition hub_create :: "nat \<Rightarrow> string \<Rightarrow> demo_hub \<Rightarrow> (string + http_response) \<times> demo_hub" where
  "hub_create n b s =
     (if 30 \<le> length (fst s) then (Inr (hub_answer 403 ''full''), s)
      else let i = Suc (Max (insert 0 (fst ` set (fst s)))); rs = fst s @ [(i, b)]
           in if n = 0 then (Inr (hub_answer 502 ''gateway''), (rs, Suc (snd s)))
              else (Inr (hub_answer 200 (CHR ''o'' # enc_review (i, b))), (rs, snd s)))"

definition hub_http :: "pull_ref \<Rightarrow> nat \<Rightarrow> http_request \<Rightarrow> demo_hub \<Rightarrow> (string + http_response) \<times> demo_hub" where
  "hub_http p n q s =
     (if hq_method q = ''POST'' then
        (case obj_field ''body'' (hq_body q) of
           Some (JStr b) \<Rightarrow> hub_create n b s | _ \<Rightarrow> (Inr (hub_answer 400 ''body''), s))
      else if hq_method q = ''GET'' then
        (Inr (hub_answer 200 (CHR ''a'' # (if hq_path q = reviews_path p then concat (map enc_review (take 30 (fst s))) else []))), s)
      else (Inr (hub_answer 404 ''not here''), s))"

definition hub_json :: "string \<Rightarrow> rat json option" where
  "hub_json t = (case t of [] \<Rightarrow> None
     | c # s \<Rightarrow> if c = CHR ''a'' then Some (JArr (dec_reviews 0 [] s)) else Some (case dec_reviews 0 [] s of [] \<Rightarrow> JNull | v # _ \<Rightarrow> v))"

definition hub_number :: "rat json option \<Rightarrow> int" where
  "hub_number v = (case v of Some (JNum x) \<Rightarrow> \<lfloor>x\<rfloor> | _ \<Rightarrow> 0)"

definition hub_env :: "pull_ref \<Rightarrow> demo_hub gh_env" where
  "hub_env p = \<lparr>ge_aborted = (\<lambda>_. None), ge_token = (\<lambda>_. Inr ''t''), ge_http = hub_http p, ge_now = (\<lambda>_. 0), ge_date = (\<lambda>_. None)\<rparr>"

definition hub_api :: "pull_ref \<Rightarrow> demo_hub review_api" where
  "hub_api p = \<lparr>ra_get = (\<lambda>_. hub_env p), ra_write = hub_env p, ra_json = hub_json, ra_number = hub_number\<rparr>"

lemma hub_simps [simp]:
  "ge_http (ra_write (hub_api p)) = hub_http p" "ge_http (ra_get (hub_api p) k) = hub_http p" "ra_number (hub_api p) = hub_number"
  "hr_status (hub_answer st b) = st" "hr_headers (hub_answer st b) = []" "response_json (hub_api p) (hub_answer st b)
     = (case hub_json b of None \<Rightarrow> Inl (GhShape ''SyntaxError'') | Some v \<Rightarrow> Inr v)"
  by (simp_all add: hub_api_def hub_env_def hub_answer_def response_json_def)

lemma hub_create_answer: "post_answer hub_view snd (hub_api p) b s (hub_create n b s)"
proof (cases "30 \<le> length (fst s)")
  case True
  then show ?thesis by (simp add: post_answer_def hub_create_def)
next
  case False
  let ?i = "Suc (Max (insert 0 (fst ` set (fst s))))"
  have new: "j \<in> fst ` set (fst s) \<Longrightarrow> j < ?i" for j by (simp add: less_Suc_eq_le)
  have fresh: "int ?i \<notin> fst ` set (hub_view s)"
  proof
    assume "int ?i \<in> fst ` set (hub_view s)"
    then have "?i \<in> fst ` set (take 30 (fst s))" by (force simp: hub_view_def)
    then have "?i \<in> fst ` set (fst s)" using set_take_subset by fast
    then show False using new by blast
  qed
  have view: "hub_view (fst s @ [(?i, b)], m) = hub_view s @ [(int ?i, b)]" for m using False by (simp add: hub_view_def)
  have body: "response_json (hub_api p) (hub_answer 200 (CHR ''o'' # enc_review (?i, b))) = Inr (JObj [(''id'', JNum (of_nat ?i)), (''body'', JStr b)])"
    using dec_enc [of "[(?i, b)]"] by (simp add: hub_json_def)
  have "created_id hub_number (JObj [(''id'', JNum (of_nat ?i)), (''body'', JStr b)]) = Inr (int ?i)"
    by (simp add: created_id_def hub_number_def obj_field_def)
  then show ?thesis using False fresh view body
    by (auto simp: post_answer_def hub_create_def Let_def simp del: enc_review.simps)
qed

lemma hub_server: "reviews_server hub_view snd 30 30 (\<lambda>_. reviews_path p) p (hub_api p)"
proof -
  have post: "post_answer hub_view snd (hub_api p) body s
      (hub_http p n \<lparr>hq_method = ''POST'', hq_path = reviews_path p, hq_token = token, hq_body = review_request sha body cs\<rparr> s)" for n token sha body cs s
    using hub_create_answer by (simp add: hub_http_def review_request_def obj_field_def)
  have put: "put_answer hub_view snd i body s
      (snd (hub_http p n \<lparr>hq_method = ''PUT'', hq_path = review_path p i, hq_token = token, hq_body = JObj [(''body'', JStr body)]\<rparr> s))" for n token i body s
    by (simp add: hub_http_def put_answer_def)
  have len: "length (hub_view s) \<le> 30" for s by (simp add: hub_view_def)
  have shown: "list_all2 (shown hub_number) (hub_view s) (map (\<lambda>(i, b). JObj [(''id'', JNum (of_nat i)), (''body'', JStr b)]) (take 30 (fst s)))" for s
    unfolding hub_view_def list_all2_map1 list_all2_map2
    by (rule list_all2_refl) (auto simp: shown_def hub_number_def obj_field_def)
  have get: "get_answer hub_view snd 30 30 (\<lambda>_. reviews_path p) (hub_api p) path s
      (hub_http p n \<lparr>hq_method = ''GET'', hq_path = path, hq_token = token, hq_body = JNull\<rparr> s)" for n token path s
  proof -
    have "page_answer 30 (\<lambda>_. reviews_path p) (hub_api p) k (hub_view s) (hub_answer 200 (CHR ''a'' # concat (map enc_review (take 30 (fst s)))))"
      if "k = 0 \<or> k * 30 < length (hub_view s)" for k
    proof -
      have "k = 0" using that len [of s] by (cases k) auto
      then show ?thesis using len [of s] shown [of s] dec_enc [of "take 30 (fst s)"]
        by (simp add: page_answer_def hub_json_def headerOf_def extractNextLink_def)
    qed
    then show ?thesis by (auto simp: get_answer_def hub_http_def)
  qed
  show ?thesis unfolding reviews_server_def hub_simps using post put get by (simp add: MARKER_SCAN_MAX_PAGES_def)
qed

definition hub_post_env :: "(nat \<Rightarrow> bool) \<Rightarrow> demo_hub post_env" where
  "hub_post_env faulty = \<lparr>pe_client = api_client (hub_api \<lparr>pl_owner = ''o'', pl_repo = ''r'', pl_number = 1\<rparr>) \<lparr>pl_owner = ''o'', pl_repo = ''r'', pl_number = 1\<rparr>,
     pe_now = (\<lambda>_. 0), pe_clk = 0, pe_eid = ''e'', pe_window = 300, pe_takeover = True,
     pe_aborted = (\<lambda>_. False), pe_others = (\<lambda>_ s. s), pe_fault = faulty, pe_web_host = ''github.com''\<rparr>"

theorem one_review_witness:
  "length (marked_ids hub_view (markerFor ''p'') (ps_host (post_all
       [(hub_post_env (\<lambda>i. i = 1), demo_post_input [3]), (hub_post_env (\<lambda>_. False), demo_post_input [3, 20])]
       \<lparr>ps_db = demo_db, ps_rows = [], ps_host = ([], 0)\<rparr>)))
    \<le> 1 + snd (ps_host (post_all
       [(hub_post_env (\<lambda>i. i = 1), demo_post_input [3]), (hub_post_env (\<lambda>_. False), demo_post_input [3, 20])]
       \<lparr>ps_db = demo_db, ps_rows = [], ps_host = ([], 0)\<rparr>))"
  (is "length (marked_ids hub_view _ (ps_host (post_all ?calls ?s))) \<le> _")
proof -
  let ?p = "\<lparr>pl_owner = ''o'', pl_repo = ''r'', pl_number = 1\<rparr>"
  have calls: "\<forall>(e, inp)\<in>set ?calls. alone e \<and> pi_pr_id inp = ''p''
     \<and> (\<exists>api. pe_client e = api_client api ?p \<and> reviews_server hub_view snd 30 30 (\<lambda>_. reviews_path ?p) ?p api)"
    using hub_server [of ?p] by (auto simp: hub_post_env_def alone_def)
  have fits: "\<forall>k<length ?calls. length (hub_view (ps_host (post_all (take k ?calls) ?s))) \<le> 30" by (simp add: hub_view_def)
  have start: "pr_rows ''p'' (ps_rows ?s) = []" "marked_ids hub_view (markerFor ''p'') (ps_host ?s) = []"
    "distinct (map fst (hub_view (ps_host ?s)))" "snd (ps_host ?s) = 0"
    by (simp_all add: pr_rows_def marked_ids_def hub_view_def)
  show ?thesis using one_review [OF start calls fits] by (rule conjunct1)
qed

end
