(* ===== verification/Spec2Isabelle.thy ===== *)
theory Spec2Isabelle
  imports Background_Runner Review_Runner Scheduler Loop_Health Outbox_Port
    Cost_Memory Cost_Reconciler Workspace_Release Findings Arbitration Chunk_Passes Fan_Out
    Login Llm_Client Delivery Run_History Review_Server
begin

text \<open>
  \<^bold>\<open>codemaster backend: jobs, reviews, chunks, findings, posting, outbox, model calls, workspaces and login.\<close>

  The backend reviews pull requests. A GitHub webhook writes a row of the transactional outbox; the
  dispatcher (\<^verbatim>\<open>outbox/\<close>, \<^verbatim>\<open>runner/outbox_dispatcher_loop.ts\<close>) drains the outbox and starts work through
  a port that turns a workflow start into a row of one of two job tables. Review jobs are executed by
  \<^verbatim>\<open>runner/review_job_runner.ts\<close> under a lease and a pull-request mutex, and drive the life cycle of a
  review run (\<^verbatim>\<open>domain/transition_run.ts\<close>). A review allocates a workspace (\<^verbatim>\<open>workspace/\<close>), cuts the
  changed files into chunks and redacts them (\<^verbatim>\<open>chunking/\<close>, \<^verbatim>\<open>redact/\<close>), fans the chunks out over model
  calls (\<^verbatim>\<open>review/pipeline/parallelism.ts\<close>), and aggregates and arbitrates the findings
  (\<^verbatim>\<open>review/aggregation.ts\<close>, \<^verbatim>\<open>review/arbitration/\<close>), posts them as a review with inline comments
  (\<^verbatim>\<open>activities/post_review_results.activity.ts\<close>) through the GitHub client (\<^verbatim>\<open>integrations/github/\<close>), and enters
  what became of each finding (\<^verbatim>\<open>domain/repos/review_findings_repo.ts\<close>). All other work is generic background jobs, enqueued by
  the port or by the scheduler (\<^verbatim>\<open>runner/scheduler.ts\<close>) and executed by \<^verbatim>\<open>runner/background_runner.ts\<close>.
  Every paid model call (\<^verbatim>\<open>integrations/llm/client.ts\<close>) passes the cost caps (\<^verbatim>\<open>cost/\<close>) and a ledger that
  answers its retries. The console is entered through a rate-limited login (\<^verbatim>\<open>api/auth/\<close>). The state of all of this is in PostgreSQL
  tables, and correctness rests on leases, fences, unique indexes and transactions; the stages of a
  review in between are pure functions of their inputs. These are the parts the theories model; all paths below are under \<^verbatim>\<open>src/apps/backend/src/\<close> unless they start with
  \<^verbatim>\<open>libs/\<close>.

  \<^bold>\<open>How the model is built.\<close> A table is a list of rows (records with the columns the code uses), a
  statement a function on it (\<open>upd_where\<close>, \<open>hits\<close>, \<open>returning\<close>, \<open>order_by\<close> in \<open>Prelude\<close>). An operation
  takes its arguments, the instants it reads from the clock and the tables, and returns its result with
  the new tables; a thrown error is the left injection of a sum. Statements of one transaction commit
  together or not at all. Calls are interleaved at the granularity of transactions, because every
  operation that races with another one does so on a row lock; where the code awaits between a check and what it rests on
  with no lock (a login attempt, a model call between its ledger lookup and its store, a post between its claim and its
  create) the two are separate steps. Instants in the database are integer
  microseconds, JavaScript dates integer milliseconds. Behaviour that is not in the repository is a
  parameter: the SHA-256 digest, the uuids drawn by the database, the JSON reading of a driver, what a
  job handler or a sink does (any value, any error), statement faults, and what other workers do while
  a row is dispatched.

  \<^bold>\<open>Theories.\<close>
  \<^item> \<open>Prelude\<close>: statements over tables, decimal text, splitting and joining.
  \<^item> \<open>Canonical_Json\<close>: JSON values, the payload schema, key sorting and the canonical text that is
    hashed (\<^verbatim>\<open>runner/background_jobs_repo.ts\<close>).
  \<^item> \<open>Job_Table\<close>: what the two job tables share: states, the claim predicate, the lease fence, and a
    locale of tables whose statements are steps of a job (with its invariant, and the facts that
    settled rows stay settled and that an old token is never matched again).
  \<^item> \<open>Background_Jobs\<close>, \<open>Background_Runner\<close>: \<^verbatim>\<open>runner/background_jobs_repo.ts\<close> and
    \<^verbatim>\<open>runner/background_runner.ts\<close>: enqueue, claim, renew, settle, defer, reap; one cycle of the runner
    refines a verdict on the claimed row.
  \<^item> \<open>Retry\<close>: \<^verbatim>\<open>runner/run_with_retry.ts\<close>, \<^verbatim>\<open>retry_policies.ts\<close>, \<^verbatim>\<open>retry_hints.ts\<close>.
  \<^item> \<open>Review_Db\<close>, \<open>Run_Lifecycle\<close>: the review tables, the workflow event log, the audit trail and
    \<^verbatim>\<open>domain/transition_run.ts\<close>, \<^verbatim>\<open>workflow/_supersede.ts\<close>, \<^verbatim>\<open>ingest/_review_run_allocator.ts\<close>,
    \<^verbatim>\<open>domain/stale_write_guard.ts\<close>, the lifecycle and reaper activities.
  \<^item> \<open>Pr_Mutex\<close>: \<^verbatim>\<open>concurrency/pr_mutex.ts\<close>, the janitor and the release activity.
  \<^item> \<open>Review_Payload\<close>, \<open>Review_Jobs\<close>: the payload contract and \<^verbatim>\<open>runner/review_jobs_repo.ts\<close>, whose
    terminal settle and stuck-run reaper change job and run in one transaction.
  \<^item> \<open>Run_History\<close>: every writer of the run states and of the current pointer in one history (\<open>Run_Lifecycle\<close>, the
    settle and the reaper of \<open>Review_Jobs\<close>, the events of the others), and what it leaves a new push. The retention sweep of old
    finished runs is left out.
  \<^item> \<open>Review_Shell\<close>, \<open>Review_Runner\<close>: \<^verbatim>\<open>runner/shell_mutex.ts\<close>, \<^verbatim>\<open>runner/review_job_shell.ts\<close> (mutex,
    renew loop, supersession checks, release) and \<^verbatim>\<open>runner/review_job_runner.ts\<close>.
  \<^item> \<open>Scheduler\<close>, \<open>Loop_Health\<close>: cron and interval schedules of \<^verbatim>\<open>runner/scheduler.ts\<close>; supervision
    and readiness of the loops (\<^verbatim>\<open>runner/loop_health.ts\<close>, \<^verbatim>\<open>runner/background_runner_main.ts\<close>).
  \<^item> \<open>Outbox\<close>, \<open>Outbox_Dispatch\<close>, \<open>Outbox_Port\<close>: \<^verbatim>\<open>domain/repos/outbox_repo.ts\<close>, the dispatch activity
    and loop, the sinks and the job port.
  \<^item> \<open>Cost\<close>, \<open>Cost_Memory\<close>, \<open>Cost_Journal\<close>, \<open>Cost_Window\<close>, \<open>Cost_Reconciler\<close>: \<^verbatim>\<open>cost/*.ts\<close>. The locale
    \<open>cost_enforcer\<close> states what an enforcer promises over an abstract ledger of daily spend; the
    Postgres enforcer and the deciding path of the journal interpret it, the locale
    \<open>paired_enforcer\<close> follows from it and is interpreted by the in-memory double.
  \<^item> \<open>Llm_Client\<close>: \<^verbatim>\<open>integrations/llm/client.ts\<close> and \<^verbatim>\<open>invocation_ledger.ts\<close>: one paid call over \<open>Cost\<close> and
    \<open>Cost_Journal\<close>. Which write fails, what the provider answers and the instants of check and settle are
    fields of the environment of a call; the log of the provider is kept beside the state of the code. Calls that race are
    interleaved between the lookup and the rest of the call, which stays one step: its writes to the ledger and to the daily
    totals are single statements.
  \<^item> \<open>Login_Limit\<close>, \<open>Login\<close>: \<^verbatim>\<open>api/auth/rate_limit.ts\<close>, \<^verbatim>\<open>client_ip.ts\<close>, \<^verbatim>\<open>credential_lockout.ts\<close>, the two account
    repositories, \<^verbatim>\<open>roles.ts\<close>, \<^verbatim>\<open>role_resolver.ts\<close>, \<^verbatim>\<open>login.ts\<close> and the login route. The locale \<open>login_limiter\<close>
    states what a limiter promises over any interleaving of the checks and the records of requests, faults of the statements
    included; both limiters interpret it.
  \<^item> \<open>Workspace\<close>, \<open>Workspace_Release\<close>: \<^verbatim>\<open>workspace/lease_repo.ts\<close>, \<^verbatim>\<open>workspace/transition.ts\<close> and the
    activities that allocate, release and sweep the leases, over the table of leases and the set of
    directories.
  \<^item> \<open>Js_Regex\<close>, \<open>Redaction\<close>: JavaScript text as UTF-16 units with the regular expressions the
    detectors use (backtracking as a list of the possible rests, in the order they are tried), and
    \<^verbatim>\<open>redact/*.ts\<close>.
  \<^item> \<open>Chunks\<close>, \<open>Chunk_Passes\<close>: \<^verbatim>\<open>libs/contracts/src/diff_chunking.v1.ts\<close>, \<^verbatim>\<open>chunking/token_budget.ts\<close>,
    \<^verbatim>\<open>batcher.ts\<close>, \<^verbatim>\<open>hunk_fallback.ts\<close>, \<^verbatim>\<open>selector.ts\<close> and
    \<^verbatim>\<open>activities/chunk_and_redact.activity.ts\<close>. The tree-sitter chunkers are parameters.
  \<^item> \<open>Fan_Out\<close>: the worker pool of \<^verbatim>\<open>review/pipeline/parallelism.ts\<close> as a step relation with a step
    per settled call, and the stage wrapper of \<^verbatim>\<open>degradation.ts\<close>.
  \<^item> \<open>Findings\<close>, \<open>Arbitration\<close>: the finding contract, \<^verbatim>\<open>review/aggregation.ts\<close>,
    \<^verbatim>\<open>aggregation_semantic.ts\<close> with their activities; \<^verbatim>\<open>review/arbitration/*.ts\<close> with the repositories it
    writes. Confidences are rationals, the cosine of two embeddings is over the reals.
  \<^item> \<open>Github_Api\<close>: \<^verbatim>\<open>integrations/github/api_client.ts\<close>, \<^verbatim>\<open>token_provider.ts\<close> and \<^verbatim>\<open>review_client.ts\<close>. The
    server is a function of the attempt, the request and a state of its own; \<^verbatim>\<open>JSON.parse\<close>, \<^verbatim>\<open>Date.parse\<close> and the
    signing are parameters. Header names are ASCII; the loop's number of attempts is its fuel, as in the code.
  \<^item> \<open>Review_Body\<close>: the rendering half of \<^verbatim>\<open>activities/post_review_results.activity.ts\<close>: inline comments, the
    classifier against the hunks, the section of the dropped findings and its cap. Text is a list of UTF-8 bytes.
  \<^item> \<open>Posting\<close>: \<^verbatim>\<open>doPost\<close> of the same file. The steps of a call are separated by points where other workers may act
    (\<open>pe_others\<close>), a write may fault (\<open>pe_fault\<close>) and the signal may be aborted (\<open>pe_aborted\<close>); the host's reviews are a
    view of the client's state.
  \<^item> \<open>Review_Server\<close>: the contract of a server for one request on the reviews of a pull request, a rule for the request loop, and from
    them what the production client does, and what a sequence of posts leaves on the pull request. The server may answer 5xx after
    it has applied a create; those reviews are counted.
  \<^item> \<open>Delivery\<close>: \<^verbatim>\<open>review_findings_repo.ts\<close> with the CHECKs of the life cycle, the setters, \<^verbatim>\<open>review/pipeline/posting.ts\<close>,
    the bookkeeping of \<^verbatim>\<open>runner/review_job_shell.ts\<close>, and the aggregate step of \<^verbatim>\<open>review/pipeline/orchestrator.ts\<close>.
    A join with several pairs for one id picks any; foreign keys are not modelled.

  \<^bold>\<open>What the theorems show.\<close> For both job tables: over every history the rows keep their invariant,
  claims never overlap in a running lease, a worker that lost its lease cannot settle, attempts stay
  within the budget, and a payload that was enqueued verifies on claim. For a runner cycle: the exact
  fate of the claimed job for every outcome of its handler. For reviews: whatever happened before, a new push can be allocated and leaves one active run; a superseded run is
  locked out of writes; the mutex is exclusive and always
  released, a terminal settle moves job and run together. For the scheduler: the next instant of a
  cron line is the first match and lies within a day, and a pass enqueues each due schedule once and
  advances it. For the outbox: stale settles are fenced, the retry budget is exact, the fate of each
  row of a drain pass, and that a review trigger creates one job however often it is dispatched. For
  the cost caps: a grant never overshoots a cap and a refusal changes nothing, aggregate and journal
  agree, the reconciler balances stale calls and is idempotent, and its window covers the retry loop.
  For a review in between: every interleaving of the fan-out ends, with the sequential result
  or, when a call is cancelled or throttled, with that fault; every finding gets one decision, secrets are
  never suppressed under the shipped policy, and a retry of the application writes only what is
  missing; a chunk id is a version 5 uuid, splitting to the token budget ends and keeps the lines, the
  fallback chunks are exactly the windows of the changed lines, and only files of the workspace are read;
  redaction is a positionwise reference, and exact aggregation is grouping. For workspaces: a
  released lease stays released, and a release removes exactly the directory of its run. For a model call:
  the provider completes one call per ledger key and no more than one for each lost response, race and sweep, it is called
  only under both caps, and the totals of the day grow by an amount that is stated for every fault: what was bought, when there is none. For posting: the findings are split exactly by the hunks, a request of the GitHub
  client is bounded in attempts, sleeps and refreshes, at most one review carries the marker of a pull request over any
  sequence of posts, besides those the server added behind a 5xx, nothing is written after an abort, and after a first post every finding carries its own comment or
  the reason it was dropped; an outcome, once entered, is final. For the login: failures of an address are bounded in every horizon by the limit, the requests under way together and the
  failed statements, and a login succeeds only with a verified credential or a mapped directory group.

  Some theorems prove behaviour that differs from the documentation or the intent: a dispatched
  outbox row can die, the stuck-run reaper stops at a poisoned row, a failed cap read fails the call, the
  reconciler can release the wrong reserve of a recurring call, the retry of an old cleanup removes a live
  workspace, a failing statement makes the orphan sweep report leases it did not flip, merged findings
  can leave the contract, two overlapping secret findings delete text behind the secret, a replayed call
  never settles, a failed archive and a call over midnight leave a reserve charged, an account locks at
  most once between two successful logins, a burst of logins passes the limiter, and two concurrent disables leave no administrator. In posting: a write
  answered with a 5xx may be applied twice, the successful call that uses up the rate limit is reported as an error,
  two workers that hold one run can both create a review, comment ids that come back short fail the call behind the post,
  a later run enters its findings as delivered with the comments of an earlier one, and a failed aggregate step lets so
  many findings through that the post refuses all of them.

  \<^bold>\<open>Bounds and fuel.\<close> The cron scan looks at the 2880 minute boundaries the code allows; a match is
  proved to lie within the first 1440, so the bound is never reached for an accepted line. The enqueue loop makes
  the attempts the code makes. The heartbeat, the renew loop, the drain loop and the retry loop
  recurse over the number of rounds, which is an argument or the policy's bound. The splitting to
  the token budget is a partial function, proved to return. A regular expression is matched without
  fuel: a repetition consumes a unit per round. Counters and cents are
  unbounded integers: the code keeps them in JavaScript numbers and \<^verbatim>\<open>bigint\<close> columns and stays far
  below the limits of both.

  \<^bold>\<open>Not modelled.\<close> The transports of the HTTP clients and the Confluence and model provider adapters, the admin routes,
  cookies and sessions, prompt assembly and the other stages of the review pipeline, retrieval and embeddings,
  tree-sitter chunkers and static analysis, cryptography and secrets, configuration and metrics: they
  are calls of services, text for a model, or SQL reads for a console, whose correctness is not in the
  repository's own state changes. The markdown chunker, the manifest parsers and the webhook ingest
  would be the next parts to model.
\<close>

end
